(* ===== verification/Prelude.thy ===== *)
theory Prelude
  imports Main "HOL-Library.Word" "HOL-Library.Tree" "HOL-Library.Monad_Syntax"
begin

text \<open>
  Shared vocabulary of the development: the machine integers of the 32-bit build, the
  arithmetic of \<open>size_t\<close> and of page addresses, the error numbers the code returns,
  lists linked by \<open>struct list_head\<close>, and the generic lemmas on lists, trees and
  options that the component theories use.

  A kernel \<open>BUG()\<close>, a failed \<open>BUG_ON\<close> and a NULL dereference stop the
  machine.  A function of the model that can reach one returns an \<open>option\<close> whose
  \<open>None\<close> is that stop; \<open>check_that\<close> is the \<open>BUG_ON\<close> of the code.
\<close>

unbundle bit_operations_syntax

section \<open>Machine integers\<close>

type_synonym u8 = "8 word"
type_synonym u16 = "16 word"
type_synonym u32 = "32 word"

abbreviation addr_bound :: nat where
  "addr_bound \<equiv> 4294967296"

text \<open>\<open>size_t\<close> subtraction and addition on values kept as \<open>nat\<close> below \<open>2^32\<close>.\<close>

definition sub32 :: "nat \<Rightarrow> nat \<Rightarrow> nat" where
  "sub32 a b = (a + (addr_bound - b mod addr_bound)) mod addr_bound"

definition add32 :: "nat \<Rightarrow> nat \<Rightarrow> nat" where
  "add32 a b = (a + b) mod addr_bound"

lemma sub32_exact [simp]: "b \<le> a \<Longrightarrow> a < addr_bound \<Longrightarrow> sub32 a b = a - b"
  unfolding sub32_def by (subst mod_if) (auto simp: mod_if)

lemma add32_exact [simp]: "a + b < addr_bound \<Longrightarrow> add32 a b = a + b"
  by (simp add: add32_def)

lemma sub32_less: "sub32 a b < addr_bound"
  by (simp add: sub32_def)

text \<open>The kernel's \<open>ALIGN(x, sizeof(void *))\<close> on a 32-bit \<open>size_t\<close>.\<close>

definition align_ptr :: "u32 \<Rightarrow> u32" where
  "align_ptr x = (x + 3) AND NOT 3"

lemma and_not_mask: "(y :: 'a::len word) AND NOT (mask n) = push_bit n (drop_bit n y)"
  by (rule bit_word_eqI) (auto simp: bit_simps)

lemma unat_align_ptr: "unat (align_ptr x) = (unat x + 3) mod addr_bound div 4 * 4"
proof -
  have "unat (push_bit 2 (drop_bit 2 y)) = unat y div 4 * 4" for y :: u32
  proof -
    have "unat y < 4294967296" using unsigned_less [of y] by simp
    then have "unat y div 4 * 4 < 4294967296" by simp
    then show ?thesis
      by (simp add: push_bit_eq_mult drop_bit_eq_div unat_word_ariths unat_div_distrib mult.commute)
  qed
  note aligned = this
  have "(3 :: u32) = mask 2" by (simp add: mask_eq_exp_minus_1)
  then have "align_ptr x = push_bit 2 (drop_bit 2 (x + 3))"
    unfolding align_ptr_def using and_not_mask [of "x + 3" 2] by metis
  then show ?thesis by (simp only: aligned) (simp add: unat_word_ariths)
qed

section \<open>Errors\<close>

abbreviation EPERM :: int where "EPERM \<equiv> 1"
abbreviation ENOENT :: int where "ENOENT \<equiv> 2"
abbreviation ESRCH :: int where "ESRCH \<equiv> 3"
abbreviation EINTR :: int where "EINTR \<equiv> 4"
abbreviation EBADF :: int where "EBADF \<equiv> 9"
abbreviation EAGAIN :: int where "EAGAIN \<equiv> 11"
abbreviation ENOMEM :: int where "ENOMEM \<equiv> 12"
abbreviation EFAULT :: int where "EFAULT \<equiv> 14"
abbreviation EBUSY :: int where "EBUSY \<equiv> 16"
abbreviation ENODEV :: int where "ENODEV \<equiv> 19"
abbreviation EINVAL :: int where "EINVAL \<equiv> 22"
abbreviation EMFILE :: int where "EMFILE \<equiv> 24"
abbreviation EPIPE :: int where "EPIPE \<equiv> 32"
abbreviation ENOSYS :: int where "ENOSYS \<equiv> 38"

definition check_that :: "bool \<Rightarrow> unit option" where
  "check_that b = (if b then Some () else None)"

lemma check_that_simps [simp]:
  "check_that True = Some ()"
  "check_that False = None"
  by (simp_all add: check_that_def)

lemma check_that_Some [simp]: "check_that b = Some u \<longleftrightarrow> b"
  by (simp add: check_that_def)

lemma check_that_bind [simp]: "(check_that b \<bind> f = Some r) \<longleftrightarrow> b \<and> f () = Some r"
  by (cases b) auto

section \<open>Positions in a list\<close>

text \<open>
  A list whose elements are linked by an embedded \<open>struct list_head\<close> is the list of the
  addresses of its elements, head first.  \<open>next_in\<close> is \<open>list_entry(x.next)\<close>, and
  None when \<open>list_is_last\<close>; \<open>prev_in\<close> is \<open>list_entry(x.prev)\<close>, and None
  when the element is the first.
\<close>

fun next_in :: "'a list \<Rightarrow> 'a \<Rightarrow> 'a option" where
  "next_in [] x = None"
| "next_in [y] x = None"
| "next_in (y # z # ys) x = (if x = y then Some z else next_in (z # ys) x)"

fun prev_in :: "'a list \<Rightarrow> 'a \<Rightarrow> 'a option" where
  "prev_in [] x = None"
| "prev_in [y] x = None"
| "prev_in (y # z # ys) x = (if x = z then Some y else prev_in (z # ys) x)"

text \<open>\<open>list_add(new, x)\<close>: the new element follows \<open>x\<close>.\<close>

fun insert_after :: "'a \<Rightarrow> 'a \<Rightarrow> 'a list \<Rightarrow> 'a list" where
  "insert_after x n [] = []"
| "insert_after x n (y # ys) = (if y = x then y # n # ys else y # insert_after x n ys)"

lemma next_in_append_Cons [simp]:
  "x \<notin> set pre \<Longrightarrow> next_in (pre @ x # post) x = (case post of [] \<Rightarrow> None | z # _ \<Rightarrow> Some z)"
proof (induction pre)
  case Nil
  then show ?case by (cases post) auto
next
  case (Cons y pre)
  then show ?case by (cases pre) (auto split: list.splits)
qed

lemma prev_in_notin: "x \<notin> set (tl xs) \<Longrightarrow> prev_in xs x = None"
  by (induction xs x rule: prev_in.induct) auto

lemma prev_in_append_Cons [simp]:
  "x \<notin> set pre \<Longrightarrow> x \<notin> set post \<Longrightarrow>
   prev_in (pre @ x # post) x = (if pre = [] then None else Some (last pre))"
proof (induction pre)
  case Nil
  then show ?case by (simp add: prev_in_notin)
next
  case (Cons y pre)
  then show ?case by (cases pre) auto
qed

lemma insert_after_append_Cons [simp]:
  "x \<notin> set pre \<Longrightarrow> insert_after x n (pre @ x # post) = pre @ x # n # post"
  by (induction pre) auto

lemma remove1_append_Cons [simp]:
  "x \<notin> set pre \<Longrightarrow> remove1 x (pre @ x # post) = pre @ post"
  by (simp add: remove1_append)

section \<open>Sizes rounded up to words\<close>

text \<open>
  \<open>round4\<close> is the rounding without a bound.  A sum of two aligned sizes that is not
  below either of them has not wrapped.
\<close>

definition round4 :: "nat \<Rightarrow> nat" where
  "round4 n = (n + 3) div 4 * 4"

lemma mod_addr_bound:
  "x < 3 * addr_bound \<Longrightarrow> x mod addr_bound =
    (if x < addr_bound then x else if x < 2 * addr_bound then x - addr_bound else x - 2 * addr_bound)"
  by (simp add: mod_if)

lemma unat_align_cases:
  "unat (align_ptr d) = (if unat d + 3 < addr_bound then round4 (unat d) else 0)"
proof -
  have "unat d < addr_bound" using unsigned_less [of d] by simp
  then have "(unat d + 3) mod addr_bound = (if unat d + 3 < addr_bound then unat d + 3 else unat d + 3 - addr_bound)"
    by (simp add: mod_if)
  moreover from \<open>unat d < addr_bound\<close> have "(unat d + 3 - addr_bound) div 4 = 0" by simp
  ultimately show ?thesis by (simp add: unat_align_ptr round4_def)
qed

lemma round4_bounds: "n \<le> round4 n" "round4 n \<le> n + 3" "n + 3 < addr_bound \<Longrightarrow> round4 n \<le> addr_bound - 4"
  by (simp_all add: round4_def)

lemma size_no_wrap:
  assumes "\<not> (align_ptr d + align_ptr e < d \<or> align_ptr d + align_ptr e < e)"
  shows "unat (align_ptr d + align_ptr e) = round4 (unat d) + round4 (unat e)"
proof -
  let ?a = "unat (align_ptr d)" and ?c = "unat (align_ptr e)"
  have n: "unat d \<le> unat (align_ptr d + align_ptr e)" "unat e \<le> unat (align_ptr d + align_ptr e)"
    using assms by (simp_all add: word_less_nat_alt)
  have s: "unat (align_ptr d + align_ptr e) = (if ?a + ?c < addr_bound then ?a + ?c else ?a + ?c - addr_bound)"
  proof -
    have "?a < addr_bound" "?c < addr_bound"
      using unsigned_less [of "align_ptr d"] unsigned_less [of "align_ptr e"] by simp_all
    then show ?thesis using mod_addr_bound [of "?a + ?c"] by (simp add: unat_word_ariths)
  qed
  note r = round4_bounds [of "unat d"] round4_bounds [of "unat e"]
  have d: "unat d + 3 < addr_bound"
  proof (rule ccontr)
    assume no: "\<not> unat d + 3 < addr_bound"
    then have "?a = 0" by (simp add: unat_align_cases)
    moreover have "?c \<le> addr_bound - 4" using r(6) by (simp add: unat_align_cases)
    ultimately show False using n(1) no unfolding s by simp
  qed
  have e: "unat e + 3 < addr_bound"
  proof (rule ccontr)
    assume no: "\<not> unat e + 3 < addr_bound"
    then have "?c = 0" by (simp add: unat_align_cases)
    moreover have "?a \<le> addr_bound - 4" using r(3) by (simp add: unat_align_cases)
    ultimately show False using n(2) no unfolding s by simp
  qed
  have ac: "?a = round4 (unat d)" "?c = round4 (unat e)" using d e by (simp_all add: unat_align_cases)
  have "?a + ?c < addr_bound"
  proof (rule ccontr)
    assume "\<not> ?a + ?c < addr_bound"
    with n(1) have "unat d \<le> ?a + ?c - addr_bound" unfolding s by simp
    with r(2) r(6) [OF e] \<open>\<not> ?a + ?c < addr_bound\<close> show False unfolding ac by simp
  qed
  then show ?thesis unfolding s ac [symmetric] by simp
qed

lemma sub32_sub32_iff: 
  "u < addr_bound \<Longrightarrow> b < addr_bound \<Longrightarrow> off < addr_bound \<Longrightarrow>
    sub32 (sub32 u off) 40 = b \<longleftrightarrow> u = (b + 40 + off) mod addr_bound"
proof -
  assume *: "u < addr_bound" "b < addr_bound" "off < addr_bound"
  have s: "sub32 x y = (if y \<le> x then x - y else x + addr_bound - y)" if "x < addr_bound" "y < addr_bound" for x y
    using that by (simp add: sub32_def mod_addr_bound)
  define w where "w = sub32 u off"
  have w: "w < addr_bound" "w = (if off \<le> u then u - off else u + addr_bound - off)"
    unfolding w_def using s [of u off] * sub32_less by blast+
  have m: "(b + 40 + off) mod addr_bound = (if b + 40 + off < addr_bound then b + 40 + off
      else if b + 40 + off < 2 * addr_bound then b + 40 + off - addr_bound else b + 40 + off - 2 * addr_bound)"
    using * by (intro mod_addr_bound) simp
  have z: "sub32 w 40 = (if 40 \<le> w then w - 40 else w + addr_bound - 40)" using w(1) s by simp
  show ?thesis unfolding w_def [symmetric] z m
    by (cases "off \<le> u"; cases "40 \<le> w") (use * w in \<open>auto split: if_splits\<close>)
qed

section \<open>Memory\<close>

text \<open>Memory is a function from addresses to bytes; words are stored little endian.\<close>

type_synonym memory = "nat \<Rightarrow> u8"

definition load32 :: "memory \<Rightarrow> nat \<Rightarrow> u32" where
  "load32 m a = ucast (m a) OR push_bit 8 (ucast (m (a + 1))) OR push_bit 16 (ucast (m (a + 2)))
     OR push_bit 24 (ucast (m (a + 3)))"

definition store32 :: "nat \<Rightarrow> u32 \<Rightarrow> memory \<Rightarrow> memory" where
  "store32 a v m = m(a := ucast v, a + 1 := ucast (drop_bit 8 v), a + 2 := ucast (drop_bit 16 v),
     a + 3 := ucast (drop_bit 24 v))"

text \<open>\<open>n\<close> bytes from \<open>src\<close> on, copied to \<open>dst\<close> on.\<close>

definition copy_bytes :: "memory \<Rightarrow> nat \<Rightarrow> nat \<Rightarrow> nat \<Rightarrow> memory \<Rightarrow> memory" where
  "copy_bytes mem src dst n m = (\<lambda>i. if dst \<le> i \<and> i < dst + n then mem (src + (i - dst)) else m i)"

lemma load32_store32 [simp]: "load32 (store32 a v m) a = v"
proof (rule bit_word_eqI)
  fix n assume "n < LENGTH(32)"
  then have "n < 8 \<or> 8 \<le> n \<and> n < 16 \<or> 16 \<le> n \<and> n < 24 \<or> 24 \<le> n \<and> n < 32" by simp arith
  then show "bit (load32 (store32 a v m) a) n \<longleftrightarrow> bit v n"
    unfolding load32_def store32_def
    by (elim disjE conjE) (auto simp: bit_simps)
qed

lemma load32_store32_other:
  "a + 4 \<le> b \<or> b + 4 \<le> a \<Longrightarrow> load32 (store32 a v m) b = load32 m b"
  by (auto simp: load32_def store32_def)

lemma load32_copy_bytes:
  assumes "dst \<le> a" "a + 4 \<le> dst + n"
  shows "load32 (copy_bytes mem src dst n m) a = load32 mem (src + (a - dst))"
proof -
  obtain k where a: "a = dst + k" using assms(1) le_Suc_ex by blast
  show ?thesis using assms(2) unfolding a by (simp add: load32_def copy_bytes_def add.assoc)
qed

lemma load32_copy_bytes_other:
  "a + 4 \<le> dst \<or> dst + n \<le> a \<Longrightarrow> load32 (copy_bytes mem src dst n m) a = load32 m a"
  by (auto simp: load32_def copy_bytes_def)

lemma load32_cong:
  assumes "\<And>i. i < 4 \<Longrightarrow> m (a + i) = m' (b + i)"
  shows "load32 m a = load32 m' b"
  unfolding load32_def using assms [of 0] assms [of 1] assms [of 2] assms [of 3] by simp

text \<open>Halfwords.\<close>

definition load16 :: "memory \<Rightarrow> nat \<Rightarrow> u16" where
  "load16 m a = ucast (m a) OR push_bit 8 (ucast (m (a + 1)))"

definition store16 :: "nat \<Rightarrow> u16 \<Rightarrow> memory \<Rightarrow> memory" where
  "store16 a v m = m(a := ucast v, a + 1 := ucast (drop_bit 8 v))"

lemma load16_cong:
  assumes "\<And>i. i < 2 \<Longrightarrow> m (a + i) = m' (b + i)"
  shows "load16 m a = load16 m' b"
  unfolding load16_def using assms [of 0] assms [of 1] by simp

lemma load16_store16 [simp]: "load16 (store16 a v m) a = v"
proof (rule bit_word_eqI)
  fix n assume "n < LENGTH(16)"
  then have "n < 8 \<or> 8 \<le> n \<and> n < 16" by simp arith
  then show "bit (load16 (store16 a v m) a) n \<longleftrightarrow> bit v n"
    unfolding load16_def store16_def by (elim disjE conjE) (auto simp: bit_simps)
qed

lemma load16_store16_other: "a + 2 \<le> b \<or> b + 2 \<le> a \<Longrightarrow> load16 (store16 a v m) b = load16 m b"
  by (auto simp: load16_def store16_def)

lemma store16_outside: "i < a \<or> a + 2 \<le> i \<Longrightarrow> store16 a v m i = m i"
  by (auto simp: store16_def)

end
