(* ===== verification/RbTree.thy ===== *)
theory RbTree
  imports Prelude
begin

text \<open>
  The kernel's red-black trees as the driver uses them.  The driver writes the descents
  itself (driver/binder/binder.c: every \<open>while (n)\<close> and \<open>while (*p)\<close> loop over
  \<open>rb_left\<close> and \<open>rb_right\<close>), so they are modelled here as recursions over the
  tree.  The rebalancing after a link (\<open>rb_insert_color\<close>) and the removal
  (\<open>rb_erase\<close>) belong to the kernel's lib/rbtree.c, which is not part of the
  repository: they are the parameter \<open>rb\<close> of every operation that calls them, and
  \<open>rb_ok\<close> is their documented behaviour, that they keep the in-order sequence.
  An element of a tree is the address of the structure that embeds the \<open>rb_node\<close>.
\<close>

record rb_ops =
  rb_insert_color :: "nat \<Rightarrow> nat tree \<Rightarrow> nat tree"
  rb_erase :: "nat \<Rightarrow> nat tree \<Rightarrow> nat tree"

definition rb_ok :: "'e rb_ops_scheme \<Rightarrow> bool" where
  "rb_ok rb \<longleftrightarrow>
     (\<forall>x t. inorder (rb_insert_color rb x t) = inorder t) \<and>
     (\<forall>x t. distinct (inorder t) \<longrightarrow> x \<in> set (inorder t) \<longrightarrow>
        inorder (rb_erase rb x t) = remove1 x (inorder t))"

lemma rb_ok_insert_color [simp]: "rb_ok rb \<Longrightarrow> inorder (rb_insert_color rb x t) = inorder t"
  by (simp add: rb_ok_def)

lemma rb_ok_erase [simp]:
  "rb_ok rb \<Longrightarrow> distinct (inorder t) \<Longrightarrow> x \<in> set (inorder t) \<Longrightarrow>
   inorder (rb_erase rb x t) = remove1 x (inorder t)"
  by (simp add: rb_ok_def)

text \<open>A concrete library with this behaviour: no rebalancing, removal by joining.\<close>

fun tree_join :: "nat tree \<Rightarrow> nat tree \<Rightarrow> nat tree" where
  "tree_join Leaf t = t"
| "tree_join (Node l a r) t = Node l a (tree_join r t)"

fun tree_drop :: "nat \<Rightarrow> nat tree \<Rightarrow> nat tree" where
  "tree_drop x Leaf = Leaf"
| "tree_drop x (Node l a r) =
     (if a = x then tree_join l r
      else if x \<in> set_tree l then Node (tree_drop x l) a r else Node l a (tree_drop x r))"

definition plain_rb :: rb_ops where
  "plain_rb = \<lparr>rb_insert_color = (\<lambda>_ t. t), rb_erase = tree_drop\<rparr>"

lemma inorder_tree_join [simp]: "inorder (tree_join s t) = inorder s @ inorder t"
  by (induction s t rule: tree_join.induct) auto

lemma inorder_tree_drop:
  "distinct (inorder t) \<Longrightarrow> inorder (tree_drop x t) = remove1 x (inorder t)"
  by (induction x t rule: tree_drop.induct) (auto simp: remove1_append remove1_idem)

lemma rb_ok_plain [simp]: "rb_ok plain_rb"
  by (simp add: rb_ok_def plain_rb_def inorder_tree_drop)

section \<open>The search and insertion loops over a unique key\<close>

text \<open>
  \<open>rb_search\<close> is the loop of binder_get_node, binder_get_ref, binder_get_thread and
  binder_buffer_lookup: left below the key, right above it, stop on equality.
  \<open>rb_link\<close> is the loop that ends in \<open>rb_link_node\<close>: None when an element with
  this key is met.
\<close>

fun rb_search :: "(nat \<Rightarrow> 'k::linorder) \<Rightarrow> 'k \<Rightarrow> nat tree \<Rightarrow> nat option" where
  "rb_search key k Leaf = None"
| "rb_search key k (Node l a r) =
     (if k < key a then rb_search key k l
      else if k > key a then rb_search key k r
      else Some a)"

fun rb_link :: "(nat \<Rightarrow> 'k::linorder) \<Rightarrow> 'k \<Rightarrow> nat \<Rightarrow> nat tree \<Rightarrow> nat tree option" where
  "rb_link key k x Leaf = Some (Node Leaf x Leaf)"
| "rb_link key k x (Node l a r) =
     (if k < key a then map_option (\<lambda>l'. Node l' a r) (rb_link key k x l)
      else if k > key a then map_option (\<lambda>r'. Node l a r') (rb_link key k x r)
      else None)"

definition keyed :: "(nat \<Rightarrow> 'k::linorder) \<Rightarrow> nat list \<Rightarrow> bool" where
  "keyed key xs \<longleftrightarrow> sorted_wrt (\<lambda>a b. key a < key b) xs"

lemma keyed_Nil [simp]: "keyed key []"
  by (simp add: keyed_def)

lemma keyed_append:
  "keyed key (xs @ ys) \<longleftrightarrow>
     keyed key xs \<and> keyed key ys \<and> (\<forall>x \<in> set xs. \<forall>y \<in> set ys. key x < key y)"
  by (simp add: keyed_def sorted_wrt_append)

lemma keyed_Cons: "keyed key (x # xs) \<longleftrightarrow> (\<forall>y \<in> set xs. key x < key y) \<and> keyed key xs"
  by (auto simp: keyed_def)

lemma keyed_inj:
  assumes "keyed key xs" "a \<in> set xs" "b \<in> set xs" "key a = key b"
  shows "a = b"
  using assms
proof (induction xs)
  case (Cons x xs)
  then have "\<forall>y \<in> set xs. key y \<noteq> key x"
    by (auto simp: keyed_Cons)
  with Cons show ?case
    by (metis keyed_Cons set_ConsD)
qed simp

lemma keyed_Node:
  "keyed key (inorder (Node l a r)) \<longleftrightarrow>
     keyed key (inorder l) \<and> keyed key (inorder r) \<and>
     (\<forall>x \<in> set_tree l. key x < key a) \<and> (\<forall>y \<in> set_tree r. key a < key y)"
  by (auto simp: keyed_append keyed_Cons intro: less_trans)

lemma keyed_distinct: "keyed key xs \<Longrightarrow> distinct xs"
  by (induction xs) (auto simp: keyed_Cons)

lemma keyed_remove1: "keyed key xs \<Longrightarrow> keyed key (remove1 x xs)"
  by (induction xs) (auto simp: keyed_Cons dest: notin_set_remove1)

lemma keyed_cong: "(\<And>x. x \<in> set xs \<Longrightarrow> key x = key' x) \<Longrightarrow> keyed key xs = keyed key' xs"
  by (induction xs) (auto simp: keyed_Cons)

lemma rb_search_Some:
  "keyed key (inorder t) \<Longrightarrow>
   (rb_search key k t = Some a) \<longleftrightarrow> a \<in> set (inorder t) \<and> key a = k"
proof (induction t)
  case (Node l b r)
  then have *: "\<forall>x \<in> set_tree l. key x < key b" "\<forall>y \<in> set_tree r. key b < key y"
    by (auto simp only: keyed_Node)
  with Node show ?case
    by (cases k "key b" rule: linorder_cases) (auto simp: keyed_Node simp del: inorder.simps)
qed simp

lemma rb_search_None:
  "keyed key (inorder t) \<Longrightarrow> (rb_search key k t = None) \<longleftrightarrow> (\<forall>a \<in> set (inorder t). key a \<noteq> k)"
  using rb_search_Some by (metis not_Some_eq)

text \<open>The position an insertion takes in the in-order sequence.\<close>

fun key_insert :: "(nat \<Rightarrow> 'k::linorder) \<Rightarrow> 'k \<Rightarrow> nat \<Rightarrow> nat list \<Rightarrow> nat list" where
  "key_insert key k x [] = [x]"
| "key_insert key k x (y # ys) = (if k < key y then x # y # ys else y # key_insert key k x ys)"

lemma set_key_insert [simp]: "set (key_insert key k x xs) = insert x (set xs)"
  by (induction xs) auto

lemma key_insert_append_less:
  "k < key y \<Longrightarrow> key_insert key k x (xs @ y # ys) = key_insert key k x xs @ y # ys"
  by (induction xs) auto

lemma key_insert_append_ge:
  "\<forall>z \<in> set xs. key z \<le> k \<Longrightarrow> key_insert key k x (xs @ ys) = xs @ key_insert key k x ys"
  by (induction xs) auto

lemma distinct_key_insert: "x \<notin> set xs \<Longrightarrow> distinct xs \<Longrightarrow> distinct (key_insert key k x xs)"
  by (induction xs) auto

lemma keyed_key_insert:
  "keyed key xs \<Longrightarrow> key x = k \<Longrightarrow> \<forall>y \<in> set xs. key y \<noteq> k \<Longrightarrow> keyed key (key_insert key k x xs)"
  by (induction xs) (auto simp: keyed_Cons)

lemma rb_link_None:
  "keyed key (inorder t) \<Longrightarrow> (rb_link key k x t = None) \<longleftrightarrow> (\<exists>a \<in> set (inorder t). key a = k)"
proof (induction t)
  case (Node l b r)
  then have *: "\<forall>x \<in> set_tree l. key x < key b" "\<forall>y \<in> set_tree r. key b < key y"
    by (auto simp only: keyed_Node)
  with Node show ?case
    by (cases k "key b" rule: linorder_cases) (auto simp: keyed_Node simp del: inorder.simps)
qed simp

lemma inorder_rb_link:
  "keyed key (inorder t) \<Longrightarrow> rb_link key k x t = Some t' \<Longrightarrow>
   inorder t' = key_insert key k x (inorder t)"
proof (induction t arbitrary: t')
  case (Node l b r)
  from Node.prems(1) have l: "keyed key (inorder l)" and r: "keyed key (inorder r)"
    and lb: "\<forall>z \<in> set (inorder l). key z < key b"
    by (auto simp only: keyed_Node set_inorder)
  show ?case
  proof (cases k "key b" rule: linorder_cases)
    case less
    then obtain l' where "rb_link key k x l = Some l'" "t' = Node l' b r"
      using Node.prems(2) by auto
    with Node.IH(1) [OF l] less show ?thesis
      by (simp add: key_insert_append_less)
  next
    case equal
    with Node.prems(2) show ?thesis by simp
  next
    case greater
    then obtain r' where "rb_link key k x r = Some r'" "t' = Node l b r'"
      using Node.prems(2) by (auto split: if_splits)
    moreover have "\<forall>z \<in> set (inorder l @ [b]). key z \<le> k"
      using lb greater by auto
    from key_insert_append_ge [OF this, of x "inorder r"]
    have "key_insert key k x (inorder l @ b # inorder r) = inorder l @ b # key_insert key k x (inorder r)"
      by simp
    ultimately show ?thesis using Node.IH(2) [OF r] by simp
  qed
qed simp

end
