(* ===== verification/BinderAlloc.thy ===== *)
theory BinderAlloc
  imports RbTree
begin

text \<open>
  The buffer allocator of the driver (driver/binder/binder.c, binder_buffer_size to
  binder_free_buf, and binder_mmap): the transaction buffers of one process live in one
  area shared with it, each behind a \<open>struct binder_buffer\<close> header of 40 bytes (the
  size on the 32-bit x86 kernel the module is built for), and pages are present only
  under the parts in use.

  \<open>binder_area\<close> holds the fields of \<open>struct binder_proc\<close> the allocator works on;
  the rest of the process extends this record.  Addresses are \<open>nat\<close>; a size that a
  user supplies is a \<open>u32\<close> and its arithmetic wraps.  \<open>page_env\<close> is the kernel the
  allocator calls: the red-black tree library, whether \<open>get_task_mm\<close> finds the
  address space, and the outcome of each attempt to populate a page.
\<close>

section \<open>State\<close>

text \<open>\<open>payload\<close> holds the bytes from \<open>buffer->data\<close> on.\<close>

record binder_buffer =
  free :: bool
  allow_user_free :: bool
  async_transaction :: bool
  buf_debug_id :: nat
  buf_transaction :: "nat option"
  buf_target_node :: "nat option"
  data_size :: u32
  offsets_size :: u32
  payload :: memory

record binder_area =
  vma :: bool
  files :: bool
  area :: nat
  area_size :: nat
  user_buffer_offset :: nat
  buffers :: "nat list"
  bufs :: "nat \<Rightarrow> binder_buffer"
  free_buffers :: "nat tree"
  allocated_buffers :: "nat tree"
  free_async_space :: u32
  pages :: "bool list"
  page_ops :: nat

datatype page_outcome =
  Page_inserted | Alloc_page_failed | Map_kernel_failed | Vm_insert_page_failed

record page_env = rb_ops +
  task_mm_present :: "nat \<Rightarrow> bool"
  page_outcome_of :: "nat \<Rightarrow> page_outcome"

abbreviation PAGE_SIZE :: nat where "PAGE_SIZE \<equiv> 4096"
abbreviation sizeof_binder_buffer :: nat where "sizeof_binder_buffer \<equiv> 40"
abbreviation SZ_4M :: nat where "SZ_4M \<equiv> 4194304"

definition buffer_data :: "nat \<Rightarrow> nat" where
  "buffer_data b = b + sizeof_binder_buffer"

definition page_mask :: "nat \<Rightarrow> nat" where
  "page_mask a = a div PAGE_SIZE * PAGE_SIZE"

definition page_align :: "nat \<Rightarrow> nat" where
  "page_align a = page_mask (add32 a (PAGE_SIZE - 1))"

definition buf_upd :: "nat \<Rightarrow> (binder_buffer \<Rightarrow> binder_buffer) \<Rightarrow> 'p binder_area_scheme \<Rightarrow> 'p binder_area_scheme" where
  "buf_upd b f p = p\<lparr>bufs := (bufs p)(b := f (bufs p b))\<rparr>"

section \<open>Buffers and their trees\<close>

definition binder_buffer_size :: "'p binder_area_scheme \<Rightarrow> nat \<Rightarrow> nat" where
  "binder_buffer_size p b =
     (case next_in (buffers p) b of
        None \<Rightarrow> sub32 (area p + area_size p) (buffer_data b)
      | Some nxt \<Rightarrow> sub32 nxt (buffer_data b))"

fun link_free_buffer :: "'p binder_area_scheme \<Rightarrow> nat \<Rightarrow> nat \<Rightarrow> nat tree \<Rightarrow> nat tree option" where
  "link_free_buffer p new_size new Leaf = Some (Node Leaf new Leaf)"
| "link_free_buffer p new_size new (Node l b r) = do {
     check_that (free (bufs p b));
     if new_size < binder_buffer_size p b
     then map_option (\<lambda>l'. Node l' b r) (link_free_buffer p new_size new l)
     else map_option (\<lambda>r'. Node l b r') (link_free_buffer p new_size new r)}"

definition binder_insert_free_buffer ::
    "'e rb_ops_scheme \<Rightarrow> 'p binder_area_scheme \<Rightarrow> nat \<Rightarrow> 'p binder_area_scheme option" where
  "binder_insert_free_buffer env p new = do {
     check_that (free (bufs p new));
     t \<leftarrow> link_free_buffer p (binder_buffer_size p new) new (free_buffers p);
     Some (p\<lparr>free_buffers := rb_insert_color env new t\<rparr>)}"

fun link_allocated_buffer :: "'p binder_area_scheme \<Rightarrow> nat \<Rightarrow> nat tree \<Rightarrow> nat tree option" where
  "link_allocated_buffer p new Leaf = Some (Node Leaf new Leaf)"
| "link_allocated_buffer p new (Node l b r) = do {
     check_that (\<not> free (bufs p b));
     if new < b then map_option (\<lambda>l'. Node l' b r) (link_allocated_buffer p new l)
     else if new > b then map_option (\<lambda>r'. Node l b r') (link_allocated_buffer p new r)
     else None}"

definition binder_insert_allocated_buffer ::
    "'e rb_ops_scheme \<Rightarrow> 'p binder_area_scheme \<Rightarrow> nat \<Rightarrow> 'p binder_area_scheme option" where
  "binder_insert_allocated_buffer env p new = do {
     check_that (\<not> free (bufs p new));
     t \<leftarrow> link_allocated_buffer p new (allocated_buffers p);
     Some (p\<lparr>allocated_buffers := rb_insert_color env new t\<rparr>)}"

fun search_allocated_buffer :: "'p binder_area_scheme \<Rightarrow> nat \<Rightarrow> nat tree \<Rightarrow> nat option option" where
  "search_allocated_buffer p kern_ptr Leaf = Some None"
| "search_allocated_buffer p kern_ptr (Node l b r) = do {
     check_that (\<not> free (bufs p b));
     if kern_ptr < b then search_allocated_buffer p kern_ptr l
     else if kern_ptr > b then search_allocated_buffer p kern_ptr r
     else Some (Some b)}"

definition binder_buffer_lookup :: "'p binder_area_scheme \<Rightarrow> nat \<Rightarrow> nat option option" where
  "binder_buffer_lookup p user_ptr =
     search_allocated_buffer p
       (sub32 (sub32 user_ptr (user_buffer_offset p)) sizeof_binder_buffer) (allocated_buffers p)"

section \<open>Pages\<close>

definition page_index :: "'p binder_area_scheme \<Rightarrow> nat \<Rightarrow> nat" where
  "page_index p page_addr = sub32 page_addr (area p) div PAGE_SIZE"

text \<open>Storing to \<open>*page\<close>; outside the array, and when a NULL page is freed, the machine stops.\<close>

definition put_page :: "'p binder_area_scheme \<Rightarrow> nat \<Rightarrow> 'p binder_area_scheme option" where
  "put_page p page_addr =
     (let i = page_index p page_addr in do {
        check_that (i < length (pages p));
        check_that (\<not> pages p ! i);
        Some (p\<lparr>pages := (pages p)[i := True]\<rparr>)})"

definition free_page :: "'p binder_area_scheme \<Rightarrow> nat \<Rightarrow> 'p binder_area_scheme option" where
  "free_page p page_addr =
     (let i = page_index p page_addr in do {
        check_that (i < length (pages p));
        check_that (pages p ! i);
        Some (p\<lparr>pages := (pages p)[i := False]\<rparr>)})"

text \<open>The loop at \<open>free_range\<close>: from \<open>page_addr\<close> down to \<open>start\<close>.\<close>

function free_range :: "'p binder_area_scheme \<Rightarrow> nat \<Rightarrow> nat \<Rightarrow> 'p binder_area_scheme option" where
  "free_range p page_addr start =
     (if page_addr < start then Some p
      else do {
        p' \<leftarrow> free_page p page_addr;
        if page_addr < PAGE_SIZE then None else free_range p' (page_addr - PAGE_SIZE) start})"
  by pat_completeness auto
termination
  by (relation "measure (\<lambda>(p, a, s). a)") auto

declare free_range.simps [simp del]

text \<open>
  After a failure at \<open>page_addr\<close> the code jumps into the body of that loop, so the
  loop goes on with the page below.
\<close>

definition unwind_below :: "'p binder_area_scheme \<Rightarrow> nat \<Rightarrow> nat \<Rightarrow> 'p binder_area_scheme option" where
  "unwind_below p page_addr start =
     (if page_addr < PAGE_SIZE then None else free_range p (page_addr - PAGE_SIZE) start)"

function allocate_range ::
    "'e page_env_scheme \<Rightarrow> 'p binder_area_scheme \<Rightarrow> nat \<Rightarrow> nat \<Rightarrow> nat \<Rightarrow> (int \<times> 'p binder_area_scheme) option" where
  "allocate_range env p page_addr start end_addr =
     (if page_addr < end_addr then do {
        p1 \<leftarrow> put_page p page_addr;
        let outcome = page_outcome_of env (page_ops p);
        let ops = Suc (page_ops p);
        case outcome of
          Page_inserted \<Rightarrow>
            allocate_range env (p1\<lparr>page_ops := ops\<rparr>) (page_addr + PAGE_SIZE) start end_addr
        | Alloc_page_failed \<Rightarrow> do {
            p2 \<leftarrow> unwind_below (p\<lparr>page_ops := ops\<rparr>) page_addr start;
            Some (- ENOMEM, p2)}
        | _ \<Rightarrow> do {
            p2 \<leftarrow> free_page (p1\<lparr>page_ops := ops\<rparr>) page_addr;
            p3 \<leftarrow> unwind_below p2 page_addr start;
            Some (- ENOMEM, p3)}}
      else Some (0, p))"
  by pat_completeness auto
termination
  by (relation "measure (\<lambda>(env, p, a, s, e). e - a)") auto

declare allocate_range.simps [simp del]

definition binder_update_page_range ::
    "'e page_env_scheme \<Rightarrow> 'p binder_area_scheme \<Rightarrow> bool \<Rightarrow> nat \<Rightarrow> nat \<Rightarrow> bool \<Rightarrow>
     (int \<times> 'p binder_area_scheme) option" where
  "binder_update_page_range env p allocate start end_addr vma_arg =
     (if end_addr \<le> start then Some (0, p)
      else
        let vma_now = (if vma_arg then True
                       else if task_mm_present env (page_ops p) then vma p else False);
            p = (if vma_arg then p else p\<lparr>page_ops := Suc (page_ops p)\<rparr>)
        in if \<not> allocate then do {
             p' \<leftarrow> free_range p (sub32 end_addr PAGE_SIZE) start;
             Some (- ENOMEM, p')}
           else if \<not> vma_now then Some (- ENOMEM, p)
           else allocate_range env p start start end_addr)"

section \<open>Allocation\<close>

text \<open>
  The descent to the best fit.  The result is the node kept in \<open>best_fit\<close> and the node
  \<open>n\<close> the loop stops at, which is None unless a free buffer has exactly the size.
\<close>

fun best_fit_search ::
    "'p binder_area_scheme \<Rightarrow> nat \<Rightarrow> nat tree \<Rightarrow> nat option \<Rightarrow> (nat option \<times> nat option) option" where
  "best_fit_search p sz Leaf best_fit = Some (best_fit, None)"
| "best_fit_search p sz (Node l b r) best_fit = do {
     check_that (free (bufs p b));
     let buffer_size = binder_buffer_size p b;
     if sz < buffer_size then best_fit_search p sz l (Some b)
     else if sz > buffer_size then best_fit_search p sz r best_fit
     else Some (Some b, Some b)}"

text \<open>
  How much of the chosen buffer is taken: all of it when no second header fits behind the
  payload, and otherwise the payload and that header.
\<close>

definition fit_size :: "nat option \<Rightarrow> u32 \<Rightarrow> nat \<Rightarrow> nat" where
  "fit_size n sz buffer_size =
     (if n = None
      then (if add32 (unat sz) (sizeof_binder_buffer + 4) \<ge> buffer_size then unat sz
            else add32 (unat sz) sizeof_binder_buffer)
      else buffer_size)"

text \<open>The part behind the page request: the trees, the split, and the stores to the header.\<close>

definition alloc_store :: "nat \<Rightarrow> u32 \<Rightarrow> u32 \<Rightarrow> bool \<Rightarrow> u32 \<Rightarrow> 'p binder_area_scheme \<Rightarrow> 'p binder_area_scheme" where
  "alloc_store buffer dsize osize is_async sz p =
     (let p = buf_upd buffer (\<lambda>b. b\<lparr>data_size := dsize, offsets_size := osize,
                                      async_transaction := is_async\<rparr>) p
      in if is_async
         then p\<lparr>free_async_space := free_async_space p - (sz + of_nat sizeof_binder_buffer)\<rparr>
         else p)"

definition alloc_link ::
    "'e rb_ops_scheme \<Rightarrow> nat \<Rightarrow> u32 \<Rightarrow> u32 \<Rightarrow> bool \<Rightarrow> u32 \<Rightarrow> bool \<Rightarrow> 'p binder_area_scheme \<Rightarrow>
     'p binder_area_scheme option" where
  "alloc_link env buffer dsize osize is_async sz split p = do {
     let p = p\<lparr>free_buffers := rb_erase env buffer (free_buffers p)\<rparr>;
     let p = buf_upd buffer (\<lambda>b. b\<lparr>free := False\<rparr>) p;
     p \<leftarrow> binder_insert_allocated_buffer env p buffer;
     p \<leftarrow> (if split
           then let new_buffer = buffer_data buffer + unat sz;
                    p = p\<lparr>buffers := insert_after buffer new_buffer (buffers p)\<rparr>;
                    p = buf_upd new_buffer (\<lambda>b. b\<lparr>free := True\<rparr>) p
                in binder_insert_free_buffer env p new_buffer
           else Some p);
     Some (alloc_store buffer dsize osize is_async sz p)}"

definition binder_alloc_buf ::
    "'e page_env_scheme \<Rightarrow> 'p binder_area_scheme \<Rightarrow> u32 \<Rightarrow> u32 \<Rightarrow> bool \<Rightarrow>
     (nat option \<times> 'p binder_area_scheme) option" where
  "binder_alloc_buf env p dsize osize is_async =
     (if \<not> vma p then Some (None, p)
      else let sz = align_ptr dsize + align_ptr osize in
      if sz < dsize \<or> sz < osize then Some (None, p)
      else if is_async \<and> free_async_space p < sz + of_nat sizeof_binder_buffer then Some (None, p)
      else do {
        (best_fit, n) \<leftarrow> best_fit_search p (unat sz) (free_buffers p) None;
        case best_fit of
          None \<Rightarrow> Some (None, p)
        | Some buffer \<Rightarrow>
            let old_size = binder_buffer_size p buffer;
                has_page_addr = page_mask (add32 (buffer_data buffer) old_size);
                buffer_size = fit_size n sz old_size;
                end_page_addr = min (page_align (add32 (buffer_data buffer) buffer_size)) has_page_addr
            in do {
              (ret, p) \<leftarrow> binder_update_page_range env p True
                            (page_align (buffer_data buffer)) end_page_addr False;
              if ret \<noteq> 0 then Some (None, p)
              else map_option (Pair (Some buffer))
                     (alloc_link env buffer dsize osize is_async sz (buffer_size \<noteq> unat sz) p)}})"

section \<open>Release\<close>

definition buffer_start_page :: "nat \<Rightarrow> nat" where
  "buffer_start_page b = page_mask b"

definition buffer_end_page :: "nat \<Rightarrow> nat" where
  "buffer_end_page b = page_mask (b + sizeof_binder_buffer - 1)"

definition binder_delete_free_buffer ::
    "'e page_env_scheme \<Rightarrow> 'p binder_area_scheme \<Rightarrow> nat \<Rightarrow> 'p binder_area_scheme option" where
  "binder_delete_free_buffer env p buffer = do {
     prev \<leftarrow> prev_in (buffers p) buffer;
     check_that (free (bufs p prev));
     let shares_prev = (buffer_end_page prev = buffer_start_page buffer);
     let free_page_start = \<not> shares_prev;
     let free_page_end = \<not> (shares_prev \<and> buffer_end_page prev = buffer_end_page buffer);
     let (free_page_start, free_page_end) =
       (case next_in (buffers p) buffer of
          None \<Rightarrow> (free_page_start, free_page_end)
        | Some nxt \<Rightarrow>
            if buffer_start_page nxt = buffer_end_page buffer
            then (free_page_start \<and> buffer_start_page nxt \<noteq> buffer_start_page buffer, False)
            else (free_page_start, free_page_end));
     let p = p\<lparr>buffers := remove1 buffer (buffers p)\<rparr>;
     if free_page_start \<or> free_page_end
     then map_option snd (binder_update_page_range env p False
            (if free_page_start then buffer_start_page buffer else buffer_end_page buffer)
            ((if free_page_end then buffer_end_page buffer else buffer_start_page buffer) + PAGE_SIZE)
            False)
     else Some p}"

definition binder_free_buf ::
    "'e page_env_scheme \<Rightarrow> 'p binder_area_scheme \<Rightarrow> nat \<Rightarrow> 'p binder_area_scheme option" where
  "binder_free_buf env p buffer =
     (let buffer_size = binder_buffer_size p buffer;
          sz = align_ptr (data_size (bufs p buffer)) + align_ptr (offsets_size (bufs p buffer))
      in do {
        check_that (\<not> free (bufs p buffer));
        check_that (unat sz \<le> buffer_size);
        check_that (buf_transaction (bufs p buffer) = None);
        check_that (buffer \<ge> area p);
        check_that (buffer \<le> area p + area_size p);
        let p = (if async_transaction (bufs p buffer)
                 then p\<lparr>free_async_space := free_async_space p + (sz + of_nat sizeof_binder_buffer)\<rparr>
                 else p);
        (_, p) \<leftarrow> binder_update_page_range env p False (page_align (buffer_data buffer))
                   (page_mask (add32 (buffer_data buffer) buffer_size)) False;
        let p = p\<lparr>allocated_buffers := rb_erase env buffer (allocated_buffers p)\<rparr>;
        let p = buf_upd buffer (\<lambda>b. b\<lparr>free := True\<rparr>) p;
        p \<leftarrow> (case next_in (buffers p) buffer of
                None \<Rightarrow> Some p
              | Some nxt \<Rightarrow>
                  if free (bufs p nxt)
                  then binder_delete_free_buffer env
                         (p\<lparr>free_buffers := rb_erase env nxt (free_buffers p)\<rparr>) nxt
                  else Some p);
        (p, buffer) \<leftarrow> (case prev_in (buffers p) buffer of
                None \<Rightarrow> Some (p, buffer)
              | Some prev \<Rightarrow>
                  if free (bufs p prev)
                  then do {
                    p \<leftarrow> binder_delete_free_buffer env p buffer;
                    Some (p\<lparr>free_buffers := rb_erase env prev (free_buffers p)\<rparr>, prev)}
                  else Some (p, buffer));
        binder_insert_free_buffer env p buffer})"

section \<open>Mapping the area\<close>

text \<open>
  The request of \<open>mmap\<close> (\<open>vm_start\<close>, \<open>vm_end\<close>, whether \<open>VM_WRITE\<close> is asked for)
  and what the kernel answers to \<open>get_vm_area\<close> and to the allocation of the page array.
\<close>

record mmap_request =
  vm_start :: nat
  vm_end :: nat
  vm_write :: bool
  vm_area_result :: "nat option"
  page_array_result :: bool

definition binder_mmap ::
    "'e page_env_scheme \<Rightarrow> 'p binder_area_scheme \<Rightarrow> mmap_request \<Rightarrow> (int \<times> 'p binder_area_scheme) option" where
  "binder_mmap env p req =
     (let vend = (if vm_end req - vm_start req > SZ_4M then vm_start req + SZ_4M else vm_end req);
          len = vend - vm_start req
      in if vm_write req then Some (- EPERM, p)
         else if area p \<noteq> 0 then Some (- EBUSY, p)
         else case vm_area_result req of
           None \<Rightarrow> Some (- ENOMEM, p)
         | Some addr \<Rightarrow>
             let p = p\<lparr>area := addr, user_buffer_offset := sub32 (vm_start req) addr\<rparr> in
             if \<not> page_array_result req then Some (- ENOMEM, p\<lparr>area := 0\<rparr>)
             else
               let p = p\<lparr>pages := replicate (len div PAGE_SIZE) False, area_size := len\<rparr> in do {
                 (ret, p) \<leftarrow> binder_update_page_range env p True addr (addr + PAGE_SIZE) True;
                 if ret \<noteq> 0 then Some (- ENOMEM, p\<lparr>pages := [], area := 0\<rparr>)
                 else do {
                   let p = p\<lparr>buffers := [addr]\<rparr>;
                   let p = buf_upd addr (\<lambda>b. b\<lparr>free := True\<rparr>) p;
                   p \<leftarrow> binder_insert_free_buffer env p addr;
                   Some (0, p\<lparr>free_async_space := of_nat (area_size p div 2),
                              files := True, vma := True\<rparr>)}})"

end
