(* ===== verification/AllocPages.thy ===== *)
theory AllocPages
  imports BinderAlloc
begin

text \<open>
  The page layer of the allocator: what the populate and release loops of
  binder_update_page_range do to the page array, the layout of the buffers in the area,
  and which pages a layout needs.  Pages are named by their number \<open>pg a\<close>.
\<close>

section \<open>The layout of an area\<close>

definition pg :: "nat \<Rightarrow> nat" where
  "pg a = a div PAGE_SIZE"

definition area_end :: "'p binder_area_scheme \<Rightarrow> nat" where
  "area_end p = area p + area_size p"

definition area_geometry :: "'p binder_area_scheme \<Rightarrow> bool" where
  "area_geometry p \<longleftrightarrow>
     0 < area p \<and> area p mod PAGE_SIZE = 0 \<and> 0 < area_size p \<and> area_size p mod PAGE_SIZE = 0 \<and>
     area_size p \<le> SZ_4M \<and> area_end p < addr_bound \<and>
     length (pages p) = area_size p div PAGE_SIZE"

text \<open>Each buffer holds its header; the last one ends at \<open>e\<close>.\<close>

fun tiled :: "nat list \<Rightarrow> nat \<Rightarrow> bool" where
  "tiled [] e = True"
| "tiled (b # bs) e = (b + sizeof_binder_buffer \<le> hd (bs @ [e]) \<and> tiled bs e)"

text \<open>
  The pages in use: all pages of an allocated buffer, the header's pages of a free one.
\<close>

fun needs_page :: "(nat \<Rightarrow> bool) \<Rightarrow> nat list \<Rightarrow> nat \<Rightarrow> nat \<Rightarrow> bool" where
  "needs_page is_free [] e P = False"
| "needs_page is_free (b # bs) e P =
     ((pg b \<le> P \<and> P \<le> pg ((if is_free b then b + sizeof_binder_buffer else hd (bs @ [e])) - 1))
      \<or> needs_page is_free bs e P)"

lemma hd_append_end [simp]: "hd (pre @ b # post @ [e]) = hd (pre @ [b])"
  by (cases pre) auto

lemma tiled_append [simp]: "tiled (pre @ b # post) e \<longleftrightarrow> tiled pre b \<and> tiled (b # post) e"
  by (induction pre) auto

lemma tiled_above: "tiled bs e \<Longrightarrow> x \<in> set bs \<Longrightarrow> x + sizeof_binder_buffer \<le> e"
proof (induction bs arbitrary: x)
  case (Cons b bs)
  show ?case
  proof (cases "x = b \<and> bs \<noteq> []")
    case True
    with Cons.prems Cons.IH [of "hd bs"] show ?thesis by auto
  qed (use Cons in auto)
qed simp

lemma tiled_hd_le: "tiled bs e \<Longrightarrow> hd (bs @ [e]) \<le> e"
  using tiled_above [of bs e "hd bs"] by (cases bs) auto

lemma tiled_below: "tiled bs e \<Longrightarrow> x \<in> set bs \<Longrightarrow> hd bs \<le> x"
proof (induction bs)
  case (Cons b bs)
  then show ?case by (cases bs) auto
qed simp

lemma tiled_Cons_below: "tiled (b # bs) e \<Longrightarrow> x \<in> set bs \<Longrightarrow> b + sizeof_binder_buffer \<le> x"
  using tiled_below [of bs e x] by (cases bs) auto

lemma tiled_sorted: "tiled bs e \<Longrightarrow> sorted_wrt (<) bs"
  by (induction bs) (auto dest: tiled_Cons_below simp del: tiled.simps(2) intro: tiled.simps(2) [THEN iffD1, THEN conjunct2])

lemma tiled_distinct: "tiled bs e \<Longrightarrow> distinct bs"
  using tiled_sorted strict_sorted_iff by blast

lemma tiled_split_notin:
  "tiled (pre @ b # post) e \<Longrightarrow> b \<notin> set pre \<and> b \<notin> set post"
  using tiled_distinct by fastforce

lemma pg_mono: "a \<le> b \<Longrightarrow> pg a \<le> pg b"
  by (simp add: pg_def div_le_mono)

lemma needs_append [simp]:
  "needs_page f (pre @ b # post) e P \<longleftrightarrow> needs_page f pre b P \<or> needs_page f (b # post) e P"
  by (induction pre) auto

lemma needs_le: "tiled bs e \<Longrightarrow> needs_page f bs e P \<Longrightarrow> P \<le> pg (e - 1)"
proof (induction bs)
  case (Cons b bs)
  have "(if f b then b + sizeof_binder_buffer else hd (bs @ [e])) - 1 \<le> e - 1"
    using Cons.prems(1) tiled_hd_le [of bs e] by auto
  from pg_mono [OF this] Cons show ?case by auto
qed simp

lemma needs_ge: "tiled bs e \<Longrightarrow> needs_page f bs e P \<Longrightarrow> bs \<noteq> [] \<and> pg (hd bs) \<le> P"
proof (induction bs)
  case (Cons b bs)
  show ?case
  proof (cases bs)
    case (Cons c cs)
    with Cons.prems(1) have "pg b \<le> pg c" by (auto intro: pg_mono)
    with Cons Cons.prems Cons.IH show ?thesis by auto
  qed (use Cons in auto)
qed simp

lemma needs_hd: "tiled (b # bs) e \<Longrightarrow> needs_page f (b # bs) e (pg b)"
  by (auto intro!: pg_mono)

lemma needs_cong:
  "(\<And>x. x \<in> set bs \<Longrightarrow> f x = g x) \<Longrightarrow> needs_page f bs e P = needs_page g bs e P"
  by (induction bs) auto

section \<open>Loops over pages\<close>

text \<open>\<open>page_fill p S v\<close> stores \<open>v\<close> for every page numbered in \<open>S\<close>.\<close>

definition page_fill :: "'p binder_area_scheme \<Rightarrow> nat set \<Rightarrow> bool \<Rightarrow> 'p binder_area_scheme" where
  "page_fill p S v =
     p\<lparr>pages := map (\<lambda>i. if pg (area p) + i \<in> S then v else pages p ! i) [0..<length (pages p)]\<rparr>"

definition page_at :: "'p binder_area_scheme \<Rightarrow> nat \<Rightarrow> bool" where
  "page_at p P \<longleftrightarrow> pages p ! (P - pg (area p))"

definition page_in_area :: "'p binder_area_scheme \<Rightarrow> nat \<Rightarrow> bool" where
  "page_in_area p P \<longleftrightarrow> pg (area p) \<le> P \<and> P < pg (area_end p)"

lemma page_fill_simps [simp]:
  "area (page_fill p S v) = area p"
  "area_size (page_fill p S v) = area_size p"
  "area_end (page_fill p S v) = area_end p"
  "buffers (page_fill p S v) = buffers p"
  "bufs (page_fill p S v) = bufs p"
  "free_buffers (page_fill p S v) = free_buffers p"
  "allocated_buffers (page_fill p S v) = allocated_buffers p"
  "free_async_space (page_fill p S v) = free_async_space p"
  "vma (page_fill p S v) = vma p"
  "files (page_fill p S v) = files p"
  "user_buffer_offset (page_fill p S v) = user_buffer_offset p"
  "page_ops (page_fill p S v) = page_ops p"
  "length (pages (page_fill p S v)) = length (pages p)"
  "binder_area.more (page_fill p S v) = binder_area.more p"
  by (simp_all add: page_fill_def area_end_def)

lemma page_fill_geometry [simp]: "area_geometry (page_fill p S v) = area_geometry p"
  by (simp add: area_geometry_def)

lemma page_fill_in_area [simp]: "page_in_area (page_fill p S v) P = page_in_area p P"
  by (simp add: page_in_area_def)

lemma geometry_length: "area_geometry p \<Longrightarrow> pg (area_end p) = pg (area p) + length (pages p)"
  unfolding area_geometry_def area_end_def pg_def by (auto elim!: dvdE simp: mod_eq_0_iff_dvd)

lemma page_fill_at [simp]:
  "area_geometry p \<Longrightarrow> page_in_area p P \<Longrightarrow>
   page_at (page_fill p S v) P = (if P \<in> S then v else page_at p P)"
  using geometry_length [of p] unfolding page_at_def page_in_area_def
  by (auto simp: page_fill_def)

lemma page_fill_empty [simp]: "page_fill p {} v = p"
  by (simp add: page_fill_def map_nth)

lemma page_fill_union [simp]: "page_fill (page_fill p S v) T v = page_fill p (S \<union> T) v"
  by (simp add: page_fill_def cong: map_cong)

lemma page_fill_ops [simp]:
  "page_fill (p\<lparr>page_ops := n\<rparr>) S v = (page_fill p S v)\<lparr>page_ops := n\<rparr>"
  by (simp add: page_fill_def)

lemma page_ops_simps [simp]:
  "page_at (p\<lparr>page_ops := n\<rparr>) P = page_at p P"
  "page_in_area (p\<lparr>page_ops := n\<rparr>) P = page_in_area p P"
  "area_end (p\<lparr>page_ops := n\<rparr>) = area_end p"
  "area_geometry (p\<lparr>page_ops := n\<rparr>) = area_geometry p"
  by (simp_all add: page_at_def page_in_area_def area_end_def area_geometry_def)

lemma page_fill_restore:
  "(\<And>P. P \<in> S \<Longrightarrow> page_in_area p P \<Longrightarrow> page_at p P = v) \<Longrightarrow> area_geometry p \<Longrightarrow>
   page_fill p S v = p"
proof -
  assume "\<And>P. P \<in> S \<Longrightarrow> page_in_area p P \<Longrightarrow> page_at p P = v" and "area_geometry p"
  then have "pages p ! i = v" if "pg (area p) + i \<in> S" "i < length (pages p)" for i
    using that geometry_length [of p] by (force simp: page_at_def page_in_area_def)
  then have "map (\<lambda>i. if pg (area p) + i \<in> S then v else pages p ! i) [0..<length (pages p)] = pages p"
    by (intro nth_equalityI) auto
  then show ?thesis by (simp add: page_fill_def)
qed

lemma page_addr_bounds:
  assumes "area_geometry p" "page_in_area p P"
  shows "area p \<le> P * PAGE_SIZE" "P * PAGE_SIZE < area_end p"
    "page_index p (P * PAGE_SIZE) = P - pg (area p)" "P - pg (area p) < length (pages p)"
proof -
  from assms have a: "area p = pg (area p) * PAGE_SIZE" "area_end p < addr_bound"
    and e: "area_end p = pg (area_end p) * PAGE_SIZE"
    unfolding area_geometry_def area_end_def pg_def
    by (auto elim!: dvdE simp: mod_eq_0_iff_dvd)
  from assms(2) have "pg (area p) * PAGE_SIZE \<le> P * PAGE_SIZE" "P * PAGE_SIZE < pg (area_end p) * PAGE_SIZE"
    by (auto simp: page_in_area_def)
  with a e show 1: "area p \<le> P * PAGE_SIZE" and 2: "P * PAGE_SIZE < area_end p" by linarith+
  have "P * PAGE_SIZE - area p = (P - pg (area p)) * PAGE_SIZE"
    using a by (metis diff_mult_distrib)
  with 1 2 a show "page_index p (P * PAGE_SIZE) = P - pg (area p)"
    by (simp add: page_index_def)
  from assms show "P - pg (area p) < length (pages p)"
    using geometry_length [of p] by (auto simp: page_in_area_def)
qed

lemma fill_one:
  assumes "area_geometry p" "page_in_area p P"
  shows "p\<lparr>pages := (pages p)[P - pg (area p) := v]\<rparr> = page_fill p {P} v"
proof -
  have "(pages p)[P - pg (area p) := v] =
        map (\<lambda>i. if pg (area p) + i \<in> {P} then v else pages p ! i) [0..<length (pages p)]"
    using assms by (intro nth_equalityI) (auto simp: nth_list_update page_in_area_def)
  then show ?thesis by (simp add: page_fill_def)
qed

lemma free_page_fill:
  assumes "area_geometry p" "page_in_area p P" "page_at p P"
  shows "free_page p (P * PAGE_SIZE) = Some (page_fill p {P} False)"
  using assms page_addr_bounds [OF assms(1,2)] fill_one [OF assms(1,2)]
  by (simp add: free_page_def page_at_def Let_def)

lemma put_page_fill:
  assumes "area_geometry p" "page_in_area p P" "\<not> page_at p P"
  shows "put_page p (P * PAGE_SIZE) = Some (page_fill p {P} True)"
  using assms page_addr_bounds [OF assms(1,2)] fill_one [OF assms(1,2)]
  by (simp add: put_page_def page_at_def Let_def)

text \<open>The release loop clears the pages from \<open>P\<close> up to \<open>Q\<close>, which must be present.\<close>

lemma free_range_fill:
  assumes "area_geometry p" "0 < P" "P \<le> Q"
    and "\<And>R. P \<le> R \<Longrightarrow> R < Q \<Longrightarrow> page_in_area p R \<and> page_at p R"
  shows "free_range p (Q * PAGE_SIZE - PAGE_SIZE) (P * PAGE_SIZE) = Some (page_fill p {P..<Q} False)"
  using assms(1,3,4)
proof (induction Q arbitrary: p)
  case 0
  with assms(2) show ?case by simp
next
  case (Suc Q)
  show ?case
  proof (cases "P = Suc Q")
    case True
    with Suc show ?thesis by (subst free_range.simps) simp
  next
    case False
    with Suc.prems have "P \<le> Q" by simp
    then have Q: "page_in_area p Q" "page_at p Q" using Suc.prems by auto
    have "free_range p (Suc Q * PAGE_SIZE - PAGE_SIZE) (P * PAGE_SIZE) =
          free_range (page_fill p {Q} False) (Q * PAGE_SIZE - PAGE_SIZE) (P * PAGE_SIZE)"
      using Q \<open>P \<le> Q\<close> assms(2) Suc.prems(1) free_page_fill [of p Q]
      by (subst free_range.simps) (simp add: algebra_simps)
    also have "\<dots> = Some (page_fill (page_fill p {Q} False) {P..<Q} False)"
      using Suc.prems \<open>P \<le> Q\<close> by (intro Suc.IH) auto
    also have "{Q} \<union> {P..<Q} = {P..<Suc Q}" using \<open>P \<le> Q\<close> by auto
    ultimately show ?thesis by simp
  qed
qed

lemma unwind_below_fill:
  assumes "area_geometry p" "0 < S" "S \<le> P"
    and "\<And>R. S \<le> R \<Longrightarrow> R < P \<Longrightarrow> page_in_area p R \<and> page_at p R"
  shows "unwind_below p (P * PAGE_SIZE) (S * PAGE_SIZE) = Some (page_fill p {S..<P} False)"
  using free_range_fill [OF assms] assms(2,3) by (simp add: unwind_below_def)

text \<open>
  The populate loop fills the pages from \<open>P\<close> up to \<open>Q\<close>, or fails and clears every
  page it had filled since \<open>S\<close>, whatever the page allocator answers.
\<close>

lemma allocate_range_fill:
  assumes "area_geometry p" "0 < S" "S \<le> P" "P \<le> Q"
    and "\<And>R. S \<le> R \<Longrightarrow> R < P \<Longrightarrow> page_in_area p R \<and> page_at p R"
    and "\<And>R. P \<le> R \<Longrightarrow> R < Q \<Longrightarrow> page_in_area p R \<and> \<not> page_at p R"
  shows "\<exists>n. allocate_range env p (P * PAGE_SIZE) (S * PAGE_SIZE) (Q * PAGE_SIZE) =
               Some (0, (page_fill p {P..<Q} True)\<lparr>page_ops := n\<rparr>)
           \<or> allocate_range env p (P * PAGE_SIZE) (S * PAGE_SIZE) (Q * PAGE_SIZE) =
               Some (- ENOMEM, (page_fill p {S..<P} False)\<lparr>page_ops := n\<rparr>)"
  using assms(1,3-)
proof (induction "Q - P" arbitrary: P p)
  case 0
  then have "P = Q" by simp
  then have "allocate_range env p (P * PAGE_SIZE) (S * PAGE_SIZE) (Q * PAGE_SIZE) =
      Some (0, (page_fill p {P..<Q} True)\<lparr>page_ops := page_ops p\<rparr>)"
    by (subst allocate_range.simps) simp
  then show ?case by blast
next
  case (Suc k)
  then have less: "P < Q" by simp
  then have P: "page_in_area p P" "\<not> page_at p P" using Suc.prems by auto
  let ?n = "Suc (page_ops p)"
  let ?p1 = "(page_fill p {P} True)\<lparr>page_ops := ?n\<rparr>"
  have step: "allocate_range env p (P * PAGE_SIZE) (S * PAGE_SIZE) (Q * PAGE_SIZE) =
     (case page_outcome_of env (page_ops p) of
        Page_inserted \<Rightarrow> allocate_range env ?p1 (Suc P * PAGE_SIZE) (S * PAGE_SIZE) (Q * PAGE_SIZE)
      | Alloc_page_failed \<Rightarrow>
          unwind_below (p\<lparr>page_ops := ?n\<rparr>) (P * PAGE_SIZE) (S * PAGE_SIZE) \<bind> (\<lambda>p2. Some (- ENOMEM, p2))
      | _ \<Rightarrow> free_page ?p1 (P * PAGE_SIZE) \<bind>
               (\<lambda>p2. unwind_below p2 (P * PAGE_SIZE) (S * PAGE_SIZE) \<bind> (\<lambda>p3. Some (- ENOMEM, p3))))"
    using less P Suc.prems(1) put_page_fill [of p P]
    by (subst allocate_range.simps)
       (simp add: Let_def algebra_simps split: page_outcome.split)
  have done_pages: "\<And>R. S \<le> R \<Longrightarrow> R < P \<Longrightarrow> page_in_area p R \<and> page_at p R"
    using Suc.prems by blast
  have fail: "unwind_below (p\<lparr>page_ops := ?n\<rparr>) (P * PAGE_SIZE) (S * PAGE_SIZE) =
      Some ((page_fill p {S..<P} False)\<lparr>page_ops := ?n\<rparr>)"
    using unwind_below_fill [of "p\<lparr>page_ops := ?n\<rparr>" S P] assms(2) Suc.prems(1,2) done_pages by simp
  have undo: "free_page ?p1 (P * PAGE_SIZE) = Some (p\<lparr>page_ops := ?n\<rparr>)"
  proof -
    have "free_page ?p1 (P * PAGE_SIZE) = Some (page_fill ?p1 {P} False)"
      using P Suc.prems(1) by (intro free_page_fill) auto
    also have "page_fill ?p1 {P} False = page_fill (p\<lparr>page_ops := ?n\<rparr>) {P} False"
      by (auto simp: page_fill_def)
    also have "\<dots> = p\<lparr>page_ops := ?n\<rparr>"
      using P Suc.prems(1) by (intro page_fill_restore) auto
    finally show ?thesis .
  qed
  show ?case
  proof (cases "page_outcome_of env (page_ops p) = Page_inserted")
    case True
    have new_pages: "\<And>R. S \<le> R \<Longrightarrow> R < Suc P \<Longrightarrow> page_in_area ?p1 R \<and> page_at ?p1 R"
      using done_pages P Suc.prems(1) by (auto simp: less_Suc_eq)
    have u1: "{P} \<union> {Suc P..<Q} = {P..<Q}" and u2: "\<And>R. R < P \<Longrightarrow> R \<noteq> P" using less by auto
    have restore: "page_fill (page_fill p {P} True) {S..<Suc P} False = page_fill p {S..<P} False"
      using P Suc.prems(1) Suc.prems(2) geometry_length [OF Suc.prems(1)]
      by (auto simp: page_fill_def page_at_def page_in_area_def less_Suc_eq intro!: nth_equalityI
          binder_area.equality)
    have k: "k = Q - Suc P" using Suc.hyps(2) by simp
    obtain n where "allocate_range env ?p1 (Suc P * PAGE_SIZE) (S * PAGE_SIZE) (Q * PAGE_SIZE) =
               Some (0, (page_fill ?p1 {Suc P..<Q} True)\<lparr>page_ops := n\<rparr>)
           \<or> allocate_range env ?p1 (Suc P * PAGE_SIZE) (S * PAGE_SIZE) (Q * PAGE_SIZE) =
               Some (- ENOMEM, (page_fill ?p1 {S..<Suc P} False)\<lparr>page_ops := n\<rparr>)"
    proof (atomize_elim, rule Suc.hyps(1) [OF k])
      show "\<And>R. Suc P \<le> R \<Longrightarrow> R < Q \<Longrightarrow> page_in_area ?p1 R \<and> \<not> page_at ?p1 R"
        using Suc.prems by auto
    qed (use Suc.prems less new_pages in auto)
    with True step u1 restore show ?thesis by (auto simp del: mult_Suc)
  next
    case False
    with step fail undo show ?thesis
      by (cases "page_outcome_of env (page_ops p)") auto
  qed
qed

end
