(* ===== verification/AllocInvariant.thy ===== *)
theory AllocInvariant
  imports AllocPages
begin

text \<open>
  The invariant of a mapped area and the lemmas shared by the proofs of allocation and
  release: what the descents over the two trees do, and how a change of the buffer list
  changes the size of a buffer.
\<close>

section \<open>The invariant\<close>

abbreviation is_free :: "'p binder_area_scheme \<Rightarrow> nat \<Rightarrow> bool" where
  "is_free p b \<equiv> free (bufs p b)"

definition payload_size :: "'p binder_area_scheme \<Rightarrow> nat \<Rightarrow> u32" where
  "payload_size p b = align_ptr (data_size (bufs p b)) + align_ptr (offsets_size (bufs p b))"

definition layout_ok :: "'p binder_area_scheme \<Rightarrow> bool" where
  "layout_ok p \<longleftrightarrow> buffers p \<noteq> [] \<and> hd (buffers p) = area p \<and> tiled (buffers p) (area_end p)"

definition coalesced :: "'p binder_area_scheme \<Rightarrow> bool" where
  "coalesced p \<longleftrightarrow> successively (\<lambda>b c. \<not> (is_free p b \<and> is_free p c)) (buffers p)"

definition free_tree_ok :: "'p binder_area_scheme \<Rightarrow> nat set \<Rightarrow> bool" where
  "free_tree_ok p bs \<longleftrightarrow>
     distinct (inorder (free_buffers p)) \<and> set (inorder (free_buffers p)) = bs \<and>
     sorted (map (binder_buffer_size p) (inorder (free_buffers p)))"

definition allocated_tree_ok :: "'p binder_area_scheme \<Rightarrow> bool" where
  "allocated_tree_ok p \<longleftrightarrow>
     keyed (\<lambda>b. b) (inorder (allocated_buffers p)) \<and>
     set (inorder (allocated_buffers p)) = {b \<in> set (buffers p). \<not> is_free p b}"

definition payloads_fit :: "'p binder_area_scheme \<Rightarrow> bool" where
  "payloads_fit p \<longleftrightarrow>
     (\<forall>b \<in> set (buffers p). \<not> is_free p b \<longrightarrow> unat (payload_size p b) \<le> binder_buffer_size p b)"

definition async_charge :: "'p binder_area_scheme \<Rightarrow> nat \<Rightarrow> nat" where
  "async_charge p b =
     (if \<not> is_free p b \<and> async_transaction (bufs p b)
      then unat (payload_size p b) + sizeof_binder_buffer else 0)"

definition async_ok :: "'p binder_area_scheme \<Rightarrow> bool" where
  "async_ok p \<longleftrightarrow>
     unat (free_async_space p) + sum_list (map (async_charge p) (buffers p)) = area_size p div 2"

definition pages_ok :: "'p binder_area_scheme \<Rightarrow> bool" where
  "pages_ok p \<longleftrightarrow>
     (\<forall>P. page_in_area p P \<longrightarrow>
        page_at p P = needs_page (is_free p) (buffers p) (area_end p) P)"

definition base_inv :: "'p binder_area_scheme \<Rightarrow> bool" where
  "base_inv p \<longleftrightarrow> area_geometry p \<and> layout_ok p \<and> allocated_tree_ok p \<and> payloads_fit p \<and>
     async_ok p \<and> pages_ok p"

definition alloc_inv :: "'p binder_area_scheme \<Rightarrow> bool" where
  "alloc_inv p \<longleftrightarrow> base_inv p \<and> coalesced p \<and>
     free_tree_ok p {b \<in> set (buffers p). is_free p b}"

lemmas area_inv_defs =
  base_inv_def layout_ok_def allocated_tree_ok_def payloads_fit_def async_ok_def pages_ok_def

section \<open>Sizes of buffers\<close>

lemma next_in_left: "x \<in> set pre \<Longrightarrow> next_in (pre @ b # post) x = next_in (pre @ [b]) x"
proof (induction pre)
  case (Cons y pre)
  then show ?case by (cases pre) auto
qed simp

lemma next_in_right: "x \<notin> set pre \<Longrightarrow> next_in (pre @ post) x = next_in post x"
proof (induction pre)
  case (Cons y pre)
  then show ?case by (cases "pre @ post") auto
qed simp

lemma next_in_skip:
  assumes "x \<noteq> a" "x \<noteq> b"
  shows "next_in (pre @ a # b # post) x = next_in (pre @ a # post) x"
proof (cases "x \<in> set pre")
  case False
  with assms next_in_right [of x "pre @ [a, b]" post] next_in_right [of x "pre @ [a]" post]
  show ?thesis by simp
next
  case True
  then show ?thesis by (simp only: next_in_left [of x pre a "b # post"] next_in_left [of x pre a post])
qed

lemma size_split:
  assumes "area_geometry p" "buffers p = pre @ b # post" "tiled (buffers p) (area_end p)"
  shows "binder_buffer_size p b = hd (post @ [area_end p]) - buffer_data b"
    and "buffer_data b \<le> hd (post @ [area_end p])"
    and "hd (post @ [area_end p]) < addr_bound"
proof -
  have nb: "b \<notin> set pre" using tiled_split_notin [OF assms(3) [unfolded assms(2)]] by (rule conjunct1)
  have t: "buffer_data b \<le> hd (post @ [area_end p])" "tiled post (area_end p)"
    using assms(3) unfolding assms(2) by (simp_all add: buffer_data_def)
  have le: "hd (post @ [area_end p]) \<le> area_end p" by (rule tiled_hd_le [OF t(2)])
  have e: "area_end p < addr_bound" using assms(1) by (simp add: area_geometry_def)
  from t show "buffer_data b \<le> hd (post @ [area_end p])" by simp
  from le e show "hd (post @ [area_end p]) < addr_bound" by simp
  show "binder_buffer_size p b = hd (post @ [area_end p]) - buffer_data b"
    using nb t(1) le e assms(2)
    by (cases post) (simp_all add: binder_buffer_size_def area_end_def)
qed

lemma size_skip:
  assumes "x \<noteq> a" "x \<noteq> b" "buffers p = pre @ a # b # post" "buffers p' = pre @ a # post"
    and "area_end p' = area_end p"
  shows "binder_buffer_size p' x = binder_buffer_size p x"
  using assms next_in_skip [OF assms(1,2), of pre post]
  by (simp add: binder_buffer_size_def area_end_def split: option.split)

lemma size_cong:
  "buffers p' = buffers p \<Longrightarrow> area_end p' = area_end p \<Longrightarrow>
   binder_buffer_size p' = binder_buffer_size p"
  by (simp add: binder_buffer_size_def area_end_def fun_eq_iff split: option.split)

lemma size_bound:
  assumes "area_geometry p" "layout_ok p" "b \<in> set (buffers p)"
  shows "binder_buffer_size p b \<le> area_size p" "area p \<le> b" "b + sizeof_binder_buffer \<le> area_end p"
proof -
  from assms(3) obtain pre post where s: "buffers p = pre @ b # post" by (meson split_list)
  from assms(2) have t: "tiled (buffers p) (area_end p)" by (simp add: layout_ok_def)
  from assms tiled_below [OF t] show le: "area p \<le> b" by (auto simp: layout_ok_def)
  from tiled_above [OF t] assms(3) show "b + sizeof_binder_buffer \<le> area_end p" by simp
  have "tiled post (area_end p)" using t s by simp
  with size_split [OF assms(1) s t] tiled_hd_le [of post "area_end p"] le
  show "binder_buffer_size p b \<le> area_size p" by (auto simp: area_end_def buffer_data_def)
qed

section \<open>The trees\<close>

lemma sorted_key_insert:
  "sorted (map key xs) \<Longrightarrow> key x = k \<Longrightarrow> sorted (map key (key_insert key k x xs))"
  by (induction xs) auto

lemma link_free_buffer_ok:
  assumes "\<And>b. b \<in> set (inorder t) \<Longrightarrow> is_free p b"
    and "sorted (map (binder_buffer_size p) (inorder t))"
  shows "\<exists>t'. link_free_buffer p k new t = Some t' \<and>
           inorder t' = key_insert (binder_buffer_size p) k new (inorder t)"
  using assms
proof (induction t)
  case (Node l b r)
  show ?case
  proof (cases "k < binder_buffer_size p b")
    case True
    from Node obtain l' where "link_free_buffer p k new l = Some l'"
        "inorder l' = key_insert (binder_buffer_size p) k new (inorder l)"
      by (auto simp: sorted_append)
    with True Node.prems(1) show ?thesis by (auto simp: key_insert_append_less)
  next
    case False
    from Node obtain r' where "link_free_buffer p k new r = Some r'"
        "inorder r' = key_insert (binder_buffer_size p) k new (inorder r)"
      by (auto simp: sorted_append)
    moreover from Node.prems(2) False
    have "\<forall>z \<in> set (inorder l @ [b]). binder_buffer_size p z \<le> k"
      by (fastforce simp: sorted_append)
    from key_insert_append_ge [OF this, of new "inorder r"]
    have "key_insert (binder_buffer_size p) k new (inorder l @ b # inorder r) =
          inorder l @ b # key_insert (binder_buffer_size p) k new (inorder r)" by simp
    ultimately show ?thesis using False Node.prems(1) by auto
  qed
qed simp

lemma insert_free_buffer_ok:
  assumes "rb_ok env" "free_tree_ok p bs" "new \<notin> bs" "is_free p new" "\<And>b. b \<in> bs \<Longrightarrow> is_free p b"
  shows "\<exists>t. binder_insert_free_buffer env p new = Some (p\<lparr>free_buffers := t\<rparr>) \<and>
           free_tree_ok (p\<lparr>free_buffers := t\<rparr>) (insert new bs)"
proof -
  from assms have t: "\<And>b. b \<in> set (inorder (free_buffers p)) \<Longrightarrow> is_free p b"
    "sorted (map (binder_buffer_size p) (inorder (free_buffers p)))"
    by (auto simp: free_tree_ok_def)
  from link_free_buffer_ok [OF t, of "binder_buffer_size p new" new] obtain t' where
    l: "link_free_buffer p (binder_buffer_size p new) new (free_buffers p) = Some t'" and
    i: "inorder t' = key_insert (binder_buffer_size p) (binder_buffer_size p new) new (inorder (free_buffers p))"
    by auto
  let ?t = "rb_insert_color env new t'"
  have "binder_buffer_size (p\<lparr>free_buffers := ?t\<rparr>) = binder_buffer_size p"
    by (rule size_cong) (simp_all add: area_end_def)
  with assms l i show ?thesis
    by (intro exI [of _ ?t])
       (auto simp: binder_insert_free_buffer_def free_tree_ok_def sorted_key_insert distinct_key_insert)
qed

lemma link_allocated_buffer_eq:
  "(\<And>b. b \<in> set (inorder t) \<Longrightarrow> \<not> is_free p b) \<Longrightarrow>
   link_allocated_buffer p new t = rb_link (\<lambda>b. b) new new t"
  by (induction t) auto

lemma search_allocated_buffer_eq:
  "(\<And>b. b \<in> set (inorder t) \<Longrightarrow> \<not> is_free p b) \<Longrightarrow>
   search_allocated_buffer p k t = Some (rb_search (\<lambda>b. b) k t)"
  by (induction t) auto

lemma insert_allocated_buffer_ok:
  assumes "rb_ok env" "keyed (\<lambda>b. b) (inorder (allocated_buffers p))"
    and "\<And>b. b \<in> set (inorder (allocated_buffers p)) \<Longrightarrow> \<not> is_free p b"
    and "new \<notin> set (inorder (allocated_buffers p))" "\<not> is_free p new"
  shows "\<exists>t. binder_insert_allocated_buffer env p new = Some (p\<lparr>allocated_buffers := t\<rparr>) \<and>
           keyed (\<lambda>b. b) (inorder t) \<and> set (inorder t) = insert new (set (inorder (allocated_buffers p)))"
proof -
  have eq: "link_allocated_buffer p new (allocated_buffers p) = rb_link (\<lambda>b. b) new new (allocated_buffers p)"
    using assms(3) by (rule link_allocated_buffer_eq)
  obtain t' where l: "rb_link (\<lambda>b. b) new new (allocated_buffers p) = Some t'"
    using rb_link_None [OF assms(2), of new new] assms(4) by fastforce
  note i = inorder_rb_link [OF assms(2) l]
  have k: "keyed (\<lambda>b. b) (inorder t')"
    unfolding i using assms(2,4) by (intro keyed_key_insert) auto
  show ?thesis
    using assms(1,5) eq l i k
    by (intro exI [of _ "rb_insert_color env new t'"])
       (auto simp: binder_insert_allocated_buffer_def simp del: set_inorder)
qed

lemma free_tree_erase:
  assumes "rb_ok env" "free_tree_ok p bs" "b \<in> bs"
  shows "free_tree_ok (p\<lparr>free_buffers := rb_erase env b (free_buffers p)\<rparr>) (bs - {b})"
proof -
  have s: "binder_buffer_size (p\<lparr>free_buffers := rb_erase env b (free_buffers p)\<rparr>) = binder_buffer_size p"
    by (rule size_cong) (simp_all add: area_end_def)
  have "sorted (map key (remove1 x xs))" if "sorted (map key xs)" for key :: "nat \<Rightarrow> nat" and x xs
    using that by (induction xs) (auto dest: notin_set_remove1)
  with assms s show ?thesis
    by (auto simp: free_tree_ok_def simp del: set_inorder)
qed

lemma free_tree_cong:
  assumes "free_tree_ok p bs" "free_buffers p' = free_buffers p"
    and "\<And>b. b \<in> bs \<Longrightarrow> binder_buffer_size p' b = binder_buffer_size p b"
  shows "free_tree_ok p' bs"
proof -
  have "map (binder_buffer_size p') (inorder (free_buffers p)) =
        map (binder_buffer_size p) (inorder (free_buffers p))"
    using assms by (auto simp: free_tree_ok_def)
  with assms show ?thesis unfolding free_tree_ok_def by metis
qed

section \<open>The descent to the best fit\<close>

text \<open>
  The descent ends at a buffer of exactly the size when there is one, and otherwise keeps
  the first larger one in the order of sizes.
\<close>

lemma best_fit_search_ok:
  assumes "\<And>b. b \<in> set (inorder t) \<Longrightarrow> is_free p b"
    and "sorted (map (binder_buffer_size p) (inorder t))"
  shows "(\<exists>b \<in> set (inorder t). binder_buffer_size p b = sz \<and>
            best_fit_search p sz t acc = Some (Some b, Some b))
       \<or> ((\<forall>b \<in> set (inorder t). binder_buffer_size p b \<noteq> sz) \<and>
          best_fit_search p sz t acc =
            Some (case filter (\<lambda>b. sz < binder_buffer_size p b) (inorder t) of
                    [] \<Rightarrow> acc | b # _ \<Rightarrow> Some b, None))"
  using assms
proof (induction t arbitrary: acc)
  case (Node l b r)
  then have pl: "\<And>x. x \<in> set (inorder l) \<Longrightarrow> is_free p x" "sorted (map (binder_buffer_size p) (inorder l))"
    and pr: "\<And>x. x \<in> set (inorder r) \<Longrightarrow> is_free p x" "sorted (map (binder_buffer_size p) (inorder r))"
    and b: "is_free p b"
    and le: "\<forall>x \<in> set (inorder l). binder_buffer_size p x \<le> binder_buffer_size p b"
    and ge: "\<forall>x \<in> set (inorder r). binder_buffer_size p b \<le> binder_buffer_size p x"
    by (auto simp: sorted_append)
  show ?case
  proof (cases sz "binder_buffer_size p b" rule: linorder_cases)
    case less
    with ge have "\<forall>x \<in> set (inorder r). binder_buffer_size p x \<noteq> sz" by fastforce
    with Node.IH(1) [OF pl, of "Some b"] less b show ?thesis
      by (auto simp: Let_def split: list.splits)
  next
    case equal
    with b show ?thesis by (auto simp: Let_def)
  next
    case greater
    with le have "\<forall>x \<in> set (inorder l). binder_buffer_size p x \<noteq> sz \<and> \<not> sz < binder_buffer_size p x"
      by fastforce
    with Node.IH(2) [OF pr, of acc] greater b show ?thesis
      by (auto simp: Let_def)
  qed
qed simp

text \<open>The three outcomes of the search over the free tree of an area.\<close>

lemma best_fit_cases:
  assumes "free_tree_ok p bs" "\<And>b. b \<in> bs \<Longrightarrow> is_free p b"
  obtains (none) "best_fit_search p sz (free_buffers p) None = Some (None, None)"
      "\<And>b. b \<in> bs \<Longrightarrow> binder_buffer_size p b < sz"
  | (some) b n where "best_fit_search p sz (free_buffers p) None = Some (Some b, n)"
      "b \<in> bs" "sz \<le> binder_buffer_size p b" "n = None \<longleftrightarrow> binder_buffer_size p b \<noteq> sz"
      "\<And>c. c \<in> bs \<Longrightarrow> sz \<le> binder_buffer_size p c \<Longrightarrow> binder_buffer_size p b \<le> binder_buffer_size p c"
proof -
  let ?key = "binder_buffer_size p" and ?xs = "inorder (free_buffers p)"
  from assms have f: "\<And>b. b \<in> set ?xs \<Longrightarrow> is_free p b" and s: "sorted (map ?key ?xs)" and bs: "set ?xs = bs"
    by (auto simp: free_tree_ok_def)
  from best_fit_search_ok [OF f s, of sz None] consider
      (exact) b where "b \<in> set ?xs" "?key b = sz" "best_fit_search p sz (free_buffers p) None = Some (Some b, Some b)"
    | (larger) "\<forall>b \<in> set ?xs. ?key b \<noteq> sz" "best_fit_search p sz (free_buffers p) None =
            Some (case filter (\<lambda>b. sz < ?key b) ?xs of [] \<Rightarrow> None | b # _ \<Rightarrow> Some b, None)"
    by blast
  then show thesis
  proof cases
    case exact
    with bs show ?thesis by (intro some [of b "Some b"]) auto
  next
    case larger
    show ?thesis
    proof (cases "filter (\<lambda>b. sz < ?key b) ?xs")
      case Nil
      then have "\<And>b. b \<in> bs \<Longrightarrow> ?key b < sz"
        using larger(1) bs by (auto simp: filter_empty_conv) (meson linorder_neqE_nat)
      with Nil larger show ?thesis by (intro none) auto
    next
      case (Cons b ys)
      then have "b \<in> set (filter (\<lambda>b. sz < ?key b) ?xs)" by simp
      then have b: "b \<in> bs" "sz < ?key b" using bs by auto
      have "sorted (map ?key (b # ys))"
        using s sorted_filter [of ?key ?xs "\<lambda>b. sz < ?key b"] Cons by simp
      then have min: "\<And>c. c \<in> bs \<Longrightarrow> sz < ?key c \<Longrightarrow> ?key b \<le> ?key c"
      proof -
        fix c assume "c \<in> bs" "sz < ?key c"
        with bs have "c \<in> set (filter (\<lambda>b. sz < ?key b) ?xs)" by simp
        with Cons \<open>sorted (map ?key (b # ys))\<close> show "?key b \<le> ?key c" by auto
      qed
      show ?thesis
        using b larger Cons min bs by (intro some [of b None]) (auto simp: order.order_iff_strict)
    qed
  qed
qed

section \<open>Pages of a changed buffer\<close>

text \<open>
  The pages that an allocation of \<open>b\<close> populates, up to \<open>v\<close> or the page of the next
  header at \<open>c\<close>, are those \<open>b\<close> needs beyond its header; \<open>u\<close> ends the part of the
  area in use after the allocation.
\<close>

lemma page_align_num: "a + PAGE_SIZE \<le> addr_bound \<Longrightarrow> 0 < a \<Longrightarrow> page_align a = Suc (pg (a - 1)) * PAGE_SIZE"
proof -
  assume a: "a + PAGE_SIZE \<le> addr_bound" "0 < a"
  obtain a' where "a = Suc a'" using a(2) gr0_conv_Suc by blast
  then have "(a + 4095) div PAGE_SIZE = Suc ((a - 1) div PAGE_SIZE)" by simp
  with a show ?thesis by (simp add: page_align_def page_mask_def pg_def)
qed

lemma alloc_pages_iff:
  assumes "b + 40 \<le> v" "v \<le> u" "u \<le> c" "u = v \<or> u = c \<and> c \<le> v + 44"
    and "N (pg c) \<or> c mod PAGE_SIZE = 0"
  shows "(pg b \<le> P \<and> P \<le> pg (u - 1)) \<or> N P \<longleftrightarrow>
         ((pg b \<le> P \<and> P \<le> pg (b + 39)) \<or> N P) \<or> (Suc (pg (b + 39)) \<le> P \<and> P < min (Suc (pg (v - 1))) (pg c))"
proof -
  have m: "pg b \<le> pg (b + 39)" "pg (b + 39) \<le> pg (u - 1)" "pg (v - 1) \<le> pg (u - 1)" "pg (u - 1) \<le> pg c"
    using assms by (auto intro!: pg_mono)
  have near: "pg (u - 1) \<le> pg (v - 1) \<or> pg c \<le> Suc (pg (v - 1))"
    using assms(1,4) unfolding pg_def by auto
  have "c div PAGE_SIZE * PAGE_SIZE = c" if "c mod PAGE_SIZE = 0" using that by auto
  then have top: "pg (u - 1) < pg c \<or> N (pg c)"
    using assms(1,2,3,5) unfolding pg_def by (auto simp: div_less_iff_less_mult)
  show ?thesis
  proof (cases "P = pg c")
    case True
    with top m show ?thesis by auto
  qed (use m near in auto)
qed

end
