(* ===== verification/AllocTake.thy ===== *)
theory AllocTake
  imports AllocInvariant
begin

text \<open>
  binder_alloc_buf on an area that satisfies the invariant: it never hits a BUG_ON, it
  either changes nothing but the count of page operations or hands out the best fit, and
  it keeps the invariant.
\<close>

lemma geometry_end_mod: "area_geometry p \<Longrightarrow> area_end p mod PAGE_SIZE = 0"
  unfolding area_geometry_def area_end_def by (auto elim!: dvdE simp: mod_eq_0_iff_dvd)

lemma geometry_end: "area_geometry p \<Longrightarrow> area_end p + PAGE_SIZE \<le> addr_bound"
proof -
  assume g: "area_geometry p"
  from geometry_end_mod [OF g] obtain k where "area_end p = PAGE_SIZE * k" by (auto simp: mod_eq_0_iff_dvd)
  moreover from g have "area_end p < addr_bound" by (simp add: area_geometry_def)
  ultimately show ?thesis by simp
qed

lemma update_range_allocate:
  assumes "area_geometry p" "0 < S"
    and "\<And>R. S \<le> R \<Longrightarrow> R < Q \<Longrightarrow> page_in_area p R \<and> \<not> page_at p R"
  obtains (failed) n where "binder_update_page_range env p True (S * PAGE_SIZE) (Q * PAGE_SIZE) va =
               Some (- ENOMEM, p\<lparr>page_ops := n\<rparr>)"
    | (fills) n where "binder_update_page_range env p True (S * PAGE_SIZE) (Q * PAGE_SIZE) va =
               Some (0, (page_fill p {S..<Q} True)\<lparr>page_ops := n\<rparr>)"
proof (cases "Q \<le> S")
  case True
  then have "binder_update_page_range env p True (S * PAGE_SIZE) (Q * PAGE_SIZE) va =
               Some (0, (page_fill p {S..<Q} True)\<lparr>page_ops := page_ops p\<rparr>)"
    by (simp add: binder_update_page_range_def)
  then show ?thesis by (rule fills)
next
  case False
  define q where "q = (if va then p else p\<lparr>page_ops := Suc (page_ops p)\<rparr>)"
  have q: "area_geometry q" "\<And>R. page_in_area q R = page_in_area p R" "\<And>R. page_at q R = page_at p R"
    using assms(1) by (auto simp: q_def)
  obtain n where *: "allocate_range env q (S * PAGE_SIZE) (S * PAGE_SIZE) (Q * PAGE_SIZE) =
               Some (0, (page_fill q {S..<Q} True)\<lparr>page_ops := n\<rparr>)
           \<or> allocate_range env q (S * PAGE_SIZE) (S * PAGE_SIZE) (Q * PAGE_SIZE) =
               Some (- ENOMEM, (page_fill q {S..<S} False)\<lparr>page_ops := n\<rparr>)"
    using allocate_range_fill [of q S S Q env] q assms(2,3) False by auto
  show ?thesis
  proof (cases "va \<or> task_mm_present env (page_ops p) \<and> vma p")
    case True
    with False have eq: "binder_update_page_range env p True (S * PAGE_SIZE) (Q * PAGE_SIZE) va =
        allocate_range env q (S * PAGE_SIZE) (S * PAGE_SIZE) (Q * PAGE_SIZE)"
      by (cases va) (simp_all add: binder_update_page_range_def q_def Let_def)
    have "page_fill q {S..<Q} True\<lparr>page_ops := n\<rparr> = page_fill p {S..<Q} True\<lparr>page_ops := n\<rparr>"
      "page_fill q {S..<S} False\<lparr>page_ops := n\<rparr> = p\<lparr>page_ops := n\<rparr>"
      by (simp_all add: q_def)
    with * fills failed show ?thesis unfolding eq by metis
  next
    case fails: False
    with False have "binder_update_page_range env p True (S * PAGE_SIZE) (Q * PAGE_SIZE) va =
               Some (- ENOMEM, p\<lparr>page_ops := Suc (page_ops p)\<rparr>)"
      by (cases "task_mm_present env (page_ops p)") (simp_all add: binder_update_page_range_def Let_def)
    then show ?thesis by (rule failed)
  qed
qed

lemma update_range_free:
  assumes "area_geometry p" "0 < S" "Q * PAGE_SIZE < addr_bound"
    and "\<And>R. S \<le> R \<Longrightarrow> R < Q \<Longrightarrow> page_in_area p R \<and> page_at p R"
  obtains r n where "binder_update_page_range env p False (S * PAGE_SIZE) (Q * PAGE_SIZE) va =
               Some (r, (page_fill p {S..<Q} False)\<lparr>page_ops := n\<rparr>)"
proof (cases "Q \<le> S")
  case True
  then have "binder_update_page_range env p False (S * PAGE_SIZE) (Q * PAGE_SIZE) va =
               Some (0, (page_fill p {S..<Q} False)\<lparr>page_ops := page_ops p\<rparr>)"
    by (simp add: binder_update_page_range_def)
  then show ?thesis by (rule that)
next
  case False
  define q where "q = (if va then p else p\<lparr>page_ops := Suc (page_ops p)\<rparr>)"
  have q: "area_geometry q" "\<And>R. page_in_area q R = page_in_area p R" "\<And>R. page_at q R = page_at p R"
    using assms(1) by (auto simp: q_def)
  from False assms(2,3) have "sub32 (Q * PAGE_SIZE) PAGE_SIZE = Q * PAGE_SIZE - PAGE_SIZE" by simp
  moreover have "free_range q (Q * PAGE_SIZE - PAGE_SIZE) (S * PAGE_SIZE) = Some (page_fill q {S..<Q} False)"
    using q assms(2,4) False by (intro free_range_fill) auto
  ultimately have "binder_update_page_range env p False (S * PAGE_SIZE) (Q * PAGE_SIZE) va =
      Some (- ENOMEM, page_fill q {S..<Q} False)"
    using False by (cases va) (simp_all add: binder_update_page_range_def q_def Let_def)
  moreover have "page_fill q {S..<Q} False = (page_fill p {S..<Q} False)\<lparr>page_ops := page_ops q\<rparr>"
    by (cases va) (simp_all add: q_def page_fill_def)
  ultimately show ?thesis using that by simp
qed

text \<open>The state after a buffer was taken, whole or split, satisfies the invariant.\<close>

lemma alloc_inv_take:
  assumes inv: "alloc_inv p" and s: "buffers p = pre @ b # post" and fb: "is_free p b"
    and same: "area p' = area p" "area_size p' = area_size p" "length (pages p') = length (pages p)"
    and s': "buffers p' = pre @ b # nbs @ post"
    and nbs: "nbs = [] \<or> (\<exists>nb. nbs = [nb] \<and> b + 40 \<le> nb \<and> nb + 40 \<le> hd (post @ [area_end p]) \<and> is_free p' nb)"
    and others: "\<And>x. x \<in> set pre \<union> set post \<Longrightarrow> bufs p' x = bufs p x"
    and taken: "\<not> is_free p' b" "unat (payload_size p' b) \<le> binder_buffer_size p' b"
    and async: "unat (free_async_space p') + async_charge p' b = unat (free_async_space p)"
    and tree: "keyed (\<lambda>b. b) (inorder (allocated_buffers p'))"
      "set (inorder (allocated_buffers p')) = insert b (set (inorder (allocated_buffers p)))"
    and ftree: "free_tree_ok p' ({x \<in> set (buffers p). is_free p x} - {b} \<union> set nbs)"
    and pages: "\<And>P. page_in_area p P \<Longrightarrow>
       page_at p' P = needs_page (is_free p') (buffers p') (area_end p') P"
  shows "alloc_inv p'"
proof -
  have e: "area_end p' = area_end p" using same by (simp add: area_end_def)
  from inv s have t: "tiled (pre @ b # post) (area_end p)" and g: "area_geometry p"
    and hd: "hd (pre @ b # post) = area p"
    by (simp_all add: alloc_inv_def area_inv_defs)
  from tiled_split_notin [OF t] have nin: "b \<notin> set pre" "b \<notin> set post" by auto
  have dist: "distinct (pre @ b # post)" by (rule tiled_distinct [OF t])
  have t': "tiled (buffers p') (area_end p')"
    using t nbs s' e by auto
  have g': "area_geometry p'" using g same e by (simp add: area_geometry_def)
  have lay: "layout_ok p'" using t' hd same s' by (cases pre) (auto simp: layout_ok_def)
  have nbnin: "x \<notin> set pre \<union> insert b (set post)" if "x \<in> set nbs" for x
    using tiled_distinct [OF t'] that s' by auto
  have frees: "{x \<in> set (buffers p'). is_free p' x} = {x \<in> set (buffers p). is_free p x} - {b} \<union> set nbs"
    using s s' nin taken(1) nbs others nbnin by auto
  have allocs: "{x \<in> set (buffers p'). \<not> is_free p' x} = insert b {x \<in> set (buffers p). \<not> is_free p x}"
    using s s' nin taken(1) nbs others nbnin fb by auto
  have sizes: "binder_buffer_size p' x = binder_buffer_size p x" if "x \<in> set pre \<union> set post" for x
  proof (cases "nbs = []")
    case True
    then show ?thesis using s s' e by (intro fun_cong [OF size_cong]) simp_all
  next
    case False
    then obtain nb where "nbs = [nb]" using nbs by auto
    with that nin nbnin s s' e show ?thesis
      by (intro size_skip [symmetric, of x b nb p' pre post p]) auto
  qed
  have fit: "payloads_fit p'"
    unfolding payloads_fit_def
  proof (intro ballI impI)
    fix x assume x: "x \<in> set (buffers p')" "\<not> is_free p' x"
    with allocs have "x = b \<or> x \<in> set pre \<union> set post \<and> \<not> is_free p x"
      using s others by auto
    then show "unat (payload_size p' x) \<le> binder_buffer_size p' x"
    proof
      assume "x \<in> set pre \<union> set post \<and> \<not> is_free p x"
      moreover from this have "payload_size p' x = payload_size p x"
        using others by (simp add: payload_size_def)
      ultimately show ?thesis
        using inv sizes [of x] s by (auto simp: alloc_inv_def area_inv_defs)
    qed (simp add: taken(2))
  qed
  have charge: "map (async_charge p') pre = map (async_charge p) pre"
    "map (async_charge p') post = map (async_charge p) post" "sum_list (map (async_charge p') nbs) = 0"
    "async_charge p b = 0"
    using others nbs fb by (auto simp: async_charge_def payload_size_def)
  have as: "async_ok p'"
  proof -
    have "sum_list (map (async_charge p') (buffers p')) =
          async_charge p' b + sum_list (map (async_charge p) (buffers p))"
      unfolding s s' map_append list.map sum_list_append sum_list.Cons charge by simp
    with inv async same show ?thesis by (simp add: alloc_inv_def base_inv_def async_ok_def)
  qed
  have coal: "coalesced p'"
  proof -
    let ?R = "\<lambda>b c. \<not> (is_free p b \<and> is_free p c)" and ?R' = "\<lambda>b c. \<not> (is_free p' b \<and> is_free p' c)"
    from inv s have "successively ?R (pre @ b # post)" by (simp add: alloc_inv_def coalesced_def)
    then have pre: "successively ?R pre" and post: "successively ?R post"
      and nf: "post \<noteq> [] \<Longrightarrow> \<not> is_free p (hd post)"
      using fb by (auto simp: successively_append_iff successively_Cons)
    have pre': "successively ?R' pre" and post': "successively ?R' post"
      using pre post others by (auto elim!: successively_mono)
    have "post \<noteq> [] \<Longrightarrow> \<not> is_free p' (hd post)" using nf others by simp
    with pre' post' taken(1) nbs have "successively ?R' (pre @ b # nbs @ post)"
      by (auto simp: successively_append_iff successively_Cons)
    then show ?thesis using s' by (simp add: coalesced_def)
  qed
  have "pages_ok p'"
    using pages e same by (simp add: pages_ok_def page_in_area_def)
  moreover have "allocated_tree_ok p'"
    using tree allocs inv by (auto simp: allocated_tree_ok_def alloc_inv_def base_inv_def)
  ultimately show ?thesis
    using g' lay fit as coal ftree frees by (simp add: alloc_inv_def base_inv_def)
qed

text \<open>
  The pages between the header of a free buffer and the next header are absent, and
  with those that the allocation populates the new layout has the pages it needs.
\<close>

lemma alloc_pages_absent:
  assumes inv: "alloc_inv p" and s: "buffers p = pre @ b # post" and fb: "is_free p b"
    and R: "Suc (pg (b + 39)) \<le> R" "R < pg (hd (post @ [area_end p]))"
  shows "page_in_area p R \<and> \<not> page_at p R"
proof -
  from inv s have t: "tiled (pre @ b # post) (area_end p)" and hd: "hd (pre @ b # post) = area p"
    by (simp_all add: alloc_inv_def area_inv_defs)
  have "hd (post @ [area_end p]) \<le> area_end p" using t by (auto intro: tiled_hd_le)
  moreover have "area p \<le> b" using tiled_below [OF t, of b] hd by simp
  ultimately have "page_in_area p R"
    using R pg_mono [of "hd (post @ [area_end p])" "area_end p"] pg_mono [of "area p" "b + 39"]
    by (simp add: page_in_area_def)
  moreover have "\<not> needs_page (is_free p) (pre @ b # post) (area_end p) R"
  proof -
    have "\<not> needs_page (is_free p) pre b R"
    proof
      assume "needs_page (is_free p) pre b R"
      with t have "R \<le> pg (b - 1)" using needs_le [of pre b "is_free p" R] by simp
      also have "\<dots> \<le> pg (b + 39)" by (rule pg_mono) simp
      finally show False using R by simp
    qed
    moreover have "\<not> needs_page (is_free p) post (area_end p) R"
      using needs_ge [of post "area_end p" "is_free p" R] t R by (cases post) auto
    ultimately show ?thesis using fb R by (simp add: add.commute [of b 39])
  qed
  ultimately show ?thesis using inv s by (simp add: alloc_inv_def area_inv_defs)
qed

lemma alloc_pages_needed:
  assumes inv: "alloc_inv p" and s: "buffers p = pre @ b # post" and fb: "is_free p b"
    and c: "c = hd (post @ [area_end p])"
    and v: "b + 40 \<le> v" "v \<le> u" "u \<le> c" "u = v \<or> u = c \<and> c \<le> v + 44"
    and s': "buffers p' = pre @ b # nbs @ post" "area_end p' = area_end p"
    and nbs: "nbs = [] \<and> u = c \<or> (\<exists>nb. nbs = [nb] \<and> u = nb + 40 \<and> b + 40 \<le> nb \<and> is_free p' nb)"
    and others: "\<And>x. x \<in> set pre \<union> set post \<Longrightarrow> bufs p' x = bufs p x" and fb': "\<not> is_free p' b"
  shows "needs_page (is_free p') (buffers p') (area_end p') P \<longleftrightarrow>
     needs_page (is_free p) (buffers p) (area_end p) P \<or>
     (Suc (pg (b + 39)) \<le> P \<and> P < min (Suc (pg (v - 1))) (pg c))"
proof -
  from inv s have t: "tiled (pre @ b # post) (area_end p)" and g: "area_geometry p"
    by (simp_all add: alloc_inv_def area_inv_defs)
  let ?N = "needs_page (is_free p) post (area_end p)"
  have pre: "needs_page (is_free p') pre b P = needs_page (is_free p) pre b P"
    and post: "needs_page (is_free p') post (area_end p) P = ?N P"
    using others by (auto intro!: needs_cong)
  have N: "?N (pg c) \<or> c mod PAGE_SIZE = 0"
  proof (cases post)
    case (Cons d ds)
    with t c needs_hd [of d ds "area_end p" "is_free p"] show ?thesis by simp
  qed (use c geometry_end_mod [OF g] in simp)
  have mid: "needs_page (is_free p') (b # nbs @ post) (area_end p) P \<longleftrightarrow>
      (pg b \<le> P \<and> P \<le> pg (u - 1)) \<or> ?N P"
    using nbs
  proof
    assume "\<exists>nb. nbs = [nb] \<and> u = nb + 40 \<and> b + 40 \<le> nb \<and> is_free p' nb"
    then obtain nb where nb: "nbs = [nb]" "u = nb + 40" "b + 40 \<le> nb" "is_free p' nb" by auto
    have "pg b \<le> pg nb" "pg nb \<le> Suc (pg (nb - 1))" "pg (nb - 1) \<le> pg (u - 1)" "pg b \<le> pg (nb - 1)"
      using nb by (auto intro!: pg_mono) (auto simp: pg_def)
    then show ?thesis using nb fb' post by auto
  qed (use fb' post c in auto)
  show ?thesis
    unfolding s s' using pre mid alloc_pages_iff [where N = ?N and P = P, OF v N] fb
    by (auto simp: add.commute)
qed

end
