(* ===== verification/AllocOps.thy ===== *)
theory AllocOps
  imports AllocTake
begin

text \<open>
  What binder_alloc_buf does on an area that satisfies the invariant, on every path.
\<close>

definition taken ::
    "'p binder_area_scheme \<Rightarrow> 'p binder_area_scheme \<Rightarrow> nat \<Rightarrow> u32 \<Rightarrow> u32 \<Rightarrow> bool \<Rightarrow> bool" where
  "taken p p' b dsize osize is_async \<longleftrightarrow>
     b \<in> set (buffers p) \<and> is_free p b \<and> b \<in> set (buffers p') \<and> \<not> is_free p' b \<and>
     bufs p' b = (bufs p b)\<lparr>free := False, data_size := dsize, offsets_size := osize,
                             async_transaction := is_async\<rparr> \<and>
     (\<forall>c \<in> set (buffers p). is_free p c \<longrightarrow> unat (payload_size p' b) \<le> binder_buffer_size p c \<longrightarrow>
        binder_buffer_size p b \<le> binder_buffer_size p c) \<and>
     {c \<in> set (buffers p'). \<not> is_free p' c} = insert b {c \<in> set (buffers p). \<not> is_free p c} \<and>
     (\<forall>c \<in> set (buffers p). \<not> is_free p c \<longrightarrow>
        bufs p' c = bufs p c \<and> binder_buffer_size p' c = binder_buffer_size p c) \<and>
     free_async_space p' = (if is_async then free_async_space p - (payload_size p' b + 40)
                            else free_async_space p) \<and>
     vma p' = vma p \<and> files p' = files p \<and> area p' = area p \<and> area_size p' = area_size p \<and>
     user_buffer_offset p' = user_buffer_offset p \<and> binder_area.more p' = binder_area.more p"

lemma buf_upd_simps [simp]:
  "area (buf_upd b f p) = area p" "area_size (buf_upd b f p) = area_size p"
  "area_end (buf_upd b f p) = area_end p" "buffers (buf_upd b f p) = buffers p"
  "bufs (buf_upd b f p) = (bufs p)(b := f (bufs p b))"
  "free_buffers (buf_upd b f p) = free_buffers p"
  "allocated_buffers (buf_upd b f p) = allocated_buffers p"
  "free_async_space (buf_upd b f p) = free_async_space p"
  "pages (buf_upd b f p) = pages p" "page_ops (buf_upd b f p) = page_ops p"
  "vma (buf_upd b f p) = vma p" "files (buf_upd b f p) = files p"
  "user_buffer_offset (buf_upd b f p) = user_buffer_offset p"
  "binder_area.more (buf_upd b f p) = binder_area.more p"
  by (simp_all add: buf_upd_def area_end_def)

lemma area_end_updates [simp]:
  "area_end (p\<lparr>buffers := x1\<rparr>) = area_end p" "area_end (p\<lparr>free_buffers := x2\<rparr>) = area_end p"
  "area_end (p\<lparr>allocated_buffers := x2\<rparr>) = area_end p" "area_end (p\<lparr>free_async_space := x3\<rparr>) = area_end p"
  by (simp_all add: area_end_def)

lemma page_at_updates [simp]:
  "page_at (p\<lparr>buffers := x1\<rparr>) = page_at p" "page_at (p\<lparr>free_buffers := x2\<rparr>) = page_at p"
  "page_at (p\<lparr>allocated_buffers := x2\<rparr>) = page_at p" "page_at (p\<lparr>free_async_space := x3\<rparr>) = page_at p"
  "page_at (buf_upd b f p) = page_at p"
  by (simp_all add: page_at_def buf_upd_def fun_eq_iff)

lemma page_in_area_updates [simp]:
  "page_in_area (p\<lparr>buffers := x1\<rparr>) = page_in_area p"
  "page_in_area (p\<lparr>free_buffers := x2\<rparr>) = page_in_area p"
  "page_in_area (p\<lparr>allocated_buffers := x2\<rparr>) = page_in_area p"
  "page_in_area (p\<lparr>free_async_space := x3\<rparr>) = page_in_area p"
  "page_in_area (buf_upd b f p) = page_in_area p"
  by (simp_all add: page_in_area_def fun_eq_iff)

lemma alloc_link_ok:
  assumes rb: "rb_ok env" and inv: "alloc_inv p" and s: "buffers p = pre @ b # post" and fb: "is_free p b"
    and c: "c = hd (post @ [area_end p])"
    and w: "w = align_ptr dsize + align_ptr osize"
    and sp: "if split then b + 40 + unat w + 44 < c \<and> v = b + 40 + unat w + 40
             else b + 40 + unat w \<le> c \<and> c \<le> b + 40 + unat w + 44 \<and> v = b + 40 + unat w"
    and async: "is_async \<Longrightarrow> w + 40 \<le> free_async_space p"
    and p1: "p1 = (page_fill p {Suc (pg (b + 39))..<min (Suc (pg (v - 1))) (pg c)} True)\<lparr>page_ops := m\<rparr>"
  shows "\<exists>p'. alloc_link env b dsize osize is_async w split p1 = Some p' \<and> alloc_inv p' \<and>
    buffers p' = pre @ b # (if split then [b + 40 + unat w] else []) @ post \<and>
    bufs p' b = (bufs p b)\<lparr>free := False, data_size := dsize, offsets_size := osize,
                             async_transaction := is_async\<rparr> \<and>
    (\<forall>x \<in> set pre \<union> set post. bufs p' x = bufs p x \<and> binder_buffer_size p' x = binder_buffer_size p x) \<and>
    (split \<longrightarrow> is_free p' (b + 40 + unat w)) \<and>
    free_async_space p' = (if is_async then free_async_space p - (w + 40) else free_async_space p) \<and>
    vma p' = vma p \<and> files p' = files p \<and> area p' = area p \<and> area_size p' = area_size p \<and>
    user_buffer_offset p' = user_buffer_offset p \<and> binder_area.more p' = binder_area.more p"
proof -
  let ?nb = "b + 40 + unat w"
  let ?nbs = "if split then [?nb] else []"
  let ?frees = "{x \<in> set (buffers p). is_free p x}"
  from inv s have t: "tiled (pre @ b # post) (area_end p)" and g: "area_geometry p"
    by (simp_all add: alloc_inv_def area_inv_defs)
  from tiled_split_notin [OF t] have nin: "b \<notin> set pre" "b \<notin> set post" by auto
  have sz: "unat w < addr_bound" by (rule order.strict_trans2 [OF unsigned_less]) simp
  have nbnin: "?nb \<notin> set (pre @ b # post)" if split
  proof -
    have "tiled (pre @ b # ?nb # post) (area_end p)" using t sp c that by simp
    from tiled_distinct [OF this] show ?thesis by auto
  qed
  define p2 where "p2 = buf_upd b (\<lambda>x. x\<lparr>free := False\<rparr>) (p1\<lparr>free_buffers := rb_erase env b (free_buffers p1)\<rparr>)"
  have atree: "keyed (\<lambda>b. b) (inorder (allocated_buffers p))"
    "set (inorder (allocated_buffers p)) = {x \<in> set (buffers p). \<not> is_free p x}"
    using inv by (auto simp: alloc_inv_def area_inv_defs)
  obtain ta where ta: "binder_insert_allocated_buffer env p2 b = Some (p2\<lparr>allocated_buffers := ta\<rparr>)"
    "keyed (\<lambda>b. b) (inorder ta)" "set (inorder ta) = insert b (set (inorder (allocated_buffers p)))"
  proof -
    have "allocated_buffers p2 = allocated_buffers p" "\<not> is_free p2 b"
      and "\<And>x. x \<in> set (inorder (allocated_buffers p)) \<Longrightarrow> \<not> is_free p2 x"
      and "b \<notin> set (inorder (allocated_buffers p))"
      using atree(2) fb by (simp_all add: p2_def p1)
    with insert_allocated_buffer_ok [OF rb, of p2 b] atree(1) that show ?thesis by metis
  qed
  define p3 where "p3 = p2\<lparr>allocated_buffers := ta, buffers := pre @ b # ?nbs @ post\<rparr>"
  define p4 where "p4 = (if split then buf_upd ?nb (\<lambda>x. x\<lparr>free := True\<rparr>) p3 else p3)"
  have p4: "buffers p4 = pre @ b # ?nbs @ post" "area_end p4 = area_end p"
    "free_buffers p4 = rb_erase env b (free_buffers p)" "\<not> is_free p4 b"
    "\<And>x. x \<in> set pre \<union> set post \<Longrightarrow> bufs p4 x = bufs p x" "split \<Longrightarrow> is_free p4 ?nb"
    using nbnin nin by (auto simp: p4_def p3_def p2_def p1)
  have sizes: "binder_buffer_size q x = binder_buffer_size p x"
    if "x \<in> set pre \<union> set post" "buffers q = pre @ b # ?nbs @ post" "area_end q = area_end p" for q x
  proof (cases split)
    case True
    with that nin nbnin s show ?thesis
      by (intro size_skip [symmetric, of x b ?nb q pre post p]) auto
  qed (use that s in \<open>auto intro!: fun_cong [OF size_cong]\<close>)
  have ft0: "free_tree_ok (p\<lparr>free_buffers := rb_erase env b (free_buffers p)\<rparr>) (?frees - {b})"
    using inv fb s by (intro free_tree_erase [OF rb]) (auto simp: alloc_inv_def)
  have ft4: "free_tree_ok p4 (?frees - {b})"
  proof (rule free_tree_cong [OF ft0])
    fix x assume x: "x \<in> ?frees - {b}"
    with s have "x \<in> set pre \<union> set post" by auto
    with sizes [OF this p4(1,2)] fun_cong [OF size_cong [of "p\<lparr>free_buffers := rb_erase env b (free_buffers p)\<rparr>" p], of x]
    show "binder_buffer_size p4 x = binder_buffer_size (p\<lparr>free_buffers := rb_erase env b (free_buffers p)\<rparr>) x"
      by simp
  qed (simp add: p4(3))
  obtain p5 where p5: "(if split then binder_insert_free_buffer env p4 ?nb else Some p4) = Some p5"
    "free_tree_ok p5 (?frees - {b} \<union> set ?nbs)" "\<exists>tf. p5 = p4\<lparr>free_buffers := tf\<rparr>"
  proof (cases split)
    case True
    have "\<And>x. x \<in> ?frees - {b} \<Longrightarrow> is_free p4 x" using p4(5) s by fastforce
    with True insert_free_buffer_ok [OF rb ft4, of ?nb] nbnin s p4(6) that show ?thesis by auto
  next
    case False
    moreover have "\<exists>tf. p4 = p4\<lparr>free_buffers := tf\<rparr>" by (rule exI [of _ "free_buffers p4"]) simp
    ultimately show ?thesis using ft4 by (intro that [of p4]) simp_all
  qed
  then obtain tf where tf: "p5 = p4\<lparr>free_buffers := tf\<rparr>" by auto
  define p' where "p' = alloc_store b dsize osize is_async w p5"
  have run: "alloc_link env b dsize osize is_async w split p1 = Some p'"
  proof -
    have "insert_after b ?nb (buffers p2) = pre @ b # ?nb # post"
      using nin s by (simp add: p2_def p1)
    then have "(if split then let nb = buffer_data b + unat w;
                    p = (p2\<lparr>allocated_buffers := ta\<rparr>)\<lparr>buffers := insert_after b nb (buffers (p2\<lparr>allocated_buffers := ta\<rparr>))\<rparr>;
                    p = buf_upd nb (\<lambda>x. x\<lparr>free := True\<rparr>) p
                in binder_insert_free_buffer env p nb
           else Some (p2\<lparr>allocated_buffers := ta\<rparr>)) = Some p5"
      using p5(1) s by (auto simp: p4_def p3_def buffer_data_def p2_def p1 Let_def split: if_splits)
    then show ?thesis
      using ta(1) by (simp add: alloc_link_def p2_def [symmetric] Let_def p'_def)
  qed
  have fields: "buffers p' = pre @ b # ?nbs @ post" "area_end p' = area_end p"
    "area p' = area p" "area_size p' = area_size p" "vma p' = vma p" "files p' = files p"
    "user_buffer_offset p' = user_buffer_offset p" "binder_area.more p' = binder_area.more p"
    "allocated_buffers p' = ta" "free_buffers p' = tf" "length (pages p') = length (pages p)"
    "free_async_space p' = (if is_async then free_async_space p - (w + 40) else free_async_space p)"
    "\<And>P. page_at p' P = page_at p1 P" "\<And>P. page_in_area p' P = page_in_area p P"
    "bufs p' b = (bufs p b)\<lparr>free := False, data_size := dsize, offsets_size := osize, async_transaction := is_async\<rparr>"
    "\<And>x. x \<in> set pre \<union> set post \<Longrightarrow> bufs p' x = bufs p x" "split \<Longrightarrow> is_free p' ?nb"
    "binder_buffer_size p' = binder_buffer_size p5"
    using nin nbnin p4
    by (auto simp: p'_def alloc_store_def tf p4_def p3_def p2_def p1 Let_def page_in_area_def area_end_def
        intro!: size_cong)
  have w': "payload_size p' b = w" using w by (simp add: payload_size_def fields)
  have fit: "unat w \<le> binder_buffer_size p' b"
  proof -
    have t': "tiled (buffers p') (area_end p')" and g': "area_geometry p'"
      using t g sp c by (auto simp: fields area_geometry_def)
    from size_split(1) [OF g' _ t', of pre b "?nbs @ post"] sp c show ?thesis
      by (auto simp: fields buffer_data_def)
  qed
  have charge: "unat (free_async_space p') + async_charge p' b = unat (free_async_space p)"
  proof (cases is_async)
    case True
    have "unat (w + 40) = unat w + 40"
      using fit size_bound(1) [of p b] inv s sp c size_split [OF g s] t g sz
      by (subst unat_add_lem [THEN iffD1]) (auto simp: alloc_inv_def base_inv_def area_geometry_def buffer_data_def split: if_splits)
    with True async show ?thesis
      by (simp add: async_charge_def w' fields unat_sub word_le_nat_alt)
  qed (simp add: async_charge_def fields)
  have nbs': "?nbs = [] \<and> (if split then v else c) = c \<or>
     (\<exists>nb. ?nbs = [nb] \<and> (if split then v else c) = nb + 40 \<and> b + 40 \<le> nb \<and> is_free p' nb)"
  proof (cases split)
    case True
    with sp have "?nbs = [?nb] \<and> (if split then v else c) = ?nb + 40 \<and> b + 40 \<le> ?nb" by simp
    with fields(17) [OF True] show ?thesis by blast
  qed simp
  have "alloc_inv p'"
  proof (rule alloc_inv_take [OF inv s fb fields(3,4,11) fields(1)])
    show "?nbs = [] \<or> (\<exists>nb. ?nbs = [nb] \<and> b + 40 \<le> nb \<and> nb + 40 \<le> hd (post @ [area_end p]) \<and> is_free p' nb)"
      using sp c fields(17) by auto
    show "free_tree_ok p' (?frees - {b} \<union> set ?nbs)"
      using p5(2) by (rule free_tree_cong) (simp_all add: fields tf)
    show "page_at p' P = needs_page (is_free p') (buffers p') (area_end p') P" if "page_in_area p P" for P
    proof -
      have "needs_page (is_free p') (buffers p') (area_end p') P \<longleftrightarrow>
         needs_page (is_free p) (buffers p) (area_end p) P \<or>
         (Suc (pg (b + 39)) \<le> P \<and> P < min (Suc (pg (v - 1))) (pg c))"
        by (rule alloc_pages_needed [OF inv s fb c, where u = "if split then v else c" and nbs = ?nbs, OF _ _ _ _ fields(1,2) nbs'])
           (use sp in \<open>auto simp: fields(15,16) split: if_splits\<close>)
      moreover have "page_at p' P \<longleftrightarrow> page_at p P \<or> (Suc (pg (b + 39)) \<le> P \<and> P < min (Suc (pg (v - 1))) (pg c))"
        using that g by (auto simp: fields p1)
      ultimately show ?thesis
        using inv that by (simp add: alloc_inv_def base_inv_def pages_ok_def)
    qed
  qed (use fit w' charge ta fields in auto)
  with run fields sizes [OF _ fields(1,2)] show ?thesis by auto
qed

text \<open>
  Either nothing but the count of page operations changes and NULL is returned, or the
  best fit is handed out.
\<close>

lemma binder_alloc_buf_cases:
  assumes rb: "rb_ok env" and inv: "alloc_inv p"
  obtains (null) n where "binder_alloc_buf env p dsize osize is_async = Some (None, p\<lparr>page_ops := n\<rparr>)"
    | (block) b p' where "binder_alloc_buf env p dsize osize is_async = Some (Some b, p')"
        "alloc_inv p'" "taken p p' b dsize osize is_async"
proof -
  define w where "w = align_ptr dsize + align_ptr osize"
  have keep: "p = p\<lparr>page_ops := page_ops p\<rparr>" by simp
  have ftree: "free_tree_ok p {x \<in> set (buffers p). is_free p x}" and g: "area_geometry p"
    and lay: "layout_ok p"
    using inv by (simp_all add: alloc_inv_def base_inv_def)
  consider (refused) "\<not> vma p \<or> w < dsize \<or> w < osize \<or> is_async \<and> free_async_space p < w + 40"
    | (go) "vma p" "\<not> (w < dsize \<or> w < osize)" "\<not> (is_async \<and> free_async_space p < w + 40)"
    by blast
  then show thesis
  proof cases
    case refused
    then have "binder_alloc_buf env p dsize osize is_async = Some (None, p)"
      by (auto simp: binder_alloc_buf_def w_def Let_def)
    with keep show ?thesis using null by metis
  next
    case go
    show ?thesis
    proof (cases rule: best_fit_cases [OF ftree, of "unat w", case_names free none some])
      case none
      with go have "binder_alloc_buf env p dsize osize is_async = Some (None, p)"
        by (simp add: binder_alloc_buf_def w_def [symmetric] Let_def)
      with keep show ?thesis using null by metis
    next
      case (some b n)
      from some(2) have fb: "is_free p b" and bin: "b \<in> set (buffers p)" by simp_all
      from split_list [OF bin] obtain pre post where s: "buffers p = pre @ b # post" by blast
      define c where "c = hd (post @ [area_end p])"
      have t: "tiled (buffers p) (area_end p)" using lay by (simp add: layout_ok_def)
      note size = size_split [OF g s t, folded c_def]
      have bs: "binder_buffer_size p b = c - (b + 40)" "b + 40 \<le> c" "c < addr_bound" "c \<le> area_end p"
        "binder_buffer_size p b \<le> SZ_4M"
        using size size_bound(1) [OF g lay bin] g t s tiled_hd_le [of post "area_end p"]
        by (auto simp: buffer_data_def area_geometry_def c_def)
      define new where "new = fit_size n w (binder_buffer_size p b)"
      define v where "v = b + 40 + new"
      have sp: "if new \<noteq> unat w then b + 40 + unat w + 44 < c \<and> v = b + 40 + unat w + 40
                else b + 40 + unat w \<le> c \<and> c \<le> b + 40 + unat w + 44 \<and> v = b + 40 + unat w"
        using some(3,4) bs by (auto simp: new_def v_def fit_size_def)
      then have v: "b + 40 \<le> v" "v \<le> c" by (auto split: if_splits simp: v_def)
      let ?S = "Suc (pg (b + 39))" and ?Q = "min (Suc (pg (v - 1))) (pg c)"
      have end1: "area_end p + PAGE_SIZE \<le> addr_bound" by (rule geometry_end [OF g])
      have "page_align (buffer_data b) = ?S * PAGE_SIZE"
        using page_align_num [of "b + 40"] bs end1 by (simp add: buffer_data_def add.commute [of b 39])
      moreover have "min (page_align (add32 (buffer_data b) new))
            (page_mask (add32 (buffer_data b) (binder_buffer_size p b))) = ?Q * PAGE_SIZE"
      proof -
        have "add32 (buffer_data b) new = v" "add32 (buffer_data b) (binder_buffer_size p b) = c"
          using v bs by (simp_all add: v_def buffer_data_def)
        moreover have "page_align v = Suc (pg (v - 1)) * PAGE_SIZE"
          using v bs end1 by (intro page_align_num) auto
        ultimately show ?thesis by (simp add: page_mask_def pg_def min_def)
      qed
      ultimately have run: "binder_alloc_buf env p dsize osize is_async = do {
           (ret, p1) \<leftarrow> binder_update_page_range env p True (?S * PAGE_SIZE) (?Q * PAGE_SIZE) False;
           if ret \<noteq> 0 then Some (None, p1)
           else map_option (Pair (Some b)) (alloc_link env b dsize osize is_async w (new \<noteq> unat w) p1)}"
        using go some(1) unfolding new_def
        by (cases is_async) (simp_all add: binder_alloc_buf_def w_def [symmetric] Let_def del: mult_Suc cong: if_cong)
      have absent: "\<And>R. ?S \<le> R \<Longrightarrow> R < ?Q \<Longrightarrow> page_in_area p R \<and> \<not> page_at p R"
        using alloc_pages_absent [OF inv s fb] by (simp add: c_def)
      show ?thesis
      proof (cases rule: update_range_allocate [OF g, of ?S ?Q env False, case_names pos R failed fills])
        case (failed m)
        with run show ?thesis by (intro null) simp
      next
        case (fills m)
        have as: "is_async \<Longrightarrow> w + 40 \<le> free_async_space p" using go(3) by auto
        obtain p' where p': "alloc_link env b dsize osize is_async w (new \<noteq> unat w)
             ((page_fill p {?S..<?Q} True)\<lparr>page_ops := m\<rparr>) = Some p'" "alloc_inv p'"
          "buffers p' = pre @ b # (if new \<noteq> unat w then [b + 40 + unat w] else []) @ post"
          "bufs p' b = (bufs p b)\<lparr>free := False, data_size := dsize, offsets_size := osize,
                             async_transaction := is_async\<rparr>"
          "\<forall>x \<in> set pre \<union> set post. bufs p' x = bufs p x \<and> binder_buffer_size p' x = binder_buffer_size p x"
          "new \<noteq> unat w \<longrightarrow> is_free p' (b + 40 + unat w)"
          "free_async_space p' = (if is_async then free_async_space p - (w + 40) else free_async_space p)"
          "vma p' = vma p" "files p' = files p" "area p' = area p" "area_size p' = area_size p"
          "user_buffer_offset p' = user_buffer_offset p" "binder_area.more p' = binder_area.more p"
          using alloc_link_ok [OF rb inv s fb c_def w_def sp as refl, where m = m] by auto
        have w': "payload_size p' b = w" using p'(4) by (simp add: payload_size_def w_def)
        have "{x \<in> set (buffers p'). \<not> is_free p' x} = insert b {x \<in> set (buffers p). \<not> is_free p x}"
          using p'(3-6) s fb by auto
        moreover have "bufs p' x = bufs p x \<and> binder_buffer_size p' x = binder_buffer_size p x"
          if "x \<in> set (buffers p)" "\<not> is_free p x" for x
          using that p'(5) s fb by auto
        ultimately have "taken p p' b dsize osize is_async"
          unfolding taken_def w' using p'(3,4,7-) fb bin some(3,5) by simp
        with run fills p'(1,2) show ?thesis by (intro block [of b p']) simp_all
      qed (use absent in auto)
    qed auto
  qed
qed

end
