(* ===== verification/AllocRelease.thy ===== *)
theory AllocRelease
  imports AllocOps
begin

text \<open>
  binder_free_buf on an area that satisfies the invariant: the page range given back, the
  merge with a free neighbour (binder_delete_free_buffer), and the invariant afterwards.
\<close>

section \<open>Merging two free neighbours\<close>

text \<open>
  The pages that binder_delete_free_buffer gives back: those of the header of \<open>d\<close>, but
  for the one the header of \<open>a\<close> before it ends in and the one the next header starts in.
\<close>

definition merged_pages :: "nat \<Rightarrow> nat \<Rightarrow> nat list \<Rightarrow> nat set" where
  "merged_pages a d post =
     {P. pg d \<le> P \<and> P \<le> pg (d + 39) \<and> P \<noteq> pg (a + 39) \<and> (post \<noteq> [] \<longrightarrow> P \<noteq> pg (hd post))}"

lemma page_mask_pg: "page_mask x = pg x * PAGE_SIZE"
  by (simp add: page_mask_def pg_def)

lemma header_pages: "pg d \<le> pg (d + 39)" "pg (d + 39) \<le> Suc (pg d)"
  by (auto simp: pg_def)

lemma merge_needs:
  assumes t: "tiled (pre @ a # d # post) e" and f: "f a" "f d"
  shows "needs_page f (pre @ a # post) e P \<longleftrightarrow>
     needs_page f (pre @ a # d # post) e P \<and> P \<notin> merged_pages a d post"
proof -
  from t have d: "a + 40 \<le> d" and tp: "tiled post e" and le: "d + 40 \<le> hd (post @ [e])"
    and tpre: "tiled pre a" by auto
  have "P \<le> pg (a + 39)" if "needs_page f pre a P"
    by (rule order_trans [OF needs_le [OF tpre that] pg_mono]) simp
  moreover have ord: "pg (a + 39) \<le> pg d" using d by (intro pg_mono) simp
  moreover have "pg (d + 39) \<le> pg (hd post)" if "post \<noteq> []"
    using le that by (cases post) (auto intro!: pg_mono)
  moreover have "post \<noteq> [] \<and> pg (hd post) \<le> P" if "needs_page f post e P"
    using needs_ge [OF tp that] .
  moreover have "needs_page f post e (pg (hd post))" if "post \<noteq> []"
    using tp that needs_hd [of "hd post" "tl post" e f] by (cases post) auto
  moreover have "pg a \<le> pg (a + 39)" by (rule header_pages)
  ultimately show ?thesis
    using f unfolding merged_pages_def needs_append needs_page.simps
    by (auto simp: add.commute [of _ 39] add.commute [of _ 40])
qed

lemma merged_pages_present:
  assumes b: "base_inv p" and s: "buffers p = pre @ a # d # post" and f: "is_free p d"
    and P: "P \<in> {pg d..pg (d + 39)}"
  shows "page_in_area p P \<and> page_at p P"
proof -
  from b s have t: "tiled (pre @ a # d # post) (area_end p)" and hd: "hd (pre @ a # d # post) = area p"
    by (simp_all add: area_inv_defs)
  have "d + 40 \<le> area_end p" "area p \<le> d"
    using tiled_above [OF t, of d] tiled_below [OF t, of d] hd by simp_all
  moreover from b have "area_end p mod PAGE_SIZE = 0"
    by (simp add: base_inv_def geometry_end_mod)
  then have "pg (d + 39) < pg (area_end p)"
    using calculation(1) by (auto elim!: dvdE simp: mod_eq_0_iff_dvd pg_def div_less_iff_less_mult)
  ultimately have "page_in_area p P"
    using P pg_mono [of "area p" d] by (simp add: page_in_area_def)
  moreover have "needs_page (is_free p) (buffers p) (area_end p) P"
    using f P s by (auto simp: add.commute [of _ 39])
  ultimately show ?thesis using b by (simp add: area_inv_defs)
qed

lemma delete_free_buffer_eq:
  assumes b: "base_inv p" and s: "buffers p = pre @ a # d # post"
    and f: "is_free p a" "is_free p d"
  shows "\<exists>n. binder_delete_free_buffer env p d =
     Some ((page_fill p (merged_pages a d post) False)\<lparr>buffers := pre @ a # post, page_ops := n\<rparr>)"
proof -
  from b s have t: "tiled (pre @ a # d # post) (area_end p)" and g: "area_geometry p"
    and hd: "hd (pre @ a # d # post) = area p"
    by (simp_all add: area_inv_defs)
  from tiled_distinct [OF t] have nin: "d \<notin> set (pre @ [a])" "d \<notin> set post" by auto
  have d: "a + 40 \<le> d" and le: "d + 40 \<le> hd (post @ [area_end p])" using t by auto
  define q where "q = p\<lparr>buffers := pre @ a # post\<rparr>"
  have q: "area_geometry q" "\<And>P. page_at q P = page_at p P" "\<And>P. page_in_area q P = page_in_area p P"
    using g by (simp_all add: q_def area_geometry_def)
  have prev: "prev_in (buffers p) d = Some a" and nxt: "next_in (buffers p) d = (case post of [] \<Rightarrow> None | z # _ \<Rightarrow> Some z)"
    and rem: "remove1 d (buffers p) = pre @ a # post"
    using nin s prev_in_append_Cons [of d "pre @ [a]" post] next_in_append_Cons [of d "pre @ [a]" post]
      remove1_append_Cons [of d "pre @ [a]" post] by simp_all
  let ?e = "pg (a + 39)" and ?s = "pg d" and ?t = "pg (d + 39)"
  define h where "h \<longleftrightarrow> post \<noteq> [] \<and> pg (hd post) = ?t"
  define A where "A = (if ?e \<noteq> ?s \<and> (h \<longrightarrow> ?t \<noteq> ?s) then ?s else ?t)"
  define B where "B = (if \<not> (?e = ?s \<and> ?e = ?t) \<and> \<not> h then ?t else ?s)"
  define go where "go \<longleftrightarrow> (?e \<noteq> ?s \<and> (h \<longrightarrow> ?t \<noteq> ?s)) \<or> (\<not> (?e = ?s \<and> ?e = ?t) \<and> \<not> h)"
  have order: "?e \<le> ?s" "?s \<le> ?t" "?t \<le> Suc ?s" "post \<noteq> [] \<Longrightarrow> ?t \<le> pg (hd post)"
    using d le header_pages [of d] by (auto intro!: pg_mono)
  have set: "merged_pages a d post = (if go then {A..<Suc B} else {})"
    using order unfolding merged_pages_def go_def A_def B_def h_def by auto
  have range: "A \<in> {?s..?t}" "B \<in> {?s..?t}" using order by (auto simp: A_def B_def)
  have run: "binder_delete_free_buffer env p d =
      (if go then map_option snd (binder_update_page_range env q False (A * PAGE_SIZE) (Suc B * PAGE_SIZE) False)
       else Some q)"
    using f prev nxt rem unfolding binder_delete_free_buffer_def
    by (cases post)
       (auto simp: Let_def buffer_start_page_def buffer_end_page_def page_mask_pg q_def go_def A_def B_def h_def
          add.commute)
  show ?thesis
  proof (cases go)
    case False
    then have "binder_delete_free_buffer env p d =
      Some ((page_fill p (merged_pages a d post) False)\<lparr>buffers := pre @ a # post, page_ops := page_ops p\<rparr>)"
      by (simp add: run set q_def)
    then show ?thesis ..
  next
    case True
    have present: "page_in_area q R \<and> page_at q R" if "A \<le> R" "R < Suc B" for R
      using merged_pages_present [OF b s f(2), of R] range that q by simp
    have "0 < pg d"
    proof -
      have "PAGE_SIZE \<le> area p" using g by (auto simp: area_geometry_def elim!: dvdE simp: mod_eq_0_iff_dvd)
      with tiled_below [OF t, of d] hd show ?thesis by (simp add: pg_def div_greater_zero_iff)
    qed
    with range have "0 < A" by simp
    moreover have "Suc B * PAGE_SIZE < addr_bound"
    proof -
      have "B * PAGE_SIZE \<le> d + 39" using range by (simp add: pg_def less_eq_div_iff_mult_less_eq)
      moreover have "d + 40 \<le> area_end p" using tiled_above [OF t, of d] by simp
      ultimately show ?thesis using geometry_end [OF g] by simp
    qed
    ultimately obtain r n where "binder_update_page_range env q False (A * PAGE_SIZE) (Suc B * PAGE_SIZE) False =
        Some (r, (page_fill q {A..<Suc B} False)\<lparr>page_ops := n\<rparr>)"
      using update_range_free [OF q(1), of A "Suc B" env False] present by metis
    with True show ?thesis unfolding run set by (intro exI [of _ n]) (simp add: q_def page_fill_def)
  qed
qed

text \<open>The area after the merge, before and after the neighbour is put into the free tree.\<close>

lemma merge_ok:
  assumes b: "base_inv p" and s: "buffers p = pre @ a # d # post"
    and f: "is_free p a" "is_free p d"
  obtains p' where "binder_delete_free_buffer env p d = Some p'" "base_inv p'"
    "buffers p' = pre @ a # post" "bufs p' = bufs p" "free_buffers p' = free_buffers p"
    "allocated_buffers p' = allocated_buffers p" "free_async_space p' = free_async_space p"
    "area p' = area p" "area_size p' = area_size p" "vma p' = vma p" "files p' = files p"
    "user_buffer_offset p' = user_buffer_offset p" "binder_area.more p' = binder_area.more p"
    "\<And>x. x \<noteq> a \<Longrightarrow> x \<noteq> d \<Longrightarrow> binder_buffer_size p' x = binder_buffer_size p x"
proof -
  from delete_free_buffer_eq [OF b s f] obtain n where run: "binder_delete_free_buffer env p d =
     Some ((page_fill p (merged_pages a d post) False)\<lparr>buffers := pre @ a # post, page_ops := n\<rparr>)" ..
  define p' where "p' = (page_fill p (merged_pages a d post) False)\<lparr>buffers := pre @ a # post, page_ops := n\<rparr>"
  from b s have t: "tiled (pre @ a # d # post) (area_end p)" and g: "area_geometry p"
    and hd: "hd (pre @ a # d # post) = area p"
    by (simp_all add: area_inv_defs)
  have e: "area_end p' = area_end p" by (simp add: p'_def)
  have fields: "buffers p' = pre @ a # post" "bufs p' = bufs p" "free_buffers p' = free_buffers p"
    "allocated_buffers p' = allocated_buffers p" "free_async_space p' = free_async_space p"
    "area p' = area p" "area_size p' = area_size p" "vma p' = vma p" "files p' = files p"
    "user_buffer_offset p' = user_buffer_offset p" "binder_area.more p' = binder_area.more p"
    by (simp_all add: p'_def)
  have sizes: "binder_buffer_size p' x = binder_buffer_size p x" if "x \<noteq> a" "x \<noteq> d" for x
    using that s fields e by (intro size_skip [of x a d p pre post p']) simp_all
  have t': "tiled (pre @ a # post) (area_end p)" using t by auto
  have g': "area_geometry p'" using g by (simp add: p'_def area_geometry_def)
  have lay: "layout_ok p'" using t' hd fields e by (cases pre) (simp_all add: layout_ok_def)
  have allocs: "{x \<in> set (buffers p'). \<not> is_free p' x} = {x \<in> set (buffers p). \<not> is_free p x}"
    using s f fields by auto
  have atree: "allocated_tree_ok p'" using b allocs fields by (simp add: base_inv_def allocated_tree_ok_def)
  have fit: "payloads_fit p'"
    unfolding payloads_fit_def
  proof (intro ballI impI)
    fix x assume "x \<in> set (buffers p')" "\<not> is_free p' x"
    with allocs have x: "x \<in> set (buffers p)" "\<not> is_free p x" by auto
    with f have "x \<noteq> a" "x \<noteq> d" by auto
    from sizes [OF this] x b show "unat (payload_size p' x) \<le> binder_buffer_size p' x"
      by (simp add: base_inv_def payloads_fit_def payload_size_def fields)
  qed
  have "async_charge p' = async_charge p"
    by (simp add: fun_eq_iff async_charge_def payload_size_def fields)
  moreover have "async_charge p d = 0" using f by (simp add: async_charge_def)
  ultimately have async: "async_ok p'" using b s fields by (simp add: base_inv_def async_ok_def)
  have "pages_ok p'"
    unfolding pages_ok_def
  proof (intro allI impI)
    fix P assume "page_in_area p' P"
    then have P: "page_in_area p P" by (simp add: page_in_area_def fields e)
    have "page_at p' P \<longleftrightarrow> page_at (page_fill p (merged_pages a d post) False) P"
      by (simp add: page_at_def p'_def)
    also have "\<dots> \<longleftrightarrow> page_at p P \<and> P \<notin> merged_pages a d post" using g P by auto
    also have "\<dots> \<longleftrightarrow> needs_page (is_free p) (pre @ a # d # post) (area_end p) P \<and> P \<notin> merged_pages a d post"
      using b P s by (simp add: base_inv_def pages_ok_def)
    also have "\<dots> \<longleftrightarrow> needs_page (is_free p) (pre @ a # post) (area_end p) P"
      by (simp only: merge_needs [OF t f])
    finally show "page_at p' P = needs_page (is_free p') (buffers p') (area_end p') P"
      by (simp only: fields e)
  qed
  with g' lay atree fit async have "base_inv p'" by (simp add: base_inv_def)
  with run fields sizes show ?thesis by (intro that [of p']) (simp_all add: p'_def)
qed

lemma base_inv_free_tree [simp]: "base_inv (p\<lparr>free_buffers := t\<rparr>) = base_inv p"
proof -
  have "binder_buffer_size (p\<lparr>free_buffers := t\<rparr>) = binder_buffer_size p"
    by (rule size_cong) simp_all
  moreover have "async_charge (p\<lparr>free_buffers := t\<rparr>) = async_charge p"
    by (simp add: async_charge_def payload_size_def fun_eq_iff)
  ultimately show ?thesis
    by (simp add: area_inv_defs area_geometry_def payload_size_def)
qed

text \<open>What a release leaves unchanged.\<close>

definition released :: "'p binder_area_scheme \<Rightarrow> 'p binder_area_scheme \<Rightarrow> nat \<Rightarrow> bool" where
  "released p p' b \<longleftrightarrow>
     {c \<in> set (buffers p'). \<not> is_free p' c} = {c \<in> set (buffers p). \<not> is_free p c} - {b} \<and>
     (\<forall>c \<in> set (buffers p). \<not> is_free p c \<longrightarrow> c \<noteq> b \<longrightarrow>
        bufs p' c = bufs p c \<and> binder_buffer_size p' c = binder_buffer_size p c) \<and>
     free_async_space p' = (if async_transaction (bufs p b)
                            then free_async_space p + (payload_size p b + 40) else free_async_space p) \<and>
     vma p' = vma p \<and> files p' = files p \<and> area p' = area p \<and> area_size p' = area_size p \<and>
     user_buffer_offset p' = user_buffer_offset p \<and> binder_area.more p' = binder_area.more p"

lemma released_step:
  assumes r: "released p q b" and s: "buffers q = pre @ a # d # post" and f: "is_free q a" "is_free q d"
    and q': "buffers q' = pre @ a # post" "bufs q' = bufs q" "free_async_space q' = free_async_space q"
    "area q' = area q" "area_size q' = area_size q" "vma q' = vma q" "files q' = files q"
    "user_buffer_offset q' = user_buffer_offset q" "binder_area.more q' = binder_area.more q"
    "\<And>x. x \<noteq> a \<Longrightarrow> x \<noteq> d \<Longrightarrow> binder_buffer_size q' x = binder_buffer_size q x"
  shows "released p q' b"
proof -
  have same: "{c \<in> set (buffers q'). \<not> is_free q' c} = {c \<in> set (buffers q). \<not> is_free q c}"
    using s f q'(1,2) by auto
  have "bufs q' c = bufs p c \<and> binder_buffer_size q' c = binder_buffer_size p c"
    if c: "c \<in> set (buffers p)" "\<not> is_free p c" "c \<noteq> b" for c
  proof -
    have "c \<in> {c \<in> set (buffers q). \<not> is_free q c}" using r c unfolding released_def by blast
    with f have "c \<noteq> a" "c \<noteq> d" by auto
    moreover have "bufs q c = bufs p c \<and> binder_buffer_size q c = binder_buffer_size p c"
      using r c unfolding released_def by blast
    ultimately show ?thesis using q'(2,10) by simp
  qed
  with r q'(3-9) same show ?thesis unfolding released_def by simp
qed

section \<open>The hole a release leaves\<close>

text \<open>
  The state inside binder_free_buf: \<open>h\<close>, between \<open>pre\<close> and \<open>post\<close>, is marked
  free, but is in no tree yet and may stand beside another free buffer.
\<close>

abbreviation not_both_free :: "'p binder_area_scheme \<Rightarrow> nat \<Rightarrow> nat \<Rightarrow> bool" where
  "not_both_free p b c \<equiv> \<not> (is_free p b \<and> is_free p c)"

definition hole_inv :: "'p binder_area_scheme \<Rightarrow> nat list \<Rightarrow> nat \<Rightarrow> nat list \<Rightarrow> bool" where
  "hole_inv p pre h post \<longleftrightarrow> base_inv p \<and> buffers p = pre @ h # post \<and> is_free p h \<and>
     free_tree_ok p {b \<in> set pre \<union> set post. is_free p b} \<and>
     successively (not_both_free p) pre \<and> successively (not_both_free p) post"

lemma hole_distinct: "hole_inv p pre h post \<Longrightarrow> distinct (pre @ h # post)"
  using tiled_distinct by (fastforce simp: hole_inv_def base_inv_def layout_ok_def)

lemma hole_merge_next:
  assumes rb: "rb_ok env" and h: "hole_inv p pre b (d # post)" and d: "is_free p d"
  obtains p' where
    "binder_delete_free_buffer env (p\<lparr>free_buffers := rb_erase env d (free_buffers p)\<rparr>) d = Some p'"
    "hole_inv p' pre b post" "post \<noteq> [] \<Longrightarrow> \<not> is_free p' (hd post)"
    "\<And>p0 x. released p0 p x \<Longrightarrow> released p0 p' x"
proof -
  let ?q = "p\<lparr>free_buffers := rb_erase env d (free_buffers p)\<rparr>"
  let ?fs = "{x \<in> set pre \<union> set (d # post). is_free p x}"
  have s: "buffers ?q = pre @ b # d # post" and f: "is_free ?q b" "is_free ?q d" and b: "base_inv ?q"
    using h d by (simp_all add: hole_inv_def)
  have dist: "distinct (pre @ b # d # post)" by (rule hole_distinct [OF h])
  obtain p' where p': "binder_delete_free_buffer env ?q d = Some p'" "base_inv p'"
    "buffers p' = pre @ b # post" "bufs p' = bufs ?q" "free_buffers p' = free_buffers ?q"
    "allocated_buffers p' = allocated_buffers ?q" "free_async_space p' = free_async_space ?q"
    "area p' = area ?q" "area_size p' = area_size ?q" "vma p' = vma ?q" "files p' = files ?q"
    "user_buffer_offset p' = user_buffer_offset ?q" "binder_area.more p' = binder_area.more ?q"
    "\<And>x. x \<noteq> b \<Longrightarrow> x \<noteq> d \<Longrightarrow> binder_buffer_size p' x = binder_buffer_size ?q x"
    by (rule merge_ok [where env = env, OF b s f]) (rule that)
  have "free_tree_ok ?q (?fs - {d})"
    using h d by (intro free_tree_erase [OF rb]) (auto simp: hole_inv_def)
  moreover have "?fs - {d} = {x \<in> set pre \<union> set post. is_free p x}" using dist by auto
  ultimately have "free_tree_ok ?q {x \<in> set pre \<union> set post. is_free p x}" by simp
  then have "free_tree_ok p' {x \<in> set pre \<union> set post. is_free p x}"
    using dist by (rule_tac free_tree_cong [OF _ p'(5)]) (auto intro!: p'(14))
  moreover have "successively (not_both_free p) post" "post \<noteq> [] \<Longrightarrow> \<not> is_free p (hd post)"
    using h d by (auto simp: hole_inv_def successively_Cons)
  ultimately have "hole_inv p' pre b post" "post \<noteq> [] \<Longrightarrow> \<not> is_free p' (hd post)"
    using h p' by (simp_all add: hole_inv_def)
  moreover have "released p0 p' x" if "released p0 p x" for p0 x
  proof (rule released_step [where q = p, OF that])
    show "buffers p = pre @ b # d # post" "is_free p b" "is_free p d" using s f by simp_all
    show "binder_buffer_size p' y = binder_buffer_size p y" if "y \<noteq> b" "y \<noteq> d" for y
      using p'(14) [OF that] fun_cong [OF size_cong [of ?q p], of y] by simp
  qed (use p' in simp_all)
  ultimately show ?thesis using p'(1) by (rule_tac that)
qed

lemma hole_merge_prev:
  assumes rb: "rb_ok env" and h: "hole_inv p (pre @ [a]) b post" and a: "is_free p a"
  obtains p' where "binder_delete_free_buffer env p b = Some p'"
    "hole_inv (p'\<lparr>free_buffers := rb_erase env a (free_buffers p')\<rparr>) pre a post"
    "pre \<noteq> [] \<Longrightarrow> \<not> is_free p' (last pre)" "bufs p' = bufs p"
    "\<And>p0 x. released p0 p x \<Longrightarrow> released p0 (p'\<lparr>free_buffers := rb_erase env a (free_buffers p')\<rparr>) x"
proof -
  let ?fs = "{x \<in> set (pre @ [a]) \<union> set post. is_free p x}"
  have s: "buffers p = pre @ a # b # post" and f: "is_free p a" "is_free p b" and b: "base_inv p"
    using h a by (simp_all add: hole_inv_def)
  have dist: "distinct (pre @ a # b # post)" using hole_distinct [OF h] by simp
  obtain p' where p': "binder_delete_free_buffer env p b = Some p'" "base_inv p'"
    "buffers p' = pre @ a # post" "bufs p' = bufs p" "free_buffers p' = free_buffers p"
    "allocated_buffers p' = allocated_buffers p" "free_async_space p' = free_async_space p"
    "area p' = area p" "area_size p' = area_size p" "vma p' = vma p" "files p' = files p"
    "user_buffer_offset p' = user_buffer_offset p" "binder_area.more p' = binder_area.more p"
    "\<And>x. x \<noteq> a \<Longrightarrow> x \<noteq> b \<Longrightarrow> binder_buffer_size p' x = binder_buffer_size p x"
    by (rule merge_ok [where env = env, OF b s f]) (rule that)
  let ?q = "p'\<lparr>free_buffers := rb_erase env a (free_buffers p')\<rparr>"
  let ?r = "p\<lparr>free_buffers := rb_erase env a (free_buffers p)\<rparr>"
  have sizes: "binder_buffer_size ?q y = binder_buffer_size p y" if "y \<noteq> a" "y \<noteq> b" for y
    using p'(14) [OF that] fun_cong [OF size_cong [of ?q p'], of y] by simp
  have "free_tree_ok ?r (?fs - {a})"
    using h a by (intro free_tree_erase [OF rb]) (auto simp: hole_inv_def)
  moreover have "?fs - {a} = {x \<in> set pre \<union> set post. is_free p x}" using dist by auto
  ultimately have "free_tree_ok ?r {x \<in> set pre \<union> set post. is_free p x}" by simp
  then have "free_tree_ok ?q {x \<in> set pre \<union> set post. is_free p x}"
  proof (rule free_tree_cong)
    fix y assume "y \<in> {x \<in> set pre \<union> set post. is_free p x}"
    with dist have "y \<noteq> a" "y \<noteq> b" by auto
    from sizes [OF this] fun_cong [OF size_cong [of ?r p], of y]
    show "binder_buffer_size ?q y = binder_buffer_size ?r y" by simp
  qed (simp add: p'(5))
  moreover have "successively (not_both_free p) pre" "pre \<noteq> [] \<Longrightarrow> \<not> is_free p (last pre)"
    using h a by (auto simp: hole_inv_def successively_append_iff)
  ultimately have "hole_inv ?q pre a post" "pre \<noteq> [] \<Longrightarrow> \<not> is_free p' (last pre)"
    using h p' f by (simp_all add: hole_inv_def)
  moreover have "released p0 ?q x" if "released p0 p x" for p0 x
    by (rule released_step [where q = p, OF that s f]) (use p' sizes in simp_all)
  ultimately show ?thesis using p'(1,4) by (rule_tac that)
qed

lemma hole_close:
  assumes rb: "rb_ok env" and h: "hole_inv p pre b post"
    and n: "post \<noteq> [] \<Longrightarrow> \<not> is_free p (hd post)" "pre \<noteq> [] \<Longrightarrow> \<not> is_free p (last pre)"
  obtains p' where "binder_insert_free_buffer env p b = Some p'" "alloc_inv p'"
    "\<And>p0 x. released p0 p x \<Longrightarrow> released p0 p' x"
proof -
  let ?fs = "{x \<in> set pre \<union> set post. is_free p x}"
  have dist: "distinct (pre @ b # post)" by (rule hole_distinct [OF h])
  have ft: "free_tree_ok p ?fs" and b: "is_free p b" and s: "buffers p = pre @ b # post"
    and inv: "base_inv p" using h by (simp_all add: hole_inv_def)
  obtain t where t: "binder_insert_free_buffer env p b = Some (p\<lparr>free_buffers := t\<rparr>)"
    "free_tree_ok (p\<lparr>free_buffers := t\<rparr>) (insert b ?fs)"
  proof -
    have "b \<notin> ?fs" using dist by simp
    from insert_free_buffer_ok [OF rb ft this b] that show ?thesis by blast
  qed
  have "{x \<in> set (buffers p). is_free p x} = insert b ?fs" using s b by auto
  moreover have "coalesced p"
    using h n by (auto simp: coalesced_def hole_inv_def successively_append_iff successively_Cons)
  ultimately have "alloc_inv (p\<lparr>free_buffers := t\<rparr>)"
    using t(2) inv by (simp add: alloc_inv_def coalesced_def)
  moreover have "binder_buffer_size (p\<lparr>free_buffers := t\<rparr>) = binder_buffer_size p"
    by (rule size_cong) simp_all
  then have "released p0 (p\<lparr>free_buffers := t\<rparr>) x" if "released p0 p x" for p0 x
    using that by (simp add: released_def)
  ultimately show ?thesis using t(1) by (rule_tac that)
qed

text \<open>The first half of binder_free_buf: accounting, pages, the allocated tree.\<close>

definition unlinked :: "'e rb_ops_scheme \<Rightarrow> 'p binder_area_scheme \<Rightarrow> nat \<Rightarrow> 'p binder_area_scheme" where
  "unlinked env p b =
     buf_upd b (\<lambda>x. x\<lparr>free := True\<rparr>) (p\<lparr>allocated_buffers := rb_erase env b (allocated_buffers p)\<rparr>)"

lemma release_pages_iff:
  assumes t: "tiled (pre @ b # post) e" and c: "c = hd (post @ [e])" and e: "e mod PAGE_SIZE = 0"
    and f: "\<not> f b" "f' b" and cong: "\<And>x. x \<in> set pre \<union> set post \<Longrightarrow> f' x = f x"
  shows "needs_page f' (pre @ b # post) e P \<longleftrightarrow>
     needs_page f (pre @ b # post) e P \<and> P \<notin> {Suc (pg (b + 39))..<pg c}"
proof -
  let ?N = "needs_page f post e"
  have pre: "needs_page f' pre b P = needs_page f pre b P" and post: "needs_page f' post e P = ?N P"
    using cong by (auto intro!: needs_cong)
  from t have le: "b + 40 \<le> c" and tp: "tiled post e" and tpre: "tiled pre b" by (simp_all add: c)
  have N: "?N (pg c) \<or> c mod PAGE_SIZE = 0"
  proof (cases post)
    case (Cons d ds)
    with tp c needs_hd [of d ds e f] show ?thesis by simp
  qed (use c e in simp)
  have "P < pg b \<or> P = pg b" if "needs_page f pre b P"
    using needs_le [OF tpre that] pg_mono [of "b - 1" b] by linarith
  moreover have "pg c \<le> P" if "?N P" using needs_ge [OF tp that] c by (cases post) auto
  moreover have "pg b \<le> pg (b + 39)" by (rule header_pages)
  moreover have "pg c \<le> Suc (pg (c - 1))" using le by (auto simp: pg_def)
  ultimately show ?thesis
    using alloc_pages_iff [of b c c c ?N P] le N f pre post
    unfolding needs_append needs_page.simps c [symmetric]
    by (auto simp: add.commute)
qed

lemma free_tail_eq:
  assumes "binder_update_page_range env
       (if async_transaction (bufs p b)
        then p\<lparr>free_async_space := free_async_space p + (payload_size p b + of_nat sizeof_binder_buffer)\<rparr> else p)
       False (page_align (buffer_data b)) (page_mask (add32 (buffer_data b) (binder_buffer_size p b))) False = Some (r, q)"
    and "\<not> is_free p b" "unat (payload_size p b) \<le> binder_buffer_size p b"
    and "buf_transaction (bufs p b) = None" "area p \<le> b" "b \<le> area p + area_size p"
  shows "binder_free_buf env p b =
    (let p = unlinked env q b in do {
       p \<leftarrow> (case next_in (buffers p) b of
                None \<Rightarrow> Some p
              | Some nxt \<Rightarrow>
                  if is_free p nxt
                  then binder_delete_free_buffer env
                         (p\<lparr>free_buffers := rb_erase env nxt (free_buffers p)\<rparr>) nxt
                  else Some p);
       (p, b) \<leftarrow> (case prev_in (buffers p) b of
                None \<Rightarrow> Some (p, b)
              | Some prev \<Rightarrow>
                  if is_free p prev
                  then do {
                    p \<leftarrow> binder_delete_free_buffer env p b;
                    Some (p\<lparr>free_buffers := rb_erase env prev (free_buffers p)\<rparr>, prev)}
                  else Some (p, b));
       binder_insert_free_buffer env p b})"
  using assms unfolding binder_free_buf_def payload_size_def Let_def unlinked_def
  by simp

lemma release_charge:
  assumes inv: "alloc_inv p" and s: "buffers p = pre @ b # post" and nb: "\<not> is_free p b"
    and a: "async_transaction (bufs p b)"
  shows "unat (free_async_space p + (payload_size p b + 40)) =
         unat (free_async_space p) + unat (payload_size p b) + 40"
proof -
  have "unat (free_async_space p) + sum_list (map (async_charge p) (buffers p)) = area_size p div 2"
    and le: "area_size p \<le> SZ_4M"
    using inv by (simp_all add: alloc_inv_def base_inv_def async_ok_def area_geometry_def)
  moreover have "async_charge p b = unat (payload_size p b) + 40" using nb a by (simp add: async_charge_def)
  ultimately have "unat (free_async_space p) + (unat (payload_size p b) + 40) \<le> area_size p div 2"
    unfolding s by simp
  with le have "unat (free_async_space p) + (unat (payload_size p b) + 40) < 4294967296" by simp
  moreover from this have "unat (payload_size p b + 40) = unat (payload_size p b) + 40"
    by (subst unat_add_lem [THEN iffD1]) simp_all
  ultimately show ?thesis by (subst unat_add_lem [THEN iffD1]) simp_all
qed

lemma release_start:
  assumes rb: "rb_ok env" and inv: "alloc_inv p" and s: "buffers p = pre @ b # post" and nb: "\<not> is_free p b"
  obtains r q where "binder_update_page_range env
       (if async_transaction (bufs p b)
        then p\<lparr>free_async_space := free_async_space p + (payload_size p b + of_nat sizeof_binder_buffer)\<rparr> else p)
       False (page_align (buffer_data b)) (page_mask (add32 (buffer_data b) (binder_buffer_size p b))) False = Some (r, q)"
    "hole_inv (unlinked env q b) pre b post" "released p (unlinked env q b) b"
proof -
  define c where "c = hd (post @ [area_end p])"
  define fas where "fas = (if async_transaction (bufs p b)
     then free_async_space p + (payload_size p b + of_nat sizeof_binder_buffer) else free_async_space p)"
  define p1 where "p1 = p\<lparr>free_async_space := fas\<rparr>"
  from inv s have t: "tiled (pre @ b # post) (area_end p)" and g: "area_geometry p"
    and hd: "hd (pre @ b # post) = area p" and lay: "layout_ok p"
    by (simp_all add: alloc_inv_def area_inv_defs)
  from tiled_split_notin [OF t] have nin: "b \<notin> set pre" "b \<notin> set post" by auto
  have bin: "b \<in> set (buffers p)" by (simp add: s)
  have sz: "binder_buffer_size p b = c - buffer_data b" "b + 40 \<le> c" "c < addr_bound"
    using size_split [OF g s] t s by (simp_all add: c_def buffer_data_def)
  have end1: "area_end p + PAGE_SIZE \<le> addr_bound" by (rule geometry_end [OF g])
  have cle: "c \<le> area_end p" using t by (simp add: c_def tiled_hd_le)
  have ab: "area p \<le> b" using tiled_below [OF t, of b] hd by simp
  let ?S = "Suc (pg (b + 39))"
  have start: "page_align (buffer_data b) = ?S * PAGE_SIZE"
    using page_align_num [of "b + 40"] sz end1 cle by (simp add: buffer_data_def add.commute [of b 39])
  have stop: "page_mask (add32 (buffer_data b) (binder_buffer_size p b)) = pg c * PAGE_SIZE"
    using sz by (simp add: page_mask_pg buffer_data_def)
  have g1: "area_geometry p1" using g by (simp add: p1_def area_geometry_def)
  have present: "page_in_area p1 R \<and> page_at p1 R" if "?S \<le> R" "R < pg c" for R
  proof -
    have "page_in_area p R"
      using that pg_mono [OF ab] header_pages(1) [of b] pg_mono [OF cle] by (simp add: page_in_area_def)
    moreover have "needs_page (is_free p) (buffers p) (area_end p) R"
    proof -
      have "R \<le> pg (c - 1)" using that sz(2) by (auto simp: pg_def)
      with that header_pages(1) [of b] nb show ?thesis unfolding s by (auto simp: c_def)
    qed
    ultimately show ?thesis using inv by (simp add: p1_def alloc_inv_def area_inv_defs)
  qed
  have below: "pg c * PAGE_SIZE < addr_bound"
    using sz(3) by (simp add: pg_def order.strict_trans1 [OF div_times_less_eq_dividend])
  obtain r n where run: "binder_update_page_range env p1 False (?S * PAGE_SIZE) (pg c * PAGE_SIZE) False =
     Some (r, (page_fill p1 {?S..<pg c} False)\<lparr>page_ops := n\<rparr>)"
    using update_range_free [OF g1 zero_less_Suc below present, where env = env and va = False] by blast
  define q where "q = unlinked env ((page_fill p1 {?S..<pg c} False)\<lparr>page_ops := n\<rparr>) b"
  have fields: "buffers q = pre @ b # post" "area q = area p" "area_size q = area_size p" "vma q = vma p"
    "files q = files p" "user_buffer_offset q = user_buffer_offset p" "area_end q = area_end p"
    "binder_area.more q = binder_area.more p" "free_async_space q = fas" "free_buffers q = free_buffers p"
    "allocated_buffers q = rb_erase env b (allocated_buffers p)" "length (pages q) = length (pages p)"
    "bufs q = (bufs p)(b := (bufs p b)\<lparr>free := True\<rparr>)"
    "\<And>P. page_in_area q P = page_in_area p P"
    "\<And>P. page_in_area p P \<Longrightarrow> page_at q P \<longleftrightarrow> P \<notin> {?S..<pg c} \<and> page_at p P"
    using g1 by (auto simp: q_def unlinked_def p1_def s)
  have sizes: "binder_buffer_size q = binder_buffer_size p" using fields s by (intro size_cong) simp_all
  have atree: "allocated_tree_ok q"
  proof -
    have k: "keyed (\<lambda>b. b) (inorder (allocated_buffers p))"
      and st: "set (inorder (allocated_buffers p)) = {x \<in> set (buffers p). \<not> is_free p x}"
      using inv by (simp_all add: alloc_inv_def base_inv_def allocated_tree_ok_def)
    have d: "distinct (inorder (allocated_buffers p))" using keyed_distinct [OF k] .
    have "inorder (allocated_buffers q) = remove1 b (inorder (allocated_buffers p))"
      unfolding fields(11) using bin nb st by (intro rb_ok_erase [OF rb d]) (simp del: set_inorder)
    moreover have "set (remove1 b (inorder (allocated_buffers p))) = {x \<in> set (buffers q). \<not> is_free q x}"
      unfolding set_remove1_eq [OF d] st using s fields(1,13) by auto
    ultimately show ?thesis using k by (simp add: allocated_tree_ok_def keyed_remove1 del: set_inorder)
  qed
  have other: "payload_size q x = payload_size p x \<and> is_free q x = is_free p x" if "x \<noteq> b" for x
    using that by (simp add: payload_size_def fields)
  have fit: "payloads_fit q"
    unfolding payloads_fit_def sizes
  proof (intro ballI impI)
    fix x assume x: "x \<in> set (buffers q)" "\<not> is_free q x"
    then have "x \<noteq> b" by (auto simp: fields)
    with other [OF this] x inv s show "unat (payload_size q x) \<le> binder_buffer_size p x"
      by (simp add: fields alloc_inv_def base_inv_def payloads_fit_def)
  qed
  have async: "async_ok q"
  proof -
    have "async_charge q x = async_charge p x" if "x \<noteq> b" for x
      using other [OF that] that by (simp add: async_charge_def fields)
    then have "sum_list (map (async_charge q) pre) = sum_list (map (async_charge p) pre)"
      "sum_list (map (async_charge q) post) = sum_list (map (async_charge p) post)"
      using nin by (metis map_cong)+
    moreover have "async_charge q b = 0" by (simp add: async_charge_def fields)
    moreover have "unat fas = unat (free_async_space p) + async_charge p b"
      using nb release_charge [OF inv s nb] by (simp add: fas_def async_charge_def)
    ultimately show ?thesis
      using inv s by (simp add: async_ok_def alloc_inv_def base_inv_def fields)
  qed
  have pages: "pages_ok q"
    unfolding pages_ok_def
  proof (intro allI impI)
    fix P assume "page_in_area q P"
    then have P: "page_in_area p P" by (simp add: fields)
    have "needs_page (is_free q) (pre @ b # post) (area_end p) P \<longleftrightarrow>
        needs_page (is_free p) (pre @ b # post) (area_end p) P \<and> P \<notin> {?S..<pg c}"
      by (rule release_pages_iff [OF t c_def geometry_end_mod [OF g]]) (use nb nin in \<open>auto simp: fields\<close>)
    with P inv s show "page_at q P = needs_page (is_free q) (buffers q) (area_end q) P"
      by (auto simp: fields alloc_inv_def base_inv_def pages_ok_def)
  qed
  have "layout_ok q" "area_geometry q" using lay g s by (simp_all add: layout_ok_def area_geometry_def fields)
  with atree fit async pages have "base_inv q" by (simp add: base_inv_def)
  moreover have "free_tree_ok q {x \<in> set pre \<union> set post. is_free q x}"
  proof (rule free_tree_cong)
    show "free_tree_ok p {x \<in> set pre \<union> set post. is_free q x}"
    proof -
      have "{x \<in> set pre \<union> set post. is_free q x} = {x \<in> set (buffers p). is_free p x}"
        using nin nb s by (auto simp: fields)
      then show ?thesis using inv by (simp add: alloc_inv_def)
    qed
  qed (simp_all add: fields sizes)
  moreover have "successively (not_both_free q) pre" "successively (not_both_free q) post"
  proof -
    have "successively (not_both_free p) (pre @ b # post)"
      using inv s by (simp add: alloc_inv_def coalesced_def)
    then have "successively (not_both_free p) pre" "successively (not_both_free p) post"
      by (auto simp: successively_append_iff successively_Cons)
    then show "successively (not_both_free q) pre" "successively (not_both_free q) post"
      using nin by (auto elim!: successively_mono simp: fields)
  qed
  ultimately have hole: "hole_inv q pre b post" by (simp add: hole_inv_def fields)
  have "released p q b"
    unfolding released_def sizes using s nin by (auto simp: fields fas_def)
  moreover have "p1 = (if async_transaction (bufs p b)
        then p\<lparr>free_async_space := free_async_space p + (payload_size p b + of_nat sizeof_binder_buffer)\<rparr> else p)"
    by (simp add: p1_def fas_def)
  ultimately show ?thesis using run hole start stop by (intro that [folded q_def]) (simp_all add: q_def)
qed

lemma binder_free_buf_ok:
  assumes rb: "rb_ok env" and inv: "alloc_inv p" and bin: "b \<in> set (buffers p)" and nb: "\<not> is_free p b"
    and tr: "buf_transaction (bufs p b) = None"
  obtains p' where "binder_free_buf env p b = Some p'" "alloc_inv p'" "released p p' b"
proof -
  from split_list [OF bin] obtain pre post where s: "buffers p = pre @ b # post" by blast
  have fit: "unat (payload_size p b) \<le> binder_buffer_size p b"
    using inv bin nb by (simp add: alloc_inv_def base_inv_def payloads_fit_def)
  have "area p \<le> b" "b + 40 \<le> area_end p"
    using inv bin size_bound(2,3) [of p b] by (simp_all add: alloc_inv_def base_inv_def)
  then have bounds: "area p \<le> b" "b \<le> area p + area_size p" by (simp_all add: area_end_def)
  obtain r q where "binder_update_page_range env
       (if async_transaction (bufs p b)
        then p\<lparr>free_async_space := free_async_space p + (payload_size p b + of_nat sizeof_binder_buffer)\<rparr> else p)
       False (page_align (buffer_data b)) (page_mask (add32 (buffer_data b) (binder_buffer_size p b))) False = Some (r, q)"
    and h1: "hole_inv (unlinked env q b) pre b post" and r1: "released p (unlinked env q b) b"
    by (rule release_start [OF rb inv s nb])
  note run = free_tail_eq [OF this(1) nb fit tr bounds]
  define p1 where "p1 = unlinked env q b"
  note h1 = h1 [folded p1_def] and r1 = r1 [folded p1_def] and run = run [folded p1_def]
  have dist: "distinct (pre @ b # post)" by (rule hole_distinct [OF h1])
  have s1: "buffers p1 = pre @ b # post" using h1 by (simp add: hole_inv_def)
  obtain p2 post2 where p2: "(case next_in (buffers p1) b of
                None \<Rightarrow> Some p1
              | Some nxt \<Rightarrow>
                  if is_free p1 nxt
                  then binder_delete_free_buffer env
                         (p1\<lparr>free_buffers := rb_erase env nxt (free_buffers p1)\<rparr>) nxt
                  else Some p1) = Some p2"
    and h2: "hole_inv p2 pre b post2" and n2: "post2 \<noteq> [] \<Longrightarrow> \<not> is_free p2 (hd post2)"
    and r2: "released p p2 b"
  proof (cases "post \<noteq> [] \<and> is_free p1 (hd post)")
    case True
    then obtain d ds where post: "post = d # ds" and d: "is_free p1 d" by (cases post) auto
    obtain p' where "binder_delete_free_buffer env (p1\<lparr>free_buffers := rb_erase env d (free_buffers p1)\<rparr>) d = Some p'"
      "hole_inv p' pre b ds" "ds \<noteq> [] \<Longrightarrow> \<not> is_free p' (hd ds)" "released p p' b"
      using hole_merge_next [OF rb h1 [unfolded post] d] r1 by metis
    moreover have "next_in (buffers p1) b = Some d" using dist s1 post by simp
    ultimately show ?thesis using d by (intro that) simp_all
  next
    case False
    with dist s1 h1 r1 that show ?thesis by (cases post) auto
  qed
  have s2: "buffers p2 = pre @ b # post2" and dist2: "distinct (pre @ b # post2)"
    using h2 hole_distinct [OF h2] by (simp_all add: hole_inv_def)
  obtain p3 h pre3 where p3: "(case prev_in (buffers p2) b of
                None \<Rightarrow> Some (p2, b)
              | Some prev \<Rightarrow>
                  if is_free p2 prev
                  then do {
                    p \<leftarrow> binder_delete_free_buffer env p2 b;
                    Some (p\<lparr>free_buffers := rb_erase env prev (free_buffers p)\<rparr>, prev)}
                  else Some (p2, b)) = Some (p3, h)"
    and h3: "hole_inv p3 pre3 h post2" and n3: "post2 \<noteq> [] \<Longrightarrow> \<not> is_free p3 (hd post2)"
    and m3: "pre3 \<noteq> [] \<Longrightarrow> \<not> is_free p3 (last pre3)" and r3: "released p p3 b"
  proof (cases "pre \<noteq> [] \<and> is_free p2 (last pre)")
    case True
    then obtain a as where pre: "pre = as @ [a]" by (cases pre rule: rev_cases) auto
    with True have a: "is_free p2 a" by simp
    obtain p' where p': "binder_delete_free_buffer env p2 b = Some p'"
      "hole_inv (p'\<lparr>free_buffers := rb_erase env a (free_buffers p')\<rparr>) as a post2"
      "as \<noteq> [] \<Longrightarrow> \<not> is_free p' (last as)" "bufs p' = bufs p2"
      "released p (p'\<lparr>free_buffers := rb_erase env a (free_buffers p')\<rparr>) b"
      using hole_merge_prev [OF rb h2 [unfolded pre] a] r2 by metis
    have "prev_in (buffers p2) b = Some a" using dist2 s2 pre prev_in_append_Cons [of b pre post2] by simp
    with a p' n2 show ?thesis
      by (intro that [of "p'\<lparr>free_buffers := rb_erase env a (free_buffers p')\<rparr>" a as]) simp_all
  next
    case False
    have "prev_in (buffers p2) b = (if pre = [] then None else Some (last pre))"
      using dist2 s2 prev_in_append_Cons [of b pre post2] by simp
    with False h2 n2 r2 show ?thesis by (intro that [of p2 b pre]) auto
  qed
  obtain p4 where "binder_insert_free_buffer env p3 h = Some p4" "alloc_inv p4" "released p p4 b"
    using hole_close [OF rb h3 n3 m3] r3 by metis
  then show ?thesis using run p2 p3 by (intro that [of p4]) (simp_all add: Let_def)
qed

end
