(* ===== verification/AllocSpec.thy ===== *)
theory AllocSpec
  imports AllocRelease
begin

text \<open>
  The contract of the buffer allocator, as the transaction code relies on it, and the
  proof that the model of driver/binder/binder.c meets it: mapping an area establishes
  the invariant, and every allocation and release keeps it without ever reaching a
  \<open>BUG_ON\<close>.
\<close>

section \<open>Mapping\<close>

text \<open>
  What the kernel guarantees of a request: page-aligned sizes, and a reserved range of
  kernel addresses that is page-aligned, not at 0, and ends inside the address space.
\<close>

definition mmap_request_ok :: "mmap_request \<Rightarrow> bool" where
  "mmap_request_ok req \<longleftrightarrow>
     vm_start req < vm_end req \<and> (vm_end req - vm_start req) mod PAGE_SIZE = 0 \<and>
     (\<forall>addr. vm_area_result req = Some addr \<longrightarrow>
        0 < addr \<and> addr mod PAGE_SIZE = 0 \<and>
        addr + min (vm_end req - vm_start req) SZ_4M < addr_bound)"

definition unmapped :: "'p binder_area_scheme \<Rightarrow> bool" where
  "unmapped p \<longleftrightarrow> area p = 0 \<and> \<not> vma p \<and> free_buffers p = Leaf \<and> allocated_buffers p = Leaf"

lemma binder_mmap_outcome:
  assumes rb: "rb_ok env" and u: "unmapped p" and req: "mmap_request_ok req"
  obtains (refused) e p' where "binder_mmap env p req = Some (e, p')" "e < 0" "unmapped p'"
    | (mapped) p' where "binder_mmap env p req = Some (0, p')" "alloc_inv p'" "vma p'"
        "buffers p' = [area p']" "is_free p' (area p')" "area_size p' = min (vm_end req - vm_start req) SZ_4M"
proof -
  define len where "len = min (vm_end req - vm_start req) SZ_4M"
  have len: "(if vm_end req - vm_start req > SZ_4M then vm_start req + SZ_4M else vm_end req) - vm_start req = len"
    using req by (auto simp: len_def mmap_request_ok_def)
  have l: "0 < len" "len mod PAGE_SIZE = 0" "len \<le> SZ_4M"
    using req by (auto simp: len_def mmap_request_ok_def min_def)
  from u have a0: "area p = 0" by (simp add: unmapped_def)
  show thesis
  proof (cases "vm_write req \<or> vm_area_result req = None \<or> \<not> page_array_result req")
    case True
    then have "\<exists>e p'. binder_mmap env p req = Some (e, p') \<and> e < 0 \<and> unmapped p'"
      using u a0 by (cases "vm_area_result req") (auto simp: binder_mmap_def Let_def unmapped_def)
    then show ?thesis using refused by blast
  next
    case False
    then obtain addr where addr: "vm_area_result req = Some addr" and ok: "\<not> vm_write req" "page_array_result req"
      by auto
    from req addr have ad: "0 < addr" "addr mod PAGE_SIZE = 0" "addr + len < addr_bound"
      by (auto simp: mmap_request_ok_def len_def)
    define p1 where "p1 = p\<lparr>area := addr, user_buffer_offset := sub32 (vm_start req) addr,
      pages := replicate (len div PAGE_SIZE) False, area_size := len\<rparr>"
    have g1: "area_geometry p1" using ad l by (simp add: p1_def area_geometry_def area_end_def)
    have as: "addr = pg addr * PAGE_SIZE" "addr + PAGE_SIZE = Suc (pg addr) * PAGE_SIZE"
      using ad(2) by (auto simp: pg_def)
    have lp: "PAGE_SIZE \<le> len" using l by (auto elim!: dvdE simp: mod_eq_0_iff_dvd)
    then have in1: "page_in_area p1 (pg addr)"
      using l by (auto simp: page_in_area_def p1_def area_end_def pg_def elim!: dvdE simp: mod_eq_0_iff_dvd)
    have at1: "page_in_area p1 R \<Longrightarrow> \<not> page_at p1 R" for R
      using geometry_length [OF g1] by (auto simp: page_at_def page_in_area_def p1_def)
    have run: "binder_mmap env p req = do {
        (ret, p) \<leftarrow> binder_update_page_range env p1 True (pg addr * PAGE_SIZE) (Suc (pg addr) * PAGE_SIZE) True;
        if ret \<noteq> 0 then Some (- ENOMEM, p\<lparr>pages := [], area := 0\<rparr>)
        else do {
          let p = p\<lparr>buffers := [addr]\<rparr>;
          let p = buf_upd addr (\<lambda>b. b\<lparr>free := True\<rparr>) p;
          p \<leftarrow> binder_insert_free_buffer env p addr;
          Some (0, p\<lparr>free_async_space := of_nat (area_size p div 2), files := True, vma := True\<rparr>)}}"
      using ok addr a0 unfolding as [symmetric] by (simp add: binder_mmap_def Let_def len p1_def)
    have "0 < pg addr" using ad by (auto simp: pg_def elim!: dvdE simp: mod_eq_0_iff_dvd)
    moreover have "page_in_area p1 R \<and> \<not> page_at p1 R" if "pg addr \<le> R" "R < Suc (pg addr)" for R
      using that in1 at1 [of R] by (auto simp: less_Suc_eq le_less)
    ultimately consider
        (failed) n where "binder_update_page_range env p1 True (pg addr * PAGE_SIZE) (Suc (pg addr) * PAGE_SIZE) True =
           Some (- ENOMEM, p1\<lparr>page_ops := n\<rparr>)"
      | (fills) n where "binder_update_page_range env p1 True (pg addr * PAGE_SIZE) (Suc (pg addr) * PAGE_SIZE) True =
           Some (0, (page_fill p1 {pg addr..<Suc (pg addr)} True)\<lparr>page_ops := n\<rparr>)"
      using update_range_allocate [OF g1, of "pg addr" "Suc (pg addr)" env True] by metis
    then show ?thesis
    proof cases
      case failed
      with run u show ?thesis
        by (intro refused [of "- ENOMEM" "p1\<lparr>page_ops := n, pages := [], area := 0\<rparr>"])
           (simp_all add: unmapped_def p1_def)
    next
      case fills
      define p2 where "p2 = (page_fill p1 {pg addr..<Suc (pg addr)} True)\<lparr>page_ops := n\<rparr>"
      define p3 where "p3 = buf_upd addr (\<lambda>b. b\<lparr>free := True\<rparr>) (p2\<lparr>buffers := [addr]\<rparr>)"
      have f3: "free_tree_ok p3 {}" "is_free p3 addr"
        using u by (simp_all add: p3_def p2_def p1_def free_tree_ok_def unmapped_def)
      from insert_free_buffer_ok [OF rb f3(1) _ f3(2)] obtain t where
        t: "binder_insert_free_buffer env p3 addr = Some (p3\<lparr>free_buffers := t\<rparr>)"
        "free_tree_ok (p3\<lparr>free_buffers := t\<rparr>) {addr}" by auto
      define p' where "p' = (p3\<lparr>free_buffers := t\<rparr>)
         \<lparr>free_async_space := of_nat (area_size (p3\<lparr>free_buffers := t\<rparr>) div 2), files := True, vma := True\<rparr>"
      have res: "binder_mmap env p req = Some (0, p')"
        using t(1) unfolding run fills by (simp add: p2_def p3_def p'_def)
      have fields: "area p' = addr" "area_size p' = len" "buffers p' = [addr]" "is_free p' addr" "vma p'"
        "allocated_buffers p' = Leaf" "length (pages p') = len div PAGE_SIZE" "area_end p' = addr + len"
        "free_async_space p' = of_nat (len div 2)"
        "free_buffers p' = t" "\<And>P. page_at p' P = page_at p2 P" "\<And>P. page_in_area p' P = page_in_area p1 P"
        using u by (auto simp: p'_def p3_def p2_def p1_def unmapped_def area_end_def page_at_def page_in_area_def)
      have "binder_buffer_size p' = binder_buffer_size (p3\<lparr>free_buffers := t\<rparr>)"
        by (rule size_cong) (simp_all add: p'_def area_end_def)
      then have "free_tree_ok p' {addr}" using t(2) by (simp add: free_tree_ok_def fields)
      moreover have "area_geometry p'" using g1 by (simp add: area_geometry_def fields p1_def area_end_def)
      moreover have "layout_ok p'" using lp by (simp add: layout_ok_def fields)
      moreover have "unat (of_nat (len div 2) :: u32) = len div 2"
        using l by (simp add: unat_of_nat)
      moreover have "pages_ok p'"
        unfolding pages_ok_def
      proof (intro allI impI)
        fix P assume "page_in_area p' P"
        then have P: "page_in_area p1 P" by (simp add: fields)
        have "pg (addr + 39) = pg addr" using ad(2) by (auto simp: pg_def elim!: dvdE simp: mod_eq_0_iff_dvd)
        with P g1 at1 [OF P] show "page_at p' P = needs_page (is_free p') (buffers p') (area_end p') P"
          by (auto simp: fields p2_def add.commute)
      qed
      moreover have "{b \<in> set (buffers p'). is_free p' b} = {addr}" by (auto simp: fields)
      ultimately have "alloc_inv p'"
        by (simp add: alloc_inv_def base_inv_def coalesced_def async_ok_def allocated_tree_ok_def payloads_fit_def
            async_charge_def fields)
      with res fields show ?thesis by (intro mapped [of p']) (simp_all add: len_def)
    qed
  qed
qed

section \<open>The contract of the allocator\<close>

text \<open>
  What the transaction code needs of a pool of buffers: taking never gets stuck and hands
  out a buffer that is not in use, giving a live buffer back always works, and the
  memory of live buffers is disjoint and does not move.
\<close>

locale buffer_pool =
  fixes pool_inv :: "'s \<Rightarrow> bool" and live :: "'s \<Rightarrow> nat set" and span :: "'s \<Rightarrow> nat \<Rightarrow> nat set"
    and acquire :: "'s \<Rightarrow> 'r \<Rightarrow> (nat option \<times> 's) option" and give_back :: "'s \<Rightarrow> nat \<Rightarrow> 's option"
  assumes acquire_defined: "pool_inv s \<Longrightarrow> \<exists>a s'. acquire s r = Some (a, s') \<and> pool_inv s' \<and>
      live s' = live s \<union> set_option a \<and> set_option a \<inter> live s = {}"
    and acquire_span: "pool_inv s \<Longrightarrow> acquire s r = Some (a, s') \<Longrightarrow> b \<in> live s \<Longrightarrow> span s' b = span s b"
    and give_back_defined: "pool_inv s \<Longrightarrow> b \<in> live s \<Longrightarrow>
      \<exists>s'. give_back s b = Some s' \<and> pool_inv s' \<and> live s' = live s - {b}"
    and give_back_span: "pool_inv s \<Longrightarrow> b \<in> live s \<Longrightarrow> give_back s b = Some s' \<Longrightarrow> c \<in> live s' \<Longrightarrow>
      span s' c = span s c"
    and span_disjoint: "pool_inv s \<Longrightarrow> b \<in> live s \<Longrightarrow> c \<in> live s \<Longrightarrow> b \<noteq> c \<Longrightarrow> span s b \<inter> span s c = {}"

datatype 'r pool_op = Acquire 'r | Give_back nat

text \<open>A client that gives back only what is in use; other requests it ignores.\<close>

fun pool_run ::
    "('s \<Rightarrow> 'r \<Rightarrow> (nat option \<times> 's) option) \<Rightarrow> ('s \<Rightarrow> nat \<Rightarrow> 's option) \<Rightarrow> ('s \<Rightarrow> nat set) \<Rightarrow>
     's \<Rightarrow> 'r pool_op list \<Rightarrow> 's option" where
  "pool_run acquire give_back live s [] = Some s"
| "pool_run acquire give_back live s (Acquire r # ops) = do {
     (_, s') \<leftarrow> acquire s r;
     pool_run acquire give_back live s' ops}"
| "pool_run acquire give_back live s (Give_back b # ops) =
     (if b \<in> live s
      then do {s' \<leftarrow> give_back s b; pool_run acquire give_back live s' ops}
      else pool_run acquire give_back live s ops)"

context buffer_pool
begin

lemma run_defined:
  "pool_inv s \<Longrightarrow> \<exists>s'. pool_run acquire give_back live s ops = Some s' \<and> pool_inv s'"
proof (induction ops arbitrary: s)
  case (Cons op ops)
  show ?case
  proof (cases op)
    case (Acquire r)
    from acquire_defined [OF Cons.prems, of r] Cons.IH Acquire show ?thesis by fastforce
  next
    case (Give_back b)
    show ?thesis
    proof (cases "b \<in> live s")
      case True
      from give_back_defined [OF Cons.prems this] Cons.IH Give_back True show ?thesis by fastforce
    qed (use Cons Give_back in simp)
  qed
qed simp

lemma run_append:
  "pool_run acquire give_back live s (xs @ ys) =
   pool_run acquire give_back live s xs \<bind> (\<lambda>s'. pool_run acquire give_back live s' ys)"
proof (induction xs arbitrary: s)
  case (Cons x xs)
  then show ?case by (cases x) (auto split: Option.bind_splits)
qed simp

text \<open>Giving back everything that is live empties the pool.\<close>

lemma run_drain:
  assumes "pool_inv s" "set bs = live s" "distinct bs"
  shows "\<exists>s'. pool_run acquire give_back live s (map Give_back bs) = Some s' \<and> pool_inv s' \<and> live s' = {}"
  using assms
proof (induction bs arbitrary: s)
  case (Cons b bs)
  then have b: "b \<in> live s" by auto
  from give_back_defined [OF Cons.prems(1) this] obtain s1 where
    s1: "give_back s b = Some s1" "pool_inv s1" "live s1 = live s - {b}" by auto
  moreover from this Cons.prems have "set bs = live s1" "distinct bs" by auto
  ultimately show ?case using Cons.IH [of s1] b by auto
qed auto

text \<open>A buffer handed out overlaps no buffer that is in use, before or after.\<close>

lemma acquire_disjoint:
  assumes "pool_inv s" "acquire s r = Some (Some a, s')" "b \<in> live s"
  shows "span s' a \<inter> span s b = {}"
proof -
  from acquire_defined [OF assms(1), of r] assms(2) have
    "pool_inv s'" "live s' = insert a (live s)" "a \<notin> live s" by auto
  with assms span_disjoint [of s' a b] acquire_span [OF assms(1,2,3)] show ?thesis by auto
qed

end

section \<open>The driver's areas are such a pool\<close>

definition allocated :: "'p binder_area_scheme \<Rightarrow> nat set" where
  "allocated p = {b \<in> set (buffers p). \<not> is_free p b}"

definition buffer_span :: "'p binder_area_scheme \<Rightarrow> nat \<Rightarrow> nat set" where
  "buffer_span p b = {b..<buffer_data b + binder_buffer_size p b}"

lemma buffer_spans_disjoint:
  assumes inv: "alloc_inv p" and b: "b \<in> set (buffers p)" and c: "c \<in> set (buffers p)" and ne: "b \<noteq> c"
  shows "buffer_span p b \<inter> buffer_span p c = {}"
proof -
  have g: "area_geometry p" and t: "tiled (buffers p) (area_end p)"
    using inv by (simp_all add: alloc_inv_def area_inv_defs)
  have before: "buffer_data x + binder_buffer_size p x \<le> y" if s: "buffers p = us @ x # vs" and y: "y \<in> set vs" for us x vs y
  proof -
    have "tiled vs (area_end p)" using t s by simp
    from tiled_below [OF this y] y have "hd (vs @ [area_end p]) \<le> y" by (cases vs) auto
    with size_split [OF g s t] show ?thesis by simp
  qed
  from split_list [OF b] obtain us vs where s: "buffers p = us @ b # vs" by blast
  with c ne consider "c \<in> set us" | "c \<in> set vs" by auto
  then show ?thesis
  proof cases
    case 1
    from split_list [OF this] obtain us1 us2 where "us = us1 @ c # us2" by blast
    with s before [of us1 c "us2 @ b # vs" b] show ?thesis by (auto simp: buffer_span_def)
  next
    case 2
    from before [OF s this] show ?thesis by (auto simp: buffer_span_def)
  qed
qed

text \<open>
  The pool of a process: an area together with the kernel it runs on.  A release is that
  of \<open>BC_FREE_BUFFER\<close>, which cuts the link to a transaction before the call.
\<close>

definition area_acquire ::
    "'e page_env_scheme \<times> 'p binder_area_scheme \<Rightarrow> u32 \<times> u32 \<times> bool \<Rightarrow>
     (nat option \<times> 'e page_env_scheme \<times> 'p binder_area_scheme) option" where
  "area_acquire s r =
     map_option (\<lambda>(b, p). (b, fst s, p)) (binder_alloc_buf (fst s) (snd s) (fst r) (fst (snd r)) (snd (snd r)))"

definition area_give_back ::
    "'e page_env_scheme \<times> 'p binder_area_scheme \<Rightarrow> nat \<Rightarrow>
     ('e page_env_scheme \<times> 'p binder_area_scheme) option" where
  "area_give_back s b =
     map_option (Pair (fst s))
       (binder_free_buf (fst s) (buf_upd b (\<lambda>x. x\<lparr>buf_transaction := None\<rparr>) (snd s)) b)"

definition area_pool_inv :: "'e page_env_scheme \<times> 'p binder_area_scheme \<Rightarrow> bool" where
  "area_pool_inv s \<longleftrightarrow> rb_ok (fst s) \<and> alloc_inv (snd s)"

lemma untied:
  fixes p :: "'p binder_area_scheme" and t :: "nat option"
  defines "q \<equiv> \<lambda>b. buf_upd b (\<lambda>x. x\<lparr>buf_transaction := t\<rparr>) p"
  shows "alloc_inv (q b) = alloc_inv p" "allocated (q b) = allocated p"
    "binder_buffer_size (q b) = binder_buffer_size p"
proof -
  have free: "is_free (q b) x = is_free p x" and pay: "payload_size (q b) x = payload_size p x" for x
    by (auto simp: q_def payload_size_def)
  have sz: "binder_buffer_size (q b) = binder_buffer_size p"
    by (rule size_cong) (simp_all add: q_def)
  have charge: "async_charge (q b) = async_charge p"
    by (auto simp: fun_eq_iff async_charge_def q_def payload_size_def)
  have needs: "needs_page (is_free (q b)) = needs_page (is_free p)"
    by (simp add: free)
  have fields: "area (q b) = area p" "area_size (q b) = area_size p" "area_end (q b) = area_end p"
    "buffers (q b) = buffers p" "pages (q b) = pages p" "free_buffers (q b) = free_buffers p"
    "allocated_buffers (q b) = allocated_buffers p" "free_async_space (q b) = free_async_space p"
    "page_at (q b) = page_at p" "page_in_area (q b) = page_in_area p"
    by (simp_all add: q_def)
  note [simp] = fields free sz pay charge needs
  have "area_geometry (q b) = area_geometry p" "layout_ok (q b) = layout_ok p"
    "allocated_tree_ok (q b) = allocated_tree_ok p" "pages_ok (q b) = pages_ok p"
    "async_ok (q b) = async_ok p" "payloads_fit (q b) = payloads_fit p" "coalesced (q b) = coalesced p"
    "\<And>bs. free_tree_ok (q b) bs = free_tree_ok p bs"
    by (simp_all add: area_geometry_def layout_ok_def allocated_tree_ok_def pages_ok_def async_ok_def
        payloads_fit_def coalesced_def free_tree_ok_def)
  moreover have "{x \<in> set (buffers (q b)). is_free (q b) x} = {x \<in> set (buffers p). is_free p x}"
    using free by (auto simp: q_def)
  ultimately show "alloc_inv (q b) = alloc_inv p" by (simp add: alloc_inv_def base_inv_def)
  show "allocated (q b) = allocated p" using free by (auto simp: allocated_def q_def)
  show "binder_buffer_size (q b) = binder_buffer_size p" by (rule sz)
qed

lemma page_ops_inv [simp]:
  "binder_buffer_size (p\<lparr>page_ops := n\<rparr>) = binder_buffer_size p"
  "alloc_inv (p\<lparr>page_ops := n\<rparr>) = alloc_inv p"
  "allocated (p\<lparr>page_ops := n\<rparr>) = allocated p"
  "buffer_span (p\<lparr>page_ops := n\<rparr>) = buffer_span p"
proof -
  show sz: "binder_buffer_size (p\<lparr>page_ops := n\<rparr>) = binder_buffer_size p"
    by (rule size_cong) simp_all
  have pay: "payload_size (p\<lparr>page_ops := n\<rparr>) = payload_size p"
    by (simp add: fun_eq_iff payload_size_def)
  moreover have "async_charge (p\<lparr>page_ops := n\<rparr>) = async_charge p"
    by (simp add: fun_eq_iff async_charge_def payload_size_def)
  ultimately show "alloc_inv (p\<lparr>page_ops := n\<rparr>) = alloc_inv p"
    using sz by (simp add: alloc_inv_def area_inv_defs coalesced_def free_tree_ok_def)
  show "allocated (p\<lparr>page_ops := n\<rparr>) = allocated p" by (simp add: allocated_def)
  show "buffer_span (p\<lparr>page_ops := n\<rparr>) = buffer_span p" by (simp add: fun_eq_iff buffer_span_def sz)
qed

lemma taken_allocated: "taken p p' b dsize osize is_async \<Longrightarrow> allocated p' = insert b (allocated p) \<and> b \<notin> allocated p"
  by (simp add: taken_def allocated_def)

lemma taken_span: "taken p p' b dsize osize is_async \<Longrightarrow> c \<in> allocated p \<Longrightarrow> buffer_span p' c = buffer_span p c"
  by (simp add: taken_def allocated_def buffer_span_def)

lemma released_allocated: "released p p' b \<Longrightarrow> allocated p' = allocated p - {b}"
  by (simp add: released_def allocated_def)

lemma released_span: "released p p' b \<Longrightarrow> c \<in> allocated p' \<Longrightarrow> buffer_span p' c = buffer_span p c"
  using released_allocated [of p p' b] by (auto simp: released_def allocated_def buffer_span_def)

lemma acquire_outcome:
  assumes "area_pool_inv s"
  shows "\<exists>a p'. area_acquire s r = Some (a, fst s, p') \<and> alloc_inv p' \<and>
     allocated p' = allocated (snd s) \<union> set_option a \<and> set_option a \<inter> allocated (snd s) = {} \<and>
     (\<forall>c \<in> allocated (snd s). buffer_span p' c = buffer_span (snd s) c)"
proof -
  from assms have rb: "rb_ok (fst s)" and inv: "alloc_inv (snd s)" by (simp_all add: area_pool_inv_def)
  show ?thesis
  proof (cases rule: binder_alloc_buf_cases [OF rb inv, where dsize = "fst r" and osize = "fst (snd r)" and is_async = "snd (snd r)", case_names null block])
    case (null n)
    with inv show ?thesis by (simp add: area_acquire_def)
  next
    case (block b p')
    with taken_allocated [OF block(3)] taken_span [OF block(3)] show ?thesis by (simp add: area_acquire_def)
  qed
qed

lemma give_back_outcome:
  assumes "area_pool_inv s" and b: "b \<in> allocated (snd s)"
  shows "\<exists>p'. area_give_back s b = Some (fst s, p') \<and> alloc_inv p' \<and>
     allocated p' = allocated (snd s) - {b} \<and> (\<forall>c \<in> allocated p'. buffer_span p' c = buffer_span (snd s) c)"
proof -
  from assms have rb: "rb_ok (fst s)" and inv: "alloc_inv (snd s)" by (simp_all add: area_pool_inv_def)
  define q where "q = buf_upd b (\<lambda>x. x\<lparr>buf_transaction := None\<rparr>) (snd s)"
  have q: "alloc_inv q" "allocated q = allocated (snd s)" "binder_buffer_size q = binder_buffer_size (snd s)"
    "buf_transaction (bufs q b) = None" "b \<in> allocated q"
    using untied [of b None "snd s"] inv b by (simp_all add: q_def)
  from q(5) have "b \<in> set (buffers q)" "\<not> is_free q b" by (simp_all add: allocated_def)
  from binder_free_buf_ok [OF rb q(1) this q(4)] obtain p' where
    p': "binder_free_buf (fst s) q b = Some p'" "alloc_inv p'" "released q p' b" by blast
  from released_allocated [OF p'(3)] released_span [OF p'(3)] q p' show ?thesis
    by (simp add: area_give_back_def q_def [symmetric] buffer_span_def)
qed

interpretation pool: buffer_pool area_pool_inv "\<lambda>s. allocated (snd s)" "\<lambda>s. buffer_span (snd s)"
  area_acquire area_give_back
proof
  fix s :: "'e page_env_scheme \<times> 'p binder_area_scheme" and r
  assume "area_pool_inv s"
  with acquire_outcome [OF this, of r]
  show "\<exists>a s'. area_acquire s r = Some (a, s') \<and> area_pool_inv s' \<and>
      allocated (snd s') = allocated (snd s) \<union> set_option a \<and> set_option a \<inter> allocated (snd s) = {}"
    by (auto simp: area_pool_inv_def)
next
  fix s s' :: "'e page_env_scheme \<times> 'p binder_area_scheme" and r a b
  assume "area_pool_inv s" "area_acquire s r = Some (a, s')" "b \<in> allocated (snd s)"
  with acquire_outcome [of s r] show "buffer_span (snd s') b = buffer_span (snd s) b" by auto
next
  fix s :: "'e page_env_scheme \<times> 'p binder_area_scheme" and b
  assume "area_pool_inv s" "b \<in> allocated (snd s)"
  with give_back_outcome [OF this]
  show "\<exists>s'. area_give_back s b = Some s' \<and> area_pool_inv s' \<and> allocated (snd s') = allocated (snd s) - {b}"
    by (auto simp: area_pool_inv_def)
next
  fix s s' :: "'e page_env_scheme \<times> 'p binder_area_scheme" and b c
  assume "area_pool_inv s" "b \<in> allocated (snd s)" "area_give_back s b = Some s'" "c \<in> allocated (snd s')"
  with give_back_outcome [of s b] show "buffer_span (snd s') c = buffer_span (snd s) c" by auto
next
  fix s :: "'e page_env_scheme \<times> 'p binder_area_scheme" and b c
  assume "area_pool_inv s" "b \<in> allocated (snd s)" "c \<in> allocated (snd s)" "b \<noteq> c"
  then show "buffer_span (snd s) b \<inter> buffer_span (snd s) c = {}"
    by (intro buffer_spans_disjoint) (auto simp: area_pool_inv_def allocated_def)
qed

text \<open>With nothing allocated, the whole area is one free buffer again.\<close>

lemma coalesced_single:
  assumes inv: "alloc_inv p" and e: "allocated p = {}"
  shows "buffers p = [area p]" "binder_buffer_size p (area p) = area_size p - sizeof_binder_buffer"
proof -
  have c: "successively (not_both_free p) (buffers p)" and ne: "buffers p \<noteq> []" "hd (buffers p) = area p"
    and g: "area_geometry p" and t: "tiled (buffers p) (area_end p)"
    using inv by (simp_all add: alloc_inv_def area_inv_defs coalesced_def)
  have f: "\<forall>b \<in> set (buffers p). is_free p b" using e by (auto simp: allocated_def)
  have "tl (buffers p) = []"
    using c f ne(1) by (cases "buffers p" rule: remdups_adj.cases) auto
  with ne show s: "buffers p = [area p]" by (cases "buffers p") auto
  from size_split [OF g, of "[]" "area p" "[]"] t s
  show "binder_buffer_size p (area p) = area_size p - sizeof_binder_buffer"
    by (simp add: area_end_def buffer_data_def)
qed

section \<open>A concrete area\<close>

text \<open>An area of two pages, mapped by a kernel in which every page can be populated.\<close>

definition plain_env :: page_env where
  "plain_env = \<lparr>rb_insert_color = rb_insert_color plain_rb, rb_erase = rb_erase plain_rb,
     task_mm_present = (\<lambda>_. True), page_outcome_of = (\<lambda>_. Page_inserted)\<rparr>"

definition blank_buffer :: binder_buffer where
  "blank_buffer = \<lparr>free = False, allow_user_free = False, async_transaction = False, buf_debug_id = 0,
     buf_transaction = None, buf_target_node = None, data_size = 0, offsets_size = 0,
     payload = (\<lambda>_. 0)\<rparr>"

definition unmapped_area :: binder_area where
  "unmapped_area = \<lparr>vma = False, files = False, area = 0, area_size = 0, user_buffer_offset = 0,
     buffers = [], bufs = (\<lambda>_. blank_buffer), free_buffers = Leaf, allocated_buffers = Leaf,
     free_async_space = 0, pages = [], page_ops = 0\<rparr>"

definition two_page_request :: mmap_request where
  "two_page_request = \<lparr>vm_start = 40960, vm_end = 49152, vm_write = False,
     vm_area_result = Some 524288, page_array_result = True\<rparr>"

lemma rb_ok_plain_env [simp]: "rb_ok plain_env"
  by (simp add: rb_ok_def plain_env_def plain_rb_def inorder_tree_drop)

lemma two_page_request_ok: "mmap_request_ok two_page_request" "unmapped unmapped_area"
  by (simp_all add: mmap_request_ok_def two_page_request_def unmapped_def unmapped_area_def)

definition two_page_area :: binder_area where
  "two_page_area = unmapped_area\<lparr>vma := True, files := True, area := 524288, area_size := 8192,
     user_buffer_offset := sub32 40960 524288, buffers := [524288],
     bufs := (\<lambda>_. blank_buffer)(524288 := blank_buffer\<lparr>free := True\<rparr>),
     free_buffers := Node Leaf 524288 Leaf, free_async_space := 4096, pages := [True, False], page_ops := 1\<rparr>"

lemma unmapped_area_fields [simp]:
  "vma unmapped_area = False" "area unmapped_area = 0" "area_size unmapped_area = 0"
  "buffers unmapped_area = []" "bufs unmapped_area = (\<lambda>_. blank_buffer)"
  "free_buffers unmapped_area = Leaf" "allocated_buffers unmapped_area = Leaf"
  "free_async_space unmapped_area = 0" "pages unmapped_area = []" "page_ops unmapped_area = 0"
  by (simp_all add: unmapped_area_def)

lemma plain_env_fields [simp]:
  "rb_insert_color plain_env x t = t" "rb_erase plain_env = tree_drop"
  "task_mm_present plain_env n" "page_outcome_of plain_env n = Page_inserted"
  by (simp_all add: plain_env_def plain_rb_def)

lemma two_page_mmap: "binder_mmap plain_env unmapped_area two_page_request = Some (0, two_page_area)"
  by (simp add: two_page_request_def two_page_area_def binder_mmap_def binder_update_page_range_def
      allocate_range.simps put_page_def page_index_def buf_upd_def binder_insert_free_buffer_def Let_def)
     (simp add: unmapped_area_def numeral_2_eq_2)

lemma two_page_inv: "alloc_inv two_page_area" "vma two_page_area"
proof -
  have "alloc_inv two_page_area \<and> vma two_page_area"
    by (rule binder_mmap_outcome [OF rb_ok_plain_env two_page_request_ok(2,1)]) (simp_all add: two_page_mmap)
  then show "alloc_inv two_page_area" "vma two_page_area" by simp_all
qed

lemma two_page_fields [simp]:
  "vma two_page_area" "area two_page_area = 524288" "area_size two_page_area = 8192"
  "buffers two_page_area = [524288]" "bufs two_page_area = (\<lambda>_. blank_buffer)(524288 := blank_buffer\<lparr>free := True\<rparr>)"
  "free_buffers two_page_area = Node Leaf 524288 Leaf" "allocated_buffers two_page_area = Leaf"
  "free_async_space two_page_area = 4096" "pages two_page_area = [True, False]" "page_ops two_page_area = 1"
  by (simp_all add: two_page_area_def)

lemma blank_buffer_fields [simp]:
  "free blank_buffer = False" "buf_transaction blank_buffer = None" "data_size blank_buffer = 0"
  "offsets_size blank_buffer = 0" "async_transaction blank_buffer = False"
  by (simp_all add: blank_buffer_def)

text \<open>A buffer taken from it, with 16 bytes of data and 4 bytes of offsets.\<close>

definition one_buffer_area :: binder_area where
  "one_buffer_area = two_page_area
     \<lparr>free_buffers := Node Leaf 524348 Leaf, allocated_buffers := Node Leaf 524288 Leaf,
      buffers := [524288, 524348],
      bufs := (\<lambda>_. blank_buffer)(524288 := blank_buffer\<lparr>data_size := 16, offsets_size := 4\<rparr>,
         524348 := blank_buffer\<lparr>free := True\<rparr>)\<rparr>"

lemma two_page_alloc:
  "binder_alloc_buf plain_env two_page_area 16 4 False = Some (Some 524288, one_buffer_area)"
  by (simp add: binder_alloc_buf_def binder_update_page_range_def allocate_range.simps Let_def align_ptr_def
      binder_buffer_size_def buffer_data_def fit_size_def page_mask_def page_align_def)
     (simp add: alloc_link_def alloc_store_def buf_upd_def binder_insert_allocated_buffer_def
      binder_insert_free_buffer_def Let_def buffer_data_def one_buffer_area_def two_page_area_def
      unmapped_area_def blank_buffer_def fun_eq_iff)

lemma one_buffer_inv: "alloc_inv one_buffer_area" "allocated one_buffer_area = {524288}"
proof -
  have "alloc_inv one_buffer_area \<and> allocated one_buffer_area = {524288}"
  proof (cases rule: binder_alloc_buf_cases [OF rb_ok_plain_env two_page_inv(1), where dsize = 16 and osize = 4
        and is_async = False, case_names null block])
    case (block b p')
    then have "b = 524288" "p' = one_buffer_area" by (simp_all add: two_page_alloc)
    with block taken_allocated [OF block(3)] show ?thesis by (simp add: allocated_def)
  qed (simp add: two_page_alloc)
  then show "alloc_inv one_buffer_area" "allocated one_buffer_area = {524288}" by simp_all
qed

section \<open>Properties\<close>

lemma allocate_range_succeeds:
  "(\<And>n. page_outcome_of env n = Page_inserted) \<Longrightarrow> allocate_range env p a s e = Some (r, p') \<Longrightarrow> r = 0"
proof (induction env p a s e rule: allocate_range.induct)
  case (1 env p a s e)
  then show ?case
    by (subst (asm) (2) allocate_range.simps) (auto simp: Let_def split: if_splits Option.bind_splits)
qed

lemma update_range_succeeds:
  assumes "\<And>n. page_outcome_of env n = Page_inserted" "\<And>n. task_mm_present env n" "vma p"
    and "binder_update_page_range env p True s e va = Some (r, p')"
  shows "r = 0"
  using assms allocate_range_succeeds [OF assms(1)]
  by (auto simp: binder_update_page_range_def Let_def split: if_splits)

text \<open>C1: On an area in a valid state, binder_alloc_buf never stops the machine, whatever
  the page allocator answers.  It either returns NULL and has changed nothing but the
  count of page operations, or it hands out a smallest free buffer that holds the payload,
  and the area is again in a valid state.\<close>

theorem alloc_keeps_area_valid:
  assumes "rb_ok env" "alloc_inv p"
  shows "\<exists>r p'. binder_alloc_buf env p dsize osize is_async = Some (r, p') \<and> alloc_inv p' \<and>
    (case r of None \<Rightarrow> p' = p\<lparr>page_ops := page_ops p'\<rparr> | Some b \<Rightarrow> taken p p' b dsize osize is_async)"
proof (cases rule: binder_alloc_buf_cases [OF assms, where dsize = dsize and osize = osize
      and is_async = is_async, case_names null block])
  case (null n)
  with assms show ?thesis by simp
next
  case (block b p')
  then show ?thesis by simp
qed

theorem alloc_keeps_area_valid_witness:
  "(\<exists>r p'. binder_alloc_buf plain_env two_page_area 100 8 True = Some (r, p') \<and> alloc_inv p' \<and>
    (case r of None \<Rightarrow> p' = two_page_area\<lparr>page_ops := page_ops p'\<rparr>
     | Some b \<Rightarrow> taken two_page_area p' b 100 8 True))"
  by (rule alloc_keeps_area_valid [OF rb_ok_plain_env two_page_inv(1)])

text \<open>C6: An allocation succeeds whenever it can: the area is mapped, the sizes do not
  overflow, an asynchronous request stays in its budget, some free buffer is large enough
  and the kernel populates every page.\<close>

theorem alloc_succeeds_if_space:
  assumes env: "rb_ok env" "\<And>n. page_outcome_of env n = Page_inserted" "\<And>n. task_mm_present env n"
    and inv: "alloc_inv p" and vma: "vma p"
    and size: "w = align_ptr dsize + align_ptr osize" "dsize \<le> w" "osize \<le> w"
    and async: "is_async \<Longrightarrow> w + 40 \<le> free_async_space p"
    and c: "c \<in> set (buffers p)" "is_free p c" "unat w \<le> binder_buffer_size p c"
  shows "\<exists>b p'. binder_alloc_buf env p dsize osize is_async = Some (Some b, p')"
proof -
  have ft: "free_tree_ok p {x \<in> set (buffers p). is_free p x}" using inv by (simp add: alloc_inv_def)
  obtain b n where some: "best_fit_search p (unat w) (free_buffers p) None = Some (Some b, n)"
    by (rule best_fit_cases [OF ft, of "unat w"]) (use c in \<open>auto dest: leD\<close>)
  have no: "\<not> (w < dsize \<or> w < osize)" "\<not> (is_async \<and> free_async_space p < w + 40)"
    using size(2,3) async by auto
  obtain r p' where run: "binder_alloc_buf env p dsize osize is_async = Some (r, p')"
    by (rule binder_alloc_buf_cases [OF env(1) inv, of dsize osize is_async]) (use that in auto)
  from run vma no some obtain s e r1 p1 where
    up: "binder_update_page_range env p True s e False = Some (r1, p1)" and
    res: "r1 = 0 \<Longrightarrow> r = Some b"
    unfolding binder_alloc_buf_def size(1) [symmetric] Let_def
    by (auto split: Option.bind_splits if_splits)
  from update_range_succeeds [OF env(2,3) vma up] res run show ?thesis by simp
qed

theorem alloc_succeeds_if_space_witness:
  "\<exists>b p'. binder_alloc_buf plain_env two_page_area 4000 8 False = Some (Some b, p')"
  by (rule alloc_succeeds_if_space [where c = 524288 and w = 4008])
     (simp_all add: two_page_inv align_ptr_def binder_buffer_size_def buffer_data_def)

text \<open>C5: The size check of binder_alloc_buf catches every overflow: the buffer handed out
  is at least as large as the two sizes, each rounded up to words, as unbounded numbers.\<close>

theorem alloc_size_never_wraps:
  assumes "rb_ok env" "alloc_inv p"
    and "binder_alloc_buf env p dsize osize is_async = Some (Some b, p')"
  shows "unat (payload_size p' b) = round4 (unat dsize) + round4 (unat osize) \<and>
     round4 (unat dsize) + round4 (unat osize) \<le> binder_buffer_size p' b"
proof -
  let ?w = "align_ptr dsize + align_ptr osize"
  have inv': "alloc_inv p'" and tk: "taken p p' b dsize osize is_async"
    using binder_alloc_buf_cases [OF assms(1,2), of dsize osize is_async] assms(3) by (metis Pair_inject option.distinct(1) option.inject)+
  have "\<not> (?w < dsize \<or> ?w < osize)"
    using assms(3) by (auto simp: binder_alloc_buf_def Let_def split: if_splits)
  from size_no_wrap [OF this] have w: "unat (payload_size p' b) = round4 (unat dsize) + round4 (unat osize)"
    using tk by (simp add: payload_size_def taken_def)
  moreover have "unat (payload_size p' b) \<le> binder_buffer_size p' b"
    using inv' tk by (simp add: alloc_inv_def base_inv_def payloads_fit_def taken_def)
  ultimately show ?thesis by simp
qed

theorem alloc_size_never_wraps_witness:
  "unat (payload_size one_buffer_area 524288) = round4 (unat (16 :: u32)) + round4 (unat (4 :: u32)) \<and>
     round4 (unat (16 :: u32)) + round4 (unat (4 :: u32)) \<le> binder_buffer_size one_buffer_area 524288"
  by (rule alloc_size_never_wraps [OF rb_ok_plain_env two_page_inv(1) two_page_alloc])

text \<open>C2: binder_free_buf of an allocated buffer that no transaction holds never stops the
  machine, merges the buffer with its free neighbours so that the area is again in a valid
  state, gives an asynchronous buffer's charge back, and moves or changes no other
  allocated buffer.\<close>

theorem free_keeps_area_valid:
  assumes "rb_ok env" "alloc_inv p" "b \<in> allocated p" "buf_transaction (bufs p b) = None"
  shows "\<exists>p'. binder_free_buf env p b = Some p' \<and> alloc_inv p' \<and> released p p' b"
proof -
  from assms(3) have "b \<in> set (buffers p)" "\<not> is_free p b" by (simp_all add: allocated_def)
  from binder_free_buf_ok [OF assms(1,2) this assms(4)] show ?thesis by blast
qed

theorem free_keeps_area_valid_witness:
  "\<exists>p'. binder_free_buf plain_env one_buffer_area 524288 = Some p' \<and> alloc_inv p' \<and> released one_buffer_area p' 524288"
  by (rule free_keeps_area_valid [OF rb_ok_plain_env one_buffer_inv(1)])
     (simp add: one_buffer_inv(2), simp add: one_buffer_area_def)

text \<open>C3: From a mapped area, any sequence of allocations and releases of buffers in use
  runs to its end, and releasing all that is then in use, in any order, leaves one free
  buffer that spans the whole area: nothing leaks and nothing stays fragmented.\<close>

theorem area_never_leaks:
  assumes "rb_ok env" "alloc_inv p"
  shows "\<exists>p1. pool_run area_acquire area_give_back (\<lambda>s. allocated (snd s)) (env, p) ops = Some (env, p1) \<and>
     (\<forall>bs. distinct bs \<and> set bs = allocated p1 \<longrightarrow>
       (\<exists>p2. pool_run area_acquire area_give_back (\<lambda>s. allocated (snd s)) (env, p1) (map Give_back bs) = Some (env, p2) \<and>
          buffers p2 = [area p2] \<and> binder_buffer_size p2 (area p2) = area_size p2 - sizeof_binder_buffer))"
proof -
  let ?run = "pool_run area_acquire area_give_back (\<lambda>s. allocated (snd s))"
  have inv: "area_pool_inv (env, p)" using assms by (simp add: area_pool_inv_def)
  have keep: "fst s' = fst s" if "?run s ops = Some s'"
    for ops and s s' :: "'a page_env_scheme \<times> 'b binder_area_scheme"
    using that
  proof (induction ops arbitrary: s)
    case (Cons op ops)
    then show ?case
      by (cases op) (auto simp: area_acquire_def area_give_back_def split: Option.bind_splits if_splits)
  qed simp
  from pool.run_defined [OF inv, of ops] obtain s1 where
    "?run (env, p) ops = Some s1" "area_pool_inv s1" by blast
  with keep [of "(env, p)" ops s1] obtain p1 where
    p1: "?run (env, p) ops = Some (env, p1)" "area_pool_inv (env, p1)" by (cases s1) simp
  have "\<exists>p2. ?run (env, p1) (map Give_back bs) = Some (env, p2) \<and>
      buffers p2 = [area p2] \<and> binder_buffer_size p2 (area p2) = area_size p2 - sizeof_binder_buffer"
    if bs: "set bs = allocated (snd (env, p1))" "distinct bs" for bs
  proof -
    from pool.run_drain [OF p1(2) bs] obtain s2 where
      s2: "?run (env, p1) (map Give_back bs) = Some s2" "area_pool_inv s2" "allocated (snd s2) = {}" by blast
    with keep [OF s2(1)] coalesced_single [of "snd s2"] show ?thesis
      by (cases s2) (auto simp: area_pool_inv_def)
  qed
  with p1(1) show ?thesis by auto
qed

theorem area_never_leaks_witness:
  "\<exists>p1. pool_run area_acquire area_give_back (\<lambda>s. allocated (snd s)) (plain_env, two_page_area)
       [Acquire (16, 4, False), Acquire (2000, 0, True), Give_back 524288] = Some (plain_env, p1) \<and>
     (\<forall>bs. distinct bs \<and> set bs = allocated p1 \<longrightarrow>
       (\<exists>p2. pool_run area_acquire area_give_back (\<lambda>s. allocated (snd s)) (plain_env, p1) (map Give_back bs) = Some (plain_env, p2) \<and>
          buffers p2 = [area p2] \<and> binder_buffer_size p2 (area p2) = area_size p2 - sizeof_binder_buffer))"
  by (rule area_never_leaks [OF rb_ok_plain_env two_page_inv(1)])

text \<open>C4: What a process sees of its buffers is safe in every valid state: two allocated
  buffers share no byte, each lies inside the area, and every page under it is present.\<close>

theorem allocated_buffers_safe:
  assumes inv: "alloc_inv p" and b: "b \<in> allocated p"
  shows "buffer_span p b \<subseteq> {area p..<area_end p} \<and>
    (\<forall>c \<in> allocated p - {b}. buffer_span p b \<inter> buffer_span p c = {}) \<and>
    (\<forall>x \<in> buffer_span p b. page_at p (pg x))"
proof -
  from b have bin: "b \<in> set (buffers p)" and nb: "\<not> is_free p b" by (simp_all add: allocated_def)
  have g: "area_geometry p" and t: "tiled (buffers p) (area_end p)" and lay: "layout_ok p"
    using inv by (simp_all add: alloc_inv_def area_inv_defs)
  from split_list [OF bin] obtain pre post where s: "buffers p = pre @ b # post" by blast
  define c where "c = hd (post @ [area_end p])"
  have span: "buffer_span p b = {b..<c}" and le: "b + 40 \<le> c"
    using size_split [OF g s t] by (simp_all add: buffer_span_def buffer_data_def c_def)
  have "tiled post (area_end p)" using t s by simp
  then have ce: "c \<le> area_end p" by (simp add: c_def tiled_hd_le)
  have ab: "area p \<le> b" by (rule size_bound(2) [OF g lay bin])
  have "page_at p (pg x)" if x: "x \<in> {b..<c}" for x
  proof -
    have "needs_page (is_free p) (buffers p) (area_end p) (pg x)"
      using x nb unfolding s by (auto simp: c_def [symmetric] intro!: pg_mono)
    moreover have "page_in_area p (pg x)"
    proof -
      have "area_end p mod PAGE_SIZE = 0" by (rule geometry_end_mod [OF g])
      then have "pg x < pg (area_end p)"
        using x ce by (auto simp: pg_def div_less_iff_less_mult elim!: dvdE simp: mod_eq_0_iff_dvd)
      moreover have "pg (area p) \<le> pg x" using x ab by (intro pg_mono) simp
      ultimately show ?thesis by (simp add: page_in_area_def)
    qed
    ultimately show ?thesis using inv by (simp add: alloc_inv_def area_inv_defs)
  qed
  moreover have "buffer_span p b \<inter> buffer_span p x = {}" if "x \<in> allocated p - {b}" for x
    using that bin inv by (intro buffer_spans_disjoint) (auto simp: allocated_def)
  ultimately show ?thesis using span ab ce by auto
qed

theorem allocated_buffers_safe_witness:
  "buffer_span one_buffer_area 524288 \<subseteq> {area one_buffer_area..<area_end one_buffer_area} \<and>
    page_at one_buffer_area (pg 524288)"
proof -
  have b: "524288 \<in> allocated one_buffer_area" by (simp add: one_buffer_inv(2))
  have "524288 \<in> buffer_span one_buffer_area 524288" by (simp add: buffer_span_def buffer_data_def)
  with allocated_buffers_safe [OF one_buffer_inv(1) b] show ?thesis by blast
qed

text \<open>The function binder_buffer_lookup, which BC_FREE_BUFFER trusts, returns exactly the allocated
  buffer whose data starts at the address the process passes, and NULL for every other
  address, free buffers and the inside of buffers included.\<close>

theorem buffer_lookup_exact:
  assumes inv: "alloc_inv p" and u: "u < addr_bound" "user_buffer_offset p < addr_bound"
  shows "\<exists>r. binder_buffer_lookup p u = Some r \<and>
     (\<forall>b. r = Some b \<longleftrightarrow> b \<in> allocated p \<and> u = (buffer_data b + user_buffer_offset p) mod addr_bound)"
proof -
  have tree: "keyed (\<lambda>b. b) (inorder (allocated_buffers p))"
    "set (inorder (allocated_buffers p)) = allocated p"
    using inv by (simp_all add: alloc_inv_def base_inv_def allocated_tree_ok_def allocated_def)
  have below: "b < addr_bound" if "b \<in> allocated p" for b
    using that inv size_bound(3) [of p b] by (auto simp: allocated_def alloc_inv_def base_inv_def area_geometry_def)
  define k where "k = sub32 (sub32 u (user_buffer_offset p)) sizeof_binder_buffer"
  have "binder_buffer_lookup p u = Some (rb_search (\<lambda>b. b) k (allocated_buffers p))"
    unfolding binder_buffer_lookup_def k_def
    using tree(2) by (intro search_allocated_buffer_eq) (auto simp: allocated_def)
  moreover have "rb_search (\<lambda>b. b) k (allocated_buffers p) = Some b \<longleftrightarrow>
      b \<in> allocated p \<and> u = (buffer_data b + user_buffer_offset p) mod addr_bound" for b
    using rb_search_Some [OF tree(1), of k b] tree(2) sub32_sub32_iff [OF u(1) below u(2), of b]
    by (auto simp: k_def buffer_data_def)
  ultimately show ?thesis by blast
qed

theorem buffer_lookup_exact_witness:
  "\<exists>r. binder_buffer_lookup one_buffer_area 41000 = Some r \<and>
     (\<forall>b. r = Some b \<longleftrightarrow> b \<in> allocated one_buffer_area \<and>
        41000 = (buffer_data b + user_buffer_offset one_buffer_area) mod addr_bound)"
  by (rule buffer_lookup_exact [OF one_buffer_inv(1)])
     (simp_all add: one_buffer_area_def two_page_area_def sub32_less)

text \<open>C7: binder_mmap of an unmapped process either refuses, and leaves it unmapped, or
  returns 0 with an area in a valid state that is one free buffer; it never stops the
  machine, also when the first page cannot be populated.\<close>

theorem mmap_establishes_area:
  assumes "rb_ok env" "unmapped p" "mmap_request_ok req"
  shows "\<exists>ret p'. binder_mmap env p req = Some (ret, p') \<and>
     (if ret = 0 then alloc_inv p' \<and> vma p' \<and> buffers p' = [area p'] \<and> is_free p' (area p') \<and>
        area_size p' = min (vm_end req - vm_start req) SZ_4M
      else ret < 0 \<and> unmapped p')"
proof (cases rule: binder_mmap_outcome [OF assms, case_names refused mapped])
  case (refused e p')
  then show ?thesis by auto
next
  case (mapped p')
  then show ?thesis by auto
qed

theorem mmap_establishes_area_witness:
  "\<exists>ret p'. binder_mmap plain_env unmapped_area two_page_request = Some (ret, p') \<and>
     (if ret = 0 then alloc_inv p' \<and> vma p' \<and> buffers p' = [area p'] \<and> is_free p' (area p') \<and>
        area_size p' = min (vm_end two_page_request - vm_start two_page_request) SZ_4M
      else ret < 0 \<and> unmapped p')"
  by (rule mmap_establishes_area [OF rb_ok_plain_env two_page_request_ok(2,1)])

end
