(* ===== verification/BinderState.thy ===== *)
theory BinderState
  imports AllocSpec
begin

text \<open>
  The state of the binder driver (driver/binder/binder.c and binder.h): processes, threads,
  nodes, references, death notifications and transactions, each a record named after its
  struct, kept in a map from kernel addresses; the \<open>todo\<close> lists; and the kernel
  around it.

  An address that is in no map has been freed or never allocated; an operation that
  follows it stops the machine (None).  \<open>list_head\<close>s are the heads of the lists of
  embedded \<open>struct binder_work\<close>s: \<open>lists\<close> gives their elements in order, and
  \<open>linked\<close> the list a work is in, so that \<open>list_empty(&w->entry)\<close> is
  \<open>linked w = None\<close>; \<open>list_add_tail\<close> of a work that is already in a list
  corrupts both lists and stops the machine.

  Not modelled: debug output, the per-command statistics counters and
  \<open>binder_stop_on_user_error\<close>, which is 0 unless root sets it.
\<close>

section \<open>Constants of binder.h\<close>

definition IOC :: "u32 \<Rightarrow> u32 \<Rightarrow> u32 \<Rightarrow> u32 \<Rightarrow> u32" where
  "IOC dir ty nr sz = (push_bit 30 dir) OR (push_bit 16 sz) OR (push_bit 8 ty) OR nr"

definition BR_ERROR :: u32 where "BR_ERROR = IOC 2 114 0 4"
definition BR_OK :: u32 where "BR_OK = IOC 0 114 1 0"
definition BR_TRANSACTION :: u32 where "BR_TRANSACTION = IOC 2 114 2 40"
definition BR_REPLY :: u32 where "BR_REPLY = IOC 2 114 3 40"
definition BR_DEAD_REPLY :: u32 where "BR_DEAD_REPLY = IOC 0 114 5 0"
definition BR_TRANSACTION_COMPLETE :: u32 where "BR_TRANSACTION_COMPLETE = IOC 0 114 6 0"
definition BR_INCREFS :: u32 where "BR_INCREFS = IOC 2 114 7 8"
definition BR_ACQUIRE :: u32 where "BR_ACQUIRE = IOC 2 114 8 8"
definition BR_RELEASE :: u32 where "BR_RELEASE = IOC 2 114 9 8"
definition BR_DECREFS :: u32 where "BR_DECREFS = IOC 2 114 10 8"
definition BR_NOOP :: u32 where "BR_NOOP = IOC 0 114 12 0"
definition BR_SPAWN_LOOPER :: u32 where "BR_SPAWN_LOOPER = IOC 0 114 13 0"
definition BR_DEAD_BINDER :: u32 where "BR_DEAD_BINDER = IOC 2 114 15 4"
definition BR_CLEAR_DEATH_NOTIFICATION_DONE :: u32 where
  "BR_CLEAR_DEATH_NOTIFICATION_DONE = IOC 2 114 16 4"
definition BR_FAILED_REPLY :: u32 where "BR_FAILED_REPLY = IOC 0 114 17 0"

definition BC_TRANSACTION :: u32 where "BC_TRANSACTION = IOC 1 99 0 40"
definition BC_REPLY :: u32 where "BC_REPLY = IOC 1 99 1 40"
definition BC_ACQUIRE_RESULT :: u32 where "BC_ACQUIRE_RESULT = IOC 1 99 2 4"
definition BC_FREE_BUFFER :: u32 where "BC_FREE_BUFFER = IOC 1 99 3 4"
definition BC_INCREFS :: u32 where "BC_INCREFS = IOC 1 99 4 4"
definition BC_ACQUIRE :: u32 where "BC_ACQUIRE = IOC 1 99 5 4"
definition BC_RELEASE :: u32 where "BC_RELEASE = IOC 1 99 6 4"
definition BC_DECREFS :: u32 where "BC_DECREFS = IOC 1 99 7 4"
definition BC_INCREFS_DONE :: u32 where "BC_INCREFS_DONE = IOC 1 99 8 8"
definition BC_ACQUIRE_DONE :: u32 where "BC_ACQUIRE_DONE = IOC 1 99 9 8"
definition BC_ATTEMPT_ACQUIRE :: u32 where "BC_ATTEMPT_ACQUIRE = IOC 1 99 10 8"
definition BC_REGISTER_LOOPER :: u32 where "BC_REGISTER_LOOPER = IOC 0 99 11 0"
definition BC_ENTER_LOOPER :: u32 where "BC_ENTER_LOOPER = IOC 0 99 12 0"
definition BC_EXIT_LOOPER :: u32 where "BC_EXIT_LOOPER = IOC 0 99 13 0"
definition BC_REQUEST_DEATH_NOTIFICATION :: u32 where
  "BC_REQUEST_DEATH_NOTIFICATION = IOC 1 99 14 8"
definition BC_CLEAR_DEATH_NOTIFICATION :: u32 where
  "BC_CLEAR_DEATH_NOTIFICATION = IOC 1 99 15 8"
definition BC_DEAD_BINDER_DONE :: u32 where "BC_DEAD_BINDER_DONE = IOC 1 99 16 4"

definition TF_ONE_WAY :: u32 where "TF_ONE_WAY = 1"
definition TF_ACCEPT_FDS :: u32 where "TF_ACCEPT_FDS = 16"

definition B_PACK_CHARS :: "u32 \<Rightarrow> u32 \<Rightarrow> u32 \<Rightarrow> u32 \<Rightarrow> u32" where
  "B_PACK_CHARS c1 c2 c3 c4 = (push_bit 24 c1) OR (push_bit 16 c2) OR (push_bit 8 c3) OR c4"

definition BINDER_TYPE_BINDER :: u32 where "BINDER_TYPE_BINDER = B_PACK_CHARS 115 98 42 133"
definition BINDER_TYPE_WEAK_BINDER :: u32 where "BINDER_TYPE_WEAK_BINDER = B_PACK_CHARS 119 98 42 133"
definition BINDER_TYPE_HANDLE :: u32 where "BINDER_TYPE_HANDLE = B_PACK_CHARS 115 104 42 133"
definition BINDER_TYPE_WEAK_HANDLE :: u32 where "BINDER_TYPE_WEAK_HANDLE = B_PACK_CHARS 119 104 42 133"
definition BINDER_TYPE_FD :: u32 where "BINDER_TYPE_FD = B_PACK_CHARS 102 100 42 133"

lemmas object_types =
  BINDER_TYPE_BINDER_def BINDER_TYPE_WEAK_BINDER_def BINDER_TYPE_HANDLE_def
  BINDER_TYPE_WEAK_HANDLE_def BINDER_TYPE_FD_def B_PACK_CHARS_def

lemmas br_codes =
  BR_ERROR_def BR_OK_def BR_TRANSACTION_def BR_REPLY_def BR_DEAD_REPLY_def
  BR_TRANSACTION_COMPLETE_def BR_INCREFS_def BR_ACQUIRE_def BR_RELEASE_def BR_DECREFS_def
  BR_NOOP_def BR_SPAWN_LOOPER_def BR_DEAD_BINDER_def BR_CLEAR_DEATH_NOTIFICATION_DONE_def
  BR_FAILED_REPLY_def IOC_def

lemmas bc_codes =
  BC_TRANSACTION_def BC_REPLY_def BC_ACQUIRE_RESULT_def BC_FREE_BUFFER_def BC_INCREFS_def
  BC_ACQUIRE_def BC_RELEASE_def BC_DECREFS_def BC_INCREFS_DONE_def BC_ACQUIRE_DONE_def
  BC_ATTEMPT_ACQUIRE_def BC_REGISTER_LOOPER_def BC_ENTER_LOOPER_def BC_EXIT_LOOPER_def
  BC_REQUEST_DEATH_NOTIFICATION_def BC_CLEAR_DEATH_NOTIFICATION_def BC_DEAD_BINDER_DONE_def IOC_def

lemma error_codes_not_ok [simp]:
  "BR_DEAD_REPLY \<noteq> BR_OK" "BR_FAILED_REPLY \<noteq> BR_OK" "BR_TRANSACTION_COMPLETE \<noteq> BR_OK" "BR_ERROR \<noteq> BR_OK"
  by (simp_all add: br_codes)

section \<open>Objects\<close>

text \<open>
  The counts of nodes and references are C \<open>int\<close>s that the driver only adds 1 to, takes 1
  from and compares with 0 and 1: the word of their 32 bits, in which the counts wrap around
  (the kernel is compiled so that signed arithmetic does) and -1 + 1 is 0.
\<close>

type_synonym c_int = "32 word"

record binder_node =
  node_debug_id :: nat
  node_proc :: "nat option"
  node_refs :: "nat list"
  internal_strong_refs :: c_int
  local_weak_refs :: c_int
  local_strong_refs :: c_int
  node_ptr :: u32
  node_cookie :: u32
  has_strong_ref :: bool
  pending_strong_ref :: bool
  has_weak_ref :: bool
  pending_weak_ref :: bool
  has_async_transaction :: bool
  accept_fds :: bool
  min_priority :: nat

text \<open>The type of a death notification's work; 0 after \<open>kzalloc\<close>.\<close>

datatype death_work =
  No_work | Dead_binder | Dead_binder_and_clear | Clear_death_notification

record binder_ref_death =
  death_type :: death_work
  death_cookie :: u32

record binder_ref =
  ref_debug_id :: nat
  ref_proc :: nat
  ref_node :: nat
  desc :: u32
  strong :: c_int
  weak :: c_int
  death :: "nat option"

record binder_thread =
  thread_proc :: nat
  thread_pid :: nat
  looper :: u32
  transaction_stack :: "nat option"
  return_error :: u32
  return_error2 :: u32

abbreviation LOOPER_REGISTERED :: u32 where "LOOPER_REGISTERED \<equiv> 1"
abbreviation LOOPER_ENTERED :: u32 where "LOOPER_ENTERED \<equiv> 2"
abbreviation LOOPER_EXITED :: u32 where "LOOPER_EXITED \<equiv> 4"
abbreviation LOOPER_INVALID :: u32 where "LOOPER_INVALID \<equiv> 8"
abbreviation LOOPER_WAITING :: u32 where "LOOPER_WAITING \<equiv> 16"
abbreviation LOOPER_NEED_RETURN :: u32 where "LOOPER_NEED_RETURN \<equiv> 32"

text \<open>
  \<open>txn_buffer\<close> is the kernel address of a buffer, as the process whose area holds it and
  the address there.
\<close>

record binder_transaction =
  txn_debug_id :: nat
  txn_from :: "nat option"
  from_parent :: "nat option"
  to_proc :: "nat option"
  to_thread :: "nat option"
  to_parent :: "nat option"
  need_reply :: bool
  txn_buffer :: "(nat \<times> nat) option"
  txn_code :: u32
  txn_flags :: u32
  priority :: int
  saved_priority :: int
  sender_euid :: u32

text \<open>The part of \<open>struct files_struct\<close> the driver works on; \<open>open_fds\<close> has \<open>max_fds\<close> bits.\<close>

record files_struct =
  open_fds :: "bool list"
  close_on_exec :: "bool list"
  fd_file :: "nat option list"
  next_fd :: nat

record binder_proc = binder_area +
  threads_root :: "nat tree"
  nodes_root :: "nat tree"
  refs_by_desc :: "nat tree"
  refs_by_node :: "nat tree"
  proc_pid :: nat
  tsk :: nat
  deferred_work :: u32
  proc_files :: files_struct
  max_threads :: int
  requested_threads :: int
  requested_threads_started :: int
  ready_threads :: int
  default_priority :: int

datatype list_head =
  Proc_todo nat | Thread_todo nat | Async_todo nat | Delivered_death nat

datatype work =
  Transaction_work nat | Complete_work nat | Node_work nat | Death_work nat

datatype wait_queue = Proc_wait nat | Thread_wait nat

datatype stat_type =
  Stat_proc | Stat_thread | Stat_node | Stat_ref | Stat_death | Stat_transaction | Stat_transaction_complete

record log_entry =
  log_debug_id :: nat
  call_type :: nat
  log_from_proc :: nat
  log_from_thread :: nat
  target_handle :: u32
  log_to_proc :: nat
  log_to_thread :: nat
  log_to_node :: nat
  log_data_size :: u32
  log_offsets_size :: u32

record txn_log =
  log_next :: nat
  log_full :: bool
  log_entries :: "log_entry list"

section \<open>The driver and the kernel around it\<close>

record driver =
  proc_at :: "nat \<Rightarrow> binder_proc option"
  thread_at :: "nat \<Rightarrow> binder_thread option"
  node_at :: "nat \<Rightarrow> binder_node option"
  ref_at :: "nat \<Rightarrow> binder_ref option"
  death_at :: "nat \<Rightarrow> binder_ref_death option"
  txn_at :: "nat \<Rightarrow> binder_transaction option"
  lists :: "list_head \<Rightarrow> work list"
  linked :: "work \<Rightarrow> list_head option"
  binder_procs :: "nat list"
  binder_dead_nodes :: "nat list"
  binder_deferred_list :: "nat list"
  context_mgr_node :: "nat option"
  context_mgr_uid :: "u32 option"
  last_id :: nat
  obj_created :: "stat_type \<Rightarrow> nat"
  obj_deleted :: "stat_type \<Rightarrow> nat"
  transaction_log :: txn_log
  transaction_log_failed :: txn_log
  woken :: "wait_queue list"
  nice :: "nat \<Rightarrow> int"
  user_mem :: memory
  mem_ops :: nat

text \<open>
  What the driver asks the kernel: \<open>kzalloc_at\<close> answers the \<open>n\<close>-th allocation,
  \<open>user_ok\<close> tells which user addresses can be accessed, the others are the functions of
  the same name in the kernel, and \<open>stack_garbage\<close> is what an uninitialised local
  variable holds.  The caller is \<open>current\<close>.
\<close>

record kenv = page_env +
  kzalloc_at :: "nat \<Rightarrow> nat option"
  user_ok :: "nat \<Rightarrow> bool"
  fget_file :: "u32 \<Rightarrow> nat option"
  can_nice :: "int \<Rightarrow> bool"
  rlimit_nice :: int
  rlimit_nofile :: nat
  expand_files :: "files_struct \<Rightarrow> nat \<Rightarrow> int \<times> files_struct"
  filp_close_result :: "nat \<Rightarrow> int"
  tgid_nr :: "nat \<Rightarrow> u32"
  euid_of :: "nat \<Rightarrow> u32"
  stack_garbage :: u32

record task =
  cur_task :: nat
  cur_pid :: nat
  cur_tgid :: nat
  cur_euid :: u32

section \<open>Access to objects\<close>

definition upd_proc :: "nat \<Rightarrow> (binder_proc \<Rightarrow> binder_proc) \<Rightarrow> driver \<Rightarrow> driver" where
  "upd_proc a f s = s\<lparr>proc_at := (proc_at s)(a := map_option f (proc_at s a))\<rparr>"

definition upd_thread :: "nat \<Rightarrow> (binder_thread \<Rightarrow> binder_thread) \<Rightarrow> driver \<Rightarrow> driver" where
  "upd_thread a f s = s\<lparr>thread_at := (thread_at s)(a := map_option f (thread_at s a))\<rparr>"

definition upd_node :: "nat \<Rightarrow> (binder_node \<Rightarrow> binder_node) \<Rightarrow> driver \<Rightarrow> driver" where
  "upd_node a f s = s\<lparr>node_at := (node_at s)(a := map_option f (node_at s a))\<rparr>"

definition upd_ref :: "nat \<Rightarrow> (binder_ref \<Rightarrow> binder_ref) \<Rightarrow> driver \<Rightarrow> driver" where
  "upd_ref a f s = s\<lparr>ref_at := (ref_at s)(a := map_option f (ref_at s a))\<rparr>"

definition upd_death :: "nat \<Rightarrow> (binder_ref_death \<Rightarrow> binder_ref_death) \<Rightarrow> driver \<Rightarrow> driver" where
  "upd_death a f s = s\<lparr>death_at := (death_at s)(a := map_option f (death_at s a))\<rparr>"

definition upd_txn :: "nat \<Rightarrow> (binder_transaction \<Rightarrow> binder_transaction) \<Rightarrow> driver \<Rightarrow> driver" where
  "upd_txn a f s = s\<lparr>txn_at := (txn_at s)(a := map_option f (txn_at s a))\<rparr>"

definition binder_stats_created :: "stat_type \<Rightarrow> driver \<Rightarrow> driver" where
  "binder_stats_created t s = s\<lparr>obj_created := (obj_created s)(t := Suc (obj_created s t))\<rparr>"

definition binder_stats_deleted :: "stat_type \<Rightarrow> driver \<Rightarrow> driver" where
  "binder_stats_deleted t s = s\<lparr>obj_deleted := (obj_deleted s)(t := Suc (obj_deleted s t))\<rparr>"

definition kzalloc :: "'e kenv_scheme \<Rightarrow> driver \<Rightarrow> nat option \<times> driver" where
  "kzalloc env s = (kzalloc_at env (mem_ops s), s\<lparr>mem_ops := Suc (mem_ops s)\<rparr>)"

definition wake_up :: "wait_queue \<Rightarrow> driver \<Rightarrow> driver" where
  "wake_up q s = s\<lparr>woken := woken s @ [q]\<rparr>"

definition get_user :: "'e kenv_scheme \<Rightarrow> driver \<Rightarrow> nat \<Rightarrow> u32 option" where
  "get_user env s a =
     (if user_ok env a \<and> user_ok env (a + 3) then Some (load32 (user_mem s) a) else None)"

definition binder_set_nice :: "'e kenv_scheme \<Rightarrow> task \<Rightarrow> int \<Rightarrow> driver \<Rightarrow> driver" where
  "binder_set_nice env task v s =
     (if can_nice env v then s\<lparr>nice := (nice s)(cur_task task := v)\<rparr>
      else s\<lparr>nice := (nice s)(cur_task task := 20 - rlimit_nice env)\<rparr>)"

definition put_user :: "'e kenv_scheme \<Rightarrow> nat \<Rightarrow> u32 \<Rightarrow> driver \<Rightarrow> driver option" where
  "put_user env a v s =
     (if user_ok env a \<and> user_ok env (a + 3) then Some (s\<lparr>user_mem := store32 a v (user_mem s)\<rparr>) else None)"

text \<open>\<open>copy_from_user\<close> and \<open>copy_to_user\<close> of words, None when an address faults.\<close>

fun copy_from_user :: "'e kenv_scheme \<Rightarrow> driver \<Rightarrow> nat \<Rightarrow> nat \<Rightarrow> u32 list option" where
  "copy_from_user env s a 0 = Some []"
| "copy_from_user env s a (Suc n) = do {
     v \<leftarrow> get_user env s a;
     vs \<leftarrow> copy_from_user env s (a + 4) n;
     Some (v # vs)}"

fun copy_to_user :: "'e kenv_scheme \<Rightarrow> nat \<Rightarrow> u32 list \<Rightarrow> driver \<Rightarrow> driver option" where
  "copy_to_user env a [] s = Some s"
| "copy_to_user env a (v # vs) s = do {
     s \<leftarrow> put_user env a v s;
     copy_to_user env (a + 4) vs s}"

text \<open>Whether \<open>n\<close> bytes of the caller's memory can be read.\<close>

definition user_readable :: "'e kenv_scheme \<Rightarrow> nat \<Rightarrow> nat \<Rightarrow> bool" where
  "user_readable env a n \<longleftrightarrow> (\<forall>i \<in> set [a..<a + n]. user_ok env i)"

section \<open>Lists of work\<close>

definition list_add_tail :: "work \<Rightarrow> list_head \<Rightarrow> driver \<Rightarrow> driver option" where
  "list_add_tail w h s =
     (if linked s w = None
      then Some (s\<lparr>lists := (lists s)(h := lists s h @ [w]), linked := (linked s)(w := Some h)\<rparr>)
      else None)"

definition list_add :: "work \<Rightarrow> list_head \<Rightarrow> driver \<Rightarrow> driver option" where
  "list_add w h s =
     (if linked s w = None
      then Some (s\<lparr>lists := (lists s)(h := w # lists s h), linked := (linked s)(w := Some h)\<rparr>)
      else None)"

definition list_del_init :: "work \<Rightarrow> driver \<Rightarrow> driver" where
  "list_del_init w s =
     (case linked s w of
        None \<Rightarrow> s
      | Some h \<Rightarrow> s\<lparr>lists := (lists s)(h := remove1 w (lists s h)), linked := (linked s)(w := None)\<rparr>)"

text \<open>Every linked work is in the list it is linked to, once, and in no other.\<close>

definition lists_ok :: "driver \<Rightarrow> bool" where
  "lists_ok s \<longleftrightarrow>
     (\<forall>h. distinct (lists s h)) \<and> (\<forall>w h. w \<in> set (lists s h) \<longleftrightarrow> linked s w = Some h)"

lemma list_add_tail_ok:
  assumes "lists_ok s" "linked s w = None"
  obtains s' where "list_add_tail w h s = Some s'" "lists_ok s'"
    "s' = s\<lparr>lists := (lists s)(h := lists s h @ [w]), linked := (linked s)(w := Some h)\<rparr>"
  using assms by (auto simp: list_add_tail_def lists_ok_def)

lemma list_del_init_ok:
  assumes "lists_ok s"
  shows "lists_ok (list_del_init w s)" "linked (list_del_init w s) w = None"
  using assms by (auto simp: list_del_init_def lists_ok_def split: option.splits)

section \<open>What the updates leave alone\<close>

lemma upd_proc_fields [simp]:
  "thread_at (upd_proc a f s) = thread_at s" "node_at (upd_proc a f s) = node_at s"
  "ref_at (upd_proc a f s) = ref_at s" "death_at (upd_proc a f s) = death_at s"
  "txn_at (upd_proc a f s) = txn_at s" "lists (upd_proc a f s) = lists s"
  "linked (upd_proc a f s) = linked s" "binder_procs (upd_proc a f s) = binder_procs s"
  "binder_dead_nodes (upd_proc a f s) = binder_dead_nodes s"
  "binder_deferred_list (upd_proc a f s) = binder_deferred_list s"
  "context_mgr_node (upd_proc a f s) = context_mgr_node s"
  "context_mgr_uid (upd_proc a f s) = context_mgr_uid s" "last_id (upd_proc a f s) = last_id s"
  "obj_created (upd_proc a f s) = obj_created s" "obj_deleted (upd_proc a f s) = obj_deleted s"
  "transaction_log (upd_proc a f s) = transaction_log s"
  "transaction_log_failed (upd_proc a f s) = transaction_log_failed s" "woken (upd_proc a f s) = woken s"
  "nice (upd_proc a f s) = nice s" "user_mem (upd_proc a f s) = user_mem s"
  "mem_ops (upd_proc a f s) = mem_ops s"
  "proc_at (upd_proc a f s) = (proc_at s)(a := map_option f (proc_at s a))"
  by (simp_all add: upd_proc_def)

lemma upd_thread_fields [simp]:
  "proc_at (upd_thread a f s) = proc_at s" "node_at (upd_thread a f s) = node_at s"
  "ref_at (upd_thread a f s) = ref_at s" "death_at (upd_thread a f s) = death_at s"
  "txn_at (upd_thread a f s) = txn_at s" "lists (upd_thread a f s) = lists s"
  "linked (upd_thread a f s) = linked s" "binder_procs (upd_thread a f s) = binder_procs s"
  "binder_dead_nodes (upd_thread a f s) = binder_dead_nodes s"
  "binder_deferred_list (upd_thread a f s) = binder_deferred_list s"
  "context_mgr_node (upd_thread a f s) = context_mgr_node s"
  "context_mgr_uid (upd_thread a f s) = context_mgr_uid s" "last_id (upd_thread a f s) = last_id s"
  "obj_created (upd_thread a f s) = obj_created s" "obj_deleted (upd_thread a f s) = obj_deleted s"
  "transaction_log (upd_thread a f s) = transaction_log s"
  "transaction_log_failed (upd_thread a f s) = transaction_log_failed s"
  "woken (upd_thread a f s) = woken s" "nice (upd_thread a f s) = nice s"
  "user_mem (upd_thread a f s) = user_mem s" "mem_ops (upd_thread a f s) = mem_ops s"
  "thread_at (upd_thread a f s) = (thread_at s)(a := map_option f (thread_at s a))"
  by (simp_all add: upd_thread_def)

lemma upd_node_fields [simp]:
  "proc_at (upd_node a f s) = proc_at s" "thread_at (upd_node a f s) = thread_at s"
  "ref_at (upd_node a f s) = ref_at s" "death_at (upd_node a f s) = death_at s"
  "txn_at (upd_node a f s) = txn_at s" "lists (upd_node a f s) = lists s"
  "linked (upd_node a f s) = linked s" "binder_procs (upd_node a f s) = binder_procs s"
  "binder_dead_nodes (upd_node a f s) = binder_dead_nodes s"
  "binder_deferred_list (upd_node a f s) = binder_deferred_list s"
  "context_mgr_node (upd_node a f s) = context_mgr_node s"
  "context_mgr_uid (upd_node a f s) = context_mgr_uid s" "last_id (upd_node a f s) = last_id s"
  "obj_created (upd_node a f s) = obj_created s" "obj_deleted (upd_node a f s) = obj_deleted s"
  "transaction_log (upd_node a f s) = transaction_log s"
  "transaction_log_failed (upd_node a f s) = transaction_log_failed s" "woken (upd_node a f s) = woken s"
  "nice (upd_node a f s) = nice s" "user_mem (upd_node a f s) = user_mem s"
  "mem_ops (upd_node a f s) = mem_ops s"
  "node_at (upd_node a f s) = (node_at s)(a := map_option f (node_at s a))"
  by (simp_all add: upd_node_def)

lemma upd_ref_fields [simp]:
  "proc_at (upd_ref a f s) = proc_at s" "thread_at (upd_ref a f s) = thread_at s"
  "node_at (upd_ref a f s) = node_at s" "death_at (upd_ref a f s) = death_at s"
  "txn_at (upd_ref a f s) = txn_at s" "lists (upd_ref a f s) = lists s"
  "linked (upd_ref a f s) = linked s" "binder_procs (upd_ref a f s) = binder_procs s"
  "binder_dead_nodes (upd_ref a f s) = binder_dead_nodes s"
  "binder_deferred_list (upd_ref a f s) = binder_deferred_list s"
  "context_mgr_node (upd_ref a f s) = context_mgr_node s"
  "context_mgr_uid (upd_ref a f s) = context_mgr_uid s" "last_id (upd_ref a f s) = last_id s"
  "obj_created (upd_ref a f s) = obj_created s" "obj_deleted (upd_ref a f s) = obj_deleted s"
  "transaction_log (upd_ref a f s) = transaction_log s"
  "transaction_log_failed (upd_ref a f s) = transaction_log_failed s" "woken (upd_ref a f s) = woken s"
  "nice (upd_ref a f s) = nice s" "user_mem (upd_ref a f s) = user_mem s"
  "mem_ops (upd_ref a f s) = mem_ops s"
  "ref_at (upd_ref a f s) = (ref_at s)(a := map_option f (ref_at s a))"
  by (simp_all add: upd_ref_def)

lemma upd_death_fields [simp]:
  "proc_at (upd_death a f s) = proc_at s" "thread_at (upd_death a f s) = thread_at s"
  "node_at (upd_death a f s) = node_at s" "ref_at (upd_death a f s) = ref_at s"
  "txn_at (upd_death a f s) = txn_at s" "lists (upd_death a f s) = lists s"
  "linked (upd_death a f s) = linked s" "binder_procs (upd_death a f s) = binder_procs s"
  "binder_dead_nodes (upd_death a f s) = binder_dead_nodes s"
  "binder_deferred_list (upd_death a f s) = binder_deferred_list s"
  "context_mgr_node (upd_death a f s) = context_mgr_node s"
  "context_mgr_uid (upd_death a f s) = context_mgr_uid s" "last_id (upd_death a f s) = last_id s"
  "obj_created (upd_death a f s) = obj_created s" "obj_deleted (upd_death a f s) = obj_deleted s"
  "transaction_log (upd_death a f s) = transaction_log s"
  "transaction_log_failed (upd_death a f s) = transaction_log_failed s"
  "woken (upd_death a f s) = woken s" "nice (upd_death a f s) = nice s"
  "user_mem (upd_death a f s) = user_mem s" "mem_ops (upd_death a f s) = mem_ops s"
  "death_at (upd_death a f s) = (death_at s)(a := map_option f (death_at s a))"
  by (simp_all add: upd_death_def)

lemma upd_txn_fields [simp]:
  "proc_at (upd_txn a f s) = proc_at s" "thread_at (upd_txn a f s) = thread_at s"
  "node_at (upd_txn a f s) = node_at s" "ref_at (upd_txn a f s) = ref_at s"
  "death_at (upd_txn a f s) = death_at s" "lists (upd_txn a f s) = lists s"
  "linked (upd_txn a f s) = linked s" "binder_procs (upd_txn a f s) = binder_procs s"
  "binder_dead_nodes (upd_txn a f s) = binder_dead_nodes s"
  "binder_deferred_list (upd_txn a f s) = binder_deferred_list s"
  "context_mgr_node (upd_txn a f s) = context_mgr_node s"
  "context_mgr_uid (upd_txn a f s) = context_mgr_uid s" "last_id (upd_txn a f s) = last_id s"
  "obj_created (upd_txn a f s) = obj_created s" "obj_deleted (upd_txn a f s) = obj_deleted s"
  "transaction_log (upd_txn a f s) = transaction_log s"
  "transaction_log_failed (upd_txn a f s) = transaction_log_failed s" "woken (upd_txn a f s) = woken s"
  "nice (upd_txn a f s) = nice s" "user_mem (upd_txn a f s) = user_mem s"
  "mem_ops (upd_txn a f s) = mem_ops s"
  "txn_at (upd_txn a f s) = (txn_at s)(a := map_option f (txn_at s a))"
  by (simp_all add: upd_txn_def)

lemma binder_stats_created_fields [simp]:
  "proc_at (binder_stats_created t s) = proc_at s" "thread_at (binder_stats_created t s) = thread_at s"
  "node_at (binder_stats_created t s) = node_at s" "ref_at (binder_stats_created t s) = ref_at s"
  "death_at (binder_stats_created t s) = death_at s" "txn_at (binder_stats_created t s) = txn_at s"
  "lists (binder_stats_created t s) = lists s" "linked (binder_stats_created t s) = linked s"
  "binder_procs (binder_stats_created t s) = binder_procs s"
  "binder_dead_nodes (binder_stats_created t s) = binder_dead_nodes s"
  "binder_deferred_list (binder_stats_created t s) = binder_deferred_list s"
  "context_mgr_node (binder_stats_created t s) = context_mgr_node s"
  "context_mgr_uid (binder_stats_created t s) = context_mgr_uid s"
  "last_id (binder_stats_created t s) = last_id s"
  "obj_deleted (binder_stats_created t s) = obj_deleted s"
  "transaction_log (binder_stats_created t s) = transaction_log s"
  "transaction_log_failed (binder_stats_created t s) = transaction_log_failed s"
  "woken (binder_stats_created t s) = woken s" "nice (binder_stats_created t s) = nice s"
  "user_mem (binder_stats_created t s) = user_mem s" "mem_ops (binder_stats_created t s) = mem_ops s"
  by (simp_all add: binder_stats_created_def)

lemma binder_stats_deleted_fields [simp]:
  "proc_at (binder_stats_deleted t s) = proc_at s" "thread_at (binder_stats_deleted t s) = thread_at s"
  "node_at (binder_stats_deleted t s) = node_at s" "ref_at (binder_stats_deleted t s) = ref_at s"
  "death_at (binder_stats_deleted t s) = death_at s" "txn_at (binder_stats_deleted t s) = txn_at s"
  "lists (binder_stats_deleted t s) = lists s" "linked (binder_stats_deleted t s) = linked s"
  "binder_procs (binder_stats_deleted t s) = binder_procs s"
  "binder_dead_nodes (binder_stats_deleted t s) = binder_dead_nodes s"
  "binder_deferred_list (binder_stats_deleted t s) = binder_deferred_list s"
  "context_mgr_node (binder_stats_deleted t s) = context_mgr_node s"
  "context_mgr_uid (binder_stats_deleted t s) = context_mgr_uid s"
  "last_id (binder_stats_deleted t s) = last_id s"
  "obj_created (binder_stats_deleted t s) = obj_created s"
  "transaction_log (binder_stats_deleted t s) = transaction_log s"
  "transaction_log_failed (binder_stats_deleted t s) = transaction_log_failed s"
  "woken (binder_stats_deleted t s) = woken s" "nice (binder_stats_deleted t s) = nice s"
  "user_mem (binder_stats_deleted t s) = user_mem s" "mem_ops (binder_stats_deleted t s) = mem_ops s"
  by (simp_all add: binder_stats_deleted_def)

lemma wake_up_fields [simp]:
  "proc_at (wake_up q s) = proc_at s" "thread_at (wake_up q s) = thread_at s"
  "node_at (wake_up q s) = node_at s" "ref_at (wake_up q s) = ref_at s"
  "death_at (wake_up q s) = death_at s" "txn_at (wake_up q s) = txn_at s" "lists (wake_up q s) = lists s"
  "linked (wake_up q s) = linked s" "binder_procs (wake_up q s) = binder_procs s"
  "binder_dead_nodes (wake_up q s) = binder_dead_nodes s"
  "binder_deferred_list (wake_up q s) = binder_deferred_list s"
  "context_mgr_node (wake_up q s) = context_mgr_node s"
  "context_mgr_uid (wake_up q s) = context_mgr_uid s" "last_id (wake_up q s) = last_id s"
  "obj_created (wake_up q s) = obj_created s" "obj_deleted (wake_up q s) = obj_deleted s"
  "transaction_log (wake_up q s) = transaction_log s"
  "transaction_log_failed (wake_up q s) = transaction_log_failed s" "nice (wake_up q s) = nice s"
  "user_mem (wake_up q s) = user_mem s" "mem_ops (wake_up q s) = mem_ops s"
  by (simp_all add: wake_up_def)

lemma list_del_init_fields [simp]:
  "proc_at (list_del_init w s) = proc_at s" "thread_at (list_del_init w s) = thread_at s"
  "node_at (list_del_init w s) = node_at s" "ref_at (list_del_init w s) = ref_at s"
  "death_at (list_del_init w s) = death_at s" "txn_at (list_del_init w s) = txn_at s"
  "binder_procs (list_del_init w s) = binder_procs s"
  "binder_dead_nodes (list_del_init w s) = binder_dead_nodes s"
  "binder_deferred_list (list_del_init w s) = binder_deferred_list s"
  "context_mgr_node (list_del_init w s) = context_mgr_node s"
  "context_mgr_uid (list_del_init w s) = context_mgr_uid s" "last_id (list_del_init w s) = last_id s"
  "obj_created (list_del_init w s) = obj_created s" "obj_deleted (list_del_init w s) = obj_deleted s"
  "transaction_log (list_del_init w s) = transaction_log s"
  "transaction_log_failed (list_del_init w s) = transaction_log_failed s"
  "woken (list_del_init w s) = woken s" "nice (list_del_init w s) = nice s"
  "user_mem (list_del_init w s) = user_mem s" "mem_ops (list_del_init w s) = mem_ops s"
  by (simp_all add: list_del_init_def split: option.split)

section \<open>The transaction log\<close>

definition empty_log_entry :: log_entry where
  "empty_log_entry = \<lparr>log_debug_id = 0, call_type = 0, log_from_proc = 0, log_from_thread = 0,
     target_handle = 0, log_to_proc = 0, log_to_thread = 0, log_to_node = 0,
     log_data_size = 0, log_offsets_size = 0\<rparr>"

text \<open>The slot handed out and the log with that slot cleared.\<close>

definition binder_transaction_log_add :: "txn_log \<Rightarrow> nat \<times> txn_log" where
  "binder_transaction_log_add log =
     (let e = log_next log;
          log = log\<lparr>log_entries := (log_entries log)[e := empty_log_entry], log_next := Suc e\<rparr>
      in (e, if log_next log = length (log_entries log)
             then log\<lparr>log_next := 0, log_full := True\<rparr> else log))"

definition log_store :: "nat \<Rightarrow> (log_entry \<Rightarrow> log_entry) \<Rightarrow> txn_log \<Rightarrow> txn_log" where
  "log_store e f log = log\<lparr>log_entries := (log_entries log)[e := f (log_entries log ! e)]\<rparr>"

end
