(* ===== verification/BinderRefs.thy ===== *)
theory BinderRefs
  imports BinderState
begin

text \<open>
  Nodes and references (driver/binder/binder.c, binder_get_node to binder_dec_ref): a node
  is an object a process offers, a reference is another process's handle for it.
  References hang on their node and stand in two trees of their process, by handle
  (\<open>desc\<close>) and by the address of the node.
\<close>

section \<open>Nodes\<close>

definition node_key :: "driver \<Rightarrow> nat \<Rightarrow> u32" where
  "node_key s a = (case node_at s a of Some n \<Rightarrow> node_ptr n | None \<Rightarrow> 0)"

definition desc_key :: "driver \<Rightarrow> nat \<Rightarrow> u32" where
  "desc_key s a = (case ref_at s a of Some r \<Rightarrow> desc r | None \<Rightarrow> 0)"

definition ref_node_key :: "driver \<Rightarrow> nat \<Rightarrow> nat" where
  "ref_node_key s a = (case ref_at s a of Some r \<Rightarrow> ref_node r | None \<Rightarrow> 0)"

definition binder_get_node :: "driver \<Rightarrow> nat \<Rightarrow> u32 \<Rightarrow> nat option option" where
  "binder_get_node s p ptr = do {
     pr \<leftarrow> proc_at s p;
     Some (rb_search (node_key s) ptr (nodes_root pr))}"

text \<open>
  The descent of binder_new_node ends at a free place or at a node with this \<open>ptr\<close>;
  the latter is \<open>rb_search \<noteq> None\<close>.
\<close>

definition binder_new_node ::
    "'e kenv_scheme \<Rightarrow> nat \<Rightarrow> u32 \<Rightarrow> u32 \<Rightarrow> driver \<Rightarrow> (nat option \<times> driver) option" where
  "binder_new_node env p ptr cookie s = do {
     pr \<leftarrow> proc_at s p;
     if rb_search (node_key s) ptr (nodes_root pr) \<noteq> None then Some (None, s)
     else case kzalloc env s of
       (None, s) \<Rightarrow> Some (None, s)
     | (Some a, s) \<Rightarrow> do {
         let s = binder_stats_created Stat_node s;
         t \<leftarrow> rb_link (node_key s) ptr a (nodes_root pr);
         let s = upd_proc p (\<lambda>pr. pr\<lparr>nodes_root := rb_insert_color env a t\<rparr>) s;
         let s = s\<lparr>last_id := Suc (last_id s)\<rparr>;
         let s = s\<lparr>node_at := (node_at s)(a := Some
           \<lparr>node_debug_id = last_id s, node_proc = Some p, node_refs = [],
            internal_strong_refs = 0, local_weak_refs = 0, local_strong_refs = 0,
            node_ptr = ptr, node_cookie = cookie,
            has_strong_ref = False, pending_strong_ref = False, has_weak_ref = False,
            pending_weak_ref = False, has_async_transaction = False, accept_fds = False,
            min_priority = 0\<rparr>),
            linked := (linked s)(Node_work a := None), lists := (lists s)(Async_todo a := [])\<rparr>;
         Some (Some a, s)}}"

definition binder_inc_node ::
    "nat \<Rightarrow> bool \<Rightarrow> bool \<Rightarrow> list_head option \<Rightarrow> driver \<Rightarrow> (int \<times> driver) option" where
  "binder_inc_node n str internal target_list s = do {
     node \<leftarrow> node_at s n;
     if str then
       if internal \<and> target_list = None \<and> internal_strong_refs node = 0 \<and>
          \<not> (Some n = context_mgr_node s \<and> has_strong_ref node)
       then Some (- EINVAL, s)
       else do {
         let s = upd_node n (\<lambda>x. if internal
                   then x\<lparr>internal_strong_refs := internal_strong_refs x + 1\<rparr>
                   else x\<lparr>local_strong_refs := local_strong_refs x + 1\<rparr>) s;
         case target_list of
           Some h \<Rightarrow>
             if \<not> has_strong_ref node
             then map_option (Pair 0) (list_add_tail (Node_work n) h (list_del_init (Node_work n) s))
             else Some (0, s)
         | None \<Rightarrow> Some (0, s)}
     else do {
       let s = (if internal then s
                else upd_node n (\<lambda>x. x\<lparr>local_weak_refs := local_weak_refs x + 1\<rparr>) s);
       if \<not> has_weak_ref node \<and> linked s (Node_work n) = None
       then case target_list of
              None \<Rightarrow> Some (- EINVAL, s)
            | Some h \<Rightarrow> map_option (Pair 0) (list_add_tail (Node_work n) h s)
       else Some (0, s)}}"

text \<open>
  The part of binder_dec_node behind the early returns: the process is told, or the node
  is freed when nothing refers to it any more.
\<close>

definition release_node :: "'e kenv_scheme \<Rightarrow> nat \<Rightarrow> driver \<Rightarrow> (int \<times> driver) option" where
  "release_node env n s = do {
     node \<leftarrow> node_at s n;
     if node_proc node \<noteq> None \<and> (has_strong_ref node \<or> has_weak_ref node)
     then do {
       p \<leftarrow> node_proc node;
       if linked s (Node_work n) = None
       then do {
         s \<leftarrow> list_add_tail (Node_work n) (Proc_todo p) s;
         Some (0, wake_up (Proc_wait p) s)}
       else Some (0, s)}
     else if node_refs node = [] \<and> local_strong_refs node = 0 \<and> local_weak_refs node = 0
     then do {
       let s = list_del_init (Node_work n) s;
       let s = (case node_proc node of
                  Some p \<Rightarrow> upd_proc p (\<lambda>pr. pr\<lparr>nodes_root := rb_erase env n (nodes_root pr)\<rparr>) s
                | None \<Rightarrow> s\<lparr>binder_dead_nodes := remove1 n (binder_dead_nodes s)\<rparr>);
       Some (0, binder_stats_deleted Stat_node (s\<lparr>node_at := (node_at s)(n := None)\<rparr>))}
     else Some (0, s)}"

definition binder_dec_node ::
    "'e kenv_scheme \<Rightarrow> nat \<Rightarrow> bool \<Rightarrow> bool \<Rightarrow> driver \<Rightarrow> (int \<times> driver) option" where
  "binder_dec_node env n str internal s = do {
     _ \<leftarrow> node_at s n;
     let s = upd_node n (\<lambda>x.
               if str then (if internal then x\<lparr>internal_strong_refs := internal_strong_refs x - 1\<rparr>
                            else x\<lparr>local_strong_refs := local_strong_refs x - 1\<rparr>)
               else (if internal then x else x\<lparr>local_weak_refs := local_weak_refs x - 1\<rparr>)) s;
     node \<leftarrow> node_at s n;
     if (if str then local_strong_refs node \<noteq> 0 \<or> internal_strong_refs node \<noteq> 0
         else local_weak_refs node \<noteq> 0 \<or> node_refs node \<noteq> [])
     then Some (0, s)
     else release_node env n s}"

section \<open>References\<close>

definition binder_get_ref :: "driver \<Rightarrow> nat \<Rightarrow> u32 \<Rightarrow> nat option option" where
  "binder_get_ref s p d = do {
     pr \<leftarrow> proc_at s p;
     Some (rb_search (desc_key s) d (refs_by_desc pr))}"

text \<open>The walk over the handles in use, in order, to the first one that is free.\<close>

fun next_desc :: "('a \<Rightarrow> u32) \<Rightarrow> 'a list \<Rightarrow> u32 \<Rightarrow> u32" where
  "next_desc key [] d = d"
| "next_desc key (r # rs) d = (if key r > d then d else next_desc key rs (key r + 1))"

definition binder_get_ref_for_node ::
    "'e kenv_scheme \<Rightarrow> nat \<Rightarrow> nat \<Rightarrow> driver \<Rightarrow> (nat option \<times> driver) option" where
  "binder_get_ref_for_node env p n s = do {
     pr \<leftarrow> proc_at s p;
     case rb_search (ref_node_key s) n (refs_by_node pr) of
       Some r \<Rightarrow> Some (Some r, s)
     | None \<Rightarrow>
         case kzalloc env s of
           (None, s) \<Rightarrow> Some (None, s)
         | (Some r, s) \<Rightarrow> do {
             let s = binder_stats_created Stat_ref s;
             let s = s\<lparr>last_id := Suc (last_id s)\<rparr>;
             tn \<leftarrow> rb_link (ref_node_key s) n r (refs_by_node pr);
             let d = next_desc (desc_key s) (inorder (refs_by_desc pr))
                       (if Some n = context_mgr_node s then 0 else 1);
             td \<leftarrow> rb_link (desc_key s) d r (refs_by_desc pr);
             _ \<leftarrow> node_at s n;
             let s = s\<lparr>ref_at := (ref_at s)(r := Some
               \<lparr>ref_debug_id = last_id s, ref_proc = p, ref_node = n, desc = d,
                strong = 0, weak = 0, death = None\<rparr>)\<rparr>;
             let s = upd_proc p (\<lambda>pr. pr\<lparr>refs_by_node := rb_insert_color env r tn,
                                        refs_by_desc := rb_insert_color env r td\<rparr>) s;
             let s = upd_node n (\<lambda>x. x\<lparr>node_refs := r # node_refs x\<rparr>) s;
             Some (Some r, s)}}"

definition binder_delete_ref :: "'e kenv_scheme \<Rightarrow> nat \<Rightarrow> driver \<Rightarrow> driver option" where
  "binder_delete_ref env r s = do {
     ref \<leftarrow> ref_at s r;
     _ \<leftarrow> proc_at s (ref_proc ref);
     let s = upd_proc (ref_proc ref) (\<lambda>pr. pr\<lparr>refs_by_desc := rb_erase env r (refs_by_desc pr),
                                             refs_by_node := rb_erase env r (refs_by_node pr)\<rparr>) s;
     s \<leftarrow> (if strong ref \<noteq> 0
           then map_option snd (binder_dec_node env (ref_node ref) True True s) else Some s);
     _ \<leftarrow> node_at s (ref_node ref);
     let s = upd_node (ref_node ref) (\<lambda>x. x\<lparr>node_refs := remove1 r (node_refs x)\<rparr>) s;
     s \<leftarrow> map_option snd (binder_dec_node env (ref_node ref) False True s);
     let s = (case death ref of
                None \<Rightarrow> s
              | Some d \<Rightarrow>
                  binder_stats_deleted Stat_death
                    ((list_del_init (Death_work d) s)\<lparr>death_at := (death_at s)(d := None)\<rparr>));
     Some (binder_stats_deleted Stat_ref (s\<lparr>ref_at := (ref_at s)(r := None)\<rparr>))}"

definition binder_inc_ref ::
    "nat \<Rightarrow> bool \<Rightarrow> list_head option \<Rightarrow> driver \<Rightarrow> (int \<times> driver) option" where
  "binder_inc_ref r str target_list s = do {
     ref \<leftarrow> ref_at s r;
     (ret, s) \<leftarrow> (if (if str then strong ref = 0 else weak ref = 0)
                   then binder_inc_node (ref_node ref) str True target_list s
                   else Some (0, s));
     if ret \<noteq> 0 then Some (ret, s)
     else Some (0, upd_ref r (\<lambda>x. if str then x\<lparr>strong := strong x + 1\<rparr> else x\<lparr>weak := weak x + 1\<rparr>) s)}"

definition binder_dec_ref ::
    "'e kenv_scheme \<Rightarrow> nat \<Rightarrow> bool \<Rightarrow> driver \<Rightarrow> (int \<times> driver) option" where
  "binder_dec_ref env r str s = do {
     ref \<leftarrow> ref_at s r;
     if (if str then strong ref = 0 else weak ref = 0) then Some (- EINVAL, s)
     else do {
       let s = upd_ref r (\<lambda>x. if str then x\<lparr>strong := strong x - 1\<rparr> else x\<lparr>weak := weak x - 1\<rparr>) s;
       (ret, s) \<leftarrow> (if str \<and> strong ref = 1 then binder_dec_node env (ref_node ref) True True s
                     else Some (0, s));
       if ret \<noteq> 0 then Some (ret, s)
       else do {
         ref \<leftarrow> ref_at s r;
         if strong ref = 0 \<and> weak ref = 0
         then map_option (Pair 0) (binder_delete_ref env r s)
         else Some (0, s)}}}"

end
