(* ===== verification/RefsInvariant.thy ===== *)
theory RefsInvariant
  imports BinderRefs
begin

text \<open>
  The invariant of nodes and references: the two reference trees of every process and its
  node tree hold exactly its live objects, in strict order of their keys; the \<open>refs\<close> list of
  every node holds exactly the references to it; and \<open>internal_strong_refs\<close> counts
  the references that are strong.

  Inside an operation the invariant holds up to a hole: \<open>\<delta>\<close> is by how much a node's
  count is ahead, \<open>X\<close> are references already taken out of the trees, and \<open>Y\<close>
  those already taken off their node.
\<close>

section \<open>The invariant\<close>

definition refs_of_proc :: "driver \<Rightarrow> nat \<Rightarrow> nat set" where
  "refs_of_proc s p = {r. \<exists>x. ref_at s r = Some x \<and> ref_proc x = p}"

definition refs_of_node :: "driver \<Rightarrow> nat \<Rightarrow> nat set" where
  "refs_of_node s n = {r. \<exists>x. ref_at s r = Some x \<and> ref_node x = n}"

definition strong_refs :: "driver \<Rightarrow> nat \<Rightarrow> nat set" where
  "strong_refs s n = {r. \<exists>x. ref_at s r = Some x \<and> ref_node x = n \<and> strong x \<noteq> 0}"

definition nodes_of_proc :: "driver \<Rightarrow> nat \<Rightarrow> nat set" where
  "nodes_of_proc s p = {n. \<exists>x. node_at s n = Some x \<and> node_proc x = Some p}"

definition proc_trees_ok :: "driver \<Rightarrow> nat set \<Rightarrow> nat \<Rightarrow> binder_proc \<Rightarrow> bool" where
  "proc_trees_ok s X p pr \<longleftrightarrow>
     keyed (node_key s) (inorder (nodes_root pr)) \<and> set (inorder (nodes_root pr)) = nodes_of_proc s p \<and>
     keyed (desc_key s) (inorder (refs_by_desc pr)) \<and> set (inorder (refs_by_desc pr)) = refs_of_proc s p - X \<and>
     keyed (ref_node_key s) (inorder (refs_by_node pr)) \<and> set (inorder (refs_by_node pr)) = refs_of_proc s p - X"

definition node_refs_ok :: "driver \<Rightarrow> (nat \<Rightarrow> c_int) \<Rightarrow> nat set \<Rightarrow> nat \<Rightarrow> binder_node \<Rightarrow> bool" where
  "node_refs_ok s \<delta> Y n x \<longleftrightarrow>
     distinct (node_refs x) \<and> set (node_refs x) = refs_of_node s n - Y \<and>
     internal_strong_refs x = word_of_nat (card (strong_refs s n)) + \<delta> n \<and>
     (\<forall>p. node_proc x = Some p \<longrightarrow> proc_at s p \<noteq> None)"

definition ref_ok :: "driver \<Rightarrow> nat set \<Rightarrow> nat \<Rightarrow> binder_ref \<Rightarrow> bool" where
  "ref_ok s Y r x \<longleftrightarrow>
     proc_at s (ref_proc x) \<noteq> None \<and> (r \<notin> Y \<longrightarrow> node_at s (ref_node x) \<noteq> None)"

definition refs_hole :: "driver \<Rightarrow> (nat \<Rightarrow> c_int) \<Rightarrow> nat set \<Rightarrow> nat set \<Rightarrow> bool" where
  "refs_hole s \<delta> X Y \<longleftrightarrow>
     (\<forall>p pr. proc_at s p = Some pr \<longrightarrow> proc_trees_ok s X p pr) \<and>
     (\<forall>n x. node_at s n = Some x \<longrightarrow> node_refs_ok s \<delta> Y n x) \<and>
     (\<forall>r x. ref_at s r = Some x \<longrightarrow> ref_ok s Y r x) \<and> lists_ok s"

definition refs_inv :: "driver \<Rightarrow> bool" where
  "refs_inv s \<longleftrightarrow> refs_hole s (\<lambda>_. 0) {} {}"

lemmas refs_hole_defs = refs_hole_def proc_trees_ok_def node_refs_ok_def ref_ok_def

section \<open>What the invariant depends on\<close>

definition trees_view :: "binder_proc \<Rightarrow> nat tree \<times> nat tree \<times> nat tree" where
  "trees_view pr = (nodes_root pr, refs_by_desc pr, refs_by_node pr)"

definition node_view :: "binder_node \<Rightarrow> u32 \<times> nat option \<times> nat list \<times> c_int" where
  "node_view x = (node_ptr x, node_proc x, node_refs x, internal_strong_refs x)"

definition ref_view :: "binder_ref \<Rightarrow> nat \<times> nat \<times> u32 \<times> c_int \<times> c_int" where
  "ref_view x = (ref_proc x, ref_node x, desc x, strong x, weak x)"

lemma view_obtain:
  "map_option v a = map_option v b \<Longrightarrow> a = Some x \<Longrightarrow> \<exists>y. b = Some y \<and> v y = v x"
  by (cases b) auto

lemma view_keys:
  assumes "\<And>r. map_option ref_view (ref_at s' r) = map_option ref_view (ref_at s r)"
  shows "desc_key s' = desc_key s" "ref_node_key s' = ref_node_key s"
    "refs_of_proc s' = refs_of_proc s" "refs_of_node s' = refs_of_node s" "strong_refs s' = strong_refs s"
proof -
  have e: "(\<exists>x. ref_at s' r = Some x \<and> P (ref_view x)) \<longleftrightarrow> (\<exists>x. ref_at s r = Some x \<and> P (ref_view x))" for r P
    using assms [of r] by (cases "ref_at s r"; cases "ref_at s' r") auto
  show "desc_key s' = desc_key s"
  proof
    show "desc_key s' r = desc_key s r" for r
      using assms [of r] by (auto simp: desc_key_def ref_view_def split: option.splits)
  qed
  show "ref_node_key s' = ref_node_key s"
  proof
    show "ref_node_key s' r = ref_node_key s r" for r
      using assms [of r] by (auto simp: ref_node_key_def ref_view_def split: option.splits)
  qed
  show "refs_of_proc s' = refs_of_proc s"
    using e [of _ "\<lambda>(p, _, _, _, _). p = q" for q] by (simp add: fun_eq_iff refs_of_proc_def ref_view_def)
  show "refs_of_node s' = refs_of_node s"
    using e [of _ "\<lambda>(_, n, _, _, _). n = m" for m] by (simp add: fun_eq_iff refs_of_node_def ref_view_def)
  show "strong_refs s' = strong_refs s"
    using e [of _ "\<lambda>(_, n, _, t, _). n = m \<and> t \<noteq> 0" for m] by (simp add: fun_eq_iff strong_refs_def ref_view_def)
qed

lemma view_nodes:
  assumes "\<And>n. map_option node_view (node_at s' n) = map_option node_view (node_at s n)"
  shows "node_key s' = node_key s" "nodes_of_proc s' = nodes_of_proc s"
proof -
  have e: "(\<exists>x. node_at s' r = Some x \<and> P (node_view x)) \<longleftrightarrow> (\<exists>x. node_at s r = Some x \<and> P (node_view x))" for r P
    using assms [of r] by (cases "node_at s r"; cases "node_at s' r") auto
  show "node_key s' = node_key s"
  proof
    show "node_key s' r = node_key s r" for r
      using assms [of r] by (auto simp: node_key_def node_view_def split: option.splits)
  qed
  show "nodes_of_proc s' = nodes_of_proc s"
    using e [of _ "\<lambda>(_, q, _, _). q = Some p" for p] by (simp add: fun_eq_iff nodes_of_proc_def node_view_def)
qed

lemma refs_hole_cong:
  assumes h: "refs_hole s \<delta> X Y" and l: "lists_ok s'"
    and p: "\<And>p. map_option trees_view (proc_at s' p) = map_option trees_view (proc_at s p)"
    and n: "\<And>n. map_option node_view (node_at s' n) = map_option node_view (node_at s n)"
    and r: "\<And>r. map_option ref_view (ref_at s' r) = map_option ref_view (ref_at s r)"
  shows "refs_hole s' \<delta> X Y"
proof -
  note keys = view_keys [OF r] view_nodes [OF n]
  have pn: "proc_at s' q = None \<longleftrightarrow> proc_at s q = None" for q
    using p [of q] by (cases "proc_at s q"; cases "proc_at s' q") auto
  have nn: "node_at s' q = None \<longleftrightarrow> node_at s q = None" for q
    using n [of q] by (cases "node_at s q"; cases "node_at s' q") auto
  have "proc_trees_ok s' X q pr" if pr: "proc_at s' q = Some pr" for q pr
  proof -
    from view_obtain [OF p pr] obtain y where y: "proc_at s q = Some y" "trees_view y = trees_view pr" by blast
    from h y(1) have "proc_trees_ok s X q y" by (simp add: refs_hole_def)
    with y(2) show ?thesis by (simp add: proc_trees_ok_def keys trees_view_def)
  qed
  moreover have "node_refs_ok s' \<delta> Y q x" if x: "node_at s' q = Some x" for q x
  proof -
    from view_obtain [OF n x] obtain y where y: "node_at s q = Some y" "node_view y = node_view x" by blast
    from h y(1) have "node_refs_ok s \<delta> Y q y" by (simp add: refs_hole_def)
    with y(2) show ?thesis by (simp add: node_refs_ok_def keys node_view_def pn)
  qed
  moreover have "ref_ok s' Y q x" if x: "ref_at s' q = Some x" for q x
  proof -
    from view_obtain [OF r x] obtain y where y: "ref_at s q = Some y" "ref_view y = ref_view x" by blast
    from h y(1) have "ref_ok s Y q y" by (simp add: refs_hole_def)
    with y(2) show ?thesis by (simp add: ref_ok_def ref_view_def pn nn)
  qed
  ultimately show ?thesis using l by (simp add: refs_hole_def)
qed

text \<open>Two states that differ in the lists of work and the threads woken only.\<close>

definition only_lists :: "driver \<Rightarrow> driver \<Rightarrow> bool" where
  "only_lists s s' \<longleftrightarrow> (\<exists>l k w. s' = s\<lparr>lists := l, linked := k, woken := w\<rparr>)"

lemma only_lists_fields:
  assumes "only_lists s s'"
  shows "proc_at s' = proc_at s" "thread_at s' = thread_at s" "node_at s' = node_at s" "ref_at s' = ref_at s"
    "death_at s' = death_at s" "txn_at s' = txn_at s" "context_mgr_node s' = context_mgr_node s"
    "binder_procs s' = binder_procs s" "binder_dead_nodes s' = binder_dead_nodes s"
    "mem_ops s' = mem_ops s" "last_id s' = last_id s" "obj_created s' = obj_created s" "obj_deleted s' = obj_deleted s"
  using assms by (auto simp: only_lists_def)

lemma only_lists_trans: "only_lists s s' \<Longrightarrow> only_lists s' s'' \<Longrightarrow> only_lists s s''"
proof -
  assume "only_lists s s'" "only_lists s' s''"
  then obtain l k w l' k' w' where "s' = s\<lparr>lists := l, linked := k, woken := w\<rparr>"
    "s'' = s'\<lparr>lists := l', linked := k', woken := w'\<rparr>" by (auto simp: only_lists_def)
  then have "s'' = s\<lparr>lists := l', linked := k', woken := w'\<rparr>" by simp
  then show ?thesis unfolding only_lists_def by blast
qed

lemma only_lists_refl [simp]: "only_lists s s"
  unfolding only_lists_def by (intro exI [of _ "lists s"] exI [of _ "linked s"] exI [of _ "woken s"]) simp

lemma only_lists_upd: "only_lists s (s\<lparr>lists := l, linked := k\<rparr>)"
  unfolding only_lists_def by (intro exI [of _ l] exI [of _ k] exI [of _ "woken s"]) simp

lemma only_lists_steps [simp]:
  "only_lists s (wake_up q s)" "only_lists s (list_del_init w s)"
proof -
  show "only_lists s (wake_up q s)"
    unfolding only_lists_def wake_up_def
    by (intro exI [of _ "lists s"] exI [of _ "linked s"] exI [of _ "woken s @ [q]"]) simp
  show "only_lists s (list_del_init w s)"
    by (auto simp: list_del_init_def only_lists_upd split: option.split)
qed

lemma list_add_tail_only: "list_add_tail w h s = Some s' \<Longrightarrow> only_lists s s'"
  by (auto simp: list_add_tail_def only_lists_upd split: if_splits)

lemma refs_hole_only_lists:
  "refs_hole s \<delta> X Y \<Longrightarrow> only_lists s s' \<Longrightarrow> lists_ok s' \<Longrightarrow> refs_hole s' \<delta> X Y"
  by (rule refs_hole_cong) (simp_all add: only_lists_fields)

lemma refs_hole_lists: "refs_hole s \<delta> X Y \<Longrightarrow> lists_ok s"
  by (simp add: refs_hole_def)

lemma lists_ok_cong: "lists s' = lists s \<Longrightarrow> linked s' = linked s \<Longrightarrow> lists_ok s' = lists_ok s"
  by (simp add: lists_ok_def)

lemma lists_ok_upd [simp]:
  "lists_ok (upd_proc a pf s) = lists_ok s" "lists_ok (upd_thread a tf s) = lists_ok s"
  "lists_ok (upd_node a nf s) = lists_ok s" "lists_ok (upd_ref a rf s) = lists_ok s"
  "lists_ok (upd_death a df s) = lists_ok s" "lists_ok (upd_txn a xf s) = lists_ok s"
  "lists_ok (binder_stats_created t s) = lists_ok s" "lists_ok (binder_stats_deleted t s) = lists_ok s"
  "lists_ok (wake_up q s) = lists_ok s"
  by (rule lists_ok_cong; simp)+

section \<open>Single updates\<close>

lemma finite_strong:
  assumes "refs_hole s \<delta> X Y" "finite Y" "node_at s n = Some x"
  shows "finite (strong_refs s n)"
proof -
  have "set (node_refs x) = refs_of_node s n - Y" using assms by (simp add: refs_hole_defs)
  moreover have "strong_refs s n \<subseteq> refs_of_node s n" by (auto simp: strong_refs_def refs_of_node_def)
  ultimately have "strong_refs s n \<subseteq> set (node_refs x) \<union> Y" by auto
  with assms(2) show ?thesis by (meson finite_Un finite_set finite_subset)
qed

lemma hole_internal:
  assumes h: "refs_hole s \<delta> X Y"
    and f: "\<And>x. node_ptr (f x) = node_ptr x \<and> node_proc (f x) = node_proc x \<and> node_refs (f x) = node_refs x \<and>
      internal_strong_refs (f x) = internal_strong_refs x + k"
  shows "refs_hole (upd_node n f s) (\<delta>(n := \<delta> n + k)) X Y"
proof -
  let ?s = "upd_node n f s"
  have keys: "node_key ?s = node_key s" "nodes_of_proc ?s = nodes_of_proc s"
    using f by (auto simp: fun_eq_iff node_key_def nodes_of_proc_def split: option.split)
  have same: "desc_key ?s = desc_key s" "ref_node_key ?s = ref_node_key s" "refs_of_proc ?s = refs_of_proc s"
    "refs_of_node ?s = refs_of_node s" "strong_refs ?s = strong_refs s"
    by (simp_all add: fun_eq_iff desc_key_def ref_node_key_def refs_of_proc_def refs_of_node_def strong_refs_def)
  show ?thesis using h f by (auto simp: refs_hole_defs keys same)
qed

lemma hole_ref_update:
  assumes h: "refs_hole s \<delta> X Y" and Y: "finite Y" and r: "ref_at s r = Some x" and n: "node_at s (ref_node x) \<noteq> None"
    and f: "ref_proc (f x) = ref_proc x" "ref_node (f x) = ref_node x" "desc (f x) = desc x"
    and k: "k = (if strong x = 0 \<and> strong (f x) \<noteq> 0 then - 1
                 else if strong x \<noteq> 0 \<and> strong (f x) = 0 then 1 else 0)"
  shows "refs_hole (upd_ref r f s) (\<delta>(ref_node x := \<delta> (ref_node x) + k)) X Y"
proof -
  let ?s = "upd_ref r f s" and ?n = "ref_node x"
  have same: "node_key ?s = node_key s" "nodes_of_proc ?s = nodes_of_proc s" "desc_key ?s = desc_key s"
    "ref_node_key ?s = ref_node_key s" "refs_of_proc ?s = refs_of_proc s" "refs_of_node ?s = refs_of_node s"
    using f r by (auto simp: fun_eq_iff node_key_def nodes_of_proc_def desc_key_def ref_node_key_def
        refs_of_proc_def refs_of_node_def)
  have other: "strong_refs ?s m = strong_refs s m" if "m \<noteq> ?n" for m
    using f r that by (auto simp: strong_refs_def)
  have mine: "strong_refs ?s ?n = (if strong (f x) \<noteq> 0 then insert r (strong_refs s ?n) else strong_refs s ?n - {r})"
    using f r by (auto simp: strong_refs_def)
  have mem: "r \<in> strong_refs s ?n \<longleftrightarrow> strong x \<noteq> 0" using r by (auto simp: strong_refs_def)
  from n obtain y where "node_at s ?n = Some y" by auto
  then have fin: "finite (strong_refs s ?n)" by (rule finite_strong [OF h Y])
  then have "(word_of_nat (card (strong_refs ?s ?n)) :: c_int) = word_of_nat (card (strong_refs s ?n)) - k"
  proof (cases "strong x = 0")
    case True
    with mem fin have "card (insert r (strong_refs s ?n)) = Suc (card (strong_refs s ?n))"
      and "strong_refs s ?n - {r} = strong_refs s ?n" by auto
    with True show ?thesis by (simp add: mine k)
  next
    case False
    with mem have "r \<in> strong_refs s ?n" by simp
    then have "insert r (strong_refs s ?n) = strong_refs s ?n"
      and "card (strong_refs s ?n) = Suc (card (strong_refs s ?n - {r}))"
      using card.remove [OF fin] by auto
    with False show ?thesis by (simp add: mine k)
  qed
  then have "node_refs_ok ?s (\<delta>(?n := \<delta> ?n + k)) Y m z" if "node_at s m = Some z" for m z
    using h that other [of m] by (cases "m = ?n") (auto simp: refs_hole_defs same)
  moreover have "ref_ok ?s Y q z" if "ref_at ?s q = Some z" for q z
    using h that f r by (cases "q = r") (auto simp: refs_hole_defs)
  ultimately show ?thesis using h by (auto simp: refs_hole_def proc_trees_ok_def same)
qed

section \<open>Taking a reference away\<close>

lemma hole_erase_ref:
  assumes h: "refs_hole s \<delta> {} {}" and rb: "rb_ok env" and r: "ref_at s r = Some x"
  shows "refs_hole (upd_proc (ref_proc x) (\<lambda>pr. pr\<lparr>refs_by_desc := rb_erase env r (refs_by_desc pr),
            refs_by_node := rb_erase env r (refs_by_node pr)\<rparr>) s) \<delta> {r} {}"
    (is "refs_hole ?s \<delta> {r} {}")
proof -
  have same: "node_key ?s = node_key s" "nodes_of_proc ?s = nodes_of_proc s" "desc_key ?s = desc_key s"
    "ref_node_key ?s = ref_node_key s" "refs_of_proc ?s = refs_of_proc s" "refs_of_node ?s = refs_of_node s"
    "strong_refs ?s = strong_refs s"
    by (simp_all add: fun_eq_iff node_key_def nodes_of_proc_def desc_key_def ref_node_key_def
        refs_of_proc_def refs_of_node_def strong_refs_def)
  have mem: "r \<in> refs_of_proc s q \<longleftrightarrow> q = ref_proc x" for q using r by (auto simp: refs_of_proc_def)
  have erase: "keyed k (inorder (rb_erase env r t)) \<and> set (inorder (rb_erase env r t)) = A - {r}"
    if "keyed k (inorder t)" "set (inorder t) = A" "r \<in> A" for k :: "nat \<Rightarrow> 'k::linorder" and t A
  proof -
    have d: "distinct (inorder t)" by (rule keyed_distinct [OF that(1)])
    have "inorder (rb_erase env r t) = remove1 r (inorder t)"
      using that by (intro rb_ok_erase [OF rb d]) (simp del: set_inorder)
    then show ?thesis using that d by (simp add: keyed_remove1 del: set_inorder)
  qed
  have "proc_trees_ok ?s {r} q pr" if q: "proc_at ?s q = Some pr" for q pr
  proof (cases "q = ref_proc x")
    case True
    with q obtain pr0 where pr0: "proc_at s q = Some pr0"
      "pr = pr0\<lparr>refs_by_desc := rb_erase env r (refs_by_desc pr0), refs_by_node := rb_erase env r (refs_by_node pr0)\<rparr>"
      by auto
    from h pr0(1) have "proc_trees_ok s {} q pr0" by (simp add: refs_hole_def)
    then have k: "keyed (desc_key s) (inorder (refs_by_desc pr0))" "set (inorder (refs_by_desc pr0)) = refs_of_proc s q"
      "keyed (ref_node_key s) (inorder (refs_by_node pr0))" "set (inorder (refs_by_node pr0)) = refs_of_proc s q"
      "keyed (node_key s) (inorder (nodes_root pr0))" "set (inorder (nodes_root pr0)) = nodes_of_proc s q"
      by (simp_all add: proc_trees_ok_def)
    have "r \<in> refs_of_proc s q" using mem True by simp
    with erase [OF k(1,2)] erase [OF k(3,4)] k(5,6) show ?thesis
      unfolding proc_trees_ok_def same pr0(2) by (simp del: set_inorder)
  next
    case False
    with q h have "proc_trees_ok s {} q pr" by (simp add: refs_hole_def)
    moreover have "r \<notin> refs_of_proc s q" using mem False by simp
    ultimately show ?thesis unfolding proc_trees_ok_def same by simp
  qed
  moreover have live: "proc_at ?s q = None \<longleftrightarrow> proc_at s q = None" for q by simp
  moreover have "node_refs_ok ?s \<delta> {} n y" if "node_at ?s n = Some y" for n y
    using that h unfolding refs_hole_def node_refs_ok_def same live by simp
  moreover have "ref_ok ?s {} q z" if "ref_at ?s q = Some z" for q z
    using that h unfolding refs_hole_def ref_ok_def same live by simp
  moreover have "lists_ok ?s" using refs_hole_lists [OF h] by simp
  ultimately show ?thesis by (simp only: refs_hole_def) blast
qed

lemma hole_unlink_ref:
  assumes h: "refs_hole s \<delta> X Y" and r: "ref_at s r = Some x"
  shows "refs_hole (upd_node (ref_node x) (\<lambda>y. y\<lparr>node_refs := remove1 r (node_refs y)\<rparr>) s) \<delta> X (insert r Y)"
    (is "refs_hole ?s \<delta> X ?Y")
proof -
  have same: "node_key ?s = node_key s" "nodes_of_proc ?s = nodes_of_proc s" "desc_key ?s = desc_key s"
    "ref_node_key ?s = ref_node_key s" "refs_of_proc ?s = refs_of_proc s" "refs_of_node ?s = refs_of_node s"
    "strong_refs ?s = strong_refs s"
    by (auto simp add: fun_eq_iff node_key_def nodes_of_proc_def desc_key_def ref_node_key_def
        refs_of_proc_def refs_of_node_def strong_refs_def split: option.split)
  have mem: "r \<in> refs_of_node s n \<longleftrightarrow> n = ref_node x" for n using r by (auto simp: refs_of_node_def)
  have "node_refs_ok ?s \<delta> ?Y n y" if y: "node_at ?s n = Some y" for n y
  proof (cases "n = ref_node x")
    case True
    with y obtain y0 where "node_at s n = Some y0" "y = y0\<lparr>node_refs := remove1 r (node_refs y0)\<rparr>" by auto
    with h show ?thesis by (auto simp: refs_hole_def node_refs_ok_def same)
  next
    case False
    with y h have "node_refs_ok s \<delta> Y n y" by (simp add: refs_hole_def)
    moreover have "r \<notin> refs_of_node s n" using mem False by simp
    ultimately show ?thesis by (auto simp: node_refs_ok_def same)
  qed
  moreover have live: "node_at ?s m = None \<longleftrightarrow> node_at s m = None" for m by simp
  moreover have "proc_trees_ok ?s X q pr" if "proc_at ?s q = Some pr" for q pr
    using that h unfolding refs_hole_def proc_trees_ok_def same by simp
  moreover have "ref_ok ?s ?Y q z" if "ref_at ?s q = Some z" for q z
    using that h unfolding refs_hole_def ref_ok_def same live by simp
  moreover have "lists_ok ?s" using refs_hole_lists [OF h] by simp
  ultimately show ?thesis by (simp only: refs_hole_def) blast
qed

text \<open>The reference itself is freed: its share of the node's count goes with it.\<close>

lemma hole_free_ref:
  assumes h: "refs_hole s \<delta> {r} {r}" and r: "ref_at s r = Some x"
    and k: "k = (if strong x \<noteq> 0 then 1 else 0)"
  shows "refs_hole (s\<lparr>ref_at := (ref_at s)(r := None)\<rparr>) (\<delta>(ref_node x := \<delta> (ref_node x) + k)) {} {}"
    (is "refs_hole ?s _ {} {}")
proof -
  have keys: "node_key ?s = node_key s" "nodes_of_proc ?s = nodes_of_proc s"
    by (auto simp: fun_eq_iff node_key_def nodes_of_proc_def)
  have key: "desc_key ?s q = desc_key s q" "ref_node_key ?s q = ref_node_key s q" if "q \<noteq> r" for q
    using that by (simp_all add: desc_key_def ref_node_key_def)
  have sets: "refs_of_proc ?s q = refs_of_proc s q - {r}" "refs_of_node ?s n = refs_of_node s n - {r}"
    "strong_refs ?s n = strong_refs s n - {r}" for q n
    by (auto simp: refs_of_proc_def refs_of_node_def strong_refs_def)
  have "proc_trees_ok ?s {} q pr" if "proc_at ?s q = Some pr" for q pr
  proof -
    from that h have p: "proc_trees_ok s {r} q pr" by (simp add: refs_hole_def)
    have "keyed (desc_key ?s) (inorder (refs_by_desc pr))"
      using p keyed_cong [of "inorder (refs_by_desc pr)" "desc_key ?s" "desc_key s"] key
      by (fastforce simp: proc_trees_ok_def)
    moreover have "keyed (ref_node_key ?s) (inorder (refs_by_node pr))"
      using p keyed_cong [of "inorder (refs_by_node pr)" "ref_node_key ?s" "ref_node_key s"] key
      by (fastforce simp: proc_trees_ok_def)
    ultimately show ?thesis using p by (simp add: proc_trees_ok_def sets keys)
  qed
  moreover have "node_refs_ok ?s (\<delta>(ref_node x := \<delta> (ref_node x) + k)) {} n y" if y: "node_at ?s n = Some y" for n y
  proof -
    from y h have o: "node_refs_ok s \<delta> {r} n y" by (simp add: refs_hole_def)
    have fin: "finite (strong_refs s n)" using y by (intro finite_strong [OF h]) simp_all
    have mem: "r \<in> strong_refs s n \<longleftrightarrow> n = ref_node x \<and> strong x \<noteq> 0" using r by (auto simp: strong_refs_def)
    have "(word_of_nat (card (strong_refs s n)) :: c_int) = word_of_nat (card (strong_refs s n - {r})) + (if n = ref_node x then k else 0)"
    proof (cases "r \<in> strong_refs s n")
      case True
      with card.remove [OF fin True] mem show ?thesis by (simp add: k)
    next
      case False
      then have "strong_refs s n - {r} = strong_refs s n" by simp
      with False mem show ?thesis by (simp add: k)
    qed
    with o show ?thesis by (auto simp: node_refs_ok_def sets)
  qed
  moreover have "ref_ok ?s {} q z" if "ref_at ?s q = Some z" for q z
    using h that by (auto simp: refs_hole_def ref_ok_def split: if_splits)
  moreover have "lists_ok ?s" using h by (simp add: refs_hole_def lists_ok_def)
  ultimately show ?thesis by (simp add: refs_hole_def)
qed

section \<open>Freeing a node\<close>

definition freed_node :: "'e kenv_scheme \<Rightarrow> nat \<Rightarrow> binder_node \<Rightarrow> driver \<Rightarrow> driver" where
  "freed_node env n x s =
     (let s = list_del_init (Node_work n) s;
          s = (case node_proc x of
                  Some p \<Rightarrow> upd_proc p (\<lambda>pr. pr\<lparr>nodes_root := rb_erase env n (nodes_root pr)\<rparr>) s
                | None \<Rightarrow> s\<lparr>binder_dead_nodes := remove1 n (binder_dead_nodes s)\<rparr>)
      in binder_stats_deleted Stat_node (s\<lparr>node_at := (node_at s)(n := None)\<rparr>))"

lemma freed_node_fields [simp]:
  "node_at (freed_node env n x s) = (node_at s)(n := None)" "ref_at (freed_node env n x s) = ref_at s"
  "death_at (freed_node env n x s) = death_at s" "thread_at (freed_node env n x s) = thread_at s"
  "txn_at (freed_node env n x s) = txn_at s" "context_mgr_node (freed_node env n x s) = context_mgr_node s"
  "mem_ops (freed_node env n x s) = mem_ops s" "last_id (freed_node env n x s) = last_id s"
  "proc_at (freed_node env n x s) = (case node_proc x of None \<Rightarrow> proc_at s
     | Some p \<Rightarrow> (proc_at s)(p := map_option (\<lambda>pr. pr\<lparr>nodes_root := rb_erase env n (nodes_root pr)\<rparr>) (proc_at s p)))"
  by (simp_all add: freed_node_def Let_def split: option.split)

lemma freed_node_lists: "lists_ok s \<Longrightarrow> lists_ok (freed_node env n x s)"
proof -
  assume "lists_ok s"
  then have "lists_ok (list_del_init (Node_work n) s)" by (rule list_del_init_ok)
  moreover have "lists (freed_node env n x s) = lists (list_del_init (Node_work n) s)"
    "linked (freed_node env n x s) = linked (list_del_init (Node_work n) s)"
    by (simp_all add: freed_node_def Let_def split: option.split)
  ultimately show ?thesis using lists_ok_cong by blast
qed

lemma hole_free_node:
  assumes h: "refs_hole s \<delta> X Y" and rb: "rb_ok env" and n: "node_at s n = Some x" and e: "node_refs x = []"
  shows "refs_hole (freed_node env n x s) \<delta> X Y" (is "refs_hole ?s \<delta> X Y")
proof -
  have same: "desc_key ?s = desc_key s" "ref_node_key ?s = ref_node_key s" "refs_of_proc ?s = refs_of_proc s"
    "refs_of_node ?s = refs_of_node s" "strong_refs ?s = strong_refs s"
    by (simp_all add: fun_eq_iff desc_key_def ref_node_key_def refs_of_proc_def refs_of_node_def strong_refs_def)
  have nodes: "nodes_of_proc ?s q = nodes_of_proc s q - {n}" for q by (auto simp: nodes_of_proc_def)
  have key: "node_key ?s m = node_key s m" if "m \<noteq> n" for m using that by (simp add: node_key_def)
  have live: "proc_at ?s q = None \<longleftrightarrow> proc_at s q = None" for q by (simp split: option.split)
  have "node_refs_ok s \<delta> Y n x" using h n by (simp add: refs_hole_def)
  then have refs: "refs_of_node s n \<subseteq> Y" using e by (simp add: node_refs_ok_def)
  have "proc_trees_ok ?s X q pr" if q: "proc_at ?s q = Some pr" for q pr
  proof -
    obtain pr0 where pr0: "proc_at s q = Some pr0"
      and v: "refs_by_desc pr = refs_by_desc pr0" "refs_by_node pr = refs_by_node pr0"
        "nodes_root pr = (if node_proc x = Some q then rb_erase env n (nodes_root pr0) else nodes_root pr0)"
      using q by (auto split: option.splits if_splits)
    from h pr0 have o: "proc_trees_ok s X q pr0" by (simp add: refs_hole_def)
    then have k: "keyed (node_key s) (inorder (nodes_root pr0))" "set (inorder (nodes_root pr0)) = nodes_of_proc s q"
      by (simp_all add: proc_trees_ok_def)
    have d: "distinct (inorder (nodes_root pr0))" by (rule keyed_distinct [OF k(1)])
    have mem: "n \<in> nodes_of_proc s q \<longleftrightarrow> node_proc x = Some q" using n by (auto simp: nodes_of_proc_def)
    have t: "keyed (node_key s) (inorder (nodes_root pr)) \<and> set (inorder (nodes_root pr)) = nodes_of_proc s q - {n}"
    proof (cases "node_proc x = Some q")
      case True
      then have "inorder (nodes_root pr) = remove1 n (inorder (nodes_root pr0))"
        using mem k unfolding v by (simp add: rb_ok_erase [OF rb d] del: set_inorder)
      with k d show ?thesis by (simp add: keyed_remove1 del: set_inorder)
    next
      case False
      with mem k v show ?thesis by auto
    qed
    then have "keyed (node_key ?s) (inorder (nodes_root pr))"
      using keyed_cong [of "inorder (nodes_root pr)" "node_key ?s" "node_key s"] key by fastforce
    with t o v show ?thesis by (simp add: proc_trees_ok_def same nodes)
  qed
  moreover have "node_refs_ok ?s \<delta> Y m y" if "node_at ?s m = Some y" for m y
    using h that unfolding refs_hole_def node_refs_ok_def same live by (simp split: if_splits)
  moreover have "ref_ok ?s Y q z" if q: "ref_at ?s q = Some z" for q z
  proof -
    have "q \<in> Y" if "ref_node z = n" using q that refs by (auto simp: refs_of_node_def)
    with h q show ?thesis unfolding refs_hole_def ref_ok_def live by auto
  qed
  moreover have "lists_ok ?s" using h by (intro freed_node_lists) (simp add: refs_hole_def)
  ultimately show ?thesis by (simp add: refs_hole_def)
qed

section \<open>New objects\<close>

lemma hole_new_node:
  assumes h: "refs_hole s \<delta> X Y" and rb: "rb_ok env" and pr: "proc_at s p = Some pr"
    and fresh: "node_at s a = None" "refs_of_node s a = {}" "\<delta> a = 0"
    and x: "node_proc x = Some p" "node_refs x = []" "internal_strong_refs x = 0"
    and none: "rb_search (node_key s) (node_ptr x) (nodes_root pr) = None"
    and link: "rb_link (node_key s) (node_ptr x) a (nodes_root pr) = Some t"
    and s': "proc_at s' = (proc_at s)(p := Some (pr\<lparr>nodes_root := rb_insert_color env a t\<rparr>))"
      "node_at s' = (node_at s)(a := Some x)" "ref_at s' = ref_at s" "lists_ok s'"
  shows "refs_hole s' \<delta> X Y"
proof -
  have same: "desc_key s' = desc_key s" "ref_node_key s' = ref_node_key s" "refs_of_proc s' = refs_of_proc s"
    "refs_of_node s' = refs_of_node s" "strong_refs s' = strong_refs s"
    by (simp_all add: fun_eq_iff desc_key_def ref_node_key_def refs_of_proc_def refs_of_node_def strong_refs_def s')
  have nodes: "nodes_of_proc s' q = (if q = p then insert a (nodes_of_proc s q) else nodes_of_proc s q)" for q
    using x(1) fresh(1) by (auto simp: nodes_of_proc_def s')
  have key: "node_key s' m = node_key s m" if "m \<noteq> a" for m using that by (simp add: node_key_def s')
  have anot: "a \<notin> nodes_of_proc s q" for q using fresh(1) by (simp add: nodes_of_proc_def)
  have live: "proc_at s' q = None \<longleftrightarrow> proc_at s q = None" for q using pr by (simp add: s')
  have p: "keyed (node_key s) (inorder (nodes_root pr))" "set (inorder (nodes_root pr)) = nodes_of_proc s p"
    using h pr by (simp_all add: refs_hole_def proc_trees_ok_def)
  have "proc_trees_ok s' X q pr'" if q: "proc_at s' q = Some pr'" for q pr'
  proof (cases "q = p")
    case True
    from h pr have o: "proc_trees_ok s X p pr" by (simp add: refs_hole_def)
    have i: "inorder t = key_insert (node_key s) (node_ptr x) a (inorder (nodes_root pr))"
      by (rule inorder_rb_link [OF p(1) link])
    have "\<forall>m \<in> set (inorder (nodes_root pr)). node_key s m \<noteq> node_ptr x"
      using none rb_search_None [OF p(1)] by simp
    then have "\<forall>m \<in> set (inorder (nodes_root pr)). node_key s' m \<noteq> node_ptr x"
      using anot p(2) key by (metis)
    moreover have "keyed (node_key s') (inorder (nodes_root pr))"
      using p anot keyed_cong [of "inorder (nodes_root pr)" "node_key s'" "node_key s"] key by metis
    moreover have "node_key s' a = node_ptr x" by (simp add: node_key_def s')
    moreover have "key_insert (node_key s) (node_ptr x) a xs = key_insert (node_key s') (node_ptr x) a xs"
      if "a \<notin> set xs" for xs
      using that key by (induction xs) auto
    then have "inorder t = key_insert (node_key s') (node_ptr x) a (inorder (nodes_root pr))"
      using i anot p(2) by metis
    ultimately have "keyed (node_key s') (inorder t)" by (simp add: keyed_key_insert del: set_inorder)
    with o q True i p(2) rb show ?thesis
      by (simp add: proc_trees_ok_def same nodes s' del: set_inorder) (auto simp del: set_inorder)
  next
    case False
    with q h have o: "proc_trees_ok s X q pr'" by (simp add: refs_hole_def s')
    then have "a \<notin> set (inorder (nodes_root pr'))" using anot by (simp add: proc_trees_ok_def)
    then have "keyed (node_key s') (inorder (nodes_root pr')) = keyed (node_key s) (inorder (nodes_root pr'))"
      using key by (intro keyed_cong) metis
    with o False show ?thesis by (simp add: proc_trees_ok_def same nodes)
  qed
  moreover have "node_refs_ok s' \<delta> Y m y" if "node_at s' m = Some y" for m y
  proof (cases "m = a")
    case True
    have "strong_refs s a = {}" using fresh(2) by (auto simp: strong_refs_def refs_of_node_def)
    with True that x fresh pr show ?thesis by (simp add: node_refs_ok_def same s')
  next
    case False
    with that h show ?thesis unfolding refs_hole_def node_refs_ok_def same live s' by simp
  qed
  moreover have "ref_ok s' Y q z" if "ref_at s' q = Some z" for q z
    using that h unfolding refs_hole_def ref_ok_def live s' by simp
  ultimately show ?thesis using s'(4) by (simp add: refs_hole_def)
qed

lemma next_desc_least:
  assumes "keyed key rs" "\<forall>r \<in> set rs. unat d \<le> Suc (unat (key r))" "unat d + length rs < addr_bound"
  shows "d \<le> next_desc key rs d \<and> (\<forall>r \<in> set rs. key r \<noteq> next_desc key rs d) \<and>
     (\<forall>y. d \<le> y \<longrightarrow> y < next_desc key rs d \<longrightarrow> (\<exists>r \<in> set rs. key r = y))"
  using assms
proof (induction key rs d rule: next_desc.induct)
  case (2 key r rs d)
  from 2(2) have above: "\<forall>y \<in> set rs. key r < key y" and k: "keyed key rs" by (simp_all add: keyed_Cons)
  show ?case
  proof (cases "key r > d")
    case True
    with above show ?thesis by (auto intro: less_trans)
  next
    case False
    then have le: "unat (key r) \<le> unat d" by (simp add: word_le_nat_alt not_less)
    let ?d = "key r + 1" and ?e = "next_desc key rs (key r + 1)"
    have u: "unat ?d = Suc (unat (key r))"
      using le 2(4) by (simp add: unat_word_ariths)
    have IH: "?d \<le> ?e \<and> (\<forall>r \<in> set rs. key r \<noteq> ?e) \<and> (\<forall>y. ?d \<le> y \<longrightarrow> y < ?e \<longrightarrow> (\<exists>r \<in> set rs. key r = y))"
    proof (rule 2(1) [OF False k])
      show "\<forall>q \<in> set rs. unat ?d \<le> Suc (unat (key q))"
        using above u by (auto simp: word_less_nat_alt less_imp_le)
      show "unat ?d + length rs < addr_bound" using u le 2(4) by simp
    qed
    have "d \<le> ?d" using 2(3) u by (simp add: word_le_nat_alt)
    moreover have "key r < ?d" using u by (simp add: word_less_nat_alt)
    moreover have "y = key r" if "d \<le> y" "y < ?d" for y
    proof -
      have "unat y = unat (key r)" using that u le by (simp add: word_le_nat_alt word_less_nat_alt)
      then show ?thesis by (rule word_unat_eq_iff [THEN iffD2])
    qed
    ultimately show ?thesis using False IH by (auto simp: not_less) (metis not_less order_less_trans)+
  qed
qed auto

lemma keyed_link_insert:
  assumes "keyed key (inorder t)" "rb_link key (key' a) a t = Some t'" "rb_ok rb"
    and "a \<notin> set (inorder t)" "\<And>b. b \<noteq> a \<Longrightarrow> key' b = key b"
  shows "keyed key' (inorder (rb_insert_color rb a t')) \<and>
     set (inorder (rb_insert_color rb a t')) = insert a (set (inorder t))"
proof -
  have i: "inorder t' = key_insert key (key' a) a (inorder t)" by (rule inorder_rb_link [OF assms(1,2)])
  have ki: "key_insert key k a xs = key_insert key' k a xs" if "a \<notin> set xs" for xs k
    using that assms(5) by (induction xs) auto
  have same: "\<And>b. b \<in> set (inorder t) \<Longrightarrow> key' b = key b" using assms(4,5) by metis
  have k': "keyed key' (inorder t)" using assms(1) keyed_cong [of "inorder t" key' key] same by metis
  have "\<forall>b \<in> set (inorder t). key b \<noteq> key' a"
    using rb_link_None [OF assms(1), of "key' a" a] assms(2) by force
  then have "\<forall>b \<in> set (inorder t). key' b \<noteq> key' a" using same by metis
  with k' have "keyed key' (key_insert key' (key' a) a (inorder t))" by (intro keyed_key_insert) simp_all
  with i ki [OF assms(4)] assms(3) show ?thesis by (simp del: set_inorder)
qed

lemma hole_new_ref:
  assumes h: "refs_hole s \<delta> {} {}" and rb: "rb_ok env" and pr: "proc_at s p = Some pr"
    and n: "node_at s n = Some x" and fresh: "ref_at s r = None"
    and y: "ref_proc y = p" "ref_node y = n" "strong y = 0" "weak y = 0"
    and link: "rb_link (ref_node_key s) n r (refs_by_node pr) = Some tn"
      "rb_link (desc_key s) (desc y) r (refs_by_desc pr) = Some td"
    and s': "proc_at s' = (proc_at s)(p := Some (pr\<lparr>refs_by_node := rb_insert_color env r tn,
                                                  refs_by_desc := rb_insert_color env r td\<rparr>))"
      "node_at s' = (node_at s)(n := Some (x\<lparr>node_refs := r # node_refs x\<rparr>))"
      "ref_at s' = (ref_at s)(r := Some y)" "lists_ok s'"
  shows "refs_hole s' \<delta> {} {}"
proof -
  have nodes: "node_key s' = node_key s" "nodes_of_proc s' = nodes_of_proc s"
    using n by (auto simp: fun_eq_iff node_key_def nodes_of_proc_def s')
  have sets: "refs_of_proc s' q = (if q = p then insert r (refs_of_proc s q) else refs_of_proc s q)"
    "refs_of_node s' m = (if m = n then insert r (refs_of_node s m) else refs_of_node s m)"
    "strong_refs s' m = strong_refs s m" for q m
    using y fresh by (auto simp: refs_of_proc_def refs_of_node_def strong_refs_def s')
  have rnot: "r \<notin> refs_of_proc s q" "r \<notin> refs_of_node s m" for q m
    using fresh by (simp_all add: refs_of_proc_def refs_of_node_def)
  have key: "desc_key s' q = desc_key s q" "ref_node_key s' q = ref_node_key s q" if "q \<noteq> r" for q
    using that by (simp_all add: desc_key_def ref_node_key_def s')
  have keyr: "desc_key s' r = desc y" "ref_node_key s' r = n"
    using y by (simp_all add: desc_key_def ref_node_key_def s')
  have live: "proc_at s' q = None \<longleftrightarrow> proc_at s q = None" "node_at s' q = None \<longleftrightarrow> node_at s q = None" for q
    using pr n by (simp_all add: s')
  have "proc_trees_ok s' {} q pr'" if q: "proc_at s' q = Some pr'" for q pr'
  proof (cases "q = p")
    case True
    from h pr have o: "proc_trees_ok s {} p pr" by (simp add: refs_hole_def)
    then have k: "keyed (desc_key s) (inorder (refs_by_desc pr))" "set (inorder (refs_by_desc pr)) = refs_of_proc s p"
      "keyed (ref_node_key s) (inorder (refs_by_node pr))" "set (inorder (refs_by_node pr)) = refs_of_proc s p"
      by (simp_all add: proc_trees_ok_def)
    have "keyed (desc_key s') (inorder (rb_insert_color env r td)) \<and>
        set (inorder (rb_insert_color env r td)) = insert r (refs_of_proc s p)"
      using keyed_link_insert [OF k(1), of "desc_key s'" r td env] link(2) rb rnot key keyr k(2)
      by (simp del: set_inorder rb_ok_insert_color)
    moreover have "keyed (ref_node_key s') (inorder (rb_insert_color env r tn)) \<and>
        set (inorder (rb_insert_color env r tn)) = insert r (refs_of_proc s p)"
      using keyed_link_insert [OF k(3), of "ref_node_key s'" r tn env] link(1) rb rnot key keyr k(4)
      by (simp del: set_inorder rb_ok_insert_color)
    moreover have "pr' = pr\<lparr>refs_by_node := rb_insert_color env r tn, refs_by_desc := rb_insert_color env r td\<rparr>"
      using q True by (simp add: s')
    ultimately show ?thesis using o True by (simp add: proc_trees_ok_def nodes sets del: set_inorder rb_ok_insert_color)
  next
    case False
    with q h have o: "proc_trees_ok s {} q pr'" by (simp add: refs_hole_def s')
    then have "r \<notin> set (inorder (refs_by_desc pr'))" "r \<notin> set (inorder (refs_by_node pr'))"
      using rnot by (simp_all add: proc_trees_ok_def)
    then have "keyed (desc_key s') (inorder (refs_by_desc pr')) = keyed (desc_key s) (inorder (refs_by_desc pr'))"
      "keyed (ref_node_key s') (inorder (refs_by_node pr')) = keyed (ref_node_key s) (inorder (refs_by_node pr'))"
      using key by (intro keyed_cong; metis)+
    with o False show ?thesis by (simp add: proc_trees_ok_def nodes sets)
  qed
  moreover have "node_refs_ok s' \<delta> {} m z" if m: "node_at s' m = Some z" for m z
  proof -
    obtain z0 where z0: "node_at s m = Some z0"
      "z = (if m = n then z0\<lparr>node_refs := r # node_refs z0\<rparr> else z0)"
      using m n by (auto simp: s' split: if_splits)
    from h z0(1) have "node_refs_ok s \<delta> {} m z0" by (simp add: refs_hole_def)
    with z0(2) rnot(2) show ?thesis unfolding node_refs_ok_def live sets by (auto split: if_splits)
  qed
  moreover have "ref_ok s' {} q z" if q: "ref_at s' q = Some z" for q z
  proof (cases "q = r")
    case True
    with q y pr n show ?thesis by (simp add: ref_ok_def s')
  next
    case False
    with q h show ?thesis unfolding refs_hole_def ref_ok_def live s' by simp
  qed
  ultimately show ?thesis using s'(4) by (simp add: refs_hole_def)
qed

section \<open>The counting operations\<close>

text \<open>
  \<open>counted\<close> is what binder_inc_node and binder_dec_node do to the node itself.
\<close>

definition counted :: "bool \<Rightarrow> bool \<Rightarrow> c_int \<Rightarrow> binder_node \<Rightarrow> binder_node" where
  "counted str internal k x =
     (if str then if internal then x\<lparr>internal_strong_refs := internal_strong_refs x + k\<rparr>
                  else x\<lparr>local_strong_refs := local_strong_refs x + k\<rparr>
      else if internal then x else x\<lparr>local_weak_refs := local_weak_refs x + k\<rparr>)"

lemma counted_fields [simp]:
  "node_ptr (counted t i k x) = node_ptr x" "node_proc (counted t i k x) = node_proc x"
  "node_refs (counted t i k x) = node_refs x" "has_strong_ref (counted t i k x) = has_strong_ref x"
  "has_weak_ref (counted t i k x) = has_weak_ref x"
  "internal_strong_refs (counted t i k x) = internal_strong_refs x + (if t \<and> i then k else 0)"
  "local_strong_refs (counted t i k x) = local_strong_refs x + (if t \<and> \<not> i then k else 0)"
  "local_weak_refs (counted t i k x) = local_weak_refs x + (if \<not> t \<and> \<not> i then k else 0)"
  by (simp_all add: counted_def)

lemma hole_counted:
  "refs_hole s \<delta> X Y \<Longrightarrow>
   refs_hole (upd_node n (counted t i k) s) (\<delta>(n := \<delta> n + (if t \<and> i then k else 0))) X Y"
  by (rule hole_internal) simp_all

lemma upd_node_id: "node_at s n = Some x \<Longrightarrow> f x = x \<Longrightarrow> upd_node n f s = s"
  by (simp add: upd_node_def fun_upd_idem)

lemma binder_inc_node_cases:
  assumes n: "node_at s n = Some x" and l: "lists_ok s"
  obtains (refused) s1 where "binder_inc_node n t i h s = Some (- EINVAL, s1)"
      "h = None" "s1 = (if t then s else upd_node n (counted t i 1) s)"
    | (counts) s' where "binder_inc_node n t i h s = Some (0, s')" "lists_ok s'"
        "only_lists (upd_node n (counted t i 1) s) s'"
proof (cases t)
  case True
  have e: "upd_node n (counted t i 1) s = upd_node n (\<lambda>x. if i
       then x\<lparr>internal_strong_refs := internal_strong_refs x + 1\<rparr>
       else x\<lparr>local_strong_refs := local_strong_refs x + 1\<rparr>) s"
    using True by (simp add: counted_def [abs_def])
  show ?thesis
  proof (cases "i \<and> h = None \<and> internal_strong_refs x = 0 \<and> \<not> (Some n = context_mgr_node s \<and> has_strong_ref x)")
    case True
    with \<open>t\<close> n show ?thesis by (intro refused [of s]) (auto simp: binder_inc_node_def)
  next
    case False
    let ?s = "upd_node n (counted t i 1) s"
    show ?thesis
    proof (cases "h \<noteq> None \<and> \<not> has_strong_ref x")
      case True
      then obtain hd where hd: "h = Some hd" by auto
      let ?d = "list_del_init (Node_work n) ?s"
      have d: "lists_ok ?d" "linked ?d (Node_work n) = None" using l by (simp_all add: list_del_init_ok)
      obtain s' where s': "list_add_tail (Node_work n) hd ?d = Some s'" "lists_ok s'"
        by (rule list_add_tail_ok [OF d])
      from only_lists_trans [OF _ list_add_tail_only [OF s'(1)], of ?s] have "only_lists ?s s'" by simp
      with s' True False hd n \<open>t\<close> show ?thesis
        by (intro counts [of s']) (simp_all add: binder_inc_node_def Let_def e [symmetric])
    next
      case no: False
      with False n l \<open>t\<close> show ?thesis
        by (intro counts [of ?s]) (auto simp: binder_inc_node_def Let_def e [symmetric] split: option.split)
    qed
  qed
next
  case False
  let ?s = "upd_node n (counted t i 1) s"
  have e: "?s = (if i then s else upd_node n (\<lambda>x. x\<lparr>local_weak_refs := local_weak_refs x + 1\<rparr>) s)"
    using False n by (simp add: counted_def [abs_def] upd_node_id)
  have links: "linked ?s = linked s" by simp
  show ?thesis
  proof (cases "\<not> has_weak_ref x \<and> linked s (Node_work n) = None")
    case True
    show ?thesis
    proof (cases h)
      case None
      with True False n e show ?thesis by (intro refused [of ?s]) (auto simp: binder_inc_node_def Let_def)
    next
      case (Some hd)
      obtain s' where s': "list_add_tail (Node_work n) hd ?s = Some s'" "lists_ok s'"
        by (rule list_add_tail_ok [of ?s "Node_work n"]) (use l True in simp_all)
      with Some True False n list_add_tail_only [OF s'(1)] show ?thesis
        by (intro counts [of s']) (auto simp: binder_inc_node_def Let_def e [symmetric])
    qed
  next
    case no: False
    with False n l e show ?thesis by (intro counts [of ?s]) (auto simp: binder_inc_node_def Let_def)
  qed
qed

lemma release_node_cases:
  assumes n: "node_at s n = Some x" and l: "lists_ok s"
  obtains (kept) s' where "release_node env n s = Some (0, s')" "lists_ok s'" "only_lists s s'"
    | (frees) "release_node env n s = Some (0, freed_node env n x s)" "node_refs x = []"
        "local_strong_refs x = 0" "local_weak_refs x = 0"
        "node_proc x = None \<or> \<not> has_strong_ref x \<and> \<not> has_weak_ref x"
proof (cases "node_proc x \<noteq> None \<and> (has_strong_ref x \<or> has_weak_ref x)")
  case True
  then obtain p where p: "node_proc x = Some p" by auto
  show ?thesis
  proof (cases "linked s (Node_work n) = None")
    case False
    with True p n l show ?thesis by (intro kept [of s]) (auto simp: release_node_def)
  next
    case nl: True
    obtain s' where s': "list_add_tail (Node_work n) (Proc_todo p) s = Some s'" "lists_ok s'"
      by (rule list_add_tail_ok [OF l nl])
    from only_lists_trans [OF list_add_tail_only [OF s'(1)], of "wake_up (Proc_wait p) s'"]
    have "only_lists s (wake_up (Proc_wait p) s')" by simp
    with s' True nl p n show ?thesis
      by (intro kept [of "wake_up (Proc_wait p) s'"]) (auto simp: release_node_def)
  qed
next
  case False
  show ?thesis
  proof (cases "node_refs x = [] \<and> local_strong_refs x = 0 \<and> local_weak_refs x = 0")
    case True
    with False n show ?thesis by (intro frees) (auto simp: release_node_def freed_node_def Let_def)
  next
    case no: False
    with False n l show ?thesis by (intro kept [of s]) (auto simp: release_node_def)
  qed
qed

lemma binder_dec_node_cases:
  assumes n: "node_at s n = Some x" and l: "lists_ok s"
  obtains (kept) s' where "binder_dec_node env n t i s = Some (0, s')" "lists_ok s'"
        "only_lists (upd_node n (counted t i (- 1)) s) s'"
    | (frees) "binder_dec_node env n t i s = Some (0, freed_node env n (counted t i (- 1) x) (upd_node n (counted t i (- 1)) s))"
        "node_refs x = []" "local_strong_refs (counted t i (- 1) x) = 0" "local_weak_refs (counted t i (- 1) x) = 0"
        "t \<Longrightarrow> internal_strong_refs (counted t i (- 1) x) = 0"
        "node_proc x = None \<or> \<not> has_strong_ref x \<and> \<not> has_weak_ref x"
proof -
  let ?s = "upd_node n (counted t i (- 1)) s" and ?x = "counted t i (- 1) x"
  have x: "node_at ?s n = Some ?x" using n by simp
  have ls: "lists_ok ?s" using l by simp
  define early where "early \<longleftrightarrow> (if t then local_strong_refs ?x \<noteq> 0 \<or> internal_strong_refs ?x \<noteq> 0
         else local_weak_refs ?x \<noteq> 0 \<or> node_refs ?x \<noteq> [])"
  have f: "counted t i (- 1) = (\<lambda>x. if t then (if i then x\<lparr>internal_strong_refs := internal_strong_refs x - 1\<rparr>
                            else x\<lparr>local_strong_refs := local_strong_refs x - 1\<rparr>)
               else (if i then x else x\<lparr>local_weak_refs := local_weak_refs x - 1\<rparr>))"
    by (simp add: counted_def fun_eq_iff)
  have run: "binder_dec_node env n t i s = (if early then Some (0, ?s) else release_node env n ?s)"
    using n x unfolding binder_dec_node_def f [symmetric] Let_def early_def by simp
  show ?thesis
  proof (cases early)
    case True
    with run ls show ?thesis by (intro kept [of ?s]) simp_all
  next
    case False
    show ?thesis
    proof (cases rule: release_node_cases [OF x ls, of env, case_names kept frees])
      case (kept s')
      with run False show ?thesis by (intro that(1)) simp_all
    next
      case frees
      with run False show ?thesis by (intro that(2)) (auto simp: early_def)
    qed
  qed
qed

lemma hole_dec_node:
  assumes h: "refs_hole s \<delta> X Y" and rb: "rb_ok env" and n: "node_at s n = Some x"
  obtains s' where "binder_dec_node env n t i s = Some (0, s')"
    "refs_hole s' (\<delta>(n := \<delta> n + (if t \<and> i then - 1 else 0))) X Y"
    "ref_at s' = ref_at s" "death_at s' = death_at s" "mem_ops s' = mem_ops s" "txn_at s' = txn_at s"
    "node_refs x \<noteq> [] \<Longrightarrow> node_at s' = (node_at s)(n := Some (counted t i (- 1) x))"
proof -
  let ?s = "upd_node n (counted t i (- 1)) s"
  have hs: "refs_hole ?s (\<delta>(n := \<delta> n + (if t \<and> i then - 1 else 0))) X Y" by (rule hole_counted [OF h])
  show ?thesis
  proof (cases rule: binder_dec_node_cases [OF n refs_hole_lists [OF h], of env t i, case_names kept frees])
    case (kept s')
    note same = only_lists_fields [OF kept(3)]
    from kept show ?thesis
      by (intro that [of s'] refs_hole_only_lists [OF hs]) (simp_all add: same n)
  next
    case frees
    have "node_at ?s n = Some (counted t i (- 1) x)" using n by simp
    from hole_free_node [OF hs rb this] frees show ?thesis
      by (intro that [OF frees(1)]) simp_all
  qed
qed

section \<open>Operations on references\<close>

lemma hole_ref:
  assumes "refs_hole s \<delta> {} {}" "ref_at s r = Some x"
  obtains n where "node_at s (ref_node x) = Some n" "r \<in> set (node_refs n)" "node_refs n \<noteq> []"
    "proc_at s (ref_proc x) \<noteq> None"
proof -
  from assms have o: "ref_ok s {} r x" by (simp add: refs_hole_def)
  then obtain n where n: "node_at s (ref_node x) = Some n" by (auto simp: ref_ok_def)
  with assms have "node_refs_ok s \<delta> {} (ref_node x) n" by (simp add: refs_hole_def)
  with assms(2) have "r \<in> set (node_refs n)" by (auto simp: node_refs_ok_def refs_of_node_def)
  with n o show ?thesis by (intro that [of n]) (auto simp: ref_ok_def)
qed

lemmas inv_ref = hole_ref [OF refs_inv_def [THEN iffD1]]

text \<open>
  A strong count that wraps around to 0 leaves its node with one strong count too many.
\<close>

lemma binder_inc_ref_hole:
  assumes inv: "refs_inv s" and r: "ref_at s r = Some x"
  obtains (refused) "binder_inc_ref r t h s = Some (- EINVAL, s)" "h = None" "if t then strong x = 0 else weak x = 0"
    | (counts) s' where "binder_inc_ref r t h s = Some (0, s')"
        "refs_hole s' ((\<lambda>_. 0)(ref_node x := (if t \<and> strong x = - 1 then 1 else 0))) {} {}"
        "ref_at s' = (ref_at s)(r := Some (if t then x\<lparr>strong := strong x + 1\<rparr> else x\<lparr>weak := weak x + 1\<rparr>))"
        "proc_at s' = proc_at s" "txn_at s' = txn_at s" "thread_at s' = thread_at s" "mem_ops s' = mem_ops s"
        "node_at s' (ref_node x) \<noteq> None"
proof -
  let ?f = "\<lambda>x. if t then x\<lparr>strong := strong x + 1\<rparr> else x\<lparr>weak := weak x + 1\<rparr>"
  let ?d = "(\<lambda>_. 0)(ref_node x := (if t \<and> strong x = - 1 then 1 else 0)) :: nat \<Rightarrow> c_int"
  let ?k = "(if t \<and> strong x = 0 then - 1 else if t \<and> strong x = - 1 then 1 else 0) :: c_int"
  have last: "c + 1 = 0 \<longleftrightarrow> c = - 1" for c :: c_int by (simp add: eq_neg_iff_add_eq_0)
  obtain n where n: "node_at s (ref_node x) = Some n" using inv_ref [OF inv r] by metis
  have h0: "refs_hole s (\<lambda>_. 0) {} {}" using inv by (simp add: refs_inv_def)
  have finish: "refs_hole (upd_ref r ?f s') ?d {} {}" if s': "refs_hole s' \<delta> {} {}" "ref_at s' = ref_at s"
      "node_at s' (ref_node x) \<noteq> None" "\<delta> = (\<lambda>_. 0)(ref_node x := (if t \<and> strong x = 0 then 1 else 0))" for s' \<delta>
  proof -
    have "refs_hole (upd_ref r ?f s') (\<delta>(ref_node x := \<delta> (ref_node x) + ?k)) {} {}"
      using s' r by (intro hole_ref_update [of s' \<delta> "{}" "{}" r x]) (auto simp: last)
    moreover have "\<delta>(ref_node x := \<delta> (ref_node x) + ?k) = ?d"
      using s'(4) by (auto simp: fun_eq_iff)
    ultimately show ?thesis by simp
  qed
  show ?thesis
  proof (cases "if t then strong x = 0 else weak x = 0")
    case False
    have "refs_hole (upd_ref r ?f s) ?d {} {}"
      using h0 n False by (intro finish [of s "\<lambda>_. 0"]) (auto simp: fun_eq_iff)
    with False r n show ?thesis by (intro counts [of "upd_ref r ?f s"]) (auto simp: binder_inc_ref_def)
  next
    case True
    show ?thesis
    proof (cases rule: binder_inc_node_cases [OF n refs_hole_lists [OF h0], of t True h, case_names refused counts])
      case (refused s1)
      have "s1 = s" using refused(3) n by (simp add: upd_node_id counted_def)
      with refused True r show ?thesis by (intro that(1)) (auto simp: binder_inc_ref_def)
    next
      case (counts s1)
      note same = only_lists_fields [OF counts(3)]
      have "refs_hole s1 ((\<lambda>_. 0)(ref_node x := 0 + (if t \<and> True then 1 else 0))) {} {}"
        by (rule refs_hole_only_lists [OF hole_counted [OF h0] counts(3,2)])
      then have "refs_hole (upd_ref r ?f s1) ?d {} {}"
        by (rule finish) (use True n same in \<open>auto simp: fun_eq_iff\<close>)
      with True counts(1) r same n show ?thesis
        by (intro that(2) [of "upd_ref r ?f s1"]) (auto simp: binder_inc_ref_def)
    qed
  qed
qed

lemma hole_is_filled:
  assumes "refs_hole s \<delta> {} {}" "node_at s n \<noteq> None" "refs_inv s"
  shows "\<delta> n = 0"
  using assms by (auto simp: refs_inv_def refs_hole_def node_refs_ok_def)

lemma binder_inc_ref_ok:
  assumes inv: "refs_inv s" and r: "ref_at s r = Some x"
  obtains (refused) "binder_inc_ref r t h s = Some (- EINVAL, s)" "h = None" "if t then strong x = 0 else weak x = 0"
    | (counts) s' where "binder_inc_ref r t h s = Some (0, s')" "refs_inv s' \<longleftrightarrow> \<not> (t \<and> strong x = - 1)"
        "ref_at s' = (ref_at s)(r := Some (if t then x\<lparr>strong := strong x + 1\<rparr> else x\<lparr>weak := weak x + 1\<rparr>))"
        "proc_at s' = proc_at s" "txn_at s' = txn_at s" "thread_at s' = thread_at s" "mem_ops s' = mem_ops s"
        "\<exists>\<delta>. refs_hole s' \<delta> {} {}"
proof (cases rule: binder_inc_ref_hole [OF inv r, of t h, case_names refused counts])
  case refused
  then show ?thesis by (intro that(1)) auto
next
  case (counts s')
  have "refs_inv s' \<longleftrightarrow> \<not> (t \<and> strong x = - 1)"
  proof (cases "t \<and> strong x = - 1")
    case True
    with hole_is_filled [OF counts(2,8)] show ?thesis by auto
  next
    case False
    then have "((\<lambda>_. 0)(ref_node x := (if t \<and> strong x = - 1 then 1 else 0))) = ((\<lambda>_. 0) :: nat \<Rightarrow> c_int)"
      by auto
    with counts(2) have "refs_inv s'" unfolding refs_inv_def by (simp only:)
    with False show ?thesis by simp
  qed
  with counts show ?thesis by (intro that(2) [of s']) auto
qed

lemma binder_delete_ref_ok:
  assumes inv: "refs_inv s" and rb: "rb_ok env" and r: "ref_at s r = Some x"
  obtains s' where "binder_delete_ref env r s = Some s'" "refs_inv s'"
    "ref_at s' = (ref_at s)(r := None)" "txn_at s' = txn_at s" "mem_ops s' = mem_ops s"
proof -
  let ?n = "ref_node x"
  obtain y where y: "node_at s ?n = Some y" "r \<in> set (node_refs y)" "node_refs y \<noteq> []" "proc_at s (ref_proc x) \<noteq> None"
    using inv_ref [OF inv r] by metis
  have h0: "refs_hole s (\<lambda>_. 0) {} {}" using inv by (simp add: refs_inv_def)
  define s1 where "s1 = upd_proc (ref_proc x) (\<lambda>pr. pr\<lparr>refs_by_desc := rb_erase env r (refs_by_desc pr),
            refs_by_node := rb_erase env r (refs_by_node pr)\<rparr>) s"
  have h1: "refs_hole s1 (\<lambda>_. 0) {r} {}" unfolding s1_def by (rule hole_erase_ref [OF h0 rb r])
  have f1: "node_at s1 = node_at s" "ref_at s1 = ref_at s" "death_at s1 = death_at s" "txn_at s1 = txn_at s"
    "mem_ops s1 = mem_ops s"
    by (simp_all add: s1_def)
  define \<delta> where "\<delta> = (\<lambda>_. 0 :: c_int)(?n := (if strong x \<noteq> 0 then - 1 else 0))"
  obtain s2 where run2: "(if strong x \<noteq> 0 then map_option snd (binder_dec_node env ?n True True s1) else Some s1) = Some s2"
    and h2: "refs_hole s2 \<delta> {r} {}" and n2: "node_at s2 ?n \<noteq> None"
    and f2: "ref_at s2 = ref_at s" "death_at s2 = death_at s" "txn_at s2 = txn_at s" "mem_ops s2 = mem_ops s"
  proof (cases "strong x = 0")
    case True
    then have "\<delta> = (\<lambda>_. 0)" by (auto simp: \<delta>_def)
    with True h1 y(1) f1 show ?thesis by (intro that [of s1]) simp_all
  next
    case False
    have n1: "node_at s1 ?n = Some y" using y(1) f1 by simp
    show ?thesis
    proof (rule hole_dec_node [OF h1 rb n1, of True True])
      fix s' assume *: "binder_dec_node env ?n True True s1 = Some (0, s')"
        "refs_hole s' ((\<lambda>_. 0)(?n := 0 + (if True \<and> True then - 1 else 0))) {r} {}"
        "ref_at s' = ref_at s1" "death_at s' = death_at s1" "mem_ops s' = mem_ops s1" "txn_at s' = txn_at s1"
        "node_refs y \<noteq> [] \<Longrightarrow> node_at s' = (node_at s1)(?n := Some (counted True True (- 1) y))"
      have "\<delta> = (\<lambda>_. 0)(?n := 0 + (if True \<and> True then - 1 else 0))" using False by (simp add: \<delta>_def)
      with * False f1 y(3) show ?thesis by (intro that [of s']) simp_all
    qed
  qed
  define s3 where "s3 = upd_node ?n (\<lambda>z. z\<lparr>node_refs := remove1 r (node_refs z)\<rparr>) s2"
  have r2: "ref_at s2 r = Some x" using f2 r by simp
  have h3: "refs_hole s3 \<delta> {r} {r}" unfolding s3_def using hole_unlink_ref [OF h2 r2] by simp
  from n2 obtain z where n3: "node_at s3 ?n = Some z" by (auto simp: s3_def)
  obtain s4 where run4: "binder_dec_node env ?n False True s3 = Some (0, s4)"
    and h4: "refs_hole s4 \<delta> {r} {r}"
    and f4: "ref_at s4 = ref_at s" "death_at s4 = death_at s" "txn_at s4 = txn_at s" "mem_ops s4 = mem_ops s"
  proof (rule hole_dec_node [OF h3 rb n3, of False True])
    fix s' assume *: "binder_dec_node env ?n False True s3 = Some (0, s')"
      "refs_hole s' (\<delta>(?n := \<delta> ?n + (if False \<and> True then - 1 else 0))) {r} {r}"
      "ref_at s' = ref_at s3" "death_at s' = death_at s3" "mem_ops s' = mem_ops s3" "txn_at s' = txn_at s3"
    have "\<delta>(?n := \<delta> ?n + (if False \<and> True then - 1 else 0)) = \<delta>" by simp
    with * f2 show ?thesis by (intro that [of s']) (simp_all add: s3_def)
  qed
  define s5 where "s5 = (case death x of None \<Rightarrow> s4 | Some d \<Rightarrow>
     binder_stats_deleted Stat_death ((list_del_init (Death_work d) s4)\<lparr>death_at := (death_at s4)(d := None)\<rparr>))"
  have l5: "lists_ok s5"
  proof (cases "death x")
    case (Some d)
    have "lists_ok (list_del_init (Death_work d) s4)" by (rule list_del_init_ok(1) [OF refs_hole_lists [OF h4]])
    then show ?thesis by (simp add: s5_def Some lists_ok_def)
  qed (simp add: s5_def refs_hole_lists [OF h4])
  have f5: "ref_at s5 = ref_at s" "txn_at s5 = txn_at s" "mem_ops s5 = mem_ops s" "proc_at s5 = proc_at s4" "node_at s5 = node_at s4"
    using f4 by (simp_all add: s5_def split: option.split)
  have h5: "refs_hole s5 \<delta> {r} {r}"
    by (rule refs_hole_cong [OF h4 l5]) (simp_all add: f5 f4)
  define s6 where "s6 = s5\<lparr>ref_at := (ref_at s5)(r := None)\<rparr>"
  have r5: "ref_at s5 r = Some x" using f5 r by simp
  have "refs_hole s6 (\<delta>(?n := \<delta> ?n + (if strong x \<noteq> 0 then 1 else 0))) {} {}"
    unfolding s6_def by (rule hole_free_ref [OF h5 r5 refl])
  moreover have "\<delta>(?n := \<delta> ?n + (if strong x \<noteq> 0 then 1 else 0)) = (\<lambda>_. 0)"
    by (auto simp: \<delta>_def fun_eq_iff)
  ultimately have h6: "refs_hole s6 (\<lambda>_. 0) {} {}" by simp
  have "refs_inv (binder_stats_deleted Stat_ref s6)"
    unfolding refs_inv_def by (rule refs_hole_cong [OF h6]) (use refs_hole_lists [OF h6] in simp_all)
  moreover have "binder_delete_ref env r s = Some (binder_stats_deleted Stat_ref s6)"
    using r y(4) run2 n2 run4 unfolding binder_delete_ref_def s6_def s5_def s3_def
    by (auto simp: s1_def [symmetric] Let_def)
  ultimately show ?thesis using f5 by (intro that [of "binder_stats_deleted Stat_ref s6"]) (simp_all add: s6_def)
qed

lemma binder_dec_ref_ok:
  assumes inv: "refs_inv s" and rb: "rb_ok env" and r: "ref_at s r = Some x"
  obtains (refused) "binder_dec_ref env r t s = Some (- EINVAL, s)" "if t then strong x = 0 else weak x = 0"
    | (drops) s' where "binder_dec_ref env r t s = Some (0, s')" "refs_inv s'"
        "if t then strong x \<noteq> 0 else weak x \<noteq> 0"
        "ref_at s' = (ref_at s)(r := (if (if t then strong x = 1 \<and> weak x = 0 else strong x = 0 \<and> weak x = 1) then None
            else Some (if t then x\<lparr>strong := strong x - 1\<rparr> else x\<lparr>weak := weak x - 1\<rparr>)))"
        "txn_at s' = txn_at s" "mem_ops s' = mem_ops s"
proof (cases "if t then strong x = 0 else weak x = 0")
  case True
  with r show ?thesis by (intro refused) (auto simp: binder_dec_ref_def)
next
  case False
  let ?f = "\<lambda>x. if t then x\<lparr>strong := strong x - 1\<rparr> else x\<lparr>weak := weak x - 1\<rparr>" and ?n = "ref_node x"
  obtain y where y: "node_at s ?n = Some y" "node_refs y \<noteq> []"
    using inv_ref [OF inv r] by metis
  have h0: "refs_hole s (\<lambda>_. 0) {} {}" using inv by (simp add: refs_inv_def)
  define s1 where "s1 = upd_ref r ?f s"
  define k :: c_int where "k = (if t \<and> strong x = 1 then 1 else 0)"
  have h1: "refs_hole s1 ((\<lambda>_. 0)(?n := 0 + k)) {} {}"
    unfolding s1_def by (rule hole_ref_update [OF h0 _ r]) (use y False in \<open>auto simp: k_def split: if_splits\<close>)
  obtain s2 where run2: "(if t \<and> strong x = 1 then binder_dec_node env ?n True True s1 else Some (0, s1)) = Some (0, s2)"
    and inv2: "refs_inv s2" and f2: "ref_at s2 = ref_at s1" "txn_at s2 = txn_at s" "mem_ops s2 = mem_ops s"
  proof (cases "t \<and> strong x = 1")
    case no: False
    then have "((\<lambda>_. 0)(?n := 0 + k)) = (\<lambda>_. 0)" by (auto simp: k_def)
    with no h1 show ?thesis by (intro that [of s1]) (auto simp: refs_inv_def s1_def)
  next
    case yes: True
    have n1: "node_at s1 ?n = Some y" using y(1) by (simp add: s1_def)
    show ?thesis
    proof (rule hole_dec_node [OF h1 rb n1, of True True])
      fix s' assume *: "binder_dec_node env ?n True True s1 = Some (0, s')"
        "refs_hole s' (((\<lambda>_. 0)(?n := 0 + k))(?n := ((\<lambda>_. 0)(?n := 0 + k)) ?n + (if True \<and> True then - 1 else 0))) {} {}"
        "ref_at s' = ref_at s1" "mem_ops s' = mem_ops s1" "txn_at s' = txn_at s1"
      have "((\<lambda>_. 0)(?n := 0 + k))(?n := ((\<lambda>_. 0)(?n := 0 + k)) ?n + (if True \<and> True then - 1 else 0)) = (\<lambda>_. 0)"
        using yes by (auto simp: k_def fun_eq_iff)
      with * yes show ?thesis by (intro that [of s']) (auto simp: refs_inv_def s1_def)
    qed
  qed
  have r2: "ref_at s2 r = Some (?f x)" using f2 r by (simp add: s1_def)
  have run: "binder_dec_ref env r t s = (if strong (?f x) = 0 \<and> weak (?f x) = 0
      then map_option (Pair 0) (binder_delete_ref env r s2) else Some (0, s2))"
    using r False run2 r2 unfolding binder_dec_ref_def s1_def by (auto simp: Let_def split: if_splits)
  have ne: "if t then strong x \<noteq> 0 else weak x \<noteq> 0" using False by (cases t) simp_all
  have last: "strong (?f x) = 0 \<and> weak (?f x) = 0 \<longleftrightarrow>
      (if t then strong x = 1 \<and> weak x = 0 else strong x = 0 \<and> weak x = 1)"
    by auto
  show ?thesis
  proof (cases "if t then strong x = 1 \<and> weak x = 0 else strong x = 0 \<and> weak x = 1")
    case True
    obtain s3 where "binder_delete_ref env r s2 = Some s3" "refs_inv s3" "ref_at s3 = (ref_at s2)(r := None)"
      "txn_at s3 = txn_at s2" "mem_ops s3 = mem_ops s2"
      by (rule binder_delete_ref_ok [OF inv2 rb r2])
    with True run last f2 ne show ?thesis by (intro drops [of s3]) (simp_all add: s1_def)
  next
    case no: False
    with run last f2 inv2 r ne show ?thesis by (intro drops [of s2]) (auto simp: s1_def)
  qed
qed

end
