(* ===== verification/RefsSpec.thy ===== *)
theory RefsSpec
  imports RefsInvariant
begin

text \<open>
  What the operations on nodes and references promise: the tables of a process behave as
  maps from their keys, a process has at most one reference to a node, with the least
  free handle, and the counts add up, as the C ints they are: an increment of a strong
  count that stands at -1 wraps it around to 0, and is the one step that breaks them.
\<close>

section \<open>The driver's trees as tables\<close>

text \<open>
  A table of objects with distinct keys, as the driver uses its trees: a look-up, an
  insertion that fails when the key is taken, and a removal.
\<close>

locale object_table =
  fixes table_ok :: "'t \<Rightarrow> bool" and members :: "'t \<Rightarrow> nat set" and key_of :: "'t \<Rightarrow> nat \<Rightarrow> 'k"
    and find_in :: "'t \<Rightarrow> 'k \<Rightarrow> nat option"
    and add_to :: "'t \<Rightarrow> nat \<Rightarrow> 't option" and drop_from :: "'t \<Rightarrow> nat \<Rightarrow> 't"
  assumes find_iff: "table_ok t \<Longrightarrow> find_in t k = Some a \<longleftrightarrow> a \<in> members t \<and> key_of t a = k"
    and add_taken: "table_ok t \<Longrightarrow> add_to t a = None \<longleftrightarrow> (\<exists>b \<in> members t. key_of t b = key_of t a)"
    and add_members: "table_ok t \<Longrightarrow> a \<notin> members t \<Longrightarrow> add_to t a = Some t' \<Longrightarrow>
      table_ok t' \<and> members t' = insert a (members t) \<and> key_of t' = key_of t"
    and drop_members: "table_ok t \<Longrightarrow> a \<in> members t \<Longrightarrow>
      table_ok (drop_from t a) \<and> members (drop_from t a) = members t - {a} \<and> key_of (drop_from t a) = key_of t"

context object_table
begin

lemma find_none: "table_ok t \<Longrightarrow> find_in t k = None \<longleftrightarrow> (\<forall>a \<in> members t. key_of t a \<noteq> k)"
  using find_iff [of t k] by (cases "find_in t k") auto

lemma key_unique: "table_ok t \<Longrightarrow> a \<in> members t \<Longrightarrow> b \<in> members t \<Longrightarrow> key_of t a = key_of t b \<Longrightarrow> a = b"
  using find_iff [of t "key_of t b"] by (metis option.inject)

lemma find_member: "table_ok t \<Longrightarrow> a \<in> members t \<Longrightarrow> find_in t (key_of t a) = Some a"
  by (simp add: find_iff)

lemma find_after_add:
  assumes "table_ok t" "a \<notin> members t" "add_to t a = Some t'"
  shows "find_in t' k = (if k = key_of t a then Some a else find_in t k)"
proof -
  from add_members [OF assms] have t': "table_ok t'" "members t' = insert a (members t)" "key_of t' = key_of t"
    by auto
  have free: "\<forall>b \<in> members t. key_of t b \<noteq> key_of t a" using add_taken [OF assms(1), of a] assms(3) by auto
  show ?thesis
  proof (cases "find_in t k")
    case None
    then have "\<forall>b \<in> members t. key_of t b \<noteq> k" using find_none [OF assms(1)] by simp
    then show ?thesis
      using None find_iff [OF t'(1), of k a] find_none [OF t'(1), of k] t' by auto
  next
    case (Some b)
    then have "b \<in> members t" "key_of t b = k" using find_iff [OF assms(1)] by auto
    then show ?thesis using Some free find_iff [OF t'(1), of k b] t' by auto
  qed
qed

lemma find_after_drop:
  assumes "table_ok t" "a \<in> members t"
  shows "find_in (drop_from t a) k = (if k = key_of t a then None else find_in t k)"
proof -
  from drop_members [OF assms] have t': "table_ok (drop_from t a)" "members (drop_from t a) = members t - {a}"
    "key_of (drop_from t a) = key_of t" by auto
  have eq: "find_in (drop_from t a) k = Some b \<longleftrightarrow> k \<noteq> key_of t a \<and> find_in t k = Some b" for b
    using find_iff [OF t'(1), of k b] find_iff [OF assms(1), of k b] t' key_unique [OF assms(1) _ assms(2), of b] assms(2)
    by auto
  show ?thesis
  proof (cases "find_in t k")
    case None
    with eq show ?thesis by (cases "find_in (drop_from t a) k") auto
  next
    case (Some b)
    with eq show ?thesis by (cases "find_in (drop_from t a) k") auto
  qed
qed

lemma add_then_drop:
  assumes "table_ok t" "a \<notin> members t" "add_to t a = Some t'"
  shows "find_in (drop_from t' a) k = find_in t k"
proof -
  from add_members [OF assms] have t': "table_ok t'" "members t' = insert a (members t)" "key_of t' = key_of t"
    by auto
  have "\<forall>b \<in> members t. key_of t b \<noteq> key_of t a" using add_taken [OF assms(1), of a] assms(3) by auto
  then have "find_in t (key_of t a) = None" using find_none [OF assms(1)] by simp
  with find_after_drop [OF t'(1), of a k] find_after_add [OF assms, of k] t' show ?thesis by auto
qed

end

text \<open>A table of the driver: the kernel's tree library, the key of an object, and the root.\<close>

definition rb_table_ok :: "rb_ops \<times> (nat \<Rightarrow> 'k::linorder) \<times> nat tree \<Rightarrow> bool" where
  "rb_table_ok t \<longleftrightarrow> rb_ok (fst t) \<and> keyed (fst (snd t)) (inorder (snd (snd t)))"

definition rb_table_add :: "rb_ops \<times> (nat \<Rightarrow> 'k::linorder) \<times> nat tree \<Rightarrow> nat \<Rightarrow>
    (rb_ops \<times> (nat \<Rightarrow> 'k) \<times> nat tree) option" where
  "rb_table_add t a = (case t of (rb, key, root) \<Rightarrow>
     map_option (\<lambda>root'. (rb, key, rb_insert_color rb a root')) (rb_link key (key a) a root))"

definition rb_table_drop :: "rb_ops \<times> (nat \<Rightarrow> 'k::linorder) \<times> nat tree \<Rightarrow> nat \<Rightarrow>
    rb_ops \<times> (nat \<Rightarrow> 'k) \<times> nat tree" where
  "rb_table_drop t a = (case t of (rb, key, root) \<Rightarrow> (rb, key, rb_erase rb a root))"

interpretation table: object_table rb_table_ok "\<lambda>t. set (inorder (snd (snd t)))" "\<lambda>t. fst (snd t)"
  "\<lambda>t k. rb_search (fst (snd t)) k (snd (snd t))" rb_table_add rb_table_drop
proof
  fix t :: "rb_ops \<times> (nat \<Rightarrow> 'k::linorder) \<times> nat tree" and k and a
  assume "rb_table_ok t"
  then show "rb_search (fst (snd t)) k (snd (snd t)) = Some a \<longleftrightarrow>
      a \<in> set (inorder (snd (snd t))) \<and> fst (snd t) a = k"
    by (simp add: rb_table_ok_def rb_search_Some del: set_inorder)
next
  fix t :: "rb_ops \<times> (nat \<Rightarrow> 'k::linorder) \<times> nat tree" and a
  assume "rb_table_ok t"
  then show "rb_table_add t a = None \<longleftrightarrow>
      (\<exists>b \<in> set (inorder (snd (snd t))). fst (snd t) b = fst (snd t) a)"
    by (cases t) (simp add: rb_table_ok_def rb_table_add_def rb_link_None del: set_inorder)
next
  fix t t' :: "rb_ops \<times> (nat \<Rightarrow> 'k::linorder) \<times> nat tree" and a
  assume t: "rb_table_ok t" "a \<notin> set (inorder (snd (snd t)))" "rb_table_add t a = Some t'"
  obtain rb key root where e: "t = (rb, key, root)" by (cases t)
  with t obtain r where r: "rb_link key (key a) a root = Some r" "t' = (rb, key, rb_insert_color rb a r)"
    by (auto simp: rb_table_add_def)
  have k: "keyed key (inorder root)" "rb_ok rb" "a \<notin> set (inorder root)" using t e by (simp_all add: rb_table_ok_def)
  show "rb_table_ok t' \<and> set (inorder (snd (snd t'))) = insert a (set (inorder (snd (snd t)))) \<and> fst (snd t') = fst (snd t)"
    using keyed_link_insert [OF k(1) r(1) k(2,3) refl] e r k(2) by (simp add: rb_table_ok_def)
next
  fix t :: "rb_ops \<times> (nat \<Rightarrow> 'k::linorder) \<times> nat tree" and a
  assume t: "rb_table_ok t" "a \<in> set (inorder (snd (snd t)))"
  obtain rb key root where e: "t = (rb, key, root)" by (cases t)
  have k: "keyed key (inorder root)" "rb_ok rb" "a \<in> set (inorder root)" using t e by (simp_all add: rb_table_ok_def)
  have d: "distinct (inorder root)" by (rule keyed_distinct [OF k(1)])
  show "rb_table_ok (rb_table_drop t a) \<and>
      set (inorder (snd (snd (rb_table_drop t a)))) = set (inorder (snd (snd t))) - {a} \<and>
      fst (snd (rb_table_drop t a)) = fst (snd t)"
    using e k d rb_ok_erase [OF k(2) d k(3)]
    by (simp add: rb_table_ok_def rb_table_drop_def keyed_remove1 del: set_inorder)
qed

section \<open>Looking up and creating references\<close>

text \<open>What \<open>kzalloc\<close> guarantees here: the address it answers is not in use.\<close>

definition fresh_ref :: "'e kenv_scheme \<Rightarrow> driver \<Rightarrow> bool" where
  "fresh_ref env s \<longleftrightarrow> (\<forall>r. kzalloc_at env (mem_ops s) = Some r \<longrightarrow> ref_at s r = None)"

definition fresh_node :: "'e kenv_scheme \<Rightarrow> driver \<Rightarrow> bool" where
  "fresh_node env s \<longleftrightarrow> (\<forall>a. kzalloc_at env (mem_ops s) = Some a \<longrightarrow>
     node_at s a = None \<and> linked s (Node_work a) = None \<and> lists s (Async_todo a) = [])"

lemma hole_trees:
  assumes "refs_hole s \<delta> {} {}" "proc_at s p = Some pr"
  shows "keyed (node_key s) (inorder (nodes_root pr))" "set (inorder (nodes_root pr)) = nodes_of_proc s p"
    "keyed (desc_key s) (inorder (refs_by_desc pr))" "set (inorder (refs_by_desc pr)) = refs_of_proc s p"
    "keyed (ref_node_key s) (inorder (refs_by_node pr))" "set (inorder (refs_by_node pr)) = refs_of_proc s p"
  using assms by (simp_all add: refs_hole_def proc_trees_ok_def)

lemmas inv_trees = hole_trees [OF refs_inv_def [THEN iffD1]]

lemma keyed_length: "keyed key xs \<Longrightarrow> length xs = card (set xs)"
  by (simp add: distinct_card keyed_distinct)

lemma refs_inv_cong:
  assumes "refs_inv s" "lists_ok s'" "proc_at s' = proc_at s" "node_at s' = node_at s" "ref_at s' = ref_at s"
  shows "refs_inv s'"
  using assms unfolding refs_inv_def by (auto intro: refs_hole_cong)

lemma get_ref_for_node_cases:
  assumes inv: "refs_inv s" and rb: "rb_ok env" and pr: "proc_at s p = Some pr" and n: "node_at s n = Some x"
    and fresh: "fresh_ref env s" and few: "card (refs_of_proc s p) < addr_bound - 1"
  obtains (found) r y where "binder_get_ref_for_node env p n s = Some (Some r, s)"
      "ref_at s r = Some y" "ref_proc y = p" "ref_node y = n"
    | (no_memory) "binder_get_ref_for_node env p n s = Some (None, s\<lparr>mem_ops := Suc (mem_ops s)\<rparr>)"
    | (creates) r y s' where "binder_get_ref_for_node env p n s = Some (Some r, s')" "refs_inv s'"
        "ref_at s r = None" "ref_at s' = (ref_at s)(r := Some y)" "ref_proc y = p" "ref_node y = n"
        "strong y = 0" "weak y = 0" "death y = None"
        "\<forall>q z. ref_at s q = Some z \<longrightarrow> ref_proc z = p \<longrightarrow> ref_node z \<noteq> n \<and> desc z \<noteq> desc y"
        "(if Some n = context_mgr_node s then 0 else 1) \<le> desc y"
        "\<forall>d. (if Some n = context_mgr_node s then 0 else 1) \<le> d \<longrightarrow> d < desc y \<longrightarrow>
            (\<exists>q z. ref_at s q = Some z \<and> ref_proc z = p \<and> desc z = d)"
        "node_at s' = (node_at s)(n := Some (x\<lparr>node_refs := r # node_refs x\<rparr>))"
        "mem_ops s' = Suc (mem_ops s)" "txn_at s' = txn_at s"
proof (cases "rb_search (ref_node_key s) n (refs_by_node pr)")
  case (Some r)
  then have "r \<in> refs_of_proc s p" "ref_node_key s r = n"
    using rb_search_Some [OF inv_trees(5) [OF inv pr]] inv_trees(6) [OF inv pr] by auto
  then obtain y where "ref_at s r = Some y" "ref_proc y = p" "ref_node y = n"
    by (auto simp: refs_of_proc_def ref_node_key_def)
  with Some pr show ?thesis by (intro found) (simp_all add: binder_get_ref_for_node_def)
next
  case None
  show ?thesis
  proof (cases "kzalloc_at env (mem_ops s)")
    case no: None
    with None pr show ?thesis by (intro no_memory) (simp add: binder_get_ref_for_node_def kzalloc_def)
  next
    case (Some r)
    have rnew: "ref_at s r = None" using fresh Some by (simp add: fresh_ref_def)
    define d0 :: u32 where "d0 = (if Some n = context_mgr_node s then 0 else 1)"
    define d where "d = next_desc (desc_key s) (inorder (refs_by_desc pr)) d0"
    note kd = inv_trees(3,4) [OF inv pr] and kn = inv_trees(5,6) [OF inv pr]
    have "unat d0 \<le> 1" by (simp add: d0_def)
    moreover have "length (inorder (refs_by_desc pr)) < addr_bound - 1"
      using keyed_length [OF kd(1)] kd(2) few by simp
    ultimately have least: "d0 \<le> d \<and> (\<forall>q \<in> set (inorder (refs_by_desc pr)). desc_key s q \<noteq> d) \<and>
        (\<forall>y. d0 \<le> y \<longrightarrow> y < d \<longrightarrow> (\<exists>q \<in> set (inorder (refs_by_desc pr)). desc_key s q = y))"
      unfolding d_def by (intro next_desc_least [OF kd(1)]) auto
    obtain td where td: "rb_link (desc_key s) d r (refs_by_desc pr) = Some td"
      using rb_link_None [OF kd(1), of d r] least by fastforce
    have none: "\<forall>q \<in> set (inorder (refs_by_node pr)). ref_node_key s q \<noteq> n"
      using rb_search_None [OF kn(1)] None by simp
    obtain tn where tn: "rb_link (ref_node_key s) n r (refs_by_node pr) = Some tn"
      using rb_link_None [OF kn(1), of n r] none by fastforce
    define y where "y = \<lparr>ref_debug_id = Suc (last_id s), ref_proc = p, ref_node = n, desc = d,
        strong = 0, weak = 0, death = None\<rparr>"
    define s0 where "s0 = (binder_stats_created Stat_ref (s\<lparr>mem_ops := Suc (mem_ops s)\<rparr>))\<lparr>last_id := Suc (last_id s)\<rparr>"
    define s' where "s' = upd_node n (\<lambda>x. x\<lparr>node_refs := r # node_refs x\<rparr>)
       (upd_proc p (\<lambda>pr. pr\<lparr>refs_by_node := rb_insert_color env r tn, refs_by_desc := rb_insert_color env r td\<rparr>)
          (s0\<lparr>ref_at := (ref_at s)(r := Some y)\<rparr>))"
    have keys: "ref_node_key s0 = ref_node_key s" "desc_key s0 = desc_key s"
      "\<And>m. ref_node_key (binder_stats_created Stat_ref (s\<lparr>mem_ops := m\<rparr>)\<lparr>last_id := Suc (last_id s)\<rparr>) = ref_node_key s"
      "\<And>m. desc_key (binder_stats_created Stat_ref (s\<lparr>mem_ops := m\<rparr>)\<lparr>last_id := Suc (last_id s)\<rparr>) = desc_key s"
      by (simp_all add: s0_def fun_eq_iff ref_node_key_def desc_key_def)
    have run: "binder_get_ref_for_node env p n s = Some (Some r, s')"
      using pr None Some n tn td
      by (simp add: binder_get_ref_for_node_def kzalloc_def Let_def keys d0_def [symmetric] d_def [symmetric] s'_def s0_def y_def)
    have f: "proc_at s' = (proc_at s)(p := Some (pr\<lparr>refs_by_node := rb_insert_color env r tn,
                                                  refs_by_desc := rb_insert_color env r td\<rparr>))"
      "node_at s' = (node_at s)(n := Some (x\<lparr>node_refs := r # node_refs x\<rparr>))"
      "ref_at s' = (ref_at s)(r := Some y)" "lists s' = lists s" "linked s' = linked s"
      "mem_ops s' = Suc (mem_ops s)" "txn_at s' = txn_at s"
      using pr n by (simp_all add: s'_def s0_def)
    have h: "refs_hole s (\<lambda>_. 0) {} {}" using inv by (simp add: refs_inv_def)
    have "lists_ok s'" using lists_ok_cong [OF f(4,5)] refs_hole_lists [OF h] by simp
    then have inv': "refs_inv s'"
      unfolding refs_inv_def
      by (intro hole_new_ref [OF h rb pr n rnew _ _ _ _ tn _ f(1,2,3)]) (simp_all add: y_def td)
    have desc_of: "\<exists>z. ref_at s q = Some z \<and> ref_proc z = p \<and> desc z = desc_key s q"
      if "q \<in> refs_of_proc s p" for q
      using that by (auto simp: refs_of_proc_def desc_key_def)
    have "ref_node z \<noteq> n \<and> desc z \<noteq> desc y" if "ref_at s q = Some z" "ref_proc z = p" for q z
    proof -
      have "q \<in> refs_of_proc s p" using that by (auto simp: refs_of_proc_def)
      with none least kd(2) kn(2) that show ?thesis by (force simp: ref_node_key_def desc_key_def y_def)
    qed
    moreover have "\<exists>q z. ref_at s q = Some z \<and> ref_proc z = p \<and> desc z = e" if "d0 \<le> e" "e < d" for e
      using least that desc_of kd(2) by (metis)
    ultimately show ?thesis
      using run inv' rnew f least by (intro creates [of r s' y]) (auto simp: y_def d0_def)
  qed
qed

lemma binder_new_node_cases:
  assumes inv: "refs_inv s" and rb: "rb_ok env" and pr: "proc_at s p = Some pr" and fresh: "fresh_node env s"
  obtains (taken) n x where "binder_new_node env p ptr cookie s = Some (None, s)"
      "node_at s n = Some x" "node_proc x = Some p" "node_ptr x = ptr"
    | (no_memory) "binder_new_node env p ptr cookie s = Some (None, s\<lparr>mem_ops := Suc (mem_ops s)\<rparr>)"
    | (creates) a x s' where "binder_new_node env p ptr cookie s = Some (Some a, s')" "refs_inv s'"
        "node_at s a = None" "node_at s' = (node_at s)(a := Some x)" "node_proc x = Some p" "node_ptr x = ptr"
        "node_cookie x = cookie" "node_refs x = []" "\<not> has_strong_ref x" "\<not> has_weak_ref x"
        "local_strong_refs x = 0" "local_weak_refs x = 0" "internal_strong_refs x = 0"
        "ref_at s' = ref_at s" "txn_at s' = txn_at s" "linked s' = linked s" "lists s' = lists s"
        "mem_ops s' = Suc (mem_ops s)" "proc_at s' p \<noteq> None" "binder_get_node s' p ptr = Some (Some a)"
proof (cases "rb_search (node_key s) ptr (nodes_root pr)")
  case (Some n)
  then have "n \<in> nodes_of_proc s p" "node_key s n = ptr"
    using rb_search_Some [OF inv_trees(1) [OF inv pr]] inv_trees(2) [OF inv pr] by auto
  then obtain x where "node_at s n = Some x" "node_proc x = Some p" "node_ptr x = ptr"
    by (auto simp: nodes_of_proc_def node_key_def)
  with Some pr show ?thesis by (intro taken) (simp_all add: binder_new_node_def)
next
  case None
  show ?thesis
  proof (cases "kzalloc_at env (mem_ops s)")
    case no: None
    with None pr show ?thesis by (intro no_memory) (simp add: binder_new_node_def kzalloc_def)
  next
    case (Some a)
    have new: "node_at s a = None" "linked s (Node_work a) = None" "lists s (Async_todo a) = []"
      using fresh Some by (auto simp: fresh_node_def)
    note k = inv_trees(1,2) [OF inv pr]
    have h: "refs_hole s (\<lambda>_. 0) {} {}" using inv by (simp add: refs_inv_def)
    have free: "\<forall>q \<in> set (inorder (nodes_root pr)). node_key s q \<noteq> ptr"
      using rb_search_None [OF k(1)] None by simp
    obtain t where t: "rb_link (node_key s) ptr a (nodes_root pr) = Some t"
      using rb_link_None [OF k(1), of ptr a] free by fastforce
    define x where "x = \<lparr>node_debug_id = Suc (last_id s), node_proc = Some p, node_refs = [],
            internal_strong_refs = 0, local_weak_refs = 0, local_strong_refs = 0,
            node_ptr = ptr, node_cookie = cookie,
            has_strong_ref = False, pending_strong_ref = False, has_weak_ref = False,
            pending_weak_ref = False, has_async_transaction = False, accept_fds = False,
            min_priority = 0\<rparr>"
    define s1 where "s1 = (upd_proc p (\<lambda>pr. pr\<lparr>nodes_root := rb_insert_color env a t\<rparr>)
          (binder_stats_created Stat_node (s\<lparr>mem_ops := Suc (mem_ops s)\<rparr>)))\<lparr>last_id := Suc (last_id s)\<rparr>"
    define s' where "s' = s1\<lparr>node_at := (node_at s)(a := Some x),
          linked := (linked s)(Node_work a := None), lists := (lists s)(Async_todo a := [])\<rparr>"
    have key: "node_key (binder_stats_created Stat_node (s\<lparr>mem_ops := Suc (mem_ops s)\<rparr>)) = node_key s"
      by (simp add: fun_eq_iff node_key_def)
    have run: "binder_new_node env p ptr cookie s = Some (Some a, s')"
      using pr None Some t
      by (simp add: binder_new_node_def kzalloc_def Let_def key s'_def s1_def x_def)
    have f: "proc_at s' = (proc_at s)(p := Some (pr\<lparr>nodes_root := rb_insert_color env a t\<rparr>))"
      "node_at s' = (node_at s)(a := Some x)" "ref_at s' = ref_at s" "lists s' = lists s" "linked s' = linked s"
      "mem_ops s' = Suc (mem_ops s)" "txn_at s' = txn_at s"
      using pr new by (simp_all add: s'_def s1_def fun_upd_idem)
    have none: "refs_of_node s a = {}"
      using inv new by (fastforce simp: refs_of_node_def refs_inv_def refs_hole_def ref_ok_def)
    have l: "lists_ok s'" using lists_ok_cong [OF f(4,5)] refs_hole_lists [OF h] by simp
    have inv': "refs_inv s'"
      unfolding refs_inv_def
      by (rule hole_new_node [OF h rb pr new(1) none _ _ _ _ _ _ f(1,2,3) l]) (use None t in \<open>simp_all add: x_def\<close>)
    have "rb_search (node_key s') ptr (rb_insert_color env a t) = Some a"
      using inv_trees(1,2) [OF inv', of p "pr\<lparr>nodes_root := rb_insert_color env a t\<rparr>"] f
        rb_search_Some [of "node_key s'" "rb_insert_color env a t" ptr a]
      by (simp add: nodes_of_proc_def node_key_def x_def del: set_inorder)
    then have "binder_get_node s' p ptr = Some (Some a)" using f(1) by (simp add: binder_get_node_def)
    with run inv' new f show ?thesis by (intro creates [of a s' x]) (simp_all add: x_def)
  qed
qed

section \<open>A small driver state\<close>

text \<open>The state of the module when it is loaded, and a process just opened.\<close>

definition empty_log :: txn_log where
  "empty_log = \<lparr>log_next = 0, log_full = False, log_entries = replicate 32 empty_log_entry\<rparr>"

definition driver_init :: driver where
  "driver_init = \<lparr>proc_at = Map.empty, thread_at = Map.empty, node_at = Map.empty, ref_at = Map.empty,
     death_at = Map.empty, txn_at = Map.empty, lists = (\<lambda>_. []), linked = (\<lambda>_. None),
     binder_procs = [], binder_dead_nodes = [], binder_deferred_list = [], context_mgr_node = None,
     context_mgr_uid = None, last_id = 0, obj_created = (\<lambda>_. 0), obj_deleted = (\<lambda>_. 0),
     transaction_log = empty_log, transaction_log_failed = empty_log, woken = [], nice = (\<lambda>_. 0),
     user_mem = (\<lambda>_. 0), mem_ops = 0\<rparr>"

definition no_files :: files_struct where
  "no_files = \<lparr>open_fds = [], close_on_exec = [], fd_file = [], next_fd = 0\<rparr>"

definition blank_proc :: binder_proc where
  "blank_proc = \<lparr>vma = False, files = False, area = 0, area_size = 0, user_buffer_offset = 0,
     buffers = [], bufs = (\<lambda>_. blank_buffer), free_buffers = Leaf, allocated_buffers = Leaf,
     free_async_space = 0, pages = [], page_ops = 0,
     threads_root = Leaf, nodes_root = Leaf, refs_by_desc = Leaf, refs_by_node = Leaf,
     proc_pid = 0, tsk = 0, deferred_work = 0, proc_files = no_files, max_threads = 0,
     requested_threads = 0, requested_threads_started = 0, ready_threads = 0, default_priority = 0\<rparr>"

definition blank_node :: binder_node where
  "blank_node = \<lparr>node_debug_id = 0, node_proc = None, node_refs = [],
     internal_strong_refs = 0, local_weak_refs = 0, local_strong_refs = 0,
     node_ptr = 0, node_cookie = 0,
     has_strong_ref = False, pending_strong_ref = False, has_weak_ref = False,
     pending_weak_ref = False, has_async_transaction = False, accept_fds = False, min_priority = 0\<rparr>"

text \<open>Process 100 offers node 200; process 101 holds reference 300 to it, with handle 1.\<close>

definition two_procs :: driver where
  "two_procs = driver_init\<lparr>
     proc_at := [100 \<mapsto> blank_proc\<lparr>nodes_root := Node Leaf 200 Leaf\<rparr>,
                 101 \<mapsto> blank_proc\<lparr>refs_by_desc := Node Leaf 300 Leaf, refs_by_node := Node Leaf 300 Leaf\<rparr>],
     node_at := [200 \<mapsto> blank_node\<lparr>node_proc := Some 100, node_refs := [300], internal_strong_refs := 1,
                   node_ptr := 4096\<rparr>],
     ref_at := [300 \<mapsto> \<lparr>ref_debug_id = 1, ref_proc = 101, ref_node = 200, desc = 1, strong = 1, weak = 0,
                   death = None\<rparr>]\<rparr>"

definition plain_kenv :: kenv where
  "plain_kenv = \<lparr>rb_insert_color = rb_insert_color plain_rb, rb_erase = rb_erase plain_rb,
     task_mm_present = (\<lambda>_. True), page_outcome_of = (\<lambda>_. Page_inserted),
     kzalloc_at = (\<lambda>n. Some (1000 + n)), user_ok = (\<lambda>_. True), fget_file = (\<lambda>_. None),
     can_nice = (\<lambda>_. True), rlimit_nice = 0, rlimit_nofile = 1024, expand_files = (\<lambda>f _. (0, f)),
     filp_close_result = (\<lambda>_. 0), tgid_nr = (\<lambda>_. 0), euid_of = (\<lambda>_. 0), stack_garbage = 0\<rparr>"

lemma rb_ok_plain_kenv [simp]: "rb_ok plain_kenv"
  by (simp add: rb_ok_def plain_kenv_def plain_rb_def inorder_tree_drop)

lemma two_procs_inv: "refs_inv two_procs"
proof -
  have sets: "refs_of_proc two_procs p = (if p = 101 then {300} else {})"
    "refs_of_node two_procs n = (if n = 200 then {300} else {})"
    "strong_refs two_procs n = (if n = 200 then {300} else {})"
    "nodes_of_proc two_procs p = (if p = 100 then {200} else {})" for p n
    by (auto simp: refs_of_proc_def refs_of_node_def strong_refs_def nodes_of_proc_def two_procs_def split: if_splits)
  show ?thesis
    unfolding refs_inv_def refs_hole_def
  proof (intro conjI allI impI)
    show "proc_trees_ok two_procs {} p pr" if "proc_at two_procs p = Some pr" for p pr
      using that unfolding proc_trees_ok_def sets
      by (auto simp: two_procs_def blank_proc_def keyed_def split: if_splits)
    show "node_refs_ok two_procs (\<lambda>_. 0) {} n x" if "node_at two_procs n = Some x" for n x
      using that unfolding node_refs_ok_def sets
      by (auto simp: two_procs_def split: if_splits)
    show "ref_ok two_procs {} r x" if "ref_at two_procs r = Some x" for r x
      using that by (auto simp: ref_ok_def two_procs_def split: if_splits)
    show "lists_ok two_procs" by (simp add: lists_ok_def two_procs_def driver_init_def)
  qed
qed

section \<open>Properties\<close>

text \<open>C15: binder_inc_ref on a live reference never stops the machine.  It adds one to the
  count asked for, as a C int that wraps around, or returns -EINVAL and changes nothing; the
  latter only for a first reference without a list to queue the node on.  Every count and
  tree stays consistent but in one case, in which it does not: the strong count stands at -1,
  all 32 bits set, and wraps around to 0, which nothing in the code prevents.\<close>

theorem inc_ref_exact:
  assumes "refs_inv s" "ref_at s r = Some x"
  shows "\<exists>ret s'. binder_inc_ref r str h s = Some (ret, s') \<and>
     (refs_inv s' \<longleftrightarrow> \<not> (str \<and> strong x = - 1)) \<and>
     (if ret = 0
      then ref_at s' = (ref_at s)(r := Some (if str then x\<lparr>strong := strong x + 1\<rparr> else x\<lparr>weak := weak x + 1\<rparr>))
      else ret = - EINVAL \<and> s' = s \<and> h = None \<and> (if str then strong x = 0 else weak x = 0))"
proof (cases rule: binder_inc_ref_ok [OF assms, of str h, case_names refused counts])
  case refused
  with assms show ?thesis by (cases str) auto
next
  case (counts s')
  then show ?thesis by (intro exI [of _ 0] exI [of _ s']) auto
qed

theorem inc_ref_exact_witness:
  "\<exists>ret s'. binder_inc_ref 300 False None two_procs = Some (ret, s') \<and>
     (refs_inv s' \<longleftrightarrow> \<not> (False \<and> strong (the (ref_at two_procs 300)) = - 1)) \<and>
     (if ret = 0
      then ref_at s' = (ref_at two_procs)(300 := Some (if False
             then (the (ref_at two_procs 300))\<lparr>strong := strong (the (ref_at two_procs 300)) + 1\<rparr>
             else (the (ref_at two_procs 300))\<lparr>weak := weak (the (ref_at two_procs 300)) + 1\<rparr>))
      else ret = - EINVAL \<and> s' = two_procs \<and> (None :: list_head option) = None \<and>
        (if False then strong (the (ref_at two_procs 300)) = 0 else weak (the (ref_at two_procs 300)) = 0))"
  by (rule inc_ref_exact [OF two_procs_inv]) (simp add: two_procs_def)

text \<open>binder_dec_ref on a live reference never stops the machine.  It returns -EINVAL
  and changes nothing exactly when the count is already 0; otherwise it takes one away and
  frees the reference exactly when both counts have come to 0, and every count and tree
  stays consistent, also when the node is freed with its last reference.\<close>

theorem dec_ref_exact:
  assumes "refs_inv s" "rb_ok env" "ref_at s r = Some x"
  shows "\<exists>ret s'. binder_dec_ref env r str s = Some (ret, s') \<and> refs_inv s' \<and>
     (ret \<noteq> 0 \<longleftrightarrow> (if str then strong x = 0 else weak x = 0)) \<and>
     (ret \<noteq> 0 \<longrightarrow> ret = - EINVAL \<and> s' = s) \<and>
     (ret = 0 \<longrightarrow> ref_at s' = (ref_at s)(r := (if (if str then strong x = 1 \<and> weak x = 0 else strong x = 0 \<and> weak x = 1) then None
         else Some (if str then x\<lparr>strong := strong x - 1\<rparr> else x\<lparr>weak := weak x - 1\<rparr>))))"
proof (cases rule: binder_dec_ref_ok [OF assms, of str, case_names refused drops])
  case refused
  with assms(1) show ?thesis by auto
next
  case (drops s')
  then show ?thesis by (intro exI [of _ 0] exI [of _ s']) (cases str; simp)
qed

theorem dec_ref_exact_witness:
  "\<exists>ret s'. binder_dec_ref plain_kenv 300 True two_procs = Some (ret, s') \<and> refs_inv s' \<and>
     (ret \<noteq> 0 \<longleftrightarrow> (if True then strong (the (ref_at two_procs 300)) = 0 else weak (the (ref_at two_procs 300)) = 0)) \<and>
     (ret \<noteq> 0 \<longrightarrow> ret = - EINVAL \<and> s' = two_procs) \<and>
     (ret = 0 \<longrightarrow> ref_at s' = (ref_at two_procs)(300 :=
        (if (if True then strong (the (ref_at two_procs 300)) = 1 \<and> weak (the (ref_at two_procs 300)) = 0
             else strong (the (ref_at two_procs 300)) = 0 \<and> weak (the (ref_at two_procs 300)) = 1) then None
         else Some (if True then (the (ref_at two_procs 300))\<lparr>strong := strong (the (ref_at two_procs 300)) - 1\<rparr>
                    else (the (ref_at two_procs 300))\<lparr>weak := weak (the (ref_at two_procs 300)) - 1\<rparr>))))"
  by (rule dec_ref_exact [OF two_procs_inv rb_ok_plain_kenv]) (simp add: two_procs_def)

text \<open>binder_get_ref_for_node returns the process's reference to the node when it has
  one, and nothing changes.  Otherwise it makes one, unless memory is short, with the least
  handle from 1 (from 0 for the context manager) that the process does not use; the
  \<open>BUG()\<close> behind the walk over the handles is never reached.\<close>

theorem get_ref_least_handle:
  assumes "refs_inv s" "rb_ok env" "proc_at s p = Some pr" "node_at s n = Some x" "fresh_ref env s"
    and "card (refs_of_proc s p) < addr_bound - 1"
  shows "\<exists>ro s'. binder_get_ref_for_node env p n s = Some (ro, s') \<and> refs_inv s' \<and>
    (case ro of
       None \<Rightarrow> s' = s\<lparr>mem_ops := Suc (mem_ops s)\<rparr> \<and> kzalloc_at env (mem_ops s) = None
     | Some r \<Rightarrow> \<exists>y. ref_at s' r = Some y \<and> ref_proc y = p \<and> ref_node y = n \<and>
         (if ref_at s r = Some y then s' = s
          else ref_at s r = None \<and> strong y = 0 \<and> weak y = 0 \<and>
            (\<forall>q z. ref_at s q = Some z \<longrightarrow> ref_proc z = p \<longrightarrow> desc z \<noteq> desc y) \<and>
            (\<forall>d. (if Some n = context_mgr_node s then 0 else 1) \<le> d \<longrightarrow> d < desc y \<longrightarrow>
               (\<exists>q z. ref_at s q = Some z \<and> ref_proc z = p \<and> desc z = d))))"
proof (cases rule: get_ref_for_node_cases [OF assms, case_names found no_memory creates])
  case (found r y)
  with assms(1) show ?thesis by auto
next
  case no_memory
  have "refs_inv (s\<lparr>mem_ops := Suc (mem_ops s)\<rparr>)"
    by (rule refs_inv_cong [OF assms(1)]) (use assms(1) in \<open>simp_all add: refs_inv_def refs_hole_def lists_ok_def\<close>)
  moreover have "kzalloc_at env (mem_ops s) = None"
  proof (rule ccontr)
    assume "kzalloc_at env (mem_ops s) \<noteq> None"
    with no_memory assms(3) show False
      by (auto simp: binder_get_ref_for_node_def kzalloc_def Let_def split: option.splits Option.bind_splits)
  qed
  ultimately show ?thesis using no_memory by simp
next
  case (creates r y s')
  then show ?thesis by (intro exI [of _ "Some r"] exI [of _ s']) auto
qed

lemma two_procs_fresh: "fresh_ref plain_kenv two_procs" "fresh_node plain_kenv two_procs"
  "card (refs_of_proc two_procs p) < addr_bound - 1"
proof -
  have "refs_of_proc two_procs p \<subseteq> {300}" by (auto simp: refs_of_proc_def two_procs_def split: if_splits)
  then have "card (refs_of_proc two_procs p) \<le> card {300 :: nat}" by (intro card_mono) simp_all
  then show "card (refs_of_proc two_procs p) < addr_bound - 1" by simp
qed (simp_all add: fresh_ref_def fresh_node_def plain_kenv_def two_procs_def driver_init_def)

theorem get_ref_least_handle_witness:
  "\<exists>ro s'. binder_get_ref_for_node plain_kenv 100 200 two_procs = Some (ro, s') \<and> refs_inv s' \<and>
    (case ro of
       None \<Rightarrow> s' = two_procs\<lparr>mem_ops := Suc (mem_ops two_procs)\<rparr> \<and> kzalloc_at plain_kenv (mem_ops two_procs) = None
     | Some r \<Rightarrow> \<exists>y. ref_at s' r = Some y \<and> ref_proc y = 100 \<and> ref_node y = 200 \<and>
         (if ref_at two_procs r = Some y then s' = two_procs
          else ref_at two_procs r = None \<and> strong y = 0 \<and> weak y = 0 \<and>
            (\<forall>q z. ref_at two_procs q = Some z \<longrightarrow> ref_proc z = 100 \<longrightarrow> desc z \<noteq> desc y) \<and>
            (\<forall>d. (if Some 200 = context_mgr_node two_procs then 0 else 1) \<le> d \<longrightarrow> d < desc y \<longrightarrow>
               (\<exists>q z. ref_at two_procs q = Some z \<and> ref_proc z = 100 \<and> desc z = d))))"
  by (rule get_ref_least_handle [OF two_procs_inv rb_ok_plain_kenv _ _ two_procs_fresh(1,3)])
     (simp_all add: two_procs_def)

text \<open>
  Every operation that creates, counts or deletes nodes and references, on whatever object
  of the state it is applied to, in any order.  A strong count is not taken over its last
  value, -1, at which it would wrap around to 0.
\<close>

inductive ref_step :: "'e kenv_scheme \<Rightarrow> driver \<Rightarrow> driver \<Rightarrow> bool" for env where
  Inc_ref: "ref_at s r = Some x \<Longrightarrow> \<not> (t \<and> strong x = - 1) \<Longrightarrow>
    binder_inc_ref r t h s = Some (ret, s') \<Longrightarrow> ref_step env s s'"
| Dec_ref: "ref_at s r = Some x \<Longrightarrow> binder_dec_ref env r t s = Some (ret, s') \<Longrightarrow> ref_step env s s'"
| Delete_ref: "ref_at s r = Some x \<Longrightarrow> binder_delete_ref env r s = Some s' \<Longrightarrow> ref_step env s s'"
| Inc_node: "node_at s n = Some y \<Longrightarrow> binder_inc_node n t False h s = Some (ret, s') \<Longrightarrow> ref_step env s s'"
| Dec_node: "node_at s n = Some y \<Longrightarrow> binder_dec_node env n t False s = Some (ret, s') \<Longrightarrow> ref_step env s s'"
| Get_ref: "proc_at s p = Some pr \<Longrightarrow> node_at s n = Some y \<Longrightarrow> fresh_ref env s \<Longrightarrow>
    card (refs_of_proc s p) < addr_bound - 1 \<Longrightarrow>
    binder_get_ref_for_node env p n s = Some (ro, s') \<Longrightarrow> ref_step env s s'"
| New_node: "proc_at s p = Some pr \<Longrightarrow> fresh_node env s \<Longrightarrow>
    binder_new_node env p ptr cookie s = Some (no, s') \<Longrightarrow> ref_step env s s'"

inductive_cases ref_stepE: "ref_step env s s'"

lemma mem_ops_inv: "refs_inv s \<Longrightarrow> refs_inv (s\<lparr>mem_ops := k\<rparr>)"
  by (rule refs_inv_cong) (simp_all add: refs_inv_def refs_hole_def lists_ok_def)

lemma inc_node_local_inv:
  assumes inv: "refs_inv s" and n: "node_at s n = Some x" and run: "binder_inc_node n t False h s = Some (ret, s')"
  shows "refs_inv s'"
proof -
  have h: "refs_hole s (\<lambda>_. 0) {} {}" using inv by (simp add: refs_inv_def)
  have c: "refs_inv (upd_node n (counted t False 1) s)"
    using hole_counted [OF h, of n t False 1] by (simp add: refs_inv_def fun_upd_idem)
  show ?thesis
  proof (cases rule: binder_inc_node_cases [OF n refs_hole_lists [OF h], of t False h, case_names refused counts])
    case (refused s1)
    with run inv c show ?thesis by (simp split: if_splits)
  next
    case (counts s1)
    with run refs_hole_only_lists [OF c [unfolded refs_inv_def] counts(3,2)] show ?thesis by (simp add: refs_inv_def)
  qed
qed

lemma dec_node_local_inv:
  assumes inv: "refs_inv s" and rb: "rb_ok env" and n: "node_at s n = Some x"
    and run: "binder_dec_node env n t False s = Some (ret, s')"
  shows "refs_inv s'"
proof -
  have h: "refs_hole s (\<lambda>_. 0) {} {}" using inv by (simp add: refs_inv_def)
  show ?thesis
    by (rule hole_dec_node [OF h rb n, of t False]) (use run in \<open>simp add: refs_inv_def fun_upd_idem\<close>)
qed

lemma ref_step_inv: "ref_step env s s' \<Longrightarrow> rb_ok env \<Longrightarrow> refs_inv s \<Longrightarrow> refs_inv s'"
proof (induction rule: ref_step.induct)
  case (Inc_ref s r x t h ret s')
  show ?case
    by (cases rule: binder_inc_ref_ok [OF Inc_ref(5,1), of t h]) (use Inc_ref in auto)
next
  case (Dec_ref s r x t ret s')
  show ?case
    by (cases rule: binder_dec_ref_ok [OF Dec_ref(4,3,1), of t]) (use Dec_ref in auto)
next
  case (Delete_ref s r x s')
  show ?case
    by (rule binder_delete_ref_ok [OF Delete_ref(4,3,1)]) (use Delete_ref in auto)
next
  case (Inc_node s n y t h ret s')
  show ?case by (rule inc_node_local_inv [OF Inc_node(4,1,2)])
next
  case (Dec_node s n y t ret s')
  show ?case by (rule dec_node_local_inv [OF Dec_node(4,3,1,2)])
next
  case (Get_ref s p pr n y ro s')
  show ?case
    by (cases rule: get_ref_for_node_cases [OF Get_ref(7,6,1-4)]) (use Get_ref mem_ops_inv in auto)
next
  case (New_node s p pr ptr cookie no s')
  show ?case
    by (cases rule: binder_new_node_cases [OF New_node(5,4,1,2), of ptr cookie]) (use New_node mem_ops_inv in auto)
qed

text \<open>C14: In every state that the operations on references and nodes can reach, in any
  order, each node's strong count is the number of strong references to it and each
  reference is in both trees of its process and in the list of a live node: no count drifts
  and no reference dangles.  The counts are C ints: the node's count is that number modulo
  \<open>2 ^ 32\<close>, so the number itself when it is below, and no step takes a reference's strong
  count over its last value (inc_ref_exact tells what that would do).\<close>

theorem reference_counts_consistent:
  assumes "rb_ok env" "refs_inv s" "(ref_step env)\<^sup>*\<^sup>* s s'" "node_at s' n = Some x"
  shows "internal_strong_refs x = word_of_nat (card {r \<in> set (node_refs x). strong (the (ref_at s' r)) \<noteq> 0}) \<and>
     (length (node_refs x) < 2 ^ 32 \<longrightarrow>
        unat (internal_strong_refs x) = card {r \<in> set (node_refs x). strong (the (ref_at s' r)) \<noteq> 0}) \<and>
     (\<forall>r. r \<in> set (node_refs x) \<longleftrightarrow> (\<exists>y. ref_at s' r = Some y \<and> ref_node y = n)) \<and>
     (\<forall>r y. ref_at s' r = Some y \<longrightarrow> node_at s' (ref_node y) \<noteq> None \<and>
        (\<exists>pr. proc_at s' (ref_proc y) = Some pr \<and> r \<in> set_tree (refs_by_desc pr) \<and> r \<in> set_tree (refs_by_node pr)))"
proof -
  from assms(3,2) have inv: "refs_inv s'"
    by (induction rule: rtranclp_induct) (auto dest: ref_step_inv [OF _ assms(1)])
  with assms(4) have n: "node_refs_ok s' (\<lambda>_. 0) {} n x" by (simp add: refs_inv_def refs_hole_def)
  then have sr: "strong_refs s' n = {r \<in> set (node_refs x). strong (the (ref_at s' r)) \<noteq> 0}"
    by (auto simp: node_refs_ok_def strong_refs_def refs_of_node_def)
  moreover have "unat (internal_strong_refs x) = card {r \<in> set (node_refs x). strong (the (ref_at s' r)) \<noteq> 0}"
    if few: "length (node_refs x) < 2 ^ 32"
  proof -
    have "card {r \<in> set (node_refs x). strong (the (ref_at s' r)) \<noteq> 0} \<le> card (set (node_refs x))"
      by (intro card_mono) auto
    also have "\<dots> \<le> length (node_refs x)" by (rule card_length)
    finally show ?thesis using n few sr by (simp add: node_refs_ok_def unat_of_nat)
  qed
  moreover have "node_at s' (ref_node y) \<noteq> None \<and>
        (\<exists>pr. proc_at s' (ref_proc y) = Some pr \<and> r \<in> set_tree (refs_by_desc pr) \<and> r \<in> set_tree (refs_by_node pr))"
    if y: "ref_at s' r = Some y" for r y
  proof -
    from inv_ref [OF inv y] obtain m pr where "node_at s' (ref_node y) = Some m" "proc_at s' (ref_proc y) = Some pr"
      by (metis not_Some_eq)
    moreover have "r \<in> refs_of_proc s' (ref_proc y)" using y by (auto simp: refs_of_proc_def)
    ultimately show ?thesis using inv_trees(4,6) [OF inv, of "ref_proc y" pr] by auto
  qed
  ultimately show ?thesis using n by (auto simp: node_refs_ok_def refs_of_node_def)
qed

theorem reference_counts_consistent_witness:
  "internal_strong_refs (the (node_at two_procs 200)) =
       word_of_nat (card {r \<in> set (node_refs (the (node_at two_procs 200))). strong (the (ref_at two_procs r)) \<noteq> 0}) \<and>
     node_at two_procs (ref_node (the (ref_at two_procs 300))) \<noteq> None"
proof -
  have "node_at two_procs 200 = Some (the (node_at two_procs 200))" "ref_at two_procs 300 = Some (the (ref_at two_procs 300))"
    by (simp_all add: two_procs_def)
  with reference_counts_consistent [OF rb_ok_plain_kenv two_procs_inv rtranclp.rtrancl_refl, of 200]
  show ?thesis by blast
qed

text \<open>Binder_new_node makes a node with no references and no counts, which
  binder_get_node then finds under its pointer, and returns NULL when the process already
  offers a node with this pointer.\<close>

theorem new_node_found:
  assumes "refs_inv s" "rb_ok env" "proc_at s p = Some pr" "fresh_node env s"
  shows "\<exists>no s'. binder_new_node env p ptr cookie s = Some (no, s') \<and> refs_inv s' \<and>
    (case no of
       None \<Rightarrow> node_at s' = node_at s \<and>
         ((\<exists>n x. node_at s n = Some x \<and> node_proc x = Some p \<and> node_ptr x = ptr) \<or> mem_ops s' = Suc (mem_ops s))
     | Some a \<Rightarrow> node_at s a = None \<and> binder_get_node s' p ptr = Some (Some a) \<and>
         (\<exists>x. node_at s' = (node_at s)(a := Some x) \<and> node_ptr x = ptr \<and> node_cookie x = cookie \<and> node_refs x = [] \<and>
            internal_strong_refs x = 0 \<and> local_strong_refs x = 0 \<and> local_weak_refs x = 0))"
proof (cases rule: binder_new_node_cases [OF assms, of ptr cookie, case_names taken no_memory creates])
  case (taken n x)
  with assms(1) show ?thesis by auto
next
  case no_memory
  with mem_ops_inv [OF assms(1)] show ?thesis by simp
next
  case (creates a x s')
  then show ?thesis by (intro exI [of _ "Some a"] exI [of _ s']) auto
qed

theorem new_node_found_witness:
  "\<exists>no s'. binder_new_node plain_kenv 101 8192 7 two_procs = Some (no, s') \<and> refs_inv s' \<and>
    (case no of
       None \<Rightarrow> node_at s' = node_at two_procs \<and>
         ((\<exists>n x. node_at two_procs n = Some x \<and> node_proc x = Some 101 \<and> node_ptr x = 8192) \<or>
          mem_ops s' = Suc (mem_ops two_procs))
     | Some a \<Rightarrow> node_at two_procs a = None \<and> binder_get_node s' 101 8192 = Some (Some a) \<and>
         (\<exists>x. node_at s' = (node_at two_procs)(a := Some x) \<and> node_ptr x = 8192 \<and> node_cookie x = 7 \<and> node_refs x = [] \<and>
            internal_strong_refs x = 0 \<and> local_strong_refs x = 0 \<and> local_weak_refs x = 0))"
  by (rule new_node_found [OF two_procs_inv rb_ok_plain_kenv _ two_procs_fresh(2)]) (simp add: two_procs_def)

end
