(* ===== verification/BinderFiles.thy ===== *)
theory BinderFiles
  imports RefsSpec
begin

text \<open>
  File descriptors passed in transactions (driver/binder/binder.c, task_get_unused_fd_flags
  to task_close_fd): the driver takes a free descriptor in the file table of the receiving
  process.  \<open>expand_files\<close> is the kernel's: it answers 0 when the table already holds
  the descriptor, a positive number when it has grown it, and an error otherwise.
\<close>

section \<open>Taking a descriptor\<close>

function find_next_zero_bit :: "bool list \<Rightarrow> nat \<Rightarrow> nat" where
  "find_next_zero_bit bits start =
     (if start < length bits
      then if bits ! start then find_next_zero_bit bits (Suc start) else start
      else length bits)"
  by pat_completeness auto
termination
  by (relation "measure (\<lambda>(bits, start). length bits - start)") auto

declare find_next_zero_bit.simps [simp del]

definition take_fd :: "nat \<Rightarrow> bool \<Rightarrow> files_struct \<Rightarrow> files_struct" where
  "take_fd fd cloexec fs =
     fs\<lparr>open_fds := (open_fds fs)[fd := True], close_on_exec := (close_on_exec fs)[fd := cloexec],
        next_fd := Suc fd, fd_file := (fd_file fs)[fd := None]\<rparr>"

text \<open>The loop at \<open>repeat\<close>: None when the table grows without end.\<close>

partial_function (option) get_unused_fd ::
    "'e kenv_scheme \<Rightarrow> bool \<Rightarrow> files_struct \<Rightarrow> (int \<times> files_struct) option" where
  "get_unused_fd env cloexec fs =
     (let fd = find_next_zero_bit (open_fds fs) (next_fd fs) in
      if fd \<ge> rlimit_nofile env then Some (- EMFILE, fs)
      else if fst (expand_files env fs fd) < 0
        then Some (fst (expand_files env fs fd), snd (expand_files env fs fd))
      else if fst (expand_files env fs fd) \<noteq> 0
        then get_unused_fd env cloexec (snd (expand_files env fs fd))
      else Some (int fd, take_fd fd cloexec (snd (expand_files env fs fd))))"

definition task_get_unused_fd_flags ::
    "'e kenv_scheme \<Rightarrow> nat \<Rightarrow> bool \<Rightarrow> driver \<Rightarrow> (int \<times> driver) option" where
  "task_get_unused_fd_flags env p cloexec s = do {
     pr \<leftarrow> proc_at s p;
     if \<not> files pr then Some (- ESRCH, s)
     else do {
       (fd, fs) \<leftarrow> get_unused_fd env cloexec (proc_files pr);
       Some (fd, upd_proc p (\<lambda>pr. pr\<lparr>proc_files := fs\<rparr>) s)}}"

definition task_fd_install :: "nat \<Rightarrow> nat \<Rightarrow> nat \<Rightarrow> driver \<Rightarrow> driver option" where
  "task_fd_install p fd file s = do {
     pr \<leftarrow> proc_at s p;
     if \<not> files pr then Some s
     else do {
       check_that (fd < length (fd_file (proc_files pr)));
       check_that (fd_file (proc_files pr) ! fd = None);
       Some (upd_proc p (\<lambda>pr. pr\<lparr>proc_files :=
         (proc_files pr)\<lparr>fd_file := (fd_file (proc_files pr))[fd := Some file]\<rparr>\<rparr>) s)}}"

definition put_unused_fd :: "nat \<Rightarrow> files_struct \<Rightarrow> files_struct" where
  "put_unused_fd fd fs =
     (let fs = fs\<lparr>open_fds := (open_fds fs)[fd := False]\<rparr>
      in if fd < next_fd fs then fs\<lparr>next_fd := fd\<rparr> else fs)"

definition task_close_fd ::
    "'e kenv_scheme \<Rightarrow> nat \<Rightarrow> nat \<Rightarrow> driver \<Rightarrow> (int \<times> driver) option" where
  "task_close_fd env p fd s = do {
     pr \<leftarrow> proc_at s p;
     if \<not> files pr then Some (- ESRCH, s)
     else if fd \<ge> length (open_fds (proc_files pr)) then Some (- EBADF, s)
     else case fd_file (proc_files pr) ! fd of
       None \<Rightarrow> Some (- EBADF, s)
     | Some filp \<Rightarrow>
         let fs = proc_files pr;
             fs = fs\<lparr>fd_file := (fd_file fs)[fd := None], close_on_exec := (close_on_exec fs)[fd := False]\<rparr>;
             s = upd_proc p (\<lambda>pr. pr\<lparr>proc_files := put_unused_fd fd fs\<rparr>) s;
             retval = filp_close_result env filp
         in Some (if retval \<in> {- 512, - 513, - 514, - 516} then - EINTR else retval, s)}"

section \<open>What the descriptors satisfy\<close>

text \<open>
  \<open>fd_table_ok\<close>: the arrays of a table have one length, a descriptor that is not open
  has no file, and no free descriptor is below \<open>next_fd\<close>.
\<close>

definition fd_table_ok :: "files_struct \<Rightarrow> bool" where
  "fd_table_ok fs \<longleftrightarrow>
     length (close_on_exec fs) = length (open_fds fs) \<and> length (fd_file fs) = length (open_fds fs) \<and>
     (\<forall>i < length (open_fds fs). \<not> open_fds fs ! i \<longrightarrow> fd_file fs ! i = None) \<and>
     (\<forall>i < length (open_fds fs). i < next_fd fs \<longrightarrow> open_fds fs ! i)"

text \<open>The documented behaviour of \<open>expand_files\<close>.\<close>

definition expand_result :: "files_struct \<Rightarrow> nat \<Rightarrow> int \<Rightarrow> files_struct \<Rightarrow> bool" where
  "expand_result fs fd e fs' \<longleftrightarrow>
     fd_table_ok fs' \<and>
     (e \<ge> 0 \<longrightarrow> fd < length (open_fds fs') \<and>
        (\<forall>i < length (open_fds fs'). open_fds fs' ! i = (i < length (open_fds fs) \<and> open_fds fs ! i)) \<and>
        (\<forall>i < length (open_fds fs). fd_file fs' ! i = fd_file fs ! i) \<and>
        length (open_fds fs) \<le> length (open_fds fs') \<and> next_fd fs' = next_fd fs) \<and>
     (e = 0 \<longleftrightarrow> e \<ge> 0 \<and> fd < length (open_fds fs))"

definition expand_ok :: "'e kenv_scheme \<Rightarrow> bool" where
  "expand_ok env \<longleftrightarrow> (\<forall>fs fd. fd_table_ok fs \<longrightarrow>
     expand_result fs fd (fst (expand_files env fs fd)) (snd (expand_files env fs fd)))"

lemma find_next_zero_bit_spec:
  "find_next_zero_bit bits start \<le> length bits \<and>
   (\<forall>i. start \<le> i \<longrightarrow> i < find_next_zero_bit bits start \<longrightarrow> bits ! i) \<and>
   (find_next_zero_bit bits start < length bits \<longrightarrow>
      start \<le> find_next_zero_bit bits start \<and> \<not> bits ! find_next_zero_bit bits start)"
proof (induction bits start rule: find_next_zero_bit.induct)
  case (1 bits start)
  have eq: "find_next_zero_bit bits start =
     (if start < length bits
      then if bits ! start then find_next_zero_bit bits (Suc start) else start
      else length bits)" by (rule find_next_zero_bit.simps)
  show ?case
  proof (cases "start < length bits \<and> bits ! start")
    case True
    then have "find_next_zero_bit bits start = find_next_zero_bit bits (Suc start)" using eq by simp
    moreover have "bits ! i" if "start \<le> i" "i < find_next_zero_bit bits (Suc start)" for i
      using that True 1 by (cases "i = start") auto
    ultimately show ?thesis using 1 True by auto
  qed (use eq in auto)
qed

lemma first_free:
  assumes "fd_table_ok fs" "fd = find_next_zero_bit (open_fds fs) (next_fd fs)"
  shows "fd \<le> length (open_fds fs)" "\<And>i. i < fd \<Longrightarrow> open_fds fs ! i"
    "fd < length (open_fds fs) \<Longrightarrow> \<not> open_fds fs ! fd"
proof -
  note f = find_next_zero_bit_spec [of "open_fds fs" "next_fd fs", folded assms(2)]
  show "fd \<le> length (open_fds fs)" "fd < length (open_fds fs) \<Longrightarrow> \<not> open_fds fs ! fd" using f by auto
  fix i assume i: "i < fd"
  show "open_fds fs ! i"
  proof (cases "i < next_fd fs")
    case True
    have "i < length (open_fds fs)" using i f by simp
    with True assms(1) show ?thesis by (simp add: fd_table_ok_def)
  next
    case False
    with i f show ?thesis by simp
  qed
qed

lemma find_unique:
  assumes "\<And>i. i < fd \<Longrightarrow> bits ! i" "fd < length bits" "\<not> bits ! fd" "start \<le> fd"
  shows "find_next_zero_bit bits start = fd"
proof (cases "find_next_zero_bit bits start" fd rule: linorder_cases)
  case less
  with assms find_next_zero_bit_spec [of bits start] show ?thesis by (meson less_trans)
next
  case greater
  with assms find_next_zero_bit_spec [of bits start] show ?thesis by blast
qed

lemma take_fd_ok:
  assumes "fd_table_ok fs" "fd < length (open_fds fs)" "\<And>i. i < fd \<Longrightarrow> open_fds fs ! i"
  shows "fd_table_ok (take_fd fd c fs)"
proof -
  have "open_fds (take_fd fd c fs) ! i" if "i < Suc fd" "i < length (open_fds fs)" for i
    using that assms(2,3) by (simp add: take_fd_def nth_list_update)
  moreover have "fd_file (take_fd fd c fs) ! i = None"
    if "i < length (open_fds fs)" "\<not> open_fds (take_fd fd c fs) ! i" for i
    using that assms(1) by (cases "i = fd") (simp_all add: take_fd_def fd_table_ok_def)
  ultimately show ?thesis using assms(1) by (simp add: fd_table_ok_def take_fd_def)
qed

lemma get_unused_fd_cases:
  assumes e: "expand_ok env" and ok: "fd_table_ok fs"
  obtains (error) r fs' where "get_unused_fd env c fs = Some (r, fs')" "r < 0" "fd_table_ok fs'"
    | (takes) fd fs' where "get_unused_fd env c fs = Some (int fd, fs')" "fd_table_ok fs'"
        "fd < length (open_fds fs')" "open_fds fs' ! fd" "fd_file fs' ! fd = None" "fd < rlimit_nofile env"
        "fd < length (open_fds fs) \<Longrightarrow> \<not> open_fds fs ! fd"
        "\<And>i. i < fd \<Longrightarrow> i < length (open_fds fs) \<and> open_fds fs ! i"
        "\<And>i. i < length (open_fds fs) \<Longrightarrow> i \<noteq> fd \<Longrightarrow> fd_file fs' ! i = fd_file fs ! i"
proof -
  define fd where "fd = find_next_zero_bit (open_fds fs) (next_fd fs)"
  note ff = first_free [OF ok fd_def]
  obtain r fs1 where x: "expand_files env fs fd = (r, fs1)" by (cases "expand_files env fs fd")
  have ex: "expand_result fs fd r fs1" using e ok x unfolding expand_ok_def by (metis fst_conv snd_conv)
  then have ok1: "fd_table_ok fs1" by (simp add: expand_result_def)
  show ?thesis
  proof (cases "fd \<ge> rlimit_nofile env \<or> r < 0")
    case True
    then have "\<exists>r' fs'. get_unused_fd env c fs = Some (r', fs') \<and> r' < 0 \<and> fd_table_ok fs'"
      using ok ok1 by (subst get_unused_fd.simps) (auto simp: Let_def fd_def [symmetric] x)
    with error show ?thesis by blast
  next
    case False
    then have g: "fd < length (open_fds fs1)" "next_fd fs1 = next_fd fs"
      "\<And>i. i < length (open_fds fs1) \<Longrightarrow> open_fds fs1 ! i = (i < length (open_fds fs) \<and> open_fds fs ! i)"
      "\<And>i. i < length (open_fds fs) \<Longrightarrow> fd_file fs1 ! i = fd_file fs ! i"
      "length (open_fds fs) \<le> length (open_fds fs1)"
      using ex by (simp_all add: expand_result_def)
    have below: "open_fds fs1 ! i" if "i < fd" for i
    proof -
      have "i < length (open_fds fs)" "i < length (open_fds fs1)" using that ff(1) g(1) by simp_all
      with g(3) ff(2) [OF that] show ?thesis by simp
    qed
    have free: "\<not> open_fds fs1 ! fd" using g(1,3) ff(3) by blast
    have finish: thesis if run: "get_unused_fd env c fs = Some (int fd, take_fd fd c fs2)"
        and f2: "fd_table_ok fs2" "fd < length (open_fds fs2)" "\<And>i. i < fd \<Longrightarrow> open_fds fs2 ! i"
          "\<And>i. i < length (open_fds fs) \<Longrightarrow> fd_file fs2 ! i = fd_file fs ! i" "length (open_fds fs) \<le> length (open_fds fs2)"
        for fs2
    proof (rule takes [OF run])
      show "fd_table_ok (take_fd fd c fs2)" by (rule take_fd_ok) (use f2 in auto)
   
      show "fd < length (open_fds (take_fd fd c fs2))" "open_fds (take_fd fd c fs2) ! fd"
        "fd_file (take_fd fd c fs2) ! fd = None"
        using f2(1,2) by (simp_all add: take_fd_def fd_table_ok_def)
      show "fd < rlimit_nofile env" using False by simp
      show "i < length (open_fds fs) \<and> open_fds fs ! i" if "i < fd" for i using ff(1,2) that by auto
      show "fd_file (take_fd fd c fs2) ! i = fd_file fs ! i" if "i < length (open_fds fs)" "i \<noteq> fd" for i
        using that f2(4) by (simp add: take_fd_def)
    qed (use ff(3) in auto)
    show ?thesis
    proof (cases "r = 0")
      case True
      have "get_unused_fd env c fs = Some (int fd, take_fd fd c fs1)"
        using False True by (subst get_unused_fd.simps) (simp add: Let_def fd_def [symmetric] x)
      then show ?thesis by (rule finish) (use ok1 g below in simp_all)
    next
      case grown: False
      have "next_fd fs1 \<le> fd"
        using ok1 g(1) free unfolding fd_table_ok_def by (meson not_le)
      then have fd1: "find_next_zero_bit (open_fds fs1) (next_fd fs1) = fd"
        using below free g(1) by (intro find_unique) auto
      obtain r2 fs2 where x2: "expand_files env fs1 fd = (r2, fs2)" by (cases "expand_files env fs1 fd")
      have ex2: "expand_result fs1 fd r2 fs2" using e ok1 x2 unfolding expand_ok_def by (metis fst_conv snd_conv)
      have run: "get_unused_fd env c fs = get_unused_fd env c fs1"
        using False grown by (subst get_unused_fd.simps) (simp add: Let_def fd_def [symmetric] x)
      show ?thesis
      proof (cases "r2 < 0")
        case True
        then have "get_unused_fd env c fs = Some (r2, fs2)"
          using False unfolding run by (subst get_unused_fd.simps) (simp add: Let_def fd1 x2)
        then show ?thesis by (rule error) (use True ex2 in \<open>simp_all add: expand_result_def\<close>)
      next
        case no: False
        with ex2 g(1) have z: "r2 = 0" by (simp add: expand_result_def)
        with ex2 have g2: "fd_table_ok fs2" "fd < length (open_fds fs2)"
          "\<And>i. i < length (open_fds fs2) \<Longrightarrow> open_fds fs2 ! i = (i < length (open_fds fs1) \<and> open_fds fs1 ! i)"
          "\<And>i. i < length (open_fds fs1) \<Longrightarrow> fd_file fs2 ! i = fd_file fs1 ! i"
          "length (open_fds fs1) \<le> length (open_fds fs2)"
          by (simp_all add: expand_result_def)
        have "get_unused_fd env c fs = Some (int fd, take_fd fd c fs2)"
          using False z unfolding run by (subst get_unused_fd.simps) (simp add: Let_def fd1 x2)
        then show ?thesis
        proof (rule finish)
          show "open_fds fs2 ! i" if "i < fd" for i
            using that below g(1) g2(2) g2(3) [of i] by (metis less_trans)
          show "fd_file fs2 ! i = fd_file fs ! i" if "i < length (open_fds fs)" for i
            using that g2(4) [of i] g(4) [of i] g(5) by simp
        qed (use g2 g(5) in simp_all)
      qed
    qed
  qed
qed

text \<open>A transaction that passes a file takes the lowest descriptor that is not open in
  the receiver, below its limit, and installing the file there never hits the
  \<open>BUG_ON\<close>; no other descriptor of the receiver changes, and the search always ends.\<close>

theorem passed_file_gets_lowest_descriptor:
  assumes "expand_ok env" "proc_at s p = Some pr" "files pr" "fd_table_ok (proc_files pr)"
  shows "\<exists>r s'. task_get_unused_fd_flags env p cloexec s = Some (r, s') \<and>
     (r \<ge> 0 \<longrightarrow> (\<exists>s'' pr''. task_fd_install p (nat r) file s' = Some s'' \<and> proc_at s'' p = Some pr'' \<and>
        fd_table_ok (proc_files pr'') \<and> fd_file (proc_files pr'') ! nat r = Some file \<and> nat r < rlimit_nofile env \<and>
        (\<forall>i < nat r. open_fds (proc_files pr) ! i) \<and>
        (nat r < length (open_fds (proc_files pr)) \<longrightarrow> \<not> open_fds (proc_files pr) ! nat r) \<and>
        (\<forall>i < length (open_fds (proc_files pr)). i \<noteq> nat r \<longrightarrow>
           fd_file (proc_files pr'') ! i = fd_file (proc_files pr) ! i)))"
proof (cases rule: get_unused_fd_cases [OF assms(1,4), of cloexec, case_names error takes])
  case (error r fs')
  with assms show ?thesis by (simp add: task_get_unused_fd_flags_def)
next
  case (takes fd fs')
  define pr1 where "pr1 = pr\<lparr>proc_files := fs'\<rparr>"
  define s' where "s' = upd_proc p (\<lambda>pr. pr\<lparr>proc_files := fs'\<rparr>) s"
  have s': "proc_at s' p = Some pr1" "files pr1" using assms(2,3) by (simp_all add: s'_def pr1_def)
  have run: "task_get_unused_fd_flags env p cloexec s = Some (int fd, s')"
    using takes(1) assms by (simp add: task_get_unused_fd_flags_def s'_def)
  define fs2 where "fs2 = fs'\<lparr>fd_file := (fd_file fs')[fd := Some file]\<rparr>"
  have l: "fd < length (fd_file fs')" using takes(2,3) by (simp add: fd_table_ok_def)
  have inst: "task_fd_install p fd file s' = Some (upd_proc p (\<lambda>pr. pr\<lparr>proc_files := fs2\<rparr>) s')"
    using s' l takes(5) by (simp add: task_fd_install_def fs2_def pr1_def)
  have "fd_table_ok fs2"
    using takes(2-4) l by (auto simp: fd_table_ok_def fs2_def nth_list_update)
  then show ?thesis
    using run inst s' l takes(6-9)
    by (intro exI [of _ "int fd"] exI [of _ s']) (auto simp: fs2_def nth_list_update)
qed

definition small_files :: files_struct where
  "small_files = \<lparr>open_fds = [True, True, False, True], close_on_exec = [False, False, False, False],
     fd_file = [Some 7, Some 8, None, Some 9], next_fd = 1\<rparr>"

definition grow_files :: "files_struct \<Rightarrow> nat \<Rightarrow> int \<times> files_struct" where
  "grow_files fs fd =
     (if fd < length (open_fds fs) then (0, fs) else if next_fd fs > length (open_fds fs) then (- EMFILE, fs)
      else let n = Suc fd - length (open_fds fs) in
        (1, fs\<lparr>open_fds := open_fds fs @ replicate n False,
               close_on_exec := close_on_exec fs @ replicate n False, fd_file := fd_file fs @ replicate n None\<rparr>))"

lemma grow_files_ok: "expand_ok (plain_kenv\<lparr>expand_files := grow_files\<rparr>)"
  unfolding expand_ok_def
  by (auto simp: grow_files_def expand_result_def Let_def fd_table_ok_def nth_append)

theorem passed_file_gets_lowest_descriptor_witness:
  "\<exists>r s'. task_get_unused_fd_flags (plain_kenv\<lparr>expand_files := grow_files\<rparr>) 100 True
        (two_procs\<lparr>proc_at := [100 \<mapsto> blank_proc\<lparr>files := True, proc_files := small_files\<rparr>]\<rparr>) = Some (r, s') \<and>
     (r \<ge> 0 \<longrightarrow> (\<exists>s'' pr''. task_fd_install 100 (nat r) 55 s' = Some s'' \<and> proc_at s'' 100 = Some pr'' \<and>
        fd_table_ok (proc_files pr'') \<and> fd_file (proc_files pr'') ! nat r = Some 55 \<and>
        nat r < rlimit_nofile (plain_kenv\<lparr>expand_files := grow_files\<rparr>) \<and>
        (\<forall>i < nat r. open_fds (proc_files (blank_proc\<lparr>files := True, proc_files := small_files\<rparr>)) ! i) \<and>
        (nat r < length (open_fds (proc_files (blank_proc\<lparr>files := True, proc_files := small_files\<rparr>))) \<longrightarrow>
           \<not> open_fds (proc_files (blank_proc\<lparr>files := True, proc_files := small_files\<rparr>)) ! nat r) \<and>
        (\<forall>i < length (open_fds (proc_files (blank_proc\<lparr>files := True, proc_files := small_files\<rparr>))). i \<noteq> nat r \<longrightarrow>
           fd_file (proc_files pr'') ! i =
           fd_file (proc_files (blank_proc\<lparr>files := True, proc_files := small_files\<rparr>)) ! i)))"
proof (rule passed_file_gets_lowest_descriptor [OF grow_files_ok])
  show "fd_table_ok (proc_files (blank_proc\<lparr>files := True, proc_files := small_files\<rparr>))"
    by (auto simp: fd_table_ok_def small_files_def nth_Cons split: nat.splits)
qed simp_all

end
