(* ===== verification/BinderTxn.thy ===== *)
theory BinderTxn
  imports BinderFiles
begin

text \<open>
  Transactions (driver/binder/binder.c, binder_pop_transaction to binder_transaction).  A
  call pushes a transaction on the stack of the calling thread, copies the caller's data
  into a buffer of the target process, translates the objects in it, and queues the
  transaction there; a reply pops the call and goes back to its sender.

  binder_transaction is one C function of 400 lines; here it is the sequence of its parts
  (\<open>reply_target\<close> or \<open>call_target\<close>, \<open>txn_start\<close>, \<open>txn_copy\<close>, \<open>translate_objects\<close>,
  \<open>txn_commit\<close>).  A \<open>goto\<close> to an error label is the value \<open>Inl\<close> of a part: the error code,
  how much \<open>undo\<close> the label implies, and \<open>in_reply_to\<close> at that point.
\<close>

section \<open>Failed replies\<close>

text \<open>\<open>upd_buffer\<close> stores to a buffer by its kernel address.\<close>

definition upd_buffer :: "nat \<times> nat \<Rightarrow> (binder_buffer \<Rightarrow> binder_buffer) \<Rightarrow> driver \<Rightarrow> driver option" where
  "upd_buffer pb f s = do {
     pr \<leftarrow> proc_at s (fst pb);
     check_that (snd pb \<in> set (buffers pr));
     Some (upd_proc (fst pb) (buf_upd (snd pb) f) s)}"

definition kfree_transaction :: "nat \<Rightarrow> driver \<Rightarrow> driver" where
  "kfree_transaction t s = binder_stats_deleted Stat_transaction (s\<lparr>txn_at := (txn_at s)(t := None)\<rparr>)"

definition binder_pop_transaction :: "nat option \<Rightarrow> nat \<Rightarrow> driver \<Rightarrow> driver option" where
  "binder_pop_transaction target_thread t s = do {
     tx \<leftarrow> txn_at s t;
     s \<leftarrow> (case target_thread of
             None \<Rightarrow> Some s
           | Some th \<Rightarrow> do {
               x \<leftarrow> thread_at s th;
               check_that (transaction_stack x = Some t);
               check_that (txn_from tx = Some th);
               Some (upd_thread th (\<lambda>x. x\<lparr>transaction_stack := from_parent tx\<rparr>) s)});
     s \<leftarrow> (case txn_buffer tx of
             None \<Rightarrow> Some s
           | Some pb \<Rightarrow> upd_buffer pb (\<lambda>b. b\<lparr>buf_transaction := None\<rparr>) s);
     Some (kfree_transaction t s)}"

text \<open>
  The body of the loop of binder_send_failed_reply when the sender is alive: an old error
  moves to \<open>return_error2\<close> when that is free.
\<close>

definition deliver_error :: "nat \<Rightarrow> nat \<Rightarrow> u32 \<Rightarrow> driver \<Rightarrow> driver option" where
  "deliver_error th t error_code s = do {
     _ \<leftarrow> thread_at s th;
     let s = upd_thread th (\<lambda>x. if return_error x \<noteq> BR_OK \<and> return_error2 x = BR_OK
                                then x\<lparr>return_error2 := return_error x, return_error := BR_OK\<rparr> else x) s;
     x \<leftarrow> thread_at s th;
     if return_error x = BR_OK
     then do {
       s \<leftarrow> binder_pop_transaction (Some th) t s;
       Some (wake_up (Thread_wait th) (upd_thread th (\<lambda>x. x\<lparr>return_error := error_code\<rparr>) s))}
     else Some s}"

text \<open>The loop: None also when it never ends.\<close>

partial_function (option) failed_reply_loop :: "nat \<Rightarrow> u32 \<Rightarrow> driver \<Rightarrow> driver option" where
  "failed_reply_loop t error_code s =
     Option.bind (txn_at s t) (\<lambda>tx.
       if txn_from tx \<noteq> None then deliver_error (the (txn_from tx)) t error_code s
       else Option.bind (binder_pop_transaction None t s) (\<lambda>s'.
         if from_parent tx = None then Some s'
         else failed_reply_loop (the (from_parent tx)) error_code s'))"

definition binder_send_failed_reply :: "nat \<Rightarrow> u32 \<Rightarrow> driver \<Rightarrow> driver option" where
  "binder_send_failed_reply t error_code s = do {
     tx \<leftarrow> txn_at s t;
     check_that (txn_flags tx AND TF_ONE_WAY = 0);
     failed_reply_loop t error_code s}"

section \<open>Objects in a buffer\<close>

text \<open>\<open>struct flat_binder_object\<close> at an offset of the payload; \<open>handle\<close> is also \<open>binder\<close>.\<close>

record flat_binder_object =
  obj_type :: u32
  obj_flags :: u32
  handle :: u32
  obj_cookie :: u32

definition read_object :: "memory \<Rightarrow> nat \<Rightarrow> flat_binder_object" where
  "read_object m off = \<lparr>obj_type = load32 m off, obj_flags = load32 m (off + 4),
     handle = load32 m (off + 8), obj_cookie = load32 m (off + 12)\<rparr>"

definition write_object :: "nat \<Rightarrow> flat_binder_object \<Rightarrow> memory \<Rightarrow> memory" where
  "write_object off fp m =
     store32 (off + 12) (obj_cookie fp) (store32 (off + 8) (handle fp)
       (store32 (off + 4) (obj_flags fp) (store32 off (obj_type fp) m)))"

definition bad_offset :: "u32 \<Rightarrow> u32 \<Rightarrow> bool" where
  "bad_offset off dsize \<longleftrightarrow> off > dsize - 16 \<or> dsize < 16 \<or> off AND 3 \<noteq> 0"

definition nth_offset :: "binder_buffer \<Rightarrow> nat \<Rightarrow> u32" where
  "nth_offset b i = load32 (payload b) (unat (align_ptr (data_size b)) + 4 * i)"

definition release_object ::
    "'e kenv_scheme \<Rightarrow> nat \<Rightarrow> flat_binder_object \<Rightarrow> bool \<Rightarrow> driver \<Rightarrow> driver option" where
  "release_object env p fp failed s =
     (if obj_type fp = BINDER_TYPE_BINDER \<or> obj_type fp = BINDER_TYPE_WEAK_BINDER
      then do {
        node \<leftarrow> binder_get_node s p (handle fp);
        case node of
          None \<Rightarrow> Some s
        | Some n \<Rightarrow> map_option snd (binder_dec_node env n (obj_type fp = BINDER_TYPE_BINDER) False s)}
      else if obj_type fp = BINDER_TYPE_HANDLE \<or> obj_type fp = BINDER_TYPE_WEAK_HANDLE
      then do {
        ref \<leftarrow> binder_get_ref s p (handle fp);
        case ref of
          None \<Rightarrow> Some s
        | Some r \<Rightarrow> map_option snd (binder_dec_ref env r (obj_type fp = BINDER_TYPE_HANDLE) s)}
      else if obj_type fp = BINDER_TYPE_FD
      then (if failed then map_option snd (task_close_fd env p (unat (handle fp)) s) else Some s)
      else Some s)"

fun release_objects ::
    "'e kenv_scheme \<Rightarrow> nat \<Rightarrow> binder_buffer \<Rightarrow> bool \<Rightarrow> nat list \<Rightarrow> driver \<Rightarrow> driver option" where
  "release_objects env p b failed [] s = Some s"
| "release_objects env p b failed (i # is) s =
     (if bad_offset (nth_offset b i) (data_size b) then release_objects env p b failed is s
      else do {
        s \<leftarrow> release_object env p (read_object (payload b) (unat (nth_offset b i))) failed s;
        release_objects env p b failed is s})"

text \<open>
  \<open>failed_at\<close> is the number of offsets that were translated before the failure, None when
  the whole buffer is released.  The loop \<open>offp < off_end\<close> also visits a last partial word.
\<close>

definition binder_transaction_buffer_release ::
    "'e kenv_scheme \<Rightarrow> nat \<Rightarrow> nat \<Rightarrow> nat option \<Rightarrow> driver \<Rightarrow> driver option" where
  "binder_transaction_buffer_release env p buffer failed_at s = do {
     pr \<leftarrow> proc_at s p;
     let b = bufs pr buffer;
     s \<leftarrow> (case buf_target_node b of
             None \<Rightarrow> Some s
           | Some n \<Rightarrow> map_option snd (binder_dec_node env n True False s));
     release_objects env p b (failed_at \<noteq> None)
       [0..<(case failed_at of Some n \<Rightarrow> n | None \<Rightarrow> (unat (offsets_size b) + 3) div 4)] s}"

section \<open>The target of a transaction\<close>

text \<open>The argument of BC_TRANSACTION and BC_REPLY.\<close>

record transaction_data =
  tr_target :: u32
  tr_cookie :: u32
  tr_code :: u32
  tr_flags :: u32
  tr_sender_pid :: u32
  tr_sender_euid :: u32
  tr_data_size :: u32
  tr_offsets_size :: u32
  tr_buffer :: u32
  tr_offsets :: u32

text \<open>What the error label at which a transaction failed undoes.\<close>

datatype undo =
  Undo_nothing | Undo_transaction nat | Undo_complete nat nat | Undo_buffer nat nat "nat \<times> nat" nat

record txn_error =
  err_code :: u32
  err_undo :: undo
  err_in_reply_to :: "nat option"

record txn_target =
  target_thread :: "nat option"
  target_proc :: nat
  target_node :: "nat option"
  in_reply_to :: "nat option"

definition log_update :: "nat \<Rightarrow> (log_entry \<Rightarrow> log_entry) \<Rightarrow> driver \<Rightarrow> driver" where
  "log_update e f s = s\<lparr>transaction_log := log_store e f (transaction_log s)\<rparr>"

definition txn_log_start ::
    "nat \<Rightarrow> nat \<Rightarrow> transaction_data \<Rightarrow> bool \<Rightarrow> driver \<Rightarrow> (nat \<times> driver) option" where
  "txn_log_start p th tr reply s = do {
     pr \<leftarrow> proc_at s p;
     x \<leftarrow> thread_at s th;
     let (e, log) = binder_transaction_log_add (transaction_log s);
     Some (e, log_update e (\<lambda>l. l\<lparr>call_type := if reply then 2 else if tr_flags tr AND TF_ONE_WAY \<noteq> 0 then 1 else 0,
                log_from_proc := proc_pid pr, log_from_thread := thread_pid x,
                target_handle := tr_target tr, log_data_size := tr_data_size tr,
                log_offsets_size := tr_offsets_size tr\<rparr>) (s\<lparr>transaction_log := log\<rparr>))}"

definition reply_target ::
    "'e kenv_scheme \<Rightarrow> task \<Rightarrow> nat \<Rightarrow> driver \<Rightarrow> ((txn_error + txn_target) \<times> driver) option" where
  "reply_target env task th s = do {
     x \<leftarrow> thread_at s th;
     case transaction_stack x of
       None \<Rightarrow> Some (Inl \<lparr>err_code = BR_FAILED_REPLY, err_undo = Undo_nothing, err_in_reply_to = None\<rparr>, s)
     | Some t \<Rightarrow> do {
         irt \<leftarrow> txn_at s t;
         let s = binder_set_nice env task (saved_priority irt) s;
         if to_thread irt \<noteq> Some th
         then Some (Inl \<lparr>err_code = BR_FAILED_REPLY, err_undo = Undo_nothing, err_in_reply_to = None\<rparr>, s)
         else do {
           let s = upd_thread th (\<lambda>x. x\<lparr>transaction_stack := to_parent irt\<rparr>) s;
           case txn_from irt of
             None \<Rightarrow> Some (Inl \<lparr>err_code = BR_DEAD_REPLY, err_undo = Undo_nothing, err_in_reply_to = Some t\<rparr>, s)
           | Some tt \<Rightarrow> do {
               tx \<leftarrow> thread_at s tt;
               if transaction_stack tx \<noteq> Some t
               then Some (Inl \<lparr>err_code = BR_FAILED_REPLY, err_undo = Undo_nothing, err_in_reply_to = None\<rparr>, s)
               else Some (Inr \<lparr>target_thread = Some tt, target_proc = thread_proc tx, target_node = None,
                               in_reply_to = Some t\<rparr>, s)}}}}"

text \<open>The last thread of the target process on the stack of calls; None also when the walk never ends.\<close>

partial_function (option) calling_thread ::
    "driver \<Rightarrow> nat \<Rightarrow> nat option \<Rightarrow> nat option \<Rightarrow> nat option option" where
  "calling_thread s tp tmp found =
     (if tmp = None then Some found
      else Option.bind (txn_at s (the tmp)) (\<lambda>tx.
        Option.bind (if txn_from tx = None then Some None
                     else map_option (\<lambda>x. Some (thread_proc x)) (thread_at s (the (txn_from tx)))) (\<lambda>from_proc.
          calling_thread s tp (from_parent tx) (if from_proc = Some tp then txn_from tx else found))))"

definition call_target ::
    "nat \<Rightarrow> nat \<Rightarrow> transaction_data \<Rightarrow> nat \<Rightarrow> driver \<Rightarrow> ((txn_error + txn_target) \<times> driver) option" where
  "call_target p th tr e s = do {
     n \<leftarrow> (if tr_target tr \<noteq> 0
            then do {
              ref \<leftarrow> binder_get_ref s p (tr_target tr);
              case ref of
                None \<Rightarrow> Some (Inl BR_FAILED_REPLY)
              | Some r \<Rightarrow> map_option (\<lambda>ref. Inr (ref_node ref)) (ref_at s r)}
            else Some (case context_mgr_node s of None \<Rightarrow> Inl BR_DEAD_REPLY | Some n \<Rightarrow> Inr n));
     case n of
       Inl code \<Rightarrow> Some (Inl \<lparr>err_code = code, err_undo = Undo_nothing, err_in_reply_to = None\<rparr>, s)
     | Inr n \<Rightarrow> do {
         node \<leftarrow> node_at s n;
         let s = log_update e (\<lambda>l. l\<lparr>log_to_node := node_debug_id node\<rparr>) s;
         case node_proc node of
           None \<Rightarrow> Some (Inl \<lparr>err_code = BR_DEAD_REPLY, err_undo = Undo_nothing, err_in_reply_to = None\<rparr>, s)
         | Some tp \<Rightarrow> do {
             x \<leftarrow> thread_at s th;
             if tr_flags tr AND TF_ONE_WAY = 0 \<and> transaction_stack x \<noteq> None
             then do {
               tmp \<leftarrow> transaction_stack x;
               tx \<leftarrow> txn_at s tmp;
               if to_thread tx \<noteq> Some th
               then Some (Inl \<lparr>err_code = BR_FAILED_REPLY, err_undo = Undo_nothing, err_in_reply_to = None\<rparr>, s)
               else do {
                 found \<leftarrow> calling_thread s tp (Some tmp) None;
                 Some (Inr \<lparr>target_thread = found, target_proc = tp, target_node = Some n, in_reply_to = None\<rparr>, s)}}
             else Some (Inr \<lparr>target_thread = None, target_proc = tp, target_node = Some n, in_reply_to = None\<rparr>, s)}}}"

end
