(* ===== verification/BinderTransact.thy ===== *)
theory BinderTransact
  imports BinderTxn
begin

text \<open>
  The rest of binder_transaction: the transaction is allocated and filled in, the data
  copied, the objects translated for the target process, and the transaction queued, or
  all of it undone.
\<close>

section \<open>Setting up\<close>

text \<open>The labels err_alloc_t_failed, err_alloc_tcomplete_failed and err_binder_alloc_buf_failed.\<close>

definition txn_start ::
    "'e kenv_scheme \<Rightarrow> task \<Rightarrow> nat \<Rightarrow> nat \<Rightarrow> transaction_data \<Rightarrow> bool \<Rightarrow> txn_target \<Rightarrow> nat \<Rightarrow> driver \<Rightarrow>
     ((txn_error + nat \<times> nat \<times> nat) \<times> driver) option" where
  "txn_start env task p th tr reply tg e s = do {
     tpr \<leftarrow> proc_at s (target_proc tg);
     to_pid \<leftarrow> (case target_thread tg of None \<Rightarrow> Some 0 | Some tt \<Rightarrow> map_option thread_pid (thread_at s tt));
     let s = (if target_thread tg = None then s else log_update e (\<lambda>l. l\<lparr>log_to_thread := to_pid\<rparr>) s);
     let s = log_update e (\<lambda>l. l\<lparr>log_to_proc := proc_pid tpr\<rparr>) s;
     case kzalloc env s of
       (None, s) \<Rightarrow> Some (Inl \<lparr>err_code = BR_FAILED_REPLY, err_undo = Undo_nothing,
                              err_in_reply_to = in_reply_to tg\<rparr>, s)
     | (Some t, s) \<Rightarrow>
         let s = binder_stats_created Stat_transaction s in
         (case kzalloc env s of
            (None, s) \<Rightarrow> Some (Inl \<lparr>err_code = BR_FAILED_REPLY, err_undo = Undo_transaction t,
                                   err_in_reply_to = in_reply_to tg\<rparr>, s)
          | (Some tc, s) \<Rightarrow> do {
              let s = binder_stats_created Stat_transaction_complete s;
              let s = s\<lparr>last_id := Suc (last_id s)\<rparr>;
              let s = log_update e (\<lambda>l. l\<lparr>log_debug_id := last_id s\<rparr>) s;
              pr \<leftarrow> proc_at s p;
              let s = s\<lparr>txn_at := (txn_at s)(t := Some
                \<lparr>txn_debug_id = last_id s,
                 txn_from = (if \<not> reply \<and> tr_flags tr AND TF_ONE_WAY = 0 then Some th else None),
                 from_parent = None, to_proc = Some (target_proc tg), to_thread = target_thread tg,
                 to_parent = None, need_reply = False, txn_buffer = None, txn_code = tr_code tr,
                 txn_flags = tr_flags tr, priority = nice s (cur_task task), saved_priority = 0,
                 sender_euid = euid_of env (tsk pr)\<rparr>),
                 linked := (linked s)(Transaction_work t := None, Complete_work tc := None)\<rparr>;
              tpr \<leftarrow> proc_at s (target_proc tg);
              (buffer, tpr) \<leftarrow> binder_alloc_buf env tpr (tr_data_size tr) (tr_offsets_size tr)
                                (\<not> reply \<and> tr_flags tr AND TF_ONE_WAY \<noteq> 0);
              let s = s\<lparr>proc_at := (proc_at s)(target_proc tg := Some tpr)\<rparr>;
              case buffer of
                None \<Rightarrow> Some (Inl \<lparr>err_code = BR_FAILED_REPLY, err_undo = Undo_complete t tc,
                                  err_in_reply_to = in_reply_to tg\<rparr>, s)
              | Some b \<Rightarrow> do {
                  let s = upd_txn t (\<lambda>x. x\<lparr>txn_buffer := Some (target_proc tg, b)\<rparr>) s;
                  s \<leftarrow> upd_buffer (target_proc tg, b) (\<lambda>x. x\<lparr>allow_user_free := False,
                         buf_debug_id := last_id s, buf_transaction := Some t,
                         buf_target_node := target_node tg\<rparr>) s;
                  s \<leftarrow> (case target_node tg of
                          None \<Rightarrow> Some s
                        | Some n \<Rightarrow> map_option snd (binder_inc_node n True False None s));
                  Some (Inr (t, tc, b), s)}})}"

text \<open>
  The two calls of \<open>copy_from_user\<close> and the check of the offsets' size, at err_copy_data_failed
  and err_bad_offset.  What a failed copy leaves in the buffer, which is then freed, is not
  modelled.
\<close>

definition txn_copy ::
    "'e kenv_scheme \<Rightarrow> transaction_data \<Rightarrow> nat \<times> nat \<Rightarrow> driver \<Rightarrow> ((u32 + unit) \<times> driver) option" where
  "txn_copy env tr pb s =
     (if \<not> user_readable env (unat (tr_buffer tr)) (unat (tr_data_size tr)) then Some (Inl BR_FAILED_REPLY, s)
      else do {
        s \<leftarrow> upd_buffer pb (\<lambda>b. b\<lparr>payload :=
               copy_bytes (user_mem s) (unat (tr_buffer tr)) 0 (unat (tr_data_size tr)) (payload b)\<rparr>) s;
        if \<not> user_readable env (unat (tr_offsets tr)) (unat (tr_offsets_size tr)) then Some (Inl BR_FAILED_REPLY, s)
        else do {
          s \<leftarrow> upd_buffer pb (\<lambda>b. b\<lparr>payload :=
                 copy_bytes (user_mem s) (unat (tr_offsets tr)) (unat (align_ptr (tr_data_size tr)))
                   (unat (tr_offsets_size tr)) (payload b)\<rparr>) s;
          if tr_offsets_size tr AND 3 \<noteq> 0 then Some (Inl BR_FAILED_REPLY, s)
          else Some (Inr (), s)}})"

section \<open>Translating objects\<close>

text \<open>
  A translation answers the rewritten object or an error code.  On a cookie that differs from
  the node's, the code jumps to the error label without setting \<open>return_error\<close>.
\<close>

definition handle_type :: "u32 \<Rightarrow> u32" where
  "handle_type ty = (if ty = BINDER_TYPE_BINDER then BINDER_TYPE_HANDLE else BINDER_TYPE_WEAK_HANDLE)"

definition send_reference ::
    "'e kenv_scheme \<Rightarrow> nat \<Rightarrow> txn_target \<Rightarrow> flat_binder_object \<Rightarrow> nat \<Rightarrow> driver \<Rightarrow>
     ((u32 + flat_binder_object) \<times> driver) option" where
  "send_reference env th tg fp n s = do {
     (ref, s) \<leftarrow> binder_get_ref_for_node env (target_proc tg) n s;
     case ref of
       None \<Rightarrow> Some (Inl BR_FAILED_REPLY, s)
     | Some r \<Rightarrow> do {
         d \<leftarrow> ref_at s r;
         let fp = fp\<lparr>obj_type := handle_type (obj_type fp), handle := desc d\<rparr>;
         (_, s) \<leftarrow> binder_inc_ref r (obj_type fp = BINDER_TYPE_HANDLE) (Some (Thread_todo th)) s;
         Some (Inr fp, s)}}"

definition translate_binder ::
    "'e kenv_scheme \<Rightarrow> nat \<Rightarrow> nat \<Rightarrow> txn_target \<Rightarrow> flat_binder_object \<Rightarrow> driver \<Rightarrow>
     ((u32 + flat_binder_object) \<times> driver) option" where
  "translate_binder env p th tg fp s = do {
     found \<leftarrow> binder_get_node s p (handle fp);
     (node, s) \<leftarrow>
       (case found of
          Some n \<Rightarrow> Some (Some n, s)
        | None \<Rightarrow> do {
            (made, s) \<leftarrow> binder_new_node env p (handle fp) (obj_cookie fp) s;
            case made of
              None \<Rightarrow> Some (None, s)
            | Some n \<Rightarrow> Some (Some n, upd_node n (\<lambda>x. x\<lparr>min_priority := unat (obj_flags fp AND 255),
                                                    accept_fds := obj_flags fp AND 256 \<noteq> 0\<rparr>) s)});
     case node of
       None \<Rightarrow> Some (Inl BR_FAILED_REPLY, s)
     | Some n \<Rightarrow> do {
         x \<leftarrow> node_at s n;
         if obj_cookie fp \<noteq> node_cookie x then Some (Inl (stack_garbage env), s)
         else send_reference env th tg fp n s}}"

definition translate_handle ::
    "'e kenv_scheme \<Rightarrow> nat \<Rightarrow> txn_target \<Rightarrow> flat_binder_object \<Rightarrow> driver \<Rightarrow>
     ((u32 + flat_binder_object) \<times> driver) option" where
  "translate_handle env p tg fp s = do {
     found \<leftarrow> binder_get_ref s p (handle fp);
     case found of
       None \<Rightarrow> Some (Inl BR_FAILED_REPLY, s)
     | Some r \<Rightarrow> do {
         ref \<leftarrow> ref_at s r;
         node \<leftarrow> node_at s (ref_node ref);
         if node_proc node = Some (target_proc tg)
         then do {
           let ty = (if obj_type fp = BINDER_TYPE_HANDLE then BINDER_TYPE_BINDER else BINDER_TYPE_WEAK_BINDER);
           (_, s) \<leftarrow> binder_inc_node (ref_node ref) (ty = BINDER_TYPE_BINDER) False None s;
           Some (Inr (fp\<lparr>obj_type := ty, handle := node_ptr node, obj_cookie := node_cookie node\<rparr>), s)}
         else do {
           (new_ref, s) \<leftarrow> binder_get_ref_for_node env (target_proc tg) (ref_node ref) s;
           case new_ref of
             None \<Rightarrow> Some (Inl BR_FAILED_REPLY, s)
           | Some r2 \<Rightarrow> do {
               d \<leftarrow> ref_at s r2;
               (_, s) \<leftarrow> binder_inc_ref r2 (obj_type fp = BINDER_TYPE_HANDLE) None s;
               Some (Inr (fp\<lparr>handle := desc d\<rparr>), s)}}}}"

text \<open>The count of \<open>struct file\<close> references, \<open>fget\<close> and \<open>fput\<close>, is not modelled.\<close>

definition translate_fd ::
    "'e kenv_scheme \<Rightarrow> bool \<Rightarrow> txn_target \<Rightarrow> flat_binder_object \<Rightarrow> driver \<Rightarrow>
     ((u32 + flat_binder_object) \<times> driver) option" where
  "translate_fd env reply tg fp s = do {
     allowed \<leftarrow> (if reply
                 then do { t \<leftarrow> in_reply_to tg; tx \<leftarrow> txn_at s t; Some (txn_flags tx AND TF_ACCEPT_FDS \<noteq> 0) }
                 else do { n \<leftarrow> target_node tg; x \<leftarrow> node_at s n; Some (accept_fds x) });
     if \<not> allowed then Some (Inl BR_FAILED_REPLY, s)
     else case fget_file env (handle fp) of
       None \<Rightarrow> Some (Inl BR_FAILED_REPLY, s)
     | Some file \<Rightarrow> do {
         (target_fd, s) \<leftarrow> task_get_unused_fd_flags env (target_proc tg) True s;
         if target_fd < 0 then Some (Inl BR_FAILED_REPLY, s)
         else do {
           s \<leftarrow> task_fd_install (target_proc tg) (nat target_fd) file s;
           Some (Inr (fp\<lparr>handle := word_of_int target_fd\<rparr>), s)}}}"

definition translate_object ::
    "'e kenv_scheme \<Rightarrow> nat \<Rightarrow> nat \<Rightarrow> bool \<Rightarrow> txn_target \<Rightarrow> flat_binder_object \<Rightarrow> driver \<Rightarrow>
     ((u32 + flat_binder_object) \<times> driver) option" where
  "translate_object env p th reply tg fp s =
     (if obj_type fp = BINDER_TYPE_BINDER \<or> obj_type fp = BINDER_TYPE_WEAK_BINDER
      then translate_binder env p th tg fp s
      else if obj_type fp = BINDER_TYPE_HANDLE \<or> obj_type fp = BINDER_TYPE_WEAK_HANDLE
      then translate_handle env p tg fp s
      else if obj_type fp = BINDER_TYPE_FD then translate_fd env reply tg fp s
      else Some (Inl BR_FAILED_REPLY, s))"

text \<open>The loop over the offsets; an error carries the number of the offset it stopped at.\<close>

fun translate_objects ::
    "'e kenv_scheme \<Rightarrow> nat \<Rightarrow> nat \<Rightarrow> bool \<Rightarrow> txn_target \<Rightarrow> nat \<Rightarrow> nat list \<Rightarrow> driver \<Rightarrow>
     ((u32 \<times> nat + unit) \<times> driver) option" where
  "translate_objects env p th reply tg buffer [] s = Some (Inr (), s)"
| "translate_objects env p th reply tg buffer (i # is) s = do {
     tpr \<leftarrow> proc_at s (target_proc tg);
     let b = bufs tpr buffer;
     if bad_offset (nth_offset b i) (data_size b) then Some (Inl (BR_FAILED_REPLY, i), s)
     else do {
       (res, s) \<leftarrow> translate_object env p th reply tg (read_object (payload b) (unat (nth_offset b i))) s;
       case res of
         Inl code \<Rightarrow> Some (Inl (code, i), s)
       | Inr fp \<Rightarrow> do {
           s \<leftarrow> upd_buffer (target_proc tg, buffer)
                  (\<lambda>x. x\<lparr>payload := write_object (unat (nth_offset b i)) fp (payload x)\<rparr>) s;
           translate_objects env p th reply tg buffer is s}}}"

section \<open>Queueing\<close>

text \<open>The state, the list the transaction goes to, and whether a wait queue is woken.\<close>

definition txn_link ::
    "nat \<Rightarrow> transaction_data \<Rightarrow> bool \<Rightarrow> txn_target \<Rightarrow> nat \<Rightarrow> bool \<Rightarrow> list_head \<Rightarrow> driver \<Rightarrow>
     (list_head \<times> bool \<times> driver) option" where
  "txn_link th tr reply tg t async target_list s =
     (if reply then do {
        check_that (\<not> async);
        irt \<leftarrow> in_reply_to tg;
        s \<leftarrow> binder_pop_transaction (target_thread tg) irt s;
        Some (target_list, True, s)}
      else if tr_flags tr AND TF_ONE_WAY = 0 then do {
        check_that (\<not> async);
        x \<leftarrow> thread_at s th;
        let s = upd_txn t (\<lambda>tx. tx\<lparr>need_reply := True, from_parent := transaction_stack x\<rparr>) s;
        let s = upd_thread th (\<lambda>x. x\<lparr>transaction_stack := Some t\<rparr>) s;
        Some (target_list, True, s)}
      else do {
        n \<leftarrow> target_node tg;
        check_that async;
        node \<leftarrow> node_at s n;
        if has_async_transaction node then Some (Async_todo n, False, s)
        else Some (target_list, True, upd_node n (\<lambda>x. x\<lparr>has_async_transaction := True\<rparr>) s)})"

definition txn_commit ::
    "nat \<Rightarrow> transaction_data \<Rightarrow> bool \<Rightarrow> txn_target \<Rightarrow> nat \<Rightarrow> nat \<Rightarrow> nat \<Rightarrow> driver \<Rightarrow> driver option" where
  "txn_commit th tr reply tg t tc buffer s = do {
     tpr \<leftarrow> proc_at s (target_proc tg);
     let target_list = (case target_thread tg of Some tt \<Rightarrow> Thread_todo tt | None \<Rightarrow> Proc_todo (target_proc tg));
     let target_wait = (case target_thread tg of Some tt \<Rightarrow> Thread_wait tt | None \<Rightarrow> Proc_wait (target_proc tg));
     (target_list, wake, s) \<leftarrow> txn_link th tr reply tg t (async_transaction (bufs tpr buffer)) target_list s;
     s \<leftarrow> list_add_tail (Transaction_work t) target_list s;
     s \<leftarrow> list_add_tail (Complete_work tc) (Thread_todo th) s;
     Some (if wake then wake_up target_wait s else s)}"

section \<open>Failing\<close>

definition txn_undo :: "'e kenv_scheme \<Rightarrow> undo \<Rightarrow> driver \<Rightarrow> driver option" where
  "txn_undo env u s =
     (case u of
        Undo_nothing \<Rightarrow> Some s
      | Undo_transaction t \<Rightarrow> Some (kfree_transaction t s)
      | Undo_complete t tc \<Rightarrow> Some (kfree_transaction t (binder_stats_deleted Stat_transaction_complete s))
      | Undo_buffer t tc pb i \<Rightarrow> do {
          s \<leftarrow> binder_transaction_buffer_release env (fst pb) (snd pb) (Some i) s;
          s \<leftarrow> upd_buffer pb (\<lambda>b. b\<lparr>buf_transaction := None\<rparr>) s;
          pr \<leftarrow> proc_at s (fst pb);
          pr \<leftarrow> binder_free_buf env pr (snd pb);
          let s = s\<lparr>proc_at := (proc_at s)(fst pb := Some pr)\<rparr>;
          Some (kfree_transaction t (binder_stats_deleted Stat_transaction_complete s))})"

definition txn_fail :: "'e kenv_scheme \<Rightarrow> nat \<Rightarrow> nat \<Rightarrow> txn_error \<Rightarrow> driver \<Rightarrow> driver option" where
  "txn_fail env th e err s = do {
     s \<leftarrow> txn_undo env (err_undo err) s;
     let (fe, log) = binder_transaction_log_add (transaction_log_failed s);
     let entry = log_entries (transaction_log s) ! e;
     let s = s\<lparr>transaction_log_failed := log_store fe (\<lambda>_. entry) log\<rparr>;
     x \<leftarrow> thread_at s th;
     check_that (return_error x = BR_OK);
     case err_in_reply_to err of
       Some t \<Rightarrow> binder_send_failed_reply t (err_code err)
                  (upd_thread th (\<lambda>x. x\<lparr>return_error := BR_TRANSACTION_COMPLETE\<rparr>) s)
     | None \<Rightarrow> Some (upd_thread th (\<lambda>x. x\<lparr>return_error := err_code err\<rparr>) s)}"

section \<open>The whole transaction\<close>

definition txn_deliver ::
    "'e kenv_scheme \<Rightarrow> task \<Rightarrow> nat \<Rightarrow> nat \<Rightarrow> transaction_data \<Rightarrow> bool \<Rightarrow> txn_target \<Rightarrow> nat \<Rightarrow> driver \<Rightarrow>
     ((txn_error + unit) \<times> driver) option" where
  "txn_deliver env task p th tr reply tg e s = do {
     (res, s) \<leftarrow> txn_start env task p th tr reply tg e s;
     case res of
       Inl err \<Rightarrow> Some (Inl err, s)
     | Inr (t, tc, b) \<Rightarrow> do {
         (copied, s) \<leftarrow> txn_copy env tr (target_proc tg, b) s;
         case copied of
           Inl code \<Rightarrow> Some (Inl \<lparr>err_code = code, err_undo = Undo_buffer t tc (target_proc tg, b) 0,
                                 err_in_reply_to = in_reply_to tg\<rparr>, s)
         | Inr _ \<Rightarrow> do {
             (translated, s) \<leftarrow> translate_objects env p th reply tg b
                                 [0..<unat (tr_offsets_size tr) div 4] s;
             case translated of
               Inl (code, i) \<Rightarrow> Some (Inl \<lparr>err_code = code, err_undo = Undo_buffer t tc (target_proc tg, b) i,
                                         err_in_reply_to = in_reply_to tg\<rparr>, s)
             | Inr _ \<Rightarrow> map_option (Pair (Inr ())) (txn_commit th tr reply tg t tc b s)}}}"

definition binder_transaction ::
    "'e kenv_scheme \<Rightarrow> task \<Rightarrow> nat \<Rightarrow> nat \<Rightarrow> transaction_data \<Rightarrow> bool \<Rightarrow> driver \<Rightarrow> driver option" where
  "binder_transaction env task p th tr reply s = do {
     (e, s) \<leftarrow> txn_log_start p th tr reply s;
     (tg, s) \<leftarrow> (if reply then reply_target env task th s else call_target p th tr e s);
     case tg of
       Inl err \<Rightarrow> txn_fail env th e err s
     | Inr tg \<Rightarrow> do {
         (res, s) \<leftarrow> txn_deliver env task p th tr reply tg e s;
         case res of
           Inl err \<Rightarrow> txn_fail env th e err s
         | Inr _ \<Rightarrow> Some s}}"

end
