(* ===== verification/TxnReply.thy ===== *)
theory TxnReply
  imports BinderTransact
begin

text \<open>
  What the sender of a transaction can rely on: a failed reply finds the nearest caller that
  is still alive, and a nested call is handed to a thread of the target process that is
  already waiting on the stack of calls.
\<close>

section \<open>Freed transactions\<close>

text \<open>The only change from \<open>s\<close> to \<open>s'\<close> is that the transactions in \<open>T\<close> are freed.\<close>

definition frees_only :: "driver \<Rightarrow> nat set \<Rightarrow> driver \<Rightarrow> bool" where
  "frees_only s T s' \<longleftrightarrow>
     thread_at s' = thread_at s \<and> node_at s' = node_at s \<and> ref_at s' = ref_at s \<and>
     lists s' = lists s \<and> linked s' = linked s \<and> woken s' = woken s \<and>
     (\<forall>v. txn_at s' v = (if v \<in> T then None else txn_at s v)) \<and>
     (\<forall>p. map_option buffers (proc_at s' p) = map_option buffers (proc_at s p))"

definition buffer_present :: "driver \<Rightarrow> nat \<times> nat \<Rightarrow> bool" where
  "buffer_present s pb \<longleftrightarrow> (\<exists>pr. proc_at s (fst pb) = Some pr \<and> snd pb \<in> set (buffers pr))"

text \<open>Every transaction's buffer is in the area of a process.\<close>

definition txn_buffers_ok :: "driver \<Rightarrow> bool" where
  "txn_buffers_ok s \<longleftrightarrow>
     (\<forall>t tx pb. txn_at s t = Some tx \<longrightarrow> txn_buffer tx = Some pb \<longrightarrow> buffer_present s pb)"

lemma upd_buffer_present:
  assumes "buffer_present s pb"
  shows "upd_buffer pb f s = Some (upd_proc (fst pb) (buf_upd (snd pb) f) s)"
  using assms by (auto simp: buffer_present_def upd_buffer_def check_that_def)

lemma frees_only_refl [simp]: "frees_only s {} s"
  by (simp add: frees_only_def)

lemma frees_only_trans:
  "frees_only s T s1 \<Longrightarrow> frees_only s1 U s2 \<Longrightarrow> frees_only s (T \<union> U) s2"
  by (simp add: frees_only_def)

lemma frees_only_buffers:
  assumes "frees_only s T s'" "txn_buffers_ok s"
  shows "txn_buffers_ok s'"
proof -
  have p: "buffer_present s' pb" if "buffer_present s pb" for pb
  proof -
    from that obtain pr where pr: "proc_at s (fst pb) = Some pr" "snd pb \<in> set (buffers pr)"
      by (auto simp: buffer_present_def)
    from assms(1) have "map_option buffers (proc_at s' (fst pb)) = Some (buffers pr)"
      by (simp add: frees_only_def pr(1))
    with pr(2) show ?thesis by (auto simp: buffer_present_def)
  qed
  have "txn_at s t = Some tx" if "txn_at s' t = Some tx" for t tx
    using assms(1) that by (simp add: frees_only_def split: if_splits)
  with p assms(2) show ?thesis unfolding txn_buffers_ok_def by blast
qed

lemma binder_pop_dead:
  assumes "txn_at s t = Some tx" "txn_buffers_ok s"
  obtains s' where "binder_pop_transaction None t s = Some s'" "frees_only s {t} s'"
proof (cases "txn_buffer tx")
  case None
  with assms(1) that show ?thesis
    by (simp add: binder_pop_transaction_def kfree_transaction_def frees_only_def)
next
  case (Some pb)
  with assms have "buffer_present s pb" unfolding txn_buffers_ok_def by blast
  from upd_buffer_present [OF this] Some assms(1)
  have "binder_pop_transaction None t s =
     Some (kfree_transaction t (upd_proc (fst pb) (buf_upd (snd pb) (\<lambda>b. b\<lparr>buf_transaction := None\<rparr>)) s))"
    by (simp add: binder_pop_transaction_def)
  moreover have "frees_only s {t}
     (kfree_transaction t (upd_proc (fst pb) (buf_upd (snd pb) (\<lambda>b. b\<lparr>buf_transaction := None\<rparr>)) s))"
    by (auto simp: frees_only_def kfree_transaction_def buf_upd_def option.map_comp o_def
             split: option.splits cong: option.map_cong)
  ultimately show ?thesis by (rule that)
qed

lemma binder_pop_live:
  assumes "txn_at s t = Some tx" "txn_buffers_ok s" "txn_from tx = Some th"
    "thread_at s th = Some x" "transaction_stack x = Some t"
  obtains s' where "binder_pop_transaction (Some th) t s = Some s'"
    "frees_only (upd_thread th (\<lambda>x. x\<lparr>transaction_stack := from_parent tx\<rparr>) s) {t} s'"
proof -
  define s0 where "s0 = upd_thread th (\<lambda>x. x\<lparr>transaction_stack := from_parent tx\<rparr>) s"
  have "txn_at s0 t = Some tx" "txn_buffers_ok s0"
    using assms(1,2) by (simp_all add: s0_def txn_buffers_ok_def buffer_present_def)
  then obtain s' where s': "binder_pop_transaction None t s0 = Some s'" "frees_only s0 {t} s'"
    by (rule binder_pop_dead)
  have "binder_pop_transaction (Some th) t s = binder_pop_transaction None t s0"
    using assms by (simp add: binder_pop_transaction_def s0_def check_that_def)
  with s' that show ?thesis by (simp add: s0_def)
qed

section \<open>The chain of callers\<close>

text \<open>
  From \<open>t\<close>, the transactions \<open>ts\<close>, whose senders are gone, lead up to the transaction \<open>u\<close>.
\<close>

fun dead_callers :: "driver \<Rightarrow> nat \<Rightarrow> nat list \<Rightarrow> nat \<Rightarrow> bool" where
  "dead_callers s t [] u \<longleftrightarrow> t = u"
| "dead_callers s t (v # vs) u \<longleftrightarrow>
     v = t \<and> (case txn_at s t of
                None \<Rightarrow> False
              | Some tx \<Rightarrow> txn_from tx = None \<and>
                  (case from_parent tx of None \<Rightarrow> False | Some q \<Rightarrow> dead_callers s q vs u))"

lemma dead_callers_frees:
  assumes "frees_only s T s'" "T \<inter> set ts = {}"
  shows "dead_callers s t ts u \<Longrightarrow> dead_callers s' t ts u"
  using assms(2)
proof (induction ts arbitrary: t)
  case (Cons v vs)
  then have "txn_at s' t = txn_at s t" using assms(1) by (auto simp: frees_only_def)
  with Cons show ?case by (auto split: option.splits)
qed simp

lemma failed_reply_skips_dead:
  assumes "dead_callers s t ts u" "distinct ts" "u \<notin> set ts" "txn_buffers_ok s"
  shows "\<exists>s'. failed_reply_loop t code s = failed_reply_loop u code s' \<and> frees_only s (set ts) s' \<and> txn_buffers_ok s'"
  using assms
proof (induction ts arbitrary: t s)
  case Nil
  then show ?case by (intro exI [of _ s]) simp
next
  case (Cons v vs)
  from Cons.prems(1) obtain tx q where tx: "v = t" "txn_at s t = Some tx" "txn_from tx = None"
      "from_parent tx = Some q" "dead_callers s q vs u"
    by (auto split: option.splits)
  obtain s1 where s1: "binder_pop_transaction None t s = Some s1" "frees_only s {t} s1"
    using tx(2) Cons.prems(4) by (rule binder_pop_dead)
  have "dead_callers s1 q vs u" using s1(2) _ tx(5) by (rule dead_callers_frees) (use Cons.prems(2) tx(1) in auto)
  moreover have "txn_buffers_ok s1" using s1(2) Cons.prems(4) by (rule frees_only_buffers)
  ultimately obtain s2 where s2: "failed_reply_loop q code s1 = failed_reply_loop u code s2"
      "frees_only s1 (set vs) s2" "txn_buffers_ok s2"
    using Cons.IH [of s1 q] Cons.prems(2,3) by auto
  have "failed_reply_loop t code s = failed_reply_loop q code s1"
    using tx s1(1) by (subst failed_reply_loop.simps) simp
  moreover have "frees_only s (set (v # vs)) s2"
    using frees_only_trans [OF s1(2) s2(2)] by (simp add: tx(1))
  ultimately show ?case using s2 by auto
qed

text \<open>
  With a live sender at the end of the chain whose errors leave a slot free, the error is
  delivered.
\<close>

lemma failed_reply_delivered:
  assumes "dead_callers s t ts u" "distinct (ts @ [u])" "txn_buffers_ok s"
    "txn_at s u = Some ux" "txn_from ux = Some th" "thread_at s th = Some x" "transaction_stack x = Some u"
    "return_error x = BR_OK \<or> return_error2 x = BR_OK"
    "txn_at s t = Some tx" "txn_flags tx AND TF_ONE_WAY = 0"
  shows "\<exists>s'. binder_send_failed_reply t code s = Some s' \<and>
     thread_at s' = (thread_at s)(th \<mapsto> x\<lparr>transaction_stack := from_parent ux, return_error := code,
       return_error2 := (if return_error x = BR_OK then return_error2 x else return_error x)\<rparr>) \<and>
     (\<forall>v. txn_at s' v = (if v \<in> set (ts @ [u]) then None else txn_at s v)) \<and>
     lists s' = lists s \<and> woken s' = woken s @ [Thread_wait th]"
proof -
  obtain s1 where s1: "failed_reply_loop t code s = failed_reply_loop u code s1"
      "frees_only s (set ts) s1" "txn_buffers_ok s1"
    using failed_reply_skips_dead [OF assms(1), of code] assms(2,3) by auto
  define s2 where "s2 = upd_thread th (\<lambda>x. if return_error x \<noteq> BR_OK \<and> return_error2 x = BR_OK
     then x\<lparr>return_error2 := return_error x, return_error := BR_OK\<rparr> else x) s1"
  define y where "y = (if return_error x = BR_OK then x else x\<lparr>return_error2 := return_error x, return_error := BR_OK\<rparr>)"
  have th1: "thread_at s1 = thread_at s" using s1(2) by (simp add: frees_only_def)
  have y: "thread_at s2 = (thread_at s)(th \<mapsto> y)" "transaction_stack y = Some u" "return_error y = BR_OK"
    using assms(6,7,8) by (auto simp: s2_def y_def th1)
  have u2: "txn_at s2 u = Some ux" "txn_buffers_ok s2"
    using s1(2,3) assms(2,4) by (auto simp: s2_def frees_only_def txn_buffers_ok_def buffer_present_def)
  obtain s3 where s3: "binder_pop_transaction (Some th) u s2 = Some s3"
      "frees_only (upd_thread th (\<lambda>x. x\<lparr>transaction_stack := from_parent ux\<rparr>) s2) {u} s3"
    using u2 assms(5) _ y(2) by (rule binder_pop_live) (simp add: y(1))
  have u1: "txn_at s1 u = Some ux" using u2 by (simp add: s2_def)
  define s4 where "s4 = wake_up (Thread_wait th) (upd_thread th (\<lambda>x. x\<lparr>return_error := code\<rparr>) s3)"
  have "deliver_error th u code s1 = Some s4"
    using s3(1) y assms(6) th1 by (simp add: deliver_error_def s2_def [symmetric] s4_def)
  then have "failed_reply_loop u code s1 = Some s4"
    using u1 assms(5) by (subst failed_reply_loop.simps) simp
  then have "binder_send_failed_reply t code s = Some s4"
    using s1(1) assms(9,10) by (simp add: binder_send_failed_reply_def check_that_def)
  moreover have "thread_at s4 = (thread_at s)(th \<mapsto> x\<lparr>transaction_stack := from_parent ux, return_error := code,
       return_error2 := (if return_error x = BR_OK then return_error2 x else return_error x)\<rparr>)"
    using s3(2) y(1) by (auto simp: s4_def frees_only_def y_def)
  moreover have "\<forall>v. txn_at s4 v = (if v \<in> set (ts @ [u]) then None else txn_at s v)"
    using s3(2) s1(2) by (simp add: s4_def frees_only_def s2_def)
  moreover have "lists s4 = lists s" "woken s4 = woken s @ [Thread_wait th]"
    using s3(2) s1(2) by (simp_all add: s4_def frees_only_def s2_def wake_up_def upd_thread_def)
  ultimately show ?thesis by blast
qed

text \<open>A sender 500 that called out of transaction 600, whose own sender is gone.\<close>

definition blank_thread :: binder_thread where
  "blank_thread = \<lparr>thread_proc = 100, thread_pid = 7, looper = LOOPER_ENTERED, transaction_stack = None,
     return_error = BR_OK, return_error2 = BR_OK\<rparr>"

definition blank_txn :: binder_transaction where
  "blank_txn = \<lparr>txn_debug_id = 1, txn_from = None, from_parent = None, to_proc = None, to_thread = None,
     to_parent = None, need_reply = True, txn_buffer = None, txn_code = 0, txn_flags = 0, priority = 0,
     saved_priority = 0, sender_euid = 0\<rparr>"

definition orphan_call :: driver where
  "orphan_call = driver_init\<lparr>
     thread_at := [500 \<mapsto> blank_thread\<lparr>transaction_stack := Some 600\<rparr>],
     txn_at := [600 \<mapsto> blank_txn\<lparr>txn_from := Some 500\<rparr>, 601 \<mapsto> blank_txn\<lparr>from_parent := Some 600\<rparr>]\<rparr>"

text \<open>When every caller up the chain is gone, a failed reply frees the whole chain and
  touches no thread; when the live caller has two errors pending already, the frames below it
  are freed and its own frame stays.\<close>

theorem failed_reply_without_caller:
  assumes "dead_callers s t ts u" "distinct (ts @ [u])" "txn_buffers_ok s"
    "txn_at s u = Some ux" "txn_at s t = Some tx" "txn_flags tx AND TF_ONE_WAY = 0"
  shows
    "(txn_from ux = None \<and> from_parent ux = None \<longrightarrow>
       (\<exists>s'. binder_send_failed_reply t code s = Some s' \<and> frees_only s (set (ts @ [u])) s')) \<and>
     (\<forall>th x. txn_from ux = Some th \<and> thread_at s th = Some x \<and> return_error x \<noteq> BR_OK \<and> return_error2 x \<noteq> BR_OK \<longrightarrow>
       (\<exists>s'. binder_send_failed_reply t code s = Some s' \<and> frees_only s (set ts) s'))"
proof -
  obtain s1 where s1: "failed_reply_loop t code s = failed_reply_loop u code s1"
      "frees_only s (set ts) s1" "txn_buffers_ok s1"
    using failed_reply_skips_dead [OF assms(1), of code] assms(2,3) by auto
  have u1: "txn_at s1 u = Some ux" using s1(2) assms(2,4) by (auto simp: frees_only_def)
  have send: "binder_send_failed_reply t code s = failed_reply_loop u code s1"
    using s1(1) assms(5,6) by (simp add: binder_send_failed_reply_def check_that_def)
  have "\<exists>s'. binder_send_failed_reply t code s = Some s' \<and> frees_only s (set (ts @ [u])) s'"
    if root: "txn_from ux = None" "from_parent ux = None"
  proof -
    obtain s2 where s2: "binder_pop_transaction None u s1 = Some s2" "frees_only s1 {u} s2"
      using u1 s1(3) by (rule binder_pop_dead)
    have "failed_reply_loop u code s1 = Some s2"
      using u1 root s2(1) by (subst failed_reply_loop.simps) simp
    with send frees_only_trans [OF s1(2) s2(2)] show ?thesis by simp
  qed
  moreover have "\<exists>s'. binder_send_failed_reply t code s = Some s' \<and> frees_only s (set ts) s'"
    if busy: "txn_from ux = Some th" "thread_at s th = Some x" "return_error x \<noteq> BR_OK" "return_error2 x \<noteq> BR_OK" for th x
  proof -
    have th1: "thread_at s1 th = Some x" using s1(2) busy(2) by (simp add: frees_only_def)
    have "upd_thread th (\<lambda>x. if return_error x \<noteq> BR_OK \<and> return_error2 x = BR_OK
       then x\<lparr>return_error2 := return_error x, return_error := BR_OK\<rparr> else x) s1 = s1"
      using th1 busy(3,4) by (simp add: upd_thread_def fun_upd_idem)
    then have "deliver_error th u code s1 = Some s1"
      using th1 busy(3,4) by (simp add: deliver_error_def)
    then have "failed_reply_loop u code s1 = Some s1"
      using u1 busy(1) by (subst failed_reply_loop.simps) simp
    with send s1(2) show ?thesis by simp
  qed
  ultimately show ?thesis by blast
qed

text \<open>The chain of \<open>orphan_call\<close>, with its last sender gone.\<close>

definition orphan_root :: driver where
  "orphan_root = driver_init\<lparr>
     txn_at := [600 \<mapsto> blank_txn, 601 \<mapsto> blank_txn\<lparr>from_parent := Some 600\<rparr>]\<rparr>"

theorem failed_reply_without_caller_witness:
  "\<exists>s'. binder_send_failed_reply 601 BR_DEAD_REPLY orphan_root = Some s' \<and>
     frees_only orphan_root (set ([601] @ [600])) s'"
proof -
  have "(txn_from blank_txn = None \<and> from_parent blank_txn = None \<longrightarrow>
       (\<exists>s'. binder_send_failed_reply 601 BR_DEAD_REPLY orphan_root = Some s' \<and>
          frees_only orphan_root (set ([601] @ [600])) s')) \<and>
     (\<forall>th x. txn_from blank_txn = Some th \<and> thread_at orphan_root th = Some x \<and>
          return_error x \<noteq> BR_OK \<and> return_error2 x \<noteq> BR_OK \<longrightarrow>
       (\<exists>s'. binder_send_failed_reply 601 BR_DEAD_REPLY orphan_root = Some s' \<and> frees_only orphan_root (set [601]) s'))"
    by (rule failed_reply_without_caller [where tx = "blank_txn\<lparr>from_parent := Some 600\<rparr>"])
      (auto simp: orphan_root_def blank_txn_def driver_init_def txn_buffers_ok_def)
  then show ?thesis by (simp add: blank_txn_def)
qed

text \<open>C9: A failed reply to a synchronous transaction always terminates when the callers up
  the stack form a chain of live transactions without a cycle, each dead sender's
  transaction pointing to the next, up to the first with a live sender or to a root.  The
  transactions whose senders are gone are freed on the way up.  When the first live sender
  has a free error slot (and its stack's top is that transaction), the frame is popped and
  freed, the error code becomes its return_error (an error already pending moves to
  return_error2), and the thread is woken; no other thread changes.  When both its slots
  hold errors, nothing else changes and the error is lost; when no sender is alive, the
  whole chain is freed and no thread changes.\<close>

theorem failed_reply_reaches_caller:
  assumes "dead_callers s t ts u" "distinct (ts @ [u])" "txn_buffers_ok s"
    "txn_at s t = Some tx" "txn_flags tx AND TF_ONE_WAY = 0" "txn_at s u = Some ux"
    and root: "txn_from ux = None \<Longrightarrow> from_parent ux = None"
    and sender: "\<And>th. txn_from ux = Some th \<Longrightarrow> thread_at s th = Some x"
    and top: "return_error x = BR_OK \<or> return_error2 x = BR_OK \<Longrightarrow> transaction_stack x = Some u"
  shows "\<exists>s'. binder_send_failed_reply t code s = Some s' \<and>
     (case txn_from ux of
        None \<Rightarrow> frees_only s (set (ts @ [u])) s'
      | Some th \<Rightarrow>
          if return_error x \<noteq> BR_OK \<and> return_error2 x \<noteq> BR_OK then frees_only s (set ts) s'
          else thread_at s' = (thread_at s)(th \<mapsto> x\<lparr>transaction_stack := from_parent ux, return_error := code,
                 return_error2 := (if return_error x = BR_OK then return_error2 x else return_error x)\<rparr>) \<and>
               (\<forall>v. txn_at s' v = (if v \<in> set (ts @ [u]) then None else txn_at s v)) \<and>
               lists s' = lists s \<and> woken s' = woken s @ [Thread_wait th])"
proof (cases "txn_from ux")
  case None
  with root failed_reply_without_caller [OF assms(1-3,6,4,5), of code] show ?thesis by auto
next
  case (Some th)
  show ?thesis
  proof (cases "return_error x \<noteq> BR_OK \<and> return_error2 x \<noteq> BR_OK")
    case True
    with Some sender [OF Some] failed_reply_without_caller [OF assms(1-3,6,4,5), of code] show ?thesis by auto
  next
    case False
    then have free: "return_error x = BR_OK \<or> return_error2 x = BR_OK" by blast
    from failed_reply_delivered [OF assms(1-3,6) Some sender [OF Some] top [OF free] free assms(4,5), of code]
    show ?thesis using Some False by (simp only: option.case if_False)
  qed
qed

theorem failed_reply_reaches_caller_witness:
  "\<exists>s'. binder_send_failed_reply 601 BR_DEAD_REPLY orphan_call = Some s' \<and>
     thread_at s' = (thread_at orphan_call)(500 \<mapsto>
       blank_thread\<lparr>transaction_stack := None, return_error := BR_DEAD_REPLY\<rparr>) \<and>
     (\<forall>v. txn_at s' v = (if v \<in> set ([601] @ [600]) then None else txn_at orphan_call v)) \<and>
     lists s' = lists orphan_call \<and> woken s' = woken orphan_call @ [Thread_wait 500]"
proof -
  define x where "x = blank_thread\<lparr>transaction_stack := Some 600\<rparr>"
  define ux where "ux = blank_txn\<lparr>txn_from := Some 500\<rparr>"
  have "\<exists>s'. binder_send_failed_reply 601 BR_DEAD_REPLY orphan_call = Some s' \<and>
     (case txn_from ux of
        None \<Rightarrow> frees_only orphan_call (set ([601] @ [600])) s'
      | Some th \<Rightarrow>
          if return_error x \<noteq> BR_OK \<and> return_error2 x \<noteq> BR_OK then frees_only orphan_call (set [601]) s'
          else thread_at s' = (thread_at orphan_call)(th \<mapsto> x\<lparr>transaction_stack := from_parent ux, return_error := BR_DEAD_REPLY,
                 return_error2 := (if return_error x = BR_OK then return_error2 x else return_error x)\<rparr>) \<and>
               (\<forall>v. txn_at s' v = (if v \<in> set ([601] @ [600]) then None else txn_at orphan_call v)) \<and>
               lists s' = lists orphan_call \<and> woken s' = woken orphan_call @ [Thread_wait th])"
    by (rule failed_reply_reaches_caller [where tx = "blank_txn\<lparr>from_parent := Some 600\<rparr>"])
      (auto simp: x_def ux_def orphan_call_def blank_thread_def blank_txn_def driver_init_def txn_buffers_ok_def)
  then show ?thesis by (simp add: x_def ux_def blank_thread_def blank_txn_def)
qed

section \<open>Nested calls\<close>

text \<open>The stack of calls from a transaction up, each with the thread that sent it.\<close>

fun call_stack :: "driver \<Rightarrow> nat option \<Rightarrow> (nat \<times> nat option) list \<Rightarrow> bool" where
  "call_stack s cur [] \<longleftrightarrow> cur = None"
| "call_stack s cur ((t, th) # fs) \<longleftrightarrow>
     cur = Some t \<and> (case txn_at s t of
       None \<Rightarrow> False
     | Some tx \<Rightarrow> txn_from tx = th \<and> (th = None \<or> thread_at s (the th) \<noteq> None) \<and> call_stack s (from_parent tx) fs)"

text \<open>The threads of a process that sent a call on the stack, from the top.\<close>

fun waiting_in :: "driver \<Rightarrow> nat \<Rightarrow> (nat \<times> nat option) list \<Rightarrow> nat list" where
  "waiting_in s tp [] = []"
| "waiting_in s tp ((t, None) # fs) = waiting_in s tp fs"
| "waiting_in s tp ((t, Some th) # fs) =
     (if map_option thread_proc (thread_at s th) = Some tp then th # waiting_in s tp fs else waiting_in s tp fs)"

lemma calling_thread_stack:
  "call_stack s cur fs \<Longrightarrow>
   calling_thread s tp cur found = Some (if waiting_in s tp fs = [] then found else Some (last (waiting_in s tp fs)))"
proof (induction fs arbitrary: cur found)
  case Nil
  then show ?case by (subst calling_thread.simps) simp
next
  case (Cons f fs)
  obtain t th where f: "f = (t, th)" by (cases f)
  from Cons.prems obtain tx where tx: "cur = Some t" "txn_at s t = Some tx" "txn_from tx = th"
      "th = None \<or> thread_at s (the th) \<noteq> None" "call_stack s (from_parent tx) fs"
    by (auto simp: f split: option.splits)
  show ?case
  proof (cases th)
    case None
    then show ?thesis using tx Cons.IH [OF tx(5)]
      by (subst calling_thread.simps) (simp add: f)
  next
    case (Some h)
    with tx obtain x where x: "thread_at s h = Some x" by auto
    show ?thesis using tx Some x Cons.IH [OF tx(5)]
      by (subst calling_thread.simps) (auto simp: f)
  qed
qed

text \<open>The node a call is addressed to.\<close>

definition addressed_node :: "driver \<Rightarrow> nat \<Rightarrow> u32 \<Rightarrow> nat \<Rightarrow> bool" where
  "addressed_node s p h n \<longleftrightarrow>
     (if h = 0 then context_mgr_node s = Some n
      else \<exists>r ref. binder_get_ref s p h = Some (Some r) \<and> ref_at s r = Some ref \<and> ref_node ref = n)"

lemma call_target_addressed:
  assumes "addressed_node s p (tr_target tr) n" "node_at s n = Some node" "node_proc node = Some tp"
  shows "call_target p th tr e s =
    (let s = log_update e (\<lambda>l. l\<lparr>log_to_node := node_debug_id node\<rparr>) s in do {
       x \<leftarrow> thread_at s th;
       if tr_flags tr AND TF_ONE_WAY = 0 \<and> transaction_stack x \<noteq> None
       then do {
         tmp \<leftarrow> transaction_stack x;
         tx \<leftarrow> txn_at s tmp;
         if to_thread tx \<noteq> Some th
         then Some (Inl \<lparr>err_code = BR_FAILED_REPLY, err_undo = Undo_nothing, err_in_reply_to = None\<rparr>, s)
         else do {
           found \<leftarrow> calling_thread s tp (Some tmp) None;
           Some (Inr \<lparr>target_thread = found, target_proc = tp, target_node = Some n, in_reply_to = None\<rparr>, s)}}
       else Some (Inr \<lparr>target_thread = None, target_proc = tp, target_node = Some n, in_reply_to = None\<rparr>, s)})"
  using assms by (auto simp: call_target_def addressed_node_def Let_def split: if_splits)

text \<open>C10: A synchronous call made while handling another goes to a thread of the target
  process that is waiting on the caller's own stack of calls, if there is one: the one whose
  call is deepest in the stack.  Otherwise it goes to the process.  A one-way call, and a call
  from an empty stack, always go to the process.\<close>

theorem nested_call_goes_to_waiting_thread:
  assumes "addressed_node s p (tr_target tr) n" "node_at s n = Some node" "node_proc node = Some tp"
    "thread_at s th = Some x" "call_stack s (transaction_stack x) fs"
    "fs \<noteq> [] \<longrightarrow> (\<exists>tx. txn_at s (fst (hd fs)) = Some tx \<and> to_thread tx = Some th)"
  shows "\<exists>s'. call_target p th tr e s = Some (Inr \<lparr>target_thread =
       (if tr_flags tr AND TF_ONE_WAY \<noteq> 0 \<or> waiting_in s tp fs = [] then None else Some (last (waiting_in s tp fs))),
     target_proc = tp, target_node = Some n, in_reply_to = None\<rparr>, s')"
proof (cases fs)
  case Nil
  then show ?thesis using assms(4,5)
    unfolding call_target_addressed [OF assms(1-3)] by (simp add: Let_def log_update_def)
next
  case (Cons f gs)
  obtain t h where f: "f = (t, h)" by (cases f)
  from assms(5) Cons f have cur: "transaction_stack x = Some t" by simp
  have same: "calling_thread (log_update e g s) tp (Some t) None = calling_thread s tp (Some t) None" for g
  proof -
    have "call_stack (log_update e g s) cur fs' = call_stack s cur fs'" for cur fs'
      by (induction s cur fs' rule: call_stack.induct) (simp_all add: log_update_def split: option.split)
    with assms(5) cur have "call_stack (log_update e g s) (Some t) fs" by simp
    moreover have "waiting_in (log_update e g s) tp fs = waiting_in s tp fs"
      by (induction s tp fs rule: waiting_in.induct) (simp_all add: log_update_def)
    ultimately show ?thesis
      using calling_thread_stack [of "log_update e g s"] calling_thread_stack [of s] assms(5) cur by simp
  qed
  have fields: "thread_at (log_update e g s) = thread_at s" "txn_at (log_update e g s) = txn_at s" for g
    by (simp_all add: log_update_def)
  from assms(6) Cons f obtain tx where tx: "txn_at s t = Some tx" "to_thread tx = Some th" by auto
  have run: "calling_thread s tp (Some t) None =
     Some (if waiting_in s tp fs = [] then None else Some (last (waiting_in s tp fs)))"
    using calling_thread_stack [OF assms(5), of tp None] cur by simp
  show ?thesis using assms(4) cur tx run
    unfolding call_target_addressed [OF assms(1-3)] by (simp add: Let_def same fields)
qed

text \<open>
  Thread 500 of process 100 has called thread 501 of process 101 (transaction 600), which now
  calls node 200, owned by process 100.
\<close>

definition nested_call :: driver where
  "nested_call = driver_init\<lparr>
     node_at := [200 \<mapsto> blank_node\<lparr>node_proc := Some 100\<rparr>], context_mgr_node := Some 200,
     thread_at := [500 \<mapsto> blank_thread\<lparr>transaction_stack := Some 600\<rparr>,
                   501 \<mapsto> blank_thread\<lparr>thread_proc := 101, transaction_stack := Some 600\<rparr>],
     txn_at := [600 \<mapsto> blank_txn\<lparr>txn_from := Some 500, to_thread := Some 501\<rparr>]\<rparr>"

definition call_node_0 :: transaction_data where
  "call_node_0 = \<lparr>tr_target = 0, tr_cookie = 0, tr_code = 1, tr_flags = 0, tr_sender_pid = 0, tr_sender_euid = 0,
     tr_data_size = 0, tr_offsets_size = 0, tr_buffer = 0, tr_offsets = 0\<rparr>"

theorem nested_call_goes_to_waiting_thread_witness:
  "\<exists>s'. call_target 101 501 call_node_0 0 nested_call = Some (Inr \<lparr>target_thread =
       (if tr_flags call_node_0 AND TF_ONE_WAY \<noteq> 0 \<or> waiting_in nested_call 100 [(600, Some 500)] = [] then None
        else Some (last (waiting_in nested_call 100 [(600, Some 500)]))),
     target_proc = 100, target_node = Some 200, in_reply_to = None\<rparr>, s')"
  by (rule nested_call_goes_to_waiting_thread
        [where node = "blank_node\<lparr>node_proc := Some 100\<rparr>"
           and x = "blank_thread\<lparr>thread_proc := 101, transaction_stack := Some 600\<rparr>"])
    (simp_all add: nested_call_def call_node_0_def addressed_node_def blank_txn_def blank_thread_def driver_init_def)

end
