(* ===== verification/TxnObjects.thy ===== *)
theory TxnObjects
  imports TxnReply
begin

text \<open>
  What the translation of objects promises: handles name the same node in every process,
  and an object that comes back to its owner is the object the owner sent.
\<close>

section \<open>What an operation leaves of a node\<close>

text \<open>Who owns a node, and under which pointer and cookie.\<close>

definition node_ident :: "binder_node \<Rightarrow> nat option \<times> u32 \<times> u32" where
  "node_ident x = (node_proc x, node_ptr x, node_cookie x)"

definition same_nodes :: "driver \<Rightarrow> driver \<Rightarrow> bool" where
  "same_nodes s s' \<longleftrightarrow> (\<forall>n x. node_at s n = Some x \<longrightarrow>
     (\<exists>y. node_at s' n = Some y \<and> node_ident y = node_ident x))"

lemma same_nodes_refl [simp]: "same_nodes s s"
  by (simp add: same_nodes_def)

lemma same_nodes_trans: "same_nodes s s1 \<Longrightarrow> same_nodes s1 s2 \<Longrightarrow> same_nodes s s2"
  unfolding same_nodes_def by metis

lemma same_nodes_upd:
  "(\<And>x. node_ident (f x) = node_ident x) \<Longrightarrow> same_nodes s (upd_node n f s)"
  by (simp add: same_nodes_def)

lemma same_nodes_only: "only_lists s s' \<Longrightarrow> same_nodes s s'"
  by (simp add: same_nodes_def only_lists_fields)

lemma node_ident_counted [simp]: "node_ident (counted t i k x) = node_ident x"
  by (simp add: node_ident_def counted_def)

lemma binder_inc_node_same:
  assumes "lists_ok s" "node_at s n = Some x"
  obtains ret s' where "binder_inc_node n t i h s = Some (ret, s')" "same_nodes s s'" "lists_ok s'"
    "ref_at s' = ref_at s" "proc_at s' = proc_at s" "txn_at s' = txn_at s" "thread_at s' = thread_at s"
    "only_lists (upd_node n (counted t i (if ret = 0 then 1 else 0)) s) s' \<or> only_lists (upd_node n (counted t i 1) s) s'"
proof (cases rule: binder_inc_node_cases [OF assms(2,1), of t i h, case_names refused counts])
  case (refused s1)
  have "same_nodes s s1" unfolding refused(3) by (simp add: same_nodes_upd)
  moreover have "only_lists (upd_node n (counted t i 0) s) s1 \<or> only_lists (upd_node n (counted t i 1) s) s1"
  proof (cases t)
    case True
    have "upd_node n (counted t i 0) s = s" by (rule upd_node_id [OF assms(2)]) (simp add: counted_def)
    with True refused(3) show ?thesis by simp
  qed (simp add: refused(3))
  ultimately show ?thesis using refused assms(1)
    by (intro that [of "- EINVAL" s1]) (auto split: if_splits)
next
  case (counts s')
  have "same_nodes s s'"
    by (rule same_nodes_trans [OF same_nodes_upd same_nodes_only [OF counts(3)]]) simp
  with counts only_lists_fields [OF counts(3)] show ?thesis by (intro that [of 0 s']) auto
qed

lemma binder_inc_ref_same:
  assumes "refs_inv s" "ref_at s r = Some x"
  obtains ret s' y \<delta> where "binder_inc_ref r t h s = Some (ret, s')" "refs_hole s' \<delta> {} {}" "same_nodes s s'"
    "t \<and> strong x = - 1 \<or> refs_inv s'"
    "proc_at s' = proc_at s" "ref_at s' = (ref_at s)(r := Some y)"
    "desc y = desc x" "ref_proc y = ref_proc x" "ref_node y = ref_node x"
proof -
  obtain n where n: "node_at s (ref_node x) = Some n" using inv_ref [OF assms] by metis
  have l: "lists_ok s" using assms(1) by (simp add: refs_inv_def refs_hole_def)
  have same: "same_nodes s s'" if run: "binder_inc_ref r t h s = Some (ret, s')" for ret s'
  proof -
    obtain ret1 s1 where s1: "binder_inc_node (ref_node x) t True h s = Some (ret1, s1)" "same_nodes s s1"
      by (rule binder_inc_node_same [OF l n, of t True h])
    have "same_nodes s (upd_ref r f s1)" for f using s1(2) by (simp add: same_nodes_def)
    moreover have "same_nodes s (upd_ref r f s)" for f by (simp add: same_nodes_def)
    ultimately show ?thesis using run assms(2) s1
      by (auto simp: binder_inc_ref_def split: if_splits)
  qed
  show ?thesis
  proof (cases rule: binder_inc_ref_ok [OF assms, of t h, case_names refused counts])
    case refused
    with assms show ?thesis by (intro that [of "- EINVAL" s "\<lambda>_. 0" x]) (auto simp: refs_inv_def)
  next
    case (counts s')
    then obtain \<delta> where "refs_hole s' \<delta> {} {}" by blast
    with counts same show ?thesis
      by (intro that [of 0 s' \<delta> "if t then x\<lparr>strong := strong x + 1\<rparr> else x\<lparr>weak := weak x + 1\<rparr>"]) auto
  qed
qed

text \<open>A process finds its own references by their handles and its own nodes by their pointers.\<close>

lemma binder_get_ref_own:
  assumes "refs_hole s \<delta> {} {}" "ref_at s r = Some x" "ref_proc x = p"
  shows "binder_get_ref s p (desc x) = Some (Some r)"
proof -
  obtain pr where pr: "proc_at s p = Some pr" using hole_ref [OF assms(1,2)] assms(3) by (metis not_Some_eq)
  have "r \<in> refs_of_proc s p" using assms by (auto simp: refs_of_proc_def)
  then have "rb_search (desc_key s) (desc x) (refs_by_desc pr) = Some r"
    using rb_search_Some [OF hole_trees(3) [OF assms(1) pr]] hole_trees(4) [OF assms(1) pr] assms(2)
    by (simp add: desc_key_def)
  with pr show ?thesis by (simp add: binder_get_ref_def)
qed

lemma binder_get_ref_found:
  assumes "refs_inv s" "binder_get_ref s p d = Some (Some r)"
  obtains x where "ref_at s r = Some x" "ref_proc x = p" "desc x = d"
proof -
  from assms(2) obtain pr where pr: "proc_at s p = Some pr" "rb_search (desc_key s) d (refs_by_desc pr) = Some r"
    by (auto simp: binder_get_ref_def split: Option.bind_splits)
  then have "r \<in> refs_of_proc s p" "desc_key s r = d"
    using rb_search_Some [OF inv_trees(3) [OF assms(1) pr(1)]] inv_trees(4) [OF assms(1) pr(1)] by auto
  then obtain x where "ref_at s r = Some x" "ref_proc x = p" by (auto simp: refs_of_proc_def)
  with \<open>desc_key s r = d\<close> show ?thesis by (intro that [of x]) (simp_all add: desc_key_def)
qed

lemma binder_get_node_found:
  assumes "refs_inv s" "binder_get_node s p ptr = Some (Some n)"
  obtains x where "node_at s n = Some x" "node_proc x = Some p" "node_ptr x = ptr"
proof -
  from assms(2) obtain pr where pr: "proc_at s p = Some pr" "rb_search (node_key s) ptr (nodes_root pr) = Some n"
    by (auto simp: binder_get_node_def split: Option.bind_splits)
  then have "n \<in> nodes_of_proc s p" "node_key s n = ptr"
    using rb_search_Some [OF inv_trees(1) [OF assms(1) pr(1)]] inv_trees(2) [OF assms(1) pr(1)] by auto
  then obtain x where "node_at s n = Some x" "node_proc x = Some p" by (auto simp: nodes_of_proc_def)
  with \<open>node_key s n = ptr\<close> show ?thesis by (intro that [of x]) (simp_all add: node_key_def)
qed

section \<open>Sending an object\<close>

text \<open>\<open>kzalloc\<close> never answers an address that is in use.\<close>

definition fresh_heap :: "'e kenv_scheme \<Rightarrow> driver \<Rightarrow> bool" where
  "fresh_heap env s \<longleftrightarrow> (\<forall>k a. kzalloc_at env k = Some a \<longrightarrow>
     ref_at s a = None \<and> node_at s a = None \<and> linked s (Node_work a) = None \<and> lists s (Async_todo a) = [])"

text \<open>Handle \<open>d\<close> of process \<open>q\<close> names node \<open>n\<close>.\<close>

definition names_node :: "driver \<Rightarrow> nat \<Rightarrow> u32 \<Rightarrow> nat \<Rightarrow> bool" where
  "names_node s q d n \<longleftrightarrow> (\<exists>r x. binder_get_ref s q d = Some (Some r) \<and> ref_at s r = Some x \<and> ref_node x = n)"

text \<open>No strong count stands at its last value, from which it would wrap around to 0.\<close>

definition counts_left :: "driver \<Rightarrow> bool" where
  "counts_left s \<longleftrightarrow> (\<forall>r x. ref_at s r = Some x \<longrightarrow> strong x \<noteq> - 1)"

lemma get_ref_and_count:
  assumes inv: "refs_inv s" and rb: "rb_ok env" and q: "proc_at s q = Some qr" and n: "node_at s n = Some x"
    and fresh: "fresh_ref env s" and few: "card (refs_of_proc s q) < addr_bound - 1"
    and run: "binder_get_ref_for_node env q n s = Some (Some r, s1)"
  obtains y where "ref_at s1 r = Some y" "refs_inv s1" "same_nodes s s1"
    "\<exists>ret s2. binder_inc_ref r t h s1 = Some (ret, s2)"
    "\<And>ret s2. binder_inc_ref r t h s1 = Some (ret, s2) \<Longrightarrow>
        (counts_left s \<longrightarrow> refs_inv s2) \<and> (\<exists>\<delta>. refs_hole s2 \<delta> {} {}) \<and> same_nodes s s2 \<and> names_node s2 q (desc y) n"
proof -
  have s1: "refs_inv s1 \<and> same_nodes s s1 \<and> (\<exists>y. ref_at s1 r = Some y \<and> ref_proc y = q \<and> ref_node y = n \<and>
      (counts_left s \<longrightarrow> strong y \<noteq> - 1))"
  proof (cases rule: get_ref_for_node_cases [OF inv rb q n fresh few, case_names found no_memory creates])
    case (found r' y)
    with run inv show ?thesis by (auto simp: counts_left_def)
  next
    case no_memory
    with run show ?thesis by simp
  next
    case (creates r' y s')
    have "same_nodes s s'" using n creates(13) by (simp add: same_nodes_def node_ident_def)
    with creates run show ?thesis by auto
  qed
  then obtain y where y: "ref_at s1 r = Some y" "ref_proc y = q" "ref_node y = n"
      "counts_left s \<longrightarrow> strong y \<noteq> - 1" by auto
  obtain ret s2 z \<delta> where c: "binder_inc_ref r t h s1 = Some (ret, s2)" "refs_hole s2 \<delta> {} {}" "same_nodes s1 s2"
      "ref_at s2 = (ref_at s1)(r := Some z)" "desc z = desc y" "ref_proc z = ref_proc y" "ref_node z = ref_node y"
      "t \<and> strong y = - 1 \<or> refs_inv s2"
    using s1 y(1) by (metis binder_inc_ref_same)
  have "binder_get_ref s2 q (desc y) = Some (Some r)"
    using binder_get_ref_own [OF c(2), of r z q] c(4-6) y(2) by simp
  then have "names_node s2 q (desc y) n" using c(4,7) y(3) by (auto simp: names_node_def)
  moreover have "same_nodes s s2" using s1 c(3) same_nodes_trans by blast
  ultimately show ?thesis using that [OF y(1)] s1 c(1,2,8) y(4) by auto
qed

text \<open>What a sent object turns into: a handle of the receiver that names the sender's node.\<close>

definition is_binder :: "flat_binder_object \<Rightarrow> bool" where
  "is_binder fp \<longleftrightarrow> obj_type fp = BINDER_TYPE_BINDER \<or> obj_type fp = BINDER_TYPE_WEAK_BINDER"

lemma owner_node_cases:
  assumes inv: "refs_inv s" and rb: "rb_ok env" and p: "proc_at s p = Some pr" and fresh: "fresh_heap env s"
    and run: "translate_binder env p th tg fp s = Some (Inr fp', s')"
  obtains n x s1 where "refs_inv s1" "same_nodes s s1" "node_at s1 n = Some x"
    "node_ident x = (Some p, handle fp, obj_cookie fp)" "ref_at s1 = ref_at s" "fresh_ref env s1"
    "\<And>q. proc_at s q \<noteq> None \<Longrightarrow> proc_at s1 q \<noteq> None"
    "send_reference env th tg fp n s1 = Some (Inr fp', s')"
proof -
  have fr: "fresh_ref env s" "fresh_node env s"
    using fresh by (auto simp: fresh_heap_def fresh_ref_def fresh_node_def)
  from run p obtain found where found: "binder_get_node s p (handle fp) = Some found"
    by (auto simp: translate_binder_def split: Option.bind_splits)
  show ?thesis
  proof (cases found)
    case (Some n)
    with found obtain x where x: "node_at s n = Some x" "node_proc x = Some p" "node_ptr x = handle fp"
      using binder_get_node_found [OF inv] by metis
    have eq: "obj_cookie fp = node_cookie x" "send_reference env th tg fp n s = Some (Inr fp', s')"
      using run found Some x by (auto simp: translate_binder_def split: if_splits)
    show ?thesis
      by (rule that [of s n x]) (use inv x eq fr in \<open>simp_all add: node_ident_def\<close>)
  next
    case None
    show ?thesis
    proof (cases rule: binder_new_node_cases [OF inv rb p fr(2), of "handle fp" "obj_cookie fp",
        case_names taken no_memory creates])
      case (taken n x)
      with run found None show ?thesis by (simp add: translate_binder_def)
    next
      case no_memory
      with run found None show ?thesis by (simp add: translate_binder_def)
    next
      case (creates n x s0)
      define g where "g = (\<lambda>x :: binder_node. x\<lparr>min_priority := unat (obj_flags fp AND 255),
                                             accept_fds := obj_flags fp AND 256 \<noteq> 0\<rparr>)"
      define s1 where "s1 = upd_node n g s0"
      have g: "node_view (g x) = node_view x" "node_ident (g x) = node_ident x" "node_cookie (g x) = node_cookie x" for x
        by (simp_all add: g_def node_view_def node_ident_def)
      have "refs_inv s1"
        unfolding refs_inv_def s1_def
        by (rule refs_hole_cong [of s0])
          (use creates(2) g in \<open>simp_all add: refs_inv_def refs_hole_def option.map_comp o_def cong: option.map_cong\<close>)
      moreover have "same_nodes s s1"
        using creates(3,4) by (auto simp: same_nodes_def s1_def)
      moreover have "node_at s1 n = Some (g x)" using creates(4) by (simp add: s1_def)
      moreover have "node_ident (g x) = (Some p, handle fp, obj_cookie fp)"
        using creates(5,6,7) by (simp add: g node_ident_def [of x])
      moreover have "ref_at s1 = ref_at s" using creates(14) by (simp add: s1_def)
      moreover have "fresh_ref env s1" using fresh creates(14) by (simp add: fresh_ref_def fresh_heap_def s1_def)
      moreover have "proc_at s1 q \<noteq> None" if "proc_at s q \<noteq> None" for q
      proof -
        have "binder_new_node env p (handle fp) (obj_cookie fp) s = Some (Some n, s0)" by (fact creates(1))
        then have "\<exists>f. proc_at s0 = (proc_at s)(p := map_option f (proc_at s p))"
          by (auto simp: binder_new_node_def kzalloc_def Let_def split: if_splits option.splits Option.bind_splits)
        with that p show ?thesis by (auto simp: s1_def)
      qed
      moreover have "send_reference env th tg fp n s1 = Some (Inr fp', s')"
        using run found None creates(1,4,7) by (simp add: translate_binder_def s1_def g_def split: if_splits)
      ultimately show ?thesis by (rule that)
    qed
  qed
qed

lemma send_reference_names:
  assumes inv: "refs_inv s" and rb: "rb_ok env" and q: "proc_at s (target_proc tg) = Some qr"
    and n: "node_at s n = Some x" and fresh: "fresh_ref env s"
    and few: "card (refs_of_proc s (target_proc tg)) < addr_bound - 1"
    and run: "send_reference env th tg fp n s = Some (Inr fp', s')"
  shows "(counts_left s \<longrightarrow> refs_inv s') \<and> (\<exists>\<delta>. refs_hole s' \<delta> {} {}) \<and> same_nodes s s' \<and> names_node s' (target_proc tg) (handle fp') n \<and>
     fp' = fp\<lparr>obj_type := handle_type (obj_type fp), handle := handle fp'\<rparr>"
proof -
  from run obtain r s1 where r: "binder_get_ref_for_node env (target_proc tg) n s = Some (Some r, s1)"
    by (auto simp: send_reference_def split: Option.bind_splits option.splits)
  let ?t = "handle_type (obj_type fp) = BINDER_TYPE_HANDLE"
  obtain y where y: "ref_at s1 r = Some y"
      "\<And>ret s2. binder_inc_ref r ?t (Some (Thread_todo th)) s1 = Some (ret, s2) \<Longrightarrow>
         (counts_left s \<longrightarrow> refs_inv s2) \<and> (\<exists>\<delta>. refs_hole s2 \<delta> {} {}) \<and> same_nodes s s2 \<and> names_node s2 (target_proc tg) (desc y) n"
    by (rule get_ref_and_count [OF inv rb q n fresh few r, of ?t "Some (Thread_todo th)"]) (rule that)
  from run r y(1) obtain ret where ret: "binder_inc_ref r ?t (Some (Thread_todo th)) s1 = Some (ret, s')"
      "fp' = fp\<lparr>obj_type := handle_type (obj_type fp), handle := desc y\<rparr>"
    by (auto simp: send_reference_def Let_def split: Option.bind_splits)
  from y(2) [OF ret(1)] ret(2) show ?thesis by simp
qed

text \<open>C8: An object that a process sends reaches the receiver as a handle that names the
  sender's node, and when the receiver sends that handle back, the owner gets exactly the
  object it sent: type, flags, pointer and cookie.  The tables and counts stay consistent
  unless a strong count wraps around to 0.\<close>

theorem object_returns_to_owner:
  assumes "refs_inv s" "rb_ok env" "fresh_heap env s" "proc_at s p = Some pr" "proc_at s (target_proc tg) = Some qr"
    "card (refs_of_proc s (target_proc tg)) < addr_bound - 1" "is_binder fp"
    "translate_binder env p th tg fp s = Some (Inr fp', s')" "target_proc back = p"
  shows "(counts_left s \<longrightarrow> refs_inv s') \<and> (\<exists>n. names_node s' (target_proc tg) (handle fp') n) \<and>
     (\<exists>s''. translate_handle env (target_proc tg) back fp' s' = Some (Inr fp, s''))"
proof -
  obtain n x s1 where own: "refs_inv s1" "same_nodes s s1" "node_at s1 n = Some x"
      "node_ident x = (Some p, handle fp, obj_cookie fp)" "ref_at s1 = ref_at s" "fresh_ref env s1"
      "\<And>q. proc_at s q \<noteq> None \<Longrightarrow> proc_at s1 q \<noteq> None"
      "send_reference env th tg fp n s1 = Some (Inr fp', s')"
    using owner_node_cases [OF assms(1,2,4,3,8)] by metis
  from own(7) [of "target_proc tg"] assms(5) obtain qr1 where "proc_at s1 (target_proc tg) = Some qr1" by auto
  moreover have "card (refs_of_proc s1 (target_proc tg)) < addr_bound - 1"
    using assms(6) own(5) by (simp add: refs_of_proc_def)
  ultimately have sent: "(counts_left s1 \<longrightarrow> refs_inv s') \<and> (\<exists>\<delta>. refs_hole s' \<delta> {} {})" "same_nodes s1 s'" "names_node s' (target_proc tg) (handle fp') n"
      "fp' = fp\<lparr>obj_type := handle_type (obj_type fp), handle := handle fp'\<rparr>"
    using send_reference_names [OF own(1) assms(2) _ own(3,6) _ own(8)] by blast+
  from sent(3) obtain r y where r: "binder_get_ref s' (target_proc tg) (handle fp') = Some (Some r)"
      "ref_at s' r = Some y" "ref_node y = n" by (auto simp: names_node_def)
  obtain z where z: "node_at s' n = Some z" "node_ident z = (Some p, handle fp, obj_cookie fp)"
    using sent(2) [unfolded same_nodes_def, rule_format, OF own(3)] own(4) by auto
  have l: "lists_ok s'" using sent(1) refs_hole_lists by blast
  define ty where "ty = (if obj_type fp' = BINDER_TYPE_HANDLE then BINDER_TYPE_BINDER else BINDER_TYPE_WEAK_BINDER)"
  have "obj_type fp' = handle_type (obj_type fp)" by (subst sent(4)) simp
  then have ty: "ty = obj_type fp"
    using assms(7) by (auto simp: ty_def handle_type_def is_binder_def object_types)
  obtain ret s2 where "binder_inc_node n (ty = BINDER_TYPE_BINDER) False None s' = Some (ret, s2)"
    using binder_inc_node_same [OF l z(1)] by metis
  then have "translate_handle env (target_proc tg) back fp' s' =
      Some (Inr (fp'\<lparr>obj_type := ty, handle := handle fp, obj_cookie := obj_cookie fp\<rparr>), s2)"
    using r z assms(9) by (simp add: translate_handle_def ty_def [symmetric] node_ident_def)
  moreover have "fp'\<lparr>obj_type := ty, handle := handle fp, obj_cookie := obj_cookie fp\<rparr> = fp"
    by (subst sent(4)) (simp add: ty)
  moreover have "counts_left s1 \<longleftrightarrow> counts_left s" by (simp add: counts_left_def own(5))
  ultimately show ?thesis using sent(1,3) by auto
qed

text \<open>A handle passed on to a process that does not own the object becomes a handle of
  that process for the same node, of the same kind; the tables of references stay
  consistent unless a strong count wraps around.\<close>

theorem handle_names_same_node:
  assumes "refs_inv s" "rb_ok env" "fresh_ref env s" "names_node s p (handle fp) n" "node_at s n = Some x"
    "node_proc x \<noteq> Some (target_proc tg)" "proc_at s (target_proc tg) = Some qr"
    "card (refs_of_proc s (target_proc tg)) < addr_bound - 1"
    "translate_handle env p tg fp s = Some (Inr fp', s')"
  shows "(counts_left s \<longrightarrow> refs_inv s') \<and> same_nodes s s' \<and> names_node s' (target_proc tg) (handle fp') n \<and>
     obj_type fp' = obj_type fp"
proof -
  from assms(4) obtain r y where r: "binder_get_ref s p (handle fp) = Some (Some r)" "ref_at s r = Some y" "ref_node y = n"
    by (auto simp: names_node_def)
  from assms(9) r assms(5,6) obtain r2 s1 where r2: "binder_get_ref_for_node env (target_proc tg) n s = Some (Some r2, s1)"
    by (auto simp: translate_handle_def split: if_splits Option.bind_splits option.splits)
  let ?t = "obj_type fp = BINDER_TYPE_HANDLE"
  obtain d where d: "ref_at s1 r2 = Some d"
      "\<And>ret s2. binder_inc_ref r2 ?t None s1 = Some (ret, s2) \<Longrightarrow>
         (counts_left s \<longrightarrow> refs_inv s2) \<and> (\<exists>\<delta>. refs_hole s2 \<delta> {} {}) \<and> same_nodes s s2 \<and> names_node s2 (target_proc tg) (desc d) n"
    by (rule get_ref_and_count [OF assms(1,2,7,5,3,8) r2, of ?t None]) (rule that)
  from assms(9) r assms(5,6) r2 d(1) obtain ret where ret: "binder_inc_ref r2 ?t None s1 = Some (ret, s')"
      "fp' = fp\<lparr>handle := desc d\<rparr>"
    by (auto simp: translate_handle_def split: if_splits Option.bind_splits)
  from d(2) [OF ret(1)] ret(2) show ?thesis by simp
qed

section \<open>Witnesses\<close>

definition to_proc_101 :: txn_target where
  "to_proc_101 = \<lparr>target_thread = None, target_proc = 101, target_node = Some 200, in_reply_to = None\<rparr>"

definition to_proc_100 :: txn_target where
  "to_proc_100 = to_proc_101\<lparr>target_proc := 100\<rparr>"

definition node_object :: flat_binder_object where
  "node_object = \<lparr>obj_type = BINDER_TYPE_BINDER, obj_flags = 0, handle = 4096, obj_cookie = 0\<rparr>"

lemma two_procs_counts_left: "counts_left two_procs"
  by (auto simp: counts_left_def two_procs_def split: if_splits)

lemma two_procs_heap: "fresh_heap plain_kenv two_procs"
  by (auto simp: fresh_heap_def plain_kenv_def two_procs_def driver_init_def)

theorem object_returns_to_owner_witness:
  "\<exists>(fp' :: flat_binder_object) s'. refs_inv s' \<and> (\<exists>n. names_node s' (target_proc to_proc_101) (handle fp') n) \<and>
     (\<exists>s''. translate_handle plain_kenv (target_proc to_proc_101) to_proc_100 fp' s' = Some (Inr node_object, s''))"
proof -
  obtain fp' s' where "translate_binder plain_kenv 100 500 to_proc_101 node_object two_procs = Some (Inr fp', s')"
    by (simp add: translate_binder_def binder_get_node_def two_procs_def node_object_def node_key_def
        driver_init_def blank_node_def blank_proc_def send_reference_def binder_get_ref_for_node_def to_proc_101_def
        ref_node_key_def binder_inc_ref_def binder_inc_node_def Let_def handle_type_def)
  moreover obtain pr qr where "proc_at two_procs 100 = Some pr" "proc_at two_procs 101 = Some qr"
    by (simp add: two_procs_def)
  moreover have "is_binder node_object" "target_proc to_proc_101 = 101" "target_proc to_proc_100 = 100"
    by (simp_all add: is_binder_def node_object_def to_proc_101_def to_proc_100_def)
  ultimately have "refs_inv s' \<and> (\<exists>n. names_node s' (target_proc to_proc_101) (handle fp') n) \<and>
     (\<exists>s''. translate_handle plain_kenv (target_proc to_proc_101) to_proc_100 fp' s' = Some (Inr node_object, s''))"
    using object_returns_to_owner [OF two_procs_inv rb_ok_plain_kenv two_procs_heap _ _ two_procs_fresh(3),
        of 100 pr to_proc_101 qr node_object 500 fp' s' to_proc_100]
    two_procs_counts_left by simp
  then show ?thesis by blast
qed

text \<open>Process 101 passes its handle for node 200, which process 100 owns, on to process 102.\<close>

definition three_procs :: driver where
  "three_procs = two_procs\<lparr>proc_at := (proc_at two_procs)(102 \<mapsto> blank_proc)\<rparr>"

definition to_proc_102 :: txn_target where
  "to_proc_102 = to_proc_101\<lparr>target_proc := 102\<rparr>"

definition handle_object :: flat_binder_object where
  "handle_object = \<lparr>obj_type = BINDER_TYPE_WEAK_HANDLE, obj_flags = 0, handle = 1, obj_cookie = 0\<rparr>"

lemma three_procs_inv: "refs_inv three_procs"
proof -
  have same: "desc_key three_procs = desc_key two_procs" "ref_node_key three_procs = ref_node_key two_procs"
    "node_key three_procs = node_key two_procs" "refs_of_proc three_procs = refs_of_proc two_procs"
    "refs_of_node three_procs = refs_of_node two_procs" "strong_refs three_procs = strong_refs two_procs"
    "nodes_of_proc three_procs = nodes_of_proc two_procs"
    by (simp_all add: three_procs_def fun_eq_iff desc_key_def ref_node_key_def node_key_def refs_of_proc_def
        refs_of_node_def strong_refs_def nodes_of_proc_def)
  have "refs_of_proc two_procs 102 = {}" "nodes_of_proc two_procs 102 = {}"
    by (auto simp: refs_of_proc_def nodes_of_proc_def two_procs_def split: if_splits)
  moreover have "keyed k []" for k :: "nat \<Rightarrow> 'k :: linorder" by (simp add: keyed_def)
  ultimately show ?thesis
    using two_procs_inv unfolding refs_inv_def refs_hole_defs same
    by (auto simp: three_procs_def blank_proc_def lists_ok_def)
qed

theorem handle_names_same_node_witness:
  "\<exists>(fp' :: flat_binder_object) s'. refs_inv s' \<and> same_nodes three_procs s' \<and> names_node s' (target_proc to_proc_102) (handle fp') 200 \<and>
     obj_type fp' = obj_type handle_object"
proof -
  obtain fp' s' where run: "translate_handle plain_kenv 101 to_proc_102 handle_object three_procs = Some (Inr fp', s')"
    by (simp add: translate_handle_def binder_get_ref_def three_procs_def two_procs_def handle_object_def desc_key_def
        driver_init_def blank_node_def blank_proc_def binder_get_ref_for_node_def to_proc_101_def to_proc_102_def
        kzalloc_def plain_kenv_def Let_def plain_rb_def
        ref_node_key_def binder_inc_ref_def binder_inc_node_def object_types upd_node_def upd_proc_def
        binder_stats_created_def upd_ref_def)
  have "fresh_ref plain_kenv three_procs"
    using two_procs_fresh(1) by (simp add: fresh_ref_def three_procs_def)
  moreover have "names_node three_procs 101 (handle handle_object) 200"
    by (simp add: names_node_def binder_get_ref_def three_procs_def two_procs_def handle_object_def desc_key_def blank_proc_def)
  moreover have "node_at three_procs 200 = node_at two_procs 200" "proc_at three_procs 102 = Some blank_proc"
    by (simp_all add: three_procs_def)
  moreover have "card (refs_of_proc three_procs 102) < addr_bound - 1"
    using two_procs_fresh(3) by (simp add: refs_of_proc_def three_procs_def)
  moreover have "counts_left three_procs"
    using two_procs_counts_left by (simp add: counts_left_def three_procs_def)
  ultimately have "refs_inv s' \<and> same_nodes three_procs s' \<and>
     names_node s' (target_proc to_proc_102) (handle fp') 200 \<and> obj_type fp' = obj_type handle_object"
    using handle_names_same_node [OF three_procs_inv rb_ok_plain_kenv _ _ _ _ _ _ run, of 200 _ blank_proc]
    by (simp add: two_procs_def blank_node_def to_proc_102_def)
  then show ?thesis by blast
qed

end
