(* ===== verification/BinderThread.thy ===== *)
theory BinderThread
  imports BinderTransact
begin

text \<open>
  The commands a thread sends to the driver (driver/binder/binder.c, binder_thread_write).
  Each case of the switch is a definition; \<open>Cmd_next\<close> gives the bytes of arguments the
  command took, \<open>Cmd_return\<close> is a return out of the loop.  User addresses are \<open>nat\<close>: the
  4-byte accesses only succeed far below the end of the address space, so \<open>ptr\<close> never wraps.
\<close>

datatype cmd_result = Cmd_next nat | Cmd_return int

section \<open>References and nodes\<close>

definition bc_ref_command ::
    "'e kenv_scheme \<Rightarrow> nat \<Rightarrow> u32 \<Rightarrow> u32 \<Rightarrow> driver \<Rightarrow> driver option" where
  "bc_ref_command env p cmd target s = do {
     (ref, s) \<leftarrow> (if target = 0 \<and> context_mgr_node s \<noteq> None \<and> (cmd = BC_INCREFS \<or> cmd = BC_ACQUIRE)
       then do {
         n \<leftarrow> context_mgr_node s;
         (ref, s) \<leftarrow> binder_get_ref_for_node env p n s;
         r \<leftarrow> ref;
         _ \<leftarrow> ref_at s r;
         Some (Some r, s)}
       else map_option (\<lambda>ref. (ref, s)) (binder_get_ref s p target));
     case ref of
       None \<Rightarrow> Some s
     | Some r \<Rightarrow>
         if cmd = BC_INCREFS then map_option snd (binder_inc_ref r False None s)
         else if cmd = BC_ACQUIRE then map_option snd (binder_inc_ref r True None s)
         else if cmd = BC_RELEASE then map_option snd (binder_dec_ref env r True s)
         else map_option snd (binder_dec_ref env r False s)}"

definition bc_done_command ::
    "'e kenv_scheme \<Rightarrow> nat \<Rightarrow> u32 \<Rightarrow> u32 \<Rightarrow> u32 \<Rightarrow> driver \<Rightarrow> driver option" where
  "bc_done_command env p cmd ptr cookie s = do {
     found \<leftarrow> binder_get_node s p ptr;
     case found of
       None \<Rightarrow> Some s
     | Some n \<Rightarrow> do {
         node \<leftarrow> node_at s n;
         if cookie \<noteq> node_cookie node then Some s
         else if cmd = BC_ACQUIRE_DONE
         then if \<not> pending_strong_ref node then Some s
              else map_option snd (binder_dec_node env n True False
                     (upd_node n (\<lambda>x. x\<lparr>pending_strong_ref := False\<rparr>) s))
         else if \<not> pending_weak_ref node then Some s
              else map_option snd (binder_dec_node env n False False
                     (upd_node n (\<lambda>x. x\<lparr>pending_weak_ref := False\<rparr>) s))}}"

section \<open>Buffers\<close>

text \<open>The head of the asynchronous transactions that wait for the one in this buffer.\<close>

definition next_async :: "nat \<Rightarrow> nat \<Rightarrow> driver \<Rightarrow> driver option" where
  "next_async th n s = do {
     node \<leftarrow> node_at s n;
     check_that (has_async_transaction node);
     case lists s (Async_todo n) of
       [] \<Rightarrow> Some (upd_node n (\<lambda>x. x\<lparr>has_async_transaction := False\<rparr>) s)
     | w # _ \<Rightarrow> list_add_tail w (Thread_todo th) (list_del_init w s)}"

definition bc_free_buffer ::
    "'e kenv_scheme \<Rightarrow> nat \<Rightarrow> nat \<Rightarrow> u32 \<Rightarrow> driver \<Rightarrow> driver option" where
  "bc_free_buffer env p th data_ptr s = do {
     pr \<leftarrow> proc_at s p;
     found \<leftarrow> binder_buffer_lookup pr (unat data_ptr);
     case found of
       None \<Rightarrow> Some s
     | Some buffer \<Rightarrow>
         let b = bufs pr buffer in
         if \<not> allow_user_free b then Some s
         else do {
           s \<leftarrow> (case buf_transaction b of
                   None \<Rightarrow> Some s
                 | Some t \<Rightarrow> do {
                     _ \<leftarrow> txn_at s t;
                     upd_buffer (p, buffer) (\<lambda>b. b\<lparr>buf_transaction := None\<rparr>)
                       (upd_txn t (\<lambda>x. x\<lparr>txn_buffer := None\<rparr>) s)});
           s \<leftarrow> (if async_transaction b
                  then (case buf_target_node b of None \<Rightarrow> Some s | Some n \<Rightarrow> next_async th n s)
                  else Some s);
           s \<leftarrow> binder_transaction_buffer_release env p buffer None s;
           pr \<leftarrow> proc_at s p;
           pr \<leftarrow> binder_free_buf env pr buffer;
           Some (s\<lparr>proc_at := (proc_at s)(p := Some pr)\<rparr>)}}"

section \<open>Loopers\<close>

definition bc_register_looper :: "nat \<Rightarrow> nat \<Rightarrow> driver \<Rightarrow> driver option" where
  "bc_register_looper p th s = do {
     x \<leftarrow> thread_at s th;
     pr \<leftarrow> proc_at s p;
     let s = (if looper x AND LOOPER_ENTERED \<noteq> 0
              then upd_thread th (\<lambda>x. x\<lparr>looper := looper x OR LOOPER_INVALID\<rparr>) s
              else if requested_threads pr = 0
              then upd_thread th (\<lambda>x. x\<lparr>looper := looper x OR LOOPER_INVALID\<rparr>) s
              else upd_proc p (\<lambda>pr. pr\<lparr>requested_threads := requested_threads pr - 1,
                                        requested_threads_started := requested_threads_started pr + 1\<rparr>) s);
     Some (upd_thread th (\<lambda>x. x\<lparr>looper := looper x OR LOOPER_REGISTERED\<rparr>) s)}"

definition bc_enter_looper :: "nat \<Rightarrow> driver \<Rightarrow> driver option" where
  "bc_enter_looper th s = do {
     x \<leftarrow> thread_at s th;
     let s = (if looper x AND LOOPER_REGISTERED \<noteq> 0
              then upd_thread th (\<lambda>x. x\<lparr>looper := looper x OR LOOPER_INVALID\<rparr>) s else s);
     Some (upd_thread th (\<lambda>x. x\<lparr>looper := looper x OR LOOPER_ENTERED\<rparr>) s)}"

definition bc_exit_looper :: "nat \<Rightarrow> driver \<Rightarrow> driver option" where
  "bc_exit_looper th s = do {
     _ \<leftarrow> thread_at s th;
     Some (upd_thread th (\<lambda>x. x\<lparr>looper := looper x OR LOOPER_EXITED\<rparr>) s)}"

section \<open>Death notifications\<close>

text \<open>A death goes to the sending thread when it is a looper, and to the process otherwise.\<close>

definition queue_death :: "nat \<Rightarrow> nat \<Rightarrow> nat \<Rightarrow> driver \<Rightarrow> driver option" where
  "queue_death p th d s = do {
     x \<leftarrow> thread_at s th;
     if looper x AND (LOOPER_REGISTERED OR LOOPER_ENTERED) \<noteq> 0
     then list_add_tail (Death_work d) (Thread_todo th) s
     else map_option (wake_up (Proc_wait p)) (list_add_tail (Death_work d) (Proc_todo p) s)}"

definition bc_request_death ::
    "'e kenv_scheme \<Rightarrow> nat \<Rightarrow> nat \<Rightarrow> nat \<Rightarrow> u32 \<Rightarrow> driver \<Rightarrow> driver option" where
  "bc_request_death env p th r cookie s = do {
     ref \<leftarrow> ref_at s r;
     if death ref \<noteq> None then Some s
     else case kzalloc env s of
       (None, s) \<Rightarrow> Some (upd_thread th (\<lambda>x. x\<lparr>return_error := BR_ERROR\<rparr>) s)
     | (Some d, s) \<Rightarrow> do {
         let s = binder_stats_created Stat_death s;
         let s = s\<lparr>death_at := (death_at s)(d := Some \<lparr>death_type = No_work, death_cookie = cookie\<rparr>),
                   linked := (linked s)(Death_work d := None)\<rparr>;
         let s = upd_ref r (\<lambda>x. x\<lparr>death := Some d\<rparr>) s;
         node \<leftarrow> node_at s (ref_node ref);
         if node_proc node = None
         then queue_death p th d (upd_death d (\<lambda>x. x\<lparr>death_type := Dead_binder\<rparr>) s)
         else Some s}}"

definition bc_clear_death ::
    "nat \<Rightarrow> nat \<Rightarrow> nat \<Rightarrow> u32 \<Rightarrow> driver \<Rightarrow> driver option" where
  "bc_clear_death p th r cookie s = do {
     ref \<leftarrow> ref_at s r;
     case death ref of
       None \<Rightarrow> Some s
     | Some d \<Rightarrow> do {
         x \<leftarrow> death_at s d;
         if death_cookie x \<noteq> cookie then Some s
         else do {
           let s = upd_ref r (\<lambda>x. x\<lparr>death := None\<rparr>) s;
           if linked s (Death_work d) = None
           then queue_death p th d (upd_death d (\<lambda>x. x\<lparr>death_type := Clear_death_notification\<rparr>) s)
           else do {
             check_that (death_type x = Dead_binder);
             Some (upd_death d (\<lambda>x. x\<lparr>death_type := Dead_binder_and_clear\<rparr>) s)}}}}"

definition bc_death_command ::
    "'e kenv_scheme \<Rightarrow> nat \<Rightarrow> nat \<Rightarrow> u32 \<Rightarrow> u32 \<Rightarrow> u32 \<Rightarrow> driver \<Rightarrow> driver option" where
  "bc_death_command env p th cmd target cookie s = do {
     found \<leftarrow> binder_get_ref s p target;
     case found of
       None \<Rightarrow> Some s
     | Some r \<Rightarrow> if cmd = BC_REQUEST_DEATH_NOTIFICATION then bc_request_death env p th r cookie s
                 else bc_clear_death p th r cookie s}"

text \<open>The first delivered death with the cookie.\<close>

fun find_delivered :: "driver \<Rightarrow> u32 \<Rightarrow> work list \<Rightarrow> nat option option" where
  "find_delivered s cookie [] = Some None"
| "find_delivered s cookie (Death_work d # ws) = do {
     x \<leftarrow> death_at s d;
     if death_cookie x = cookie then Some (Some d) else find_delivered s cookie ws}"
| "find_delivered s cookie (Transaction_work t # ws) = None"
| "find_delivered s cookie (Complete_work c # ws) = None"
| "find_delivered s cookie (Node_work n # ws) = None"

definition bc_dead_binder_done :: "nat \<Rightarrow> nat \<Rightarrow> u32 \<Rightarrow> driver \<Rightarrow> driver option" where
  "bc_dead_binder_done p th cookie s = do {
     found \<leftarrow> find_delivered s cookie (lists s (Delivered_death p));
     case found of
       None \<Rightarrow> Some s
     | Some d \<Rightarrow> do {
         x \<leftarrow> death_at s d;
         let s = list_del_init (Death_work d) s;
         if death_type x = Dead_binder_and_clear
         then queue_death p th d (upd_death d (\<lambda>x. x\<lparr>death_type := Clear_death_notification\<rparr>) s)
         else Some s}}"

section \<open>The switch\<close>

definition read_transaction_data :: "u32 list \<Rightarrow> transaction_data" where
  "read_transaction_data ws =
     \<lparr>tr_target = ws ! 0, tr_cookie = ws ! 1, tr_code = ws ! 2, tr_flags = ws ! 3,
      tr_sender_pid = ws ! 4, tr_sender_euid = ws ! 5, tr_data_size = ws ! 6,
      tr_offsets_size = ws ! 7, tr_buffer = ws ! 8, tr_offsets = ws ! 9\<rparr>"

definition cmd_next :: "nat \<Rightarrow> driver option \<Rightarrow> (cmd_result \<times> driver) option" where
  "cmd_next n = map_option (Pair (Cmd_next n))"

text \<open>Commands with one word, with two words, with a transaction, and with none.\<close>

definition one_word_command ::
    "'e kenv_scheme \<Rightarrow> nat \<Rightarrow> nat \<Rightarrow> u32 \<Rightarrow> u32 \<Rightarrow> driver \<Rightarrow> (cmd_result \<times> driver) option" where
  "one_word_command env p th cmd a s =
     (if cmd = BC_FREE_BUFFER then cmd_next 4 (bc_free_buffer env p th a s)
      else if cmd = BC_DEAD_BINDER_DONE then cmd_next 4 (bc_dead_binder_done p th a s)
      else cmd_next 4 (bc_ref_command env p cmd a s))"

definition two_word_command ::
    "'e kenv_scheme \<Rightarrow> nat \<Rightarrow> nat \<Rightarrow> u32 \<Rightarrow> u32 \<Rightarrow> u32 \<Rightarrow> driver \<Rightarrow> (cmd_result \<times> driver) option" where
  "two_word_command env p th cmd a b s =
     (if cmd = BC_INCREFS_DONE \<or> cmd = BC_ACQUIRE_DONE then cmd_next 8 (bc_done_command env p cmd a b s)
      else cmd_next 8 (bc_death_command env p th cmd a b s))"

definition thread_write_command ::
    "'e kenv_scheme \<Rightarrow> task \<Rightarrow> nat \<Rightarrow> nat \<Rightarrow> u32 \<Rightarrow> nat \<Rightarrow> driver \<Rightarrow> (cmd_result \<times> driver) option" where
  "thread_write_command env task p th cmd ptr s =
     (if cmd \<in> {BC_INCREFS, BC_ACQUIRE, BC_RELEASE, BC_DECREFS, BC_FREE_BUFFER, BC_DEAD_BINDER_DONE}
      then (case get_user env s ptr of
              None \<Rightarrow> Some (Cmd_return (- EFAULT), s)
            | Some a \<Rightarrow> one_word_command env p th cmd a s)
      else if cmd \<in> {BC_INCREFS_DONE, BC_ACQUIRE_DONE, BC_REQUEST_DEATH_NOTIFICATION, BC_CLEAR_DEATH_NOTIFICATION}
      then (case get_user env s ptr of
              None \<Rightarrow> Some (Cmd_return (- EFAULT), s)
            | Some a \<Rightarrow> (case get_user env s (ptr + 4) of
                           None \<Rightarrow> Some (Cmd_return (- EFAULT), s)
                         | Some b \<Rightarrow> two_word_command env p th cmd a b s))
      else if cmd = BC_ATTEMPT_ACQUIRE \<or> cmd = BC_ACQUIRE_RESULT then Some (Cmd_return (- EINVAL), s)
      else if cmd = BC_TRANSACTION \<or> cmd = BC_REPLY
      then (case copy_from_user env s ptr 10 of
              None \<Rightarrow> Some (Cmd_return (- EFAULT), s)
            | Some ws \<Rightarrow> cmd_next 40
                (binder_transaction env task p th (read_transaction_data ws) (cmd = BC_REPLY) s))
      else if cmd = BC_REGISTER_LOOPER then cmd_next 0 (bc_register_looper p th s)
      else if cmd = BC_ENTER_LOOPER then cmd_next 0 (bc_enter_looper th s)
      else if cmd = BC_EXIT_LOOPER then cmd_next 0 (bc_exit_looper th s)
      else Some (Cmd_return (- EINVAL), s))"

section \<open>The loop\<close>

text \<open>
  The result, the address behind the last command that was completed, and the state.
\<close>

function write_loop ::
    "'e kenv_scheme \<Rightarrow> task \<Rightarrow> nat \<Rightarrow> nat \<Rightarrow> nat \<Rightarrow> nat \<Rightarrow> driver \<Rightarrow> (int \<times> nat \<times> driver) option" where
  "write_loop env task p th ptr end_ptr s =
     (case thread_at s th of
        None \<Rightarrow> None
      | Some x \<Rightarrow>
          if ptr < end_ptr \<and> return_error x = BR_OK
          then (case get_user env s ptr of
                  None \<Rightarrow> Some (- EFAULT, ptr, s)
                | Some cmd \<Rightarrow>
                    (case thread_write_command env task p th cmd (ptr + 4) s of
                       None \<Rightarrow> None
                     | Some (Cmd_return ret, s') \<Rightarrow> Some (ret, ptr, s')
                     | Some (Cmd_next n, s') \<Rightarrow> write_loop env task p th (ptr + 4 + n) end_ptr s'))
          else Some (0, ptr, s))"
  by pat_completeness auto
termination
  by (relation "measure (\<lambda>(env, task, p, th, ptr, end_ptr, s). end_ptr - ptr)") auto

declare write_loop.simps [simp del]

text \<open>The result, \<open>*consumed\<close>, and the state.\<close>

definition binder_thread_write ::
    "'e kenv_scheme \<Rightarrow> task \<Rightarrow> nat \<Rightarrow> nat \<Rightarrow> u32 \<Rightarrow> u32 \<Rightarrow> u32 \<Rightarrow> driver \<Rightarrow> (int \<times> u32 \<times> driver) option" where
  "binder_thread_write env task p th buffer sz consumed s =
     map_option (\<lambda>(ret, ptr, s). (ret, of_nat ptr - buffer, s))
       (write_loop env task p th (unat (buffer + consumed)) (unat (buffer + sz)) s)"

end
