(* ===== verification/BinderRead.thy ===== *)
theory BinderRead
  imports BinderThread
begin

text \<open>
  What a thread receives (driver/binder/binder.c, binder_thread_read), and the threads of a
  process (binder_release_work to binder_poll).

  binder_thread_read gives up the driver's lock while it waits.  The model cuts it there:
  \<open>read_start\<close> and \<open>read_retry\<close> run up to the wait, \<open>read_wait\<close> is the check of the
  condition without the lock, \<open>read_resume\<close> what follows with the lock held again, up to
  the return or the next wait; other threads can run in between.  \<open>Read_wait\<close> holds the
  local variables \<open>ptr\<close> and \<open>wait_for_proc_work\<close> across the wait.
\<close>

section \<open>Waiting\<close>

datatype read_phase = Read_done int nat | Read_error int | Read_wait nat bool

definition binder_has_proc_work :: "nat \<Rightarrow> nat \<Rightarrow> driver \<Rightarrow> bool option" where
  "binder_has_proc_work p th s =
     map_option (\<lambda>x. lists s (Proc_todo p) \<noteq> [] \<or> looper x AND LOOPER_NEED_RETURN \<noteq> 0) (thread_at s th)"

definition binder_has_thread_work :: "nat \<Rightarrow> driver \<Rightarrow> bool option" where
  "binder_has_thread_work th s =
     map_option (\<lambda>x. lists s (Thread_todo th) \<noteq> [] \<or> return_error x \<noteq> BR_OK \<or>
                      looper x AND LOOPER_NEED_RETURN \<noteq> 0) (thread_at s th)"

text \<open>The label \<open>done\<close>: the result is the return value and the end of what was written.\<close>

definition read_done ::
    "'e kenv_scheme \<Rightarrow> nat \<Rightarrow> nat \<Rightarrow> u32 \<Rightarrow> nat \<Rightarrow> driver \<Rightarrow> (read_phase \<times> driver) option" where
  "read_done env p th buffer ptr s = do {
     pr \<leftarrow> proc_at s p;
     x \<leftarrow> thread_at s th;
     if requested_threads pr + ready_threads pr = 0 \<and> requested_threads_started pr < max_threads pr \<and>
        looper x AND (LOOPER_REGISTERED OR LOOPER_ENTERED) \<noteq> 0
     then let s = upd_proc p (\<lambda>pr. pr\<lparr>requested_threads := requested_threads pr + 1\<rparr>) s in
          (case put_user env (unat buffer) BR_SPAWN_LOOPER s of
             None \<Rightarrow> Some (Read_done (- EFAULT) ptr, s)
           | Some s \<Rightarrow> Some (Read_done 0 ptr, s))
     else Some (Read_done 0 ptr, s)}"

text \<open>A pending error is returned, \<open>return_error2\<close> first when it is set.\<close>

definition read_errors ::
    "'e kenv_scheme \<Rightarrow> nat \<Rightarrow> nat \<Rightarrow> u32 \<Rightarrow> nat \<Rightarrow> nat \<Rightarrow> driver \<Rightarrow> (read_phase \<times> driver) option" where
  "read_errors env p th buffer ptr end_ptr s = do {
     x \<leftarrow> thread_at s th;
     if return_error2 x \<noteq> BR_OK
     then (case put_user env ptr (return_error2 x) s of
             None \<Rightarrow> Some (Read_error (- EFAULT), s)
           | Some s \<Rightarrow>
               if ptr + 4 = end_ptr then read_done env p th buffer (ptr + 4) s
               else let s = upd_thread th (\<lambda>x. x\<lparr>return_error2 := BR_OK\<rparr>) s in
                    (case put_user env (ptr + 4) (return_error x) s of
                       None \<Rightarrow> Some (Read_error (- EFAULT), s)
                     | Some s \<Rightarrow> read_done env p th buffer (ptr + 8)
                                  (upd_thread th (\<lambda>x. x\<lparr>return_error := BR_OK\<rparr>) s)))
     else (case put_user env ptr (return_error x) s of
             None \<Rightarrow> Some (Read_error (- EFAULT), s)
           | Some s \<Rightarrow> read_done env p th buffer (ptr + 4)
                        (upd_thread th (\<lambda>x. x\<lparr>return_error := BR_OK\<rparr>) s))}"

definition read_retry ::
    "'e kenv_scheme \<Rightarrow> nat \<Rightarrow> nat \<Rightarrow> u32 \<Rightarrow> nat \<Rightarrow> nat \<Rightarrow> driver \<Rightarrow> (read_phase \<times> driver) option" where
  "read_retry env p th buffer ptr end_ptr s = do {
     x \<leftarrow> thread_at s th;
     let wait_for_proc_work = (transaction_stack x = None \<and> lists s (Thread_todo th) = []);
     if return_error x \<noteq> BR_OK \<and> ptr < end_ptr then read_errors env p th buffer ptr end_ptr s
     else do {
       let s = upd_thread th (\<lambda>x. x\<lparr>looper := looper x OR LOOPER_WAITING\<rparr>) s;
       _ \<leftarrow> proc_at s p;
       let s = (if wait_for_proc_work
                then upd_proc p (\<lambda>pr. pr\<lparr>ready_threads := ready_threads pr + 1\<rparr>) s else s);
       Some (Read_wait ptr wait_for_proc_work, s)}}"

definition read_start ::
    "'e kenv_scheme \<Rightarrow> nat \<Rightarrow> nat \<Rightarrow> u32 \<Rightarrow> u32 \<Rightarrow> u32 \<Rightarrow> driver \<Rightarrow> (read_phase \<times> driver) option" where
  "read_start env p th buffer sz consumed s =
     (let ptr = unat (buffer + consumed); end_ptr = unat (buffer + sz) in
      if consumed = 0
      then (case put_user env ptr BR_NOOP s of
              None \<Rightarrow> Some (Read_error (- EFAULT), s)
            | Some s \<Rightarrow> read_retry env p th buffer (ptr + 4) end_ptr s)
      else read_retry env p th buffer ptr end_ptr s)"

text \<open>
  The result of the wait: Some of the value of \<open>ret\<close>, or None when the thread goes on sleeping.
  \<open>signal\<close> is a pending signal, which ends a blocking wait with -ERESTARTSYS.
\<close>

definition read_wait ::
    "'e kenv_scheme \<Rightarrow> task \<Rightarrow> nat \<Rightarrow> nat \<Rightarrow> bool \<Rightarrow> bool \<Rightarrow> bool \<Rightarrow> driver \<Rightarrow> (int option \<times> driver) option" where
  "read_wait env task p th non_block wait_for_proc_work signal s = do {
     pr \<leftarrow> proc_at s p;
     let s = (if wait_for_proc_work then binder_set_nice env task (default_priority pr) s else s);
     work \<leftarrow> (if wait_for_proc_work then binder_has_proc_work p th s else binder_has_thread_work th s);
     Some (if work then Some 0
           else if non_block then Some (- EAGAIN)
           else if signal then Some (- 512)
           else None, s)}"

section \<open>Delivering work\<close>

text \<open>How the body of the loop ends: it goes on, it is \<open>done\<close>, or it returns -EFAULT.\<close>

datatype work_outcome = Work_next nat | Work_done nat | Work_fault

definition read_complete_work ::
    "'e kenv_scheme \<Rightarrow> nat \<Rightarrow> nat \<Rightarrow> driver \<Rightarrow> work_outcome \<times> driver" where
  "read_complete_work env w ptr s =
     (case put_user env ptr BR_TRANSACTION_COMPLETE s of
        None \<Rightarrow> (Work_fault, s)
      | Some s \<Rightarrow> (Work_next (ptr + 4),
                   binder_stats_deleted Stat_transaction_complete (list_del_init (Complete_work w) s)))"

text \<open>The command a node's process is told, and the node after it; no command is BR_NOOP.\<close>

definition node_command :: "binder_node \<Rightarrow> u32 \<times> binder_node" where
  "node_command node =
     (let strong = (internal_strong_refs node \<noteq> 0 \<or> local_strong_refs node \<noteq> 0);
          weak = (node_refs node \<noteq> [] \<or> local_weak_refs node \<noteq> 0 \<or> strong)
      in if weak \<and> \<not> has_weak_ref node
         then (BR_INCREFS, node\<lparr>has_weak_ref := True, pending_weak_ref := True,
                                local_weak_refs := local_weak_refs node + 1\<rparr>)
         else if strong \<and> \<not> has_strong_ref node
         then (BR_ACQUIRE, node\<lparr>has_strong_ref := True, pending_strong_ref := True,
                                local_strong_refs := local_strong_refs node + 1\<rparr>)
         else if \<not> strong \<and> has_strong_ref node then (BR_RELEASE, node\<lparr>has_strong_ref := False\<rparr>)
         else if \<not> weak \<and> has_weak_ref node then (BR_DECREFS, node\<lparr>has_weak_ref := False\<rparr>)
         else (BR_NOOP, node))"

definition read_node_work ::
    "'e kenv_scheme \<Rightarrow> nat \<Rightarrow> nat \<Rightarrow> nat \<Rightarrow> driver \<Rightarrow> (work_outcome \<times> driver) option" where
  "read_node_work env p n ptr s = do {
     node \<leftarrow> node_at s n;
     let (cmd, node') = node_command node;
     let s = upd_node n (\<lambda>_. node') s;
     if cmd \<noteq> BR_NOOP
     then Some (case copy_to_user env ptr [cmd, node_ptr node, node_cookie node] s of
                  None \<Rightarrow> (Work_fault, s)
                | Some s \<Rightarrow> (Work_next (ptr + 12), s))
     else do {
       let s = list_del_init (Node_work n) s;
       _ \<leftarrow> proc_at s p;
       let strong = (internal_strong_refs node \<noteq> 0 \<or> local_strong_refs node \<noteq> 0);
       let weak = (node_refs node \<noteq> [] \<or> local_weak_refs node \<noteq> 0 \<or> strong);
       Some (Work_next ptr,
         if \<not> weak \<and> \<not> strong
         then binder_stats_deleted Stat_node
                ((upd_proc p (\<lambda>pr. pr\<lparr>nodes_root := rb_erase env n (nodes_root pr)\<rparr>) s)
                   \<lparr>node_at := (node_at s)(n := None)\<rparr>)
         else s)}}"

definition read_death_work ::
    "'e kenv_scheme \<Rightarrow> nat \<Rightarrow> nat \<Rightarrow> nat \<Rightarrow> driver \<Rightarrow> (work_outcome \<times> driver) option" where
  "read_death_work env p d ptr s = do {
     x \<leftarrow> death_at s d;
     let cmd = (if death_type x = Clear_death_notification then BR_CLEAR_DEATH_NOTIFICATION_DONE
                else BR_DEAD_BINDER);
     case copy_to_user env ptr [cmd, death_cookie x] s of
       None \<Rightarrow> Some (Work_fault, s)
     | Some s \<Rightarrow> do {
         let s = list_del_init (Death_work d) s;
         if death_type x = Clear_death_notification
         then Some (Work_next (ptr + 8), binder_stats_deleted Stat_death (s\<lparr>death_at := (death_at s)(d := None)\<rparr>))
         else do {
           s \<leftarrow> list_add (Death_work d) (Delivered_death p) s;
           Some (Work_done (ptr + 8), s)}}}"

text \<open>The nice value set for a transaction to a node.\<close>

definition txn_priority ::
    "'e kenv_scheme \<Rightarrow> task \<Rightarrow> binder_transaction \<Rightarrow> binder_node \<Rightarrow> driver \<Rightarrow> driver" where
  "txn_priority env task tx node s =
     (if priority tx < int (min_priority node) \<and> txn_flags tx AND TF_ONE_WAY = 0
      then binder_set_nice env task (priority tx) s
      else if txn_flags tx AND TF_ONE_WAY = 0 \<or> nice s (cur_task task) > int (min_priority node)
      then binder_set_nice env task (int (min_priority node)) s
      else s)"

text \<open>The command and the \<open>struct binder_transaction_data\<close>, word by word.\<close>

definition txn_message ::
    "'e kenv_scheme \<Rightarrow> nat \<Rightarrow> binder_transaction \<Rightarrow> nat \<times> nat \<Rightarrow> driver \<Rightarrow> (u32 \<times> u32 list) option" where
  "txn_message env p tx pb s = do {
     pr \<leftarrow> proc_at s p;
     bpr \<leftarrow> proc_at s (fst pb);
     let b = bufs bpr (snd pb);
     (cmd, target, cookie) \<leftarrow> (case buf_target_node b of
         Some n \<Rightarrow> map_option (\<lambda>node. (BR_TRANSACTION, node_ptr node, node_cookie node)) (node_at s n)
       | None \<Rightarrow> Some (BR_REPLY, 0, 0));
     pid \<leftarrow> (case txn_from tx of
         None \<Rightarrow> Some 0
       | Some th \<Rightarrow> do {
           x \<leftarrow> thread_at s th;
           fpr \<leftarrow> proc_at s (thread_proc x);
           Some (tgid_nr env (tsk fpr))});
     let data = of_nat (add32 (buffer_data (snd pb)) (user_buffer_offset pr));
     Some (cmd, [target, cookie, txn_code tx, txn_flags tx, pid, sender_euid tx,
                 data_size b, offsets_size b, data, data + align_ptr (data_size b)])}"

definition read_transaction_work ::
    "'e kenv_scheme \<Rightarrow> task \<Rightarrow> nat \<Rightarrow> nat \<Rightarrow> nat \<Rightarrow> nat \<Rightarrow> driver \<Rightarrow> (work_outcome \<times> driver) option" where
  "read_transaction_work env task p th t ptr s = do {
     tx \<leftarrow> txn_at s t;
     pb \<leftarrow> txn_buffer tx;
     bpr \<leftarrow> proc_at s (fst pb);
     s \<leftarrow> (case buf_target_node (bufs bpr (snd pb)) of
             None \<Rightarrow> Some s
           | Some n \<Rightarrow> do {
               node \<leftarrow> node_at s n;
               Some (txn_priority env task tx node
                      (upd_txn t (\<lambda>x. x\<lparr>saved_priority := nice s (cur_task task)\<rparr>) s))});
     (cmd, msg) \<leftarrow> txn_message env p tx pb s;
     case copy_to_user env ptr (cmd # msg) s of
       None \<Rightarrow> Some (Work_fault, s)
     | Some s \<Rightarrow> do {
         let s = list_del_init (Transaction_work t) s;
         s \<leftarrow> upd_buffer pb (\<lambda>b. b\<lparr>allow_user_free := True\<rparr>) s;
         if cmd = BR_TRANSACTION \<and> txn_flags tx AND TF_ONE_WAY = 0
         then do {
           x \<leftarrow> thread_at s th;
           let s = upd_txn t (\<lambda>y. y\<lparr>to_parent := transaction_stack x, to_thread := Some th\<rparr>) s;
           Some (Work_done (ptr + 44), upd_thread th (\<lambda>x. x\<lparr>transaction_stack := Some t\<rparr>) s)}
         else do {
           s \<leftarrow> upd_buffer pb (\<lambda>b. b\<lparr>buf_transaction := None\<rparr>) s;
           Some (Work_done (ptr + 44), kfree_transaction t s)}}}"

definition read_work ::
    "'e kenv_scheme \<Rightarrow> task \<Rightarrow> nat \<Rightarrow> nat \<Rightarrow> work \<Rightarrow> nat \<Rightarrow> driver \<Rightarrow> (work_outcome \<times> driver) option" where
  "read_work env task p th w ptr s =
     (case w of
        Transaction_work t \<Rightarrow> read_transaction_work env task p th t ptr s
      | Complete_work c \<Rightarrow> Some (read_complete_work env c ptr s)
      | Node_work n \<Rightarrow> read_node_work env p n ptr s
      | Death_work d \<Rightarrow> read_death_work env p d ptr s)"

text \<open>The work that is next for the thread.\<close>

definition next_work :: "nat \<Rightarrow> nat \<Rightarrow> bool \<Rightarrow> driver \<Rightarrow> work option" where
  "next_work p th wait_for_proc_work s =
     (case lists s (Thread_todo th) of
        w # _ \<Rightarrow> Some w
      | [] \<Rightarrow> (case lists s (Proc_todo p) of
                w # _ \<Rightarrow> if wait_for_proc_work then Some w else None
              | [] \<Rightarrow> None))"

text \<open>
  \<open>sizeof(tr) + 4\<close> is unsigned, so \<open>end - ptr\<close> is compared as an unsigned number.
  None also when the loop never ends.
\<close>

partial_function (option) read_loop ::
    "'e kenv_scheme \<Rightarrow> task \<Rightarrow> nat \<Rightarrow> nat \<Rightarrow> bool \<Rightarrow> u32 \<Rightarrow> nat \<Rightarrow> nat \<Rightarrow> driver \<Rightarrow> (read_phase \<times> driver) option" where
  "read_loop env task p th wfpw buffer ptr end_ptr s =
     (case next_work p th wfpw s of
        None \<Rightarrow> Option.bind (thread_at s th) (\<lambda>x.
          if sub32 ptr (unat buffer) = 4 \<and> looper x AND LOOPER_NEED_RETURN = 0
          then read_retry env p th buffer ptr end_ptr s
          else read_done env p th buffer ptr s)
      | Some w \<Rightarrow>
          if sub32 end_ptr ptr < 44 then read_done env p th buffer ptr s
          else Option.bind (read_work env task p th w ptr s) (\<lambda>r.
            (case fst r of
               Work_fault \<Rightarrow> Some (Read_error (- EFAULT), snd r)
             | Work_done ptr' \<Rightarrow> read_done env p th buffer ptr' (snd r)
             | Work_next ptr' \<Rightarrow> read_loop env task p th wfpw buffer ptr' end_ptr (snd r))))"

definition read_resume ::
    "'e kenv_scheme \<Rightarrow> task \<Rightarrow> nat \<Rightarrow> nat \<Rightarrow> bool \<Rightarrow> int \<Rightarrow> u32 \<Rightarrow> nat \<Rightarrow> nat \<Rightarrow> driver \<Rightarrow>
     (read_phase \<times> driver) option" where
  "read_resume env task p th wait_for_proc_work ret buffer ptr end_ptr s = do {
     _ \<leftarrow> proc_at s p;
     _ \<leftarrow> thread_at s th;
     let s = (if wait_for_proc_work
              then upd_proc p (\<lambda>pr. pr\<lparr>ready_threads := ready_threads pr - 1\<rparr>) s else s);
     let s = upd_thread th (\<lambda>x. x\<lparr>looper := looper x AND NOT LOOPER_WAITING\<rparr>) s;
     if ret \<noteq> 0 then Some (Read_error ret, s)
     else read_loop env task p th wait_for_proc_work buffer ptr end_ptr s}"

section \<open>Threads\<close>

text \<open>The loop of binder_release_work: None also when it never ends.\<close>

partial_function (option) binder_release_work :: "list_head \<Rightarrow> driver \<Rightarrow> driver option" where
  "binder_release_work h s =
     (case lists s h of
        [] \<Rightarrow> Some s
      | w # _ \<Rightarrow>
          let s1 = list_del_init w s in
          (case w of
             Transaction_work t \<Rightarrow>
               Option.bind (txn_at s1 t) (\<lambda>tx.
               Option.bind (txn_buffer tx) (\<lambda>pb.
               Option.bind (proc_at s1 (fst pb)) (\<lambda>pr.
               Option.bind (if buf_target_node (bufs pr (snd pb)) \<noteq> None \<and> txn_flags tx AND TF_ONE_WAY = 0
                            then binder_send_failed_reply t BR_DEAD_REPLY s1 else Some s1) (\<lambda>s2.
               binder_release_work h s2))))
           | Complete_work c \<Rightarrow> binder_release_work h (binder_stats_deleted Stat_transaction_complete s1)
           | Node_work n \<Rightarrow> binder_release_work h s1
           | Death_work d \<Rightarrow> binder_release_work h s1))"

definition thread_key :: "driver \<Rightarrow> nat \<Rightarrow> nat" where
  "thread_key s a = (case thread_at s a of Some x \<Rightarrow> thread_pid x | None \<Rightarrow> 0)"

definition binder_get_thread ::
    "'e kenv_scheme \<Rightarrow> task \<Rightarrow> nat \<Rightarrow> driver \<Rightarrow> (nat option \<times> driver) option" where
  "binder_get_thread env task p s = do {
     pr \<leftarrow> proc_at s p;
     case rb_search (thread_key s) (cur_pid task) (threads_root pr) of
       Some th \<Rightarrow> Some (Some th, s)
     | None \<Rightarrow>
         case kzalloc env s of
           (None, s) \<Rightarrow> Some (None, s)
         | (Some th, s) \<Rightarrow> do {
             let s = binder_stats_created Stat_thread s;
             t \<leftarrow> rb_link (thread_key s) (cur_pid task) th (threads_root pr);
             let s = upd_proc p (\<lambda>pr. pr\<lparr>threads_root := rb_insert_color env th t\<rparr>) s;
             Some (Some th, s\<lparr>thread_at := (thread_at s)(th := Some
               \<lparr>thread_proc = p, thread_pid = cur_pid task, looper = LOOPER_NEED_RETURN,
                transaction_stack = None, return_error = BR_OK, return_error2 = BR_OK\<rparr>),
               lists := (lists s)(Thread_todo th := [])\<rparr>)}}"

text \<open>The walk down the stack of a thread that is freed; None also when it never ends.\<close>

partial_function (option) detach_stack :: "nat \<Rightarrow> nat option \<Rightarrow> nat \<Rightarrow> driver \<Rightarrow> (nat \<times> driver) option" where
  "detach_stack th stack count s =
     (if stack = None then Some (count, s)
      else let t = the stack in
        Option.bind (txn_at s t) (\<lambda>tx.
          if to_thread tx = Some th
          then Option.bind (case txn_buffer tx of
                              None \<Rightarrow> Some s
                            | Some pb \<Rightarrow> upd_buffer pb (\<lambda>b. b\<lparr>buf_transaction := None\<rparr>) s) (\<lambda>s1.
                 detach_stack th (to_parent tx) (Suc count)
                   (upd_txn t (\<lambda>x. x\<lparr>to_proc := None, to_thread := None, txn_buffer := None\<rparr>) s1))
          else if txn_from tx = Some th
          then detach_stack th (from_parent tx) (Suc count) (upd_txn t (\<lambda>x. x\<lparr>txn_from := None\<rparr>) s)
          else None))"

definition binder_free_thread ::
    "'e kenv_scheme \<Rightarrow> nat \<Rightarrow> nat \<Rightarrow> driver \<Rightarrow> (nat \<times> driver) option" where
  "binder_free_thread env p th s = do {
     x \<leftarrow> thread_at s th;
     _ \<leftarrow> proc_at s p;
     let s = upd_proc p (\<lambda>pr. pr\<lparr>threads_root := rb_erase env th (threads_root pr)\<rparr>) s;
     send_reply \<leftarrow> (case transaction_stack x of
                      None \<Rightarrow> Some None
                    | Some t \<Rightarrow> map_option (\<lambda>tx. if to_thread tx = Some th then Some t else None) (txn_at s t));
     (active_transactions, s) \<leftarrow> detach_stack th (transaction_stack x) 0 s;
     s \<leftarrow> (case send_reply of
             None \<Rightarrow> Some s
           | Some t \<Rightarrow> binder_send_failed_reply t BR_DEAD_REPLY s);
     s \<leftarrow> binder_release_work (Thread_todo th) s;
     Some (active_transactions,
           binder_stats_deleted Stat_thread (s\<lparr>thread_at := (thread_at s)(th := None)\<rparr>))}"

text \<open>
  \<open>poll_check\<close> is the test binder_poll makes before and after \<open>poll_wait\<close>; \<open>s2\<close> is the state at
  the second test.  POLLIN is 1.
\<close>

definition poll_check :: "nat \<Rightarrow> nat \<Rightarrow> bool \<Rightarrow> driver \<Rightarrow> bool option" where
  "poll_check p th wait_for_proc_work s =
     (if wait_for_proc_work then binder_has_proc_work p th s else binder_has_thread_work th s)"

definition binder_poll ::
    "'e kenv_scheme \<Rightarrow> task \<Rightarrow> nat \<Rightarrow> (driver \<Rightarrow> driver) \<Rightarrow> driver \<Rightarrow> (nat \<times> driver) option" where
  "binder_poll env task p others s = do {
     (thread, s) \<leftarrow> binder_get_thread env task p s;
     th \<leftarrow> thread;
     x \<leftarrow> thread_at s th;
     let wait_for_proc_work = (transaction_stack x = None \<and> lists s (Thread_todo th) = [] \<and> return_error x = BR_OK);
     ready \<leftarrow> poll_check p th wait_for_proc_work s;
     if ready then Some (1, s)
     else do {
       let s = others s;
       ready \<leftarrow> poll_check p th wait_for_proc_work s;
       Some (if ready then 1 else 0, s)}}"

end
