(* ===== verification/BinderDevice.thy ===== *)
theory BinderDevice
  imports BinderRead
begin

text \<open>
  The device file (driver/binder/binder.c, binder_ioctl to binder_init): open, ioctl, mmap,
  flush and release, and the work that the driver puts off to its work queue.

  \<open>filp->private_data\<close> is the process an operation is called on.  An ioctl that reads is
  cut at its waits like binder_thread_read: \<open>Io_wait\<close> and \<open>Io_ready\<close> hold its local
  variables while the thread sleeps and after its wait has ended.
\<close>

section \<open>ioctl\<close>

definition BINDER_WRITE_READ :: u32 where "BINDER_WRITE_READ = IOC 3 98 1 24"
definition BINDER_SET_MAX_THREADS :: u32 where "BINDER_SET_MAX_THREADS = IOC 1 98 5 4"
definition BINDER_SET_CONTEXT_MGR :: u32 where "BINDER_SET_CONTEXT_MGR = IOC 1 98 7 4"
definition BINDER_THREAD_EXIT :: u32 where "BINDER_THREAD_EXIT = IOC 1 98 8 4"
definition BINDER_VERSION :: u32 where "BINDER_VERSION = IOC 3 98 9 4"

definition BINDER_CURRENT_PROTOCOL_VERSION :: u32 where "BINDER_CURRENT_PROTOCOL_VERSION = 7"

definition IOC_SIZE :: "u32 \<Rightarrow> u32" where
  "IOC_SIZE cmd = drop_bit 16 cmd AND 16383"

lemmas ioctl_codes =
  BINDER_WRITE_READ_def BINDER_SET_MAX_THREADS_def BINDER_SET_CONTEXT_MGR_def
  BINDER_THREAD_EXIT_def BINDER_VERSION_def IOC_def

record binder_write_read =
  write_size :: u32
  write_consumed :: u32
  write_buffer :: u32
  read_size :: u32
  read_consumed :: u32
  read_buffer :: u32

definition bwr_words :: "binder_write_read \<Rightarrow> u32 list" where
  "bwr_words b = [write_size b, write_consumed b, write_buffer b, read_size b, read_consumed b, read_buffer b]"

definition bwr_of_words :: "u32 list \<Rightarrow> binder_write_read" where
  "bwr_of_words ws = \<lparr>write_size = ws ! 0, write_consumed = ws ! 1, write_buffer = ws ! 2,
     read_size = ws ! 3, read_consumed = ws ! 4, read_buffer = ws ! 5\<rparr>"

datatype ioctl_phase =
  Io_done int
| Io_wait nat u32 binder_write_read nat bool
| Io_ready nat u32 binder_write_read nat bool int

text \<open>The label \<open>err\<close>, reached by every path.\<close>

definition ioctl_return :: "nat option \<Rightarrow> int \<Rightarrow> driver \<Rightarrow> ioctl_phase \<times> driver" where
  "ioctl_return thread ret s =
     (Io_done ret,
      case thread of
        None \<Rightarrow> s
      | Some th \<Rightarrow> upd_thread th (\<lambda>x. x\<lparr>looper := looper x AND NOT LOOPER_NEED_RETURN\<rparr>) s)"

text \<open>\<open>bwr\<close> is copied back on success and on failure.\<close>

definition ioctl_copy_back ::
    "'e kenv_scheme \<Rightarrow> nat \<Rightarrow> u32 \<Rightarrow> binder_write_read \<Rightarrow> int \<Rightarrow> driver \<Rightarrow> ioctl_phase \<times> driver" where
  "ioctl_copy_back env th ubuf bwr ret s =
     (case copy_to_user env (unat ubuf) (bwr_words bwr) s of
        None \<Rightarrow> ioctl_return (Some th) (- EFAULT) s
      | Some s \<Rightarrow> ioctl_return (Some th) (if ret < 0 then ret else 0) s)"

text \<open>What follows a return of binder_thread_read, or its wait.\<close>

definition ioctl_after_read ::
    "'e kenv_scheme \<Rightarrow> nat \<Rightarrow> nat \<Rightarrow> u32 \<Rightarrow> binder_write_read \<Rightarrow> read_phase \<times> driver \<Rightarrow> ioctl_phase \<times> driver" where
  "ioctl_after_read env p th ubuf bwr r =
     (let wake = (\<lambda>s. if lists s (Proc_todo p) \<noteq> [] then wake_up (Proc_wait p) s else s) in
      case r of
        (Read_wait ptr wfpw, s) \<Rightarrow> (Io_wait th ubuf bwr ptr wfpw, s)
      | (Read_error ret, s) \<Rightarrow> ioctl_copy_back env th ubuf bwr ret (wake s)
      | (Read_done ret ptr, s) \<Rightarrow>
          ioctl_copy_back env th ubuf (bwr\<lparr>read_consumed := of_nat ptr - read_buffer bwr\<rparr>) ret (wake s))"

definition ioctl_write_read ::
    "'e kenv_scheme \<Rightarrow> task \<Rightarrow> nat \<Rightarrow> nat \<Rightarrow> u32 \<Rightarrow> driver \<Rightarrow> (ioctl_phase \<times> driver) option" where
  "ioctl_write_read env task p th ubuf s =
     (case copy_from_user env s (unat ubuf) 6 of
        None \<Rightarrow> Some (ioctl_return (Some th) (- EFAULT) s)
      | Some ws \<Rightarrow> do {
          let bwr = bwr_of_words ws;
          (ret, bwr, s) \<leftarrow> (if sint (write_size bwr) > 0
            then do {
              (ret, consumed, s) \<leftarrow> binder_thread_write env task p th (write_buffer bwr) (write_size bwr)
                                      (write_consumed bwr) s;
              Some (ret, bwr\<lparr>write_consumed := consumed\<rparr>, s)}
            else Some (0, bwr, s));
          if ret < 0 then Some (ioctl_copy_back env th ubuf (bwr\<lparr>read_consumed := 0\<rparr>) ret s)
          else if sint (read_size bwr) > 0
          then map_option (ioctl_after_read env p th ubuf bwr)
                 (read_start env p th (read_buffer bwr) (read_size bwr) (read_consumed bwr) s)
          else Some (ioctl_copy_back env th ubuf bwr 0 s)})"

text \<open>The kernel pads a copy that faults with zeros.\<close>

definition ioctl_set_max_threads ::
    "'e kenv_scheme \<Rightarrow> nat \<Rightarrow> nat \<Rightarrow> u32 \<Rightarrow> driver \<Rightarrow> ioctl_phase \<times> driver" where
  "ioctl_set_max_threads env p th ubuf s =
     (case get_user env s (unat ubuf) of
        None \<Rightarrow> ioctl_return (Some th) (- EINVAL) (upd_proc p (\<lambda>pr. pr\<lparr>max_threads := 0\<rparr>) s)
      | Some n \<Rightarrow> ioctl_return (Some th) 0 (upd_proc p (\<lambda>pr. pr\<lparr>max_threads := sint n\<rparr>) s))"

definition ioctl_set_context_mgr ::
    "'e kenv_scheme \<Rightarrow> task \<Rightarrow> nat \<Rightarrow> nat \<Rightarrow> driver \<Rightarrow> (ioctl_phase \<times> driver) option" where
  "ioctl_set_context_mgr env task p th s =
     (if context_mgr_node s \<noteq> None then Some (ioctl_return (Some th) (- EBUSY) s)
      else if context_mgr_uid s \<noteq> None \<and> context_mgr_uid s \<noteq> Some (cur_euid task)
      then Some (ioctl_return (Some th) (- EPERM) s)
      else do {
        let s = s\<lparr>context_mgr_uid := Some (cur_euid task)\<rparr>;
        (node, s) \<leftarrow> binder_new_node env p 0 0 s;
        let s = s\<lparr>context_mgr_node := node\<rparr>;
        case node of
          None \<Rightarrow> Some (ioctl_return (Some th) (- ENOMEM) s)
        | Some n \<Rightarrow> Some (ioctl_return (Some th) 0
            (upd_node n (\<lambda>x. x\<lparr>local_weak_refs := local_weak_refs x + 1, local_strong_refs := local_strong_refs x + 1,
                               has_strong_ref := True, has_weak_ref := True\<rparr>) s))})"

definition binder_ioctl ::
    "'e kenv_scheme \<Rightarrow> task \<Rightarrow> nat \<Rightarrow> u32 \<Rightarrow> u32 \<Rightarrow> driver \<Rightarrow> (ioctl_phase \<times> driver) option" where
  "binder_ioctl env task p cmd arg s = do {
     (thread, s) \<leftarrow> binder_get_thread env task p s;
     case thread of
       None \<Rightarrow> Some (ioctl_return None (- ENOMEM) s)
     | Some th \<Rightarrow>
         if cmd = BINDER_WRITE_READ
         then (if IOC_SIZE cmd \<noteq> 24 then Some (ioctl_return (Some th) (- EINVAL) s)
               else ioctl_write_read env task p th arg s)
         else if cmd = BINDER_SET_MAX_THREADS then Some (ioctl_set_max_threads env p th arg s)
         else if cmd = BINDER_SET_CONTEXT_MGR then ioctl_set_context_mgr env task p th s
         else if cmd = BINDER_THREAD_EXIT
         then map_option (\<lambda>(_, s). ioctl_return None 0 s) (binder_free_thread env p th s)
         else if cmd = BINDER_VERSION
         then (if IOC_SIZE cmd \<noteq> 4 then Some (ioctl_return (Some th) (- EINVAL) s)
               else case put_user env (unat arg) BINDER_CURRENT_PROTOCOL_VERSION s of
                 None \<Rightarrow> Some (ioctl_return (Some th) (- EINVAL) s)
               | Some s \<Rightarrow> Some (ioctl_return (Some th) 0 s))
         else Some (ioctl_return (Some th) (- EINVAL) s)}"

text \<open>A thread in an ioctl checks its condition, and goes on once its wait has ended.\<close>

definition ioctl_wait ::
    "'e kenv_scheme \<Rightarrow> task \<Rightarrow> nat \<Rightarrow> bool \<Rightarrow> bool \<Rightarrow> ioctl_phase \<Rightarrow> driver \<Rightarrow> (ioctl_phase \<times> driver) option" where
  "ioctl_wait env task p non_block signal ph s =
     (case ph of
        Io_wait th ubuf bwr ptr wfpw \<Rightarrow> do {
          (ret, s) \<leftarrow> read_wait env task p th non_block wfpw signal s;
          Some (case ret of None \<Rightarrow> ph | Some r \<Rightarrow> Io_ready th ubuf bwr ptr wfpw r, s)}
      | _ \<Rightarrow> Some (ph, s))"

definition ioctl_resume ::
    "'e kenv_scheme \<Rightarrow> task \<Rightarrow> nat \<Rightarrow> ioctl_phase \<Rightarrow> driver \<Rightarrow> (ioctl_phase \<times> driver) option" where
  "ioctl_resume env task p ph s =
     (case ph of
        Io_ready th ubuf bwr ptr wfpw ret \<Rightarrow>
          map_option (ioctl_after_read env p th ubuf bwr)
            (read_resume env task p th wfpw ret (read_buffer bwr) ptr (unat (read_buffer bwr + read_size bwr)) s)
      | _ \<Rightarrow> Some (ph, s))"

section \<open>Deferred work\<close>

abbreviation DEFERRED_PUT_FILES :: u32 where "DEFERRED_PUT_FILES \<equiv> 1"
abbreviation DEFERRED_FLUSH :: u32 where "DEFERRED_FLUSH \<equiv> 2"
abbreviation DEFERRED_RELEASE :: u32 where "DEFERRED_RELEASE \<equiv> 4"

definition binder_defer_work :: "nat \<Rightarrow> u32 \<Rightarrow> driver \<Rightarrow> driver option" where
  "binder_defer_work p defer s = do {
     _ \<leftarrow> proc_at s p;
     let s = upd_proc p (\<lambda>pr. pr\<lparr>deferred_work := deferred_work pr OR defer\<rparr>) s;
     Some (if p \<in> set (binder_deferred_list s) then s
           else s\<lparr>binder_deferred_list := p # binder_deferred_list s\<rparr>)}"

fun flush_threads :: "nat list \<Rightarrow> driver \<Rightarrow> driver option" where
  "flush_threads [] s = Some s"
| "flush_threads (th # ths) s = do {
     _ \<leftarrow> thread_at s th;
     let s = upd_thread th (\<lambda>x. x\<lparr>looper := looper x OR LOOPER_NEED_RETURN\<rparr>) s;
     x \<leftarrow> thread_at s th;
     flush_threads ths (if looper x AND LOOPER_WAITING \<noteq> 0 then wake_up (Thread_wait th) s else s)}"

definition binder_deferred_flush :: "nat \<Rightarrow> driver \<Rightarrow> driver option" where
  "binder_deferred_flush p s = do {
     pr \<leftarrow> proc_at s p;
     s \<leftarrow> flush_threads (inorder (threads_root pr)) s;
     Some (wake_up (Proc_wait p) s)}"

text \<open>The loops of binder_deferred_release.  None also when one of them never ends.\<close>

definition rb_first :: "nat tree \<Rightarrow> nat option" where
  "rb_first t = (case inorder t of [] \<Rightarrow> None | a # _ \<Rightarrow> Some a)"

partial_function (option) release_threads :: "'e kenv_scheme \<Rightarrow> nat \<Rightarrow> driver \<Rightarrow> driver option" where
  "release_threads env p s =
     Option.bind (proc_at s p) (\<lambda>pr.
       if rb_first (threads_root pr) = None then Some s
       else Option.bind (binder_free_thread env p (the (rb_first (threads_root pr))) s) (\<lambda>r.
         release_threads env p (snd r)))"

fun notify_deaths :: "nat list \<Rightarrow> driver \<Rightarrow> driver option" where
  "notify_deaths [] s = Some s"
| "notify_deaths (r # rs) s = do {
     ref \<leftarrow> ref_at s r;
     s \<leftarrow> (case death ref of
             None \<Rightarrow> Some s
           | Some d \<Rightarrow> do {
               _ \<leftarrow> death_at s d;
               check_that (linked s (Death_work d) = None);
               s \<leftarrow> list_add_tail (Death_work d) (Proc_todo (ref_proc ref))
                      (upd_death d (\<lambda>x. x\<lparr>death_type := Dead_binder\<rparr>) s);
               Some (wake_up (Proc_wait (ref_proc ref)) s)});
     notify_deaths rs s}"

definition release_one_node :: "'e kenv_scheme \<Rightarrow> nat \<Rightarrow> nat \<Rightarrow> driver \<Rightarrow> driver option" where
  "release_one_node env p n s = do {
     node \<leftarrow> node_at s n;
     let s = upd_proc p (\<lambda>pr. pr\<lparr>nodes_root := rb_erase env n (nodes_root pr)\<rparr>) s;
     let s = list_del_init (Node_work n) s;
     if node_refs node = []
     then Some (binder_stats_deleted Stat_node (s\<lparr>node_at := (node_at s)(n := None)\<rparr>))
     else notify_deaths (node_refs node)
            ((upd_node n (\<lambda>x. x\<lparr>node_proc := None, local_strong_refs := 0, local_weak_refs := 0\<rparr>) s)
               \<lparr>binder_dead_nodes := n # binder_dead_nodes s\<rparr>)}"

partial_function (option) release_nodes :: "'e kenv_scheme \<Rightarrow> nat \<Rightarrow> driver \<Rightarrow> driver option" where
  "release_nodes env p s =
     Option.bind (proc_at s p) (\<lambda>pr.
       if rb_first (nodes_root pr) = None then Some s
       else Option.bind (release_one_node env p (the (rb_first (nodes_root pr))) s) (\<lambda>s'.
         release_nodes env p s'))"

partial_function (option) release_refs :: "'e kenv_scheme \<Rightarrow> nat \<Rightarrow> driver \<Rightarrow> driver option" where
  "release_refs env p s =
     Option.bind (proc_at s p) (\<lambda>pr.
       if rb_first (refs_by_desc pr) = None then Some s
       else Option.bind (binder_delete_ref env (the (rb_first (refs_by_desc pr))) s) (\<lambda>s'.
         release_refs env p s'))"

definition release_one_buffer :: "'e kenv_scheme \<Rightarrow> nat \<Rightarrow> nat \<Rightarrow> driver \<Rightarrow> driver option" where
  "release_one_buffer env p b s = do {
     pr \<leftarrow> proc_at s p;
     s \<leftarrow> (case buf_transaction (bufs pr b) of
             None \<Rightarrow> Some s
           | Some t \<Rightarrow> do {
               _ \<leftarrow> txn_at s t;
               upd_buffer (p, b) (\<lambda>x. x\<lparr>buf_transaction := None\<rparr>)
                 (upd_txn t (\<lambda>x. x\<lparr>txn_buffer := None\<rparr>) s)});
     pr \<leftarrow> proc_at s p;
     pr \<leftarrow> binder_free_buf env pr b;
     Some (s\<lparr>proc_at := (proc_at s)(p := Some pr)\<rparr>)}"

partial_function (option) release_buffers :: "'e kenv_scheme \<Rightarrow> nat \<Rightarrow> driver \<Rightarrow> driver option" where
  "release_buffers env p s =
     Option.bind (proc_at s p) (\<lambda>pr.
       if rb_first (allocated_buffers pr) = None then Some s
       else Option.bind (release_one_buffer env p (the (rb_first (allocated_buffers pr))) s) (\<lambda>s'.
         release_buffers env p s'))"

text \<open>The pages, the page array and the kernel's mapping go with the process.\<close>

definition binder_deferred_release :: "'e kenv_scheme \<Rightarrow> nat \<Rightarrow> driver \<Rightarrow> driver option" where
  "binder_deferred_release env p s = do {
     pr \<leftarrow> proc_at s p;
     check_that (\<not> vma pr);
     check_that (\<not> files pr);
     let s = s\<lparr>binder_procs := remove1 p (binder_procs s)\<rparr>;
     s \<leftarrow> (case context_mgr_node s of
             None \<Rightarrow> Some s
           | Some n \<Rightarrow> do {
               node \<leftarrow> node_at s n;
               Some (if node_proc node = Some p then s\<lparr>context_mgr_node := None\<rparr> else s)});
     s \<leftarrow> release_threads env p s;
     s \<leftarrow> release_nodes env p s;
     s \<leftarrow> release_refs env p s;
     s \<leftarrow> binder_release_work (Proc_todo p) s;
     s \<leftarrow> release_buffers env p s;
     Some (binder_stats_deleted Stat_proc (s\<lparr>proc_at := (proc_at s)(p := None)\<rparr>))}"

text \<open>One round of binder_deferred_func for a process taken from the list.\<close>

definition deferred_round :: "'e kenv_scheme \<Rightarrow> nat \<Rightarrow> driver \<Rightarrow> driver option" where
  "deferred_round env p s = do {
     pr \<leftarrow> proc_at s p;
     let defer = deferred_work pr;
     let s = upd_proc p (\<lambda>pr. pr\<lparr>deferred_work := 0\<rparr>) s;
     let s = (if defer AND DEFERRED_PUT_FILES \<noteq> 0 then upd_proc p (\<lambda>pr. pr\<lparr>files := False\<rparr>) s else s);
     s \<leftarrow> (if defer AND DEFERRED_FLUSH \<noteq> 0 then binder_deferred_flush p s else Some s);
     if defer AND DEFERRED_RELEASE \<noteq> 0 then binder_deferred_release env p s else Some s}"

partial_function (option) binder_deferred_func :: "'e kenv_scheme \<Rightarrow> driver \<Rightarrow> driver option" where
  "binder_deferred_func env s =
     (case binder_deferred_list s of
        [] \<Rightarrow> Some s
      | p # ps \<Rightarrow>
          Option.bind (deferred_round env p (s\<lparr>binder_deferred_list := ps\<rparr>)) (\<lambda>s'. binder_deferred_func env s'))"

section \<open>File operations\<close>

text \<open>The result, the new \<open>private_data\<close>, and the state.  \<open>kzalloc\<close> clears the process.\<close>

definition empty_proc :: binder_proc where
  "empty_proc = \<lparr>vma = False, files = False, area = 0, area_size = 0, user_buffer_offset = 0,
     buffers = [], bufs = (\<lambda>_. blank_buffer), free_buffers = Leaf, allocated_buffers = Leaf,
     free_async_space = 0, pages = [], page_ops = 0,
     threads_root = Leaf, nodes_root = Leaf, refs_by_desc = Leaf, refs_by_node = Leaf,
     proc_pid = 0, tsk = 0, deferred_work = 0,
     proc_files = \<lparr>open_fds = [], close_on_exec = [], fd_file = [], next_fd = 0\<rparr>, max_threads = 0,
     requested_threads = 0, requested_threads_started = 0, ready_threads = 0, default_priority = 0\<rparr>"

definition binder_open :: "'e kenv_scheme \<Rightarrow> task \<Rightarrow> driver \<Rightarrow> int \<times> nat option \<times> driver" where
  "binder_open env task s =
     (case kzalloc env s of
        (None, s) \<Rightarrow> (- ENOMEM, None, s)
      | (Some p, s) \<Rightarrow>
          (0, Some p, (binder_stats_created Stat_proc s)
             \<lparr>proc_at := (proc_at s)(p := Some (empty_proc\<lparr>tsk := cur_task task, proc_pid := cur_tgid task,
                                                 default_priority := nice s (cur_task task)\<rparr>)),
              binder_procs := p # binder_procs s,
              lists := (lists s)(Proc_todo p := [], Delivered_death p := [])\<rparr>))"

text \<open>binder_mmap on a process; \<open>fs\<close> is the file table of the caller, \<open>get_files_struct(current)\<close>.\<close>

definition device_mmap ::
    "'e kenv_scheme \<Rightarrow> nat \<Rightarrow> files_struct \<Rightarrow> mmap_request \<Rightarrow> driver \<Rightarrow> (int \<times> driver) option" where
  "device_mmap env p fs req s = do {
     pr \<leftarrow> proc_at s p;
     (ret, pr) \<leftarrow> binder_mmap env pr req;
     Some (ret, s\<lparr>proc_at := (proc_at s)(p := Some (if ret = 0 then pr\<lparr>proc_files := fs\<rparr> else pr))\<rparr>)}"

definition binder_flush :: "nat \<Rightarrow> driver \<Rightarrow> driver option" where
  "binder_flush p s = binder_defer_work p DEFERRED_FLUSH s"

definition binder_release :: "nat \<Rightarrow> driver \<Rightarrow> driver option" where
  "binder_release p s = binder_defer_work p DEFERRED_RELEASE s"

definition binder_vma_close :: "nat \<Rightarrow> driver \<Rightarrow> driver option" where
  "binder_vma_close p s = do {
     _ \<leftarrow> proc_at s p;
     binder_defer_work p DEFERRED_PUT_FILES (upd_proc p (\<lambda>pr. pr\<lparr>vma := False\<rparr>) s)}"

end
