(* ===== verification/Frames.thy ===== *)
theory Frames
  imports TxnObjects BinderDevice
begin

text \<open>
  What the operations on nodes, references and descriptors leave alone: threads,
  transactions, and of every process all but its object trees and its file table.
\<close>

definition core :: "binder_proc \<Rightarrow> binder_proc" where
  "core pr = pr\<lparr>nodes_root := Leaf, refs_by_desc := Leaf, refs_by_node := Leaf,
     proc_files := \<lparr>open_fds = [], close_on_exec = [], fd_file = [], next_fd = 0\<rparr>\<rparr>"

definition core_frame :: "driver \<Rightarrow> driver \<Rightarrow> bool" where
  "core_frame s s' \<longleftrightarrow> thread_at s' = thread_at s \<and> txn_at s' = txn_at s \<and>
     context_mgr_node s' = context_mgr_node s \<and> binder_procs s' = binder_procs s \<and>
     binder_deferred_list s' = binder_deferred_list s \<and> user_mem s' = user_mem s \<and>
     (\<forall>p. map_option core (proc_at s' p) = map_option core (proc_at s p))"

lemma core_frame_refl [simp]: "core_frame s s"
  by (simp add: core_frame_def)

lemma core_frame_trans: "core_frame s s1 \<Longrightarrow> core_frame s1 s2 \<Longrightarrow> core_frame s s2"
  by (simp add: core_frame_def)

lemma core_simps [simp]:
  "core (pr\<lparr>nodes_root := t1\<rparr>) = core pr" "core (pr\<lparr>refs_by_desc := t2\<rparr>) = core pr"
  "core (pr\<lparr>refs_by_node := t3\<rparr>) = core pr" "core (pr\<lparr>proc_files := fs\<rparr>) = core pr"
  "core (pr\<lparr>refs_by_desc := t2, refs_by_node := t3\<rparr>) = core pr"
  "core (pr\<lparr>refs_by_node := t3, refs_by_desc := t2\<rparr>) = core pr"
  by (simp_all add: core_def)

lemma map_core_simps [simp]:
  "map_option core (map_option (\<lambda>pr. pr\<lparr>nodes_root := f1 pr\<rparr>) x) = map_option core x"
  "map_option core (map_option (\<lambda>pr. pr\<lparr>proc_files := f2 pr\<rparr>) x) = map_option core x"
  "map_option core (map_option (\<lambda>pr. pr\<lparr>refs_by_desc := f3 pr, refs_by_node := f4 pr\<rparr>) x) = map_option core x"
  "map_option core (map_option (\<lambda>pr. pr\<lparr>refs_by_node := f4 pr, refs_by_desc := f3 pr\<rparr>) x) = map_option core x"
  by (cases x; simp)+

lemma list_add_tail_Some:
  "list_add_tail w h s = Some s' \<longleftrightarrow> linked s w = None \<and>
     s' = s\<lparr>lists := (lists s)(h := lists s h @ [w]), linked := (linked s)(w := Some h)\<rparr>"
  by (auto simp: list_add_tail_def)

lemma core_frame_same:
  assumes "thread_at s' = thread_at s" "txn_at s' = txn_at s" "context_mgr_node s' = context_mgr_node s"
    "binder_procs s' = binder_procs s" "binder_deferred_list s' = binder_deferred_list s"
    "user_mem s' = user_mem s" "proc_at s' = proc_at s"
  shows "core_frame s s'"
  using assms by (simp add: core_frame_def)

lemmas frame_splits = if_splits Option.bind_splits option.splits prod.splits

lemma binder_inc_node_frame:
  "binder_inc_node n str i h s = Some (ret, s') \<Longrightarrow> core_frame s s'"
  by (rule core_frame_same; auto simp: binder_inc_node_def list_add_tail_Some Let_def split: frame_splits)

lemma release_node_frame: "release_node env n s = Some (ret, s') \<Longrightarrow> core_frame s s'"
  by (auto simp: release_node_def list_add_tail_Some Let_def core_frame_def split: frame_splits)

text \<open>The updates that leave the fields of a frame alone, on either side.\<close>

lemma core_frame_updates [simp]:
  "core_frame s (upd_node n nf t) = core_frame s t" "core_frame (upd_node n nf s) t = core_frame s t"
  "core_frame s (upd_ref r rf t) = core_frame s t" "core_frame (upd_ref r rf s) t = core_frame s t"
  "core_frame s (upd_death d df t) = core_frame s t" "core_frame (upd_death d df s) t = core_frame s t"
  "core_frame s (binder_stats_created ty t) = core_frame s t" "core_frame (binder_stats_created ty s) t = core_frame s t"
  "core_frame s (binder_stats_deleted ty t) = core_frame s t" "core_frame (binder_stats_deleted ty s) t = core_frame s t"
  "core_frame s (wake_up q t) = core_frame s t" "core_frame (wake_up q s) t = core_frame s t"
  "core_frame s (list_del_init w t) = core_frame s t" "core_frame (list_del_init w s) t = core_frame s t"
  "core_frame s (t\<lparr>ref_at := ra\<rparr>) = core_frame s t" "core_frame s (t\<lparr>death_at := da\<rparr>) = core_frame s t"
  "core_frame s (t\<lparr>node_at := na\<rparr>) = core_frame s t"
  "core_frame s (upd_proc p (\<lambda>pr. pr\<lparr>refs_by_desc := f3 pr, refs_by_node := f4 pr\<rparr>) t) = core_frame s t"
  "core_frame (upd_proc p (\<lambda>pr. pr\<lparr>refs_by_desc := f3 pr, refs_by_node := f4 pr\<rparr>) s) t = core_frame s t"
  by (simp_all add: core_frame_def) metis+

lemma binder_dec_node_frame:
  "binder_dec_node env n str i s = Some (ret, s') \<Longrightarrow> core_frame s s'"
  by (auto simp: binder_dec_node_def Let_def dest!: release_node_frame split: frame_splits)

lemma binder_get_ref_for_node_frame:
  "binder_get_ref_for_node env p n s = Some (ro, s') \<Longrightarrow> core_frame s s'"
  by (auto simp: binder_get_ref_for_node_def kzalloc_def Let_def core_frame_def split: frame_splits)

lemma binder_new_node_frame:
  "binder_new_node env p ptr cookie s = Some (no, s') \<Longrightarrow> core_frame s s'"
  by (auto simp: binder_new_node_def kzalloc_def Let_def core_frame_def split: frame_splits)

lemma binder_inc_ref_frame:
  "binder_inc_ref r str h s = Some (ret, s') \<Longrightarrow> core_frame s s'"
  by (auto simp: binder_inc_ref_def dest!: binder_inc_node_frame split: frame_splits)

lemma binder_delete_ref_frame:
  assumes "binder_delete_ref env r s = Some s'"
  shows "core_frame s s'"
proof -
  obtain ref s1 s2 s3 where r: "ref_at s r = Some ref"
    and s1: "s1 = upd_proc (ref_proc ref) (\<lambda>pr. pr\<lparr>refs_by_desc := rb_erase env r (refs_by_desc pr),
                                             refs_by_node := rb_erase env r (refs_by_node pr)\<rparr>) s"
    and s2: "(if strong ref \<noteq> 0 then map_option snd (binder_dec_node env (ref_node ref) True True s1) else Some s1) = Some s2"
    and s3: "map_option snd (binder_dec_node env (ref_node ref) False True
         (upd_node (ref_node ref) (\<lambda>x. x\<lparr>node_refs := remove1 r (node_refs x)\<rparr>) s2)) = Some s3"
    and s': "s' = binder_stats_deleted Stat_ref (let s = (case death ref of
                None \<Rightarrow> s3
              | Some d \<Rightarrow>
                  binder_stats_deleted Stat_death
                    ((list_del_init (Death_work d) s3)\<lparr>death_at := (death_at s3)(d := None)\<rparr>))
            in s\<lparr>ref_at := (ref_at s)(r := None)\<rparr>)"
    using assms unfolding binder_delete_ref_def Let_def by (auto split: Option.bind_splits option.splits)
  have "core_frame s s1" by (simp add: s1)
  moreover have "core_frame s1 s2" using s2 by (auto dest!: binder_dec_node_frame split: if_splits)
  moreover have "core_frame s2 s3" using s3 by (auto dest!: binder_dec_node_frame)
  moreover have "core_frame s3 s'" by (simp add: s' Let_def split: option.split)
  ultimately show ?thesis by (meson core_frame_trans)
qed

lemma binder_dec_ref_frame:
  "binder_dec_ref env r str s = Some (ret, s') \<Longrightarrow> core_frame s s'"
  unfolding binder_dec_ref_def Let_def
  by (auto dest!: binder_dec_node_frame binder_delete_ref_frame dest: core_frame_trans split: frame_splits)

lemma task_close_fd_frame:
  "task_close_fd env p fd s = Some (ret, s') \<Longrightarrow> core_frame s s'"
  by (auto simp: task_close_fd_def Let_def core_frame_def split: frame_splits)

lemma task_get_unused_fd_frame:
  "task_get_unused_fd_flags env p c s = Some (ret, s') \<Longrightarrow> core_frame s s'"
  by (auto simp: task_get_unused_fd_flags_def core_frame_def split: frame_splits)

lemma task_fd_install_frame:
  "task_fd_install p fd file s = Some s' \<Longrightarrow> core_frame s s'"
  by (auto simp: task_fd_install_def core_frame_def split: frame_splits)

lemmas ref_frames = binder_inc_node_frame binder_dec_node_frame binder_inc_ref_frame binder_dec_ref_frame
  binder_get_ref_for_node_frame binder_new_node_frame task_close_fd_frame task_get_unused_fd_frame task_fd_install_frame

lemma release_object_frame:
  "release_object env p fp failed s = Some s' \<Longrightarrow> core_frame s s'"
  by (auto simp: release_object_def dest!: ref_frames split: frame_splits)

lemma release_objects_frame:
  "release_objects env p b failed is s = Some s' \<Longrightarrow> core_frame s s'"
proof (induction env p b failed "is" s rule: release_objects.induct)
  case (2 env p b failed i "is" s)
  then show ?case
    by (auto dest!: release_object_frame intro: core_frame_trans split: frame_splits)
qed simp

lemma binder_transaction_buffer_release_frame:
  assumes "binder_transaction_buffer_release env p b failed_at s = Some s'"
  shows "core_frame s s'"
  using assms unfolding binder_transaction_buffer_release_def Let_def
  by (auto dest!: ref_frames release_objects_frame intro: core_frame_trans split: frame_splits)

lemma translate_object_frame:
  "translate_object env p th reply tg fp s = Some (res, s') \<Longrightarrow> core_frame s s'"
  unfolding translate_object_def translate_binder_def translate_handle_def translate_fd_def send_reference_def Let_def
  by (auto dest!: ref_frames intro: core_frame_trans split: frame_splits) (meson core_frame_trans)+

end
