(* ===== verification/LooperFrames.thy ===== *)
theory LooperFrames
  imports Frames
begin

text \<open>
  Which operations leave the loopers alone: the \<open>looper\<close> flags of the threads and the thread
  counters and the deferred work of the processes (driver/binder/binder.c, struct binder_thread and struct
  binder_proc).  \<open>Loopers\<close> builds the invariant of the thread pool on it.
\<close>

section \<open>The allocator\<close>

lemma free_page_more: "free_page p a = Some p' \<Longrightarrow> binder_area.more p' = binder_area.more p"
  by (auto simp: free_page_def check_that_def Let_def split: Option.bind_splits if_splits)

lemma put_page_more: "put_page p a = Some p' \<Longrightarrow> binder_area.more p' = binder_area.more p"
  by (auto simp: put_page_def check_that_def Let_def split: Option.bind_splits if_splits)

lemma free_range_more: "free_range p a st = Some p' \<Longrightarrow> binder_area.more p' = binder_area.more p"
proof (induction p a st rule: free_range.induct)
  case (1 p a st)
  show ?case
  proof (cases "a < st")
    case True
    with "1.prems" show ?thesis by (simp add: free_range.simps)
  next
    case False
    with "1.prems" obtain p1 where p1: "free_page p a = Some p1" "\<not> a < PAGE_SIZE"
        "free_range p1 (a - PAGE_SIZE) st = Some p'"
      by (subst (asm) free_range.simps) (auto split: Option.bind_splits if_splits)
    with "1.IH" [OF False p1(1,2,3)] show ?thesis by (simp add: free_page_more)
  qed
qed

lemma unwind_below_more: "unwind_below p a st = Some p' \<Longrightarrow> binder_area.more p' = binder_area.more p"
  by (auto simp: unwind_below_def dest: free_range_more split: if_splits)

lemma allocate_range_more:
  "allocate_range env p a st e = Some (ret, p') \<Longrightarrow> binder_area.more p' = binder_area.more p"
proof (induction env p a st e rule: allocate_range.induct)
  case (1 env p a st e)
  show ?case
  proof (cases "a < e")
    case False
    with "1.prems" show ?thesis by (simp add: allocate_range.simps)
  next
    case True
    with "1.prems" obtain p1 where p1: "put_page p a = Some p1"
      by (subst (asm) allocate_range.simps) (auto split: Option.bind_splits)
    note m = put_page_more [OF p1]
    show ?thesis
    proof (cases "page_outcome_of env (page_ops p)")
      case Page_inserted
      with "1.prems" True p1
      have "allocate_range env (p1\<lparr>page_ops := Suc (page_ops p)\<rparr>) (a + PAGE_SIZE) st e = Some (ret, p')"
        by (subst (asm) allocate_range.simps) simp
      with "1.IH" [OF True p1 refl refl Page_inserted] m show ?thesis by simp
    qed (use "1.prems" True p1 m in \<open>subst (asm) allocate_range.simps,
           auto dest!: unwind_below_more free_page_more split: Option.bind_splits\<close>)+
  qed
qed

lemma binder_update_page_range_more:
  "binder_update_page_range env p al st e v = Some (ret, p') \<Longrightarrow> binder_area.more p' = binder_area.more p"
  by (auto simp: binder_update_page_range_def Let_def dest!: free_range_more allocate_range_more
           split: if_splits Option.bind_splits)

lemma buf_upd_more [simp]: "binder_area.more (buf_upd b f p) = binder_area.more p"
  by (simp add: buf_upd_def)

lemma binder_insert_allocated_buffer_more:
  "binder_insert_allocated_buffer env p b = Some p' \<Longrightarrow> binder_area.more p' = binder_area.more p"
  by (auto simp: binder_insert_allocated_buffer_def split: Option.bind_splits)

lemma binder_insert_free_buffer_more:
  "binder_insert_free_buffer env p b = Some p' \<Longrightarrow> binder_area.more p' = binder_area.more p"
  by (auto simp: binder_insert_free_buffer_def split: Option.bind_splits)

lemma alloc_link_more:
  "alloc_link env b ds os async sz split p = Some p' \<Longrightarrow> binder_area.more p' = binder_area.more p"
  unfolding alloc_link_def alloc_store_def Let_def
  by (auto dest!: binder_insert_allocated_buffer_more binder_insert_free_buffer_more
           split: if_splits Option.bind_splits)

lemma binder_alloc_buf_more:
  "binder_alloc_buf env p ds os async = Some (b, p') \<Longrightarrow> binder_area.more p' = binder_area.more p"
  unfolding binder_alloc_buf_def Let_def
  by (auto dest!: binder_update_page_range_more alloc_link_more
           split: if_splits Option.bind_splits option.splits)

lemma binder_delete_free_buffer_more:
  "binder_delete_free_buffer env p b = Some p' \<Longrightarrow> binder_area.more p' = binder_area.more p"
  unfolding binder_delete_free_buffer_def Let_def
  by (auto dest!: binder_update_page_range_more split: if_splits Option.bind_splits prod.splits option.splits)

lemma binder_free_buf_more:
  assumes "binder_free_buf env p b = Some p'"
  shows "binder_area.more p' = binder_area.more p"
  using assms unfolding binder_free_buf_def Let_def
  by (auto dest!: binder_update_page_range_more binder_delete_free_buffer_more binder_insert_free_buffer_more
           split: if_splits Option.bind_splits prod.splits option.splits)

lemma binder_mmap_more:
  "binder_mmap env p req = Some (ret, p') \<Longrightarrow> binder_area.more p' = binder_area.more p"
  unfolding binder_mmap_def Let_def
  by (auto dest!: binder_update_page_range_more binder_insert_free_buffer_more
           split: if_splits Option.bind_splits prod.splits option.splits)

section \<open>The loopers stay as they are\<close>

type_synonym counts = "int \<times> int \<times> int \<times> int \<times> u32"

definition thread_counts :: "binder_proc \<Rightarrow> counts" where
  "thread_counts pr =
     (requested_threads pr, requested_threads_started pr, ready_threads pr, max_threads pr, deferred_work pr)"

definition loopers ::
    "driver \<Rightarrow> (nat \<Rightarrow> u32 option) \<times> (nat \<Rightarrow> counts option)" where
  "loopers s = (\<lambda>th. map_option looper (thread_at s th), \<lambda>p. map_option thread_counts (proc_at s p))"

lemma thread_counts_core: "thread_counts (core pr) = thread_counts pr"
  by (simp add: thread_counts_def core_def)

lemma core_frame_loopers:
  assumes "core_frame s s'"
  shows "loopers s' = loopers s"
proof -
  have "map_option thread_counts (map_option core x) = map_option thread_counts x" for x
    by (simp add: option.map_comp o_def thread_counts_core)
  with assms show ?thesis by (simp add: core_frame_def loopers_def) metis
qed

lemma thread_counts_more: "binder_area.more x = binder_area.more y \<Longrightarrow> thread_counts x = thread_counts y"
  by (cases x, cases y) (simp add: thread_counts_def)

lemma loopers_updates [simp]:
  "loopers (upd_node n nf s) = loopers s" "loopers (upd_ref r rf s) = loopers s"
  "loopers (upd_death d df s) = loopers s" "loopers (upd_txn x xf s) = loopers s"
  "loopers (binder_stats_created ty s) = loopers s" "loopers (binder_stats_deleted ty s) = loopers s"
  "loopers (wake_up q s) = loopers s" "loopers (list_del_init w s) = loopers s"
  "loopers (kfree_transaction x s) = loopers s" "loopers (log_update e lf s) = loopers s"
  "loopers (binder_set_nice env task v s) = loopers s"
  "loopers (txn_at_update tf s) = loopers s" "loopers (death_at_update df2 s) = loopers s"
  "loopers (node_at_update nf2 s) = loopers s" "loopers (last_id_update jf s) = loopers s"
  "loopers (lists_update lf2 s) = loopers s" "loopers (linked_update lf3 s) = loopers s"
  "loopers (transaction_log_update lf4 s) = loopers s"
  "loopers (transaction_log_failed_update lf5 s) = loopers s"
  "loopers (user_mem_update uf s) = loopers s" "loopers (mem_ops_update mf s) = loopers s"
  "loopers (context_mgr_node_update cf s) = loopers s" "loopers (context_mgr_uid_update cf2 s) = loopers s"
  "loopers (binder_procs_update pf s) = loopers s" "loopers (binder_dead_nodes_update pf2 s) = loopers s"
  "loopers (binder_deferred_list_update pf3 s) = loopers s"
  by (simp_all add: loopers_def kfree_transaction_def log_update_def binder_set_nice_def)

lemma loopers_thread [simp]:
  assumes "\<And>x. looper (f x) = looper x"
  shows "loopers (upd_thread th f s) = loopers s"
proof -
  have "map_option looper (map_option f x) = map_option looper x" for x
    using assms by (simp add: option.map_comp o_def)
  then show ?thesis by (simp add: loopers_def fun_eq_iff)
qed

lemma loopers_proc [simp]:
  assumes "\<And>pr. thread_counts (f pr) = thread_counts pr"
  shows "loopers (upd_proc p f s) = loopers s"
proof -
  have "map_option thread_counts (map_option f x) = map_option thread_counts x" for x
    using assms by (simp add: option.map_comp o_def)
  then show ?thesis by (simp add: loopers_def fun_eq_iff)
qed

lemma loopers_put_proc [simp]:
  assumes "map_option thread_counts (proc_at t p) = Some (thread_counts pr')"
  shows "loopers (s\<lparr>proc_at := (proc_at t)(p \<mapsto> pr')\<rparr>) = (fst (loopers s), snd (loopers t))"
  using assms by (auto simp: loopers_def fun_eq_iff)

lemma log_update_procs [simp]: "proc_at (log_update e f s) = proc_at s" "thread_at (log_update e f s) = thread_at s"
  by (simp_all add: log_update_def)

lemma thread_counts_simps [simp]:
  "thread_counts (buf_upd b bf pr) = thread_counts pr"
  "thread_counts (pr\<lparr>nodes_root := t1\<rparr>) = thread_counts pr"
  "thread_counts (pr\<lparr>threads_root := t2\<rparr>) = thread_counts pr"
  "thread_counts (pr\<lparr>files := b1\<rparr>) = thread_counts pr"
  "thread_counts (pr\<lparr>proc_files := fs\<rparr>) = thread_counts pr"
  "thread_counts (pr\<lparr>vma := b2\<rparr>) = thread_counts pr"
  by (simp_all add: thread_counts_def buf_upd_def)

lemma list_add_tail_loopers: "list_add_tail w h s = Some s' \<Longrightarrow> loopers s' = loopers s"
  by (auto simp: list_add_tail_Some)

lemma list_add_loopers: "list_add w h s = Some s' \<Longrightarrow> loopers s' = loopers s"
  by (auto simp: list_add_def split: if_splits)

lemma kzalloc_loopers: "kzalloc env s = (a, s') \<Longrightarrow> loopers s' = loopers s"
  by (auto simp: kzalloc_def)

lemma upd_buffer_loopers: "upd_buffer pb f s = Some s' \<Longrightarrow> loopers s' = loopers s"
  by (auto simp: upd_buffer_def split: Option.bind_splits)

lemma put_user_loopers: "put_user env a v s = Some s' \<Longrightarrow> loopers s' = loopers s"
  by (auto simp: put_user_def split: if_splits)

lemma copy_to_user_loopers: "copy_to_user env a vs s = Some s' \<Longrightarrow> loopers s' = loopers s"
  by (induction env a vs s rule: copy_to_user.induct)
    (auto dest!: put_user_loopers split: Option.bind_splits)

lemmas buf_counts = binder_alloc_buf_more [THEN thread_counts_more] binder_free_buf_more [THEN thread_counts_more]

lemmas ref_loopers = ref_frames [THEN core_frame_loopers]
  binder_transaction_buffer_release_frame [THEN core_frame_loopers]
  translate_object_frame [THEN core_frame_loopers]
  binder_delete_ref_frame [THEN core_frame_loopers]

lemmas loopers_splits = frame_splits sum.splits

section \<open>Transactions\<close>

lemma binder_pop_transaction_loopers:
  "binder_pop_transaction tt t s = Some s' \<Longrightarrow> loopers s' = loopers s"
  unfolding binder_pop_transaction_def by (auto dest!: upd_buffer_loopers split: loopers_splits)

lemma deliver_error_loopers: "deliver_error th t code s = Some s' \<Longrightarrow> loopers s' = loopers s"
  unfolding deliver_error_def Let_def
  by (auto dest!: binder_pop_transaction_loopers split: loopers_splits)

lemma failed_reply_loop_loopers:
  assumes "failed_reply_loop u code s = Some s'"
  shows "loopers s' = loopers s"
proof (rule failed_reply_loop.raw_induct
    [where P = "\<lambda>u code s s'. loopers s' = loopers s", OF _ assms], goal_cases)
  case (1 loop u code s s')
  from 1(2) show ?case
    by (auto dest!: deliver_error_loopers binder_pop_transaction_loopers 1(1) split: loopers_splits)
qed

lemma binder_send_failed_reply_loopers:
  "binder_send_failed_reply t code s = Some s' \<Longrightarrow> loopers s' = loopers s"
  by (auto simp: binder_send_failed_reply_def dest!: failed_reply_loop_loopers split: loopers_splits)

lemmas reply_loopers = deliver_error_loopers binder_pop_transaction_loopers binder_send_failed_reply_loopers
  upd_buffer_loopers list_add_tail_loopers list_add_loopers kzalloc_loopers

lemma txn_log_start_loopers: "txn_log_start p th tr reply s = Some (e, s') \<Longrightarrow> loopers s' = loopers s"
  by (auto simp: txn_log_start_def Let_def split: loopers_splits)

lemma reply_target_loopers: "reply_target env task th s = Some (r, s') \<Longrightarrow> loopers s' = loopers s"
  by (auto simp: reply_target_def Let_def split: loopers_splits)

lemma call_target_loopers: "call_target p th tr e s = Some (r, s') \<Longrightarrow> loopers s' = loopers s"
  unfolding call_target_def Let_def by (auto split: loopers_splits)

lemma txn_start_loopers:
  "txn_start env task p th tr reply tg e s = Some (r, s') \<Longrightarrow> loopers s' = loopers s"
  unfolding txn_start_def Let_def
  by (auto dest!: reply_loopers ref_loopers buf_counts split: loopers_splits)

lemma txn_copy_loopers: "txn_copy env tr pb s = Some (r, s') \<Longrightarrow> loopers s' = loopers s"
  unfolding txn_copy_def by (auto dest!: upd_buffer_loopers split: loopers_splits)

lemma translate_objects_loopers:
  "translate_objects env p th reply tg b is s = Some (r, s') \<Longrightarrow> loopers s' = loopers s"
  by (induction env p th reply tg b "is" s arbitrary: r s' rule: translate_objects.induct)
    (auto dest!: ref_loopers upd_buffer_loopers simp: Let_def split: loopers_splits)

lemma txn_link_loopers:
  "txn_link th tr reply tg t async target s = Some (r, w, s') \<Longrightarrow> loopers s' = loopers s"
  unfolding txn_link_def Let_def by (auto dest!: reply_loopers split: loopers_splits)

lemma txn_commit_loopers:
  "txn_commit th tr reply tg t tc b s = Some s' \<Longrightarrow> loopers s' = loopers s"
  unfolding txn_commit_def Let_def by (auto dest!: reply_loopers txn_link_loopers split: loopers_splits)

lemma txn_undo_loopers: "txn_undo env u s = Some s' \<Longrightarrow> loopers s' = loopers s"
  unfolding txn_undo_def Let_def
  by (cases u) (auto dest!: reply_loopers ref_loopers buf_counts split: loopers_splits)

lemma txn_fail_loopers: "txn_fail env th e err s = Some s' \<Longrightarrow> loopers s' = loopers s"
  unfolding txn_fail_def Let_def by (auto dest!: reply_loopers txn_undo_loopers split: loopers_splits)

lemma txn_deliver_loopers:
  "txn_deliver env task p th tr reply tg e s = Some (r, s') \<Longrightarrow> loopers s' = loopers s"
  unfolding txn_deliver_def
  by (auto dest!: txn_start_loopers txn_copy_loopers translate_objects_loopers txn_commit_loopers
           split: loopers_splits)

lemma binder_transaction_loopers:
  "binder_transaction env task p th tr reply s = Some s' \<Longrightarrow> loopers s' = loopers s"
  unfolding binder_transaction_def
  by (auto dest!: txn_log_start_loopers reply_target_loopers call_target_loopers txn_deliver_loopers
             txn_fail_loopers split: loopers_splits)

section \<open>Commands\<close>

lemmas txn_loopers = reply_loopers ref_loopers binder_transaction_loopers buf_counts

lemma bc_ref_command_loopers: "bc_ref_command env p cmd tg s = Some s' \<Longrightarrow> loopers s' = loopers s"
  unfolding bc_ref_command_def by (auto dest!: txn_loopers split: loopers_splits)

lemma bc_done_command_loopers: "bc_done_command env p cmd ptr cookie s = Some s' \<Longrightarrow> loopers s' = loopers s"
  unfolding bc_done_command_def by (auto dest!: txn_loopers split: loopers_splits)

lemma next_async_loopers: "next_async th n s = Some s' \<Longrightarrow> loopers s' = loopers s"
  unfolding next_async_def by (auto dest!: txn_loopers split: loopers_splits list.splits)

lemma bc_free_buffer_loopers: "bc_free_buffer env p th d s = Some s' \<Longrightarrow> loopers s' = loopers s"
  unfolding bc_free_buffer_def Let_def
  by (auto dest!: txn_loopers next_async_loopers split: loopers_splits)

lemma queue_death_loopers: "queue_death p th d s = Some s' \<Longrightarrow> loopers s' = loopers s"
  unfolding queue_death_def by (auto dest!: txn_loopers split: loopers_splits)

lemma bc_request_death_loopers: "bc_request_death env p th r cookie s = Some s' \<Longrightarrow> loopers s' = loopers s"
  unfolding bc_request_death_def Let_def
  by (auto dest!: txn_loopers queue_death_loopers split: loopers_splits)

lemma bc_clear_death_loopers: "bc_clear_death p th r cookie s = Some s' \<Longrightarrow> loopers s' = loopers s"
  unfolding bc_clear_death_def Let_def
  by (auto dest!: txn_loopers queue_death_loopers split: loopers_splits)

lemma bc_death_command_loopers: "bc_death_command env p th cmd t c s = Some s' \<Longrightarrow> loopers s' = loopers s"
  unfolding bc_death_command_def
  by (auto dest!: bc_request_death_loopers bc_clear_death_loopers split: loopers_splits)

lemma bc_dead_binder_done_loopers: "bc_dead_binder_done p th c s = Some s' \<Longrightarrow> loopers s' = loopers s"
  unfolding bc_dead_binder_done_def Let_def
  by (auto dest!: queue_death_loopers split: loopers_splits)

lemmas command_loopers = bc_ref_command_loopers bc_done_command_loopers bc_free_buffer_loopers
  bc_death_command_loopers bc_dead_binder_done_loopers binder_transaction_loopers

section \<open>Work\<close>

lemma read_complete_work_loopers: "read_complete_work env w ptr s = (r, s') \<Longrightarrow> loopers s' = loopers s"
  unfolding read_complete_work_def by (auto dest!: put_user_loopers split: loopers_splits)

lemma read_node_work_loopers: "read_node_work env p n ptr s = Some (r, s') \<Longrightarrow> loopers s' = loopers s"
  unfolding read_node_work_def Let_def by (auto dest!: put_user_loopers copy_to_user_loopers split: loopers_splits)

lemma read_death_work_loopers: "read_death_work env p d ptr s = Some (r, s') \<Longrightarrow> loopers s' = loopers s"
  unfolding read_death_work_def Let_def
  by (auto dest!: put_user_loopers copy_to_user_loopers list_add_loopers split: loopers_splits)

lemma txn_priority_loopers [simp]: "loopers (txn_priority env task tx node s) = loopers s"
  by (simp add: txn_priority_def)

lemma read_transaction_work_loopers:
  "read_transaction_work env task p th t ptr s = Some (r, s') \<Longrightarrow> loopers s' = loopers s"
  unfolding read_transaction_work_def Let_def
  by (auto dest!: put_user_loopers copy_to_user_loopers upd_buffer_loopers split: loopers_splits)

lemma read_work_loopers: "read_work env task p th w ptr s = Some (r, s') \<Longrightarrow> loopers s' = loopers s"
  by (cases w) (auto simp: read_work_def dest!: read_complete_work_loopers read_node_work_loopers
                  read_death_work_loopers read_transaction_work_loopers)

lemma binder_release_work_loopers:
  assumes "binder_release_work h s = Some s'"
  shows "loopers s' = loopers s"
proof (rule binder_release_work.raw_induct [where P = "\<lambda>h s s'. loopers s' = loopers s", OF _ assms], goal_cases)
  case (1 loop h s s')
  from 1(2) show ?case
    by (auto simp: Let_def dest!: binder_send_failed_reply_loopers 1(1)
             split: loopers_splits list.splits work.splits)
qed

lemma detach_stack_loopers:
  assumes "detach_stack th st k s = Some (n, s')"
  shows "loopers s' = loopers s"
proof -
  have "loopers (snd (n, s')) = loopers s"
  proof (rule detach_stack.raw_induct
      [where P = "\<lambda>th st k s r. loopers (snd r) = loopers s", OF _ assms], goal_cases)
    case (1 loop th st k s r)
    from 1(2) show ?case
      by (auto simp: Let_def dest!: upd_buffer_loopers 1(1) split: loopers_splits)
  qed
  then show ?thesis by simp
qed

end
