(* ===== verification/Loopers.thy ===== *)
theory Loopers
  imports LooperFrames
begin

text \<open>
  The thread pool of a process (driver/binder/binder.c, struct binder_thread and struct
  binder_proc): the \<open>looper\<close> flags and the counters \<open>requested_threads\<close>,
  \<open>requested_threads_started\<close> and \<open>ready_threads\<close>, over every interleaving of ioctls,
  sleeps, wake-ups, flushes and deferred work.
\<close>

section \<open>The invariant\<close>

text \<open>A thread that is both registered and entered is marked invalid.\<close>

definition flags_ok :: "u32 \<Rightarrow> bool" where
  "flags_ok l \<longleftrightarrow> (l AND LOOPER_REGISTERED \<noteq> 0 \<and> l AND LOOPER_ENTERED \<noteq> 0 \<longrightarrow> l AND LOOPER_INVALID \<noteq> 0)"

text \<open>
  \<open>M\<close> bounds the limits the process sets, \<open>r\<close> is the number of its threads that wait for
  process work, and \<open>op\<close> tells whether its file is open.
\<close>

definition counts_ok :: "int \<Rightarrow> int \<Rightarrow> bool \<Rightarrow> counts \<Rightarrow> bool" where
  "counts_ok M r op c =
     (case c of (requested, started, ready, limit, deferred) \<Rightarrow>
        ready = r \<and> 0 \<le> requested \<and> requested \<le> 1 \<and> 0 \<le> started \<and> requested + started \<le> M \<and> limit \<le> M \<and>
        (op \<longrightarrow> deferred AND DEFERRED_RELEASE = 0))"

definition pool_ok :: "int \<Rightarrow> nat set \<Rightarrow> (nat \<Rightarrow> int) \<Rightarrow> driver \<Rightarrow> bool" where
  "pool_ok M op rd s \<longleftrightarrow>
     (\<forall>th l. fst (loopers s) th = Some l \<longrightarrow> flags_ok l) \<and>
     (\<forall>p c. snd (loopers s) p = Some c \<longrightarrow> counts_ok M (rd p) (p \<in> op) c) \<and>
     (\<forall>p \<in> op. snd (loopers s) p \<noteq> None) \<and> (\<forall>p. 0 \<le> rd p) \<and> (\<forall>p. p \<notin> op \<longrightarrow> rd p = 0)"

lemma flag_bits:
  fixes l :: u32
  shows "l AND 1 = 0 \<longleftrightarrow> \<not> bit l 0" "l AND 2 = 0 \<longleftrightarrow> \<not> bit l 1" "l AND 8 = 0 \<longleftrightarrow> \<not> bit l 3"
  using and_exp_eq_0_iff_not_bit [of l 0] and_exp_eq_0_iff_not_bit [of l 1] and_exp_eq_0_iff_not_bit [of l 3]
  by simp_all

lemma flags_ok_simps [simp]:
  "flags_ok l \<Longrightarrow> flags_ok (l OR 4)" "flags_ok l \<Longrightarrow> flags_ok (l OR 16)" "flags_ok l \<Longrightarrow> flags_ok (l OR 32)"
  "flags_ok l \<Longrightarrow> flags_ok (l AND NOT 16)" "flags_ok l \<Longrightarrow> flags_ok (l AND NOT 32)"
  "flags_ok ((l OR 8) OR k)" "flags_ok (l OR 8)"
  "l AND 2 = 0 \<Longrightarrow> flags_ok (l OR 1)" "l AND 1 = 0 \<Longrightarrow> flags_ok (l OR 2)" "flags_ok 32"
  by (auto simp: flags_ok_def flag_bits bit_simps)

lemma flags_ok_masks [simp]:
  "flags_ok l \<Longrightarrow> flags_ok (l AND - 17)" "flags_ok l \<Longrightarrow> flags_ok (l AND - 33)"
  using flags_ok_simps(4,5) [of l] by simp_all

lemma pool_ok_loopers: "loopers s' = loopers s \<Longrightarrow> pool_ok M op rd s' = pool_ok M op rd s"
  by (simp add: pool_ok_def)

lemma pool_ok_counts:
  assumes "pool_ok M op rd s" "proc_at s p = Some pr"
  shows "counts_ok M (rd p) (p \<in> op) (thread_counts pr)"
proof -
  from assms(2) have "snd (loopers s) p = Some (thread_counts pr)" by (simp add: loopers_def)
  with assms(1) show ?thesis unfolding pool_ok_def by blast
qed

lemma pool_ok_thread:
  assumes "pool_ok M op rd s" "\<And>x. thread_at s th = Some x \<Longrightarrow> flags_ok (looper x) \<Longrightarrow> flags_ok (looper (f x))"
  shows "pool_ok M op rd (upd_thread th f s)"
proof -
  have s: "snd (loopers (upd_thread th f s)) = snd (loopers s)" by (simp add: loopers_def)
  have "flags_ok l" if l: "fst (loopers (upd_thread th f s)) v = Some l" for v l
  proof -
    from l obtain x where x: "map_option f (thread_at s v) = Some x \<and> v = th \<or> thread_at s v = Some x \<and> v \<noteq> th"
        "l = looper x" by (auto simp: loopers_def split: if_splits)
    with assms show ?thesis unfolding pool_ok_def loopers_def by auto
  qed
  with assms(1) show ?thesis unfolding pool_ok_def s by simp
qed

lemma pool_ok_proc:
  assumes "pool_ok M op rd s" "0 \<le> r" "p \<notin> op \<Longrightarrow> r = 0"
    and "\<And>pr. proc_at s p = Some pr \<Longrightarrow> counts_ok M (rd p) (p \<in> op) (thread_counts pr) \<Longrightarrow>
              counts_ok M r (p \<in> op) (thread_counts (f pr))"
  shows "pool_ok M op (rd(p := r)) (upd_proc p f s)"
proof -
  have s: "fst (loopers (upd_proc p f s)) = fst (loopers s)" by (simp add: loopers_def)
  have c: "counts_ok M ((rd(p := r)) q) (q \<in> op) c" if "snd (loopers (upd_proc p f s)) q = Some c" for q c
  proof -
    from that obtain pr where pr: "proc_at s q = Some pr" "c = thread_counts (if q = p then f pr else pr)"
      by (auto simp: loopers_def split: if_splits)
    with pool_ok_counts [OF assms(1) pr(1)] assms(4) show ?thesis by (auto split: if_splits)
  qed
  have d: "snd (loopers (upd_proc p f s)) q \<noteq> None" if "q \<in> op" for q
  proof -
    from assms(1) that have "snd (loopers s) q \<noteq> None" unfolding pool_ok_def by blast
    then show ?thesis by (auto simp: loopers_def)
  qed
  from assms(1) c d assms(2,3) show ?thesis unfolding pool_ok_def s by simp
qed

lemmas pool_ok_proc_same = pool_ok_proc [where r = "rd p" and rd = rd and p = p for rd p, simplified fun_upd_triv]

text \<open>A new thread, and a thread that is gone.\<close>

lemma pool_ok_put_thread:
  assumes "pool_ok M op rd s" "\<And>x. y = Some x \<Longrightarrow> flags_ok (looper x)"
    "thread_at s' = (thread_at s)(th := y)" "proc_at s' = proc_at s"
  shows "pool_ok M op rd s'"
proof -
  have s: "snd (loopers s') = snd (loopers s)" using assms(4) by (simp add: loopers_def)
  have "flags_ok l" if "fst (loopers s') v = Some l" for v l
    using that assms(1,2,3) unfolding pool_ok_def loopers_def by (auto split: if_splits)
  with assms(1) show ?thesis unfolding pool_ok_def s by simp
qed

section \<open>Commands\<close>

lemma bc_register_looper_pool:
  assumes "bc_register_looper p th s = Some s'" "pool_ok M op rd s"
  shows "pool_ok M op rd s'"
proof -
  from assms(1) obtain x pr where x: "thread_at s th = Some x" and pr: "proc_at s p = Some pr"
    by (auto simp: bc_register_looper_def split: Option.bind_splits)
  note c = pool_ok_counts [OF assms(2) pr]
  let ?fin = "upd_thread th (\<lambda>x. x\<lparr>looper := looper x OR LOOPER_REGISTERED\<rparr>)"
  let ?inv = "upd_thread th (\<lambda>x. x\<lparr>looper := looper x OR LOOPER_INVALID\<rparr>) s"
  show ?thesis
  proof (cases "looper x AND LOOPER_ENTERED \<noteq> 0 \<or> requested_threads pr = 0")
    case True
    then have s': "s' = ?fin ?inv" using assms(1) x pr by (auto simp: bc_register_looper_def Let_def)
    have "pool_ok M op rd ?inv" using assms(2) by (rule pool_ok_thread) simp
    then show ?thesis unfolding s' by (rule pool_ok_thread) (auto simp: x)
  next
    case False
    let ?s1 = "upd_proc p (\<lambda>pr. pr\<lparr>requested_threads := requested_threads pr - 1,
                                   requested_threads_started := requested_threads_started pr + 1\<rparr>) s"
    from False have s': "s' = ?fin ?s1" using assms(1) x pr by (auto simp: bc_register_looper_def Let_def)
    have "pool_ok M op (rd(p := rd p)) ?s1" using assms(2)
    proof (rule pool_ok_proc)
      show "0 \<le> rd p" "p \<notin> op \<Longrightarrow> rd p = 0" using assms(2) by (simp_all add: pool_ok_def)
    qed (use pr c False in \<open>auto simp: thread_counts_def counts_ok_def\<close>)
    then show ?thesis unfolding s' fun_upd_triv by (rule pool_ok_thread) (use x False in auto)
  qed
qed

lemma bc_enter_looper_pool:
  assumes "bc_enter_looper th s = Some s'" "pool_ok M op rd s"
  shows "pool_ok M op rd s'"
proof -
  from assms(1) obtain x where x: "thread_at s th = Some x"
    by (auto simp: bc_enter_looper_def split: Option.bind_splits)
  let ?fin = "upd_thread th (\<lambda>x. x\<lparr>looper := looper x OR LOOPER_ENTERED\<rparr>)"
  let ?inv = "upd_thread th (\<lambda>x. x\<lparr>looper := looper x OR LOOPER_INVALID\<rparr>) s"
  show ?thesis
  proof (cases "looper x AND LOOPER_REGISTERED = 0")
    case True
    then have s': "s' = ?fin s" using assms(1) x by (simp add: bc_enter_looper_def)
    from assms(2) show ?thesis unfolding s' by (rule pool_ok_thread) (use x True in auto)
  next
    case False
    then have s': "s' = ?fin ?inv" using assms(1) x by (simp add: bc_enter_looper_def)
    have "pool_ok M op rd ?inv" using assms(2) by (rule pool_ok_thread) simp
    then show ?thesis unfolding s' by (rule pool_ok_thread) (auto simp: x)
  qed
qed

lemma bc_exit_looper_pool:
  assumes "bc_exit_looper th s = Some s'" "pool_ok M op rd s"
  shows "pool_ok M op rd s'"
  using assms by (auto simp: bc_exit_looper_def intro: pool_ok_thread split: Option.bind_splits)

lemma one_word_command_loopers: "one_word_command env p th cmd a s = Some (r, s') \<Longrightarrow> loopers s' = loopers s"
  by (auto simp: one_word_command_def cmd_next_def dest: command_loopers split: if_splits)

lemma two_word_command_loopers: "two_word_command env p th cmd a b s = Some (r, s') \<Longrightarrow> loopers s' = loopers s"
  by (auto simp: two_word_command_def cmd_next_def dest: command_loopers split: if_splits)

lemma if_SomeE: "(if b then x else y) = Some z \<Longrightarrow> (x = Some z \<Longrightarrow> P) \<Longrightarrow> (y = Some z \<Longrightarrow> P) \<Longrightarrow> P"
  by (simp split: if_split_asm)

lemma option_caseE:
  "(case a of None \<Rightarrow> x | Some v \<Rightarrow> f v) = Some z \<Longrightarrow> (x = Some z \<Longrightarrow> P) \<Longrightarrow> (\<And>v. f v = Some z \<Longrightarrow> P) \<Longrightarrow> P"
  by (simp split: option.split_asm)

lemma thread_write_command_cases:
  assumes "thread_write_command env task p th cmd ptr s = Some (r, s')"
  obtains "s' = s" | a where "one_word_command env p th cmd a s = Some (r, s')"
    | a b where "two_word_command env p th cmd a b s = Some (r, s')"
    | tr where "binder_transaction env task p th tr (cmd = BC_REPLY) s = Some s'"
    | "bc_register_looper p th s = Some s'" | "bc_enter_looper th s = Some s'" | "bc_exit_looper th s = Some s'"
  using assms unfolding thread_write_command_def cmd_next_def
  by (elim if_SomeE option_caseE) auto

lemma thread_write_command_pool:
  assumes "thread_write_command env task p th cmd ptr s = Some (r, s')" and ok: "pool_ok M op rd s"
  shows "pool_ok M op rd s'"
  using assms(1)
proof (rule thread_write_command_cases)
  fix a assume "one_word_command env p th cmd a s = Some (r, s')"
  then show ?thesis using ok by (simp only: pool_ok_loopers [OF one_word_command_loopers])
next
  fix a b assume "two_word_command env p th cmd a b s = Some (r, s')"
  then show ?thesis using ok by (simp only: pool_ok_loopers [OF two_word_command_loopers])
next
  fix tr assume "binder_transaction env task p th tr (cmd = BC_REPLY) s = Some s'"
  then show ?thesis using ok by (simp only: pool_ok_loopers [OF binder_transaction_loopers])
qed (use ok in \<open>auto intro: bc_register_looper_pool bc_enter_looper_pool bc_exit_looper_pool\<close>)

lemma write_loop_pool:
  "write_loop env task p th ptr e s = Some (ret, ptr', s') \<Longrightarrow> pool_ok M op rd s \<Longrightarrow> pool_ok M op rd s'"
proof (induction env task p th ptr e s rule: write_loop.induct)
  case (1 env task p th ptr e s)
  show ?case
    using "1.prems" by (subst (asm) write_loop.simps)
      (auto dest: thread_write_command_pool "1.IH" split: option.splits cmd_result.splits if_splits prod.splits)
qed

lemma binder_thread_write_pool:
  "binder_thread_write env task p th b sz c s = Some (ret, consumed, s') \<Longrightarrow> pool_ok M op rd s \<Longrightarrow> pool_ok M op rd s'"
  by (auto simp: binder_thread_write_def dest: write_loop_pool)

section \<open>Reading\<close>

text \<open>The threads a phase adds to the ones that wait for process work.\<close>

fun waits :: "read_phase \<Rightarrow> int" where
  "waits (Read_wait ptr w) = of_bool w"
| "waits (Read_done ret ptr) = 0"
| "waits (Read_error ret) = 0"

lemma pool_ok_rd: "pool_ok M op rd s \<Longrightarrow> 0 \<le> rd p" "pool_ok M op rd s \<Longrightarrow> p \<notin> op \<Longrightarrow> rd p = 0"
  by (simp_all add: pool_ok_def)

lemma pool_ok_put_user:
  "put_user env a v s = Some s' \<Longrightarrow> pool_ok M op rd s' = pool_ok M op rd s"
  by (rule pool_ok_loopers, rule put_user_loopers)

text \<open>A thread is only asked for when none is ready or on its way.\<close>

lemma read_done_pool:
  assumes "read_done env p th buffer ptr s = Some (ph, s')" and ok: "pool_ok M op rd s"
  shows "pool_ok M op rd s' \<and> waits ph = 0"
proof -
  from assms(1) obtain pr x where pr: "proc_at s p = Some pr" and x: "thread_at s th = Some x"
    by (auto simp: read_done_def split: Option.bind_splits)
  let ?s1 = "upd_proc p (\<lambda>pr. pr\<lparr>requested_threads := requested_threads pr + 1\<rparr>) s"
  show ?thesis
  proof (cases "requested_threads pr + ready_threads pr = 0 \<and> requested_threads_started pr < max_threads pr \<and>
      looper x AND (LOOPER_REGISTERED OR LOOPER_ENTERED) \<noteq> 0")
    case False
    with assms show ?thesis unfolding read_done_def by (auto simp: pr x split: if_splits)
  next
    case True
    have "pool_ok M op (rd(p := rd p)) ?s1" using ok
    proof (rule pool_ok_proc)
      show "0 \<le> rd p" "p \<notin> op \<Longrightarrow> rd p = 0" using pool_ok_rd [OF ok] by auto
    next
      fix pr' assume "proc_at s p = Some pr'" "counts_ok M (rd p) (p \<in> op) (thread_counts pr')"
      with True pr pool_ok_rd(1) [OF ok, of p]
      show "counts_ok M (rd p) (p \<in> op) (thread_counts (pr'\<lparr>requested_threads := requested_threads pr' + 1\<rparr>))"
        by (auto simp: thread_counts_def counts_ok_def)
    qed
    then have s1: "pool_ok M op rd ?s1" by simp
    from assms(1) True have "(case put_user env (unat buffer) BR_SPAWN_LOOPER ?s1 of
             None \<Rightarrow> Some (Read_done (- EFAULT) ptr, ?s1)
           | Some s \<Rightarrow> Some (Read_done 0 ptr, s)) = Some (ph, s')"
      unfolding read_done_def by (simp add: pr x Let_def)
    with s1 show ?thesis by (auto simp: pool_ok_put_user split: option.splits)
  qed
qed

lemma read_errors_pool:
  assumes "read_errors env p th buffer ptr e s = Some (ph, s')" and ok: "pool_ok M op rd s"
  shows "pool_ok M op rd s' \<and> waits ph = 0"
  using assms unfolding read_errors_def Let_def
  by (auto dest!: read_done_pool [where M = M and op = op and rd = rd] simp: pool_ok_put_user
      intro!: pool_ok_thread split: Option.bind_splits option.splits if_splits)

lemma read_retry_pool:
  assumes "read_retry env p th buffer ptr e s = Some (ph, s')" and ok: "pool_ok M op rd s" and p: "p \<in> op"
  shows "pool_ok M op (rd(p := rd p + waits ph)) s'"
proof -
  from assms(1) obtain x where x: "thread_at s th = Some x"
    by (auto simp: read_retry_def split: Option.bind_splits)
  let ?w = "transaction_stack x = None \<and> lists s (Thread_todo th) = []"
  let ?s1 = "upd_thread th (\<lambda>x. x\<lparr>looper := looper x OR LOOPER_WAITING\<rparr>) s"
  show ?thesis
  proof (cases "return_error x \<noteq> BR_OK \<and> ptr < e")
    case True
    with assms(1) have "read_errors env p th buffer ptr e s = Some (ph, s')"
      by (simp add: read_retry_def x)
    from read_errors_pool [OF this ok] show ?thesis by simp
  next
    case False
    with assms(1) have ph: "ph = Read_wait ptr ?w"
        "s' = (if ?w then upd_proc p (\<lambda>pr. pr\<lparr>ready_threads := ready_threads pr + 1\<rparr>) ?s1 else ?s1)"
      by (auto simp: read_retry_def x Let_def split: Option.bind_splits)
    have s1: "pool_ok M op rd ?s1" using ok by (rule pool_ok_thread) simp
    have "pool_ok M op (rd(p := rd p + 1)) (upd_proc p (\<lambda>pr. pr\<lparr>ready_threads := ready_threads pr + 1\<rparr>) ?s1)"
      using s1 by (rule pool_ok_proc) (use pool_ok_rd(1) [OF ok, of p] p in \<open>auto simp: thread_counts_def counts_ok_def\<close>)
    with s1 show ?thesis unfolding ph by simp
  qed
qed

lemma read_start_pool:
  assumes "read_start env p th buffer sz consumed s = Some (ph, s')" and ok: "pool_ok M op rd s" and p: "p \<in> op"
  shows "pool_ok M op (rd(p := rd p + waits ph)) s'"
  using assms unfolding read_start_def Let_def
  by (auto intro: read_retry_pool simp: pool_ok_put_user split: if_splits option.splits)

lemma read_wait_loopers:
  "read_wait env task p th nb w sg s = Some (r, s') \<Longrightarrow> loopers s' = loopers s"
  by (auto simp: read_wait_def Let_def split: Option.bind_splits if_splits)

lemma read_loop_pool:
  assumes "read_loop env task p th w buffer ptr e s = Some r" "pool_ok M op rd s" "p \<in> op"
  shows "pool_ok M op (rd(p := rd p + waits (fst r))) (snd r)"
proof -
  have "\<forall>rd. p \<in> op \<longrightarrow> pool_ok M op rd s \<longrightarrow> pool_ok M op (rd(p := rd p + waits (fst r))) (snd r)"
  proof (rule read_loop.raw_induct [where P = "\<lambda>env task p th w buffer ptr e s r. \<forall>rd. p \<in> op \<longrightarrow>
        pool_ok M op rd s \<longrightarrow> pool_ok M op (rd(p := rd p + waits (fst r))) (snd r)", OF _ assms(1)], goal_cases)
    case (1 loop env task p th w buffer ptr e s r)
    have work: "pool_ok M op rd s1" if "read_work env task p th wk ptr s = Some (o1, s1)" "pool_ok M op rd s"
      for wk o1 s1 rd using that by (simp only: pool_ok_loopers [OF read_work_loopers])
    show ?case
    proof (intro allI impI)
      fix rd assume p: "p \<in> op" and ok: "pool_ok M op rd s"
      from 1(2) show "pool_ok M op (rd(p := rd p + waits (fst r))) (snd r)"
        by (cases r) (auto dest!: read_done_pool [OF _ ok] read_done_pool [OF _ work [OF _ ok]] 1(1)
          intro: read_retry_pool [OF _ ok p]
          simp: work [OF _ ok] p split: Option.bind_splits option.splits if_splits work_outcome.splits)
    qed
  qed
  with assms(2,3) show ?thesis by blast
qed

lemma read_resume_pool:
  assumes "read_resume env task p th w ret buffer ptr e s = Some r" and ok: "pool_ok M op rd s"
    and p: "p \<in> op" "of_bool w \<le> rd p"
  shows "pool_ok M op (rd(p := rd p - of_bool w + waits (fst r))) (snd r)"
proof -
  let ?rd = "rd(p := rd p - of_bool w)"
  let ?s1 = "if w then upd_proc p (\<lambda>pr. pr\<lparr>ready_threads := ready_threads pr - 1\<rparr>) s else s"
  let ?s2 = "upd_thread th (\<lambda>x. x\<lparr>looper := looper x AND NOT LOOPER_WAITING\<rparr>) ?s1"
  have "pool_ok M op ?rd ?s1"
  proof (cases w)
    case True
    have "pool_ok M op (rd(p := rd p - 1)) (upd_proc p (\<lambda>pr. pr\<lparr>ready_threads := ready_threads pr - 1\<rparr>) s)"
      using ok by (rule pool_ok_proc) (use p True in \<open>auto simp: thread_counts_def counts_ok_def\<close>)
    with True show ?thesis by simp
  qed (use ok in simp)
  then have s2: "pool_ok M op ?rd ?s2" by (rule pool_ok_thread) simp
  from assms(1) obtain pr x where pr: "proc_at s p = Some pr" and x: "thread_at s th = Some x"
    by (auto simp: read_resume_def split: Option.bind_splits)
  have r: "(if ret \<noteq> 0 then Some (Read_error ret, ?s2) else read_loop env task p th w buffer ptr e ?s2) = Some r"
    using assms(1) unfolding read_resume_def pr x Let_def by simp
  show ?thesis
  proof (cases "ret = 0")
    case True
    with r have "read_loop env task p th w buffer ptr e ?s2 = Some r" by (simp only: if_False not_True_eq_False simp_thms)
    from read_loop_pool [OF this s2 p(1)] show ?thesis by simp
  next
    case False
    with r have "r = (Read_error ret, ?s2)" by simp
    with s2 show ?thesis by simp
  qed
qed

section \<open>Threads\<close>

lemma binder_get_thread_pool:
  assumes "binder_get_thread env task p s = Some (r, s')" and ok: "pool_ok M op rd s"
  shows "pool_ok M op rd s'"
proof -
  from assms(1) consider "s' = s" | "loopers s' = loopers s"
    | th x s1 where "pool_ok M op rd s1" "thread_at s' = (thread_at s1)(th := Some x)" "proc_at s' = proc_at s1"
        "looper x = 32"
    using that
  proof (cases "rb_search (thread_key s) (cur_pid task) (threads_root (the (proc_at s p)))")
    case None
    have s1: "pool_ok M op rd (upd_proc p (\<lambda>pr. pr\<lparr>threads_root := t\<rparr>) (binder_stats_created Stat_thread s0))"
      if "kzalloc env s = (Some a, s0)" for s0 t a
      using ok by (subst pool_ok_loopers) (simp_all add: kzalloc_loopers [OF that])
    from assms(1) None show ?thesis
      by (auto simp: binder_get_thread_def Let_def dest: kzalloc_loopers s1
               intro: that(2) that(3) split: Option.bind_splits prod.splits option.splits)
  qed (use assms(1) in \<open>auto simp: binder_get_thread_def split: Option.bind_splits\<close>)
  then show ?thesis
  proof cases
    case 3
    show ?thesis by (rule pool_ok_put_thread [OF 3(1) _ 3(2,3)]) (simp add: 3(4))
  qed (use ok in \<open>auto simp: pool_ok_def\<close>)
qed

lemma binder_free_thread_pool:
  assumes "binder_free_thread env p th s = Some (k, s')" and ok: "pool_ok M op rd s"
  shows "pool_ok M op rd s'"
proof -
  from assms(1) obtain s1 where s1: "loopers s1 = loopers s"
      "s' = binder_stats_deleted Stat_thread (s1\<lparr>thread_at := (thread_at s1)(th := None)\<rparr>)"
    unfolding binder_free_thread_def Let_def
    by (auto dest!: detach_stack_loopers binder_send_failed_reply_loopers binder_release_work_loopers
      split: Option.bind_splits option.splits prod.splits if_splits)
  have "pool_ok M op rd s1" using ok by (simp add: pool_ok_loopers [OF s1(1)])
  then show ?thesis by (rule pool_ok_put_thread [where th = th and y = None]) (simp_all add: s1(2))
qed

end
