(* ===== verification/ThreadPool.thy ===== *)
theory ThreadPool
  imports Loopers
begin

text \<open>
  The device file as a concurrent system (driver/binder/binder.c): processes open it, their
  threads call ioctl and sleep there, and the work queue runs the deferred work, in any
  interleaving; the thread pool invariant holds in every state that can be reached.
\<close>

section \<open>ioctl\<close>

fun sleeps :: "ioctl_phase \<Rightarrow> bool" where
  "sleeps (Io_wait th ubuf bwr ptr w) = w"
| "sleeps (Io_ready th ubuf bwr ptr w ret) = w"
| "sleeps (Io_done ret) = False"

lemma ioctl_return_pool:
  "ioctl_return t ret s = (ph, s') \<Longrightarrow> pool_ok M op rd s \<Longrightarrow> pool_ok M op rd s' \<and> \<not> sleeps ph"
  by (auto simp: ioctl_return_def intro: pool_ok_thread split: option.splits)

lemma ioctl_copy_back_pool:
  assumes "ioctl_copy_back env th ubuf bwr ret s = (ph, s')" "pool_ok M op rd s"
  shows "pool_ok M op rd s' \<and> \<not> sleeps ph"
proof -
  have *: "pool_ok M op rd s1" if "copy_to_user env a vs s = Some s1" for a vs s1
    using assms(2) by (simp only: pool_ok_loopers [OF copy_to_user_loopers [OF that]])
  show ?thesis
    using assms unfolding ioctl_copy_back_def
    by (auto dest: ioctl_return_pool * split: option.split_asm)
qed

lemma ioctl_after_read_pool:
  assumes "ioctl_after_read env p th ubuf bwr (r, s) = (ph, s')" "pool_ok M op (rd(p := rd p + waits r)) s"
  shows "pool_ok M op (rd(p := rd p + of_bool (sleeps ph))) s'"
proof -
  let ?w = "if lists s (Proc_todo p) \<noteq> [] then wake_up (Proc_wait p) s else s"
  have w: "pool_ok M op rd' ?w = pool_ok M op rd' s" for rd'
    by (rule pool_ok_loopers) simp
  show ?thesis
  proof (cases r)
    case (Read_wait ptr w)
    with assms show ?thesis by (auto simp: ioctl_after_read_def)
  next
    case (Read_done ret ptr)
    with assms have "ioctl_copy_back env th ubuf (bwr\<lparr>read_consumed := of_nat ptr - read_buffer bwr\<rparr>) ret ?w = (ph, s')"
        "pool_ok M op rd ?w" unfolding w by (simp_all add: ioctl_after_read_def Let_def)
    from ioctl_copy_back_pool [OF this] show ?thesis by simp
  next
    case (Read_error ret)
    with assms have "ioctl_copy_back env th ubuf bwr ret ?w = (ph, s')" "pool_ok M op rd ?w"
      unfolding w by (simp_all add: ioctl_after_read_def Let_def)
    from ioctl_copy_back_pool [OF this] show ?thesis by simp
  qed
qed

lemma ioctl_write_read_pool:
  assumes "ioctl_write_read env task p th ubuf s = Some (ph, s')" and ok: "pool_ok M op rd s" and p: "p \<in> op"
  shows "pool_ok M op (rd(p := rd p + of_bool (sleeps ph))) s'"
proof -
  have return: ?thesis if "ioctl_return (Some th) ret s1 = (ph, s')" "pool_ok M op rd s1" for ret s1
    using ioctl_return_pool [OF that] by simp
  have copy: ?thesis if "ioctl_copy_back env th ubuf bwr ret s1 = (ph, s')" "pool_ok M op rd s1" for bwr ret s1
    using ioctl_copy_back_pool [OF that] by simp
  have read: ?thesis if "read_start env p th b sz c s1 = Some r" "ioctl_after_read env p th ubuf bwr r = (ph, s')"
      "pool_ok M op rd s1" for b sz c s1 r bwr
    by (rule ioctl_after_read_pool [of env p th ubuf bwr "fst r" "snd r"])
      (use that read_start_pool [of env p th b sz c s1 "fst r" "snd r", OF _ that(3) p] in simp_all)
  show ?thesis
  proof (cases "copy_from_user env s (unat ubuf) 6")
    case None
    with assms(1) have "ioctl_return (Some th) (- EFAULT) s = (ph, s')" by (simp add: ioctl_write_read_def)
    then show ?thesis using ok by (rule return)
  next
    case (Some ws)
    with assms(1) obtain ret bwr s1 where s1: "(if sint (write_size (bwr_of_words ws)) > 0
            then do {
              (ret, consumed, s) \<leftarrow> binder_thread_write env task p th (write_buffer (bwr_of_words ws))
                 (write_size (bwr_of_words ws)) (write_consumed (bwr_of_words ws)) s;
              Some (ret, (bwr_of_words ws)\<lparr>write_consumed := consumed\<rparr>, s)}
            else Some (0, bwr_of_words ws, s)) = Some (ret, bwr, s1)"
      and rest: "(if ret < 0 then Some (ioctl_copy_back env th ubuf (bwr\<lparr>read_consumed := 0\<rparr>) ret s1)
          else if sint (read_size bwr) > 0
          then map_option (ioctl_after_read env p th ubuf bwr)
                 (read_start env p th (read_buffer bwr) (read_size bwr) (read_consumed bwr) s1)
          else Some (ioctl_copy_back env th ubuf bwr 0 s1)) = Some (ph, s')"
      unfolding ioctl_write_read_def Let_def by (auto split: Option.bind_splits prod.splits)
    from s1 ok have ok1: "pool_ok M op rd s1"
      by (auto dest: binder_thread_write_pool split: if_splits Option.bind_splits)
    consider "ioctl_copy_back env th ubuf (bwr\<lparr>read_consumed := 0\<rparr>) ret s1 = (ph, s')"
      | r where "read_start env p th (read_buffer bwr) (read_size bwr) (read_consumed bwr) s1 = Some r"
          "ioctl_after_read env p th ubuf bwr r = (ph, s')"
      | "ioctl_copy_back env th ubuf bwr 0 s1 = (ph, s')"
      using rest by (auto split: if_splits)
    then show ?thesis
    proof cases
      case 1
      then show ?thesis using ok1 by (rule copy)
    next
      case (2 r)
      then show ?thesis using ok1 by (rule read)
    next
      case 3
      then show ?thesis using ok1 by (rule copy)
    qed
  qed
qed

text \<open>\<open>M\<close> bounds what BINDER_SET_MAX_THREADS is given; a fault sets 0.\<close>

definition limit_ok :: "'e kenv_scheme \<Rightarrow> int \<Rightarrow> u32 \<Rightarrow> driver \<Rightarrow> bool" where
  "limit_ok env M arg s \<longleftrightarrow> (case get_user env s (unat arg) of None \<Rightarrow> 0 \<le> M | Some n \<Rightarrow> sint n \<le> M)"

lemma ioctl_set_max_threads_pool:
  assumes "ioctl_set_max_threads env p th ubuf s = (ph, s')" and ok: "pool_ok M op rd s"
    and M: "limit_ok env M ubuf s"
  shows "pool_ok M op rd s' \<and> \<not> sleeps ph"
proof -
  have set_limit: "pool_ok M op rd (upd_proc p (\<lambda>pr. pr\<lparr>max_threads := m\<rparr>) s)" if "m \<le> M" for m
  proof -
    have "pool_ok M op (rd(p := rd p)) (upd_proc p (\<lambda>pr. pr\<lparr>max_threads := m\<rparr>) s)"
      using ok by (rule pool_ok_proc) (use that pool_ok_rd [OF ok] in \<open>auto simp: thread_counts_def counts_ok_def\<close>)
    then show ?thesis by simp
  qed
  show ?thesis
  proof (cases "get_user env s (unat ubuf)")
    case None
    with assms(1) have "ioctl_return (Some th) (- EINVAL) (upd_proc p (\<lambda>pr. pr\<lparr>max_threads := 0\<rparr>) s) = (ph, s')"
      by (simp add: ioctl_set_max_threads_def)
    then show ?thesis using M None by (intro ioctl_return_pool) (auto simp: limit_ok_def intro: set_limit)
  next
    case (Some n)
    with assms(1) have "ioctl_return (Some th) 0 (upd_proc p (\<lambda>pr. pr\<lparr>max_threads := sint n\<rparr>) s) = (ph, s')"
      by (simp add: ioctl_set_max_threads_def)
    then show ?thesis using M Some by (intro ioctl_return_pool) (auto simp: limit_ok_def intro: set_limit)
  qed
qed

lemma ioctl_set_context_mgr_pool:
  assumes "ioctl_set_context_mgr env task p th s = Some (ph, s')" and ok: "pool_ok M op rd s"
  shows "pool_ok M op rd s' \<and> \<not> sleeps ph"
proof -
  obtain ret s1 where "ioctl_return (Some th) ret s1 = (ph, s')" "loopers s1 = loopers s"
    using assms(1) unfolding ioctl_set_context_mgr_def Let_def
    by (auto dest!: ref_loopers intro: that split: if_splits Option.bind_splits prod.splits option.splits)
  with ok show ?thesis by (metis ioctl_return_pool pool_ok_loopers)
qed

lemma if_with_SomeE:
  "(if b then x else y) = Some z \<Longrightarrow> (b \<Longrightarrow> x = Some z \<Longrightarrow> P) \<Longrightarrow> (y = Some z \<Longrightarrow> P) \<Longrightarrow> P"
  by (simp split: if_split_asm)

lemma option_case_withE:
  "(case a of None \<Rightarrow> x | Some v \<Rightarrow> f v) = Some z \<Longrightarrow> (x = Some z \<Longrightarrow> P) \<Longrightarrow>
     (\<And>v. a = Some v \<Longrightarrow> f v = Some z \<Longrightarrow> P) \<Longrightarrow> P"
  by (simp split: option.split_asm)

lemma binder_ioctl_pool:
  assumes "binder_ioctl env task p cmd arg s = Some (ph, s')" and ok: "pool_ok M op rd s" and p: "p \<in> op"
    and M: "cmd = BINDER_SET_MAX_THREADS \<Longrightarrow> limit_ok env M arg s"
  shows "pool_ok M op (rd(p := rd p + of_bool (sleeps ph))) s'"
proof -
  from assms(1) obtain t s1 where t: "binder_get_thread env task p s = Some (t, s1)"
    by (auto simp: binder_ioctl_def split: Option.bind_splits)
  have ok1: "pool_ok M op rd s1" using t ok by (rule binder_get_thread_pool)
  have M1: "limit_ok env M arg s1" if "limit_ok env M arg s"
  proof -
    have "user_mem s1 = user_mem s" using t
      by (auto simp: binder_get_thread_def kzalloc_def Let_def split: Option.bind_splits option.splits)
    then have "get_user env s1 a = get_user env s a" for a by (simp add: get_user_def)
    with that show ?thesis by (simp add: limit_ok_def)
  qed
  have still: ?thesis if "pool_ok M op rd s' \<and> \<not> sleeps ph" using that by simp
  show ?thesis
  proof (cases t)
    case None
    with assms(1) t have "ioctl_return None (- ENOMEM) s1 = (ph, s')" by (simp add: binder_ioctl_def)
    then show ?thesis using ok1 by (intro still ioctl_return_pool)
  next
    case (Some th)
    consider ret s2 where "ioctl_return (Some th) ret s2 = (ph, s')" "s2 = s1 \<or> put_user env (unat arg) BINDER_CURRENT_PROTOCOL_VERSION s1 = Some s2"
      | "ioctl_write_read env task p th arg s1 = Some (ph, s')"
      | "cmd = BINDER_SET_MAX_THREADS" "ioctl_set_max_threads env p th arg s1 = (ph, s')"
      | "ioctl_set_context_mgr env task p th s1 = Some (ph, s')"
      | k s2 where "binder_free_thread env p th s1 = Some (k, s2)" "ioctl_return None 0 s2 = (ph, s')"
      using assms(1) unfolding binder_ioctl_def t Some Option.bind_lunit prod.case option.case
      by (elim if_with_SomeE option_case_withE) auto
    then show ?thesis
    proof cases
      case (1 ret s2)
      then have "pool_ok M op rd s2" using ok1 by (auto simp: pool_ok_put_user)
      with 1(1) show ?thesis by (intro still ioctl_return_pool)
    next
      case 2
      then show ?thesis using ok1 p by (rule ioctl_write_read_pool)
    next
      case 3
      with M M1 have "limit_ok env M arg s1" by simp
      then show ?thesis by (rule still [OF ioctl_set_max_threads_pool [OF 3(2) ok1]])
    next
      case 4
      with ok1 show ?thesis by (intro still ioctl_set_context_mgr_pool)
    next
      case (5 k s2)
      then show ?thesis by (intro still [OF ioctl_return_pool [OF 5(2) binder_free_thread_pool [OF 5(1) ok1]]])
    qed
  qed
qed

section \<open>Sleeping in an ioctl\<close>

lemma ioctl_wait_pool:
  assumes "ioctl_wait env task p nb sg ph s = Some (ph', s')" and ok: "pool_ok M op rd s"
  shows "pool_ok M op rd s' \<and> sleeps ph' = sleeps ph"
proof (cases ph)
  case (Io_wait th ubuf bwr ptr w)
  with assms(1) obtain r where r: "read_wait env task p th nb w sg s = Some (r, s')"
      "ph' = (case r of None \<Rightarrow> ph | Some r \<Rightarrow> Io_ready th ubuf bwr ptr w r)"
    by (auto simp: ioctl_wait_def split: Option.bind_splits)
  from ok have "pool_ok M op rd s'" by (simp only: pool_ok_loopers [OF read_wait_loopers [OF r(1)]])
  with r(2) Io_wait show ?thesis by (simp split: option.split)
qed (use assms in \<open>auto simp: ioctl_wait_def\<close>)

lemma ioctl_resume_pool:
  assumes "ioctl_resume env task p ph s = Some (ph', s')" and ok: "pool_ok M op rd s"
    and p: "p \<in> op" "of_bool (sleeps ph) \<le> rd p"
  shows "pool_ok M op (rd(p := rd p - of_bool (sleeps ph) + of_bool (sleeps ph'))) s'"
proof (cases "\<exists>th ubuf bwr ptr w ret. ph = Io_ready th ubuf bwr ptr w ret")
  case True
  then obtain th ubuf bwr ptr w ret where ph: "ph = Io_ready th ubuf bwr ptr w ret" by blast
  with assms(1) obtain r where r: "read_resume env task p th w ret (read_buffer bwr) ptr
      (unat (read_buffer bwr + read_size bwr)) s = Some r" "ioctl_after_read env p th ubuf bwr r = (ph', s')"
    by (auto simp: ioctl_resume_def)
  from p(2) ph have "of_bool w \<le> rd p" by simp
  from read_resume_pool [OF r(1) ok p(1) this]
  have "pool_ok M op ((rd(p := rd p - of_bool w))(p := (rd(p := rd p - of_bool w)) p + waits (fst r))) (snd r)" by simp
  from ioctl_after_read_pool [OF _ this] r(2)
  have "pool_ok M op ((rd(p := rd p - of_bool w))(p := (rd(p := rd p - of_bool w)) p + of_bool (sleeps ph'))) s'"
    by (metis prod.collapse)
  then show ?thesis by (simp add: ph)
next
  case False
  then have "ph' = ph" "s' = s" using assms(1) by (auto simp: ioctl_resume_def split: ioctl_phase.splits)
  with ok show ?thesis by simp
qed

section \<open>Deferred work\<close>

lemma binder_defer_work_pool:
  assumes "binder_defer_work p defer s = Some s'" and ok: "pool_ok M op rd s"
    and d: "p \<in> op \<Longrightarrow> defer AND DEFERRED_RELEASE = 0"
  shows "pool_ok M op rd s'"
proof -
  let ?s1 = "upd_proc p (\<lambda>pr. pr\<lparr>deferred_work := deferred_work pr OR defer\<rparr>) s"
  have bits: "(w OR defer) AND DEFERRED_RELEASE = 0" if "w AND DEFERRED_RELEASE = 0" "p \<in> op" for w
    using that d by (simp add: bit.conj_disj_distrib2)
  have "pool_ok M op (rd(p := rd p)) ?s1" using ok
    by (rule pool_ok_proc) (use pool_ok_rd [OF ok] bits in \<open>auto simp: thread_counts_def counts_ok_def\<close>)
  then have s1: "pool_ok M op rd ?s1" by simp
  have "loopers s' = loopers ?s1"
    using assms(1) by (auto simp: binder_defer_work_def Let_def split: Option.bind_splits)
  from s1 show ?thesis by (simp only: pool_ok_loopers [OF \<open>loopers s' = loopers ?s1\<close>])
qed

text \<open>Closing the file: no thread is in an ioctl on it.\<close>

lemma pool_ok_close:
  assumes "pool_ok M op rd s" "rd p = 0"
  shows "pool_ok M (op - {p}) rd s"
proof -
  have "counts_ok M r (q \<in> op - {p}) c" if "counts_ok M r (q \<in> op) c" for r q c
    using that by (auto simp: counts_ok_def split: prod.splits)
  with assms show ?thesis unfolding pool_ok_def by blast
qed

lemma flush_threads_pool: "flush_threads ths s = Some s' \<Longrightarrow> pool_ok M op rd s \<Longrightarrow> pool_ok M op rd s'"
proof (induction ths arbitrary: s)
  case (Cons th ths)
  let ?s1 = "upd_thread th (\<lambda>x. x\<lparr>looper := looper x OR LOOPER_NEED_RETURN\<rparr>) s"
  from Cons.prems(1) obtain x where x: "thread_at s th = Some x" by (auto split: Option.bind_splits)
  let ?s2 = "if (looper x OR LOOPER_NEED_RETURN) AND LOOPER_WAITING \<noteq> 0 then wake_up (Thread_wait th) ?s1 else ?s1"
  from Cons.prems(1) x have f: "flush_threads ths ?s2 = Some s'" by (auto simp: Let_def)
  have "pool_ok M op rd ?s1" using Cons.prems(2) by (rule pool_ok_thread) simp
  then have "pool_ok M op rd ?s2" by (subst pool_ok_loopers [of ?s2 ?s1]) simp_all
  with f show ?case by (rule Cons.IH)
qed simp

lemma binder_deferred_flush_pool:
  "binder_deferred_flush p s = Some s' \<Longrightarrow> pool_ok M op rd s \<Longrightarrow> pool_ok M op rd s'"
proof -
  assume "binder_deferred_flush p s = Some s'" and ok: "pool_ok M op rd s"
  then obtain ths s1 where "flush_threads ths s = Some s1" "s' = wake_up (Proc_wait p) s1"
    by (auto simp: binder_deferred_flush_def split: Option.bind_splits)
  moreover from this(1) ok have "pool_ok M op rd s1" by (rule flush_threads_pool)
  ultimately show ?thesis by (simp add: pool_ok_def)
qed

text \<open>The parts of binder_deferred_release.\<close>

lemma release_threads_pool:
  assumes "release_threads env p s = Some s'" "pool_ok M op rd s"
  shows "pool_ok M op rd s'"
proof -
  have "pool_ok M op rd s \<longrightarrow> pool_ok M op rd s'"
  proof (rule release_threads.raw_induct
      [where P = "\<lambda>env p s s'. pool_ok M op rd s \<longrightarrow> pool_ok M op rd s'", OF _ assms(1)], goal_cases)
    case (1 loop env p s s')
    from 1(2) show ?case
      by (auto split: Option.bind_splits if_splits) (use 1(1) binder_free_thread_pool in blast)
  qed
  with assms(2) show ?thesis by blast
qed

lemma notify_deaths_loopers: "notify_deaths rs s = Some s' \<Longrightarrow> loopers s' = loopers s"
  by (induction rs s rule: notify_deaths.induct)
    (auto dest!: list_add_tail_loopers split: Option.bind_splits option.splits)

lemma release_one_node_loopers: "release_one_node env p n s = Some s' \<Longrightarrow> loopers s' = loopers s"
  unfolding release_one_node_def Let_def
  by (auto dest!: notify_deaths_loopers split: Option.bind_splits if_splits)

lemma release_nodes_loopers:
  assumes "release_nodes env p s = Some s'"
  shows "loopers s' = loopers s"
proof (rule release_nodes.raw_induct [where P = "\<lambda>env p s s'. loopers s' = loopers s", OF _ assms], goal_cases)
  case (1 loop env p s s')
  from 1(2) show ?case by (auto dest!: 1(1) release_one_node_loopers split: Option.bind_splits if_splits)
qed

lemma release_refs_loopers:
  assumes "release_refs env p s = Some s'"
  shows "loopers s' = loopers s"
proof (rule release_refs.raw_induct [where P = "\<lambda>env p s s'. loopers s' = loopers s", OF _ assms], goal_cases)
  case (1 loop env p s s')
  from 1(2) show ?case by (auto dest!: 1(1) ref_loopers split: Option.bind_splits if_splits)
qed

lemma release_one_buffer_loopers: "release_one_buffer env p b s = Some s' \<Longrightarrow> loopers s' = loopers s"
  unfolding release_one_buffer_def
  by (auto dest!: upd_buffer_loopers buf_counts split: Option.bind_splits option.splits)

lemma release_buffers_loopers:
  assumes "release_buffers env p s = Some s'"
  shows "loopers s' = loopers s"
proof (rule release_buffers.raw_induct [where P = "\<lambda>env p s s'. loopers s' = loopers s", OF _ assms], goal_cases)
  case (1 loop env p s s')
  from 1(2) show ?case by (auto dest!: 1(1) release_one_buffer_loopers split: Option.bind_splits if_splits)
qed

lemma pool_ok_no_proc:
  assumes "pool_ok M op rd s" "p \<notin> op" "proc_at s' = (proc_at s)(p := None)" "thread_at s' = thread_at s"
  shows "pool_ok M op rd s'"
proof -
  have l: "loopers s' = (fst (loopers s), (snd (loopers s))(p := None))"
    using assms(3,4) by (simp add: loopers_def fun_eq_iff)
  show ?thesis unfolding pool_ok_def l fst_conv snd_conv
  proof (intro conjI)
    show "\<forall>q c. ((snd (loopers s))(p := None)) q = Some c \<longrightarrow> counts_ok M (rd q) (q \<in> op) c"
      using assms(1) unfolding pool_ok_def by (metis fun_upd_apply option.distinct(1))
    show "\<forall>q \<in> op. ((snd (loopers s))(p := None)) q \<noteq> None"
      using assms(1,2) unfolding pool_ok_def by (metis fun_upd_apply)
  qed (use assms(1) in \<open>unfold pool_ok_def, blast\<close>)+
qed

lemma binder_deferred_release_pool:
  assumes "binder_deferred_release env p s = Some s'" and ok: "pool_ok M op rd s" and p: "p \<notin> op"
  shows "pool_ok M op rd s'"
proof -
  from assms(1) obtain s1 s2 s3 s4 s5 s6 where
      s: "release_threads env p s1 = Some s2" "loopers s1 = loopers s" "release_nodes env p s2 = Some s3"
         "release_refs env p s3 = Some s4" "binder_release_work (Proc_todo p) s4 = Some s5"
         "release_buffers env p s5 = Some s6"
      and s': "s' = binder_stats_deleted Stat_proc (s6\<lparr>proc_at := (proc_at s6)(p := None)\<rparr>)"
    unfolding binder_deferred_release_def Let_def
    by (auto intro: that split: Option.bind_splits option.splits)
  from ok have "pool_ok M op rd s1" by (simp only: pool_ok_loopers [OF s(2)])
  then have s2: "pool_ok M op rd s2" by (rule release_threads_pool [OF s(1)])
  have eq: "loopers s6 = loopers s2"
    using release_buffers_loopers [OF s(6)] binder_release_work_loopers [OF s(5)] release_refs_loopers [OF s(4)]
      release_nodes_loopers [OF s(3)] by simp
  from s2 have "pool_ok M op rd s6" by (simp only: pool_ok_loopers [OF eq])
  then show ?thesis using p by (rule pool_ok_no_proc) (simp_all add: s')
qed

lemma deferred_round_pool:
  assumes "deferred_round env p s = Some s'" and ok: "pool_ok M op rd s"
  shows "pool_ok M op rd s'"
proof -
  from assms(1) obtain pr where pr: "proc_at s p = Some pr"
    by (auto simp: deferred_round_def split: Option.bind_splits)
  let ?s1 = "upd_proc p (\<lambda>pr. pr\<lparr>deferred_work := 0\<rparr>) s"
  let ?s2 = "if deferred_work pr AND DEFERRED_PUT_FILES \<noteq> 0 then upd_proc p (\<lambda>pr. pr\<lparr>files := False\<rparr>) ?s1 else ?s1"
  have "pool_ok M op (rd(p := rd p)) ?s1" using ok
    by (rule pool_ok_proc) (use pool_ok_rd [OF ok] in \<open>auto simp: thread_counts_def counts_ok_def\<close>)
  then have "pool_ok M op rd ?s2" by (subst pool_ok_loopers [of ?s2 ?s1]) simp_all
  moreover from assms(1) pr obtain s3 where
      s3: "(if deferred_work pr AND DEFERRED_FLUSH \<noteq> 0 then binder_deferred_flush p ?s2 else Some ?s2) = Some s3"
      and s': "(if deferred_work pr AND DEFERRED_RELEASE \<noteq> 0 then binder_deferred_release env p s3 else Some s3) = Some s'"
    by (auto simp: deferred_round_def Let_def split: Option.bind_splits)
  ultimately have ok3: "pool_ok M op rd s3"
    by (elim if_SomeE [where z = s3]) (auto intro: binder_deferred_flush_pool)
  show ?thesis
  proof (cases "deferred_work pr AND DEFERRED_RELEASE = 0")
    case True
    with s' ok3 show ?thesis by simp
  next
    case False
    with pool_ok_counts [OF ok pr] have "p \<notin> op" by (auto simp: counts_ok_def thread_counts_def)
    from s' False have "binder_deferred_release env p s3 = Some s'" by simp
    then show ?thesis using ok3 \<open>p \<notin> op\<close> by (rule binder_deferred_release_pool)
  qed
qed

end
