(* ===== verification/DeviceSystem.thy ===== *)
theory DeviceSystem
  imports ThreadPool
begin

text \<open>
  The driver and the tasks that call it, as a transition system.  One step is what runs
  under \<open>binder_main_lock\<close> in one piece: a file operation, an ioctl up to its sleep, the
  test of a sleeping thread, an ioctl from its sleep to the next or to its return, or one
  round of the work queue.
\<close>

section \<open>The steps\<close>

text \<open>
  \<open>calls\<close> holds the tasks that are in an ioctl: the process of the file and where they sleep.
\<close>

record device =
  drv :: driver
  open_files :: "nat set"
  calls :: "nat \<Rightarrow> (nat \<times> ioctl_phase) option"

definition in_call :: "nat \<Rightarrow> ioctl_phase \<Rightarrow> (nat \<times> ioctl_phase) option" where
  "in_call p ph = (case ph of Io_done ret \<Rightarrow> None | _ \<Rightarrow> Some (p, ph))"

text \<open>
  The premises beside the calls of the model's operations are the kernel's: \<open>kzalloc\<close> hands
  out memory that is not in use, operations get an open file, a task makes one call at a time,
  and a file is released when no call on it is left.  \<open>M\<close> bounds what the processes pass to
  BINDER_SET_MAX_THREADS.
\<close>

inductive device_step :: "'e kenv_scheme \<Rightarrow> int \<Rightarrow> device \<Rightarrow> device \<Rightarrow> bool" for env M where
  Step_open: "binder_open env task (drv d) = (ret, Some p, s') \<Longrightarrow> proc_at (drv d) p = None \<Longrightarrow>
    device_step env M d (d\<lparr>drv := s', open_files := insert p (open_files d)\<rparr>)"
| Step_open_fails: "binder_open env task (drv d) = (ret, None, s') \<Longrightarrow>
    device_step env M d (d\<lparr>drv := s'\<rparr>)"
| Step_mmap: "p \<in> open_files d \<Longrightarrow> device_mmap env p fs req (drv d) = Some (ret, s') \<Longrightarrow>
    device_step env M d (d\<lparr>drv := s'\<rparr>)"
| Step_ioctl: "p \<in> open_files d \<Longrightarrow> calls d (cur_task task) = None \<Longrightarrow>
    binder_ioctl env task p cmd arg (drv d) = Some (ph, s') \<Longrightarrow>
    (cmd = BINDER_SET_MAX_THREADS \<Longrightarrow> limit_ok env M arg (drv d)) \<Longrightarrow>
    device_step env M d (d\<lparr>drv := s', calls := (calls d)(cur_task task := in_call p ph)\<rparr>)"
| Step_wait: "calls d (cur_task task) = Some (p, ph) \<Longrightarrow>
    ioctl_wait env task p nb sg ph (drv d) = Some (ph', s') \<Longrightarrow>
    device_step env M d (d\<lparr>drv := s', calls := (calls d)(cur_task task := in_call p ph')\<rparr>)"
| Step_resume: "calls d (cur_task task) = Some (p, ph) \<Longrightarrow>
    ioctl_resume env task p ph (drv d) = Some (ph', s') \<Longrightarrow>
    device_step env M d (d\<lparr>drv := s', calls := (calls d)(cur_task task := in_call p ph')\<rparr>)"
| Step_poll: "p \<in> open_files d \<Longrightarrow> binder_poll env task p (\<lambda>s. s) (drv d) = Some (events, s') \<Longrightarrow>
    device_step env M d (d\<lparr>drv := s'\<rparr>)"
| Step_flush: "p \<in> open_files d \<Longrightarrow> binder_flush p (drv d) = Some s' \<Longrightarrow>
    device_step env M d (d\<lparr>drv := s'\<rparr>)"
| Step_vma_close: "p \<in> open_files d \<Longrightarrow> binder_vma_close p (drv d) = Some s' \<Longrightarrow>
    device_step env M d (d\<lparr>drv := s'\<rparr>)"
| Step_release: "p \<in> open_files d \<Longrightarrow> (\<And>t ph. calls d t \<noteq> Some (p, ph)) \<Longrightarrow>
    binder_release p (drv d) = Some s' \<Longrightarrow>
    device_step env M d (d\<lparr>drv := s', open_files := open_files d - {p}\<rparr>)"
| Step_work: "binder_deferred_list (drv d) = q # qs \<Longrightarrow>
    deferred_round env q ((drv d)\<lparr>binder_deferred_list := qs\<rparr>) = Some s' \<Longrightarrow>
    device_step env M d (d\<lparr>drv := s'\<rparr>)"

definition device_start :: "device \<Rightarrow> bool" where
  "device_start d \<longleftrightarrow> (\<forall>p. proc_at (drv d) p = None) \<and> (\<forall>th. thread_at (drv d) th = None) \<and>
     open_files d = {} \<and> (\<forall>t. calls d t = None)"

inductive device_reach :: "'e kenv_scheme \<Rightarrow> int \<Rightarrow> device \<Rightarrow> bool" for env M where
  Reach_start: "device_start d \<Longrightarrow> device_reach env M d"
| Reach_step: "device_reach env M d \<Longrightarrow> device_step env M d d' \<Longrightarrow> device_reach env M d'"

section \<open>The invariant\<close>

text \<open>The tasks that sleep in an ioctl on the process and wait for process work.\<close>

definition sleepers :: "device \<Rightarrow> nat \<Rightarrow> nat set" where
  "sleepers d p = {t. \<exists>ph. calls d t = Some (p, ph) \<and> sleeps ph}"

definition sleeping :: "device \<Rightarrow> nat \<Rightarrow> int" where
  "sleeping d p = int (card (sleepers d p))"

definition device_ok :: "int \<Rightarrow> device \<Rightarrow> bool" where
  "device_ok M d \<longleftrightarrow> pool_ok M (open_files d) (sleeping d) (drv d) \<and> finite {t. calls d t \<noteq> None} \<and>
     (\<forall>t p ph. calls d t = Some (p, ph) \<longrightarrow> p \<in> open_files d)"

lemma finite_sleepers: "finite {t. calls d t \<noteq> None} \<Longrightarrow> finite (sleepers d p)"
  by (erule finite_subset [rotated]) (auto simp: sleepers_def)

lemma sleepers_same: "calls d' = calls d \<Longrightarrow> sleeping d' = sleeping d"
  by (simp add: sleeping_def sleepers_def fun_eq_iff)

definition sleeps_in :: "nat \<Rightarrow> (nat \<times> ioctl_phase) option \<Rightarrow> bool" where
  "sleeps_in p c \<longleftrightarrow> (\<exists>ph. c = Some (p, ph) \<and> sleeps ph)"

lemma sleeping_call:
  assumes "finite {t. calls d t \<noteq> None}"
  shows "sleeping (d\<lparr>drv := s', calls := (calls d)(t := c)\<rparr>) q =
    sleeping d q - of_bool (sleeps_in q (calls d t)) + of_bool (sleeps_in q c)"
proof -
  let ?d' = "d\<lparr>drv := s', calls := (calls d)(t := c)\<rparr>"
  have fin: "finite (sleepers d q)" using assms by (rule finite_sleepers)
  have eq: "sleepers ?d' q = (if sleeps_in q c then insert t (sleepers d q - {t}) else sleepers d q - {t})"
    by (auto simp: sleepers_def sleeps_in_def)
  have old: "sleeps_in q (calls d t) \<longleftrightarrow> t \<in> sleepers d q" by (auto simp: sleepers_def sleeps_in_def)
  have "int (card (sleepers d q - {t})) = int (card (sleepers d q)) - of_bool (t \<in> sleepers d q)"
  proof (cases "t \<in> sleepers d q")
    case True
    with fin have "card (sleepers d q) > 0" by (auto simp: card_gt_0_iff)
    with True fin show ?thesis by (simp add: card_Diff_singleton)
  qed simp
  moreover have "card (insert t (sleepers d q - {t})) = Suc (card (sleepers d q - {t}))"
    using fin by (simp del: insert_Diff_single)
  ultimately show ?thesis unfolding sleeping_def eq old by simp
qed

lemma sleeps_in_call [simp]: "sleeps_in q (in_call p ph) \<longleftrightarrow> q = p \<and> sleeps ph"
  by (cases ph) (auto simp: sleeps_in_def in_call_def)

lemma sleeps_in_simps [simp]: "sleeps_in q (Some (p, ph)) \<longleftrightarrow> q = p \<and> sleeps ph" "\<not> sleeps_in q None"
  by (auto simp: sleeps_in_def)

lemma sleeps_in_open:
  assumes "device_ok M d" "calls d t = Some (p, ph)"
  shows "p \<in> open_files d" "of_bool (sleeps ph) \<le> sleeping d p"
proof -
  show "p \<in> open_files d" using assms unfolding device_ok_def by blast
  have "finite (sleepers d p)" using assms(1) finite_sleepers unfolding device_ok_def by blast
  moreover have "t \<in> sleepers d p" if "sleeps ph" using that assms(2) by (auto simp: sleepers_def)
  ultimately show "of_bool (sleeps ph) \<le> sleeping d p"
    by (cases "sleeps ph") (auto simp: sleeping_def Suc_le_eq card_gt_0_iff)
qed

section \<open>Every step keeps it\<close>

lemma device_ok_drv:
  assumes "device_ok M d" "pool_ok M (open_files d) (sleeping d) s'"
  shows "device_ok M (d\<lparr>drv := s'\<rparr>)"
  using assms by (simp add: device_ok_def sleepers_same [of "d\<lparr>drv := s'\<rparr>" d])

text \<open>A step of the call of task \<open>t\<close> on \<open>p\<close>.\<close>

lemma device_ok_call:
  assumes ok: "device_ok M d" and p: "p \<in> open_files d"
    and old: "\<And>q. sleeps_in q (calls d t) \<longleftrightarrow> q = p \<and> b"
    and pool: "pool_ok M (open_files d) ((sleeping d)(p := sleeping d p - of_bool b + of_bool (sleeps ph))) s'"
  shows "device_ok M (d\<lparr>drv := s', calls := (calls d)(t := in_call p ph)\<rparr>)"
proof -
  let ?d' = "d\<lparr>drv := s', calls := (calls d)(t := in_call p ph)\<rparr>"
  have fin: "finite {t. calls d t \<noteq> None}" using ok by (simp add: device_ok_def)
  have "sleeping ?d' q = ((sleeping d)(p := sleeping d p - of_bool b + of_bool (sleeps ph))) q" for q
    by (simp only: sleeping_call [OF fin] old sleeps_in_call) simp
  then have "sleeping ?d' = (sleeping d)(p := sleeping d p - of_bool b + of_bool (sleeps ph))" by (rule ext)
  with pool have "pool_ok M (open_files ?d') (sleeping ?d') (drv ?d')" by simp
  moreover have "finite {u. calls ?d' u \<noteq> None}"
    by (rule finite_subset [of _ "insert t {t. calls d t \<noteq> None}"]) (use fin in auto)
  moreover have "q \<in> open_files ?d'" if "calls ?d' u = Some (q, ph')" for u q ph'
    using that p ok by (auto simp: device_ok_def in_call_def split: if_splits ioctl_phase.splits)
  ultimately show ?thesis unfolding device_ok_def by blast
qed

lemma device_ok_sleeping:
  assumes "device_ok M d"
  shows "pool_ok M (open_files d) (sleeping d) (drv d)"
  using assms by (simp add: device_ok_def)

lemma binder_open_pool:
  assumes "binder_open env task s = (ret, r, s')" and ok: "pool_ok M op rd s" and M: "0 \<le> M"
    and r: "\<And>p. r = Some p \<Longrightarrow> proc_at s p = None"
  shows "pool_ok M (case r of None \<Rightarrow> op | Some p \<Rightarrow> insert p op) rd s'"
proof (cases "kzalloc env s")
  case (Pair a s1)
  have s1: "loopers s1 = loopers s" by (rule kzalloc_loopers [OF Pair])
  show ?thesis
  proof (cases a)
    case None
    with assms(1) Pair have "r = None" "s' = s1" by (simp_all add: binder_open_def)
    with ok show ?thesis by (simp add: pool_ok_loopers [OF s1])
  next
    case (Some p)
    have p: "r = Some p" using assms(1) Pair Some by (simp add: binder_open_def)
    let ?pr = "empty_proc\<lparr>tsk := cur_task task, proc_pid := cur_tgid task, default_priority := nice s1 (cur_task task)\<rparr>"
    have "proc_at s' = (proc_at s)(p := Some ?pr)" "thread_at s' = thread_at s"
      using assms(1) Pair Some by (auto simp: binder_open_def kzalloc_def)
    moreover have "thread_counts ?pr = (0, 0, 0, 0, 0)" by (simp add: thread_counts_def empty_proc_def)
    ultimately have l: "loopers s' = (fst (loopers s), (snd (loopers s))(p := Some (0, 0, 0, 0, 0)))"
      by (auto simp: loopers_def fun_eq_iff)
    have "snd (loopers s) p = None" using r [OF p] by (simp add: loopers_def)
    with ok have "p \<notin> op" unfolding pool_ok_def by blast
    with ok have rd: "rd p = 0" by (simp add: pool_ok_def)
    have c: "counts_ok M (rd q) (q \<in> insert p op) c" if "((snd (loopers s))(p := Some (0, 0, 0, 0, 0))) q = Some c" for q c
    proof (cases "q = p")
      case True
      with that rd M show ?thesis by (auto simp: counts_ok_def)
    next
      case False
      with that have "snd (loopers s) q = Some c" by simp
      with ok have "counts_ok M (rd q) (q \<in> op) c" unfolding pool_ok_def by blast
      with False show ?thesis by simp
    qed
    have "pool_ok M (insert p op) rd s'"
      unfolding pool_ok_def l fst_conv snd_conv
    proof (intro conjI)
      show "\<forall>q \<in> insert p op. ((snd (loopers s))(p := Some (0, 0, 0, 0, 0))) q \<noteq> None"
        using ok unfolding pool_ok_def by simp
      show "\<forall>q c. ((snd (loopers s))(p := Some (0, 0, 0, 0, 0))) q = Some c \<longrightarrow> counts_ok M (rd q) (q \<in> insert p op) c"
        using c by blast
    qed (use ok in \<open>unfold pool_ok_def, blast\<close>)+
    with p show ?thesis by simp
  qed
qed

lemma device_mmap_loopers:
  "device_mmap env p fs req s = Some (ret, s') \<Longrightarrow> loopers s' = loopers s"
  unfolding device_mmap_def
  by (auto dest!: binder_mmap_more [THEN thread_counts_more] split: Option.bind_splits)

lemma binder_poll_pool:
  assumes "binder_poll env task p (\<lambda>s. s) s = Some (r, s')" and ok: "pool_ok M op rd s"
  shows "pool_ok M op rd s'"
proof -
  from assms(1) obtain t where "binder_get_thread env task p s = Some (t, s')"
    unfolding binder_poll_def Let_def by (auto split: Option.bind_splits prod.splits if_splits)
  then show ?thesis using ok by (rule binder_get_thread_pool)
qed

lemma device_step_ok:
  assumes "device_step env M d d'" "device_ok M d" "0 \<le> M"
  shows "device_ok M d'"
  using assms
proof (induction rule: device_step.induct)
  case (Step_open task d ret p s')
  have "pool_ok M (insert p (open_files d)) (sleeping d) s'"
    using binder_open_pool [OF Step_open(1) device_ok_sleeping [OF Step_open(3)] Step_open(4)] Step_open(2) by simp
  with Step_open(3) show ?case
    by (auto simp: device_ok_def sleepers_same [of "d\<lparr>drv := s', open_files := insert p (open_files d)\<rparr>" d])
next
  case (Step_open_fails task d ret s')
  have "pool_ok M (open_files d) (sleeping d) s'"
    using binder_open_pool [OF Step_open_fails(1) device_ok_sleeping [OF Step_open_fails(2)] Step_open_fails(3)] by simp
  with Step_open_fails(2) show ?case by (rule device_ok_drv)
next
  case (Step_mmap p d fs req ret s')
  show ?case using Step_mmap(3) device_ok_sleeping [OF Step_mmap(3)]
    by (intro device_ok_drv) (simp_all only: pool_ok_loopers [OF device_mmap_loopers [OF Step_mmap(2)]])
next
  case (Step_ioctl p d task cmd arg ph s')
  from binder_ioctl_pool [OF Step_ioctl(3) device_ok_sleeping [OF Step_ioctl(5)] Step_ioctl(1,4)]
  have "pool_ok M (open_files d) ((sleeping d)(p := sleeping d p - of_bool False + of_bool (sleeps ph))) s'" by simp
  then show ?case by (intro device_ok_call [where b = False]) (use Step_ioctl in simp_all)
next
  case (Step_wait d task p ph nb sg ph' s')
  note open_p = sleeps_in_open [OF Step_wait(3,1)]
  from ioctl_wait_pool [OF Step_wait(2) device_ok_sleeping [OF Step_wait(3)]]
  have "pool_ok M (open_files d) ((sleeping d)(p := sleeping d p - of_bool (sleeps ph) + of_bool (sleeps ph'))) s'" by simp
  then show ?case by (intro device_ok_call [where b = "sleeps ph"]) (use Step_wait open_p in simp_all)
next
  case (Step_resume d task p ph ph' s')
  note open_p = sleeps_in_open [OF Step_resume(3,1)]
  note r = ioctl_resume_pool [OF Step_resume(2) device_ok_sleeping [OF Step_resume(3)] open_p]
  then show ?case by (intro device_ok_call [where b = "sleeps ph"]) (use Step_resume open_p in simp_all)
next
  case (Step_poll p d task events s')
  show ?case
    by (rule device_ok_drv [OF Step_poll(3) binder_poll_pool [OF Step_poll(2) device_ok_sleeping [OF Step_poll(3)]]])
next
  case (Step_flush p d s')
  from Step_flush(2) have "pool_ok M (open_files d) (sleeping d) s'"
    unfolding binder_flush_def by (rule binder_defer_work_pool [OF _ device_ok_sleeping [OF Step_flush(3)]]) simp
  with Step_flush(3) show ?case by (rule device_ok_drv)
next
  case (Step_vma_close p d s')
  let ?s1 = "upd_proc p (\<lambda>pr. pr\<lparr>vma := False\<rparr>) (drv d)"
  have l: "loopers ?s1 = loopers (drv d)" by simp
  from Step_vma_close(2) have "binder_defer_work p DEFERRED_PUT_FILES ?s1 = Some s'"
    by (auto simp: binder_vma_close_def split: Option.bind_splits)
  moreover have "pool_ok M (open_files d) (sleeping d) ?s1"
    using device_ok_sleeping [OF Step_vma_close(3)] by (simp only: pool_ok_loopers [OF l])
  ultimately have "pool_ok M (open_files d) (sleeping d) s'" by (rule binder_defer_work_pool) simp
  with Step_vma_close(3) show ?case by (rule device_ok_drv)
next
  case (Step_release p d s')
  have none: "sleepers d p = {}" using Step_release(2) by (auto simp: sleepers_def)
  then have "sleeping d p = 0" by (simp add: sleeping_def)
  then have "pool_ok M (open_files d - {p}) (sleeping d) (drv d)"
    by (rule pool_ok_close [OF device_ok_sleeping [OF Step_release(4)]])
  with Step_release(3) have "pool_ok M (open_files d - {p}) (sleeping d) s'"
    unfolding binder_release_def by (rule binder_defer_work_pool) simp
  moreover have "q \<noteq> p" if "calls d t = Some (q, ph)" for t q ph using that Step_release(2) by auto
  ultimately show ?case using Step_release(4)
    by (auto simp: device_ok_def sleepers_same [of "d\<lparr>drv := s', open_files := open_files d - {p}\<rparr>" d])
next
  case (Step_work d q qs s')
  have "pool_ok M (open_files d) (sleeping d) ((drv d)\<lparr>binder_deferred_list := qs\<rparr>)"
    by (subst pool_ok_loopers [of _ "drv d"]) (simp_all add: device_ok_sleeping [OF Step_work(3)])
  from deferred_round_pool [OF Step_work(2) this] Step_work(3) show ?case by (intro device_ok_drv)
qed

lemma device_reach_ok:
  assumes "device_reach env M d" "0 \<le> M"
  shows "device_ok M d"
  using assms
proof (induction rule: device_reach.induct)
  case (Reach_start d)
  then have "loopers (drv d) = (\<lambda>_. None, \<lambda>_. None)" "sleeping d = (\<lambda>_. 0)" "calls d = (\<lambda>_. None)" "open_files d = {}"
    by (auto simp: device_start_def loopers_def sleeping_def sleepers_def fun_eq_iff)
  then show ?case by (simp add: device_ok_def pool_ok_def)
next
  case (Reach_step d d')
  then show ?case by (auto intro: device_step_ok)
qed

section \<open>What it says\<close>

text \<open>C11: In every reachable interleaving, ready_threads of a process is the number of its
  threads that sleep waiting for process work; at most one thread is asked for at a time; the
  threads asked for and started never exceed what the process allowed with
  BINDER_SET_MAX_THREADS (\<open>M\<close> bounds its arguments); and a thread that is both registered and
  entered is marked invalid.\<close>

theorem thread_pool_invariant:
  assumes "device_reach env M d" "0 \<le> M"
  shows "(\<forall>p pr. proc_at (drv d) p = Some pr \<longrightarrow>
      ready_threads pr = int (card (sleepers d p)) \<and>
      0 \<le> requested_threads pr \<and> requested_threads pr \<le> 1 \<and> 0 \<le> requested_threads_started pr \<and>
      requested_threads pr + requested_threads_started pr \<le> M) \<and>
    (\<forall>th x. thread_at (drv d) th = Some x \<longrightarrow>
      looper x AND LOOPER_REGISTERED \<noteq> 0 \<longrightarrow> looper x AND LOOPER_ENTERED \<noteq> 0 \<longrightarrow> looper x AND LOOPER_INVALID \<noteq> 0)"
proof -
  note ok = device_ok_sleeping [OF device_reach_ok [OF assms]]
  have "flags_ok (looper x)" if "thread_at (drv d) th = Some x" for th x
  proof -
    from that have "fst (loopers (drv d)) th = Some (looper x)" by (simp add: loopers_def)
    with ok show ?thesis unfolding pool_ok_def by blast
  qed
  then show ?thesis
    by (auto dest!: pool_ok_counts [OF ok] simp: counts_ok_def thread_counts_def sleeping_def flags_ok_def)
qed

text \<open>A process opens the device, and its thread sleeps in an ioctl that reads.\<close>

definition one_reader :: driver where
  "one_reader = driver_init\<lparr>user_mem := (\<lambda>_. 0)(12 := 64)\<rparr>"

definition reader :: task where
  "reader = \<lparr>cur_task = 1, cur_pid = 7, cur_tgid = 7, cur_euid = 0\<rparr>"

lemma copy_six:
  "copy_from_user env s a 6 = do {
     v0 \<leftarrow> get_user env s a; v1 \<leftarrow> get_user env s (a + 4); v2 \<leftarrow> get_user env s (a + 8);
     v3 \<leftarrow> get_user env s (a + 12); v4 \<leftarrow> get_user env s (a + 16); v5 \<leftarrow> get_user env s (a + 20);
     Some [v0, v1, v2, v3, v4, v5]}"
  by (simp add: eval_nat_numeral)

lemma write_read_size: "IOC_SIZE BINDER_WRITE_READ = 24"
  by code_simp

lemma one_reader_sleeps:
  "\<exists>s1 bwr s2 pr. binder_open plain_kenv reader one_reader = (0, Some 1000, s1) \<and>
     binder_ioctl plain_kenv reader 1000 BINDER_WRITE_READ 0 s1 = Some (Io_wait 1001 0 bwr 4 True, s2) \<and>
     proc_at s2 1000 = Some pr \<and> ready_threads pr = 1"
proof -
  define s1 where "s1 = snd (snd (binder_open plain_kenv reader one_reader))"
  have "binder_open plain_kenv reader one_reader = (0, Some 1000, s1)"
    by (simp add: s1_def binder_open_def kzalloc_def plain_kenv_def one_reader_def driver_init_def)
  moreover have "\<exists>bwr s2 pr. binder_ioctl plain_kenv reader 1000 BINDER_WRITE_READ 0 s1 = Some (Io_wait 1001 0 bwr 4 True, s2) \<and>
     proc_at s2 1000 = Some pr \<and> ready_threads pr = 1"
    unfolding s1_def binder_open_def kzalloc_def plain_kenv_def one_reader_def driver_init_def reader_def
      binder_ioctl_def ioctl_write_read_def binder_get_thread_def read_start_def read_retry_def ioctl_after_read_def
    by (simp add: empty_proc_def write_read_size copy_six get_user_def put_user_def load32_def bwr_of_words_def)
  ultimately show ?thesis by blast
qed

theorem thread_pool_invariant_witness:
  "\<exists>d pr. device_reach plain_kenv 15 d \<and> proc_at (drv d) 1000 = Some pr \<and> ready_threads pr = 1 \<and>
     card (sleepers d 1000) = 1 \<and> requested_threads pr + requested_threads_started pr \<le> 15"
proof -
  let ?d0 = "\<lparr>drv = one_reader, open_files = {}, calls = (\<lambda>_. None)\<rparr>"
  obtain s1 bwr s2 pr where s1: "binder_open plain_kenv reader one_reader = (0, Some 1000, s1)"
      and s2: "binder_ioctl plain_kenv reader 1000 BINDER_WRITE_READ 0 s1 = Some (Io_wait 1001 0 bwr 4 True, s2)"
      and pr: "proc_at s2 1000 = Some pr" "ready_threads pr = 1"
    using one_reader_sleeps by blast
  let ?d1 = "?d0\<lparr>drv := s1, open_files := insert 1000 {}\<rparr>"
  let ?d2 = "?d1\<lparr>drv := s2, calls := (calls ?d1)(cur_task reader := in_call 1000 (Io_wait 1001 0 bwr 4 True))\<rparr>"
  have "device_reach plain_kenv 15 ?d0"
    by (rule Reach_start) (simp add: device_start_def one_reader_def driver_init_def)
  moreover have "device_step plain_kenv 15 ?d0 ?d1"
    using Step_open [of plain_kenv reader ?d0 0 1000 s1] s1 by (simp add: one_reader_def driver_init_def)
  ultimately have "device_reach plain_kenv 15 ?d1" by (rule Reach_step)
  moreover have "device_step plain_kenv 15 ?d1 ?d2"
    by (rule Step_ioctl [where d = ?d1 and arg = 0 and cmd = BINDER_WRITE_READ])
      (use s2 in \<open>simp_all add: BINDER_WRITE_READ_def BINDER_SET_MAX_THREADS_def IOC_def\<close>)
  ultimately have reach: "device_reach plain_kenv 15 ?d2" by (rule Reach_step)
  have "card (sleepers ?d2 1000) = 1 \<and> requested_threads pr + requested_threads_started pr \<le> 15"
    using thread_pool_invariant [OF reach] pr by auto
  with reach pr show ?thesis by (intro exI [of _ ?d2] exI [of _ pr]) simp
qed

end
