(* ===== verification/ReadSpec.thy ===== *)
theory ReadSpec
  imports LooperFrames TxnReply
begin

text \<open>
  What a thread that reads can rely on (driver/binder/binder.c, binder_thread_read): the
  driver writes nowhere but in the buffer it is given, and the loop that delivers the
  work ends.
\<close>

section \<open>Writing to the buffer\<close>

text \<open>The only user memory that changes is from \<open>B\<close> on and below \<open>E\<close>.\<close>

definition writes_in :: "nat \<Rightarrow> nat \<Rightarrow> driver \<Rightarrow> driver \<Rightarrow> bool" where
  "writes_in B E s s' \<longleftrightarrow> (\<forall>a. a < B \<or> E \<le> a \<longrightarrow> user_mem s' a = user_mem s a)"

text \<open>A position in the buffer from which whole words are left.\<close>

definition in_words :: "nat \<Rightarrow> nat \<Rightarrow> nat \<Rightarrow> bool" where
  "in_words B E ptr \<longleftrightarrow> B \<le> ptr \<and> ptr \<le> E \<and> (E - ptr) mod 4 = 0"

lemma writes_in_refl [simp]: "writes_in B E s s"
  by (simp add: writes_in_def)

lemma writes_in_trans: "writes_in B E s s1 \<Longrightarrow> writes_in B E s1 s2 \<Longrightarrow> writes_in B E s s2"
  by (simp add: writes_in_def)

lemma writes_in_same: "user_mem s2 = user_mem s1 \<Longrightarrow> writes_in B E s s2 = writes_in B E s s1"
  by (simp add: writes_in_def)

lemma in_words_step: "in_words B E ptr \<Longrightarrow> ptr + 4 * k \<le> E \<Longrightarrow> in_words B E (ptr + 4 * k)"
proof -
  assume a: "in_words B E ptr" "ptr + 4 * k \<le> E"
  then have "E - ptr = (E - (ptr + 4 * k)) + 4 * k" by simp
  then have "(E - ptr) mod 4 = (E - (ptr + 4 * k)) mod 4" by (metis mod_mult_self2)
  with a show ?thesis by (simp add: in_words_def)
qed

lemma in_words_room: "in_words B E ptr \<Longrightarrow> ptr < E \<Longrightarrow> ptr + 4 \<le> E"
proof (rule ccontr)
  assume a: "in_words B E ptr" "ptr < E" "\<not> ptr + 4 \<le> E"
  then have "0 < E - ptr" "E - ptr < 4" by auto
  with a(1) show False by (simp add: in_words_def)
qed

lemma put_user_writes:
  "put_user env a v s = Some s' \<Longrightarrow> B \<le> a \<Longrightarrow> a + 4 \<le> E \<Longrightarrow> writes_in B E s s'"
  by (auto simp: put_user_def writes_in_def store32_def split: if_splits)

lemma copy_to_user_writes:
  "copy_to_user env a vs s = Some s' \<Longrightarrow> B \<le> a \<Longrightarrow> a + 4 * length vs \<le> E \<Longrightarrow> writes_in B E s s'"
proof (induction env a vs s rule: copy_to_user.induct)
  case (2 env a v vs s)
  then obtain s1 where s1: "put_user env a v s = Some s1" "copy_to_user env (a + 4) vs s1 = Some s'"
    by (auto split: Option.bind_splits)
  have "writes_in B E s s1" using s1(1) "2.prems" by (intro put_user_writes) auto
  moreover have "writes_in B E s1 s'" using "2.IH" [OF s1] "2.prems" by simp
  ultimately show ?case by (rule writes_in_trans)
qed simp

lemma upd_buffer_mem: "upd_buffer pb f s = Some s' \<Longrightarrow> user_mem s' = user_mem s"
  by (auto simp: upd_buffer_def split: Option.bind_splits)

lemma list_add_mem: "list_add w h s = Some s' \<Longrightarrow> user_mem s' = user_mem s"
  by (auto simp: list_add_def split: if_splits)

lemma kfree_transaction_mem [simp]: "user_mem (kfree_transaction t s) = user_mem s"
  by (simp add: kfree_transaction_def)

lemma txn_priority_mem [simp]: "user_mem (txn_priority env task tx node s) = user_mem s"
  by (simp add: txn_priority_def binder_set_nice_def)

text \<open>How far one round gets.\<close>

fun outcome_in :: "nat \<Rightarrow> nat \<Rightarrow> nat \<Rightarrow> work_outcome \<Rightarrow> bool" where
  "outcome_in B E ptr (Work_next ptr') \<longleftrightarrow> in_words B E ptr' \<and> ptr \<le> ptr'"
| "outcome_in B E ptr (Work_done ptr') \<longleftrightarrow> in_words B E ptr'"
| "outcome_in B E ptr Work_fault \<longleftrightarrow> True"

lemma read_complete_work_in:
  assumes "read_complete_work env c ptr s = (o1, s')" "in_words B E ptr" "ptr + 44 \<le> E"
  shows "writes_in B E s s' \<and> outcome_in B E ptr o1"
  using assms in_words_step [of B E ptr 1]
  unfolding read_complete_work_def
  by (auto dest!: put_user_writes [where B = B and E = E] simp: in_words_def writes_in_def split: option.splits)

lemma read_node_work_in:
  assumes "read_node_work env p n ptr s = Some (o1, s')" "in_words B E ptr" "ptr + 44 \<le> E"
  shows "writes_in B E s s' \<and> outcome_in B E ptr o1"
proof -
  from assms(1) obtain node cmd node' where n: "node_at s n = Some node" "node_command node = (cmd, node')"
    by (auto simp: read_node_work_def split: Option.bind_splits prod.splits)
  show ?thesis
  proof (cases "cmd = BR_NOOP")
    case True
    with assms n show ?thesis
      by (auto simp: read_node_work_def writes_in_def Let_def split: Option.bind_splits if_splits)
  next
    case False
    let ?s1 = "upd_node n (\<lambda>_. node') s"
    from False assms(1) n have "(case copy_to_user env ptr [cmd, node_ptr node, node_cookie node] ?s1 of
        None \<Rightarrow> (Work_fault, ?s1) | Some s \<Rightarrow> (Work_next (ptr + 12), s)) = (o1, s')"
      by (simp add: read_node_work_def Let_def del: copy_to_user.simps)
    moreover have "writes_in B E ?s1 s2" if "copy_to_user env ptr [cmd, node_ptr node, node_cookie node] ?s1 = Some s2" for s2
      by (rule copy_to_user_writes [OF that]) (use assms(2,3) in \<open>auto simp: in_words_def\<close>)
    ultimately show ?thesis using in_words_step [OF assms(2), of 3] assms(3)
      by (auto simp: writes_in_def simp del: copy_to_user.simps split: option.splits)
  qed
qed

lemma read_death_work_in:
  assumes "read_death_work env p d ptr s = Some (o1, s')" "in_words B E ptr" "ptr + 44 \<le> E"
  shows "writes_in B E s s' \<and> outcome_in B E ptr o1"
proof -
  from assms(1) obtain x where x: "death_at s d = Some x"
    by (auto simp: read_death_work_def split: Option.bind_splits)
  let ?cmd = "if death_type x = Clear_death_notification then BR_CLEAR_DEATH_NOTIFICATION_DONE else BR_DEAD_BINDER"
  show ?thesis
  proof (cases "copy_to_user env ptr [?cmd, death_cookie x] s")
    case None
    with assms(1) x show ?thesis by (simp add: read_death_work_def Let_def del: copy_to_user.simps)
  next
    case (Some s1)
    then have "writes_in B E s s1"
      by (rule copy_to_user_writes) (use assms(2,3) in \<open>auto simp: in_words_def\<close>)
    moreover have "user_mem s' = user_mem s1" "o1 = Work_next (ptr + 8) \<or> o1 = Work_done (ptr + 8)"
      using assms(1) x Some
      by (auto simp: read_death_work_def Let_def simp del: copy_to_user.simps dest: list_add_mem
               split: if_splits Option.bind_splits)
    ultimately show ?thesis using in_words_step [OF assms(2), of 2] assms(3) by (auto simp: writes_in_def)
  qed
qed

lemma txn_message_length:
  "txn_message env p tx pb s = Some (cmd, msg) \<Longrightarrow> length msg = 10"
  by (auto simp: txn_message_def Let_def split: Option.bind_splits prod.splits option.splits)

lemma bind_SomeE: "Option.bind m f = Some z \<Longrightarrow> (\<And>v. m = Some v \<Longrightarrow> f v = Some z \<Longrightarrow> P) \<Longrightarrow> P"
  by (auto split: Option.bind_splits)

lemma read_transaction_work_in:
  assumes "read_transaction_work env task p th t ptr s = Some (o1, s')" "in_words B E ptr" "ptr + 44 \<le> E"
  shows "writes_in B E s s' \<and> outcome_in B E ptr o1"
proof -
  from assms(1) [unfolded read_transaction_work_def] obtain tx pb s1 v and bpr :: binder_proc where
      t: "(case buf_target_node (bufs bpr (snd pb)) of
             None \<Rightarrow> Some s
           | Some n \<Rightarrow> do {
               node \<leftarrow> node_at s n;
               Some (txn_priority env task tx node
                      (upd_txn t (\<lambda>x. x\<lparr>saved_priority := nice s (cur_task task)\<rparr>) s))}) = Some s1"
      and v: "txn_message env p tx pb s1 = Some v"
      and r: "(case v of (cmd, msg) \<Rightarrow> (case copy_to_user env ptr (cmd # msg) s1 of
       None \<Rightarrow> Some (Work_fault, s1)
     | Some s \<Rightarrow> do {
         let s = list_del_init (Transaction_work t) s;
         s \<leftarrow> upd_buffer pb (\<lambda>b. b\<lparr>allow_user_free := True\<rparr>) s;
         if cmd = BR_TRANSACTION \<and> txn_flags tx AND TF_ONE_WAY = 0
         then do {
           x \<leftarrow> thread_at s th;
           let s = upd_txn t (\<lambda>y. y\<lparr>to_parent := transaction_stack x, to_thread := Some th\<rparr>) s;
           Some (Work_done (ptr + 44), upd_thread th (\<lambda>x. x\<lparr>transaction_stack := Some t\<rparr>) s)}
         else do {
           s \<leftarrow> upd_buffer pb (\<lambda>b. b\<lparr>buf_transaction := None\<rparr>) s;
           Some (Work_done (ptr + 44), kfree_transaction t s)}})) = Some (o1, s')"
    by (elim bind_SomeE) (rule that; assumption)
  obtain cmd msg where cmd: "v = (cmd, msg)" by (cases v)
  note m = v [unfolded cmd] and rest = r [unfolded cmd prod.case]
  have s1: "user_mem s1 = user_mem s" using t by (auto split: option.splits Option.bind_splits)
  show ?thesis
  proof (cases "copy_to_user env ptr (cmd # msg) s1")
    case None
    with rest s1 show ?thesis by (auto simp: writes_in_def)
  next
    case (Some s2)
    then have "writes_in B E s1 s2"
      by (rule copy_to_user_writes) (use assms(2,3) txn_message_length [OF m] in \<open>auto simp: in_words_def\<close>)
    moreover have "user_mem s' = user_mem s2" "o1 = Work_done (ptr + 44)"
      using rest Some
      by (auto simp: Let_def simp del: copy_to_user.simps dest!: upd_buffer_mem split: Option.bind_splits if_splits)
    ultimately show ?thesis using in_words_step [OF assms(2), of 11] assms(3) s1 by (auto simp: writes_in_def)
  qed
qed

lemma read_work_in:
  assumes "read_work env task p th w ptr s = Some (o1, s')" "in_words B E ptr" "ptr + 44 \<le> E"
  shows "writes_in B E s s' \<and> outcome_in B E ptr o1"
proof (cases w)
  case (Transaction_work t)
  with assms(1) have "read_transaction_work env task p th t ptr s = Some (o1, s')" by (simp add: read_work_def)
  then show ?thesis using assms(2,3) by (rule read_transaction_work_in)
next
  case (Complete_work c)
  with assms(1) have "read_complete_work env c ptr s = (o1, s')" by (simp add: read_work_def)
  then show ?thesis using assms(2,3) by (rule read_complete_work_in)
next
  case (Node_work n)
  with assms(1) have "read_node_work env p n ptr s = Some (o1, s')" by (simp add: read_work_def)
  then show ?thesis using assms(2,3) by (rule read_node_work_in)
next
  case (Death_work d)
  with assms(1) have "read_death_work env p d ptr s = Some (o1, s')" by (simp add: read_work_def)
  then show ?thesis using assms(2,3) by (rule read_death_work_in)
qed

section \<open>The end of a read and its retry\<close>

fun phase_in :: "nat \<Rightarrow> nat \<Rightarrow> read_phase \<Rightarrow> bool" where
  "phase_in B E (Read_wait ptr w) \<longleftrightarrow> in_words B E ptr"
| "phase_in B E (Read_done ret ptr) \<longleftrightarrow> in_words B E ptr"
| "phase_in B E (Read_error ret) \<longleftrightarrow> True"

lemma read_done_in:
  assumes "read_done env p th buffer ptr s = Some (ph, s')" "in_words B E ptr" "B = unat buffer" "B + 4 \<le> E"
  shows "writes_in B E s s' \<and> phase_in B E ph"
proof -
  from assms(1) obtain pr x where pr: "proc_at s p = Some pr" "thread_at s th = Some x"
    by (auto simp: read_done_def split: Option.bind_splits)
  let ?s1 = "upd_proc p (\<lambda>pr. pr\<lparr>requested_threads := requested_threads pr + 1\<rparr>) s"
  have "writes_in B E ?s1 s2" if "put_user env (unat buffer) BR_SPAWN_LOOPER ?s1 = Some s2" for s2
    by (rule put_user_writes [OF that]) (use assms(3,4) in auto)
  then show ?thesis using assms(1,2) pr
    by (auto simp: read_done_def Let_def writes_in_def split: if_splits option.splits)
qed

lemma read_errors_in:
  assumes "read_errors env p th buffer ptr E s = Some (ph, s')" "in_words B E ptr" "ptr < E"
    "B = unat buffer" "B + 4 \<le> E"
  shows "writes_in B E s s' \<and> phase_in B E ph"
proof -
  from assms(1) obtain x where x: "thread_at s th = Some x"
    by (auto simp: read_errors_def split: Option.bind_splits)
  have room: "ptr + 4 \<le> E" using assms(2,3) by (rule in_words_room)
  note next1 = in_words_step [OF assms(2), of 1, simplified, OF room]
  have B: "B \<le> ptr" using assms(2) by (simp add: in_words_def)
  have "writes_in B E s s1" if "put_user env ptr v s = Some s1" for v s1
    using that B room by (rule put_user_writes)
  note w1 = this
  have w2: "writes_in B E s2 s3 \<and> in_words B E (ptr + 8)" if "put_user env (ptr + 4) v s2 = Some s3" "ptr + 4 \<noteq> E" for v s2 s3
  proof -
    have r: "ptr + 8 \<le> E" using in_words_room [OF next1] room that(2) by simp
    then have "writes_in B E s2 s3" using B by (intro put_user_writes [OF that(1)]) auto
    with in_words_step [OF assms(2), of 2] r show ?thesis by simp
  qed
  have fin: "writes_in B E s s' \<and> phase_in B E ph"
    if "read_done env p th buffer q s3 = Some (ph, s')" "writes_in B E s s3" "in_words B E q" for q s3
    using read_done_in [OF that(1,3) assms(4,5)] that(2) by (auto intro: writes_in_trans)
  show ?thesis
  proof (cases "return_error2 x = BR_OK")
    case True
    show ?thesis
    proof (cases "put_user env ptr (return_error x) s")
      case None
      with assms(1) x True show ?thesis by (auto simp: read_errors_def)
    next
      case (Some s1)
      with assms(1) x True
      have "read_done env p th buffer (ptr + 4) (upd_thread th (\<lambda>x. x\<lparr>return_error := BR_OK\<rparr>) s1) = Some (ph, s')"
        by (simp add: read_errors_def)
      moreover have "writes_in B E s (upd_thread th (\<lambda>x. x\<lparr>return_error := BR_OK\<rparr>) s1)"
        using w1 [OF Some] by (simp add: writes_in_def)
      ultimately show ?thesis using next1 by (rule fin)
    qed
  next
    case False
    show ?thesis
    proof (cases "put_user env ptr (return_error2 x) s")
      case None
      with assms(1) x False show ?thesis by (auto simp: read_errors_def)
    next
      case (Some s1)
      note ws = w1 [OF Some]
      let ?s2 = "upd_thread th (\<lambda>x. x\<lparr>return_error2 := BR_OK\<rparr>) s1"
      show ?thesis
      proof (cases "ptr + 4 = E \<or> put_user env (ptr + 4) (return_error x) ?s2 = None")
        case True
        then consider "ptr + 4 = E" | "ptr + 4 \<noteq> E" "put_user env (ptr + 4) (return_error x) ?s2 = None" by metis
        then show ?thesis
        proof cases
          case 1
          with assms(1) x False Some have "read_done env p th buffer (ptr + 4) s1 = Some (ph, s')"
            by (simp add: read_errors_def Let_def)
          then show ?thesis using ws next1 by (rule fin)
        next
          case 2
          with assms(1) x False Some have "(ph, s') = (Read_error (- EFAULT), ?s2)"
            by (simp add: read_errors_def Let_def)
          with ws show ?thesis by (simp add: writes_in_def)
        qed
      next
        case neither: False
        then obtain s3 where s3: "put_user env (ptr + 4) (return_error x) ?s2 = Some s3" by auto
        with assms(1) x False Some neither
        have "read_done env p th buffer (ptr + 8) (upd_thread th (\<lambda>x. x\<lparr>return_error := BR_OK\<rparr>) s3) = Some (ph, s')"
          by (simp add: read_errors_def Let_def)
        moreover have "writes_in B E s (upd_thread th (\<lambda>x. x\<lparr>return_error := BR_OK\<rparr>) s3)"
          using ws w2 [OF s3] neither by (simp add: writes_in_def)
        ultimately show ?thesis using w2 [OF s3] neither by (intro fin) auto
      qed
    qed
  qed
qed

lemma read_retry_in:
  assumes "read_retry env p th buffer ptr E s = Some (ph, s')" "in_words B E ptr" "B = unat buffer" "B + 4 \<le> E"
  shows "writes_in B E s s' \<and> phase_in B E ph"
proof -
  from assms(1) obtain x where x: "thread_at s th = Some x"
    by (auto simp: read_retry_def split: Option.bind_splits)
  show ?thesis
  proof (cases "return_error x \<noteq> BR_OK \<and> ptr < E")
    case True
    with assms(1) x have "read_errors env p th buffer ptr E s = Some (ph, s')" by (simp add: read_retry_def)
    then show ?thesis using assms(2-4) True by (intro read_errors_in) auto
  next
    case False
    with assms(1,2) x show ?thesis
      by (auto simp: read_retry_def Let_def writes_in_def split: Option.bind_splits)
  qed
qed

section \<open>The whole read\<close>

lemma sub32_room: "ptr \<le> E \<Longrightarrow> E < 2 ^ 32 \<Longrightarrow> sub32 E ptr = E - ptr"
  by (rule sub32_exact) simp_all

lemma read_loop_in:
  assumes "read_loop env task p th w buffer ptr E s = Some r" "in_words B E ptr" "B = unat buffer" "B + 4 \<le> E"
    "E < 2 ^ 32"
  shows "writes_in B E s (snd r) \<and> phase_in B E (fst r)"
proof -
  let ?P = "\<lambda>env task p th w buffer ptr E s r. \<forall>B. in_words B E ptr \<longrightarrow> B = unat buffer \<longrightarrow> B + 4 \<le> E \<longrightarrow>
     E < 2 ^ 32 \<longrightarrow> writes_in B E s (snd r) \<and> phase_in B E (fst r)"
  have "?P env task p th w buffer ptr E s r"
  proof (rule read_loop.raw_induct [where P = ?P, OF _ assms(1)], goal_cases)
    case (1 loop env task p th w buffer ptr E s r)
    show ?case
    proof (intro allI impI)
      fix B assume ptr: "in_words B E ptr" and B: "B = unat buffer" "B + 4 \<le> E" and E: "E < 2 ^ 32"
      have room: "sub32 E ptr = E - ptr" using ptr E by (intro sub32_room) (auto simp: in_words_def)
      have done_in: "writes_in B E s (snd r) \<and> phase_in B E (fst r)"
        if "read_done env p th buffer q s1 = Some r" "writes_in B E s s1" "in_words B E q" for q s1
        using read_done_in [of env p th buffer q s1 "fst r" "snd r", OF _ that(3) B] that(1,2)
        by (auto intro: writes_in_trans)
      show "writes_in B E s (snd r) \<and> phase_in B E (fst r)"
      proof (cases "next_work p th w s")
        case None
        then consider "read_retry env p th buffer ptr E s = Some r" | "read_done env p th buffer ptr s = Some r"
          using 1(2) by (auto split: Option.bind_splits if_splits)
        then show ?thesis
        proof cases
          case 1
          then show ?thesis using read_retry_in [of env p th buffer ptr E s "fst r" "snd r", OF _ ptr B] by simp
        next
          case 2
          then show ?thesis using ptr by (intro done_in) auto
        qed
      next
        case (Some wk)
        show ?thesis
        proof (cases "E - ptr < 44")
          case True
          with 1(2) Some room have "read_done env p th buffer ptr s = Some r" by simp
          then show ?thesis using ptr by (intro done_in) auto
        next
          case False
          with 1(2) Some room have "Option.bind (read_work env task p th wk ptr s) (\<lambda>v.
              (case fst v of
               Work_fault \<Rightarrow> Some (Read_error (- EFAULT), snd v)
             | Work_done ptr' \<Rightarrow> read_done env p th buffer ptr' (snd v)
             | Work_next ptr' \<Rightarrow> loop env task p th w buffer ptr' E (snd v))) = Some r"
            by simp
          then obtain o1 s1 where o1: "read_work env task p th wk ptr s = Some (o1, s1)"
              "(case o1 of
               Work_fault \<Rightarrow> Some (Read_error (- EFAULT), s1)
             | Work_done ptr' \<Rightarrow> read_done env p th buffer ptr' s1
             | Work_next ptr' \<Rightarrow> loop env task p th w buffer ptr' E s1) = Some r"
            by (elim bind_SomeE) (metis prod.collapse)
          have w1: "writes_in B E s s1 \<and> outcome_in B E ptr o1"
            by (rule read_work_in [OF o1(1) ptr]) (use False in simp)
          show ?thesis
          proof (cases o1)
            case (Work_next q)
            with o1(2) have "loop env task p th w buffer q E s1 = Some r" by simp
            from 1(1) [OF this] B E w1 Work_next
            have "writes_in B E s1 (snd r) \<and> phase_in B E (fst r)" by auto
            with w1 show ?thesis by (auto intro: writes_in_trans)
          next
            case (Work_done q)
            with o1(2) w1 show ?thesis by (intro done_in) auto
          next
            case Work_fault
            with o1(2) w1 show ?thesis by auto
          qed
        qed
      qed
    qed
  qed
  with assms show ?thesis by blast
qed

text \<open>A thread reads into \<open>sz\<close> bytes from \<open>buffer\<close> on, of which \<open>consumed\<close> are filled.\<close>

definition read_span :: "u32 \<Rightarrow> u32 \<Rightarrow> u32 \<Rightarrow> bool" where
  "read_span buffer sz consumed \<longleftrightarrow> unat buffer + unat sz < 2 ^ 32 \<and> 4 dvd unat sz \<and> 4 dvd unat consumed \<and>
     consumed \<le> sz \<and> 4 \<le> sz"

lemma read_span_words:
  assumes "read_span buffer sz consumed"
  shows "unat (buffer + sz) = unat buffer + unat sz" "unat (buffer + consumed) = unat buffer + unat consumed"
    "in_words (unat buffer) (unat buffer + unat sz) (unat buffer + unat consumed)" "4 \<le> unat sz"
proof -
  have c: "unat consumed \<le> unat sz" "4 \<le> unat sz" using assms by (auto simp: read_span_def word_le_nat_alt)
  show "unat (buffer + sz) = unat buffer + unat sz"
    using assms by (simp add: read_span_def unat_plus_if_size word_size)
  show "unat (buffer + consumed) = unat buffer + unat consumed"
    using assms c by (simp add: read_span_def unat_plus_if_size word_size)
  have "4 dvd unat sz - unat consumed" using assms by (simp add: read_span_def dvd_diff_nat)
  with c show "in_words (unat buffer) (unat buffer + unat sz) (unat buffer + unat consumed)" "4 \<le> unat sz"
    by (simp_all add: in_words_def)
qed

lemma read_start_in:
  assumes "read_start env p th buffer sz consumed s = Some (ph, s')" "read_span buffer sz consumed"
  shows "writes_in (unat buffer) (unat buffer + unat sz) s s' \<and> phase_in (unat buffer) (unat buffer + unat sz) ph"
proof -
  let ?B = "unat buffer" and ?E = "unat buffer + unat sz"
  note w = read_span_words [OF assms(2)]
  show ?thesis
  proof (cases "consumed = 0")
    case False
    with assms(1) w have "read_retry env p th buffer (?B + unat consumed) ?E s = Some (ph, s')"
      by (simp add: read_start_def Let_def)
    then show ?thesis using w by (intro read_retry_in) auto
  next
    case True
    show ?thesis
    proof (cases "put_user env ?B BR_NOOP s")
      case None
      with assms(1) w True show ?thesis by (auto simp: read_start_def Let_def)
    next
      case (Some s1)
      with assms(1) w True have r: "read_retry env p th buffer (?B + 4) ?E s1 = Some (ph, s')"
        by (simp add: read_start_def Let_def)
      have "in_words ?B ?E ?B" using w True by simp
      from in_words_step [OF this, of 1] w(4) have "in_words ?B ?E (?B + 4)" by simp
      from read_retry_in [OF r this refl] w(4)
      have "writes_in ?B ?E s1 s' \<and> phase_in ?B ?E ph" by simp
      moreover have "writes_in ?B ?E s s1" using Some w(4) by (intro put_user_writes) auto
      ultimately show ?thesis by (auto intro: writes_in_trans)
    qed
  qed
qed

lemma read_resume_in:
  assumes "read_resume env task p th w ret buffer ptr (unat (buffer + sz)) s = Some (ph, s')"
    "read_span buffer sz consumed" "in_words (unat buffer) (unat buffer + unat sz) ptr"
  shows "writes_in (unat buffer) (unat buffer + unat sz) s s' \<and> phase_in (unat buffer) (unat buffer + unat sz) ph"
proof -
  let ?B = "unat buffer" and ?E = "unat buffer + unat sz"
  note w = read_span_words [OF assms(2)]
  have E: "?E < 2 ^ 32" using assms(2) by (simp add: read_span_def)
  let ?s1 = "upd_thread th (\<lambda>x. x\<lparr>looper := looper x AND NOT LOOPER_WAITING\<rparr>)
     (if w then upd_proc p (\<lambda>pr. pr\<lparr>ready_threads := ready_threads pr - 1\<rparr>) s else s)"
  have m: "user_mem ?s1 = user_mem s" by simp
  have "(if ret \<noteq> 0 then Some (Read_error ret, ?s1) else read_loop env task p th w buffer ptr ?E ?s1) = Some (ph, s')"
    using assms(1) unfolding read_resume_def Let_def w(1) by (elim bind_SomeE)
  with m obtain s1 where s1: "user_mem s1 = user_mem s"
      and r: "(if ret \<noteq> 0 then Some (Read_error ret, s1) else read_loop env task p th w buffer ptr ?E s1) = Some (ph, s')"
    by blast
  show ?thesis
  proof (cases "ret = 0")
    case True
    with r have "read_loop env task p th w buffer ptr ?E s1 = Some (ph, s')" by simp
    from read_loop_in [OF this assms(3) refl _ E] w(4) s1 show ?thesis by (simp add: writes_in_def)
  next
    case False
    with r s1 show ?thesis by (auto simp: writes_in_def)
  qed
qed

end
