(* ===== verification/ReadLoop.thy ===== *)
theory ReadLoop
  imports ReadSpec
begin

text \<open>
  The loop of binder_thread_read (driver/binder/binder.c) ends: every round fills a part of
  the buffer or takes a work off a list, and no round stops the machine when the work in the
  lists is alive.
\<close>

section \<open>Work that is alive\<close>

text \<open>
  A transaction in a list keeps a strong reference to its node: a strong count that is not
  0, nor will be when BR_ACQUIRE adds one more to the local one and it wraps around.
\<close>

definition node_held :: "binder_node \<Rightarrow> bool" where
  "node_held node \<longleftrightarrow> internal_strong_refs node \<noteq> 0 \<or>
     (local_strong_refs node \<noteq> 0 \<and> (has_strong_ref node \<or> local_strong_refs node \<noteq> - 1))"

definition target_of :: "driver \<Rightarrow> nat \<times> nat \<Rightarrow> nat option" where
  "target_of s pb = (case proc_at s (fst pb) of None \<Rightarrow> None | Some pr \<Rightarrow> buf_target_node (bufs pr (snd pb)))"

definition txn_alive :: "driver \<Rightarrow> nat \<Rightarrow> bool" where
  "txn_alive s t \<longleftrightarrow> (\<exists>tx pb. txn_at s t = Some tx \<and> txn_buffer tx = Some pb \<and> buffer_present s pb \<and>
     (\<forall>n. target_of s pb = Some n \<longrightarrow> (\<exists>node. node_at s n = Some node \<and> node_held node)) \<and>
     (\<forall>f. txn_from tx = Some f \<longrightarrow> (\<exists>x. thread_at s f = Some x \<and> proc_at s (thread_proc x) \<noteq> None)))"

fun work_alive :: "driver \<Rightarrow> work \<Rightarrow> bool" where
  "work_alive s (Transaction_work t) \<longleftrightarrow> txn_alive s t"
| "work_alive s (Complete_work c) \<longleftrightarrow> True"
| "work_alive s (Node_work n) \<longleftrightarrow> node_at s n \<noteq> None"
| "work_alive s (Death_work d) \<longleftrightarrow> death_at s d \<noteq> None"

definition todo_alive :: "driver \<Rightarrow> nat \<Rightarrow> nat \<Rightarrow> bool" where
  "todo_alive s p th \<longleftrightarrow> lists_ok s \<and> proc_at s p \<noteq> None \<and> thread_at s th \<noteq> None \<and>
     (\<forall>w \<in> set (lists s (Thread_todo th)) \<union> set (lists s (Proc_todo p)). work_alive s w)"

definition todo_length :: "driver \<Rightarrow> nat \<Rightarrow> nat \<Rightarrow> nat" where
  "todo_length s p th = length (lists s (Thread_todo th)) + length (lists s (Proc_todo p))"

lemma next_work_in:
  "next_work p th w s = Some wk \<Longrightarrow> wk \<in> set (lists s (Thread_todo th)) \<union> set (lists s (Proc_todo p))"
  by (auto simp: next_work_def split: list.splits if_splits)

lemma todo_alive_work:
  "todo_alive s p th \<Longrightarrow> w \<in> set (lists s (Thread_todo th)) \<union> set (lists s (Proc_todo p)) \<Longrightarrow> work_alive s w"
  unfolding todo_alive_def by blast

section \<open>Taking a work off its list\<close>

lemma del_init_lists:
  assumes "lists_ok s"
  shows "lists (list_del_init w s) h = remove1 w (lists s h)"
  using assms by (auto simp: list_del_init_def lists_ok_def remove1_idem split: option.splits)

lemma del_init_sets:
  "lists_ok s \<Longrightarrow> set (lists (list_del_init w s) h) = set (lists s h) - {w}"
  by (simp add: del_init_lists) (simp add: lists_ok_def)

lemma del_init_length:
  assumes "lists_ok s" "w \<in> set (lists s (Thread_todo th)) \<union> set (lists s (Proc_todo p))"
  shows "todo_length (list_del_init w s) p th < todo_length s p th"
proof -
  have le: "length (remove1 w xs) \<le> length xs" for xs :: "work list" by (simp add: length_remove1)
  have less: "length (remove1 w xs) < length xs" if "w \<in> set xs" for xs :: "work list"
    using that by (auto simp: length_remove1 dest: length_pos_if_in_set)
  show ?thesis
    using assms(2) le [of "lists s (Thread_todo th)"] le [of "lists s (Proc_todo p)"] less
    by (auto simp: todo_length_def del_init_lists [OF assms(1)] intro: add_less_le_mono add_le_less_mono)
qed

text \<open>What a round leaves alone, apart from the work it delivers.\<close>

definition same_txns :: "driver \<Rightarrow> driver \<Rightarrow> bool" where
  "same_txns s s' \<longleftrightarrow> txn_at s' = txn_at s \<and> thread_at s' = thread_at s \<and>
     (\<forall>p. map_option (\<lambda>pr. (buffers pr, bufs pr)) (proc_at s' p) = map_option (\<lambda>pr. (buffers pr, bufs pr)) (proc_at s p)) \<and>
     (\<forall>n node. node_at s n = Some node \<longrightarrow> node_held node \<longrightarrow> (\<exists>node'. node_at s' n = Some node' \<and> node_held node'))"

lemma same_txns_proc:
  assumes "same_txns s s'"
  shows "proc_at s' p = None \<longleftrightarrow> proc_at s p = None" "buffer_present s' pb = buffer_present s pb"
    "target_of s' pb = target_of s pb"
proof -
  have m: "map_option (\<lambda>pr. (buffers pr, bufs pr)) (proc_at s' q) = map_option (\<lambda>pr. (buffers pr, bufs pr)) (proc_at s q)" for q
    using assms by (simp add: same_txns_def)
  show "proc_at s' p = None \<longleftrightarrow> proc_at s p = None" using m [of p] by (cases "proc_at s p"; cases "proc_at s' p") auto
  show "buffer_present s' pb = buffer_present s pb"
    using m [of "fst pb"] by (cases "proc_at s (fst pb)"; cases "proc_at s' (fst pb)") (auto simp: buffer_present_def)
  show "target_of s' pb = target_of s pb"
    using m [of "fst pb"] by (cases "proc_at s (fst pb)"; cases "proc_at s' (fst pb)") (auto simp: target_of_def)
qed

lemma same_txns_alive:
  assumes "same_txns s s'" "txn_alive s t"
  shows "txn_alive s' t"
proof -
  from assms(2) obtain tx pb where t: "txn_at s t = Some tx" "txn_buffer tx = Some pb" "buffer_present s pb"
      and n: "\<And>n. target_of s pb = Some n \<Longrightarrow> \<exists>node. node_at s n = Some node \<and> node_held node"
      and f: "\<And>f. txn_from tx = Some f \<Longrightarrow> \<exists>x. thread_at s f = Some x \<and> proc_at s (thread_proc x) \<noteq> None"
    unfolding txn_alive_def by blast
  have same: "txn_at s' = txn_at s" "thread_at s' = thread_at s"
      "\<And>n node. node_at s n = Some node \<Longrightarrow> node_held node \<Longrightarrow> \<exists>node'. node_at s' n = Some node' \<and> node_held node'"
    using assms(1) by (auto simp: same_txns_def)
  note p = same_txns_proc [OF assms(1)]
  have "\<exists>node. node_at s' n = Some node \<and> node_held node" if "target_of s' pb = Some n" for n
    using n same(3) that unfolding p(3) by blast
  moreover have "\<exists>x. thread_at s' f = Some x \<and> proc_at s' (thread_proc x) \<noteq> None" if "txn_from tx = Some f" for f
    using f [OF that] unfolding same(2) p(1) .
  ultimately show ?thesis using t unfolding txn_alive_def same(1) p(2) by blast
qed

text \<open>After a round that goes on, the lists hold a part of the same work, and it is alive.\<close>

lemma todo_alive_round:
  assumes "todo_alive s p th" "lists_ok s'" "same_txns s s'"
    and "\<And>h. set (lists s' h) \<subseteq> set (lists s h)"
    and "\<And>n h. Node_work n \<in> set (lists s' h) \<Longrightarrow> node_at s n \<noteq> None \<Longrightarrow> node_at s' n \<noteq> None"
    and "\<And>d h. Death_work d \<in> set (lists s' h) \<Longrightarrow> death_at s d \<noteq> None \<Longrightarrow> death_at s' d \<noteq> None"
  shows "todo_alive s' p th"
proof -
  have "work_alive s' w" if "w \<in> set (lists s' h)" "work_alive s w" for w h
  proof (cases w)
    case (Node_work n)
    with that assms(5) [of n h] show ?thesis by simp
  next
    case (Death_work d)
    with that assms(6) [of d h] show ?thesis by simp
  next
    case (Transaction_work t)
    with that same_txns_alive [OF assms(3)] show ?thesis by simp
  qed simp
  moreover have "thread_at s' th \<noteq> None" using assms(1,3) by (simp add: todo_alive_def same_txns_def)
  ultimately show ?thesis
    using assms(1,2,4) unfolding todo_alive_def same_txns_proc(1) [OF assms(3)] by blast
qed

section \<open>One round\<close>

text \<open>
  A round with alive work goes through; when the loop goes on after it, the rest of the work
  is alive and there is less of it, or less of the buffer.
\<close>

definition round_ok :: "nat \<Rightarrow> nat \<Rightarrow> nat \<Rightarrow> driver \<Rightarrow> (work_outcome \<times> driver) option \<Rightarrow> bool" where
  "round_ok p th ptr s r \<longleftrightarrow> (\<exists>o1 s'. r = Some (o1, s') \<and> proc_at s' p \<noteq> None \<and> thread_at s' th \<noteq> None \<and>
     (\<forall>q. o1 = Work_next q \<longrightarrow> todo_alive s' p th \<and>
        (q = ptr \<and> todo_length s' p th < todo_length s p th \<or>
         ptr < q \<and> todo_length s' p th \<le> todo_length s p th)))"

lemma put_user_only_mem: "put_user env a v s = Some s' \<Longrightarrow> \<exists>m. s' = s\<lparr>user_mem := m\<rparr>"
  by (auto simp: put_user_def split: if_splits)

lemma copy_to_user_only_mem: "copy_to_user env a vs s = Some s' \<Longrightarrow> \<exists>m. s' = s\<lparr>user_mem := m\<rparr>"
proof (induction env a vs s rule: copy_to_user.induct)
  case (1 env a s)
  then show ?case by (intro exI [of _ "user_mem s"]) simp
next
  case (2 env a v vs s)
  then obtain s1 where s1: "put_user env a v s = Some s1" "copy_to_user env (a + 4) vs s1 = Some s'"
    by (auto split: Option.bind_splits)
  with "2.IH" [OF s1] put_user_only_mem [OF s1(1)] show ?case by auto
qed

lemma lists_ok_mem [simp]:
  "lists_ok (s\<lparr>user_mem := m\<rparr>) = lists_ok s" "lists_ok (s\<lparr>node_at := na\<rparr>) = lists_ok s"
  "lists_ok (s\<lparr>death_at := da\<rparr>) = lists_ok s" "lists_ok (upd_proc p f s) = lists_ok s"
  "lists_ok (upd_node n nf s) = lists_ok s" "lists_ok (binder_stats_deleted ty s) = lists_ok s"
  by (simp_all add: lists_ok_def)

lemma read_complete_work_round:
  assumes "todo_alive s p th" "Complete_work c \<in> set (lists s (Thread_todo th)) \<union> set (lists s (Proc_todo p))"
  shows "round_ok p th ptr s (Some (read_complete_work env c ptr s))"
proof (cases "put_user env ptr BR_TRANSACTION_COMPLETE s")
  case None
  with assms(1) show ?thesis by (simp add: read_complete_work_def round_ok_def todo_alive_def)
next
  case (Some s1)
  then obtain m where m: "s1 = s\<lparr>user_mem := m\<rparr>" using put_user_only_mem by blast
  define s' where "s' = binder_stats_deleted Stat_transaction_complete (list_del_init (Complete_work c) s1)"
  have ok: "lists_ok s1" using assms(1) by (simp add: m todo_alive_def)
  have "todo_alive s' p th"
  proof (rule todo_alive_round [OF assms(1)])
    show "lists_ok s'" using ok by (simp add: s'_def list_del_init_ok)
    show "same_txns s s'" by (simp add: same_txns_def s'_def m)
    show "set (lists s' h) \<subseteq> set (lists s h)" for h
      using del_init_sets [OF ok] by (simp add: s'_def) (auto simp: m)
  qed (simp_all add: s'_def m)
  moreover have "todo_length s' p th < todo_length s p th"
    using del_init_length [OF ok, of "Complete_work c" th p] assms(2) by (simp add: s'_def todo_length_def m)
  ultimately show ?thesis
    using Some by (simp add: read_complete_work_def round_ok_def s'_def [symmetric] todo_alive_def)
qed

lemma node_command_held: "node_command node = (cmd, node') \<Longrightarrow> node_held node \<Longrightarrow> node_held node'"
  by (auto simp: node_command_def Let_def node_held_def eq_neg_iff_add_eq_0 split: if_splits)

lemma node_command_noop: "node_command node = (BR_NOOP, node') \<Longrightarrow> node' = node"
  by (auto simp: node_command_def Let_def br_codes split: if_splits)

lemma same_txns_node:
  assumes "node_at s n = Some node" "node_held node \<Longrightarrow> node_held node'"
  shows "same_txns s (upd_node n (\<lambda>_. node') s)"
  using assms by (auto simp: same_txns_def)

lemma same_txns_trans: "same_txns s s1 \<Longrightarrow> same_txns s1 s2 \<Longrightarrow> same_txns s s2"
  unfolding same_txns_def by metis

lemma read_node_work_round:
  assumes alive: "todo_alive s p th" and n: "Node_work n \<in> set (lists s (Thread_todo th)) \<union> set (lists s (Proc_todo p))"
  shows "round_ok p th ptr s (read_node_work env p n ptr s)"
proof -
  from todo_alive_work [OF alive n] obtain node where node: "node_at s n = Some node" by auto
  obtain cmd node' where cmd: "node_command node = (cmd, node')" by (cases "node_command node")
  define s0 where "s0 = upd_node n (\<lambda>_. node') s"
  have ok: "lists_ok s0" using alive by (simp add: s0_def todo_alive_def)
  have s0: "same_txns s s0" unfolding s0_def using node node_command_held [OF cmd] by (rule same_txns_node)
  have ex: "proc_at s p \<noteq> None" "thread_at s th \<noteq> None" using alive by (simp_all add: todo_alive_def)
  show ?thesis
  proof (cases "cmd = BR_NOOP")
    case False
    then have r: "read_node_work env p n ptr s = Some (case copy_to_user env ptr [cmd, node_ptr node, node_cookie node] s0 of
        None \<Rightarrow> (Work_fault, s0) | Some s \<Rightarrow> (Work_next (ptr + 12), s))"
      unfolding s0_def by (simp add: read_node_work_def node cmd Let_def del: copy_to_user.simps)
    show ?thesis
    proof (cases "copy_to_user env ptr [cmd, node_ptr node, node_cookie node] s0")
      case None
      with r ex show ?thesis by (simp add: round_ok_def s0_def del: copy_to_user.simps)
    next
      case (Some s1)
      then obtain m where m: "s1 = s0\<lparr>user_mem := m\<rparr>" using copy_to_user_only_mem by blast
      have "todo_alive s1 p th"
      proof (rule todo_alive_round [OF alive])
        show "same_txns s s1" by (rule same_txns_trans [OF s0]) (simp add: same_txns_def m)
      qed (use ok node in \<open>auto simp: m s0_def\<close>)
      moreover have "todo_length s1 p th = todo_length s p th" by (simp add: todo_length_def m s0_def)
      ultimately show ?thesis using r Some by (simp add: round_ok_def todo_alive_def del: copy_to_user.simps)
    qed
  next
    case True
    then have same: "node' = node" using cmd node_command_noop by blast
    let ?strong = "internal_strong_refs node \<noteq> 0 \<or> local_strong_refs node \<noteq> 0"
    let ?weak = "node_refs node \<noteq> [] \<or> local_weak_refs node \<noteq> 0 \<or> ?strong"
    define s1 where "s1 = list_del_init (Node_work n) s0"
    define s' where "s' = (if \<not> ?weak \<and> \<not> ?strong
         then binder_stats_deleted Stat_node
                ((upd_proc p (\<lambda>pr. pr\<lparr>nodes_root := rb_erase env n (nodes_root pr)\<rparr>) s1)
                   \<lparr>node_at := (node_at s1)(n := None)\<rparr>)
         else s1)"
    obtain pr where pr: "proc_at s p = Some pr" using ex by auto
    have r: "read_node_work env p n ptr s = Some (Work_next ptr, s')"
      using True by (simp add: read_node_work_def node cmd pr s0_def s1_def s'_def Let_def)
    have lists: "lists s' = lists s1" by (simp add: s'_def)
    have at: "node_at s' = (if \<not> ?weak \<and> \<not> ?strong then (node_at s)(n := None) else node_at s)"
      by (auto simp: s'_def s1_def s0_def same node fun_eq_iff)
    have procs: "map_option (\<lambda>pr. (buffers pr, bufs pr)) (proc_at s' q) = map_option (\<lambda>pr. (buffers pr, bufs pr)) (proc_at s q)" for q
      by (simp add: s'_def s1_def s0_def option.map_comp o_def)
    have alive': "todo_alive s' p th"
    proof (rule todo_alive_round [OF alive])
      have "lists_ok s1" using ok by (simp add: s1_def list_del_init_ok)
      then show "lists_ok s'" by (simp add: lists_ok_def s'_def)
      have "txn_at s' = txn_at s" "thread_at s' = thread_at s" by (simp_all add: s'_def s1_def s0_def)
      moreover have "\<exists>x'. node_at s' v = Some x' \<and> node_held x'" if "node_at s v = Some x" "node_held x" for v x
        using that node unfolding at by (auto simp: node_held_def)
      ultimately show "same_txns s s'" using procs unfolding same_txns_def by blast
      show "set (lists s' h) \<subseteq> set (lists s h)" for h
        using del_init_sets [OF ok, of "Node_work n" h] by (auto simp: lists s1_def s0_def)
      fix v h assume "Node_work v \<in> set (lists s' h)" "node_at s v \<noteq> None"
      moreover from this(1) have "v \<noteq> n" using del_init_sets [OF ok, of "Node_work n" h] by (auto simp: lists s1_def)
      ultimately show "node_at s' v \<noteq> None" unfolding at by simp
    qed (simp add: s'_def s1_def s0_def)
    have "todo_length s1 p th < todo_length s p th"
      using del_init_length [OF ok, of "Node_work n" th p] n by (simp add: s1_def todo_length_def s0_def)
    then have "todo_length s' p th < todo_length s p th" by (simp add: todo_length_def lists)
    with r alive' show ?thesis by (simp add: round_ok_def todo_alive_def)
  qed
qed

lemma read_death_work_round:
  assumes alive: "todo_alive s p th" and d: "Death_work d \<in> set (lists s (Thread_todo th)) \<union> set (lists s (Proc_todo p))"
  shows "round_ok p th ptr s (read_death_work env p d ptr s)"
proof -
  from todo_alive_work [OF alive d] obtain x where x: "death_at s d = Some x" by auto
  have ex: "proc_at s p \<noteq> None" "thread_at s th \<noteq> None" using alive by (simp_all add: todo_alive_def)
  let ?cmd = "if death_type x = Clear_death_notification then BR_CLEAR_DEATH_NOTIFICATION_DONE else BR_DEAD_BINDER"
  show ?thesis
  proof (cases "copy_to_user env ptr [?cmd, death_cookie x] s")
    case None
    with x ex show ?thesis by (simp add: read_death_work_def round_ok_def Let_def del: copy_to_user.simps)
  next
    case (Some s1)
    then obtain m where m: "s1 = s\<lparr>user_mem := m\<rparr>" using copy_to_user_only_mem by blast
    have ok: "lists_ok s1" using alive by (simp add: m todo_alive_def)
    define s2 where "s2 = list_del_init (Death_work d) s1"
    show ?thesis
    proof (cases "death_type x = Clear_death_notification")
      case True
      define s' where "s' = binder_stats_deleted Stat_death (s2\<lparr>death_at := (death_at s2)(d := None)\<rparr>)"
      have r: "read_death_work env p d ptr s = Some (Work_next (ptr + 8), s')"
        using Some x True by (simp add: read_death_work_def Let_def s'_def s2_def del: copy_to_user.simps)
      have "todo_alive s' p th"
      proof (rule todo_alive_round [OF alive])
        show "lists_ok s'" using ok by (simp add: s'_def s2_def list_del_init_ok)
        show "same_txns s s'" by (simp add: same_txns_def s'_def s2_def m)
        show "set (lists s' h) \<subseteq> set (lists s h)" for h
          using del_init_sets [OF ok, of "Death_work d" h] by (simp add: s'_def s2_def) (auto simp: m)
        fix v h assume "Death_work v \<in> set (lists s' h)" "death_at s v \<noteq> None"
        moreover from this(1) have "v \<noteq> d"
          using del_init_sets [OF ok, of "Death_work d" h] by (auto simp: s'_def s2_def)
        ultimately show "death_at s' v \<noteq> None" by (simp add: s'_def s2_def m)
      qed (simp add: s'_def s2_def m)
      moreover have "todo_length s' p th < todo_length s p th"
        using del_init_length [OF ok, of "Death_work d" th p] d by (simp add: s'_def s2_def todo_length_def m)
      ultimately show ?thesis using r by (simp add: round_ok_def todo_alive_def)
    next
      case False
      have "linked s2 (Death_work d) = None" using list_del_init_ok(2) [OF ok] by (simp add: s2_def)
      then obtain s3 where s3: "list_add (Death_work d) (Delivered_death p) s2 = Some s3"
          "proc_at s3 = proc_at s2" "thread_at s3 = thread_at s2"
        by (simp add: list_add_def)
      have "read_death_work env p d ptr s = Some (Work_done (ptr + 8), s3)"
        using Some x False s3(1) by (simp add: read_death_work_def Let_def s2_def del: copy_to_user.simps)
      with s3 ex show ?thesis by (simp add: round_ok_def s2_def m)
    qed
  qed
qed

lemma loopers_proc_at: "loopers s' = loopers s \<Longrightarrow> proc_at s' p = None \<longleftrightarrow> proc_at s p = None"
  by (simp add: loopers_def fun_eq_iff) (metis map_option_is_None)

lemma loopers_thread_at: "loopers s' = loopers s \<Longrightarrow> thread_at s' th = None \<longleftrightarrow> thread_at s th = None"
  by (simp add: loopers_def fun_eq_iff) (metis map_option_is_None)

text \<open>The message of an alive transaction can be built.\<close>

lemma txn_alive_parts:
  assumes "txn_alive s t"
  obtains tx pb bpr where "txn_at s t = Some tx" "txn_buffer tx = Some pb" "buffer_present s pb"
    "proc_at s (fst pb) = Some bpr"
    "\<forall>n. buf_target_node (bufs bpr (snd pb)) = Some n \<longrightarrow> (\<exists>node. node_at s n = Some node)"
    "\<forall>f. txn_from tx = Some f \<longrightarrow> (\<exists>x. thread_at s f = Some x \<and> proc_at s (thread_proc x) \<noteq> None)"
proof -
  from assms obtain tx pb where a: "txn_at s t = Some tx" "txn_buffer tx = Some pb" "buffer_present s pb"
      "\<forall>n. target_of s pb = Some n \<longrightarrow> (\<exists>node. node_at s n = Some node \<and> node_held node)"
      "\<forall>f. txn_from tx = Some f \<longrightarrow> (\<exists>x. thread_at s f = Some x \<and> proc_at s (thread_proc x) \<noteq> None)"
    unfolding txn_alive_def by blast
  from a(3) obtain bpr where b: "proc_at s (fst pb) = Some bpr" by (auto simp: buffer_present_def)
  with a(4) have "\<forall>n. buf_target_node (bufs bpr (snd pb)) = Some n \<longrightarrow> (\<exists>node. node_at s n = Some node)"
    by (auto simp: target_of_def)
  with a b show ?thesis by (intro that)
qed

lemma txn_message_alive:
  assumes "txn_at s t = Some tx" "txn_buffer tx = Some pb" "txn_alive s t" "proc_at s p \<noteq> None"
  shows "txn_message env p tx pb s \<noteq> None"
proof -
  from assms(3) obtain bpr where b: "proc_at s (fst pb) = Some bpr"
      and n: "\<forall>n. buf_target_node (bufs bpr (snd pb)) = Some n \<longrightarrow> (\<exists>node. node_at s n = Some node)"
      and f: "\<forall>f. txn_from tx = Some f \<longrightarrow> (\<exists>x. thread_at s f = Some x \<and> proc_at s (thread_proc x) \<noteq> None)"
    by (rule txn_alive_parts) (use assms(1,2) in simp)
  have "\<exists>v. (case buf_target_node (bufs bpr (snd pb)) of
         Some n \<Rightarrow> map_option (\<lambda>node. (BR_TRANSACTION, node_ptr node, node_cookie node)) (node_at s n)
       | None \<Rightarrow> Some (BR_REPLY, 0, 0)) = Some v"
    using n by (auto split: option.split)
  moreover have "\<exists>v. (case txn_from tx of
         None \<Rightarrow> Some 0
       | Some th \<Rightarrow> do {
           x \<leftarrow> thread_at s th;
           fpr \<leftarrow> proc_at s (thread_proc x);
           Some (tgid_nr env (tsk fpr))}) = Some v"
    using f by (auto split: option.split)
  moreover obtain pr where "proc_at s p = Some pr" using assms(4) by auto
  ultimately show ?thesis using b by (auto simp: txn_message_def Let_def split: prod.split)
qed

lemma upd_buffer_exists:
  "buffer_present s pb \<Longrightarrow> \<exists>s'. upd_buffer pb f s = Some s' \<and> buffer_present s' pb \<and> thread_at s' = thread_at s"
  by (auto simp: buffer_present_def upd_buffer_def check_that_def buf_upd_def)

text \<open>The part of the round before the message, and the part behind it.\<close>

lemma read_transaction_work_round:
  assumes alive: "todo_alive s p th" and t: "Transaction_work t \<in> set (lists s (Thread_todo th)) \<union> set (lists s (Proc_todo p))"
  shows "round_ok p th ptr s (read_transaction_work env task p th t ptr s)"
proof -
  have ta: "txn_alive s t" using todo_alive_work [OF alive t] by simp
  then obtain tx pb bpr where tx: "txn_at s t = Some tx" "txn_buffer tx = Some pb" "buffer_present s pb"
      and bpr: "proc_at s (fst pb) = Some bpr"
      and n: "\<forall>n. buf_target_node (bufs bpr (snd pb)) = Some n \<longrightarrow> (\<exists>node. node_at s n = Some node)"
    by (rule txn_alive_parts)
  have ex: "proc_at s p \<noteq> None" "thread_at s th \<noteq> None" using alive by (simp_all add: todo_alive_def)
  have "\<exists>s1. (case buf_target_node (bufs bpr (snd pb)) of
             None \<Rightarrow> Some s
           | Some n \<Rightarrow> do {
               node \<leftarrow> node_at s n;
               Some (txn_priority env task tx node
                      (upd_txn t (\<lambda>x. x\<lparr>saved_priority := nice s (cur_task task)\<rparr>) s))}) = Some s1 \<and>
        proc_at s1 = proc_at s \<and> thread_at s1 = thread_at s \<and> node_at s1 = node_at s"
    using n by (auto simp: txn_priority_def binder_set_nice_def split: option.split)
  then obtain s1 where s1: "(case buf_target_node (bufs bpr (snd pb)) of
             None \<Rightarrow> Some s
           | Some n \<Rightarrow> do {
               node \<leftarrow> node_at s n;
               Some (txn_priority env task tx node
                      (upd_txn t (\<lambda>x. x\<lparr>saved_priority := nice s (cur_task task)\<rparr>) s))}) = Some s1"
      and same: "proc_at s1 = proc_at s" "thread_at s1 = thread_at s" "node_at s1 = node_at s" by blast
  have "txn_message env p tx pb s1 = txn_message env p tx pb s" unfolding txn_message_def same ..
  with txn_message_alive [OF tx(1,2) ta ex(1)] obtain cmd msg where m: "txn_message env p tx pb s1 = Some (cmd, msg)"
    by (metis not_Some_eq surj_pair)
  show ?thesis
  proof (cases "copy_to_user env ptr (cmd # msg) s1")
    case None
    with s1 m tx bpr ex same show ?thesis
      by (simp add: read_transaction_work_def round_ok_def del: copy_to_user.simps)
  next
    case (Some s2)
    then obtain mm where mm: "s2 = s1\<lparr>user_mem := mm\<rparr>" using copy_to_user_only_mem by blast
    let ?s3 = "list_del_init (Transaction_work t) s2"
    have "buffer_present ?s3 pb" using tx(3) by (simp add: buffer_present_def mm same)
    from upd_buffer_exists [OF this, of "\<lambda>b. b\<lparr>allow_user_free := True\<rparr>"] obtain s4 where
        s4: "upd_buffer pb (\<lambda>b. b\<lparr>allow_user_free := True\<rparr>) ?s3 = Some s4" "buffer_present s4 pb" "thread_at s4 = thread_at s"
      by (auto simp: mm same)
    from upd_buffer_exists [OF s4(2), of "\<lambda>b. b\<lparr>buf_transaction := None\<rparr>"] obtain s5 where
        s5: "upd_buffer pb (\<lambda>b. b\<lparr>buf_transaction := None\<rparr>) s4 = Some s5" "thread_at s5 = thread_at s4" by auto
    have l4: "loopers s4 = loopers s1" using upd_buffer_loopers [OF s4(1)] by (simp add: mm)
    then have l1: "loopers s1 = loopers s" by (simp add: loopers_def same)
    have p4: "\<exists>y. proc_at s4 p = Some y" using ex(1) loopers_proc_at [OF trans [OF l4 l1], of p] by auto
    have p5: "\<exists>y. proc_at s5 p = Some y"
      using ex(1) loopers_proc_at [OF trans [OF upd_buffer_loopers [OF s5(1)] trans [OF l4 l1]], of p] by auto
    obtain x where x: "thread_at s4 th = Some x" using ex(2) s4(3) by auto
    show ?thesis
    proof (cases "cmd = BR_TRANSACTION \<and> txn_flags tx AND TF_ONE_WAY = 0")
      case True
      then have "read_transaction_work env task p th t ptr s = Some (Work_done (ptr + 44),
          upd_thread th (\<lambda>x. x\<lparr>transaction_stack := Some t\<rparr>)
            (upd_txn t (\<lambda>y. y\<lparr>to_parent := transaction_stack x, to_thread := Some th\<rparr>) s4))"
        using s1 m tx bpr Some s4(1) x by (simp add: read_transaction_work_def Let_def del: copy_to_user.simps)
      with ex p4 x show ?thesis by (simp add: round_ok_def)
    next
      case False
      then have "read_transaction_work env task p th t ptr s = Some (Work_done (ptr + 44), kfree_transaction t s5)"
        using s1 m tx bpr Some s4(1) s5(1) by (auto simp: read_transaction_work_def Let_def simp del: copy_to_user.simps)
      with ex p5 s5(2) s4(3) show ?thesis by (simp add: round_ok_def kfree_transaction_def)
    qed
  qed
qed

lemma read_work_round:
  assumes "todo_alive s p th" "w \<in> set (lists s (Thread_todo th)) \<union> set (lists s (Proc_todo p))"
  shows "round_ok p th ptr s (read_work env task p th w ptr s)"
  using assms
  by (cases w) (simp_all add: read_work_def read_transaction_work_round read_complete_work_round
      read_node_work_round read_death_work_round del: Un_iff)

section \<open>The loop\<close>

lemma read_done_exists:
  assumes "proc_at s p \<noteq> None" "thread_at s th \<noteq> None"
  shows "read_done env p th buffer ptr s \<noteq> None"
  using assms by (auto simp: read_done_def Let_def split: option.split)

lemma put_user_fields: "put_user env a v s = Some s' \<Longrightarrow> proc_at s' = proc_at s \<and> thread_at s' = thread_at s"
  by (auto simp: put_user_def split: if_splits)

lemma read_errors_exists:
  assumes "proc_at s p \<noteq> None" "thread_at s th \<noteq> None"
  shows "read_errors env p th buffer ptr E s \<noteq> None"
proof -
  have fin: "read_done env p th buffer q s1 \<noteq> None"
    if "proc_at s1 p = proc_at s p" "thread_at s1 th \<noteq> None" for q s1
    using assms that by (intro read_done_exists) auto
  from assms(2) obtain x where x: "thread_at s th = Some x" by auto
  show ?thesis
  proof (cases "return_error2 x = BR_OK")
    case True
    show ?thesis
    proof (cases "put_user env ptr (return_error x) s")
      case (Some s1)
      from fin [of "upd_thread th (\<lambda>x. x\<lparr>return_error := BR_OK\<rparr>) s1" "ptr + 4"] put_user_fields [OF Some] x True Some
      show ?thesis by (simp add: read_errors_def)
    qed (use x True in \<open>simp add: read_errors_def\<close>)
  next
    case False
    show ?thesis
    proof (cases "put_user env ptr (return_error2 x) s")
      case (Some s1)
      note f1 = put_user_fields [OF Some]
      let ?s2 = "upd_thread th (\<lambda>x. x\<lparr>return_error2 := BR_OK\<rparr>) s1"
      show ?thesis
      proof (cases "put_user env (ptr + 4) (return_error x) ?s2")
        case None
        with fin [of s1 "ptr + 4"] f1 x False Some show ?thesis by (auto simp: read_errors_def Let_def)
      next
        case s3: (Some s3)
        from fin [of s1 "ptr + 4"] fin [of "upd_thread th (\<lambda>x. x\<lparr>return_error := BR_OK\<rparr>) s3" "ptr + 8"]
          put_user_fields [OF s3] f1 x False Some s3
        show ?thesis by (auto simp: read_errors_def Let_def)
      qed
    qed (use x False in \<open>simp add: read_errors_def\<close>)
  qed
qed

lemma read_retry_exists:
  assumes "proc_at s p \<noteq> None" "thread_at s th \<noteq> None"
  shows "read_retry env p th buffer ptr E s \<noteq> None"
  using assms read_errors_exists [OF assms] by (auto simp: read_retry_def Let_def)

lemma read_loop_exists:
  assumes "todo_alive s p th" "ptr \<le> E" "E < 2 ^ 32" "in_words B E ptr"
  shows "\<exists>r. read_loop env task p th w buffer ptr E s = Some r"
  using assms
proof (induction "(E - ptr) + todo_length s p th" arbitrary: ptr s rule: less_induct)
  case less
  have ex: "proc_at s p \<noteq> None" "thread_at s th \<noteq> None" using less.prems(1) by (simp_all add: todo_alive_def)
  have room: "sub32 E ptr = E - ptr" using less.prems by (intro sub32_room)
  note unfold_loop = read_loop.simps [of env task p th w buffer ptr E s]
  show ?case
  proof (cases "next_work p th w s")
    case None
    with read_retry_exists [OF ex, of env buffer ptr E] read_done_exists [OF ex, of env buffer ptr] ex
    show ?thesis by (subst unfold_loop) auto
  next
    case (Some wk)
    note inl = next_work_in [OF Some]
    show ?thesis
    proof (cases "E - ptr < 44")
      case True
      with Some room read_done_exists [OF ex, of env buffer ptr] show ?thesis by (subst unfold_loop) auto
    next
      case False
      from read_work_round [OF less.prems(1) inl, of ptr env task] obtain o1 s1 where
          r: "read_work env task p th wk ptr s = Some (o1, s1)" "proc_at s1 p \<noteq> None" "thread_at s1 th \<noteq> None"
          and nxt: "\<forall>q. o1 = Work_next q \<longrightarrow> todo_alive s1 p th \<and>
            (q = ptr \<and> todo_length s1 p th < todo_length s p th \<or> ptr < q \<and> todo_length s1 p th \<le> todo_length s p th)"
        unfolding round_ok_def by blast
      have out: "outcome_in B E ptr o1" using read_work_in [OF r(1) less.prems(4)] False by auto
      show ?thesis
      proof (cases o1)
        case (Work_next q)
        with nxt have n: "todo_alive s1 p th"
            "q = ptr \<and> todo_length s1 p th < todo_length s p th \<or> ptr < q \<and> todo_length s1 p th \<le> todo_length s p th"
          by auto
        from out Work_next have q: "in_words B E q" "q \<le> E" by (auto simp: in_words_def)
        have "(E - q) + todo_length s1 p th < (E - ptr) + todo_length s p th" using n(2) q(2) less.prems(2) by auto
        from less.hyps [OF this n(1) q(2) less.prems(3) q(1)] show ?thesis
          using Some room False r(1) Work_next by (subst unfold_loop) simp
      next
        case (Work_done q)
        with read_done_exists [OF r(2,3), of env buffer q] Some room False r(1) show ?thesis
          by (subst unfold_loop) auto
      next
        case Work_fault
        with Some room False r(1) show ?thesis by (subst unfold_loop) simp
      qed
    qed
  qed
qed

lemma read_resume_exists:
  assumes "todo_alive s p th" "read_span buffer sz consumed"
    "in_words (unat buffer) (unat buffer + unat sz) ptr"
  shows "\<exists>r. read_resume env task p th w ret buffer ptr (unat (buffer + sz)) s = Some r"
proof -
  let ?f = "\<lambda>s. if w then upd_proc p (\<lambda>pr. pr\<lparr>ready_threads := ready_threads pr - 1\<rparr>) s else s"
  let ?s1 = "upd_thread th (\<lambda>x. x\<lparr>looper := looper x AND NOT LOOPER_WAITING\<rparr>) (?f s)"
  have procs: "map_option (\<lambda>pr. (buffers pr, bufs pr)) (proc_at ?s1 q) = map_option (\<lambda>pr. (buffers pr, bufs pr)) (proc_at s q)" for q
    by (simp add: option.map_comp o_def)
  have present: "buffer_present ?s1 pb = buffer_present s pb" "target_of ?s1 pb = target_of s pb" for pb
    using procs [of "fst pb"] by (cases "proc_at s (fst pb)"; auto simp: buffer_present_def target_of_def)+
  have "txn_alive ?s1 t" if "txn_alive s t" for t
  proof -
    from that obtain tx pb where t: "txn_at s t = Some tx" "txn_buffer tx = Some pb" "buffer_present s pb"
        "\<forall>n. target_of s pb = Some n \<longrightarrow> (\<exists>node. node_at s n = Some node \<and> node_held node)"
        "\<forall>f. txn_from tx = Some f \<longrightarrow> (\<exists>x. thread_at s f = Some x \<and> proc_at s (thread_proc x) \<noteq> None)"
      unfolding txn_alive_def by blast
    have "\<forall>f. txn_from tx = Some f \<longrightarrow> (\<exists>x. thread_at ?s1 f = Some x \<and> proc_at ?s1 (thread_proc x) \<noteq> None)"
    proof (intro allI impI)
      fix f assume "txn_from tx = Some f"
      with t(5) obtain x where "thread_at s f = Some x" "proc_at s (thread_proc x) \<noteq> None" by blast
      then show "\<exists>x. thread_at ?s1 f = Some x \<and> proc_at ?s1 (thread_proc x) \<noteq> None" by (cases "f = th") auto
    qed
    with t(1-4) present show ?thesis unfolding txn_alive_def by (intro exI [of _ tx] exI [of _ pb]) auto
  qed
  then have "work_alive ?s1 wk" if "work_alive s wk" for wk using that by (cases wk) auto
  moreover have "lists_ok ?s1" "lists ?s1 = lists s" using assms(1) by (simp_all add: todo_alive_def lists_ok_def)
  moreover have "proc_at ?s1 p \<noteq> None" "thread_at ?s1 th \<noteq> None" using assms(1) by (auto simp: todo_alive_def)
  ultimately have alive: "todo_alive ?s1 p th" using assms(1) unfolding todo_alive_def by auto
  note w = read_span_words [OF assms(2)]
  have E: "unat buffer + unat sz < 2 ^ 32" using assms(2) by (simp add: read_span_def)
  have "ptr \<le> unat buffer + unat sz" using assms(3) by (simp add: in_words_def)
  from read_loop_exists [OF alive this E assms(3)]
  obtain r where r: "read_loop env task p th w buffer ptr (unat buffer + unat sz) ?s1 = Some r" by blast
  obtain pr x where ex: "proc_at s p = Some pr" "thread_at s th = Some x" using assms(1) by (auto simp: todo_alive_def)
  have "read_resume env task p th w ret buffer ptr (unat (buffer + sz)) s =
      (if ret \<noteq> 0 then Some (Read_error ret, ?s1) else read_loop env task p th w buffer ptr (unat buffer + unat sz) ?s1)"
    unfolding read_resume_def Let_def w(1) ex Option.bind_lunit ..
  with r show ?thesis by auto
qed

section \<open>What it says\<close>

text \<open>C12: binder_thread_read writes to user memory only inside the buffer it is given, both
  before it sleeps and after, when the buffer's size is a multiple of 4 and not 0 and a multiple
  of 4 within it has been consumed: whatever work is delivered, and however often the loop
  retries, no byte outside the buffer changes, and the position it sleeps or returns with stays
  in the buffer.  (Other sizes are not safe: the code stores the first command in a buffer of 1
  to 3 bytes, too, and its test of the room left goes wrong below 4 bytes.)\<close>

theorem read_stays_in_buffer:
  assumes "read_span buffer sz consumed"
  shows "(\<forall>ph s'. read_start env p th buffer sz consumed s = Some (ph, s') \<longrightarrow>
       (\<forall>a. a < unat buffer \<or> unat buffer + unat sz \<le> a \<longrightarrow> user_mem s' a = user_mem s a) \<and>
       phase_in (unat buffer) (unat buffer + unat sz) ph) \<and>
     (\<forall>ptr w ret ph s'. phase_in (unat buffer) (unat buffer + unat sz) (Read_wait ptr w) \<longrightarrow>
       read_resume env task p th w ret buffer ptr (unat (buffer + sz)) s = Some (ph, s') \<longrightarrow>
       (\<forall>a. a < unat buffer \<or> unat buffer + unat sz \<le> a \<longrightarrow> user_mem s' a = user_mem s a) \<and>
       phase_in (unat buffer) (unat buffer + unat sz) ph)"
  using read_start_in [OF _ assms] read_resume_in [OF _ assms]
  unfolding writes_in_def phase_in.simps(1) by blast

text \<open>A thread with a completed transaction and a node in its list.\<close>

definition woken_reader :: driver where
  "woken_reader = driver_init\<lparr>proc_at := [100 \<mapsto> blank_proc],
     thread_at := [400 \<mapsto> \<lparr>thread_proc = 100, thread_pid = 7, looper = 0, transaction_stack = None,
                         return_error = BR_OK, return_error2 = BR_OK\<rparr>],
     node_at := [200 \<mapsto> blank_node\<lparr>node_proc := Some 100, local_strong_refs := 1\<rparr>],
     lists := (\<lambda>_. [])(Thread_todo 400 := [Complete_work 500, Node_work 200]),
     linked := [Complete_work 500 \<mapsto> Thread_todo 400, Node_work 200 \<mapsto> Thread_todo 400]\<rparr>"

lemma woken_reader_alive: "todo_alive woken_reader 100 400"
  by (auto simp: todo_alive_def woken_reader_def driver_init_def lists_ok_def)

lemma span_256: "read_span 4096 256 0"
  by (simp add: read_span_def)

theorem read_stays_in_buffer_witness:
  "read_span 4096 256 0 \<and>
   (\<exists>ph s'. read_start plain_kenv 100 400 4096 256 0 woken_reader = Some (ph, s') \<and>
      user_mem s' 4095 = user_mem woken_reader 4095 \<and> user_mem s' 4352 = user_mem woken_reader 4352 \<and>
      phase_in 4096 4352 ph)"
proof -
  have "read_start plain_kenv 100 400 4096 256 0 woken_reader \<noteq> None"
    by (simp add: read_start_def put_user_def plain_kenv_def read_retry_def woken_reader_def driver_init_def Let_def)
  then obtain ph s' where r: "read_start plain_kenv 100 400 4096 256 0 woken_reader = Some (ph, s')" by auto
  with read_stays_in_buffer [OF span_256, of plain_kenv 100 400 woken_reader undefined]
  have "user_mem s' 4095 = user_mem woken_reader 4095" "user_mem s' 4352 = user_mem woken_reader 4352"
    "phase_in 4096 4352 ph" by auto
  with r span_256 show ?thesis by blast
qed

text \<open>C13: A thread that is woken returns: when the lists are consistent and the work in them is
  alive (its objects exist, and a queued transaction holds its node), the loop of
  binder_thread_read ends after finitely many rounds with a result, an error or another wait,
  and never follows a dangling pointer.\<close>

theorem woken_thread_returns:
  assumes "todo_alive s p th" "read_span buffer sz consumed"
    "phase_in (unat buffer) (unat buffer + unat sz) (Read_wait ptr w)"
  shows "\<exists>ph s'. read_resume env task p th w ret buffer ptr (unat (buffer + sz)) s = Some (ph, s')"
  using read_resume_exists [OF assms(1,2), of ptr env task w ret] assms(3) by auto

theorem woken_thread_returns_witness:
  "todo_alive woken_reader 100 400 \<and>
   (\<exists>ph s'. read_resume plain_kenv \<lparr>cur_task = 1, cur_pid = 7, cur_tgid = 7, cur_euid = 0\<rparr> 100 400 False 0 4096 4100
      (unat ((4096 :: u32) + 256)) woken_reader = Some (ph, s'))"
  using woken_thread_returns [OF woken_reader_alive span_256, where ptr = 4100 and w = False and env = plain_kenv
      and ret = 0 and task = "\<lparr>cur_task = 1, cur_pid = 7, cur_tgid = 7, cur_euid = 0\<rparr>"] woken_reader_alive
  by (simp add: in_words_def)

end
