(* ===== verification/BinderIo.thy ===== *)
theory BinderIo
  imports BinderThread
begin

text \<open>
  The user-space side of the protocol (servicemanager/binder.c): \<open>struct binder_io\<close>, a
  cursor in a data buffer and in its array of offsets, with the operations that write and
  read a parcel through it, and the commands that the library sends.

  The state is the memory of the process and, in order, the commands handed to the driver
  by \<open>binder_write\<close>, whose result no caller uses.  A pointer is a \<open>nat\<close>, NULL is 0.
  \<open>struct binder_txn\<close> has the layout of \<open>struct binder_transaction_data\<close> and
  \<open>struct binder_object\<close> the one of \<open>struct flat_binder_object\<close>; the driver's records serve
  for both.  The field \<open>unused\<close> is left out.
\<close>

section \<open>The cursor\<close>

definition BIO_F_SHARED :: u32 where "BIO_F_SHARED = 1"
definition BIO_F_OVERFLOW :: u32 where "BIO_F_OVERFLOW = 2"
definition BIO_F_IOERROR :: u32 where "BIO_F_IOERROR = 4"
definition MAX_BIO_SIZE :: u32 where "MAX_BIO_SIZE = push_bit 30 1"
definition FLAT_BINDER_FLAG_ACCEPTS_FDS :: u32 where "FLAT_BINDER_FLAG_ACCEPTS_FDS = 256"
definition TF_STATUS_CODE :: u32 where "TF_STATUS_CODE = 8"

record binder_io =
  io_data :: nat
  io_offs :: nat
  data_avail :: u32
  offs_avail :: u32
  data0 :: nat
  offs0 :: nat
  io_flags :: u32

definition bio_overflow :: "binder_io \<Rightarrow> binder_io" where
  "bio_overflow bio = bio\<lparr>io_flags := io_flags bio OR BIO_F_OVERFLOW\<rparr>"

definition bio_init_from_txn :: "transaction_data \<Rightarrow> binder_io" where
  "bio_init_from_txn tr =
     \<lparr>io_data = unat (tr_buffer tr), io_offs = unat (tr_offsets tr), data_avail = tr_data_size tr,
      offs_avail = tr_offsets_size tr div 4, data0 = unat (tr_buffer tr),
      offs0 = unat (tr_offsets tr), io_flags = BIO_F_SHARED\<rparr>"

text \<open>\<open>bio\<close> is what the struct held before: a failure leaves the pointers as they were.\<close>

definition bio_init :: "binder_io \<Rightarrow> nat \<Rightarrow> u32 \<Rightarrow> u32 \<Rightarrow> binder_io" where
  "bio_init bio buf maxdata maxoffs =
     (let n = maxoffs * 4 in
      if n > maxdata
      then bio\<lparr>io_flags := BIO_F_OVERFLOW, data_avail := 0, offs_avail := 0\<rparr>
      else \<lparr>io_data = buf + unat n, io_offs = buf, data_avail = maxdata - n, offs_avail = maxoffs,
            data0 = buf + unat n, offs0 = buf, io_flags = 0\<rparr>)"

definition bio_alloc :: "u32 \<Rightarrow> binder_io \<Rightarrow> nat \<times> binder_io" where
  "bio_alloc sz bio =
     (let sz = align_ptr sz in
      if sz > data_avail bio then (0, bio_overflow bio)
      else (io_data bio,
            bio\<lparr>io_data := io_data bio + unat sz, data_avail := data_avail bio - sz\<rparr>))"

definition bio_alloc_obj :: "binder_io \<Rightarrow> memory \<Rightarrow> nat \<times> binder_io \<times> memory" where
  "bio_alloc_obj bio m =
     (let (obj, bio) = bio_alloc 16 bio in
      if obj \<noteq> 0 \<and> offs_avail bio \<noteq> 0
      then (obj, bio\<lparr>offs_avail := offs_avail bio - 1, io_offs := io_offs bio + 4\<rparr>,
            store32 (io_offs bio) (of_nat (obj - data0 bio)) m)
      else (0, bio_overflow bio, m))"

section \<open>Writing\<close>

definition bio_put_uint32 :: "u32 \<Rightarrow> binder_io \<Rightarrow> memory \<Rightarrow> binder_io \<times> memory" where
  "bio_put_uint32 n bio m =
     (let (ptr, bio) = bio_alloc 4 bio in (bio, if ptr \<noteq> 0 then store32 ptr n m else m))"

definition bio_put_obj :: "u32 \<Rightarrow> binder_io \<Rightarrow> memory \<Rightarrow> binder_io \<times> memory" where
  "bio_put_obj ptr bio m =
     (let (obj, bio, m) = bio_alloc_obj bio m in
      if obj = 0 then (bio, m)
      else (bio, write_object obj \<lparr>obj_type = BINDER_TYPE_BINDER,
              obj_flags = 127 OR FLAT_BINDER_FLAG_ACCEPTS_FDS, handle = ptr, obj_cookie = 0\<rparr> m))"

definition bio_put_ref :: "u32 \<Rightarrow> binder_io \<Rightarrow> memory \<Rightarrow> binder_io \<times> memory" where
  "bio_put_ref ptr bio m =
     (let (obj, bio, m) = (if ptr \<noteq> 0 then bio_alloc_obj bio m
                           else (let (obj, bio) = bio_alloc 16 bio in (obj, bio, m))) in
      if obj = 0 then (bio, m)
      else (bio, write_object obj \<lparr>obj_type = BINDER_TYPE_HANDLE,
              obj_flags = 127 OR FLAT_BINDER_FLAG_ACCEPTS_FDS, handle = ptr, obj_cookie = 0\<rparr> m))"

text \<open>The loops over strings that end at a 0: None when there is none.\<close>

partial_function (option) string16_length :: "memory \<Rightarrow> nat \<Rightarrow> u32 \<Rightarrow> u32 option" where
  "string16_length m str len =
     (if load16 m (str + 2 * unat len) = 0 then Some len else string16_length m str (len + 1))"

partial_function (option) string_length :: "memory \<Rightarrow> nat \<Rightarrow> u32 \<Rightarrow> u32 option" where
  "string_length m str len =
     (if m (str + unat len) = 0 then Some len else string_length m str (len + 1))"

definition bio_put_string16 :: "nat \<Rightarrow> binder_io \<Rightarrow> memory \<Rightarrow> (binder_io \<times> memory) option" where
  "bio_put_string16 str bio m =
     (if str = 0 then Some (bio_put_uint32 0xFFFFFFFF bio m)
      else do {
        len \<leftarrow> string16_length m str 0;
        if len \<ge> MAX_BIO_SIZE div 2 then Some (bio_put_uint32 0xFFFFFFFF bio m)
        else (let (bio, m) = bio_put_uint32 len bio m;
                  len = (len + 1) * 2;
                  (ptr, bio) = bio_alloc len bio
              in Some (bio, if ptr \<noteq> 0 then copy_bytes m str ptr (unat len) m else m))})"

partial_function (option) widen_string :: "nat \<Rightarrow> nat \<Rightarrow> memory \<Rightarrow> memory option" where
  "widen_string str ptr m =
     (if m str \<noteq> 0 then widen_string (str + 1) (ptr + 2) (store16 ptr (ucast (m str)) m)
      else Some (store16 ptr 0 m))"

definition bio_put_string16_x :: "nat \<Rightarrow> binder_io \<Rightarrow> memory \<Rightarrow> (binder_io \<times> memory) option" where
  "bio_put_string16_x str bio m =
     (if str = 0 then Some (bio_put_uint32 0xFFFFFFFF bio m)
      else do {
        len \<leftarrow> string_length m str 0;
        if len \<ge> MAX_BIO_SIZE div 2 then Some (bio_put_uint32 0xFFFFFFFF bio m)
        else (let (bio, m) = bio_put_uint32 len bio m;
                  (ptr, bio) = bio_alloc ((len + 1) * 2) bio
              in if ptr = 0 then Some (bio, m)
                 else map_option (Pair bio) (widen_string str ptr m))})"

section \<open>Reading\<close>

definition bio_get :: "u32 \<Rightarrow> binder_io \<Rightarrow> nat \<times> binder_io" where
  "bio_get sz bio =
     (let sz = align_ptr sz in
      if data_avail bio < sz then (0, bio_overflow (bio\<lparr>data_avail := 0\<rparr>))
      else (io_data bio,
            bio\<lparr>io_data := io_data bio + unat sz, data_avail := data_avail bio - sz\<rparr>))"

definition bio_get_uint32 :: "memory \<Rightarrow> binder_io \<Rightarrow> u32 \<times> binder_io" where
  "bio_get_uint32 m bio =
     (let (ptr, bio) = bio_get 4 bio in (if ptr \<noteq> 0 then load32 m ptr else 0, bio))"

text \<open>The pointer to the characters, their number as the parcel gives it, and the cursor.\<close>

definition bio_get_string16 :: "memory \<Rightarrow> binder_io \<Rightarrow> nat \<times> u32 \<times> binder_io" where
  "bio_get_string16 m bio =
     (let (len, bio) = bio_get_uint32 m bio; (ptr, bio) = bio_get ((len + 1) * 2) bio
      in (ptr, len, bio))"

fun offset_listed :: "memory \<Rightarrow> nat \<Rightarrow> nat \<Rightarrow> u32 \<Rightarrow> bool" where
  "offset_listed m a 0 off = False"
| "offset_listed m a (Suc n) off = (load32 m a = off \<or> offset_listed m (a + 4) n off)"

definition bio_get_obj :: "memory \<Rightarrow> binder_io \<Rightarrow> nat \<times> binder_io" where
  "bio_get_obj m bio =
     (if offset_listed m (io_offs bio) (unat (offs_avail bio)) (of_nat (io_data bio - data0 bio))
      then bio_get 16 bio
      else (0, bio_overflow (bio\<lparr>data_avail := 0\<rparr>)))"

definition bio_get_ref :: "memory \<Rightarrow> binder_io \<Rightarrow> u32 \<times> binder_io" where
  "bio_get_ref m bio =
     (let (obj, bio) = bio_get_obj m bio in
      (if obj \<noteq> 0 \<and> obj_type (read_object m obj) = BINDER_TYPE_HANDLE
       then handle (read_object m obj) else 0, bio))"

end
