(* ===== verification/BinderClient.thy ===== *)
theory BinderClient
  imports BinderIo
begin

text \<open>
  The rest of servicemanager/binder.c: the commands a client sends, binder_parse, which reads
  what the driver has written, and the loops around it.

  The \<open>ioctl\<close>s are the sequence of their results: what each returned, how much it read and
  wrote, and the memory it left behind.  \<open>None\<close> is a crash of the process.  A frame names the
  stack addresses of the local variables whose addresses are taken, and \<open>junk\<close> is the content
  of the fields that binder_send_reply and binder_call leave uninitialised.
\<close>

record client =
  mem :: memory
  written :: "u32 list list"

record frame =
  rdata :: nat
  status_at :: nat
  readbuf :: nat
  junk :: u32

definition binder_write :: "u32 list \<Rightarrow> 'a client_scheme \<Rightarrow> 'a client_scheme" where
  "binder_write ws w = w\<lparr>written := written w @ [ws]\<rparr>"

section \<open>Opening the device\<close>

text \<open>
  What the process holds; an address of 0 from \<open>malloc\<close> or \<open>mmap\<close> and a negative
  descriptor are the failures (\<open>MAP_FAILED\<close> is None).
\<close>

record binder_state =
  fd :: int
  mapped :: nat
  mapsize :: u32

record resources =
  blocks :: "nat set"
  open_fds :: "int set"
  mappings :: "(nat \<times> u32) set"

definition binder_open ::
    "nat \<Rightarrow> int \<Rightarrow> nat option \<Rightarrow> u32 \<Rightarrow> resources \<Rightarrow> (nat \<times> binder_state) option \<times> resources" where
  "binder_open malloc_result open_result mmap_result sz r =
     (if malloc_result = 0 then (None, r)
      else let r = r\<lparr>blocks := insert malloc_result (blocks r)\<rparr> in
      if open_result < 0 then (None, r\<lparr>blocks := blocks r - {malloc_result}\<rparr>)
      else let r = r\<lparr>open_fds := insert open_result (open_fds r)\<rparr> in
      case mmap_result of
        None \<Rightarrow> (None, r\<lparr>open_fds := open_fds r - {open_result}, blocks := blocks r - {malloc_result}\<rparr>)
      | Some a \<Rightarrow> (Some (malloc_result, \<lparr>fd = open_result, mapped = a, mapsize = sz\<rparr>),
                    r\<lparr>mappings := insert (a, sz) (mappings r)\<rparr>))"

definition binder_close :: "nat \<times> binder_state \<Rightarrow> resources \<Rightarrow> resources" where
  "binder_close bs r = r\<lparr>mappings := mappings r - {(mapped (snd bs), mapsize (snd bs))},
     open_fds := open_fds r - {fd (snd bs)}, blocks := blocks r - {fst bs}\<rparr>"

section \<open>Commands\<close>

definition binder_acquire :: "u32 \<Rightarrow> 'a client_scheme \<Rightarrow> 'a client_scheme" where
  "binder_acquire ptr = binder_write [BC_ACQUIRE, ptr]"

definition binder_release :: "u32 \<Rightarrow> 'a client_scheme \<Rightarrow> 'a client_scheme" where
  "binder_release ptr = binder_write [BC_RELEASE, ptr]"

definition binder_link_to_death :: "u32 \<Rightarrow> u32 \<Rightarrow> 'a client_scheme \<Rightarrow> 'a client_scheme" where
  "binder_link_to_death ptr d = binder_write [BC_REQUEST_DEATH_NOTIFICATION, ptr, d]"

definition binder_done :: "binder_io \<Rightarrow> 'a client_scheme \<Rightarrow> binder_io \<times> 'a client_scheme" where
  "binder_done reply w =
     (if io_flags reply AND BIO_F_SHARED \<noteq> 0
      then (reply\<lparr>io_flags := 0\<rparr>, binder_write [BC_FREE_BUFFER, of_nat (data0 reply)] w)
      else (reply, w))"

definition io_sizes :: "binder_io \<Rightarrow> u32 list" where
  "io_sizes bio = [of_nat (io_data bio - data0 bio), of_nat (io_offs bio - offs0 bio),
     of_nat (data0 bio), of_nat (offs0 bio)]"

definition binder_send_reply ::
    "frame \<Rightarrow> binder_io \<Rightarrow> u32 \<Rightarrow> int \<Rightarrow> 'a client_scheme \<Rightarrow> 'a client_scheme" where
  "binder_send_reply fr reply buffer_to_free status w =
     (let w = w\<lparr>mem := store32 (status_at fr) (of_int status) (mem w)\<rparr>;
          head = [BC_FREE_BUFFER, buffer_to_free, BC_REPLY, 0, 0, 0] in
      if status \<noteq> 0
      then binder_write (head @ [TF_STATUS_CODE, junk fr, junk fr, 4, 0, of_nat (status_at fr), 0]) w
      else binder_write (head @ [0, junk fr, junk fr] @ io_sizes reply) w)"

section \<open>Parsing\<close>

type_synonym 'w binder_handler =
  "transaction_data \<Rightarrow> binder_io \<Rightarrow> binder_io \<Rightarrow> 'w \<Rightarrow> (int \<times> binder_io \<times> 'w) option"

definition read_txn :: "memory \<Rightarrow> nat \<Rightarrow> transaction_data" where
  "read_txn m a = read_transaction_data (map (\<lambda>i. load32 m (a + 4 * i)) [0..<10])"

text \<open>
  One command of the switch, its number read already: the words behind it and the new
  result, or a return.  \<open>bio\<close> is the caller's struct and whether the pointer is still set;
  \<open>die\<close> is the call \<open>death->func(bs, death->ptr)\<close> of the struct at an address.
\<close>

datatype parse_result = Parse_next nat int | Parse_return int

definition parse_transaction ::
    "frame \<Rightarrow> 'a client_scheme binder_handler option \<Rightarrow> nat \<Rightarrow> 'a client_scheme \<Rightarrow> 'a client_scheme option" where
  "parse_transaction fr func ptr w =
     (case func of
        None \<Rightarrow> Some w
      | Some f \<Rightarrow> do {
          let tr = read_txn (mem w) ptr;
          let reply = bio_init \<lparr>io_data = 0, io_offs = 0, data_avail = junk fr, offs_avail = junk fr,
                                data0 = 0, offs0 = 0, io_flags = junk fr\<rparr> (rdata fr) 256 4;
          (res, reply, w) \<leftarrow> f tr (bio_init_from_txn tr) reply w;
          Some (binder_send_reply fr reply (tr_buffer (read_txn (mem w) ptr)) res w)})"

definition parse_command ::
    "frame \<Rightarrow> 'a client_scheme binder_handler option \<Rightarrow> (u32 \<Rightarrow> 'a client_scheme \<Rightarrow> 'a client_scheme option) \<Rightarrow>
     u32 \<Rightarrow> nat \<Rightarrow> nat \<Rightarrow> int \<Rightarrow> bool \<times> binder_io \<Rightarrow> 'a client_scheme \<Rightarrow>
     (parse_result \<times> (bool \<times> binder_io) \<times> 'a client_scheme) option" where
  "parse_command fr func die cmd ptr end_ptr r bio w =
     (if cmd = BR_NOOP \<or> cmd = BR_TRANSACTION_COMPLETE then Some (Parse_next 0 r, bio, w)
      else if cmd \<in> {BR_INCREFS, BR_ACQUIRE, BR_RELEASE, BR_DECREFS} then Some (Parse_next 2 r, bio, w)
      else if cmd = BR_TRANSACTION
      then (if end_ptr - ptr < 40 then Some (Parse_return (- 1), bio, w)
            else map_option (\<lambda>w. (Parse_next 10 r, bio, w)) (parse_transaction fr func ptr w))
      else if cmd = BR_REPLY
      then (if end_ptr - ptr < 40 then Some (Parse_return (- 1), bio, w)
            else Some (Parse_next 10 0,
                       if fst bio then (False, bio_init_from_txn (read_txn (mem w) ptr)) else bio, w))
      else if cmd = BR_DEAD_BINDER
      then map_option (\<lambda>w. (Parse_next 1 r, bio, w)) (die (load32 (mem w) ptr) w)
      else if cmd = BR_FAILED_REPLY \<or> cmd = BR_DEAD_REPLY then Some (Parse_next 0 (- 1), bio, w)
      else Some (Parse_return (- 1), bio, w))"

function parse_loop ::
    "frame \<Rightarrow> 'a client_scheme binder_handler option \<Rightarrow> (u32 \<Rightarrow> 'a client_scheme \<Rightarrow> 'a client_scheme option) \<Rightarrow>
     nat \<Rightarrow> nat \<Rightarrow> int \<Rightarrow> bool \<times> binder_io \<Rightarrow> 'a client_scheme \<Rightarrow>
     (int \<times> (bool \<times> binder_io) \<times> 'a client_scheme) option" where
  "parse_loop fr func die ptr end_ptr r bio w =
     (if ptr < end_ptr
      then (case parse_command fr func die (load32 (mem w) ptr) (ptr + 4) end_ptr r bio w of
              None \<Rightarrow> None
            | Some (Parse_return r', bio', w') \<Rightarrow> Some (r', bio', w')
            | Some (Parse_next n r', bio', w') \<Rightarrow>
                parse_loop fr func die (ptr + 4 + 4 * n) end_ptr r' bio' w')
      else Some (r, bio, w))"
  by pat_completeness auto
termination
  by (relation "measure (\<lambda>(fr, func, die, ptr, end_ptr, r, bio, w). end_ptr - ptr)") auto

declare parse_loop.simps [simp del]

definition binder_parse ::
    "frame \<Rightarrow> 'a client_scheme binder_handler option \<Rightarrow> (u32 \<Rightarrow> 'a client_scheme \<Rightarrow> 'a client_scheme option) \<Rightarrow>
     bool \<times> binder_io \<Rightarrow> nat \<Rightarrow> u32 \<Rightarrow> 'a client_scheme \<Rightarrow>
     (int \<times> (bool \<times> binder_io) \<times> 'a client_scheme) option" where
  "binder_parse fr func die bio ptr sz w = parse_loop fr func die ptr (ptr + 4 * (unat sz div 4)) 1 bio w"

section \<open>Calling and serving\<close>

record ioctl_result =
  ir_res :: int
  ir_write_consumed :: u32
  ir_read_consumed :: u32
  ir_mem :: memory

text \<open>One \<open>BINDER_WRITE_READ\<close>: the part of the commands that is not consumed yet is handed over.\<close>

definition write_read :: "u32 list \<Rightarrow> u32 \<Rightarrow> ioctl_result \<Rightarrow> 'a client_scheme \<Rightarrow> 'a client_scheme" where
  "write_read ws consumed ir w = binder_write (drop (unat consumed div 4) ws) w\<lparr>mem := ir_mem ir\<rparr>"

datatype 'w outcome = Waiting 'w | Returned int binder_io 'w

definition call_failed :: "'a client_scheme \<Rightarrow> 'a client_scheme outcome" where
  "call_failed w = Returned (- 1) \<lparr>io_data = 0, io_offs = 0, data_avail = 0, offs_avail = 0,
     data0 = 0, offs0 = 0, io_flags = BIO_F_IOERROR\<rparr> w"

fun call_loop ::
    "frame \<Rightarrow> (u32 \<Rightarrow> 'a client_scheme \<Rightarrow> 'a client_scheme option) \<Rightarrow> u32 list \<Rightarrow> u32 \<Rightarrow> ioctl_result list \<Rightarrow>
     binder_io \<Rightarrow> 'a client_scheme \<Rightarrow> 'a client_scheme outcome option" where
  "call_loop fr die ws consumed [] reply w = Some (Waiting w)"
| "call_loop fr die ws consumed (ir # irs) reply w =
     (let w = write_read ws consumed ir w in
      if ir_res ir < 0 then Some (call_failed w)
      else case binder_parse fr None die (True, reply) (readbuf fr) (ir_read_consumed ir) w of
             None \<Rightarrow> None
           | Some (res, (_, reply), w) \<Rightarrow>
               if res = 0 then Some (Returned 0 reply w)
               else if res < 0 then Some (call_failed w)
               else call_loop fr die ws (ir_write_consumed ir) irs reply w)"

definition binder_call ::
    "frame \<Rightarrow> (u32 \<Rightarrow> 'a client_scheme \<Rightarrow> 'a client_scheme option) \<Rightarrow> ioctl_result list \<Rightarrow>
     binder_io \<Rightarrow> binder_io \<Rightarrow> u32 \<Rightarrow> u32 \<Rightarrow> 'a client_scheme \<Rightarrow> 'a client_scheme outcome option" where
  "binder_call fr die irs msg reply target code w =
     (if io_flags msg AND BIO_F_OVERFLOW \<noteq> 0 then Some (call_failed w)
      else call_loop fr die
             ([BC_TRANSACTION, target, junk fr, code, 0, junk fr, junk fr] @ io_sizes msg) 0 irs reply w)"

text \<open>
  \<open>binder_loop\<close>: whether it has ended, and the state.
\<close>

fun serve_loop ::
    "frame \<Rightarrow> 'a client_scheme binder_handler \<Rightarrow> (u32 \<Rightarrow> 'a client_scheme \<Rightarrow> 'a client_scheme option) \<Rightarrow>
     ioctl_result list \<Rightarrow> 'a client_scheme \<Rightarrow> (bool \<times> 'a client_scheme) option" where
  "serve_loop fr func die [] w = Some (False, w)"
| "serve_loop fr func die (ir # irs) w =
     (let w = w\<lparr>mem := ir_mem ir\<rparr> in
      if ir_res ir < 0 then Some (True, w)
      else case binder_parse fr (Some func) die
                  (False, \<lparr>io_data = 0, io_offs = 0, data_avail = 0, offs_avail = 0, data0 = 0,
                           offs0 = 0, io_flags = 0\<rparr>) (readbuf fr) (ir_read_consumed ir) w of
             None \<Rightarrow> None
           | Some (res, _, w) \<Rightarrow> if res \<le> 0 then Some (True, w) else serve_loop fr func die irs w)"

definition binder_loop ::
    "frame \<Rightarrow> 'a client_scheme binder_handler \<Rightarrow> (u32 \<Rightarrow> 'a client_scheme \<Rightarrow> 'a client_scheme option) \<Rightarrow>
     ioctl_result list \<Rightarrow> 'a client_scheme \<Rightarrow> (bool \<times> 'a client_scheme) option" where
  "binder_loop fr func die irs w =
     serve_loop fr func die irs
       (binder_write [BC_ENTER_LOOPER] (w\<lparr>mem := store32 (readbuf fr) BC_ENTER_LOOPER (mem w)\<rparr>))"

end
