(* ===== verification/ServiceManager.thy ===== *)
theory ServiceManager
  imports BinderClient
begin

text \<open>
  The service manager (servicemanager/service_manager.c): the list of the services, and the
  handler of the four requests.

  \<open>svclist\<close> is the linked list, head first, of the addresses of the \<open>struct svcinfo\<close>s;
  a record holds \<open>ptr\<close> and \<open>len\<close>, and \<open>name\<close> lies in memory from offset 20 of the struct.
  \<open>death\<close> is its member at offset 8, and every \<open>death.func\<close> is svcinfo_death.
  \<open>malloc\<close> is a parameter: 0 when memory is short.  The log output is left out.
\<close>

record svcinfo =
  svc_ptr :: u32
  svc_len :: u32

record svcmgr = client +
  svclist :: "nat list"
  svc_at :: "nat \<Rightarrow> svcinfo option"
  svcmgr_handle :: u32

definition name_of :: "nat \<Rightarrow> nat" where
  "name_of si = si + 20"

definition death_of :: "nat \<Rightarrow> u32" where
  "death_of si = of_nat (si + 8)"

section \<open>Strings\<close>

text \<open>The loop of \<open>str8\<close>; \<open>max\<close>, the last argument, counts down.\<close>

fun str8_loop :: "memory \<Rightarrow> nat \<Rightarrow> nat \<Rightarrow> u8 list" where
  "str8_loop m x 0 = []"
| "str8_loop m x (Suc n) =
     (if load16 m x \<noteq> 0 then ucast (load16 m x) # str8_loop m (x + 2) n else [])"

definition str8 :: "memory \<Rightarrow> nat \<Rightarrow> u8 list" where
  "str8 m x = (if x \<noteq> 0 then str8_loop m x 127 else []) @ [0]"

text \<open>The second argument is a literal, whose end is the 0.\<close>

fun str16eq :: "memory \<Rightarrow> nat \<Rightarrow> string \<Rightarrow> bool" where
  "str16eq m a [] \<longleftrightarrow> load16 m a = 0"
| "str16eq m a (c # cs) \<longleftrightarrow> load16 m a \<noteq> 0 \<and> load16 m a = of_char c \<and> str16eq m (a + 2) cs"

definition allowed :: "(u32 \<times> string) list" where
  "allowed = [(1, ''media.audio_flinger''), (1, ''media.player''), (1, ''media.camera''),
     (1, ''media.audio_policy''), (1, ''drm.drmManager''), (1, ''nfc''), (1, ''radio.phone''),
     (1, ''radio.sms''), (1, ''radio.phonesubinfo''), (1, ''radio.simphonebook''), (1, ''phone''),
     (1, ''sip''), (1, ''isms''), (1, ''iphonesubinfo''), (1, ''simphonebook'')]"

definition svc_can_register :: "memory \<Rightarrow> u32 \<Rightarrow> nat \<Rightarrow> bool" where
  "svc_can_register m uid name \<longleftrightarrow>
     uid = 0 \<or> uid = 1 \<or> (\<exists>(u, n) \<in> set allowed. uid = u \<and> str16eq m name n)"

definition svcmgr_id :: string where
  "svcmgr_id = ''android.os.IServiceManager''"

section \<open>The list of services\<close>

fun find_in :: "(nat \<Rightarrow> svcinfo option) \<Rightarrow> nat list \<Rightarrow> u32 \<Rightarrow> nat option option" where
  "find_in svcs [] len = Some None"
| "find_in svcs (si # sis) len = do {
     x \<leftarrow> svcs si;
     if len = svc_len x then Some (Some si) else find_in svcs sis len}"

text \<open>The name only goes to the log: the comparison of the characters is commented out.\<close>

definition find_svc :: "u32 \<Rightarrow> 'a svcmgr_scheme \<Rightarrow> nat option option" where
  "find_svc len w = find_in (svc_at w) (svclist w) len"

definition upd_svc :: "nat \<Rightarrow> (svcinfo \<Rightarrow> svcinfo) \<Rightarrow> 'a svcmgr_scheme \<Rightarrow> 'a svcmgr_scheme" where
  "upd_svc si f w = w\<lparr>svc_at := (svc_at w)(si := map_option f (svc_at w si))\<rparr>"

definition svcinfo_death :: "nat \<Rightarrow> 'a svcmgr_scheme \<Rightarrow> 'a svcmgr_scheme option" where
  "svcinfo_death si w = do {
     x \<leftarrow> svc_at w si;
     Some (if svc_ptr x \<noteq> 0
           then upd_svc si (\<lambda>x. x\<lparr>svc_ptr := 0\<rparr>) (binder_release (svc_ptr x) w) else w)}"

text \<open>The call through \<open>death\<close>: any other address crashes.\<close>

definition death_func :: "u32 \<Rightarrow> 'a svcmgr_scheme \<Rightarrow> 'a svcmgr_scheme option" where
  "death_func d w = svcinfo_death (unat d - 8) w"

definition do_find_service :: "u32 \<Rightarrow> 'a svcmgr_scheme \<Rightarrow> u32 option" where
  "do_find_service len w = do {
     found \<leftarrow> find_svc len w;
     case found of
       None \<Rightarrow> Some 0
     | Some si \<Rightarrow> do { x \<leftarrow> svc_at w si; Some (svc_ptr x) }}"

definition new_svcinfo :: "nat \<Rightarrow> nat \<Rightarrow> u32 \<Rightarrow> u32 \<Rightarrow> 'a svcmgr_scheme \<Rightarrow> 'a svcmgr_scheme" where
  "new_svcinfo si s len ptr w =
     w\<lparr>mem := store16 (name_of si + 2 * unat len) 0
                (copy_bytes (mem w) s (name_of si) (2 * (unat len + 1)) (mem w)),
       svc_at := (svc_at w)(si \<mapsto> \<lparr>svc_ptr = ptr, svc_len = len\<rparr>), svclist := si # svclist w\<rparr>"

definition do_add_service ::
    "('a svcmgr_scheme \<Rightarrow> nat) \<Rightarrow> nat \<Rightarrow> u32 \<Rightarrow> u32 \<Rightarrow> 'a svcmgr_scheme \<Rightarrow> (int \<times> 'a svcmgr_scheme) option" where
  "do_add_service malloc s len ptr w =
     (if ptr = 0 \<or> len = 0 \<or> len > 127 then Some (- 1, w)
      else do {
        found \<leftarrow> find_svc len w;
        placed \<leftarrow> (case found of
            Some si \<Rightarrow> do {
              x \<leftarrow> svc_at w si;
              w \<leftarrow> (if svc_ptr x \<noteq> 0 then svcinfo_death si w else Some w);
              Some (Some (si, upd_svc si (\<lambda>x. x\<lparr>svc_ptr := ptr\<rparr>) w))}
          | None \<Rightarrow> Some (if malloc w = 0 then None
                           else Some (malloc w, new_svcinfo (malloc w) s len ptr w)));
        Some (case placed of
            None \<Rightarrow> (- 1, w)
          | Some (si, w) \<Rightarrow> (0, binder_link_to_death ptr (death_of si) (binder_acquire ptr w)))})"

section \<open>Requests\<close>

definition is_svcmgr_id :: "memory \<Rightarrow> nat \<Rightarrow> bool" where
  "is_svcmgr_id m s \<longleftrightarrow> list_all (\<lambda>i. load16 m (s + 2 * i) = of_char (svcmgr_id ! i)) [0..<26]"

fun skip_services :: "nat \<Rightarrow> nat list \<Rightarrow> nat list" where
  "skip_services n [] = []"
| "skip_services 0 (si # sis) = si # sis"
| "skip_services (Suc n) (si # sis) = skip_services n sis"

definition put_reply ::
    "u32 \<Rightarrow> binder_io \<Rightarrow> 'a svcmgr_scheme \<Rightarrow> int \<times> binder_io \<times> 'a svcmgr_scheme" where
  "put_reply n reply w = (let (reply, m) = bio_put_uint32 n reply (mem w) in (0, reply, w\<lparr>mem := m\<rparr>))"

definition svcmgr_get ::
    "binder_io \<Rightarrow> binder_io \<Rightarrow> 'a svcmgr_scheme \<Rightarrow> (int \<times> binder_io \<times> 'a svcmgr_scheme) option" where
  "svcmgr_get msg reply w = do {
     let (s, len, msg) = bio_get_string16 (mem w) msg;
     ptr \<leftarrow> do_find_service len w;
     Some (if ptr = 0 then put_reply 0 reply w
           else (let (reply, m) = bio_put_ref ptr reply (mem w) in (0, reply, w\<lparr>mem := m\<rparr>)))}"

definition svcmgr_add ::
    "('a svcmgr_scheme \<Rightarrow> nat) \<Rightarrow> binder_io \<Rightarrow> binder_io \<Rightarrow> 'a svcmgr_scheme \<Rightarrow>
     (int \<times> binder_io \<times> 'a svcmgr_scheme) option" where
  "svcmgr_add malloc msg reply w = do {
     let (s, len, msg) = bio_get_string16 (mem w) msg;
     let (ptr, msg) = bio_get_ref (mem w) msg;
     (res, w) \<leftarrow> do_add_service malloc s len ptr w;
     Some (if res \<noteq> 0 then (- 1, reply, w) else put_reply 0 reply w)}"

definition svcmgr_list ::
    "binder_io \<Rightarrow> binder_io \<Rightarrow> 'a svcmgr_scheme \<Rightarrow> (int \<times> binder_io \<times> 'a svcmgr_scheme) option" where
  "svcmgr_list msg reply w =
     (let (n, msg) = bio_get_uint32 (mem w) msg in
      case skip_services (unat n) (svclist w) of
        [] \<Rightarrow> Some (- 1, reply, w)
      | si # _ \<Rightarrow> do {
          (reply, m) \<leftarrow> bio_put_string16 (name_of si) reply (mem w);
          Some (0, reply, w\<lparr>mem := m\<rparr>)})"

text \<open>\<open>memcmp\<close> of a NULL name crashes; it is reached when the length alone is right.\<close>

definition svcmgr_handler ::
    "('a svcmgr_scheme \<Rightarrow> nat) \<Rightarrow> 'a svcmgr_scheme binder_handler" where
  "svcmgr_handler malloc txn msg reply w =
     (if tr_target txn \<noteq> svcmgr_handle w then Some (- 1, reply, w)
      else let (strict_policy, msg) = bio_get_uint32 (mem w) msg;
               (s, len, msg) = bio_get_string16 (mem w) msg in
      if len \<noteq> 26 then Some (- 1, reply, w)
      else if s = 0 then None
      else if \<not> is_svcmgr_id (mem w) s then Some (- 1, reply, w)
      else if tr_code txn = 1 \<or> tr_code txn = 2 then svcmgr_get msg reply w
      else if tr_code txn = 3 then svcmgr_add malloc msg reply w
      else if tr_code txn = 4 then svcmgr_list msg reply w
      else Some (- 1, reply, w))"

text \<open>
  \<open>main\<close>: a NULL from binder_open is used all the same.  The results of
  \<open>BINDER_SET_CONTEXT_MGR\<close> and of the loop's \<open>ioctl\<close>s are arguments.
\<close>

definition service_manager ::
    "frame \<Rightarrow> (svcmgr \<Rightarrow> nat) \<Rightarrow> (nat \<times> binder_state) option \<Rightarrow> int \<Rightarrow> ioctl_result list \<Rightarrow>
     memory \<Rightarrow> (int option \<times> svcmgr) option" where
  "service_manager fr malloc bs become irs m = do {
     _ \<leftarrow> bs;
     let w = \<lparr>mem = m, written = [], svclist = [], svc_at = (\<lambda>_. None), svcmgr_handle = 0\<rparr>;
     if become \<noteq> 0 then Some (Some (- 1), w)
     else do {
       (ended, w) \<leftarrow> binder_loop fr (svcmgr_handler malloc) death_func irs w;
       Some (if ended then Some 0 else None, w)}}"

end
