(* ===== verification/ParcelSpec.thy ===== *)
theory ParcelSpec
  imports BinderIo
begin

text \<open>
  What the operations of BinderIo promise: a parcel that was written without overflow is
  read back as the values that were written, and writing stays inside the buffer.

  \<open>laid_out m a vs\<close> is the format: the values one after another from address \<open>a\<close> on, each
  at a multiple of 4 from the start; \<open>object_offsets\<close> the places of the objects among them,
  which a NULL reference is not: it takes 16 bytes and no entry in the table of objects.
\<close>

section \<open>Memory\<close>

lemma store32_outside: "i < a \<or> a + 4 \<le> i \<Longrightarrow> store32 a v m i = m i"
  by (auto simp: store32_def)

lemma write_object_outside: "i < a \<or> a + 16 \<le> i \<Longrightarrow> write_object a ob m i = m i"
  by (auto simp: write_object_def store32_def)

lemma copy_bytes_outside: "i < dst \<or> dst + n \<le> i \<Longrightarrow> copy_bytes m0 src dst n m i = m i"
  by (auto simp: copy_bytes_def)

lemma load32_unchanged:
  "(\<And>i. a \<le> i \<Longrightarrow> i < a + 4 \<Longrightarrow> m' i = m i) \<Longrightarrow> load32 m' a = load32 m a"
  by (rule load32_cong) simp

lemma read_write_object: "read_object (write_object a ob m) a = ob"
  by (simp add: read_object_def write_object_def load32_store32_other)

lemma read_object_cong:
  assumes "\<And>i. i < 16 \<Longrightarrow> m (a + i) = m' (b + i)"
  shows "read_object m a = read_object m' b"
proof -
  have "load32 m (a + k) = load32 m' (b + k)" if "k \<le> 12" for k
    using that assms [of "k + i" for i] by (intro load32_cong) (simp add: add.assoc)
  from this [of 0] this [of 4] this [of 8] this [of 12]
  show ?thesis by (simp add: read_object_def)
qed

section \<open>Values and their format\<close>

datatype parcel_value = V_uint32 u32 | V_string16 "u16 list" | V_ref u32

fun value_size :: "parcel_value \<Rightarrow> nat" where
  "value_size (V_uint32 n) = 4"
| "value_size (V_string16 cs) = 4 + round4 (2 * (length cs + 1))"
| "value_size (V_ref h) = 16"

definition values_size :: "parcel_value list \<Rightarrow> nat" where
  "values_size vs = sum_list (map value_size vs)"

lemma values_size_simps [simp]:
  "values_size [] = 0" "values_size (v # vs) = value_size v + values_size vs"
  "values_size (vs @ ws) = values_size vs + values_size ws"
  by (simp_all add: values_size_def)

fun ref_count :: "parcel_value list \<Rightarrow> nat" where
  "ref_count [] = 0"
| "ref_count (V_ref h # vs) = (if h = 0 then 0 else 1) + ref_count vs"
| "ref_count (v # vs) = ref_count vs"

fun object_offsets :: "nat \<Rightarrow> parcel_value list \<Rightarrow> u32 list" where
  "object_offsets k [] = []"
| "object_offsets k (V_ref h # vs) = (if h = 0 then [] else [of_nat k]) @ object_offsets (k + 16) vs"
| "object_offsets k (v # vs) = object_offsets (k + value_size v) vs"

lemma length_object_offsets [simp]: "length (object_offsets k vs) = ref_count vs"
  by (induction k vs rule: object_offsets.induct) auto

definition ref_object :: "u32 \<Rightarrow> flat_binder_object" where
  "ref_object h = \<lparr>obj_type = BINDER_TYPE_HANDLE,
     obj_flags = 127 OR FLAT_BINDER_FLAG_ACCEPTS_FDS, handle = h, obj_cookie = 0\<rparr>"

definition string16_at :: "memory \<Rightarrow> nat \<Rightarrow> u16 list \<Rightarrow> bool" where
  "string16_at m a cs \<longleftrightarrow>
     (\<forall>i < length cs. load16 m (a + 2 * i) = cs ! i) \<and> load16 m (a + 2 * length cs) = 0"

fun value_at :: "memory \<Rightarrow> nat \<Rightarrow> parcel_value \<Rightarrow> bool" where
  "value_at m a (V_uint32 n) = (load32 m a = n)"
| "value_at m a (V_string16 cs) = (load32 m a = of_nat (length cs) \<and> string16_at m (a + 4) cs)"
| "value_at m a (V_ref h) = (read_object m a = ref_object h)"

fun laid_out :: "memory \<Rightarrow> nat \<Rightarrow> parcel_value list \<Rightarrow> bool" where
  "laid_out m a [] = True"
| "laid_out m a (v # vs) = (value_at m a v \<and> laid_out m (a + value_size v) vs)"

definition offsets_at :: "memory \<Rightarrow> nat \<Rightarrow> u32 list \<Rightarrow> bool" where
  "offsets_at m a os \<longleftrightarrow> (\<forall>i < length os. load32 m (a + 4 * i) = os ! i)"

lemma string16_at_cong:
  assumes "\<And>i. i < 2 * (length cs + 1) \<Longrightarrow> m (a + i) = m' (b + i)"
  shows "string16_at m a cs = string16_at m' b cs"
proof -
  have "load16 m (a + 2 * k) = load16 m' (b + 2 * k)" if "k \<le> length cs" for k
    using that assms [of "2 * k + i" for i] by (intro load16_cong) (simp add: add.assoc)
  then show ?thesis by (auto simp: string16_at_def)
qed

lemma round4_ge: "n \<le> round4 n"
  by (simp add: round4_def)

lemma value_at_cong:
  assumes "\<And>i. i < value_size v \<Longrightarrow> m (a + i) = m' (b + i)"
  shows "value_at m a v = value_at m' b v"
proof (cases v)
  case (V_uint32 n)
  then show ?thesis using assms load32_cong [of m a m' b] by simp
next
  case (V_string16 cs)
  have "load32 m a = load32 m' b" using assms V_string16 by (intro load32_cong) simp
  moreover have "string16_at m (a + 4) cs = string16_at m' (b + 4) cs"
    using assms [of "4 + i" for i] V_string16 round4_ge [of "2 * (length cs + 1)"]
    by (intro string16_at_cong) (simp add: add.assoc)
  ultimately show ?thesis using V_string16 by simp
next
  case (V_ref h)
  then show ?thesis using assms read_object_cong [of m a m' b] by simp
qed

lemma laid_out_cong:
  "(\<And>i. i < values_size vs \<Longrightarrow> m (a + i) = m' (b + i)) \<Longrightarrow> laid_out m a vs = laid_out m' b vs"
proof (induction vs arbitrary: a b)
  case (Cons v vs)
  have "value_at m a v = value_at m' b v" using Cons.prems by (intro value_at_cong) simp
  moreover have "laid_out m (a + value_size v) vs = laid_out m' (b + value_size v) vs"
    using Cons.prems [of "value_size v + i" for i] by (intro Cons.IH) (simp add: add.assoc)
  ultimately show ?case by simp
qed simp

lemma laid_out_append [simp]:
  "laid_out m a (vs @ ws) \<longleftrightarrow> laid_out m a vs \<and> laid_out m (a + values_size vs) ws"
  by (induction vs arbitrary: a) (auto simp: add.assoc)

lemma object_offsets_append [simp]:
  "object_offsets k (vs @ ws) = object_offsets k vs @ object_offsets (k + values_size vs) ws"
  by (induction k vs rule: object_offsets.induct) (auto simp: add.assoc)

lemma offset_listed_iff: "offset_listed m a n off \<longleftrightarrow> (\<exists>i < n. load32 m (a + 4 * i) = off)"
proof (induction n arbitrary: a)
  case (Suc n)
  show ?case unfolding offset_listed.simps Suc.IH
    by (auto simp: less_Suc_eq_0_disj add.assoc)
qed simp

lemma ref_count_append [simp]: "ref_count (vs @ ws) = ref_count vs + ref_count ws"
  by (induction vs rule: ref_count.induct) auto

section \<open>Allocation in the cursor\<close>

definition overflowed :: "binder_io \<Rightarrow> bool" where
  "overflowed bio \<longleftrightarrow> io_flags bio AND BIO_F_OVERFLOW \<noteq> 0"

lemma overflowed_bio_overflow [simp]: "overflowed (bio_overflow bio)"
proof -
  have "bit ((io_flags bio OR 2) AND 2) 1" by (simp add: bit_simps bit_numeral_rec)
  then show ?thesis by (auto simp: overflowed_def bio_overflow_def BIO_F_OVERFLOW_def)
qed

lemma bio_overflow_fields [simp]:
  "io_data (bio_overflow bio) = io_data bio" "io_offs (bio_overflow bio) = io_offs bio"
  "data_avail (bio_overflow bio) = data_avail bio" "offs_avail (bio_overflow bio) = offs_avail bio"
  "data0 (bio_overflow bio) = data0 bio" "offs0 (bio_overflow bio) = offs0 bio"
  by (simp_all add: bio_overflow_def)

definition io_wf :: "nat \<Rightarrow> nat \<Rightarrow> binder_io \<Rightarrow> bool" where
  "io_wf lo hi bio \<longleftrightarrow> 0 < lo \<and> lo \<le> io_offs bio \<and> io_offs bio + 4 * unat (offs_avail bio) \<le> data0 bio \<and>
     data0 bio \<le> io_data bio \<and> io_data bio + unat (data_avail bio) = hi \<and> hi \<le> addr_bound"

definition moved :: "nat \<Rightarrow> binder_io \<Rightarrow> binder_io" where
  "moved k bio = bio\<lparr>io_data := io_data bio + k, data_avail := data_avail bio - of_nat k\<rparr>"

lemma moved_fields [simp]:
  "io_data (moved k bio) = io_data bio + k" "io_offs (moved k bio) = io_offs bio"
  "offs_avail (moved k bio) = offs_avail bio" "data0 (moved k bio) = data0 bio"
  "offs0 (moved k bio) = offs0 bio" "io_flags (moved k bio) = io_flags bio"
  "overflowed (moved k bio) = overflowed bio"
  by (simp_all add: moved_def overflowed_def)

lemma moved_avail:
  "k \<le> unat (data_avail bio) \<Longrightarrow> unat (data_avail (moved k bio)) = unat (data_avail bio) - k"
proof -
  assume k: "k \<le> unat (data_avail bio)"
  have "unat (data_avail bio) < addr_bound" using unsigned_less [of "data_avail bio"] by simp
  then have u: "unat (of_nat k :: u32) = k" using k by (simp add: unat_of_nat)
  have "(of_nat k :: u32) \<le> data_avail bio" using k u by (simp add: word_le_nat_alt)
  then show ?thesis using u by (simp add: moved_def unat_sub)
qed

lemma bio_alloc_cases:
  assumes "unat (align_ptr sz) = k"
  shows "bio_alloc sz bio = (if k \<le> unat (data_avail bio) then (io_data bio, moved k bio) else (0, bio_overflow bio))"
proof -
  have "(align_ptr sz > data_avail bio) = (\<not> k \<le> unat (data_avail bio))"
    using assms by (simp add: word_less_nat_alt not_le)
  moreover have "align_ptr sz = of_nat k" by (simp flip: assms)
  ultimately show ?thesis using assms by (simp add: bio_alloc_def moved_def)
qed

lemma align_4 [simp]: "unat (align_ptr 4) = 4" and align_16 [simp]: "unat (align_ptr 16) = 16"
  by (simp_all add: unat_align_ptr)

lemma io_wf_moved: "io_wf lo hi bio \<Longrightarrow> k \<le> unat (data_avail bio) \<Longrightarrow> io_wf lo hi (moved k bio)"
  by (simp add: io_wf_def moved_avail)

lemma io_wf_overflow: "io_wf lo hi bio \<Longrightarrow> io_wf lo hi (bio_overflow bio)"
  by (simp add: io_wf_def)

section \<open>Writing\<close>

definition wrote ::
    "binder_io \<Rightarrow> memory \<Rightarrow> parcel_value list \<Rightarrow> binder_io \<Rightarrow> memory \<Rightarrow> bool" where
  "wrote bio m vs bio' m' \<longleftrightarrow>
     io_data bio' = io_data bio + values_size vs \<and> io_offs bio' = io_offs bio + 4 * ref_count vs \<and>
     unat (data_avail bio') + values_size vs = unat (data_avail bio) \<and>
     unat (offs_avail bio') + ref_count vs = unat (offs_avail bio) \<and>
     data0 bio' = data0 bio \<and> offs0 bio' = offs0 bio \<and> io_flags bio' = io_flags bio \<and>
     laid_out m' (io_data bio) vs \<and>
     offsets_at m' (io_offs bio) (object_offsets (io_data bio - data0 bio) vs) \<and>
     (\<forall>i. (i < io_offs bio \<or> io_offs bio' \<le> i) \<and> (i < io_data bio \<or> io_data bio' \<le> i) \<longrightarrow> m' i = m i)"

lemma offsets_at_append:
  "offsets_at m a (os @ os') \<longleftrightarrow> offsets_at m a os \<and> offsets_at m (a + 4 * length os) os'"
proof
  assume *: "offsets_at m a (os @ os')"
  have "load32 m (a + 4 * length os + 4 * i) = os' ! i" if "i < length os'" for i
    using * that unfolding offsets_at_def
    by (elim allE [where x = "length os + i"]) (simp add: nth_append algebra_simps)
  moreover have "load32 m (a + 4 * i) = os ! i" if "i < length os" for i
    using * that unfolding offsets_at_def by (elim allE [where x = i]) (simp add: nth_append)
  ultimately show "offsets_at m a os \<and> offsets_at m (a + 4 * length os) os'"
    by (simp add: offsets_at_def)
next
  assume *: "offsets_at m a os \<and> offsets_at m (a + 4 * length os) os'"
  have "load32 m (a + 4 * i) = (os @ os') ! i" if "i < length (os @ os')" for i
  proof (cases "i < length os")
    case True
    then show ?thesis using * by (simp add: offsets_at_def nth_append)
  next
    case False
    then have "load32 m (a + 4 * length os + 4 * (i - length os)) = os' ! (i - length os)"
      using * that by (simp add: offsets_at_def)
    moreover have "a + 4 * length os + 4 * (i - length os) = a + 4 * i" using False by simp
    ultimately show ?thesis using False by (simp add: nth_append)
  qed
  then show "offsets_at m a (os @ os')" by (simp add: offsets_at_def)
qed

lemma offsets_at_cong:
  assumes "\<And>i. i < 4 * length os \<Longrightarrow> m (a + i) = m' (b + i)"
  shows "offsets_at m a os = offsets_at m' b os"
proof -
  have "load32 m (a + 4 * k) = load32 m' (b + 4 * k)" if "k < length os" for k
    using that assms [of "4 * k + i" for i] by (intro load32_cong) (simp add: add.assoc)
  then show ?thesis by (simp add: offsets_at_def)
qed

lemma wrote_trans:
  assumes w: "io_wf lo hi bio" and 1: "wrote bio m vs bio1 m1" and 2: "wrote bio1 m1 ws bio2 m2"
  shows "wrote bio m (vs @ ws) bio2 m2"
proof -
  note W = w [unfolded io_wf_def] and A = 1 [unfolded wrote_def] and B = 2 [unfolded wrote_def]
  have same: "m2 i = m1 i" if "io_data bio \<le> i" "i < io_data bio1" for i
    using that A B W by auto
  have same': "m2 i = m1 i" if "io_offs bio \<le> i" "i < io_offs bio1" for i
    using that A B W by auto
  have "laid_out m2 (io_data bio) vs"
    using A same laid_out_cong [of vs m2 "io_data bio" m1 "io_data bio"] by simp
  moreover have "offsets_at m2 (io_offs bio) (object_offsets (io_data bio - data0 bio) vs)"
    using A same' offsets_at_cong [of "object_offsets (io_data bio - data0 bio) vs" m2 "io_offs bio" m1 "io_offs bio"]
    by simp
  moreover have "io_data bio1 - data0 bio1 = io_data bio - data0 bio + values_size vs" using A W by simp
  moreover have "m2 i = m i"
    if "(i < io_offs bio \<or> io_offs bio2 \<le> i) \<and> (i < io_data bio \<or> io_data bio2 \<le> i)" for i
  proof -
    have "m2 i = m1 i" using B A that by auto
    also have "m1 i = m i" using A B that by auto
    finally show ?thesis .
  qed
  ultimately show ?thesis using A B by (simp add: wrote_def offsets_at_append)
qed

datatype parcel_item = Put_uint32 u32 | Put_string16 nat "u16 list" | Put_ref u32

text \<open>\<open>Put_string16 src cs\<close> passes the pointer \<open>src\<close>, at which \<open>cs\<close> and a 0 are stored.\<close>

fun item_value :: "parcel_item \<Rightarrow> parcel_value" where
  "item_value (Put_uint32 n) = V_uint32 n"
| "item_value (Put_string16 src cs) = V_string16 cs"
| "item_value (Put_ref h) = V_ref h"

fun put_item :: "parcel_item \<Rightarrow> binder_io \<times> memory \<Rightarrow> (binder_io \<times> memory) option" where
  "put_item (Put_uint32 n) (bio, m) = Some (bio_put_uint32 n bio m)"
| "put_item (Put_string16 src cs) (bio, m) = bio_put_string16 src bio m"
| "put_item (Put_ref h) (bio, m) = Some (bio_put_ref h bio m)"

fun put_items :: "parcel_item list \<Rightarrow> binder_io \<times> memory \<Rightarrow> (binder_io \<times> memory) option" where
  "put_items [] s = Some s"
| "put_items (it # items) s = put_item it s \<bind> put_items items"

fun item_ok :: "nat \<Rightarrow> nat \<Rightarrow> memory \<Rightarrow> parcel_item \<Rightarrow> bool" where
  "item_ok lo hi m (Put_uint32 n) = True"
| "item_ok lo hi m (Put_string16 src cs) =
     (0 < src \<and> length cs < 536870912 \<and> 0 \<notin> set cs \<and> string16_at m src cs \<and>
      (src + 2 * (length cs + 1) \<le> lo \<or> hi \<le> src))"
| "item_ok lo hi m (Put_ref h) = True"

definition fits :: "binder_io \<Rightarrow> parcel_value list \<Rightarrow> bool" where
  "fits bio vs \<longleftrightarrow> values_size vs \<le> unat (data_avail bio) \<and> ref_count vs \<le> unat (offs_avail bio)"

text \<open>What every sequence of writes does, whether it fits or not.\<close>

definition put_outcome ::
    "nat \<Rightarrow> nat \<Rightarrow> parcel_value list \<Rightarrow> binder_io \<times> memory \<Rightarrow> binder_io \<times> memory \<Rightarrow> bool" where
  "put_outcome lo hi vs s s' \<longleftrightarrow>
     io_wf lo hi (fst s') \<and> data0 (fst s') = data0 (fst s) \<and> offs0 (fst s') = offs0 (fst s) \<and>
     (\<forall>i. i < lo \<or> hi \<le> i \<longrightarrow> snd s' i = snd s i) \<and>
     (overflowed (fst s) \<longrightarrow> overflowed (fst s')) \<and>
     (if fits (fst s) vs then wrote (fst s) (snd s) vs (fst s') (snd s') else overflowed (fst s'))"

lemma put_uint32_outcome:
  assumes w: "io_wf lo hi bio"
  shows "put_outcome lo hi [V_uint32 n] (bio, m) (bio_put_uint32 n bio m)"
proof (cases "4 \<le> unat (data_avail bio)")
  case True
  have "io_data bio \<noteq> 0" using w by (simp add: io_wf_def)
  then have p: "bio_put_uint32 n bio m = (moved 4 bio, store32 (io_data bio) n m)"
    using True by (simp add: bio_put_uint32_def bio_alloc_cases)
  have "wrote bio m [V_uint32 n] (moved 4 bio) (store32 (io_data bio) n m)"
    using True by (simp add: wrote_def moved_avail offsets_at_def store32_outside)
  moreover have "store32 (io_data bio) n m i = m i" if "i < lo \<or> hi \<le> i" for i
    using that w True by (intro store32_outside) (auto simp: io_wf_def)
  ultimately show ?thesis using True io_wf_moved [OF w True] by (simp add: put_outcome_def p fits_def)
next
  case False
  then show ?thesis using io_wf_overflow [OF w]
    by (simp add: put_outcome_def bio_put_uint32_def bio_alloc_cases fits_def)
qed

lemma io_wf_avail: "io_wf lo hi bio \<Longrightarrow> unat (data_avail bio) \<le> hi - io_data bio \<and> io_data bio \<noteq> 0"
  by (auto simp: io_wf_def)

lemma put_null_outcome:
  assumes w: "io_wf lo hi bio"
  shows "put_outcome lo hi [V_ref 0] (bio, m) (bio_put_ref 0 bio m)"
proof (cases "16 \<le> unat (data_avail bio)")
  case True
  let ?m = "write_object (io_data bio) (ref_object 0) m"
  have p: "bio_put_ref 0 bio m = (moved 16 bio, ?m)"
    using True io_wf_avail [OF w] by (simp add: bio_put_ref_def bio_alloc_cases ref_object_def)
  have "wrote bio m [V_ref 0] (moved 16 bio) ?m"
    using True by (simp add: wrote_def moved_avail offsets_at_def write_object_outside read_write_object)
  moreover have "?m i = m i" if "i < lo \<or> hi \<le> i" for i
    using that w True by (intro write_object_outside) (auto simp: io_wf_def)
  ultimately show ?thesis using True io_wf_moved [OF w True] by (simp add: put_outcome_def p fits_def)
next
  case False
  then show ?thesis using io_wf_overflow [OF w]
    by (simp add: put_outcome_def bio_put_ref_def bio_alloc_cases fits_def)
qed

lemma put_handle_outcome:
  assumes w: "io_wf lo hi bio" and h: "h \<noteq> 0"
  shows "put_outcome lo hi [V_ref h] (bio, m) (bio_put_ref h bio m)"
proof (cases "16 \<le> unat (data_avail bio)")
  case False
  then show ?thesis using io_wf_overflow [OF io_wf_overflow [OF w]] h
    by (simp add: put_outcome_def bio_put_ref_def bio_alloc_obj_def bio_alloc_cases fits_def)
next
  case True
  note a = io_wf_avail [OF w]
  show ?thesis
  proof (cases "offs_avail bio = 0")
    case no: True
    then show ?thesis using io_wf_overflow [OF io_wf_moved [OF w True]] h a True
      by (simp add: put_outcome_def bio_put_ref_def bio_alloc_obj_def bio_alloc_cases fits_def)
  next
    case yes: False
    then have n: "1 \<le> unat (offs_avail bio)" by (simp add: unat_gt_0 Suc_le_eq)
    then have n': "unat (offs_avail bio - 1) = unat (offs_avail bio) - 1" by (simp add: unat_sub word_le_nat_alt)
    define bio' where "bio' = (moved 16 bio)\<lparr>offs_avail := offs_avail bio - 1, io_offs := io_offs bio + 4\<rparr>"
    define off where "off = (of_nat (io_data bio - data0 bio) :: u32)"
    define m' where "m' = write_object (io_data bio) (ref_object h) (store32 (io_offs bio) off m)"
    have p: "bio_put_ref h bio m = (bio', m')"
      using True yes a h
      by (simp add: bio_put_ref_def bio_alloc_obj_def bio_alloc_cases bio'_def m'_def off_def ref_object_def)
    have sep: "io_offs bio + 4 \<le> io_data bio" using w n by (simp add: io_wf_def)
    have f: "io_data bio' = io_data bio + 16" "io_offs bio' = io_offs bio + 4" "data0 bio' = data0 bio"
      "offs0 bio' = offs0 bio" "io_flags bio' = io_flags bio" "data_avail bio' = data_avail (moved 16 bio)"
      "offs_avail bio' = offs_avail bio - 1"
      by (simp_all add: bio'_def)
    have "load32 m' (io_offs bio) = load32 (store32 (io_offs bio) off m) (io_offs bio)"
      unfolding m'_def using sep by (intro load32_unchanged write_object_outside) simp
    then have o: "load32 m' (io_offs bio) = off" by simp
    have out: "m' i = m i" if "i < io_offs bio \<or> io_offs bio + 4 \<le> i" "i < io_data bio \<or> io_data bio + 16 \<le> i" for i
      using that by (simp add: m'_def write_object_outside store32_outside)
    have v: "read_object m' (io_data bio) = ref_object h" by (simp add: m'_def read_write_object)
    have wr: "wrote bio m [V_ref h] bio' m'"
      unfolding wrote_def f using True n n' o out v h by (simp add: moved_avail offsets_at_def off_def)
    have wf: "io_wf lo hi bio'"
      unfolding io_wf_def f using w True n n' by (auto simp: moved_avail io_wf_def)
    have lim: "m' i = m i" if "i < lo \<or> hi \<le> i" for i
      using that w True n by (intro out) (auto simp: io_wf_def)
    have "overflowed bio' = overflowed bio" by (simp add: overflowed_def f)
    then show ?thesis unfolding p put_outcome_def using wr wf lim f True n h by (simp add: fits_def)
  qed
qed

lemma put_ref_outcome: "io_wf lo hi bio \<Longrightarrow> put_outcome lo hi [V_ref h] (bio, m) (bio_put_ref h bio m)"
  using put_null_outcome put_handle_outcome by (cases "h = 0") auto

lemma string16_length:
  assumes "string16_at m src cs" "0 \<notin> set cs" "length cs < 536870912"
  shows "string16_length m src 0 = Some (of_nat (length cs))"
proof -
  have "string16_length m src (of_nat k) = Some (of_nat (length cs))" if "k \<le> length cs" for k
    using that
  proof (induction "length cs - k" arbitrary: k)
    case 0
    then have "k = length cs" by simp
    moreover have "unat (of_nat (length cs) :: u32) = length cs" using assms(3) by (simp add: unat_of_nat)
    ultimately show ?case using assms(1) by (subst string16_length.simps) (simp add: string16_at_def)
  next
    case (Suc d)
    then have k: "k < length cs" "d = length cs - Suc k" "Suc k \<le> length cs" by simp_all
    then have "cs ! k \<noteq> 0" using assms(2) nth_mem by metis
    moreover have "unat (of_nat k :: u32) = k" using k assms(3) by (simp add: unat_of_nat)
    ultimately have "string16_length m src (of_nat k) = string16_length m src (of_nat (Suc k))"
      using assms(1) k(1) by (subst string16_length.simps) (simp add: string16_at_def add.commute)
    then show ?case using Suc.hyps(1) [OF k(2,3)] by simp
  qed
  from this [of 0] show ?thesis by simp
qed

lemma string_size:
  assumes "n < 536870912"
  shows "unat ((of_nat n + 1) * 2 :: u32) = 2 * (n + 1)"
    and "unat (align_ptr ((of_nat n + 1) * 2)) = round4 (2 * (n + 1))"
    and "\<not> MAX_BIO_SIZE div 2 \<le> of_nat n" and "unat (of_nat n :: u32) = n"
proof -
  have e: "((of_nat n + 1) * 2 :: u32) = of_nat (2 * (n + 1))" by simp
  show 1: "unat ((of_nat n + 1) * 2 :: u32) = 2 * (n + 1)"
    unfolding e using assms by (simp only: unat_of_nat) simp
  show "unat (align_ptr ((of_nat n + 1) * 2)) = round4 (2 * (n + 1))"
    using assms by (simp add: unat_align_cases 1 del: distrib_right_numeral)
  show u: "unat (of_nat n :: u32) = n" using assms by (simp add: unat_of_nat)
  have "MAX_BIO_SIZE div 2 = 536870912" by (simp add: MAX_BIO_SIZE_def)
  then show "\<not> MAX_BIO_SIZE div 2 \<le> of_nat n" using assms u by (simp add: word_le_nat_alt)
qed

lemma put_string16_eq:
  assumes "0 < src" "string16_at m src cs" "0 \<notin> set cs" "length cs < 536870912"
  shows "bio_put_string16 src bio m = Some (
    let (bio, m) = bio_put_uint32 (of_nat (length cs)) bio m; k = round4 (2 * (length cs + 1)) in
    if k \<le> unat (data_avail bio)
    then (moved k bio, if io_data bio \<noteq> 0 then copy_bytes m src (io_data bio) (2 * (length cs + 1)) m else m)
    else (bio_overflow bio, m))"
  using assms string_size [OF assms(4)] string16_length [OF assms(2-4)]
  by (simp add: bio_put_string16_def bio_alloc_cases [OF string_size(2) [OF assms(4)]]
      Let_def split_def del: distrib_right_numeral)

lemma put_string16_outcome:
  assumes w: "io_wf lo hi bio" and ok: "item_ok lo hi m (Put_string16 src cs)"
  shows "\<exists>s'. bio_put_string16 src bio m = Some s' \<and> put_outcome lo hi [V_string16 cs] (bio, m) s'"
proof -
  let ?n = "length cs" and ?k = "round4 (2 * (length cs + 1))"
  note u = ok [unfolded item_ok.simps] and a = io_wf_avail [OF w]
  have n: "unat (of_nat ?n :: u32) = ?n" using u string_size(4) by blast
  have eq: "bio_put_string16 src bio m = Some (
    let (bio, m) = bio_put_uint32 (of_nat ?n) bio m in
    if ?k \<le> unat (data_avail bio)
    then (moved ?k bio, if io_data bio \<noteq> 0 then copy_bytes m src (io_data bio) (2 * (?n + 1)) m else m)
    else (bio_overflow bio, m))"
  proof -
    from u have "0 < src" "string16_at m src cs" "0 \<notin> set cs" "?n < 536870912" by simp_all
    from put_string16_eq [OF this, of bio] show ?thesis by (simp only: Let_def)
  qed
  show ?thesis
  proof (cases "4 \<le> unat (data_avail bio)")
    case False
    have k: "4 \<le> ?k" by (simp add: round4_def)
    have "bio_put_string16 src bio m = Some (bio_overflow (bio_overflow bio), m)"
      unfolding eq using False k by (simp add: bio_put_uint32_def bio_alloc_cases)
    then show ?thesis using False io_wf_overflow [OF io_wf_overflow [OF w]]
      by (simp add: put_outcome_def fits_def)
  next
    case True
    let ?m1 = "store32 (io_data bio) (of_nat ?n) m" and ?b1 = "moved 4 bio"
    have av: "unat (data_avail ?b1) = unat (data_avail bio) - 4" using True by (rule moved_avail)
    have lim: "?m1 i = m i" if "i < lo \<or> hi \<le> i" for i
      using that w True by (intro store32_outside) (auto simp: io_wf_def)
    show ?thesis
    proof (cases "?k \<le> unat (data_avail bio) - 4")
      case False
      then have "bio_put_string16 src bio m = Some (bio_overflow ?b1, ?m1)"
        unfolding eq using True a av by (simp add: bio_put_uint32_def bio_alloc_cases)
      then show ?thesis using False True lim io_wf_overflow [OF io_wf_moved [OF w True]]
        by (auto simp: put_outcome_def fits_def)
    next
      case fit: True
      let ?b2 = "moved ?k ?b1" and ?m2 = "copy_bytes ?m1 src (io_data bio + 4) (2 * (?n + 1)) ?m1"
      have p: "bio_put_string16 src bio m = Some (?b2, ?m2)"
        unfolding eq using True a av fit by (simp add: bio_put_uint32_def bio_alloc_cases)
      have k: "2 * (?n + 1) \<le> ?k" by (rule round4_ge)
      have av2: "unat (data_avail ?b2) = unat (data_avail bio) - 4 - ?k" using fit av moved_avail [of ?k ?b1] by simp
      have src: "?m1 (src + i) = m (src + i)" if "i < 2 * (?n + 1)" for i
        using that u w by (intro lim) (auto simp: io_wf_def)
      have "string16_at ?m2 (io_data bio + 4) cs = string16_at m src cs"
        using src by (intro string16_at_cong) (simp add: copy_bytes_def)
      moreover have "load32 ?m2 (io_data bio) = load32 ?m1 (io_data bio)"
        by (intro load32_unchanged copy_bytes_outside) simp
      ultimately have v: "value_at ?m2 (io_data bio) (V_string16 cs)" using u by simp
      have out: "?m2 i = m i" if "i < io_data bio \<or> io_data bio + 4 + ?k \<le> i" for i
        using that k by (auto simp: copy_bytes_def store32_def)
      have "wrote bio m [V_string16 cs] ?b2 ?m2"
        unfolding wrote_def using True fit av2 v out by (simp add: offsets_at_def)
      moreover have "?m2 i = m i" if "i < lo \<or> hi \<le> i" for i
        using that w True fit by (intro out) (auto simp: io_wf_def)
      moreover have "io_wf lo hi ?b2" using io_wf_moved [OF io_wf_moved [OF w True]] fit av by simp
      ultimately show ?thesis using p True fit by (auto simp: put_outcome_def fits_def)
    qed
  qed
qed

lemma put_item_outcome:
  assumes "io_wf lo hi bio" "item_ok lo hi m it"
  shows "\<exists>s'. put_item it (bio, m) = Some s' \<and> put_outcome lo hi [item_value it] (bio, m) s'"
proof (cases it)
  case (Put_string16 src cs)
  then show ?thesis using put_string16_outcome [OF assms(1)] assms(2) by simp
qed (use assms put_uint32_outcome put_ref_outcome in auto)

lemma item_ok_cong:
  assumes "item_ok lo hi m it" "\<And>i. i < lo \<or> hi \<le> i \<Longrightarrow> m' i = m i"
  shows "item_ok lo hi m' it"
proof (cases it)
  case (Put_string16 src cs)
  then have "m' (src + i) = m (src + i)" if "i < 2 * (length cs + 1)" for i
    using that assms by (intro assms(2)) auto
  then have "string16_at m' src cs = string16_at m src cs" by (intro string16_at_cong) simp
  then show ?thesis using assms(1) Put_string16 by simp
qed (use assms(1) in auto)

lemma put_outcome_trans:
  assumes w: "io_wf lo hi (fst s)" and 1: "put_outcome lo hi vs s s1" and 2: "put_outcome lo hi ws s1 s2"
  shows "put_outcome lo hi (vs @ ws) s s2"
proof -
  note A = 1 [unfolded put_outcome_def] and B = 2 [unfolded put_outcome_def]
  have out: "\<forall>i. i < lo \<or> hi \<le> i \<longrightarrow> snd s2 i = snd s i" using A B by simp
  show ?thesis
  proof (cases "fits (fst s) vs")
    case False
    then have "\<not> fits (fst s) (vs @ ws)" by (auto simp: fits_def)
    then show ?thesis using A B out False by (simp add: put_outcome_def)
  next
    case True
    then have W: "wrote (fst s) (snd s) vs (fst s1) (snd s1)" using A by simp
    then have f: "fits (fst s) (vs @ ws) \<longleftrightarrow> fits (fst s1) ws" by (auto simp: fits_def wrote_def)
    show ?thesis
    proof (cases "fits (fst s1) ws")
      case T: True
      then have "wrote (fst s1) (snd s1) ws (fst s2) (snd s2)" using B by simp
      with wrote_trans [OF w W] have "wrote (fst s) (snd s) (vs @ ws) (fst s2) (snd s2)" .
      then show ?thesis using A B out f T by (simp add: put_outcome_def)
    next
      case F: False
      then show ?thesis using A B out f by (simp add: put_outcome_def)
    qed
  qed
qed

lemma put_items_outcome:
  assumes "io_wf lo hi (fst s)" "list_all (item_ok lo hi (snd s)) items"
  shows "\<exists>s'. put_items items s = Some s' \<and> put_outcome lo hi (map item_value items) s s'"
  using assms
proof (induction items arbitrary: s)
  case Nil
  then show ?case by (simp add: put_outcome_def fits_def wrote_def offsets_at_def)
next
  case (Cons it items)
  obtain bio m where s: "s = (bio, m)" by (cases s)
  obtain s1 where 1: "put_item it s = Some s1" "put_outcome lo hi [item_value it] s s1"
    using put_item_outcome [of lo hi bio m it] Cons.prems by (auto simp: s)
  then have "io_wf lo hi (fst s1)" and same: "\<And>i. i < lo \<or> hi \<le> i \<Longrightarrow> snd s1 i = snd s i"
    by (auto simp: put_outcome_def)
  moreover have "list_all (item_ok lo hi (snd s1)) items"
    using Cons.prems(2) item_ok_cong [OF _ same] by (auto simp: list_all_iff)
  ultimately obtain s2 where 2: "put_items items s1 = Some s2" "put_outcome lo hi (map item_value items) s1 s2"
    using Cons.IH [of s1] by blast
  show ?case using put_outcome_trans [OF Cons.prems(1) 1(2) 2(2)] 1(1) 2(1) by simp
qed

section \<open>Reading\<close>

datatype value_kind = K_uint32 | K_string16 | K_ref

fun kind_of :: "parcel_value \<Rightarrow> value_kind" where
  "kind_of (V_uint32 n) = K_uint32"
| "kind_of (V_string16 cs) = K_string16"
| "kind_of (V_ref h) = K_ref"

definition read_string16 :: "memory \<Rightarrow> nat \<Rightarrow> nat \<Rightarrow> u16 list" where
  "read_string16 m a n = map (\<lambda>i. load16 m (a + 2 * i)) [0..<n]"

fun get_value :: "memory \<Rightarrow> value_kind \<Rightarrow> binder_io \<Rightarrow> parcel_value \<times> binder_io" where
  "get_value m K_uint32 bio = (let (n, bio) = bio_get_uint32 m bio in (V_uint32 n, bio))"
| "get_value m K_string16 bio =
     (let (ptr, len, bio) = bio_get_string16 m bio in (V_string16 (read_string16 m ptr (unat len)), bio))"
| "get_value m K_ref bio = (let (h, bio) = bio_get_ref m bio in (V_ref h, bio))"

fun get_values :: "memory \<Rightarrow> value_kind list \<Rightarrow> binder_io \<Rightarrow> parcel_value list \<times> binder_io" where
  "get_values m [] bio = ([], bio)"
| "get_values m (k # ks) bio =
     (let (v, bio) = get_value m k bio; (vs, bio) = get_values m ks bio in (v # vs, bio))"

lemma bio_get_cases:
  assumes "unat (align_ptr sz) = k"
  shows "bio_get sz bio = (if k \<le> unat (data_avail bio) then (io_data bio, moved k bio)
                           else (0, bio_overflow (bio\<lparr>data_avail := 0\<rparr>)))"
proof -
  have "(data_avail bio < align_ptr sz) = (\<not> k \<le> unat (data_avail bio))"
    using assms by (simp add: word_less_nat_alt not_le)
  moreover have "align_ptr sz = of_nat k" by (simp flip: assms)
  ultimately show ?thesis using assms by (simp add: bio_get_def moved_def)
qed

text \<open>A value that is there is read, and the cursor moves behind it.\<close>

fun short_string :: "parcel_value \<Rightarrow> bool" where
  "short_string (V_string16 cs) = (length cs < 536870912)"
| "short_string v = True"

lemma moved_moved: "moved j (moved k bio) = moved (k + j) bio"
  by (simp add: moved_def algebra_simps)

lemma get_string16_ok:
  assumes "value_at m (io_data bio) (V_string16 cs)" "value_size (V_string16 cs) \<le> unat (data_avail bio)"
    "io_data bio \<noteq> 0" "length cs < 536870912"
  shows "bio_get_string16 m bio =
           (io_data bio + 4, of_nat (length cs), moved (value_size (V_string16 cs)) bio)"
    and "read_string16 m (io_data bio + 4) (length cs) = cs"
proof -
  let ?k = "round4 (2 * (length cs + 1))"
  note z = string_size [OF assms(4)]
  have 4: "4 \<le> unat (data_avail bio)" using assms(2) by simp
  have u: "bio_get_uint32 m bio = (of_nat (length cs), moved 4 bio)"
    using assms 4 by (simp add: bio_get_uint32_def bio_get_cases [of 4 4])
  have av: "?k \<le> unat (data_avail (moved 4 bio))" using assms(2) moved_avail [OF 4] by simp
  have g: "bio_get ((of_nat (length cs) + 1) * 2) (moved 4 bio) = (io_data bio + 4, moved ?k (moved 4 bio))"
    using bio_get_cases [OF z(2), of "moved 4 bio"] av by (simp del: distrib_right_numeral)
  show "bio_get_string16 m bio =
      (io_data bio + 4, of_nat (length cs), moved (value_size (V_string16 cs)) bio)"
    using u g by (simp add: bio_get_string16_def Let_def moved_moved del: distrib_right_numeral)
  show "read_string16 m (io_data bio + 4) (length cs) = cs"
    using assms(1) by (auto simp: read_string16_def string16_at_def intro: nth_equalityI)
qed

lemma get_value_ok:
  assumes "value_at m (io_data bio) v" "value_size v \<le> unat (data_avail bio)" "io_data bio \<noteq> 0"
    "short_string v"
    "v \<noteq> V_ref 0"
    "\<And>h. v = V_ref h \<Longrightarrow> offset_listed m (io_offs bio) (unat (offs_avail bio)) (of_nat (io_data bio - data0 bio))"
  shows "get_value m (kind_of v) bio = (v, moved (value_size v) bio)"
proof (cases v)
  case (V_uint32 n)
  then show ?thesis using assms by (simp add: bio_get_uint32_def bio_get_cases [of 4 4])
next
  case (V_ref h)
  then show ?thesis using assms
    by (simp add: bio_get_ref_def bio_get_obj_def bio_get_cases [of 16 16] ref_object_def)
next
  case (V_string16 cs)
  then have n: "length cs < 536870912" using assms(4) by simp
  note s = get_string16_ok [OF assms(1-3) [unfolded V_string16] n]
  show ?thesis using s string_size(4) [OF n] by (simp add: V_string16)
qed

text \<open>A cursor in front of values that are there, no NULL reference among them.\<close>

definition ready :: "memory \<Rightarrow> binder_io \<Rightarrow> parcel_value list \<Rightarrow> bool" where
  "ready m bio vs \<longleftrightarrow> laid_out m (io_data bio) vs \<and> values_size vs \<le> unat (data_avail bio) \<and>
     io_data bio \<noteq> 0 \<and> data0 bio \<le> io_data bio \<and> list_all short_string vs \<and>
     V_ref 0 \<notin> set vs \<and>
     (\<forall>off \<in> set (object_offsets (io_data bio - data0 bio) vs).
        offset_listed m (io_offs bio) (unat (offs_avail bio)) off)"

lemma ready_Cons:
  assumes "ready m bio (v # vs)"
  shows "get_value m (kind_of v) bio = (v, moved (value_size v) bio)"
    and "ready m (moved (value_size v) bio) vs"
proof -
  note r = assms [unfolded ready_def]
  show "get_value m (kind_of v) bio = (v, moved (value_size v) bio)"
    using r by (intro get_value_ok) auto
  have "unat (data_avail (moved (value_size v) bio)) = unat (data_avail bio) - value_size v"
    using r by (intro moved_avail) simp
  moreover have "io_data bio + value_size v - data0 bio = io_data bio - data0 bio + value_size v" using r by simp
  moreover have "set (object_offsets (io_data bio - data0 bio + value_size v) vs)
      \<subseteq> set (object_offsets (io_data bio - data0 bio) (v # vs))"
    by (cases v) auto
  ultimately show "ready m (moved (value_size v) bio) vs" using r by (auto simp: ready_def)
qed

lemma get_values_ok:
  "ready m bio vs \<Longrightarrow> get_values m (map kind_of vs) bio = (vs, moved (values_size vs) bio)"
proof (induction vs arbitrary: bio)
  case Nil
  then show ?case by (simp add: moved_def)
next
  case (Cons v vs)
  then show ?case using ready_Cons [OF Cons.prems] Cons.IH by (simp add: moved_moved)
qed

section \<open>Parcels\<close>

text \<open>
  The driver delivers the bytes of the data and of the offsets at addresses of the receiver;
  the sizes are those that \<open>binder_call\<close> and \<open>binder_send_reply\<close> compute.
\<close>

definition delivered :: "memory \<Rightarrow> binder_io \<Rightarrow> memory \<Rightarrow> transaction_data \<Rightarrow> bool" where
  "delivered m1 bio m2 tr \<longleftrightarrow>
     tr_data_size tr = of_nat (io_data bio - data0 bio) \<and>
     tr_offsets_size tr = of_nat (io_offs bio - offs0 bio) \<and> tr_buffer tr \<noteq> 0 \<and>
     (\<forall>i < io_data bio - data0 bio. m2 (unat (tr_buffer tr) + i) = m1 (data0 bio + i)) \<and>
     (\<forall>i < io_offs bio - offs0 bio. m2 (unat (tr_offsets tr) + i) = m1 (offs0 bio + i))"

lemma bio_init_wf:
  assumes "0 < buf" "unat maxoffs * 4 \<le> unat maxdata" "buf + unat maxdata \<le> addr_bound"
  shows "bio_init io buf maxdata maxoffs =
      \<lparr>io_data = buf + 4 * unat maxoffs, io_offs = buf, data_avail = maxdata - maxoffs * 4,
       offs_avail = maxoffs, data0 = buf + 4 * unat maxoffs, offs0 = buf, io_flags = 0\<rparr>"
    and "io_wf buf (buf + unat maxdata) (bio_init io buf maxdata maxoffs)"
    and "unat (data_avail (bio_init io buf maxdata maxoffs)) = unat maxdata - 4 * unat maxoffs"
proof -
  have u: "unat (maxoffs * 4) = 4 * unat maxoffs"
    proof -
    have "unat maxdata < addr_bound" using unsigned_less [of maxdata] by simp
    then have "unat maxoffs * 4 < addr_bound" using assms(2) by simp
    then show ?thesis by (simp add: unat_word_ariths)
  qed
  then have l: "maxoffs * 4 \<le> maxdata" using assms(2) by (simp add: word_le_nat_alt)
  show 1: "bio_init io buf maxdata maxoffs =
      \<lparr>io_data = buf + 4 * unat maxoffs, io_offs = buf, data_avail = maxdata - maxoffs * 4,
       offs_avail = maxoffs, data0 = buf + 4 * unat maxoffs, offs0 = buf, io_flags = 0\<rparr>"
    using l u by (simp add: bio_init_def Let_def)
  show 2: "unat (data_avail (bio_init io buf maxdata maxoffs)) = unat maxdata - 4 * unat maxoffs"
    using l u by (simp add: 1 unat_sub)
  show "io_wf buf (buf + unat maxdata) (bio_init io buf maxdata maxoffs)"
    using assms 2 by (simp add: io_wf_def 1)
qed

lemma delivered_cursor:
  assumes W: "wrote bio0 m0 vs bio1 m1" "io_data bio0 = data0 bio0" "io_offs bio0 = offs0 bio0"
    and w: "io_wf lo hi bio0" and d: "delivered m1 bio1 m2 tr"
  defines "b \<equiv> bio_init_from_txn tr"
  shows "laid_out m2 (io_data b) vs" "unat (data_avail b) = values_size vs" "values_size vs < addr_bound"
    "io_data b \<noteq> 0" "data0 b = io_data b"
    "offset_listed m2 (io_offs b) (unat (offs_avail b)) off \<longleftrightarrow> off \<in> set (object_offsets 0 vs)"
proof -
  note D = d [unfolded delivered_def] and A = W [unfolded wrote_def]
  have sz: "io_data bio1 - data0 bio1 = values_size vs" "io_offs bio1 - offs0 bio1 = 4 * ref_count vs"
    "data0 bio1 = data0 bio0" "offs0 bio1 = offs0 bio0" using A by auto
  show small: "values_size vs < addr_bound"
    using A w unsigned_less [of "data_avail bio0"] by (auto simp: io_wf_def)
  have small': "4 * ref_count vs < addr_bound"
    using A w unsigned_less [of "data_avail bio0"] by (auto simp: io_wf_def)
  show av: "unat (data_avail b) = values_size vs"
    using D sz small by (simp add: b_def bio_init_from_txn_def unat_of_nat)
  have ov: "unat (offs_avail b) = ref_count vs"
  proof -
    have "tr_offsets_size tr = of_nat (4 * ref_count vs)" using D sz by simp
    then have "unat (tr_offsets_size tr) = 4 * ref_count vs" using small' by (simp only: unat_of_nat) simp
    then show ?thesis by (simp add: b_def bio_init_from_txn_def unat_div)
  qed
  have "laid_out m2 (unat (tr_buffer tr)) vs = laid_out m1 (data0 bio0) vs"
    using D sz by (intro laid_out_cong) simp
  then show "laid_out m2 (io_data b) vs" using A W(2) by (simp add: b_def bio_init_from_txn_def)
  have "offsets_at m2 (unat (tr_offsets tr)) (object_offsets 0 vs)
      = offsets_at m1 (offs0 bio0) (object_offsets 0 vs)"
    using D sz by (intro offsets_at_cong) simp
  then have "offsets_at m2 (unat (tr_offsets tr)) (object_offsets 0 vs)" using A W(2,3) by simp
  then show "offset_listed m2 (io_offs b) (unat (offs_avail b)) off \<longleftrightarrow> off \<in> set (object_offsets 0 vs)"
    using ov by (auto simp: offset_listed_iff offsets_at_def in_set_conv_nth b_def bio_init_from_txn_def)
  show "io_data b \<noteq> 0" "data0 b = io_data b"
    using D by (simp_all add: b_def bio_init_from_txn_def unat_eq_zero)
qed

lemma delivered_ready:
  assumes "wrote bio0 m0 vs bio1 m1" "io_data bio0 = data0 bio0" "io_offs bio0 = offs0 bio0"
    "io_wf lo hi bio0" "delivered m1 bio1 m2 tr" "list_all short_string vs" "V_ref 0 \<notin> set vs"
  shows "ready m2 (bio_init_from_txn tr) vs"
    and "unat (data_avail (bio_init_from_txn tr)) = values_size vs"
  using delivered_cursor [OF assms(1-5)] assms(6,7) by (simp_all add: ready_def)

text \<open>
  What a receiver reads: from the first NULL reference on, which reads as 0 and empties the
  cursor, nothing but zeros and empty strings.
\<close>

fun blank_value :: "parcel_value \<Rightarrow> parcel_value" where
  "blank_value (V_uint32 n) = V_uint32 0"
| "blank_value (V_string16 cs) = V_string16 []"
| "blank_value (V_ref h) = V_ref 0"

fun read_back :: "parcel_value list \<Rightarrow> parcel_value list" where
  "read_back [] = []"
| "read_back (v # vs) = (if v = V_ref 0 then map blank_value (v # vs) else v # read_back vs)"

lemma read_back_no_null: "V_ref 0 \<notin> set vs \<Longrightarrow> read_back vs = vs"
  by (induction vs) auto

lemma read_back_null: "V_ref 0 \<notin> set pre \<Longrightarrow> read_back (pre @ V_ref 0 # vs) = pre @ map blank_value (V_ref 0 # vs)"
  by (induction pre) auto

lemma get_values_append:
  "get_values m ks bio = (vs, b1) \<Longrightarrow> get_values m ks' b1 = (ws, b2) \<Longrightarrow> get_values m (ks @ ks') bio = (vs @ ws, b2)"
  by (induction ks arbitrary: bio vs) (auto split: prod.splits)

lemma get_value_empty:
  assumes "data_avail bio = 0"
  shows "\<exists>b. get_value m (kind_of v) bio = (blank_value v, b) \<and> data_avail b = 0 \<and> overflowed b"
proof -
  have c: "unat (align_ptr 2) = 4" by (simp add: unat_align_ptr)
  note g = bio_get_cases [OF align_4] bio_get_cases [OF align_16] bio_get_cases [OF c]
  show ?thesis using assms
    by (cases v) (auto simp: bio_get_uint32_def bio_get_string16_def bio_get_ref_def bio_get_obj_def g Let_def
      read_string16_def)
qed

lemma get_values_empty:
  "data_avail bio = 0 \<Longrightarrow> vs \<noteq> [] \<Longrightarrow>
   \<exists>b. get_values m (map kind_of vs) bio = (map blank_value vs, b) \<and> data_avail b = 0 \<and> overflowed b"
proof (induction vs arbitrary: bio)
  case (Cons v vs)
  obtain b where b: "get_value m (kind_of v) bio = (blank_value v, b)" "data_avail b = 0" "overflowed b"
    using get_value_empty [OF Cons.prems(1)] by blast
  show ?case
  proof (cases "vs = []")
    case True
    with b show ?thesis by simp
  next
    case False
    from Cons.IH [OF b(2) False] b show ?thesis by auto
  qed
qed simp

lemma object_offsets_range:
  "off \<in> set (object_offsets k vs) \<Longrightarrow> \<exists>j. off = of_nat j \<and> k \<le> j \<and> j < k + values_size vs"
proof (induction k vs rule: object_offsets.induct)
  case (2 k h vs)
  show ?case
  proof (cases "off \<in> set (object_offsets (k + 16) vs)")
    case True
    from "2.IH" [OF this] show ?thesis by (auto intro: exI)
  next
    case False
    with "2.prems" show ?thesis by (intro exI [of _ k]) (auto split: if_splits)
  qed
next
  case "3_1"
  then show ?case by fastforce
next
  case "3_2"
  then show ?case by (fastforce simp del: value_size.simps)
qed simp

text \<open>The place of a NULL reference is not in the table of objects.\<close>

lemma null_not_listed:
  assumes "values_size (pre @ V_ref 0 # vs) < addr_bound"
  shows "of_nat (values_size pre) \<notin> set (object_offsets 0 (pre @ V_ref 0 # vs))"
proof
  let ?n = "values_size pre"
  assume "of_nat ?n \<in> set (object_offsets 0 (pre @ V_ref 0 # vs))"
  then have "of_nat ?n \<in> set (object_offsets 0 pre) \<or> of_nat ?n \<in> set (object_offsets (?n + 16) vs)" by simp
  then obtain j where j: "(of_nat ?n :: u32) = of_nat j" "j \<noteq> ?n" "j < values_size (pre @ V_ref 0 # vs)"
    using object_offsets_range [of "of_nat ?n" 0 pre] object_offsets_range [of "of_nat ?n" "?n + 16" vs] by auto
  have "unat (of_nat ?n :: u32) = ?n" "unat (of_nat j :: u32) = j" using assms j(3) by (simp_all add: unat_of_nat)
  with j(1,2) show False by metis
qed

lemma get_values_delivered:
  assumes W: "wrote bio0 m0 vs bio1 m1" "io_data bio0 = data0 bio0" "io_offs bio0 = offs0 bio0"
    and w: "io_wf lo hi bio0" and d: "delivered m1 bio1 m2 tr" and short: "list_all short_string vs"
  shows "\<exists>b. get_values m2 (map kind_of vs) (bio_init_from_txn tr) = (read_back vs, b) \<and> data_avail b = 0 \<and>
    (overflowed b \<longleftrightarrow> V_ref 0 \<in> set vs)"
proof -
  let ?b = "bio_init_from_txn tr"
  note c = delivered_cursor [OF W w d]
  have f: "\<not> overflowed ?b"
    by (simp add: overflowed_def bio_init_from_txn_def BIO_F_SHARED_def BIO_F_OVERFLOW_def)
  show ?thesis
  proof (cases "V_ref 0 \<in> set vs")
    case False
    note r = delivered_ready [OF W w d short False]
    have "unat (data_avail (moved (values_size vs) ?b)) = 0" using moved_avail [of "values_size vs" ?b] r(2) by simp
    then show ?thesis
      using get_values_ok [OF r(1)] f False by (simp add: read_back_no_null unat_eq_zero)
  next
    case True
    then obtain pre ws where v: "vs = pre @ V_ref 0 # ws" "V_ref 0 \<notin> set pre" by (metis split_list_first)
    let ?n = "values_size pre"
    have "ready m2 ?b pre"
      using c short v unfolding ready_def by simp
    note g = get_values_ok [OF this]
    let ?b1 = "moved ?n ?b" and ?e = "bio_overflow ((moved ?n ?b)\<lparr>data_avail := 0\<rparr>)"
    have "\<not> offset_listed m2 (io_offs ?b1) (unat (offs_avail ?b1)) (of_nat (io_data ?b1 - data0 ?b1))"
      using c(5,6) null_not_listed [of pre ws] c(3) v(1) by simp
    then have h: "get_value m2 K_ref ?b1 = (V_ref 0, ?e)"
      by (simp add: bio_get_ref_def bio_get_obj_def)
    have e: "data_avail ?e = 0" "overflowed ?e" by simp_all
    obtain b where "get_values m2 (map kind_of (V_ref 0 # ws)) ?b1 = (map blank_value (V_ref 0 # ws), b)"
      "data_avail b = 0" "overflowed b"
      using h e get_values_empty [OF e(1), of ws m2] by (cases "ws = []") auto
    with get_values_append [OF g, of "map kind_of (V_ref 0 # ws)"] v read_back_null [OF v(2), of ws]
    show ?thesis by auto
  qed
qed

lemma item_ok_short: "list_all (item_ok lo hi m) items \<Longrightarrow> list_all short_string (map item_value items)"
  proof (induction items)
  case (Cons it items)
  then show ?case by (cases it) auto
qed simp

text \<open>C21: Writing a parcel always succeeds in keeping to its buffer: whatever is written, no
  byte outside the buffer changes, and the overflow flag is set exactly when the values, rounded
  up to words, or their objects do not fit.\<close>

theorem parcel_written_in_buffer:
  assumes "0 < buf" "unat maxoffs * 4 \<le> unat maxdata" "buf + unat maxdata \<le> addr_bound"
    and "list_all (item_ok buf (buf + unat maxdata) m) items"
  shows "\<exists>bio' m'. put_items items (bio_init io buf maxdata maxoffs, m) = Some (bio', m') \<and>
      (\<forall>i. i < buf \<or> buf + unat maxdata \<le> i \<longrightarrow> m' i = m i) \<and>
      (overflowed bio' \<longleftrightarrow>
        \<not> (values_size (map item_value items) + 4 * unat maxoffs \<le> unat maxdata \<and>
           ref_count (map item_value items) \<le> unat maxoffs))"
proof -
  note i = bio_init_wf [OF assms(1-3), of io]
  obtain bio' m' where p: "put_items items (bio_init io buf maxdata maxoffs, m) = Some (bio', m')"
    and o: "put_outcome buf (buf + unat maxdata) (map item_value items) (bio_init io buf maxdata maxoffs, m) (bio', m')"
    using put_items_outcome [of _ _ "(bio_init io buf maxdata maxoffs, m)" items] i(2) assms(4)
    by (metis fst_conv snd_conv surj_pair)
  have n: "\<not> overflowed (bio_init io buf maxdata maxoffs)" by (simp add: i(1) overflowed_def)
  have "overflowed bio' \<longleftrightarrow> \<not> fits (bio_init io buf maxdata maxoffs) (map item_value items)"
    using o n by (auto simp: put_outcome_def wrote_def overflowed_def split: if_splits)
  then have "overflowed bio' \<longleftrightarrow>
        \<not> (values_size (map item_value items) + 4 * unat maxoffs \<le> unat maxdata \<and>
           ref_count (map item_value items) \<le> unat maxoffs)"
    using i(3) assms(2) by (auto simp: fits_def i(1))
  with p o show ?thesis by (auto simp: put_outcome_def)
qed

text \<open>A parcel in a buffer of 64 bytes at 1000, the string at 100.\<close>

definition sample_memory :: memory where
  "sample_memory = store16 100 97 (store16 102 98 (\<lambda>_. 0))"

definition sample_items :: "parcel_item list" where
  "sample_items = [Put_uint32 7, Put_string16 100 [97, 98], Put_ref 5]"

definition sample_io :: binder_io where
  "sample_io = bio_init \<lparr>io_data = 0, io_offs = 0, data_avail = 0, offs_avail = 0, data0 = 0,
     offs0 = 0, io_flags = 0\<rparr> 1000 64 2"

lemma sample_items_ok: "list_all (item_ok 1000 1064 sample_memory) sample_items"
  by (simp add: sample_items_def string16_at_def sample_memory_def load16_def store16_def
      less_Suc_eq)

lemma sample_sizes:
  "values_size (map item_value sample_items) = 32" "ref_count (map item_value sample_items) = 1"
  by (simp_all add: sample_items_def round4_def)

lemma parcel_written_in_buffer_witness:
  "\<exists>bio' m'. put_items sample_items (sample_io, sample_memory) = Some (bio', m') \<and> \<not> overflowed bio' \<and>
     m' 100 = 97"
proof -
  have ok: "list_all (item_ok 1000 (1000 + unat (64 :: u32)) sample_memory) sample_items"
    using sample_items_ok by simp
  obtain bio' m' where "put_items sample_items (sample_io, sample_memory) = Some (bio', m')"
    "\<forall>i. i < 1000 \<or> 1000 + unat (64 :: u32) \<le> i \<longrightarrow> m' i = sample_memory i" "\<not> overflowed bio'"
    using parcel_written_in_buffer [of 1000 2 64, OF _ _ _ ok] unfolding sample_io_def sample_sizes
    by simp blast
  moreover have "sample_memory 100 = 97" by (simp add: sample_memory_def store16_def)
  ultimately show ?thesis by auto
qed

text \<open>C20: A parcel of numbers, strings and references that was written without overflow is
  read by its receiver as exactly the values that were written, in their order, with nothing
  left over and no overflow, unless a NULL reference is among them: that one is read as 0,
  every value behind it as 0 or the empty string, and the receiver's overflow flag is set.
  The strings are those bio_put_string16 copies: not NULL, shorter than \<open>2 ^ 29\<close> units and
  stored outside the buffer.\<close>

theorem parcel_roundtrip:
  assumes "0 < buf" "unat maxoffs * 4 \<le> unat maxdata" "buf + unat maxdata \<le> addr_bound"
    and "list_all (item_ok buf (buf + unat maxdata) m) items"
    and "put_items items (bio_init io buf maxdata maxoffs, m) = Some (bio1, m1)" "\<not> overflowed bio1"
    and "delivered m1 bio1 m2 tr" and "vs = map item_value items"
  shows "\<exists>bio2. get_values m2 (map kind_of vs) (bio_init_from_txn tr) =
        (if V_ref 0 \<in> set vs then read_back vs else vs, bio2) \<and>
      data_avail bio2 = 0 \<and> (overflowed bio2 \<longleftrightarrow> V_ref 0 \<in> set vs)"
proof -
  note i = bio_init_wf [OF assms(1-3), of io]
  have o: "put_outcome buf (buf + unat maxdata) vs (bio_init io buf maxdata maxoffs, m) (bio1, m1)"
    using put_items_outcome [of _ _ "(bio_init io buf maxdata maxoffs, m)" items] i(2) assms(4,5,8)
    by (metis fst_conv snd_conv option.inject)
  then have W: "wrote (bio_init io buf maxdata maxoffs) m vs bio1 m1"
    using assms(6) by (auto simp: put_outcome_def split: if_splits)
  have "list_all short_string vs" using item_ok_short [OF assms(4)] assms(8) by simp
  from get_values_delivered [OF W _ _ i(2) assms(7) this] show ?thesis
    by (auto simp: i(1) read_back_no_null)
qed

lemma parcel_roundtrip_witness:
  "\<exists>bio1 m1 tr bio2. put_items sample_items (sample_io, sample_memory) = Some (bio1, m1) \<and>
     get_values m1 [K_uint32, K_string16, K_ref] (bio_init_from_txn tr) =
       ([V_uint32 7, V_string16 [97, 98], V_ref 5], bio2)"
proof -
  have ok: "list_all (item_ok 1000 (1000 + unat (64 :: u32)) sample_memory) sample_items"
    using sample_items_ok by simp
  have i: "io_wf 1000 (1000 + unat (64 :: u32)) sample_io" "data0 sample_io = 1008" "offs0 sample_io = 1000"
    "fits sample_io (map item_value sample_items)" "\<not> overflowed sample_io"
    unfolding sample_io_def by (simp_all add: bio_init_wf fits_def sample_sizes overflowed_def io_wf_def)
  obtain bio1 m1 where p: "put_items sample_items (sample_io, sample_memory) = Some (bio1, m1)"
    and o: "put_outcome 1000 (1000 + unat (64 :: u32)) (map item_value sample_items) (sample_io, sample_memory) (bio1, m1)"
    using put_items_outcome [of _ _ "(sample_io, sample_memory)" sample_items] i(1) ok
    by (metis fst_conv snd_conv surj_pair)
  have no: "\<not> overflowed bio1" and d: "data0 bio1 = 1008" "offs0 bio1 = 1000"
    using o i by (auto simp: put_outcome_def wrote_def overflowed_def)
  define tr where "tr = \<lparr>tr_target = 0, tr_cookie = 0, tr_code = 0, tr_flags = 0, tr_sender_pid = 0,
    tr_sender_euid = 0, tr_data_size = of_nat (io_data bio1 - data0 bio1),
    tr_offsets_size = of_nat (io_offs bio1 - offs0 bio1), tr_buffer = 1008, tr_offsets = 1000\<rparr>"
  have "delivered m1 bio1 m1 tr" by (simp add: delivered_def tr_def d)
  from parcel_roundtrip [OF _ _ _ ok p [unfolded sample_io_def] no this refl]
  show ?thesis using p by (auto simp: sample_items_def)
qed

text \<open>Reading never passes the end of the data, whatever they are.  The pointer that
  \<open>bio_get_string16\<close> hands out has room for the characters and their end unless the length in
  the parcel is 0x7ffffffe or more: from there on the size wraps.\<close>

theorem bio_get_string16_bounds:
  assumes "bio_get_string16 m bio = (ptr, len, bio')" "io_data bio \<noteq> 0"
  shows "io_data bio' + unat (data_avail bio') \<le> io_data bio + unat (data_avail bio) \<and>
    (if ptr = 0 then overflowed bio' \<and> data_avail bio' = 0
     else io_data bio \<le> ptr \<and>
       (unat len < 0x7ffffffe \<longrightarrow> ptr + 2 * (unat len + 1) \<le> io_data bio + unat (data_avail bio)))"
proof -
  obtain n b where u: "bio_get_uint32 m bio = (n, b)" by (cases "bio_get_uint32 m bio")
  then have b: "io_data b + unat (data_avail b) \<le> io_data bio + unat (data_avail bio)"
    "io_data bio \<le> io_data b"
    by (auto simp: bio_get_uint32_def bio_get_cases [of 4 4] moved_avail split: if_splits)
  define k where "k = unat (align_ptr ((n + 1) * 2))"
  have g: "bio_get ((n + 1) * 2) b = (ptr, bio')" "len = n"
    using assms(1) u by (auto simp: bio_get_string16_def Let_def split: prod.splits)
  have c: "(ptr, bio') = (if k \<le> unat (data_avail b) then (io_data b, moved k b)
                           else (0, bio_overflow (b\<lparr>data_avail := 0\<rparr>)))"
    using g(1) bio_get_cases [of "(n + 1) * 2" k b] k_def by simp
  have k: "2 * (unat n + 1) \<le> k" if "unat n < 0x7ffffffe"
  proof -
    have "unat (n + 1) = unat n + 1" using that by (simp add: unat_word_ariths)
    then have "unat ((n + 1) * 2) = (unat n + 1) * 2" using that by (simp only: unat_word_ariths) simp
    then have "k = round4 (2 * (unat n + 1))"
      unfolding k_def using that by (simp add: unat_align_cases mult.commute del: distrib_right_numeral)
    then show ?thesis using round4_ge by simp
  qed
  show ?thesis
  proof (cases "k \<le> unat (data_avail b)")
    case True
    then have "ptr = io_data b" "bio' = moved k b" using c by simp_all
    then show ?thesis using b k g(2) True assms(2) by (auto simp: moved_avail)
  next
    case False
    then have "ptr = 0" "bio' = bio_overflow (b\<lparr>data_avail := 0\<rparr>)" using c by simp_all
    then show ?thesis using b by simp
  qed
qed

lemma bio_get_string16_bounds_witness:
  "\<exists>ptr len bio'. bio_get_string16 (store32 1008 0x7fffffff (\<lambda>_. 0)) (sample_io\<lparr>data_avail := 4\<rparr>) = (ptr, len, bio') \<and>
     ptr = 1012 \<and> len = 0x7fffffff \<and> data_avail bio' = 0 \<and> io_data bio' \<le> 1012"
proof -
  let ?b = "sample_io\<lparr>data_avail := 4\<rparr>" and ?m = "store32 1008 0x7fffffff (\<lambda>_. 0)"
  have d: "io_data sample_io = 1008" by (simp add: sample_io_def bio_init_def)
  have a: "align_ptr 4294967296 = 0" "align_ptr 4 = 4" by (simp_all add: align_ptr_def)
  have e: "bio_get_string16 ?m ?b = (1012, 0x7fffffff, ?b\<lparr>io_data := 1012, data_avail := 0\<rparr>)"
    by (simp add: bio_get_string16_def bio_get_uint32_def bio_get_def Let_def d a)
  show ?thesis using bio_get_string16_bounds [OF e] e d by simp
qed

end
