(* ===== verification/RegistrySpec.thy ===== *)
theory RegistrySpec
  imports ServiceManager ParcelSpec
begin

text \<open>
  What the service manager promises, whatever arrives: an invariant of its list and of the
  references it holds, proved for every run of the program through the interface
  \<open>served_invariant\<close> of the loop that calls the handler; and its registry, a map from the
  length of a name to a handle, which its operations implement.
\<close>

section \<open>Invariants of a served loop\<close>

locale served_invariant =
  fixes P :: "'a client_scheme \<Rightarrow> bool"
    and func :: "'a client_scheme binder_handler"
    and die :: "u32 \<Rightarrow> 'a client_scheme \<Rightarrow> 'a client_scheme option"
  assumes memory_irrelevant: "P w \<Longrightarrow> P (w\<lparr>mem := m\<rparr>)"
    and reply_irrelevant: "P w \<Longrightarrow> P (binder_write (BC_FREE_BUFFER # ws) w)"
    and looper_irrelevant: "P w \<Longrightarrow> P (binder_write [BC_ENTER_LOOPER] w)"
    and func_keeps: "P w \<Longrightarrow> func txn msg reply w = Some (res, reply', w') \<Longrightarrow> P w'"
    and die_keeps: "P w \<Longrightarrow> die d w = Some w' \<Longrightarrow> P w'"
begin

lemma send_reply_keeps: "P w \<Longrightarrow> P (binder_send_reply fr reply b status w)"
  by (simp add: binder_send_reply_def Let_def reply_irrelevant memory_irrelevant)

lemma parse_transaction_keeps:
  "P w \<Longrightarrow> parse_transaction fr (Some func) ptr w = Some w' \<Longrightarrow> P w'"
  unfolding parse_transaction_def
  by (auto simp: Let_def bind_eq_Some_conv intro!: send_reply_keeps dest: func_keeps)

lemma parse_command_keeps:
  "P w \<Longrightarrow> parse_command fr (Some func) die cmd ptr e r bio w = Some (res, bio', w') \<Longrightarrow> P w'"
  unfolding parse_command_def
  by (auto split: if_splits intro: parse_transaction_keeps die_keeps)

lemma parse_loop_keeps:
  "P w \<Longrightarrow> parse_loop fr (Some func) die ptr e r bio w = Some (r', bio', w') \<Longrightarrow> P w'"
proof (induction "e - ptr" arbitrary: ptr r bio w rule: less_induct)
  case less
  show ?case
  proof (cases "ptr < e")
    case False
    then show ?thesis using less.prems by (simp add: parse_loop.simps)
  next
    case True
    then obtain res bio1 w1 where c: "parse_command fr (Some func) die (load32 (mem w) ptr) (ptr + 4) e r bio w = Some (res, bio1, w1)"
      using less.prems(2) by (auto simp: parse_loop.simps [of _ _ _ ptr] split: option.splits)
    then have P: "P w1" using less.prems(1) parse_command_keeps by blast
    show ?thesis
    proof (cases res)
      case (Parse_next n r1)
      then have "parse_loop fr (Some func) die (ptr + 4 + 4 * n) e r1 bio1 w1 = Some (r', bio', w')"
        using less.prems(2) True c by (simp add: parse_loop.simps [of _ _ _ ptr])
      then show ?thesis using less.hyps [of "ptr + 4 + 4 * n" w1] P True by auto
    next
      case (Parse_return x)
      then show ?thesis using less.prems(2) True c P by (simp add: parse_loop.simps [of _ _ _ ptr])
    qed
  qed
qed

lemma serve_loop_keeps:
  "P w \<Longrightarrow> serve_loop fr func die irs w = Some (ended, w') \<Longrightarrow> P w'"
proof (induction irs arbitrary: w)
  case (Cons ir irs)
  let ?bio = "(False, \<lparr>io_data = 0, io_offs = 0, data_avail = 0, offs_avail = 0, data0 = 0,
    offs0 = 0, io_flags = 0\<rparr>)"
  have P: "P (w\<lparr>mem := ir_mem ir\<rparr>)" using Cons.prems(1) by (rule memory_irrelevant)
  show ?case
  proof (cases "ir_res ir < 0")
    case True
    then show ?thesis using Cons.prems(2) P by simp
  next
    case False
    then obtain res bio1 w1 where p: "binder_parse fr (Some func) die ?bio (readbuf fr) (ir_read_consumed ir) (w\<lparr>mem := ir_mem ir\<rparr>)
        = Some (res, bio1, w1)"
      using Cons.prems(2) by (auto split: option.splits)
    then have "P w1" using P parse_loop_keeps unfolding binder_parse_def by blast
    then show ?thesis using Cons.prems(2) False p Cons.IH [of w1] by (auto split: if_splits)
  qed
qed simp

lemma binder_loop_keeps:
  "P w \<Longrightarrow> binder_loop fr func die irs w = Some (ended, w') \<Longrightarrow> P w'"
  unfolding binder_loop_def by (rule serve_loop_keeps) (simp_all add: looper_irrelevant memory_irrelevant)

end

section \<open>The invariant of the service manager\<close>

definition entry :: "'a svcmgr_scheme \<Rightarrow> nat \<Rightarrow> svcinfo" where
  "entry w si = the (svc_at w si)"

definition svc_wf :: "'a svcmgr_scheme \<Rightarrow> bool" where
  "svc_wf w \<longleftrightarrow> distinct (svclist w) \<and> (\<forall>si. svc_at w si \<noteq> None \<longleftrightarrow> si \<in> set (svclist w)) \<and>
     (\<forall>si \<in> set (svclist w). 0 < si \<and> si + 8 < addr_bound \<and>
        svc_len (entry w si) \<noteq> 0 \<and> svc_len (entry w si) \<le> 127) \<and>
     distinct (map (\<lambda>si. svc_len (entry w si)) (svclist w))"

text \<open>The commands of a kind sent for a handle, and the services that hold it.\<close>

definition sent :: "u32 \<Rightarrow> u32 \<Rightarrow> 'a client_scheme \<Rightarrow> nat" where
  "sent cmd h w = length (filter ((=) [cmd, h]) (written w))"

definition held :: "u32 \<Rightarrow> 'a svcmgr_scheme \<Rightarrow> nat" where
  "held h w = length (filter (\<lambda>si. svc_ptr (entry w si) = h) (svclist w))"

definition balanced :: "'a svcmgr_scheme \<Rightarrow> bool" where
  "balanced w \<longleftrightarrow> (\<forall>h. h \<noteq> 0 \<longrightarrow> sent BC_ACQUIRE h w = sent BC_RELEASE h w + held h w)"

text \<open>\<open>malloc\<close> fails or hands out memory that no service occupies.\<close>

definition malloc_fresh :: "('a svcmgr_scheme \<Rightarrow> nat) \<Rightarrow> bool" where
  "malloc_fresh malloc \<longleftrightarrow>
     (\<forall>w. malloc w \<noteq> 0 \<longrightarrow> malloc w \<notin> set (svclist w) \<and> malloc w + 8 < addr_bound)"

lemma sent_binder_write [simp]:
  "sent cmd h (binder_write ws w) = sent cmd h w + (if ws = [cmd, h] then 1 else 0)"
  by (auto simp: sent_def binder_write_def)

lemma binder_write_fields [simp]:
  "svclist (binder_write ws w) = svclist w" "svc_at (binder_write ws w) = svc_at w"
  "svcmgr_handle (binder_write ws w) = svcmgr_handle w" "mem (binder_write ws w) = mem w"
  "entry (binder_write ws w) = entry w" "held h (binder_write ws w) = held h w"
  by (simp_all add: binder_write_def entry_def held_def fun_eq_iff)

lemma mem_update_fields [simp]:
  "sent cmd h (w\<lparr>mem := m\<rparr>) = sent cmd h w" "entry (w'\<lparr>mem := m\<rparr>) = entry w'"
  "held h (w'\<lparr>mem := m\<rparr>) = held h w'"
  by (simp_all add: sent_def entry_def held_def fun_eq_iff)

lemma upd_svc_fields [simp]:
  "svclist (upd_svc si f w) = svclist w" "mem (upd_svc si f w) = mem w"
  "svcmgr_handle (upd_svc si f w) = svcmgr_handle w" "written (upd_svc si f w) = written w"
  "sent cmd h (upd_svc si f w) = sent cmd h w"
  by (simp_all add: upd_svc_def sent_def)

lemma svc_wf_mem [simp]: "svc_wf (w\<lparr>mem := m\<rparr>) = svc_wf w"
  and svc_wf_write [simp]: "svc_wf (binder_write ws w) = svc_wf w"
  by (simp_all add: svc_wf_def)

lemma find_in_spec:
  assumes "\<And>si. si \<in> set sis \<Longrightarrow> svcs si \<noteq> None"
  shows "\<exists>r. find_in svcs sis len = Some r \<and>
    (case r of None \<Rightarrow> \<forall>si \<in> set sis. svc_len (the (svcs si)) \<noteq> len
     | Some si \<Rightarrow> si \<in> set sis \<and> svc_len (the (svcs si)) = len)"
  using assms
proof (induction sis)
  case (Cons si sis)
  obtain x where "svcs si = Some x" using Cons.prems by fastforce
  then show ?case using Cons by (auto split: option.splits)
qed simp

lemma find_svc_cases:
  assumes "svc_wf w"
  obtains (no) "find_svc len w = Some None" "\<forall>si \<in> set (svclist w). svc_len (entry w si) \<noteq> len"
    | (yes) si where "find_svc len w = Some (Some si)" "si \<in> set (svclist w)" "svc_len (entry w si) = len"
        "svc_at w si = Some (entry w si)"
proof -
  have ex: "svc_at w si \<noteq> None" if "si \<in> set (svclist w)" for si using that assms by (simp add: svc_wf_def)
  obtain r where r: "find_svc len w = Some r" and
    "case r of None \<Rightarrow> \<forall>si \<in> set (svclist w). svc_len (the (svc_at w si)) \<noteq> len
     | Some si \<Rightarrow> si \<in> set (svclist w) \<and> svc_len (the (svc_at w si)) = len"
    using find_in_spec [of "svclist w" "svc_at w" len, OF ex] by (auto simp: find_svc_def)
  note r = this
  show thesis
  proof (cases r)
    case None
    then show thesis using r no by (simp add: entry_def)
  next
    case (Some si)
    then obtain x where "svc_at w si = Some x" using r(2) ex [of si] by auto
    then show thesis using r Some yes [of si] by (simp add: entry_def)
  qed
qed

text \<open>A service takes another handle.\<close>

definition set_ptr :: "nat \<Rightarrow> u32 \<Rightarrow> 'a svcmgr_scheme \<Rightarrow> 'a svcmgr_scheme" where
  "set_ptr si p = upd_svc si (\<lambda>x. x\<lparr>svc_ptr := p\<rparr>)"

lemma entry_set_ptr:
  "svc_at w si \<noteq> None \<Longrightarrow> entry (set_ptr si p w) = (entry w)(si := (entry w si)\<lparr>svc_ptr := p\<rparr>)"
  by (auto simp: entry_def set_ptr_def upd_svc_def fun_eq_iff)

lemma set_ptr_fields [simp]:
  "svclist (set_ptr si p w) = svclist w" "sent cmd h (set_ptr si p w) = sent cmd h w"
  "svc_at (set_ptr si p w) sj = None \<longleftrightarrow> svc_at w sj = None" "written (set_ptr si p w) = written w"
  "mem (set_ptr si p w) = mem w" "svcmgr_handle (set_ptr si p w) = svcmgr_handle w"
  by (auto simp: set_ptr_def) (auto simp: upd_svc_def split: if_splits)

lemma svc_wf_set_ptr: "svc_wf w \<Longrightarrow> svc_at w si \<noteq> None \<Longrightarrow> svc_wf (set_ptr si p w)"
proof -
  assume w: "svc_wf w" and si: "svc_at w si \<noteq> None"
  have "svc_len (entry (set_ptr si p w) sj) = svc_len (entry w sj)" for sj
    using entry_set_ptr [OF si] by simp
  moreover have "(svc_at (set_ptr si p w) sj \<noteq> None) = (svc_at w sj \<noteq> None)" for sj by simp
  ultimately show ?thesis using w unfolding svc_wf_def set_ptr_fields(1) by simp
qed

lemma held_set_ptr:
  assumes "svc_wf w" "si \<in> set (svclist w)" "svc_ptr (entry w si) = q"
  shows "held h (set_ptr si p w) + (if q = h then 1 else 0) = held h w + (if p = h then 1 else 0)"
proof -
  obtain xs ys where l: "svclist w = xs @ si # ys" using split_list [OF assms(2)] by blast
  have ni: "si \<notin> set xs" "si \<notin> set ys" using assms(1) l by (auto simp: svc_wf_def)
  have e: "entry (set_ptr si p w) = (entry w)(si := (entry w si)\<lparr>svc_ptr := p\<rparr>)"
    using assms by (intro entry_set_ptr) (simp add: svc_wf_def)
  have f: "filter (\<lambda>sj. svc_ptr (entry (set_ptr si p w) sj) = h) zs = filter (\<lambda>sj. svc_ptr (entry w sj) = h) zs"
    if "si \<notin> set zs" for zs
    using that e by (intro filter_cong) auto
  show ?thesis
    unfolding held_def set_ptr_fields(1) l filter_append filter.simps f [OF ni(1)] f [OF ni(2)]
    using assms(3) by (simp add: e)
qed

section \<open>The operations\<close>

definition with_len :: "'a svcmgr_scheme \<Rightarrow> u32 \<Rightarrow> nat option" where
  "with_len w len = find (\<lambda>si. svc_len (entry w si) = len) (svclist w)"

text \<open>The registry: the handle under the length of a name, 0 when the service has died.\<close>

definition services :: "'a svcmgr_scheme \<Rightarrow> u32 \<Rightarrow> u32 option" where
  "services w len = map_option (\<lambda>si. svc_ptr (entry w si)) (with_len w len)"

lemma find_svc_with_len: "svc_wf w \<Longrightarrow> find_svc len w = Some (with_len w len)"
proof -
  assume w: "svc_wf w"
  have "find_in (svc_at w) sis len = Some (find (\<lambda>si. svc_len (entry w si) = len) sis)"
    if "set sis \<subseteq> set (svclist w)" for sis
    using that
  proof (induction sis)
    case (Cons si sis)
    obtain x where "svc_at w si = Some x" using Cons.prems w by (fastforce simp: svc_wf_def)
    then show ?case using Cons by (auto simp: entry_def)
  qed simp
  then show ?thesis by (simp add: find_svc_def with_len_def)
qed

lemma with_len_Some:
  "with_len w len = Some si \<Longrightarrow> si \<in> set (svclist w) \<and> svc_len (entry w si) = len"
  by (auto simp: with_len_def find_Some_iff)

lemma with_len_None: "with_len w len = None \<longleftrightarrow> (\<forall>si \<in> set (svclist w). svc_len (entry w si) \<noteq> len)"
  by (auto simp: with_len_def find_None_iff)

lemma with_len_own:
  assumes "svc_wf w" "si \<in> set (svclist w)"
  shows "with_len w (svc_len (entry w si)) = Some si"
proof -
  obtain sj where "with_len w (svc_len (entry w si)) = Some sj"
    using assms(2) with_len_None by (metis option.exhaust)
  moreover have "inj_on (\<lambda>si. svc_len (entry w si)) (set (svclist w))"
    using assms(1) by (simp add: svc_wf_def distinct_map)
  ultimately show ?thesis using with_len_Some assms(2) by (metis inj_onD)
qed

lemma svc_at_entry: "svc_wf w \<Longrightarrow> si \<in> set (svclist w) \<Longrightarrow> svc_at w si = Some (entry w si)"
  by (auto simp: svc_wf_def entry_def)

lemma with_len_set_ptr: "svc_at w si \<noteq> None \<Longrightarrow> with_len (set_ptr si p w) = with_len w"
  by (auto simp: with_len_def entry_set_ptr fun_eq_iff intro!: arg_cong2 [where f = find])

lemma services_set_ptr:
  assumes "svc_wf w" "si \<in> set (svclist w)"
  shows "services (set_ptr si p w) = (services w)(svc_len (entry w si) \<mapsto> p)"
proof -
  have n: "svc_at w si \<noteq> None" using svc_at_entry [OF assms] by simp
  show ?thesis
  proof
    fix len
    show "services (set_ptr si p w) len = ((services w)(svc_len (entry w si) \<mapsto> p)) len"
    proof (cases "len = svc_len (entry w si)")
      case True
      then show ?thesis using with_len_own [OF assms] n by (simp add: services_def with_len_set_ptr entry_set_ptr)
    next
      case False
      then have "with_len w len \<noteq> Some si" using with_len_Some by blast
      then show ?thesis using False n
        by (cases "with_len w len") (auto simp: services_def with_len_set_ptr entry_set_ptr)
    qed
  qed
qed

lemma with_len_write [simp]: "with_len (binder_write ws w) = with_len w"
  and services_write [simp]: "services (binder_write ws w) = services w"
  and with_len_mem [simp]: "with_len (w\<lparr>mem := m\<rparr>) = with_len w"
  and services_mem [simp]: "services (w\<lparr>mem := m\<rparr>) = services w"
  by (simp_all add: with_len_def services_def fun_eq_iff)

lemma svcinfo_death_eq:
  assumes "svc_wf w" "si \<in> set (svclist w)"
  shows "svcinfo_death si w = Some (if svc_ptr (entry w si) \<noteq> 0
    then set_ptr si 0 (binder_release (svc_ptr (entry w si)) w) else w)"
  using svc_at_entry [OF assms] by (simp add: svcinfo_death_def set_ptr_def)

text \<open>A new service.\<close>

lemma new_svcinfo_fields:
  "svclist (new_svcinfo si s len ptr w) = si # svclist w"
  "entry (new_svcinfo si s len ptr w) = (entry w)(si := \<lparr>svc_ptr = ptr, svc_len = len\<rparr>)"
  "svc_at (new_svcinfo si s len ptr w) = (svc_at w)(si \<mapsto> \<lparr>svc_ptr = ptr, svc_len = len\<rparr>)"
  "written (new_svcinfo si s len ptr w) = written w" "sent cmd h (new_svcinfo si s len ptr w) = sent cmd h w"
  by (simp_all add: new_svcinfo_def entry_def fun_eq_iff sent_def)

lemma svc_wf_new:
  assumes "svc_wf w" "with_len w len = None" "si \<notin> set (svclist w)" "0 < si" "si + 8 < addr_bound"
    "len \<noteq> 0" "len \<le> 127"
  shows "svc_wf (new_svcinfo si s len ptr w)"
proof -
  have m: "map (\<lambda>sj. svc_len (entry (new_svcinfo si s len ptr w) sj)) (si # svclist w)
      = len # map (\<lambda>sj. svc_len (entry w sj)) (svclist w)"
    using assms(3) by (auto simp: new_svcinfo_fields)
  have "len \<notin> set (map (\<lambda>sj. svc_len (entry w sj)) (svclist w))"
    using assms(2) by (auto simp: with_len_None)
  with m assms(1) have "distinct (map (\<lambda>sj. svc_len (entry (new_svcinfo si s len ptr w) sj)) (si # svclist w))"
    unfolding m by (simp add: svc_wf_def)
  then show ?thesis
    using assms(1,3-) unfolding svc_wf_def new_svcinfo_fields(1,3)
    by (simp add: new_svcinfo_fields(2))
qed

lemma held_new:
  "si \<notin> set (svclist w) \<Longrightarrow> held h (new_svcinfo si s len ptr w) = held h w + (if ptr = h then 1 else 0)"
  by (auto simp: held_def new_svcinfo_fields intro!: arg_cong [where f = length] filter_cong)

lemma services_new:
  assumes "si \<notin> set (svclist w)"
  shows "services (new_svcinfo si s len ptr w) = (services w)(len \<mapsto> ptr)"
proof
  fix l
  have "find (\<lambda>sj. svc_len (entry (new_svcinfo si s len ptr w) sj) = l) (svclist w) = with_len w l"
    unfolding with_len_def using assms by (intro find_cong) (auto simp: new_svcinfo_fields)
  moreover have "with_len w l \<noteq> Some si" using with_len_Some assms by blast
  ultimately show "services (new_svcinfo si s len ptr w) l = ((services w)(len \<mapsto> ptr)) l"
    by (cases "with_len w l") (auto simp: services_def with_len_def new_svcinfo_fields)
qed

section \<open>The invariant is kept\<close>

definition svc_inv :: "'a svcmgr_scheme \<Rightarrow> bool" where
  "svc_inv w \<longleftrightarrow> svc_wf w \<and> balanced w"

lemma command_codes [simp]:
  "BC_ACQUIRE \<noteq> BC_RELEASE" "BC_RELEASE \<noteq> BC_ACQUIRE"
  "BC_FREE_BUFFER \<noteq> BC_ACQUIRE" "BC_FREE_BUFFER \<noteq> BC_RELEASE"
  by (simp_all add: BC_ACQUIRE_def BC_RELEASE_def BC_FREE_BUFFER_def IOC_def)

lemma svc_inv_mem: "svc_inv w \<Longrightarrow> svc_inv (w\<lparr>mem := m\<rparr>)"
  by (simp add: svc_inv_def balanced_def)

lemma svc_inv_write:
  "svc_inv w \<Longrightarrow> (\<And>h. ws \<noteq> [BC_ACQUIRE, h] \<and> ws \<noteq> [BC_RELEASE, h]) \<Longrightarrow> svc_inv (binder_write ws w)"
  by (simp add: svc_inv_def balanced_def)

lemma svc_inv_death:
  assumes "svc_inv w" "si \<in> set (svclist w)"
  shows "\<exists>w'. svcinfo_death si w = Some w' \<and> svc_inv w' \<and> svclist w' = svclist w \<and>
    services w' = (services w)(svc_len (entry w si) \<mapsto> 0) \<and> svc_ptr (entry w' si) = 0 \<and>
    svc_len (entry w' si) = svc_len (entry w si) \<and> with_len w' = with_len w"
proof -
  note w = assms(1) [unfolded svc_inv_def, THEN conjunct1] assms(1) [unfolded svc_inv_def, THEN conjunct2]
  have at: "svc_at w si \<noteq> None" using svc_at_entry [OF w(1) assms(2)] by simp
  show ?thesis
  proof (cases "svc_ptr (entry w si) = 0")
    case True
    then have "services w (svc_len (entry w si)) = Some 0"
      using with_len_own [OF w(1) assms(2)] by (simp add: services_def)
    then show ?thesis using svcinfo_death_eq [OF w(1) assms(2)] assms True by auto
  next
    case False
    let ?q = "svc_ptr (entry w si)" and ?w = "binder_release (svc_ptr (entry w si)) w"
    have r: "svc_wf ?w" "si \<in> set (svclist ?w)" "entry ?w = entry w" "svc_at ?w si \<noteq> None"
      using w assms at by (simp_all add: binder_release_def)
    have "held h (set_ptr si 0 ?w) + (if ?q = h then 1 else 0) = held h w" if "h \<noteq> 0" for h
      using held_set_ptr [OF r(1,2), of ?q h 0] r(3) that by (simp add: binder_release_def)
    then have "balanced (set_ptr si 0 ?w)"
      using w(2) unfolding balanced_def by (fastforce simp: binder_release_def split: if_splits)
    then show ?thesis
      using svcinfo_death_eq [OF w(1) assms(2)] False svc_wf_set_ptr [OF r(1,4)] services_set_ptr [OF r(1,2)] r(3)
        entry_set_ptr [OF r(4)] with_len_set_ptr [OF r(4)]
      by (simp add: svc_inv_def binder_release_def)
  qed
qed

text \<open>What follows the choice of the service in do_add_service.\<close>

definition announce :: "nat \<Rightarrow> u32 \<Rightarrow> 'a svcmgr_scheme \<Rightarrow> 'a svcmgr_scheme" where
  "announce si ptr w = binder_link_to_death ptr (death_of si) (binder_acquire ptr w)"

lemma svc_inv_announce:
  assumes "svc_wf w" "\<And>h. h \<noteq> 0 \<Longrightarrow>
    sent BC_ACQUIRE h w + (if ptr = h then 1 else 0) = sent BC_RELEASE h w + held h w"
  shows "svc_inv (announce si ptr w)"
  using assms by (auto simp: svc_inv_def balanced_def announce_def binder_link_to_death_def binder_acquire_def)

lemma services_announce [simp]: "services (announce si ptr w) = services w"
  by (simp add: announce_def binder_link_to_death_def binder_acquire_def)

lemma do_add_service_cases:
  assumes w: "svc_inv w" and m: "malloc_fresh malloc"
  obtains (refused) "ptr = 0 \<or> len = 0 \<or> len > 127 \<or> with_len w len = None \<and> malloc w = 0"
      "do_add_service malloc s len ptr w = Some (- 1, w)"
    | (override) si w1 where "ptr \<noteq> 0" "len \<noteq> 0" "len \<le> 127" "with_len w len = Some si"
      "svcinfo_death si w = Some w1 \<or> svc_ptr (entry w si) = 0 \<and> w1 = w"
      "svc_inv w1" "svclist w1 = svclist w" "svc_ptr (entry w1 si) = 0" "with_len w1 = with_len w"
      "services w1 = (services w)(len \<mapsto> 0)"
      "do_add_service malloc s len ptr w = Some (0, announce si ptr (set_ptr si ptr w1))"
    | (fresh) si where "ptr \<noteq> 0" "len \<noteq> 0" "len \<le> 127" "with_len w len = None" "malloc w = si" "si \<noteq> 0"
      "do_add_service malloc s len ptr w = Some (0, announce si ptr (new_svcinfo si s len ptr w))"
proof (cases "ptr = 0 \<or> len = 0 \<or> len > 127")
  case True
  then show thesis using refused by (auto simp: do_add_service_def)
next
  case ok: False
  have wf: "svc_wf w" using w by (simp add: svc_inv_def)
  note f = find_svc_with_len [OF wf]
  show thesis
  proof (cases "with_len w len")
    case None
    show thesis
    proof (cases "malloc w = 0")
      case True
      then show thesis using ok None f by (intro refused) (auto simp: do_add_service_def)
    next
      case False
      then show thesis using ok None f by (intro fresh) (auto simp: do_add_service_def announce_def)
    qed
  next
    case (Some si)
    then have si: "si \<in> set (svclist w)" "svc_len (entry w si) = len" using with_len_Some by blast+
    note at = svc_at_entry [OF wf si(1)]
    from svc_inv_death [OF w si(1)] obtain w1 where
      d: "svcinfo_death si w = Some w1" "svc_inv w1" "svclist w1 = svclist w" "svc_ptr (entry w1 si) = 0"
        "with_len w1 = with_len w" "services w1 = (services w)(len \<mapsto> 0)" using si(2) by auto
    show thesis
    proof (cases "svc_ptr (entry w si) = 0")
      case True
      have "services w len = Some 0" using True Some by (simp add: services_def)
      then have "services w = (services w)(len \<mapsto> 0)" by auto
      moreover have "do_add_service malloc s len ptr w = Some (0, announce si ptr (set_ptr si ptr w))"
        using ok Some f at True by (simp add: do_add_service_def announce_def set_ptr_def not_le [symmetric])
      ultimately show thesis using override [of si w] ok Some True w by (auto simp: not_le)
    next
      case False
      then have "do_add_service malloc s len ptr w = Some (0, announce si ptr (set_ptr si ptr w1))"
        using ok Some f at d(1) by (simp add: do_add_service_def announce_def set_ptr_def)
      then show thesis using override [of si w1] ok Some d by (auto simp: not_le)
    qed
  qed
qed

lemma do_add_service_effect:
  assumes w: "svc_inv w" and m: "malloc_fresh malloc"
  shows "\<exists>res w'. do_add_service malloc s len ptr w = Some (res, w') \<and> svc_inv w' \<and>
    (if ptr \<noteq> 0 \<and> len \<noteq> 0 \<and> len \<le> 127 \<and> (services w len \<noteq> None \<or> malloc w \<noteq> 0)
     then res = 0 \<and> services w' = (services w)(len \<mapsto> ptr) else res = - 1 \<and> w' = w)"
  using w m
proof (cases rule: do_add_service_cases [where ptr = ptr and len = len and s = s])
  case refused
  then show ?thesis using w by (auto simp: services_def)
next
  case (override si w1)
  have wf1: "svc_wf w1" and si: "si \<in> set (svclist w1)" "svc_len (entry w1 si) = len"
    using override with_len_Some [of w1 len si] by (simp_all add: svc_inv_def)
  have at: "svc_at w1 si \<noteq> None" using svc_at_entry [OF wf1 si(1)] by simp
  have "held h (set_ptr si ptr w1) = held h w1 + (if ptr = h then 1 else 0)" if "h \<noteq> 0" for h
    using held_set_ptr [OF wf1 si(1) override(8), of h ptr] that by simp
  then have "svc_inv (announce si ptr (set_ptr si ptr w1))"
    using override(6) svc_wf_set_ptr [OF wf1 at] by (intro svc_inv_announce) (auto simp: svc_inv_def balanced_def)
  moreover have "services (set_ptr si ptr w1) = (services w)(len \<mapsto> ptr)"
    using services_set_ptr [OF wf1 si(1)] si(2) override(10) by simp
  moreover have "services w len \<noteq> None" using override(4) by (simp add: services_def)
  ultimately show ?thesis using override by simp
next
  case (fresh si)
  have n: "si \<notin> set (svclist w)" "si + 8 < addr_bound" using m fresh by (auto simp: malloc_fresh_def)
  have "svc_wf (new_svcinfo si s len ptr w)"
    using w fresh n by (intro svc_wf_new) (auto simp: svc_inv_def)
  then have "svc_inv (announce si ptr (new_svcinfo si s len ptr w))"
    using w held_new [OF n(1)] by (intro svc_inv_announce) (auto simp: svc_inv_def balanced_def new_svcinfo_fields)
  moreover have "services w len = None" using fresh by (simp add: services_def)
  ultimately show ?thesis using fresh services_new [OF n(1)] by simp
qed

lemma death_func_keeps: "svc_inv w \<Longrightarrow> death_func d w = Some w' \<Longrightarrow> svc_inv w'"
proof -
  assume w: "svc_inv w" and d: "death_func d w = Some w'"
  then have "svc_at w (unat d - 8) \<noteq> None" by (auto simp: death_func_def svcinfo_death_def bind_eq_Some_conv)
  then have "unat d - 8 \<in> set (svclist w)" using w by (simp add: svc_inv_def svc_wf_def)
  from svc_inv_death [OF w this] d show ?thesis by (simp add: death_func_def)
qed

lemma put_reply_keeps: "svc_inv w \<Longrightarrow> put_reply n reply w = (res, reply', w') \<Longrightarrow> svc_inv w'"
  by (auto simp: put_reply_def svc_inv_mem split: prod.splits)

lemma svcmgr_get_keeps: "svc_inv w \<Longrightarrow> svcmgr_get msg reply w = Some (res, reply', w') \<Longrightarrow> svc_inv w'"
  by (auto simp: svcmgr_get_def bind_eq_Some_conv Let_def svc_inv_mem split: prod.splits if_splits
      dest: put_reply_keeps)

lemma svcmgr_list_keeps: "svc_inv w \<Longrightarrow> svcmgr_list msg reply w = Some (res, reply', w') \<Longrightarrow> svc_inv w'"
  by (auto simp: svcmgr_list_def bind_eq_Some_conv svc_inv_mem split: prod.splits list.splits)

lemma svcmgr_add_keeps:
  assumes "svc_inv w" "malloc_fresh malloc" "svcmgr_add malloc msg reply w = Some (res, reply', w')"
  shows "svc_inv w'"
proof -
  obtain s len msg1 where 1: "bio_get_string16 (mem w) msg = (s, len, msg1)" by (metis prod_cases3)
  obtain ptr msg2 where 2: "bio_get_ref (mem w) msg1 = (ptr, msg2)" by (metis surj_pair)
  from do_add_service_effect [OF assms(1,2), of s len ptr] obtain r1 w1 where
    3: "do_add_service malloc s len ptr w = Some (r1, w1)" "svc_inv w1" by blast
  show ?thesis using assms(3) 1 2 3 by (auto simp: svcmgr_add_def split: if_splits dest: put_reply_keeps)
qed

lemma svcmgr_handler_keeps:
  assumes "svc_inv w" "malloc_fresh malloc" "svcmgr_handler malloc txn msg reply w = Some (res, reply', w')"
  shows "svc_inv w'"
proof -
  obtain p msg1 where 1: "bio_get_uint32 (mem w) msg = (p, msg1)" by (metis surj_pair)
  obtain s len msg2 where 2: "bio_get_string16 (mem w) msg1 = (s, len, msg2)" by (metis prod_cases3)
  show ?thesis
    using assms unfolding svcmgr_handler_def 1 2 Let_def split_conv
    by (auto split: if_splits intro: svcmgr_get_keeps svcmgr_list_keeps svcmgr_add_keeps)
qed

text \<open>A handler that keeps the invariant, from one whose \<open>malloc\<close> is fresh.\<close>

interpretation served: served_invariant "\<lambda>w. svc_inv w \<and> malloc_fresh malloc" "svcmgr_handler malloc" death_func
  for malloc :: "'b svcmgr_scheme \<Rightarrow> nat"
proof
  show "svc_inv (w\<lparr>mem := m\<rparr>) \<and> malloc_fresh malloc" if "svc_inv w \<and> malloc_fresh malloc"
    for w :: "'b svcmgr_scheme" and m using that svc_inv_mem by blast
  show "svc_inv (binder_write (BC_FREE_BUFFER # ws) w) \<and> malloc_fresh malloc"
    if "svc_inv w \<and> malloc_fresh malloc" for w :: "'b svcmgr_scheme" and ws
    using that by (intro conjI svc_inv_write) auto
  show "svc_inv (binder_write [BC_ENTER_LOOPER] w) \<and> malloc_fresh malloc"
    if "svc_inv w \<and> malloc_fresh malloc" for w :: "'b svcmgr_scheme"
    using that by (intro conjI svc_inv_write) auto
qed (use svcmgr_handler_keeps death_func_keeps in blast)+

text \<open>The state at the start, and a \<open>malloc\<close> with one block.\<close>

definition started :: "memory \<Rightarrow> svcmgr" where
  "started m = \<lparr>mem = m, written = [], svclist = [], svc_at = (\<lambda>_. None), svcmgr_handle = 0\<rparr>"

lemma started_inv: "svc_inv (started m)"
  by (simp add: started_def svc_inv_def svc_wf_def balanced_def sent_def held_def)

definition one_block :: "svcmgr \<Rightarrow> nat" where
  "one_block w = (if 5000 \<in> set (svclist w) then 0 else 5000)"

lemma one_block_fresh: "malloc_fresh one_block"
  by (simp add: malloc_fresh_def one_block_def)

text \<open>C18: However long the service manager runs and whatever the driver and its clients send,
  its list stays well-formed (one service per length of name, no address twice), and for every
  handle the acquires it has sent are the releases it has sent and the services that hold it.\<close>

theorem service_manager_invariant:
  assumes "malloc_fresh malloc"
    and "service_manager fr malloc bs become irs m = Some (r, w)"
  shows "svc_wf w \<and> (\<forall>h. h \<noteq> 0 \<longrightarrow> sent BC_ACQUIRE h w = sent BC_RELEASE h w + held h w)"
proof -
  have "svc_inv w"
  proof (cases "become = 0")
    case True
    obtain e where "binder_loop fr (svcmgr_handler malloc) death_func irs
       \<lparr>mem = m, written = [], svclist = [], svc_at = (\<lambda>_. None), svcmgr_handle = 0\<rparr> = Some (e, w)"
      using assms(2) True by (auto simp: service_manager_def bind_eq_Some_conv)
    from served.binder_loop_keeps [OF _ this] show ?thesis using started_inv assms(1) unfolding started_def by blast
  next
    case False
    then show ?thesis using assms(2) started_inv by (auto simp: service_manager_def bind_eq_Some_conv started_def)
  qed
  then show ?thesis by (simp add: svc_inv_def balanced_def)
qed

definition sample_frame :: frame where
  "sample_frame = \<lparr>rdata = 3000, status_at = 3300, readbuf = 4000, junk = 77\<rparr>"

lemma service_manager_invariant_witness:
  "\<exists>r w. service_manager sample_frame one_block (Some (1, \<lparr>fd = 3, mapped = 8192, mapsize = 131072\<rparr>)) 0
     [\<lparr>ir_res = 0, ir_write_consumed = 0, ir_read_consumed = 8,
       ir_mem = store32 4000 BR_NOOP (store32 4004 BR_TRANSACTION_COMPLETE (\<lambda>_. 0))\<rparr>] (\<lambda>_. 0) = Some (r, w) \<and>
     written w = [[BC_ENTER_LOOPER]] \<and> svc_wf w"
proof -
  let ?m = "store32 4000 BR_NOOP (store32 4004 BR_TRANSACTION_COMPLETE (\<lambda>_. 0))"
  have c: "load32 ?m 4000 = BR_NOOP" "load32 ?m 4004 = BR_TRANSACTION_COMPLETE"
    by (simp_all add: load32_store32_other)
  have p: "parse_loop fr func die 4000 4008 1 bio (w\<lparr>mem := ?m\<rparr>) = Some (1, bio, w\<lparr>mem := ?m\<rparr>)"
    for fr func die bio and w :: svcmgr
    using c by (simp add: parse_loop.simps parse_command_def)
  have e: "\<exists>r w. service_manager sample_frame one_block (Some (1, \<lparr>fd = 3, mapped = 8192, mapsize = 131072\<rparr>)) 0
     [\<lparr>ir_res = 0, ir_write_consumed = 0, ir_read_consumed = 8, ir_mem = ?m\<rparr>] (\<lambda>_. 0) = Some (r, w) \<and>
     written w = [[BC_ENTER_LOOPER]]"
    by (simp add: service_manager_def binder_loop_def binder_parse_def sample_frame_def p binder_write_def)
  then show ?thesis using service_manager_invariant [OF one_block_fresh] by blast
qed

text \<open>C19: Adding a service refuses a null handle, an empty or long name and a new name without
  memory, changing nothing; otherwise the registry maps the length of the name to the handle.\<close>

theorem add_service_updates_registry:
  assumes "svc_wf w" "balanced w" "malloc_fresh malloc"
  shows "\<exists>res w'. do_add_service malloc s len ptr w = Some (res, w') \<and> svc_wf w' \<and> balanced w' \<and>
    (if ptr \<noteq> 0 \<and> len \<noteq> 0 \<and> len \<le> 127 \<and> (services w len \<noteq> None \<or> malloc w \<noteq> 0)
     then res = 0 \<and> services w' = (services w)(len \<mapsto> ptr) else res = - 1 \<and> w' = w)"
  using do_add_service_effect [of w malloc s len ptr] assms by (auto simp: svc_inv_def)

lemma add_service_updates_registry_witness:
  "\<exists>w'. do_add_service one_block 0 3 7 (started (\<lambda>_. 0)) = Some (0, w') \<and> services w' 3 = Some 7"
proof -
  have i: "svc_wf (started (\<lambda>_. 0))" "balanced (started (\<lambda>_. 0))" using started_inv by (auto simp: svc_inv_def)
  have "one_block (started (\<lambda>_. 0)) \<noteq> 0" by (simp add: started_def one_block_def)
  with add_service_updates_registry [OF i one_block_fresh, of 0 3 7] show ?thesis by auto
qed

end
