(* ===== verification/ServiceCalls.thy ===== *)
theory ServiceCalls
  imports RegistrySpec
begin

text \<open>
  Requests to the service manager, from the parcel a client writes to the parcel it reads:
  the parcels of ParcelSpec and the registry of RegistrySpec put together; and what the
  handler does with requests and deaths it does not expect.
\<close>

section \<open>Parcels that were sent\<close>

text \<open>Someone wrote the values in a buffer without overflow, and the driver delivered them.\<close>

definition sent_parcel :: "memory \<Rightarrow> transaction_data \<Rightarrow> parcel_value list \<Rightarrow> bool" where
  "sent_parcel m tr vs \<longleftrightarrow>
     (\<exists>buf maxdata maxoffs items io m0 bio1 m1. 0 < buf \<and> unat maxoffs * 4 \<le> unat maxdata \<and>
        buf + unat maxdata \<le> addr_bound \<and> list_all (item_ok buf (buf + unat maxdata) m0) items \<and>
        put_items items (bio_init io buf maxdata maxoffs, m0) = Some (bio1, m1) \<and> \<not> overflowed bio1 \<and>
        vs = map item_value items \<and> delivered m1 bio1 m tr)"

lemma sent_parcel_ready: "sent_parcel m tr vs \<Longrightarrow> V_ref 0 \<notin> set vs \<Longrightarrow> ready m (bio_init_from_txn tr) vs"
proof -
  assume n: "V_ref 0 \<notin> set vs" and "sent_parcel m tr vs"
  then obtain buf maxdata maxoffs items io m0 bio1 m1 where
    *: "0 < buf" "unat maxoffs * 4 \<le> unat maxdata" "buf + unat maxdata \<le> addr_bound"
      "list_all (item_ok buf (buf + unat maxdata) m0) items"
      "put_items items (bio_init io buf maxdata maxoffs, m0) = Some (bio1, m1)" "\<not> overflowed bio1"
      "vs = map item_value items" "delivered m1 bio1 m tr"
    unfolding sent_parcel_def by blast
  note i = bio_init_wf [OF *(1-3), of io]
  have "put_outcome buf (buf + unat maxdata) vs (bio_init io buf maxdata maxoffs, m0) (bio1, m1)"
    using put_items_outcome [of _ _ "(bio_init io buf maxdata maxoffs, m0)" items] i(2) *(4,5,7)
    by (metis fst_conv snd_conv option.inject)
  then have W: "wrote (bio_init io buf maxdata maxoffs) m0 vs bio1 m1"
    using *(6) by (auto simp: put_outcome_def split: if_splits)
  show ?thesis using delivered_ready [OF W _ _ i(2) *(8) _ n] item_ok_short [OF *(4)] *(7) by (simp add: i(1))
qed

lemma ready_uint32:
  "ready m bio (V_uint32 n # vs) \<Longrightarrow> bio_get_uint32 m bio = (n, moved 4 bio) \<and> ready m (moved 4 bio) vs"
  using ready_Cons [of m bio "V_uint32 n" vs] by (auto split: prod.splits)

lemma ready_ref:
  "ready m bio (V_ref h # vs) \<Longrightarrow> bio_get_ref m bio = (h, moved 16 bio) \<and> ready m (moved 16 bio) vs"
  using ready_Cons [of m bio "V_ref h" vs] by (auto split: prod.splits)

lemma ready_string16:
  assumes "ready m bio (V_string16 cs # vs)"
  shows "bio_get_string16 m bio = (io_data bio + 4, of_nat (length cs), moved (value_size (V_string16 cs)) bio)"
    and "read_string16 m (io_data bio + 4) (length cs) = cs"
    and "ready m (moved (value_size (V_string16 cs)) bio) vs"
proof -
  have *: "value_at m (io_data bio) (V_string16 cs)" "value_size (V_string16 cs) \<le> unat (data_avail bio)"
    "io_data bio \<noteq> 0" "length cs < 536870912"
    using assms by (simp_all add: ready_def)
  show "bio_get_string16 m bio = (io_data bio + 4, of_nat (length cs), moved (value_size (V_string16 cs)) bio)"
    "read_string16 m (io_data bio + 4) (length cs) = cs"
    by (rule get_string16_ok [OF *])+
  show "ready m (moved (value_size (V_string16 cs)) bio) vs" using ready_Cons(2) [OF assms] .
qed

section \<open>The header of a request\<close>

definition id_chars :: "u16 list" where
  "id_chars = map of_char svcmgr_id"

lemma length_id_chars [simp]: "length id_chars = 26"
  by (simp add: id_chars_def svcmgr_id_def)

lemma is_svcmgr_id_read: "read_string16 m s 26 = id_chars \<Longrightarrow> is_svcmgr_id m s"
proof -
  assume r: "read_string16 m s 26 = id_chars"
  have "load16 m (s + 2 * i) = of_char (svcmgr_id ! i)" if "i < 26" for i
  proof -
    have "read_string16 m s 26 ! i = load16 m (s + 2 * i)" using that by (simp add: read_string16_def)
    moreover have "length svcmgr_id = 26" by (simp add: svcmgr_id_def)
    ultimately show ?thesis using r that by (simp add: id_chars_def)
  qed
  then show ?thesis by (simp add: is_svcmgr_id_def list_all_iff)
qed

lemma handler_header:
  assumes r: "ready (mem w) msg (V_uint32 policy # V_string16 id_chars # vs)"
    and t: "tr_target tr = svcmgr_handle w"
  shows "\<exists>msg'. ready (mem w) msg' vs \<and>
    svcmgr_handler malloc tr msg reply w =
      (if tr_code tr = 1 \<or> tr_code tr = 2 then svcmgr_get msg' reply w
       else if tr_code tr = 3 then svcmgr_add malloc msg' reply w
       else if tr_code tr = 4 then svcmgr_list msg' reply w
       else Some (- 1, reply, w))"
proof -
  have 1: "bio_get_uint32 (mem w) msg = (policy, moved 4 msg)"
    "ready (mem w) (moved 4 msg) (V_string16 id_chars # vs)"
    using ready_uint32 [OF r] by simp_all
  note 2 = ready_string16 [OF 1(2)]
  have "is_svcmgr_id (mem w) (io_data (moved 4 msg) + 4)" using 2(2) is_svcmgr_id_read by simp
  then show ?thesis using 2(1,3) t by (auto simp: svcmgr_handler_def 1(1) simp del: value_size.simps)
qed

section \<open>Replies\<close>

definition reply_io :: "binder_io \<Rightarrow> nat \<Rightarrow> binder_io" where
  "reply_io io buf = bio_init io buf 256 4"

lemma reply_io_wf:
  assumes "0 < buf" "buf + 256 \<le> addr_bound"
  shows "io_wf buf (buf + 256) (reply_io io buf)" "fits (reply_io io buf) [v] \<longleftrightarrow> value_size v \<le> 240"
    "io_data (reply_io io buf) = data0 (reply_io io buf)" "io_offs (reply_io io buf) = offs0 (reply_io io buf)"
proof -
  note i = bio_init_wf [of buf 4 256 io]
  show "io_wf buf (buf + 256) (reply_io io buf)" "io_data (reply_io io buf) = data0 (reply_io io buf)"
    "io_offs (reply_io io buf) = offs0 (reply_io io buf)"
    using i assms by (simp_all add: reply_io_def)
  have "ref_count [v] \<le> 4" by (cases v) simp_all
  then show "fits (reply_io io buf) [v] \<longleftrightarrow> value_size v \<le> 240"
    using i assms by (simp add: reply_io_def fits_def)
qed

text \<open>A value put in a fresh reply is what its receiver reads.\<close>

lemma reply_read:
  assumes b: "0 < buf" "buf + 256 \<le> addr_bound"
    and p: "put_outcome buf (buf + 256) [v] (reply_io io buf, m) (reply', m')"
    and v: "value_size v \<le> 240" "short_string v" "v \<noteq> V_ref 0" and d: "delivered m' reply' m2 tr"
  shows "get_values m2 [kind_of v] (bio_init_from_txn tr) = ([v], moved (value_size v) (bio_init_from_txn tr))"
proof -
  note r = reply_io_wf [OF b]
  have "wrote (reply_io io buf) m [v] reply' m'"
    using p r(2) v(1) by (auto simp: put_outcome_def split: if_splits)
  from delivered_ready(1) [OF this r(3,4,1) d] v(2,3)
  have "ready m2 (bio_init_from_txn tr) [v]" by simp
  from get_values_ok [OF this] show ?thesis by simp
qed

section \<open>Publishing and finding a service\<close>

lemma do_find_service_eq:
  "svc_wf w \<Longrightarrow> do_find_service len w = Some (case services w len of None \<Rightarrow> 0 | Some p \<Rightarrow> p)"
proof -
  assume w: "svc_wf w"
  show ?thesis
  proof (cases "with_len w len")
    case None
    then show ?thesis using find_svc_with_len [OF w] by (simp add: do_find_service_def services_def)
  next
    case (Some si)
    then have "svc_at w si = Some (entry w si)" using svc_at_entry [OF w] with_len_Some by blast
    then show ?thesis using find_svc_with_len [OF w] Some by (simp add: do_find_service_def services_def)
  qed
qed

lemma do_add_service_handle:
  "do_add_service malloc s len ptr w = Some (res, w') \<Longrightarrow> svcmgr_handle w' = svcmgr_handle w"
  by (auto simp: do_add_service_def svcinfo_death_def bind_eq_Some_conv new_svcinfo_def
      binder_link_to_death_def binder_acquire_def binder_release_def split: if_splits option.splits)

lemma len_of_name:
  assumes "length name \<le> 127"
  shows "unat (of_nat (length name) :: u32) = length name" "(of_nat (length name) :: u32) \<le> 127"
proof -
  show u: "unat (of_nat (length name) :: u32) = length name" using assms by (simp add: unat_of_nat)
  show "(of_nat (length name) :: u32) \<le> 127" using assms u by (simp add: word_le_nat_alt)
qed

lemma add_request:
  assumes w: "svc_inv w" and m: "malloc_fresh malloc"
    and r: "ready (mem w) (bio_init_from_txn tr)
              [V_uint32 policy, V_string16 id_chars, V_string16 name, V_ref h]"
    and t: "tr_code tr = 3" "tr_target tr = svcmgr_handle w"
    and n: "name \<noteq> []" "length name \<le> 127" "h \<noteq> 0"
    and ok: "services w (of_nat (length name)) \<noteq> None \<or> malloc w \<noteq> 0"
  shows "\<exists>reply' w'. svcmgr_handler malloc tr (bio_init_from_txn tr) reply w = Some (0, reply', w') \<and>
    svc_inv w' \<and> services w' = (services w)(of_nat (length name) \<mapsto> h) \<and> svcmgr_handle w' = svcmgr_handle w"
proof -
  obtain msg where msg: "ready (mem w) msg [V_string16 name, V_ref h]"
    "svcmgr_handler malloc tr (bio_init_from_txn tr) reply w = svcmgr_add malloc msg reply w"
    using handler_header [OF r t(2), of malloc reply] t(1) by auto
  note s = ready_string16 [OF msg(1)]
  note g = ready_ref [OF s(3)]
  let ?len = "of_nat (length name) :: u32"
  have "?len \<noteq> 0" using n(1) len_of_name(1) [OF n(2)] by (metis length_0_conv unat_0)
  then obtain w1 where a: "do_add_service malloc (io_data msg + 4) ?len h w = Some (0, w1)" "svc_inv w1"
    "services w1 = (services w)(?len \<mapsto> h)"
    using do_add_service_effect [OF w m, of "io_data msg + 4" ?len h] n(3) len_of_name(2) [OF n(2)] ok by auto
  obtain reply' w' where p: "put_reply 0 reply w1 = (0, reply', w')" "w' = w1\<lparr>mem := mem w'\<rparr>"
  proof -
    obtain b m' where "bio_put_uint32 0 reply (mem w1) = (b, m')" by (metis surj_pair)
    then show thesis using that by (simp add: put_reply_def)
  qed
  have "svcmgr_handler malloc tr (bio_init_from_txn tr) reply w = Some (0, reply', w')"
    using msg(2) s(1) g a(1) p(1) by (simp add: svcmgr_add_def del: value_size.simps)
  moreover have "svc_inv w'" using put_reply_keeps [OF a(2) p(1)] .
  moreover have "services w' = services w1" "svcmgr_handle w' = svcmgr_handle w1"
    by (subst p(2), simp)+
  ultimately show ?thesis using a(3) do_add_service_handle [OF a(1)] by auto
qed

lemma get_request:
  assumes w: "svc_inv w"
    and r: "ready (mem w) (bio_init_from_txn tr) [V_uint32 policy, V_string16 id_chars, V_string16 name]"
    and t: "tr_code tr = 1 \<or> tr_code tr = 2" "tr_target tr = svcmgr_handle w"
    and n: "services w (of_nat (length name)) = Some h" "h \<noteq> 0"
  shows "svcmgr_handler malloc tr (bio_init_from_txn tr) reply w =
    (let (reply', m') = bio_put_ref h reply (mem w) in Some (0, reply', w\<lparr>mem := m'\<rparr>))"
proof -
  obtain msg where msg: "ready (mem w) msg [V_string16 name]"
    "svcmgr_handler malloc tr (bio_init_from_txn tr) reply w = svcmgr_get msg reply w"
    using handler_header [OF r t(2), of malloc reply] t(1) by auto
  have "do_find_service (of_nat (length name)) w = Some h"
    using do_find_service_eq [of w] w n by (simp add: svc_inv_def)
  then show ?thesis
    using msg(2) ready_string16(1) [OF msg(1)] n(2) by (simp add: svcmgr_get_def split: prod.splits)
qed

text \<open>
  What can happen to the service manager without touching the services whose names have
  length \<open>len\<close>: a request, whatever bytes it and the rest of memory hold, that does not ask to
  add such a service; the command of a reply; the death of a service of another length.
\<close>

definition adds_length :: "memory \<Rightarrow> transaction_data \<Rightarrow> binder_io \<Rightarrow> u32 \<Rightarrow> bool" where
  "adds_length m txn msg len \<longleftrightarrow> tr_code txn = 3 \<and>
     (let (policy, msg) = bio_get_uint32 m msg; (i, n, msg) = bio_get_string16 m msg;
          (s, n, msg) = bio_get_string16 m msg in n = len)"

inductive other_event ::
    "('a svcmgr_scheme \<Rightarrow> nat) \<Rightarrow> u32 \<Rightarrow> 'a svcmgr_scheme \<Rightarrow> 'a svcmgr_scheme \<Rightarrow> bool" for malloc len where
  Request: "\<not> adds_length m txn msg len \<Longrightarrow>
    svcmgr_handler malloc txn msg reply (w\<lparr>mem := m\<rparr>) = Some (res, reply', w') \<Longrightarrow> other_event malloc len w w'"
| Reply: "other_event malloc len w (binder_write (BC_FREE_BUFFER # ws) (w\<lparr>mem := m\<rparr>))"
| Death: "svc_len (entry w (unat d - 8)) \<noteq> len \<Longrightarrow> death_func d w = Some w' \<Longrightarrow> other_event malloc len w w'"

definition same_service :: "u32 \<Rightarrow> 'a svcmgr_scheme \<Rightarrow> 'a svcmgr_scheme \<Rightarrow> bool" where
  "same_service len w w' \<longleftrightarrow> services w' len = services w len \<and> svcmgr_handle w' = svcmgr_handle w"

lemma same_service_mem [simp]: "same_service len w (w'\<lparr>mem := m\<rparr>) = same_service len w w'"
  "same_service len (w\<lparr>mem := m\<rparr>) w' = same_service len w w'"
  by (simp_all add: same_service_def)

lemma same_service_refl [simp]: "same_service len w w"
  by (simp add: same_service_def)

lemma put_reply_same: "put_reply n reply w = (res, reply', w') \<Longrightarrow> same_service len w w'"
  by (auto simp: put_reply_def split: prod.splits)

lemma svcmgr_get_same: "svcmgr_get msg reply w = Some (res, reply', w') \<Longrightarrow> same_service len w w'"
  by (auto simp: svcmgr_get_def bind_eq_Some_conv Let_def split: prod.splits if_splits dest: put_reply_same)

lemma svcmgr_list_same: "svcmgr_list msg reply w = Some (res, reply', w') \<Longrightarrow> same_service len w w'"
  by (auto simp: svcmgr_list_def bind_eq_Some_conv split: prod.splits list.splits)

lemma svcmgr_add_same:
  assumes "svc_inv w" "malloc_fresh malloc" "bio_get_string16 (mem w) msg = (s, n, msg1)" "n \<noteq> len"
    and "svcmgr_add malloc msg reply w = Some (res, reply', w')"
  shows "same_service len w w'"
proof -
  obtain ptr msg2 where 2: "bio_get_ref (mem w) msg1 = (ptr, msg2)" by (metis surj_pair)
  from do_add_service_effect [OF assms(1,2), of s n ptr] obtain r1 w1 where
    3: "do_add_service malloc s n ptr w = Some (r1, w1)" "services w1 len = services w len"
    using assms(4) by (auto split: if_splits)
  then have "same_service len w w1" using do_add_service_handle by (auto simp: same_service_def)
  then show ?thesis
    using assms(3,5) 2 3(1) put_reply_same [of 0 reply w1 res reply' w' len]
    by (auto simp: svcmgr_add_def same_service_def split: if_splits)
qed

lemma svcmgr_handler_same:
  assumes "svc_inv w" "malloc_fresh malloc" "\<not> adds_length (mem w) txn msg len"
    and "svcmgr_handler malloc txn msg reply w = Some (res, reply', w')"
  shows "same_service len w w'"
proof -
  obtain p msg1 where 1: "bio_get_uint32 (mem w) msg = (p, msg1)" by (metis surj_pair)
  obtain s k msg2 where 2: "bio_get_string16 (mem w) msg1 = (s, k, msg2)" by (metis prod_cases3)
  obtain t n msg3 where 3: "bio_get_string16 (mem w) msg2 = (t, n, msg3)" by (metis prod_cases3)
  have "n \<noteq> len" if "tr_code txn = 3" using assms(3) that by (simp add: adds_length_def 1 2 3)
  then show ?thesis
    using assms(1,2,4) unfolding svcmgr_handler_def 1 2 Let_def split_conv
    by (auto split: if_splits intro: svcmgr_get_same svcmgr_list_same svcmgr_add_same [OF _ _ 3])
qed

lemma death_func_same:
  assumes w: "svc_inv w" and d: "death_func d w = Some w'" and l: "svc_len (entry w (unat d - 8)) \<noteq> len"
  shows "same_service len w w'"
proof -
  have "svc_at w (unat d - 8) \<noteq> None" using d by (auto simp: death_func_def svcinfo_death_def bind_eq_Some_conv)
  then have "unat d - 8 \<in> set (svclist w)" using w by (simp add: svc_inv_def svc_wf_def)
  from svc_inv_death [OF w this] d l have "services w' len = services w len" by (auto simp: death_func_def)
  moreover have "svcmgr_handle w' = svcmgr_handle w"
    using d by (auto simp: death_func_def svcinfo_death_def bind_eq_Some_conv binder_release_def)
  ultimately show ?thesis by (simp add: same_service_def)
qed

lemma other_event_keeps:
  assumes "other_event malloc len w w'" "malloc_fresh malloc" "svc_inv w"
  shows "svc_inv w' \<and> same_service len w w'"
  using assms
proof cases
  case (Request m txn msg reply res reply')
  have "svc_inv (w\<lparr>mem := m\<rparr>)" using assms(3) by (rule svc_inv_mem)
  from svcmgr_handler_keeps [OF this assms(2) Request(2)] svcmgr_handler_same [OF this assms(2) _ Request(2), of len]
  show ?thesis using Request(1) by simp
next
  case (Reply ws m)
  have "svc_inv (binder_write (BC_FREE_BUFFER # ws) (w\<lparr>mem := m\<rparr>))"
    using svc_inv_mem [OF assms(3)] by (rule svc_inv_write) auto
  then show ?thesis by (simp add: Reply same_service_def services_def)
next
  case (Death d)
  then show ?thesis using death_func_keeps death_func_same assms(3) by blast
qed

lemma other_events_keep:
  assumes "(other_event malloc len)\<^sup>*\<^sup>* w w'" "malloc_fresh malloc" "svc_inv w"
  shows "svc_inv w' \<and> same_service len w w'"
  using assms
  by (induction rule: rtranclp_induct) (auto dest: other_event_keeps simp: same_service_def)

text \<open>C16: A service that was published with ADD_SERVICE, under a name of 1 to 127 units and
  with a handle that is not NULL, while malloc has room for its entry, is what GET_SERVICE and CHECK_SERVICE
  give from then on, after any further requests, look-ups of the same name among them, replies
  and deaths, until a request adds a service under a name of the same length or the service
  dies: the reply to the look-up, delivered and read by its client, is the handle that was
  published.  Only the length of the name counts.\<close>

theorem published_service_is_found:
  assumes "svc_wf w" "balanced w" "malloc_fresh malloc" "malloc w \<noteq> 0"
    and "sent_parcel (mem w) tr [V_uint32 policy, V_string16 id_chars, V_string16 name, V_ref h]"
    and "tr_code tr = 3" "tr_target tr = svcmgr_handle w"
    and "name \<noteq> []" "length name \<le> 127" "h \<noteq> 0" "0 < buf" "buf + 256 \<le> addr_bound"
    and "sent_parcel m2 tr2 [V_uint32 policy2, V_string16 id_chars, V_string16 name2]"
    and "tr_code tr2 = 1 \<or> tr_code tr2 = 2" "tr_target tr2 = svcmgr_handle w" "length name2 = length name"
  shows "\<exists>reply1 w1.
    svcmgr_handler malloc tr (bio_init_from_txn tr) (reply_io io buf) w = Some (0, reply1, w1) \<and>
    (\<forall>v. (other_event malloc (of_nat (length name)))\<^sup>*\<^sup>* w1 v \<longrightarrow>
      (\<exists>reply2 w2.
        svcmgr_handler malloc tr2 (bio_init_from_txn tr2) (reply_io io buf) (v\<lparr>mem := m2\<rparr>) = Some (0, reply2, w2) \<and>
        (\<forall>m3 tr3. delivered (mem w2) reply2 m3 tr3 \<longrightarrow>
           fst (get_values m3 [K_ref] (bio_init_from_txn tr3)) = [V_ref h])))"
proof -
  have inv: "svc_inv w" using assms(1,2) by (simp add: svc_inv_def)
  have "V_ref 0 \<notin> set [V_uint32 policy, V_string16 id_chars, V_string16 name, V_ref h]" using assms(10) by simp
  from add_request [OF inv assms(3) sent_parcel_ready [OF assms(5) this] assms(6-10)] assms(4)
  obtain reply1 w1 where 1:
    "svcmgr_handler malloc tr (bio_init_from_txn tr) (reply_io io buf) w = Some (0, reply1, w1)"
    "svc_inv w1" "services w1 (of_nat (length name)) = Some h" "svcmgr_handle w1 = svcmgr_handle w"
    by fastforce
  have "\<exists>reply2 w2.
      svcmgr_handler malloc tr2 (bio_init_from_txn tr2) (reply_io io buf) (v\<lparr>mem := m2\<rparr>) = Some (0, reply2, w2) \<and>
      (\<forall>m3 tr3. delivered (mem w2) reply2 m3 tr3 \<longrightarrow> fst (get_values m3 [K_ref] (bio_init_from_txn tr3)) = [V_ref h])"
    if "(other_event malloc (of_nat (length name)))\<^sup>*\<^sup>* w1 v" for v
  proof -
    from other_events_keep [OF that assms(3) 1(2)] 1(3,4)
    have v: "svc_inv v" "services v (of_nat (length name2)) = Some h" "svcmgr_handle v = svcmgr_handle w"
      by (simp_all add: same_service_def assms(16))
    let ?w = "v\<lparr>mem := m2\<rparr>"
    have r: "ready (mem ?w) (bio_init_from_txn tr2) [V_uint32 policy2, V_string16 id_chars, V_string16 name2]"
      using sent_parcel_ready [OF assms(13)] by simp
    obtain reply2 m' where p: "bio_put_ref h (reply_io io buf) m2 = (reply2, m')" by (metis surj_pair)
    have 2: "svcmgr_handler malloc tr2 (bio_init_from_txn tr2) (reply_io io buf) ?w = Some (0, reply2, ?w\<lparr>mem := m'\<rparr>)"
      using get_request [OF svc_inv_mem [OF v(1)] r assms(14), of h malloc "reply_io io buf"] assms(10,15) v(2,3) p
      by simp
    have o: "put_outcome buf (buf + 256) [V_ref h] (reply_io io buf, m2) (reply2, m')"
      using put_ref_outcome [OF reply_io_wf(1) [OF assms(11,12)]] p by (metis)
    have "fst (get_values m3 [K_ref] (bio_init_from_txn tr3)) = [V_ref h]"
      if "delivered (mem (?w\<lparr>mem := m'\<rparr>)) reply2 m3 tr3" for m3 tr3
      using reply_read [OF assms(11,12) o, of m3 tr3] that assms(10) by simp
    with 2 show ?thesis by blast
  qed
  with 1(1) show ?thesis by blast
qed

lemma store_string_exists:
  "\<exists>m'. string16_at m' a cs \<and> (\<forall>i. i < a \<or> a + 2 * (length cs + 1) \<le> i \<longrightarrow> m' i = m i)"
proof (induction cs arbitrary: a)
  case Nil
  have "store16 a 0 m i = m i" if "i < a \<or> a + 2 \<le> i" for i using that by (auto simp: store16_def)
  then show ?case by (intro exI [of _ "store16 a 0 m"]) (simp add: string16_at_def)
next
  case (Cons c cs)
  obtain m1 where m1: "string16_at m1 (a + 2) cs"
    "\<And>i. i < a + 2 \<or> a + 2 + 2 * (length cs + 1) \<le> i \<Longrightarrow> m1 i = m i" using Cons.IH [of "a + 2"] by blast
  let ?m = "store16 a c m1"
  have "string16_at ?m (a + 2) cs"
    using m1(1) string16_at_cong [of cs ?m "a + 2" m1 "a + 2"] by (simp add: store16_def)
  then have "string16_at ?m a (c # cs)"
    by (auto simp: string16_at_def nth_Cons add.assoc split: nat.splits)
  moreover have "?m i = m i" if "i < a \<or> a + 2 * (length (c # cs) + 1) \<le> i" for i
    using that m1(2) [of i] by (auto simp: store16_def)
  ultimately show ?case by blast
qed

text \<open>Two requests for the service \<open>abc\<close>, written at 1000 with their strings at 100 and 200.\<close>

definition request_items :: "parcel_item list" where
  "request_items = [Put_uint32 0, Put_string16 100 id_chars, Put_string16 200 [97, 98, 99]]"

lemma request_exists:
  assumes "tail = [] \<or> tail = [Put_ref 9]"
  shows "\<exists>m tr. sent_parcel m tr (map item_value (request_items @ tail)) \<and> tr_code tr = code \<and> tr_target tr = 0"
proof -
  obtain ma where ma: "string16_at ma 100 id_chars" using store_string_exists by blast
  obtain mb where mb: "string16_at mb 200 [97, 98, 99]"
    "\<And>i. i < 200 \<or> 208 \<le> i \<Longrightarrow> mb i = ma i" using store_string_exists [of 200 "[97, 98, 99]" ma] by auto
  have "string16_at mb 100 id_chars = string16_at ma 100 id_chars"
    using mb(2) by (intro string16_at_cong) simp
  moreover have "0 \<notin> set id_chars" by (simp add: id_chars_def svcmgr_id_def of_char_def)
  ultimately have ok: "list_all (item_ok 1000 (1000 + unat (256 :: u32)) mb) (request_items @ tail)"
    using assms ma mb(1) by (auto simp: request_items_def)
  have i: "io_wf 1000 (1000 + unat (256 :: u32)) (bio_init sample_io 1000 256 4)"
    by (rule bio_init_wf) simp_all
  obtain bio1 m1 where p: "put_items (request_items @ tail) (bio_init sample_io 1000 256 4, mb) = Some (bio1, m1)"
    and o: "put_outcome 1000 (1000 + unat (256 :: u32)) (map item_value (request_items @ tail))
              (bio_init sample_io 1000 256 4, mb) (bio1, m1)"
    using put_items_outcome [of _ _ "(bio_init sample_io 1000 256 4, mb)" "request_items @ tail"] i ok
    by (metis fst_conv snd_conv surj_pair)
  have f: "fits (bio_init sample_io 1000 256 4) (map item_value (request_items @ tail))"
    using assms by (auto simp: fits_def bio_init_wf request_items_def round4_def)
  have no: "\<not> overflowed bio1" and d: "data0 bio1 = 1016" "offs0 bio1 = 1000"
    using o f by (auto simp: put_outcome_def wrote_def overflowed_def bio_init_wf)
  define tr where "tr = \<lparr>tr_target = 0, tr_cookie = 0, tr_code = code, tr_flags = 0, tr_sender_pid = 0,
    tr_sender_euid = 0, tr_data_size = of_nat (io_data bio1 - data0 bio1),
    tr_offsets_size = of_nat (io_offs bio1 - offs0 bio1), tr_buffer = 1016, tr_offsets = 1000\<rparr>"
  have "delivered m1 bio1 m1 tr" by (simp add: delivered_def tr_def d)
  then have "sent_parcel m1 tr (map item_value (request_items @ tail))"
    unfolding sent_parcel_def using p no ok
    by (intro exI [of _ "1000 :: nat"] exI [of _ "256 :: u32"] exI [of _ "4 :: u32"]
        exI [of _ "request_items @ tail"] exI [of _ sample_io] exI [of _ mb] exI [of _ bio1] exI [of _ m1]) simp
  then show ?thesis by (intro exI [of _ m1] exI [of _ tr]) (simp add: tr_def)
qed

lemma published_service_is_found_witness:
  "\<exists>m tr m2 tr2 reply1 w1 reply2 w2 reply3 w3.
     svcmgr_handler one_block tr (bio_init_from_txn tr) (reply_io sample_io 3000) (started m) = Some (0, reply1, w1) \<and>
     svcmgr_handler one_block tr2 (bio_init_from_txn tr2) (reply_io sample_io 3000) (w1\<lparr>mem := m2\<rparr>) = Some (0, reply2, w2) \<and>
     svcmgr_handler one_block tr2 (bio_init_from_txn tr2) (reply_io sample_io 3000) (w2\<lparr>mem := m2\<rparr>) = Some (0, reply3, w3)"
proof -
  obtain m tr where 1: "sent_parcel m tr (map item_value (request_items @ [Put_ref 9]))" "tr_code tr = 3" "tr_target tr = 0"
    using request_exists by blast
  obtain m2 tr2 where 2: "sent_parcel m2 tr2 (map item_value (request_items @ []))" "tr_code tr2 = 1" "tr_target tr2 = 0"
    using request_exists by blast
  have v: "map item_value (request_items @ [Put_ref 9])
      = [V_uint32 0, V_string16 id_chars, V_string16 [97, 98, 99], V_ref 9]"
    "map item_value (request_items @ []) = [V_uint32 0, V_string16 id_chars, V_string16 [97, 98, 99]]"
    by (simp_all add: request_items_def)
  have s: "mem (started m) = m" "svcmgr_handle (started m) = 0" "one_block (started m) = 5000"
    by (simp_all add: started_def one_block_def)
  have i: "svc_wf (started m)" "balanced (started m)" using started_inv by (auto simp: svc_inv_def)
  have p1: "sent_parcel (mem (started m)) tr [V_uint32 0, V_string16 id_chars, V_string16 [97, 98, 99], V_ref 9]"
    and p2: "sent_parcel m2 tr2 [V_uint32 0, V_string16 id_chars, V_string16 [97, 98, 99]]"
    using 1(1) 2(1) by (simp_all only: s v)
  have "\<exists>reply1 w1.
    svcmgr_handler one_block tr (bio_init_from_txn tr) (reply_io sample_io 3000) (started m) = Some (0, reply1, w1) \<and>
    (\<forall>v. (other_event one_block (of_nat (length [97 :: u16, 98, 99])))\<^sup>*\<^sup>* w1 v \<longrightarrow>
      (\<exists>reply2 w2.
        svcmgr_handler one_block tr2 (bio_init_from_txn tr2) (reply_io sample_io 3000) (v\<lparr>mem := m2\<rparr>) = Some (0, reply2, w2) \<and>
        (\<forall>m3 tr3. delivered (mem w2) reply2 m3 tr3 \<longrightarrow>
           fst (get_values m3 [K_ref] (bio_init_from_txn tr3)) = [V_ref 9])))"
    by (rule published_service_is_found [OF i one_block_fresh _ p1 1(2) _ _ _ _ _ _ p2 _ _ refl])
      (simp_all add: s 1 2)
  then obtain reply1 w1 where
    w1: "svcmgr_handler one_block tr (bio_init_from_txn tr) (reply_io sample_io 3000) (started m) = Some (0, reply1, w1)"
    and found: "\<And>v. (other_event one_block (of_nat (length [97 :: u16, 98, 99])))\<^sup>*\<^sup>* w1 v \<Longrightarrow> \<exists>reply2 w2.
        svcmgr_handler one_block tr2 (bio_init_from_txn tr2) (reply_io sample_io 3000) (v\<lparr>mem := m2\<rparr>) = Some (0, reply2, w2)"
    by blast
  from found [OF rtranclp.rtrancl_refl] obtain reply2 w2 where
    w2: "svcmgr_handler one_block tr2 (bio_init_from_txn tr2) (reply_io sample_io 3000) (w1\<lparr>mem := m2\<rparr>) = Some (0, reply2, w2)"
    by blast
  have "other_event one_block (of_nat (length [97 :: u16, 98, 99])) w1 w2"
    by (rule Request [OF _ w2]) (simp add: adds_length_def 2)
  then have "(other_event one_block (of_nat (length [97 :: u16, 98, 99])))\<^sup>*\<^sup>* w1 w2" by (rule r_into_rtranclp)
  from found [OF this] w1 w2 show ?thesis by blast
qed

section \<open>Deaths\<close>

lemma announce_written:
  "written (announce si ptr w) = written w @ [[BC_ACQUIRE, ptr], [BC_REQUEST_DEATH_NOTIFICATION, ptr, death_of si]]"
  by (simp add: announce_def binder_link_to_death_def binder_acquire_def binder_write_def)

lemma announce_fields [simp]:
  "svclist (announce si ptr w) = svclist w" "entry (announce si ptr w) = entry w"
  "svc_at (announce si ptr w) = svc_at w" "with_len (announce si ptr w) = with_len w"
  by (simp_all add: announce_def binder_link_to_death_def binder_acquire_def)

lemma death_func_of: "si + 8 < addr_bound \<Longrightarrow> death_func (death_of si) w = svcinfo_death si w"
  by (simp add: death_func_def death_of_def unat_of_nat del: of_nat_add)

text \<open>When a service is published again under a name that is taken, the old handle is
  released and the new one acquired, but the death notification of the old one, which stays
  requested with the same cookie, unregisters and releases the new service.\<close>

theorem replaced_service_death:
  assumes "svc_wf w" "balanced w" "malloc_fresh malloc" "services w len = None" "malloc w \<noteq> 0"
    and "len \<noteq> 0" "len \<le> 127" "h1 \<noteq> 0" "h2 \<noteq> 0"
  shows "\<exists>d w1 w2 w3. do_add_service malloc s1 len h1 w = Some (0, w1) \<and>
     do_add_service malloc s2 len h2 w1 = Some (0, w2) \<and>
     written w2 = written w @ [[BC_ACQUIRE, h1], [BC_REQUEST_DEATH_NOTIFICATION, h1, d],
       [BC_RELEASE, h1], [BC_ACQUIRE, h2], [BC_REQUEST_DEATH_NOTIFICATION, h2, d]] \<and>
     services w2 len = Some h2 \<and> death_func d w2 = Some w3 \<and> services w3 len = Some 0 \<and>
     written w3 = written w2 @ [[BC_RELEASE, h2]]"
proof -
  define si where "si = malloc w"
  define w1 where "w1 = announce si h1 (new_svcinfo si s1 len h1 w)"
  have w: "svc_inv w" using assms(1,2) by (simp add: svc_inv_def)
  have si: "si \<notin> set (svclist w)" "si + 8 < addr_bound" using assms(3,5) by (auto simp: malloc_fresh_def si_def)
  have "with_len w len = None" using assms(4) by (simp add: services_def)
  then have 1: "do_add_service malloc s1 len h1 w = Some (0, w1)"
    using assms find_svc_with_len [OF assms(1), of len] by (simp add: do_add_service_def si_def w1_def announce_def not_less)
  then have inv1: "svc_inv w1" using do_add_service_effect [OF w assms(3), of s1 len h1] by auto
  then have wf1: "svc_wf w1" by (simp add: svc_inv_def)
  have in1: "si \<in> set (svclist w1)" and e1: "entry w1 si = \<lparr>svc_ptr = h1, svc_len = len\<rparr>"
    by (simp_all add: w1_def new_svcinfo_fields)
  then have wl1: "with_len w1 len = Some si" using with_len_own [OF wf1 in1] by simp
  define w1' where "w1' = set_ptr si 0 (binder_release h1 w1)"
  have d1: "svcinfo_death si w1 = Some w1'" using svcinfo_death_eq [OF wf1 in1] e1 assms(8) by (simp add: w1'_def)
  define w2 where "w2 = announce si h2 (set_ptr si h2 w1')"
  have 2: "do_add_service malloc s2 len h2 w1 = Some (0, w2)"
    using assms find_svc_with_len [OF wf1, of len] wl1 d1 svc_at_entry [OF wf1 in1] e1
    by (simp add: do_add_service_def w2_def announce_def set_ptr_def not_less)
  then have inv2: "svc_inv w2" and sv2: "services w2 len = Some h2"
    using do_add_service_effect [OF inv1 assms(3), of s2 len h2] assms wl1 by (auto simp: services_def)
  then have wf2: "svc_wf w2" by (simp add: svc_inv_def)
  have in2: "si \<in> set (svclist w2)" using in1 by (simp add: w2_def w1'_def binder_release_def)
  have "svc_at w1 si \<noteq> None" using svc_at_entry [OF wf1 in1] by simp
  then have e2: "entry w2 si = \<lparr>svc_ptr = h2, svc_len = len\<rparr>"
    using e1 by (simp add: w2_def w1'_def entry_set_ptr binder_release_def)
  from svc_inv_death [OF inv2 in2] obtain w3 where
    3: "svcinfo_death si w2 = Some w3" "services w3 = (services w2)(len \<mapsto> 0)" using e2 by auto
  have "written w3 = written w2 @ [[BC_RELEASE, h2]]"
    using 3(1) svcinfo_death_eq [OF wf2 in2] e2 assms(9) by (auto simp: binder_release_def binder_write_def)
  moreover have "written w2 = written w @ [[BC_ACQUIRE, h1], [BC_REQUEST_DEATH_NOTIFICATION, h1, death_of si],
       [BC_RELEASE, h1], [BC_ACQUIRE, h2], [BC_REQUEST_DEATH_NOTIFICATION, h2, death_of si]]"
    by (simp add: w2_def announce_written w1'_def binder_release_def)
      (simp add: binder_write_def w1_def announce_written new_svcinfo_fields)
  ultimately show ?thesis using 1 2 3 sv2 death_func_of [OF si(2), of w2]
    by (intro exI [of _ "death_of si"] exI [of _ w1] exI [of _ w2] exI [of _ w3]) simp
qed

lemma replaced_service_death_witness:
  "\<exists>d w1 w2 w3. do_add_service one_block 0 3 7 (started (\<lambda>_. 0)) = Some (0, w1) \<and>
     do_add_service one_block 0 3 8 w1 = Some (0, w2) \<and> services w2 3 = Some 8 \<and>
     death_func d w2 = Some w3 \<and> services w3 3 = Some 0"
proof -
  have i: "svc_wf (started (\<lambda>_. 0))" "balanced (started (\<lambda>_. 0))" using started_inv by (auto simp: svc_inv_def)
  have "services (started (\<lambda>_. 0)) 3 = None" "one_block (started (\<lambda>_. 0)) \<noteq> 0"
    by (simp_all add: services_def with_len_def started_def one_block_def)
  from replaced_service_death [OF i one_block_fresh this, of 7 8 0 0] show ?thesis by auto
qed

section \<open>Requests that crash the service manager\<close>

definition name_ends :: "'a svcmgr_scheme \<Rightarrow> nat \<Rightarrow> bool" where
  "name_ends w si \<longleftrightarrow> string16_length (mem w) (name_of si) 0 \<noteq> None"

lemma svcmgr_list_returns:
  "list_all (name_ends w) (svclist w) \<Longrightarrow> svcmgr_list msg reply w \<noteq> None"
proof -
  assume n: "list_all (name_ends w) (svclist w)"
  have sub: "set (skip_services k sis) \<subseteq> set sis" for k sis by (induction k sis rule: skip_services.induct) auto
  obtain k msg1 where g: "bio_get_uint32 (mem w) msg = (k, msg1)" by (metis surj_pair)
  show ?thesis
  proof (cases "skip_services (unat k) (svclist w)")
    case Nil
    then show ?thesis using g by (simp add: svcmgr_list_def)
  next
    case (Cons si sis)
    then have "si \<in> set (svclist w)" using sub [of "unat k" "svclist w"] by auto
    then have "bio_put_string16 (name_of si) reply (mem w) \<noteq> None"
      using n by (auto simp: list_all_iff name_ends_def bio_put_string16_def Let_def split: prod.splits)
    then show ?thesis using g Cons by (auto simp: svcmgr_list_def)
  qed
qed

lemma svcmgr_get_returns: "svc_wf w \<Longrightarrow> svcmgr_get msg reply w \<noteq> None"
  using do_find_service_eq [of w] by (simp add: svcmgr_get_def put_reply_def split: prod.splits)

lemma svcmgr_add_returns: "svc_inv w \<Longrightarrow> malloc_fresh malloc \<Longrightarrow> svcmgr_add malloc msg reply w \<noteq> None"
proof -
  assume a: "svc_inv w" "malloc_fresh malloc"
  obtain s len msg1 where 1: "bio_get_string16 (mem w) msg = (s, len, msg1)" by (metis prod_cases3)
  obtain ptr msg2 where 2: "bio_get_ref (mem w) msg1 = (ptr, msg2)" by (metis surj_pair)
  show ?thesis using do_add_service_effect [OF a, of s len ptr]
    by (auto simp: svcmgr_add_def 1 2 put_reply_def split: prod.splits)
qed

text \<open>C17: The handler answers every request, whatever its bytes, but one: a header whose
  length of the interface name is right and whose characters are missing makes it compare with
  NULL.\<close>

theorem handler_crashes_exactly_on_missing_name:
  assumes "svc_wf w" "balanced w" "malloc_fresh malloc" "list_all (name_ends w) (svclist w)"
    and "bio_get_uint32 (mem w) msg = (policy, msg1)" "bio_get_string16 (mem w) msg1 = (s, len, msg2)"
  shows "svcmgr_handler malloc txn msg reply w = None \<longleftrightarrow>
    tr_target txn = svcmgr_handle w \<and> len = 26 \<and> s = 0"
proof -
  have inv: "svc_inv w" using assms(1,2) by (simp add: svc_inv_def)
  show ?thesis
    unfolding svcmgr_handler_def assms(5,6) Let_def split_conv
    using svcmgr_list_returns [OF assms(4)] svcmgr_get_returns [OF assms(1)] svcmgr_add_returns [OF inv assms(3)]
    by simp
qed

lemma handler_crashes_exactly_on_missing_name_witness:
  "svcmgr_handler one_block \<lparr>tr_target = 0, tr_cookie = 0, tr_code = 1, tr_flags = 0, tr_sender_pid = 0,
     tr_sender_euid = 0, tr_data_size = 8, tr_offsets_size = 0, tr_buffer = 1008, tr_offsets = 1000\<rparr>
     (sample_io\<lparr>data_avail := 8\<rparr>) sample_io (started (store32 1012 26 (\<lambda>_. 0))) = None"
proof -
  let ?w = "started (store32 1012 26 (\<lambda>_. 0))" and ?b = "sample_io\<lparr>data_avail := 8\<rparr>"
  have i: "svc_wf ?w" "balanced ?w" using started_inv by (auto simp: svc_inv_def)
  have d: "io_data sample_io = 1008" by (simp add: sample_io_def bio_init_def)
  have a: "align_ptr 54 = 56" "align_ptr 4 = 4" by (simp_all add: align_ptr_def)
  have m: "mem ?w = store32 1012 26 (\<lambda>_. 0)" "svcmgr_handle ?w = 0" "svclist ?w = []" by (simp_all add: started_def)
  have 1: "bio_get_uint32 (mem ?w) ?b = (0, ?b\<lparr>io_data := 1012, data_avail := 4\<rparr>)"
    by (simp add: m bio_get_uint32_def bio_get_def d a Let_def load32_store32_other) (simp add: load32_def)
  have 2: "\<exists>b2. bio_get_string16 (mem ?w) (?b\<lparr>io_data := 1012, data_avail := 4\<rparr>) = (0, 26, b2)"
    by (simp add: m bio_get_string16_def bio_get_uint32_def bio_get_def a Let_def)
  then obtain b2 where 2: "bio_get_string16 (mem ?w) (?b\<lparr>io_data := 1012, data_avail := 4\<rparr>) = (0, 26, b2)" by blast
  show ?thesis
    using handler_crashes_exactly_on_missing_name [OF i one_block_fresh _ 1 2] by (simp add: m)
qed

end
