(* ===== verification/Hashmap.thy ===== *)
theory Hashmap
  imports Prelude "HOL-Library.Multiset"
begin

text \<open>
  The hash map of libcutils (libs/cutils/hashmap.c), a table of chains with the hash and
  equality functions of its user.

  A chain linked by \<open>next\<close> is the list of its entries.  Keys and values are pointers, the
  value None is NULL, and \<open>==\<close> on keys is HOL's equality.  Whether \<open>malloc\<close> and \<open>calloc\<close>
  succeed are arguments; \<open>calloc\<close> fails when its size does not fit in 32 bits.  The mutex and
  the freeing of memory are not modelled.
\<close>

record ('k, 'v) entry =
  e_key :: 'k
  e_hash :: u32
  e_value :: "'v option"

record ('k, 'v) hashmap =
  buckets :: "('k, 'v) entry list list"
  bucketCount :: u32
  hash_fn :: "'k \<Rightarrow> u32"
  equals_fn :: "'k \<Rightarrow> 'k \<Rightarrow> bool"
  hm_size :: u32

section \<open>Operations\<close>

definition calloc_ok :: "bool \<Rightarrow> u32 \<Rightarrow> bool" where
  "calloc_ok ok n \<longleftrightarrow> ok \<and> 4 * unat n < addr_bound"

text \<open>The loop that doubles the count: None when it does not end.\<close>

partial_function (option) grow_count :: "u32 \<Rightarrow> u32 \<Rightarrow> u32 option" where
  "grow_count n minimum = (if n \<le> minimum then grow_count (push_bit 1 n) minimum else Some n)"

definition minimum_count :: "u32 \<Rightarrow> u32" where
  "minimum_count initialCapacity = initialCapacity * 4 div 3"

text \<open>None when the loop does not end, Some None when memory is short.\<close>

definition hashmapCreate ::
    "bool \<Rightarrow> bool \<Rightarrow> u32 \<Rightarrow> ('k \<Rightarrow> u32) \<Rightarrow> ('k \<Rightarrow> 'k \<Rightarrow> bool) \<Rightarrow> ('k, 'v) hashmap option option" where
  "hashmapCreate map_ok table_ok initialCapacity hash equals =
     (if \<not> map_ok then Some None
      else do {
        n \<leftarrow> grow_count 1 (minimum_count initialCapacity);
        Some (if calloc_ok table_ok n
              then Some \<lparr>buckets = replicate (unat n) [], bucketCount = n, hash_fn = hash,
                         equals_fn = equals, hm_size = 0\<rparr>
              else None)})"

definition spread_hash :: "u32 \<Rightarrow> u32" where
  "spread_hash h =
     (let h = h + NOT (push_bit 9 h);
          h = h XOR drop_bit 14 h;
          h = h + push_bit 4 h
      in h XOR drop_bit 10 h)"

definition hashKey :: "('k, 'v) hashmap \<Rightarrow> 'k \<Rightarrow> u32" where
  "hashKey m k = spread_hash (hash_fn m k)"

definition hashmapSize :: "('k, 'v) hashmap \<Rightarrow> u32" where
  "hashmapSize m = hm_size m"

definition calculateIndex :: "u32 \<Rightarrow> u32 \<Rightarrow> nat" where
  "calculateIndex n h = unat (h AND (n - 1))"

fun move_entries ::
    "u32 \<Rightarrow> ('k, 'v) entry list \<Rightarrow> ('k, 'v) entry list list \<Rightarrow> ('k, 'v) entry list list" where
  "move_entries n [] bs = bs"
| "move_entries n (e # es) bs =
     (let i = calculateIndex n (e_hash e) in move_entries n es (bs[i := e # bs ! i]))"

definition expandIfNecessary :: "bool \<Rightarrow> ('k, 'v) hashmap \<Rightarrow> ('k, 'v) hashmap" where
  "expandIfNecessary table_ok m =
     (if hm_size m > bucketCount m * 3 div 4
      then let n = push_bit 1 (bucketCount m) in
        if calloc_ok table_ok n
        then m\<lparr>buckets := move_entries n (concat (buckets m)) (replicate (unat n) []), bucketCount := n\<rparr>
        else m
      else m)"

fun hashmapHash_loop :: "u8 list \<Rightarrow> u32 \<Rightarrow> u32" where
  "hashmapHash_loop [] h = h"
| "hashmapHash_loop (c # cs) h = hashmapHash_loop cs (h * 31 + scast c)"

definition hashmapHash :: "u8 list \<Rightarrow> u32" where
  "hashmapHash data = hashmapHash_loop data (of_nat (length data))"

definition createEntry :: "bool \<Rightarrow> 'k \<Rightarrow> u32 \<Rightarrow> 'v option \<Rightarrow> ('k, 'v) entry option" where
  "createEntry ok k h v = (if ok then Some \<lparr>e_key = k, e_hash = h, e_value = v\<rparr> else None)"

definition equalKeys :: "'k \<Rightarrow> u32 \<Rightarrow> 'k \<Rightarrow> u32 \<Rightarrow> ('k \<Rightarrow> 'k \<Rightarrow> bool) \<Rightarrow> bool" where
  "equalKeys keyA hashA keyB hashB equals =
     (if keyA = keyB then True else if hashA \<noteq> hashB then False else equals keyA keyB)"

text \<open>The walk along a chain: None at its end, or the old value and the chain after the store.\<close>

fun replace_in ::
    "('k \<Rightarrow> 'k \<Rightarrow> bool) \<Rightarrow> 'k \<Rightarrow> u32 \<Rightarrow> 'v option \<Rightarrow> ('k, 'v) entry list \<Rightarrow>
     ('v option \<times> ('k, 'v) entry list) option" where
  "replace_in eq k h v [] = None"
| "replace_in eq k h v (e # es) =
     (if equalKeys (e_key e) (e_hash e) k h eq then Some (e_value e, e\<lparr>e_value := v\<rparr> # es)
      else map_option (\<lambda>(old, es). (old, e # es)) (replace_in eq k h v es))"

text \<open>The value returned, whether \<open>errno\<close> was set to ENOMEM, and the map.\<close>

definition hashmapPut ::
    "bool \<Rightarrow> bool \<Rightarrow> ('k, 'v) hashmap \<Rightarrow> 'k \<Rightarrow> 'v option \<Rightarrow> 'v option \<times> bool \<times> ('k, 'v) hashmap" where
  "hashmapPut entry_ok table_ok m k v =
     (let h = hashKey m k; i = calculateIndex (bucketCount m) h; chain = buckets m ! i in
      case replace_in (equals_fn m) k h v chain of
        Some (old, chain) \<Rightarrow> (old, False, m\<lparr>buckets := (buckets m)[i := chain]\<rparr>)
      | None \<Rightarrow>
          (case createEntry entry_ok k h v of
             None \<Rightarrow> (None, True, m)
           | Some e \<Rightarrow> (None, False, expandIfNecessary table_ok
                         (m\<lparr>buckets := (buckets m)[i := chain @ [e]], hm_size := hm_size m + 1\<rparr>))))"

fun find_entry ::
    "('k \<Rightarrow> 'k \<Rightarrow> bool) \<Rightarrow> 'k \<Rightarrow> u32 \<Rightarrow> ('k, 'v) entry list \<Rightarrow> ('k, 'v) entry option" where
  "find_entry eq k h [] = None"
| "find_entry eq k h (e # es) =
     (if equalKeys (e_key e) (e_hash e) k h eq then Some e else find_entry eq k h es)"

definition hashmapGet :: "('k, 'v) hashmap \<Rightarrow> 'k \<Rightarrow> 'v option" where
  "hashmapGet m k =
     (let h = hashKey m k in
      case find_entry (equals_fn m) k h (buckets m ! calculateIndex (bucketCount m) h) of
        None \<Rightarrow> None
      | Some e \<Rightarrow> e_value e)"

definition hashmapContainsKey :: "('k, 'v) hashmap \<Rightarrow> 'k \<Rightarrow> bool" where
  "hashmapContainsKey m k =
     (let h = hashKey m k in
      find_entry (equals_fn m) k h (buckets m ! calculateIndex (bucketCount m) h) \<noteq> None)"

definition hashmapMemoize ::
    "bool \<Rightarrow> bool \<Rightarrow> ('k, 'v) hashmap \<Rightarrow> 'k \<Rightarrow> ('k \<Rightarrow> 'v option) \<Rightarrow> 'v option \<times> bool \<times> ('k, 'v) hashmap" where
  "hashmapMemoize entry_ok table_ok m k initialValue =
     (let h = hashKey m k; i = calculateIndex (bucketCount m) h; chain = buckets m ! i in
      case find_entry (equals_fn m) k h chain of
        Some e \<Rightarrow> (e_value e, False, m)
      | None \<Rightarrow>
          (case createEntry entry_ok k h (initialValue k) of
             None \<Rightarrow> (None, True, m)
           | Some e \<Rightarrow> (initialValue k, False, expandIfNecessary table_ok
                         (m\<lparr>buckets := (buckets m)[i := chain @ [e]], hm_size := hm_size m + 1\<rparr>))))"

fun remove_in ::
    "('k \<Rightarrow> 'k \<Rightarrow> bool) \<Rightarrow> 'k \<Rightarrow> u32 \<Rightarrow> ('k, 'v) entry list \<Rightarrow> ('v option \<times> ('k, 'v) entry list) option" where
  "remove_in eq k h [] = None"
| "remove_in eq k h (e # es) =
     (if equalKeys (e_key e) (e_hash e) k h eq then Some (e_value e, es)
      else map_option (\<lambda>(old, es). (old, e # es)) (remove_in eq k h es))"

definition hashmapRemove :: "('k, 'v) hashmap \<Rightarrow> 'k \<Rightarrow> 'v option \<times> ('k, 'v) hashmap" where
  "hashmapRemove m k =
     (let h = hashKey m k; i = calculateIndex (bucketCount m) h in
      case remove_in (equals_fn m) k h (buckets m ! i) of
        None \<Rightarrow> (None, m)
      | Some (old, chain) \<Rightarrow> (old, m\<lparr>buckets := (buckets m)[i := chain], hm_size := hm_size m - 1\<rparr>))"

text \<open>
  hashmapForEach: the callback works on a context from which \<open>the_map\<close> gets the map, and may
  remove the entry it was called with, whose \<open>next\<close> has been read before.
\<close>

fun chain_loop ::
    "('k \<Rightarrow> 'v option \<Rightarrow> 'c \<Rightarrow> bool \<times> 'c) \<Rightarrow> ('k, 'v) entry list \<Rightarrow> 'c \<Rightarrow> bool \<times> 'c" where
  "chain_loop callback [] c = (True, c)"
| "chain_loop callback (e # es) c =
     (let (more, c) = callback (e_key e) (e_value e) c in if more then chain_loop callback es c else (False, c))"

fun each_bucket ::
    "('c \<Rightarrow> ('k, 'v) hashmap) \<Rightarrow> ('k \<Rightarrow> 'v option \<Rightarrow> 'c \<Rightarrow> bool \<times> 'c) \<Rightarrow> nat \<Rightarrow> nat \<Rightarrow> 'c \<Rightarrow> 'c" where
  "each_bucket the_map callback i 0 c = c"
| "each_bucket the_map callback i (Suc n) c =
     (let (more, c) = chain_loop callback (buckets (the_map c) ! i) c in
      if more then each_bucket the_map callback (i + 1) n c else c)"

definition hashmapForEach ::
    "('c \<Rightarrow> ('k, 'v) hashmap) \<Rightarrow> ('k \<Rightarrow> 'v option \<Rightarrow> 'c \<Rightarrow> bool \<times> 'c) \<Rightarrow> 'c \<Rightarrow> 'c" where
  "hashmapForEach the_map callback c =
     each_bucket the_map callback 0 (unat (bucketCount (the_map c))) c"

definition hashmapCurrentCapacity :: "('k, 'v) hashmap \<Rightarrow> u32" where
  "hashmapCurrentCapacity m = bucketCount m * 3 div 4"

definition hashmapCountCollisions :: "('k, 'v) hashmap \<Rightarrow> u32" where
  "hashmapCountCollisions m = of_nat (\<Sum>chain\<leftarrow>buckets m. length chain - 1)"

text \<open>A key of these two points to an \<open>int\<close> in memory.\<close>

definition hashmapIntHash :: "memory \<Rightarrow> nat \<Rightarrow> u32" where
  "hashmapIntHash m k = load32 m k"

definition hashmapIntEquals :: "memory \<Rightarrow> nat \<Rightarrow> nat \<Rightarrow> bool" where
  "hashmapIntEquals m a b \<longleftrightarrow> load32 m a = load32 m b"

end
