(* ===== verification/HashmapSpec.thy ===== *)
theory HashmapSpec
  imports Hashmap
begin

text \<open>
  The hash map as a map.  \<open>contents\<close> is the abstract map a table stands for and \<open>hm_ok\<close> the
  invariant of the table; the interface \<open>hash_keys\<close> is what the functions of the user have to
  satisfy.
\<close>

section \<open>The table and the map it stands for\<close>

definition entries :: "('k, 'v) hashmap \<Rightarrow> ('k, 'v) entry multiset" where
  "entries m = mset (concat (buckets m))"

definition matching :: "('k \<Rightarrow> 'k \<Rightarrow> bool) \<Rightarrow> 'k \<Rightarrow> ('k, 'v) entry multiset \<Rightarrow> ('k, 'v) entry multiset" where
  "matching eq k M = filter_mset (\<lambda>e. eq (e_key e) k) M"

definition contents :: "('k, 'v) hashmap \<Rightarrow> 'k \<Rightarrow> 'v option option" where
  "contents m k = map_option e_value (find (\<lambda>e. equals_fn m (e_key e) k) (concat (buckets m)))"

definition placed :: "('k, 'v) hashmap \<Rightarrow> bool" where
  "placed m \<longleftrightarrow> (\<forall>i < length (buckets m). \<forall>e \<in> set (buckets m ! i).
     e_hash e = hashKey m (e_key e) \<and> calculateIndex (bucketCount m) (e_hash e) = i)"

definition hm_ok :: "('k, 'v) hashmap \<Rightarrow> bool" where
  "hm_ok m \<longleftrightarrow> (\<exists>n \<le> 29. unat (bucketCount m) = 2 ^ n) \<and> length (buckets m) = unat (bucketCount m) \<and>
     placed m \<and> (\<forall>k. size (matching (equals_fn m) k (entries m)) \<le> 1) \<and>
     unat (hm_size m) = size (entries m)"

lemma index_bound:
  assumes "0 < unat n"
  shows "calculateIndex n h < unat n"
proof -
  have "h AND (n - 1) \<le> n - 1" by (rule word_and_le1)
  moreover have "n - 1 < n" using assms by (simp add: word_less_nat_alt unat_minus_one unat_gt_0 [symmetric])
  ultimately show ?thesis by (simp add: calculateIndex_def word_less_nat_alt [symmetric])
qed

lemma mset_concat_update:
  assumes "i < length bs"
  shows "mset (concat (bs[i := c])) + mset (bs ! i) = mset (concat bs) + mset c"
proof -
  have "bs = take i bs @ bs ! i # drop (Suc i) bs" using assms by (rule id_take_nth_drop)
  then have "mset (concat bs) = mset (concat (take i bs)) + mset (bs ! i) + mset (concat (drop (Suc i) bs))"
    by (metis append.assoc concat.simps(2) concat_append mset_append)
  moreover have "bs[i := c] = take i bs @ c # drop (Suc i) bs" using assms by (rule upd_conv_take_nth_drop)
  ultimately show ?thesis by simp
qed

lemma find_Some_in: "find P xs = Some e \<Longrightarrow> e \<in> set xs \<and> P e"
  by (induction xs) (auto split: if_splits)

lemma entries_in_bucket: "e \<in># entries m \<longleftrightarrow> (\<exists>i < length (buckets m). e \<in> set (buckets m ! i))"
  by (auto simp: entries_def in_set_conv_nth) (metis in_set_conv_nth, metis nth_mem)

section \<open>What the keys have to satisfy\<close>

locale hash_keys =
  fixes hash :: "'k \<Rightarrow> u32" and equals :: "'k \<Rightarrow> 'k \<Rightarrow> bool"
  assumes equals_refl: "equals a a"
    and equals_sym: "equals a b \<Longrightarrow> equals b a"
    and equals_trans: "equals a b \<Longrightarrow> equals b c \<Longrightarrow> equals a c"
    and equals_hash: "equals a b \<Longrightarrow> hash a = hash b"
begin

lemma equals_cong: "equals k k' \<Longrightarrow> equals a k = equals a k'"
  using equals_sym equals_trans by blast

lemma matching_cong: "equals k k' \<Longrightarrow> matching equals k M = matching equals k' M"
  using equals_cong by (simp add: matching_def)

lemma equalKeys_eq:
  assumes "hashA = spread_hash (hash a)" "hashB = spread_hash (hash b)"
  shows "equalKeys a hashA b hashB equals = equals a b"
  using assms equals_refl equals_hash by (auto simp: equalKeys_def)

lemma chain_find:
  assumes "\<forall>e \<in> set es. e_hash e = spread_hash (hash (e_key e))" "h = spread_hash (hash k)"
  shows "find_entry equals k h es = find (\<lambda>e. equals (e_key e) k) es"
  using assms by (induction es) (auto simp: equalKeys_eq)

lemma chain_none:
  assumes "\<forall>e \<in> set es. e_hash e = spread_hash (hash (e_key e))" "h = spread_hash (hash k)"
  shows "replace_in equals k h v es = None \<longleftrightarrow> (\<forall>e \<in> set es. \<not> equals (e_key e) k)"
    and "remove_in equals k h es = None \<longleftrightarrow> (\<forall>e \<in> set es. \<not> equals (e_key e) k)"
  using assms by (induction es) (auto simp: equalKeys_eq)

lemma chain_replace:
  assumes "\<forall>e \<in> set es. e_hash e = spread_hash (hash (e_key e))" "h = spread_hash (hash k)"
    and "replace_in equals k h v es = Some (old, es')"
  shows "\<exists>e. e \<in> set es \<and> equals (e_key e) k \<and> old = e_value e \<and>
        add_mset e (mset es') = add_mset (e\<lparr>e_value := v\<rparr>) (mset es)"
  using assms(1,3)
proof (induction es arbitrary: es')
  case (Cons e es)
  have q: "equalKeys (e_key e) (e_hash e) k h equals = equals (e_key e) k"
    using Cons.prems assms(2) by (intro equalKeys_eq) simp_all
  show ?case
  proof (cases "equals (e_key e) k")
    case True
    then show ?thesis using Cons.prems q by (auto simp: add_mset_commute)
  next
    case False
    then obtain es1 where r: "replace_in equals k h v es = Some (old, es1)" "es' = e # es1"
      using Cons.prems q by (auto split: prod.splits)
    from Cons.IH [OF _ r(1)] Cons.prems(1) obtain e1 where
      "e1 \<in> set es \<and> equals (e_key e1) k \<and> old = e_value e1 \<and>
        add_mset e1 (mset es1) = add_mset (e1\<lparr>e_value := v\<rparr>) (mset es)" by auto
    then show ?thesis using r(2) by (intro exI [of _ e1]) (simp add: add_mset_commute)
  qed
qed simp

lemma chain_remove:
  assumes "\<forall>e \<in> set es. e_hash e = spread_hash (hash (e_key e))" "h = spread_hash (hash k)"
    and "remove_in equals k h es = Some (old, es')"
  shows "\<exists>e. e \<in> set es \<and> equals (e_key e) k \<and> old = e_value e \<and> add_mset e (mset es') = mset es"
  using assms(1,3)
proof (induction es arbitrary: es')
  case (Cons e es)
  have q: "equalKeys (e_key e) (e_hash e) k h equals = equals (e_key e) k"
    using Cons.prems assms(2) by (intro equalKeys_eq) simp_all
  show ?case
  proof (cases "equals (e_key e) k")
    case True
    then show ?thesis using Cons.prems q by auto
  next
    case False
    then obtain es1 where r: "remove_in equals k h es = Some (old, es1)" "es' = e # es1"
      using Cons.prems q by (auto split: prod.splits)
    from Cons.IH [OF _ r(1)] Cons.prems(1) obtain e1 where
      "e1 \<in> set es \<and> equals (e_key e1) k \<and> old = e_value e1 \<and> add_mset e1 (mset es1) = mset es" by auto
    then show ?thesis using r(2) by (intro exI [of _ e1]) (simp add: add_mset_commute)
  qed
qed simp

lemma unique_match:
  assumes "size (matching equals k M) \<le> 1" "e \<in># M" "equals (e_key e) k" "e' \<in># M" "equals (e_key e') k"
  shows "e = e'"
proof -
  have in2: "e \<in># matching equals k M" "e' \<in># matching equals k M" using assms by (simp_all add: matching_def)
  then obtain N where N: "matching equals k M = add_mset e N" by (meson multi_member_split)
  then have "N = {#}" using assms(1) by simp
  then show ?thesis using in2(2) N by simp
qed

lemma ok_bucket:
  assumes ok: "hm_ok m" and h: "hash_fn m = hash"
  shows "calculateIndex (bucketCount m) h' < length (buckets m)"
    and "\<forall>e \<in> set (buckets m ! calculateIndex (bucketCount m) h'). e_hash e = spread_hash (hash (e_key e))"
    and "hashKey m k = spread_hash (hash k)"
    and "e \<in># entries m \<Longrightarrow> equals (e_key e) k \<Longrightarrow>
      e \<in> set (buckets m ! calculateIndex (bucketCount m) (hashKey m k))"
proof -
  show 1: "calculateIndex (bucketCount m) h' < length (buckets m)"
    using index_bound [of "bucketCount m" h'] ok by (auto simp: hm_ok_def)
  show k: "hashKey m k = spread_hash (hash k)" for k by (simp add: hashKey_def h)
  show "\<forall>e \<in> set (buckets m ! calculateIndex (bucketCount m) h'). e_hash e = spread_hash (hash (e_key e))"
    using ok 1 k by (simp add: hm_ok_def placed_def)
  show "e \<in> set (buckets m ! calculateIndex (bucketCount m) (hashKey m k))"
    if e: "e \<in># entries m" "equals (e_key e) k"
  proof -
    obtain i where i: "i < length (buckets m)" "e \<in> set (buckets m ! i)" using e(1) entries_in_bucket by blast
    have "placed m" using ok by (simp add: hm_ok_def)
    then have "e_hash e = hashKey m (e_key e)" "calculateIndex (bucketCount m) (e_hash e) = i"
      using i unfolding placed_def by blast+
    moreover have "hashKey m (e_key e) = hashKey m k" using k equals_hash [OF e(2)] by simp
    ultimately show ?thesis using i(2) by simp
  qed
qed

lemma contents_Some:
  assumes "hm_ok m" "equals_fn m = equals"
  shows "contents m k = Some v \<longleftrightarrow> (\<exists>e. e \<in># entries m \<and> equals (e_key e) k \<and> e_value e = v)"
proof
  assume "contents m k = Some v"
  then obtain e where e: "find (\<lambda>e. equals (e_key e) k) (concat (buckets m)) = Some e" "e_value e = v"
    using assms(2) by (auto simp: contents_def)
  then have "e \<in> set (concat (buckets m))" "equals (e_key e) k" using find_Some_in by fastforce+
  then show "\<exists>e. e \<in># entries m \<and> equals (e_key e) k \<and> e_value e = v"
    using e(2) unfolding entries_def set_mset_mset by blast
next
  assume "\<exists>e. e \<in># entries m \<and> equals (e_key e) k \<and> e_value e = v"
  then obtain e where e: "e \<in># entries m" "equals (e_key e) k" "e_value e = v" by blast
  then obtain e' where f: "find (\<lambda>e. equals (e_key e) k) (concat (buckets m)) = Some e'"
    unfolding entries_def using find_None_iff by (metis option.exhaust set_mset_mset)
  then have "e' \<in> set (concat (buckets m))" "equals (e_key e') k" using find_Some_in by fastforce+
  then have "e' = e" using unique_match [of k "entries m" e' e] assms e by (simp add: hm_ok_def entries_def)
  then show "contents m k = Some v" using f e(3) assms(2) by (simp add: contents_def)
qed

lemma contents_None:
  "equals_fn m = equals \<Longrightarrow> contents m k = None \<longleftrightarrow> (\<forall>e. e \<in># entries m \<longrightarrow> \<not> equals (e_key e) k)"
  by (auto simp: contents_def find_None_iff entries_def)

lemma find_in_bucket:
  assumes "hm_ok m" "hash_fn m = hash" "equals_fn m = equals"
  shows "map_option e_value (find_entry equals k (hashKey m k)
           (buckets m ! calculateIndex (bucketCount m) (hashKey m k))) = contents m k"
proof -
  let ?i = "calculateIndex (bucketCount m) (hashKey m k)"
  note b = ok_bucket [OF assms(1,2)]
  have f: "find_entry equals k (hashKey m k) (buckets m ! ?i) = find (\<lambda>e. equals (e_key e) k) (buckets m ! ?i)"
    using b(2,3) by (intro chain_find) simp_all
  show ?thesis
  proof (cases "find (\<lambda>e. equals (e_key e) k) (buckets m ! ?i)")
    case None
    then have "\<not> equals (e_key e) k" if "e \<in># entries m" for e
      using b(4) [of e k] that by (auto simp: find_None_iff)
    then have "contents m k = None" using contents_None [OF assms(3), of k] by blast
    then show ?thesis using f None by simp
  next
    case (Some e)
    then have "e \<in> set (buckets m ! ?i)" "equals (e_key e) k" using find_Some_in by fastforce+
    then have "contents m k = Some (e_value e)"
      using contents_Some [OF assms(1,3)] entries_in_bucket b(1) by blast
    then show ?thesis using f Some by simp
  qed
qed

lemma get_spec:
  assumes "hm_ok m" "hash_fn m = hash" "equals_fn m = equals"
  shows "hashmapGet m k = (case contents m k of None \<Rightarrow> None | Some v \<Rightarrow> v)"
    and "hashmapContainsKey m k \<longleftrightarrow> contents m k \<noteq> None"
  unfolding find_in_bucket [OF assms, symmetric]
  by (simp_all add: hashmapGet_def hashmapContainsKey_def Let_def assms(3) split: option.splits)

lemma contents_cong:
  assumes "hm_ok m" "equals_fn m = equals" "hm_ok m'" "equals_fn m' = equals" "entries m' = entries m"
  shows "contents m' = contents m"
proof
  fix k
  show "contents m' k = contents m k"
  proof (cases "contents m k")
    case None
    then show ?thesis using contents_None [OF assms(2), of k] contents_None [OF assms(4), of k] assms(5) by simp
  next
    case (Some v)
    then show ?thesis using contents_Some [OF assms(1,2)] contents_Some [OF assms(3,4)] assms(5) by metis
  qed
qed

lemma ok_update:
  assumes "hm_ok m" "i < length (buckets m)"
    and "\<And>e. e \<in> set c \<Longrightarrow> e_hash e = hashKey m (e_key e) \<and> calculateIndex (bucketCount m) (e_hash e) = i"
    and "entries m + mset c = M + mset (buckets m ! i)"
    and "\<And>k. size (matching (equals_fn m) k M) \<le> 1" "unat sz = size M"
  shows "entries (m\<lparr>buckets := (buckets m)[i := c], hm_size := sz\<rparr>) = M"
    and "hm_ok (m\<lparr>buckets := (buckets m)[i := c], hm_size := sz\<rparr>)"
proof -
  let ?m = "m\<lparr>buckets := (buckets m)[i := c], hm_size := sz\<rparr>"
  show e: "entries ?m = M"
    using mset_concat_update [OF assms(2), of c] assms(4) by (simp add: entries_def)
  have "placed ?m"
    unfolding placed_def
  proof (intro allI impI ballI)
    fix j x assume *: "j < length (buckets ?m)" "x \<in> set (buckets ?m ! j)"
    have pm: "placed m" using assms(1) by (simp add: hm_ok_def)
    have k: "hashKey ?m (e_key x) = hashKey m (e_key x)" by (simp add: hashKey_def)
    have "e_hash x = hashKey m (e_key x) \<and> calculateIndex (bucketCount m) (e_hash x) = j"
    proof (cases "j = i")
      case True
      then have "x \<in> set c" using * assms(2) by simp
      then show ?thesis using assms(3) True by blast
    next
      case False
      then have "x \<in> set (buckets m ! j)" "j < length (buckets m)" using * by simp_all
      then show ?thesis using pm unfolding placed_def by blast
    qed
    then show "e_hash x = hashKey ?m (e_key x) \<and> calculateIndex (bucketCount ?m) (e_hash x) = j"
      unfolding k by (metis hashmap.ext_inject hashmap.surjective hashmap.update_convs(1,5))
  qed
  then show "hm_ok ?m" using assms(1,5,6) e by (simp add: hm_ok_def)
qed

lemma remove_spec:
  assumes ok: "hm_ok m" and h: "hash_fn m = hash" "equals_fn m = equals"
    and r: "hashmapRemove m k = (old, m')"
  shows "hm_ok m' \<and> hash_fn m' = hash \<and> equals_fn m' = equals \<and>
    old = (case contents m k of None \<Rightarrow> None | Some v \<Rightarrow> v) \<and>
    contents m' = (\<lambda>k'. if equals k k' then None else contents m k') \<and>
    unat (hm_size m') = unat (hm_size m) - (if contents m k = None then 0 else 1)"
proof -
  let ?h = "hashKey m k" and ?i = "calculateIndex (bucketCount m) (hashKey m k)"
  note b = ok_bucket [OF ok h(1)]
  have hk: "\<forall>e \<in> set (buckets m ! ?i). e_hash e = spread_hash (hash (e_key e))" using b(2) .
  show ?thesis
  proof (cases "remove_in equals k ?h (buckets m ! ?i)")
    case None
    then have n: "\<not> equals (e_key e) k" if "e \<in># entries m" for e
      using chain_none(2) [OF hk b(3)] b(4) [OF that] by blast
    then have c: "contents m k = None" using contents_None [OF h(2), of k] by blast
    have "contents m k' = None" if "equals k k'" for k'
      using n equals_cong [OF that] contents_None [OF h(2), of k'] by blast
    then have "contents m = (\<lambda>k'. if equals k k' then None else contents m k')" by auto
    then show ?thesis using r None ok h c by (simp add: hashmapRemove_def Let_def)
  next
    case (Some p)
    obtain o1 c where p: "p = (o1, c)" by (cases p)
    from chain_remove [OF hk b(3) Some [unfolded p]] obtain e where
      e: "e \<in> set (buckets m ! ?i)" "equals (e_key e) k" "o1 = e_value e" "add_mset e (mset c) = mset (buckets m ! ?i)"
      by blast
    define M where "M = entries m - {#e#}"
    have in_e: "e \<in># entries m" using e(1) b(1) entries_in_bucket by blast
    then have M: "entries m = add_mset e M" by (simp add: M_def)
    have sz: "unat (hm_size m - 1) = size M" "unat (hm_size m) = Suc (size M)"
    proof -
      show 2: "unat (hm_size m) = Suc (size M)" using ok M by (simp add: hm_ok_def)
      then have "1 \<le> hm_size m" by (simp add: word_le_nat_alt)
      then show "unat (hm_size m - 1) = size M" using 2 by (simp add: unat_sub)
    qed
    have c_in: "x \<in> set (buckets m ! ?i)" if "x \<in> set c" for x
    proof -
      have "x \<in># add_mset e (mset c)" using that by simp
      then show ?thesis unfolding e(4) by simp
    qed
    have pl: "placed m" using ok by (simp add: hm_ok_def)
    have u: "size (matching (equals_fn m) k M) \<le> 1" for k
    proof -
      have "matching (equals_fn m) k M \<subseteq># matching (equals_fn m) k (entries m)"
        unfolding matching_def M by (intro multiset_filter_mono) simp
      from size_mset_mono [OF this] show ?thesis using ok unfolding hm_ok_def by (meson le_trans)
    qed
    let ?m = "m\<lparr>buckets := (buckets m)[?i := c], hm_size := hm_size m - 1\<rparr>"
    have eq: "entries m + mset c = M + mset (buckets m ! ?i)" unfolding M e(4) [symmetric] by simp
    have place: "e_hash x = hashKey m (e_key x) \<and> calculateIndex (bucketCount m) (e_hash x) = ?i" if "x \<in> set c" for x
      using pl b(1) c_in [OF that] unfolding placed_def by blast
    note up = ok_update [OF ok b(1) place eq u sz(1)]
    have m': "m' = ?m" "old = o1" using r Some p h by (simp_all add: hashmapRemove_def Let_def)
    have "contents m k = Some o1" using contents_Some [OF ok h(2)] in_e e(2,3) by blast
    moreover have "contents m' k' = (if equals k k' then None else contents m k')" for k'
    proof (cases "equals k k'")
      case True
      have "\<not> equals (e_key x) k'" if "x \<in># M" for x
      proof
        assume "equals (e_key x) k'"
        then have x: "x \<in># matching equals k M" using that equals_cong [OF True] by (simp add: matching_def)
        have "matching equals k (entries m) = add_mset e (matching equals k M)"
          using M e(2) by (simp add: matching_def)
        moreover have "size (matching equals k (entries m)) \<le> 1" using ok h(2) by (simp add: hm_ok_def)
        ultimately have "size (matching equals k M) = 0" by simp
        then show False using x by simp
      qed
      then have "contents ?m k' = None" using contents_None [of ?m k'] up(1) h by simp
      then show ?thesis using True m' by simp
    next
      case False
      then have ne: "\<not> equals (e_key e) k'" using e(2) equals_sym equals_trans by blast
      have "contents ?m k' = Some v \<longleftrightarrow> contents m k' = Some v" for v
        using contents_Some [OF up(2), of k' v] contents_Some [OF ok h(2), of k' v] up(1) h M ne by auto
      then have "contents ?m k' = contents m k'" by (cases "contents m k'"; cases "contents ?m k'") auto
      then show ?thesis using False m' by simp
    qed
    then have "contents m' = (\<lambda>k'. if equals k k' then None else contents m k')" by blast
    ultimately show ?thesis using up(2) m' h sz by simp
  qed
qed

lemma move_entries_spec:
  assumes "0 < unat n" "length bs = unat n"
    and "\<forall>i < length bs. \<forall>e \<in> set (bs ! i). calculateIndex n (e_hash e) = i"
  shows "mset (concat (move_entries n es bs)) = mset es + mset (concat bs) \<and>
    length (move_entries n es bs) = unat n \<and>
    (\<forall>i < unat n. \<forall>e \<in> set (move_entries n es bs ! i). calculateIndex n (e_hash e) = i)"
  using assms(2,3)
proof (induction es arbitrary: bs)
  case Nil
  then show ?case by simp
next
  case (Cons e es)
  let ?i = "calculateIndex n (e_hash e)" and ?bs = "bs[calculateIndex n (e_hash e) := e # bs ! calculateIndex n (e_hash e)]"
  have i: "?i < length bs" using index_bound [OF assms(1)] Cons.prems(1) by simp
  have "\<forall>j < length ?bs. \<forall>x \<in> set (?bs ! j). calculateIndex n (e_hash x) = j"
    using Cons.prems(2) i by (auto simp: nth_list_update)
  moreover have "length ?bs = unat n" using Cons.prems(1) by simp
  ultimately have IH: "mset (concat (move_entries n es ?bs)) = mset es + mset (concat ?bs) \<and>
    length (move_entries n es ?bs) = unat n \<and>
    (\<forall>i < unat n. \<forall>e \<in> set (move_entries n es ?bs ! i). calculateIndex n (e_hash e) = i)"
    by (intro Cons.IH)
  have k: "mset (concat ?bs) = add_mset e (mset (concat bs))"
  proof -
    have "mset (concat ?bs) + mset (bs ! ?i) = mset (concat bs) + mset (e # bs ! ?i)"
      by (rule mset_concat_update [OF i])
    also have "\<dots> = add_mset e (mset (concat bs)) + mset (bs ! ?i)" by simp
    finally show ?thesis by (rule add_right_imp_eq)
  qed
  have c: "mset es + mset (concat ?bs) = mset (e # es) + mset (concat bs)" unfolding k by simp
  have eq: "move_entries n (e # es) bs = move_entries n es ?bs" by (simp add: Let_def)
  show ?case unfolding eq using IH unfolding c .
qed

lemma expand_spec:
  assumes ok: "hm_ok m"
  shows "hm_ok (expandIfNecessary t m) \<and> entries (expandIfNecessary t m) = entries m \<and>
    hash_fn (expandIfNecessary t m) = hash_fn m \<and> equals_fn (expandIfNecessary t m) = equals_fn m \<and>
    hm_size (expandIfNecessary t m) = hm_size m"
proof (cases "hm_size m > bucketCount m * 3 div 4 \<and> calloc_ok t (push_bit 1 (bucketCount m))")
  case False
  then have "expandIfNecessary t m = m" by (auto simp: expandIfNecessary_def Let_def)
  then show ?thesis using ok by simp
next
  case True
  let ?n = "push_bit 1 (bucketCount m)"
  let ?bs = "move_entries ?n (concat (buckets m)) (replicate (unat ?n) [])"
  have x: "expandIfNecessary t m = m\<lparr>buckets := ?bs, bucketCount := ?n\<rparr>"
    using True by (simp add: expandIfNecessary_def Let_def)
  obtain k where k: "k \<le> 29" "unat (bucketCount m) = 2 ^ k" using ok by (auto simp: hm_ok_def)
  have "2 ^ k \<le> (2 :: nat) ^ 29" using k(1) by (intro power_increasing) simp_all
  then have n: "unat ?n = 2 ^ Suc k" using k(2) by (simp add: push_bit_eq_mult unat_word_ariths)
  have "4 * unat ?n < addr_bound" using True by (simp add: calloc_ok_def)
  then have "(2 :: nat) ^ Suc k < 2 ^ 30" using n by simp
  then have "Suc k < 30" by (rule power_less_imp_less_exp [rotated]) simp
  then have k': "Suc k \<le> 29" by simp
  have n0: "0 < unat ?n" using n by simp
  have mv: "mset (concat ?bs) = mset (concat (buckets m)) \<and> length ?bs = unat ?n \<and>
     (\<forall>i < unat ?n. \<forall>e \<in> set (?bs ! i). calculateIndex ?n (e_hash e) = i)"
    using move_entries_spec [OF n0, of "replicate (unat ?n) []" "concat (buckets m)"] by simp
  have en: "entries (expandIfNecessary t m) = entries m" using mv by (simp add: x entries_def)
  have "e_hash e = hashKey m (e_key e)" if "e \<in># entries m" for e
    using that ok entries_in_bucket by (auto simp: hm_ok_def placed_def)
  then have hk: "e_hash e = hashKey m (e_key e)" if "e \<in> set (?bs ! i)" "i < unat ?n" for e i
    using that mv en entries_in_bucket [of e "expandIfNecessary t m"] by (auto simp: x)
  have "placed (expandIfNecessary t m)"
    unfolding placed_def x using mv hk by (auto simp: hashKey_def)
  then have "hm_ok (expandIfNecessary t m)"
    unfolding hm_ok_def
  proof (intro conjI)
    show "\<exists>n\<le>29. unat (bucketCount (expandIfNecessary t m)) = 2 ^ n"
      using k' n by (intro exI [of _ "Suc k"]) (simp add: x)
    show "length (buckets (expandIfNecessary t m)) = unat (bucketCount (expandIfNecessary t m))"
      using mv by (simp add: x)
    show "unat (hm_size (expandIfNecessary t m)) = size (entries (expandIfNecessary t m))"
      unfolding en using ok by (simp add: x hm_ok_def)
    show "\<forall>k. size (matching (equals_fn (expandIfNecessary t m)) k (entries (expandIfNecessary t m))) \<le> 1"
      unfolding en using ok by (simp add: x hm_ok_def)
  qed
  then show ?thesis using en by (simp add: x)
qed

text \<open>One entry changes: what that does to the map.\<close>

lemma contents_add:
  assumes ok: "hm_ok m" "equals_fn m = equals" "hm_ok m'" "equals_fn m' = equals"
    and e: "entries m' = add_mset e M" "equals (e_key e) k" "e_value e = v"
    and M: "\<And>x. x \<in># M \<longleftrightarrow> x \<in># entries m \<and> \<not> equals (e_key x) k"
  shows "contents m' = (\<lambda>k'. if equals k k' then Some v else contents m k')"
proof
  fix k'
  show "contents m' k' = (if equals k k' then Some v else contents m k')"
  proof (cases "equals k k'")
    case True
    then have "equals (e_key e) k'" using e(2) equals_trans by blast
    then have "contents m' k' = Some v" using contents_Some [OF ok(3,4), of k' v] e(1,3) by auto
    then show ?thesis using True by simp
  next
    case False
    then have ne: "\<not> equals (e_key e) k'" using e(2) equals_sym equals_trans by blast
    have "x \<in># M \<longleftrightarrow> x \<in># entries m" if "equals (e_key x) k'" for x
      using M [of x] False that equals_sym equals_trans by blast
    then have "contents m' k' = Some u \<longleftrightarrow> contents m k' = Some u" for u
      using contents_Some [OF ok(3,4), of k' u] contents_Some [OF ok(1,2), of k' u] e(1) ne by auto
    then have "contents m' k' = contents m k'" by (cases "contents m k'"; cases "contents m' k'") auto
    then show ?thesis using False by simp
  qed
qed

lemma unique_add:
  assumes u: "\<And>k. size (matching equals k M) \<le> 1" and n: "\<And>x. x \<in># M \<Longrightarrow> \<not> equals (e_key x) (e_key e)"
  shows "size (matching equals k (add_mset e M)) \<le> 1"
proof (cases "equals (e_key e) k")
  case True
  have em: "matching equals k M = {#}"
  proof (rule ccontr)
    assume "matching equals k M \<noteq> {#}"
    then obtain x where "x \<in># matching equals (e_key e) M"
      using matching_cong [OF True, of M] multiset_nonemptyE by metis
    then show False using n by (auto simp: matching_def)
  qed
  have "matching equals k (add_mset e M) = add_mset e (matching equals k M)"
    using True by (simp add: matching_def)
  then show ?thesis unfolding em by simp
next
  case False
  then show ?thesis using u [of k] by (simp add: matching_def)
qed

lemma append_spec:
  assumes ok: "hm_ok m" and h: "hash_fn m = hash" "equals_fn m = equals"
    and n: "\<And>x. x \<in># entries m \<Longrightarrow> \<not> equals (e_key x) k" and sz: "unat (hm_size m) + 1 < addr_bound"
    and i: "i = calculateIndex (bucketCount m) (hashKey m k)"
    and m': "m' = expandIfNecessary t (m\<lparr>buckets := (buckets m)[i := buckets m ! i @
               [\<lparr>e_key = k, e_hash = hashKey m k, e_value = v\<rparr>]], hm_size := hm_size m + 1\<rparr>)"
  shows "hm_ok m' \<and> hash_fn m' = hash \<and> equals_fn m' = equals \<and>
    contents m' = (\<lambda>k'. if equals k k' then Some v else contents m k') \<and>
    unat (hm_size m') = unat (hm_size m) + 1"
proof -
  let ?e = "\<lparr>e_key = k, e_hash = hashKey m k, e_value = v\<rparr>"
  let ?m = "m\<lparr>buckets := (buckets m)[i := buckets m ! i @ [?e]], hm_size := hm_size m + 1\<rparr>"
  have il: "i < length (buckets m)" using ok_bucket(1) [OF ok h(1)] i by simp
  have pl: "placed m" using ok by (simp add: hm_ok_def)
  have place: "e_hash x = hashKey m (e_key x) \<and> calculateIndex (bucketCount m) (e_hash x) = i"
    if "x \<in> set (buckets m ! i @ [?e])" for x
    using that pl il i unfolding placed_def by auto
  have u: "size (matching (equals_fn m) k' (add_mset ?e (entries m))) \<le> 1" for k'
    unfolding h(2) using ok h(2) n by (intro unique_add) (simp_all add: hm_ok_def)
  have s: "unat (hm_size m + 1) = size (add_mset ?e (entries m))"
    using ok sz by (simp add: hm_ok_def unat_word_ariths)
  have eq: "entries m + mset (buckets m ! i @ [?e]) = add_mset ?e (entries m) + mset (buckets m ! i)" by simp
  note up = ok_update [OF ok il place eq u s]
  note ex = expand_spec [OF up(2), of t, folded m']
  have "contents ?m = (\<lambda>k'. if equals k k' then Some v else contents m k')"
    using n h by (intro contents_add [OF ok h(2) up(2) _ up(1)]) (auto simp: equals_refl)
  moreover have "contents m' = contents ?m" using ex h by (intro contents_cong [OF up(2)]) simp_all
  moreover have "unat (hm_size m') = unat (hm_size m) + 1"
    using ex s ok by (simp add: hm_ok_def)
  ultimately show ?thesis using ex h by simp
qed

lemma replace_spec:
  assumes ok: "hm_ok m" and h: "hash_fn m = hash" "equals_fn m = equals"
    and i: "i = calculateIndex (bucketCount m) (hashKey m k)"
    and r: "replace_in equals k (hashKey m k) v (buckets m ! i) = Some (old, c)"
    and m': "m' = m\<lparr>buckets := (buckets m)[i := c]\<rparr>"
  shows "hm_ok m' \<and> hash_fn m' = hash \<and> equals_fn m' = equals \<and> contents m k = Some old \<and>
    contents m' = (\<lambda>k'. if equals k k' then Some v else contents m k') \<and> hm_size m' = hm_size m"
proof -
  note b = ok_bucket [OF ok h(1)]
  have il: "i < length (buckets m)" using b(1) i by simp
  have hk: "\<forall>e \<in> set (buckets m ! i). e_hash e = spread_hash (hash (e_key e))" using b(2) i by simp
  from chain_replace [OF hk b(3) r] obtain e where
    e: "e \<in> set (buckets m ! i)" "equals (e_key e) k" "old = e_value e"
      "add_mset e (mset c) = add_mset (e\<lparr>e_value := v\<rparr>) (mset (buckets m ! i))" by blast
  have in_e: "e \<in># entries m" using e(1) il entries_in_bucket by blast
  define M where "M = entries m - {#e#}"
  have M: "entries m = add_mset e M" using in_e by (simp add: M_def)
  let ?e = "e\<lparr>e_value := v\<rparr>"
  have pl: "placed m" using ok by (simp add: hm_ok_def)
  have place: "e_hash x = hashKey m (e_key x) \<and> calculateIndex (bucketCount m) (e_hash x) = i" if "x \<in> set c" for x
  proof -
    have "x \<in># add_mset e (mset c)" using that by simp
    then have "x = ?e \<or> x \<in> set (buckets m ! i)" unfolding e(4) by simp
    then obtain y where "y \<in> set (buckets m ! i)" "e_key x = e_key y" "e_hash x = e_hash y" using e(1) by auto
    then show ?thesis using pl il unfolding placed_def by metis
  qed
  have u: "size (matching (equals_fn m) k' (add_mset ?e M)) \<le> 1" for k'
  proof -
    have "size (matching equals k' (add_mset ?e M)) = size (matching equals k' (add_mset e M))"
      by (simp add: matching_def)
    then show ?thesis using ok M h(2) by (simp add: hm_ok_def)
  qed
  have s: "unat (hm_size m) = size (add_mset ?e M)" using ok M by (simp add: hm_ok_def)
  have eq: "entries m + mset c = add_mset ?e M + mset (buckets m ! i)"
  proof -
    have "entries m + mset c = M + add_mset e (mset c)" unfolding M by simp
    then show ?thesis unfolding e(4) by simp
  qed
  have m2: "m' = m\<lparr>buckets := (buckets m)[i := c], hm_size := hm_size m\<rparr>" by (simp add: m')
  note up = ok_update [OF ok il place eq u s, folded m2]
  have "x \<in># M \<longleftrightarrow> x \<in># entries m \<and> \<not> equals (e_key x) k" for x
  proof
    assume x: "x \<in># M"
    have "size (matching equals k (entries m)) \<le> 1" using ok h(2) by (simp add: hm_ok_def)
    then have "matching equals k M = {#}" using e(2) M by (simp add: matching_def)
    then have "x \<notin># matching equals k M" by simp
    then show "x \<in># entries m \<and> \<not> equals (e_key x) k" using x M by (auto simp: matching_def)
  next
    assume "x \<in># entries m \<and> \<not> equals (e_key x) k"
    then show "x \<in># M" using M e(2) by auto
  qed
  then have "contents m' = (\<lambda>k'. if equals k k' then Some v else contents m k')"
    using h e(2) by (intro contents_add [OF ok h(2) up(2) _ up(1)]) (simp_all add: m')
  moreover have "contents m k = Some old" using contents_Some [OF ok h(2)] in_e e(2,3) by blast
  ultimately show ?thesis using up(2) h by (simp add: m')
qed

lemma put_spec:
  assumes ok: "hm_ok m" and h: "hash_fn m = hash" "equals_fn m = equals"
    and sz: "unat (hm_size m) + 1 < addr_bound" and p: "hashmapPut eo t m k v = (old, enomem, m')"
  shows "hm_ok m' \<and> hash_fn m' = hash \<and> equals_fn m' = equals \<and>
    old = (case contents m k of None \<Rightarrow> None | Some u \<Rightarrow> u) \<and>
    (enomem \<longleftrightarrow> contents m k = None \<and> \<not> eo) \<and>
    contents m' = (if enomem then contents m else (\<lambda>k'. if equals k k' then Some v else contents m k')) \<and>
    unat (hm_size m') = unat (hm_size m) + (if contents m k = None \<and> eo then 1 else 0)"
proof -
  let ?i = "calculateIndex (bucketCount m) (hashKey m k)"
  note b = ok_bucket [OF ok h(1)]
  show ?thesis
  proof (cases "replace_in equals k (hashKey m k) v (buckets m ! ?i)")
    case (Some q)
    obtain o1 c where q: "q = (o1, c)" by (cases q)
    have m': "m' = m\<lparr>buckets := (buckets m)[?i := c]\<rparr>" "old = o1" "\<not> enomem"
      using p Some q h by (simp_all add: hashmapPut_def Let_def)
    from replace_spec [OF ok h refl Some [unfolded q] m'(1)] m'(2,3) show ?thesis by simp
  next
    case None
    then have n: "\<not> equals (e_key e) k" if "e \<in># entries m" for e
      using chain_none(1) [OF b(2) b(3)] b(4) [OF that] by blast
    then have c: "contents m k = None" using contents_None [OF h(2), of k] by blast
    show ?thesis
    proof (cases eo)
      case True
      then have m': "old = None" "\<not> enomem" "m' = expandIfNecessary t (m\<lparr>buckets := (buckets m)[?i := buckets m ! ?i @
               [\<lparr>e_key = k, e_hash = hashKey m k, e_value = v\<rparr>]], hm_size := hm_size m + 1\<rparr>)"
        using p None h by (simp_all add: hashmapPut_def Let_def createEntry_def)
      from append_spec [OF ok h n sz refl m'(3)] m'(1,2) c True show ?thesis by simp
    next
      case False
      then show ?thesis using p None h c ok by (simp add: hashmapPut_def Let_def createEntry_def)
    qed
  qed
qed

end

section \<open>Creating a table\<close>

lemma unat_two_power: "j < 32 \<Longrightarrow> unat (2 ^ j :: u32) = 2 ^ j"
proof -
  assume "j < 32"
  then have "(2 :: nat) ^ j < 2 ^ 32" by (rule power_strict_increasing) simp
  moreover have "(2 :: u32) ^ j = of_nat (2 ^ j)" by simp
  ultimately show ?thesis by (simp only: unat_of_nat) simp
qed

lemma grow_count_ends:
  assumes "unat minimum < 2 ^ 31" "k \<le> 31"
  shows "\<exists>j. j \<le> 31 \<and> grow_count (2 ^ k) minimum = Some (2 ^ j) \<and> unat minimum < 2 ^ j"
  using assms(2)
proof (induction "31 - k" arbitrary: k)
  case 0
  then have k: "k = 31" by simp
  have "\<not> (2 ^ 31 :: u32) \<le> minimum" using assms(1) by (simp add: word_le_nat_alt)
  then have "grow_count (2 ^ k) minimum = Some (2 ^ k)" using k by (subst grow_count.simps) simp
  then show ?case using assms(1) k by (intro exI [of _ 31]) simp
next
  case (Suc d)
  then have k: "k < 31" "d = 31 - Suc k" "Suc k \<le> 31" by simp_all
  have u: "unat (2 ^ k :: u32) = 2 ^ k" using k by (intro unat_two_power) simp
  show ?case
  proof (cases "(2 ^ k :: u32) \<le> minimum")
    case True
    then have "grow_count (2 ^ k) minimum = grow_count (2 ^ Suc k) minimum"
      by (subst grow_count.simps) (simp add: push_bit_eq_mult mult.commute)
    then show ?thesis using Suc.hyps(1) [OF k(2,3)] by simp
  next
    case False
    then have "grow_count (2 ^ k) minimum = Some (2 ^ k)" by (subst grow_count.simps) simp
    moreover have "unat minimum < 2 ^ k" using False u by (simp add: word_le_nat_alt)
    ultimately show ?thesis using k by (intro exI [of _ k]) simp
  qed
qed

lemma minimum_count_small: "unat (minimum_count c) < 2 ^ 31"
proof -
  have "unat (c * 4) < addr_bound" using unsigned_less [of "c * 4"] by simp
  then show ?thesis by (simp add: minimum_count_def unat_div)
qed

lemma hashmapCreate_spec:
  "\<exists>r. hashmapCreate map_ok table_ok capacity hash equals = Some r \<and>
    (case r of None \<Rightarrow> True
     | Some m \<Rightarrow> map_ok \<and> table_ok \<and> hm_ok m \<and> contents m = (\<lambda>_. None) \<and> hash_fn m = hash \<and>
         equals_fn m = equals \<and> unat (minimum_count capacity) < unat (bucketCount m))"
proof -
  obtain j where j: "j \<le> 31" "grow_count 1 (minimum_count capacity) = Some (2 ^ j)"
    "unat (minimum_count capacity) < 2 ^ j"
    using grow_count_ends [OF minimum_count_small, of 0 capacity] by auto
  have u: "unat (2 ^ j :: u32) = 2 ^ j" using j by (intro unat_two_power) simp
  show ?thesis
  proof (cases "map_ok \<and> calloc_ok table_ok (2 ^ j)")
    case False
    then show ?thesis using j(2) by (auto simp: hashmapCreate_def)
  next
    case True
    then have "(2 :: nat) ^ j < 2 ^ 30" using u by (simp add: calloc_ok_def)
    then have "j < 30" by (rule power_less_imp_less_exp [rotated]) simp
    then have "hm_ok \<lparr>buckets = replicate (unat (2 ^ j :: u32)) [], bucketCount = 2 ^ j, hash_fn = hash,
                 equals_fn = equals, hm_size = 0\<rparr>"
      using u by (auto simp: hm_ok_def placed_def matching_def entries_def concat_replicate_trivial intro: exI [of _ j])
    then show ?thesis using True j u
      by (auto simp: hashmapCreate_def contents_def calloc_ok_def concat_replicate_trivial)
  qed
qed

text \<open>HashmapCreate returns for every capacity: the loop that doubles the number of buckets
  ends although the product in the capacity may wrap, and the table is an empty map with more
  buckets than that.\<close>

theorem hashmapCreate_returns:
  "\<exists>r. hashmapCreate map_ok table_ok capacity hash equals = Some r \<and>
    (case r of None \<Rightarrow> True
     | Some m \<Rightarrow> map_ok \<and> table_ok \<and> hm_ok m \<and> contents m = (\<lambda>_. None) \<and> hash_fn m = hash \<and>
         equals_fn m = equals \<and> unat (minimum_count capacity) < unat (bucketCount m))"
  by (rule hashmapCreate_spec)

text \<open>Keys that point to integers.\<close>

interpretation int_keys: hash_keys "hashmapIntHash m" "hashmapIntEquals m" for m
  by unfold_locales (auto simp: hashmapIntHash_def hashmapIntEquals_def)

end
