(* ===== verification/StrParms.thy ===== *)
theory StrParms
  imports HashmapSpec
begin

text \<open>
  Sets of parameters "key=value;key=value" (libs/cutils/str_parms.c), a Hashmap from strings
  to strings.

  A string is its characters without the final 0.  \<open>alloc n\<close> says whether \<open>malloc\<close> and
  \<open>calloc\<close> succeed in the \<open>n\<close>-th put; \<open>strdup\<close> and \<open>strndup\<close>, whose results the code does
  not check, are taken to succeed where no argument says otherwise.  Freeing is not modelled
  but for the strings that str_parms_add_str gives up.  The float operations are left out, as
  are the log output and the test program.
\<close>

type_synonym str_parms = "(string, string) hashmap"

section \<open>Keys\<close>

definition str_eq :: "string \<Rightarrow> string \<Rightarrow> bool" where
  "str_eq a b \<longleftrightarrow> a = b"

text \<open>\<open>char\<close> is signed.\<close>

fun str_hash_loop :: "u32 \<Rightarrow> string \<Rightarrow> u32" where
  "str_hash_loop h [] = h"
| "str_hash_loop h (c # cs) = str_hash_loop ((push_bit 5 h + h) + scast (of_char c :: u8)) cs"

definition str_hash_fn :: "string \<Rightarrow> u32" where
  "str_hash_fn s = str_hash_loop 5381 s"

definition str_parms_create :: "bool \<Rightarrow> bool \<Rightarrow> bool \<Rightarrow> str_parms option option" where
  "str_parms_create ok map_ok table_ok =
     (if ok then hashmapCreate map_ok table_ok 5 str_hash_fn str_eq else Some None)"

section \<open>Removing\<close>

definition remove_pair :: "string option \<Rightarrow> string \<Rightarrow> string option \<Rightarrow> str_parms \<Rightarrow> bool \<times> str_parms" where
  "remove_pair ctxt_key key val m =
     (case ctxt_key of
        None \<Rightarrow> (True, snd (hashmapRemove m key))
      | Some k \<Rightarrow> if k = key then (False, snd (hashmapRemove m key)) else (True, m))"

definition str_parms_del :: "string \<Rightarrow> str_parms \<Rightarrow> str_parms" where
  "str_parms_del key m = hashmapForEach (\<lambda>m. m) (remove_pair (Some key)) m"

text \<open>The map as hashmapFree finds it.\<close>

definition str_parms_destroy :: "str_parms \<Rightarrow> str_parms" where
  "str_parms_destroy m = hashmapForEach (\<lambda>m. m) (remove_pair None) m"

section \<open>Parsing\<close>

text \<open>\<open>strtok_r(s, ";", &rest)\<close>: the token and the rest.\<close>

definition strtok :: "string \<Rightarrow> (string \<times> string) option" where
  "strtok s =
     (let s = dropWhile (\<lambda>c. c = CHR '';'') s in
      if s = [] then None
      else Some (takeWhile (\<lambda>c. c \<noteq> CHR '';'') s, tl (dropWhile (\<lambda>c. c \<noteq> CHR '';'') s)))"

lemma strtok_shorter: "strtok s = Some (t, rest) \<Longrightarrow> length rest < length s"
proof -
  assume "strtok s = Some (t, rest)"
  then have s: "dropWhile (\<lambda>c. c = CHR '';'') s \<noteq> []"
    and r: "rest = tl (dropWhile (\<lambda>c. c \<noteq> CHR '';'') (dropWhile (\<lambda>c. c = CHR '';'') s))"
    by (auto simp: strtok_def Let_def split: if_splits)
  have "length (dropWhile P xs) \<le> length xs" for P and xs :: string by (rule length_dropWhile_le)
  then have "length rest \<le> length (dropWhile (\<lambda>c. c = CHR '';'') s) - 1"
    unfolding r by (simp add: diff_le_mono)
  moreover have "length (dropWhile (\<lambda>c. c = CHR '';'') s) \<le> length s" by (rule length_dropWhile_le)
  moreover have "0 < length (dropWhile (\<lambda>c. c = CHR '';'') s)" using s by simp
  ultimately show ?thesis by linarith
qed

text \<open>The key and the value of a token, None when it starts with an equals sign.\<close>

definition split_pair :: "string \<Rightarrow> (string \<times> string) option" where
  "split_pair kvpair =
     (if CHR ''='' \<in> set kvpair
      then if takeWhile (\<lambda>c. c \<noteq> CHR ''='') kvpair = [] then None
           else Some (takeWhile (\<lambda>c. c \<noteq> CHR ''='') kvpair, tl (dropWhile (\<lambda>c. c \<noteq> CHR ''='') kvpair))
      else Some (kvpair, []))"

function parse_pairs :: "(nat \<Rightarrow> bool \<times> bool) \<Rightarrow> nat \<Rightarrow> string \<Rightarrow> str_parms \<Rightarrow> str_parms" where
  "parse_pairs alloc n s m =
     (case strtok s of
        None \<Rightarrow> m
      | Some (kvpair, rest) \<Rightarrow>
          (case split_pair kvpair of
             None \<Rightarrow> parse_pairs alloc n rest m
           | Some (k, v) \<Rightarrow>
               (case hashmapPut (fst (alloc n)) (snd (alloc n)) m k (Some v) of
                  (_, _, m) \<Rightarrow> parse_pairs alloc (n + 1) rest m)))"
  by pat_completeness auto
termination
  by (relation "measure (\<lambda>(alloc, n, s, m). length s)") (auto dest: strtok_shorter)

declare parse_pairs.simps [simp del]

definition str_parms_create_str ::
    "bool \<Rightarrow> bool \<Rightarrow> bool \<Rightarrow> bool \<Rightarrow> (nat \<Rightarrow> bool \<times> bool) \<Rightarrow> string \<Rightarrow> str_parms option option" where
  "str_parms_create_str ok map_ok table_ok dup_ok alloc s =
     (case str_parms_create ok map_ok table_ok of
        None \<Rightarrow> None
      | Some None \<Rightarrow> Some None
      | Some (Some m) \<Rightarrow> Some (if dup_ok then Some (parse_pairs alloc 0 s m) else None))"

section \<open>Adding\<close>

text \<open>
  The result, whether the new copies of the key and the value are freed, whether \<open>errno\<close> is
  ENOMEM afterwards, and the map.
\<close>

definition str_parms_add_str ::
    "bool \<Rightarrow> bool \<Rightarrow> bool \<Rightarrow> string \<Rightarrow> string \<Rightarrow> str_parms \<Rightarrow> int \<times> bool \<times> bool \<times> str_parms" where
  "str_parms_add_str entry_ok table_ok errno_nomem key val m =
     (let (old_val, nomem, m) = hashmapPut entry_ok table_ok m key (Some val);
          errno_nomem = errno_nomem \<or> nomem
      in if old_val \<noteq> None then (0, False, errno_nomem, m)
         else if errno_nomem then (- ENOMEM, True, errno_nomem, m)
         else (0, False, errno_nomem, m))"

definition digit_char :: "nat \<Rightarrow> char" where
  "digit_char d = char_of (48 + d)"

fun decimal :: "nat \<Rightarrow> string" where
  "decimal n = (if n < 10 then [digit_char n] else decimal (n div 10) @ [digit_char (n mod 10)])"

declare decimal.simps [simp del]

text \<open>\<open>snprintf(val_str, n, "%d", v)\<close>: the characters that fit in front of the 0.\<close>

definition format_int :: "nat \<Rightarrow> int \<Rightarrow> string" where
  "format_int n v = take (n - 1) ((if v < 0 then ''-'' else []) @ decimal (nat \<bar>v\<bar>))"

definition str_parms_add_int ::
    "bool \<Rightarrow> bool \<Rightarrow> bool \<Rightarrow> string \<Rightarrow> u32 \<Rightarrow> str_parms \<Rightarrow> int \<times> bool \<times> bool \<times> str_parms" where
  "str_parms_add_int entry_ok table_ok errno_nomem key val m =
     str_parms_add_str entry_ok table_ok errno_nomem key (format_int 12 (sint val)) m"

section \<open>Getting\<close>

text \<open>\<open>strlcpy\<close> to a buffer of \<open>len\<close> bytes: the length of the source, and what is stored.\<close>

definition strlcpy :: "string \<Rightarrow> nat \<Rightarrow> int \<times> string option" where
  "strlcpy src len = (int (length src), if len = 0 then None else Some (take (len - 1) src))"

definition str_parms_get_str :: "str_parms \<Rightarrow> string \<Rightarrow> u32 \<Rightarrow> int \<times> string option" where
  "str_parms_get_str m key len =
     (case hashmapGet m key of None \<Rightarrow> (- ENOENT, None) | Some v \<Rightarrow> strlcpy v (unat len))"

text \<open>\<open>strtol(s, &end, 0)\<close>: the value and the characters from \<open>end\<close> on.\<close>

definition digit_of :: "char \<Rightarrow> nat" where
  "digit_of c =
     (let n = of_char c :: nat in
      if 48 \<le> n \<and> n \<le> 57 then n - 48
      else if 97 \<le> n \<and> n \<le> 122 then n - 87
      else if 65 \<le> n \<and> n \<le> 90 then n - 55 else 36)"

fun read_digits :: "nat \<Rightarrow> nat \<Rightarrow> string \<Rightarrow> nat \<times> string" where
  "read_digits base n [] = (n, [])"
| "read_digits base n (c # cs) =
     (if digit_of c < base then read_digits base (base * n + digit_of c) cs else (n, c # cs))"

definition is_space :: "char \<Rightarrow> bool" where
  "is_space c \<longleftrightarrow> of_char c \<in> {32 :: nat, 9, 10, 11, 12, 13}"

definition clamp_long :: "int \<Rightarrow> int" where
  "clamp_long v = max (- (2 ^ 31)) (min (2 ^ 31 - 1) v)"

definition strtol :: "string \<Rightarrow> int \<times> string" where
  "strtol s =
     (let t = dropWhile is_space s;
          neg = (t \<noteq> [] \<and> hd t = CHR ''-'');
          t = (if t \<noteq> [] \<and> (hd t = CHR ''-'' \<or> hd t = CHR ''+'') then tl t else t)
      in if take 2 t = ''0x'' \<or> take 2 t = ''0X''
         then (if drop 2 t \<noteq> [] \<and> digit_of (t ! 2) < 16
               then (let (n, rest) = read_digits 16 0 (drop 2 t) in (clamp_long (if neg then - int n else int n), rest))
               else (0, tl t))
         else if t = [] \<or> digit_of (hd t) \<ge> 10 then (0, s)
         else (let (n, rest) = read_digits (if hd t = CHR ''0'' then 8 else 10) 0 t
               in (clamp_long (if neg then - int n else int n), rest)))"

text \<open>The result and what is stored in \<open>*val\<close>.\<close>

definition str_parms_get_int :: "str_parms \<Rightarrow> string \<Rightarrow> int \<times> u32 option" where
  "str_parms_get_int m key =
     (case hashmapGet m key of
        None \<Rightarrow> (- ENOENT, None)
      | Some v \<Rightarrow>
          (let (n, rest) = strtol v in
           (if v \<noteq> [] \<and> rest = [] then 0 else - EINVAL, Some (of_int n))))"

section \<open>Printing\<close>

text \<open>\<open>asprintf_ok\<close> is whether \<open>asprintf\<close> succeeds, by the length of its result.\<close>

definition combine_strings ::
    "(nat \<Rightarrow> bool) \<Rightarrow> string \<Rightarrow> string option \<Rightarrow> str_parms \<times> string option \<Rightarrow> bool \<times> str_parms \<times> string option" where
  "combine_strings asprintf_ok key val ctx =
     (case ctx of (m, old_str) \<Rightarrow>
        let new_str = (case old_str of None \<Rightarrow> [] | Some s \<Rightarrow> s @ '';'') @ key @ ''='' @
              (case val of None \<Rightarrow> ''(null)'' | Some v \<Rightarrow> v)
        in if asprintf_ok (length new_str) then (True, m, Some new_str) else (False, m, None))"

definition str_parms_to_str :: "(nat \<Rightarrow> bool) \<Rightarrow> str_parms \<Rightarrow> string option" where
  "str_parms_to_str asprintf_ok m =
     (if hashmapSize m > 0 then snd (hashmapForEach fst (combine_strings asprintf_ok) (m, None)) else Some [])"

end
