(* ===== verification/StrParmsSpec.thy ===== *)
theory StrParmsSpec
  imports StrParms
begin

text \<open>
  What libs/cutils/hashmap.c and str_parms.c promise: the table implements a map from strings
  to strings; parsing equals a reference definition that splits the string at once; a set of
  parameters survives printing and parsing, an integer survives adding and getting.
\<close>

interpretation str_keys: hash_keys str_hash_fn str_eq
  by unfold_locales (simp_all add: str_eq_def)

definition sp_ok :: "str_parms \<Rightarrow> bool" where
  "sp_ok m \<longleftrightarrow> hm_ok m \<and> hash_fn m = str_hash_fn \<and> equals_fn m = str_eq"

section \<open>The map\<close>

definition value_of :: "'v option option \<Rightarrow> 'v option" where
  "value_of c = (case c of None \<Rightarrow> None | Some v \<Rightarrow> v)"

lemma value_of_simps [simp]: "value_of None = None" "value_of (Some v) = v"
  by (simp_all add: value_of_def)

lemma sp_get: "sp_ok m \<Longrightarrow> hashmapGet m k = value_of (contents m k)"
  using str_keys.get_spec(1) [of m k] by (simp add: sp_ok_def value_of_def)

lemma sp_remove:
  assumes "sp_ok m" "hashmapRemove m k = (old, m')"
  shows "sp_ok m' \<and> old = value_of (contents m k) \<and> contents m' = (contents m)(k := None) \<and>
    unat (hm_size m') = unat (hm_size m) - (if contents m k = None then 0 else 1)"
proof -
  have h: "hm_ok m" "hash_fn m = str_hash_fn" "equals_fn m = str_eq" using assms(1) by (simp_all add: sp_ok_def)
  have "(\<lambda>k'. if str_eq k k' then None else contents m k') = (contents m)(k := None)" by (auto simp: str_eq_def)
  with str_keys.remove_spec [OF h assms(2)] show ?thesis by (simp add: sp_ok_def value_of_def)
qed

lemma sp_put:
  assumes "sp_ok m" "unat (hm_size m) + 1 < addr_bound" "hashmapPut eo t m k v = (old, nomem, m')"
  shows "sp_ok m' \<and> old = value_of (contents m k) \<and> (nomem \<longleftrightarrow> contents m k = None \<and> \<not> eo) \<and>
    contents m' = (if nomem then contents m else (contents m)(k \<mapsto> v)) \<and>
    unat (hm_size m') = unat (hm_size m) + (if contents m k = None \<and> eo then 1 else 0)"
proof -
  have h: "hm_ok m" "hash_fn m = str_hash_fn" "equals_fn m = str_eq" using assms(1) by (simp_all add: sp_ok_def)
  have "(\<lambda>k'. if str_eq k k' then Some v else contents m k') = (contents m)(k \<mapsto> v)" by (auto simp: str_eq_def)
  with str_keys.put_spec [OF h assms(2,3)] show ?thesis by (simp add: sp_ok_def value_of_def)
qed

text \<open>C22: The hash map with the keys of str_parms refines a map: whatever the chains and the
  growth of the table, put stores under a key and returns the old value, or fails without a
  change when memory is short, remove takes the key away and get gives the value of the map.\<close>

theorem hashmap_refines_map:
  assumes "sp_ok m" "unat (hashmapSize m) + 1 < addr_bound"
  shows "\<exists>old nomem m1 old2 m2. hashmapPut entry_ok table_ok m k v = (old, nomem, m1) \<and>
    hashmapRemove m k = (old2, m2) \<and> hashmapGet m k = value_of (contents m k) \<and>
    old = value_of (contents m k) \<and> old2 = value_of (contents m k) \<and>
    nomem = (contents m k = None \<and> \<not> entry_ok) \<and> sp_ok m1 \<and> sp_ok m2 \<and>
    contents m1 = (if nomem then contents m else (contents m)(k \<mapsto> v)) \<and>
    contents m2 = (contents m)(k := None)"
proof -
  obtain old nomem m1 where p: "hashmapPut entry_ok table_ok m k v = (old, nomem, m1)" by (metis prod_cases3)
  obtain old2 m2 where r: "hashmapRemove m k = (old2, m2)" by (metis surj_pair)
  have sz: "unat (hm_size m) + 1 < addr_bound" using assms(2) by (simp add: hashmapSize_def)
  show ?thesis using sp_put [OF assms(1) sz p] sp_remove [OF assms(1) r] sp_get [OF assms(1), of k] p r by auto
qed

definition empty_parms :: str_parms where
  "empty_parms = the (the (str_parms_create True True True))"

lemma create_parms:
  "\<exists>m. str_parms_create True True True = Some (Some m) \<and> sp_ok m \<and> contents m = (\<lambda>_. None) \<and> hm_size m = 0"
proof -
  have g: "grow_count 1 6 = Some 8"
    by (simp add: grow_count.simps [of 1] grow_count.simps [of 2] grow_count.simps [of 4] grow_count.simps [of 8]
        push_bit_eq_mult)
  have m: "minimum_count 5 = 6" by (simp add: minimum_count_def)
  obtain r :: "str_parms option" where r: "hashmapCreate True True 5 str_hash_fn str_eq = Some r"
    "case r of None \<Rightarrow> True
     | Some m \<Rightarrow> True \<and> True \<and> hm_ok m \<and> contents m = (\<lambda>_. None) \<and> hash_fn m = str_hash_fn \<and>
         equals_fn m = str_eq \<and> unat (minimum_count 5) < unat (bucketCount m)"
    using hashmapCreate_spec [of True True 5 str_hash_fn str_eq] by (elim exE conjE) (rule that)
  moreover have "(hashmapCreate True True 5 str_hash_fn str_eq :: str_parms option option) =
    Some (Some \<lparr>buckets = replicate 8 [], bucketCount = 8, hash_fn = str_hash_fn, equals_fn = str_eq, hm_size = 0\<rparr>)"
    by (simp add: hashmapCreate_def m g calloc_ok_def)
  ultimately show ?thesis by (auto simp: str_parms_create_def sp_ok_def)
qed

lemma empty_parms: "sp_ok empty_parms" "contents empty_parms = (\<lambda>_. None)" "hm_size empty_parms = 0"
  "str_parms_create True True True = Some (Some empty_parms)"
  using create_parms by (auto simp: empty_parms_def)

lemma hashmap_refines_map_witness:
  "\<exists>old nomem m1. hashmapPut True True empty_parms ''a'' (Some ''b'') = (old, nomem, m1) \<and>
    contents m1 ''a'' = Some (Some ''b'')"
  using hashmap_refines_map [of empty_parms True True "''a''" "Some ''b''"] empty_parms
  by (auto simp: hashmapSize_def)

section \<open>Parsing\<close>

text \<open>The string cut at every semicolon, and the pairs in it.\<close>

fun fields :: "string \<Rightarrow> string list" where
  "fields [] = [[]]"
| "fields (c # cs) = (if c = CHR '';'' then [] # fields cs else (c # hd (fields cs)) # tl (fields cs))"

definition pairs_of :: "string list \<Rightarrow> (string \<times> string) list" where
  "pairs_of ts = List.map_filter split_pair (filter (\<lambda>t. t \<noteq> []) ts)"

definition pairs :: "string \<Rightarrow> (string \<times> string) list" where
  "pairs s = pairs_of (fields s)"

lemma fields_not_empty [simp]: "fields s \<noteq> []"
  by (cases s) auto

lemma fields_first: "CHR '';'' \<notin> set s \<Longrightarrow> fields s = [s]"
  by (induction s) auto

lemma fields_append: "CHR '';'' \<notin> set s \<Longrightarrow> fields (s @ CHR '';'' # t) = s # fields t"
  by (induction s) auto

lemma fields_dropWhile:
  "filter (\<lambda>t. t \<noteq> []) (fields (dropWhile (\<lambda>c. c = CHR '';'') s)) = filter (\<lambda>t. t \<noteq> []) (fields s)"
  by (induction s) auto

lemma fields_takeWhile:
  "fields u = takeWhile (\<lambda>c. c \<noteq> CHR '';'') u #
     (if dropWhile (\<lambda>c. c \<noteq> CHR '';'') u = [] then []
      else fields (tl (dropWhile (\<lambda>c. c \<noteq> CHR '';'') u)))"
  by (induction u) auto

lemma strtok_fields:
  "filter (\<lambda>t. t \<noteq> []) (fields s) =
     (case strtok s of None \<Rightarrow> [] | Some (t, rest) \<Rightarrow> t # filter (\<lambda>t. t \<noteq> []) (fields rest))"
proof -
  define u where "u = dropWhile (\<lambda>c. c = CHR '';'') s"
  have st: "strtok s = (if u = [] then None
      else Some (takeWhile (\<lambda>c. c \<noteq> CHR '';'') u, tl (dropWhile (\<lambda>c. c \<noteq> CHR '';'') u)))"
    by (simp add: strtok_def Let_def u_def)
  have f: "filter (\<lambda>t. t \<noteq> []) (fields s) = filter (\<lambda>t. t \<noteq> []) (fields u)"
    using fields_dropWhile [of s] by (simp add: u_def)
  show ?thesis
  proof (cases u)
    case Nil
    then show ?thesis using st f by simp
  next
    case (Cons c cs)
    then have "c \<noteq> CHR '';''" using hd_dropWhile [of "\<lambda>c. c = CHR '';''" s] by (simp add: u_def)
    then have ne: "takeWhile (\<lambda>c. c \<noteq> CHR '';'') u \<noteq> []" using Cons by simp
    show ?thesis
    proof (cases "dropWhile (\<lambda>c. c \<noteq> CHR '';'') u")
      case n: Nil
      show ?thesis unfolding f st fields_takeWhile [of u] n using Cons ne by simp
    next
      case c: (Cons d r)
      show ?thesis unfolding f st fields_takeWhile [of u] c using Cons ne by simp
    qed
  qed
qed

lemma pairs_strtok:
  "pairs s = (case strtok s of None \<Rightarrow> [] | Some (t, rest) \<Rightarrow>
     (case split_pair t of None \<Rightarrow> pairs rest | Some p \<Rightarrow> p # pairs rest))"
  unfolding pairs_def pairs_of_def strtok_fields [of s]
  by (auto simp: map_filter_simps split: option.splits)

definition store_pairs :: "(string \<times> string) list \<Rightarrow> (string \<Rightarrow> string option option) \<Rightarrow> string \<Rightarrow> string option option" where
  "store_pairs ps f = fold (\<lambda>(k, v) f. f(k \<mapsto> Some v)) ps f"

lemma store_pairs_eq: "store_pairs ps f k = (case map_of (rev ps) k of None \<Rightarrow> f k | Some v \<Rightarrow> Some (Some v))"
  by (induction ps arbitrary: f) (auto simp: store_pairs_def map_add_def split: option.splits)

lemma parse_pairs_spec:
  assumes "\<And>n. fst (alloc n)" "sp_ok m" "unat (hm_size m) + length s + 1 < addr_bound"
  shows "sp_ok (parse_pairs alloc n s m) \<and> contents (parse_pairs alloc n s m) = store_pairs (pairs s) (contents m)"
  using assms(2,3)
proof (induction "length s" arbitrary: n s m rule: less_induct)
  case less
  show ?case
  proof (cases "strtok s")
    case None
    then show ?thesis using less.prems pairs_strtok [of s] by (simp add: parse_pairs.simps store_pairs_def)
  next
    case (Some p)
    obtain t rest where p: "strtok s = Some (t, rest)" using Some by (cases p) auto
    have l: "length rest < length s" using strtok_shorter [OF p] .
    show ?thesis
    proof (cases "split_pair t")
      case None
      then show ?thesis using p less.hyps [OF l less.prems(1), of n] less.prems(2) l pairs_strtok [of s]
        by (simp add: parse_pairs.simps [of alloc n s])
    next
      case (Some kv)
      obtain k v where kv: "kv = (k, v)" by (cases kv)
      obtain old nomem m1 where q: "hashmapPut (fst (alloc n)) (snd (alloc n)) m k (Some v) = (old, nomem, m1)"
        by (metis prod_cases3)
      have m1: "sp_ok m1" "contents m1 = (contents m)(k \<mapsto> Some v)" "unat (hm_size m1) \<le> unat (hm_size m) + 1"
        using sp_put [OF less.prems(1) _ q] less.prems(2) assms(1) [of n] by auto
      have "unat (hm_size m1) + length rest + 1 < addr_bound" using m1(3) l less.prems(2) by simp
      from less.hyps [OF l m1(1) this, of "n + 1"] show ?thesis
        using p Some kv q m1(2) pairs_strtok [of s]
        by (simp add: parse_pairs.simps [of alloc n s] store_pairs_def)
    qed
  qed
qed

text \<open>C23: Parsing a string with the loop of strtok, strchr and puts gives exactly the parameters
  of a reference definition that cuts the string at every semicolon and lets the last pair with
  a key win.\<close>

theorem parse_equals_reference:
  assumes "\<And>n. fst (alloc n)" "length s + 1 < addr_bound"
  shows "\<exists>m. str_parms_create_str True True True True alloc s = Some (Some m) \<and>
    (\<forall>k. hashmapGet m k = map_of (rev (pairs s)) k)"
proof -
  note e = empty_parms
  have r: "sp_ok (parse_pairs alloc 0 s empty_parms)"
    "contents (parse_pairs alloc 0 s empty_parms) = store_pairs (pairs s) (contents empty_parms)"
    using parse_pairs_spec [of alloc empty_parms s 0, OF assms(1) e(1)] assms(2) e(3) by simp_all
  have "hashmapGet (parse_pairs alloc 0 s empty_parms) k = map_of (rev (pairs s)) k" for k
    using sp_get [OF r(1), of k] r(2) e(2) by (simp add: store_pairs_eq split: option.splits)
  then show ?thesis using e(4) by (simp add: str_parms_create_str_def)
qed

lemma parse_equals_reference_witness:
  "\<exists>m. str_parms_create_str True True True True (\<lambda>_. (True, True)) ''a=b;c;=d;;a=e'' = Some (Some m) \<and>
    hashmapGet m ''a'' = Some ''e'' \<and> hashmapGet m ''c'' = Some [] \<and> hashmapGet m ''d'' = None"
proof -
  have "pairs ''a=b;c;=d;;a=e'' = [(''a'', ''b''), (''c'', []), (''a'', ''e'')]"
    by (simp add: pairs_def pairs_of_def split_pair_def map_filter_simps)
  then show ?thesis using parse_equals_reference [of "\<lambda>_. (True, True)" "''a=b;c;=d;;a=e''"] by auto
qed

section \<open>Printing\<close>

definition pair_str :: "(string, string) entry \<Rightarrow> string" where
  "pair_str e = e_key e @ ''='' @ the (e_value e)"

definition add_pair :: "(string, string) entry \<Rightarrow> string option \<Rightarrow> string option" where
  "add_pair e old = Some ((case old of None \<Rightarrow> [] | Some s \<Rightarrow> s @ '';'') @ pair_str e)"

lemma chain_loop_combine:
  "\<forall>e \<in> set es. e_value e \<noteq> None \<Longrightarrow>
   chain_loop (combine_strings (\<lambda>_. True)) es (m, acc) = (True, m, fold add_pair es acc)"
  by (induction es arbitrary: acc) (auto simp: combine_strings_def add_pair_def pair_str_def Let_def split: option.splits)

lemma each_bucket_combine:
  assumes "\<forall>e \<in> set (concat (buckets m)). e_value e \<noteq> None" "i + n = length (buckets m)"
  shows "each_bucket fst (combine_strings (\<lambda>_. True)) i n (m, acc) =
    (m, fold add_pair (concat (drop i (buckets m))) acc)"
  using assms(2)
proof (induction n arbitrary: i acc)
  case (Suc n)
  then have i: "i < length (buckets m)" by simp
  then have d: "drop i (buckets m) = buckets m ! i # drop (Suc i) (buckets m)" by (rule Cons_nth_drop_Suc [symmetric])
  have "\<forall>e \<in> set (buckets m ! i). e_value e \<noteq> None" using assms(1) nth_mem [OF i] by auto
  then show ?case using Suc by (simp add: chain_loop_combine d)
qed simp

lemma fold_add_pair:
  "fold add_pair es (Some s) = Some (s @ concat (map (\<lambda>e. CHR '';'' # pair_str e) es))"
  by (induction es arbitrary: s) (auto simp: add_pair_def)

lemma fields_pairs:
  assumes "\<forall>e \<in> set (e # es). CHR '';'' \<notin> set (pair_str e)"
  shows "fields (pair_str e @ concat (map (\<lambda>e. CHR '';'' # pair_str e) es)) = map pair_str (e # es)"
  using assms
proof (induction es arbitrary: e)
  case Nil
  then show ?case by (simp add: fields_first)
next
  case (Cons x es)
  then show ?case using Cons.IH [of x] by (simp add: fields_append)
qed

definition clean_pair :: "string \<Rightarrow> string option \<Rightarrow> bool" where
  "clean_pair k v \<longleftrightarrow> CHR ''='' \<notin> set k \<and> CHR '';'' \<notin> set k \<and>
     (\<exists>u. v = Some u \<and> CHR '';'' \<notin> set u)"

lemma split_pair_str:
  "clean_pair (e_key e) (e_value e) \<Longrightarrow> split_pair (pair_str e) =
     (if e_key e = [] then None else Some (e_key e, the (e_value e)))"
proof -
  assume c: "clean_pair (e_key e) (e_value e)"
  have "takeWhile (\<lambda>c. c \<noteq> CHR ''='') (k @ CHR ''='' # v) = k \<and>
        dropWhile (\<lambda>c. c \<noteq> CHR ''='') (k @ CHR ''='' # v) = CHR ''='' # v"
    if "CHR ''='' \<notin> set k" for k v
    using that by (induction k) auto
  then show ?thesis using c by (simp add: split_pair_def pair_str_def clean_pair_def)
qed

lemma pairs_of_entries:
  assumes "\<forall>e \<in> set es. clean_pair (e_key e) (e_value e)"
  shows "pairs_of (map pair_str es) = map (\<lambda>e. (e_key e, the (e_value e))) (filter (\<lambda>e. e_key e \<noteq> []) es)"
  using assms
proof (induction es)
  case (Cons e es)
  have "pair_str e \<noteq> []" by (simp add: pair_str_def)
  then show ?case using Cons split_pair_str [of e] by (simp add: pairs_of_def map_filter_simps)
qed (simp add: pairs_of_def map_filter_simps)

lemma distinct_keys:
  assumes "\<And>k. size (filter_mset (\<lambda>e. e_key e = k) (mset es)) \<le> 1"
  shows "distinct (map e_key es)"
  using assms
proof (induction es)
  case (Cons e es)
  have "size (filter_mset (\<lambda>x. e_key x = e_key e) (mset es)) = 0"
    using Cons.prems [of "e_key e"] by simp
  then have "filter (\<lambda>x. e_key x = e_key e) es = []" by (simp flip: mset_filter)
  then have "e_key e \<notin> e_key ` set es" by (auto simp: filter_empty_conv)
  moreover have "size (filter_mset (\<lambda>e. e_key e = k) (mset es)) \<le> 1" for k
  proof -
    have "filter_mset (\<lambda>e. e_key e = k) (mset es) \<subseteq># filter_mset (\<lambda>e. e_key e = k) (mset (e # es))"
      by (intro multiset_filter_mono) simp
    from size_mset_mono [OF this] show ?thesis using Cons.prems [of k] by (rule le_trans)
  qed
  ultimately show ?case using Cons.IH by simp
qed simp

lemma sp_entries:
  assumes "sp_ok m"
  shows "distinct (map e_key (concat (buckets m)))"
    and "e \<in> set (concat (buckets m)) \<Longrightarrow> contents m (e_key e) = Some (e_value e)"
    and "contents m k = Some v \<Longrightarrow> \<exists>e. e \<in> set (concat (buckets m)) \<and> e_key e = k \<and> e_value e = v"
proof -
  have h: "hm_ok m" "equals_fn m = str_eq" using assms by (simp_all add: sp_ok_def)
  show "distinct (map e_key (concat (buckets m)))"
    using h by (intro distinct_keys) (simp add: hm_ok_def matching_def entries_def str_eq_def)
  note c = str_keys.contents_Some [OF h, unfolded entries_def str_eq_def set_mset_mset]
  show "e \<in> set (concat (buckets m)) \<Longrightarrow> contents m (e_key e) = Some (e_value e)" using c by blast
  show "contents m k = Some v \<Longrightarrow> \<exists>e. e \<in> set (concat (buckets m)) \<and> e_key e = k \<and> e_value e = v"
    using c by blast
qed

lemma to_str_pairs:
  assumes ok: "sp_ok m" and clean: "\<And>k v. contents m k = Some v \<Longrightarrow> clean_pair k v"
  shows "\<exists>s. str_parms_to_str (\<lambda>_. True) m = Some s \<and>
    pairs s = map (\<lambda>e. (e_key e, the (e_value e))) (filter (\<lambda>e. e_key e \<noteq> []) (concat (buckets m)))"
proof -
  let ?es = "concat (buckets m)"
  have c: "\<forall>e \<in> set ?es. clean_pair (e_key e) (e_value e)" using clean sp_entries(2) [OF ok] by blast
  have len: "unat (bucketCount m) = length (buckets m)" "unat (hm_size m) = length ?es"
    using ok by (simp_all add: sp_ok_def hm_ok_def entries_def)
  have "\<forall>e \<in> set ?es. e_value e \<noteq> None" using c by (auto simp: clean_pair_def)
  then have f: "hashmapForEach fst (combine_strings (\<lambda>_. True)) (m, None) = (m, fold add_pair ?es None)"
    using each_bucket_combine [of m 0 "length (buckets m)" None] len(1) by (simp add: hashmapForEach_def)
  show ?thesis
  proof (cases ?es)
    case Nil
    have "unat (hm_size m) = 0" unfolding len(2) Nil by simp
    then have "hm_size m = 0" by (simp add: unat_eq_zero)
    then show ?thesis unfolding Nil by (simp add: str_parms_to_str_def hashmapSize_def pairs_def pairs_of_def map_filter_simps)
  next
    case (Cons e es)
    let ?s = "pair_str e @ concat (map (\<lambda>e. CHR '';'' # pair_str e) es)"
    have "0 < unat (hm_size m)" using len(2) Cons by simp
    then have "0 < hm_size m" by (simp add: word_less_nat_alt)
    moreover have "fold add_pair ?es None = Some ?s" unfolding Cons by (simp add: add_pair_def fold_add_pair)
    moreover have "fields ?s = map pair_str (e # es)"
      using c unfolding Cons by (intro fields_pairs) (auto simp: clean_pair_def pair_str_def)
    moreover have "pairs_of (map pair_str (e # es)) =
        map (\<lambda>e. (e_key e, the (e_value e))) (filter (\<lambda>e. e_key e \<noteq> []) (e # es))"
      using c unfolding Cons by (rule pairs_of_entries)
    ultimately show ?thesis using f unfolding Cons by (simp add: str_parms_to_str_def hashmapSize_def pairs_def)
  qed
qed

text \<open>C24: A set of parameters whose keys hold no \<open>=\<close> and no \<open>;\<close> and whose values hold no \<open>;\<close>
  is the same set after printing and parsing it, but for a parameter with the empty key, which
  is printed and then dropped.\<close>

theorem print_parse_roundtrip:
  assumes "sp_ok m" "\<And>k v. contents m k = Some v \<Longrightarrow> clean_pair k v" "\<And>n. fst (alloc n)"
    and "str_parms_to_str (\<lambda>_. True) m = Some s" "length s + 1 < addr_bound"
  shows "\<exists>m'. str_parms_create_str True True True True alloc s = Some (Some m') \<and>
    (\<forall>k. hashmapGet m' k = (if k = [] then None else hashmapGet m k))"
proof -
  note e = empty_parms
  let ?es = "filter (\<lambda>e. e_key e \<noteq> []) (concat (buckets m))" and ?m = "parse_pairs alloc 0 s empty_parms"
  have p: "pairs s = map (\<lambda>e. (e_key e, the (e_value e))) ?es"
    using to_str_pairs [OF assms(1,2)] assms(4) by auto
  have "distinct (map e_key ?es)" using sp_entries(1) [OF assms(1)] by (rule distinct_map_filter)
  then have d: "distinct (map fst (rev (pairs s)))" by (simp add: p rev_map [symmetric] comp_def)
  have r: "sp_ok ?m" "contents ?m = store_pairs (pairs s) (contents empty_parms)"
    using parse_pairs_spec [of alloc empty_parms s 0, OF assms(3) e(1)] assms(5) e(3) by simp_all
  have "hashmapGet ?m k = (if k = [] then None else hashmapGet m k)" for k
  proof (cases "k = [] \<or> contents m k = None")
    case True
    then have "k \<notin> fst ` set (rev (pairs s))" using sp_entries(2) [OF assms(1)] by (force simp: p)
    then have "map_of (rev (pairs s)) k = None" by (simp add: map_of_eq_None_iff)
    then have "contents ?m k = None" using r(2) e(2) by (simp add: store_pairs_eq)
    then show ?thesis using sp_get [OF r(1), of k] sp_get [OF assms(1), of k] True
      by (auto simp: value_of_def)
  next
    case False
    then obtain v where v: "contents m k = Some v" "k \<noteq> []" by auto
    then obtain u where u: "v = Some u" using assms(2) by (auto simp: clean_pair_def)
    obtain x where x: "x \<in> set (concat (buckets m))" "e_key x = k" "e_value x = v"
      using sp_entries(3) [OF assms(1) v(1)] by blast
    then have "(k, u) \<in> set (rev (pairs s))" using u v(2) by (force simp: p)
    then have "map_of (rev (pairs s)) k = Some u" by (rule map_of_is_SomeI [OF d])
    then show ?thesis using sp_get [OF r(1), of k] sp_get [OF assms(1), of k] r(2) v u
      by (simp add: store_pairs_eq)
  qed
  then show ?thesis using e(4) by (simp add: str_parms_create_str_def)
qed

lemma print_parse_roundtrip_witness:
  "\<exists>s m'. str_parms_create_str True True True True (\<lambda>_. (True, True)) s = Some (Some m') \<and>
    hashmapGet m' ''rate'' = Some ''44100''"
proof -
  obtain old nomem m where p: "hashmapPut True True empty_parms ''rate'' (Some ''44100'') = (old, nomem, m)"
    by (metis prod_cases3)
  have m: "sp_ok m" "contents m = (contents empty_parms)(''rate'' \<mapsto> Some ''44100'')"
    using sp_put [OF empty_parms(1) _ p] empty_parms(2,3) by simp_all
  have c: "clean_pair k v" if "contents m k = Some v" for k v
    using that m(2) empty_parms(2) by (auto simp: clean_pair_def split: if_splits)
  obtain s where s: "str_parms_to_str (\<lambda>_. True) m = Some s"
    using to_str_pairs [OF m(1) c] by blast
  have u: "unat (hm_size m) = 1" using sp_put [OF empty_parms(1) _ p] empty_parms(2,3) by simp
  have "length (concat (buckets m)) = 1" using m(1) u unfolding sp_ok_def hm_ok_def entries_def size_mset by metis
  then obtain e where e: "concat (buckets m) = [e]" by (metis One_nat_def length_0_conv length_Suc_conv)
  then have ev: "e_key e = ''rate''" "e_value e = Some ''44100''"
    using sp_entries(2) [OF m(1), of e] m(2) empty_parms(2) by (auto split: if_splits)
  have f: "hashmapForEach fst (combine_strings (\<lambda>_. True)) (m, None) = (m, fold add_pair (concat (buckets m)) None)"
    using each_bucket_combine [of m 0 "length (buckets m)" None] m(1) ev
    by (simp add: hashmapForEach_def sp_ok_def hm_ok_def e)
  have "0 < hm_size m" using u by (simp add: word_less_nat_alt)
  then have "s = ''rate=44100''"
    using s(1) f e ev by (simp add: str_parms_to_str_def hashmapSize_def add_pair_def pair_str_def)
  then have l: "length s + 1 < addr_bound" by simp
  from print_parse_roundtrip [OF m(1) c _ s(1) l, of "\<lambda>_. (True, True)"] obtain m' where
    "str_parms_create_str True True True True (\<lambda>_. (True, True)) s = Some (Some m')"
    "\<forall>k. hashmapGet m' k = (if k = [] then None else hashmapGet m k)" by (metis fst_conv)
  moreover have "hashmapGet m ''rate'' = Some ''44100''" using sp_get [OF m(1)] m(2) by simp
  ultimately show ?thesis by (intro exI [of _ s] exI [of _ m']) simp
qed

section \<open>Removing while iterating\<close>

lemma sp_remove_frame:
  assumes "sp_ok m"
  shows "bucketCount (snd (hashmapRemove m k)) = bucketCount m"
  by (auto simp: hashmapRemove_def Let_def split: option.splits)

lemma sp_remove_absent: "sp_ok m \<Longrightarrow> contents m k = None \<Longrightarrow> snd (hashmapRemove m k) = m"
proof -
  assume m: "sp_ok m" and n: "contents m k = None"
  then have h: "hm_ok m" "hash_fn m = str_hash_fn" "equals_fn m = str_eq" by (simp_all add: sp_ok_def)
  note b = str_keys.ok_bucket [OF h(1,2)]
  have "\<not> str_eq (e_key e) k" if "e \<in># entries m" for e
    using n that str_keys.contents_None [OF h(3)] by blast
  moreover have "e \<in># entries m" if "e \<in> set (buckets m ! calculateIndex (bucketCount m) (hashKey m k))" for e
    using that b(1) entries_in_bucket by blast
  ultimately have "remove_in str_eq k (hashKey m k) (buckets m ! calculateIndex (bucketCount m) (hashKey m k)) = None"
    using str_keys.chain_none(2) [OF b(2,3)] by blast
  then show ?thesis using h(3) by (simp add: hashmapRemove_def Let_def)
qed

lemma chain_loop_del:
  "chain_loop (remove_pair (Some key)) es m =
     (if key \<in> e_key ` set es then (False, snd (hashmapRemove m key)) else (True, m))"
  by (induction es) (auto simp: remove_pair_def)

lemma each_bucket_del:
  "each_bucket (\<lambda>m. m) (remove_pair (Some key)) i n m =
     (if \<exists>j. i \<le> j \<and> j < i + n \<and> key \<in> e_key ` set (buckets m ! j) then snd (hashmapRemove m key) else m)"
proof (induction n arbitrary: i)
  case (Suc n)
  show ?case
  proof (cases "key \<in> e_key ` set (buckets m ! i)")
    case True
    then show ?thesis by (simp add: chain_loop_del) (metis le_refl less_add_Suc1)
  next
    case False
    then have "(\<exists>j. i \<le> j \<and> j < i + Suc n \<and> key \<in> e_key ` set (buckets m ! j)) \<longleftrightarrow>
      (\<exists>j. i + 1 \<le> j \<and> j < i + 1 + n \<and> key \<in> e_key ` set (buckets m ! j))"
      by (metis Suc_eq_plus1 Suc_leD add_Suc add_Suc_right le_neq_implies_less Suc_leI)
    then show ?thesis using False Suc.IH [of "i + 1"] by (simp add: chain_loop_del)
  qed
qed auto

lemma del_removes: "sp_ok m \<Longrightarrow> str_parms_del key m = snd (hashmapRemove m key)"
proof -
  assume m: "sp_ok m"
  then have len: "unat (bucketCount m) = length (buckets m)" by (simp add: sp_ok_def hm_ok_def)
  show ?thesis
  proof (cases "contents m key")
    case None
    then show ?thesis using sp_remove_absent [OF m None]
      by (simp add: str_parms_del_def hashmapForEach_def each_bucket_del)
  next
    case (Some v)
    obtain e where e: "e \<in> set (concat (buckets m))" "e_key e = key" using sp_entries(3) [OF m Some] by blast
    then obtain b where "b \<in> set (buckets m)" "e \<in> set b" by auto
    then obtain j where "j < length (buckets m)" "e \<in> set (buckets m ! j)" by (metis in_set_conv_nth)
    then have "\<exists>j. 0 \<le> j \<and> j < 0 + unat (bucketCount m) \<and> key \<in> e_key ` set (buckets m ! j)"
      using e(2) len by (intro exI [of _ j]) auto
    then show ?thesis by (simp add: str_parms_del_def hashmapForEach_def each_bucket_del)
  qed
qed

lemma remove_pair_None: "remove_pair None key val m = (True, snd (hashmapRemove m key))"
  by (simp add: remove_pair_def)

lemma chain_loop_all:
  assumes "sp_ok m"
  shows "\<exists>m'. chain_loop (remove_pair None) es m = (True, m') \<and> sp_ok m' \<and> bucketCount m' = bucketCount m \<and>
    contents m' = (\<lambda>k. if k \<in> e_key ` set es then None else contents m k)"
  using assms
proof (induction es arbitrary: m)
  case Nil
  then show ?case by simp
next
  case (Cons e es)
  obtain old m1 where r: "hashmapRemove m (e_key e) = (old, m1)" by (metis surj_pair)
  then have m1: "sp_ok m1" "contents m1 = (contents m)(e_key e := None)" "bucketCount m1 = bucketCount m"
    using sp_remove [OF Cons.prems r] sp_remove_frame [OF Cons.prems, of "e_key e"] by auto
  from Cons.IH [OF m1(1)] obtain m' where
    m': "chain_loop (remove_pair None) es m1 = (True, m')" "sp_ok m'" "bucketCount m' = bucketCount m1"
      "contents m' = (\<lambda>k. if k \<in> e_key ` set es then None else contents m1 k)" by blast
  have "chain_loop (remove_pair None) (e # es) m = (True, m')"
    using m'(1) r by (subst chain_loop.simps, subst remove_pair_None) simp
  then show ?case using m' m1 by (intro exI [of _ m']) auto
qed

definition bucket_of :: "str_parms \<Rightarrow> string \<Rightarrow> nat" where
  "bucket_of m k = calculateIndex (bucketCount m) (spread_hash (str_hash_fn k))"

lemma in_its_bucket:
  assumes "sp_ok m" "contents m k \<noteq> None"
  shows "k \<in> e_key ` set (buckets m ! bucket_of m k)"
proof -
  have h: "hm_ok m" "hash_fn m = str_hash_fn" "equals_fn m = str_eq" using assms(1) by (simp_all add: sp_ok_def)
  obtain v where "contents m k = Some v" using assms(2) by blast
  then obtain e where e: "e \<in> set (concat (buckets m))" "e_key e = k" using sp_entries(3) [OF assms(1)] by blast
  have "e \<in># entries m" using e(1) unfolding entries_def set_mset_mset .
  from str_keys.ok_bucket(4) [OF h(1,2) this, of k] e(2) show ?thesis
    using str_keys.ok_bucket(3) [OF h(1,2), of k] by (auto simp: bucket_of_def str_eq_def)
qed

lemma each_bucket_all:
  assumes "sp_ok m"
  shows "\<exists>m'. each_bucket (\<lambda>m. m) (remove_pair None) i n m = m' \<and> sp_ok m' \<and> bucketCount m' = bucketCount m \<and>
    (\<forall>k. contents m' k = None \<or> contents m' k = contents m k \<and> \<not> (i \<le> bucket_of m k \<and> bucket_of m k < i + n))"
  using assms
proof (induction n arbitrary: i m)
  case 0
  then show ?case by auto
next
  case (Suc n)
  from chain_loop_all [OF Suc.prems, of "buckets m ! i"] obtain m1 where
    m1: "chain_loop (remove_pair None) (buckets m ! i) m = (True, m1)" "sp_ok m1" "bucketCount m1 = bucketCount m"
      "contents m1 = (\<lambda>k. if k \<in> e_key ` set (buckets m ! i) then None else contents m k)" by blast
  from Suc.IH [OF m1(2), of "i + 1"] obtain m' where
    m': "each_bucket (\<lambda>m. m) (remove_pair None) (i + 1) n m1 = m'" "sp_ok m'" "bucketCount m' = bucketCount m1"
      "\<And>k. contents m' k = None \<or> contents m' k = contents m1 k \<and>
         \<not> (i + 1 \<le> bucket_of m1 k \<and> bucket_of m1 k < i + 1 + n)" by blast
  have b: "bucket_of m1 k = bucket_of m k" for k using m1(3) by (simp add: bucket_of_def)
  have "contents m' k = None \<or> contents m' k = contents m k \<and> \<not> (i \<le> bucket_of m k \<and> bucket_of m k < i + Suc n)" for k
  proof (cases "contents m' k")
    case (Some v)
    then have 1: "contents m1 k = Some v" "\<not> (i + 1 \<le> bucket_of m k \<and> bucket_of m k < i + 1 + n)"
      using m'(4) [of k] b by auto
    then have 2: "contents m k = Some v" "k \<notin> e_key ` set (buckets m ! i)" using m1(4) by (auto split: if_splits)
    then have "bucket_of m k \<noteq> i" using in_its_bucket [OF Suc.prems, of k] by auto
    then show ?thesis using 1 2 Some by auto
  qed simp
  then show ?case using m' m1 by (intro exI [of _ m']) simp
qed

text \<open>The iteration that removes the entry it stands on is sound: str_parms_del takes exactly
  its key away, and str_parms_destroy empties the table before it is freed.\<close>

theorem del_and_destroy:
  assumes "sp_ok m"
  shows "sp_ok (str_parms_del key m) \<and> contents (str_parms_del key m) = (contents m)(key := None) \<and>
    contents (str_parms_destroy m) = (\<lambda>_. None) \<and> hashmapSize (str_parms_destroy m) = 0"
proof -
  obtain old m1 where r: "hashmapRemove m key = (old, m1)" by (metis surj_pair)
  have d: "str_parms_del key m = m1" using del_removes [OF assms] r by simp
  have len: "unat (bucketCount m) = length (buckets m)" using assms by (simp add: sp_ok_def hm_ok_def)
  from each_bucket_all [OF assms, of 0 "unat (bucketCount m)"] obtain m' where
    m': "str_parms_destroy m = m'" "sp_ok m'"
      "\<And>k. contents m' k = None \<or> contents m' k = contents m k \<and> \<not> bucket_of m k < unat (bucketCount m)"
    by (auto simp: str_parms_destroy_def hashmapForEach_def)
  have "bucket_of m k < unat (bucketCount m)" for k
    unfolding bucket_of_def using str_keys.ok_bucket(1) [of m "spread_hash (str_hash_fn k)"] assms len
    by (simp add: sp_ok_def)
  then have e: "contents m' = (\<lambda>_. None)" using m'(3) by blast
  have "set (concat (buckets m')) = {}"
  proof (rule ccontr)
    assume "set (concat (buckets m')) \<noteq> {}"
    then obtain x where "x \<in> set (concat (buckets m'))" by (meson ex_in_conv)
    from sp_entries(2) [OF m'(2) this] e show False by simp
  qed
  then have "size (entries m') = 0" unfolding entries_def set_empty size_mset by simp
  moreover have "unat (hm_size m') = size (entries m')" using m'(2) unfolding sp_ok_def hm_ok_def by blast
  ultimately have "hm_size m' = 0" by (simp add: unat_eq_zero)
  then show ?thesis using sp_remove [OF assms r] d e m'(1) by (simp add: hashmapSize_def)
qed

lemma del_and_destroy_witness:
  "\<exists>m. contents m ''a'' = Some (Some ''b'') \<and> contents (str_parms_del ''a'' m) ''a'' = None \<and>
    hashmapSize (str_parms_destroy m) = 0"
proof -
  obtain old nomem m where p: "hashmapPut True True empty_parms ''a'' (Some ''b'') = (old, nomem, m)"
    by (metis prod_cases3)
  have m: "sp_ok m" "contents m ''a'' = Some (Some ''b'')"
    using sp_put [OF empty_parms(1) _ p] empty_parms(2,3) by simp_all
  then show ?thesis using del_and_destroy [OF m(1), of "''a''"] by (intro exI [of _ m]) simp
qed

section \<open>Adding\<close>

lemma put_nomem: "hashmapPut eo t m k v = (old, True, m1) \<Longrightarrow> m1 = m"
  by (auto simp: hashmapPut_def Let_def createEntry_def split: option.splits prod.splits if_splits)

text \<open>The function str_parms_add_str stores the pair and returns 0, or -ENOMEM without a change when
  memory is short; but it asks errno, which hashmapPut does not reset: after an older ENOMEM a
  new pair is stored, its strings are freed and -ENOMEM is returned.\<close>

theorem add_str_outcome:
  assumes "sp_ok m" "unat (hashmapSize m) + 1 < addr_bound" "value_of (contents m key) \<noteq> None \<or> contents m key = None"
  shows "\<exists>ret freed errno_nomem' m'.
    str_parms_add_str entry_ok table_ok errno_nomem key val m = (ret, freed, errno_nomem', m') \<and> sp_ok m' \<and>
    (if contents m key \<noteq> None
     then ret = 0 \<and> \<not> freed \<and> contents m' = (contents m)(key \<mapsto> Some val)
     else if \<not> entry_ok then ret = - ENOMEM \<and> freed \<and> m' = m
     else contents m' = (contents m)(key \<mapsto> Some val) \<and>
       (if errno_nomem then ret = - ENOMEM \<and> freed else ret = 0 \<and> \<not> freed))"
proof -
  obtain old nomem m1 where p: "hashmapPut entry_ok table_ok m key (Some val) = (old, nomem, m1)"
    by (metis prod_cases3)
  have sz: "unat (hm_size m) + 1 < addr_bound" using assms(2) by (simp add: hashmapSize_def)
  note q = sp_put [OF assms(1) sz p]
  show ?thesis
  proof (cases "contents m key")
    case None
    then have o: "old = None" using q by simp
    show ?thesis
    proof (cases entry_ok)
      case True
      then have "\<not> nomem" "contents m1 = (contents m)(key \<mapsto> Some val)" "sp_ok m1" using q None by simp_all
      then show ?thesis using p o None True by (auto simp: str_parms_add_str_def)
    next
      case False
      then have nomem using q None by simp
      then show ?thesis using p o None False put_nomem [of entry_ok table_ok m key] q
        by (auto simp: str_parms_add_str_def)
    qed
  next
    case (Some v)
    then have "old \<noteq> None" "\<not> nomem" "contents m1 = (contents m)(key \<mapsto> Some val)" "sp_ok m1"
      using q assms(3) by simp_all
    then show ?thesis using p Some by (auto simp: str_parms_add_str_def)
  qed
qed

lemma add_str_outcome_witness:
  "\<exists>errno_nomem' m'. str_parms_add_str True True True ''a'' ''b'' empty_parms = (- ENOMEM, True, errno_nomem', m') \<and>
    contents m' ''a'' = Some (Some ''b'')"
  using add_str_outcome [of empty_parms "''a''" True True True "''b''"] empty_parms
  by (auto simp: hashmapSize_def)

section \<open>Integers\<close>

lemma digit_of_digit_char: "d < 10 \<Longrightarrow> digit_of (digit_char d) = d"
  by (simp add: digit_of_def digit_char_def of_char_of)

lemma read_digits_append:
  "\<forall>c \<in> set s. digit_of c < b \<Longrightarrow> read_digits b n (s @ t) = read_digits b (fst (read_digits b n s)) t"
  by (induction s arbitrary: n) auto

lemma decimal_digits: "\<forall>c \<in> set (decimal n). digit_of c < 10"
  by (induction n rule: decimal.induct) (subst decimal.simps, auto simp: digit_of_digit_char)

lemma read_digits_all: "\<forall>c \<in> set s. digit_of c < b \<Longrightarrow> snd (read_digits b n s) = []"
  by (induction s arbitrary: n) auto

lemma read_decimal: "read_digits 10 0 (decimal n) = (n, [])"
proof -
  have "fst (read_digits 10 0 (decimal n)) = n"
  proof (induction n rule: decimal.induct)
    case (1 n)
    show ?case
    proof (cases "n < 10")
      case True
      then show ?thesis by (subst decimal.simps) (simp add: digit_of_digit_char)
    next
      case False
      then have "decimal n = decimal (n div 10) @ [digit_char (n mod 10)]" by (subst decimal.simps) simp
      moreover have "fst (read_digits 10 0 (decimal (n div 10))) = n div 10" using 1 False by simp
      ultimately show ?thesis using read_digits_append [OF decimal_digits] by (simp add: digit_of_digit_char)
    qed
  qed
  then show ?thesis using read_digits_all [OF decimal_digits] by (metis surjective_pairing)
qed

lemma decimal_length: "n < 10 ^ Suc k \<Longrightarrow> length (decimal n) \<le> Suc k"
proof (induction k arbitrary: n)
  case 0
  then show ?case by (subst decimal.simps) simp
next
  case (Suc k)
  have "n div 10 < 10 ^ Suc k" using Suc.prems by (simp add: less_mult_imp_div_less mult.commute)
  from Suc.IH [OF this] show ?case by (subst decimal.simps) simp
qed

lemma decimal_head: "0 < n \<Longrightarrow> decimal n \<noteq> [] \<and> hd (decimal n) \<noteq> CHR ''0''"
proof (induction n rule: decimal.induct)
  case (1 n)
  show ?case
  proof (cases "n < 10")
    case True
    then have "digit_of (digit_char n) \<noteq> digit_of (CHR ''0'')"
      using 1(2) digit_of_digit_char [OF True] by (simp add: digit_of_def)
    then have "digit_char n \<noteq> CHR ''0''" by metis
    then show ?thesis using True by (subst (1 2) decimal.simps) simp
  next
    case False
    then show ?thesis using 1 by (subst (1 2) decimal.simps) auto
  qed
qed

lemma digit_not_sign:
  "digit_of c < 10 \<Longrightarrow> \<not> is_space c \<and> c \<noteq> CHR ''-'' \<and> c \<noteq> CHR ''+'' \<and> c \<noteq> CHR ''x'' \<and> c \<noteq> CHR ''X''"
  by (auto simp: digit_of_def is_space_def Let_def split: if_splits)

lemma strtol_digits:
  assumes "t \<noteq> []" "take 2 t \<noteq> ''0x'' \<and> take 2 t \<noteq> ''0X''" "digit_of (hd t) < 10"
    and "read_digits (if hd t = CHR ''0'' then 8 else 10) 0 t = (n, [])"
  shows "strtol (CHR ''-'' # t) = (clamp_long (- int n), [])" "strtol t = (clamp_long (int n), [])"
proof -
  note s = digit_not_sign [OF assms(3)]
  have d: "dropWhile is_space t = t" using assms(1) s by (cases t) simp_all
  have "\<not> is_space CHR ''-''" by (simp add: is_space_def)
  then have d': "dropWhile is_space (CHR ''-'' # t) = CHR ''-'' # t" by simp
  show "strtol (CHR ''-'' # t) = (clamp_long (- int n), [])"
    unfolding strtol_def d' using assms by (simp add: Let_def)
  show "strtol t = (clamp_long (int n), [])"
    unfolding strtol_def d using assms s by (simp add: Let_def)
qed

lemma strtol_format:
  assumes "- (2 ^ 31) \<le> v" "v < 2 ^ 31"
  shows "strtol (format_int 12 v) = (v, []) \<and> format_int 12 v \<noteq> []"
proof -
  let ?n = "nat \<bar>v\<bar>" and ?d = "decimal (nat \<bar>v\<bar>)"
  have "?n < 10 ^ Suc 9" using assms by simp
  then have l: "length ?d \<le> 10" using decimal_length [of ?n 9] by simp
  have "length (p @ d) \<le> 11" if "length p \<le> 1" "length d \<le> 10" for p d :: string using that by simp
  moreover have "length (if v < 0 then ''-'' else []) \<le> 1" by simp
  ultimately have "length ((if v < 0 then ''-'' else []) @ ?d) \<le> 11" using l by blast
  then have f: "format_int 12 v = (if v < 0 then ''-'' else []) @ ?d" unfolding format_int_def by (intro take_all) simp
  have "decimal n \<noteq> []" for n by (subst decimal.simps) simp
  then obtain c cs where d: "?d = c # cs" by (meson neq_Nil_conv)
  note dig = decimal_digits [of ?n, unfolded d]
  have c: "digit_of c < 10" using dig by simp
  note s = digit_not_sign [OF c]
  have x: "take 2 ?d \<noteq> ''0x'' \<and> take 2 ?d \<noteq> ''0X''"
  proof (cases cs)
    case (Cons e es)
    then have "digit_of e < 10" using dig by simp
    then show ?thesis using digit_not_sign [of e] Cons d by auto
  qed (simp add: d)
  have r: "read_digits (if c = CHR ''0'' then 8 else 10) 0 ?d = (?n, [])"
  proof (cases "?n = 0")
    case True
    have "(of_char (char_of (48 :: nat)) :: nat) = of_char CHR ''0''" by (simp add: of_char_of)
    then have "char_of (48 :: nat) = CHR ''0''" by (simp only: of_char_eq_iff)
    then have "?d = ''0''" using True by (simp add: decimal.simps digit_char_def)
    then have "c = CHR ''0''" "cs = []" using d by simp_all
    then show ?thesis unfolding d using True by (simp add: digit_of_def)
  next
    case False
    then show ?thesis using decimal_head [of ?n] read_decimal [of ?n] d by simp
  qed
  have cl: "clamp_long v = v" using assms by (simp add: clamp_long_def)
  show ?thesis
  proof (cases "v < 0")
    case True
    then have "f": "format_int 12 v = CHR ''-'' # ?d" using f by simp
    have "clamp_long (- int ?n) = v" using True cl by simp
    then show ?thesis unfolding f using strtol_digits(1) [of ?d ?n] x r c d by simp
  next
    case False
    then have "f": "format_int 12 v = ?d" using f by simp
    have "clamp_long (int ?n) = v" using False cl by simp
    then show ?thesis unfolding f using strtol_digits(2) [of ?d ?n] x r c d by simp
  qed
qed

text \<open>An integer that was added is got back, whatever its sign: the buffer of 12 bytes never
  cuts its digits.\<close>

lemma int_roundtrip:
  assumes "sp_ok m" "unat (hashmapSize m) + 1 < addr_bound" "contents m key = None"
    and "str_parms_add_int True table_ok False key v m = (ret, freed, nomem, m')"
  shows "ret = 0 \<and> str_parms_get_int m' key = (0, Some v)"
proof -
  obtain ret1 freed1 nomem1 m1 where
    a: "str_parms_add_str True table_ok False key (format_int 12 (sint v)) m = (ret1, freed1, nomem1, m1)" "sp_ok m1"
       "ret1 = 0" "contents m1 = (contents m)(key \<mapsto> Some (format_int 12 (sint v)))"
  proof -
    obtain old nm m1 where p: "hashmapPut True table_ok m key (Some (format_int 12 (sint v))) = (old, nm, m1)"
      by (metis prod_cases3)
    have sz: "unat (hm_size m) + 1 < addr_bound" using assms(2) by (simp add: hashmapSize_def)
    show thesis using sp_put [OF assms(1) sz p] assms(3) p that by (auto simp: str_parms_add_str_def)
  qed
  have e: "ret = ret1" "m' = m1" using assms(4) a(1) by (simp_all add: str_parms_add_int_def)
  have "hashmapGet m1 key = Some (format_int 12 (sint v))" using sp_get [OF a(2), of key] a(4) by simp
  moreover have "strtol (format_int 12 (sint v)) = (sint v, []) \<and> format_int 12 (sint v) \<noteq> []"
    using sint_range_size [of v] by (intro strtol_format) (simp_all add: word_size)
  ultimately show ?thesis using e a(3) by (simp add: str_parms_get_int_def)
qed

end
