(* ===== verification/ConfigUtils.thy ===== *)
theory ConfigUtils
  imports Main
begin

text \<open>
  Configuration trees and their parser (libs/cutils/config_utils.c).

  A node is a value of \<open>cnode\<close>; a pointer to a child is the child's position, so that the
  code's updates through \<open>node\<close> are updates of that child.  The parser runs on the characters
  of the file up to its first 0 byte; the 0 bytes it stores to end a text are not shown, and
  \<open>calloc\<close>, whose result is not checked, is taken to succeed.  config_free only gives memory
  back.
\<close>

section \<open>Trees\<close>

datatype cnode = Cnode (node_name: string) (node_value: string) (children: "cnode list")

definition config_node :: "string option \<Rightarrow> string option \<Rightarrow> cnode" where
  "config_node name val =
     Cnode (case name of None \<Rightarrow> [] | Some s \<Rightarrow> s) (case val of None \<Rightarrow> [] | Some s \<Rightarrow> s) []"

text \<open>The loop over the children, which keeps the last match.\<close>

fun find_loop :: "string \<Rightarrow> cnode list \<Rightarrow> nat \<Rightarrow> nat option \<Rightarrow> nat option" where
  "find_loop name [] i match = match"
| "find_loop name (n # ns) i match = find_loop name ns (Suc i) (if node_name n = name then Some i else match)"

definition config_find :: "cnode \<Rightarrow> string \<Rightarrow> nat option" where
  "config_find root name = find_loop name (children root) 0 None"

definition config_create :: "cnode \<Rightarrow> string \<Rightarrow> cnode" where
  "config_create root name =
     Cnode (node_name root) (node_value root) (children root @ [config_node (Some name) None])"

definition set_child :: "nat \<Rightarrow> cnode \<Rightarrow> cnode \<Rightarrow> cnode" where
  "set_child i n root = Cnode (node_name root) (node_value root) ((children root)[i := n])"

definition set_value :: "string \<Rightarrow> cnode \<Rightarrow> cnode" where
  "set_value v n = Cnode (node_name n) v (children n)"

definition config_bool :: "cnode \<Rightarrow> string \<Rightarrow> int \<Rightarrow> int" where
  "config_bool root name dflt =
     (case config_find root name of
        None \<Rightarrow> dflt
      | Some i \<Rightarrow> (case node_value (children root ! i) of
                    [] \<Rightarrow> 0
                  | c # _ \<Rightarrow> if c = CHR ''y'' \<or> c = CHR ''Y'' \<or> c = CHR ''1'' then 1 else 0))"

definition config_str :: "cnode \<Rightarrow> string \<Rightarrow> string \<Rightarrow> string" where
  "config_str root name dflt =
     (case config_find root name of None \<Rightarrow> dflt | Some i \<Rightarrow> node_value (children root ! i))"

definition config_set :: "cnode \<Rightarrow> string \<Rightarrow> string \<Rightarrow> cnode" where
  "config_set root name v =
     (case config_find root name of
        Some i \<Rightarrow> set_child i (set_value v (children root ! i)) root
      | None \<Rightarrow> (let root = config_create root name; i = length (children root) - 1
                 in set_child i (set_value v (children root ! i)) root))"

section \<open>Tokens\<close>

definition isspace :: "char \<Rightarrow> bool" where
  "isspace c \<longleftrightarrow> of_char c \<in> {32 :: nat, 9, 10, 11, 12, 13}"

definition newline :: char where "newline = CHR 0x0A"

text \<open>\<open>cnext\<close> is the character that ended the last text; a 0 there is None.\<close>

record cstate =
  cdata :: string
  cnext :: "char option"

datatype token = T_EOF | T_TEXT string | T_DOT | T_OBRACE | T_CBRACE

text \<open>A value goes to the end of the line; only there is the white space behind it cut off.\<close>

definition lex_value :: "char \<Rightarrow> string \<Rightarrow> token \<times> cstate" where
  "lex_value c data =
     (case dropWhile (\<lambda>d. d \<noteq> newline) data of
        [] \<Rightarrow> (T_TEXT (c # data), \<lparr>cdata = [], cnext = None\<rparr>)
      | _ # rest \<Rightarrow>
          (T_TEXT (c # rev (dropWhile isspace (rev (takeWhile (\<lambda>d. d \<noteq> newline) data)))),
           \<lparr>cdata = rest, cnext = None\<rparr>))"

text \<open>A key goes to a white space, or to a dot or brace, which is kept.\<close>

fun lex_key :: "string \<Rightarrow> string \<times> cstate" where
  "lex_key [] = ([], \<lparr>cdata = [], cnext = None\<rparr>)"
| "lex_key (c # data) =
     (if isspace c then ([], \<lparr>cdata = data, cnext = None\<rparr>)
      else if c = CHR ''.'' \<or> c = CHR ''{'' \<or> c = CHR ''}'' then ([], \<lparr>cdata = data, cnext = Some c\<rparr>)
      else (let (t, cs) = lex_key data in (c # t, cs)))"

definition lex_token :: "bool \<Rightarrow> char \<Rightarrow> string \<Rightarrow> token \<times> cstate" where
  "lex_token val c data =
     (if c = CHR ''.'' then (T_DOT, \<lparr>cdata = data, cnext = None\<rparr>)
      else if c = CHR ''{'' then (T_OBRACE, \<lparr>cdata = data, cnext = None\<rparr>)
      else if c = CHR ''}'' then (T_CBRACE, \<lparr>cdata = data, cnext = None\<rparr>)
      else if val then lex_value c data
      else (let (t, cs) = lex_key data in (T_TEXT (c # t), cs)))"

text \<open>
  The loop at \<open>restart\<close>; \<open>from\<close> is \<open>cs->data\<close>, which an end of the text leaves as it is
  and an end of a comment moves behind the line.
\<close>

function lex_loop :: "bool \<Rightarrow> string \<Rightarrow> string \<Rightarrow> token \<times> cstate" where
  "lex_loop val start [] = (T_EOF, \<lparr>cdata = start, cnext = None\<rparr>)"
| "lex_loop val start (c # data) =
     (if isspace c then lex_loop val start data
      else if c = CHR ''#'' then
        (case dropWhile (\<lambda>d. d \<noteq> newline) data of
           [] \<Rightarrow> (T_EOF, \<lparr>cdata = [], cnext = None\<rparr>)
         | nl # rest \<Rightarrow> lex_loop val rest (nl # rest))
      else lex_token val c data)"
  by pat_completeness auto
termination
proof (relation "measure (\<lambda>(val, start, data). length data)"; simp)
  fix data nl rest assume "dropWhile (\<lambda>d. d \<noteq> newline) data = nl # (rest :: string)"
  then show "length rest < length data" using length_dropWhile_le [of "\<lambda>d. d \<noteq> newline" data] by simp
qed

definition lex_next :: "bool \<Rightarrow> cstate \<Rightarrow> token \<times> cstate" where
  "lex_next val cs =
     (case cnext cs of
        None \<Rightarrow> lex_loop val (cdata cs) (cdata cs)
      | Some c \<Rightarrow> lex_loop val (cdata cs) (c # cdata cs))"

text \<open>What is left to read.\<close>

definition unread :: "cstate \<Rightarrow> nat" where
  "unread cs = length (cdata cs) + (if cnext cs = None then 0 else 1)"

lemma lex_key_unread: "lex_key data = (t, cs) \<Longrightarrow> unread cs \<le> length data"
proof (induction data arbitrary: t cs)
  case (Cons c data)
  obtain t1 cs1 where r: "lex_key data = (t1, cs1)" by (cases "lex_key data")
  from Cons.IH [OF r] Cons.prems r show ?case by (auto simp: unread_def split: if_splits)
qed (simp add: unread_def)

lemma lex_token_unread: "lex_token val c data = (tok, cs) \<Longrightarrow> unread cs \<le> length data"
proof -
  have "length rest \<le> length data" if "dropWhile (\<lambda>d. d \<noteq> newline) data = nl # rest" for nl rest
    using length_dropWhile_le [of "\<lambda>d. d \<noteq> newline" data] that by simp
  then show "lex_token val c data = (tok, cs) \<Longrightarrow> ?thesis"
    by (auto simp: lex_token_def lex_value_def unread_def dest: lex_key_unread split: if_splits list.splits prod.splits)
qed

lemma lex_loop_unread: "lex_loop val start data = (tok, cs) \<Longrightarrow> tok \<noteq> T_EOF \<Longrightarrow> unread cs < length data"
proof (induction val start data rule: lex_loop.induct)
  case (2 val start c data)
  have le: "length (dropWhile (\<lambda>d. d \<noteq> newline) data) \<le> length data" by (rule length_dropWhile_le)
  show ?case
  proof (cases "isspace c")
    case True
    with "2.IH"(1) "2.prems" show ?thesis by simp
  next
    case False
    show ?thesis
    proof (cases "c = CHR ''#''")
      case True
      with False "2.prems" obtain nl rest where d: "dropWhile (\<lambda>d. d \<noteq> newline) data = nl # rest"
          "lex_loop val rest (nl # rest) = (tok, cs)" by (auto split: list.splits)
      from "2.IH"(2) [OF False True d(1,2) "2.prems"(2)] le d(1) show ?thesis by simp
    next
      case not_comment: False
      with False "2.prems"(1) have "lex_token val c data = (tok, cs)" by simp
      from lex_token_unread [OF this] show ?thesis by simp
    qed
  qed
qed simp

lemma lex_loop_unread_le: "lex_loop val start data = (tok, cs) \<Longrightarrow> unread cs \<le> max (length start) (length data)"
proof (induction val start data rule: lex_loop.induct)
  case (1 val start)
  then show ?case by (auto simp: unread_def)
next
  case (2 val start c data)
  have le: "length (dropWhile (\<lambda>d. d \<noteq> newline) data) \<le> length data" by (rule length_dropWhile_le)
  show ?case
  proof (cases "isspace c")
    case True
    with "2.IH"(1) "2.prems" show ?thesis by (simp add: le_max_iff_disj) linarith
  next
    case False
    show ?thesis
    proof (cases "c = CHR ''#''")
      case True
      show ?thesis
      proof (cases "dropWhile (\<lambda>d. d \<noteq> newline) data")
        case Nil
        with False True "2.prems" show ?thesis by (auto simp: unread_def)
      next
        case (Cons nl rest)
        with False True "2.prems" have "lex_loop val rest (nl # rest) = (tok, cs)" by simp
        from "2.IH"(2) [OF False True Cons this] le Cons show ?thesis by simp
      qed
    next
      case not_comment: False
      with False "2.prems" have "lex_token val c data = (tok, cs)" by simp
      from lex_token_unread [OF this] show ?thesis by simp
    qed
  qed
qed

lemma lex_unread:
  assumes "lex_next val cs = (tok, cs')" "tok \<noteq> T_EOF"
  shows "unread cs' < unread cs"
proof (cases "cnext cs")
  case None
  with assms(1) have "lex_loop val (cdata cs) (cdata cs) = (tok, cs')" by (simp add: lex_next_def)
  from lex_loop_unread [OF this assms(2)] None show ?thesis by (simp add: unread_def)
next
  case (Some c)
  with assms(1) have "lex_loop val (cdata cs) (c # cdata cs) = (tok, cs')"
    by (simp add: lex_next_def del: lex_loop.simps)
  from lex_loop_unread [OF this assms(2)] Some show ?thesis by (simp add: unread_def)
qed

lemma lex_unread_le:
  assumes "lex_next val cs = (tok, cs')"
  shows "unread cs' \<le> unread cs"
proof (cases "cnext cs")
  case None
  with assms have "lex_loop val (cdata cs) (cdata cs) = (tok, cs')" by (simp add: lex_next_def)
  from lex_loop_unread_le [OF this] None show ?thesis by (simp add: unread_def)
next
  case (Some c)
  with assms have "lex_loop val (cdata cs) (c # cdata cs) = (tok, cs')"
    by (simp add: lex_next_def del: lex_loop.simps)
  from lex_loop_unread_le [OF this] Some show ?thesis by (simp add: unread_def)
qed

section \<open>Parsing\<close>

text \<open>
  Each function answers whether it succeeded (the code's 0), the scanner, and the node with
  what was stored in it, also when it failed.
\<close>

function parse_block :: "cstate \<Rightarrow> cnode \<Rightarrow> bool \<times> cstate \<times> cnode"
  and parse_expr :: "string \<Rightarrow> cstate \<Rightarrow> cnode \<Rightarrow> bool \<times> cstate \<times> cnode"
  and expr_loop :: "cstate \<Rightarrow> cnode \<Rightarrow> bool \<times> cstate \<times> cnode" where
  "parse_block cs node =
     (case lex_next False cs of
        (T_TEXT t, cs1) \<Rightarrow>
          (case parse_expr t cs1 node of
             (success, cs2, node2) \<Rightarrow> if success then parse_block cs2 node2 else (False, cs2, node2))
      | (T_CBRACE, cs1) \<Rightarrow> (True, cs1, node)
      | (_, cs1) \<Rightarrow> (False, cs1, node))"
| "parse_expr t cs root =
     (let (i, root1) = (case config_find root t of
          Some i \<Rightarrow> if node_value (children root ! i) = [] then (i, root)
                    else (length (children root), config_create root t)
        | None \<Rightarrow> (length (children root), config_create root t))
      in case expr_loop cs (children root1 ! i) of
           (success, cs1, node) \<Rightarrow> (success, cs1, set_child i node root1))"
| "expr_loop cs node =
     (case lex_next True cs of
        (T_DOT, cs1) \<Rightarrow>
          (case lex_next False cs1 of
             (T_TEXT t, cs2) \<Rightarrow>
               (let k = length (children node); node1 = config_create node t in
                case expr_loop cs2 (children node1 ! k) of
                  (success, cs3, n) \<Rightarrow> (success, cs3, set_child k n node1))
           | (_, cs2) \<Rightarrow> (False, cs2, node))
      | (T_TEXT t, cs1) \<Rightarrow> (True, cs1, set_value t node)
      | (T_OBRACE, cs1) \<Rightarrow> parse_block cs1 node
      | (_, cs1) \<Rightarrow> (False, cs1, node))"
  by pat_completeness auto

lemma parse_unread:
  "parse_block_parse_expr_expr_loop_dom (Inl (cs, node)) \<Longrightarrow> unread (fst (snd (parse_block cs node))) \<le> unread cs"
  "parse_block_parse_expr_expr_loop_dom (Inr (Inl (t, cs, node))) \<Longrightarrow> unread (fst (snd (parse_expr t cs node))) \<le> unread cs"
  "parse_block_parse_expr_expr_loop_dom (Inr (Inr (cs, node))) \<Longrightarrow> unread (fst (snd (expr_loop cs node))) \<le> unread cs"
proof (induction rule: parse_block_parse_expr_expr_loop.pinduct)
  case (1 cs node)
  then show ?case
    by (fastforce simp: parse_block.psimps dest: lex_unread_le split: prod.splits token.splits if_splits)
next
  case (2 t cs node)
  then show ?case by (auto simp: parse_expr.psimps Let_def split: prod.splits)
next
  case (3 cs node)
  then show ?case
    by (fastforce simp: expr_loop.psimps Let_def dest: lex_unread_le split: prod.splits token.splits)
qed

lemma parse_total: "All parse_block_parse_expr_expr_loop_dom"
proof (relation "measure (\<lambda>x. case x of Inl (cs, node) \<Rightarrow> 2 * unread cs
    | Inr (Inl (t, cs, node)) \<Rightarrow> 2 * unread cs + 1 | Inr (Inr (cs, node)) \<Rightarrow> 2 * unread cs)", goal_cases)
  case (2 cs node x y t)
  then have "unread y < unread cs" using lex_unread [of False cs "T_TEXT t" y] by simp
  then show ?case by simp
next
  case (3 cs node x y t r z success a)
  then have "unread y < unread cs" "unread (fst z) \<le> unread y"
    using lex_unread [of False cs "T_TEXT t" y] parse_unread(2) [of t y node] by (simp, metis fst_conv snd_conv)
  with 3(4) show ?case by auto
next
  case (5 cs node x y xa ya t)
  with lex_unread [of True cs T_DOT y] lex_unread [of False y "T_TEXT t" ya] show ?case by simp
next
  case (6 cs node x y)
  with lex_unread [of True cs T_OBRACE y] show ?case by simp
qed simp_all

termination parse_block
  by (rule parse_total)

section \<open>Loading\<close>

function load_loop :: "cstate \<Rightarrow> cnode \<Rightarrow> cnode" where
  "load_loop cs root =
     (case lex_next False cs of
        (T_TEXT t, cs1) \<Rightarrow>
          (case parse_expr t cs1 root of
             (success, cs2, root2) \<Rightarrow> if success then load_loop cs2 root2 else root2)
      | (_, cs1) \<Rightarrow> root)"
  by pat_completeness auto

termination load_loop
proof (relation "measure (\<lambda>(cs, root). unread cs)", goal_cases)
  case (2 cs root x y t r z success a)
  then have "unread y < unread cs" "unread (fst z) \<le> unread y"
    using lex_unread [of False cs "T_TEXT t" y] parse_unread(2) [OF spec [OF parse_total], of t y root]
    by (simp, metis fst_conv snd_conv)
  with 2(4) show ?case by auto
qed simp

declare lex_loop.simps [simp del] parse_block.simps [simp del] parse_expr.simps [simp del]
  expr_loop.simps [simp del] load_loop.simps [simp del]

definition config_load :: "cnode \<Rightarrow> string option \<Rightarrow> cnode" where
  "config_load root data =
     (case data of None \<Rightarrow> root
      | Some s \<Rightarrow> load_loop \<lparr>cdata = takeWhile (\<lambda>c. c \<noteq> CHR 0x00) s, cnext = None\<rparr> root)"

text \<open>
  load_file.c: the file's contents and a 0 byte; any call that fails gives NULL.  The
  operating system's answers are the parameter: None for a file that cannot be opened, sized,
  rewound or read in full, or whose buffer cannot be allocated.
\<close>

definition load_file :: "(string \<Rightarrow> string option) \<Rightarrow> string \<Rightarrow> string option" where
  "load_file read fn = (case read fn of None \<Rightarrow> None | Some s \<Rightarrow> Some (s @ [CHR 0x00]))"

definition config_load_file :: "(string \<Rightarrow> string option) \<Rightarrow> cnode \<Rightarrow> string \<Rightarrow> cnode" where
  "config_load_file read root fn = config_load root (load_file read fn)"

end
