(* ===== verification/EffectsFactory.thy ===== *)
theory EffectsFactory
  imports Prelude ConfigUtils
begin

text \<open>
  The effects factory (libs/libeffects/factory/EffectsFactory.c): the libraries named in the
  configuration file, the descriptors of their effects, the enumeration of these descriptors,
  and the effects created from them.

  The effect libraries, the dynamic linker and the file system are the parameter \<open>effects_env\<close>;
  a library's own state is the \<open>'w\<close> that its functions are given and return.  Its functions may crash (None).  A pointer
  to a list element is the list from that element on; a library entry is named by a number and an
  effect entry by its address, which \<open>malloc\<close> answers.  Each call runs with gLibLock held for
  all that it does with the lists, and so is one step.  \<open>None\<close> is a NULL dereference or
  a use of freed memory; the small list elements and the library entries are taken to be
  allocated.  What is only printed is left out.
\<close>

section \<open>Identifiers\<close>

record effect_uuid =
  timeLow :: u32
  timeMid :: u16
  timeHiAndVersion :: u16
  clockSeq :: u16
  node0 :: u8
  node1 :: u8
  node2 :: u8
  node3 :: u8
  node4 :: u8
  node5 :: u8

record effect_descriptor =
  d_type :: effect_uuid
  d_uuid :: effect_uuid
  apiVersion :: u32
  d_flags :: u32
  cpuLoad :: u16
  memoryUsage :: u16
  d_name :: string
  implementor :: string

definition EFFECT_UUID_NULL :: effect_uuid where
  "EFFECT_UUID_NULL = \<lparr>timeLow = 0xec7178ec, timeMid = 0xe5e1, timeHiAndVersion = 0x4432, clockSeq = 0xa3f4,
     node0 = 0x46, node1 = 0x57, node2 = 0xe6, node3 = 0x79, node4 = 0x52, node5 = 0x10\<rparr>"

definition EffectIsNullUuid :: "effect_uuid \<Rightarrow> int" where
  "EffectIsNullUuid uuid = (if uuid \<noteq> EFFECT_UUID_NULL then 0 else 1)"

text \<open>
  The \<open>x\<close> conversion of sscanf with a field width: white space is skipped, then a sign
  and a 0x prefix are read, then digits, all within the width.
\<close>

definition hex_value :: "char \<Rightarrow> nat option" where
  "hex_value c =
     (let n = of_char c :: nat in
      if 48 \<le> n \<and> n \<le> 57 then Some (n - 48)
      else if 97 \<le> n \<and> n \<le> 102 then Some (n - 87)
      else if 65 \<le> n \<and> n \<le> 70 then Some (n - 55)
      else None)"

fun hex_digits :: "nat \<Rightarrow> string \<Rightarrow> nat \<Rightarrow> nat \<times> string" where
  "hex_digits (Suc w) (c # s) v =
     (case hex_value c of None \<Rightarrow> (v, c # s) | Some d \<Rightarrow> hex_digits w s (16 * v + d))"
| "hex_digits _ s v = (v, s)"

definition scan_number :: "nat \<Rightarrow> string \<Rightarrow> (nat \<times> string) option" where
  "scan_number w s =
     (let (w, s) = (if 2 \<le> w \<and> (take 2 s = ''0x'' \<or> take 2 s = ''0X'') then (w - 2, drop 2 s) else (w, s))
      in case s of
           [] \<Rightarrow> None
         | c # _ \<Rightarrow> if w = 0 \<or> hex_value c = None then None else Some (hex_digits w s 0))"

definition scan_hex :: "nat \<Rightarrow> string \<Rightarrow> (u32 \<times> string) option" where
  "scan_hex w s =
     (case dropWhile isspace s of
        [] \<Rightarrow> None
      | c # r \<Rightarrow>
          if c = CHR ''-'' then map_option (\<lambda>(v, s). (- of_nat v, s)) (scan_number (w - 1) r)
          else if c = CHR ''+'' then map_option (\<lambda>(v, s). (of_nat v, s)) (scan_number (w - 1) r)
          else map_option (\<lambda>(v, s). (of_nat v, s)) (scan_number w (c # r)))"

definition scan_dash :: "string \<Rightarrow> string option" where
  "scan_dash s = (case s of [] \<Rightarrow> None | c # r \<Rightarrow> if c = CHR ''-'' then Some r else None)"

text \<open>Fewer than ten conversions are an error (None, the code's -EINVAL).\<close>

definition stringToUuid :: "string \<Rightarrow> effect_uuid option" where
  "stringToUuid str = do {
     (t0, s) \<leftarrow> scan_hex 8 str;
     s \<leftarrow> scan_dash s;
     (t1, s) \<leftarrow> scan_hex 4 s;
     s \<leftarrow> scan_dash s;
     (t2, s) \<leftarrow> scan_hex 4 s;
     s \<leftarrow> scan_dash s;
     (t3, s) \<leftarrow> scan_hex 4 s;
     s \<leftarrow> scan_dash s;
     (t4, s) \<leftarrow> scan_hex 2 s;
     (t5, s) \<leftarrow> scan_hex 2 s;
     (t6, s) \<leftarrow> scan_hex 2 s;
     (t7, s) \<leftarrow> scan_hex 2 s;
     (t8, s) \<leftarrow> scan_hex 2 s;
     (t9, s) \<leftarrow> scan_hex 2 s;
     Some \<lparr>timeLow = t0, timeMid = ucast t1, timeHiAndVersion = ucast t2, clockSeq = ucast t3,
       node0 = ucast t4, node1 = ucast t5, node2 = ucast t6, node3 = ucast t7, node4 = ucast t8, node5 = ucast t9\<rparr>
   }"

definition hex_char :: "nat \<Rightarrow> char" where
  "hex_char d = char_of (if d < 10 then 48 + d else 87 + d)"

fun hex_of :: "nat \<Rightarrow> nat \<Rightarrow> string" where
  "hex_of 0 v = []"
| "hex_of (Suc n) v = hex_of n (v div 16) @ [hex_char (v mod 16)]"

text \<open>snprintf keeps one byte for the terminating 0.\<close>

definition uuidToString :: "effect_uuid \<Rightarrow> nat \<Rightarrow> string" where
  "uuidToString uuid maxLen =
     take (maxLen - 1)
       (hex_of 8 (unat (timeLow uuid)) @ ''-'' @ hex_of 4 (unat (timeMid uuid)) @ ''-'' @
        hex_of 4 (unat (timeHiAndVersion uuid)) @ ''-'' @ hex_of 4 (unat (clockSeq uuid)) @ ''-'' @
        hex_of 2 (unat (node0 uuid)) @ hex_of 2 (unat (node1 uuid)) @ hex_of 2 (unat (node2 uuid)) @
        hex_of 2 (unat (node3 uuid)) @ hex_of 2 (unat (node4 uuid)) @ hex_of 2 (unat (node5 uuid)))"

text \<open>
  The text printed for a descriptor.  Each snprintf starts the buffer anew, strncat appends; its bound
  is on the appended text alone.  \<open>ptr\<close> is the descriptor's address as it is printed.
\<close>

fun hex_upper_of :: "nat \<Rightarrow> nat \<Rightarrow> string" where
  "hex_upper_of 0 v = []"
| "hex_upper_of (Suc n) v =
     hex_upper_of n (v div 16) @ [char_of (if v mod 16 < 10 then 48 + v mod 16 else 55 + v mod 16)]"

definition strncat :: "string \<Rightarrow> string \<Rightarrow> nat \<Rightarrow> string" where
  "strncat str s n = str @ take n s"

definition dumpEffectDescriptor :: "string \<Rightarrow> effect_descriptor \<Rightarrow> nat \<Rightarrow> string" where
  "dumpEffectDescriptor ptr desc len =
     (let str = take (len - 1) (newline # ''Effect Descriptor '' @ ptr @ '':'' @ [newline]);
          str = strncat str ''- TYPE: '' len;
          s = uuidToString (d_uuid desc) 256;
          str = take (len - 1) (''- UUID: '' @ s @ [newline]);
          s = uuidToString (d_type desc) 256;
          str = take (len - 1) (''- TYPE: '' @ s @ [newline]);
          s = ''- apiVersion: '' @ hex_upper_of 8 (unat (apiVersion desc)) @ newline # ''- flags: ''
              @ hex_upper_of 8 (unat (d_flags desc)) @ [newline];
          str = strncat str s len;
          s = ''- name: '' @ d_name desc @ [newline];
          str = strncat str s len;
          s = ''- implementor: '' @ implementor desc @ [newline]
      in strncat str s len)"

section \<open>State\<close>

record 'w sub_interface =
  if_process :: "nat \<Rightarrow> nat \<Rightarrow> 'w \<Rightarrow> (int \<times> 'w) option"
  if_command :: "u32 \<Rightarrow> u32 \<Rightarrow> nat \<Rightarrow> nat \<Rightarrow> nat \<Rightarrow> 'w \<Rightarrow> (int \<times> 'w) option"
  if_get_descriptor :: "'w \<Rightarrow> int \<times> effect_descriptor \<times> 'w"
  if_process_reverse :: "(nat \<Rightarrow> nat \<Rightarrow> 'w \<Rightarrow> (int \<times> 'w) option) option"

record 'w effect_library =
  lib_tag :: u32
  lib_version :: u32
  create_effect :: "effect_uuid \<Rightarrow> int \<Rightarrow> int \<Rightarrow> 'w \<Rightarrow> (int \<times> nat \<times> 'w) option"
  release_effect :: "nat \<Rightarrow> 'w \<Rightarrow> 'w"
  get_descriptor :: "effect_uuid \<Rightarrow> 'w \<Rightarrow> int \<times> effect_descriptor \<times> 'w"

record 'w effects_env =
  can_read :: "string \<Rightarrow> bool"
  read_file :: "string \<Rightarrow> string option"
  dlopen :: "string \<Rightarrow> 'w \<Rightarrow> nat option \<times> 'w"
  dlsym :: "nat \<Rightarrow> string \<Rightarrow> 'w effect_library option"
  dlclose :: "nat \<Rightarrow> 'w \<Rightarrow> 'w"
  sub_itfe :: "nat \<Rightarrow> 'w sub_interface"

record 'w lib_entry =
  lib_desc :: "'w effect_library"
  lib_name :: string
  lib_path :: string
  lib_handle :: nat
  lib_effects :: "effect_descriptor list"

datatype fx_interface = gInterface | gInterfaceWithReverse

record effect_entry =
  fx_itfe :: fx_interface
  subItfe :: nat
  fx_lib :: "nat option"

record 'w factory =
  gEffectList :: "nat list"
  entry_at :: "nat \<Rightarrow> effect_entry option"
  gLibraryList :: "nat list"
  lib_at :: "nat \<Rightarrow> 'w lib_entry option"
  gNumEffects :: u32
  gCurLib :: "nat list"
  gCurEffect :: "effect_descriptor list"
  gCurEffectIdx :: u32
  gCachedLibrary :: "nat option"
  gInitDone :: bool
  gCanQueryEffect :: bool
  libs_state :: 'w

definition factory_start :: "'w \<Rightarrow> 'w factory" where
  "factory_start w =
     \<lparr>gEffectList = [], entry_at = (\<lambda>_. None), gLibraryList = [], lib_at = (\<lambda>_. None), gNumEffects = 0,
      gCurLib = [], gCurEffect = [], gCurEffectIdx = 0, gCachedLibrary = None, gInitDone = False,
      gCanQueryEffect = False, libs_state = w\<rparr>"

section \<open>Initialisation\<close>

definition AUDIO_EFFECT_LIBRARY_TAG :: u32 where "AUDIO_EFFECT_LIBRARY_TAG = 0x41454C54"

definition EFFECT_API_VERSION_MAJOR :: "u32 \<Rightarrow> u32" where "EFFECT_API_VERSION_MAJOR v = drop_bit 16 v"

definition PATH_MAX :: nat where "PATH_MAX = 4096"

text \<open>The entry of a library; the code follows the pointer.\<close>

definition the_lib :: "'w factory \<Rightarrow> nat \<Rightarrow> 'w lib_entry" where
  "the_lib s l = the (lib_at s l)"

definition resetEffectEnumeration :: "'w factory \<Rightarrow> 'w factory" where
  "resetEffectEnumeration s =
     s\<lparr>gCurLib := gLibraryList s,
       gCurEffect := (case gLibraryList s of [] \<Rightarrow> [] | l # _ \<Rightarrow> lib_effects (the_lib s l)),
       gCurEffectIdx := 0\<rparr>"

fun count_effects :: "'w factory \<Rightarrow> nat list \<Rightarrow> u32 \<Rightarrow> u32" where
  "count_effects s [] cnt = cnt"
| "count_effects s (l # ls) cnt = count_effects s ls (cnt + of_nat (length (lib_effects (the_lib s l))))"

definition updateNumEffects :: "'w factory \<Rightarrow> 'w factory" where
  "updateNumEffects s =
     (let s = resetEffectEnumeration s
      in s\<lparr>gNumEffects := count_effects s (gLibraryList s) 0, gCanQueryEffect := False\<rparr>)"

definition loadLibrary :: "'w effects_env \<Rightarrow> cnode \<Rightarrow> string \<Rightarrow> 'w factory \<Rightarrow> int \<times> 'w factory" where
  "loadLibrary env root name s =
     (case config_find root ''path'' of
        None \<Rightarrow> (- EINVAL, s)
      | Some i \<Rightarrow>
          (let path = node_value (children root ! i); (opened, w) = dlopen env path (libs_state s);
               s = s\<lparr>libs_state := w\<rparr> in
           case opened of
             None \<Rightarrow> (- EINVAL, s)
           | Some hdl \<Rightarrow>
               (let failed = (- EINVAL, s\<lparr>libs_state := dlclose env hdl w\<rparr>) in
                case dlsym env hdl ''AELI'' of
                  None \<Rightarrow> failed
                | Some desc \<Rightarrow>
                    if lib_tag desc \<noteq> AUDIO_EFFECT_LIBRARY_TAG then failed
                    else if EFFECT_API_VERSION_MAJOR (lib_version desc) \<noteq> 3 then failed
                    else (let l = length (gLibraryList s) in
                      (0, s\<lparr>lib_at := (lib_at s)(l \<mapsto> \<lparr>lib_desc = desc, lib_name = take PATH_MAX name,
                             lib_path = take PATH_MAX path, lib_handle = hdl, lib_effects = []\<rparr>),
                           gLibraryList := l # gLibraryList s\<rparr>)))))"

fun load_libraries_loop :: "'w effects_env \<Rightarrow> cnode list \<Rightarrow> 'w factory \<Rightarrow> 'w factory" where
  "load_libraries_loop env [] s = s"
| "load_libraries_loop env (n # ns) s = load_libraries_loop env ns (snd (loadLibrary env n (node_name n) s))"

definition loadLibraries :: "'w effects_env \<Rightarrow> cnode \<Rightarrow> 'w factory \<Rightarrow> int \<times> 'w factory" where
  "loadLibraries env root s =
     (case config_find root ''libraries'' of
        None \<Rightarrow> (- ENOENT, s)
      | Some i \<Rightarrow> (0, load_libraries_loop env (children (children root ! i)) s))"

fun find_library :: "'w factory \<Rightarrow> string \<Rightarrow> nat list \<Rightarrow> nat option" where
  "find_library s name [] = None"
| "find_library s name (l # ls) = (if lib_name (the_lib s l) = name then Some l else find_library s name ls)"

definition scan_libraries :: "string \<Rightarrow> 'w factory \<Rightarrow> nat option \<times> 'w factory" where
  "scan_libraries name s =
     (case find_library s name (gLibraryList s) of
        Some l \<Rightarrow> (Some l, s\<lparr>gCachedLibrary := Some l\<rparr>)
      | None \<Rightarrow> (None, s))"

definition getLibrary :: "string \<Rightarrow> 'w factory \<Rightarrow> nat option \<times> 'w factory" where
  "getLibrary name s =
     (case gCachedLibrary s of
        Some l \<Rightarrow> if take PATH_MAX (lib_name (the_lib s l)) = take PATH_MAX name then (Some l, s)
                  else scan_libraries name s
      | None \<Rightarrow> scan_libraries name s)"

definition loadEffect :: "cnode \<Rightarrow> 'w factory \<Rightarrow> int \<times> 'w factory" where
  "loadEffect root s =
     (case config_find root ''library'' of
        None \<Rightarrow> (- EINVAL, s)
      | Some i \<Rightarrow>
          (case getLibrary (node_value (children root ! i)) s of
             (None, s) \<Rightarrow> (- EINVAL, s)
           | (Some l, s) \<Rightarrow>
               (case config_find root ''uuid'' of
                  None \<Rightarrow> (- EINVAL, s)
                | Some j \<Rightarrow>
                    (case stringToUuid (node_value (children root ! j)) of
                       None \<Rightarrow> (- EINVAL, s)
                     | Some uuid \<Rightarrow>
                         (case get_descriptor (lib_desc (the_lib s l)) uuid (libs_state s) of
                            (err, d, w) \<Rightarrow>
                              (let s = s\<lparr>libs_state := w\<rparr> in
                               if err \<noteq> 0 then (- EINVAL, s)
                               else if EFFECT_API_VERSION_MAJOR (apiVersion d) \<noteq> 2 then (- EINVAL, s)
                               else (0, s\<lparr>lib_at := (lib_at s)(l \<mapsto>
                                      (the_lib s l)\<lparr>lib_effects := d # lib_effects (the_lib s l)\<rparr>)\<rparr>)))))))"

fun load_effects_loop :: "cnode list \<Rightarrow> 'w factory \<Rightarrow> 'w factory" where
  "load_effects_loop [] s = s"
| "load_effects_loop (n # ns) s = load_effects_loop ns (snd (loadEffect n s))"

definition loadEffects :: "cnode \<Rightarrow> 'w factory \<Rightarrow> int \<times> 'w factory" where
  "loadEffects root s =
     (case config_find root ''effects'' of
        None \<Rightarrow> (- ENOENT, s)
      | Some i \<Rightarrow> (0, load_effects_loop (children (children root ! i)) s))"

definition loadEffectConfigFile :: "'w effects_env \<Rightarrow> string \<Rightarrow> 'w factory \<Rightarrow> int \<times> 'w factory" where
  "loadEffectConfigFile env path s =
     (case load_file (read_file env) path of
        None \<Rightarrow> (- ENODEV, s)
      | Some data \<Rightarrow>
          (let root = config_load (config_node (Some []) (Some [])) (Some data);
               s = snd (loadLibraries env root s)
           in (0, snd (loadEffects root s))))"

definition vendor_config :: string where "vendor_config = ''/vendor/etc/audio_effects.conf''"

definition system_config :: string where "system_config = ''/system/etc/audio_effects.conf''"

text \<open>init always returns 0.\<close>

definition init :: "'w effects_env \<Rightarrow> 'w factory \<Rightarrow> 'w factory" where
  "init env s =
     (if gInitDone s then s
      else (let s = (if can_read env vendor_config then snd (loadEffectConfigFile env vendor_config s)
                     else if can_read env system_config then snd (loadEffectConfigFile env system_config s)
                     else s)
            in (updateNumEffects s)\<lparr>gInitDone := True\<rparr>))"

section \<open>The factory's interface\<close>

text \<open>A pointer the caller gives for an answer is here only whether it is not NULL.\<close>

definition EffectQueryNumberEffects :: "'w effects_env \<Rightarrow> bool \<Rightarrow> 'w factory \<Rightarrow> int \<times> u32 option \<times> 'w factory" where
  "EffectQueryNumberEffects env pNumEffects s =
     (let s = init env s in
      if \<not> pNumEffects then (- EINVAL, None, s)
      else (0, Some (gNumEffects s), s\<lparr>gCanQueryEffect := True\<rparr>))"

text \<open>The search of EffectQueryEffect; it follows \<open>gCurLib->next\<close> without looking whether it is NULL.\<close>

function query_loop :: "'w factory \<Rightarrow> u32 \<Rightarrow> nat list \<Rightarrow> effect_descriptor list \<Rightarrow> u32
    \<Rightarrow> (effect_descriptor option \<times> nat list \<times> effect_descriptor list \<times> u32) option" where
  "query_loop s index [] efx idx = Some (None, [], efx, idx)"
| "query_loop s index (l # ls) (d # ds) idx =
     (if index = idx then Some (Some d, l # ls, d # ds, idx) else query_loop s index (l # ls) ds (idx + 1))"
| "query_loop s index (l # ls) [] idx =
     (case ls of [] \<Rightarrow> None | k # _ \<Rightarrow> query_loop s index ls (lib_effects (the_lib s k)) idx)"
  by pat_completeness auto
termination
  by (relation "measures [\<lambda>(s, index, ls, ds, idx). length ls, \<lambda>(s, index, ls, ds, idx). length ds]") auto

definition EffectQueryEffect :: "'w effects_env \<Rightarrow> u32 \<Rightarrow> bool \<Rightarrow> 'w factory
    \<Rightarrow> (int \<times> effect_descriptor option \<times> 'w factory) option" where
  "EffectQueryEffect env index pDescriptor s =
     (let s = init env s in
      if \<not> pDescriptor \<or> gNumEffects s \<le> index then Some (- EINVAL, None, s)
      else if \<not> gCanQueryEffect s then Some (- ENOSYS, None, s)
      else (let s = (if index < gCurEffectIdx s then resetEffectEnumeration s else s) in
        case query_loop s index (gCurLib s) (gCurEffect s) (gCurEffectIdx s) of
          None \<Rightarrow> None
        | Some (d, ls, ds, idx) \<Rightarrow>
            Some (if d = None then - ENOENT else 0, d, s\<lparr>gCurLib := ls, gCurEffect := ds, gCurEffectIdx := idx\<rparr>)))"

text \<open>Either identifier given may match; the first match of the first library that has one.\<close>

fun find_in_library :: "effect_uuid option \<Rightarrow> effect_uuid option \<Rightarrow> effect_descriptor list \<Rightarrow> effect_descriptor option" where
  "find_in_library type uuid [] = None"
| "find_in_library type uuid (d # ds) =
     (if type \<noteq> None \<and> d_type d = the type then Some d
      else if uuid \<noteq> None \<and> d_uuid d = the uuid then Some d
      else find_in_library type uuid ds)"

fun find_loop_libs :: "'w factory \<Rightarrow> effect_uuid option \<Rightarrow> effect_uuid option \<Rightarrow> nat list
    \<Rightarrow> (nat \<times> effect_descriptor) option" where
  "find_loop_libs s type uuid [] = None"
| "find_loop_libs s type uuid (l # ls) =
     (case find_in_library type uuid (lib_effects (the_lib s l)) of
        Some d \<Rightarrow> Some (l, d)
      | None \<Rightarrow> find_loop_libs s type uuid ls)"

definition findEffect :: "effect_uuid option \<Rightarrow> effect_uuid option \<Rightarrow> 'w factory \<Rightarrow> int + (nat \<times> effect_descriptor)" where
  "findEffect type uuid s =
     (case find_loop_libs s type uuid (gLibraryList s) of None \<Rightarrow> Inl (- ENOENT) | Some r \<Rightarrow> Inr r)"

definition EffectGetDescriptor :: "'w effects_env \<Rightarrow> effect_uuid option \<Rightarrow> bool \<Rightarrow> 'w factory
    \<Rightarrow> int \<times> effect_descriptor option \<times> 'w factory" where
  "EffectGetDescriptor env uuid pDescriptor s =
     (let s = init env s in
      if \<not> pDescriptor \<or> uuid = None then (- EINVAL, None, s)
      else (case findEffect None uuid s of Inl e \<Rightarrow> (e, None, s) | Inr (l, d) \<Rightarrow> (0, Some d, s)))"

text \<open>\<open>mem\<close> is the address malloc answers for the new entry; the code does not look whether it is NULL.\<close>

definition EffectCreate :: "'w effects_env \<Rightarrow> nat option \<Rightarrow> effect_uuid option \<Rightarrow> int \<Rightarrow> int \<Rightarrow> bool \<Rightarrow> 'w factory
    \<Rightarrow> (int \<times> nat option \<times> 'w factory) option" where
  "EffectCreate env mem uuid sessionId ioId pHandle s =
     (if uuid = None \<or> \<not> pHandle then Some (- EINVAL, None, s)
      else (let s = init env s in
        case findEffect None uuid s of
          Inl e \<Rightarrow> Some (e, None, s)
        | Inr (l, d) \<Rightarrow>
            (case create_effect (lib_desc (the_lib s l)) (the uuid) sessionId ioId (libs_state s) of
               None \<Rightarrow> None
             | Some (ret, itfe, w) \<Rightarrow>
                 (let s = s\<lparr>libs_state := w\<rparr> in
                  if ret \<noteq> 0 then Some (ret, None, s)
                  else (case mem of
                    None \<Rightarrow> None
                  | Some fx \<Rightarrow>
                      (let i = (if if_process_reverse (sub_itfe env itfe) \<noteq> None then gInterfaceWithReverse else gInterface)
                       in Some (0, Some fx,
                            s\<lparr>entry_at := (entry_at s)(fx \<mapsto> \<lparr>fx_itfe = i, subItfe = itfe, fx_lib = Some l\<rparr>),
                              gEffectList := fx # gEffectList s\<rparr>)))))))"

definition EffectRelease :: "'w effects_env \<Rightarrow> nat \<Rightarrow> 'w factory \<Rightarrow> (int \<times> 'w factory) option" where
  "EffectRelease env handle s =
     (let s = init env s in
      if handle \<notin> set (gEffectList s) then Some (- ENOENT, s)
      else (let s = s\<lparr>gEffectList := remove1 handle (gEffectList s)\<rparr> in
        case entry_at s handle of
          None \<Rightarrow> None
        | Some fx \<Rightarrow>
            (let s = (case fx_lib fx of
                  None \<Rightarrow> s
                | Some l \<Rightarrow> s\<lparr>libs_state := release_effect (lib_desc (the_lib s l)) (subItfe fx) (libs_state s)\<rparr>)
             in Some (0, s\<lparr>entry_at := (entry_at s)(handle := None)\<rparr>))))"

section \<open>The interface of an effect\<close>

definition Effect_Process :: "'w effects_env \<Rightarrow> nat \<Rightarrow> nat \<Rightarrow> nat \<Rightarrow> 'w factory \<Rightarrow> (int \<times> 'w factory) option" where
  "Effect_Process env self inBuffer outBuffer s =
     (let s = init env s in
      case entry_at s self of
        None \<Rightarrow> None
      | Some fx \<Rightarrow>
          if fx_lib fx = None then Some (- EPIPE, s)
          else (case if_process (sub_itfe env (subItfe fx)) inBuffer outBuffer (libs_state s) of
                  None \<Rightarrow> None | Some (ret, w) \<Rightarrow> Some (ret, s\<lparr>libs_state := w\<rparr>)))"

definition Effect_Command :: "'w effects_env \<Rightarrow> nat \<Rightarrow> u32 \<Rightarrow> u32 \<Rightarrow> nat \<Rightarrow> nat \<Rightarrow> nat \<Rightarrow> 'w factory \<Rightarrow> (int \<times> 'w factory) option" where
  "Effect_Command env self cmdCode cmdSize pCmdData replySize pReplyData s =
     (let s = init env s in
      case entry_at s self of
        None \<Rightarrow> None
      | Some fx \<Rightarrow>
          if fx_lib fx = None then Some (- EPIPE, s)
          else (case if_command (sub_itfe env (subItfe fx)) cmdCode cmdSize pCmdData replySize pReplyData (libs_state s) of
                  None \<Rightarrow> None | Some (ret, w) \<Rightarrow> Some (ret, s\<lparr>libs_state := w\<rparr>)))"

definition Effect_GetDescriptor :: "'w effects_env \<Rightarrow> nat \<Rightarrow> 'w factory \<Rightarrow> (int \<times> effect_descriptor option \<times> 'w factory) option" where
  "Effect_GetDescriptor env self s =
     (let s = init env s in
      case entry_at s self of
        None \<Rightarrow> None
      | Some fx \<Rightarrow>
          if fx_lib fx = None then Some (- EPIPE, None, s)
          else (let (ret, d, w) = if_get_descriptor (sub_itfe env (subItfe fx)) (libs_state s)
                in Some (ret, Some d, s\<lparr>libs_state := w\<rparr>)))"

definition Effect_ProcessReverse :: "'w effects_env \<Rightarrow> nat \<Rightarrow> nat \<Rightarrow> nat \<Rightarrow> 'w factory \<Rightarrow> (int \<times> 'w factory) option" where
  "Effect_ProcessReverse env self inBuffer outBuffer s =
     (let s = init env s in
      case entry_at s self of
        None \<Rightarrow> None
      | Some fx \<Rightarrow>
          if fx_lib fx = None then Some (- EPIPE, s)
          else (case if_process_reverse (sub_itfe env (subItfe fx)) of
                  Some process_reverse \<Rightarrow>
                    (case process_reverse inBuffer outBuffer (libs_state s) of
                       None \<Rightarrow> None | Some (ret, w) \<Rightarrow> Some (ret, s\<lparr>libs_state := w\<rparr>))
                | None \<Rightarrow> Some (- ENOSYS, s)))"

text \<open>What a caller reaches through a handle's table: process_reverse is NULL in gInterface.\<close>

definition call_process_reverse :: "'w effects_env \<Rightarrow> nat \<Rightarrow> nat \<Rightarrow> nat \<Rightarrow> 'w factory \<Rightarrow> (int \<times> 'w factory) option" where
  "call_process_reverse env self inBuffer outBuffer s =
     (case entry_at s self of
        None \<Rightarrow> None
      | Some fx \<Rightarrow> (case fx_itfe fx of
          gInterface \<Rightarrow> None
        | gInterfaceWithReverse \<Rightarrow> Effect_ProcessReverse env self inBuffer outBuffer s))"

end
