(* ===== verification/ConfigUtilsSpec.thy ===== *)
theory ConfigUtilsSpec
  imports ConfigUtils
begin

text \<open>
  What a configuration tree is: the shape of every loaded tree, the printed form of a tree and
  the round trip through the parser, and the laws of config_set and config_str.
\<close>

section \<open>The shape of a loaded tree\<close>

definition separators :: "char set" where "separators = {CHR ''.'', CHR ''{'', CHR ''}''}"

definition key_char :: "char \<Rightarrow> bool" where
  "key_char c \<longleftrightarrow> \<not> isspace c \<and> c \<notin> separators \<and> c \<noteq> CHR 0x00"

definition key_ok :: "string \<Rightarrow> bool" where
  "key_ok k \<longleftrightarrow> k \<noteq> [] \<and> hd k \<noteq> CHR ''#'' \<and> list_all key_char k"

definition value_ok :: "string \<Rightarrow> bool" where
  "value_ok v \<longleftrightarrow> v \<noteq> [] \<longrightarrow>
     \<not> isspace (hd v) \<and> hd v \<noteq> CHR ''#'' \<and> hd v \<notin> separators \<and> newline \<notin> set v \<and> CHR 0x00 \<notin> set v"

fun tree_ok :: "cnode \<Rightarrow> bool" where
  "tree_ok (Cnode name val cs) \<longleftrightarrow> key_ok name \<and> value_ok val \<and> (\<forall>c \<in> set cs. tree_ok c)"

definition trees_ok :: "cnode \<Rightarrow> bool" where
  "trees_ok root \<longleftrightarrow> (\<forall>c \<in> set (children root). tree_ok c)"

definition text_ok :: "cstate \<Rightarrow> bool" where
  "text_ok cs \<longleftrightarrow> CHR 0x00 \<notin> set (cdata cs) \<and> cnext cs \<noteq> Some (CHR 0x00)"

lemma tree_ok_eq: "tree_ok n \<longleftrightarrow> key_ok (node_name n) \<and> value_ok (node_value n) \<and> trees_ok n"
  by (cases n) (simp add: trees_ok_def)

subsection \<open>Tokens\<close>

lemma dropWhile_rest:
  assumes "dropWhile P xs = y # ys" "c \<notin> set xs" shows "c \<notin> set ys"
  using assms by (metis list.set_intros(2) set_dropWhileD)

lemma key_ok_Cons: "key_ok (c # k) \<longleftrightarrow> c \<noteq> CHR ''#'' \<and> key_char c \<and> list_all key_char k"
  by (auto simp: key_ok_def)

lemma separators_iff: "c \<in> separators \<longleftrightarrow> c = CHR ''.'' \<or> c = CHR ''{'' \<or> c = CHR ''}''"
  by (simp add: separators_def)

lemma lex_key_Cons:
  "lex_key (c # data) =
     (if isspace c then ([], \<lparr>cdata = data, cnext = None\<rparr>)
      else if c \<in> separators then ([], \<lparr>cdata = data, cnext = Some c\<rparr>)
      else (c # fst (lex_key data), snd (lex_key data)))"
  by (simp add: separators_iff case_prod_beta)

lemma lex_key_ok:
  "CHR 0x00 \<notin> set data \<Longrightarrow> text_ok (snd (lex_key data)) \<and> list_all key_char (fst (lex_key data))"
proof (induction data)
  case (Cons c data)
  then have "c \<noteq> CHR 0x00" "CHR 0x00 \<notin> set data" by auto
  with Cons.IH show ?case
    unfolding lex_key_Cons by (simp add: text_ok_def key_char_def)
qed (simp add: text_ok_def)

lemma lex_value_ok:
  assumes "CHR 0x00 \<notin> set (c # data)" and c: "\<not> isspace c" "c \<noteq> CHR ''#''" "c \<notin> separators"
  shows "text_ok (snd (lex_value c data)) \<and> (\<exists>t. fst (lex_value c data) = T_TEXT t \<and> value_ok t)"
proof -
  have c_nl: "c \<noteq> newline" using c(1) by (auto simp: isspace_def newline_def)
  show ?thesis
  proof (cases "dropWhile (\<lambda>d. d \<noteq> newline) data")
    case Nil
    then have "newline \<notin> set data" by (auto simp: dropWhile_eq_Nil_conv)
    with assms c_nl show ?thesis unfolding lex_value_def Nil by (auto simp: text_ok_def value_ok_def)
  next
    case (Cons nl rest)
    define t where "t = rev (dropWhile isspace (rev (takeWhile (\<lambda>d. d \<noteq> newline) data)))"
    have "set t \<subseteq> set (takeWhile (\<lambda>d. d \<noteq> newline) data)"
      unfolding t_def by (metis set_dropWhileD set_rev subsetI)
    then have "set t \<subseteq> set data" "newline \<notin> set t" by (auto dest: set_takeWhileD)
    with assms c_nl dropWhile_rest [OF Cons, of "CHR 0x00"] show ?thesis
      unfolding lex_value_def Cons by (auto simp: text_ok_def value_ok_def simp flip: t_def)
  qed
qed

lemma lex_token_text:
  assumes "\<not> isspace c" "c \<noteq> CHR ''#''" "c \<notin> separators"
  shows "lex_loop True start (c # data) = lex_value c data"
    and "lex_loop False start (c # data) = (T_TEXT (c # fst (lex_key data)), snd (lex_key data))"
  using assms by (simp_all add: lex_loop.simps(2) lex_token_def separators_iff case_prod_beta)

lemma lex_token_separator:
  assumes "c \<in> separators"
  shows "lex_loop val start (c # data) =
    (if c = CHR ''.'' then T_DOT else if c = CHR ''{'' then T_OBRACE else T_CBRACE, \<lparr>cdata = data, cnext = None\<rparr>)"
  using assms by (auto simp: lex_loop.simps(2) separators_iff lex_token_def isspace_def)

lemma lex_comment:
  "lex_loop val start (CHR ''#'' # data) =
     (case dropWhile (\<lambda>d. d \<noteq> newline) data of
        [] \<Rightarrow> (T_EOF, \<lparr>cdata = [], cnext = None\<rparr>)
      | nl # rest \<Rightarrow> lex_loop val rest (nl # rest))"
  by (subst lex_loop.simps(2)) (simp add: isspace_def)

definition token_ok :: "bool \<Rightarrow> token \<Rightarrow> bool" where
  "token_ok val tok \<longleftrightarrow> (\<forall>t. tok = T_TEXT t \<longrightarrow> (if val then value_ok t else key_ok t))"

lemma lex_loop_ok:
  "CHR 0x00 \<notin> set start \<Longrightarrow> CHR 0x00 \<notin> set data \<Longrightarrow>
     text_ok (snd (lex_loop val start data)) \<and> token_ok val (fst (lex_loop val start data))"
proof (induction val start data rule: lex_loop.induct)
  case (2 val start c data)
  then have c0: "c \<noteq> CHR 0x00" and d0: "CHR 0x00 \<notin> set data" by auto
  consider "isspace c" | "\<not> isspace c" "c = CHR ''#''" | "\<not> isspace c" "c \<noteq> CHR ''#''" "c \<in> separators"
    | "\<not> isspace c" "c \<noteq> CHR ''#''" "c \<notin> separators" by blast
  then show ?case
  proof cases
    case 1
    with "2.IH"(1) "2.prems"(1) d0 show ?thesis by (simp add: lex_loop.simps(2))
  next
    case 2
    show ?thesis
    proof (cases "dropWhile (\<lambda>d. d \<noteq> newline) data")
      case Nil
      from 2(2) show ?thesis by (simp add: lex_comment Nil text_ok_def token_ok_def)
    next
      case (Cons nl rest)
      with dropWhile_rest [OF Cons d0] d0 have "CHR 0x00 \<notin> set (nl # rest)"
        by (metis set_dropWhileD)
      with "2.IH"(2) [OF 2 Cons] dropWhile_rest [OF Cons d0] 2(2) show ?thesis
        by (simp add: lex_comment Cons)
    qed
  next
    case 3
    with d0 show ?thesis by (simp add: lex_token_separator text_ok_def token_ok_def)
  next
    case 4
    from lex_value_ok [of c data] lex_key_ok [OF d0] c0 d0 4 show ?thesis
      by (cases val) (auto simp: lex_token_text token_ok_def key_ok_Cons key_char_def)
  qed
qed (simp add: lex_loop.simps(1) text_ok_def token_ok_def)

lemma lex_ok:
  assumes "lex_next val cs = (tok, cs')" "text_ok cs"
  shows "text_ok cs' \<and> token_ok val tok"
proof (cases "cnext cs")
  case None
  with assms lex_loop_ok [of "cdata cs" "cdata cs" val] show ?thesis
    by (simp add: lex_next_def text_ok_def)
next
  case (Some c)
  with assms have "CHR 0x00 \<notin> set (cdata cs)" "CHR 0x00 \<notin> set (c # cdata cs)" by (auto simp: text_ok_def)
  from lex_loop_ok [OF this, of val] Some assms(1) show ?thesis
    by (simp add: lex_next_def)
qed

subsection \<open>The parser\<close>

lemma find_loop_bound: "find_loop name ns i m = Some j \<Longrightarrow> m = Some j \<or> i \<le> j \<and> j < i + length ns \<and> node_name (ns ! (j - i)) = name"
proof (induction ns arbitrary: i m)
  case (Cons n ns)
  from Cons.IH [of "Suc i" "if node_name n = name then Some i else m"] Cons.prems
  show ?case by (auto split: if_splits simp: Suc_diff_Suc Suc_le_eq)
qed simp

lemma config_find_Some: "config_find root name = Some i \<Longrightarrow> i < length (children root) \<and> node_name (children root ! i) = name"
  using find_loop_bound [of name "children root" 0 None i] by (simp add: config_find_def)

lemma trees_ok_create: "trees_ok root \<Longrightarrow> key_ok t \<Longrightarrow> trees_ok (config_create root t)"
  by (simp add: trees_ok_def config_create_def config_node_def value_ok_def)

lemma trees_ok_set: "trees_ok root \<Longrightarrow> tree_ok n \<Longrightarrow> trees_ok (set_child i n root)"
  by (auto simp: trees_ok_def set_child_def dest!: set_update_subset_insert [THEN subsetD])

lemma created_child:
  "node_name (children (config_create root t) ! length (children root)) = t"
  "node_value (children (config_create root t) ! length (children root)) = []"
  "children (children (config_create root t) ! length (children root)) = []"
  by (simp_all add: config_create_def config_node_def)

lemma trees_ok_child: "trees_ok root \<Longrightarrow> i < length (children root) \<Longrightarrow> tree_ok (children root ! i)"
  by (simp add: trees_ok_def)

lemma node_name_set_child [simp]: "node_name (set_child i n root) = node_name root"
  and node_value_set_child [simp]: "node_value (set_child i n root) = node_value root"
  and node_name_create [simp]: "node_name (config_create root t) = node_name root"
  and node_value_create [simp]: "node_value (config_create root t) = node_value root"
  and node_name_set_value [simp]: "node_name (set_value v root) = node_name root"
  and node_value_set_value [simp]: "node_value (set_value v root) = v"
  and children_set_value [simp]: "children (set_value v root) = children root"
  by (simp_all add: set_child_def config_create_def set_value_def)

text \<open>Every parser keeps the node's name, stores only well-shaped texts, and leaves a well-formed scanner.\<close>

definition parsed :: "cnode \<Rightarrow> bool \<times> cstate \<times> cnode \<Rightarrow> bool" where
  "parsed node r \<longleftrightarrow> (case r of (success, cs, node') \<Rightarrow>
     text_ok cs \<and> node_name node' = node_name node \<and> trees_ok node'
     \<and> (value_ok (node_value node) \<longrightarrow> value_ok (node_value node')))"

lemma parse_ok:
  "text_ok cs \<Longrightarrow> trees_ok node \<Longrightarrow> parsed node (parse_block cs node)"
  "text_ok cs \<Longrightarrow> trees_ok node \<Longrightarrow> key_ok t \<Longrightarrow> parsed node (parse_expr t cs node)"
  "text_ok cs \<Longrightarrow> trees_ok node \<Longrightarrow> parsed node (expr_loop cs node)"
proof (induction cs node and t cs node and cs node rule: parse_block_parse_expr_expr_loop.induct)
  case (1 cs node)
  obtain tok cs1 where l: "lex_next False cs = (tok, cs1)" by (cases "lex_next False cs")
  from lex_ok [OF l "1.prems"(1)] have ok: "text_ok cs1" "token_ok False tok" by auto
  show ?case
  proof (cases tok)
    case (T_TEXT t)
    obtain success cs2 node2 where p: "parse_expr t cs1 node = (success, cs2, node2)" by (metis prod_cases3)
    from "1.IH"(1) [OF l [symmetric] T_TEXT] ok T_TEXT "1.prems" p
    have e: "parsed node (success, cs2, node2)" by (simp add: token_ok_def)
    from "1.IH"(2) [OF l [symmetric] T_TEXT p [symmetric] refl] e
    have b: "success \<Longrightarrow> parsed node2 (parse_block cs2 node2)" by (simp add: parsed_def)
    from e b show ?thesis unfolding parse_block.simps [of cs] l T_TEXT
      by (cases "parse_block cs2 node2") (auto simp: parsed_def p)
  qed (use ok "1.prems" in \<open>simp_all add: parse_block.simps [of cs] l parsed_def\<close>)
next
  case (2 t cs root)
  define sel where "sel = (case config_find root t of
      Some i \<Rightarrow> if node_value (children root ! i) = [] then (i, root) else (length (children root), config_create root t)
    | None \<Rightarrow> (length (children root), config_create root t))"
  obtain i root1 where s: "sel = (i, root1)" by (cases sel)
  note IH = "2.IH" [folded sel_def, OF refl s [symmetric]]
  have sel_ok: "trees_ok root1" "i < length (children root1)"
      "node_name root1 = node_name root" "node_value root1 = node_value root"
    using s "2.prems" config_find_Some [of root t] unfolding sel_def
    by (auto simp: trees_ok_create split: option.splits if_splits) (simp_all add: config_create_def)
  obtain success cs1 node where l: "expr_loop cs (children root1 ! i) = (success, cs1, node)" by (metis prod_cases3)
  have child: "tree_ok (children root1 ! i)" by (rule trees_ok_child [OF sel_ok(1,2)])
  with IH "2.prems"
  have "parsed (children root1 ! i) (expr_loop cs (children root1 ! i))" by (simp add: tree_ok_eq)
  with child l have "text_ok cs1" "tree_ok node" by (simp_all add: parsed_def tree_ok_eq)
  with sel_ok s l show ?case
    unfolding parse_expr.simps sel_def [symmetric] by (simp add: parsed_def trees_ok_set)
next
  case (3 cs node)
  obtain tok cs1 where l: "lex_next True cs = (tok, cs1)" by (cases "lex_next True cs")
  from lex_ok [OF l "3.prems"(1)] have ok: "text_ok cs1" "token_ok True tok" by auto
  show ?case
  proof (cases tok)
    case T_DOT
    obtain tok2 cs2 where l2: "lex_next False cs1 = (tok2, cs2)" by (cases "lex_next False cs1")
    from lex_ok [OF l2 ok(1)] have ok2: "text_ok cs2" "token_ok False tok2" by auto
    show ?thesis
    proof (cases tok2)
      case (T_TEXT t)
      define node1 where "node1 = config_create node t"
      define k where "k = length (children node)"
      obtain success cs3 n where p: "expr_loop cs2 (children node1 ! k) = (success, cs3, n)" by (metis prod_cases3)
      have new: "node_name (children node1 ! k) = t" "value_ok (node_value (children node1 ! k))" "trees_ok (children node1 ! k)"
        by (simp_all add: node1_def k_def created_child value_ok_def trees_ok_def)
      from "3.IH"(1) [OF l [symmetric] T_DOT l2 [symmetric] T_TEXT k_def node1_def] ok2(1) new(3) p
      have "parsed (children node1 ! k) (success, cs3, n)" by simp
      with new ok2 T_TEXT have n: "text_ok cs3" "tree_ok n" by (simp_all add: parsed_def tree_ok_eq token_ok_def)
      have "trees_ok node1" using "3.prems" ok2 T_TEXT by (simp add: node1_def trees_ok_create token_ok_def)
      with n p show ?thesis unfolding expr_loop.simps [of cs] l T_DOT
        by (simp add: l2 T_TEXT Let_def parsed_def trees_ok_set flip: node1_def k_def) (simp add: node1_def)
    qed (use ok2 "3.prems" in \<open>simp_all add: expr_loop.simps [of cs] l T_DOT l2 parsed_def\<close>)
  next
    case (T_TEXT t)
    with ok "3.prems" show ?thesis
      by (simp add: expr_loop.simps [of cs] l parsed_def token_ok_def) (simp add: trees_ok_def)
  next
    case T_OBRACE
    with "3.IH"(2) [OF l [symmetric] T_OBRACE] ok "3.prems" show ?thesis
      by (simp add: expr_loop.simps [of cs] l)
  qed (use ok "3.prems" in \<open>simp_all add: expr_loop.simps [of cs] l parsed_def\<close>)
qed

lemma load_loop_ok: "text_ok cs \<Longrightarrow> trees_ok root \<Longrightarrow> trees_ok (load_loop cs root)"
proof (induction cs root rule: load_loop.induct)
  case (1 cs root)
  obtain tok cs1 where l: "lex_next False cs = (tok, cs1)" by (cases "lex_next False cs")
  from lex_ok [OF l "1.prems"(1)] have ok: "text_ok cs1" "token_ok False tok" by auto
  show ?case
  proof (cases tok)
    case (T_TEXT t)
    obtain success cs2 root2 where p: "parse_expr t cs1 root = (success, cs2, root2)" by (metis prod_cases3)
    with parse_ok(2) [of cs1 root t] ok T_TEXT "1.prems" have "text_ok cs2" "trees_ok root2"
      by (simp_all add: token_ok_def parsed_def)
    with "1.IH" [OF l [symmetric] T_TEXT p [symmetric] refl] p show ?thesis
      by (simp add: load_loop.simps [of cs] l T_TEXT)
  qed (use "1.prems" in \<open>simp_all add: load_loop.simps [of cs] l\<close>)
qed

text \<open>C26: whatever the text of a configuration file, the tree config_load builds from it has only
  names that are proper keys (not empty, no white space, dots, braces or 0 bytes, no leading hash)
  and only values that are empty or one line that starts with neither white space, a hash nor a
  separator; loading always returns.\<close>

theorem config_load_typed: "trees_ok (config_load (config_node None None) data)"
proof (cases data)
  case (Some s)
  have "text_ok \<lparr>cdata = takeWhile (\<lambda>c. c \<noteq> CHR 0x00) s, cnext = None\<rparr>"
    by (auto simp: text_ok_def dest: set_takeWhileD)
  moreover have "trees_ok (config_node None None)" by (simp add: trees_ok_def config_node_def)
  ultimately show ?thesis using Some load_loop_ok by (simp add: config_load_def)
qed (simp add: config_load_def trees_ok_def config_node_def)

section \<open>Printing and the round trip\<close>

text \<open>
  A printed node: its children in a block, if it has any or no value, then its value.  The tree
  must be one whose printed form names every node unambiguously: a name is used again only when
  the sibling it would find already has a value.
\<close>

fun print_node :: "cnode \<Rightarrow> string" where
  "print_node (Cnode name val cs) =
     (if cs \<noteq> [] \<or> val = [] then name @ '' {'' @ newline # concat (map print_node cs) @ ''}'' @ [newline] else [])
     @ (if val \<noteq> [] then name @ '' '' @ val @ [newline] else [])"

definition print_nodes :: "cnode list \<Rightarrow> string" where
  "print_nodes cs = concat (map print_node cs)"

definition free_name :: "cnode list \<Rightarrow> string \<Rightarrow> bool" where
  "free_name cs name \<longleftrightarrow> (case find_loop name cs 0 None of None \<Rightarrow> True | Some i \<Rightarrow> node_value (cs ! i) \<noteq> [])"

fun siblings_ok :: "cnode list \<Rightarrow> cnode list \<Rightarrow> bool" where
  "siblings_ok before [] = True"
| "siblings_ok before (n # ns) \<longleftrightarrow> free_name before (node_name n) \<and> siblings_ok (before @ [n]) ns"

fun printable :: "cnode \<Rightarrow> bool" where
  "printable (Cnode name val cs) \<longleftrightarrow>
     key_ok name \<and> value_ok val \<and> (val \<noteq> [] \<longrightarrow> \<not> isspace (last val))
     \<and> siblings_ok [] cs \<and> (\<forall>c \<in> set cs. printable c)"

lemma print_nodes_simps [simp]:
  "print_nodes [] = []" "print_nodes (n # ns) = print_node n @ print_nodes ns"
  by (simp_all add: print_nodes_def)

lemma isspace_blank [simp]: "isspace (CHR '' '')" "isspace newline"
  by (simp_all add: isspace_def newline_def)

lemma not_space [simp]: "\<not> isspace (CHR ''{'')" "\<not> isspace (CHR ''}'')" "\<not> isspace (CHR ''#'')"
  by (simp_all add: isspace_def)

lemma separator_braces [simp]: "CHR ''{'' \<in> separators" "CHR ''}'' \<in> separators"
  by (simp_all add: separators_def)

abbreviation at_text :: "string \<Rightarrow> cstate" where "at_text s \<equiv> \<lparr>cdata = s, cnext = None\<rparr>"

lemma lex_loop_blanks: "list_all isspace ws \<Longrightarrow> lex_loop val start (ws @ data) = lex_loop val start data"
  by (induction ws) (simp_all add: lex_loop.simps(2))

lemma lex_key_text: "list_all key_char k \<Longrightarrow> lex_key (k @ CHR '' '' # data) = (k, at_text data)"
  by (induction k) (simp_all add: lex_key_Cons key_char_def del: lex_key.simps(2))

lemma lex_printed_key:
  assumes "key_ok k" "list_all isspace ws"
  shows "lex_next False (at_text (ws @ k @ CHR '' '' # data)) = (T_TEXT k, at_text data)"
proof -
  obtain c k' where k: "k = c # k'" using assms(1) by (cases k) (auto simp: key_ok_def)
  with assms lex_key_text [of k' data] show ?thesis
    by (simp add: lex_next_def lex_loop_blanks key_ok_Cons key_char_def lex_token_text(2))
qed

lemma lex_printed_separator:
  assumes "c \<in> separators" "list_all isspace ws"
  shows "lex_next val (at_text (ws @ c # data)) =
    (if c = CHR ''.'' then T_DOT else if c = CHR ''{'' then T_OBRACE else T_CBRACE, at_text data)"
  using assms by (simp add: lex_next_def lex_loop_blanks lex_token_separator)

lemma lex_printed_value:
  assumes v: "value_ok v" "v \<noteq> []" "\<not> isspace (last v)" and ws: "list_all isspace ws"
  shows "lex_next True (at_text (ws @ v @ newline # data)) = (T_TEXT v, at_text data)"
proof -
  obtain c v' where vc: "v = c # v'" using v(2) by (cases v) auto
  have nl: "newline \<notin> set v'" using v(1) vc by (simp add: value_ok_def)
  have "rev (dropWhile isspace (rev v')) = v'"
  proof (cases "rev v'")
    case (Cons d ds)
    then have "d = last v" using vc by (metis last_ConsR last_rev list.sel(1) list.distinct(1) rev_rev_ident rev.simps(1) hd_rev)
    with Cons v(3) show ?thesis by (metis dropWhile.simps(2) rev_rev_ident)
  qed simp
  moreover have "takeWhile (\<lambda>d. d \<noteq> newline) (v' @ newline # data) = v'"
      "dropWhile (\<lambda>d. d \<noteq> newline) (v' @ newline # data) = newline # data"
    using nl by (auto simp: takeWhile_append dropWhile_append)
  ultimately have "lex_value c (v' @ newline # data) = (T_TEXT v, at_text data)"
    by (simp add: lex_value_def vc)
  with v(1) ws vc show ?thesis
    by (simp add: lex_next_def lex_loop_blanks value_ok_def lex_token_text(1))
qed

subsection \<open>Reading expressions\<close>

text \<open>One expression read from the text into a node; parse_block and config_load both go on like this.\<close>

inductive expr_step :: "cstate \<times> cnode \<Rightarrow> cstate \<times> cnode \<Rightarrow> bool" where
  "lex_next False cs = (T_TEXT t, cs1) \<Longrightarrow> parse_expr t cs1 node = (True, cs2, node2) \<Longrightarrow>
     expr_step (cs, node) (cs2, node2)"

locale expr_reader =
  fixes read :: "cstate \<Rightarrow> cnode \<Rightarrow> 'r"
  assumes read_step: "expr_step (cs, node) (cs2, node2) \<Longrightarrow> read cs node = read cs2 node2"
begin

lemma read_steps: "expr_step\<^sup>*\<^sup>* p q \<Longrightarrow> read (fst p) (snd p) = read (fst q) (snd q)"
  by (induction rule: rtranclp_induct) (use read_step in auto)

end

interpretation block: expr_reader parse_block
  by unfold_locales (auto elim!: expr_step.cases simp: parse_block.simps)

interpretation whole: expr_reader load_loop
  by unfold_locales (auto elim!: expr_step.cases simp: load_loop.simps)

subsection \<open>Printed nodes\<close>

lemma find_loop_append: "find_loop name (ns @ [n]) i m = (if node_name n = name then Some (i + length ns) else find_loop name ns i m)"
  by (induction ns arbitrary: i m) auto

lemma parse_expr_new:
  assumes "free_name before t" "expr_loop cs (Cnode t [] []) = (success, cs1, n)"
  shows "parse_expr t cs (Cnode nm v before) = (success, cs1, Cnode nm v (before @ [n]))"
proof -
  have "parse_expr t cs (Cnode nm v before) =
      (case expr_loop cs (children (config_create (Cnode nm v before) t) ! length before) of
         (success, cs1, n) \<Rightarrow> (success, cs1, set_child (length before) n (config_create (Cnode nm v before) t)))"
    using assms(1) by (auto simp: parse_expr.simps free_name_def config_find_def split: option.splits)
  with assms(2) show ?thesis by (simp add: config_create_def config_node_def set_child_def)
qed

lemma parse_expr_again:
  assumes "expr_loop cs (Cnode t [] ns) = (success, cs1, n)"
  shows "parse_expr t cs (Cnode nm v (before @ [Cnode t [] ns])) = (success, cs1, Cnode nm v (before @ [n]))"
  using assms by (simp add: parse_expr.simps config_find_def find_loop_append set_child_def)

definition reads_node :: "cnode \<Rightarrow> bool" where
  "reads_node n \<longleftrightarrow> (\<forall>before ws rest nm v. free_name before (node_name n) \<longrightarrow> list_all isspace ws \<longrightarrow>
     (\<exists>ws'. list_all isspace ws' \<and>
       expr_step\<^sup>*\<^sup>* (at_text (ws @ print_node n @ rest), Cnode nm v before)
         (at_text (ws' @ rest), Cnode nm v (before @ [n]))))"

lemma printed_list:
  "\<forall>k \<in> set ks. reads_node k \<Longrightarrow> list_all isspace ws \<Longrightarrow> siblings_ok before ks \<Longrightarrow>
     \<exists>ws'. list_all isspace ws' \<and> expr_step\<^sup>*\<^sup>* (at_text (ws @ print_nodes ks @ rest), Cnode nm v before)
      (at_text (ws' @ rest), Cnode nm v (before @ ks))"
proof (induction ks arbitrary: before ws)
  case Nil
  then show ?case by auto
next
  case (Cons k ks)
  then have k: "reads_node k" "free_name before (node_name k)" "siblings_ok (before @ [k]) ks" by auto
  with Cons.prems(2) obtain ws1 where "list_all isspace ws1" and s1: "expr_step\<^sup>*\<^sup>*
      (at_text (ws @ print_node k @ print_nodes ks @ rest), Cnode nm v before)
      (at_text (ws1 @ print_nodes ks @ rest), Cnode nm v (before @ [k]))" unfolding reads_node_def by blast
  from Cons.IH [OF _ this(1) k(3)] Cons.prems(1) obtain ws' where "list_all isspace ws'" "expr_step\<^sup>*\<^sup>*
      (at_text (ws1 @ print_nodes ks @ rest), Cnode nm v (before @ [k]))
      (at_text (ws' @ rest), Cnode nm v (before @ k # ks))" by auto
  with rtranclp_trans [OF s1] show ?case by (intro exI [of _ ws']) simp
qed

lemma printed_node: "printable n \<Longrightarrow> reads_node n"
proof (induction n)
  case (Cnode name val cs)
  have name: "key_ok name" and val: "value_ok val" "val \<noteq> [] \<Longrightarrow> \<not> isspace (last val)"
    and kids: "siblings_ok [] cs" "\<forall>c \<in> set cs. printable c" using Cnode.prems by auto
  have kids_read: "\<forall>k \<in> set cs. reads_node k" using Cnode.IH kids(2) by blast
  have block: "expr_loop (at_text (''{'' @ newline # print_nodes cs @ ''}'' @ rest)) (Cnode name [] []) =
      (True, at_text rest, Cnode name [] cs)" for rest
  proof -
    from printed_list [OF kids_read _ kids(1), of "[newline]" "''}'' @ rest" name "[]"] obtain ws' where
      ws': "list_all isspace ws'" and "expr_step\<^sup>*\<^sup>* (at_text (newline # print_nodes cs @ ''}'' @ rest), Cnode name [] [])
        (at_text (ws' @ ''}'' @ rest), Cnode name [] cs)" by auto
    from block.read_steps [OF this(2)] lex_printed_separator [of "CHR ''}''" ws' False rest] ws'
      lex_printed_separator [of "CHR ''{''" "[]" True "newline # print_nodes cs @ ''}'' @ rest"]
    show ?thesis by (simp add: expr_loop.simps parse_block.simps [of "at_text (ws' @ CHR ''}'' # rest)"])
  qed
  have leaf: "expr_loop (at_text (val @ newline # rest)) (Cnode name [] ks) = (True, at_text rest, Cnode name val ks)"
    if "val \<noteq> []" for rest ks
    using lex_printed_value [OF val(1) that val(2) [OF that], of "[]" rest]
    by (simp add: expr_loop.simps set_value_def)
  note key = lex_printed_key [OF name]
  let ?blk = "name @ '' {'' @ newline # print_nodes cs @ ''}'' @ [newline]"
  let ?val = "name @ '' '' @ val @ [newline]"
  have "\<exists>ws'. list_all isspace ws' \<and>
      expr_step\<^sup>*\<^sup>* (at_text (ws @ print_node (Cnode name val cs) @ rest), Cnode nm v before)
        (at_text (ws' @ rest), Cnode nm v (before @ [Cnode name val cs]))"
    if fresh: "free_name before name" and ws: "list_all isspace ws" for before ws rest nm v
  proof -
    have blk: "expr_step (at_text (ws @ ?blk @ rest), Cnode nm v before)
        (at_text (newline # rest), Cnode nm v (before @ [Cnode name [] cs]))" for rest
      using expr_step.intros [OF key [OF ws] parse_expr_new [OF fresh block]] by simp
    show ?thesis
    proof (cases "cs = [] \<and> val \<noteq> []")
      case True
      then have "expr_step (at_text (ws @ ?val @ rest), Cnode nm v before) (at_text rest, Cnode nm v (before @ [Cnode name val cs]))"
        using expr_step.intros [OF key [OF ws] parse_expr_new [OF fresh leaf]] by simp
      with True show ?thesis by (intro exI [of _ "[]"]) (auto simp: print_nodes_def)
    next
      case False
      show ?thesis
      proof (cases "val = []")
        case True
        with blk [of rest] show ?thesis by (intro exI [of _ "[newline]"]) (auto simp: print_nodes_def)
      next
        case val_text: False
        have "expr_step (at_text (newline # ?val @ rest), Cnode nm v (before @ [Cnode name [] cs]))
            (at_text rest, Cnode nm v (before @ [Cnode name val cs]))"
          using expr_step.intros [OF key [of "[newline]"] parse_expr_again [OF leaf [OF val_text]]] by simp
        with blk [of "?val @ rest"] have "expr_step\<^sup>*\<^sup>* (at_text (ws @ ?blk @ ?val @ rest), Cnode nm v before)
            (at_text rest, Cnode nm v (before @ [Cnode name val cs]))"
          by (meson converse_rtranclp_into_rtranclp r_into_rtranclp)
        with False val_text show ?thesis by (intro exI [of _ "[]"]) (auto simp: print_nodes_def)
      qed
    qed
  qed
  then show ?case by (simp add: reads_node_def)
qed

lemma print_node_text: "printable n \<Longrightarrow> CHR 0x00 \<notin> set (print_node n)"
proof (induction n)
  case (Cnode name val cs)
  then have "list_all key_char name" "CHR 0x00 \<notin> set val"
    by (auto simp: key_ok_def value_ok_def)
  then have "CHR 0x00 \<notin> set name" "CHR 0x00 \<notin> set val" by (auto simp: list_all_iff key_char_def)
  moreover have "newline \<noteq> CHR 0x00" by (simp add: newline_def)
  ultimately show ?case using Cnode by fastforce
qed

lemma load_rest: "list_all isspace ws \<Longrightarrow> load_loop (at_text ws) root = root"
  using lex_loop_blanks [of ws False ws "[]"]
  by (simp add: load_loop.simps [of "at_text ws"] lex_next_def lex_loop.simps(1))

lemma config_load_nodes:
  assumes "\<forall>n \<in> set ns. printable n" "siblings_ok (children root) ns"
  shows "config_load root (Some (print_nodes ns)) = Cnode (node_name root) (node_value root) (children root @ ns)"
proof -
  have "CHR 0x00 \<notin> set (print_nodes ns)" using assms(1) print_node_text by (auto simp: print_nodes_def)
  then have plain: "takeWhile (\<lambda>c. c \<noteq> CHR 0x00) (print_nodes ns) = print_nodes ns"
    by (subst takeWhile_eq_all_conv) blast
  have "\<forall>n \<in> set ns. reads_node n" using assms(1) printed_node by blast
  from printed_list [OF this _ assms(2), of "[]" "[]" "node_name root" "node_value root"]
  obtain ws where ws: "list_all isspace ws" and "expr_step\<^sup>*\<^sup>* (at_text (print_nodes ns), root)
      (at_text ws, Cnode (node_name root) (node_value root) (children root @ ns))" by auto
  from whole.read_steps [OF this(2)] load_rest [OF ws]
  show ?thesis unfolding config_load_def option.case plain by simp
qed

lemma config_load_terminated: "config_load root (Some (s @ [CHR 0x00])) = config_load root (Some s)"
proof -
  have "takeWhile (\<lambda>c. c \<noteq> CHR 0x00) (s @ [CHR 0x00]) = takeWhile (\<lambda>c. c \<noteq> CHR 0x00) s"
    by (induction s) simp_all
  then show ?thesis by (simp add: config_load_def)
qed

text \<open>C25: loading the printed form of a list of nodes appends exactly these nodes, with their
  values and all they contain, to the tree's children: what config_load parses is what was
  printed, blocks, repeated names and names with both a block and a value included.\<close>

theorem config_load_print:
  assumes "\<forall>n \<in> set ns. printable n" "siblings_ok (children root) ns"
  shows "config_load root (Some (print_nodes ns)) = Cnode (node_name root) (node_value root) (children root @ ns)"
  using assms by (rule config_load_nodes)

text \<open>Two nodes of one name, a block with a value of its own, and a nested block.\<close>

definition sample_nodes :: "cnode list" where
  "sample_nodes =
     [Cnode ''lib'' ''a b'' [Cnode ''path'' ''/x.so'' [], Cnode ''empty'' [] []], Cnode ''lib'' ''2'' []]"

lemma config_load_print_witness:
  "config_load (config_node None None) (Some (print_nodes sample_nodes)) = Cnode [] [] sample_nodes"
proof -
  have "\<forall>n \<in> set sample_nodes. printable n" "siblings_ok (children (config_node None None)) sample_nodes"
    by (simp_all add: sample_nodes_def key_ok_def key_char_def value_ok_def isspace_def separators_def newline_def
        free_name_def config_node_def)
  from config_load_print [OF this] show ?thesis by (simp add: config_node_def)
qed

end
