(* ===== verification/EffectsSpec.thy ===== *)
theory EffectsSpec
  imports EffectsFactory ConfigUtilsSpec
begin

text \<open>
  Theorems on the effects factory: identifiers survive printing and reading, the enumeration
  is indexing in the libraries' lists, handles live from their creation to their release, and a
  configuration file is loaded as exactly the libraries and effects it names, as far as they open
  and are described (\<open>open_libraries\<close>, \<open>describe_effects\<close>).
\<close>

section \<open>Identifiers\<close>

lemma hex_value_char: "d < 16 \<Longrightarrow> hex_value (hex_char d) = Some d"
  by (auto simp: hex_value_def hex_char_def Let_def)

lemma hex_value_plain: "hex_value c = Some d \<Longrightarrow> \<not> isspace c \<and> c \<notin> {CHR ''-'', CHR ''+'', CHR ''x'', CHR ''X''}"
  by (auto simp: hex_value_def isspace_def Let_def split: if_splits)

lemma length_hex_of [simp]: "length (hex_of n v) = n"
  by (induction n arbitrary: v) simp_all

lemma hex_of_digits: "c \<in> set (hex_of n v) \<Longrightarrow> \<exists>d < 16. c = hex_char d"
proof (induction n arbitrary: v)
  case (Suc n)
  then show ?case by (auto intro: exI [of _ "v mod 16"])
qed simp

lemma hex_digits_of: "hex_digits (n + m) (hex_of n v @ s) a = hex_digits m s (16 ^ n * a + v mod 16 ^ n)"
proof (induction n arbitrary: v m s)
  case (Suc n)
  have "16 * (16 ^ n * a + v div 16 mod 16 ^ n) + v mod 16 = 16 ^ Suc n * a + v mod 16 ^ Suc n"
    by (simp add: mod_mult2_eq algebra_simps)
  with Suc.IH [of "Suc m" "v div 16" "hex_char (v mod 16) # s"] show ?case
    by (simp add: hex_value_char del: power_Suc)
qed simp

lemma scan_hex_of:
  assumes "v < 16 ^ n" "0 < n"
  shows "scan_hex n (hex_of n v @ s) = Some (of_nat v, s)"
proof -
  obtain c r where cr: "hex_of n v = c # r" using assms(2) length_hex_of [of n v] by (cases "hex_of n v") auto
  obtain d where "hex_value c = Some d" using hex_of_digits [of c n v] cr hex_value_char by auto
  note c = this hex_value_plain [OF this]
  have "take 2 (c # r @ s) \<noteq> ''0x'' \<and> take 2 (c # r @ s) \<noteq> ''0X''" if "2 \<le> n"
  proof -
    have "length (c # r) = n" using cr length_hex_of by metis
    with that obtain c2 r2 where r: "r = c2 # r2" by (cases r) auto
    with hex_of_digits [of c2 n v] cr hex_value_char obtain d2 where "hex_value c2 = Some d2" by auto
    from hex_value_plain [OF this] r show ?thesis by auto
  qed
  then have "scan_number n (c # r @ s) = Some (hex_digits n (c # r @ s) 0)"
    using assms(2) c(1) by (auto simp: scan_number_def)
  also have "\<dots> = Some (v, s)" using hex_digits_of [of n 0 v s 0] assms(1) cr by (simp add: mod_less)
  finally show ?thesis using c(2) cr by (simp add: scan_hex_def)
qed

lemma scan_dash_dash [simp]: "scan_dash (CHR ''-'' # s) = Some s"
  by (simp add: scan_dash_def)

lemma scan_field:
  "scan_hex 8 (hex_of 8 (unat (a :: u32)) @ s) = Some (a, s)"
  "scan_hex 4 (hex_of 4 (unat (b :: u16)) @ s) = Some (ucast b, s)"
  "scan_hex 2 (hex_of 2 (unat (c :: u8)) @ s) = Some (ucast c, s)"
  using scan_hex_of [of "unat a" 8 s] scan_hex_of [of "unat b" 4 s] scan_hex_of [of "unat c" 2 s]
    unsigned_less [of a] unsigned_less [of b] unsigned_less [of c] by simp_all

lemma ucast_back: "(ucast (ucast (b :: u16) :: u32) :: u16) = b" "(ucast (ucast (c :: u8) :: u32) :: u8) = c"
  by (simp_all add: ucast_down_ucast_id is_down)

lemma uuidToString_full:
  assumes "36 < m"
  shows "uuidToString uuid m =
       hex_of 8 (unat (timeLow uuid)) @ ''-'' @ hex_of 4 (unat (timeMid uuid)) @ ''-'' @
        hex_of 4 (unat (timeHiAndVersion uuid)) @ ''-'' @ hex_of 4 (unat (clockSeq uuid)) @ ''-'' @
        hex_of 2 (unat (node0 uuid)) @ hex_of 2 (unat (node1 uuid)) @ hex_of 2 (unat (node2 uuid)) @
        hex_of 2 (unat (node3 uuid)) @ hex_of 2 (unat (node4 uuid)) @ hex_of 2 (unat (node5 uuid))"
  using assms unfolding uuidToString_def by (intro take_all) simp

lemma uuid_read: "stringToUuid (uuidToString uuid (37 + n) @ s) = Some uuid"
  unfolding stringToUuid_def uuidToString_full [of "37 + n" uuid, simplified]
  by (simp add: scan_field [simplified] scan_field ucast_back)

lemma length_hex_upper_of [simp]: "length (hex_upper_of n v) = n"
  by (induction n arbitrary: v) simp_all

text \<open>
  With names that end within their 64 bytes, the text fits the callers' 256 bytes; all that
  was written before the type is lost.
\<close>

lemma dump_fits:
  assumes "length (d_name d) < 64" "length (implementor d) < 64"
  shows "length (dumpEffectDescriptor ptr d 256) < 256"
proof -
  have len: "length (uuidToString (d_type d) 256) = 36" by (simp add: uuidToString_full)
  with assms show ?thesis
    by (simp add: dumpEffectDescriptor_def Let_def strncat_def)
qed

lemma dump_forgets_uuid:
  "dumpEffectDescriptor ptr (d\<lparr>d_uuid := u\<rparr>) len = dumpEffectDescriptor ptr d len"
  by (simp add: dumpEffectDescriptor_def Let_def)

text \<open>An identifier printed by uuidToString is read back by stringToUuid as the same identifier,
  whatever text follows the 36 characters; the printed form fits every buffer of 37 bytes.\<close>

theorem uuid_roundtrip: "stringToUuid (uuidToString uuid (37 + n) @ s) = Some uuid"
  by (rule uuid_read)

section \<open>The factory's state\<close>

definition effects_of :: "'w factory \<Rightarrow> nat list \<Rightarrow> effect_descriptor list" where
  "effects_of s ls = concat (map (\<lambda>l. lib_effects (the_lib s l)) ls)"

abbreviation all_effects :: "'w factory \<Rightarrow> effect_descriptor list" where
  "all_effects s \<equiv> effects_of s (gLibraryList s)"

text \<open>The cursor of the enumeration is at the effect number gCurEffectIdx of the concatenated lists.\<close>

definition cursor_at :: "'w factory \<Rightarrow> nat list \<Rightarrow> effect_descriptor list \<Rightarrow> u32 \<Rightarrow> bool" where
  "cursor_at s ls efx idx \<longleftrightarrow>
     (case ls of
        [] \<Rightarrow> gLibraryList s = []
      | l # ks \<Rightarrow> \<exists>before seen. gLibraryList s = before @ l # ks \<and> lib_effects (the_lib s l) = seen @ efx
                   \<and> unat idx = length (effects_of s before) + length seen)"

definition libraries_ok :: "'w factory \<Rightarrow> bool" where
  "libraries_ok s \<longleftrightarrow> gLibraryList s = rev [0..<length (gLibraryList s)]
     \<and> dom (lib_at s) = set (gLibraryList s)
     \<and> (\<forall>l. gCachedLibrary s = Some l \<longrightarrow> l \<in> set (gLibraryList s))"

definition handles_ok :: "'w effects_env \<Rightarrow> 'w factory \<Rightarrow> bool" where
  "handles_ok env s \<longleftrightarrow> distinct (gEffectList s) \<and> set (gEffectList s) = dom (entry_at s)
     \<and> (\<forall>h fx. entry_at s h = Some fx \<longrightarrow>
          (\<exists>l \<in> set (gLibraryList s). fx_lib fx = Some l)
          \<and> (fx_itfe fx = gInterfaceWithReverse \<longleftrightarrow> if_process_reverse (sub_itfe env (subItfe fx)) \<noteq> None))"

definition factory_ok :: "'w effects_env \<Rightarrow> 'w factory \<Rightarrow> bool" where
  "factory_ok env s \<longleftrightarrow> libraries_ok s \<and> handles_ok env s
     \<and> (if gInitDone s
        then gNumEffects s = of_nat (length (all_effects s)) \<and> cursor_at s (gCurLib s) (gCurEffect s) (gCurEffectIdx s)
        else gLibraryList s = [] \<and> gEffectList s = [] \<and> gCachedLibrary s = None)"

subsection \<open>Loading keeps the libraries well-formed\<close>

lemma effects_of_simps [simp]:
  "effects_of s [] = []" "effects_of s (l # ls) = lib_effects (the_lib s l) @ effects_of s ls"
  "effects_of s (ls @ ks) = effects_of s ls @ effects_of s ks"
  by (simp_all add: effects_of_def)

lemma libraries_ok_world [simp]: "libraries_ok (s\<lparr>libs_state := w\<rparr>) = libraries_ok s"
  by (simp add: libraries_ok_def)

lemma libraries_ok_add:
  assumes "libraries_ok s"
  shows "libraries_ok (s\<lparr>libs_state := w, lib_at := (lib_at s)(length (gLibraryList s) \<mapsto> e),
    gLibraryList := length (gLibraryList s) # gLibraryList s\<rparr>)"
proof -
  have "length (gLibraryList s) # gLibraryList s = rev [0..<Suc (length (gLibraryList s))]"
    using assms by (simp add: libraries_ok_def)
  with assms show ?thesis by (auto simp: libraries_ok_def)
qed

text \<open>Of the handles, loading touches nothing.\<close>

definition same_handles :: "'w factory \<Rightarrow> 'w factory \<Rightarrow> bool" where
  "same_handles s t \<longleftrightarrow> gEffectList t = gEffectList s \<and> entry_at t = entry_at s"

lemma same_handles_trans: "same_handles s t \<Longrightarrow> same_handles t u \<Longrightarrow> same_handles s u"
  by (simp add: same_handles_def)

lemma loadLibrary_ok:
  assumes "libraries_ok s"
  shows "libraries_ok (snd (loadLibrary env n name s)) \<and> same_handles s (snd (loadLibrary env n name s))"
  using assms
  by (auto simp: loadLibrary_def Let_def same_handles_def libraries_ok_add split: option.splits prod.splits)

lemma load_libraries_loop_ok:
  "libraries_ok s \<Longrightarrow> libraries_ok (load_libraries_loop env ns s) \<and> same_handles s (load_libraries_loop env ns s)"
proof (induction ns arbitrary: s)
  case (Cons n ns)
  from loadLibrary_ok [OF Cons.prems, of env n "node_name n"] Cons.IH [of "snd (loadLibrary env n (node_name n) s)"]
  show ?case by (auto intro: same_handles_trans)
qed (simp add: same_handles_def)

lemma find_library_member: "find_library s name ls = Some l \<Longrightarrow> l \<in> set ls"
  by (induction ls) (auto split: if_splits)

lemma getLibrary_ok:
  assumes "libraries_ok s" "getLibrary name s = (r, s')"
  shows "\<exists>c. s' = s\<lparr>gCachedLibrary := c\<rparr> \<and> libraries_ok s' \<and> (\<forall>l. r = Some l \<longrightarrow> l \<in> set (gLibraryList s))"
proof (cases r)
  case None
  with assms have "s' = s" by (auto simp: getLibrary_def scan_libraries_def split: option.splits if_splits)
  with None assms(1) show ?thesis by (intro exI [of _ "gCachedLibrary s"]) simp
next
  case (Some l)
  with assms have "s' = s\<lparr>gCachedLibrary := Some l\<rparr> \<and> l \<in> set (gLibraryList s)"
    by (auto simp: getLibrary_def scan_libraries_def libraries_ok_def dest: find_library_member split: option.splits if_splits)
  with Some assms(1) show ?thesis by (intro exI [of _ "Some l"]) (simp add: libraries_ok_def)
qed

lemma libraries_ok_effect:
  "libraries_ok s \<Longrightarrow> l \<in> set (gLibraryList s) \<Longrightarrow> libraries_ok (s\<lparr>libs_state := w, lib_at := (lib_at s)(l \<mapsto> e)\<rparr>)"
  by (auto simp: libraries_ok_def)

lemma loadEffect_ok:
  assumes "libraries_ok s"
  shows "libraries_ok (snd (loadEffect n s)) \<and> same_handles s (snd (loadEffect n s))"
proof (cases "config_find n ''library''")
  case None
  with assms show ?thesis by (simp add: loadEffect_def same_handles_def)
next
  case (Some i)
  obtain r t where g: "getLibrary (node_value (children n ! i)) s = (r, t)" by (cases "getLibrary (node_value (children n ! i)) s")
  from getLibrary_ok [OF assms g] obtain c where t: "t = s\<lparr>gCachedLibrary := c\<rparr>" "libraries_ok t"
      "\<And>l. r = Some l \<Longrightarrow> l \<in> set (gLibraryList t)" by auto
  then have "same_handles s t" by (simp add: same_handles_def)
  with t Some g libraries_ok_effect [OF t(2)] show ?thesis
    by (auto simp: loadEffect_def same_handles_def Let_def split: option.splits prod.splits)
qed

lemma load_effects_loop_ok:
  "libraries_ok s \<Longrightarrow> libraries_ok (load_effects_loop ns s) \<and> same_handles s (load_effects_loop ns s)"
proof (induction ns arbitrary: s)
  case (Cons n ns)
  from loadEffect_ok [OF Cons.prems, of n] Cons.IH [of "snd (loadEffect n s)"]
  show ?case by (auto intro: same_handles_trans)
qed (simp add: same_handles_def)

lemma loadEffectConfigFile_ok:
  assumes "libraries_ok s"
  shows "libraries_ok (snd (loadEffectConfigFile env path s)) \<and> same_handles s (snd (loadEffectConfigFile env path s))"
proof -
  have l: "libraries_ok (snd (loadLibraries env root s)) \<and> same_handles s (snd (loadLibraries env root s))" for root
    using assms by (auto simp: loadLibraries_def load_libraries_loop_ok split: option.splits) (simp add: same_handles_def)
  have e: "libraries_ok t \<Longrightarrow> libraries_ok (snd (loadEffects root t)) \<and> same_handles t (snd (loadEffects root t))" for root and t :: "'a factory"
    by (auto simp: loadEffects_def load_effects_loop_ok split: option.splits) (simp add: same_handles_def)
  show ?thesis
  proof (cases "load_file (read_file env) path")
    case None
    with assms show ?thesis by (simp add: loadEffectConfigFile_def same_handles_def)
  next
    case (Some data)
    let ?root = "config_load (config_node (Some []) (Some [])) (Some data)"
    from l [of ?root] e [of "snd (loadLibraries env ?root s)" ?root] Some show ?thesis
      by (auto simp: loadEffectConfigFile_def Let_def intro: same_handles_trans)
  qed
qed

subsection \<open>Initialisation\<close>

lemma count_effects_eq: "count_effects s ls c = c + of_nat (length (effects_of s ls))"
  by (induction ls arbitrary: c) (simp_all add: algebra_simps)

lemma the_lib_cong: "lib_at t = lib_at s \<Longrightarrow> the_lib t l = the_lib s l"
  by (simp add: the_lib_def)

lemma effects_of_cong: "lib_at t = lib_at s \<Longrightarrow> effects_of t ls = effects_of s ls"
  by (simp add: effects_of_def the_lib_def)

lemma cursor_at_cong:
  "lib_at t = lib_at s \<Longrightarrow> gLibraryList t = gLibraryList s \<Longrightarrow> cursor_at t ls efx idx = cursor_at s ls efx idx"
  by (simp add: cursor_at_def effects_of_cong [of t s] the_lib_cong [of t s] cong: list.case_cong)

lemma cursor_at_reset:
  "cursor_at s (gLibraryList s) (case gLibraryList s of [] \<Rightarrow> [] | l # _ \<Rightarrow> lib_effects (the_lib s l)) 0"
  by (auto simp: cursor_at_def split: list.splits)

lemma updateNumEffects_eq:
  "updateNumEffects s = s\<lparr>gNumEffects := of_nat (length (all_effects s)), gCurLib := gLibraryList s,
     gCurEffect := (case gLibraryList s of [] \<Rightarrow> [] | l # _ \<Rightarrow> lib_effects (the_lib s l)),
     gCurEffectIdx := 0, gCanQueryEffect := False\<rparr>"
proof -
  have "count_effects (resetEffectEnumeration s) ls 0 = of_nat (length (effects_of s ls))" for ls
    using effects_of_cong [of "resetEffectEnumeration s" s ls]
    by (simp add: count_effects_eq) (simp add: resetEffectEnumeration_def)
  then show ?thesis unfolding updateNumEffects_def Let_def by (simp add: resetEffectEnumeration_def)
qed

lemma updateNumEffects_ok:
  assumes "libraries_ok s" "handles_ok env s"
  shows "factory_ok env ((updateNumEffects s)\<lparr>gInitDone := True\<rparr>)"
proof -
  define t where "t = (updateNumEffects s)\<lparr>gInitDone := True\<rparr>"
  have t: "lib_at t = lib_at s" "gLibraryList t = gLibraryList s" "gCachedLibrary t = gCachedLibrary s"
    "gEffectList t = gEffectList s" "entry_at t = entry_at s" "gInitDone t"
    "gNumEffects t = of_nat (length (all_effects s))"
    by (simp_all add: t_def updateNumEffects_eq)
  have "cursor_at s (gCurLib t) (gCurEffect t) (gCurEffectIdx t)"
    using cursor_at_reset [of s] by (simp add: t_def updateNumEffects_eq)
  then show ?thesis unfolding t_def [symmetric] using assms t
    by (simp add: factory_ok_def libraries_ok_def handles_ok_def effects_of_cong [OF t(1)] cursor_at_cong [OF t(1,2)])
qed

lemma init_ok:
  assumes "factory_ok env s"
  shows "factory_ok env (init env s) \<and> same_handles s (init env s) \<and> gInitDone (init env s)"
proof (cases "gInitDone s")
  case True
  with assms show ?thesis by (simp add: init_def same_handles_def)
next
  case False
  define t where "t = (if can_read env vendor_config then snd (loadEffectConfigFile env vendor_config s)
      else if can_read env system_config then snd (loadEffectConfigFile env system_config s) else s)"
  have "libraries_ok s" "gEffectList s = []" "handles_ok env s" using assms False by (simp_all add: factory_ok_def)
  then have t: "libraries_ok t" "same_handles s t" using loadEffectConfigFile_ok by (auto simp: t_def same_handles_def)
  with \<open>gEffectList s = []\<close> \<open>handles_ok env s\<close> have "handles_ok env t"
    by (auto simp: handles_ok_def same_handles_def dom_def)
  from updateNumEffects_ok [OF t(1) this] have "factory_ok env (init env s)"
    using False by (simp add: init_def t_def [symmetric])
  moreover have "same_handles s (init env s)" "gInitDone (init env s)"
    using t(2) False by (simp_all add: init_def same_handles_def updateNumEffects_eq flip: t_def)
  ultimately show ?thesis by simp
qed

section \<open>The enumeration\<close>

text \<open>From a cursor that is not past it, the search finds the effect with the index asked for.\<close>

lemma query_loop_finds:
  assumes "cursor_at s ls efx idx" "unat index < length (all_effects s)" "unat idx \<le> unat index"
  shows "\<exists>ls' efx'. query_loop s index ls efx idx = Some (Some (all_effects s ! unat index), ls', efx', index)
           \<and> cursor_at s ls' efx' index"
  using assms
proof (induction s index ls efx idx rule: query_loop.induct)
  case (1 s index efx idx)
  then show ?case by (simp add: cursor_at_def)
next
  case (2 s index l ls d ds idx)
  from "2.prems"(1) obtain before seen where at: "gLibraryList s = before @ l # ls"
      "lib_effects (the_lib s l) = seen @ d # ds" "unat idx = length (effects_of s before) + length seen"
    by (auto simp: cursor_at_def)
  show ?case
  proof (cases "index = idx")
    case True
    have "all_effects s ! unat idx = d" using at by (simp add: nth_append)
    with True "2.prems"(1) show ?thesis by simp
  next
    case False
    with "2.prems"(3) have less: "unat idx < unat index" by (metis le_neq_implies_less unsigned_word_eqI)
    have "unat (idx + 1) = Suc (unat idx)"
    proof -
      have "unat index < 4294967296" using unsigned_less [of index] by simp
      with less have "unat idx + 1 < 2 ^ 32" by simp
      then show ?thesis by (simp add: unat_word_ariths)
    qed
    moreover from this at have "cursor_at s (l # ls) ds (idx + 1)"
      unfolding cursor_at_def by (auto intro!: exI [of _ before] exI [of _ "seen @ [d]"])
    ultimately show ?thesis using "2.IH" [OF False] "2.prems"(2) less False by simp
  qed
next
  case (3 s index l ls idx)
  from "3.prems"(1) obtain before where at: "gLibraryList s = before @ l # ls"
      "unat idx = length (effects_of s (before @ [l]))"
    by (auto simp: cursor_at_def)
  show ?case
  proof (cases ls)
    case Nil
    with at "3.prems"(2,3) show ?thesis by simp
  next
    case (Cons k ks)
    with at have "cursor_at s ls (lib_effects (the_lib s k)) idx"
      unfolding cursor_at_def Cons by (auto intro!: exI [of _ "before @ [l]"])
    with "3.IH" [OF Cons] "3.prems"(2,3) Cons show ?thesis by simp
  qed
qed

text \<open>The lists behind the cursor do not change.\<close>

lemma query_loop_cong: "lib_at t = lib_at s \<Longrightarrow> query_loop t index ls efx idx = query_loop s index ls efx idx"
  by (induction s index ls efx idx rule: query_loop.induct) (simp_all add: the_lib_def split: list.splits)

lemma query_effect_exact:
  assumes ok: "factory_ok env s" and init: "gInitDone s"
  shows "\<exists>ls efx idx. EffectQueryEffect env index p s = Some
       (if \<not> p \<or> gNumEffects s \<le> index then (- EINVAL, None, s)
        else if \<not> gCanQueryEffect s then (- ENOSYS, None, s)
        else (0, Some (all_effects s ! unat index), s\<lparr>gCurLib := ls, gCurEffect := efx, gCurEffectIdx := idx\<rparr>))
     \<and> factory_ok env (s\<lparr>gCurLib := ls, gCurEffect := efx, gCurEffectIdx := idx\<rparr>)"
proof (cases "\<not> p \<or> gNumEffects s \<le> index \<or> \<not> gCanQueryEffect s")
  case True
  have "s = s\<lparr>gCurLib := gCurLib s, gCurEffect := gCurEffect s, gCurEffectIdx := gCurEffectIdx s\<rparr>" by simp
  with True ok init show ?thesis
    by (intro exI [of _ "gCurLib s"] exI [of _ "gCurEffect s"] exI [of _ "gCurEffectIdx s"])
      (auto simp: EffectQueryEffect_def init_def)
next
  case False
  have "unat index < unat (gNumEffects s)" using False by (simp add: not_le word_less_nat_alt)
  moreover have "unat (gNumEffects s) \<le> length (all_effects s)"
    using ok init by (simp add: factory_ok_def unat_of_nat)
  ultimately have bound: "unat index < length (all_effects s)" by simp
  define t where "t = (if index < gCurEffectIdx s then resetEffectEnumeration s else s)"
  have t: "lib_at t = lib_at s" "gLibraryList t = gLibraryList s" "t\<lparr>gCurLib := ls, gCurEffect := efx, gCurEffectIdx := idx\<rparr>
      = s\<lparr>gCurLib := ls, gCurEffect := efx, gCurEffectIdx := idx\<rparr>" for ls efx idx
    by (simp_all add: t_def resetEffectEnumeration_def)
  have "cursor_at s (gCurLib t) (gCurEffect t) (gCurEffectIdx t)" "unat (gCurEffectIdx t) \<le> unat index"
    using ok init cursor_at_reset [of s] by (auto simp: t_def resetEffectEnumeration_def factory_ok_def word_less_nat_alt)
  from query_loop_finds [OF this(1) bound this(2)] obtain ls efx
    where q: "query_loop s index (gCurLib t) (gCurEffect t) (gCurEffectIdx t) = Some (Some (all_effects s ! unat index), ls, efx, index)"
      and c: "cursor_at s ls efx index" by blast
  let ?u = "s\<lparr>gCurLib := ls, gCurEffect := efx, gCurEffectIdx := index\<rparr>"
  have "factory_ok env ?u"
    using ok init c by (simp add: factory_ok_def libraries_ok_def handles_ok_def effects_of_cong [of ?u s] cursor_at_cong [of ?u s])
  moreover have "EffectQueryEffect env index p s = Some (0, Some (all_effects s ! unat index), ?u)"
    using False init q t(3) unfolding EffectQueryEffect_def init_def Let_def if_P [OF init] t_def [symmetric]
      query_loop_cong [OF t(1)] by simp
  ultimately show ?thesis using False by (intro exI [of _ ls] exI [of _ efx] exI [of _ index]) auto
qed

section \<open>Runs of the factory\<close>

text \<open>
  Any calls in any order from the program's start; malloc answers an address that is not in
  use (or NULL).
\<close>

inductive factory_step :: "'w effects_env \<Rightarrow> 'w factory \<Rightarrow> 'w factory \<Rightarrow> bool" for env where
  number: "EffectQueryNumberEffects env p s = (ret, n, s') \<Longrightarrow> factory_step env s s'"
| query: "EffectQueryEffect env index p s = Some (ret, d, s') \<Longrightarrow> factory_step env s s'"
| descriptor: "EffectGetDescriptor env uuid p s = (ret, d, s') \<Longrightarrow> factory_step env s s'"
| create: "EffectCreate env mem uuid sid io p s = Some (ret, h, s') \<Longrightarrow> (\<forall>a. mem = Some a \<longrightarrow> entry_at s a = None)
    \<Longrightarrow> factory_step env s s'"
| release: "EffectRelease env h s = Some (ret, s') \<Longrightarrow> factory_step env s s'"
| process: "Effect_Process env h i out s = Some (ret, s') \<Longrightarrow> factory_step env s s'"
| command: "Effect_Command env h c n d r q s = Some (ret, s') \<Longrightarrow> factory_step env s s'"
| describe: "Effect_GetDescriptor env h s = Some (ret, d, s') \<Longrightarrow> factory_step env s s'"
| reverse: "Effect_ProcessReverse env h i out s = Some (ret, s') \<Longrightarrow> factory_step env s s'"

definition factory_reach :: "'w effects_env \<Rightarrow> 'w factory \<Rightarrow> bool" where
  "factory_reach env s \<longleftrightarrow> (\<exists>w. (factory_step env)\<^sup>*\<^sup>* (factory_start w) s)"

lemma factory_ok_start: "factory_ok env (factory_start w)"
  by (simp add: factory_start_def factory_ok_def libraries_ok_def handles_ok_def)

lemma init_done [simp]: "gInitDone s \<Longrightarrow> init env s = s"
  by (simp add: init_def)

lemma init_again [simp]: "init env (init env s) = init env s"
  by (cases "gInitDone s") (simp_all add: init_def Let_def)

lemma factory_ok_world: "factory_ok env s \<Longrightarrow> gInitDone s \<Longrightarrow> factory_ok env (s\<lparr>libs_state := w\<rparr>)"
  by (simp add: factory_ok_def handles_ok_def effects_of_cong [of "s\<lparr>libs_state := w\<rparr>" s] cursor_at_cong [of "s\<lparr>libs_state := w\<rparr>" s])

lemma query_uninit: "EffectQueryEffect env index p s = EffectQueryEffect env index p (init env s)"
  by (simp add: EffectQueryEffect_def)

lemma find_loop_libs_Some:
  "find_loop_libs s type uuid ls = Some (l, d) \<Longrightarrow> l \<in> set ls \<and> d \<in> set (lib_effects (the_lib s l))
     \<and> (type \<noteq> None \<and> d_type d = the type \<or> uuid \<noteq> None \<and> d_uuid d = the uuid)"
proof (induction ls)
  case (Cons k ks)
  have "find_in_library type uuid ds = Some d \<Longrightarrow> d \<in> set ds
      \<and> (type \<noteq> None \<and> d_type d = the type \<or> uuid \<noteq> None \<and> d_uuid d = the uuid)" for ds
    by (induction ds) (auto split: if_splits)
  with Cons show ?case by (auto split: option.splits)
qed simp

lemma findEffect_Inr:
  "findEffect type uuid s = Inr (l, d) \<Longrightarrow> l \<in> set (gLibraryList s) \<and> d \<in> set (lib_effects (the_lib s l))
     \<and> (type \<noteq> None \<and> d_type d = the type \<or> uuid \<noteq> None \<and> d_uuid d = the uuid)"
  using find_loop_libs_Some by (fastforce simp: findEffect_def split: option.splits)

subsection \<open>The invariant\<close>

lemma factory_ok_entries:
  assumes "factory_ok env s" "gInitDone s" "handles_ok env (s\<lparr>entry_at := e, gEffectList := l, libs_state := w\<rparr>)"
  shows "factory_ok env (s\<lparr>entry_at := e, gEffectList := l, libs_state := w\<rparr>)"
proof -
  let ?t = "s\<lparr>entry_at := e, gEffectList := l, libs_state := w\<rparr>"
  show ?thesis using assms
    by (simp add: factory_ok_def libraries_ok_def effects_of_cong [of ?t s] cursor_at_cong [of ?t s])
qed

lemma create_ok:
  assumes "factory_ok env s" "EffectCreate env mem uuid sid io p s = Some (ret, h, s')"
    and "\<forall>a. mem = Some a \<longrightarrow> entry_at s a = None"
  shows "factory_ok env s' \<and> (ret \<noteq> 0 \<longrightarrow> h = None) \<and> (h = None \<longrightarrow> same_handles s s')"
proof (cases "uuid = None \<or> \<not> p")
  case True
  with assms show ?thesis by (auto simp: EffectCreate_def same_handles_def)
next
  case given: False
  define t where "t = init env s"
  have t: "factory_ok env t" "same_handles s t" "gInitDone t" using init_ok [OF assms(1)] by (simp_all add: t_def)
  show ?thesis
  proof (cases "findEffect None uuid t")
    case (Inl e)
    with assms(2) given t show ?thesis by (auto simp: EffectCreate_def findEffect_def simp flip: t_def split: option.splits)
  next
    case (Inr r)
    obtain l d where r: "r = (l, d)" by (cases r)
    obtain ret1 itfe w where c: "create_effect (lib_desc (the_lib t l)) (the uuid) sid io (libs_state t) = Some (ret1, itfe, w)"
      using assms(2) given Inr r by (auto simp: EffectCreate_def simp flip: t_def split: option.splits)
    show ?thesis
    proof (cases "ret1 = 0")
      case False
      with assms(2) given Inr r c t have "ret = ret1" "h = None" "s' = t\<lparr>libs_state := w\<rparr>"
        by (auto simp: EffectCreate_def Let_def simp flip: t_def)
      with t factory_ok_world [OF t(1,3)] show ?thesis by (simp add: same_handles_def)
    next
      case True
      with assms(2) given Inr r c obtain fx where fx: "mem = Some fx" by (cases mem) (auto simp: EffectCreate_def Let_def simp flip: t_def)
      define x where "x = \<lparr>fx_itfe = (if if_process_reverse (sub_itfe env itfe) \<noteq> None then gInterfaceWithReverse else gInterface),
        subItfe = itfe, fx_lib = Some l\<rparr>"
      have s': "ret = 0" "h = Some fx" "s' = t\<lparr>entry_at := (entry_at t)(fx \<mapsto> x), gEffectList := fx # gEffectList t, libs_state := w\<rparr>"
        using assms(2) given Inr r c True fx by (auto simp: EffectCreate_def Let_def x_def simp flip: t_def)
      have "l \<in> set (gLibraryList t)" using findEffect_Inr Inr r by blast
      moreover have "handles_ok env t" "entry_at t fx = None" using t assms(3) fx by (auto simp: factory_ok_def same_handles_def)
      ultimately have "handles_ok env s'" unfolding s' handles_ok_def by (auto simp: x_def)
      with factory_ok_entries [OF t(1,3)] s' show ?thesis by simp
    qed
  qed
qed

lemma handles_ok_entry: "handles_ok env s \<Longrightarrow> entry_at s h = Some fx \<Longrightarrow>
    \<exists>l \<in> set (gLibraryList s). fx_lib fx = Some l"
  unfolding handles_ok_def by blast

text \<open>What EffectRelease does on every state of a run.\<close>

lemma release_exact:
  assumes "factory_ok env s"
  shows "\<exists>s'. EffectRelease env h s = Some (if entry_at s h = None then - ENOENT else 0, s')
     \<and> factory_ok env s' \<and> gInitDone s' \<and> entry_at s' = (entry_at s)(h := None)
     \<and> libs_state s' = (case entry_at s h of
         None \<Rightarrow> libs_state (init env s)
       | Some fx \<Rightarrow> release_effect (lib_desc (the_lib (init env s) (the (fx_lib fx)))) (subItfe fx) (libs_state (init env s)))"
proof -
  define t where "t = init env s"
  have t: "factory_ok env t" "entry_at t = entry_at s" "gInitDone t"
    using init_ok [OF assms] by (simp_all add: t_def same_handles_def)
  then have ok: "handles_ok env t" by (simp add: factory_ok_def)
  show ?thesis
  proof (cases "entry_at s h")
    case None
    then have "h \<notin> set (gEffectList t)" using ok t(2) by (auto simp: handles_ok_def)
    with None t show ?thesis by (auto simp: EffectRelease_def simp flip: t_def)
  next
    case (Some fx)
    with ok t(2) have h: "h \<in> set (gEffectList t)" by (auto simp: handles_ok_def)
    obtain l where l: "fx_lib fx = Some l" using handles_ok_entry [OF ok] Some t(2) by auto
    let ?w = "release_effect (lib_desc (the_lib t l)) (subItfe fx) (libs_state t)"
    let ?u = "t\<lparr>entry_at := (entry_at t)(h := None), gEffectList := remove1 h (gEffectList t), libs_state := ?w\<rparr>"
    have "EffectRelease env h s = Some (0, ?u)"
      using h Some l t(2) by (simp add: EffectRelease_def the_lib_def flip: t_def)
    moreover have "handles_ok env ?u" using ok by (auto simp: handles_ok_def)
    ultimately show ?thesis using factory_ok_entries [OF t(1,3), where e = "(entry_at t)(h := None)" and l = "remove1 h (gEffectList t)" and w = ?w] Some l t
      by (intro exI [of _ ?u]) (simp flip: t_def)
  qed
qed

lemma factory_step_ok: "factory_step env s s' \<Longrightarrow> factory_ok env s \<Longrightarrow> factory_ok env s'"
proof (induction rule: factory_step.induct)
  case (number p s ret n s')
  then have i: "factory_ok env (init env s)" using init_ok by blast
  have "factory_ok env ((init env s)\<lparr>gCanQueryEffect := True\<rparr>)"
    using i by (simp add: factory_ok_def libraries_ok_def handles_ok_def effects_of_cong [of "(init env s)\<lparr>gCanQueryEffect := True\<rparr>" "init env s"]
      cursor_at_cong [of "(init env s)\<lparr>gCanQueryEffect := True\<rparr>" "init env s"])
  with number i show ?case by (auto simp: EffectQueryNumberEffects_def Let_def split: if_splits)
next
  case (query index p s ret d s')
  from init_ok [OF query.prems] query_effect_exact [of env "init env s" index p] query.hyps
  show ?case by (auto simp: query_uninit [of env index p s] split: if_splits)
next
  case (descriptor uuid p s ret d s')
  with init_ok show ?case by (auto simp: EffectGetDescriptor_def Let_def split: if_splits sum.splits)
next
  case (create mem uuid sid io p s ret h s')
  then show ?case using create_ok by blast
next
  case (release h s ret s')
  then show ?case using release_exact [of env s h] by auto
next
  case (process h i out s ret s')
  with init_ok factory_ok_world [of env "init env s"] show ?case
    by (auto simp: Effect_Process_def Let_def split: option.splits if_splits prod.splits)
next
  case (command h c n d r q s ret s')
  with init_ok factory_ok_world [of env "init env s"] show ?case
    by (auto simp: Effect_Command_def Let_def split: option.splits if_splits prod.splits)
next
  case (describe h s ret d s')
  with init_ok factory_ok_world [of env "init env s"] show ?case
    by (auto simp: Effect_GetDescriptor_def Let_def split: option.splits if_splits prod.splits)
next
  case (reverse h i out s ret s')
  with init_ok factory_ok_world [of env "init env s"] show ?case
    by (auto simp: Effect_ProcessReverse_def Let_def split: option.splits if_splits prod.splits)
qed

lemma factory_steps_ok: "(factory_step env)\<^sup>*\<^sup>* s t \<Longrightarrow> factory_ok env s \<Longrightarrow> factory_ok env t"
proof (induction rule: rtranclp_induct)
  case (step t u)
  then show ?case using factory_step_ok by blast
qed

lemma factory_reach_ok: "factory_reach env s \<Longrightarrow> factory_ok env s"
  unfolding factory_reach_def by (elim exE) (rule factory_steps_ok [OF _ factory_ok_start])

lemma reach_init:
  assumes "factory_reach env s"
  shows "factory_ok env (init env s) \<and> entry_at (init env s) = entry_at s \<and> gInitDone (init env s)"
  using init_ok [OF factory_reach_ok [OF assms]] by (simp add: same_handles_def)

section \<open>Theorems\<close>

text \<open>C27: in every state any sequence of calls can lead to, EffectQueryEffect never follows a
  NULL pointer and answers exactly the effect number index of all the libraries' lists, in
  whatever order the indices are asked for; it refuses a NULL destination or an index past the
  number of effects with -EINVAL, and with -ENOSYS before EffectQueryNumberEffects was called.\<close>

theorem EffectQueryEffect_exact:
  assumes "factory_reach env s"
  shows "\<exists>s'. EffectQueryEffect env index p s = Some
       (if \<not> p \<or> gNumEffects (init env s) \<le> index then (- EINVAL, None, s')
        else if \<not> gCanQueryEffect (init env s) then (- ENOSYS, None, s')
        else (0, Some (all_effects (init env s) ! unat index), s'))
     \<and> all_effects s' = all_effects (init env s) \<and> gNumEffects s' = gNumEffects (init env s)"
proof -
  let ?i = "init env s"
  from reach_init [OF assms] have i: "factory_ok env ?i" "gInitDone ?i" by simp_all
  from query_effect_exact [OF i, of index p] obtain ls efx idx where
    q: "EffectQueryEffect env index p ?i = Some
       (if \<not> p \<or> gNumEffects ?i \<le> index then (- EINVAL, None, ?i)
        else if \<not> gCanQueryEffect ?i then (- ENOSYS, None, ?i)
        else (0, Some (all_effects ?i ! unat index), ?i\<lparr>gCurLib := ls, gCurEffect := efx, gCurEffectIdx := idx\<rparr>))"
    by blast
  let ?u = "?i\<lparr>gCurLib := ls, gCurEffect := efx, gCurEffectIdx := idx\<rparr>"
  have "effects_of ?u ks = effects_of ?i ks" for ks by (rule effects_of_cong) simp
  with q show ?thesis
    by (intro exI [of _ "if (\<not> p \<or> gNumEffects ?i \<le> index) \<or> \<not> gCanQueryEffect ?i then ?i else ?u"])
      (auto simp: query_uninit [of env index p s])
qed

text \<open>C28: in every reachable state, releasing a handle that is live succeeds, hands the effect's
  own interface back to its library exactly once, and makes this handle and no other dead; releasing
  any other handle, the same one again included, returns -ENOENT and calls no library.\<close>

theorem EffectRelease_exact:
  assumes "factory_reach env s"
  shows "\<exists>s'. EffectRelease env h s = Some (if entry_at s h = None then - ENOENT else 0, s')
     \<and> entry_at s' = (entry_at s)(h := None)
     \<and> libs_state s' = (case entry_at s h of
         None \<Rightarrow> libs_state (init env s)
       | Some fx \<Rightarrow> release_effect (lib_desc (the_lib (init env s) (the (fx_lib fx)))) (subItfe fx) (libs_state (init env s)))
     \<and> EffectRelease env h s' = Some (- ENOENT, s')"
proof -
  from release_exact [OF factory_reach_ok [OF assms], of h] obtain s' where
    s': "EffectRelease env h s = Some (if entry_at s h = None then - ENOENT else 0, s')"
      "factory_ok env s'" "gInitDone s'" "entry_at s' = (entry_at s)(h := None)"
      "libs_state s' = (case entry_at s h of
         None \<Rightarrow> libs_state (init env s)
       | Some fx \<Rightarrow> release_effect (lib_desc (the_lib (init env s) (the (fx_lib fx)))) (subItfe fx) (libs_state (init env s)))"
    by blast
  have "h \<notin> set (gEffectList s')" using s'(2,4) by (auto simp: factory_ok_def handles_ok_def)
  with s'(3) have "EffectRelease env h s' = Some (- ENOENT, s')" by (simp add: EffectRelease_def)
  with s' show ?thesis by blast
qed

lemma create_serves:
  assumes "factory_reach env s" "entry_at s a = None"
    and "EffectCreate env (Some a) (Some u) sid io p s = Some (0, h, s')"
  shows "\<exists>l d itfe. h = Some a \<and> l \<in> set (gLibraryList s') \<and> d \<in> set (lib_effects (the_lib s' l)) \<and> d_uuid d = u
    \<and> create_effect (lib_desc (the_lib s' l)) u sid io (libs_state (init env s)) = Some (0, itfe, libs_state s')
    \<and> gInitDone s' \<and> fx_lib (the (entry_at s' a)) = Some l \<and> subItfe (the (entry_at s' a)) = itfe \<and> entry_at s' a \<noteq> None
    \<and> (fx_itfe (the (entry_at s' a)) = gInterfaceWithReverse \<longleftrightarrow> if_process_reverse (sub_itfe env itfe) \<noteq> None)"
proof -
  define t where "t = init env s"
  have t: "gInitDone t" "entry_at t = entry_at s" using reach_init [OF assms(1)] by (simp_all add: t_def)
  have p: p using assms(3) by (simp add: EffectCreate_def split: if_splits)
  show ?thesis
  proof (cases "findEffect None (Some u) t")
    case (Inl e)
    with assms(3) p have "e = 0" by (simp add: EffectCreate_def flip: t_def)
    with Inl show ?thesis by (simp add: findEffect_def split: option.splits)
  next
    case (Inr r)
    obtain l d where r: "r = (l, d)" by (cases r)
    obtain ret itfe w where c: "create_effect (lib_desc (the_lib t l)) u sid io (libs_state t) = Some (ret, itfe, w)"
      using assms(3) p Inr r by (auto simp: EffectCreate_def simp flip: t_def split: option.splits)
    define x where "x = \<lparr>fx_itfe = (if if_process_reverse (sub_itfe env itfe) \<noteq> None then gInterfaceWithReverse else gInterface),
      subItfe = itfe, fx_lib = Some l\<rparr>"
    from assms(3) p Inr r c have s': "ret = 0" "h = Some a"
        "s' = t\<lparr>libs_state := w, entry_at := (entry_at t)(a \<mapsto> x), gEffectList := a # gEffectList t\<rparr>"
      by (auto simp: EffectCreate_def Let_def x_def simp flip: t_def split: if_splits)
    have lib: "the_lib s' k = the_lib t k" for k by (simp add: s' the_lib_def)
    have l: "l \<in> set (gLibraryList s')" "d \<in> set (lib_effects (the_lib s' l))" "d_uuid d = u"
      using findEffect_Inr [of None "Some u" t l d] Inr r lib by (simp_all add: s')
    moreover have "create_effect (lib_desc (the_lib s' l)) u sid io (libs_state (init env s)) = Some (0, itfe, libs_state s')"
      using c s'(1) lib by (simp add: s' flip: t_def)
    ultimately show ?thesis using s'(2) t(1)
      by (intro exI [of _ l] exI [of _ d] exI [of _ itfe]) (simp add: s' x_def)
  qed
qed

text \<open>The calls through a handle.\<close>

lemma calls_through_handle:
  assumes "gInitDone s" "entry_at s a = Some fx" "fx_lib fx = Some l"
  shows "Effect_Process env a i out s =
        (case if_process (sub_itfe env (subItfe fx)) i out (libs_state s) of
           None \<Rightarrow> None | Some (ret, w) \<Rightarrow> Some (ret, s\<lparr>libs_state := w\<rparr>))"
    and "Effect_Command env a c n data r reply s =
        (case if_command (sub_itfe env (subItfe fx)) c n data r reply (libs_state s) of
           None \<Rightarrow> None | Some (ret, w) \<Rightarrow> Some (ret, s\<lparr>libs_state := w\<rparr>))"
    and "fx_itfe fx = gInterfaceWithReverse \<longleftrightarrow> if_process_reverse (sub_itfe env (subItfe fx)) \<noteq> None \<Longrightarrow>
      call_process_reverse env a i out s =
        (case if_process_reverse (sub_itfe env (subItfe fx)) of
           None \<Rightarrow> None
         | Some f \<Rightarrow> (case f i out (libs_state s) of None \<Rightarrow> None | Some (ret, w) \<Rightarrow> Some (ret, s\<lparr>libs_state := w\<rparr>)))"
  using assms by (auto simp: Effect_Process_def Effect_Command_def call_process_reverse_def Effect_ProcessReverse_def
      Let_def split: option.splits fx_interface.splits)

text \<open>An effect created in a reachable state is the library's own: the handle is malloc's
  address, the library is one that lists the identifier, and every call through the handle is
  exactly the call of the interface that library's create_effect returned; process_reverse is
  offered exactly when that interface has it.\<close>

theorem EffectCreate_serves:
  assumes "factory_reach env s" "entry_at s a = None"
    and "EffectCreate env (Some a) (Some u) sid io p s = Some (0, h, s')"
  shows "\<exists>l d itfe. h = Some a \<and> l \<in> set (gLibraryList s') \<and> d \<in> set (lib_effects (the_lib s' l)) \<and> d_uuid d = u
    \<and> create_effect (lib_desc (the_lib s' l)) u sid io (libs_state (init env s)) = Some (0, itfe, libs_state s')
    \<and> Effect_Process env a i out s' =
        (case if_process (sub_itfe env itfe) i out (libs_state s') of
           None \<Rightarrow> None | Some (ret, w) \<Rightarrow> Some (ret, s'\<lparr>libs_state := w\<rparr>))
    \<and> Effect_Command env a c n data r reply s' =
        (case if_command (sub_itfe env itfe) c n data r reply (libs_state s') of
           None \<Rightarrow> None | Some (ret, w) \<Rightarrow> Some (ret, s'\<lparr>libs_state := w\<rparr>))
    \<and> call_process_reverse env a i out s' =
        (case if_process_reverse (sub_itfe env itfe) of
           None \<Rightarrow> None
         | Some f \<Rightarrow> (case f i out (libs_state s') of None \<Rightarrow> None | Some (ret, w) \<Rightarrow> Some (ret, s'\<lparr>libs_state := w\<rparr>)))"
proof -
  from create_serves [OF assms] obtain l d itfe where r: "h = Some a" "l \<in> set (gLibraryList s')"
    "d \<in> set (lib_effects (the_lib s' l))" "d_uuid d = u"
    "create_effect (lib_desc (the_lib s' l)) u sid io (libs_state (init env s)) = Some (0, itfe, libs_state s')"
    "gInitDone s'" "fx_lib (the (entry_at s' a)) = Some l" "subItfe (the (entry_at s' a)) = itfe" "entry_at s' a \<noteq> None"
    "fx_itfe (the (entry_at s' a)) = gInterfaceWithReverse \<longleftrightarrow> if_process_reverse (sub_itfe env itfe) \<noteq> None"
    by blast
  then obtain fx where fx: "entry_at s' a = Some fx" "fx_lib fx = Some l" "subItfe fx = itfe"
    "fx_itfe fx = gInterfaceWithReverse \<longleftrightarrow> if_process_reverse (sub_itfe env itfe) \<noteq> None" by auto
  from calls_through_handle [OF r(6) fx(1,2), unfolded fx(3), where env = env] fx(4) r(1-5) show ?thesis by blast
qed

section \<open>From the configuration file to the effects\<close>

text \<open>A configuration file: the name and the path of each library, and the name, the library and
  the identifier of each effect.\<close>

definition library_node :: "string \<times> string \<Rightarrow> cnode" where
  "library_node l = Cnode (fst l) [] [Cnode ''path'' (snd l) []]"

definition effect_node :: "string \<times> string \<times> effect_uuid \<Rightarrow> cnode" where
  "effect_node e =
     Cnode (fst e) [] [Cnode ''library'' (fst (snd e)) [], Cnode ''uuid'' (uuidToString (snd (snd e)) 40) []]"

definition config_file_nodes :: "(string \<times> string) list \<Rightarrow> (string \<times> string \<times> effect_uuid) list \<Rightarrow> cnode list" where
  "config_file_nodes libs es =
     [Cnode ''libraries'' [] (map library_node libs), Cnode ''effects'' [] (map effect_node es)]"

text \<open>Names and paths that the parser reads back as they are.\<close>

definition config_ok :: "(string \<times> string) list \<Rightarrow> (string \<times> string \<times> effect_uuid) list \<Rightarrow> bool" where
  "config_ok libs es \<longleftrightarrow>
     (\<forall>(n, p) \<in> set libs. key_ok n \<and> length n \<le> PATH_MAX \<and> value_ok p \<and> p \<noteq> [] \<and> \<not> isspace (last p))
     \<and> (\<forall>(n, lib, u) \<in> set es. key_ok n \<and> key_ok lib \<and> length lib \<le> PATH_MAX)
     \<and> distinct (map fst libs) \<and> distinct (map fst es)"

text \<open>What the file asks for: the libraries that open and have the right tag and version, and the
  effects that one of these describes under the API's version, each with its library's name.\<close>

definition usable_library :: "'w effects_env \<Rightarrow> string \<Rightarrow> 'w \<Rightarrow> 'w effect_library option \<times> 'w" where
  "usable_library env path w =
     (case dlopen env path w of
        (None, w) \<Rightarrow> (None, w)
      | (Some hdl, w) \<Rightarrow>
          (case dlsym env hdl ''AELI'' of
             None \<Rightarrow> (None, dlclose env hdl w)
           | Some desc \<Rightarrow>
               if lib_tag desc = AUDIO_EFFECT_LIBRARY_TAG \<and> EFFECT_API_VERSION_MAJOR (lib_version desc) = 3
               then (Some desc, w) else (None, dlclose env hdl w)))"

fun open_libraries :: "'w effects_env \<Rightarrow> (string \<times> string) list \<Rightarrow> 'w \<Rightarrow> (string \<times> 'w effect_library) list \<times> 'w" where
  "open_libraries env [] w = ([], w)"
| "open_libraries env ((n, path) # libs) w =
     (case usable_library env path w of
        (None, w) \<Rightarrow> open_libraries env libs w
      | (Some desc, w) \<Rightarrow> (case open_libraries env libs w of (ls, w) \<Rightarrow> ((n, desc) # ls, w)))"

fun describe_effects :: "(string \<times> 'w effect_library) list \<Rightarrow> (string \<times> string \<times> effect_uuid) list \<Rightarrow> 'w
    \<Rightarrow> (string \<times> effect_descriptor) list \<times> 'w" where
  "describe_effects ls [] w = ([], w)"
| "describe_effects ls ((n, lib, u) # es) w =
     (case map_of ls lib of
        None \<Rightarrow> describe_effects ls es w
      | Some desc \<Rightarrow>
          (case get_descriptor desc u w of
             (err, d, w) \<Rightarrow>
               if err = 0 \<and> EFFECT_API_VERSION_MAJOR (apiVersion d) = 2
               then (case describe_effects ls es w of (ds, w) \<Rightarrow> ((lib, d) # ds, w))
               else describe_effects ls es w))"

lemma hex_char_plain: "d < 16 \<Longrightarrow> \<not> isspace (hex_char d) \<and> hex_char d \<noteq> CHR ''#'' \<and> hex_char d \<notin> separators
    \<and> hex_char d \<noteq> newline \<and> hex_char d \<noteq> CHR 0x00"
  using hex_value_plain [OF hex_value_char [of d]] hex_value_char [of d]
  by (auto simp: separators_def newline_def hex_value_def isspace_def Let_def split: if_splits)

lemma uuid_text_chars:
  "c \<in> set (uuidToString u 40) \<Longrightarrow> c = CHR ''-'' \<or> (\<exists>d < 16. c = hex_char d)"
  unfolding uuidToString_full [of 40 u, simplified] using hex_of_digits by auto

lemma uuid_text_ends:
  "\<exists>c s r d. c < 16 \<and> d < 16 \<and> uuidToString u 40 = hex_char c # s \<and> uuidToString u 40 = r @ [hex_char d]"
proof -
  have hex: "\<exists>c s r d. c < 16 \<and> d < 16 \<and> hex_of (Suc n) v = hex_char c # s \<and> hex_of (Suc n) v = r @ [hex_char d]" for n v
  proof -
    obtain c s where "hex_of (Suc n) v = c # s" by (cases "hex_of (Suc n) v") auto
    moreover from this hex_of_digits [of c "Suc n" v] obtain k where "k < 16" "c = hex_char k" by auto
    moreover have "hex_of (Suc n) v = hex_of n (v div 16) @ [hex_char (v mod 16)]" by simp
    moreover have "v mod 16 < 16" by simp
    ultimately show ?thesis by blast
  qed
  from hex [of 7 "unat (timeLow u)"] hex [of 1 "unat (node5 u)"] obtain c s r d where
    "c < 16" "d < 16" "hex_of 8 (unat (timeLow u)) = hex_char c # s" "hex_of 2 (unat (node5 u)) = r @ [hex_char d]"
    by (auto simp del: hex_of.simps simp: eval_nat_numeral)
  then show ?thesis unfolding uuidToString_full [of 40 u, simplified]
    by (intro exI [of _ c] exI [of _ d] exI conjI) (auto simp flip: append_assoc)
qed

lemma uuid_text_value: "value_ok (uuidToString u 40) \<and> uuidToString u 40 \<noteq> [] \<and> \<not> isspace (last (uuidToString u 40))"
proof -
  obtain c s r d where ends: "c < 16" "d < 16" "uuidToString u 40 = hex_char c # s" "uuidToString u 40 = r @ [hex_char d]"
    using uuid_text_ends by blast
  have plain: "x \<noteq> newline \<and> x \<noteq> CHR 0x00" if x: "x \<in> set (uuidToString u 40)" for x
    using uuid_text_chars [OF x] hex_char_plain by (auto simp: newline_def)
  from ends(1,3) hex_char_plain [of c] plain have "value_ok (uuidToString u 40)" "uuidToString u 40 \<noteq> []"
    unfolding value_ok_def by (metis list.sel(1), simp)
  moreover have "\<not> isspace (last (uuidToString u 40))" using hex_char_plain [OF ends(2)] ends(4) by simp
  ultimately show ?thesis by blast
qed

lemma key_ok_value:
  assumes "key_ok k" shows "value_ok k \<and> k \<noteq> [] \<and> \<not> isspace (last k)"
proof -
  have k: "k \<noteq> []" "hd k \<noteq> CHR ''#''" "\<And>c. c \<in> set k \<Longrightarrow> key_char c"
    using assms by (auto simp: key_ok_def list_all_iff)
  moreover have "\<not> key_char newline" "\<not> key_char (CHR 0x00)" by (simp_all add: key_char_def)
  ultimately have "newline \<notin> set k" "CHR 0x00 \<notin> set k" by blast+
  moreover have "key_char (hd k)" "key_char (last k)" using k by simp_all
  ultimately show ?thesis using k(1,2) by (simp add: value_ok_def key_char_def)
qed

lemma find_loop_none: "name \<notin> node_name ` set ns \<Longrightarrow> find_loop name ns i m = m"
  by (induction ns arbitrary: i) auto

lemma siblings_distinct:
  "distinct (map node_name (before @ ns)) \<Longrightarrow> siblings_ok before ns"
proof (induction ns arbitrary: before)
  case (Cons n ns)
  then have "free_name before (node_name n)" by (auto simp: free_name_def find_loop_none)
  with Cons show ?case by simp
qed simp

lemma literal_keys:
  "key_ok ''libraries''" "key_ok ''effects''" "key_ok ''path''" "key_ok ''library''" "key_ok ''uuid''"
  by (simp_all add: key_ok_def key_char_def isspace_def separators_def)

lemma value_ok_Nil [simp]: "value_ok []"
  by (simp add: value_ok_def)

lemma config_nodes_printable:
  assumes "config_ok libs es"
  shows "\<forall>n \<in> set (config_file_nodes libs es). printable n" "siblings_ok [] (config_file_nodes libs es)"
proof -
  have libs: "\<forall>(n, p) \<in> set libs. key_ok n \<and> length n \<le> PATH_MAX \<and> value_ok p \<and> p \<noteq> [] \<and> \<not> isspace (last p)"
    and es: "\<forall>(n, lib, u) \<in> set es. key_ok n \<and> key_ok lib \<and> length lib \<le> PATH_MAX"
    and names: "distinct (map fst libs)" "distinct (map fst es)"
    using assms by (auto simp: config_ok_def)
  have leaf: "printable (Cnode k v [])" if "key_ok k" "value_ok v" "\<not> isspace (last v)" for k v
    using that by simp
  have library: "printable (library_node l)" if "l \<in> set libs" for l
    using leaf [OF literal_keys(3)] libs that by (auto simp: library_node_def free_name_def)
  have effect: "printable (effect_node e)" if "e \<in> set es" for e
  proof -
    have "siblings_ok [] [Cnode ''library'' (fst (snd e)) [], Cnode ''uuid'' (uuidToString (snd (snd e)) 40) []]"
      by (rule siblings_distinct) simp
    with literal_keys(4,5) key_ok_value [of "fst (snd e)"] uuid_text_value [of "snd (snd e)"] es that
    show ?thesis by (auto simp: effect_node_def simp del: siblings_ok.simps(2))
  qed
  have "node_name \<circ> effect_node = fst" "node_name \<circ> library_node = fst"
    by (auto simp: effect_node_def library_node_def)
  with names have "siblings_ok [] (map effect_node es)" "siblings_ok [] (map library_node libs)"
    by (auto intro: siblings_distinct)
  with effect library literal_keys(1,2) show "\<forall>n \<in> set (config_file_nodes libs es). printable n"
    by (auto simp: config_file_nodes_def)
  show "siblings_ok [] (config_file_nodes libs es)" by (rule siblings_distinct) (simp add: config_file_nodes_def)
qed

subsection \<open>Loading the libraries and their effects\<close>

text \<open>The effects of one library among those described, the last one first.\<close>

definition effects_named :: "string \<Rightarrow> (string \<times> effect_descriptor) list \<Rightarrow> effect_descriptor list" where
  "effects_named n ds = rev (map snd (filter (\<lambda>x. fst x = n) ds))"

definition libs_loaded :: "(string \<times> 'w effect_library) list \<Rightarrow> (string \<times> effect_descriptor) list \<Rightarrow> 'w factory \<Rightarrow> bool" where
  "libs_loaded ls ds s \<longleftrightarrow> gLibraryList s = rev [0..<length ls]
     \<and> (\<forall>i < length ls. \<exists>e. lib_at s i = Some e \<and> (lib_name e, lib_desc e) = ls ! i
          \<and> lib_effects e = effects_named (fst (ls ! i)) ds)
     \<and> (\<forall>l. gCachedLibrary s = Some l \<longrightarrow> l < length ls)"

lemma effects_named_simps [simp]:
  "effects_named n [] = []"
  "effects_named n (ds @ [(m, d)]) = (if m = n then d # effects_named n ds else effects_named n ds)"
  by (simp_all add: effects_named_def)

lemma in_effects_named: "d \<in> set (effects_named n ds) \<longleftrightarrow> (n, d) \<in> set ds"
  by (force simp: effects_named_def)

lemma libs_loaded_world [simp]: "libs_loaded ls ds (s\<lparr>libs_state := w\<rparr>) = libs_loaded ls ds s"
  by (simp add: libs_loaded_def)

lemma libs_loaded_entry:
  "libs_loaded ls ds s \<Longrightarrow> i < length ls \<Longrightarrow>
    (lib_name (the_lib s i), lib_desc (the_lib s i)) = ls ! i \<and> lib_effects (the_lib s i) = effects_named (fst (ls ! i)) ds"
  by (fastforce simp: libs_loaded_def the_lib_def)

lemma stringToUuid_text: "stringToUuid (uuidToString u 40) = Some u"
  using uuid_read [of u 3 "[]"] by simp

lemma loadLibrary_loaded:
  assumes "libs_loaded ls [] s" "length n \<le> PATH_MAX"
    and "usable_library env path (libs_state s) = (r, w)"
  shows "libs_loaded (ls @ (case r of None \<Rightarrow> [] | Some desc \<Rightarrow> [(n, desc)])) [] (snd (loadLibrary env (library_node (n, path)) n s))
    \<and> libs_state (snd (loadLibrary env (library_node (n, path)) n s)) = w"
proof -
  have node: "config_find (library_node (n, path)) ''path'' = Some 0" "node_value (children (library_node (n, path)) ! 0) = path"
    by (simp_all add: library_node_def config_find_def)
  show ?thesis
  proof (cases r)
    case None
    with assms(1,3) show ?thesis
      unfolding loadLibrary_def node option.case usable_library_def
      by (auto simp: Let_def split: prod.splits option.splits if_splits)
  next
    case (Some desc)
    with assms(3) obtain hdl where "dlopen env path (libs_state s) = (Some hdl, w)" "dlsym env hdl ''AELI'' = Some desc"
      "lib_tag desc = AUDIO_EFFECT_LIBRARY_TAG" "EFFECT_API_VERSION_MAJOR (lib_version desc) = 3"
      by (auto simp: usable_library_def split: prod.splits option.splits if_splits)
    then have l: "snd (loadLibrary env (library_node (n, path)) n s) =
        s\<lparr>libs_state := w, lib_at := (lib_at s)(length (gLibraryList s) \<mapsto> \<lparr>lib_desc = desc, lib_name = n,
            lib_path = take PATH_MAX path, lib_handle = hdl, lib_effects = []\<rparr>),
          gLibraryList := length (gLibraryList s) # gLibraryList s\<rparr>"
      unfolding loadLibrary_def node option.case using assms(2) by (simp add: Let_def)
    from assms(1) Some show ?thesis unfolding l
      by (auto simp: libs_loaded_def nth_append less_Suc_eq)
  qed
qed

lemma load_libraries_loaded:
  assumes "libs_loaded ls [] s" "\<forall>x \<in> set libs. length (fst x) \<le> PATH_MAX"
    and "open_libraries env libs (libs_state s) = (ls', w)"
  shows "libs_loaded (ls @ ls') [] (load_libraries_loop env (map library_node libs) s)
    \<and> libs_state (load_libraries_loop env (map library_node libs) s) = w"
  using assms
proof (induction libs arbitrary: ls s ls')
  case (Cons l libs)
  obtain n path where l: "l = (n, path)" by (cases l)
  obtain r w1 where r: "usable_library env path (libs_state s) = (r, w1)" by (cases "usable_library env path (libs_state s)")
  obtain ls2 w2 where o: "open_libraries env libs w1 = (ls2, w2)" by (cases "open_libraries env libs w1")
  let ?t = "snd (loadLibrary env (library_node (n, path)) n s)"
  let ?new = "case r of None \<Rightarrow> [] | Some desc \<Rightarrow> [(n, desc)]"
  have t: "libs_loaded (ls @ ?new) [] ?t" "libs_state ?t = w1"
    using loadLibrary_loaded [OF Cons.prems(1) _ r, of n] Cons.prems(2) l by auto
  have "ls' = ?new @ ls2" "w = w2" using Cons.prems(3) by (auto simp: l r o split: option.splits)
  with Cons.IH [OF t(1), of ls2] t(2) o Cons.prems(2) show ?case
    by (simp add: l library_node_def)
qed simp

lemma open_libraries_names:
  "open_libraries env libs w = (ls, w') \<Longrightarrow>
    set (map fst ls) \<subseteq> set (map fst libs) \<and> (distinct (map fst libs) \<longrightarrow> distinct (map fst ls))"
proof (induction libs arbitrary: w ls w')
  case (Cons l libs)
  obtain n path where l: "l = (n, path)" by (cases l)
  obtain r w1 where r: "usable_library env path w = (r, w1)" by (cases "usable_library env path w")
  obtain ls2 w2 where o2: "open_libraries env libs w1 = (ls2, w2)" by (cases "open_libraries env libs w1")
  have "ls = (case r of None \<Rightarrow> [] | Some desc \<Rightarrow> [(n, desc)]) @ ls2"
    using Cons.prems by (auto simp: l r o2 split: option.splits)
  with Cons.IH [OF o2] show ?case by (cases r) (auto simp: l)
qed simp

text \<open>The library is found by its name, in the cache or by the search.\<close>

lemma find_library_find: "find_library s name js = find (\<lambda>l. lib_name (the_lib s l) = name) js"
  by (induction js) auto

lemma find_rev_upt:
  assumes "i < n" "P i" "\<forall>j < n. P j \<longrightarrow> j = i" shows "find P (rev [0..<n]) = Some i"
proof (cases "find P (rev [0..<n])")
  case None
  with assms(1,2) show ?thesis by (auto simp: find_None_iff)
next
  case (Some j)
  then have "j \<in> set (rev [0..<n])" "P j" by (auto simp: find_Some_iff simp del: set_rev)
  with assms(3) Some show ?thesis by simp
qed

lemma getLibrary_cases:
  "scan_libraries name s = (None, s) \<Longrightarrow>
    (\<And>l. gCachedLibrary s = Some l \<Longrightarrow> take PATH_MAX (lib_name (the_lib s l)) \<noteq> take PATH_MAX name) \<Longrightarrow>
    getLibrary name s = (None, s)"
  "scan_libraries name s = (Some i, t) \<Longrightarrow>
    (\<And>l. gCachedLibrary s = Some l \<Longrightarrow> take PATH_MAX (lib_name (the_lib s l)) = take PATH_MAX name \<Longrightarrow> l = i) \<Longrightarrow>
    getLibrary name s = (Some i, s) \<or> getLibrary name s = (Some i, t)"
  by (cases "gCachedLibrary s"; simp add: getLibrary_def)+

lemma getLibrary_loaded:
  assumes "libs_loaded ls ds s" "distinct (map fst ls)" "\<forall>x \<in> set ls. length (fst x) \<le> PATH_MAX" "length name \<le> PATH_MAX"
  shows "case map_of ls name of
      None \<Rightarrow> getLibrary name s = (None, s)
    | Some desc \<Rightarrow> \<exists>i t. i < length ls \<and> ls ! i = (name, desc) \<and> getLibrary name s = (Some i, t)
        \<and> libs_loaded ls ds t \<and> libs_state t = libs_state s"
proof -
  have list: "gLibraryList s = rev [0..<length ls]" using assms(1) by (simp add: libs_loaded_def)
  have name: "lib_name (the_lib s i) = fst (ls ! i)" if "i < length ls" for i
    using libs_loaded_entry [OF assms(1) that, THEN conjunct1, THEN arg_cong [where f = fst]] by simp
  have short: "take PATH_MAX (fst (ls ! i)) = fst (ls ! i)" if "i < length ls" for i using assms(3) that by simp
  have cached: "l < length ls" if "gCachedLibrary s = Some l" for l using assms(1) that by (simp add: libs_loaded_def)
  have cached_name: "take PATH_MAX (lib_name (the_lib s l)) = take PATH_MAX name \<longleftrightarrow> fst (ls ! l) = name"
    if "gCachedLibrary s = Some l" for l
    using name short cached [OF that] assms(4) by simp
  show ?thesis
  proof (cases "map_of ls name")
    case None
    then have no: "fst (ls ! i) \<noteq> name" if "i < length ls" for i
      using that nth_mem by (fastforce simp: map_of_eq_None_iff)
    then have "find_library s name (gLibraryList s) = None"
      by (simp add: find_library_find list find_None_iff name)
    then have "scan_libraries name s = (None, s)" by (simp add: scan_libraries_def)
    moreover have "take PATH_MAX (lib_name (the_lib s l)) \<noteq> take PATH_MAX name" if "gCachedLibrary s = Some l" for l
      using no [OF cached [OF that]] cached_name [OF that] by simp
    ultimately have "getLibrary name s = (None, s)" by (rule getLibrary_cases(1))
    with None show ?thesis by simp
  next
    case (Some desc)
    then obtain i where i: "i < length ls" "ls ! i = (name, desc)" by (meson in_set_conv_nth map_of_SomeD)
    have only: "j = i" if "j < length ls" "fst (ls ! j) = name" for j
      using nth_eq_iff_index_eq [OF assms(2), of j i] that i by simp
    have "find_library s name (gLibraryList s) = Some i"
      unfolding find_library_find list
    proof (rule find_rev_upt [OF i(1)])
      show "lib_name (the_lib s i) = name" using name [OF i(1)] i(2) by simp
      show "\<forall>j < length ls. lib_name (the_lib s j) = name \<longrightarrow> j = i" using name only by metis
    qed
    then have "scan_libraries name s = (Some i, s\<lparr>gCachedLibrary := Some i\<rparr>)" by (simp add: scan_libraries_def)
    moreover have "l = i" if "gCachedLibrary s = Some l" "take PATH_MAX (lib_name (the_lib s l)) = take PATH_MAX name" for l
      using only [OF cached [OF that(1)]] cached_name [OF that(1)] that(2) by simp
    ultimately have "getLibrary name s = (Some i, s) \<or> getLibrary name s = (Some i, s\<lparr>gCachedLibrary := Some i\<rparr>)"
      by (rule getLibrary_cases(2))
    moreover have "libs_loaded ls ds (s\<lparr>gCachedLibrary := Some i\<rparr>)" using assms(1) i(1) by (simp add: libs_loaded_def)
    ultimately have "\<exists>t. getLibrary name s = (Some i, t) \<and> libs_loaded ls ds t \<and> libs_state t = libs_state s"
      using assms(1) by (elim disjE) simp_all
    with i show ?thesis unfolding Some option.case by blast
  qed
qed

lemma libs_loaded_add:
  assumes s: "libs_loaded ls ds s" and i: "i < length ls"
    and other: "\<And>j. j < length ls \<Longrightarrow> j \<noteq> i \<Longrightarrow> fst (ls ! j) \<noteq> fst (ls ! i)"
  shows "libs_loaded ls (ds @ [(fst (ls ! i), d)]) (s\<lparr>libs_state := w, lib_at := (lib_at s)(i \<mapsto>
    (the_lib s i)\<lparr>lib_effects := d # effects_named (fst (ls ! i)) ds\<rparr>)\<rparr>)"
proof -
  have "\<exists>e. ((lib_at s)(i \<mapsto> (the_lib s i)\<lparr>lib_effects := d # effects_named (fst (ls ! i)) ds\<rparr>)) j = Some e
      \<and> (lib_name e, lib_desc e) = ls ! j \<and> lib_effects e = effects_named (fst (ls ! j)) (ds @ [(fst (ls ! i), d)])"
    if j: "j < length ls" for j
  proof (cases "j = i")
    case True
    with libs_loaded_entry [OF s i] show ?thesis by simp
  next
    case False
    with s j other [OF j False] show ?thesis by (auto simp: libs_loaded_def)
  qed
  with s show ?thesis by (simp add: libs_loaded_def)
qed

lemma loadEffect_loaded:
  assumes s: "libs_loaded ls ds s" "distinct (map fst ls)" "\<forall>x \<in> set ls. length (fst x) \<le> PATH_MAX"
    and e: "length lib \<le> PATH_MAX" "describe_effects ls [(n, lib, u)] (libs_state s) = (new, w)"
  shows "libs_loaded ls (ds @ new) (snd (loadEffect (effect_node (n, lib, u)) s))
    \<and> libs_state (snd (loadEffect (effect_node (n, lib, u)) s)) = w"
proof -
  let ?n = "effect_node (n, lib, u)"
  have node: "config_find ?n ''library'' = Some 0" "config_find ?n ''uuid'' = Some 1"
    "node_value (children ?n ! 0) = lib" "stringToUuid (node_value (children ?n ! 1)) = Some u"
    by (simp_all add: effect_node_def config_find_def stringToUuid_text)
  note lib = getLibrary_loaded [OF s e(1)]
  show ?thesis
  proof (cases "map_of ls lib")
    case None
    with lib e(2) s(1) show ?thesis unfolding loadEffect_def node option.case by simp
  next
    case (Some desc)
    with lib obtain i t where i: "i < length ls" "ls ! i = (lib, desc)"
      and t: "getLibrary lib s = (Some i, t)" "libs_loaded ls ds t" "libs_state t = libs_state s" by auto
    obtain err d w1 where g: "get_descriptor desc u (libs_state s) = (err, d, w1)"
      by (cases "get_descriptor desc u (libs_state s)")
    let ?t = "t\<lparr>libs_state := w1\<rparr>" and ?good = "err = 0 \<and> EFFECT_API_VERSION_MAJOR (apiVersion d) = 2"
    note entry = libs_loaded_entry [OF t(2) i(1), unfolded i(2)]
    have new: "new = (if ?good then [(lib, d)] else [])" "w = w1"
      using e(2) Some g by (auto split: if_splits)
    have t1: "snd (loadEffect ?n s) = (if ?good then ?t\<lparr>lib_at := (lib_at t)(i \<mapsto>
          (the_lib t i)\<lparr>lib_effects := d # lib_effects (the_lib t i)\<rparr>)\<rparr> else ?t)"
      unfolding loadEffect_def node option.case t(1) prod.case using entry g t(3)
      by (simp add: Let_def the_lib_def)
    have other: "fst (ls ! j) \<noteq> lib" if "j < length ls" "j \<noteq> i" for j
      using nth_eq_iff_index_eq [OF s(2), of j i] that i by auto
    show ?thesis
    proof (cases ?good)
      case True
      with t1 new have "snd (loadEffect ?n s) = ?t\<lparr>lib_at := (lib_at t)(i \<mapsto>
          (the_lib t i)\<lparr>lib_effects := d # lib_effects (the_lib t i)\<rparr>)\<rparr>" "new = [(lib, d)]" by simp_all
      moreover from this have "libs_loaded ls (ds @ new) (snd (loadEffect ?n s))"
        using libs_loaded_add [OF t(2) i(1), of d w1] other i(2) entry by simp
      ultimately show ?thesis using new(2) by simp
    next
      case False
      with t1 new t(2) show ?thesis by auto
    qed
  qed
qed

lemma describe_effects_Cons:
  "describe_effects ls (e # es) w =
     (case describe_effects ls [e] w of (new, w) \<Rightarrow> (case describe_effects ls es w of (ds, w) \<Rightarrow> (new @ ds, w)))"
  by (cases e) (auto split: option.splits prod.splits)

lemma load_effects_loaded:
  assumes "libs_loaded ls ds s" "distinct (map fst ls)" "\<forall>x \<in> set ls. length (fst x) \<le> PATH_MAX"
    and "\<forall>e \<in> set es. length (fst (snd e)) \<le> PATH_MAX" "describe_effects ls es (libs_state s) = (new, w)"
  shows "libs_loaded ls (ds @ new) (load_effects_loop (map effect_node es) s)
    \<and> libs_state (load_effects_loop (map effect_node es) s) = w"
  using assms
proof (induction es arbitrary: s ds new)
  case (Cons e es)
  obtain n lib u where e: "e = (n, lib, u)" by (cases e)
  obtain d1 w1 where d1: "describe_effects ls [e] (libs_state s) = (d1, w1)" by (cases "describe_effects ls [e] (libs_state s)")
  obtain d2 w2 where d2: "describe_effects ls es w1 = (d2, w2)" by (cases "describe_effects ls es w1")
  have new: "new = d1 @ d2" "w = w2"
    using Cons.prems(5) describe_effects_Cons [of ls e es "libs_state s"] by (simp_all add: d1 d2)
  have "length lib \<le> PATH_MAX" using Cons.prems(4) e by simp
  from loadEffect_loaded [OF Cons.prems(1-3) this d1 [unfolded e]]
  have t: "libs_loaded ls (ds @ d1) (snd (loadEffect (effect_node e) s))" "libs_state (snd (loadEffect (effect_node e) s)) = w1"
    by (simp_all add: e)
  have "\<forall>e \<in> set es. length (fst (snd e)) \<le> PATH_MAX" using Cons.prems(4) by simp
  from Cons.IH [OF t(1) Cons.prems(2,3) this, of d2] t(2) d2 new show ?case by simp
qed simp

lemma config_file_loaded:
  assumes ok: "config_ok libs es"
    and conf: "can_read env vendor_config" "read_file env vendor_config = Some (print_nodes (config_file_nodes libs es))"
    and opened: "open_libraries env libs w = (ls, w1)" and described: "describe_effects ls es w1 = (ds, w2)"
  shows "libs_loaded ls ds (init env (factory_start w)) \<and> libs_state (init env (factory_start w)) = w2
    \<and> distinct (map fst ls)"
proof -
  let ?root = "Cnode [] [] (config_file_nodes libs es)" and ?text = "print_nodes (config_file_nodes libs es)"
  let ?s = "factory_start w"
  let ?t = "snd (loadLibraries env ?root ?s)"
  define t where "t = snd (loadEffects ?root ?t)"
  have root: "config_find ?root ''libraries'' = Some 0" "config_find ?root ''effects'' = Some 1"
    "children (children ?root ! 0) = map library_node libs" "children (children ?root ! 1) = map effect_node es"
    by (simp_all add: config_file_nodes_def config_find_def)
  have short: "\<forall>x \<in> set libs. length (fst x) \<le> PATH_MAX" "\<forall>e \<in> set es. length (fst (snd e)) \<le> PATH_MAX"
    using ok by (auto simp: config_ok_def)
  have names: "distinct (map fst ls)" "\<forall>x \<in> set ls. length (fst x) \<le> PATH_MAX"
    using open_libraries_names [OF opened] ok short(1) by (auto simp: config_ok_def) fastforce
  have "libs_loaded [] [] ?s" by (simp add: libs_loaded_def factory_start_def)
  from load_libraries_loaded [OF this short(1), of env ls w1] opened
  have l: "libs_loaded ls [] ?t" "libs_state ?t = w1"
    unfolding loadLibraries_def root option.case by (simp_all add: factory_start_def)
  from load_effects_loaded [OF l(1) names short(2), of ds w2] described l(2)
  have t: "libs_loaded ls ds t" "libs_state t = w2" unfolding t_def loadEffects_def root option.case by simp_all
  have "config_load (config_node (Some []) (Some [])) (Some (?text @ [CHR 0x00])) = ?root"
    using config_load_nodes [OF config_nodes_printable(1) [OF ok], of "config_node (Some []) (Some [])"]
      config_nodes_printable(2) [OF ok]
    by (simp add: config_load_terminated config_node_def)
  then have "snd (loadEffectConfigFile env vendor_config ?s) = t"
    using conf(2) unfolding loadEffectConfigFile_def load_file_def by (simp add: Let_def t_def)
  then have "init env ?s = (updateNumEffects t)\<lparr>gInitDone := True\<rparr>"
    using conf(1) by (simp add: init_def) (simp add: factory_start_def)
  with t names(1) show ?thesis by (simp add: libs_loaded_def updateNumEffects_eq)
qed

text \<open>The descriptor of an identifier is the first of all in their order.\<close>

lemma find_in_library_find: "find_in_library None (Some u) ds = find (\<lambda>d. d_uuid d = u) ds"
  by (induction ds) auto

lemma find_append_case: "find P (xs @ ys) = (case find P xs of None \<Rightarrow> find P ys | Some x \<Rightarrow> Some x)"
  by (induction xs) auto

lemma find_loop_libs_find:
  "map_option snd (find_loop_libs s None (Some u) js) = find (\<lambda>d. d_uuid d = u) (effects_of s js)"
proof (induction js)
  case (Cons j js)
  then show ?case
    by (cases "find (\<lambda>d. d_uuid d = u) (lib_effects (the_lib s j))") (simp_all add: find_in_library_find find_append_case)
qed simp

lemma EffectGetDescriptor_find:
  "EffectGetDescriptor env (Some u) True s =
     (case find (\<lambda>d. d_uuid d = u) (all_effects (init env s)) of
        None \<Rightarrow> (- ENOENT, None, init env s) | Some d \<Rightarrow> (0, Some d, init env s))"
proof -
  define t where "t = init env s"
  from find_loop_libs_find [of t u "gLibraryList t"] show ?thesis
    unfolding EffectGetDescriptor_def Let_def findEffect_def t_def [symmetric]
    by (cases "find_loop_libs t None (Some u) (gLibraryList t)") (auto, metis option.simps(5))
qed

lemma find_only:
  assumes "x \<in> set xs" "P x" "\<forall>y \<in> set xs. P y \<longrightarrow> y = x" shows "find P xs = Some x"
proof (cases "find P xs")
  case None
  with assms(1,2) show ?thesis by (simp add: find_None_iff)
next
  case (Some y)
  then have "y \<in> set xs" "P y" by (metis find_Some_iff nth_mem)+
  with assms(3) Some show ?thesis by simp
qed

text \<open>A file with one library that opens and describes all of its effects.\<close>

definition config_nodes :: "string \<Rightarrow> string \<Rightarrow> (string \<times> effect_uuid) list \<Rightarrow> cnode list" where
  "config_nodes lib path es = config_file_nodes [(lib, path)] (map (\<lambda>(n, u). (n, lib, u)) es)"

definition lib_loaded :: "'w effect_library \<Rightarrow> string \<Rightarrow> effect_descriptor list \<Rightarrow> 'w factory \<Rightarrow> bool" where
  "lib_loaded desc lib ds s \<longleftrightarrow> gLibraryList s = [0] \<and> (gCachedLibrary s = None \<or> gCachedLibrary s = Some 0)
     \<and> (\<exists>e. lib_at s 0 = Some e \<and> lib_desc e = desc \<and> lib_name e = lib \<and> lib_effects e = ds)"

lemma effects_named_all: "effects_named lib (map (Pair lib \<circ> f) es) = rev (map f es)"
  by (simp add: effects_named_def filter_map o_def)

lemma libs_loaded_one:
  assumes "libs_loaded [(lib, desc)] (map (Pair lib \<circ> f) es) s" shows "lib_loaded desc lib (rev (map f es)) s"
proof -
  from assms obtain e where "lib_at s 0 = Some e" "(lib_name e, lib_desc e) = (lib, desc)" "lib_effects e = rev (map f es)"
    by (auto simp: libs_loaded_def effects_named_all)
  moreover have "gLibraryList s = [0]" "gCachedLibrary s = None \<or> gCachedLibrary s = Some 0"
    using assms by (cases "gCachedLibrary s"; auto simp: libs_loaded_def)+
  ultimately show ?thesis by (simp add: lib_loaded_def)
qed

lemma describe_effects_all:
  assumes "\<forall>e \<in> set es. \<forall>w. I w \<longrightarrow> (\<exists>w'. get_descriptor desc (snd e) w = (0, f (snd e), w') \<and> I w')"
    and "\<forall>e \<in> set es. EFFECT_API_VERSION_MAJOR (apiVersion (f (snd e))) = 2" and "I w"
  shows "\<exists>w'. describe_effects [(lib, desc)] (map (\<lambda>(n, u). (n, lib, u)) es) w = (map (Pair lib \<circ> (f \<circ> snd)) es, w') \<and> I w'"
  using assms
proof (induction es arbitrary: w)
  case (Cons e es)
  obtain n u where e: "e = (n, u)" by (cases e)
  obtain w1 where w1: "get_descriptor desc u w = (0, f u, w1)" "I w1" using Cons.prems(1,3) e by auto
  from Cons.IH [OF _ _ w1(2)] Cons.prems(1,2) obtain w' where
    "describe_effects [(lib, desc)] (map (\<lambda>(n, u). (n, lib, u)) es) w1 = (map (Pair lib \<circ> (f \<circ> snd)) es, w')" "I w'" by auto
  with w1 e Cons.prems(2) show ?case by simp
qed simp

lemma configured_effects:
  assumes lib: "key_ok lib" "length lib \<le> PATH_MAX"
    and path: "value_ok path" "path \<noteq> []" "\<not> isspace (last path)"
    and es: "\<forall>e \<in> set es. key_ok (fst e)" "distinct (map fst es)"
    and conf: "can_read env vendor_config" "read_file env vendor_config = Some (print_nodes (config_nodes lib path es))"
    and opened: "dlopen env path w = (Some hdl, w1)" "dlsym env hdl ''AELI'' = Some desc" "I w1"
    and desc: "lib_tag desc = AUDIO_EFFECT_LIBRARY_TAG" "EFFECT_API_VERSION_MAJOR (lib_version desc) = 3"
    and effects: "\<forall>e \<in> set es. \<forall>w. I w \<longrightarrow> (\<exists>w'. get_descriptor desc (snd e) w = (0, f (snd e), w') \<and> I w')"
      "\<forall>e \<in> set es. EFFECT_API_VERSION_MAJOR (apiVersion (f (snd e))) = 2 \<and> d_uuid (f (snd e)) = snd e"
  shows "lib_loaded desc lib (rev (map (f \<circ> snd) es)) (init env (factory_start w))"
    "I (libs_state (init env (factory_start w)))"
    "\<forall>e \<in> set es. find_in_library None (Some (snd e)) (rev (map (f \<circ> snd) es)) = Some (f (snd e))"
proof -
  let ?es = "map (\<lambda>(n, u). (n, lib, u)) es"
  have "map fst ?es = map fst es" by (induction es) auto
  with lib path es have ok: "config_ok [(lib, path)] ?es" by (auto simp: config_ok_def simp del: map_map)
  have o1: "open_libraries env [(lib, path)] w = ([(lib, desc)], w1)"
    using opened(1,2) desc by (simp add: usable_library_def)
  from describe_effects_all [where I = I, OF effects(1) _ opened(3)] effects(2) obtain w2 where
    w2: "describe_effects [(lib, desc)] ?es w1 = (map (Pair lib \<circ> (f \<circ> snd)) es, w2)" "I w2" by blast
  from config_file_loaded [OF ok conf [unfolded config_nodes_def] o1 w2(1)] w2(2)
  show "lib_loaded desc lib (rev (map (f \<circ> snd) es)) (init env (factory_start w))"
    "I (libs_state (init env (factory_start w)))"
    by (auto intro: libs_loaded_one)
  show "\<forall>e \<in> set es. find_in_library None (Some (snd e)) (rev (map (f \<circ> snd) es)) = Some (f (snd e))"
    using effects(2) unfolding find_in_library_find by (intro ballI find_only) auto
qed

lemma libs_loaded_entries:
  assumes "libs_loaded ls ds s"
  shows "map (\<lambda>l. (lib_name (the_lib s l), lib_desc (the_lib s l), lib_effects (the_lib s l))) (gLibraryList s)
    = rev (map (\<lambda>(n, desc). (n, desc, effects_named n ds)) ls)"
proof -
  have "map (\<lambda>l. (lib_name (the_lib s l), lib_desc (the_lib s l), lib_effects (the_lib s l))) [0..<length ls]
      = map (\<lambda>(n, desc). (n, desc, effects_named n ds)) ls"
  proof (rule nth_equalityI, simp, clarsimp)
    fix i assume "i < length ls"
    from libs_loaded_entry [OF assms this] show "(lib_name (the_lib s i), lib_desc (the_lib s i), lib_effects (the_lib s i))
      = (case ls ! i of (n, desc) \<Rightarrow> (n, desc, effects_named n ds))" by (cases "ls ! i") simp
  qed
  with assms show ?thesis by (simp add: libs_loaded_def flip: rev_map)
qed

text \<open>C29: the vendor's configuration file with any libraries and effects, printed with distinct names that
  the parser can read back and that are no longer than PATH_MAX, is loaded exactly.  The factory
  then holds, the last one first, the libraries of the file that open and have the right tag and
  version, and under each of them, the last one first, the effects of the file that name this
  library and that it describes under the API's version; the others are passed over.  The
  libraries have been called for no more than that, in the order of the file.  EffectGetDescriptor
  finds each of these effects by its identifier, where no other has the same.\<close>

theorem configured_effects_found:
  assumes "config_ok libs es"
    and "can_read env vendor_config" "read_file env vendor_config = Some (print_nodes (config_file_nodes libs es))"
    and "open_libraries env libs w = (ls, w1)" "describe_effects ls es w1 = (ds, w2)"
  shows "let s = init env (factory_start w) in
    map (\<lambda>l. (lib_name (the_lib s l), lib_desc (the_lib s l), lib_effects (the_lib s l))) (gLibraryList s)
      = rev (map (\<lambda>(n, desc). (n, desc, effects_named n ds)) ls)
    \<and> libs_state s = w2
    \<and> (\<forall>u. EffectGetDescriptor env (Some u) True (factory_start w) =
        (case find (\<lambda>d. d_uuid d = u) (concat (map (\<lambda>(n, _). effects_named n ds) (rev ls))) of
           None \<Rightarrow> (- ENOENT, None, s) | Some d \<Rightarrow> (0, Some d, s)))"
proof -
  let ?s = "init env (factory_start w)"
  note loaded = config_file_loaded [OF assms]
  then have entries: "map (\<lambda>l. (lib_name (the_lib ?s l), lib_desc (the_lib ?s l), lib_effects (the_lib ?s l))) (gLibraryList ?s)
      = rev (map (\<lambda>(n, desc). (n, desc, effects_named n ds)) ls)"
    by (intro libs_loaded_entries) simp
  then have "map (snd \<circ> snd) (map (\<lambda>l. (lib_name (the_lib ?s l), lib_desc (the_lib ?s l), lib_effects (the_lib ?s l))) (gLibraryList ?s))
      = map (snd \<circ> snd) (rev (map (\<lambda>(n, desc). (n, desc, effects_named n ds)) ls))" by simp
  then have "all_effects ?s = concat (map (\<lambda>(n, _). effects_named n ds) (rev ls))"
    by (simp add: effects_of_def o_def case_prod_unfold rev_map)
  with entries loaded show ?thesis by (simp add: Let_def EffectGetDescriptor_find)
qed

section \<open>A run\<close>

text \<open>A library with one effect beside another, whose functions note their calls.\<close>

definition sample_uuid :: "u32 \<Rightarrow> effect_uuid" where
  "sample_uuid t = EFFECT_UUID_NULL\<lparr>timeLow := t\<rparr>"

definition sample_descriptor :: "effect_uuid \<Rightarrow> effect_descriptor" where
  "sample_descriptor u = \<lparr>d_type = EFFECT_UUID_NULL, d_uuid = u, apiVersion = 0x20000, d_flags = 0, cpuLoad = 10,
     memoryUsage = 1, d_name = ''reverb'', implementor = ''none''\<rparr>"

definition sample_lib :: "nat list effect_library" where
  "sample_lib = \<lparr>lib_tag = AUDIO_EFFECT_LIBRARY_TAG, lib_version = 0x30000,
     create_effect = (\<lambda>u sid io w. Some (0, 7, 1 # w)), release_effect = (\<lambda>h w. h # w),
     get_descriptor = (\<lambda>u w. (0, sample_descriptor u, w))\<rparr>"

definition sample_effects :: "(string \<times> effect_uuid) list" where
  "sample_effects = [(''reverb'', sample_uuid 1), (''echo'', sample_uuid 2)]"

definition sample_env :: "nat list effects_env" where
  "sample_env = \<lparr>can_read = (\<lambda>p. p = vendor_config),
     read_file = (\<lambda>p. Some (print_nodes (config_nodes ''lib'' ''/x.so'' sample_effects))),
     dlopen = (\<lambda>p w. (Some 5, w)), dlsym = (\<lambda>h n. Some sample_lib), dlclose = (\<lambda>h w. w),
     sub_itfe = (\<lambda>h. \<lparr>if_process = (\<lambda>i out w. Some (0, 2 # w)), if_command = (\<lambda>c n d r q w. Some (0, w)),
       if_get_descriptor = (\<lambda>w. (0, sample_descriptor (sample_uuid 1), w)), if_process_reverse = None\<rparr>)\<rparr>"

lemma sample_config:
  "key_ok ''lib''" "length ''lib'' \<le> PATH_MAX" "value_ok ''/x.so''" "''/x.so'' \<noteq> []" "\<not> isspace (last ''/x.so'')"
  "\<forall>e \<in> set sample_effects. key_ok (fst e)" "distinct (map fst sample_effects)"
  "can_read sample_env vendor_config"
  "read_file sample_env vendor_config = Some (print_nodes (config_nodes ''lib'' ''/x.so'' sample_effects))"
  "dlopen sample_env ''/x.so'' [] = (Some 5, [])" "dlsym sample_env 5 ''AELI'' = Some sample_lib"
  "lib_tag sample_lib = AUDIO_EFFECT_LIBRARY_TAG" "EFFECT_API_VERSION_MAJOR (lib_version sample_lib) = 3"
  "\<forall>e \<in> set sample_effects. \<forall>w. \<exists>w'. get_descriptor sample_lib (snd e) w = (0, sample_descriptor (snd e), w')"
  "\<forall>e \<in> set sample_effects. EFFECT_API_VERSION_MAJOR (apiVersion (sample_descriptor (snd e))) = 2
     \<and> d_uuid (sample_descriptor (snd e)) = snd e"
  by (simp_all add: key_ok_def key_char_def value_ok_def isspace_def separators_def newline_def PATH_MAX_def
      sample_effects_def sample_env_def sample_lib_def sample_descriptor_def EFFECT_API_VERSION_MAJOR_def)

text \<open>A file that names three libraries, one of which does not open, and four effects.\<close>

definition three_libs :: "(string \<times> string) list" where
  "three_libs = [(''bundle'', ''/b.so''), (''gone'', ''/g.so''), (''reverb'', ''/r.so'')]"

definition four_effects :: "(string \<times> string \<times> effect_uuid) list" where
  "four_effects = [(''bass'', ''bundle'', sample_uuid 1), (''room'', ''reverb'', sample_uuid 2),
     (''lost'', ''gone'', sample_uuid 3), (''wide'', ''bundle'', sample_uuid 4)]"

definition three_env :: "nat list effects_env" where
  "three_env = sample_env\<lparr>read_file := (\<lambda>p. Some (print_nodes (config_file_nodes three_libs four_effects))),
     dlopen := (\<lambda>p w. (if p = ''/g.so'' then None else Some 5, length p # w))\<rparr>"

lemma three_config:
  "config_ok three_libs four_effects" "can_read three_env vendor_config"
  "read_file three_env vendor_config = Some (print_nodes (config_file_nodes three_libs four_effects))"
  "open_libraries three_env three_libs [] = ([(''bundle'', sample_lib), (''reverb'', sample_lib)], [5, 5, 5])"
  "describe_effects [(''bundle'', sample_lib), (''reverb'', sample_lib)] four_effects [5, 5, 5] =
     ([(''bundle'', sample_descriptor (sample_uuid 1)), (''reverb'', sample_descriptor (sample_uuid 2)),
       (''bundle'', sample_descriptor (sample_uuid 4))], [5, 5, 5])"
  by (simp_all add: config_ok_def three_libs_def four_effects_def three_env_def usable_library_def key_ok_def key_char_def
      value_ok_def isspace_def separators_def newline_def PATH_MAX_def sample_env_def sample_lib_def sample_descriptor_def
      AUDIO_EFFECT_LIBRARY_TAG_def EFFECT_API_VERSION_MAJOR_def)

lemma configured_effects_found_witness:
  "map (\<lambda>l. lib_name (the_lib (init three_env (factory_start [])) l)) (gLibraryList (init three_env (factory_start [])))
      = [''reverb'', ''bundle'']
   \<and> map (\<lambda>l. lib_effects (the_lib (init three_env (factory_start [])) l)) (gLibraryList (init three_env (factory_start [])))
      = [[sample_descriptor (sample_uuid 2)], [sample_descriptor (sample_uuid 4), sample_descriptor (sample_uuid 1)]]
   \<and> EffectGetDescriptor three_env (Some (sample_uuid 1)) True (factory_start [])
      = (0, Some (sample_descriptor (sample_uuid 1)), init three_env (factory_start []))"
proof -
  note r = configured_effects_found [OF three_config, unfolded Let_def]
  from r [THEN conjunct1, THEN arg_cong [where f = "map fst"]] r [THEN conjunct1, THEN arg_cong [where f = "map (snd \<circ> snd)"]]
  have "map (\<lambda>l. lib_name (the_lib (init three_env (factory_start [])) l)) (gLibraryList (init three_env (factory_start [])))
      = [''reverb'', ''bundle'']"
    "map (\<lambda>l. lib_effects (the_lib (init three_env (factory_start [])) l)) (gLibraryList (init three_env (factory_start [])))
      = [[sample_descriptor (sample_uuid 2)], [sample_descriptor (sample_uuid 4), sample_descriptor (sample_uuid 1)]]"
    by (simp_all add: effects_named_def o_def)
  moreover have "sample_uuid 2 \<noteq> sample_uuid 1" "sample_uuid 4 \<noteq> sample_uuid 1"
    by (simp_all add: sample_uuid_def EFFECT_UUID_NULL_def)
  then have "EffectGetDescriptor three_env (Some (sample_uuid 1)) True (factory_start [])
      = (0, Some (sample_descriptor (sample_uuid 1)), init three_env (factory_start []))"
    using r by (simp add: effects_named_def sample_descriptor_def)
  ultimately show ?thesis by blast
qed

definition sample_state :: "nat list factory" where
  "sample_state = init sample_env (factory_start [])"

lemma sample_reach: "factory_reach sample_env (factory_start [])" "factory_reach sample_env sample_state"
proof -
  show start: "factory_reach sample_env (factory_start [])" unfolding factory_reach_def by blast
  have "EffectGetDescriptor sample_env None False (factory_start []) = (- EINVAL, None, sample_state)"
    by (simp add: EffectGetDescriptor_def sample_state_def)
  then have "factory_step sample_env (factory_start []) sample_state" by (rule factory_step.descriptor)
  then show "factory_reach sample_env sample_state" unfolding factory_reach_def by blast
qed

lemma sample_loaded:
  "gInitDone sample_state" "gLibraryList sample_state = [0]" "lib_desc (the_lib sample_state 0) = sample_lib"
  "lib_effects (the_lib sample_state 0) = [sample_descriptor (sample_uuid 2), sample_descriptor (sample_uuid 1)]"
  "gNumEffects sample_state = 2" "entry_at sample_state a = None"
proof -
  have "lib_loaded sample_lib ''lib'' [sample_descriptor (sample_uuid 2), sample_descriptor (sample_uuid 1)] sample_state"
    using configured_effects(1) [where I = "\<lambda>_. True", OF sample_config(1-11) TrueI sample_config(12,13) _ sample_config(15)]
      sample_config(14) by (simp add: sample_effects_def sample_state_def)
  then show l: "gLibraryList sample_state = [0]" "lib_desc (the_lib sample_state 0) = sample_lib"
    "lib_effects (the_lib sample_state 0) = [sample_descriptor (sample_uuid 2), sample_descriptor (sample_uuid 1)]"
    by (auto simp: lib_loaded_def the_lib_def)
  note r = reach_init [OF sample_reach(1), folded sample_state_def, THEN conjunct1]
    reach_init [OF sample_reach(1), folded sample_state_def, THEN conjunct2, THEN conjunct1]
    reach_init [OF sample_reach(1), folded sample_state_def, THEN conjunct2, THEN conjunct2]
  from r(3) show "gInitDone sample_state" .
  from r(2) show "entry_at sample_state a = None" by (simp add: factory_start_def)
  from r(1,3) l show "gNumEffects sample_state = 2" by (simp add: factory_ok_def)
qed

lemma EffectQueryEffect_exact_witness:
  "\<exists>s s'. EffectQueryNumberEffects sample_env True sample_state = (0, Some 2, s)
     \<and> EffectQueryEffect sample_env 1 True s = Some (0, Some (sample_descriptor (sample_uuid 1)), s')"
proof -
  let ?s = "sample_state\<lparr>gCanQueryEffect := True\<rparr>"
  have n: "EffectQueryNumberEffects sample_env True sample_state = (0, Some 2, ?s)"
    using sample_loaded by (simp add: EffectQueryNumberEffects_def)
  then have "factory_step sample_env sample_state ?s" by (rule factory_step.number)
  with sample_reach(2) have "factory_reach sample_env ?s"
    unfolding factory_reach_def by (meson rtranclp.rtrancl_into_rtrancl)
  from EffectQueryEffect_exact [OF this, of 1 True] sample_loaded n show ?thesis
    by (auto simp: the_lib_def word_le_nat_alt split: if_splits)
qed

lemma sample_create:
  "\<exists>s'. EffectCreate sample_env (Some 100) (Some (sample_uuid 1)) 0 0 True sample_state = Some (0, Some 100, s')
     \<and> factory_reach sample_env s' \<and> entry_at s' 100 \<noteq> None"
proof -
  have "sample_uuid 2 \<noteq> sample_uuid 1" by (simp add: sample_uuid_def EFFECT_UUID_NULL_def)
  then have "findEffect None (Some (sample_uuid 1)) sample_state = Inr (0, sample_descriptor (sample_uuid 1))"
    using sample_loaded by (simp add: findEffect_def sample_descriptor_def)
  then obtain s' where c: "EffectCreate sample_env (Some 100) (Some (sample_uuid 1)) 0 0 True sample_state = Some (0, Some 100, s')"
      "entry_at s' 100 \<noteq> None"
    using sample_loaded by (simp add: EffectCreate_def sample_lib_def)
  have "\<forall>a. Some (100 :: nat) = Some a \<longrightarrow> entry_at sample_state a = None" by (simp add: sample_loaded)
  with c(1) have "factory_step sample_env sample_state s'" by (rule factory_step.create)
  with sample_reach(2) have "factory_reach sample_env s'"
    unfolding factory_reach_def by (meson rtranclp.rtrancl_into_rtrancl)
  with c show ?thesis by blast
qed

lemma EffectRelease_exact_witness:
  "\<exists>s s' t. EffectCreate sample_env (Some 100) (Some (sample_uuid 1)) 0 0 True sample_state = Some (0, Some 100, s)
     \<and> EffectRelease sample_env 100 s = Some (0, t) \<and> EffectRelease sample_env 100 t = Some (- ENOENT, t)"
proof -
  obtain s where s: "EffectCreate sample_env (Some 100) (Some (sample_uuid 1)) 0 0 True sample_state = Some (0, Some 100, s)"
      "factory_reach sample_env s" "entry_at s 100 \<noteq> None"
    using sample_create by blast
  from EffectRelease_exact [OF s(2), of 100] s(1,3) show ?thesis by auto
qed

lemma EffectCreate_serves_witness:
  "\<exists>s. EffectCreate sample_env (Some 100) (Some (sample_uuid 1)) 0 0 True sample_state = Some (0, Some 100, s)
     \<and> Effect_Process sample_env 100 3 4 s = Some (0, s\<lparr>libs_state := 2 # libs_state s\<rparr>)
     \<and> call_process_reverse sample_env 100 3 4 s = None"
proof -
  obtain s where s: "EffectCreate sample_env (Some 100) (Some (sample_uuid 1)) 0 0 True sample_state = Some (0, Some 100, s)"
    using sample_create by blast
  have itfe: "if_process (sub_itfe sample_env h) i out w = Some (0, 2 # w)" "if_process_reverse (sub_itfe sample_env h) = None"
    for h i out w by (simp_all add: sample_env_def)
  from EffectCreate_serves [OF sample_reach(2) sample_loaded(6) s, where i = 3 and out = 4 and c = 0 and n = 0 and data = 0 and r = 0 and reply = 0] s show ?thesis
    by (auto simp: itfe)
qed

end
