(* ===== verification/AudioPrimitives.thy ===== *)
theory AudioPrimitives
  imports Prelude
begin

text \<open>
  The sample conversions of libaudioutils (libs/audio_utils/primitives.c and primitives.h).

  Buffers lie in memory, and the loops run over it in the order of the code, so that what
  happens when the destination is the source is part of the model.  Signed samples are words
  read with \<open>sint\<close>; \<open>>>\<close> on them is \<open>signed_drop_bit\<close>.
\<close>

section \<open>Single samples\<close>

definition clamp16 :: "u32 \<Rightarrow> u16" where
  "clamp16 sample =
     (if signed_drop_bit 15 sample XOR signed_drop_bit 31 sample \<noteq> 0
      then scast (0x7FFF XOR signed_drop_bit 31 sample) else scast sample)"

definition mul :: "u16 \<Rightarrow> u16 \<Rightarrow> u32" where
  "mul x v = scast x * scast v"

definition mulAdd :: "u16 \<Rightarrow> u16 \<Rightarrow> u32 \<Rightarrow> u32" where
  "mulAdd x v a = a + scast x * scast v"

definition mulRL :: "bool \<Rightarrow> u32 \<Rightarrow> u32 \<Rightarrow> u32" where
  "mulRL l inRL vRL =
     (if l then scast (ucast (inRL AND 0xFFFF) :: u16) * scast (ucast (vRL AND 0xFFFF) :: u16)
      else scast (ucast (drop_bit 16 inRL) :: u16) * scast (ucast (drop_bit 16 vRL) :: u16))"

definition mulAddRL :: "bool \<Rightarrow> u32 \<Rightarrow> u32 \<Rightarrow> u32 \<Rightarrow> u32" where
  "mulAddRL l inRL vRL a =
     (if l then a + scast (ucast (inRL AND 0xFFFF) :: u16) * scast (ucast (vRL AND 0xFFFF) :: u16)
      else a + scast (ucast (drop_bit 16 inRL) :: u16) * scast (ucast (drop_bit 16 vRL) :: u16))"

definition i16_from_u8 :: "u8 \<Rightarrow> u16" where
  "i16_from_u8 x = push_bit 8 (ucast x - 0x80)"

definition u8_from_i16 :: "u16 \<Rightarrow> u8" where
  "u8_from_i16 x = ucast (signed_drop_bit 8 x + 0x80)"

definition mono_of :: "u16 \<Rightarrow> u16 \<Rightarrow> u16" where
  "mono_of x y = scast (signed_drop_bit 1 (scast x + scast y :: u32))"

section \<open>Buffers\<close>

text \<open>Both channels are packed in one word of the output.\<close>

fun ditherAndClamp :: "nat \<Rightarrow> nat \<Rightarrow> nat \<Rightarrow> memory \<Rightarrow> memory" where
  "ditherAndClamp out sums 0 m = m"
| "ditherAndClamp out sums (Suc c) m =
     (let l = load32 m sums; r = load32 m (sums + 4);
          l = scast (clamp16 (signed_drop_bit 12 l)) :: u32;
          r = scast (clamp16 (signed_drop_bit 12 r)) :: u32
      in ditherAndClamp (out + 4) (sums + 8) c (store32 out (push_bit 16 r OR (l AND 0xFFFF)) m))"

text \<open>From the last sample to the first.\<close>

fun memcpy_to_i16_from_u8 :: "nat \<Rightarrow> nat \<Rightarrow> nat \<Rightarrow> memory \<Rightarrow> memory" where
  "memcpy_to_i16_from_u8 dst src 0 m = m"
| "memcpy_to_i16_from_u8 dst src (Suc n) m =
     memcpy_to_i16_from_u8 dst src n (store16 (dst + 2 * n) (i16_from_u8 (m (src + n))) m)"

fun memcpy_to_u8_from_i16 :: "nat \<Rightarrow> nat \<Rightarrow> nat \<Rightarrow> memory \<Rightarrow> memory" where
  "memcpy_to_u8_from_i16 dst src 0 m = m"
| "memcpy_to_u8_from_i16 dst src (Suc n) m =
     memcpy_to_u8_from_i16 (dst + 1) (src + 2) n (m(dst := u8_from_i16 (load16 m src)))"

fun downmix_to_mono_i16_from_stereo_i16 :: "nat \<Rightarrow> nat \<Rightarrow> nat \<Rightarrow> memory \<Rightarrow> memory" where
  "downmix_to_mono_i16_from_stereo_i16 dst src 0 m = m"
| "downmix_to_mono_i16_from_stereo_i16 dst src (Suc n) m =
     downmix_to_mono_i16_from_stereo_i16 (dst + 2) (src + 4) n
       (store16 dst (mono_of (load16 m src) (load16 m (src + 2))) m)"

fun upmix_to_stereo_i16_from_mono_i16 :: "nat \<Rightarrow> nat \<Rightarrow> nat \<Rightarrow> memory \<Rightarrow> memory" where
  "upmix_to_stereo_i16_from_mono_i16 dst src 0 m = m"
| "upmix_to_stereo_i16_from_mono_i16 dst src (Suc n) m =
     (let temp = load16 m src in
      upmix_to_stereo_i16_from_mono_i16 (dst + 4) (src + 2) n
        (store16 (dst + 2) temp (store16 dst temp m)))"

end
