(* ===== verification/EffectDownmix.thy ===== *)
theory EffectDownmix
  imports AudioPrimitives EffectsFactory
begin

text \<open>
  The downmix effect (libs/libeffects/downmix/EffectDownmix.c and .h): the library's
  functions, the commands, and the loops that mix frames of several channels into stereo.

  Samples lie in memory as in \<open>AudioPrimitives\<close>.  The loops that differ in whether the
  result is added to the destination are one loop with that flag; what else they do and the order
  of their stores is the code's.  The data of a command and of its reply are lists of words; reading
  or writing past their end is \<open>None\<close>, as is the use of malloc's NULL.  What is only logged is
  left out.
\<close>

section \<open>State\<close>

record buffer_config =
  bc_frameCount :: u32
  bc_raw :: u32
  samplingRate :: u32
  channels :: u32
  getBuffer :: u32
  releaseBuffer :: u32
  provider_cookie :: u32
  cfg_format :: u8
  accessMode :: u8
  cfg_mask :: u16

record effect_config =
  inputCfg :: buffer_config
  outputCfg :: buffer_config

datatype downmix_state = DOWNMIX_STATE_UNINITIALIZED | DOWNMIX_STATE_INITIALIZED | DOWNMIX_STATE_ACTIVE

record downmix_module =
  dm_config :: effect_config
  dm_state :: downmix_state
  dm_type :: int
  apply_volume_correction :: bool
  input_channel_count :: u8

definition AUDIO_CHANNEL_OUT_STEREO :: u32 where "AUDIO_CHANNEL_OUT_STEREO = 0x3"
definition AUDIO_CHANNEL_OUT_FRONT_CENTER :: u32 where "AUDIO_CHANNEL_OUT_FRONT_CENTER = 0x4"
definition AUDIO_CHANNEL_OUT_LOW_FREQUENCY :: u32 where "AUDIO_CHANNEL_OUT_LOW_FREQUENCY = 0x8"
definition AUDIO_CHANNEL_OUT_BACK_CENTER :: u32 where "AUDIO_CHANNEL_OUT_BACK_CENTER = 0x100"
definition AUDIO_CHANNEL_OUT_7POINT1 :: u32 where "AUDIO_CHANNEL_OUT_7POINT1 = 0x63F"
definition AUDIO_FORMAT_PCM_16_BIT :: u8 where "AUDIO_FORMAT_PCM_16_BIT = 1"
definition EFFECT_BUFFER_ACCESS_READ :: u8 where "EFFECT_BUFFER_ACCESS_READ = 1"
definition EFFECT_BUFFER_ACCESS_ACCUMULATE :: u8 where "EFFECT_BUFFER_ACCESS_ACCUMULATE = 2"
definition EFFECT_CONFIG_ALL :: u16 where "EFFECT_CONFIG_ALL = 0x3F"

definition kSides :: u32 where "kSides = 0x600"
definition kBacks :: u32 where "kBacks = 0x30"
definition kUnsupported :: u32 where "kUnsupported = 0x3F8C0"

definition DOWNMIX_TYPE_STRIP :: int where "DOWNMIX_TYPE_STRIP = 0"
definition DOWNMIX_TYPE_FOLD :: int where "DOWNMIX_TYPE_FOLD = 1"

definition popcount :: "u32 \<Rightarrow> nat" where
  "popcount x = length (filter (bit x) [0..<32])"

section \<open>Mixing\<close>

text \<open>A sample as the int that C computes with, and the store of a result.\<close>

definition sample :: "memory \<Rightarrow> nat \<Rightarrow> nat \<Rightarrow> u32" where
  "sample m a i = scast (load16 m (a + 2 * i))"

definition put :: "bool \<Rightarrow> nat \<Rightarrow> u32 \<Rightarrow> memory \<Rightarrow> memory" where
  "put accumulate a v m = store16 a (clamp16 (if accumulate then scast (load16 m a) + v else v)) m"

definition MINUS_3_DB_IN_Q19_12 :: u32 where "MINUS_3_DB_IN_Q19_12 = 2896"

fun strip_loop :: "bool \<Rightarrow> nat \<Rightarrow> nat \<Rightarrow> nat \<Rightarrow> nat \<Rightarrow> memory \<Rightarrow> memory" where
  "strip_loop accumulate count src dst 0 m = m"
| "strip_loop accumulate count src dst (Suc n) m =
     (let m = (if accumulate then put True dst (sample m src 0) m else store16 dst (load16 m src) m);
          m = (if accumulate then put True (dst + 2) (sample m src 1) m else store16 (dst + 2) (load16 m (src + 2)) m)
      in strip_loop accumulate count (src + 2 * count) (dst + 4) n m)"

fun Downmix_foldFromQuad :: "bool \<Rightarrow> nat \<Rightarrow> nat \<Rightarrow> nat \<Rightarrow> memory \<Rightarrow> memory" where
  "Downmix_foldFromQuad accumulate src dst 0 m = m"
| "Downmix_foldFromQuad accumulate src dst (Suc n) m =
     (let m = put accumulate dst (signed_drop_bit 1 (sample m src 0 + sample m src 2)) m;
          m = put accumulate (dst + 2) (signed_drop_bit 1 (sample m src 1 + sample m src 3)) m
      in Downmix_foldFromQuad accumulate (src + 8) (dst + 4) n m)"

fun Downmix_foldFromSurround :: "bool \<Rightarrow> nat \<Rightarrow> nat \<Rightarrow> nat \<Rightarrow> memory \<Rightarrow> memory" where
  "Downmix_foldFromSurround accumulate src dst 0 m = m"
| "Downmix_foldFromSurround accumulate src dst (Suc n) m =
     (let centerPlusRearContrib = sample m src 2 * MINUS_3_DB_IN_Q19_12 + sample m src 3 * MINUS_3_DB_IN_Q19_12;
          lt = push_bit 12 (sample m src 0) + centerPlusRearContrib;
          rt = push_bit 12 (sample m src 1) + centerPlusRearContrib;
          m = put accumulate dst (signed_drop_bit 13 lt) m;
          m = put accumulate (dst + 2) (signed_drop_bit 13 rt) m
      in Downmix_foldFromSurround accumulate (src + 8) (dst + 4) n m)"

fun Downmix_foldFrom5Point1 :: "bool \<Rightarrow> nat \<Rightarrow> nat \<Rightarrow> nat \<Rightarrow> memory \<Rightarrow> memory" where
  "Downmix_foldFrom5Point1 accumulate src dst 0 m = m"
| "Downmix_foldFrom5Point1 accumulate src dst (Suc n) m =
     (let centerPlusLfeContrib = sample m src 2 * MINUS_3_DB_IN_Q19_12 + sample m src 3 * MINUS_3_DB_IN_Q19_12;
          lt = push_bit 12 (sample m src 0) + centerPlusLfeContrib + push_bit 12 (sample m src 4);
          rt = push_bit 12 (sample m src 1) + centerPlusLfeContrib + push_bit 12 (sample m src 5);
          m = put accumulate dst (signed_drop_bit 13 lt) m;
          m = put accumulate (dst + 2) (signed_drop_bit 13 rt) m
      in Downmix_foldFrom5Point1 accumulate (src + 12) (dst + 4) n m)"

fun Downmix_foldFrom7Point1 :: "bool \<Rightarrow> nat \<Rightarrow> nat \<Rightarrow> nat \<Rightarrow> memory \<Rightarrow> memory" where
  "Downmix_foldFrom7Point1 accumulate src dst 0 m = m"
| "Downmix_foldFrom7Point1 accumulate src dst (Suc n) m =
     (let centerPlusLfeContrib = sample m src 2 * MINUS_3_DB_IN_Q19_12 + sample m src 3 * MINUS_3_DB_IN_Q19_12;
          lt = push_bit 12 (sample m src 0) + centerPlusLfeContrib + push_bit 12 (sample m src 6) + push_bit 12 (sample m src 4);
          rt = push_bit 12 (sample m src 1) + centerPlusLfeContrib + push_bit 12 (sample m src 7) + push_bit 12 (sample m src 5);
          m = put accumulate dst (signed_drop_bit 13 lt) m;
          m = put accumulate (dst + 2) (signed_drop_bit 13 rt) m
      in Downmix_foldFrom7Point1 accumulate (src + 16) (dst + 4) n m)"

text \<open>The frame's layout: which channels are there, at which index, and how many there are.\<close>

record layout =
  hasFC :: bool
  hasLFE :: bool
  hasBacks :: bool
  hasBC :: bool
  hasSides :: bool
  indexFC :: nat
  indexLFE :: nat
  indexBL :: nat
  indexBR :: nat
  indexBC :: nat
  indexSL :: nat
  indexSR :: nat
  numChan :: nat

definition frame_layout :: "u32 \<Rightarrow> layout option" where
  "frame_layout chmask =
     (if chmask AND kUnsupported \<noteq> 0 then None
      else if chmask AND AUDIO_CHANNEL_OUT_STEREO \<noteq> AUDIO_CHANNEL_OUT_STEREO then None
      else if chmask AND kSides \<noteq> 0 \<and> chmask AND kSides \<noteq> kSides then None
      else if chmask AND kBacks \<noteq> 0 \<and> chmask AND kBacks \<noteq> kBacks then None
      else (let sides = chmask AND kSides \<noteq> 0; backs = chmask AND kBacks \<noteq> 0;
                fc = chmask AND AUDIO_CHANNEL_OUT_FRONT_CENTER = AUDIO_CHANNEL_OUT_FRONT_CENTER;
                lfe = chmask AND AUDIO_CHANNEL_OUT_LOW_FREQUENCY = AUDIO_CHANNEL_OUT_LOW_FREQUENCY;
                bc = chmask AND AUDIO_CHANNEL_OUT_BACK_CENTER = AUDIO_CHANNEL_OUT_BACK_CENTER;
                iFC = (if fc then 2 else 1);
                iLFE = (if lfe then iFC + 1 else iFC);
                iBL = (if backs then iLFE + 1 else iLFE);
                iBR = (if backs then iBL + 1 else iBL);
                iBC = (if bc then iBR + 1 else iBR);
                iSL = (if sides then iBC + 1 else iBC);
                iSR = (if sides then iSL + 1 else iSL)
            in Some \<lparr>hasFC = fc, hasLFE = lfe, hasBacks = backs, hasBC = bc, hasSides = sides, indexFC = iFC,
                 indexLFE = iLFE, indexBL = iBL, indexBR = iBR, indexBC = iBC, indexSL = iSL, indexSR = iSR,
                 numChan = popcount chmask\<rparr>))"

definition mix_frame :: "layout \<Rightarrow> memory \<Rightarrow> nat \<Rightarrow> u32 \<times> u32" where
  "mix_frame y m src =
     (let centersLfeContrib = 0;
          centersLfeContrib = (if hasFC y then centersLfeContrib + sample m src (indexFC y) else centersLfeContrib);
          centersLfeContrib = (if hasLFE y then centersLfeContrib + sample m src (indexLFE y) else centersLfeContrib);
          centersLfeContrib = (if hasBC y then centersLfeContrib + sample m src (indexBC y) else centersLfeContrib);
          centersLfeContrib = centersLfeContrib * MINUS_3_DB_IN_Q19_12;
          lt = push_bit 12 (sample m src 0);
          rt = push_bit 12 (sample m src 1);
          lt = (if hasSides y then lt + push_bit 12 (sample m src (indexSL y)) else lt);
          rt = (if hasSides y then rt + push_bit 12 (sample m src (indexSR y)) else rt);
          lt = (if hasBacks y then lt + push_bit 12 (sample m src (indexBL y)) else lt);
          rt = (if hasBacks y then rt + push_bit 12 (sample m src (indexBR y)) else rt)
      in (lt + centersLfeContrib, rt + centersLfeContrib))"

fun generic_loop :: "layout \<Rightarrow> bool \<Rightarrow> nat \<Rightarrow> nat \<Rightarrow> nat \<Rightarrow> memory \<Rightarrow> memory" where
  "generic_loop y accumulate src dst 0 m = m"
| "generic_loop y accumulate src dst (Suc n) m =
     (let (lt, rt) = mix_frame y m src;
          m = put accumulate dst (signed_drop_bit 13 lt) m;
          m = put accumulate (dst + 2) (signed_drop_bit 13 rt) m
      in generic_loop y accumulate (src + 2 * numChan y) (dst + 4) n m)"

definition Downmix_foldGeneric :: "u32 \<Rightarrow> bool \<Rightarrow> nat \<Rightarrow> nat \<Rightarrow> nat \<Rightarrow> memory \<Rightarrow> memory option" where
  "Downmix_foldGeneric chmask accumulate src dst numFrames m =
     (case frame_layout chmask of None \<Rightarrow> None | Some y \<Rightarrow> Some (generic_loop y accumulate src dst numFrames m))"

text \<open>The common formats have routines of their own.\<close>

definition Downmix_fold :: "u32 \<Rightarrow> bool \<Rightarrow> nat \<Rightarrow> nat \<Rightarrow> nat \<Rightarrow> memory \<Rightarrow> memory option" where
  "Downmix_fold chmask accumulate src dst n m =
     (if chmask = 0x33 \<or> chmask = 0x603 then Some (Downmix_foldFromQuad accumulate src dst n m)
      else if chmask = 0x107 then Some (Downmix_foldFromSurround accumulate src dst n m)
      else if chmask = 0x3F \<or> chmask = 0x60F then Some (Downmix_foldFrom5Point1 accumulate src dst n m)
      else if chmask = AUDIO_CHANNEL_OUT_7POINT1 then Some (Downmix_foldFrom7Point1 accumulate src dst n m)
      else Downmix_foldGeneric chmask accumulate src dst n m)"

section \<open>Processing\<close>

record audio_buffer =
  frameCount :: nat
  raw :: "nat option"

definition ENODATA :: int where "ENODATA = 61"

definition Downmix_Process :: "downmix_module option \<Rightarrow> audio_buffer option \<Rightarrow> audio_buffer option \<Rightarrow> memory
    \<Rightarrow> int \<times> memory" where
  "Downmix_Process self inBuffer outBuffer m =
     (case (self, inBuffer, outBuffer) of
        (Some module, Some ib, Some ob) \<Rightarrow>
          (case (raw ib, raw ob) of
             (Some src, Some dst) \<Rightarrow>
               if frameCount ib \<noteq> frameCount ob then (- EINVAL, m)
               else if dm_state module = DOWNMIX_STATE_UNINITIALIZED then (- EINVAL, m)
               else if dm_state module = DOWNMIX_STATE_INITIALIZED then (- ENODATA, m)
               else (let accumulate = accessMode (outputCfg (dm_config module)) = EFFECT_BUFFER_ACCESS_ACCUMULATE;
                         chmask = channels (inputCfg (dm_config module)) in
                     if dm_type module = DOWNMIX_TYPE_STRIP
                     then (0, strip_loop accumulate (unat (input_channel_count module)) src dst (frameCount ob) m)
                     else if dm_type module = DOWNMIX_TYPE_FOLD
                     then (case Downmix_fold chmask accumulate src dst (frameCount ob) m of
                             None \<Rightarrow> (- EINVAL, m) | Some m' \<Rightarrow> (0, m'))
                     else (- EINVAL, m))
           | _ \<Rightarrow> (- EINVAL, m))
      | _ \<Rightarrow> (- EINVAL, m))"

section \<open>Configuration and parameters\<close>

text \<open>Nothing is done on a reset.\<close>

definition Downmix_Reset :: "downmix_module \<Rightarrow> bool \<Rightarrow> int \<times> downmix_module" where
  "Downmix_Reset module initial = (0, module)"

text \<open>The configuration is copied before the channels are looked at.\<close>

definition Downmix_Configure :: "downmix_module \<Rightarrow> effect_config \<Rightarrow> bool \<Rightarrow> int \<times> downmix_module" where
  "Downmix_Configure module cfg initial =
     (if samplingRate (inputCfg cfg) \<noteq> samplingRate (outputCfg cfg)
         \<or> channels (outputCfg cfg) \<noteq> AUDIO_CHANNEL_OUT_STEREO
         \<or> cfg_format (inputCfg cfg) \<noteq> AUDIO_FORMAT_PCM_16_BIT
         \<or> cfg_format (outputCfg cfg) \<noteq> AUDIO_FORMAT_PCM_16_BIT
      then (- EINVAL, module)
      else (let module = module\<lparr>dm_config := cfg\<rparr> in
        if initial
        then (let module = module\<lparr>dm_type := DOWNMIX_TYPE_FOLD, apply_volume_correction := False,
                    input_channel_count := 8\<rparr>
              in (0, snd (Downmix_Reset module initial)))
        else if channels (inputCfg cfg) = 0 then (- EINVAL, module)
        else (let module = module\<lparr>input_channel_count := of_nat (popcount (channels (inputCfg cfg)))\<rparr>
              in (0, snd (Downmix_Reset module initial)))))"

definition Downmix_Init :: "downmix_module \<Rightarrow> int \<times> downmix_module" where
  "Downmix_Init module =
     (let module = module\<lparr>dm_state := DOWNMIX_STATE_UNINITIALIZED, dm_type := DOWNMIX_TYPE_STRIP,
            apply_volume_correction := False, input_channel_count := 0\<rparr>;
          ic = (inputCfg (dm_config module))\<lparr>accessMode := EFFECT_BUFFER_ACCESS_READ,
            cfg_format := AUDIO_FORMAT_PCM_16_BIT, channels := AUDIO_CHANNEL_OUT_7POINT1, getBuffer := 0,
            releaseBuffer := 0, provider_cookie := 0, cfg_mask := EFFECT_CONFIG_ALL, samplingRate := 44100\<rparr>;
          oc = (outputCfg (dm_config module))\<lparr>samplingRate := samplingRate ic,
            accessMode := EFFECT_BUFFER_ACCESS_ACCUMULATE, cfg_format := AUDIO_FORMAT_PCM_16_BIT,
            channels := AUDIO_CHANNEL_OUT_STEREO, getBuffer := 0, releaseBuffer := 0, provider_cookie := 0,
            cfg_mask := EFFECT_CONFIG_ALL\<rparr>;
          module = module\<lparr>dm_config := \<lparr>inputCfg = ic, outputCfg = oc\<rparr>\<rparr>;
          (ret, module) = Downmix_Configure module (dm_config module) True
      in (ret, if ret \<noteq> 0 then module else module\<lparr>dm_state := DOWNMIX_STATE_INITIALIZED\<rparr>))"

text \<open>The value is read as an int16_t, the low half of the word at the pointer.\<close>

definition Downmix_setParameter :: "downmix_module \<Rightarrow> int \<Rightarrow> u32 \<Rightarrow> u32 option \<Rightarrow> (int \<times> downmix_module) option" where
  "Downmix_setParameter module param sz pValue =
     (if param = 0
      then (if sz \<noteq> 4 then Some (- EINVAL, module)
            else (case pValue of
                    None \<Rightarrow> None
                  | Some v \<Rightarrow>
                      (let value16 = sint (ucast v :: u16) in
                       if \<not> (value16 > - 1 \<and> value16 \<le> 1) then Some (- EINVAL, module)
                       else Some (0, module\<lparr>dm_type := value16\<rparr>))))
      else Some (- EINVAL, module))"

text \<open>Answers the size and, where it is stored, the value.\<close>

definition Downmix_getParameter :: "downmix_module \<Rightarrow> int \<Rightarrow> u32 \<Rightarrow> int \<times> u32 \<times> u16 option" where
  "Downmix_getParameter module param pSize =
     (if param = 0
      then (if pSize < 2 then (- EINVAL, pSize, None) else (0, 2, Some (of_int (dm_type module))))
      else (- EINVAL, pSize, None))"

section \<open>Commands\<close>

definition peek :: "nat \<Rightarrow> u32 list \<Rightarrow> u32 option" where
  "peek i ws = (if i < length ws then Some (ws ! i) else None)"

definition poke :: "nat \<Rightarrow> u32 \<Rightarrow> u32 list \<Rightarrow> u32 list option" where
  "poke i w ws = (if i < length ws then Some (ws[i := w]) else None)"

text \<open>effect_config_t in memory: two buffer_config_t of eight words.\<close>

definition buffer_config_of :: "u32 list \<Rightarrow> buffer_config" where
  "buffer_config_of ws =
     \<lparr>bc_frameCount = ws ! 0, bc_raw = ws ! 1, samplingRate = ws ! 2, channels = ws ! 3, getBuffer = ws ! 4,
      releaseBuffer = ws ! 5, provider_cookie = ws ! 6, cfg_format = ucast (ws ! 7),
      accessMode = ucast (drop_bit 8 (ws ! 7)), cfg_mask = ucast (drop_bit 16 (ws ! 7))\<rparr>"

definition config_of :: "u32 list \<Rightarrow> effect_config option" where
  "config_of ws =
     (if length ws < 16 then None
      else Some \<lparr>inputCfg = buffer_config_of (take 8 ws), outputCfg = buffer_config_of (drop 8 ws)\<rparr>)"

text \<open>The answer of a command: what it returns, the module, the reply and the reply's size.\<close>

type_synonym answer = "(int \<times> downmix_module \<times> u32 list option \<times> u32) option"

definition reply_int :: "downmix_module \<Rightarrow> u32 list option \<Rightarrow> u32 \<Rightarrow> int \<Rightarrow> answer" where
  "reply_int module reply replySize v =
     (case reply of None \<Rightarrow> None
      | Some ws \<Rightarrow> (case poke 0 (of_int v) ws of None \<Rightarrow> None | Some ws \<Rightarrow> Some (0, module, Some ws, replySize)))"

definition cmd_set_config :: "downmix_module \<Rightarrow> u32 \<Rightarrow> u32 list option \<Rightarrow> u32 \<Rightarrow> u32 list option \<Rightarrow> answer" where
  "cmd_set_config module cmdSize cmd replySize reply =
     (case cmd of
        None \<Rightarrow> Some (- EINVAL, module, reply, replySize)
      | Some cs \<Rightarrow>
          if cmdSize \<noteq> 64 \<or> reply = None \<or> replySize \<noteq> 4 then Some (- EINVAL, module, reply, replySize)
          else (case config_of cs of
                  None \<Rightarrow> None
                | Some cfg \<Rightarrow> (case Downmix_Configure module cfg False of
                                (ret, module) \<Rightarrow> reply_int module reply replySize ret)))"

definition cmd_get_param :: "downmix_module \<Rightarrow> u32 \<Rightarrow> u32 list option \<Rightarrow> u32 \<Rightarrow> u32 list option \<Rightarrow> answer" where
  "cmd_get_param module cmdSize cmd replySize reply =
     (case (cmd, reply) of
        (Some cs, Some rs) \<Rightarrow>
          if cmdSize < 16 \<or> replySize < 20 then Some (- EINVAL, module, reply, replySize)
          else if length cs < 4 \<or> length rs < 4 then None
          else (let rs = take 4 cs @ drop 4 rs;
                    (status, vsize, v) = Downmix_getParameter module (sint (rs ! 3)) (rs ! 2) in
                do {
                  rs \<leftarrow> (case v of None \<Rightarrow> Some rs
                         | Some h \<Rightarrow> do {old \<leftarrow> peek 4 rs; poke 4 ((old AND 0xFFFF0000) OR ucast h) rs});
                  let rs = rs[0 := of_int status, 2 := vsize];
                  Some (0, module, Some rs, 16 + vsize)
                })
      | _ \<Rightarrow> Some (- EINVAL, module, reply, replySize))"

definition cmd_set_param :: "downmix_module \<Rightarrow> u32 \<Rightarrow> u32 list option \<Rightarrow> u32 \<Rightarrow> u32 list option \<Rightarrow> answer" where
  "cmd_set_param module cmdSize cmd replySize reply =
     (case cmd of
        None \<Rightarrow> Some (- EINVAL, module, reply, replySize)
      | Some cs \<Rightarrow>
          if cmdSize < 16 \<or> reply = None \<or> replySize \<noteq> 4 then Some (- EINVAL, module, reply, replySize)
          else do {
            param \<leftarrow> peek 3 cs;
            vsize \<leftarrow> peek 2 cs;
            (ret, module) \<leftarrow> Downmix_setParameter module (sint param) vsize (peek 4 cs);
            reply_int module reply replySize ret
          })"

definition cmd_switch :: "downmix_module \<Rightarrow> downmix_state \<Rightarrow> downmix_state \<Rightarrow> u32 \<Rightarrow> u32 list option \<Rightarrow> answer" where
  "cmd_switch module expected new replySize reply =
     (if reply = None \<or> replySize \<noteq> 4 then Some (- EINVAL, module, reply, replySize)
      else if dm_state module \<noteq> expected then Some (- ENOSYS, module, reply, replySize)
      else reply_int (module\<lparr>dm_state := new\<rparr>) reply replySize 0)"

datatype effect_command =
  EFFECT_CMD_INIT | EFFECT_CMD_SET_CONFIG | EFFECT_CMD_RESET | EFFECT_CMD_ENABLE | EFFECT_CMD_DISABLE
| EFFECT_CMD_SET_PARAM | EFFECT_CMD_SET_PARAM_DEFERRED | EFFECT_CMD_SET_PARAM_COMMIT | EFFECT_CMD_GET_PARAM
| EFFECT_CMD_SET_DEVICE | EFFECT_CMD_SET_VOLUME | EFFECT_CMD_SET_AUDIO_MODE | EFFECT_CMD_SET_CONFIG_REVERSE
| EFFECT_CMD_SET_INPUT_DEVICE | EFFECT_CMD_OTHER

definition effect_command_of :: "u32 \<Rightarrow> effect_command" where
  "effect_command_of code =
     (if code < 14
      then [EFFECT_CMD_INIT, EFFECT_CMD_SET_CONFIG, EFFECT_CMD_RESET, EFFECT_CMD_ENABLE, EFFECT_CMD_DISABLE,
            EFFECT_CMD_SET_PARAM, EFFECT_CMD_SET_PARAM_DEFERRED, EFFECT_CMD_SET_PARAM_COMMIT, EFFECT_CMD_GET_PARAM,
            EFFECT_CMD_SET_DEVICE, EFFECT_CMD_SET_VOLUME, EFFECT_CMD_SET_AUDIO_MODE, EFFECT_CMD_SET_CONFIG_REVERSE,
            EFFECT_CMD_SET_INPUT_DEVICE] ! unat code
      else EFFECT_CMD_OTHER)"

text \<open>A call on an initialised module.\<close>

definition run_command :: "downmix_module \<Rightarrow> effect_command \<Rightarrow> u32 \<Rightarrow> u32 list option \<Rightarrow> u32 \<Rightarrow> u32 list option \<Rightarrow> answer" where
  "run_command module code cmdSize cmd replySize reply =
     (let invalid = Some (- EINVAL, module, reply, replySize); done_nothing = Some (0, module, reply, replySize) in
      case code of
        EFFECT_CMD_INIT \<Rightarrow>
          if reply = None \<or> replySize \<noteq> 4 then invalid
          else (case Downmix_Init module of (ret, module) \<Rightarrow> reply_int module reply replySize ret)
      | EFFECT_CMD_SET_CONFIG \<Rightarrow> cmd_set_config module cmdSize cmd replySize reply
      | EFFECT_CMD_RESET \<Rightarrow> Some (0, snd (Downmix_Reset module False), reply, replySize)
      | EFFECT_CMD_GET_PARAM \<Rightarrow> cmd_get_param module cmdSize cmd replySize reply
      | EFFECT_CMD_SET_PARAM \<Rightarrow> cmd_set_param module cmdSize cmd replySize reply
      | EFFECT_CMD_SET_PARAM_DEFERRED \<Rightarrow> done_nothing
      | EFFECT_CMD_SET_PARAM_COMMIT \<Rightarrow> done_nothing
      | EFFECT_CMD_ENABLE \<Rightarrow> cmd_switch module DOWNMIX_STATE_INITIALIZED DOWNMIX_STATE_ACTIVE replySize reply
      | EFFECT_CMD_DISABLE \<Rightarrow> cmd_switch module DOWNMIX_STATE_ACTIVE DOWNMIX_STATE_INITIALIZED replySize reply
      | EFFECT_CMD_SET_DEVICE \<Rightarrow> if cmd = None \<or> cmdSize \<noteq> 4 then invalid else done_nothing
      | EFFECT_CMD_SET_VOLUME \<Rightarrow> if cmd = None \<or> cmdSize \<noteq> 8 then invalid else done_nothing
      | EFFECT_CMD_SET_AUDIO_MODE \<Rightarrow> if cmd = None \<or> cmdSize \<noteq> 4 then invalid else done_nothing
      | EFFECT_CMD_SET_CONFIG_REVERSE \<Rightarrow> done_nothing
      | EFFECT_CMD_SET_INPUT_DEVICE \<Rightarrow> done_nothing
      | EFFECT_CMD_OTHER \<Rightarrow> invalid)"

definition Downmix_Command :: "downmix_module option \<Rightarrow> u32 \<Rightarrow> u32 \<Rightarrow> u32 list option \<Rightarrow> u32 \<Rightarrow> u32 list option
    \<Rightarrow> (int \<times> downmix_module option \<times> u32 list option \<times> u32) option" where
  "Downmix_Command self cmdCode cmdSize cmd replySize reply =
     (case self of
        None \<Rightarrow> Some (- EINVAL, None, reply, replySize)
      | Some module \<Rightarrow>
          if dm_state module = DOWNMIX_STATE_UNINITIALIZED then Some (- EINVAL, self, reply, replySize)
          else (case run_command module (effect_command_of cmdCode) cmdSize cmd replySize reply of
                  None \<Rightarrow> None
                | Some (ret, module, reply, replySize) \<Rightarrow> Some (ret, Some module, reply, replySize)))"

section \<open>The library\<close>

definition gDownmixDescriptor :: effect_descriptor where
  "gDownmixDescriptor = \<lparr>d_type = \<lparr>timeLow = 0x381e49cc, timeMid = 0xa858, timeHiAndVersion = 0x4aa2,
       clockSeq = 0x87f6, node0 = 0xe8, node1 = 0x38, node2 = 0x8e, node3 = 0x76, node4 = 0x01, node5 = 0xb2\<rparr>,
     d_uuid = \<lparr>timeLow = 0x93f04452, timeMid = 0xe4fe, timeHiAndVersion = 0x41cc, clockSeq = 0x91f9,
       node0 = 0xe4, node1 = 0x75, node2 = 0xb6, node3 = 0xd1, node4 = 0xd6, node5 = 0x9f\<rparr>,
     apiVersion = 0x20000, d_flags = 8, cpuLoad = 0, memoryUsage = 0,
     d_name = ''Multichannel Downmix To Stereo'', implementor = ''The Android Open Source Project''\<rparr>"

definition gDescriptors :: "effect_descriptor list" where "gDescriptors = [gDownmixDescriptor]"

text \<open>\<open>mem\<close> is the memory malloc answers, with what is in it.\<close>

definition DownmixLib_Create :: "downmix_module option \<Rightarrow> effect_uuid option \<Rightarrow> bool
    \<Rightarrow> (int \<times> downmix_module option) option" where
  "DownmixLib_Create mem uuid pHandle =
     (if \<not> pHandle \<or> uuid = None then Some (- EINVAL, None)
      else if the uuid \<notin> d_uuid ` set gDescriptors then Some (- ENOENT, None)
      else (case mem of
              None \<Rightarrow> None
            | Some module \<Rightarrow>
                (case Downmix_Init (module\<lparr>dm_state := DOWNMIX_STATE_UNINITIALIZED\<rparr>) of
                   (ret, module) \<Rightarrow> if ret < 0 then Some (ret, None) else Some (0, Some module))))"

text \<open>The module is freed.\<close>

definition DownmixLib_Release :: "downmix_module option \<Rightarrow> int" where
  "DownmixLib_Release handle = (case handle of None \<Rightarrow> - EINVAL | Some module \<Rightarrow> 0)"

fun find_descriptor :: "effect_uuid \<Rightarrow> effect_descriptor list \<Rightarrow> effect_descriptor option" where
  "find_descriptor uuid [] = None"
| "find_descriptor uuid (d # ds) = (if d_uuid d = uuid then Some d else find_descriptor uuid ds)"

definition DownmixLib_GetDescriptor :: "effect_uuid option \<Rightarrow> bool \<Rightarrow> int \<times> effect_descriptor option" where
  "DownmixLib_GetDescriptor uuid pDescriptor =
     (if \<not> pDescriptor \<or> uuid = None then (- EINVAL, None)
      else (case find_descriptor (the uuid) gDescriptors of None \<Rightarrow> (- EINVAL, None) | Some d \<Rightarrow> (0, Some d)))"

definition Downmix_GetDescriptor :: "downmix_module option \<Rightarrow> int \<times> effect_descriptor option" where
  "Downmix_GetDescriptor self =
     (case self of
        None \<Rightarrow> (- EINVAL, None)
      | Some module \<Rightarrow> if dm_state module = DOWNMIX_STATE_UNINITIALIZED then (- EINVAL, None)
                       else (0, Some gDownmixDescriptor))"

end
