(* ===== verification/AudioPrimitivesSpec.thy ===== *)
theory AudioPrimitivesSpec
  imports AudioPrimitives
begin

text \<open>
  What the sample conversions compute, as arithmetic on integers, and that the conversions of
  whole buffers also work in place, as their header promises.
\<close>

section \<open>Signed words\<close>

lemma sint_range32: "- 2147483648 \<le> sint (x :: u32)" "sint x < 2147483648"
  using sint_greater_eq [of x] sint_less [of x] by simp_all

lemma sint_range16: "- 32768 \<le> sint (x :: u16)" "sint x < 32768"
  using sint_greater_eq [of x] sint_less [of x] by simp_all

lemma sint_narrow: "- 32768 \<le> sint (x :: u32) \<Longrightarrow> sint x < 32768 \<Longrightarrow> sint (scast x :: u16) = sint x"
  by (simp add: signed_scast_eq signed_take_bit_int_eq_self)

lemma sint_widen: "sint (scast (x :: u16) :: u32) = sint x"
  using sint_range16 [of x] by (simp add: signed_scast_eq signed_take_bit_int_eq_self)

lemma sint_shift: "sint (signed_drop_bit n x) = sint x div 2 ^ n"
  by (simp add: sint_signed_drop_bit_eq drop_bit_eq_div)

lemma sint_sum:
  "- 2147483648 \<le> sint x + sint y \<Longrightarrow> sint x + sint y < 2147483648 \<Longrightarrow> sint (x + y :: u32) = sint x + sint y"
  by (simp add: signed_take_bit_int_eq_self sint_word_add)

section \<open>Clamping\<close>

lemma xor_zero: "(a :: u32) XOR b = 0 \<longleftrightarrow> a = b"
  by (metis xor.assoc xor_self_eq xor.right_neutral)

lemma div_minus_one: "0 < k \<Longrightarrow> v < 0 \<Longrightarrow> v div k = - 1 \<longleftrightarrow> - k \<le> (v :: int)"
proof
  assume k: "0 < k" "v < 0" and d: "v div k = - 1"
  have "v = k * (v div k) + v mod k" by simp
  moreover have "0 \<le> v mod k" using k(1) by simp
  ultimately show "- k \<le> v" unfolding d by simp
next
  assume k: "0 < k" "v < 0" "- k \<le> v"
  then show "v div k = - 1" using int_div_pos_eq [of v k "- 1" "v + k"] by simp
qed

lemma div_zero: "0 < k \<Longrightarrow> 0 \<le> v \<Longrightarrow> v div k = 0 \<longleftrightarrow> (v :: int) < k"
  by (auto simp: zdiv_eq_0_iff)

lemma sint_clamp16: "sint (clamp16 s) = max (- 32768) (min 32767 (sint s))"
proof -
  let ?h = "signed_drop_bit 15 s" and ?g = "signed_drop_bit 31 s"
  have h: "sint ?h = sint s div 32768" and g: "sint ?g = sint s div 2147483648"
    using sint_shift [of 15 s] sint_shift [of 31 s] by simp_all
  have x: "?h XOR ?g = 0 \<longleftrightarrow> sint s div 32768 = sint s div 2147483648"
    unfolding xor_zero word_eq_iff_signed [of ?h ?g, where 'a = int] using h g by simp
  show ?thesis
  proof (cases "sint s < 0")
    case True
    then have g1: "sint s div 2147483648 = - 1" using sint_range32 [of s] div_minus_one [of 2147483648 "sint s"] by simp
    then have "?g = - 1" using g by (intro signed_word_eqI [where 'a = int]) simp
    then have v: "0x7FFF XOR ?g = - 32768" by simp
    have "sint s div 32768 = - 1 \<longleftrightarrow> - 32768 \<le> sint s" using True div_minus_one [of 32768 "sint s"] by simp
    then show ?thesis using x g1 v True sint_narrow [of s]
      by (cases "- 32768 \<le> sint s") (simp_all add: clamp16_def)
  next
    case False
    then have g1: "sint s div 2147483648 = 0" using sint_range32 [of s] div_zero [of 2147483648 "sint s"] by simp
    then have "?g = 0" using g by (intro signed_word_eqI [where 'a = int]) simp
    then have v: "0x7FFF XOR ?g = 0x7FFF" by simp
    have "sint s div 32768 = 0 \<longleftrightarrow> sint s < 32768" using False div_zero [of 32768 "sint s"] by simp
    then show ?thesis using x g1 v False sint_narrow [of s]
      by (cases "sint s < 32768") (simp_all add: clamp16_def)
  qed
qed

lemma sint_mono_of: "sint (mono_of x y) = (sint x + sint y) div 2"
proof -
  note r = sint_range16 [of x] sint_range16 [of y]
  have "sint (scast x + scast y :: u32) = sint x + sint y"
    using r by (subst sint_sum) (simp_all add: sint_widen)
  then have h: "sint (signed_drop_bit 1 (scast x + scast y :: u32)) = (sint x + sint y) div 2"
    using sint_shift [of 1 "scast x + scast y :: u32"] by simp
  show ?thesis unfolding mono_of_def using r h by (subst sint_narrow) simp_all
qed

lemma u8_i16_u8: "u8_from_i16 (i16_from_u8 x) = x"
proof -
  have 1: "ucast (signed_drop_bit 8 (push_bit 8 y)) = (ucast y :: u8)" for y :: u16
    by (rule bit_word_eqI) (simp add: bit_simps)
  have t: "take_bit 8 (take_bit 16 x) = take_bit 8 x" for x :: int by simp
  have p: "take_bit 8 (take_bit 16 a + take_bit 16 b) = take_bit 8 (a + b)" for a b :: int
    using take_bit_add [of 8 "take_bit 16 a" "take_bit 16 b"] take_bit_add [of 8 a b] by (simp only: t)
  have q: "take_bit 8 (take_bit 16 a - take_bit 16 b) = take_bit 8 (a - b)" for a b :: int
    using take_bit_diff [of 8 "take_bit 16 a" "take_bit 16 b"] take_bit_diff [of 8 a b] by (simp only: t)
  have 2: "ucast (a + b) = (ucast a + ucast b :: u8)" for a b :: u16
    by transfer (simp add: p)
  have 3: "ucast (a - b) = (ucast a - ucast b :: u8)" for a b :: u16
    by transfer (simp add: q)
  have 4: "ucast (ucast z :: u16) = z" for z :: u8 by (rule bit_word_eqI) (simp add: bit_simps)
  show ?thesis by (simp add: u8_from_i16_def i16_from_u8_def 1 2 3 4)
qed

section \<open>Buffers\<close>

lemma to_i16_buffer:
  assumes "dst = src \<or> dst + 2 * n \<le> src \<or> src + n \<le> dst"
  shows "(\<forall>i < n. load16 (memcpy_to_i16_from_u8 dst src n m) (dst + 2 * i) = i16_from_u8 (m (src + i))) \<and>
    (\<forall>a. a < dst \<or> dst + 2 * n \<le> a \<longrightarrow> memcpy_to_i16_from_u8 dst src n m a = m a)"
  using assms
proof (induction n arbitrary: m)
  case (Suc n)
  let ?m = "store16 (dst + 2 * n) (i16_from_u8 (m (src + n))) m"
  let ?r = "memcpy_to_i16_from_u8 dst src n ?m"
  have IH: "\<And>i. i < n \<Longrightarrow> load16 ?r (dst + 2 * i) = i16_from_u8 (?m (src + i))"
    "\<And>a. a < dst \<or> dst + 2 * n \<le> a \<Longrightarrow> ?r a = ?m a"
    using Suc.IH [of ?m] Suc.prems by auto
  have src: "?m (src + i) = m (src + i)" if "i < n" for i
    using that Suc.prems by (intro store16_outside) auto
  have "load16 ?r (dst + 2 * n) = load16 ?m (dst + 2 * n)" using IH(2) by (intro load16_cong) simp
  then have "load16 ?r (dst + 2 * i) = i16_from_u8 (m (src + i))" if "i < Suc n" for i
    using that IH(1) src by (cases "i = n") auto
  moreover have "?r a = m a" if "a < dst \<or> dst + 2 * Suc n \<le> a" for a
    using that IH(2) [of a] by (auto simp: store16_outside)
  ultimately show ?case by simp
qed simp

lemma to_u8_buffer:
  assumes "dst \<le> src \<or> src + 2 * n \<le> dst"
  shows "(\<forall>i < n. memcpy_to_u8_from_i16 dst src n m (dst + i) = u8_from_i16 (load16 m (src + 2 * i))) \<and>
    (\<forall>a. a < dst \<or> dst + n \<le> a \<longrightarrow> memcpy_to_u8_from_i16 dst src n m a = m a)"
  using assms
proof (induction n arbitrary: dst src m)
  case (Suc n)
  let ?m = "m(dst := u8_from_i16 (load16 m src))"
  let ?r = "memcpy_to_u8_from_i16 (dst + 1) (src + 2) n ?m"
  have "dst + 1 \<le> src + 2 \<or> src + 2 + 2 * n \<le> dst + 1" using Suc.prems by auto
  from Suc.IH [OF this, of ?m] have IH:
    "\<And>i. i < n \<Longrightarrow> ?r (dst + 1 + i) = u8_from_i16 (load16 ?m (src + 2 + 2 * i))"
    "\<And>a. a < dst + 1 \<or> dst + 1 + n \<le> a \<Longrightarrow> ?r a = ?m a" by blast+
  have src: "load16 ?m (src + 2 + 2 * i) = load16 m (src + 2 + 2 * i)" if "i < n" for i
    using that Suc.prems by (intro load16_cong) auto
  have "?r (dst + i) = u8_from_i16 (load16 m (src + 2 * i))" if "i < Suc n" for i
  proof (cases i)
    case 0
    then show ?thesis using IH(2) [of dst] by simp
  next
    case (Suc j)
    then show ?thesis using that IH(1) [of j] src [of j] by simp
  qed
  moreover have "?r a = m a" if "a < dst \<or> dst + Suc n \<le> a" for a
    using that IH(2) [of a] by auto
  ultimately show ?case by simp
qed simp

text \<open>The conversions of 8-bit samples to 16 bits and back work on buffers that are apart or
  start at the same address: every sample is converted from its old value, no byte outside the
  destination changes, and converting back gives the samples there were.\<close>

theorem conversions_in_place:
  assumes "dst = src \<or> dst + 2 * n \<le> src \<or> src + n \<le> dst"
    and "m' = memcpy_to_i16_from_u8 dst src n m"
  shows "map (\<lambda>i. load16 m' (dst + 2 * i)) [0..<n] = map (\<lambda>i. i16_from_u8 (m (src + i))) [0..<n] \<and>
    (\<forall>a. a < dst \<or> dst + 2 * n \<le> a \<longrightarrow> m' a = m a) \<and>
    map (\<lambda>i. memcpy_to_u8_from_i16 src dst n m' (src + i)) [0..<n] = map (\<lambda>i. m (src + i)) [0..<n]"
proof -
  note 1 = to_i16_buffer [OF assms(1), of m, folded assms(2)]
  have "src \<le> dst \<or> dst + 2 * n \<le> src" using assms(1) by auto
  note 2 = to_u8_buffer [OF this, of m']
  have "memcpy_to_u8_from_i16 src dst n m' (src + i) = m (src + i)" if "i < n" for i
    using 1 2 that by (simp add: u8_i16_u8)
  then show ?thesis using 1 by simp
qed

lemma conversions_in_place_witness:
  "map (\<lambda>i. memcpy_to_u8_from_i16 100 100 3 (memcpy_to_i16_from_u8 100 100 3 of_nat) (100 + i)) [0..<3]
    = [100, 101, 102 :: u8] \<and> load16 (memcpy_to_i16_from_u8 100 100 3 of_nat) 102 = 0xE500"
  using conversions_in_place [of 100 100 3 _ of_nat, OF _ refl]
  by (simp add: i16_from_u8_def upt_rec)

definition low16 :: "u32 \<Rightarrow> u16" where
  "low16 w = ucast w"

definition high16 :: "u32 \<Rightarrow> u16" where
  "high16 w = ucast (drop_bit 16 w)"

lemma pack_halves:
  "low16 (push_bit 16 (scast (r :: u16)) OR (scast (l :: u16) AND 0xFFFF)) = l"
  "high16 (push_bit 16 (scast (r :: u16)) OR (scast (l :: u16) AND 0xFFFF)) = r"
proof -
  have m: "(0xFFFF :: u32) = mask 16" by (simp add: mask_eq_exp_minus_1)
  show "low16 (push_bit 16 (scast (r :: u16)) OR (scast (l :: u16) AND 0xFFFF)) = l"
    unfolding m low16_def by (rule bit_word_eqI) (auto simp: bit_simps)
  show "high16 (push_bit 16 (scast (r :: u16)) OR (scast (l :: u16) AND 0xFFFF)) = r"
    unfolding m high16_def by (rule bit_word_eqI) (auto simp: bit_simps)
qed

lemma dither_buffer:
  assumes "out \<le> sums \<or> sums + 8 * c \<le> out"
  shows "(\<forall>i < c. let w = load32 (ditherAndClamp out sums c m) (out + 4 * i) in
      low16 w = clamp16 (signed_drop_bit 12 (load32 m (sums + 8 * i))) \<and>
      high16 w = clamp16 (signed_drop_bit 12 (load32 m (sums + 8 * i + 4)))) \<and>
    (\<forall>a. a < out \<or> out + 4 * c \<le> a \<longrightarrow> ditherAndClamp out sums c m a = m a)"
  using assms
proof (induction c arbitrary: out sums m)
  case (Suc c)
  let ?l = "clamp16 (signed_drop_bit 12 (load32 m sums))" and ?r = "clamp16 (signed_drop_bit 12 (load32 m (sums + 4)))"
  let ?w = "push_bit 16 (scast ?r) OR (scast ?l AND 0xFFFF) :: u32"
  let ?m = "store32 out ?w m" and ?res = "ditherAndClamp out sums (Suc c) m"
  have res: "?res = ditherAndClamp (out + 4) (sums + 8) c ?m" by (simp add: Let_def)
  have "out + 4 \<le> sums + 8 \<or> sums + 8 + 8 * c \<le> out + 4" using Suc.prems by auto
  note I = Suc.IH [OF this, of ?m, folded res]
  have IH:
    "\<And>i. i < c \<Longrightarrow> low16 (load32 ?res (out + 4 + 4 * i)) = clamp16 (signed_drop_bit 12 (load32 ?m (sums + 8 + 8 * i))) \<and>
      high16 (load32 ?res (out + 4 + 4 * i)) = clamp16 (signed_drop_bit 12 (load32 ?m (sums + 8 + 8 * i + 4)))"
    "\<And>a. a < out + 4 \<or> out + 4 + 4 * c \<le> a \<Longrightarrow> ?res a = ?m a"
    using I [THEN conjunct1, unfolded Let_def] I [THEN conjunct2] by blast+
  have src: "load32 ?m (sums + 8 + k) = load32 m (sums + 8 + k)" if "k < 8 * c" "k mod 4 = 0" for k
    using that Suc.prems by (intro load32_store32_other) auto
  have first: "load32 ?res out = ?w"
  proof -
    have "load32 ?res out = load32 ?m out" using IH(2) by (intro load32_cong) simp
    then show ?thesis by simp
  qed
  have "low16 (load32 ?res (out + 4 * i)) = clamp16 (signed_drop_bit 12 (load32 m (sums + 8 * i))) \<and>
      high16 (load32 ?res (out + 4 * i)) = clamp16 (signed_drop_bit 12 (load32 m (sums + 8 * i + 4)))"
    if "i < Suc c" for i
  proof (cases i)
    case 0
    then show ?thesis using first pack_halves by simp
  next
    case (Suc j)
    have "load32 ?m (sums + 8 + 8 * j) = load32 m (sums + 8 + 8 * j)"
      "load32 ?m (sums + 8 + 8 * j + 4) = load32 m (sums + 8 + 8 * j + 4)"
      using src [of "8 * j"] src [of "8 * j + 4"] Suc that by (simp_all add: add.assoc)
    then show ?thesis using IH(1) [of j] Suc that by (simp add: add.assoc add.commute add.left_commute)
  qed
  moreover have "?res a = m a" if "a < out \<or> out + 4 * Suc c \<le> a" for a
    using that IH(2) [of a] by (auto simp: store32_def)
  ultimately show ?case by (simp only: Let_def) blast
qed simp

definition clip16 :: "int \<Rightarrow> int" where
  "clip16 v = max (- 32768) (min 32767 v)"

text \<open>ditherAndClamp, with its clamp of shifts and exclusive ors, puts in every half of
  every output word the integer part of the Q19.12 sample, limited to 16 bits, also when the
  output overwrites the sums, and changes nothing else.\<close>

theorem ditherAndClamp_clips:
  assumes "out \<le> sums \<or> sums + 8 * c \<le> out"
  shows "map (\<lambda>i. (sint (low16 (load32 (ditherAndClamp out sums c m) (out + 4 * i))),
                   sint (high16 (load32 (ditherAndClamp out sums c m) (out + 4 * i))))) [0..<c] =
         map (\<lambda>i. (clip16 (sint (load32 m (sums + 8 * i)) div 4096),
                   clip16 (sint (load32 m (sums + 8 * i + 4)) div 4096))) [0..<c] \<and>
    (\<forall>a. a < out \<or> out + 4 * c \<le> a \<longrightarrow> ditherAndClamp out sums c m a = m a)"
  using dither_buffer [OF assms, of m]
  by (simp add: Let_def sint_clamp16 clip16_def sint_shift)

lemma ditherAndClamp_clips_witness:
  "sint (low16 (load32 (ditherAndClamp 100 100 1 (store32 100 0x7fffffff (store32 104 0xffffe000 (\<lambda>_. 0)))) 100)) = 32767 \<and>
   sint (high16 (load32 (ditherAndClamp 100 100 1 (store32 100 0x7fffffff (store32 104 0xffffe000 (\<lambda>_. 0)))) 100)) = - 2"
  using ditherAndClamp_clips [of 100 100 1 "store32 100 0x7fffffff (store32 104 0xffffe000 (\<lambda>_. 0))"]
  by (simp add: load32_store32_other clip16_def)

end
