(* ===== verification/EffectDownmixSpec.thy ===== *)
theory EffectDownmixSpec
  imports EffectDownmix AudioPrimitivesSpec
begin

text \<open>
  Theorems on the downmix effect: the routines for the common formats do what the generic one
  does, the mix is the exact sum limited to 16 bits, and the states a module goes through.
\<close>

section \<open>The common formats\<close>

lemma sint_sample: "sint (sample m a i) = sint (load16 m (a + 2 * i))"
  by (simp add: sample_def sint_widen)

lemma sample_range: "- 32768 \<le> sint (sample m a i)" "sint (sample m a i) < 32768"
  using sint_range16 by (simp_all add: sint_sample)

lemma sint_push12:
  assumes "- 524288 \<le> sint (x :: u32)" "sint x < 524288"
  shows "sint (push_bit 12 x) = 4096 * sint x"
proof -
  have "push_bit 12 x = of_int (4096 * sint x)" by (simp add: push_bit_eq_mult)
  then show ?thesis using assms by (simp add: sint_sbintrunc' signed_take_bit_int_eq_self del: of_int_mult)
qed

text \<open>Halving the sum of two samples is the Q19.12 mix of the generic routine.\<close>

lemma half_sum:
  "signed_drop_bit 13 (push_bit 12 (sample m a i) + push_bit 12 (sample m b j)) =
   signed_drop_bit 1 (sample m a i + sample m b j)"
proof -
  note r = sample_range [of m a i] sample_range [of m b j]
  have p: "sint (push_bit 12 (sample m a i)) = 4096 * sint (sample m a i)"
    "sint (push_bit 12 (sample m b j)) = 4096 * sint (sample m b j)"
    using r by (simp_all add: sint_push12)
  have "sint (signed_drop_bit 13 (push_bit 12 (sample m a i) + push_bit 12 (sample m b j))) =
      (4096 * (sint (sample m a i) + sint (sample m b j))) div (4096 * 2)"
    unfolding sint_shift using r p by (subst sint_sum) (simp_all add: distrib_left)
  also have "\<dots> = (sint (sample m a i) + sint (sample m b j)) div 2"
    by (subst div_mult_mult1_if) simp_all
  also have "\<dots> = sint (signed_drop_bit 1 (sample m a i + sample m b j))"
    unfolding sint_shift using r by (subst sint_sum) simp_all
  finally show ?thesis by (simp add: word_eq_iff_signed [where 'a = int])
qed

lemma put_outside: "i < a \<or> a + 2 \<le> i \<Longrightarrow> put acc a v m i = m i"
  by (simp add: put_def store16_outside)

lemma sample_put: "a + 2 \<le> b + 2 * i \<or> b + 2 * i + 2 \<le> a \<Longrightarrow> sample (put acc a v m) b i = sample m b i"
  by (simp add: sample_def put_def load16_store16_other)

lemma common_layouts:
  "frame_layout 0x33 = Some \<lparr>hasFC = False, hasLFE = False, hasBacks = True, hasBC = False, hasSides = False,
     indexFC = 1, indexLFE = 1, indexBL = 2, indexBR = 3, indexBC = 3, indexSL = 3, indexSR = 3, numChan = 4\<rparr>"
  "frame_layout 0x603 = Some \<lparr>hasFC = False, hasLFE = False, hasBacks = False, hasBC = False, hasSides = True,
     indexFC = 1, indexLFE = 1, indexBL = 1, indexBR = 1, indexBC = 1, indexSL = 2, indexSR = 3, numChan = 4\<rparr>"
  "frame_layout 0x107 = Some \<lparr>hasFC = True, hasLFE = False, hasBacks = False, hasBC = True, hasSides = False,
     indexFC = 2, indexLFE = 2, indexBL = 2, indexBR = 2, indexBC = 3, indexSL = 3, indexSR = 3, numChan = 4\<rparr>"
  "frame_layout 0x3F = Some \<lparr>hasFC = True, hasLFE = True, hasBacks = True, hasBC = False, hasSides = False,
     indexFC = 2, indexLFE = 3, indexBL = 4, indexBR = 5, indexBC = 5, indexSL = 5, indexSR = 5, numChan = 6\<rparr>"
  "frame_layout 0x60F = Some \<lparr>hasFC = True, hasLFE = True, hasBacks = False, hasBC = False, hasSides = True,
     indexFC = 2, indexLFE = 3, indexBL = 3, indexBR = 3, indexBC = 3, indexSL = 4, indexSR = 5, numChan = 6\<rparr>"
  "frame_layout 0x63F = Some \<lparr>hasFC = True, hasLFE = True, hasBacks = True, hasBC = False, hasSides = True,
     indexFC = 2, indexLFE = 3, indexBL = 4, indexBR = 5, indexBC = 5, indexSL = 6, indexSR = 7, numChan = 8\<rparr>"
  by code_simp+

lemma quad_generic:
  assumes "dst \<le> src \<or> src + 8 * n \<le> dst"
    and y: "hasFC y = False" "hasLFE y = False" "hasBC y = False" "numChan y = 4"
      "hasBacks y \<and> \<not> hasSides y \<and> indexBL y = 2 \<and> indexBR y = 3 \<or>
       hasSides y \<and> \<not> hasBacks y \<and> indexSL y = 2 \<and> indexSR y = 3"
  shows "Downmix_foldFromQuad acc src dst n m = generic_loop y acc src dst n m"
  using assms(1)
proof (induction n arbitrary: src dst m)
  case (Suc n)
  let ?m = "put acc dst (signed_drop_bit 1 (sample m src 0 + sample m src 2)) m"
  have "sample ?m src 1 = sample m src 1" "sample ?m src 3 = sample m src 3"
    using Suc.prems by (auto intro!: sample_put)
  moreover have "mix_frame y m src = (push_bit 12 (sample m src 0) + push_bit 12 (sample m src 2),
      push_bit 12 (sample m src 1) + push_bit 12 (sample m src 3))"
    using y by (auto simp: mix_frame_def)
  moreover have "dst + 4 \<le> src + 8 \<or> src + 8 + 8 * n \<le> dst + 4" using Suc.prems by auto
  ultimately show ?case using Suc.IH [of "dst + 4" "src + 8"] y(4)
    by (simp add: half_sum Let_def)
qed simp

lemma surround_generic:
  assumes "mix_frame y = (\<lambda>m src. let c = sample m src 2 * MINUS_3_DB_IN_Q19_12 + sample m src 3 * MINUS_3_DB_IN_Q19_12
      in (push_bit 12 (sample m src 0) + c, push_bit 12 (sample m src 1) + c))" "numChan y = 4"
  shows "Downmix_foldFromSurround acc src dst n m = generic_loop y acc src dst n m"
  using assms by (induction n arbitrary: src dst m) (simp_all add: Let_def)

lemma surround_mix:
  "frame_layout 0x107 = Some y \<Longrightarrow> mix_frame y = (\<lambda>m src.
     let c = sample m src 2 * MINUS_3_DB_IN_Q19_12 + sample m src 3 * MINUS_3_DB_IN_Q19_12
     in (push_bit 12 (sample m src 0) + c, push_bit 12 (sample m src 1) + c)) \<and> numChan y = 4"
  by (auto simp: common_layouts mix_frame_def Let_def fun_eq_iff algebra_simps)

lemma generic_5point1:
  assumes "frame_layout chmask = Some y" "chmask = 0x3F \<or> chmask = 0x60F"
  shows "Downmix_foldFrom5Point1 acc src dst n m = generic_loop y acc src dst n m"
proof -
  have "mix_frame y m src =
      (let c = sample m src 2 * MINUS_3_DB_IN_Q19_12 + sample m src 3 * MINUS_3_DB_IN_Q19_12
       in (push_bit 12 (sample m src 0) + c + push_bit 12 (sample m src 4), push_bit 12 (sample m src 1) + c + push_bit 12 (sample m src 5)))"
    "numChan y = 6" for m src
    using assms by (auto simp: common_layouts mix_frame_def Let_def algebra_simps)
  then show ?thesis by (induction n arbitrary: src dst m) (simp_all add: Let_def)
qed

lemma generic_7point1:
  assumes "frame_layout 0x63F = Some y"
  shows "Downmix_foldFrom7Point1 acc src dst n m = generic_loop y acc src dst n m"
proof -
  have "mix_frame y m src =
      (let c = sample m src 2 * MINUS_3_DB_IN_Q19_12 + sample m src 3 * MINUS_3_DB_IN_Q19_12
       in (push_bit 12 (sample m src 0) + c + push_bit 12 (sample m src 6) + push_bit 12 (sample m src 4),
           push_bit 12 (sample m src 1) + c + push_bit 12 (sample m src 7) + push_bit 12 (sample m src 5)))"
    "numChan y = 8" for m src
    using assms by (auto simp: common_layouts mix_frame_def Let_def algebra_simps)
  then show ?thesis by (induction n arbitrary: src dst m) (simp_all add: Let_def)
qed

lemma fold_generic:
  assumes "chmask = 0x33 \<or> chmask = 0x603 \<Longrightarrow> dst \<le> src \<or> src + 8 * n \<le> dst"
  shows "Downmix_fold chmask acc src dst n m = Downmix_foldGeneric chmask acc src dst n m"
proof -
  consider "chmask = 0x33 \<or> chmask = 0x603" | "chmask = 0x107" | "chmask = 0x3F \<or> chmask = 0x60F" | "chmask = 0x63F"
    | "chmask \<notin> {0x33, 0x603, 0x107, 0x3F, 0x60F, 0x63F}" by blast
  then show ?thesis
  proof cases
    case 1
    then show ?thesis using assms common_layouts(1,2)
      by (auto simp: Downmix_fold_def Downmix_foldGeneric_def intro!: quad_generic)
  next
    case 2
    from surround_mix [OF common_layouts(3)] 2 show ?thesis
      by (simp add: Downmix_fold_def Downmix_foldGeneric_def common_layouts surround_generic)
  next
    case 3
    then obtain y where y: "frame_layout chmask = Some y" using common_layouts(4,5) by blast
    from generic_5point1 [OF this 3] 3 y show ?thesis
      by (auto simp: Downmix_fold_def Downmix_foldGeneric_def)
  next
    case 4
    then show ?thesis
      by (simp add: Downmix_fold_def Downmix_foldGeneric_def common_layouts AUDIO_CHANNEL_OUT_7POINT1_def
          generic_7point1 [OF common_layouts(6)])
  next
    case 5
    then show ?thesis by (simp add: Downmix_fold_def AUDIO_CHANNEL_OUT_7POINT1_def)
  qed
qed

text \<open>C30: for every channel mask, the routine Downmix_Process chooses leaves exactly the memory
  that the generic routine leaves, so the optimised routines for quad, surround, 5.1 and 7.1 are
  only faster; this also holds in place and for any overlap of the buffers, save that the quad
  routine needs a destination that does not begin inside the source.\<close>

theorem optimised_fold_equals_generic:
  assumes "chmask = 0x33 \<or> chmask = 0x603 \<Longrightarrow> dst \<le> src \<or> src + 8 * n \<le> dst"
  shows "Downmix_fold chmask acc src dst n m = Downmix_foldGeneric chmask acc src dst n m"
  using assms by (rule fold_generic)

lemma optimised_fold_equals_generic_witness:
  "Downmix_foldGeneric 0x33 True 100 100 3 (\<lambda>a. of_nat a) = Some (Downmix_foldFromQuad True 100 100 3 (\<lambda>a. of_nat a))"
  using optimised_fold_equals_generic [of "0x33" 100 100 3 True "\<lambda>a. of_nat a"]
  by (simp add: Downmix_fold_def)

section \<open>Layouts\<close>

lemma and_pow: "(x :: u32) AND 2 ^ n = (if bit x n then 2 ^ n else 0)"
  by (rule bit_word_eqI) (auto simp: bit_simps)

lemma and_pair: "(x :: u32) AND (2 ^ i OR 2 ^ j) = (x AND 2 ^ i) OR (x AND 2 ^ j)"
  by (simp add: bit.conj_disj_distrib)

lemma channel_bits:
  fixes x :: u32
  shows "x AND AUDIO_CHANNEL_OUT_STEREO = AUDIO_CHANNEL_OUT_STEREO \<longleftrightarrow> bit x 0 \<and> bit x 1"
    "x AND AUDIO_CHANNEL_OUT_FRONT_CENTER = AUDIO_CHANNEL_OUT_FRONT_CENTER \<longleftrightarrow> bit x 2"
    "x AND AUDIO_CHANNEL_OUT_LOW_FREQUENCY = AUDIO_CHANNEL_OUT_LOW_FREQUENCY \<longleftrightarrow> bit x 3"
    "x AND AUDIO_CHANNEL_OUT_BACK_CENTER = AUDIO_CHANNEL_OUT_BACK_CENTER \<longleftrightarrow> bit x 8"
    "x AND kBacks = kBacks \<longleftrightarrow> bit x 4 \<and> bit x 5"
    "x AND kSides = kSides \<longleftrightarrow> bit x 9 \<and> bit x 10"
  using and_pow [of x 0] and_pow [of x 1] and_pow [of x 2] and_pow [of x 3] and_pow [of x 4] and_pow [of x 5]
    and_pow [of x 8] and_pow [of x 9] and_pow [of x 10]
    and_pair [of x 0 1] and_pair [of x 4 5] and_pair [of x 9 10]
  by (simp_all add: AUDIO_CHANNEL_OUT_STEREO_def AUDIO_CHANNEL_OUT_FRONT_CENTER_def
      AUDIO_CHANNEL_OUT_LOW_FREQUENCY_def AUDIO_CHANNEL_OUT_BACK_CENTER_def kBacks_def kSides_def)

lemma popcount_sum: "popcount x = (\<Sum>i<32. of_bool (bit x i))"
proof -
  have "length (filter P xs) = (\<Sum>i\<leftarrow>xs. of_bool (P i))" for P and xs :: "nat list"
    by (induction xs) simp_all
  then show ?thesis by (simp add: popcount_def sum_list_distinct_conv_sum_set atLeast0LessThan)
qed

definition layout_ok :: "layout \<Rightarrow> bool" where
  "layout_ok y \<longleftrightarrow> 2 \<le> numChan y \<and> (hasFC y \<longrightarrow> indexFC y < numChan y) \<and> (hasLFE y \<longrightarrow> indexLFE y < numChan y)
     \<and> (hasBC y \<longrightarrow> indexBC y < numChan y)
     \<and> (hasBacks y \<longrightarrow> indexBL y < numChan y \<and> indexBR y < numChan y)
     \<and> (hasSides y \<longrightarrow> indexSL y < numChan y \<and> indexSR y < numChan y)"

lemma popcount_channels:
  "of_bool (bit x 0) + of_bool (bit x 1) + of_bool (bit x 2) + of_bool (bit x 3) + of_bool (bit x 4) + of_bool (bit x 5)
     + of_bool (bit x 8) + of_bool (bit x 9) + of_bool (bit x 10) \<le> popcount x"
proof -
  have "f 0 + f 1 + f 2 + f 3 + f 4 + f 5 + f 8 + f 9 + f 10 \<le> (\<Sum>i<32. f i)" for f :: "nat \<Rightarrow> nat"
  proof -
    have "(\<Sum>i \<in> {0, 1, 2, 3, 4, 5, 8, 9, 10}. f i) \<le> (\<Sum>i<32. f i)" by (rule sum_mono2) auto
    then show ?thesis by (simp add: algebra_simps)
  qed
  then show ?thesis unfolding popcount_sum .
qed

text \<open>Every channel the mix reads lies within the frame.\<close>

lemma frame_layout_ok: "frame_layout chmask = Some y \<Longrightarrow> layout_ok y"
  using popcount_channels [of chmask] unfolding frame_layout_def channel_bits
  by (auto simp: channel_bits layout_ok_def Let_def split: if_splits)

section \<open>The mix is exact\<close>

definition mix_left :: "layout \<Rightarrow> memory \<Rightarrow> nat \<Rightarrow> int" where
  "mix_left y m a = (let s = \<lambda>i. sint (load16 m (a + 2 * i)) in
     4096 * (s 0 + (if hasSides y then s (indexSL y) else 0) + (if hasBacks y then s (indexBL y) else 0))
     + 2896 * ((if hasFC y then s (indexFC y) else 0) + (if hasLFE y then s (indexLFE y) else 0)
               + (if hasBC y then s (indexBC y) else 0)))"

definition mix_right :: "layout \<Rightarrow> memory \<Rightarrow> nat \<Rightarrow> int" where
  "mix_right y m a = (let s = \<lambda>i. sint (load16 m (a + 2 * i)) in
     4096 * (s 1 + (if hasSides y then s (indexSR y) else 0) + (if hasBacks y then s (indexBR y) else 0))
     + 2896 * ((if hasFC y then s (indexFC y) else 0) + (if hasLFE y then s (indexLFE y) else 0)
               + (if hasBC y then s (indexBC y) else 0)))"

definition in16 :: "int \<Rightarrow> bool" where "in16 v \<longleftrightarrow> - 32768 \<le> v \<and> v \<le> 32767"

lemma in16_sint: "in16 (sint (w :: u16))" and in16_if: "in16 v \<Longrightarrow> in16 (if b then v else 0)"
  using sint_range16 [of w] by (simp_all add: in16_def)

lemma weighted_range:
  assumes "in16 a" "in16 b" "in16 c" "in16 d" "in16 e" "in16 f"
  shows "- 700000000 < 4096 * (a + b + c) + 2896 * (d + e + f) \<and> 4096 * (a + b + c) + 2896 * (d + e + f) < 700000000"
proof -
  have "- 98304 \<le> a + b + c" "a + b + c \<le> 98301" "- 98304 \<le> d + e + f" "d + e + f \<le> 98301"
    using assms unfolding in16_def by linarith+
  then show ?thesis by simp
qed

lemma mix_range:
  "- 700000000 < mix_left y m a \<and> mix_left y m a < 700000000"
  "- 700000000 < mix_right y m a \<and> mix_right y m a < 700000000"
  unfolding mix_left_def mix_right_def Let_def by (intro weighted_range in16_if in16_sint)+

lemma sample_of_int: "sample m a i = of_int (sint (load16 m (a + 2 * i)))"
  by (simp flip: sint_sample)

lemma push12: "push_bit 12 (x :: u32) = 4096 * x"
  by (simp add: push_bit_eq_mult)

lemma mix_frame_of_int: "mix_frame y m a = (of_int (mix_left y m a), of_int (mix_right y m a))"
  by (simp add: mix_frame_def mix_left_def mix_right_def Let_def push12 sample_of_int MINUS_3_DB_IN_Q19_12_def algebra_simps)

lemma mix_frame_sint:
  "sint (fst (mix_frame y m a)) = mix_left y m a" "sint (snd (mix_frame y m a)) = mix_right y m a"
  using mix_range [of y m a] by (simp_all add: mix_frame_of_int sint_sbintrunc' signed_take_bit_int_eq_self)

definition mixed :: "bool \<Rightarrow> int \<Rightarrow> int \<Rightarrow> int" where
  "mixed accumulate old v = clip16 ((if accumulate then old else 0) + v div 8192)"

lemma put_sint:
  assumes "- 700000000 < sint v" "sint v < 700000000"
  shows "sint (load16 (put acc a (signed_drop_bit 13 v) m) a) = mixed acc (sint (load16 m a)) (sint v)"
proof -
  have d: "- 700000000 < sint v div 8192" "sint v div 8192 < 700000000" using assms by linarith+
  have "sint (scast (load16 m a) + signed_drop_bit 13 v) = sint (load16 m a) + sint v div 8192"
    using d sint_range16 [of "load16 m a"] by (subst sint_sum) (simp_all add: sint_widen sint_shift)
  then show ?thesis by (simp add: put_def mixed_def sint_clamp16 clip16_def sint_shift)
qed

lemma mix_cong:
  assumes "layout_ok y" "\<And>k. k < numChan y \<Longrightarrow> load16 m (a + 2 * k) = load16 m' (b + 2 * k)"
  shows "mix_left y m a = mix_left y m' b" "mix_right y m a = mix_right y m' b"
proof -
  have "load16 m a = load16 m' b" "load16 m (a + 2) = load16 m' (b + 2)"
    using assms(2) [of 0] assms(2) [of 1] assms(1) by (simp_all add: layout_ok_def)
  then show "mix_left y m a = mix_left y m' b" "mix_right y m a = mix_right y m' b"
    unfolding mix_left_def mix_right_def Let_def using assms
    by (simp_all add: layout_ok_def)
qed

lemma generic_loop_mixes:
  assumes "layout_ok y" "dst \<le> src \<or> src + 2 * numChan y * n \<le> dst"
  shows "(\<forall>i < n.
       sint (load16 (generic_loop y acc src dst n m) (dst + 4 * i))
         = mixed acc (sint (load16 m (dst + 4 * i))) (mix_left y m (src + 2 * numChan y * i))
     \<and> sint (load16 (generic_loop y acc src dst n m) (dst + 4 * i + 2))
         = mixed acc (sint (load16 m (dst + 4 * i + 2))) (mix_right y m (src + 2 * numChan y * i)))
   \<and> (\<forall>a. a < dst \<or> dst + 4 * n \<le> a \<longrightarrow> generic_loop y acc src dst n m a = m a)"
  using assms(2)
proof (induction n arbitrary: src dst m)
  case (Suc n)
  let ?C = "numChan y"
  obtain lt rt where f: "mix_frame y m src = (lt, rt)" by (cases "mix_frame y m src")
  then have lr: "sint lt = mix_left y m src" "sint rt = mix_right y m src"
    using mix_frame_sint [of y m src] by simp_all
  define m1 where "m1 = put acc dst (signed_drop_bit 13 lt) m"
  define m2 where "m2 = put acc (dst + 2) (signed_drop_bit 13 rt) m1"
  define res where "res = generic_loop y acc src dst (Suc n) m"
  have res: "res = generic_loop y acc (src + 2 * ?C) (dst + 4) n m2"
    by (simp add: res_def f m1_def m2_def Let_def)
  have C: "2 \<le> ?C" using assms(1) by (simp add: layout_ok_def)
  have pre: "dst + 4 \<le> src + 2 * ?C \<or> src + 2 * ?C + 2 * ?C * n \<le> dst + 4"
    using Suc.prems C by (auto simp: algebra_simps)
  have out: "load16 m2 b = load16 m b" if "b + 2 \<le> dst \<or> dst + 4 \<le> b" for b
    using that by (intro load16_cong) (auto simp: m2_def m1_def put_outside)
  have kept: "mix_left y m2 (src + 2 * ?C + 2 * ?C * j) = mix_left y m (src + 2 * ?C * Suc j)"
    "mix_right y m2 (src + 2 * ?C + 2 * ?C * j) = mix_right y m (src + 2 * ?C * Suc j)" if "j < n" for j
  proof -
    have "load16 m2 (src + 2 * ?C + 2 * ?C * j + 2 * k) = load16 m (src + 2 * ?C * Suc j + 2 * k)" if k: "k < ?C" for k
    proof -
      have "?C * Suc (Suc j) \<le> ?C * Suc n" using \<open>j < n\<close> by (intro mult_left_mono) simp_all
      with Suc.prems C k have "src + 2 * ?C * Suc j + 2 * k + 2 \<le> dst \<or> dst + 4 \<le> src + 2 * ?C * Suc j + 2 * k"
        by (auto simp: algebra_simps)
      from out [OF this] show ?thesis by (simp add: algebra_simps)
    qed
    from mix_cong [OF assms(1) this] show "mix_left y m2 (src + 2 * ?C + 2 * ?C * j) = mix_left y m (src + 2 * ?C * Suc j)"
      "mix_right y m2 (src + 2 * ?C + 2 * ?C * j) = mix_right y m (src + 2 * ?C * Suc j)" by blast+
  qed
  note I = Suc.IH [OF pre, of m2, folded res]
  have outside: "res a = m2 a" if "a < dst + 4 \<or> dst + 4 + 4 * n \<le> a" for a
    using I that by blast
  have first: "sint (load16 res dst) = mixed acc (sint (load16 m dst)) (mix_left y m src)"
    "sint (load16 res (dst + 2)) = mixed acc (sint (load16 m (dst + 2))) (mix_right y m src)"
  proof -
    have "load16 res dst = load16 m2 dst" "load16 res (dst + 2) = load16 m2 (dst + 2)"
      using outside by (auto intro!: load16_cong)
    moreover have "load16 m2 dst = load16 m1 dst" "load16 m1 (dst + 2) = load16 m (dst + 2)"
      by (auto intro!: load16_cong simp: m2_def m1_def put_outside)
    ultimately show "sint (load16 res dst) = mixed acc (sint (load16 m dst)) (mix_left y m src)"
      "sint (load16 res (dst + 2)) = mixed acc (sint (load16 m (dst + 2))) (mix_right y m src)"
      using put_sint [of lt acc dst m] put_sint [of rt acc "dst + 2" m1] lr mix_range [of y m src]
      by (simp_all add: m1_def m2_def)
  qed
  have "sint (load16 res (dst + 4 * i)) = mixed acc (sint (load16 m (dst + 4 * i))) (mix_left y m (src + 2 * ?C * i))
      \<and> sint (load16 res (dst + 4 * i + 2)) = mixed acc (sint (load16 m (dst + 4 * i + 2))) (mix_right y m (src + 2 * ?C * i))"
    if "i < Suc n" for i
  proof (cases i)
    case 0
    with first show ?thesis by simp
  next
    case (Suc j)
    with that have j: "j < n" by simp
    have at: "dst + 4 + 4 * j = dst + 4 * i" using Suc by simp
    have "load16 m2 (dst + 4 * i) = load16 m (dst + 4 * i)" "load16 m2 (dst + 4 * i + 2) = load16 m (dst + 4 * i + 2)"
      using out [of "dst + 4 * i"] out [of "dst + 4 * i + 2"] Suc by simp_all
    with I [THEN conjunct1, rule_format, OF j] kept [OF j] Suc show ?thesis unfolding at by simp
  qed
  moreover have "res a = m a" if "a < dst \<or> dst + 4 * Suc n \<le> a" for a
    using that outside [of a] by (auto simp: m2_def m1_def put_outside)
  ultimately show ?case unfolding res_def [symmetric] by blast
qed simp

text \<open>For every supported channel mask, the fold of n frames puts in each stereo frame exactly
  the integer sum (front, side and back channels at half, centre, low-frequency and back centre
  at 2896/8192 of their value, plus the old sample when accumulating), limited to 16 bits: no 32-bit
  intermediate overflows, no channel outside the frame is read, and nothing outside the n
  stereo frames is written; also when the buffers overlap with the destination first.\<close>

lemma fold_mixes_exactly:
  assumes "frame_layout chmask = Some y" "dst \<le> src \<or> src + 2 * numChan y * n \<le> dst"
  shows "\<exists>m'. Downmix_foldGeneric chmask acc src dst n m = Some m' \<and>
     map (\<lambda>i. (sint (load16 m' (dst + 4 * i)), sint (load16 m' (dst + 4 * i + 2)))) [0..<n] =
     map (\<lambda>i. (mixed acc (sint (load16 m (dst + 4 * i))) (mix_left y m (src + 2 * numChan y * i)),
               mixed acc (sint (load16 m (dst + 4 * i + 2))) (mix_right y m (src + 2 * numChan y * i)))) [0..<n] \<and>
     (\<forall>a. a < dst \<or> dst + 4 * n \<le> a \<longrightarrow> m' a = m a)"
  using generic_loop_mixes [OF frame_layout_ok [OF assms(1)] assms(2), of acc m] assms(1)
  by (simp add: Downmix_foldGeneric_def)

lemma fold_exact:
  assumes y: "frame_layout chmask = Some y" and at: "dst \<le> src \<or> src + 2 * numChan y * n \<le> dst"
  shows "\<exists>m'. Downmix_fold chmask acc src dst n m = Some m' \<and>
     map (\<lambda>i. (sint (load16 m' (dst + 4 * i)), sint (load16 m' (dst + 4 * i + 2)))) [0..<n] =
     map (\<lambda>i. (mixed acc (sint (load16 m (dst + 4 * i))) (mix_left y m (src + 2 * numChan y * i)),
               mixed acc (sint (load16 m (dst + 4 * i + 2))) (mix_right y m (src + 2 * numChan y * i)))) [0..<n] \<and>
     (\<forall>a. a < dst \<or> dst + 4 * n \<le> a \<longrightarrow> m' a = m a)"
proof -
  have "Downmix_fold chmask acc src dst n m = Downmix_foldGeneric chmask acc src dst n m"
  proof (rule fold_generic)
    assume "chmask = 0x33 \<or> chmask = 0x603"
    then have "numChan y = 4" using y common_layouts(1,2) by auto
    then show "dst \<le> src \<or> src + 8 * n \<le> dst" using at by simp
  qed
  with fold_mixes_exactly [OF y at, of acc m] show ?thesis by simp
qed

section \<open>The states of a module\<close>

definition config_valid :: "effect_config \<Rightarrow> bool" where
  "config_valid cfg \<longleftrightarrow> samplingRate (inputCfg cfg) = samplingRate (outputCfg cfg)
     \<and> channels (outputCfg cfg) = AUDIO_CHANNEL_OUT_STEREO
     \<and> cfg_format (inputCfg cfg) = AUDIO_FORMAT_PCM_16_BIT \<and> cfg_format (outputCfg cfg) = AUDIO_FORMAT_PCM_16_BIT"

definition downmix_ok :: "downmix_module \<Rightarrow> bool" where
  "downmix_ok module \<longleftrightarrow> dm_state module \<noteq> DOWNMIX_STATE_UNINITIALIZED \<and> config_valid (dm_config module)
     \<and> (dm_type module = DOWNMIX_TYPE_STRIP \<or> dm_type module = DOWNMIX_TYPE_FOLD)
     \<and> (channels (inputCfg (dm_config module)) = 0
        \<or> input_channel_count module = of_nat (popcount (channels (inputCfg (dm_config module)))))"

lemma configure_ok:
  "downmix_ok module \<Longrightarrow> downmix_ok (snd (Downmix_Configure module cfg False))"
  by (auto simp: Downmix_Configure_def Downmix_Reset_def downmix_ok_def config_valid_def Let_def)

lemma popcount_7point1: "popcount AUDIO_CHANNEL_OUT_7POINT1 = 8"
  by code_simp

lemma init_result:
  "fst (Downmix_Init module) = 0 \<and> downmix_ok (snd (Downmix_Init module))
   \<and> dm_state (snd (Downmix_Init module)) = DOWNMIX_STATE_INITIALIZED \<and> dm_type (snd (Downmix_Init module)) = DOWNMIX_TYPE_FOLD"
  using popcount_7point1
  by (simp add: Downmix_Init_def Downmix_Configure_def Downmix_Reset_def downmix_ok_def config_valid_def Let_def)

lemma set_parameter_ok:
  "downmix_ok module \<Longrightarrow> Downmix_setParameter module param sz v = Some (ret, module') \<Longrightarrow> downmix_ok module'"
  by (auto simp: Downmix_setParameter_def Let_def downmix_ok_def DOWNMIX_TYPE_STRIP_def DOWNMIX_TYPE_FOLD_def
      split: if_splits option.splits)

lemma set_parameter_returns: "\<exists>ret m1. Downmix_setParameter module param sz (Some v) = Some (ret, m1)"
  by (simp add: Downmix_setParameter_def Let_def)

text \<open>The caller's sizes: the data and the reply are as long as said, and a parameter's value is there.\<close>

definition sizes_fit :: "u32 \<Rightarrow> u32 \<Rightarrow> u32 list option \<Rightarrow> u32 \<Rightarrow> u32 list option \<Rightarrow> bool" where
  "sizes_fit code cmdSize cmd replySize reply \<longleftrightarrow>
     (\<forall>ws. cmd = Some ws \<longrightarrow> unat cmdSize \<le> 4 * length ws \<and> (effect_command_of code = EFFECT_CMD_SET_PARAM \<longrightarrow> 4 < length ws))
   \<and> (\<forall>ws. reply = Some ws \<longrightarrow> unat replySize \<le> 4 * length ws)"

definition answered :: "answer \<Rightarrow> bool" where
  "answered a \<longleftrightarrow> (\<exists>ret module reply n. a = Some (ret, module, reply, n) \<and> downmix_ok module \<and> ret \<in> {0, - EINVAL, - ENOSYS})"

lemma answered_Some: "downmix_ok module \<Longrightarrow> ret \<in> {0, - EINVAL, - ENOSYS} \<Longrightarrow> answered (Some (ret, module, reply, n))"
  by (auto simp: answered_def)

lemma answered_reply: "downmix_ok module \<Longrightarrow> ws \<noteq> [] \<Longrightarrow> answered (reply_int module (Some ws) n v)"
  by (simp add: reply_int_def poke_def answered_def)

lemma word_4: "unat (4 :: u32) = 4" "unat (64 :: u32) = 64"
  by simp_all

lemma le_word: "\<not> (n :: u32) < 16 \<Longrightarrow> 16 \<le> unat n" "\<not> (n :: u32) < 20 \<Longrightarrow> 20 \<le> unat n"
  by (simp_all add: word_less_nat_alt)

lemma run_command_answered:
  assumes ok: "downmix_ok module" and fit: "sizes_fit code cmdSize cmd replySize reply"
  shows "answered (run_command module (effect_command_of code) cmdSize cmd replySize reply)"
proof -
  have c: "unat cmdSize \<le> 4 * length ws" if "cmd = Some ws" for ws using fit that by (simp add: sizes_fit_def)
  have r: "unat replySize \<le> 4 * length ws" if "reply = Some ws" for ws using fit that by (simp add: sizes_fit_def)
  have r4: "ws \<noteq> []" if "reply = Some ws" "replySize = 4" for ws using r [OF that(1)] that(2) by auto
  have invalid: "answered (Some (- EINVAL, module, reply, replySize))"
    and fine: "answered (Some (0, module, reply, replySize))" using ok by (simp_all add: answered_Some)
  show ?thesis
  proof (cases "effect_command_of code")
    case EFFECT_CMD_INIT
    obtain ret m1 where i: "Downmix_Init module = (ret, m1)" by (cases "Downmix_Init module")
    with init_result [of module] have "downmix_ok m1" by simp
    with EFFECT_CMD_INIT i invalid r4 show ?thesis
      by (cases reply) (auto simp: run_command_def Let_def intro!: answered_reply)
  next
    case EFFECT_CMD_SET_CONFIG
    have "answered (cmd_set_config module cmdSize cmd replySize reply)"
    proof (cases "cmd = None \<or> cmdSize \<noteq> 64 \<or> reply = None \<or> replySize \<noteq> 4")
      case True
      with invalid show ?thesis by (auto simp: cmd_set_config_def split: option.splits)
    next
      case False
      then obtain cs rs where g: "cmd = Some cs" "reply = Some rs" "cmdSize = 64" "replySize = 4" by auto
      have "\<not> length cs < 16" using c [OF g(1)] g(3) by simp
      then obtain cfg where cfg: "config_of cs = Some cfg" by (simp add: config_of_def)
      obtain ret m1 where m1: "Downmix_Configure module cfg False = (ret, m1)" by (cases "Downmix_Configure module cfg False")
      with configure_ok [OF ok, of cfg] have "downmix_ok m1" by simp
      with g cfg m1 r4 [OF g(2,4)] show ?thesis by (simp add: cmd_set_config_def answered_reply)
    qed
    with EFFECT_CMD_SET_CONFIG show ?thesis by (simp add: run_command_def)
  next
    case EFFECT_CMD_GET_PARAM
    have "answered (cmd_get_param module cmdSize cmd replySize reply)"
    proof (cases "cmd = None \<or> reply = None \<or> cmdSize < 16 \<or> replySize < 20")
      case True
      with invalid show ?thesis by (auto simp: cmd_get_param_def split: option.splits)
    next
      case False
      then obtain cs rs where g: "cmd = Some cs" "reply = Some rs" "\<not> cmdSize < 16" "\<not> replySize < 20" by auto
      have len: "4 \<le> length cs" "5 \<le> length rs" using c [OF g(1)] r [OF g(2)] le_word(1) [OF g(3)] le_word(2) [OF g(4)] by simp_all
      show ?thesis using g len ok
        by (auto simp: cmd_get_param_def Let_def peek_def poke_def answered_def split: option.splits prod.splits)
    qed
    with EFFECT_CMD_GET_PARAM show ?thesis by (simp add: run_command_def)
  next
    case EFFECT_CMD_SET_PARAM
    have "answered (cmd_set_param module cmdSize cmd replySize reply)"
    proof (cases "cmd = None \<or> cmdSize < 16 \<or> reply = None \<or> replySize \<noteq> 4")
      case True
      with invalid show ?thesis by (auto simp: cmd_set_param_def split: option.splits)
    next
      case False
      then obtain cs rs where g: "cmd = Some cs" "reply = Some rs" "\<not> cmdSize < 16" "replySize = 4" by auto
      have len: "4 < length cs" using fit g(1) EFFECT_CMD_SET_PARAM by (simp add: sizes_fit_def)
      obtain ret m1 where p: "Downmix_setParameter module (sint (cs ! 3)) (cs ! 2) (Some (cs ! 4)) = Some (ret, m1)"
        using set_parameter_returns by fast
      from set_parameter_ok [OF ok this] p g len r4 [OF g(2,4)] show ?thesis
        by (simp add: cmd_set_param_def peek_def answered_reply)
    qed
    with EFFECT_CMD_SET_PARAM show ?thesis by (simp add: run_command_def)
  next
    case EFFECT_CMD_ENABLE
    have "answered (cmd_switch module DOWNMIX_STATE_INITIALIZED DOWNMIX_STATE_ACTIVE replySize reply)"
      using ok r4 by (cases reply) (auto simp: cmd_switch_def answered_Some downmix_ok_def intro!: answered_reply)
    with EFFECT_CMD_ENABLE show ?thesis by (simp add: run_command_def)
  next
    case EFFECT_CMD_DISABLE
    have "answered (cmd_switch module DOWNMIX_STATE_ACTIVE DOWNMIX_STATE_INITIALIZED replySize reply)"
      using ok r4 by (cases reply) (auto simp: cmd_switch_def answered_Some downmix_ok_def intro!: answered_reply)
    with EFFECT_CMD_DISABLE show ?thesis by (simp add: run_command_def)
  qed (use invalid fine ok in \<open>auto simp: run_command_def Downmix_Reset_def\<close>)
qed

inductive downmix_reach :: "downmix_module \<Rightarrow> bool" where
  create: "DownmixLib_Create mem uuid p = Some (0, Some module) \<Longrightarrow> downmix_reach module"
| command: "downmix_reach module \<Longrightarrow> sizes_fit code cmdSize cmd replySize reply \<Longrightarrow>
    Downmix_Command (Some module) code cmdSize cmd replySize reply = Some (ret, Some module', reply', replySize') \<Longrightarrow>
    downmix_reach module'"

lemma create_result:
  "DownmixLib_Create mem uuid p = Some (ret, Some module) \<Longrightarrow>
     downmix_ok module \<and> dm_state module = DOWNMIX_STATE_INITIALIZED \<and> dm_type module = DOWNMIX_TYPE_FOLD"
  by (auto simp: DownmixLib_Create_def split: if_splits option.splits prod.splits) (metis init_result snd_conv)+

lemma command_run:
  "downmix_ok module \<Longrightarrow> Downmix_Command (Some module) code cmdSize cmd replySize reply =
     (case run_command module (effect_command_of code) cmdSize cmd replySize reply of
        None \<Rightarrow> None | Some (ret, m1, rs, n) \<Rightarrow> Some (ret, Some m1, rs, n))"
  by (simp add: Downmix_Command_def downmix_ok_def)

lemma downmix_reach_ok: "downmix_reach module \<Longrightarrow> downmix_ok module"
proof (induction rule: downmix_reach.induct)
  case (create mem uuid p module)
  then show ?case using create_result by blast
next
  case (command module code cmdSize cmd replySize reply ret module' reply' replySize')
  from run_command_answered [OF command.IH command.hyps(2)] command.hyps(3) show ?case
    by (auto simp: command_run [OF command.IH] answered_def)
qed

text \<open>Every command to a module in any state it can reach, whatever its code and data, is
  answered with 0, -EINVAL or -ENOSYS as long as the caller's sizes are those of its buffers: no
  buffer is overrun, and the module stays well-formed (never uninitialised, always a valid stereo
  16-bit configuration, one of the two types, and the channel count of its mask unless a refused
  configuration left the mask blank).\<close>

theorem downmix_commands_answered:
  assumes "downmix_reach module" "sizes_fit code cmdSize cmd replySize reply"
  shows "\<exists>ret module' reply' n. Downmix_Command (Some module) code cmdSize cmd replySize reply
       = Some (ret, Some module', reply', n) \<and> ret \<in> {0, - EINVAL, - ENOSYS} \<and> downmix_ok module'"
proof -
  note ok = downmix_reach_ok [OF assms(1)]
  from run_command_answered [OF ok assms(2)] show ?thesis
    by (auto simp: command_run [OF ok] answered_def)
qed

lemma session:
  assumes create: "DownmixLib_Create mem uuid p = Some (0, Some m0)"
    and cfg: "config_of ws = Some cfg" "config_valid cfg" "frame_layout (channels (inputCfg cfg)) = Some y"
    and at: "dst \<le> src \<or> src + 2 * numChan y * n \<le> dst"
  shows "\<exists>m1 m2 m'. Downmix_Command (Some m0) 1 64 (Some ws) 4 (Some [x]) = Some (0, Some m1, Some [0], 4)
     \<and> Downmix_Command (Some m1) 3 cmdSize cmd 4 (Some [x']) = Some (0, Some m2, Some [0], 4)
     \<and> Downmix_Process (Some m2) (Some \<lparr>frameCount = n, raw = Some src\<rparr>) (Some \<lparr>frameCount = n, raw = Some dst\<rparr>) m = (0, m')
     \<and> (let acc = accessMode (outputCfg cfg) = EFFECT_BUFFER_ACCESS_ACCUMULATE in
        map (\<lambda>i. (sint (load16 m' (dst + 4 * i)), sint (load16 m' (dst + 4 * i + 2)))) [0..<n] =
        map (\<lambda>i. (mixed acc (sint (load16 m (dst + 4 * i))) (mix_left y m (src + 2 * numChan y * i)),
                  mixed acc (sint (load16 m (dst + 4 * i + 2))) (mix_right y m (src + 2 * numChan y * i)))) [0..<n])
     \<and> (\<forall>a. a < dst \<or> dst + 4 * n \<le> a \<longrightarrow> m' a = m a)"
proof -
  from create_result [OF create] have m0: "downmix_ok m0" "dm_state m0 = DOWNMIX_STATE_INITIALIZED"
    "dm_type m0 = DOWNMIX_TYPE_FOLD" by simp_all
  have codes: "effect_command_of 1 = EFFECT_CMD_SET_CONFIG" "effect_command_of 3 = EFFECT_CMD_ENABLE"
    by code_simp+
  have "channels (inputCfg cfg) \<noteq> 0"
    using cfg(3) by (auto simp: frame_layout_def AUDIO_CHANNEL_OUT_STEREO_def split: if_splits)
  define m1 where "m1 = m0\<lparr>dm_config := cfg, input_channel_count := of_nat (popcount (channels (inputCfg cfg)))\<rparr>"
  define m2 where "m2 = m1\<lparr>dm_state := DOWNMIX_STATE_ACTIVE\<rparr>"
  have "Downmix_Configure m0 cfg False = (0, m1)"
    using cfg(2) \<open>channels (inputCfg cfg) \<noteq> 0\<close>
    by (simp add: Downmix_Configure_def config_valid_def Downmix_Reset_def m1_def)
  then have c1: "Downmix_Command (Some m0) 1 64 (Some ws) 4 (Some [x]) = Some (0, Some m1, Some [0], 4)"
    using cfg(1) by (simp add: command_run [OF m0(1)] codes run_command_def cmd_set_config_def reply_int_def poke_def)
  have m1: "downmix_ok m1" using m0 cfg(2) by (simp add: m1_def downmix_ok_def)
  have c2: "Downmix_Command (Some m1) 3 cmdSize cmd 4 (Some [x']) = Some (0, Some m2, Some [0], 4)"
    using m0(2) unfolding command_run [OF m1] codes
    by (simp add: run_command_def cmd_switch_def reply_int_def poke_def m1_def m2_def)
  let ?acc = "accessMode (outputCfg cfg) = EFFECT_BUFFER_ACCESS_ACCUMULATE"
  from fold_exact [OF cfg(3) at, of ?acc m] obtain m' where
    m': "Downmix_fold (channels (inputCfg cfg)) ?acc src dst n m = Some m'"
      "map (\<lambda>i. (sint (load16 m' (dst + 4 * i)), sint (load16 m' (dst + 4 * i + 2)))) [0..<n] =
        map (\<lambda>i. (mixed ?acc (sint (load16 m (dst + 4 * i))) (mix_left y m (src + 2 * numChan y * i)),
                  mixed ?acc (sint (load16 m (dst + 4 * i + 2))) (mix_right y m (src + 2 * numChan y * i)))) [0..<n]"
      "\<forall>a. a < dst \<or> dst + 4 * n \<le> a \<longrightarrow> m' a = m a" by blast
  have "Downmix_Process (Some m2) (Some \<lparr>frameCount = n, raw = Some src\<rparr>) (Some \<lparr>frameCount = n, raw = Some dst\<rparr>) m = (0, m')"
    using m0(3) m'(1) by (simp add: Downmix_Process_def m2_def m1_def DOWNMIX_TYPE_FOLD_def DOWNMIX_TYPE_STRIP_def)
  with c1 c2 m'(2,3) show ?thesis unfolding Let_def by blast
qed

text \<open>A module created by the library and configured with any supported mask mixes exactly:
  EFFECT_CMD_SET_CONFIG with a valid configuration and EFFECT_CMD_ENABLE return 0, and
  Downmix_Process then puts in every stereo frame the integer sum of the frame's channels, scaled
  and limited to 16 bits, and changes no other memory.\<close>

theorem downmix_session:
  assumes create: "DownmixLib_Create mem uuid p = Some (0, Some m0)"
    and cfg: "config_of ws = Some cfg" "config_valid cfg" "frame_layout (channels (inputCfg cfg)) = Some y"
    and at: "dst \<le> src \<or> src + 2 * numChan y * n \<le> dst"
  shows "\<exists>m1 m2 m'. Downmix_Command (Some m0) 1 64 (Some ws) 4 (Some [x]) = Some (0, Some m1, Some [0], 4)
     \<and> Downmix_Command (Some m1) 3 0 None 4 (Some [x]) = Some (0, Some m2, Some [0], 4)
     \<and> Downmix_Process (Some m2) (Some \<lparr>frameCount = n, raw = Some src\<rparr>) (Some \<lparr>frameCount = n, raw = Some dst\<rparr>) m = (0, m')
     \<and> (let acc = accessMode (outputCfg cfg) = EFFECT_BUFFER_ACCESS_ACCUMULATE in
        map (\<lambda>i. (sint (load16 m' (dst + 4 * i)), sint (load16 m' (dst + 4 * i + 2)))) [0..<n] =
        map (\<lambda>i. (mixed acc (sint (load16 m (dst + 4 * i))) (mix_left y m (src + 2 * numChan y * i)),
                  mixed acc (sint (load16 m (dst + 4 * i + 2))) (mix_right y m (src + 2 * numChan y * i)))) [0..<n])
     \<and> (\<forall>a. a < dst \<or> dst + 4 * n \<le> a \<longrightarrow> m' a = m a)"
  using assms by (rule session)

text \<open>A 5.1 stream mixed in place.\<close>

definition sample_words :: "u32 list" where
  "sample_words = [0, 0, 44100, 0x3F, 0, 0, 0, 0x3F0101, 0, 0, 44100, 3, 0, 0, 0, 0x3F0001]"

definition blank_module :: downmix_module where
  "blank_module = \<lparr>dm_config = \<lparr>inputCfg = buffer_config_of sample_words, outputCfg = buffer_config_of sample_words\<rparr>,
     dm_state = DOWNMIX_STATE_UNINITIALIZED, dm_type = 0, apply_volume_correction = False, input_channel_count = 0\<rparr>"

lemma sample_created: "\<exists>m0. DownmixLib_Create (Some blank_module) (Some (d_uuid gDownmixDescriptor)) True = Some (0, Some m0)"
  using init_result [of "blank_module\<lparr>dm_state := DOWNMIX_STATE_UNINITIALIZED\<rparr>"]
  by (auto simp: DownmixLib_Create_def gDescriptors_def split: prod.splits)

lemma downmix_commands_answered_witness:
  "\<exists>m0 ret m1 n. DownmixLib_Create (Some blank_module) (Some (d_uuid gDownmixDescriptor)) True = Some (0, Some m0)
     \<and> Downmix_Command (Some m0) 3 0 None 4 (Some [7]) = Some (ret, Some m1, n) \<and> downmix_ok m1"
proof -
  obtain m0 where m0: "DownmixLib_Create (Some blank_module) (Some (d_uuid gDownmixDescriptor)) True = Some (0, Some m0)"
    using sample_created by blast
  have "sizes_fit 3 0 None 4 (Some [7])" by (simp add: sizes_fit_def)
  from downmix_commands_answered [OF downmix_reach.create [OF m0] this] m0 show ?thesis by blast
qed

lemma downmix_session_witness:
  "\<exists>m0 m1 m2 m'. DownmixLib_Create (Some blank_module) (Some (d_uuid gDownmixDescriptor)) True = Some (0, Some m0)
     \<and> Downmix_Command (Some m0) 1 64 (Some sample_words) 4 (Some [7]) = Some (0, Some m1, Some [0], 4)
     \<and> Downmix_Command (Some m1) 3 0 None 4 (Some [7]) = Some (0, Some m2, Some [0], 4)
     \<and> Downmix_Process (Some m2) (Some \<lparr>frameCount = 1, raw = Some 100\<rparr>) (Some \<lparr>frameCount = 1, raw = Some 100\<rparr>)
         (store16 100 0x7fff (\<lambda>_. 0)) = (0, m') \<and> sint (load16 m' 100) = 16383"
proof -
  let ?m = "store16 100 0x7fff (\<lambda>_. 0)"
  obtain m0 where m0: "DownmixLib_Create (Some blank_module) (Some (d_uuid gDownmixDescriptor)) True = Some (0, Some m0)"
    using sample_created by blast
  define cfg where "cfg = \<lparr>inputCfg = buffer_config_of (take 8 sample_words), outputCfg = buffer_config_of (drop 8 sample_words)\<rparr>"
  have cfg: "config_of sample_words = Some cfg" by (simp add: config_of_def cfg_def sample_words_def)
  have chan: "channels (inputCfg cfg) = 0x3F" and acc: "accessMode (outputCfg cfg) = 0" and "config_valid cfg"
    unfolding cfg_def by code_simp+
  from downmix_session [OF m0 cfg this(3) common_layouts(4) [folded chan], of 100 100 1 7 ?m] obtain m1 m2 m' where
    r: "Downmix_Command (Some m0) 1 64 (Some sample_words) 4 (Some [7]) = Some (0, Some m1, Some [0], 4)"
      "Downmix_Command (Some m1) 3 0 None 4 (Some [7]) = Some (0, Some m2, Some [0], 4)"
      "Downmix_Process (Some m2) (Some \<lparr>frameCount = 1, raw = Some 100\<rparr>) (Some \<lparr>frameCount = 1, raw = Some 100\<rparr>) ?m = (0, m')"
      "sint (load16 m' 100) = mixed False (sint (load16 ?m 100)) (mix_left (the (frame_layout 0x3F)) ?m 100)"
    using acc common_layouts(4) by (auto simp: Let_def EFFECT_BUFFER_ACCESS_ACCUMULATE_def)
  have l: "load16 ?m 100 = 0x7fff" "load16 ?m 104 = 0" "load16 ?m 106 = 0" "load16 ?m 108 = 0"
    by (simp_all add: load16_store16_other) (simp_all add: load16_def store16_def)
  have "mix_left (the (frame_layout 0x3F)) ?m 100 = 4096 * 32767"
    unfolding common_layouts option.sel mix_left_def Let_def by (simp add: l)
  with r(4) have "sint (load16 m' 100) = 16383" by (simp add: mixed_def clip16_def)
  with m0 r show ?thesis by blast
qed

end
