(* ===== verification/DownmixInFactory.thy ===== *)
theory DownmixInFactory
  imports EffectsSpec EffectDownmixSpec
begin

text \<open>
  The effects factory with the downmix library: what the factory expects of an effect library
  (audio_effect.h) as a locale, the downmix library as an instance, and the way of a multichannel
  stream from the configuration file to stereo through both.
\<close>

section \<open>What the factory expects of a library\<close>

text \<open>
  A library that serves some identifiers in the states \<open>usable\<close> of its own: it has the tag and the
  interface version, describes each of them under its identifier without leaving these states, and
  creates an effect for it.
\<close>

locale effect_provider =
  fixes lib :: "'w effect_library" and usable :: "'w \<Rightarrow> bool" and served :: "effect_uuid set"
    and described :: "effect_uuid \<Rightarrow> effect_descriptor"
  assumes tag: "lib_tag lib = AUDIO_EFFECT_LIBRARY_TAG"
    and version: "EFFECT_API_VERSION_MAJOR (lib_version lib) = 3"
    and describes: "u \<in> served \<Longrightarrow> usable w \<Longrightarrow> \<exists>w'. get_descriptor lib u w = (0, described u, w') \<and> usable w'"
    and api: "u \<in> served \<Longrightarrow> EFFECT_API_VERSION_MAJOR (apiVersion (described u)) = 2 \<and> d_uuid (described u) = u"
    and creates: "u \<in> served \<Longrightarrow> usable w \<Longrightarrow> \<exists>h w'. create_effect lib u sid io w = Some (0, h, w')"

text \<open>A system whose configuration file names this library and some of these effects.\<close>

definition configured_for :: "'w effects_env \<Rightarrow> 'w effect_library \<Rightarrow> string \<Rightarrow> string \<Rightarrow> (string \<times> effect_uuid) list
    \<Rightarrow> 'w \<Rightarrow> 'w \<Rightarrow> bool" where
  "configured_for env lib name path es w w1 \<longleftrightarrow>
     key_ok name \<and> length name \<le> PATH_MAX \<and> value_ok path \<and> path \<noteq> [] \<and> \<not> isspace (last path)
     \<and> (\<forall>e \<in> set es. key_ok (fst e)) \<and> distinct (map fst es)
     \<and> can_read env vendor_config
     \<and> read_file env vendor_config = Some (print_nodes (config_nodes name path es))
     \<and> (\<exists>hdl. dlopen env path w = (Some hdl, w1) \<and> dlsym env hdl ''AELI'' = Some lib)"

context effect_provider
begin

lemma loaded:
  assumes "configured_for env lib name path es w w1" "snd ` set es \<subseteq> served" "usable w1"
  shows "lib_loaded lib name (rev (map (described \<circ> snd) es)) (init env (factory_start w))"
    "usable (libs_state (init env (factory_start w)))"
    "\<forall>e \<in> set es. find_in_library None (Some (snd e)) (rev (map (described \<circ> snd) es)) = Some (described (snd e))"
proof -
  obtain hdl where c: "key_ok name" "length name \<le> PATH_MAX" "value_ok path" "path \<noteq> []" "\<not> isspace (last path)"
    "\<forall>e \<in> set es. key_ok (fst e)" "distinct (map fst es)" "can_read env vendor_config"
    "read_file env vendor_config = Some (print_nodes (config_nodes name path es))"
    "dlopen env path w = (Some hdl, w1)" "dlsym env hdl ''AELI'' = Some lib"
    using assms(1) unfolding configured_for_def by blast
  have d: "\<forall>e \<in> set es. \<forall>w. usable w \<longrightarrow> (\<exists>w'. get_descriptor lib (snd e) w = (0, described (snd e), w') \<and> usable w')"
    using assms(2) describes by blast
  have v: "\<forall>e \<in> set es. EFFECT_API_VERSION_MAJOR (apiVersion (described (snd e))) = 2 \<and> d_uuid (described (snd e)) = snd e"
    using assms(2) api by blast
  note r = configured_effects [where I = usable, OF c assms(3) tag version d v]
  from r(1) show "lib_loaded lib name (rev (map (described \<circ> snd) es)) (init env (factory_start w))" .
  from r(2) show "usable (libs_state (init env (factory_start w)))" .
  from r(3) show "\<forall>e \<in> set es. find_in_library None (Some (snd e)) (rev (map (described \<circ> snd) es)) = Some (described (snd e))" .
qed

text \<open>Every configured effect can be created; the entry holds the library's interface.\<close>

lemma created:
  assumes "configured_for env lib name path es w w1" "snd ` set es \<subseteq> served" "usable w1" "u \<in> snd ` set es"
  obtains h w' s where "create_effect lib u sid io (libs_state (init env (factory_start w))) = Some (0, h, w')"
    "EffectCreate env (Some a) (Some u) sid io True (factory_start w) = Some (0, Some a, s)"
    "gInitDone s" "libs_state s = w'" "\<exists>fx. entry_at s a = Some fx \<and> fx_lib fx = Some 0 \<and> subItfe fx = h"
proof -
  let ?i = "init env (factory_start w)"
  note l = loaded [OF assms(1-3)]
  have start: "factory_reach env (factory_start w)" unfolding factory_reach_def by blast
  from l(1) have i: "gLibraryList ?i = [0]" "lib_desc (the_lib ?i 0) = lib"
    "lib_effects (the_lib ?i 0) = rev (map (described \<circ> snd) es)" by (auto simp: lib_loaded_def the_lib_def)
  have find: "findEffect None (Some u) ?i = Inr (0, described u)"
    using l(3) assms(4) i by (auto simp: findEffect_def)
  obtain h w' where h: "create_effect lib u sid io (libs_state ?i) = Some (0, h, w')"
    using creates [OF _ l(2)] assms(2,4) by blast
  define x where "x = \<lparr>fx_itfe = (if if_process_reverse (sub_itfe env h) \<noteq> None then gInterfaceWithReverse else gInterface),
    subItfe = h, fx_lib = Some 0\<rparr>"
  let ?s = "?i\<lparr>libs_state := w', entry_at := (entry_at ?i)(a \<mapsto> x), gEffectList := a # gEffectList ?i\<rparr>"
  have "EffectCreate env (Some a) (Some u) sid io True (factory_start w) = Some (0, Some a, ?s)"
    using find h i(2) by (simp add: EffectCreate_def x_def Let_def)
  moreover have "gInitDone ?s" using reach_init [OF start] by simp
  moreover have "entry_at ?s a = Some x" "fx_lib x = Some 0" "subItfe x = h" by (simp_all add: x_def)
  ultimately show thesis using h by (intro that [of h w' ?s]) auto
qed

end

section \<open>The downmix library\<close>

text \<open>
  Its state: the modules it has allocated, the address malloc answers next, and the memory its callers
  point into (samples, the words of commands and replies, the buffer descriptors).
\<close>

record downmix_world =
  modules :: "nat \<Rightarrow> downmix_module option"
  next_module :: nat
  garbage :: downmix_module
  samples :: memory
  words_at :: "nat \<Rightarrow> u32 list option"
  buffer_at :: "nat \<Rightarrow> audio_buffer option"

definition downmix_library :: "downmix_world effect_library" where
  "downmix_library =
     \<lparr>lib_tag = AUDIO_EFFECT_LIBRARY_TAG, lib_version = 0x30000,
      create_effect = (\<lambda>uuid sid io w.
        case DownmixLib_Create (Some (garbage w)) (Some uuid) True of
          None \<Rightarrow> None
        | Some (ret, None) \<Rightarrow> Some (ret, 0, w)
        | Some (ret, Some module) \<Rightarrow> Some (ret, next_module w,
            w\<lparr>modules := (modules w)(next_module w \<mapsto> module), next_module := Suc (next_module w)\<rparr>)),
      release_effect = (\<lambda>h w. w\<lparr>modules := (modules w)(h := None)\<rparr>),
      get_descriptor = (\<lambda>uuid w.
        case DownmixLib_GetDescriptor (Some uuid) True of
          (ret, None) \<Rightarrow> (ret, gDownmixDescriptor\<lparr>d_name := []\<rparr>, w)
        | (ret, Some d) \<Rightarrow> (ret, d, w))\<rparr>"

text \<open>gDownmixInterface; the reply's size is the word at \<open>replySize\<close>.\<close>

definition gDownmixInterface :: "nat \<Rightarrow> downmix_world sub_interface" where
  "gDownmixInterface h =
     \<lparr>if_process = (\<lambda>ib ob w.
        case Downmix_Process (modules w h) (buffer_at w ib) (buffer_at w ob) (samples w) of
          (ret, m) \<Rightarrow> Some (ret, w\<lparr>samples := m\<rparr>)),
      if_command = (\<lambda>code n data replySize reply w.
        case words_at w replySize of
          Some (sz # _) \<Rightarrow>
            (case Downmix_Command (modules w h) code n (words_at w data) sz (words_at w reply) of
               None \<Rightarrow> None
             | Some (ret, self, rs, sz') \<Rightarrow>
                 Some (ret, w\<lparr>modules := (modules w)(h := self),
                   words_at := (words_at w)(reply := rs, replySize := Some [sz'])\<rparr>))
        | _ \<Rightarrow> None),
      if_get_descriptor = (\<lambda>w.
        case Downmix_GetDescriptor (modules w h) of
          (ret, None) \<Rightarrow> (ret, gDownmixDescriptor\<lparr>d_name := []\<rparr>, w)
        | (ret, Some d) \<Rightarrow> (ret, d, w)),
      if_process_reverse = None\<rparr>"

definition downmix_uuid :: effect_uuid where "downmix_uuid = d_uuid gDownmixDescriptor"

lemma downmix_created: "\<exists>m0. DownmixLib_Create (Some g) (Some downmix_uuid) True = Some (0, Some m0)"
  using init_result [of "g\<lparr>dm_state := DOWNMIX_STATE_UNINITIALIZED\<rparr>"]
  by (auto simp: DownmixLib_Create_def gDescriptors_def downmix_uuid_def split: prod.splits)

lemma downmix_creates:
  assumes "create_effect downmix_library downmix_uuid sid io w = Some (0, h, w')"
  shows "h = next_module w \<and> (\<exists>m0. DownmixLib_Create (Some (garbage w)) (Some downmix_uuid) True = Some (0, Some m0)
    \<and> w' = w\<lparr>modules := (modules w)(h \<mapsto> m0), next_module := Suc h\<rparr>)"
  using downmix_created [of "garbage w"] assms by (auto simp: downmix_library_def)

interpretation downmix: effect_provider downmix_library "(=) w0" "{downmix_uuid}" "\<lambda>_. gDownmixDescriptor" for w0
proof unfold_locales
  fix u :: effect_uuid and sid io and w :: downmix_world
  assume u: "u \<in> {downmix_uuid}" and w: "w0 = w"
  show "\<exists>w'. get_descriptor downmix_library u w = (0, gDownmixDescriptor, w') \<and> w0 = w'"
    using u w by (simp add: downmix_library_def DownmixLib_GetDescriptor_def gDescriptors_def downmix_uuid_def)
  show "\<exists>h w'. create_effect downmix_library u sid io w = Some (0, h, w')"
    using u downmix_created [of "garbage w"] by (auto simp: downmix_library_def)
next
  fix u :: effect_uuid assume "u \<in> {downmix_uuid}"
  then show "EFFECT_API_VERSION_MAJOR (apiVersion gDownmixDescriptor) = 2 \<and> d_uuid gDownmixDescriptor = u"
    by (simp add: downmix_uuid_def gDownmixDescriptor_def EFFECT_API_VERSION_MAJOR_def)
qed (simp_all add: downmix_library_def EFFECT_API_VERSION_MAJOR_def)

section \<open>From the configuration file to stereo\<close>

text \<open>C31: the way of a stream through both components: when the configuration file names the downmix
  library, EffectCreate of its identifier succeeds from the program's start, the commands
  EFFECT_CMD_SET_CONFIG (with any valid configuration whose channel mask is supported) and
  EFFECT_CMD_ENABLE sent to the handle return 0, and Effect_Process on the handle then mixes every
  frame exactly and writes nothing else.\<close>

theorem downmix_through_factory:
  assumes env: "configured_for env downmix_library name path [(n, downmix_uuid)] w w1" "sub_itfe env = gDownmixInterface"
    and ptrs: "words_at w1 data = Some ws" "words_at w1 reply = Some [x]" "words_at w1 sz = Some [4]"
      "data \<noteq> reply" "data \<noteq> sz" "reply \<noteq> sz"
    and cfg: "config_of ws = Some cfg" "config_valid cfg" "frame_layout (channels (inputCfg cfg)) = Some y"
    and bufs: "buffer_at w1 ib = Some \<lparr>frameCount = k, raw = Some src\<rparr>"
      "buffer_at w1 ob = Some \<lparr>frameCount = k, raw = Some dst\<rparr>" "dst \<le> src \<or> src + 2 * numChan y * k \<le> dst"
  shows "\<exists>s0 s1 s2 s3. EffectCreate env (Some a) (Some downmix_uuid) sid io True (factory_start w) = Some (0, Some a, s0)
     \<and> Effect_Command env a 1 64 data sz reply s0 = Some (0, s1)
     \<and> Effect_Command env a 3 0 data sz reply s1 = Some (0, s2)
     \<and> Effect_Process env a ib ob s2 = Some (0, s3)
     \<and> (let m = samples w1; m' = samples (libs_state s3); acc = accessMode (outputCfg cfg) = EFFECT_BUFFER_ACCESS_ACCUMULATE in
        map (\<lambda>i. (sint (load16 m' (dst + 4 * i)), sint (load16 m' (dst + 4 * i + 2)))) [0..<k] =
        map (\<lambda>i. (mixed acc (sint (load16 m (dst + 4 * i))) (mix_left y m (src + 2 * numChan y * i)),
                  mixed acc (sint (load16 m (dst + 4 * i + 2))) (mix_right y m (src + 2 * numChan y * i)))) [0..<k]
        \<and> (\<forall>b. b < dst \<or> dst + 4 * k \<le> b \<longrightarrow> m' b = m b))"
proof -
  have served: "snd ` set [(n, downmix_uuid)] \<subseteq> {downmix_uuid}" "downmix_uuid \<in> snd ` set [(n, downmix_uuid)]" by simp_all
  obtain h w2 s0 where c: "create_effect downmix_library downmix_uuid sid io (libs_state (init env (factory_start w))) = Some (0, h, w2)"
      "EffectCreate env (Some a) (Some downmix_uuid) sid io True (factory_start w) = Some (0, Some a, s0)"
      "gInitDone s0" "libs_state s0 = w2" "\<exists>fx. entry_at s0 a = Some fx \<and> fx_lib fx = Some 0 \<and> subItfe fx = h"
    using downmix.created [OF env(1) served(1) refl served(2), where a = a and sid = sid and io = io] by blast
  have w1: "libs_state (init env (factory_start w)) = w1" using downmix.loaded(2) [OF env(1) served(1) refl] by simp
  obtain fx where fx: "entry_at s0 a = Some fx" "fx_lib fx = Some 0" "subItfe fx = h" using c(5) by blast
  from downmix_creates [OF c(1)] w1 obtain m0 where m0: "DownmixLib_Create (Some (garbage w1)) (Some downmix_uuid) True = Some (0, Some m0)"
    "w2 = w1\<lparr>modules := (modules w1)(h \<mapsto> m0), next_module := Suc h\<rparr>" by blast
  from session [OF m0(1) cfg bufs(3), of x 0 "Some ws" 0 "samples w1"] obtain m1 m2 m' where
    r: "Downmix_Command (Some m0) 1 64 (Some ws) 4 (Some [x]) = Some (0, Some m1, Some [0], 4)"
      "Downmix_Command (Some m1) 3 0 (Some ws) 4 (Some [0]) = Some (0, Some m2, Some [0], 4)"
      "Downmix_Process (Some m2) (Some \<lparr>frameCount = k, raw = Some src\<rparr>) (Some \<lparr>frameCount = k, raw = Some dst\<rparr>) (samples w1) = (0, m')"
    and mix: "let acc = accessMode (outputCfg cfg) = EFFECT_BUFFER_ACCESS_ACCUMULATE in
        map (\<lambda>i. (sint (load16 m' (dst + 4 * i)), sint (load16 m' (dst + 4 * i + 2)))) [0..<k] =
        map (\<lambda>i. (mixed acc (sint (load16 (samples w1) (dst + 4 * i))) (mix_left y (samples w1) (src + 2 * numChan y * i)),
                  mixed acc (sint (load16 (samples w1) (dst + 4 * i + 2))) (mix_right y (samples w1) (src + 2 * numChan y * i)))) [0..<k]"
      "\<forall>b. b < dst \<or> dst + 4 * k \<le> b \<longrightarrow> m' b = samples w1 b" by blast
  define w3 where "w3 = w2\<lparr>modules := (modules w2)(h := Some m1), words_at := (words_at w2)(reply := Some [0], sz := Some [4])\<rparr>"
  define w4 where "w4 = w3\<lparr>modules := (modules w3)(h := Some m2), words_at := (words_at w3)(reply := Some [0], sz := Some [4])\<rparr>"
  define s1 where "s1 = s0\<lparr>libs_state := w3\<rparr>"
  define s2 where "s2 = s1\<lparr>libs_state := w4\<rparr>"
  have e1: "gInitDone s1" "entry_at s1 a = Some fx" and e2: "gInitDone s2" "entry_at s2 a = Some fx"
    using c(3) fx(1) by (simp_all add: s1_def s2_def)
  have "Effect_Command env a 1 64 data sz reply s0 = Some (0, s1)"
    unfolding calls_through_handle(2) [OF c(3) fx(1,2)] env(2) fx(3) c(4)
    using r(1) ptrs by (simp add: gDownmixInterface_def m0(2) w3_def s1_def)
  moreover have "Effect_Command env a 3 0 data sz reply s1 = Some (0, s2)"
    unfolding calls_through_handle(2) [OF e1 fx(2)] env(2) fx(3)
    using r(2) ptrs by (simp add: gDownmixInterface_def m0(2) w3_def w4_def s1_def s2_def)
  moreover have "Effect_Process env a ib ob s2 = Some (0, s2\<lparr>libs_state := w4\<lparr>samples := m'\<rparr>\<rparr>)"
    unfolding calls_through_handle(1) [OF e2 fx(2)] env(2) fx(3)
    using r(3) bufs by (simp add: gDownmixInterface_def m0(2) w3_def w4_def s2_def)
  ultimately show ?thesis using c(2) mix
    by (intro exI [of _ s0] exI [of _ s1] exI [of _ s2] exI [of _ "s2\<lparr>libs_state := w4\<lparr>samples := m'\<rparr>\<rparr>"])
      (simp add: Let_def)
qed

definition downmix_start :: downmix_world where
  "downmix_start = \<lparr>modules = (\<lambda>_. None), next_module = 1, garbage = blank_module, samples = store16 100 0x7fff (\<lambda>_. 0),
     words_at = (\<lambda>p. if p = 1 then Some sample_words else if p = 2 then Some [7] else if p = 3 then Some [4] else None),
     buffer_at = (\<lambda>p. Some \<lparr>frameCount = 1, raw = Some 100\<rparr>)\<rparr>"

definition downmix_env :: "downmix_world effects_env" where
  "downmix_env = \<lparr>can_read = (\<lambda>p. p = vendor_config),
     read_file = (\<lambda>p. Some (print_nodes (config_nodes ''downmix'' ''/d.so'' [(''downmix'', downmix_uuid)]))),
     dlopen = (\<lambda>p w. (Some 5, w)), dlsym = (\<lambda>h n. Some downmix_library), dlclose = (\<lambda>h w. w),
     sub_itfe = gDownmixInterface\<rparr>"

lemma downmix_through_factory_witness:
  "\<exists>s0 s1 s2 s3. EffectCreate downmix_env (Some 50) (Some downmix_uuid) 0 0 True (factory_start downmix_start) = Some (0, Some 50, s0)
     \<and> Effect_Command downmix_env 50 1 64 1 3 2 s0 = Some (0, s1)
     \<and> Effect_Command downmix_env 50 3 0 1 3 2 s1 = Some (0, s2)
     \<and> Effect_Process downmix_env 50 8 9 s2 = Some (0, s3)
     \<and> (\<forall>b. 104 \<le> b \<longrightarrow> samples (libs_state s3) b = samples downmix_start b)"
proof -
  have env: "configured_for downmix_env downmix_library ''downmix'' ''/d.so'' [(''downmix'', downmix_uuid)] downmix_start downmix_start"
    "sub_itfe downmix_env = gDownmixInterface"
    by (simp_all add: configured_for_def downmix_env_def key_ok_def key_char_def value_ok_def isspace_def separators_def
        newline_def PATH_MAX_def)
  have ptrs: "words_at downmix_start 1 = Some sample_words" "words_at downmix_start 2 = Some [7]" "words_at downmix_start 3 = Some [4]"
    "(1 :: nat) \<noteq> 2" "(1 :: nat) \<noteq> 3" "(2 :: nat) \<noteq> 3"
    and bufs: "buffer_at downmix_start 8 = Some \<lparr>frameCount = 1, raw = Some 100\<rparr>"
      "buffer_at downmix_start 9 = Some \<lparr>frameCount = 1, raw = Some 100\<rparr>" by (simp_all add: downmix_start_def)
  define cfg where "cfg = \<lparr>inputCfg = buffer_config_of (take 8 sample_words), outputCfg = buffer_config_of (drop 8 sample_words)\<rparr>"
  have cfg: "config_of sample_words = Some cfg" by (simp add: config_of_def cfg_def sample_words_def)
  have chan: "channels (inputCfg cfg) = 0x3F" and valid: "config_valid cfg" unfolding cfg_def by code_simp+
  have "(100 :: nat) \<le> 100 \<or> P" for P by simp
  from downmix_through_factory [OF env ptrs cfg valid common_layouts(4) [folded chan] bufs this, where a = 50 and sid = 0 and io = 0]
  show ?thesis unfolding Let_def by auto
qed

end
