(* ===== verification/StateQueue.thy ===== *)
theory StateQueue
  imports Prelude
begin

text \<open>
  The state queue between the normal mixer and the fast mixer (libs/audioflinger/StateQueue.cpp
  and StateQueue.h): one thread, the mutator, changes a state in place and pushes it, another,
  the observer, polls for the last state pushed, and neither takes a lock.

  \<open>mStates\<close> is the array of \<open>kN\<close> states, and a pointer to a state is its index (None is NULL).
  The methods are cut at their accesses to \<open>mNext\<close> and \<open>mAck\<close>, the members that both threads
  use: what the observer does in poll is \<open>poll_load\<close>, \<open>poll_ack\<close> and \<open>poll_return\<close>; what the
  mutator does in push is \<open>push_start\<close>, rounds of \<open>push_wait\<close>, \<open>push_publish\<close>, \<open>push_copy\<close> and
  rounds of \<open>push_final\<close>.  The counters of STATE_QUEUE_DUMP, which the makefile turns on, are
  members of the record.  An ALOG_ASSERT that fails is None.
\<close>

section \<open>The queue\<close>

abbreviation kN :: nat where "kN \<equiv> 4"

record 't state_queue =
  mStates :: "'t list"
  mNext :: "nat option"
  mAck :: "nat option"
  mCurrent :: "nat option"
  mMutating :: nat
  mExpecting :: "nat option"
  mInMutation :: bool
  mIsDirty :: bool
  mIsInitialized :: bool
  mStateChanges :: u32
  mPushDirty :: u32
  mPushAck :: u32
  mBlockedSequence :: u32

text \<open>The constructor; \<open>T\<close>'s own constructor gives the states.\<close>

definition new_StateQueue :: "'t \<Rightarrow> 't state_queue" where
  "new_StateQueue x =
     \<lparr>mStates = replicate kN x, mNext = None, mAck = None, mCurrent = None, mMutating = 0,
      mExpecting = None, mInMutation = False, mIsDirty = False, mIsInitialized = False,
      mStateChanges = 0, mPushDirty = 0, mPushAck = 0, mBlockedSequence = 0\<rparr>"

section \<open>The observer\<close>

definition poll_load :: "'t state_queue \<Rightarrow> nat option" where
  "poll_load q = mNext q"

definition poll_ack :: "nat option \<Rightarrow> 't state_queue \<Rightarrow> 't state_queue" where
  "poll_ack next_state q = (if next_state \<noteq> mCurrent q then q\<lparr>mAck := next_state\<rparr> else q)"

definition poll_return :: "nat option \<Rightarrow> 't state_queue \<Rightarrow> 't state_queue" where
  "poll_return next_state q =
     (if next_state \<noteq> mCurrent q
      then q\<lparr>mCurrent := next_state, mStateChanges := mStateChanges q + 1\<rparr> else q)"

definition poll :: "'t state_queue \<Rightarrow> nat option \<times> 't state_queue" where
  "poll q = (let next_state = poll_load q in
             (next_state, poll_return next_state (poll_ack next_state q)))"

section \<open>The mutator\<close>

definition begin_mutation :: "'t state_queue \<Rightarrow> (nat \<times> 't state_queue) option" where
  "begin_mutation q =
     (if mInMutation q then None else Some (mMutating q, q\<lparr>mInMutation := True\<rparr>))"

definition end_mutation :: "bool \<Rightarrow> 't state_queue \<Rightarrow> 't state_queue option" where
  "end_mutation didModify q =
     (if \<not> mInMutation q \<or> \<not> (mIsInitialized q \<or> didModify) then None
      else let q = (if didModify then q\<lparr>mIsDirty := True, mIsInitialized := True\<rparr> else q)
           in Some (q\<lparr>mInMutation := False\<rparr>))"

datatype block_t = BLOCK_NEVER | BLOCK_UNTIL_PUSHED | BLOCK_UNTIL_ACKED

text \<open>Where the mutator is inside of push; \<open>count\<close> is the local variable of both loops.\<close>

datatype push_pc =
    Push_wait block_t u32
  | Push_publish block_t
  | Push_copy block_t
  | Push_final u32
  | Push_done bool

text \<open>After the state has been pushed, or was not dirty.\<close>

definition push_pushed :: "block_t \<Rightarrow> 't state_queue \<Rightarrow> push_pc" where
  "push_pushed block q =
     (if block = BLOCK_UNTIL_ACKED \<and> mExpecting q \<noteq> None then Push_final 0 else Push_done True)"

definition push_start :: "block_t \<Rightarrow> 't state_queue \<Rightarrow> (push_pc \<times> 't state_queue) option" where
  "push_start block q =
     (if mInMutation q then None
      else let q = (if block = BLOCK_UNTIL_ACKED then q\<lparr>mPushAck := mPushAck q + 1\<rparr> else q) in
        Some (if mIsDirty q
              then (if mExpecting q \<noteq> None then Push_wait block 0 else Push_publish block,
                    q\<lparr>mPushDirty := mPushDirty q + 1\<rparr>)
              else (push_pushed block q, q)))"

definition count_block :: "u32 \<Rightarrow> 't state_queue \<Rightarrow> 't state_queue" where
  "count_block count q =
     (if count = 1 then q\<lparr>mBlockedSequence := mBlockedSequence q + 1\<rparr> else q)"

definition count_unblock :: "u32 \<Rightarrow> 't state_queue \<Rightarrow> 't state_queue" where
  "count_unblock count q =
     (if count > 1 then q\<lparr>mBlockedSequence := mBlockedSequence q + 1\<rparr> else q)"

definition push_wait :: "block_t \<Rightarrow> u32 \<Rightarrow> 't state_queue \<Rightarrow> push_pc \<times> 't state_queue" where
  "push_wait block count q =
     (if mAck q = mExpecting q then (Push_publish block, count_unblock count q)
      else if block = BLOCK_NEVER then (Push_done False, q)
      else (Push_wait block (count + 1), count_block count q))"

definition push_publish :: "block_t \<Rightarrow> 't state_queue \<Rightarrow> push_pc \<times> 't state_queue" where
  "push_publish block q =
     (Push_copy block,
      q\<lparr>mNext := Some (mMutating q), mExpecting := Some (mMutating q),
        mMutating := (if mMutating q + 1 \<ge> kN then 0 else mMutating q + 1)\<rparr>)"

definition push_copy :: "block_t \<Rightarrow> 't state_queue \<Rightarrow> (push_pc \<times> 't state_queue) option" where
  "push_copy block q =
     (case mExpecting q of
        None \<Rightarrow> None
      | Some e \<Rightarrow>
          let q = q\<lparr>mStates := (mStates q)[mMutating q := mStates q ! e], mIsDirty := False\<rparr>
          in Some (push_pushed block q, q))"

definition push_final :: "u32 \<Rightarrow> 't state_queue \<Rightarrow> push_pc \<times> 't state_queue" where
  "push_final count q =
     (if mAck q = mExpecting q then (Push_done True, count_unblock count (q\<lparr>mExpecting := None\<rparr>))
      else (Push_final (count + 1), count_block count q))"

text \<open>One step of the mutator inside of push.\<close>

fun push_step :: "push_pc \<Rightarrow> 't state_queue \<Rightarrow> (push_pc \<times> 't state_queue) option" where
  "push_step (Push_wait block count) q = Some (push_wait block count q)"
| "push_step (Push_publish block) q = Some (push_publish block q)"
| "push_step (Push_copy block) q = push_copy block q"
| "push_step (Push_final count) q = Some (push_final count q)"
| "push_step (Push_done r) q = Some (Push_done r, q)"

end
