(* ===== verification/StateQueueSpec.thy ===== *)
theory StateQueueSpec
  imports StateQueue "HOL-Library.Sublist"
begin

text \<open>
  What the state queue promises to the two mixer threads, for every interleaving of their steps:
  the states the observer looks at are never written, it sees every push, in order, and a push
  that waits for the acknowledgement ends when the observer polls.
\<close>

section \<open>The two threads\<close>

text \<open>
  \<open>obs\<close> is the observer's \<open>next\<close> inside of poll, \<open>prev\<close> the pointer it had before the last
  change, \<open>mut\<close> where the mutator is inside of push, and \<open>asked\<close> the argument of its last
  call of push.  \<open>pushed\<close> and \<open>seen\<close> record the
  states that were published and the states that poll returned at each change.
\<close>

datatype obs_pc = Obs_out | Obs_loaded "nat option" | Obs_acked "nat option"

record 't mixers =
  sq :: "'t state_queue"
  obs :: obs_pc
  prev :: "nat option"
  mut :: "push_pc option"
  asked :: block_t
  pushed :: "'t list"
  seen :: "'t list"

text \<open>
  The client of the mutator's methods keeps their contract: it mutates only between begin and end,
  and calls one method at a time.  A step of push that publishes adds to \<open>pushed\<close>.
\<close>

definition published :: "push_pc \<Rightarrow> 't state_queue \<Rightarrow> 't list \<Rightarrow> 't list" where
  "published pc q ps =
     (case pc of Push_publish block \<Rightarrow> ps @ [mStates q ! mMutating q] | _ \<Rightarrow> ps)"

definition after_push :: "push_pc \<Rightarrow> push_pc option" where
  "after_push pc = (case pc of Push_done r \<Rightarrow> None | _ \<Rightarrow> Some pc)"

inductive mixer_step :: "'t mixers \<Rightarrow> 't mixers \<Rightarrow> bool" where
  Poll_load: "obs m = Obs_out \<Longrightarrow> mixer_step m (m\<lparr>obs := Obs_loaded (poll_load (sq m))\<rparr>)"
| Poll_ack: "obs m = Obs_loaded n \<Longrightarrow> mixer_step m (m\<lparr>obs := Obs_acked n, sq := poll_ack n (sq m)\<rparr>)"
| Poll_same: "obs m = Obs_acked n \<Longrightarrow> n = mCurrent (sq m) \<Longrightarrow>
    mixer_step m (m\<lparr>obs := Obs_out, sq := poll_return n (sq m)\<rparr>)"
| Poll_change: "obs m = Obs_acked (Some i) \<Longrightarrow> Some i \<noteq> mCurrent (sq m) \<Longrightarrow>
    mixer_step m (m\<lparr>obs := Obs_out, sq := poll_return (Some i) (sq m), prev := mCurrent (sq m),
                     seen := seen m @ [mStates (sq m) ! i]\<rparr>)"
| Mut_begin: "mut m = None \<Longrightarrow> begin_mutation (sq m) = Some (i, q) \<Longrightarrow> mixer_step m (m\<lparr>sq := q\<rparr>)"
| Mut_write: "mut m = None \<Longrightarrow> mInMutation (sq m) \<Longrightarrow>
    mixer_step m (m\<lparr>sq := (sq m)\<lparr>mStates := (mStates (sq m))[mMutating (sq m) := x]\<rparr>\<rparr>)"
| Mut_end: "mut m = None \<Longrightarrow> end_mutation didModify (sq m) = Some q \<Longrightarrow> mixer_step m (m\<lparr>sq := q\<rparr>)"
| Mut_push: "mut m = None \<Longrightarrow> push_start block (sq m) = Some (pc, q) \<Longrightarrow>
    mixer_step m (m\<lparr>asked := block, mut := after_push pc, sq := q\<rparr>)"
| Mut_step: "mut m = Some pc \<Longrightarrow> push_step pc (sq m) = Some (pc', q) \<Longrightarrow>
    mixer_step m (m\<lparr>mut := after_push pc', sq := q, pushed := published pc (sq m) (pushed m)\<rparr>)"

definition new_mixers :: "'t \<Rightarrow> 't mixers" where
  "new_mixers x = \<lparr>sq = new_StateQueue x, obs = Obs_out, prev = None, mut = None, asked = BLOCK_NEVER, pushed = [], seen = []\<rparr>"

inductive mixer_reach :: "'t \<Rightarrow> 't mixers \<Rightarrow> bool" for x where
  Start: "mixer_reach x (new_mixers x)"
| Step: "mixer_reach x m \<Longrightarrow> mixer_step m m' \<Longrightarrow> mixer_reach x m'"

section \<open>The invariant\<close>

text \<open>The pointer to the last of \<open>n\<close> states in the circular array.\<close>

definition slot :: "nat \<Rightarrow> nat option" where
  "slot n = (if n = 0 then None else Some ((n - 1) mod kN))"

text \<open>How many states the observer has acknowledged.\<close>

definition acked :: "'t mixers \<Rightarrow> nat" where
  "acked m =
     (case obs m of Obs_acked n \<Rightarrow> length (seen m) + (if n \<noteq> mCurrent (sq m) then 1 else 0)
      | _ \<Rightarrow> length (seen m))"

definition mut_ok :: "'t mixers \<Rightarrow> bool" where
  "mut_ok m \<longleftrightarrow>
     (case mut m of
        None \<Rightarrow> True
      | Some (Push_wait b c) \<Rightarrow> \<not> mInMutation (sq m) \<and> mIsDirty (sq m) \<and> mExpecting (sq m) \<noteq> None \<and> b = asked m
      | Some (Push_publish b) \<Rightarrow> \<not> mInMutation (sq m) \<and> mIsDirty (sq m) \<and> acked m = length (pushed m) \<and> b = asked m
      | Some (Push_copy b) \<Rightarrow> \<not> mInMutation (sq m) \<and> mExpecting (sq m) \<noteq> None \<and> b = asked m
      | Some (Push_final c) \<Rightarrow> \<not> mInMutation (sq m) \<and> \<not> mIsDirty (sq m) \<and> mExpecting (sq m) \<noteq> None \<and>
          asked m = BLOCK_UNTIL_ACKED
      | Some (Push_done r) \<Rightarrow> False)"

definition obs_ok :: "'t mixers \<Rightarrow> bool" where
  "obs_ok m \<longleftrightarrow>
     (case obs m of
        Obs_out \<Rightarrow> True
      | Obs_loaded n \<Rightarrow> n = slot (length (seen m)) \<or> (length (seen m) < length (pushed m) \<and> n = slot (length (seen m) + 1))
      | Obs_acked n \<Rightarrow> n = slot (length (seen m)) \<or> (length (seen m) < length (pushed m) \<and> n = slot (length (seen m) + 1)))"

text \<open>The states that can still be looked at are the ones that were pushed.\<close>

definition states_ok :: "'t list \<Rightarrow> 't list \<Rightarrow> bool" where
  "states_ok st ps \<longleftrightarrow> length st = kN \<and>
     (\<forall>k < length ps. length ps \<le> k + 3 \<longrightarrow> st ! (k mod kN) = ps ! k)"

definition expecting_ok :: "nat option \<Rightarrow> nat \<Rightarrow> nat \<Rightarrow> bool" where
  "expecting_ok e a p \<longleftrightarrow> (if e = None then a = p else e = slot p)"

definition mixers_ok :: "'t mixers \<Rightarrow> bool" where
  "mixers_ok m \<longleftrightarrow>
     states_ok (mStates (sq m)) (pushed m) \<and>
     mMutating (sq m) = length (pushed m) mod kN \<and>
     mNext (sq m) = slot (length (pushed m)) \<and>
     mAck (sq m) = slot (acked m) \<and>
     mCurrent (sq m) = slot (length (seen m)) \<and>
     prev m = slot (length (seen m) - 1) \<and>
     acked m \<le> length (pushed m) \<and> length (pushed m) \<le> acked m + 1 \<and>
     expecting_ok (mExpecting (sq m)) (acked m) (length (pushed m)) \<and>
     prefix (seen m) (pushed m) \<and>
     obs_ok m \<and> mut_ok m"

lemma slot_0 [simp]: "slot 0 = None" and slot_Suc [simp]: "slot (Suc n) = Some (n mod kN)"
  by (simp_all add: slot_def)

text \<open>Two pointers into the array are equal only when the positions are a full turn apart.\<close>

lemma mod_kN_eq_le: "a mod kN = b mod kN \<Longrightarrow> a < b + kN \<Longrightarrow> b \<le> a \<Longrightarrow> a = b"
  by (auto simp: mod_eq_dvd_iff_nat dest: dvd_imp_le)

lemma mod_kN_eq: "a mod kN = b mod kN \<Longrightarrow> a < b + kN \<Longrightarrow> b < a + kN \<Longrightarrow> a = b"
  using mod_kN_eq_le [of a b] mod_kN_eq_le [of b a] by (cases "b \<le> a") auto

lemma slot_eq: "slot a = slot b \<Longrightarrow> a < b + kN \<Longrightarrow> b < a + kN \<Longrightarrow> a = b"
  by (cases a; cases b) (auto dest: mod_kN_eq)

lemma slot_next [simp]: "slot (Suc n) \<noteq> slot n" "slot n \<noteq> slot (Suc n)"
  using slot_eq [of "Suc n" n] slot_eq [of n "Suc n"] by auto

section \<open>Every step keeps it\<close>

lemma mixers_start: "mixers_ok (new_mixers x)"
  by (simp add: mixers_ok_def states_ok_def expecting_ok_def new_mixers_def new_StateQueue_def acked_def obs_ok_def mut_ok_def)

text \<open>A step of the observer leaves the mutator where it is.\<close>

lemma mut_ok_cong:
  assumes "mut_ok m" "mut m' = mut m" "asked m' = asked m" "mInMutation (sq m') = mInMutation (sq m)"
    "mIsDirty (sq m') = mIsDirty (sq m)" "mExpecting (sq m') = mExpecting (sq m)"
    "acked m = length (pushed m) \<Longrightarrow> acked m' = length (pushed m')"
  shows "mut_ok m'"
  using assms by (auto simp: mut_ok_def split: option.splits push_pc.splits)

lemma poll_load_ok:
  assumes ok: "mixers_ok m" and obs: "obs m = Obs_out"
  shows "mixers_ok (m\<lparr>obs := Obs_loaded (poll_load (sq m))\<rparr>)"
proof -
  let ?m = "m\<lparr>obs := Obs_loaded (poll_load (sq m))\<rparr>"
  have "length (pushed m) = length (seen m) \<or> length (pushed m) = Suc (length (seen m))"
    and n: "poll_load (sq m) = slot (length (pushed m))"
    using assms unfolding mixers_ok_def by (auto simp: acked_def poll_load_def)
  then have "obs_ok ?m" by (auto simp: obs_ok_def)
  moreover have a: "acked ?m = acked m" using obs by (simp add: acked_def)
  then have "mut_ok ?m" using ok by - (rule mut_ok_cong [of m], auto simp: mixers_ok_def)
  ultimately show ?thesis using ok a by (simp add: mixers_ok_def)
qed

lemma poll_ack_ok:
  assumes ok: "mixers_ok m" and obs: "obs m = Obs_loaded n"
  shows "mixers_ok (m\<lparr>obs := Obs_acked n, sq := poll_ack n (sq m)\<rparr>)"
proof (cases "n = slot (length (seen m))")
  case True
  let ?m = "m\<lparr>obs := Obs_acked n\<rparr>"
  have q: "poll_ack n (sq m) = sq m" and a: "acked ?m = acked m"
    using ok obs True by (simp_all add: poll_ack_def acked_def mixers_ok_def)
  have "obs_ok ?m" using ok obs by (simp add: mixers_ok_def obs_ok_def)
  moreover have "mut_ok ?m" using ok a by - (rule mut_ok_cong [of m], auto simp: mixers_ok_def)
  ultimately have "mixers_ok ?m" using ok a by (simp add: mixers_ok_def)
  then show ?thesis using q by simp
next
  case False
  let ?m = "m\<lparr>obs := Obs_acked n, sq := (sq m)\<lparr>mAck := n\<rparr>\<rparr>"
  have n: "length (seen m) < length (pushed m)" "n = slot (Suc (length (seen m)))"
    using ok obs False by (auto simp: mixers_ok_def obs_ok_def)
  have cur: "mCurrent (sq m) = slot (length (seen m))" using ok by (simp add: mixers_ok_def)
  have q: "poll_ack n (sq m) = (sq m)\<lparr>mAck := n\<rparr>"
    using cur False by (simp add: poll_ack_def)
  have a: "acked ?m = Suc (length (seen m))" "acked m = length (seen m)"
    using cur False obs by (simp_all add: acked_def)
  have "obs_ok ?m" using n by (simp add: obs_ok_def)
  moreover have "mut_ok ?m" using ok a n by - (rule mut_ok_cong [of m], auto simp: mixers_ok_def)
  moreover have "length (pushed m) = Suc (length (seen m))"
    using ok a n by (simp add: mixers_ok_def)
  ultimately have "mixers_ok ?m" using ok a n by (auto simp: mixers_ok_def expecting_ok_def split: if_splits)
  then show ?thesis using q by simp
qed

lemma poll_same_ok:
  assumes ok: "mixers_ok m" and obs: "obs m = Obs_acked n" and n: "n = mCurrent (sq m)"
  shows "mixers_ok (m\<lparr>obs := Obs_out, sq := poll_return n (sq m)\<rparr>)"
proof -
  let ?m = "m\<lparr>obs := Obs_out\<rparr>"
  have a: "acked ?m = acked m" using obs n by (simp add: acked_def)
  have "obs_ok ?m" by (simp add: obs_ok_def)
  moreover have "mut_ok ?m" using ok a by - (rule mut_ok_cong [of m], auto simp: mixers_ok_def)
  ultimately show ?thesis using ok a n by (simp add: mixers_ok_def poll_return_def)
qed

lemma prefix_snoc_nth: "prefix xs ys \<Longrightarrow> length xs < length ys \<Longrightarrow> prefix (xs @ [ys ! length xs]) ys"
  by (auto simp: prefix_def nth_append) (metis hd_conv_nth list.exhaust_sel)

lemma poll_change_ok:
  assumes ok: "mixers_ok m" and obs: "obs m = Obs_acked (Some i)" and i: "Some i \<noteq> mCurrent (sq m)"
  shows "mixers_ok (m\<lparr>obs := Obs_out, sq := poll_return (Some i) (sq m), prev := mCurrent (sq m),
                     seen := seen m @ [mStates (sq m) ! i]\<rparr>)" (is "mixers_ok ?m")
proof -
  have cur: "mCurrent (sq m) = slot (length (seen m))" using ok by (simp add: mixers_ok_def)
  have n: "length (seen m) < length (pushed m)" "i = length (seen m) mod kN"
    using ok obs i cur by (auto simp: mixers_ok_def obs_ok_def)
  have a: "acked m = Suc (length (seen m))" "acked ?m = Suc (length (seen m))"
    using obs i by (simp_all add: acked_def)
  have len: "length (pushed m) \<le> length (seen m) + 2" using ok a by (simp add: mixers_ok_def)
  have "mStates (sq m) ! i = pushed m ! length (seen m)"
    using ok n len by (simp add: mixers_ok_def states_ok_def)
  with n have "prefix (seen m @ [mStates (sq m) ! i]) (pushed m)"
    using ok by (auto simp: mixers_ok_def intro: prefix_snoc_nth)
  moreover have "obs_ok ?m" by (simp add: obs_ok_def)
  moreover have "mut_ok ?m"
    using ok a i by - (rule mut_ok_cong [of m], auto simp: mixers_ok_def poll_return_def)
  ultimately show ?thesis using ok a n i cur by (simp add: mixers_ok_def poll_return_def)
qed

section \<open>The mutator's steps\<close>

text \<open>A step of the mutator that does not publish leaves the observer where it is.\<close>

lemma mut_other_ok:
  assumes ok: "mixers_ok m"
    and "mStates q = mStates (sq m)" "mNext q = mNext (sq m)" "mAck q = mAck (sq m)"
      "mCurrent q = mCurrent (sq m)" "mMutating q = mMutating (sq m)"
    and ex: "mExpecting q = mExpecting (sq m) \<or> (mExpecting q = None \<and> acked m = length (pushed m))"
    and mut: "mut_ok (m\<lparr>mut := pc, sq := q\<rparr>)"
  shows "mixers_ok (m\<lparr>mut := pc, sq := q\<rparr>)" (is "mixers_ok ?m")
proof -
  have "acked ?m = acked m" using assms(5) by (simp add: acked_def cong: obs_pc.case_cong)
  moreover have "obs_ok ?m" using ok by (cases "obs m") (simp_all add: mixers_ok_def obs_ok_def)
  ultimately show ?thesis using assms unfolding mixers_ok_def by (auto simp: expecting_ok_def split: if_splits)
qed

text \<open>The mutator writes only in a slot of its own.\<close>

lemma write_mutating_ok:
  assumes ok: "mixers_ok m"
    and q: "q = (sq m)\<lparr>mStates := (mStates (sq m))[mMutating (sq m) := x], mIsDirty := d\<rparr>"
    and mut: "mut_ok (m\<lparr>mut := pc, sq := q\<rparr>)"
  shows "mixers_ok (m\<lparr>mut := pc, sq := q\<rparr>)" (is "mixers_ok ?m")
proof -
  have "acked ?m = acked m" using q by (simp add: acked_def cong: obs_pc.case_cong)
  moreover have "obs_ok ?m" using ok by (cases "obs m") (simp_all add: mixers_ok_def obs_ok_def)
  moreover have "length (pushed m) mod kN \<noteq> k mod kN"
    if "k < length (pushed m)" "length (pushed m) \<le> k + 3" for k
    using that mod_kN_eq [of k "length (pushed m)"] by auto
  ultimately show ?thesis using ok q mut by (auto simp: mixers_ok_def states_ok_def nth_list_update)
qed

lemma publish_ok:
  assumes ok: "mixers_ok m" and mut: "mut m = Some (Push_publish block)"
  shows "mixers_ok (m\<lparr>mut := Some (Push_copy block), sq := snd (push_publish block (sq m)),
                     pushed := pushed m @ [mStates (sq m) ! mMutating (sq m)]\<rparr>)" (is "mixers_ok ?m")
proof -
  have a: "acked m = length (pushed m)" "\<not> mInMutation (sq m)" "block = asked m"
    using ok mut by (auto simp: mixers_ok_def mut_ok_def)
  have e: "acked ?m = acked m" by (cases "obs m") (simp_all add: acked_def push_publish_def)
  have st: "states_ok (mStates (sq m)) (pushed m @ [mStates (sq m) ! (length (pushed m) mod kN)])"
    using ok by (auto simp: mixers_ok_def states_ok_def nth_append less_Suc_eq)
  have turn: "(if p mod kN + 1 \<ge> kN then 0 else p mod kN + 1) = Suc p mod kN" for p :: nat
    by (auto simp: mod_Suc)
  have "obs_ok ?m" using ok by (cases "obs m") (auto simp: mixers_ok_def obs_ok_def)
  moreover have "mut_ok ?m" using a by (simp add: mut_ok_def push_publish_def)
  moreover have "mMutating (sq ?m) = Suc (length (pushed m)) mod kN"
    using ok turn [of "length (pushed m)"] by (auto simp: mixers_ok_def push_publish_def split: if_splits)
  ultimately show ?thesis
    using ok a e st by (simp add: mixers_ok_def push_publish_def expecting_ok_def prefix_prefix)
qed

lemma push_pushed_ok:
  assumes "\<not> mInMutation q" "\<not> mIsDirty q" "pc = push_pushed block q" "sq m = q" "mut m = after_push pc"
    "asked m = block"
  shows "mut_ok m"
  using assms by (auto simp: push_pushed_def mut_ok_def after_push_def)

lemma push_start_ok:
  assumes ok: "mixers_ok m" and mut: "mut m = None" and st: "push_start block (sq m) = Some (pc, q)"
    and ask: "asked m = block"
  shows "mixers_ok (m\<lparr>mut := after_push pc, sq := q\<rparr>)"
proof (rule mut_other_ok [OF ok])
  have "acked m = length (pushed m)" if "mExpecting (sq m) = None"
    using ok that by (simp add: mixers_ok_def expecting_ok_def)
  moreover have "acked (m\<lparr>mut := after_push pc, sq := q\<rparr>) = acked m"
    using st by (cases "obs m") (auto simp: acked_def push_start_def Let_def split: if_splits)
  ultimately show "mut_ok (m\<lparr>mut := after_push pc, sq := q\<rparr>)"
    using st ask by (auto simp: push_start_def Let_def mut_ok_def after_push_def push_pushed_def split: if_splits)
qed (use st in \<open>auto simp: push_start_def Let_def split: if_splits\<close>)

text \<open>When the acknowledgement is the expected one, everything pushed is acknowledged.\<close>

lemma expected_acked:
  assumes ok: "mixers_ok m" and e: "mExpecting (sq m) \<noteq> None" and ack: "mAck (sq m) = mExpecting (sq m)"
  shows "acked m = length (pushed m)"
proof (rule slot_eq)
  show "slot (acked m) = slot (length (pushed m))"
    using ok e ack unfolding mixers_ok_def expecting_ok_def by presburger
qed (use ok in \<open>auto simp: mixers_ok_def\<close>)

lemma push_wait_ok:
  assumes ok: "mixers_ok m" and mut: "mut m = Some (Push_wait block c)"
    and st: "push_wait block c (sq m) = (pc, q)"
  shows "mixers_ok (m\<lparr>mut := after_push pc, sq := q\<rparr>)"
proof (rule mut_other_ok [OF ok])
  have e: "mExpecting (sq m) \<noteq> None" "\<not> mInMutation (sq m)" "mIsDirty (sq m)" "block = asked m"
    using ok mut by (auto simp: mixers_ok_def mut_ok_def)
  note ack = expected_acked [OF ok e(1)]
  moreover have "acked (m\<lparr>mut := after_push pc, sq := q\<rparr>) = acked m"
    using st by (cases "obs m") (auto simp: acked_def push_wait_def count_block_def count_unblock_def split: if_splits)
  ultimately show "mut_ok (m\<lparr>mut := after_push pc, sq := q\<rparr>)"
    using st e ack by (auto simp: push_wait_def mut_ok_def after_push_def count_block_def count_unblock_def split: if_splits)
qed (use st in \<open>auto simp: push_wait_def count_block_def count_unblock_def split: if_splits\<close>)

lemma push_final_ok:
  assumes ok: "mixers_ok m" and mut: "mut m = Some (Push_final c)"
    and st: "push_final c (sq m) = (pc, q)"
  shows "mixers_ok (m\<lparr>mut := after_push pc, sq := q\<rparr>)"
proof (rule mut_other_ok [OF ok])
  have e: "mExpecting (sq m) \<noteq> None" "\<not> mInMutation (sq m)" "\<not> mIsDirty (sq m)" "asked m = BLOCK_UNTIL_ACKED"
    using ok mut by (auto simp: mixers_ok_def mut_ok_def)
  note ack = expected_acked [OF ok e(1)]
  show "mExpecting q = mExpecting (sq m) \<or> mExpecting q = None \<and> acked m = length (pushed m)"
    using st ack by (auto simp: push_final_def count_block_def count_unblock_def split: if_splits)
  show "mut_ok (m\<lparr>mut := after_push pc, sq := q\<rparr>)"
    using st e by (auto simp: push_final_def mut_ok_def after_push_def count_block_def count_unblock_def split: if_splits)
qed (use st in \<open>auto simp: push_final_def count_block_def count_unblock_def split: if_splits\<close>)

lemma push_copy_ok:
  assumes ok: "mixers_ok m" and mut: "mut m = Some (Push_copy block)"
    and st: "push_copy block (sq m) = Some (pc, q)"
  shows "mixers_ok (m\<lparr>mut := after_push pc, sq := q\<rparr>)"
proof -
  obtain e where q: "q = (sq m)\<lparr>mStates := (mStates (sq m))[mMutating (sq m) := mStates (sq m) ! e], mIsDirty := False\<rparr>"
    and pc: "pc = push_pushed block q"
    using st by (auto simp: push_copy_def Let_def split: option.splits)
  have "\<not> mInMutation q" "\<not> mIsDirty q" "asked m = block" using ok mut q by (simp_all add: mixers_ok_def mut_ok_def)
  then have "mut_ok (m\<lparr>mut := after_push pc, sq := q\<rparr>)" using pc by (auto intro: push_pushed_ok)
  with write_mutating_ok [OF ok q] show ?thesis by simp
qed

lemma push_step_ok:
  assumes ok: "mixers_ok m" and mut: "mut m = Some pc" and st: "push_step pc (sq m) = Some (pc', q)"
  shows "mixers_ok (m\<lparr>mut := after_push pc', sq := q, pushed := published pc (sq m) (pushed m)\<rparr>)"
proof (cases pc)
  case (Push_publish block)
  with st have "pc' = Push_copy block" "q = snd (push_publish block (sq m))"
    by (auto simp: push_publish_def)
  with publish_ok [OF ok] mut Push_publish show ?thesis by (simp add: after_push_def published_def)
next
  case (Push_done r)
  with ok mut show ?thesis by (simp add: mixers_ok_def mut_ok_def)
qed (use assms push_wait_ok push_copy_ok push_final_ok in \<open>auto simp: published_def\<close>)

lemma mut_None: "mut m = None \<Longrightarrow> m\<lparr>sq := q\<rparr> = m\<lparr>mut := None, sq := q\<rparr>"
  by simp

lemma asked_ok: "mut m = None \<Longrightarrow> mixers_ok (m\<lparr>asked := b\<rparr>) = mixers_ok m"
  by (simp add: mixers_ok_def acked_def obs_ok_def mut_ok_def cong: obs_pc.case_cong)

lemma mixer_step_ok: "mixer_step m m' \<Longrightarrow> mixers_ok m \<Longrightarrow> mixers_ok m'"
proof (induction rule: mixer_step.induct)
  case (Mut_begin m i q)
  then have "mixers_ok (m\<lparr>mut := None, sq := q\<rparr>)"
    by - (rule mut_other_ok, auto simp: begin_mutation_def mut_ok_def split: if_splits)
  then show ?case by (subst mut_None [OF Mut_begin(1)])
next
  case (Mut_write m x)
  have "mixers_ok (m\<lparr>mut := None, sq := (sq m)\<lparr>mStates := (mStates (sq m))[mMutating (sq m) := x], mIsDirty := mIsDirty (sq m)\<rparr>\<rparr>)"
    by (rule write_mutating_ok [OF Mut_write(3) refl]) (simp add: mut_ok_def)
  then show ?case by (subst mut_None [OF Mut_write(1)]) simp
next
  case (Mut_end m d q)
  then have "mixers_ok (m\<lparr>mut := None, sq := q\<rparr>)"
    by - (rule mut_other_ok, auto simp: end_mutation_def Let_def mut_ok_def split: if_splits)
  then show ?case by (subst mut_None [OF Mut_end(1)])
next
  case (Mut_push m block pc q)
  then show ?case using push_start_ok [of "m\<lparr>asked := block\<rparr>" block pc q] asked_ok [of m block] by simp
qed (auto intro: poll_load_ok poll_ack_ok poll_same_ok poll_change_ok push_start_ok push_step_ok)

lemma mixer_reach_ok: "mixer_reach x m \<Longrightarrow> mixers_ok m"
  by (induction rule: mixer_reach.induct) (auto intro: mixers_start mixer_step_ok)

section \<open>What the threads can rely on\<close>

lemma slot_before: "slot (n - 1) = (if 2 \<le> n then Some ((n - 2) mod kN) else None)"
  by (auto simp: slot_def numeral_2_eq_2)

text \<open>A run: a state is mutated and pushed, the observer polls it, and a second one is begun.\<close>

lemma mixers_run:
  "\<exists>m. mixer_reach (0 :: nat) m \<and> obs m = Obs_out \<and> pushed m = [7] \<and> seen m = [7] \<and>
       mCurrent (sq m) = Some 0 \<and> mut m = None \<and> mInMutation (sq m)"
proof -
  let ?m0 = "new_mixers (0 :: nat)"
  let ?enter = "\<lambda>m. m\<lparr>sq := (sq m)\<lparr>mInMutation := True\<rparr>\<rparr>"
  let ?m1 = "?enter ?m0"
  let ?m2 = "?m1\<lparr>sq := (sq ?m1)\<lparr>mStates := (mStates (sq ?m1))[mMutating (sq ?m1) := 7]\<rparr>\<rparr>"
  let ?m3 = "?m2\<lparr>sq := the (end_mutation True (sq ?m2))\<rparr>"
  let ?m4 = "?m3\<lparr>mut := Some (Push_publish BLOCK_NEVER), sq := snd (the (push_start BLOCK_NEVER (sq ?m3)))\<rparr>"
  let ?m5 = "?m4\<lparr>mut := Some (Push_copy BLOCK_NEVER), sq := snd (push_publish BLOCK_NEVER (sq ?m4)), pushed := [7]\<rparr>"
  let ?m6 = "?m5\<lparr>mut := None, sq := snd (the (push_copy BLOCK_NEVER (sq ?m5)))\<rparr>"
  let ?m7 = "?m6\<lparr>obs := Obs_loaded (Some 0)\<rparr>"
  let ?m8 = "?m7\<lparr>obs := Obs_acked (Some 0), sq := poll_ack (Some 0) (sq ?m7)\<rparr>"
  let ?m9 = "?m8\<lparr>obs := Obs_out, sq := poll_return (Some 0) (sq ?m8), prev := None, seen := [7]\<rparr>"
  note defs = new_mixers_def new_StateQueue_def begin_mutation_def end_mutation_def push_start_def
    push_publish_def push_copy_def push_pushed_def poll_load_def poll_ack_def poll_return_def
    after_push_def published_def eval_nat_numeral
  have "mixer_step ?m0 ?m1" using Mut_begin [of ?m0 0 "sq ?m1"] by (simp add: defs)
  moreover have "mixer_step ?m1 ?m2" by (rule Mut_write) (simp_all add: defs)
  moreover have "mixer_step ?m2 ?m3" using Mut_end [of ?m2 True "sq ?m3"] by (simp add: defs)
  moreover have "mixer_step ?m3 ?m4"
    using Mut_push [of ?m3 BLOCK_NEVER "Push_publish BLOCK_NEVER" "sq ?m4"] by (simp add: defs)
  moreover have "mixer_step ?m4 ?m5"
    using Mut_step [of ?m4 "Push_publish BLOCK_NEVER" "Push_copy BLOCK_NEVER" "sq ?m5"] by (simp add: defs)
  moreover have "mixer_step ?m5 ?m6"
    using Mut_step [of ?m5 "Push_copy BLOCK_NEVER" "Push_done True" "sq ?m6"] by (simp add: defs)
  moreover have "mixer_step ?m6 ?m7" using Poll_load [of ?m6] by (simp add: defs)
  moreover have "mixer_step ?m7 ?m8" by (rule Poll_ack) simp
  moreover have "mixer_step ?m8 ?m9" using Poll_change [of ?m8 0] by (simp add: defs)
  moreover have "mixer_step ?m9 (?enter ?m9)" using Mut_begin [of ?m9 1] by (simp add: defs)
  ultimately have "mixer_reach 0 (?enter ?m9)" by (meson mixer_reach.intros)
  then show ?thesis by (intro exI [of _ "?enter ?m9"]) (simp add: defs)
qed

text \<open>C32: The states that the observer may look at, the one poll returned last and, outside of poll,
  the one before, are never the one the mutator writes, and they are, unchanged, the states that
  poll returned; in every interleaving of the two threads.
\<close>

theorem observer_states_stable:
  assumes "mixer_reach x m"
  shows "(case mCurrent (sq m) of
            None \<Rightarrow> seen m = []
          | Some i \<Rightarrow> i \<noteq> mMutating (sq m) \<and> seen m \<noteq> [] \<and> mStates (sq m) ! i = last (seen m)) \<and>
         (obs m = Obs_out \<longrightarrow>
          (case prev m of
             None \<Rightarrow> length (seen m) \<le> 1
           | Some j \<Rightarrow> j \<noteq> mMutating (sq m) \<and> 2 \<le> length (seen m) \<and>
               mStates (sq m) ! j = seen m ! (length (seen m) - 2)))"
proof -
  let ?c = "length (seen m)" and ?p = "length (pushed m)"
  note ok = mixer_reach_ok [OF assms]
  have len: "?c \<le> ?p" "?p \<le> ?c + 2" "obs m = Obs_out \<Longrightarrow> ?p \<le> ?c + 1"
    using ok by (auto simp: mixers_ok_def acked_def prefix_length_le split: obs_pc.splits if_splits)
  have held: "k mod kN \<noteq> mMutating (sq m) \<and> mStates (sq m) ! (k mod kN) = seen m ! k"
    if "k < ?c" "?p \<le> k + 3" for k
  proof
    show "k mod kN \<noteq> mMutating (sq m)"
      using ok that len mod_kN_eq [of k ?p] by (auto simp: mixers_ok_def)
    have "mStates (sq m) ! (k mod kN) = pushed m ! k"
      using ok that len by (simp add: mixers_ok_def states_ok_def)
    with ok that show "mStates (sq m) ! (k mod kN) = seen m ! k"
      by (auto simp: mixers_ok_def prefix_def nth_append)
  qed
  have p: "mCurrent (sq m) = slot ?c" "prev m = slot (?c - 1)" using ok by (simp_all add: mixers_ok_def)
  show ?thesis
  proof (intro conjI impI)
    show "case mCurrent (sq m) of None \<Rightarrow> seen m = []
          | Some i \<Rightarrow> i \<noteq> mMutating (sq m) \<and> seen m \<noteq> [] \<and> mStates (sq m) ! i = last (seen m)"
      using p held [of "?c - 1"] len by (cases "seen m = []") (auto simp: last_conv_nth slot_def)
  next
    assume "obs m = Obs_out"
    with len have "?p \<le> ?c + 1" by simp
    then show "case prev m of None \<Rightarrow> length (seen m) \<le> 1
           | Some j \<Rightarrow> j \<noteq> mMutating (sq m) \<and> 2 \<le> length (seen m) \<and>
               mStates (sq m) ! j = seen m ! (length (seen m) - 2)"
      using p held [of "?c - 2"] slot_before [of ?c] by (cases "2 \<le> ?c") auto
  qed
qed

lemma observer_states_stable_witness:
  "\<exists>m. mixer_reach (0 :: nat) m \<and> mInMutation (sq m) \<and> mMutating (sq m) \<noteq> 0 \<and> mStates (sq m) ! 0 = 7"
proof -
  obtain m where m: "mixer_reach (0 :: nat) m" "seen m = [7]" "mCurrent (sq m) = Some 0" "mInMutation (sq m)"
    using mixers_run by blast
  show ?thesis using observer_states_stable [OF m(1)] m by (intro exI [of _ m]) auto
qed

text \<open>The next step of the mutator returns \<open>r\<close> from a push that was called with \<open>block\<close>.\<close>

definition push_returns :: "'t mixers \<Rightarrow> block_t \<Rightarrow> bool \<Rightarrow> 't state_queue \<Rightarrow> bool" where
  "push_returns m block r q \<longleftrightarrow>
     (case mut m of
        None \<Rightarrow> push_start block (sq m) = Some (Push_done r, q)
      | Some pc \<Rightarrow> asked m = block \<and> push_step pc (sq m) = Some (Push_done r, q))"

lemma push_returns_ok:
  assumes ok: "mixers_ok m" and ret: "push_returns m block r q"
  shows "(r \<longleftrightarrow> \<not> mIsDirty q) \<and> (block \<noteq> BLOCK_NEVER \<longrightarrow> r) \<and>
    (block = BLOCK_UNTIL_ACKED \<longrightarrow> acked m = length (pushed m))"
proof (cases "mut m")
  case None
  have "acked m = length (pushed m)" if "mExpecting (sq m) = None"
    using ok that by (simp add: mixers_ok_def expecting_ok_def)
  with None ret show ?thesis
    by (auto simp: push_returns_def push_start_def push_pushed_def Let_def split: if_splits)
next
  case (Some pc)
  have st: "push_step pc (sq m) = Some (Push_done r, q)" "asked m = block"
    using Some ret by (simp_all add: push_returns_def)
  have mut: "mut_ok m" using ok by (simp add: mixers_ok_def)
  show ?thesis
  proof (cases pc)
    case (Push_wait b c)
    with st mut Some show ?thesis by (auto simp: push_wait_def mut_ok_def split: if_splits)
  next
    case (Push_publish b)
    with st show ?thesis by (simp add: push_publish_def)
  next
    case (Push_copy b)
    with st mut Some show ?thesis
      by (auto simp: push_copy_def push_pushed_def mut_ok_def Let_def split: option.splits if_splits)
  next
    case (Push_final c)
    then have m: "mExpecting (sq m) \<noteq> None" "\<not> mIsDirty (sq m)"
      using mut Some by (simp_all add: mut_ok_def)
    from Push_final st expected_acked [OF ok m(1)] m(2) show ?thesis
      by (auto simp: push_final_def count_unblock_def split: if_splits)
  next
    case (Push_done r')
    with mut Some show ?thesis by (simp add: mut_ok_def)
  qed
qed

text \<open>C33: The observer sees every pushed state, in the order of the pushes, and is at most one push
  behind when it is not in poll.  Whichever way a push returns, it returns true exactly when nothing
  is left to push, which it is unless it was called with BLOCK_NEVER, and a push with
  BLOCK_UNTIL_ACKED only when everything pushed is acknowledged.  A push that waits goes on after
  one poll.
\<close>

theorem pushes_seen_in_order:
  assumes "mixer_reach x m"
  shows "prefix (seen m) (pushed m) \<and>
         length (pushed m) \<le> length (seen m) + (if obs m = Obs_out then 1 else 2) \<and>
         (\<forall>block r q. push_returns m block r q \<longrightarrow> (r \<longleftrightarrow> \<not> mIsDirty q) \<and>
              (block \<noteq> BLOCK_NEVER \<longrightarrow> r) \<and> (block = BLOCK_UNTIL_ACKED \<longrightarrow> acked m = length (pushed m))) \<and>
         (\<forall>b c. obs m = Obs_out \<and> mut m = Some (Push_wait b c) \<longrightarrow>
              fst (push_wait b c (snd (poll (sq m)))) = Push_publish b) \<and>
         (\<forall>c. obs m = Obs_out \<and> mut m = Some (Push_final c) \<longrightarrow>
              fst (push_final c (snd (poll (sq m)))) = Push_done True)"
proof -
  note ok = mixer_reach_ok [OF assms]
  have e: "mExpecting (sq m) = slot (length (pushed m))"
    if "mut m = Some (Push_wait b c) \<or> mut m = Some (Push_final c)" for b c
    using ok that by (auto simp: mixers_ok_def mut_ok_def expecting_ok_def)
  have poll: "mAck (snd (poll (sq m))) = slot (length (pushed m))"
    "mExpecting (snd (poll (sq m))) = mExpecting (sq m)" if "obs m = Obs_out"
    using ok that by (auto simp: mixers_ok_def acked_def poll_def poll_load_def poll_ack_def poll_return_def Let_def)
  have len: "length (pushed m) \<le> length (seen m) + (if obs m = Obs_out then 1 else 2)"
    using ok by (auto simp: mixers_ok_def acked_def split: obs_pc.splits if_splits)
  have ret: "\<forall>block r q. push_returns m block r q \<longrightarrow> (r \<longleftrightarrow> \<not> mIsDirty q) \<and>
      (block \<noteq> BLOCK_NEVER \<longrightarrow> r) \<and> (block = BLOCK_UNTIL_ACKED \<longrightarrow> acked m = length (pushed m))"
    using push_returns_ok [OF ok] by blast
  have go: "fst (push_wait b c (snd (poll (sq m)))) = Push_publish b"
    if "obs m = Obs_out" "mut m = Some (Push_wait b c)" for b c
    using e [of b c] poll that by (simp add: push_wait_def)
  have fin: "fst (push_final c (snd (poll (sq m)))) = Push_done True"
    if "obs m = Obs_out" "mut m = Some (Push_final c)" for c
    using e [of undefined c] poll that by (simp add: push_final_def)
  have "prefix (seen m) (pushed m)" using ok by (simp add: mixers_ok_def)
  with len ret go fin show ?thesis by blast
qed

lemma pushes_seen_in_order_witness:
  "\<exists>m. mixer_reach (0 :: nat) m \<and> pushed m = [7] \<and> prefix (seen m) [7] \<and> seen m \<noteq> []"
proof -
  obtain m where m: "mixer_reach (0 :: nat) m" "pushed m = [7]" "obs m = Obs_out" "seen m = [7]"
    using mixers_run by blast
  show ?thesis using pushes_seen_in_order [OF m(1)] m by (intro exI [of _ m]) auto
qed

end
