(* ===== verification/LinearTransform.thy ===== *)
theory LinearTransform
  imports Prelude
begin

text \<open>
  Linear transforms of 64-bit time values (libs/utils/LinearTransform.cpp and LinearTransform.h):
  scaling by a 32-bit fraction with a 96-bit intermediate product, and the reduction of a fraction.

  \<open>int64_t\<close> values are words read with \<open>sint\<close>.  Where the code's signed arithmetic overflows
  (\<open>basis1 - val\<close>, \<open>ABS\<close> of the least value) the model wraps, as the compilers' output does.
  A result of None is the code's false, when the output is not used.  The output pointer is taken to
  be valid: the one test left out is \<open>if (!out) return false\<close> before everything else.
\<close>

type_synonym u64 = "64 word"

definition ABS :: "'a::len word \<Rightarrow> 'a word" where
  "ABS x = (if x <s 0 then - x else x)"

definition scale_u64_to_u64 :: "u64 \<Rightarrow> u32 \<Rightarrow> u32 \<Rightarrow> bool \<Rightarrow> u64 option" where
  "scale_u64_to_u64 val N D round_up_not_down =
     (let n = ucast N :: u64;
          d = ucast D :: u64;
          tmp2 = drop_bit 32 val * n;
          tmp1 = (val AND 0xFFFFFFFF) * n;
          tmp2 = tmp2 + drop_bit 32 tmp1
      in if drop_bit 32 tmp2 \<ge> d then None
         else let r = (ucast (tmp2 mod d) :: u32);
                  tmp2 = tmp2 div d;
                  tmp1 = (tmp1 AND 0xFFFFFFFF) OR push_bit 32 (ucast r);
                  r = (ucast (tmp1 mod d) :: u32);
                  tmp1 = tmp1 div d;
                  res = push_bit 32 tmp2 OR tmp1
              in if r \<noteq> 0 \<and> round_up_not_down
                 then (if res + 1 = 0 then None else Some (res + 1))
                 else Some res)"

abbreviation INT64_MIN :: u64 where "INT64_MIN \<equiv> 0x8000000000000000"
abbreviation INT64_MAX :: u64 where "INT64_MAX \<equiv> 0x7FFFFFFFFFFFFFFF"

definition linear_transform_s64_to_s64 ::
    "u64 \<Rightarrow> u64 \<Rightarrow> u32 \<Rightarrow> u32 \<Rightarrow> bool \<Rightarrow> u64 \<Rightarrow> u64 option" where
  "linear_transform_s64_to_s64 val basis1 N D invert_frac basis2 =
     (let (is_neg, abs_val) = (if val <s basis1 then (True, basis1 - val) else (False, val - basis1));
          is_neg = (if N <s 0 then \<not> is_neg else is_neg)
      in case scale_u64_to_u64 abs_val (if invert_frac then D else ABS N)
                (if invert_frac then ABS N else D) is_neg of
           None \<Rightarrow> None
         | Some scaled \<Rightarrow>
             if scaled AND INT64_MIN \<noteq> 0
             then (if is_neg \<and> basis2 <s 0 then None
                   else if \<not> is_neg \<and> 0 \<le>s basis2 then None
                   else if ABS basis2 \<le>s scaled AND INT64_MAX then None
                   else Some ((if is_neg then - scaled else scaled) + basis2))
             else let scaled = (if is_neg then - scaled else scaled);
                      res = scaled + basis2
                  in if (scaled XOR basis2 XOR INT64_MIN) AND (scaled XOR res) AND INT64_MIN \<noteq> 0
                     then None else Some res)"

record linear_transform =
  a_zero :: u64
  b_zero :: u64
  a_to_b_numer :: u32
  a_to_b_denom :: u32

definition doForwardTransform :: "linear_transform \<Rightarrow> u64 \<Rightarrow> u64 option" where
  "doForwardTransform t a_in =
     (if a_to_b_denom t = 0 then None
      else linear_transform_s64_to_s64 a_in (a_zero t) (a_to_b_numer t) (a_to_b_denom t) False (b_zero t))"

definition doReverseTransform :: "linear_transform \<Rightarrow> u64 \<Rightarrow> u64 option" where
  "doReverseTransform t b_in =
     (if a_to_b_numer t = 0 then None
      else linear_transform_s64_to_s64 b_in (b_zero t) (a_to_b_numer t) (a_to_b_denom t) True (a_zero t))"

text \<open>
  \<open>LinearTransform::reduce\<close>, for 64 and for 32 bits: Euclid's loop, whose divisor \<open>b\<close> is never 0
  (the test of it keeps the function total).  A \<open>*D\<close> of 0 leaves the fraction as it is.
\<close>

function reduce_loop :: "'a::len word \<Rightarrow> 'a word \<Rightarrow> 'a word \<Rightarrow> 'a word \<Rightarrow> 'a word \<times> 'a word" where
  "reduce_loop N D a b =
     (let remainder = a mod b
      in if b = 0 \<or> remainder = 0 then (N div b, D div b) else reduce_loop N D b remainder)"
  by pat_completeness auto

termination reduce_loop
  by (relation "measure (\<lambda>(N, D, a, b). unat b)")
     (auto simp: word_less_nat_alt [symmetric] word_gt_0 intro: word_mod_less_divisor)

declare reduce_loop.simps [simp del]

definition reduce :: "'a::len word \<Rightarrow> 'a word \<Rightarrow> 'a word \<times> 'a word" where
  "reduce N D =
     (if D = 0 then (N, D)
      else if N = 0 then (N, 1)
      else if N < D then reduce_loop N D D N else reduce_loop N D N D)"

definition reduce_signed :: "u32 \<Rightarrow> u32 \<Rightarrow> u32 \<times> u32" where
  "reduce_signed N D =
     (if D = 0 then (N, D)
      else if N <s 0 then (let (n, d) = reduce (- N) D in (- n, d))
      else reduce N D)"

end
