(* ===== verification/LinearTransformSpec.thy ===== *)
theory LinearTransformSpec
  imports LinearTransform
begin

text \<open>
  What the linear transforms compute: the exact quotient, rounded down, whenever it fits; and
  a reduced fraction is the fraction in lowest terms.
\<close>

section \<open>Scaling\<close>

abbreviation two32 :: nat where "two32 \<equiv> 4294967296"
abbreviation two64 :: nat where "two64 \<equiv> 18446744073709551616"

lemma unat_u32_less: "unat (x :: u32) < two32" and unat_u64_less: "unat (y :: u64) < two64"
  using unsigned_less [of x] unsigned_less [of y] by simp_all

lemma low_half: "unat ((x :: u64) AND 0xFFFFFFFF) = unat x mod two32"
proof -
  have "x AND 0xFFFFFFFF = take_bit 32 x" by (simp add: take_bit_eq_mask mask_eq_exp_minus_1)
  then show ?thesis by (simp add: take_bit_eq_mod unat_mod)
qed

lemma high_half: "unat (drop_bit 32 (x :: u64)) = unat x div two32"
  by (simp add: drop_bit_eq_div unat_div)

lemma unat_ucast32: "unat (ucast (x :: u32) :: u64) = unat x"
  using unat_u32_less [of x] by (simp add: unsigned_ucast_eq take_bit_nat_eq_self_iff)

lemma unat_ucast_low: "unat (y :: u64) < two32 \<Longrightarrow> unat (ucast y :: u32) = unat y"
  by (simp add: unsigned_ucast_eq unsigned_take_bit_eq take_bit_nat_eq_self_iff)

text \<open>Two halves put together with OR.\<close>

lemma join_halves:
  fixes hi lo :: u64
  assumes "unat hi < two32" "unat lo < two32"
  shows "unat (push_bit 32 hi OR lo) = unat hi * two32 + unat lo" "unat (lo OR push_bit 32 hi) = unat hi * two32 + unat lo"
proof -
  have l: "lo = take_bit 32 lo"
    using assms(2) by (simp add: word_unat_eq_iff take_bit_eq_mod unat_mod)
  have "push_bit 32 hi AND lo = 0"
    by (subst l) (rule bit_eqI, auto simp: bit_simps)
  then have e: "push_bit 32 hi OR lo = push_bit 32 hi + lo" by (simp add: disjunctive_add_eq_or)
  have p: "unat (push_bit 32 hi) = unat hi * two32"
    using assms(1) by (simp add: push_bit_eq_mult unat_word_ariths)
  have "unat hi * two32 + unat lo < two64" using assms by simp
  then show "unat (push_bit 32 hi OR lo) = unat hi * two32 + unat lo"
    unfolding e by (subst unat_word_ariths) (simp add: p)
  then show "unat (lo OR push_bit 32 hi) = unat hi * two32 + unat lo" by (simp add: or.commute)
qed

text \<open>The long division in two steps of the code.\<close>

lemma long_division:
  fixes M D :: nat
  assumes "0 < D"
  defines "t \<equiv> (M div two32) mod D * two32 + M mod two32"
  shows "M div D = (M div two32) div D * two32 + t div D" "M mod D = t mod D" "t div D < two32"
proof -
  define a where "a = M div two32"
  have "M = a * two32 + M mod two32" by (simp add: a_def)
  also have "a * two32 = (a div D * D + a mod D) * two32" by simp
  finally have M: "M = (a div D * two32) * D + t" by (simp only: t_def a_def algebra_simps)
  have "M div D = a div D * two32 + t div D" using assms(1) by (subst M) simp
  then show "M div D = (M div two32) div D * two32 + t div D" by (simp add: a_def)
  show "M mod D = t mod D" by (subst M) simp
  have "a mod D * two32 + two32 \<le> D * two32"
    using assms(1) by (metis Suc_leI add.commute mod_less_divisor mult_Suc mult_le_mono1)
  moreover have "M mod two32 < two32" by simp
  ultimately have "t < D * two32" unfolding t_def a_def by linarith
  then show "t div D < two32" using assms(1) by (simp add: div_less_iff_less_mult mult.commute)
qed

definition scaled_value :: "nat \<Rightarrow> nat \<Rightarrow> bool \<Rightarrow> nat" where
  "scaled_value M D up = M div D + (if up \<and> M mod D \<noteq> 0 then 1 else 0)"

lemma scale_exact:
  assumes D: "D \<noteq> 0"
  shows "scale_u64_to_u64 val N D up =
     (let q = scaled_value (unat val * unat N) (unat D) up in if q < two64 then Some (of_nat q) else None)"
proof -
  define M where "M = unat val * unat N"
  have d0: "0 < unat D" using D by (simp add: unat_gt_0)
  define vh vl where "vh = unat val div two32" and "vl = unat val mod two32"
  have v: "unat val = vh * two32 + vl" by (simp add: vh_def vl_def)
  have vs: "vh < two32" "vl < two32"
    using unat_u64_less [of val] by (simp_all add: vh_def vl_def less_mult_imp_div_less)
  have n: "unat N < two32" and nd: "unat D < two32" by (rule unat_u32_less)+
  have small: "x * unat N < two64" if "x < two32" for x
  proof -
    have "x * unat N \<le> (two32 - 1) * (two32 - 1)" using that n by (intro mult_le_mono) auto
    then show ?thesis by simp
  qed
  let ?t1 = "(val AND 0xFFFFFFFF) * ucast N" and ?t2 = "drop_bit 32 val * (ucast N :: u64)"
  have t1: "unat ?t1 = vl * unat N" and t2: "unat ?t2 = vh * unat N"
    using small vs by (simp_all add: unat_word_ariths low_half high_half unat_ucast32 vh_def vl_def)
  let ?s2 = "?t2 + drop_bit 32 ?t1" and ?d = "ucast D :: u64"
  have "M = vl * unat N + (vh * unat N) * two32" unfolding M_def v by (simp only: algebra_simps)
  then have Md: "M div two32 = vh * unat N + vl * unat N div two32" and Mm: "M mod two32 = vl * unat N mod two32"
    by simp_all
  have "M \<le> (two64 - 1) * (two32 - 1)"
    unfolding M_def using n unat_u64_less [of val] by (intro mult_le_mono) auto
  then have Ms: "M div two32 < two64" by (simp add: div_less_iff_less_mult)
  then have s2: "unat ?s2 = M div two32"
    by (subst unat_word_ariths(1)) (simp only: t1 t2 high_half Md, simp)
  have d: "unat ?d = unat D" by (rule unat_ucast32)
  have over: "drop_bit 32 ?s2 \<ge> ?d \<longleftrightarrow> two64 \<le> M div unat D"
  proof -
    have "drop_bit 32 ?s2 \<ge> ?d \<longleftrightarrow> unat D \<le> M div two32 div two32"
      by (simp only: word_le_nat_alt high_half s2 d)
    also have "\<dots> \<longleftrightarrow> unat D * two64 \<le> M"
      by (simp add: div_mult2_eq [symmetric] less_eq_div_iff_mult_less_eq)
    also have "\<dots> \<longleftrightarrow> two64 \<le> M div unat D"
      using d0 by (simp add: less_eq_div_iff_mult_less_eq mult.commute)
    finally show ?thesis .
  qed
  show ?thesis
  proof (cases "two64 \<le> M div unat D")
    case True
    then show ?thesis using over
      by (simp add: scale_u64_to_u64_def Let_def scaled_value_def M_def)
  next
    case False
    let ?r = "ucast (?s2 mod ?d) :: u32"
    let ?u1 = "(?t1 AND 0xFFFFFFFF) OR push_bit 32 (ucast ?r)"
    let ?t = "(M div two32) mod unat D * two32 + M mod two32"
    have small_r: "(M div two32) mod unat D < two32" using d0 nd by (meson less_trans mod_less_divisor)
    then have r: "unat (ucast ?r :: u64) = (M div two32) mod unat D"
      by (simp only: unat_ucast32 unat_ucast_low unat_mod s2 d)
    have u1: "unat ?u1 = ?t"
      using small_r by (subst join_halves(2)) (simp_all add: low_half t1 Mm r)
    have q1: "(M div two32) div unat D < two32"
      using False d0 by (simp add: div_mult2_eq [symmetric] div_less_iff_less_mult not_le algebra_simps)
    note div = long_division [OF d0, of M]
    have r2: "unat (ucast (?u1 mod ?d) :: u32) = M mod unat D"
      using less_trans [OF mod_less_divisor [OF d0, of ?t] nd] div(2)
      by (simp only: unat_ucast_low unat_mod u1 d)
    have q2: "unat (?s2 div ?d) = M div two32 div unat D" "unat (?u1 div ?d) = ?t div unat D"
      by (simp_all only: unat_div s2 d u1)
    have res: "unat (push_bit 32 (?s2 div ?d) OR (?u1 div ?d)) = M div unat D"
      using q1 div(3) by (subst join_halves(1)) (simp_all only: q2 div(1))
    have nz: "ucast (?u1 mod ?d) \<noteq> (0 :: u32) \<longleftrightarrow> M mod unat D \<noteq> 0"
      by (simp only: word_unat_eq_iff r2) simp
    have of_res: "push_bit 32 (?s2 div ?d) OR (?u1 div ?d) = of_nat (M div unat D)"
      by (simp only: res [symmetric] of_nat_unat ucast_id)
    have top: "of_nat (M div unat D) + 1 = (0 :: u64) \<longleftrightarrow> M div unat D + 1 = two64"
    proof -
      have "unat (of_nat (M div unat D) + 1 :: u64) = Suc (M div unat D) mod two64"
        by (subst unat_word_ariths(1)) (simp add: unsigned_of_nat take_bit_eq_mod mod_Suc_eq)
      then show ?thesis using False by (auto simp: word_unat_eq_iff mod_Suc split: if_splits)
    qed
    have ov: "\<not> ?d \<le> drop_bit 32 ?s2" using over False by simp
    let ?q = "M div unat D"
    have "scale_u64_to_u64 val N D up =
        (if M mod unat D \<noteq> 0 \<and> up
         then (if of_nat ?q + 1 = (0 :: u64) then None else Some (of_nat ?q + 1)) else Some (of_nat ?q))"
      by (simp only: scale_u64_to_u64_def Let_def ov if_False nz of_res)
    also have "\<dots> = (let q = scaled_value M (unat D) up in if q < two64 then Some (of_nat q) else None)"
      using False by (auto simp: top scaled_value_def Let_def)
    finally show ?thesis by (simp only: M_def)
  qed
qed

section \<open>Signed values\<close>

abbreviation i63 :: int where "i63 \<equiv> 9223372036854775808"

definition fits :: "int \<Rightarrow> bool" where "fits x \<longleftrightarrow> - i63 \<le> x \<and> x < i63"

text \<open>Remainders by \<open>2^64\<close> of values less than two turns away.\<close>

lemma mod_turn:
  fixes x :: int
  shows "0 \<le> x \<Longrightarrow> x < 2 * i63 \<Longrightarrow> x mod (2 * i63) = x"
    "2 * i63 \<le> x \<Longrightarrow> x < 4 * i63 \<Longrightarrow> x mod (2 * i63) = x - 2 * i63"
    "- 2 * i63 \<le> x \<Longrightarrow> x < 0 \<Longrightarrow> x mod (2 * i63) = x + 2 * i63"
    "- 4 * i63 \<le> x \<Longrightarrow> x < - 2 * i63 \<Longrightarrow> x mod (2 * i63) = x + 4 * i63"
proof -
  have turn: "(y + k * (2 * i63)) mod (2 * i63) = y mod (2 * i63)" for y k :: int by (rule mod_mult_self1)
  have base: "0 \<le> y \<Longrightarrow> y < 2 * i63 \<Longrightarrow> y mod (2 * i63) = y" for y :: int
    by (rule mod_pos_pos_trivial)
  show "0 \<le> x \<Longrightarrow> x < 2 * i63 \<Longrightarrow> x mod (2 * i63) = x" by (rule base)
  show "2 * i63 \<le> x \<Longrightarrow> x < 4 * i63 \<Longrightarrow> x mod (2 * i63) = x - 2 * i63"
    using turn [of x "-1"] base [of "x - 2 * i63"] by simp
  show "- 2 * i63 \<le> x \<Longrightarrow> x < 0 \<Longrightarrow> x mod (2 * i63) = x + 2 * i63"
    using turn [of x 1] base [of "x + 2 * i63"] by simp
  show "- 4 * i63 \<le> x \<Longrightarrow> x < - 2 * i63 \<Longrightarrow> x mod (2 * i63) = x + 4 * i63"
    using turn [of x 2] base [of "x + 4 * i63"] by simp
qed

lemma uint_range: "0 \<le> uint (w :: u64)" "uint (w :: u64) < 2 * i63"
  using unsigned_less [of w, where ?'a = int] by simp_all

lemma sint_of_uint: "sint (w :: u64) = (if uint w < i63 then uint w else uint w - 2 * i63)"
proof -
  have "sint w = signed_take_bit 63 (uint w)" by (simp add: sint_uint)
  also have "\<dots> = (uint w + i63) mod (2 * i63) - i63"
    by (simp add: signed_take_bit_eq_take_bit_shift take_bit_eq_mod)
  finally show ?thesis using mod_turn(1,2) [of "uint w + i63"] uint_range [of w] by simp
qed

lemma fits_sint: "fits (sint (w :: u64))"
  unfolding fits_def sint_of_uint using uint_range [of w] by (smt (verit))

text \<open>A wrapped sum is the sum when it fits, and otherwise off by \<open>2^64\<close>.\<close>

definition wrap64 :: "int \<Rightarrow> int" where
  "wrap64 x = (if x < - i63 then x + 2 * i63 else if x < i63 then x else x - 2 * i63)"

lemma sint_word_of_int:
  assumes "- 3 * i63 \<le> x" "x < 3 * i63"
  shows "sint (word_of_int x :: u64) = wrap64 x"
proof -
  have "uint (word_of_int x :: u64) = x mod (2 * i63)" by (simp add: uint_word_of_int)
  with assms mod_turn [of x] show ?thesis
    unfolding sint_of_uint wrap64_def by (cases "x < - 2 * i63"; cases "x < 0"; cases "x < 2 * i63") simp_all
qed

lemma sint_plus: "sint (x + y :: u64) = wrap64 (sint x + sint y)"
proof -
  have "x + y = word_of_int (sint x + sint y)" by simp
  moreover have "- 3 * i63 \<le> sint x + sint y" "sint x + sint y < 3 * i63"
    using fits_sint [of x] fits_sint [of y] by (simp_all add: fits_def)
  ultimately show ?thesis using sint_word_of_int [of "sint x + sint y"] by (simp only:)
qed

lemma sint_minus: "sint (- x :: u64) = wrap64 (- sint x)"
proof -
  have "- x = word_of_int (- sint x)" by simp
  moreover have "- 3 * i63 \<le> - sint x" "- sint x < 3 * i63"
    using fits_sint [of x] by (simp_all add: fits_def)
  ultimately show ?thesis using sint_word_of_int [of "- sint x"] by (simp only:)
qed

lemma top_bit: "(w :: u64) AND INT64_MIN \<noteq> 0 \<longleftrightarrow> sint w < 0"
proof -
  have m: "INT64_MIN = 2 ^ 63" by simp
  have bit_m: "bit INT64_MIN n \<longleftrightarrow> n = 63" for n :: nat
    unfolding m bit_exp_iff by auto
  have "w AND INT64_MIN \<noteq> 0 \<longleftrightarrow> (\<exists>n. bit (w AND INT64_MIN) n)"
    using bit_eqI [of "w AND INT64_MIN" 0] by auto
  also have "\<dots> \<longleftrightarrow> bit w 63" unfolding bit_and_iff bit_m by blast
  also have "\<dots> \<longleftrightarrow> sint w < 0"
    by (simp add: sint_uint bit_unsigned_iff)
  finally show ?thesis .
qed

lemma top_bit_xor: "sint ((x :: u64) XOR y) < 0 \<longleftrightarrow> (sint x < 0) \<noteq> (sint y < 0)"
  "sint ((x :: u64) AND y) < 0 \<longleftrightarrow> sint x < 0 \<and> sint y < 0"
  by (simp_all add: sint_uint bit_simps)

text \<open>The code's test of the signs for an overflow.\<close>

lemma sign_test:
  "((x :: u64) XOR y XOR INT64_MIN) AND (x XOR (x + y)) AND INT64_MIN \<noteq> 0 \<longleftrightarrow> \<not> fits (sint x + sint y)"
proof -
  have m: "sint (INT64_MIN) < 0" by simp
  show ?thesis using fits_sint [of x] fits_sint [of y]
    unfolding and.assoc [symmetric] top_bit top_bit_xor m simp_thms sint_plus
    by (auto simp: wrap64_def fits_def)
qed

section \<open>The transform\<close>

text \<open>The last part of linear_transform_s64_to_s64, after the scaling.\<close>

definition shift_scaled :: "bool \<Rightarrow> u64 \<Rightarrow> u64 \<Rightarrow> u64 option" where
  "shift_scaled is_neg scaled basis2 =
     (if scaled AND INT64_MIN \<noteq> 0
      then (if is_neg \<and> basis2 <s 0 then None
            else if \<not> is_neg \<and> 0 \<le>s basis2 then None
            else if ABS basis2 \<le>s scaled AND INT64_MAX then None
            else Some ((if is_neg then - scaled else scaled) + basis2))
      else let scaled = (if is_neg then - scaled else scaled);
               res = scaled + basis2
           in if (scaled XOR basis2 XOR INT64_MIN) AND (scaled XOR res) AND INT64_MIN \<noteq> 0
              then None else Some res)"

text \<open>
  Two cases in which the code refuses a sum that fits: a sum that is exactly the least value after
  a scaled value below it, and the least value as the basis of a scaled value above the greatest.
\<close>

definition refused :: "int \<Rightarrow> int \<Rightarrow> bool" where
  "refused f b \<longleftrightarrow> (f \<le> - i63 \<and> f + b = - i63) \<or> (i63 \<le> f \<and> b = - i63)"

definition transform_result :: "int \<Rightarrow> int \<Rightarrow> u64 option" where
  "transform_result f b =
     (if fits (f + b) \<and> \<not> refused f b then Some (word_of_int (f + b)) else None)"

lemma low_bits:
  assumes "sint (scaled :: u64) < 0"
  shows "sint (scaled AND INT64_MAX) = uint scaled - i63"
proof -
  have u: "i63 \<le> uint scaled" using assms uint_range [of scaled] unfolding sint_of_uint by (smt (verit))
  have "scaled AND INT64_MAX = take_bit 63 scaled" by (simp add: take_bit_eq_mask mask_eq_exp_minus_1)
  then have "uint (scaled AND INT64_MAX) = uint scaled mod i63"
    by (simp only: unsigned_take_bit_eq) (simp add: take_bit_eq_mod)
  also have "\<dots> = (uint scaled - i63) mod i63" by simp
  also have "\<dots> = uint scaled - i63" using u uint_range [of scaled] by (intro mod_pos_pos_trivial) simp_all
  finally show ?thesis using uint_range [of scaled] by (simp add: sint_of_uint)
qed

lemma sint_ABS: "sint (ABS (x :: u64)) = (if sint x = - i63 then - i63 else \<bar>sint x\<bar>)"
  using fits_sint [of x] by (auto simp: ABS_def word_sless_alt sint_minus wrap64_def fits_def)

lemma shift_scaled_exact:
  "shift_scaled is_neg scaled b = transform_result (if is_neg then - uint scaled else uint scaled) (sint b)"
proof (cases "sint scaled < 0")
  case True
  let ?f = "if is_neg then - uint scaled else uint scaled"
  have u: "i63 \<le> uint scaled" "uint scaled < 2 * i63"
    using True uint_range [of scaled] unfolding sint_of_uint by (smt (verit))+
  have sum: "(if is_neg then - scaled else scaled) + b = word_of_int (?f + sint b)" by simp
  have le: "ABS b \<le>s scaled AND INT64_MAX \<longleftrightarrow> sint (ABS b) \<le> uint scaled - i63"
    by (simp only: word_sle_eq low_bits [OF True])
  show ?thesis
    unfolding shift_scaled_def top_bit if_P [OF True] sum le
    unfolding sint_ABS word_sless_alt word_sle_eq
    using u fits_sint [of b] by (auto simp: transform_result_def refused_def fits_def)
next
  case False
  then have u: "uint scaled < i63" "sint scaled = uint scaled"
    using uint_range [of scaled] unfolding sint_of_uint by (smt (verit))+
  let ?s = "if is_neg then - scaled else scaled"
  have s: "sint ?s = (if is_neg then - uint scaled else uint scaled)"
    using u uint_range [of scaled] by (smt (verit) sint_minus wrap64_def)
  have sum: "?s + b = word_of_int (sint ?s + sint b)" by simp
  have "\<not> refused (sint ?s) (sint b)"
    unfolding refused_def s using u uint_range [of scaled] by (smt (verit))
  then show ?thesis
    unfolding shift_scaled_def Let_def top_bit if_not_P [OF False] sign_test transform_result_def s [symmetric]
    using sum by auto
qed

text \<open>Rounding the magnitude up below zero and down above is rounding down.\<close>

lemma floor_magnitude:
  assumes "0 < d"
  shows "(if neg then - int (scaled_value m d neg) else int (scaled_value m d neg)) =
         (if neg then - int m else int m) div int d"
proof (cases "m mod d = 0")
  case True
  then show ?thesis using assms
    by (auto simp: scaled_value_def zdiv_int zdiv_zminus1_eq_if zmod_int [symmetric])
next
  case False
  then show ?thesis using assms
    by (auto simp: scaled_value_def zdiv_int zdiv_zminus1_eq_if zmod_int [symmetric])
qed

lemma abs_difference:
  "uint (if (v :: u64) <s b then b - v else v - b) = \<bar>sint v - sint b\<bar>"
proof -
  have d: "uint (x - y) = (sint x - sint y) mod (2 * i63)" for x y :: u64
  proof -
    have "x - y = word_of_int (sint x - sint y)" by simp
    then show ?thesis by (simp only: uint_word_of_int) simp
  qed
  show ?thesis using fits_sint [of v] fits_sint [of b] mod_turn(1) [of "sint b - sint v"] mod_turn(1) [of "sint v - sint b"]
    by (simp add: d word_sless_alt fits_def)
qed

lemma sint_u32_range: "- 2147483648 \<le> sint (n :: u32)" "sint (n :: u32) < 2147483648"
  using sint_greater_eq [of n] sint_less [of n] by simp_all

lemma uint_ABS32: "uint (ABS (n :: u32)) = \<bar>sint n\<bar>"
proof -
  have "ABS n = word_of_int \<bar>sint n\<bar>" by (simp add: ABS_def word_sless_alt)
  then show ?thesis using sint_u32_range [of n] by (simp only: uint_word_of_int) simp
qed

text \<open>The quotient that the transform is to compute.\<close>

definition scaled_quotient :: "bool \<Rightarrow> int \<Rightarrow> u32 \<Rightarrow> u32 \<Rightarrow> int" where
  "scaled_quotient invert_frac delta N D =
     (if invert_frac then (delta * uint D) div sint N else (delta * sint N) div uint D)"

lemma quotient_magnitudes:
  "(if (delta < 0) \<noteq> (sint N < 0) then - (\<bar>delta\<bar> * (if invert_frac then uint D else \<bar>sint N\<bar>))
    else \<bar>delta\<bar> * (if invert_frac then uint D else \<bar>sint N\<bar>)) div
   (if invert_frac then \<bar>sint N\<bar> else uint D) = scaled_quotient invert_frac delta N D"
  by (cases "delta < 0"; cases "sint N < 0"; cases invert_frac) (simp_all add: scaled_quotient_def abs_if div_minus_right)

lemma linear_transform_exact:
  assumes "if invert_frac then N \<noteq> 0 else D \<noteq> 0"
  shows "linear_transform_s64_to_s64 val basis1 N D invert_frac basis2 =
     transform_result (scaled_quotient invert_frac (sint val - sint basis1) N D) (sint basis2)"
proof -
  let ?\<delta> = "sint val - sint basis1"
  let ?a = "if val <s basis1 then basis1 - val else val - basis1"
  let ?num = "if invert_frac then D else ABS N" and ?den = "if invert_frac then ABS N else D"
  let ?neg = "(val <s basis1) \<noteq> (N <s 0)"
  let ?m = "unat ?a * unat ?num"
  let ?q = "scaled_value ?m (unat ?den) ?neg"
  have neg: "?neg \<longleftrightarrow> (?\<delta> < 0) \<noteq> (sint N < 0)" by (simp add: word_sless_alt)
  have N0: "sint N = 0 \<longleftrightarrow> N = 0" by (metis signed_0 signed_word_eqI)
  have den: "uint ?den = (if invert_frac then \<bar>sint N\<bar> else uint D)" by (simp add: uint_ABS32)
  have "uint ?den \<noteq> 0"
    using assms N0 unfolding den by (auto simp: uint_0_iff split: if_splits)
  then have d0: "?den \<noteq> 0" "0 < unat ?den" by (auto simp: unat_gt_0 simp flip: uint_0_iff)
  have "int ?m = \<bar>?\<delta>\<bar> * uint ?num" by (simp only: of_nat_mult of_nat_unat abs_difference) 
  also have "uint ?num = (if invert_frac then uint D else \<bar>sint N\<bar>)" by (simp add: uint_ABS32)
  finally have m: "int ?m = \<bar>?\<delta>\<bar> * (if invert_frac then uint D else \<bar>sint N\<bar>)" .
  have q: "(if ?neg then - int ?q else int ?q) = scaled_quotient invert_frac ?\<delta> N D"
  proof -
    have "(if ?neg then - int ?q else int ?q) = (if ?neg then - int ?m else int ?m) div uint ?den"
      using floor_magnitude [OF d0(2), of ?neg ?m] by (simp only: of_nat_unat)
    also have "\<dots> = scaled_quotient invert_frac ?\<delta> N D"
      unfolding m den neg by (rule quotient_magnitudes)
    finally show ?thesis .
  qed
  have "linear_transform_s64_to_s64 val basis1 N D invert_frac basis2 =
     (case scale_u64_to_u64 ?a ?num ?den ?neg of None \<Rightarrow> None | Some scaled \<Rightarrow> shift_scaled ?neg scaled basis2)"
    unfolding linear_transform_s64_to_s64_def shift_scaled_def Let_def
    by (cases "val <s basis1"; cases "N <s 0") (simp_all only: if_True if_False prod.case simp_thms)
  also have "\<dots> = (if ?q < two64 then shift_scaled ?neg (of_nat ?q) basis2 else None)"
    by (simp only: scale_exact [OF d0(1)] Let_def split: if_split) simp
  also have "\<dots> = transform_result (scaled_quotient invert_frac ?\<delta> N D) (sint basis2)"
  proof (cases "?q < two64")
    case True
    then have "uint (of_nat ?q :: u64) = int ?q" by (simp add: unsigned_of_nat take_bit_eq_mod)
    with True show ?thesis using q by (simp only: shift_scaled_exact if_True)
  next
    case False
    then have "\<not> fits (scaled_quotient invert_frac ?\<delta> N D + sint basis2)"
      unfolding q [symmetric] using fits_sint [of basis2] by (auto simp: fits_def)
    with False show ?thesis by (simp only: transform_result_def if_False simp_thms)
  qed
  finally show ?thesis .
qed

text \<open>C34: doForwardTransform and doReverseTransform return the exact image, rounded down, of every
  value, and false exactly when there is none or it does not fit in 64 bits, but for two corner
  cases (\<open>refused\<close>) in which they give up on an image that fits.  No intermediate result of the
  96-bit arithmetic is ever cut off.\<close>

theorem transforms_exact:
  "doForwardTransform t a =
     (if a_to_b_denom t = 0 then None
      else transform_result ((sint a - sint (a_zero t)) * sint (a_to_b_numer t) div uint (a_to_b_denom t))
             (sint (b_zero t))) \<and>
   doReverseTransform t b =
     (if a_to_b_numer t = 0 then None
      else transform_result ((sint b - sint (b_zero t)) * uint (a_to_b_denom t) div sint (a_to_b_numer t))
             (sint (a_zero t)))"
  by (simp add: doForwardTransform_def doReverseTransform_def linear_transform_exact scaled_quotient_def)

text \<open>The two corner cases: an image that is exactly the least value, and the least value as a zero.\<close>

theorem fitting_image_refused:
  "doForwardTransform \<lparr>a_zero = 0, b_zero = 0, a_to_b_numer = 2, a_to_b_denom = 1\<rparr> (- 0x4000000000000000) = None"
  "fits (- 0x4000000000000000 * 2)"
  by (simp_all add: doForwardTransform_def linear_transform_exact scaled_quotient_def transform_result_def
      refused_def fits_def sint_of_uint uint_minus_simple_alt)

section \<open>Reduction\<close>

lemma reduce_loop_gcd:
  "b \<noteq> 0 \<Longrightarrow> reduce_loop N D a b =
     (N div of_nat (gcd (unat a) (unat b)), D div of_nat (gcd (unat a) (unat b)))"
proof (induction N D a b rule: reduce_loop.induct)
  case (1 N D a b)
  show ?case
  proof (cases "a mod b = 0")
    case True
    then have "unat a mod unat b = 0" by (metis unat_0 unat_mod)
    then have "gcd (unat a) (unat b) = unat b" by (simp add: gcd_nat.absorb2 mod_0_imp_dvd)
    then show ?thesis using True 1(2) by (subst reduce_loop.simps) simp
  next
    case False
    have "gcd (unat b) (unat (a mod b)) = gcd (unat a) (unat b)"
      by (simp add: unat_mod gcd.commute gcd_red_nat [symmetric])
    then show ?thesis using 1 False by (subst reduce_loop.simps) (simp add: Let_def)
  qed
qed

lemma reduce_gcd:
  fixes N D :: "'a::len word"
  assumes "D \<noteq> 0"
  shows "reduce N D = (N div of_nat (gcd (unat N) (unat D)), D div of_nat (gcd (unat N) (unat D)))"
proof -
  have "unat (D div D) = unat (1 :: 'a word)" using assms by (simp add: unat_div unat_eq_0)
  then have "D div D = 1" by (simp only: word_unat_eq_iff)
  then show ?thesis
    using assms reduce_loop_gcd [of D N D N] reduce_loop_gcd [of N N D D]
    by (auto simp: reduce_def gcd.commute)
qed

text \<open>
  reduce ends, with the same fraction in lowest terms.
\<close>

theorem reduce_lowest_terms:
  fixes N D :: "'a::len word"
  assumes "D \<noteq> 0" "reduce N D = (n, d)"
  shows "unat n * unat D = unat N * unat d \<and> coprime (unat n) (unat d) \<and> d \<noteq> 0"
proof -
  let ?g = "gcd (unat N) (unat D)"
  have D0: "unat D \<noteq> 0" using assms(1) by (simp add: unat_eq_0)
  then have "?g \<le> unat D" by (simp add: dvd_imp_le)
  then have "?g < 2 ^ LENGTH('a)" by (rule le_less_trans) (rule unsigned_less)
  then have "unat (of_nat ?g :: 'a word) = ?g" by (simp add: unsigned_of_nat take_bit_nat_eq_self_iff)
  then have n: "unat n = unat N div ?g" and d: "unat d = unat D div ?g"
    using assms(2) reduce_gcd [OF assms(1), of N] by (auto simp: unat_div)
  have "coprime (unat N div ?g) (unat D div ?g)" using D0 by (simp add: div_gcd_coprime)
  moreover have "unat N div ?g * unat D = unat N * (unat D div ?g)"
    by (metis dvd_div_mult dvd_div_mult_self gcd_dvd1 gcd_dvd2 mult.commute div_mult_swap)
  moreover have "d \<noteq> 0" using d D0 by (metis dvd_div_eq_0_iff gcd_dvd2 unat_0)
  ultimately show ?thesis by (simp add: n d)
qed

end
