(* ===== verification/Nbaio.thy ===== *)
theory Nbaio
  imports Prelude "HOL-Library.Log_Nat"
begin

text \<open>
  The ports of libnbaio (libs/libnbaio/NBAIO.cpp, roundup.cpp and include/media/nbaio/NBAIO.h):
  the formats that a port can have, how a format is negotiated, and the copying of frames.

  A frame is a value of the type \<open>'f\<close>, and a buffer of frames a list.  memcpy takes its place and
  its length in bytes, frames shifted left by \<open>mBitShift\<close>; this is a number of frames because the size
  of a frame is \<open>1 << mBitShift\<close> for every valid format.  \<open>copy_frames\<close> is such a memcpy, and None
  when it would leave one of the buffers.
\<close>

section \<open>Formats\<close>

type_synonym NBAIO_Format = u32

abbreviation Format_Invalid :: NBAIO_Format where "Format_Invalid \<equiv> 0"
abbreviation Format_SR_8000 :: NBAIO_Format where "Format_SR_8000 \<equiv> 0"
abbreviation Format_SR_11025 :: NBAIO_Format where "Format_SR_11025 \<equiv> 1"
abbreviation Format_SR_16000 :: NBAIO_Format where "Format_SR_16000 \<equiv> 2"
abbreviation Format_SR_22050 :: NBAIO_Format where "Format_SR_22050 \<equiv> 3"
abbreviation Format_SR_24000 :: NBAIO_Format where "Format_SR_24000 \<equiv> 4"
abbreviation Format_SR_32000 :: NBAIO_Format where "Format_SR_32000 \<equiv> 5"
abbreviation Format_SR_44100 :: NBAIO_Format where "Format_SR_44100 \<equiv> 6"
abbreviation Format_SR_48000 :: NBAIO_Format where "Format_SR_48000 \<equiv> 7"
abbreviation Format_SR_Mask :: NBAIO_Format where "Format_SR_Mask \<equiv> 7"
abbreviation Format_C_1 :: NBAIO_Format where "Format_C_1 \<equiv> 0x08"
abbreviation Format_C_2 :: NBAIO_Format where "Format_C_2 \<equiv> 0x10"
abbreviation Format_C_Mask :: NBAIO_Format where "Format_C_Mask \<equiv> 0x18"

definition Format_sampleRate :: "NBAIO_Format \<Rightarrow> u32" where
  "Format_sampleRate format =
     (if format = Format_Invalid then 0
      else let sr = format AND Format_SR_Mask in
        if sr = Format_SR_8000 then 8000
        else if sr = Format_SR_11025 then 11025
        else if sr = Format_SR_16000 then 16000
        else if sr = Format_SR_22050 then 22050
        else if sr = Format_SR_24000 then 24000
        else if sr = Format_SR_32000 then 32000
        else if sr = Format_SR_44100 then 44100
        else if sr = Format_SR_48000 then 48000
        else 0)"

definition Format_channelCount :: "NBAIO_Format \<Rightarrow> u32" where
  "Format_channelCount format =
     (if format = Format_Invalid then 0
      else let c = format AND Format_C_Mask in
        if c = Format_C_1 then 1 else if c = Format_C_2 then 2 else 0)"

definition Format_frameSize :: "NBAIO_Format \<Rightarrow> u32" where
  "Format_frameSize format = Format_channelCount format * 2"

definition Format_frameBitShift :: "NBAIO_Format \<Rightarrow> u32" where
  "Format_frameBitShift format = Format_channelCount format"

definition format_rate :: "u32 \<Rightarrow> NBAIO_Format option" where
  "format_rate sampleRate =
     (if sampleRate = 8000 then Some Format_SR_8000
      else if sampleRate = 11025 then Some Format_SR_11025
      else if sampleRate = 16000 then Some Format_SR_16000
      else if sampleRate = 22050 then Some Format_SR_22050
      else if sampleRate = 24000 then Some Format_SR_24000
      else if sampleRate = 32000 then Some Format_SR_32000
      else if sampleRate = 44100 then Some Format_SR_44100
      else if sampleRate = 48000 then Some Format_SR_48000
      else None)"

definition Format_from_SR_C :: "u32 \<Rightarrow> u32 \<Rightarrow> NBAIO_Format" where
  "Format_from_SR_C sampleRate channelCount =
     (case format_rate sampleRate of
        None \<Rightarrow> Format_Invalid
      | Some format \<Rightarrow>
          if channelCount = 1 then format OR Format_C_1
          else if channelCount = 2 then format OR Format_C_2
          else Format_Invalid)"

section \<open>Ports\<close>

text \<open>The errors, as a \<open>ssize_t\<close> of 32 bits reads them.\<close>

abbreviation NEGOTIATE :: int where "NEGOTIATE \<equiv> - 2147483632"
abbreviation OVERRUN :: int where "OVERRUN \<equiv> - 2147483631"

record nbaio_port =
  mNegotiated :: bool
  mFormat :: NBAIO_Format
  mBitShift :: u32

definition new_port :: "NBAIO_Format \<Rightarrow> nbaio_port" where
  "new_port format =
     \<lparr>mNegotiated = False, mFormat = format, mBitShift = Format_frameBitShift format\<rparr>"

definition port_format :: "'p nbaio_port_scheme \<Rightarrow> NBAIO_Format" where
  "port_format p = (if mNegotiated p then mFormat p else Format_Invalid)"

fun find_offer :: "NBAIO_Format \<Rightarrow> nat \<Rightarrow> NBAIO_Format list \<Rightarrow> nat option" where
  "find_offer format i [] = None"
| "find_offer format i (offer # offers) =
     (if offer = format then Some i else find_offer format (i + 1) offers)"

text \<open>
  \<open>negotiate\<close>: its result, the new number of counter-offers, the counter-offers written (None where
  nothing is written), and the port.
\<close>

definition negotiate ::
    "NBAIO_Format list \<Rightarrow> nat \<Rightarrow> 'p nbaio_port_scheme \<Rightarrow>
     int \<times> nat \<times> NBAIO_Format option \<times> 'p nbaio_port_scheme" where
  "negotiate offers numCounterOffers p =
     (if mFormat p \<noteq> Format_Invalid
      then case find_offer (mFormat p) 0 offers of
             Some i \<Rightarrow> (int i, numCounterOffers, None, p\<lparr>mNegotiated := True\<rparr>)
           | None \<Rightarrow> (NEGOTIATE, 1, if numCounterOffers > 0 then Some (mFormat p) else None, p)
      else (NEGOTIATE, 0, None, p))"

section \<open>Buffers of frames\<close>

definition copy_frames :: "nat \<Rightarrow> 'f list \<Rightarrow> nat \<Rightarrow> nat \<Rightarrow> 'f list \<Rightarrow> 'f list option" where
  "copy_frames doff src soff n dst =
     (if doff + n \<le> length dst \<and> soff + n \<le> length src
      then Some (take doff dst @ take n (drop soff src) @ drop (doff + n) dst) else None)"

text \<open>
  How many frames \<open>malloc(maxFrames * Format_frameSize(format))\<close> has room for; the product is taken
  modulo \<open>2^32\<close>.
\<close>

definition malloc_frames :: "u32 \<Rightarrow> NBAIO_Format \<Rightarrow> nat" where
  "malloc_frames maxFrames format =
     unat (maxFrames * Format_frameSize format) div unat (Format_frameSize format)"

text \<open>\<open>__builtin_clz\<close> of a value that is not 0.\<close>

definition count_leading_zeros :: "u32 \<Rightarrow> nat" where
  "count_leading_zeros v = length (takeWhile (\<lambda>i. \<not> bit v i) (rev [0..<32]))"

definition roundup :: "u32 \<Rightarrow> u32" where
  "roundup v =
     (let v = (if v = 0 then 1 else v);
          lz = count_leading_zeros v;
          rounded = drop_bit lz 0x80000000
      in if v > rounded \<and> lz > 0 then push_bit 1 rounded else rounded)"

section \<open>Lemmas\<close>

lemma copy_frames_Some:
  assumes "doff + n \<le> length dst" "soff + n \<le> length src"
  shows "copy_frames doff src soff n dst = Some (take doff dst @ take n (drop soff src) @ drop (doff + n) dst)"
  using assms by (simp add: copy_frames_def)

lemma length_copy_frames: "copy_frames doff src soff n dst = Some dst' \<Longrightarrow> length dst' = length dst"
  by (auto simp: copy_frames_def split: if_splits)

lemma nth_copy_frames:
  assumes "copy_frames doff src soff n dst = Some dst'" "i < length dst"
  shows "dst' ! i = (if doff \<le> i \<and> i < doff + n then src ! (soff + (i - doff)) else dst ! i)"
  using assms by (auto simp: copy_frames_def nth_append split: if_splits)

text \<open>The size of a frame is what the shifts take it for.\<close>

lemma frame_size_is_shift:
  assumes "Format_channelCount format \<noteq> 0"
  shows "Format_frameSize format = push_bit (unat (Format_frameBitShift format)) 1"
  using assms
  by (auto simp: Format_frameSize_def Format_frameBitShift_def Format_channelCount_def Let_def split: if_splits)

lemma format_from_SR_C:
  assumes "Format_from_SR_C sampleRate channelCount \<noteq> Format_Invalid"
  shows "Format_sampleRate (Format_from_SR_C sampleRate channelCount) = sampleRate"
    "Format_channelCount (Format_from_SR_C sampleRate channelCount) = channelCount"
  using assms
  by (auto simp: Format_from_SR_C_def format_rate_def Format_sampleRate_def Format_channelCount_def Let_def
      split: if_splits option.splits)

lemma clz_bound:
  assumes v: "v \<noteq> 0" and m: "2 ^ m \<le> unat v" "unat v < 2 ^ Suc m"
  shows "m < 32" "count_leading_zeros v = 31 - m"
proof -
  have "unat v < 2 ^ 32" using unsigned_less [of v, where ?'a = nat] by simp
  with m(1) have "(2 :: nat) ^ m < 2 ^ 32" by linarith
  then show m32: "m < 32" by (simp only: power_strict_increasing_iff)
  have bit: "bit v i \<longleftrightarrow> odd (unat v div 2 ^ i)" if "i < 32" for i
  proof -
    have "bit v i \<longleftrightarrow> bit (unat v) i" using that by (simp add: bit_unsigned_iff)
    then show ?thesis by (simp add: bit_iff_odd)
  qed
  have "unat v div 2 ^ m = 1" using m by (simp add: div_nat_eqI)
  then have "bit v m" using bit [OF m32] by simp
  moreover have "\<not> bit v i" if "m < i" "i < 32" for i
  proof -
    have "unat v < 2 ^ i" using m(2) that(1) by (meson Suc_leI less_le_trans one_le_numeral power_increasing)
    then show ?thesis using bit [OF that(2)] by simp
  qed
  moreover have "[0..<32] = [0..<m] @ m # [Suc m..<32]"
    using m32 upt_add_eq_append [of 0 m "32 - m"] upt_conv_Cons [of m 32] by simp
  then have "rev [0..<32] = rev [Suc m..<32] @ m # rev [0..<m]" by simp
  ultimately show "count_leading_zeros v = 31 - m"
    unfolding count_leading_zeros_def by (simp only: takeWhile_append) auto
qed

text \<open>roundup gives the least power of 2 that is not less, up to \<open>2^31\<close>.\<close>

lemma roundup_ceillog2:
  assumes "unat v \<le> 2 ^ 31"
  shows "unat (roundup v) = 2 ^ ceillog2 (unat v)"
proof -
  define w where "w = (if v = 0 then 1 else v)"
  have w0: "w \<noteq> 0" "0 < unat w" and w_le: "unat w \<le> 2 ^ 31"
    using assms by (auto simp: w_def unat_gt_0)
  have cw: "ceillog2 (unat v) = ceillog2 (unat w)" by (simp add: w_def)
  define m where "m = floorlog 2 (unat w) - 1"
  have m: "2 ^ m \<le> unat w" "unat w < 2 ^ Suc m"
    using floorlog_bounds [of "unat w" 2] floorlog_eq_zero_iff [of 2 "unat w"] w0 by (auto simp: m_def)
  have m32: "m < 32" and lz: "count_leading_zeros w = 31 - m" using clz_bound [OF w0(1) m] by auto
  have r: "drop_bit (31 - m) (0x80000000 :: u32) = 2 ^ m"
  proof -
    have "(0x80000000 :: u32) = push_bit (31 - m) (2 ^ m)"
      using m32 by (simp add: push_bit_eq_mult flip: power_add)
    moreover have "drop_bit (31 - m) (push_bit (31 - m) (2 ^ m :: u32)) = 2 ^ m"
      using m32 by (intro bit_word_eqI) (auto simp: bit_simps)
    ultimately show ?thesis by (simp only:)
  qed
  have ur: "unat (2 ^ k :: u32) = 2 ^ k" if "k < 32" for k
  proof -
    have "(2 :: u32) ^ k = of_nat (2 ^ k)" by simp
    moreover have "(2 :: nat) ^ k < 2 ^ 32" using that by (rule power_strict_increasing) simp
    ultimately show ?thesis using that by (simp only: unsigned_of_nat) (simp add: take_bit_nat_eq_self_iff)
  qed
  have round: "roundup v = (if w > 2 ^ m \<and> 31 - m > 0 then push_bit 1 (2 ^ m) else 2 ^ m)"
    unfolding roundup_def w_def [symmetric] Let_def lz r ..
  show ?thesis
  proof (cases "unat w = 2 ^ m")
    case True
    then have "roundup v = 2 ^ m" using round ur [OF m32] by (simp add: word_less_nat_alt)
    then show ?thesis using True ur [OF m32] by (simp add: cw)
  next
    case False
    then have "m < 31" using m(1) m32 w_le by (cases "m = 31") auto
    then have "roundup v = 2 ^ Suc m"
      using round False m(1) ur [OF m32] by (simp add: word_less_nat_alt push_bit_eq_mult)
    moreover have "ceillog2 (unat w) = Suc m" using False m by (intro ceillog2_eqI) auto
    ultimately show ?thesis using ur [of "Suc m"] \<open>m < 31\<close> by (simp add: cw)
  qed
qed

end
