(* ===== verification/Pipe.thy ===== *)
theory Pipe
  imports Nbaio
begin

text \<open>
  The pipe (libs/libnbaio/Pipe.cpp and PipeReader.cpp): one writer, any number of readers, and a
  writer that never waits, so that a slow reader loses frames.

  \<open>mFront\<close> and \<open>mRear\<close> are 32-bit counters that wrap around.  \<open>malloc\<close> is taken to succeed, with
  what the memory holds as an argument.  The memcpys of a read are a function of their own, because
  the writer may run before and after them.
\<close>

record 'f pipe = nbaio_port +
  mMaxFrames :: u32
  mBuffer :: "'f list"
  mRear :: u32
  mReaders :: u32
  mFramesWritten :: u32

definition new_Pipe :: "u32 \<Rightarrow> NBAIO_Format \<Rightarrow> (nat \<Rightarrow> 'f) \<Rightarrow> 'f pipe" where
  "new_Pipe maxFrames format junk =
     \<lparr>mNegotiated = False, mFormat = format, mBitShift = Format_frameBitShift format,
      mMaxFrames = roundup maxFrames, mBuffer = map junk [0..<malloc_frames (roundup maxFrames) format],
      mRear = 0, mReaders = 0, mFramesWritten = 0\<rparr>"

definition Pipe_availableToWrite :: "'f pipe \<Rightarrow> int" where
  "Pipe_availableToWrite p = sint (mMaxFrames p)"

definition pipe_written :: "u32 \<Rightarrow> 'f list \<Rightarrow> 'f pipe \<Rightarrow> int \<times> 'f pipe" where
  "pipe_written written buf p =
     (sint written,
      p\<lparr>mBuffer := buf, mRear := written + mRear p, mFramesWritten := mFramesWritten p + written\<rparr>)"

definition Pipe_write :: "'f list \<Rightarrow> u32 \<Rightarrow> 'f pipe \<Rightarrow> (int \<times> 'f pipe) option" where
  "Pipe_write buffer count p =
     (if \<not> mNegotiated p then Some (NEGOTIATE, p)
      else
        let rear = mRear p AND (mMaxFrames p - 1);
            written = mMaxFrames p - rear;
            written = (if written > count then count else written)
        in case copy_frames (unat rear) buffer 0 (unat written) (mBuffer p) of
             None \<Rightarrow> None
           | Some buf \<Rightarrow>
               if rear + written = mMaxFrames p
               then let count = count - written;
                        count = (if count > rear then rear else count)
                    in if count > 0
                       then case copy_frames 0 buffer (unat written) (unat count) buf of
                              None \<Rightarrow> None
                            | Some buf \<Rightarrow> Some (pipe_written (written + count) buf p)
                       else Some (pipe_written written buf p)
               else Some (pipe_written written buf p))"

section \<open>A reader\<close>

record pipe_reader = nbaio_port +
  mFront :: u32
  mFramesOverrun :: u32
  mOverruns :: u32
  mFramesRead :: u32

definition new_PipeReader :: "'f pipe \<Rightarrow> pipe_reader \<times> 'f pipe" where
  "new_PipeReader p =
     (\<lparr>mNegotiated = False, mFormat = mFormat p, mBitShift = Format_frameBitShift (mFormat p),
       mFront = mRear p, mFramesOverrun = 0, mOverruns = 0, mFramesRead = 0\<rparr>,
      p\<lparr>mReaders := mReaders p + 1\<rparr>)"

text \<open>The destructor; its assertion that there was a reader may fail.\<close>

definition delete_PipeReader :: "'f pipe \<Rightarrow> 'f pipe option" where
  "delete_PipeReader p =
     (if 0 <s mReaders p then Some (p\<lparr>mReaders := mReaders p - 1\<rparr>) else None)"

definition PipeReader_availableToRead :: "'f pipe \<Rightarrow> pipe_reader \<Rightarrow> int \<times> pipe_reader" where
  "PipeReader_availableToRead p r =
     (if \<not> mNegotiated r then (NEGOTIATE, r)
      else
        let rear = mRear p;
            avail = rear - mFront r
        in if avail > mMaxFrames p
           then let oldFront = mFront r;
                    front = rear - mMaxFrames p + drop_bit 4 (mMaxFrames p)
                in (OVERRUN, r\<lparr>mFront := front, mFramesOverrun := mFramesOverrun r + (front - oldFront),
                              mOverruns := mOverruns r + 1\<rparr>)
           else (sint avail, r))"

text \<open>The memcpys of read: how many frames, and the destination.\<close>

definition read_frames :: "u32 \<Rightarrow> 'f pipe \<Rightarrow> pipe_reader \<Rightarrow> 'f list \<Rightarrow> (u32 \<times> 'f list) option" where
  "read_frames count p r buffer =
     (let front = mFront r AND (mMaxFrames p - 1);
          red = mMaxFrames p - front;
          red = (if red > count then count else red)
      in case copy_frames 0 (mBuffer p) (unat front) (unat red) buffer of
           None \<Rightarrow> None
         | Some buffer \<Rightarrow>
             if front + red = mMaxFrames p
             then let count = count - red;
                      count = (if count > front then front else count)
                  in if count > 0
                     then map_option (\<lambda>buffer. (red + count, buffer))
                            (copy_frames (unat red) (mBuffer p) 0 (unat count) buffer)
                     else Some (red, buffer)
             else Some (red, buffer))"

definition frames_read :: "u32 \<Rightarrow> pipe_reader \<Rightarrow> pipe_reader" where
  "frames_read red r = r\<lparr>mFront := mFront r + red, mFramesRead := mFramesRead r + red\<rparr>"

definition PipeReader_read ::
    "'f list \<Rightarrow> u32 \<Rightarrow> 'f pipe \<Rightarrow> pipe_reader \<Rightarrow> (int \<times> 'f list \<times> pipe_reader) option" where
  "PipeReader_read buffer count p r =
     (let (avail, r) = PipeReader_availableToRead p r in
      if avail \<le> 0 then Some (avail, buffer, r)
      else let count = (if unat count > nat avail then of_int avail else count) in
        case read_frames count p r buffer of
          None \<Rightarrow> None
        | Some (red, buffer) \<Rightarrow> Some (sint red, buffer, frames_read red r))"

end
