(* ===== verification/RingBuffer.thy ===== *)
theory RingBuffer
  imports Nbaio
begin

text \<open>
  Circular buffers whose positions are counters modulo a power of 2, as both pipes of libnbaio have
  them: the mask of a counter, and what the two memcpys of a transfer that passes the end do.
\<close>

section \<open>Counters\<close>

text \<open>A mask takes the remainder, also of a counter that has wrapped around.\<close>

lemma unat_and_mask:
  assumes "unat (sz :: u32) = 2 ^ k" "k < 32"
  shows "unat (x AND (sz - 1)) = unat x mod 2 ^ k"
proof -
  have "sz = of_nat (2 ^ k)" using assms(1) by (metis of_nat_unat ucast_id)
  then have "x AND (sz - 1) = take_bit k x" by (simp add: take_bit_eq_mask mask_eq_exp_minus_1)
  moreover have "unat (take_bit k x) = take_bit k (unat x)" using assms(2) by (simp add: unsigned_take_bit_eq)
  ultimately show ?thesis by (simp add: take_bit_eq_mod)
qed

lemma unat_of_nat_mask:
  assumes "unat (sz :: u32) = 2 ^ k" "k < 32"
  shows "unat (of_nat n AND (sz - 1)) = n mod 2 ^ k"
proof -
  have "(2 :: nat) ^ k dvd 2 ^ 32" using assms(2) by (intro le_imp_power_dvd) simp
  then show ?thesis
    by (simp only: unat_and_mask [OF assms] unsigned_of_nat take_bit_eq_mod) (simp add: mod_mod_cancel)
qed

text \<open>The places that malloc gives to a ring whose size in bytes does not wrap around.\<close>

lemma malloc_ring:
  assumes "Format_channelCount format \<noteq> 0" "unat n \<le> 2 ^ 30"
    "unat (roundup n) * unat (Format_frameSize format) < 2 ^ 32"
  shows "malloc_frames (roundup n) format = 2 ^ ceillog2 (unat n)" "unat (roundup n) = 2 ^ ceillog2 (unat n)"
    "ceillog2 (unat n) \<le> 30"
proof -
  let ?N = "unat (roundup n)" and ?f = "unat (Format_frameSize format)"
  have fs: "2 \<le> ?f"
    using assms(1) by (auto simp: Format_frameSize_def Format_channelCount_def Let_def split: if_splits)
  show N: "?N = 2 ^ ceillog2 (unat n)" using assms(2) by (intro roundup_ceillog2) simp
  have "?N * 2 \<le> ?N * ?f" using fs by simp
  also have "\<dots> < 2 ^ 32" by (rule assms(3))
  finally have "(2 :: nat) ^ Suc (ceillog2 (unat n)) < 2 ^ 32" unfolding N by simp
  then show "ceillog2 (unat n) \<le> 30" by (simp only: power_strict_increasing_iff)
  have "unat (roundup n * Format_frameSize format) = ?N * ?f"
    using assms(3) by (simp add: unat_word_ariths)
  then show "malloc_frames (roundup n) format = 2 ^ ceillog2 (unat n)"
    using fs N by (simp add: malloc_frames_def)
qed

text \<open>The distance of two counters.\<close>

lemma unat_counter_diff:
  assumes "a \<le> b" "b - a < 2 ^ 32"
  shows "unat (of_nat b - of_nat a :: u32) = b - a"
proof -
  have "(of_nat b - of_nat a :: u32) = of_nat (b - a)" using assms(1) by simp
  then show ?thesis using assms(2) by (simp only: unsigned_of_nat) (simp add: take_bit_nat_eq_self_iff)
qed

lemma unat_small: "n < 2 ^ 32 \<Longrightarrow> unat (of_nat n :: u32) = n"
  by (simp add: unsigned_of_nat take_bit_nat_eq_self_iff)

section \<open>Transfers\<close>

text \<open>Place \<open>j\<close> of a ring of \<open>N\<close> places, counted from position \<open>n\<close> of the stream.\<close>

definition ring_offset :: "nat \<Rightarrow> nat \<Rightarrow> nat \<Rightarrow> nat" where
  "ring_offset N n j = (if n mod N \<le> j then j - n mod N else j + N - n mod N)"

definition ring_store :: "'f list \<Rightarrow> nat \<Rightarrow> 'f list \<Rightarrow> nat \<Rightarrow> 'f list" where
  "ring_store buf n xs w =
     map (\<lambda>j. if ring_offset (length buf) n j < w then xs ! ring_offset (length buf) n j else buf ! j)
       [0..<length buf]"

definition ring_load :: "'f list \<Rightarrow> nat \<Rightarrow> nat \<Rightarrow> 'f list" where
  "ring_load buf n r = map (\<lambda>i. buf ! ((n + i) mod length buf)) [0..<r]"

lemma length_ring_store [simp]: "length (ring_store buf n xs w) = length buf"
  by (simp add: ring_store_def)

lemma mod_step:
  fixes N :: nat
  assumes "0 < N" "n \<le> i" "i < n + N"
  shows "i mod N = (if n mod N + (i - n) < N then n mod N + (i - n) else n mod N + (i - n) - N)"
proof -
  obtain m where m: "n mod N = m" "m < N" using assms(1) by simp
  have "i mod N = (m + (i - n)) mod N"
    unfolding m(1) [symmetric] using assms(2) by (metis le_add_diff_inverse mod_add_left_eq)
  then show ?thesis using m assms(2,3) by (simp add: mod_if)
qed

lemma ring_offset_mod:
  assumes "0 < N"
  shows "n \<le> i \<Longrightarrow> i < n + N \<Longrightarrow> ring_offset N n (i mod N) = i - n"
    "i < n \<Longrightarrow> n \<le> i + N \<Longrightarrow> ring_offset N n (i mod N) = N - (n - i)"
proof -
  obtain m where m: "n mod N = m" "m < N" using assms by simp
  obtain l where l: "i mod N = l" "l < N" using assms by simp
  show "ring_offset N n (i mod N) = i - n" if "n \<le> i" "i < n + N"
    using mod_step [OF assms that] m l that by (auto simp: ring_offset_def split: if_splits)
  show "ring_offset N n (i mod N) = N - (n - i)" if "i < n" "n \<le> i + N"
  proof (cases "n = i + N")
    case True
    then show ?thesis by (simp add: ring_offset_def)
  next
    case False
    with that have "i \<le> n" "n < i + N" by auto
    from mod_step [OF assms this] m l that show ?thesis
      by (auto simp: ring_offset_def split: if_splits)
  qed
qed

lemma nth_ring_store:
  assumes "0 < length buf"
  shows "n \<le> i \<Longrightarrow> i < n + w \<Longrightarrow> w \<le> length buf \<Longrightarrow> ring_store buf n xs w ! (i mod length buf) = xs ! (i - n)"
    "i < n \<Longrightarrow> n + w \<le> i + length buf \<Longrightarrow> ring_store buf n xs w ! (i mod length buf) = buf ! (i mod length buf)"
proof -
  have nth: "ring_store buf n xs w ! (i mod length buf) =
      (if ring_offset (length buf) n (i mod length buf) < w
       then xs ! ring_offset (length buf) n (i mod length buf) else buf ! (i mod length buf))"
    using assms by (simp add: ring_store_def)
  show "n \<le> i \<Longrightarrow> i < n + w \<Longrightarrow> w \<le> length buf \<Longrightarrow> ring_store buf n xs w ! (i mod length buf) = xs ! (i - n)"
    unfolding nth using ring_offset_mod(1) [OF assms, of n i] by auto
  show "i < n \<Longrightarrow> n + w \<le> i + length buf \<Longrightarrow> ring_store buf n xs w ! (i mod length buf) = buf ! (i mod length buf)"
    unfolding nth using ring_offset_mod(2) [OF assms, of i n] by auto
qed

text \<open>One memcpy when the transfer does not pass the end, two when it does.\<close>

lemma store_one:
  assumes "0 < length buf" "w \<le> length buf - n mod length buf" "w \<le> length xs"
  shows "copy_frames (n mod length buf) xs 0 w buf = Some (ring_store buf n xs w)"
proof -
  obtain m where m: "n mod length buf = m" "m < length buf" using assms(1) by simp
  have "copy_frames m xs 0 w buf \<noteq> None" unfolding copy_frames_def using assms m by simp
  then obtain b where b: "copy_frames m xs 0 w buf = Some b" by blast
  have "b = ring_store buf n xs w"
  proof (rule nth_equalityI)
    show "length b = length (ring_store buf n xs w)" using length_copy_frames [OF b] by simp
    show "b ! j = ring_store buf n xs w ! j" if "j < length b" for j
      using that length_copy_frames [OF b] nth_copy_frames [OF b, of j] assms(2,3) m
      by (auto simp: ring_store_def ring_offset_def)
  qed
  with b m show ?thesis by simp
qed

lemma store_two:
  assumes "0 < length buf" "p = length buf - n mod length buf" "p \<le> w" "w \<le> length buf" "w \<le> length xs"
  shows "\<exists>b. copy_frames (n mod length buf) xs 0 p buf = Some b \<and> length b = length buf \<and>
             copy_frames 0 xs p (w - p) b = Some (ring_store buf n xs w)"
proof -
  obtain m where m: "n mod length buf = m" "m < length buf" using assms(1) by simp
  have one: "copy_frames (n mod length buf) xs 0 p buf = Some (ring_store buf n xs p)"
    using assms by (intro store_one) auto
  let ?b = "ring_store buf n xs p"
  have "copy_frames 0 xs p (w - p) ?b \<noteq> None"
    unfolding copy_frames_def using assms(2-5) m by auto
  then obtain c where c: "copy_frames 0 xs p (w - p) ?b = Some c" by blast
  have "c = ring_store buf n xs w"
  proof (rule nth_equalityI)
    show "length c = length (ring_store buf n xs w)" using length_copy_frames [OF c] by simp
    show "c ! j = ring_store buf n xs w ! j" if "j < length c" for j
      using that length_copy_frames [OF c] nth_copy_frames [OF c, of j] assms(2-5) m
      by (auto simp: ring_store_def ring_offset_def add.commute)
  qed
  with one c show ?thesis by simp
qed

lemma load_one:
  assumes "0 < length buf" "r \<le> length buf - n mod length buf" "r \<le> length dst"
  shows "copy_frames 0 buf (n mod length buf) r dst = Some (ring_load buf n r @ drop r dst)"
proof -
  obtain m where m: "n mod length buf = m" "m < length buf" using assms(1) by simp
  have near: "(n + i) mod length buf = m + i" if "i < r" for i
    using that assms(1,2) m mod_step [of "length buf" n "n + i"] by simp
  have "take r (drop m buf) = ring_load buf n r"
    using assms(2) m by (intro nth_equalityI) (auto simp: ring_load_def near)
  moreover have "m + r \<le> length buf" using assms(2) m by simp
  ultimately show ?thesis using assms(3) by (simp add: copy_frames_def m)
qed

lemma load_two:
  assumes "0 < length buf" "p = length buf - n mod length buf" "p \<le> r" "r \<le> length buf" "r \<le> length dst"
  shows "\<exists>d. copy_frames 0 buf (n mod length buf) p dst = Some d \<and> length d = length dst \<and>
             copy_frames p buf 0 (r - p) d = Some (ring_load buf n r @ drop r dst)"
proof -
  obtain m where m: "n mod length buf = m" "m < length buf" using assms(1) by simp
  let ?d = "ring_load buf n p @ drop p dst"
  have one: "copy_frames 0 buf (n mod length buf) p dst = Some ?d"
    using assms by (intro load_one) auto
  have len: "length (ring_load buf n k) = k" for k by (simp add: ring_load_def)
  have pr: "r - p \<le> length buf" using assms(4) by simp
  have "ring_load buf n p @ take (r - p) buf = ring_load buf n r"
  proof (rule nth_equalityI)
    show "length (ring_load buf n p @ take (r - p) buf) = length (ring_load buf n r)"
      using pr assms(3) by (simp add: len)
    fix i assume "i < length (ring_load buf n p @ take (r - p) buf)"
    then have i: "i < r" using pr assms(3) by (simp add: len)
    have "(n + i) mod length buf = i - p" if "p \<le> i"
      using that i m assms(1,2,4) mod_step [of "length buf" n "n + i"] by (auto split: if_splits)
    then show "(ring_load buf n p @ take (r - p) buf) ! i = ring_load buf n r ! i"
      using i by (auto simp: ring_load_def nth_append)
  qed
  moreover have "copy_frames p buf 0 (r - p) ?d = Some (ring_load buf n p @ take (r - p) buf @ drop r dst)"
    using assms(3,5) pr by (simp add: copy_frames_def len)
  moreover have "length ?d = length dst" using assms(3,5) by (simp add: len)
  ultimately show ?thesis using one by (metis append.assoc)
qed

text \<open>The part of a stream that a ring still holds.\<close>

definition ring_holds :: "nat \<Rightarrow> 'f list \<Rightarrow> 'f list \<Rightarrow> bool" where
  "ring_holds lo buf ws \<longleftrightarrow> (\<forall>i. lo \<le> i \<and> i < length ws \<longrightarrow> buf ! (i mod length buf) = ws ! i)"

lemma ring_holds_mono: "ring_holds lo buf ws \<Longrightarrow> lo \<le> lo' \<Longrightarrow> ring_holds lo' buf ws"
  by (simp add: ring_holds_def)

lemma ring_holds_store:
  assumes "ring_holds lo buf ws" "0 < length buf" "w \<le> length buf" "w \<le> length xs"
    "lo \<le> lo'" "length ws + w \<le> lo' + length buf"
  shows "ring_holds lo' (ring_store buf (length ws) xs w) (ws @ take w xs)"
  unfolding ring_holds_def
proof (intro allI impI)
  fix i assume i: "lo' \<le> i \<and> i < length (ws @ take w xs)"
  show "ring_store buf (length ws) xs w ! (i mod length (ring_store buf (length ws) xs w)) = (ws @ take w xs) ! i"
  proof (cases "i < length ws")
    case True
    then have "buf ! (i mod length buf) = ws ! i" using assms(1,5) i by (simp add: ring_holds_def)
    then show ?thesis using True i assms(6) nth_ring_store(2) [OF assms(2), of i "length ws" w xs]
      by (simp add: nth_append)
  next
    case False
    moreover from False i have "i - length ws < w" by auto
    ultimately show ?thesis using i assms(3,4) nth_ring_store(1) [OF assms(2), of "length ws" i w xs]
      by (simp add: nth_append)
  qed
qed

lemma ring_load_holds:
  assumes "ring_holds lo buf ws" "lo \<le> n" "n + r \<le> length ws"
  shows "ring_load buf n r = take r (drop n ws)"
  using assms by (intro nth_equalityI) (auto simp: ring_load_def ring_holds_def)

text \<open>
  The same when other steps run between the two memcpys: \<open>stored\<close> says which frames of a transfer
  are in the ring already, and \<open>far\<close> that a place is none of those the transfer writes.
\<close>

definition stored :: "'f list \<Rightarrow> nat \<Rightarrow> 'f list \<Rightarrow> nat \<Rightarrow> bool" where
  "stored buf n xs w \<longleftrightarrow> (\<forall>i < w. buf ! ((n + i) mod length buf) = xs ! i)"

lemma copy_first:
  assumes "0 < length buf" "p \<le> length buf - n mod length buf" "p \<le> length xs"
  shows "\<exists>b. copy_frames (n mod length buf) xs 0 p buf = Some b \<and> length b = length buf \<and> stored b n xs p \<and>
    (\<forall>i. i < n \<and> n + p \<le> i + length buf \<longrightarrow> b ! (i mod length buf) = buf ! (i mod length buf))"
proof -
  have "p \<le> length buf" using assms(2) by simp
  with store_one [OF assms] nth_ring_store [OF assms(1)] show ?thesis
    by (auto simp: stored_def)
qed

lemma copy_second:
  assumes "0 < length buf" "n mod length buf + p = length buf" "p \<le> w" "w \<le> length buf" "w \<le> length xs"
    "stored buf n xs p"
  shows "\<exists>b. copy_frames 0 xs p (w - p) buf = Some b \<and> length b = length buf \<and> stored b n xs w \<and>
    (\<forall>i. i < n \<and> n + w \<le> i + length buf \<longrightarrow> b ! (i mod length buf) = buf ! (i mod length buf))"
proof -
  have n: "n mod length buf < length buf" using assms(1) by simp
  have "w - p \<le> length buf" using assms(4) by simp
  then have "copy_frames 0 xs p (w - p) buf \<noteq> None" using assms(3,5) by (simp add: copy_frames_def)
  then obtain b where b: "copy_frames 0 xs p (w - p) buf = Some b" by blast
  have len: "length b = length buf" by (rule length_copy_frames [OF b])
  have nth: "b ! j = (if j < w - p then xs ! (p + j) else buf ! j)" if "j < length buf" for j
    using nth_copy_frames [OF b that] by simp
  have p0: "0 < p" using assms(2) n by linarith
  have "b ! ((n + i) mod length buf) = xs ! i" if "i < w" for i
  proof -
    have "(n + i) mod length buf = (if i < p then n mod length buf + i else i - p)"
      using mod_step [OF assms(1), of n "n + i"] that assms(2,4) by (auto split: if_splits)
    then show ?thesis using that assms nth [of "(n + i) mod length buf"] n
      by (auto simp: stored_def split: if_splits)
  qed
  moreover have "b ! (i mod length buf) = buf ! (i mod length buf)" if "i < n" "n + w \<le> i + length buf" for i
  proof -
    have "ring_offset (length buf) n (i mod length buf) = length buf - (n - i)"
      using that by (intro ring_offset_mod(2) [OF assms(1)]) auto
    then have "\<not> i mod length buf < w - p"
      using that assms(2,3) p0 n by (auto simp: ring_offset_def split: if_splits)
    moreover have "i mod length buf < length buf" using assms(1) by simp
    ultimately show ?thesis using nth by simp
  qed
  ultimately show ?thesis using b len by (auto simp: stored_def)
qed

lemma load_first:
  assumes "ring_holds lo buf ws" "lo \<le> n" "n + r \<le> length ws" "0 < length buf"
    "r \<le> length buf - n mod length buf" "r \<le> length dst"
  shows "\<exists>d. copy_frames 0 buf (n mod length buf) r dst = Some d \<and> length d = length dst \<and>
             take r d = take r (drop n ws)"
  using load_one [OF assms(4-6)] ring_load_holds [OF assms(1-3)] assms(3,6) by simp

lemma load_second:
  assumes holds: "ring_holds lo buf ws" "lo \<le> n" "n + r \<le> length ws" and "0 < length buf"
    "n mod length buf + p = length buf" "p \<le> r" "r \<le> length buf" "r \<le> length dst"
    and first: "take p dst = take p (drop n ws)"
  shows "\<exists>d. copy_frames p buf 0 (r - p) dst = Some d \<and> length d = length dst \<and> take r d = take r (drop n ws)"
proof -
  have "take (r - p) buf = take (r - p) (drop (n + p) ws)"
  proof (rule nth_equalityI)
    have "r - p \<le> length buf" using assms(7) by simp
    then show "length (take (r - p) buf) = length (take (r - p) (drop (n + p) ws))"
      using holds(3) assms(6) by simp
    fix i assume "i < length (take (r - p) buf)"
    then have i: "i < r - p" by simp
    then have "(n + (p + i)) mod length buf = i"
      using mod_step [OF assms(4), of n "n + (p + i)"] assms(5,7) by (auto split: if_splits)
    moreover have "buf ! ((n + (p + i)) mod length buf) = ws ! (n + (p + i))"
      using holds i by (simp add: ring_holds_def)
    ultimately show "take (r - p) buf ! i = take (r - p) (drop (n + p) ws) ! i"
      using i holds(3) by (simp add: add.assoc)
  qed
  moreover have "take r (drop n ws) = take p (drop n ws) @ take (r - p) (drop (n + p) ws)"
    using assms(6) by (metis add.commute drop_drop le_add_diff_inverse take_add)
  moreover have "copy_frames p buf 0 (r - p) dst = Some (take p dst @ take (r - p) buf @ drop r dst)"
    using assms(6-8) by (simp add: copy_frames_def)
  ultimately show ?thesis using first assms(3,6-8) by simp
qed

end
