(* ===== verification/PipeSpec.thy ===== *)
theory PipeSpec
  imports Pipe RingBuffer
begin

text \<open>
  What the pipe promises to its readers: a reader gets the frames in the order they were written,
  each once, and is told of the frames it loses, by OVERRUN and a count of them, unless the writer
  comes around while the reader is copying.
\<close>

section \<open>The pipe and the stream\<close>






section \<open>A reader and its place\<close>







section \<open>A writer and a reader\<close>









section \<open>What holds in every state\<close>




















text \<open>
  An overrun between the start of a read and its memcpy is not caught at the next read: the frame
  12 is written over the frame 10 while the reader, which has two frames to read, is about to copy
  the first.  It copies 12, and then has two frames to read and no OVERRUN.
\<close>

theorem overrun_escapes:
  defines "p \<equiv> \<lparr>mNegotiated = True, mFormat = 0x0E, mBitShift = 1, mMaxFrames = 2, mBuffer = [10 :: nat, 11],
                mRear = 2, mReaders = 1, mFramesWritten = 2\<rparr>"
    and "r \<equiv> \<lparr>mNegotiated = True, mFormat = 0x0E, mBitShift = 1, mFront = 0, mFramesOverrun = 0,
               mOverruns = 0, mFramesRead = 0\<rparr>"
  shows "PipeReader_availableToRead p r = (2, r) \<and>
     (\<exists>p'. Pipe_write [12] 1 p = Some (1, p') \<and> read_frames 1 p' r [0] = Some (1, [12]) \<and>
           PipeReader_availableToRead p' (frames_read 1 r) = (2, frames_read 1 r))"
  unfolding p_def r_def
  by (simp add: PipeReader_availableToRead_def Pipe_write_def pipe_written_def read_frames_def
      frames_read_def copy_frames_def Let_def)

end
