(* ===== verification/MonoPipe.thy ===== *)
theory MonoPipe
  imports Nbaio LinearTransform
begin

text \<open>
  The pipe between two threads (libs/libnbaio/MonoPipe.cpp and MonoPipeReader.cpp): a writer that
  can wait for room and one reader share a circular buffer without a lock, and the writer can ask
  when the next frame it writes will be heard.

  The methods are cut at their accesses to the members that both threads use: \<open>mFront\<close>, \<open>mRear\<close>,
  \<open>mNextRdPTS\<close>, \<open>mUpdateSeq\<close> and the buffer.  A \<open>pc\<close> is where a thread is inside of a method, and a
  record holds the local variables of the method.  The clock is an argument of the step that reads
  it, and nanosleep has no effect but to let time pass.  Times are \<open>(tv_sec, tv_nsec)\<close>.
\<close>

section \<open>The pipe\<close>

record 'f monopipe = nbaio_port +
  mUpdateSeq :: u32
  mReqFrames :: u32
  mMaxFrames :: u32
  mBuffer :: "'f list"
  mFront :: u32
  mRear :: u32
  mNextRdPTS :: u64
  mWriteTsValid :: bool
  mWriteTs :: "int \<times> int"
  mSetpoint :: u32
  mWriteCanBlock :: bool
  mSamplesToLocalTime :: linear_transform
  mIsShutdown :: bool
  mFramesWritten :: u32

abbreviation kInvalidPTS :: u64 where "kInvalidPTS \<equiv> 0x7FFFFFFFFFFFFFFF"

text \<open>
  The ratio of the local clock to the sample rate; \<open>localFreq\<close> is what getLocalFreq answers, None
  when it fails.
\<close>

definition samples_to_local_time :: "u64 option \<Rightarrow> NBAIO_Format \<Rightarrow> linear_transform" where
  "samples_to_local_time localFreq format =
     (let none = \<lparr>a_zero = 0, b_zero = 0, a_to_b_numer = 0, a_to_b_denom = 0\<rparr> in
      case localFreq of
        None \<Rightarrow> none
      | Some N \<Rightarrow>
          let (N, D) = reduce N (ucast (Format_sampleRate format))
          in if N AND NOT 0x7FFFFFFF \<noteq> 0 \<or> D AND NOT 0xFFFFFFFF \<noteq> 0 then none
             else none\<lparr>a_to_b_numer := ucast N, a_to_b_denom := ucast D\<rparr>)"

definition new_MonoPipe ::
    "u32 \<Rightarrow> NBAIO_Format \<Rightarrow> bool \<Rightarrow> u64 option \<Rightarrow> (nat \<Rightarrow> 'f) \<Rightarrow> 'f monopipe" where
  "new_MonoPipe reqFrames format writeCanBlock localFreq junk =
     \<lparr>mNegotiated = False, mFormat = format, mBitShift = Format_frameBitShift format,
      mUpdateSeq = 0, mReqFrames = reqFrames, mMaxFrames = roundup reqFrames,
      mBuffer = map junk [0..<malloc_frames (roundup reqFrames) format],
      mFront = 0, mRear = 0, mNextRdPTS = kInvalidPTS, mWriteTsValid = False, mWriteTs = (0, 0),
      mSetpoint = (reqFrames * 11) div 16, mWriteCanBlock = writeCanBlock,
      mSamplesToLocalTime = samples_to_local_time localFreq format,
      mIsShutdown = False, mFramesWritten = 0\<rparr>"

definition frames_free :: "'f monopipe \<Rightarrow> u32" where
  "frames_free p = mMaxFrames p - (mRear p - mFront p)"

definition MonoPipe_availableToWrite :: "'f monopipe \<Rightarrow> int" where
  "MonoPipe_availableToWrite p = (if \<not> mNegotiated p then NEGOTIATE else sint (frames_free p))"

definition setAvgFrames :: "u32 \<Rightarrow> 'f monopipe \<Rightarrow> 'f monopipe" where
  "setAvgFrames setpoint p = p\<lparr>mSetpoint := setpoint\<rparr>"

definition shutdown :: "bool \<Rightarrow> 'f monopipe \<Rightarrow> 'f monopipe" where
  "shutdown newState p = p\<lparr>mIsShutdown := newState\<rparr>"

section \<open>Writing\<close>

text \<open>How long write sleeps, in nanoseconds, before the time since the last write is taken off.\<close>

definition throttle_ns :: "'f monopipe \<Rightarrow> u32 \<Rightarrow> u32 \<Rightarrow> u32 \<Rightarrow> u32" where
  "throttle_ns p avail written count =
     (let rate = Format_sampleRate (mFormat p);
          ns = (if written > 0
                then let filled = (mMaxFrames p - avail) + written in
                  if filled \<le> mSetpoint p div 2 then written * (500000000 div rate)
                  else if filled \<le> mSetpoint p * 3 div 4 then written * (750000000 div rate)
                  else if filled \<le> mSetpoint p * 5 div 4 then written * (1000000000 div rate)
                  else if filled \<le> mSetpoint p * 3 div 2 then written * (1150000000 div rate)
                  else if filled \<le> mSetpoint p * 7 div 4 then written * (1350000000 div rate)
                  else written * (1750000000 div rate)
                else count * (1350000000 div rate))
      in if ns > 999999999 then 999999999 else ns)"

definition deduct_elapsed :: "int \<times> int \<Rightarrow> int \<times> int \<Rightarrow> u32 \<Rightarrow> u32" where
  "deduct_elapsed nowTs writeTs ns =
     (let sec = fst nowTs - fst writeTs;
          nsec = snd nowTs - snd writeTs;
          (sec, nsec) = (if nsec < 0 then (sec - 1, nsec + 1000000000) else (sec, nsec))
      in if sec = 0 then (if uint ns > nsec then ns - of_int nsec else 0) else ns)"

definition record_write_time :: "(int \<times> int) option \<Rightarrow> u32 \<Rightarrow> 'f monopipe \<Rightarrow> 'f monopipe" where
  "record_write_time nowTs ns p =
     (case nowTs of
        None \<Rightarrow> p\<lparr>mWriteTsValid := False\<rparr>
      | Some (sec, nsec) \<Rightarrow>
          p\<lparr>mWriteTs := (if nsec + uint ns \<ge> 1000000000 then (sec + 1, nsec + uint ns - 1000000000)
                         else (sec, nsec + uint ns)),
            mWriteTsValid := True\<rparr>)"

record 'f write_locals =
  w_buffer :: "'f list"
  w_count :: u32
  w_total :: u32
  w_avail :: u32
  w_written :: u32
  w_rear :: u32
  w_part1 :: u32

datatype write_pc = Write_loop | Write_copy | Write_wrap | Write_publish | Write_after | Write_returned int

text \<open>The call of write, and its end.\<close>

definition write_call :: "'f list \<Rightarrow> u32 \<Rightarrow> 'f monopipe \<Rightarrow> write_pc \<times> 'f write_locals" where
  "write_call buffer count p =
     (if \<not> mNegotiated p then Write_returned NEGOTIATE else Write_loop,
      \<lparr>w_buffer = buffer, w_count = count, w_total = 0, w_avail = 0, w_written = 0, w_rear = 0, w_part1 = 0\<rparr>)"

definition write_end :: "'f write_locals \<Rightarrow> 'f monopipe \<Rightarrow> write_pc \<times> 'f write_locals \<times> 'f monopipe" where
  "write_end l p =
     (Write_returned (sint (w_total l)), l, p\<lparr>mFramesWritten := mFramesWritten p + w_total l\<rparr>)"

text \<open>The test of the loop, and the load of \<open>mFront\<close>.\<close>

definition write_loop :: "'f write_locals \<Rightarrow> 'f monopipe \<Rightarrow> write_pc \<times> 'f write_locals \<times> 'f monopipe" where
  "write_loop l p =
     (if w_count l > 0
      then let avail = frames_free p;
               written = (if avail > w_count l then w_count l else avail);
               rear = mRear p AND (mMaxFrames p - 1);
               part1 = mMaxFrames p - rear;
               part1 = (if part1 > written then written else part1)
           in (if part1 > 0 then Write_copy else Write_after,
               l\<lparr>w_avail := avail, w_written := written, w_rear := rear, w_part1 := part1\<rparr>, p)
      else write_end l p)"

text \<open>The first memcpy, the second, and the store of \<open>mRear\<close>.\<close>

definition write_copy :: "'f write_locals \<Rightarrow> 'f monopipe \<Rightarrow> (write_pc \<times> 'f write_locals \<times> 'f monopipe) option" where
  "write_copy l p =
     map_option (\<lambda>buf. (if w_rear l + w_part1 l = mMaxFrames p \<and> w_written l - w_part1 l > 0
                        then Write_wrap else Write_publish, l, p\<lparr>mBuffer := buf\<rparr>))
       (copy_frames (unat (w_rear l)) (w_buffer l) 0 (unat (w_part1 l)) (mBuffer p))"

definition write_wrap :: "'f write_locals \<Rightarrow> 'f monopipe \<Rightarrow> (write_pc \<times> 'f write_locals \<times> 'f monopipe) option" where
  "write_wrap l p =
     map_option (\<lambda>buf. (Write_publish, l, p\<lparr>mBuffer := buf\<rparr>))
       (copy_frames 0 (w_buffer l) (unat (w_part1 l)) (unat (w_written l - w_part1 l)) (mBuffer p))"

definition write_publish :: "'f write_locals \<Rightarrow> 'f monopipe \<Rightarrow> write_pc \<times> 'f write_locals \<times> 'f monopipe" where
  "write_publish l p =
     (Write_after, l\<lparr>w_total := w_total l + w_written l\<rparr>, p\<lparr>mRear := w_written l + mRear p\<rparr>)"

text \<open>The end of the loop's body: leave, or sleep and go on.\<close>

definition write_after ::
    "(int \<times> int) option \<Rightarrow> 'f write_locals \<Rightarrow> 'f monopipe \<Rightarrow> write_pc \<times> 'f write_locals \<times> 'f monopipe" where
  "write_after nowTs l p =
     (if \<not> mWriteCanBlock p \<or> mIsShutdown p then write_end l p
      else
        let count = w_count l - w_written l;
            ns = throttle_ns p (w_avail l) (w_written l) count;
            ns = (case nowTs of
                    Some now \<Rightarrow> if mWriteTsValid p then deduct_elapsed now (mWriteTs p) ns else ns
                  | None \<Rightarrow> ns)
        in (Write_loop, l\<lparr>w_count := count, w_buffer := drop (unat (w_written l)) (w_buffer l)\<rparr>,
            record_write_time nowTs ns p))"

fun write_step ::
    "(int \<times> int) option \<Rightarrow> write_pc \<Rightarrow> 'f write_locals \<Rightarrow> 'f monopipe \<Rightarrow>
     (write_pc \<times> 'f write_locals \<times> 'f monopipe) option" where
  "write_step now Write_loop l p = Some (write_loop l p)"
| "write_step now Write_copy l p = write_copy l p"
| "write_step now Write_wrap l p = write_wrap l p"
| "write_step now Write_publish l p = Some (write_publish l p)"
| "write_step now Write_after l p = Some (write_after now l p)"
| "write_step now (Write_returned r) l p = Some (Write_returned r, l, p)"

section \<open>Times\<close>

text \<open>\<open>offsetTimestampByAudioFrames\<close>: the time, and the ratio, which a failure sets to 0.\<close>

definition offsetTimestampByAudioFrames :: "u64 \<Rightarrow> u32 \<Rightarrow> 'f monopipe \<Rightarrow> u64 \<times> 'f monopipe" where
  "offsetTimestampByAudioFrames ts audFrames p =
     (if a_to_b_denom (mSamplesToLocalTime p) = 0 \<or> ts = kInvalidPTS then (kInvalidPTS, p)
      else case doForwardTransform (mSamplesToLocalTime p) (ucast audFrames) of
             Some frame_lt_duration \<Rightarrow> (ts + frame_lt_duration, p)
           | None \<Rightarrow> (kInvalidPTS, p\<lparr>mSamplesToLocalTime :=
                        (mSamplesToLocalTime p)\<lparr>a_to_b_numer := 0, a_to_b_denom := 0\<rparr>\<rparr>))"

text \<open>The four stores of \<open>updateFrontAndNRPTS\<close>.\<close>

definition update_begin :: "'f monopipe \<Rightarrow> u32 \<times> 'f monopipe" where
  "update_begin p = (let tmp = mUpdateSeq p OR 0x80000000 in (tmp, p\<lparr>mUpdateSeq := tmp\<rparr>))"

definition update_end :: "u32 \<Rightarrow> 'f monopipe \<Rightarrow> 'f monopipe" where
  "update_end tmp p = p\<lparr>mUpdateSeq := (tmp + 1) AND 0x7FFFFFFF\<rparr>"

text \<open>
  \<open>observeFrontAndNRPTS\<close>: what the loop has loaded so far.  The last load ends the loop, or starts
  it again.
\<close>

datatype observe_pc =
    Obs_idle
  | Obs_seq u32
  | Obs_front u32 u32
  | Obs_pts u32 u32 u64
  | Obs_done u32 u64

fun observe_step :: "observe_pc \<Rightarrow> 'f monopipe \<Rightarrow> observe_pc" where
  "observe_step Obs_idle p = Obs_seq (mUpdateSeq p)"
| "observe_step (Obs_seq seqOne) p = Obs_front seqOne (mFront p)"
| "observe_step (Obs_front seqOne front) p = Obs_pts seqOne front (mNextRdPTS p)"
| "observe_step (Obs_pts seqOne front pts) p =
     (if seqOne \<noteq> mUpdateSeq p \<or> seqOne AND 0x80000000 \<noteq> 0 then Obs_idle else Obs_done front pts)"
| "observe_step (Obs_done front pts) p = Obs_done front pts"

abbreviation OK :: int where "OK \<equiv> 0"
abbreviation UNKNOWN_ERROR :: int where "UNKNOWN_ERROR \<equiv> - 2147483648"

text \<open>
  \<open>getNextWriteTimestamp\<close>: the test before the observation, and what follows it.
\<close>

definition timestamp_call :: "'f monopipe \<Rightarrow> int + observe_pc" where
  "timestamp_call p =
     (if a_to_b_denom (mSamplesToLocalTime p) = 0 then Inl UNKNOWN_ERROR else Inr Obs_idle)"

definition timestamp_end :: "u32 \<Rightarrow> u64 \<Rightarrow> 'f monopipe \<Rightarrow> int \<times> u64 \<times> 'f monopipe" where
  "timestamp_end front timestamp p =
     (if kInvalidPTS \<noteq> timestamp
      then let pendingFrames = (mRear p - front) AND (mMaxFrames p - 1);
               (timestamp, p) = offsetTimestampByAudioFrames timestamp pendingFrames p
           in (OK, timestamp, p)
      else (OK, timestamp, p))"

section \<open>Reading\<close>

record monopipe_reader = nbaio_port +
  mFramesRead :: u32

definition new_MonoPipeReader :: "'f monopipe \<Rightarrow> monopipe_reader" where
  "new_MonoPipeReader p =
     \<lparr>mNegotiated = False, mFormat = mFormat p, mBitShift = Format_frameBitShift (mFormat p), mFramesRead = 0\<rparr>"

definition MonoPipeReader_availableToRead :: "'f monopipe \<Rightarrow> monopipe_reader \<Rightarrow> int" where
  "MonoPipeReader_availableToRead p r =
     (if \<not> mNegotiated r then NEGOTIATE else sint (mRear p - mFront p))"

record 'f read_locals =
  r_buffer :: "'f list"
  r_red :: u32
  r_front :: u32
  r_part1 :: u32
  r_newFront :: u32
  r_pts :: u64
  r_tmp :: u32
  r_ret :: int

datatype read_pc =
    Read_start | Read_copy | Read_wrap | Read_update | Read_store_front | Read_store_pts | Read_update_end
  | Read_returned int

text \<open>
  From the call to the first memcpy; \<open>count\<close> and \<open>readPTS\<close> are its arguments.  An underflow, or a
  reader that is not negotiated, goes straight to the update of the time.
\<close>

definition read_start ::
    "u32 \<Rightarrow> u64 \<Rightarrow> 'f read_locals \<Rightarrow> 'f monopipe \<Rightarrow> monopipe_reader \<Rightarrow> read_pc \<times> 'f read_locals \<times> 'f monopipe" where
  "read_start count readPTS l p r =
     (let (nextReadPTS, p) = offsetTimestampByAudioFrames readPTS count p;
          red = MonoPipeReader_availableToRead p r;
          l = l\<lparr>r_pts := nextReadPTS, r_ret := red\<rparr>
      in if red \<le> 0 then (Read_update, l\<lparr>r_red := 0, r_newFront := mFront p\<rparr>, p)
         else let red = (if nat red > unat count then count else of_int red);
                  front = mFront p AND (mMaxFrames p - 1);
                  part1 = mMaxFrames p - front;
                  part1 = (if part1 > red then red else part1);
                  l = l\<lparr>r_red := red, r_front := front, r_part1 := part1,
                        r_newFront := red + mFront p, r_ret := sint red\<rparr>
              in (if part1 > 0 then Read_copy else Read_returned (sint red), l, p))"

definition read_copy :: "'f read_locals \<Rightarrow> 'f monopipe \<Rightarrow> (read_pc \<times> 'f read_locals) option" where
  "read_copy l p =
     map_option (\<lambda>dst. (if r_front l + r_part1 l = mMaxFrames p \<and> r_red l - r_part1 l > 0
                        then Read_wrap else Read_update, l\<lparr>r_buffer := dst\<rparr>))
       (copy_frames 0 (mBuffer p) (unat (r_front l)) (unat (r_part1 l)) (r_buffer l))"

definition read_wrap :: "'f read_locals \<Rightarrow> 'f monopipe \<Rightarrow> (read_pc \<times> 'f read_locals) option" where
  "read_wrap l p =
     map_option (\<lambda>dst. (Read_update, l\<lparr>r_buffer := dst\<rparr>))
       (copy_frames (unat (r_part1 l)) (mBuffer p) 0 (unat (r_red l - r_part1 l)) (r_buffer l))"

fun read_step ::
    "u32 \<Rightarrow> u64 \<Rightarrow> read_pc \<Rightarrow> 'f read_locals \<Rightarrow> 'f monopipe \<Rightarrow> monopipe_reader \<Rightarrow>
     (read_pc \<times> 'f read_locals \<times> 'f monopipe \<times> monopipe_reader) option" where
  "read_step count readPTS Read_start l p r =
     (let (pc, l, p) = read_start count readPTS l p r in Some (pc, l, p, r))"
| "read_step count readPTS Read_copy l p r = map_option (\<lambda>(pc, l). (pc, l, p, r)) (read_copy l p)"
| "read_step count readPTS Read_wrap l p r = map_option (\<lambda>(pc, l). (pc, l, p, r)) (read_wrap l p)"
| "read_step count readPTS Read_update l p r =
     (let (tmp, p) = update_begin p in Some (Read_store_front, l\<lparr>r_tmp := tmp\<rparr>, p, r))"
| "read_step count readPTS Read_store_front l p r = Some (Read_store_pts, l, p\<lparr>mFront := r_newFront l\<rparr>, r)"
| "read_step count readPTS Read_store_pts l p r = Some (Read_update_end, l, p\<lparr>mNextRdPTS := r_pts l\<rparr>, r)"
| "read_step count readPTS Read_update_end l p r =
     Some (Read_returned (r_ret l), l, update_end (r_tmp l) p, r\<lparr>mFramesRead := mFramesRead r + r_red l\<rparr>)"
| "read_step count readPTS (Read_returned ret) l p r = Some (Read_returned ret, l, p, r)"

end
