(* ===== verification/MonoPipeSpec.thy ===== *)
theory MonoPipeSpec
  imports MonoPipe RingBuffer "HOL-Library.Sublist"
begin

text \<open>
  What the pipe promises to its two threads, for every interleaving of their steps: the reader gets
  the frames that the writer put in, in order and each once, no memcpy reads a place that is being
  written, and the observation of the front and its time is one of a moment between two updates.
\<close>

section \<open>The threads\<close>

text \<open>
  \<open>sent\<close> are the frames that the writer has published, \<open>got\<close> those the reader has taken out, and
  \<open>hist\<close> the pairs of front and time that were current one after another.  \<open>o_seen\<close> is how many
  there were when the observer loaded \<open>seqOne\<close>.
\<close>

record 'f mono =
  mp :: "'f monopipe"
  rdr :: monopipe_reader
  wpc :: write_pc
  wl :: "'f write_locals"
  rpc :: read_pc
  rl :: "'f read_locals"
  opc :: observe_pc
  sent :: "'f list"
  got :: "'f list"
  hist :: "(u32 \<times> u64) list"
  o_seen :: nat

definition no_read :: "'f list \<Rightarrow> 'f read_locals" where
  "no_read dst =
     \<lparr>r_buffer = dst, r_red = 0, r_front = 0, r_part1 = 0, r_newFront = 0, r_pts = 0, r_tmp = 0, r_ret = 0\<rparr>"

definition published :: "write_pc \<Rightarrow> 'f write_locals \<Rightarrow> 'f list \<Rightarrow> 'f list" where
  "published pc l ws = (if pc = Write_publish then ws @ take (unat (w_written l)) (w_buffer l) else ws)"

definition taken_out :: "read_pc \<Rightarrow> 'f read_locals \<Rightarrow> 'f list \<Rightarrow> 'f list" where
  "taken_out pc l gs = (if pc = Read_store_front then gs @ take (unat (r_red l)) (r_buffer l) else gs)"

text \<open>
  The two threads, the thread that sets the depth and the shutdown, and one that asks for the time.
  The premises beside the model's functions are that a thread makes one call at a time and that
  buffers are as long as the counts say.
\<close>

inductive mono_step :: "'f mono \<Rightarrow> 'f mono \<Rightarrow> bool" where
  Call_write: "wpc m = Write_returned ret \<Longrightarrow> unat count \<le> length buffer \<Longrightarrow>
    write_call buffer count (mp m) = (pc, l) \<Longrightarrow> mono_step m (m\<lparr>wpc := pc, wl := l\<rparr>)"
| Write: "write_step now (wpc m) (wl m) (mp m) = Some (pc, l, p) \<Longrightarrow>
    mono_step m (m\<lparr>wpc := pc, wl := l, mp := p, sent := published (wpc m) (wl m) (sent m)\<rparr>)"
| Control: "p = setAvgFrames setpoint (mp m) \<or> p = shutdown b (mp m) \<Longrightarrow> mono_step m (m\<lparr>mp := p\<rparr>)"
| Call_read: "rpc m = Read_returned ret \<Longrightarrow> unat count \<le> length dst \<Longrightarrow>
    read_step count readPTS Read_start (no_read dst) (mp m) (rdr m) = Some (pc, l, p, r) \<Longrightarrow>
    mono_step m (m\<lparr>rpc := pc, rl := l, mp := p, rdr := r\<rparr>)"
| Read: "rpc m \<noteq> Read_start \<Longrightarrow> read_step 0 0 (rpc m) (rl m) (mp m) (rdr m) = Some (pc, l, p, r) \<Longrightarrow>
    mono_step m (m\<lparr>rpc := pc, rl := l, mp := p, rdr := r, got := taken_out (rpc m) (rl m) (got m),
                   hist := (if rpc m = Read_update_end then hist m @ [(mFront p, mNextRdPTS p)] else hist m)\<rparr>)"
| Observe: "mono_step m (m\<lparr>opc := observe_step (opc m) (mp m),
                         o_seen := (if opc m = Obs_idle then length (hist m) else o_seen m)\<rparr>)"
| Answer: "opc m = Obs_done front pts \<Longrightarrow> timestamp_end front pts (mp m) = (ret, ts, p) \<Longrightarrow>
    mono_step m (m\<lparr>opc := Obs_idle, mp := p\<rparr>)"

text \<open>A new pipe and its reader, for a number of frames that malloc can serve.\<close>

definition new_mono :: "'f monopipe \<Rightarrow> monopipe_reader \<Rightarrow> 'f mono" where
  "new_mono p r =
     \<lparr>mp = p, rdr = r, wpc = Write_returned 0,
      wl = \<lparr>w_buffer = [], w_count = 0, w_total = 0, w_avail = 0, w_written = 0, w_rear = 0, w_part1 = 0\<rparr>,
      rpc = Read_returned 0, rl = no_read [], opc = Obs_idle, sent = [], got = [],
      hist = [(0, kInvalidPTS)], o_seen = 1\<rparr>"

inductive mono_reach :: "'f mono \<Rightarrow> bool" where
  Start: "Format_channelCount format \<noteq> 0 \<Longrightarrow> unat reqFrames \<le> 2 ^ 30 \<Longrightarrow>
    unat (roundup reqFrames) * unat (Format_frameSize format) < 2 ^ 32 \<Longrightarrow>
    new_MonoPipe reqFrames format writeCanBlock localFreq junk = p0 \<Longrightarrow>
    negotiate offers n p0 = (i, n', c, p) \<Longrightarrow>
    negotiate offers' j (new_MonoPipeReader p0) = (i', j', c', r) \<Longrightarrow> mono_reach (new_mono p r)"
| Step: "mono_reach m \<Longrightarrow> mono_step m m' \<Longrightarrow> mono_reach m'"

section \<open>The queue\<close>

definition ring_ok :: "nat \<Rightarrow> 'f mono \<Rightarrow> bool" where
  "ring_ok k m \<longleftrightarrow> k \<le> 30 \<and> unat (mMaxFrames (mp m)) = 2 ^ k \<and> length (mBuffer (mp m)) = 2 ^ k \<and>
     mRear (mp m) = of_nat (length (sent m)) \<and> mFront (mp m) = of_nat (length (got m)) \<and>
     prefix (got m) (sent m) \<and> length (sent m) \<le> length (got m) + 2 ^ k \<and>
     ring_holds (length (got m)) (mBuffer (mp m)) (sent m)"

text \<open>A transfer of the writer: its frames fit, and its locals describe it.\<close>

definition writing :: "nat \<Rightarrow> 'f mono \<Rightarrow> bool" where
  "writing k m \<longleftrightarrow> (let l = wl m in
     w_written l \<le> w_count l \<and> unat (w_count l) \<le> length (w_buffer l) \<and>
     length (sent m) + unat (w_written l) \<le> length (got m) + 2 ^ k \<and>
     unat (w_rear l) = length (sent m) mod 2 ^ k \<and>
     unat (w_part1 l) = min (unat (w_written l)) (2 ^ k - length (sent m) mod 2 ^ k))"

definition writer_ok :: "nat \<Rightarrow> 'f mono \<Rightarrow> bool" where
  "writer_ok k m \<longleftrightarrow> (let l = wl m; buf = mBuffer (mp m); n = length (sent m) in
     case wpc m of
       Write_loop \<Rightarrow> unat (w_count l) \<le> length (w_buffer l)
     | Write_copy \<Rightarrow> writing k m
     | Write_wrap \<Rightarrow> writing k m \<and> n mod 2 ^ k + unat (w_part1 l) = 2 ^ k \<and> stored buf n (w_buffer l) (unat (w_part1 l))
     | Write_publish \<Rightarrow> writing k m \<and> stored buf n (w_buffer l) (unat (w_written l))
     | Write_after \<Rightarrow> w_written l \<le> w_count l \<and> unat (w_count l) \<le> length (w_buffer l)
     | Write_returned r \<Rightarrow> True)"

text \<open>A transfer of the reader: its frames are there.\<close>

definition reading :: "nat \<Rightarrow> 'f mono \<Rightarrow> bool" where
  "reading k m \<longleftrightarrow> (let l = rl m in
     unat (r_red l) \<le> length (r_buffer l) \<and> length (got m) + unat (r_red l) \<le> length (sent m) \<and>
     r_newFront l = of_nat (length (got m) + unat (r_red l)))"

definition reading_places :: "nat \<Rightarrow> 'f mono \<Rightarrow> bool" where
  "reading_places k m \<longleftrightarrow> reading k m \<and>
     unat (r_front (rl m)) = length (got m) mod 2 ^ k \<and>
     unat (r_part1 (rl m)) = min (unat (r_red (rl m))) (2 ^ k - length (got m) mod 2 ^ k)"

definition next_frames :: "nat \<Rightarrow> 'f mono \<Rightarrow> bool" where
  "next_frames r m \<longleftrightarrow> take r (r_buffer (rl m)) = take r (drop (length (got m)) (sent m))"

definition delivered :: "'f mono \<Rightarrow> bool" where
  "delivered m \<longleftrightarrow> (\<exists>gs. got m = gs @ take (unat (r_red (rl m))) (r_buffer (rl m)))"

definition reader_ok :: "nat \<Rightarrow> 'f mono \<Rightarrow> bool" where
  "reader_ok k m \<longleftrightarrow> (let l = rl m in
     case rpc m of
       Read_start \<Rightarrow> False
     | Read_copy \<Rightarrow> reading_places k m
     | Read_wrap \<Rightarrow> reading_places k m \<and> length (got m) mod 2 ^ k + unat (r_part1 l) = 2 ^ k \<and>
         next_frames (unat (r_part1 l)) m
     | Read_update \<Rightarrow> reading k m \<and> next_frames (unat (r_red l)) m
     | Read_store_front \<Rightarrow> reading k m \<and> next_frames (unat (r_red l)) m
     | Read_store_pts \<Rightarrow> delivered m
     | Read_update_end \<Rightarrow> delivered m
     | Read_returned r \<Rightarrow> True)"

definition fifo_ok :: "nat \<Rightarrow> 'f mono \<Rightarrow> bool" where
  "fifo_ok k m \<longleftrightarrow> ring_ok k m \<and> writer_ok k m \<and> reader_ok k m"

lemma ring_okD:
  assumes "ring_ok k m"
  shows "(2 :: nat) ^ k \<le> 2 ^ 30" "k < 32" "0 < length (mBuffer (mp m))"
    "mMaxFrames (mp m) = of_nat (2 ^ k)" "length (got m) \<le> length (sent m)"
    "unat (mRear (mp m) - mFront (mp m)) = length (sent m) - length (got m)"
    "length (sent m) \<le> length (got m) + 2 ^ k" "length (mBuffer (mp m)) = 2 ^ k"
    "ring_holds (length (got m)) (mBuffer (mp m)) (sent m)" "unat (mMaxFrames (mp m)) = 2 ^ k"
    "prefix (got m) (sent m)"
proof -
  show "length (sent m) \<le> length (got m) + 2 ^ k" "length (mBuffer (mp m)) = 2 ^ k"
    "ring_holds (length (got m)) (mBuffer (mp m)) (sent m)" "unat (mMaxFrames (mp m)) = 2 ^ k"
    "prefix (got m) (sent m)"
    using assms unfolding ring_ok_def by blast+
  show k: "(2 :: nat) ^ k \<le> 2 ^ 30"
    using assms by (intro power_increasing) (auto simp: ring_ok_def)
  show "k < 32" "0 < length (mBuffer (mp m))" using assms by (auto simp: ring_ok_def)
  show "mMaxFrames (mp m) = of_nat (2 ^ k)" using assms by (metis of_nat_unat ring_ok_def ucast_id)
  show le: "length (got m) \<le> length (sent m)" using assms by (auto simp: ring_ok_def dest: prefix_length_le)
  have "length (sent m) \<le> length (got m) + 2 ^ k" using assms by (simp add: ring_ok_def)
  with k have "length (sent m) - length (got m) \<le> 2 ^ 30" by linarith
  then have "length (sent m) - length (got m) < 2 ^ 32" by simp
  then show "unat (mRear (mp m) - mFront (mp m)) = length (sent m) - length (got m)"
    using assms unat_counter_diff [OF le] by (simp add: ring_ok_def)
qed

text \<open>The same for a state in which only the threads' counters and locals differ.\<close>

lemma writer_ok_cong:
  assumes "writer_ok k m" "wpc m' = wpc m" "wl m' = wl m" "mBuffer (mp m') = mBuffer (mp m)"
    "sent m' = sent m" "length (got m) \<le> length (got m')"
  shows "writer_ok k m'"
  using assms by (auto simp: writer_ok_def writing_def Let_def split: write_pc.splits)

lemma reader_ok_cong:
  assumes "reader_ok k m" "rpc m' = rpc m" "rl m' = rl m" "got m' = got m"
    "prefix (sent m) (sent m')"
  shows "reader_ok k m'"
proof -
  obtain zs where zs: "sent m' = sent m @ zs" using assms(5) by (auto simp: prefix_def)
  have "next_frames r m'" if "next_frames r m" "length (got m) + r \<le> length (sent m)" for r
    using that assms(3,4) by (simp add: next_frames_def zs)
  then show ?thesis using assms zs
    by (auto simp: reader_ok_def reading_places_def reading_def delivered_def Let_def split: read_pc.splits)
qed

section \<open>The writer\<close>

lemma frames_free_exact:
  assumes "ring_ok k m"
  shows "unat (frames_free (mp m)) = 2 ^ k - (length (sent m) - length (got m))"
proof -
  have "length (sent m) - length (got m) \<le> 2 ^ k" using ring_okD(7) [OF assms] by linarith
  then show ?thesis
    using ring_okD(6,10) [OF assms] by (simp add: frames_free_def unat_sub word_le_nat_alt)
qed

lemma write_loop_ok:
  assumes ok: "fifo_ok k m" and pc: "wpc m = Write_loop" and st: "write_loop (wl m) (mp m) = (pc, l, p)"
  shows "fifo_ok k (m\<lparr>wpc := pc, wl := l, mp := p\<rparr>)"
proof -
  let ?m = "m\<lparr>wpc := pc, wl := l, mp := p\<rparr>"
  have ring: "ring_ok k m" and len: "unat (w_count (wl m)) \<le> length (w_buffer (wl m))"
    using ok pc by (auto simp: fifo_ok_def writer_ok_def Let_def)
  have same: "mBuffer p = mBuffer (mp m)" "mMaxFrames p = mMaxFrames (mp m)" "mRear p = mRear (mp m)"
    "mFront p = mFront (mp m)"
    using st by (auto simp: write_loop_def write_end_def Let_def split: if_splits)
  have "ring_ok k ?m" using ring by (simp add: ring_ok_def same)
  moreover have "reader_ok k m" using ok by (simp add: fifo_ok_def)
  then have "reader_ok k ?m" by (rule reader_ok_cong) simp_all
  moreover have "writer_ok k ?m"
  proof (cases "w_count (wl m) > 0")
    case False
    then show ?thesis using st by (auto simp: write_loop_def write_end_def writer_ok_def)
  next
    case True
    let ?n = "length (sent m)"
    define rear where "rear = mRear (mp m) AND (mMaxFrames (mp m) - 1)"
    define written where
      "written = (if frames_free (mp m) > w_count (wl m) then w_count (wl m) else frames_free (mp m))"
    define part1 where
      "part1 = (if mMaxFrames (mp m) - rear > written then written else mMaxFrames (mp m) - rear)"
    have rear: "unat rear = ?n mod 2 ^ k"
      using ring unat_of_nat_mask [of "mMaxFrames (mp m)" k ?n] by (simp add: rear_def ring_ok_def)
    obtain j where j: "?n mod 2 ^ k = j" "j < 2 ^ k" by simp
    have w: "written \<le> w_count (wl m)" "?n + unat written \<le> length (got m) + 2 ^ k"
    proof -
      show "written \<le> w_count (wl m)" by (simp add: written_def not_less)
      have "unat written \<le> unat (frames_free (mp m))" by (simp add: written_def word_le_nat_alt word_less_nat_alt)
      then show "?n + unat written \<le> length (got m) + 2 ^ k"
        using frames_free_exact [OF ring] ring ring_okD(5) [OF ring] by (auto simp: ring_ok_def)
    qed
    have "unat (mMaxFrames (mp m) - rear) = 2 ^ k - j"
      using rear j ring by (simp add: unat_sub word_le_nat_alt ring_ok_def)
    then have p1: "unat part1 = min (unat written) (2 ^ k - ?n mod 2 ^ k)"
      by (auto simp: part1_def word_less_nat_alt j)
    have "write_loop (wl m) (mp m) = (if part1 > 0 then Write_copy else Write_after,
        (wl m)\<lparr>w_avail := frames_free (mp m), w_written := written, w_rear := rear, w_part1 := part1\<rparr>, mp m)"
      unfolding write_loop_def Let_def part1_def written_def rear_def using True by (simp split del: if_split)
    then have "(pc, l) = (if part1 > 0 then Write_copy else Write_after,
        (wl m)\<lparr>w_avail := frames_free (mp m), w_written := written, w_rear := rear, w_part1 := part1\<rparr>)"
      using st by simp
    then show ?thesis using w p1 rear len
      by (auto simp: writer_ok_def writing_def Let_def)
  qed
  ultimately show ?thesis by (simp add: fifo_ok_def)
qed

text \<open>A memcpy into places that are free leaves the queue as it is.\<close>

lemma ring_ok_copy:
  assumes ring: "ring_ok k m" and len: "length b = length (mBuffer (mp m))"
    and room: "length (sent m) + w \<le> length (got m) + 2 ^ k"
    and same: "\<forall>i. i < length (sent m) \<and> length (sent m) + w \<le> i + length (mBuffer (mp m)) \<longrightarrow>
                  b ! (i mod length (mBuffer (mp m))) = mBuffer (mp m) ! (i mod length (mBuffer (mp m)))"
  shows "ring_ok k (m\<lparr>wpc := pc, wl := l, mp := (mp m)\<lparr>mBuffer := b\<rparr>\<rparr>)"
proof -
  have "ring_holds (length (got m)) b (sent m)"
    unfolding ring_holds_def
  proof (intro allI impI)
    fix i assume i: "length (got m) \<le> i \<and> i < length (sent m)"
    have "length (mBuffer (mp m)) = 2 ^ k" using ring by (simp add: ring_ok_def)
    with i room same len have "b ! (i mod length b) = mBuffer (mp m) ! (i mod length (mBuffer (mp m)))" by simp
    also have "\<dots> = sent m ! i" using ring_okD(9) [OF ring] i unfolding ring_holds_def by blast
    finally show "b ! (i mod length b) = sent m ! i" .
  qed
  then show ?thesis using ring len by (simp add: ring_ok_def)
qed

lemma write_copy_ok:
  assumes ok: "fifo_ok k m" and pc: "wpc m = Write_copy"
  shows "\<exists>pc l p. write_copy (wl m) (mp m) = Some (pc, l, p) \<and> fifo_ok k (m\<lparr>wpc := pc, wl := l, mp := p\<rparr>)"
proof -
  let ?l = "wl m" and ?n = "length (sent m)" and ?buf = "mBuffer (mp m)"
  have ring: "ring_ok k m" and w: "writing k m" and r: "reader_ok k m"
    using ok pc by (auto simp: fifo_ok_def writer_ok_def Let_def)
  have buf: "length ?buf = 2 ^ k" "0 < length ?buf" using ring ring_okD(3) [OF ring] by (auto simp: ring_ok_def)
  have p1: "unat (w_part1 ?l) \<le> unat (w_written ?l)" "unat (w_part1 ?l) \<le> length ?buf - ?n mod length ?buf"
    "unat (w_written ?l) \<le> length (w_buffer ?l)"
    using w buf by (auto simp: writing_def Let_def word_le_nat_alt)
  obtain b where b: "copy_frames (unat (w_rear ?l)) (w_buffer ?l) 0 (unat (w_part1 ?l)) ?buf = Some b"
    "length b = length ?buf" "stored b ?n (w_buffer ?l) (unat (w_part1 ?l))"
    "\<forall>i. i < ?n \<and> ?n + unat (w_part1 ?l) \<le> i + length ?buf \<longrightarrow> b ! (i mod length ?buf) = ?buf ! (i mod length ?buf)"
    using copy_first [OF buf(2) p1(2), of "w_buffer ?l"] p1 w buf(1)
    by (auto simp: writing_def Let_def)
  define pc' where "pc' = (if w_rear ?l + w_part1 ?l = mMaxFrames (mp m) \<and> w_written ?l - w_part1 ?l > 0
      then Write_wrap else Write_publish)"
  let ?m = "m\<lparr>wpc := pc', wl := ?l, mp := (mp m)\<lparr>mBuffer := b\<rparr>\<rparr>"
  have st: "write_copy ?l (mp m) = Some (pc', ?l, (mp m)\<lparr>mBuffer := b\<rparr>)"
    by (simp add: write_copy_def b(1) pc'_def)
  have "?n + unat (w_part1 ?l) \<le> length (got m) + 2 ^ k" using w p1(1) by (auto simp: writing_def Let_def)
  then have "ring_ok k ?m" using b by (intro ring_ok_copy [OF ring]) auto
  moreover have "reader_ok k ?m" using r by (rule reader_ok_cong) auto
  moreover have "writer_ok k ?m"
  proof -
    have w': "writing k ?m" using w by (simp add: writing_def)
    have "unat (w_rear ?l + w_part1 ?l) = ?n mod 2 ^ k + unat (w_part1 ?l)"
    proof -
      obtain j where j: "?n mod 2 ^ k = j" "j < 2 ^ k" by simp
      have "unat (w_rear ?l) = j" using w j by (simp add: writing_def Let_def)
      moreover have "j + unat (w_part1 ?l) < 2 ^ 32"
        using p1(2) ring_okD(1) [OF ring] unfolding buf(1) j(1) using j(2) by simp
      ultimately show ?thesis unfolding j(1) by (simp add: unat_word_ariths)
    qed
    then have end_iff: "w_rear ?l + w_part1 ?l = mMaxFrames (mp m) \<longleftrightarrow> ?n mod 2 ^ k + unat (w_part1 ?l) = 2 ^ k"
      using ring by (simp add: word_unat_eq_iff ring_ok_def)
    have more: "w_written ?l - w_part1 ?l > 0 \<longleftrightarrow> unat (w_part1 ?l) < unat (w_written ?l)"
      using p1(1) by (simp add: word_less_nat_alt unat_sub word_le_nat_alt)
    show ?thesis
    proof (cases "pc' = Write_wrap")
      case True
      then have "?n mod 2 ^ k + unat (w_part1 ?l) = 2 ^ k"
        using end_iff by (auto simp: pc'_def split: if_splits)
      then show ?thesis using True w' b(3) by (simp add: writer_ok_def)
    next
      case False
      then have pub: "pc' = Write_publish" by (simp add: pc'_def split: if_splits)
      have "unat (w_part1 ?l) = unat (w_written ?l)"
      proof (rule ccontr)
        assume "unat (w_part1 ?l) \<noteq> unat (w_written ?l)"
        with p1(1) have lt: "unat (w_part1 ?l) < unat (w_written ?l)" by simp
        obtain j where j: "?n mod 2 ^ k = j" "j < 2 ^ k" by simp
        have "unat (w_part1 ?l) = min (unat (w_written ?l)) (2 ^ k - j)"
          using w unfolding writing_def Let_def j(1) by blast
        then have "?n mod 2 ^ k + unat (w_part1 ?l) = 2 ^ k" unfolding j(1) using lt j(2) by simp
        with lt end_iff more False show False by (simp add: pc'_def)
      qed
      then show ?thesis using pub w' b(3) by (simp add: writer_ok_def)
    qed
  qed
  ultimately show ?thesis using st by (auto simp: fifo_ok_def)
qed

lemma write_wrap_ok:
  assumes ok: "fifo_ok k m" and pc: "wpc m = Write_wrap"
  shows "\<exists>pc l p. write_wrap (wl m) (mp m) = Some (pc, l, p) \<and> fifo_ok k (m\<lparr>wpc := pc, wl := l, mp := p\<rparr>)"
proof -
  let ?l = "wl m" and ?n = "length (sent m)" and ?buf = "mBuffer (mp m)"
  have ring: "ring_ok k m" and w: "writing k m" and r: "reader_ok k m"
    and first: "?n mod 2 ^ k + unat (w_part1 ?l) = 2 ^ k" "stored ?buf ?n (w_buffer ?l) (unat (w_part1 ?l))"
    using ok pc by (auto simp: fifo_ok_def writer_ok_def Let_def)
  note buf = ring_okD(8,3) [OF ring]
  have p1: "unat (w_part1 ?l) \<le> unat (w_written ?l)" "unat (w_written ?l) \<le> length (w_buffer ?l)"
    "?n + unat (w_written ?l) \<le> length (got m) + 2 ^ k"
    using w by (auto simp: writing_def Let_def word_le_nat_alt)
  then have wN: "unat (w_written ?l) \<le> length ?buf" using ring_okD(5) [OF ring] buf(1) by linarith
  have d: "unat (w_written ?l - w_part1 ?l) = unat (w_written ?l) - unat (w_part1 ?l)"
    using p1(1) by (simp add: unat_sub word_le_nat_alt)
  obtain b where b: "copy_frames 0 (w_buffer ?l) (unat (w_part1 ?l)) (unat (w_written ?l) - unat (w_part1 ?l)) ?buf = Some b"
    "length b = length ?buf" "stored b ?n (w_buffer ?l) (unat (w_written ?l))"
    "\<forall>i. i < ?n \<and> ?n + unat (w_written ?l) \<le> i + length ?buf \<longrightarrow> b ! (i mod length ?buf) = ?buf ! (i mod length ?buf)"
    using copy_second [OF buf(2) _ p1(1) wN p1(2)] first buf(1) by auto
  let ?m = "m\<lparr>wpc := Write_publish, wl := ?l, mp := (mp m)\<lparr>mBuffer := b\<rparr>\<rparr>"
  have "write_wrap ?l (mp m) = Some (Write_publish, ?l, (mp m)\<lparr>mBuffer := b\<rparr>)"
    by (simp add: write_wrap_def d b(1))
  moreover have "ring_ok k ?m" using b p1(3) by (intro ring_ok_copy [OF ring]) auto
  moreover have "reader_ok k ?m" using r by (rule reader_ok_cong) simp_all
  moreover have "writer_ok k ?m" using w b(3) by (simp add: writer_ok_def writing_def)
  ultimately show ?thesis by (auto simp: fifo_ok_def)
qed

lemma write_publish_ok:
  assumes ok: "fifo_ok k m" and pc: "wpc m = Write_publish" and st: "write_publish (wl m) (mp m) = (pc, l, p)"
  shows "fifo_ok k (m\<lparr>wpc := pc, wl := l, mp := p, sent := published (wpc m) (wl m) (sent m)\<rparr>)"
proof -
  let ?n = "length (sent m)" and ?buf = "mBuffer (mp m)" and ?w = "unat (w_written (wl m))"
  let ?m = "m\<lparr>wpc := pc, wl := l, mp := p, sent := published (wpc m) (wl m) (sent m)\<rparr>"
  have ring: "ring_ok k m" and w: "writing k m" and r: "reader_ok k m"
    and sto: "stored ?buf ?n (w_buffer (wl m)) ?w"
    using ok pc by (auto simp: fifo_ok_def writer_ok_def Let_def)
  have st': "pc = Write_after" "l = (wl m)\<lparr>w_total := w_total (wl m) + w_written (wl m)\<rparr>"
    "p = (mp m)\<lparr>mRear := w_written (wl m) + mRear (mp m)\<rparr>"
    using st by (simp_all add: write_publish_def)
  have fits: "?w \<le> length (w_buffer (wl m))" "?n + ?w \<le> length (got m) + 2 ^ k"
    using w by (auto simp: writing_def Let_def word_le_nat_alt)
  have pub: "published (wpc m) (wl m) (sent m) = sent m @ take ?w (w_buffer (wl m))"
    by (simp add: published_def pc)
  have len: "length (sent m @ take ?w (w_buffer (wl m))) = ?n + ?w" using fits by simp
  have "ring_holds (length (got m)) ?buf (sent m @ take ?w (w_buffer (wl m)))"
    unfolding ring_holds_def
  proof (intro allI impI)
    fix i assume i: "length (got m) \<le> i \<and> i < length (sent m @ take ?w (w_buffer (wl m)))"
    show "?buf ! (i mod length ?buf) = (sent m @ take ?w (w_buffer (wl m))) ! i"
    proof (cases "i < ?n")
      case True
      then show ?thesis using ring_okD(9) [OF ring] i by (simp add: ring_holds_def nth_append)
    next
      case False
      then have "i - ?n < ?w" "?n + (i - ?n) = i" using i unfolding len by auto
      then show ?thesis using sto False unfolding stored_def by (metis nth_append nth_take)
    qed
  qed
  moreover have "mRear p = of_nat (?n + ?w)" using ring st' by (simp add: ring_ok_def)
  moreover have "prefix (got m) (sent m @ take ?w (w_buffer (wl m)))"
    using ring_okD(11) [OF ring] by (rule prefix_prefix)
  ultimately have "ring_ok k ?m"
    using ring fits st' unfolding ring_ok_def pub by (simp add: len [simplified])
  moreover have "reader_ok k ?m" using r by (rule reader_ok_cong) (simp_all add: pub)
  moreover have "writer_ok k ?m" using w st' by (simp add: writer_ok_def writing_def Let_def)
  ultimately show ?thesis by (simp add: fifo_ok_def)
qed

lemma write_after_ok:
  assumes ok: "fifo_ok k m" and pc: "wpc m = Write_after" and st: "write_after now (wl m) (mp m) = (pc, l, p)"
  shows "fifo_ok k (m\<lparr>wpc := pc, wl := l, mp := p\<rparr>)"
proof -
  let ?m = "m\<lparr>wpc := pc, wl := l, mp := p\<rparr>"
  have ring: "ring_ok k m" and r: "reader_ok k m"
    and w: "w_written (wl m) \<le> w_count (wl m)" "unat (w_count (wl m)) \<le> length (w_buffer (wl m))"
    using ok pc by (auto simp: fifo_ok_def writer_ok_def Let_def)
  have same: "mBuffer p = mBuffer (mp m)" "mMaxFrames p = mMaxFrames (mp m)" "mRear p = mRear (mp m)"
    "mFront p = mFront (mp m)"
    using st by (auto simp: write_after_def write_end_def record_write_time_def Let_def split: if_splits option.splits)
  have "ring_ok k ?m" using ring by (simp add: ring_ok_def same)
  moreover have "reader_ok k ?m" using r by (rule reader_ok_cong) simp_all
  moreover have "writer_ok k ?m"
  proof -
    have "pc = Write_loop \<and> w_count l = w_count (wl m) - w_written (wl m) \<and>
        w_buffer l = drop (unat (w_written (wl m))) (w_buffer (wl m)) \<or> (\<exists>ret. pc = Write_returned ret)"
      using st by (auto simp: write_after_def write_end_def Let_def split: if_splits)
    then show ?thesis using w by (auto simp: writer_ok_def unat_sub word_le_nat_alt)
  qed
  ultimately show ?thesis by (simp add: fifo_ok_def)
qed

lemma write_step_ok:
  assumes "fifo_ok k m"
  shows "\<exists>pc l p. write_step now (wpc m) (wl m) (mp m) = Some (pc, l, p) \<and>
    fifo_ok k (m\<lparr>wpc := pc, wl := l, mp := p, sent := published (wpc m) (wl m) (sent m)\<rparr>)"
proof (cases "wpc m")
  case Write_loop
  obtain pc l p where st: "write_loop (wl m) (mp m) = (pc, l, p)" by (cases "write_loop (wl m) (mp m)") auto
  show ?thesis using write_loop_ok [OF assms Write_loop st] st Write_loop by (simp add: published_def)
next
  case Write_copy
  then show ?thesis using write_copy_ok [OF assms Write_copy] by (auto simp: published_def)
next
  case Write_wrap
  then show ?thesis using write_wrap_ok [OF assms Write_wrap] by (auto simp: published_def)
next
  case Write_publish
  obtain pc l p where st: "write_publish (wl m) (mp m) = (pc, l, p)" by (cases "write_publish (wl m) (mp m)") auto
  show ?thesis using write_publish_ok [OF assms Write_publish st] st Write_publish by simp
next
  case Write_after
  obtain pc l p where st: "write_after now (wl m) (mp m) = (pc, l, p)" by (cases "write_after now (wl m) (mp m)") auto
  show ?thesis using write_after_ok [OF assms Write_after st] st Write_after by (simp add: published_def)
next
  case (Write_returned ret)
  then have "m\<lparr>wpc := Write_returned ret, wl := wl m, mp := mp m, sent := published (wpc m) (wl m) (sent m)\<rparr> = m"
    by (cases m) (simp add: published_def)
  then show ?thesis using assms Write_returned by simp
qed

section \<open>The reader\<close>

text \<open>What a step of the reader may change, when it does not store \<open>mFront\<close>.\<close>

definition same_queue :: "'f monopipe \<Rightarrow> 'f monopipe \<Rightarrow> bool" where
  "same_queue p q \<longleftrightarrow> mBuffer q = mBuffer p \<and> mMaxFrames q = mMaxFrames p \<and> mRear q = mRear p \<and> mFront q = mFront p"

lemma fifo_ok_reader:
  assumes "fifo_ok k m" "same_queue (mp m) p" "reader_ok k (m\<lparr>rpc := pc, rl := l, mp := p, rdr := r, hist := h\<rparr>)"
  shows "fifo_ok k (m\<lparr>rpc := pc, rl := l, mp := p, rdr := r, hist := h\<rparr>)"
proof -
  have "ring_ok k m" "writer_ok k m" using assms(1) by (auto simp: fifo_ok_def)
  moreover from this(2) have "writer_ok k (m\<lparr>rpc := pc, rl := l, mp := p, rdr := r, hist := h\<rparr>)"
    by (rule writer_ok_cong) (use assms(2) in \<open>auto simp: same_queue_def\<close>)
  ultimately show ?thesis using assms(2,3) by (simp add: fifo_ok_def ring_ok_def same_queue_def)
qed

lemma same_queue_offset:
  "offsetTimestampByAudioFrames ts n p = (t, q) \<Longrightarrow> same_queue p q"
  by (auto simp: offsetTimestampByAudioFrames_def same_queue_def split: if_splits option.splits)

lemma read_start_ok:
  assumes ok: "fifo_ok k m" and len: "unat count \<le> length (r_buffer l0)"
    and st: "read_start count readPTS l0 (mp m) (rdr m) = (pc, l, p)"
  shows "fifo_ok k (m\<lparr>rpc := pc, rl := l, mp := p\<rparr>)"
proof -
  let ?n = "length (got m)" and ?d = "length (sent m) - length (got m)"
  have ring: "ring_ok k m" using ok by (simp add: fifo_ok_def)
  obtain t q where q: "offsetTimestampByAudioFrames readPTS count (mp m) = (t, q)" by fastforce
  have same: "same_queue (mp m) q" using q by (rule same_queue_offset)
  define avail where "avail = MonoPipeReader_availableToRead q (rdr m)"
  have d: "?d \<le> 2 ^ 30" using ring_okD(1,7) [OF ring] by linarith
  have avail: "avail = NEGOTIATE \<or> avail = int ?d"
  proof -
    have "of_nat ?d = mRear (mp m) - mFront (mp m)"
      using ring_okD(6) [OF ring] by (metis of_nat_unat ucast_id)
    moreover have "sint (of_nat ?d :: u32) = int ?d" using d
      by (simp add: signed_of_nat signed_take_bit_int_eq_self_iff)
    ultimately show ?thesis using same by (simp add: avail_def MonoPipeReader_availableToRead_def same_queue_def)
  qed
  have "reader_ok k (m\<lparr>rpc := pc, rl := l, mp := p\<rparr>) \<and> same_queue (mp m) p"
  proof (cases "avail \<le> 0")
    case True
    then have "pc = Read_update" "r_red l = 0" "r_newFront l = mFront q" "p = q"
      using st by (auto simp: read_start_def q avail_def [symmetric])
    then show ?thesis using same ring ring_okD(5) [OF ring]
      by (simp add: reader_ok_def reading_def next_frames_def same_queue_def ring_ok_def)
  next
    case False
    then have a: "avail = int ?d" using avail by simp
    define red where "red = (if nat avail > unat count then count else of_int avail)"
    define front where "front = mFront q AND (mMaxFrames q - 1)"
    define part1 where "part1 = (if mMaxFrames q - front > red then red else mMaxFrames q - front)"
    have red: "unat red \<le> unat count" "unat red \<le> ?d"
      using a d unat_small [of ?d] by (auto simp: red_def)
    have front: "unat front = ?n mod 2 ^ k"
      using ring same unat_of_nat_mask [of "mMaxFrames (mp m)" k ?n]
      by (simp add: front_def ring_ok_def same_queue_def)
    obtain j where j: "?n mod 2 ^ k = j" "j < 2 ^ k" by simp
    have "unat (mMaxFrames q - front) = 2 ^ k - j"
      using front j ring same by (simp add: unat_sub word_le_nat_alt ring_ok_def same_queue_def)
    then have p1: "unat part1 = min (unat red) (2 ^ k - ?n mod 2 ^ k)"
      by (auto simp: part1_def word_less_nat_alt j)
    have "read_start count readPTS l0 (mp m) (rdr m) =
        (if part1 > 0 then Read_copy else Read_returned (sint red),
         l0\<lparr>r_pts := t, r_ret := sint red, r_red := red, r_front := front, r_part1 := part1, r_newFront := red + mFront q\<rparr>, q)"
      using False unfolding read_start_def q Let_def split avail_def [symmetric] part1_def front_def red_def
      by (simp split del: if_split)
    then have "pc = (if part1 > 0 then Read_copy else Read_returned (sint red))"
      "l = l0\<lparr>r_pts := t, r_ret := sint red, r_red := red, r_front := front, r_part1 := part1, r_newFront := red + mFront q\<rparr>"
      "p = q"
      using st by simp_all
    moreover have "red + mFront q = of_nat (?n + unat red)" using ring same by (simp add: ring_ok_def same_queue_def)
    moreover have "?n + unat red \<le> length (sent m)" using red(2) ring_okD(5) [OF ring] by linarith
    ultimately show ?thesis using same red(1) len front p1
      by (simp add: reader_ok_def reading_places_def reading_def Let_def)
  qed
  then show ?thesis using fifo_ok_reader [OF ok, where p = p and pc = pc and l = l and r = "rdr m" and h = "hist m"] by simp
qed

lemma read_copy_ok:
  assumes ok: "fifo_ok k m" and pc: "rpc m = Read_copy"
  shows "\<exists>pc l. read_copy (rl m) (mp m) = Some (pc, l) \<and> fifo_ok k (m\<lparr>rpc := pc, rl := l\<rparr>)"
proof -
  let ?l = "rl m" and ?n = "length (got m)" and ?buf = "mBuffer (mp m)"
  have ring: "ring_ok k m" and rp: "reading_places k m" using ok pc by (auto simp: fifo_ok_def reader_ok_def Let_def)
  note buf = ring_okD(8,3) [OF ring]
  obtain j where j: "?n mod 2 ^ k = j" "j < 2 ^ k" by simp
  have places: "unat (r_front ?l) = j" "unat (r_part1 ?l) = min (unat (r_red ?l)) (2 ^ k - j)"
    "unat (r_red ?l) \<le> length (r_buffer ?l)" "?n + unat (r_red ?l) \<le> length (sent m)"
    using rp unfolding reading_places_def reading_def Let_def j(1) by auto
  have p1: "unat (r_part1 ?l) \<le> unat (r_red ?l)" "unat (r_part1 ?l) \<le> length ?buf - ?n mod length ?buf"
    using places(2) j(1) buf(1) by auto
  obtain d where d: "copy_frames 0 ?buf (unat (r_front ?l)) (unat (r_part1 ?l)) (r_buffer ?l) = Some d"
    "length d = length (r_buffer ?l)" "take (unat (r_part1 ?l)) d = take (unat (r_part1 ?l)) (drop ?n (sent m))"
    using load_first [OF ring_okD(9) [OF ring] order_refl _ buf(2) p1(2), of "r_buffer ?l"] p1 places j buf(1)
    by auto
  define pc' where "pc' = (if r_front ?l + r_part1 ?l = mMaxFrames (mp m) \<and> r_red ?l - r_part1 ?l > 0
      then Read_wrap else Read_update)"
  let ?m = "m\<lparr>rpc := pc', rl := ?l\<lparr>r_buffer := d\<rparr>\<rparr>"
  have st: "read_copy ?l (mp m) = Some (pc', ?l\<lparr>r_buffer := d\<rparr>)" by (simp add: read_copy_def d(1) pc'_def)
  have "j + unat (r_part1 ?l) < 2 ^ 32" using places(2) ring_okD(1) [OF ring] j(2) by simp
  then have "unat (r_front ?l + r_part1 ?l) = j + unat (r_part1 ?l)" using places(1) by (simp add: unat_word_ariths)
  then have end_iff: "r_front ?l + r_part1 ?l = mMaxFrames (mp m) \<longleftrightarrow> j + unat (r_part1 ?l) = 2 ^ k"
    using ring by (simp add: word_unat_eq_iff ring_ok_def)
  have more: "r_red ?l - r_part1 ?l > 0 \<longleftrightarrow> unat (r_part1 ?l) < unat (r_red ?l)"
    using p1(1) by (simp add: word_less_nat_alt unat_sub word_le_nat_alt)
  have rp': "reading_places k ?m" using rp d(2) by (simp add: reading_places_def reading_def Let_def)
  have "reader_ok k ?m"
  proof (cases "pc' = Read_wrap")
    case True
    then have "j + unat (r_part1 ?l) = 2 ^ k" using end_iff by (auto simp: pc'_def split: if_splits)
    then show ?thesis using True rp' d(3) j(1) by (simp add: reader_ok_def next_frames_def Let_def)
  next
    case False
    then have upd: "pc' = Read_update" by (simp add: pc'_def split: if_splits)
    have "unat (r_part1 ?l) = unat (r_red ?l)"
    proof (rule ccontr)
      assume "unat (r_part1 ?l) \<noteq> unat (r_red ?l)"
      with p1(1) have lt: "unat (r_part1 ?l) < unat (r_red ?l)" by simp
      then have "j + unat (r_part1 ?l) = 2 ^ k" using places(2) j(2) by simp
      with lt end_iff more False show False by (simp add: pc'_def)
    qed
    then show ?thesis using upd rp' d(3) by (simp add: reader_ok_def reading_places_def next_frames_def Let_def)
  qed
  then show ?thesis using st fifo_ok_reader [OF ok, where p = "mp m" and pc = pc' and l = "?l\<lparr>r_buffer := d\<rparr>" and r = "rdr m" and h = "hist m"]
    by (simp add: same_queue_def)
qed

lemma read_wrap_ok:
  assumes ok: "fifo_ok k m" and pc: "rpc m = Read_wrap"
  shows "\<exists>pc l. read_wrap (rl m) (mp m) = Some (pc, l) \<and> fifo_ok k (m\<lparr>rpc := pc, rl := l\<rparr>)"
proof -
  let ?l = "rl m" and ?n = "length (got m)" and ?buf = "mBuffer (mp m)"
  have ring: "ring_ok k m" and rp: "reading_places k m"
    and wrap: "?n mod 2 ^ k + unat (r_part1 ?l) = 2 ^ k" "next_frames (unat (r_part1 ?l)) m"
    using ok pc by (auto simp: fifo_ok_def reader_ok_def Let_def)
  note buf = ring_okD(8,3) [OF ring]
  have places: "unat (r_part1 ?l) \<le> unat (r_red ?l)"
    "unat (r_red ?l) \<le> length (r_buffer ?l)" "?n + unat (r_red ?l) \<le> length (sent m)"
    using rp unfolding reading_places_def reading_def Let_def by auto
  have rN: "unat (r_red ?l) \<le> length ?buf" using places(3) ring_okD(7,8) [OF ring] by linarith
  have d1: "unat (r_red ?l - r_part1 ?l) = unat (r_red ?l) - unat (r_part1 ?l)"
    using places(1) by (simp add: unat_sub word_le_nat_alt)
  obtain d where d: "copy_frames (unat (r_part1 ?l)) ?buf 0 (unat (r_red ?l) - unat (r_part1 ?l)) (r_buffer ?l) = Some d"
    "length d = length (r_buffer ?l)" "take (unat (r_red ?l)) d = take (unat (r_red ?l)) (drop ?n (sent m))"
    using load_second [OF ring_okD(9) [OF ring] order_refl places(3) buf(2) _ places(1) rN places(2)] wrap buf(1)
    by (auto simp: next_frames_def)
  let ?m = "m\<lparr>rpc := Read_update, rl := ?l\<lparr>r_buffer := d\<rparr>\<rparr>"
  have "reader_ok k ?m" using rp d by (simp add: reader_ok_def reading_places_def reading_def next_frames_def Let_def)
  moreover have "read_wrap ?l (mp m) = Some (Read_update, ?l\<lparr>r_buffer := d\<rparr>)"
    by (simp add: read_wrap_def d1 d(1))
  ultimately show ?thesis
    using fifo_ok_reader [OF ok, where p = "mp m" and pc = Read_update and l = "?l\<lparr>r_buffer := d\<rparr>" and r = "rdr m" and h = "hist m"]
    by (simp add: same_queue_def)
qed

text \<open>The store of \<open>mFront\<close> takes the frames that the memcpys have read out of the queue.\<close>

lemma store_front_ok:
  assumes ok: "fifo_ok k m" and pc: "rpc m = Read_store_front"
  shows "fifo_ok k (m\<lparr>rpc := Read_store_pts, mp := (mp m)\<lparr>mFront := r_newFront (rl m)\<rparr>,
                     got := taken_out (rpc m) (rl m) (got m)\<rparr>)"
proof -
  let ?r = "unat (r_red (rl m))" and ?n = "length (got m)"
  have ring: "ring_ok k m" and w: "writer_ok k m" and rd: "reading k m" and nx: "next_frames ?r m"
    using ok pc by (auto simp: fifo_ok_def reader_ok_def Let_def)
  have r: "?n + ?r \<le> length (sent m)" "?r \<le> length (r_buffer (rl m))" "r_newFront (rl m) = of_nat (?n + ?r)"
    using rd by (auto simp: reading_def Let_def)
  let ?g = "got m @ take ?r (r_buffer (rl m))"
  have out: "taken_out (rpc m) (rl m) (got m) = ?g" by (simp add: taken_out_def pc)
  have len: "length ?g = ?n + ?r" using r by simp
  obtain zs where zs: "sent m = got m @ zs" using ring_okD(11) [OF ring] by (auto simp: prefix_def)
  have "take ?r (r_buffer (rl m)) = take ?r zs" using nx by (simp add: next_frames_def zs)
  then have pre: "prefix ?g (sent m)" by (simp add: zs take_is_prefix)
  let ?m = "m\<lparr>rpc := Read_store_pts, mp := (mp m)\<lparr>mFront := r_newFront (rl m)\<rparr>, got := ?g\<rparr>"
  have "ring_holds (length ?g) (mBuffer (mp m)) (sent m)"
    using ring_holds_mono [OF ring_okD(9) [OF ring]] by simp
  then have "ring_ok k ?m" using ring pre r(3) len unfolding ring_ok_def by simp
  moreover have "writer_ok k ?m" using w by (rule writer_ok_cong) simp_all
  moreover have "reader_ok k ?m" by (auto simp: reader_ok_def delivered_def)
  ultimately show ?thesis unfolding fifo_ok_def out by blast
qed

lemma fifo_ok_ghosts [simp]:
  "fifo_ok k (m\<lparr>hist := h\<rparr>) = fifo_ok k m" "fifo_ok k (m\<lparr>opc := c\<rparr>) = fifo_ok k m"
  "fifo_ok k (m\<lparr>o_seen := n\<rparr>) = fifo_ok k m"
proof -
  show "fifo_ok k (m\<lparr>hist := h\<rparr>) = fifo_ok k m" "fifo_ok k (m\<lparr>opc := c\<rparr>) = fifo_ok k m"
    "fifo_ok k (m\<lparr>o_seen := n\<rparr>) = fifo_ok k m"
    by (simp_all add: fifo_ok_def ring_ok_def writer_ok_def writing_def reader_ok_def reading_places_def
        reading_def next_frames_def delivered_def Let_def split: write_pc.split read_pc.split)
qed

lemma fifo_ok_control:
  assumes "fifo_ok k m" "same_queue (mp m) p"
  shows "fifo_ok k (m\<lparr>mp := p\<rparr>)"
  using fifo_ok_reader [OF assms(1,2), where pc = "rpc m" and l = "rl m" and r = "rdr m" and h = "hist m"]
    reader_ok_cong [of k m "m\<lparr>mp := p\<rparr>"] assms(1)
  by (simp add: fifo_ok_def)

lemma read_step_ok:
  assumes ok: "fifo_ok k m"
  shows "\<exists>pc l p r. read_step count readPTS (rpc m) (rl m) (mp m) (rdr m) = Some (pc, l, p, r) \<and>
    fifo_ok k (m\<lparr>rpc := pc, rl := l, mp := p, rdr := r, got := taken_out (rpc m) (rl m) (got m)\<rparr>)"
proof (cases "rpc m")
  case Read_start
  then show ?thesis using ok by (simp add: fifo_ok_def reader_ok_def)
next
  case Read_copy
  then show ?thesis using read_copy_ok [OF ok Read_copy] by (auto simp: taken_out_def)
next
  case Read_wrap
  then show ?thesis using read_wrap_ok [OF ok Read_wrap] by (auto simp: taken_out_def)
next
  case Read_update
  obtain tmp p where u: "update_begin (mp m) = (tmp, p)" by fastforce
  then have "same_queue (mp m) p" by (auto simp: update_begin_def same_queue_def Let_def)
  moreover have "reader_ok k (m\<lparr>rpc := Read_store_front, rl := (rl m)\<lparr>r_tmp := tmp\<rparr>, mp := p, rdr := rdr m, hist := hist m\<rparr>)"
    using ok Read_update by (simp add: fifo_ok_def reader_ok_def reading_def next_frames_def Let_def)
  ultimately have "fifo_ok k (m\<lparr>rpc := Read_store_front, rl := (rl m)\<lparr>r_tmp := tmp\<rparr>, mp := p, rdr := rdr m, hist := hist m\<rparr>)"
    by (rule fifo_ok_reader [OF ok])
  then show ?thesis using u Read_update by (simp add: taken_out_def)
next
  case Read_store_front
  then show ?thesis using store_front_ok [OF ok Read_store_front] by simp
next
  case Read_store_pts
  let ?p = "(mp m)\<lparr>mNextRdPTS := r_pts (rl m)\<rparr>"
  have "fifo_ok k (m\<lparr>rpc := Read_update_end, rl := rl m, mp := ?p, rdr := rdr m, hist := hist m\<rparr>)"
    using ok Read_store_pts
    by (intro fifo_ok_reader [OF ok]) (auto simp: same_queue_def fifo_ok_def reader_ok_def delivered_def)
  then show ?thesis using Read_store_pts by (simp add: taken_out_def)
next
  case Read_update_end
  let ?p = "update_end (r_tmp (rl m)) (mp m)" and ?r = "(rdr m)\<lparr>mFramesRead := mFramesRead (rdr m) + r_red (rl m)\<rparr>"
  have "fifo_ok k (m\<lparr>rpc := Read_returned (r_ret (rl m)), rl := rl m, mp := ?p, rdr := ?r, hist := hist m\<rparr>)"
    by (rule fifo_ok_reader [OF ok]) (simp_all add: same_queue_def update_end_def reader_ok_def)
  then show ?thesis using Read_update_end by (simp add: taken_out_def)
next
  case (Read_returned ret)
  then have "m\<lparr>rpc := Read_returned ret, rl := rl m, mp := mp m, rdr := rdr m, got := taken_out (rpc m) (rl m) (got m)\<rparr> = m"
    by (cases m) (simp add: taken_out_def)
  then show ?thesis using ok Read_returned by simp
qed

section \<open>All interleavings\<close>

lemma timestamp_end_same:
  "timestamp_end front pts p = (ret, ts, q) \<Longrightarrow> same_queue p q"
  by (auto simp: timestamp_end_def same_queue_def dest!: same_queue_offset split: if_splits prod.splits)

lemma write_call_ok:
  assumes "fifo_ok k m" "unat count \<le> length buffer" "write_call buffer count (mp m) = (pc, l)"
  shows "fifo_ok k (m\<lparr>wpc := pc, wl := l\<rparr>)"
proof -
  have "ring_ok k (m\<lparr>wpc := pc, wl := l\<rparr>)" "writer_ok k (m\<lparr>wpc := pc, wl := l\<rparr>)"
    using assms by (auto simp: fifo_ok_def ring_ok_def writer_ok_def write_call_def Let_def split: if_splits)
  moreover have "reader_ok k (m\<lparr>wpc := pc, wl := l\<rparr>)"
    using assms(1) reader_ok_cong [of k m "m\<lparr>wpc := pc, wl := l\<rparr>"] by (simp add: fifo_ok_def)
  ultimately show ?thesis by (simp add: fifo_ok_def)
qed

lemma mono_step_fifo: "mono_step m m' \<Longrightarrow> fifo_ok k m \<Longrightarrow> fifo_ok k m'"
proof (induction rule: mono_step.induct)
  case (Call_write m ret count buffer pc l)
  then show ?case by (intro write_call_ok)
next
  case (Write now m pc l p)
  then show ?case using write_step_ok [OF Write.prems, of now] by simp
next
  case (Control p setpoint m b)
  have "same_queue (mp m) p" using Control.hyps by (auto simp: same_queue_def setAvgFrames_def shutdown_def)
  then show ?case by (rule fifo_ok_control [OF Control.prems])
next
  case (Call_read m ret count dst readPTS pc l p r)
  then have st: "read_start count readPTS (no_read dst) (mp m) (rdr m) = (pc, l, p)" and "r = rdr m"
    by (auto split: prod.splits)
  moreover have "unat count \<le> length (r_buffer (no_read dst))" using Call_read.hyps by (simp add: no_read_def)
  ultimately show ?case using read_start_ok [OF Call_read.prems _ st] by simp
next
  case (Read m pc l p r)
  then show ?case using read_step_ok [OF Read.prems, of 0 0] by simp
next
  case (Observe m)
  then show ?case by simp
next
  case (Answer m front pts ret ts p)
  then show ?case using fifo_ok_control [of k "m\<lparr>opc := Obs_idle\<rparr>" p] timestamp_end_same [OF Answer.hyps(2)]
    by simp
qed

lemma new_mono_ok:
  assumes "Format_channelCount format \<noteq> 0" "unat reqFrames \<le> 2 ^ 30"
    "unat (roundup reqFrames) * unat (Format_frameSize format) < 2 ^ 32"
    "new_MonoPipe reqFrames format writeCanBlock localFreq junk = p0"
    "negotiate offers n p0 = (i, n', c, p)"
  shows "fifo_ok (ceillog2 (unat reqFrames)) (new_mono p r)"
proof -
  have "same_queue p0 p" using assms(5) by (auto simp: negotiate_def same_queue_def split: if_splits option.splits)
  then show ?thesis using malloc_ring [OF assms(1-3)] assms(4)
    by (auto simp: same_queue_def new_mono_def new_MonoPipe_def fifo_ok_def ring_ok_def writer_ok_def reader_ok_def
        ring_holds_def Let_def)
qed

lemma mono_reach_fifo: "mono_reach m \<Longrightarrow> \<exists>k. fifo_ok k m"
proof (induction rule: mono_reach.induct)
  case Start
  then show ?case using new_mono_ok by blast
next
  case Step
  then show ?case using mono_step_fifo by blast
qed

section \<open>Frames in order\<close>

text \<open>The places of the ring that the memcpy at hand writes, and those that it reads.\<close>

definition places_written :: "'f mono \<Rightarrow> nat set" where
  "places_written m =
     (case wpc m of
        Write_copy \<Rightarrow> {unat (w_rear (wl m)) ..< unat (w_rear (wl m)) + unat (w_part1 (wl m))}
      | Write_wrap \<Rightarrow> {0 ..< unat (w_written (wl m)) - unat (w_part1 (wl m))}
      | _ \<Rightarrow> {})"

definition places_read :: "'f mono \<Rightarrow> nat set" where
  "places_read m =
     (case rpc m of
        Read_copy \<Rightarrow> {unat (r_front (rl m)) ..< unat (r_front (rl m)) + unat (r_part1 (rl m))}
      | Read_wrap \<Rightarrow> {0 ..< unat (r_red (rl m)) - unat (r_part1 (rl m))}
      | _ \<Rightarrow> {})"

text \<open>A place of a transfer from position \<open>n\<close> of the stream is that of one of its frames.\<close>

lemma transfer_place:
  fixes N :: nat
  assumes "0 < N" "part = min c (N - n mod N)"
  shows "j \<in> {n mod N ..< n mod N + part} \<Longrightarrow> \<exists>i. n \<le> i \<and> i < n + c \<and> j = i mod N"
    "n mod N + part = N \<Longrightarrow> c \<le> N \<Longrightarrow> j \<in> {0 ..< c - part} \<Longrightarrow> \<exists>i. n \<le> i \<and> i < n + c \<and> j = i mod N"
proof -
  obtain b where b: "n mod N = b" "b < N" using assms(1) by simp
  show "\<exists>i. n \<le> i \<and> i < n + c \<and> j = i mod N" if "j \<in> {n mod N ..< n mod N + part}"
  proof (intro exI [of _ "n + (j - b)"] conjI)
    have j: "b \<le> j" "j < b + part" using that b by auto
    then show "n \<le> n + (j - b)" "n + (j - b) < n + c" using assms(2) by auto
    show "j = (n + (j - b)) mod N"
      using mod_step [OF assms(1), of n "n + (j - b)"] j assms(2) b by auto
  qed
  show "\<exists>i. n \<le> i \<and> i < n + c \<and> j = i mod N" if "n mod N + part = N" "c \<le> N" "j \<in> {0 ..< c - part}"
  proof (intro exI [of _ "n + (part + j)"] conjI)
    show "n \<le> n + (part + j)" "n + (part + j) < n + c" using that(3) by auto
    show "j = (n + (part + j)) mod N"
      using mod_step [OF assms(1), of n "n + (part + j)"] that b by auto
  qed
qed

lemma places_disjoint:
  assumes ok: "fifo_ok k m"
  shows "places_written m \<inter> places_read m = {}"
proof -
  let ?N = "(2 :: nat) ^ k" and ?s = "length (sent m)" and ?g = "length (got m)"
  have ring: "ring_ok k m" using ok by (simp add: fifo_ok_def)
  note le = ring_okD(5,7) [OF ring]
  have w: "\<exists>i. ?s \<le> i \<and> i < ?g + ?N \<and> j = i mod ?N" if "j \<in> places_written m" for j
  proof -
    have "writing k m" and wrap: "wpc m = Write_wrap \<Longrightarrow> ?s mod ?N + unat (w_part1 (wl m)) = ?N"
      using ok that by (auto simp: fifo_ok_def writer_ok_def places_written_def Let_def split: write_pc.splits)
    then have w: "?s + unat (w_written (wl m)) \<le> ?g + ?N" "unat (w_rear (wl m)) = ?s mod ?N"
      "unat (w_part1 (wl m)) = min (unat (w_written (wl m))) (?N - ?s mod ?N)"
      by (auto simp: writing_def Let_def)
    have c: "unat (w_written (wl m)) \<le> ?N" using w(1) le by linarith
    have "\<exists>i. ?s \<le> i \<and> i < ?s + unat (w_written (wl m)) \<and> j = i mod ?N"
      using that transfer_place [OF _ w(3), of j] wrap c w(2)
      by (auto simp: places_written_def split: write_pc.splits)
    then obtain i where "?s \<le> i" "i < ?s + unat (w_written (wl m))" "j = i mod ?N" by blast
    moreover from this(2) w(1) have "i < ?g + ?N" by linarith
    ultimately show ?thesis by blast
  qed
  have r: "\<exists>i. ?g \<le> i \<and> i < ?s \<and> j = i mod ?N" if "j \<in> places_read m" for j
  proof -
    have "reading_places k m" and wrap: "rpc m = Read_wrap \<Longrightarrow> ?g mod ?N + unat (r_part1 (rl m)) = ?N"
      using ok that by (auto simp: fifo_ok_def reader_ok_def places_read_def Let_def split: read_pc.splits)
    then have r: "?g + unat (r_red (rl m)) \<le> ?s" "unat (r_front (rl m)) = ?g mod ?N"
      "unat (r_part1 (rl m)) = min (unat (r_red (rl m))) (?N - ?g mod ?N)"
      by (auto simp: reading_places_def reading_def Let_def)
    have c: "unat (r_red (rl m)) \<le> ?N" using r(1) le by linarith
    have "\<exists>i. ?g \<le> i \<and> i < ?g + unat (r_red (rl m)) \<and> j = i mod ?N"
      using that transfer_place [OF _ r(3), of j] wrap c r(2)
      by (auto simp: places_read_def split: read_pc.splits)
    then obtain i where "?g \<le> i" "i < ?g + unat (r_red (rl m))" "j = i mod ?N" by blast
    moreover from this(2) r(1) have "i < ?s" by linarith
    ultimately show ?thesis by blast
  qed
  have far: "i mod ?N \<noteq> i' mod ?N" if "?g \<le> i" "i < i'" "i' < ?g + ?N" for i i'
  proof
    assume "i mod ?N = i' mod ?N"
    then have "(i' - i) mod ?N = 0" using that by (metis mod_eq_dvd_iff_nat less_imp_le dvd_eq_mod_eq_0)
    moreover have "0 < i' - i" "i' - i < ?N" using that by auto
    ultimately show False by simp
  qed
  have False if "j \<in> places_written m" "j \<in> places_read m" for j
  proof -
    from w [OF that(1)] obtain i' where i': "?s \<le> i'" "i' < ?g + ?N" "j = i' mod ?N" by blast
    from r [OF that(2)] obtain i where i: "?g \<le> i" "i < ?s" "j = i mod ?N" by blast
    show False using far [OF i(1) _ i'(2)] i i' by simp
  qed
  then show ?thesis by blast
qed

text \<open>C36: In every reachable state of a pipe of N frames (N the size asked for, rounded up to a power of
  2), whatever the writer, the reader, the other callers of the pipe and the clock have done: the
  frames the reader has taken are a prefix of those the writer has published, so none is lost,
  repeated or reordered, also after the 32-bit counters have wrapped around; at most N of them are
  in the pipe; the frames that the writer takes for free are those that neither is in the pipe; no
  memcpy of the writer touches a place that the reader is copying; and no step of either thread
  leaves a buffer.
\<close>

theorem monopipe_fifo:
  assumes "mono_reach m"
  shows "prefix (got m) (sent m) \<and>
    length (sent m) - length (got m) + unat (frames_free (mp m)) = unat (mMaxFrames (mp m)) \<and>
    places_written m \<inter> places_read m = {} \<and>
    write_step now (wpc m) (wl m) (mp m) \<noteq> None \<and>
    read_step count readPTS (rpc m) (rl m) (mp m) (rdr m) \<noteq> None"
proof -
  obtain k where ok: "fifo_ok k m" using mono_reach_fifo [OF assms] by blast
  then have ring: "ring_ok k m" by (simp add: fifo_ok_def)
  have "length (sent m) - length (got m) \<le> 2 ^ k" using ring_okD(7) [OF ring] by linarith
  then show ?thesis
    using ring_okD(10,11) [OF ring] frames_free_exact [OF ring] places_disjoint [OF ok]
      write_step_ok [OF ok, of now] read_step_ok [OF ok, of count readPTS]
    by auto
qed

text \<open>Runs as functions: a step of the thread at hand, which always has one.\<close>

definition call_writer :: "'f list \<Rightarrow> 'f mono \<Rightarrow> 'f mono" where
  "call_writer xs m = (let (pc, l) = write_call xs (of_nat (length xs)) (mp m) in m\<lparr>wpc := pc, wl := l\<rparr>)"

definition run_writer :: "'f mono \<Rightarrow> 'f mono" where
  "run_writer m =
     (case write_step None (wpc m) (wl m) (mp m) of
        Some (pc, l, p) \<Rightarrow> m\<lparr>wpc := pc, wl := l, mp := p, sent := published (wpc m) (wl m) (sent m)\<rparr>
      | None \<Rightarrow> m)"

definition call_reader :: "'f list \<Rightarrow> u64 \<Rightarrow> 'f mono \<Rightarrow> 'f mono" where
  "call_reader dst readPTS m =
     (case read_step (of_nat (length dst)) readPTS Read_start (no_read dst) (mp m) (rdr m) of
        Some (pc, l, p, r) \<Rightarrow> m\<lparr>rpc := pc, rl := l, mp := p, rdr := r\<rparr>
      | None \<Rightarrow> m)"

definition run_reader :: "'f mono \<Rightarrow> 'f mono" where
  "run_reader m =
     (case read_step 0 0 (rpc m) (rl m) (mp m) (rdr m) of
        Some (pc, l, p, r) \<Rightarrow>
          m\<lparr>rpc := pc, rl := l, mp := p, rdr := r, got := taken_out (rpc m) (rl m) (got m),
            hist := (if rpc m = Read_update_end then hist m @ [(mFront p, mNextRdPTS p)] else hist m)\<rparr>
      | None \<Rightarrow> m)"

definition run_observer :: "'f mono \<Rightarrow> 'f mono" where
  "run_observer m = m\<lparr>opc := observe_step (opc m) (mp m),
                      o_seen := (if opc m = Obs_idle then length (hist m) else o_seen m)\<rparr>"

lemma unat_length_le: "unat (of_nat (length xs) :: u32) \<le> length xs"
  by (simp add: unsigned_of_nat)

lemma mono_reach_run:
  assumes "mono_reach m"
  shows "wpc m = Write_returned ret \<Longrightarrow> mono_reach (call_writer xs m)" "mono_reach (run_writer m)"
    "rpc m = Read_returned ret' \<Longrightarrow> mono_reach (call_reader dst readPTS m)"
    "rpc m \<noteq> Read_start \<Longrightarrow> mono_reach (run_reader m)" "mono_reach (run_observer m)"
proof -
  show "mono_reach (call_writer xs m)" if "wpc m = Write_returned ret"
    using Step [OF assms Call_write [OF that unat_length_le]]
    by (simp add: call_writer_def split: prod.split)
  show "mono_reach (run_writer m)"
    using Step [OF assms Write] assms by (auto simp: run_writer_def split: option.split)
  show "mono_reach (call_reader dst readPTS m)" if "rpc m = Read_returned ret'"
    using Step [OF assms Call_read [OF that unat_length_le]] assms
    by (auto simp: call_reader_def split: option.split)
  show "mono_reach (run_reader m)" if "rpc m \<noteq> Read_start"
    using Step [OF assms Read [OF that]] assms by (auto simp: run_reader_def split: option.split)
  show "mono_reach (run_observer m)"
    using Step [OF assms Observe] by (simp add: run_observer_def)
qed

text \<open>A pipe for two frames of 44.1 kHz mono, with both ends negotiated.\<close>

definition small_pipe :: "nat monopipe" where
  "small_pipe = (new_MonoPipe 2 0x0E False None (\<lambda>_. 0))\<lparr>mNegotiated := True\<rparr>"

definition small_reader :: monopipe_reader where
  "small_reader = (new_MonoPipeReader small_pipe)\<lparr>mNegotiated := True\<rparr>"

lemma small_ring: "malloc_frames 2 0x0E = 2" "roundup 2 = 2"
proof -
  have f: "Format_channelCount 0x0E = 1" "Format_frameSize 0x0E = 2"
    by (simp_all add: Format_channelCount_def Format_frameSize_def)
  have "ceillog2 2 = 1" using ceillog2_2_power [of 1] by simp
  then have two: "unat (roundup 2) = 2" using roundup_ceillog2 [of 2] by simp
  then show r: "roundup 2 = 2" by (simp add: word_unat_eq_iff)
  show "malloc_frames 2 0x0E = 2" using malloc_ring [of "0x0E" 2] f two unfolding r by simp
qed

lemma small_pipe_reach: "mono_reach (new_mono small_pipe small_reader)"
proof (rule mono_reach.Start)
  show "negotiate [0x0E] 0 (new_MonoPipe 2 0x0E False None (\<lambda>_. 0)) = (0, 0, None, small_pipe)"
    by (simp add: negotiate_def small_pipe_def new_MonoPipe_def)
  show "negotiate [0x0E] 0 (new_MonoPipeReader (new_MonoPipe 2 0x0E False None (\<lambda>_. 0))) = (0, 0, None, small_reader)"
    by (simp add: negotiate_def small_reader_def small_pipe_def new_MonoPipeReader_def new_MonoPipe_def)
  show "unat (roundup 2) * unat (Format_frameSize 0x0E) < 2 ^ 32"
    by (simp add: small_ring Format_frameSize_def Format_channelCount_def)
qed (simp_all add: Format_channelCount_def)

text \<open>Two frames are written, and the reader has taken one of them.\<close>

lemma small_pipe_fields:
  "small_pipe = \<lparr>mNegotiated = True, mFormat = 0x0E, mBitShift = 1, mUpdateSeq = 0, mReqFrames = 2, mMaxFrames = 2,
      mBuffer = [0, 0], mFront = 0, mRear = 0, mNextRdPTS = kInvalidPTS, mWriteTsValid = False, mWriteTs = (0, 0),
      mSetpoint = 1, mWriteCanBlock = False,
      mSamplesToLocalTime = \<lparr>a_zero = 0, b_zero = 0, a_to_b_numer = 0, a_to_b_denom = 0\<rparr>,
      mIsShutdown = False, mFramesWritten = 0\<rparr>"
  by (simp add: small_pipe_def new_MonoPipe_def small_ring samples_to_local_time_def Format_frameBitShift_def
      Format_channelCount_def upt_rec)

definition two_written :: "nat mono" where
  "two_written = (new_mono small_pipe small_reader)
     \<lparr>mp := small_pipe\<lparr>mBuffer := [11, 12], mRear := 2, mFramesWritten := 2\<rparr>, wpc := Write_returned 2,
      wl := \<lparr>w_buffer = [11, 12], w_count = 2, w_total = 2, w_avail = 2, w_written = 2, w_rear = 0, w_part1 = 2\<rparr>,
      sent := [11, 12]\<rparr>"

lemma two_written_reach: "mono_reach two_written"
proof -
  let ?l = "\<lparr>w_buffer = [11, 12], w_count = 2, w_total = 0, w_avail = 0, w_written = 0, w_rear = 0, w_part1 = 0\<rparr>"
  let ?l1 = "\<lparr>w_buffer = [11, 12], w_count = 2, w_total = 0, w_avail = 2, w_written = 2, w_rear = 0, w_part1 = 2\<rparr>"
  let ?m = "new_mono small_pipe small_reader"
  let ?m1 = "?m\<lparr>wpc := Write_loop, wl := ?l\<rparr>"
  let ?m2 = "?m\<lparr>wpc := Write_copy, wl := ?l1\<rparr>"
  let ?m3 = "?m\<lparr>wpc := Write_publish, wl := ?l1, mp := small_pipe\<lparr>mBuffer := [11, 12]\<rparr>\<rparr>"
  let ?m4 = "?m\<lparr>wpc := Write_after, wl := ?l1\<lparr>w_total := 2\<rparr>, mp := small_pipe\<lparr>mBuffer := [11, 12], mRear := 2\<rparr>,
                sent := [11, 12]\<rparr>"
  have "mono_reach (call_writer [11, 12] ?m)"
    by (rule mono_reach_run(1) [OF small_pipe_reach, of 0]) (simp add: new_mono_def)
  moreover have "call_writer [11, 12] ?m = ?m1"
    by (simp add: call_writer_def write_call_def new_mono_def small_pipe_fields)
  ultimately have 1: "mono_reach ?m1" by simp
  have "run_writer ?m1 = ?m2"
    by (simp add: run_writer_def write_loop_def frames_free_def new_mono_def small_pipe_fields published_def)
  then have 2: "mono_reach ?m2" using mono_reach_run(2) [OF 1] by simp
  have "run_writer ?m2 = ?m3"
    by (simp add: run_writer_def write_copy_def copy_frames_def new_mono_def small_pipe_fields published_def)
  then have 3: "mono_reach ?m3" using mono_reach_run(2) [OF 2] by simp
  have "run_writer ?m3 = ?m4"
    by (simp add: run_writer_def write_publish_def new_mono_def small_pipe_fields published_def)
  then have 4: "mono_reach ?m4" using mono_reach_run(2) [OF 3] by simp
  have "run_writer ?m4 = two_written"
    by (simp add: run_writer_def write_after_def write_end_def new_mono_def small_pipe_fields published_def two_written_def)
  then show ?thesis using mono_reach_run(2) [OF 4] by simp
qed

text \<open>Then one of them is read.\<close>

definition one_read :: "nat mono" where
  "one_read = two_written
     \<lparr>mp := (mp two_written)\<lparr>mUpdateSeq := 1, mFront := 1\<rparr>, rdr := small_reader\<lparr>mFramesRead := 1\<rparr>,
      rpc := Read_returned 1,
      rl := \<lparr>r_buffer = [11], r_red = 1, r_front = 0, r_part1 = 1, r_newFront = 1, r_pts = kInvalidPTS,
             r_tmp = 0x80000000, r_ret = 1\<rparr>,
      got := [11], hist := [(0, kInvalidPTS), (1, kInvalidPTS)]\<rparr>"

lemma one_read_reach: "mono_reach one_read"
proof -
  let ?l = "\<lparr>r_buffer = [0], r_red = 1, r_front = 0, r_part1 = 1, r_newFront = 1, r_pts = kInvalidPTS,
             r_tmp = 0, r_ret = 1\<rparr>"
  let ?l2 = "?l\<lparr>r_buffer := [11]\<rparr>"
  let ?l3 = "?l2\<lparr>r_tmp := 0x80000000\<rparr>"
  let ?m = two_written and ?p = "(mp two_written)\<lparr>mUpdateSeq := 0x80000000\<rparr>"
  let ?m1 = "?m\<lparr>rpc := Read_copy, rl := ?l\<rparr>"
  let ?m2 = "?m\<lparr>rpc := Read_update, rl := ?l2\<rparr>"
  let ?m3 = "?m\<lparr>rpc := Read_store_front, rl := ?l3, mp := ?p\<rparr>"
  let ?m4 = "?m\<lparr>rpc := Read_store_pts, rl := ?l3, mp := ?p\<lparr>mFront := 1\<rparr>, got := [11]\<rparr>"
  let ?m5 = "?m4\<lparr>rpc := Read_update_end\<rparr>"
  note state = two_written_def new_mono_def small_pipe_fields small_reader_def new_MonoPipeReader_def
  have "mono_reach (call_reader [0] kInvalidPTS ?m)"
    by (rule mono_reach_run(3) [OF two_written_reach, of 0]) (simp add: two_written_def new_mono_def)
  moreover have "call_reader [0] kInvalidPTS ?m = ?m1"
    by (simp add: call_reader_def read_start_def offsetTimestampByAudioFrames_def MonoPipeReader_availableToRead_def
        no_read_def state)
  ultimately have 1: "mono_reach ?m1" by simp
  have "run_reader ?m1 = ?m2" by (simp add: run_reader_def read_copy_def copy_frames_def taken_out_def state)
  then have 2: "mono_reach ?m2" using mono_reach_run(4) [OF 1] by simp
  have "run_reader ?m2 = ?m3" by (simp add: run_reader_def update_begin_def taken_out_def state)
  then have 3: "mono_reach ?m3" using mono_reach_run(4) [OF 2] by simp
  have "run_reader ?m3 = ?m4" by (simp add: run_reader_def taken_out_def state)
  then have 4: "mono_reach ?m4" using mono_reach_run(4) [OF 3] by simp
  have "run_reader ?m4 = ?m5" by (simp add: run_reader_def taken_out_def state)
  then have 5: "mono_reach ?m5" using mono_reach_run(4) [OF 4] by simp
  have "run_reader ?m5 = one_read" by (simp add: run_reader_def update_end_def taken_out_def one_read_def state)
  then show ?thesis using mono_reach_run(4) [OF 5] by simp
qed

lemma monopipe_fifo_witness:
  "mono_reach one_read \<and> sent one_read = [11, 12] \<and> got one_read = [11] \<and>
   unat (frames_free (mp one_read)) = 1"
proof -
  have state: "sent one_read = [11, 12]" "got one_read = [11]" "unat (mMaxFrames (mp one_read)) = 2"
    by (simp_all add: one_read_def two_written_def small_pipe_fields)
  then show ?thesis using monopipe_fifo [OF one_read_reach] one_read_reach by simp
qed

end
