(* ===== verification/MonoPipeClock.thy ===== *)
theory MonoPipeClock
  imports MonoPipeSpec
begin

text \<open>
  The time of a pipe: \<open>updateFrontAndNRPTS\<close> and \<open>observeFrontAndNRPTS\<close> share the front and its
  time under a sequence number, whose high bit says that an update is at work.
\<close>

section \<open>Sequence numbers\<close>

definition seq_idle :: "nat \<Rightarrow> u32" where
  "seq_idle n = of_nat (n mod 2 ^ 31)"

lemma unat_seq_idle: "unat (seq_idle n) = n mod 2 ^ 31"
proof -
  have "n mod 2 ^ 31 < (2 :: nat) ^ 31" by simp
  then have "n mod 2 ^ 31 < (2 :: nat) ^ 32" by simp
  then show ?thesis unfolding seq_idle_def by (rule unat_small)
qed

lemma seq_idle_less: "seq_idle n < 0x80000000"
proof -
  have "n mod 2 ^ 31 < (2 :: nat) ^ 31" by simp
  then show ?thesis unfolding word_less_nat_alt unat_seq_idle by simp
qed

lemma seq_mask: "(w :: u32) AND 0x7FFFFFFF = take_bit 31 w"
  by (simp add: take_bit_eq_mask mask_eq_exp_minus_1)

lemma seq_idle_bits: "seq_idle n AND 0x80000000 = 0"
proof -
  have "take_bit 31 (seq_idle n) = seq_idle n"
    using seq_idle_less [of n] by (simp add: word_unat_eq_iff unsigned_take_bit_eq take_bit_nat_eq_self_iff word_less_nat_alt)
  then have "seq_idle n = seq_idle n AND 0x7FFFFFFF" by (simp add: seq_mask)
  then have "seq_idle n AND 0x80000000 = seq_idle n AND (0x7FFFFFFF AND 0x80000000)" by (metis and.assoc)
  then show ?thesis by simp
qed

lemma seq_busy_bits: "(seq_idle n OR 0x80000000) AND 0x80000000 \<noteq> 0"
proof -
  have "(seq_idle n OR 0x80000000) AND 0x80000000 = (seq_idle n AND 0x80000000) OR 0x80000000"
    by (rule bit_word_eqI) (auto simp: bit_simps)
  then show ?thesis by (simp add: seq_idle_bits)
qed

lemma seq_next: "((seq_idle n OR 0x80000000) + 1) AND 0x7FFFFFFF = seq_idle (Suc n)"
proof -
  have or: "seq_idle n OR 0x80000000 = seq_idle n + 0x80000000"
    using word_plus_and_or [of "seq_idle n" "0x80000000"] seq_idle_bits by simp
  have "unat (seq_idle n + 0x80000001) = (n mod 2 ^ 31 + 0x80000001) mod 2 ^ 32"
    by (simp add: unat_word_ariths unat_seq_idle)
  moreover have "unat (take_bit 31 w) = unat w mod 2 ^ 31" for w :: u32
    by (simp only: unsigned_take_bit_eq) (rule take_bit_eq_mod)
  ultimately have "unat (take_bit 31 (seq_idle n + 0x80000001)) = (n mod 2 ^ 31 + 0x80000001) mod 2 ^ 32 mod 2 ^ 31"
    by simp
  also have "\<dots> = (n mod 2 ^ 31 + 0x80000001) mod 2 ^ 31"
  proof -
    have "(2 :: nat) ^ 31 dvd 2 ^ 32" by (rule le_imp_power_dvd) simp
    then show ?thesis by (rule mod_mod_cancel)
  qed
  also have "\<dots> = Suc n mod 2 ^ 31"
  proof -
    have "(n mod M + (1 + M)) mod M = Suc n mod M" for M :: nat
      by (metis add.assoc add.commute mod_Suc_eq mod_add_self2 plus_1_eq_Suc)
    from this [of "2 ^ 31"] show ?thesis by simp
  qed
  also have "\<dots> = unat (seq_idle (Suc n))" by (simp add: unat_seq_idle)
  finally have "take_bit 31 (seq_idle n + 0x80000001) = seq_idle (Suc n)" by (simp only: word_unat_eq_iff)
  then show ?thesis by (simp add: or seq_mask add.assoc)
qed

lemma seq_idle_eq:
  assumes "seq_idle a = seq_idle b" "a \<le> b" "b - a < 2 ^ 31"
  shows "a = b"
proof -
  have "a mod 2 ^ 31 = b mod 2 ^ 31"
    using arg_cong [OF assms(1), of unat] by (simp only: unat_seq_idle)
  then have "(b - a) mod 2 ^ 31 = 0" using assms(2) by (metis mod_eq_dvd_iff_nat dvd_eq_mod_eq_0)
  with assms(2,3) show ?thesis by simp
qed

section \<open>Updates\<close>

definition updating :: "read_pc \<Rightarrow> bool" where
  "updating pc \<longleftrightarrow> pc = Read_store_front \<or> pc = Read_store_pts \<or> pc = Read_update_end"

definition seq_ok :: "'f mono \<Rightarrow> bool" where
  "seq_ok m \<longleftrightarrow> hist m \<noteq> [] \<and> rpc m \<noteq> Read_start \<and>
     (let n = length (hist m) - 1 in
      if updating (rpc m)
      then mUpdateSeq (mp m) = seq_idle n OR 0x80000000 \<and> r_tmp (rl m) = mUpdateSeq (mp m)
      else mUpdateSeq (mp m) = seq_idle n \<and> (mFront (mp m), mNextRdPTS (mp m)) = last (hist m))"

text \<open>
  What an observer knows: its sequence number is that of the \<open>o_seen\<close>th pair, and as long as no
  update has begun since, what it has loaded is of that pair.
\<close>

definition fresh :: "'f mono \<Rightarrow> bool" where
  "fresh m \<longleftrightarrow> length (hist m) = o_seen m \<and> \<not> updating (rpc m)"

definition seen_ok :: "u32 \<Rightarrow> 'f mono \<Rightarrow> bool" where
  "seen_ok s m \<longleftrightarrow> 0 < o_seen m \<and> o_seen m \<le> length (hist m) \<and>
     (s AND 0x80000000 = 0 \<longrightarrow> s = seq_idle (o_seen m - 1))"

definition observer_ok :: "'f mono \<Rightarrow> bool" where
  "observer_ok m \<longleftrightarrow>
     (case opc m of
        Obs_idle \<Rightarrow> True
      | Obs_seq s \<Rightarrow> seen_ok s m
      | Obs_front s front \<Rightarrow> seen_ok s m \<and> (fresh m \<longrightarrow> front = fst (last (hist m)))
      | Obs_pts s front pts \<Rightarrow> seen_ok s m \<and> (fresh m \<longrightarrow> (front, pts) = last (hist m))
      | Obs_done front pts \<Rightarrow> True)"

definition same_time :: "'f monopipe \<Rightarrow> 'f monopipe \<Rightarrow> bool" where
  "same_time p q \<longleftrightarrow> mUpdateSeq q = mUpdateSeq p \<and> mFront q = mFront p \<and> mNextRdPTS q = mNextRdPTS p"

lemma write_step_same_time:
  "write_step now pc l p = Some (pc', l', q) \<Longrightarrow> same_time p q"
  by (cases pc)
    (auto simp: same_time_def write_loop_def write_end_def write_copy_def write_wrap_def write_publish_def
      write_after_def record_write_time_def Let_def split: if_splits option.splits)

lemma offset_same_time: "offsetTimestampByAudioFrames ts n p = (t, q) \<Longrightarrow> same_time p q"
  by (auto simp: offsetTimestampByAudioFrames_def same_time_def split: if_splits option.splits)

lemma timestamp_end_same_time: "timestamp_end front pts p = (ret, ts, q) \<Longrightarrow> same_time p q"
  by (auto simp: timestamp_end_def same_time_def dest!: offset_same_time split: if_splits prod.splits)

lemma read_start_same_time:
  assumes "read_start count readPTS l p r = (pc, l', q)"
  shows "same_time p q" "\<not> updating pc" "pc \<noteq> Read_start"
proof -
  obtain t q' where o: "offsetTimestampByAudioFrames readPTS count p = (t, q')" by fastforce
  have "q = q' \<and> (pc = Read_update \<or> pc = Read_copy \<or> (\<exists>x. pc = Read_returned x))"
    using assms by (auto simp: read_start_def o Let_def split: if_splits)
  then show "same_time p q" "\<not> updating pc" "pc \<noteq> Read_start"
    using offset_same_time [OF o] by (auto simp: updating_def)
qed

section \<open>The invariant\<close>

lemma same_time_ok:
  assumes "seq_ok m \<and> observer_ok m" "same_time (mp m) (mp m')" "hist m' = hist m" "opc m' = opc m"
    "o_seen m' = o_seen m" "rpc m' = rpc m \<and> rl m' = rl m \<or> \<not> updating (rpc m) \<and> \<not> updating (rpc m') \<and> rpc m' \<noteq> Read_start"
  shows "seq_ok m' \<and> observer_ok m'"
proof -
  have "updating (rpc m') = updating (rpc m)" "rpc m' \<noteq> Read_start"
    using assms(1,6) by (auto simp: seq_ok_def)
  then have "seq_ok m'" using assms(1-3,6) by (auto simp: seq_ok_def same_time_def Let_def)
  moreover have "observer_ok m'" using assms(1,3-5) \<open>updating (rpc m') = updating (rpc m)\<close>
    by (auto simp: observer_ok_def seen_ok_def fresh_def split: observe_pc.splits)
  ultimately show ?thesis by simp
qed

text \<open>While an update is at work, an observer's pair is not the last one.\<close>

lemma observer_updating:
  assumes "observer_ok m" "opc m' = opc m" "o_seen m' = o_seen m" "updating (rpc m')" "hist m' = hist m"
  shows "observer_ok m'"
  using assms by (auto simp: observer_ok_def seen_ok_def fresh_def split: observe_pc.splits)

lemma observer_updated:
  assumes "observer_ok m" "opc m' = opc m" "o_seen m' = o_seen m" "hist m' = hist m @ [x]"
  shows "observer_ok m'"
  using assms by (auto simp: observer_ok_def seen_ok_def fresh_def split: observe_pc.splits)

lemma read_step_seq:
  assumes ok: "seq_ok m \<and> observer_ok m"
    and st: "read_step 0 0 (rpc m) (rl m) (mp m) (rdr m) = Some (pc, l, p, r)"
  defines "m' \<equiv> m\<lparr>rpc := pc, rl := l, mp := p, rdr := r, got := taken_out (rpc m) (rl m) (got m),
                 hist := (if rpc m = Read_update_end then hist m @ [(mFront p, mNextRdPTS p)] else hist m)\<rparr>"
  shows "seq_ok m' \<and> observer_ok m'"
proof -
  have sel: "opc m' = opc m" "o_seen m' = o_seen m" "rpc m' = pc" "rl m' = l" "mp m' = p"
    by (simp_all add: m'_def)
  show ?thesis
  proof (cases "rpc m")
    case Read_start
    then show ?thesis using ok by (simp add: seq_ok_def)
  next
    case Read_copy
    then have "p = mp m" "pc = Read_wrap \<or> pc = Read_update" using st by (auto simp: read_copy_def split: if_splits)
    then show ?thesis using Read_copy sel
      by (intro same_time_ok [OF ok]) (auto simp: m'_def updating_def same_time_def)
  next
    case Read_wrap
    then have "p = mp m" "pc = Read_update" using st by (auto simp: read_wrap_def)
    then show ?thesis using Read_wrap sel
      by (intro same_time_ok [OF ok]) (auto simp: m'_def updating_def same_time_def)
  next
    case Read_update
    then have "pc = Read_store_front" "mUpdateSeq p = mUpdateSeq (mp m) OR 0x80000000" "r_tmp l = mUpdateSeq p"
      "hist m' = hist m"
      using st by (auto simp: update_begin_def Let_def m'_def)
    then show ?thesis using ok sel Read_update observer_updating [of m m']
      by (auto simp: seq_ok_def updating_def Let_def)
  next
    case Read_store_front
    then have "pc = Read_store_pts" "mUpdateSeq p = mUpdateSeq (mp m)" "l = rl m" "hist m' = hist m"
      using st by (auto simp: m'_def)
    then show ?thesis using ok sel Read_store_front observer_updating [of m m']
      by (auto simp: seq_ok_def updating_def Let_def)
  next
    case Read_store_pts
    then have "pc = Read_update_end" "mUpdateSeq p = mUpdateSeq (mp m)" "l = rl m" "hist m' = hist m"
      using st by (auto simp: m'_def)
    then show ?thesis using ok sel Read_store_pts observer_updating [of m m']
      by (auto simp: seq_ok_def updating_def Let_def)
  next
    case Read_update_end
    then have new: "pc = Read_returned (r_ret l)" "mUpdateSeq p = (r_tmp (rl m) + 1) AND 0x7FFFFFFF"
      "hist m' = hist m @ [(mFront p, mNextRdPTS p)]"
      using st by (auto simp: update_end_def m'_def)
    have "r_tmp (rl m) = seq_idle (length (hist m) - 1) OR 0x80000000" "hist m \<noteq> []"
      using ok Read_update_end by (auto simp: seq_ok_def updating_def Let_def)
    then have "mUpdateSeq p = seq_idle (length (hist m))" using new(2) seq_next [of "length (hist m) - 1"] by simp
    then show ?thesis using ok sel new observer_updated [of m m']
      by (auto simp: seq_ok_def updating_def Let_def)
  next
    case (Read_returned ret)
    then have "p = mp m" "pc = Read_returned ret" using st by auto
    then show ?thesis using Read_returned sel
      by (intro same_time_ok [OF ok]) (auto simp: m'_def updating_def same_time_def)
  qed
qed

lemma observe_seq:
  assumes ok: "seq_ok m \<and> observer_ok m"
  defines "m' \<equiv> m\<lparr>opc := observe_step (opc m) (mp m),
                  o_seen := (if opc m = Obs_idle then length (hist m) else o_seen m)\<rparr>"
  shows "seq_ok m' \<and> observer_ok m'"
proof -
  have "seq_ok m'" using ok by (simp add: seq_ok_def m'_def Let_def)
  moreover have cur: "(mFront (mp m), mNextRdPTS (mp m)) = last (hist m)" if "\<not> updating (rpc m)"
    using ok that by (simp add: seq_ok_def Let_def)
  then have fst: "mFront (mp m) = fst (last (hist m))" "mNextRdPTS (mp m) = snd (last (hist m))"
    if "\<not> updating (rpc m)" using that by (metis fst_conv snd_conv)+
  have "observer_ok m'"
  proof (cases "opc m")
    case Obs_idle
    have "mUpdateSeq (mp m) = seq_idle (length (hist m) - 1)" if "mUpdateSeq (mp m) AND 0x80000000 = 0"
      using ok that seq_busy_bits [of "length (hist m) - 1"] by (auto simp: seq_ok_def Let_def split: if_splits)
    then show ?thesis using ok Obs_idle by (auto simp: observer_ok_def m'_def seen_ok_def seq_ok_def)
  qed (use ok fst in \<open>auto simp: observer_ok_def m'_def seen_ok_def fresh_def\<close>)
  ultimately show ?thesis by simp
qed

lemma mono_step_seq: "mono_step m m' \<Longrightarrow> seq_ok m \<and> observer_ok m \<Longrightarrow> seq_ok m' \<and> observer_ok m'"
proof (induction rule: mono_step.induct)
  case (Call_write m ret count buffer pc l)
  show ?case by (rule same_time_ok [OF Call_write.prems]) (simp_all add: same_time_def)
next
  case (Write now m pc l p)
  show ?case by (rule same_time_ok [OF Write.prems]) (simp_all add: write_step_same_time [OF Write.hyps])
next
  case (Control p setpoint m b)
  then show ?case
    by (intro same_time_ok [OF Control.prems]) (auto simp: same_time_def setAvgFrames_def shutdown_def)
next
  case (Call_read m ret count dst readPTS pc l p r)
  then have "read_start count readPTS (no_read dst) (mp m) (rdr m) = (pc, l, p)"
    by (auto split: prod.splits)
  from read_start_same_time [OF this] show ?case using Call_read.hyps(1)
    by (intro same_time_ok [OF Call_read.prems]) (auto simp: updating_def)
next
  case (Read m pc l p r)
  then show ?case by (intro read_step_seq)
next
  case (Observe m)
  then show ?case by (rule observe_seq)
next
  case (Answer m front pts ret ts p)
  have "seq_ok (m\<lparr>opc := Obs_idle\<rparr>) \<and> observer_ok (m\<lparr>opc := Obs_idle\<rparr>)"
    using Answer.prems by (simp add: seq_ok_def observer_ok_def Let_def)
  then show ?case
    by (rule same_time_ok) (simp_all add: timestamp_end_same_time [OF Answer.hyps(2)])
qed

lemma mono_reach_seq: "mono_reach m \<Longrightarrow> seq_ok m \<and> observer_ok m"
proof (induction rule: mono_reach.induct)
  case (Start format reqFrames writeCanBlock localFreq junk p0 offers n i n' c p offers' j i' j' c' r)
  have "same_time p0 p" using Start.hyps(5) by (auto simp: negotiate_def same_time_def split: if_splits option.splits)
  then show ?case using Start.hyps(4)
    by (auto simp: seq_ok_def observer_ok_def new_mono_def new_MonoPipe_def updating_def same_time_def seq_idle_def)
next
  case (Step m m')
  then show ?case using mono_step_seq by blast
qed

text \<open>C37: When \<open>observeFrontAndNRPTS\<close> ends its loop, in any interleaving with the reader's updates, the
  front and the time that it returns are one pair, not halves of two updates: the pair that the last
  finished update has stored, and which is stored at this moment.  The 31-bit sequence number says
  so as long as fewer than 2^31 updates happen between its two loads of the number.
\<close>

theorem observation_consistent:
  assumes "mono_reach m" "opc m = Obs_pts seqOne f t" "observe_step (opc m) (mp m) = Obs_done front pts"
    "length (hist m) - o_seen m < 2 ^ 31"
  shows "(front, pts) = last (hist m) \<and> (mFront (mp m), mNextRdPTS (mp m)) = (front, pts) \<and>
    length (hist m) = o_seen m \<and> \<not> updating (rpc m)"
proof -
  have ok: "seq_ok m" "observer_ok m" using mono_reach_seq [OF assms(1)] by auto
  have same: "seqOne = mUpdateSeq (mp m)" "seqOne AND 0x80000000 = 0" "front = f" "pts = t"
    using assms(2,3) by (auto split: if_splits)
  have seen: "0 < o_seen m" "o_seen m \<le> length (hist m)" "seqOne = seq_idle (o_seen m - 1)"
    and pair: "fresh m \<Longrightarrow> (f, t) = last (hist m)"
    using ok(2) assms(2) same(2) by (auto simp: observer_ok_def seen_ok_def)
  have still: "\<not> updating (rpc m)"
  proof
    assume "updating (rpc m)"
    then have "mUpdateSeq (mp m) = seq_idle (length (hist m) - 1) OR 0x80000000"
      using ok(1) by (simp add: seq_ok_def Let_def)
    then show False using same(1,2) seq_busy_bits by metis
  qed
  then have cur: "mUpdateSeq (mp m) = seq_idle (length (hist m) - 1)"
    "(mFront (mp m), mNextRdPTS (mp m)) = last (hist m)"
    using ok(1) by (simp_all add: seq_ok_def Let_def)
  have "o_seen m - 1 = length (hist m) - 1"
    by (rule seq_idle_eq) (use same seen cur assms(4) in auto)
  then have "length (hist m) = o_seen m" using seen by simp
  then show ?thesis using still pair cur same by (simp add: fresh_def)
qed

text \<open>The pair of the reader's first update, observed.\<close>

definition observing :: "nat mono" where
  "observing = one_read\<lparr>opc := Obs_pts 1 1 kInvalidPTS, o_seen := 2\<rparr>"

lemma observing_reach: "mono_reach observing"
proof -
  note state = two_written_def new_mono_def small_pipe_fields one_read_def
  let ?m1 = "one_read\<lparr>opc := Obs_seq 1, o_seen := 2\<rparr>" and ?m2 = "one_read\<lparr>opc := Obs_front 1 1, o_seen := 2\<rparr>"
  have "run_observer one_read = ?m1" by (simp add: run_observer_def state)
  then have 1: "mono_reach ?m1" using mono_reach_run(5) [OF one_read_reach] by simp
  have "run_observer ?m1 = ?m2" by (simp add: run_observer_def state)
  then have 2: "mono_reach ?m2" using mono_reach_run(5) [OF 1] by simp
  have "run_observer ?m2 = observing" by (simp add: run_observer_def observing_def state)
  then show ?thesis using mono_reach_run(5) [OF 2] by simp
qed

lemma observation_consistent_witness:
  "mono_reach observing \<and> observe_step (opc observing) (mp observing) = Obs_done 1 kInvalidPTS \<and>
   (1, kInvalidPTS) = last (hist observing)"
proof -
  note state = two_written_def new_mono_def small_pipe_fields one_read_def observing_def
  have o: "opc observing = Obs_pts 1 1 kInvalidPTS" by (simp add: observing_def)
  have d: "observe_step (opc observing) (mp observing) = Obs_done 1 kInvalidPTS" by (simp add: state)
  have "length (hist observing) - o_seen observing < 2 ^ 31" by (simp add: state)
  from observation_consistent [OF observing_reach o d this] observing_reach d show ?thesis by simp
qed

text \<open>
  An observer that runs while the reader stands still is through after its four loads, with the
  current pair, when the reader stands outside of an update; when it stands inside of one, the four
  loads lead back to the start of the loop, again and again.
\<close>

theorem observer_alone:
  assumes "mono_reach m"
  shows "((\<lambda>pc. observe_step pc (mp m)) ^^ 4) Obs_idle =
    (if updating (rpc m) then Obs_idle else Obs_done (mFront (mp m)) (mNextRdPTS (mp m)))"
proof -
  have "mUpdateSeq (mp m) AND 0x80000000 \<noteq> 0 \<longleftrightarrow> updating (rpc m)"
    using mono_reach_seq [OF assms] seq_busy_bits seq_idle_bits by (simp add: seq_ok_def Let_def split: if_splits)
  then show ?thesis by (simp add: numeral_eq_Suc)
qed

lemma observer_alone_witness:
  "((\<lambda>pc. observe_step pc (mp one_read)) ^^ 4) Obs_idle = Obs_done 1 kInvalidPTS \<and> mono_reach one_read"
proof -
  have "\<not> updating (rpc one_read)" "mFront (mp one_read) = 1" "mNextRdPTS (mp one_read) = kInvalidPTS"
    by (simp_all add: one_read_def two_written_def small_pipe_fields updating_def)
  then show ?thesis using observer_alone [OF one_read_reach] one_read_reach by simp
qed

section \<open>The time of the next write\<close>

lemma pending_frames:
  assumes "mono_reach m"
  shows "unat ((mRear (mp m) - mFront (mp m)) AND (mMaxFrames (mp m) - 1)) =
    (length (sent m) - length (got m)) mod unat (mMaxFrames (mp m))"
proof -
  obtain k where "fifo_ok k m" using mono_reach_fifo [OF assms] by blast
  then have ring: "ring_ok k m" by (simp add: fifo_ok_def)
  have "mRear (mp m) - mFront (mp m) = of_nat (length (sent m) - length (got m))"
    using ring_okD(6) [OF ring] by (metis of_nat_unat ucast_id)
  then show ?thesis using unat_of_nat_mask [OF ring_okD(10,2) [OF ring]] ring_okD(10) [OF ring] by simp
qed

text \<open>
  The frames that \<open>getNextWriteTimestamp\<close> adds are those in the pipe, unless the pipe is full: then
  they are none, and it answers the time of the next read instead of that of the next write.
\<close>

theorem full_pipe_counts_no_frames:
  assumes "mono_reach m" "pts \<noteq> kInvalidPTS"
  defines "d \<equiv> length (sent m) - length (got m)" and "N \<equiv> unat (mMaxFrames (mp m))"
  shows "timestamp_end (mFront (mp m)) pts (mp m) =
      (let (t, p) = offsetTimestampByAudioFrames pts (of_nat (if d = N then 0 else d)) (mp m) in (OK, t, p))"
proof -
  obtain k where "fifo_ok k m" using mono_reach_fifo [OF assms(1)] by blast
  then have ring: "ring_ok k m" by (simp add: fifo_ok_def)
  have "d \<le> N" using ring_okD(7,10) [OF ring] unfolding d_def N_def by linarith
  then have "(if d = N then 0 else d) = d mod N" by simp
  also have "\<dots> = unat ((mRear (mp m) - mFront (mp m)) AND (mMaxFrames (mp m) - 1))"
    using pending_frames [OF assms(1)] by (simp add: d_def N_def)
  finally show ?thesis using assms(2) by (simp add: timestamp_end_def Let_def split_beta)
qed

section \<open>The throttle\<close>

text \<open>
  write bounds its sleep by a second, but after a product of 32 bits: 19635 frames of 8 kHz, which
  are more than two seconds of sound, make it sleep for less than 0.2 milliseconds.
\<close>

theorem throttle_wraps:
  assumes "Format_sampleRate (mFormat p) = 8000" "mSetpoint p = 11264" "mMaxFrames p = 32768"
  shows "throttle_ns p 32668 19635 0 = 188954"
  using assms by (simp add: throttle_ns_def Let_def)

end
