(* ===== verification/Unicode.thy ===== *)
theory Unicode
  imports Prelude
begin

text \<open>
  The conversions between the encodings of text (libs/utils/Unicode.cpp), which String8 and String16
  are made with.

  A pointer to read from is the list of what the memory holds from there on, and a number of units
  that are still to be read counts down as the pointer goes up; None is a read past the memory, or
  a shift by more than a word.  What is written is the list of the units written, from the first;
  that it fits in the destination is for the caller to see to, who has asked one of the
  functions that measure.  \<open>char\<close> is signed, as on the i686 that the port is built for.
\<close>

section \<open>Characters\<close>

abbreviation kByteMask :: u32 where "kByteMask \<equiv> 0xBF"
abbreviation kByteMark :: u32 where "kByteMark \<equiv> 0x80"
abbreviation kUnicodeSurrogateStart :: u32 where "kUnicodeSurrogateStart \<equiv> 0xD800"
abbreviation kUnicodeSurrogateEnd :: u32 where "kUnicodeSurrogateEnd \<equiv> 0xDFFF"
abbreviation kUnicodeMaxCodepoint :: u32 where "kUnicodeMaxCodepoint \<equiv> 0x10FFFF"

definition kFirstByteMark :: "u32 list" where
  "kFirstByteMark = [0, 0, 0xC0, 0xE0, 0xF0]"

definition char_bits :: "u8 \<Rightarrow> u32" where
  "char_bits b = scast b"

definition utf32_codepoint_utf8_length :: "u32 \<Rightarrow> nat" where
  "utf32_codepoint_utf8_length srcChar =
     (if srcChar < 0x80 then 1
      else if srcChar < 0x800 then 2
      else if srcChar < 0x10000
      then if srcChar < kUnicodeSurrogateStart \<or> srcChar > kUnicodeSurrogateEnd then 3 else 0
      else if srcChar \<le> kUnicodeMaxCodepoint then 4
      else 0)"

text \<open>The switch falls through, from the last byte to the first.\<close>

definition utf8_tail :: "u8 list \<times> u32 \<Rightarrow> u8 list \<times> u32" where
  "utf8_tail = (\<lambda>(bs, srcChar). (ucast ((srcChar OR kByteMark) AND kByteMask) # bs, drop_bit 6 srcChar))"

definition utf32_codepoint_to_utf8 :: "u32 \<Rightarrow> nat \<Rightarrow> u8 list" where
  "utf32_codepoint_to_utf8 srcChar bytes =
     (let r = ([], srcChar);
          r = (if bytes = 4 then utf8_tail r else r);
          r = (if bytes = 4 \<or> bytes = 3 then utf8_tail r else r);
          r = (if bytes = 4 \<or> bytes = 3 \<or> bytes = 2 then utf8_tail r else r)
      in if 1 \<le> bytes \<and> bytes \<le> 4 then ucast (snd r OR kFirstByteMark ! bytes) # fst r else fst r)"

section \<open>UTF-32\<close>

fun units_strlen :: "'w::len word list \<Rightarrow> nat option" where
  "units_strlen [] = None"
| "units_strlen (c # s) = (if c = 0 then Some 0 else map_option Suc (units_strlen s))"

fun units_strnlen :: "'w::len word list \<Rightarrow> nat \<Rightarrow> nat option" where
  "units_strnlen s 0 = Some 0"
| "units_strnlen [] (Suc n) = None"
| "units_strnlen (c # s) (Suc n) = (if c = 0 then Some 0 else map_option Suc (units_strnlen s n))"

definition strlen32 :: "u32 list \<Rightarrow> nat option" where "strlen32 = units_strlen"
definition strnlen32 :: "u32 list \<Rightarrow> nat \<Rightarrow> nat option" where "strnlen32 = units_strnlen"

text \<open>The loop of \<open>utf32_at_internal\<close> over the bits of the first byte.\<close>

function at_loop :: "u32 \<Rightarrow> nat \<Rightarrow> u32 \<Rightarrow> u32 \<Rightarrow> u32 \<Rightarrow> u8 list \<Rightarrow> (nat \<times> u32 \<times> u32) option" where
  "at_loop first_char num_to_read bitmask to_ignore_mask utf32 cur =
     (if first_char AND bitmask \<noteq> 0
      then case cur of
             [] \<Rightarrow> None
           | b # cur \<Rightarrow> at_loop first_char (num_to_read + 1) (drop_bit 1 bitmask) (to_ignore_mask OR bitmask)
                          (push_bit 6 utf32 + (char_bits b AND 0x3F)) cur
      else Some (num_to_read, to_ignore_mask OR bitmask, utf32))"
  by pat_completeness auto
termination by (relation "measure (\<lambda>(f, n, m, t, u, cur). length cur)") auto

declare at_loop.simps [simp del]

definition utf32_at_internal :: "u8 list \<Rightarrow> (u32 \<times> nat) option" where
  "utf32_at_internal cur =
     (case cur of
        [] \<Rightarrow> None
      | first_char # cur \<Rightarrow>
          if char_bits first_char AND 0x80 = 0 then Some (char_bits first_char, 1)
          else case at_loop (char_bits first_char) 1 0x40 0xFFFFFF80 (char_bits first_char) cur of
                 None \<Rightarrow> None
               | Some (num_to_read, to_ignore_mask, utf32) \<Rightarrow>
                   if 6 * (num_to_read - 1) < 32
                   then Some (utf32 AND NOT (push_bit (6 * (num_to_read - 1)) to_ignore_mask), num_to_read)
                   else None)"

text \<open>The result, and what is stored at \<open>next_index\<close>.\<close>

definition utf32_from_utf8_at :: "u8 list \<Rightarrow> nat \<Rightarrow> nat \<Rightarrow> (int \<times> nat option) option" where
  "utf32_from_utf8_at src src_len index =
     (if index \<ge> src_len then Some (- 1, None)
      else case utf32_at_internal (drop index src) of
             None \<Rightarrow> None
           | Some (ret, num_read) \<Rightarrow>
               Some (sint ret, if sint ret \<ge> 0 then Some (index + num_read) else None))"

definition utf32_to_utf8_length :: "u32 list \<Rightarrow> int" where
  "utf32_to_utf8_length src =
     (if src = [] then - 1 else int (foldl (\<lambda>ret c. ret + utf32_codepoint_utf8_length c) 0 src))"

fun utf32_to_utf8_loop :: "u32 list \<Rightarrow> u8 list" where
  "utf32_to_utf8_loop [] = []"
| "utf32_to_utf8_loop (c # src) =
     utf32_codepoint_to_utf8 c (utf32_codepoint_utf8_length c) @ utf32_to_utf8_loop src"

definition utf32_to_utf8 :: "u32 list \<Rightarrow> u8 list" where
  "utf32_to_utf8 src = (if src = [] then [] else utf32_to_utf8_loop src @ [0])"

section \<open>UTF-16\<close>

fun strcmp16 :: "u16 list \<Rightarrow> u16 list \<Rightarrow> int option" where
  "strcmp16 (a # s1) (b # s2) =
     (let d = uint a - uint b in if d \<noteq> 0 \<or> a = 0 then Some d else strcmp16 s1 s2)"
| "strcmp16 s1 s2 = None"

fun strncmp16 :: "u16 list \<Rightarrow> u16 list \<Rightarrow> nat \<Rightarrow> int option" where
  "strncmp16 s1 s2 0 = Some 0"
| "strncmp16 (a # s1) (b # s2) (Suc n) =
     (let d = uint a - uint b in if d \<noteq> 0 \<or> a = 0 then Some d else strncmp16 s1 s2 n)"
| "strncmp16 s1 s2 (Suc n) = None"

fun strcpy16 :: "u16 list \<Rightarrow> u16 list option" where
  "strcpy16 [] = None"
| "strcpy16 (c # src) = (if c = 0 then Some [c] else map_option (Cons c) (strcpy16 src))"

definition strlen16 :: "u16 list \<Rightarrow> nat option" where "strlen16 = units_strlen"
definition strnlen16 :: "u16 list \<Rightarrow> nat \<Rightarrow> nat option" where "strnlen16 = units_strnlen"

text \<open>The variable \<open>ch\<close> is a \<open>char\<close>.\<close>

fun strncpy16_loop :: "u16 list \<Rightarrow> nat \<Rightarrow> u16 list option" where
  "strncpy16_loop src 0 = Some []"
| "strncpy16_loop [] (Suc n) = None"
| "strncpy16_loop (c # src) (Suc n) =
     (if (ucast c :: u8) = 0 then Some [ucast (char_bits (ucast c))]
      else map_option (Cons (ucast (char_bits (ucast c)))) (strncpy16_loop src n))"

definition strncpy16 :: "u16 list \<Rightarrow> nat \<Rightarrow> u16 list option" where
  "strncpy16 src n = map_option (\<lambda>q. q @ [0]) (strncpy16_loop src n)"

text \<open>Strings of a given length, the second of \<open>strzcmp16_h_n\<close> in the order of the network.\<close>

fun strzcmp16 :: "u16 list \<Rightarrow> u16 list \<Rightarrow> int" where
  "strzcmp16 [] [] = 0"
| "strzcmp16 [] (b # s2) = 0 - uint b"
| "strzcmp16 (a # s1) [] = uint a - 0"
| "strzcmp16 (a # s1) (b # s2) = (let d = uint a - uint b in if d \<noteq> 0 then d else strzcmp16 s1 s2)"

definition ntohs :: "u16 \<Rightarrow> u16" where
  "ntohs x = push_bit 8 x OR drop_bit 8 x"

fun strzcmp16_h_n :: "u16 list \<Rightarrow> u16 list \<Rightarrow> int" where
  "strzcmp16_h_n [] [] = 0"
| "strzcmp16_h_n [] (b # s2) = 0 - uint (ntohs b)"
| "strzcmp16_h_n (a # s1) [] = uint a - 0"
| "strzcmp16_h_n (a # s1) (b # s2) =
     (let d = uint a - uint (ntohs b) in if d \<noteq> 0 then d else strzcmp16_h_n s1 s2)"

fun utf16_to_utf8_loop :: "u16 list \<Rightarrow> nat \<Rightarrow> u8 list option" where
  "utf16_to_utf8_loop cur 0 = Some []"
| "utf16_to_utf8_loop [] (Suc n) = None"
| "utf16_to_utf8_loop (u # cur) (Suc n) =
     (if u AND 0xFC00 = 0xD800
      then case cur of
             [] \<Rightarrow> None
           | v # cur \<Rightarrow>
               let utf32 = (push_bit 10 (ucast u - 0xD800) OR (ucast v - 0xDC00)) + 0x10000
               in map_option (append (utf32_codepoint_to_utf8 utf32 (utf32_codepoint_utf8_length utf32)))
                    (utf16_to_utf8_loop cur (n - 1))
      else let utf32 = ucast u
           in map_option (append (utf32_codepoint_to_utf8 utf32 (utf32_codepoint_utf8_length utf32)))
                (utf16_to_utf8_loop cur n))"

definition utf16_to_utf8 :: "u16 list \<Rightarrow> nat \<Rightarrow> u8 list option" where
  "utf16_to_utf8 src src_len =
     (if src_len = 0 then Some [] else map_option (\<lambda>cur. cur @ [0]) (utf16_to_utf8_loop src src_len))"

section \<open>UTF-8\<close>

text \<open>The loop over the bits of the first byte: Inl is the return of \<open>- 1\<close>.\<close>

function length_bits ::
    "u32 \<Rightarrow> nat \<Rightarrow> u32 \<Rightarrow> u32 \<Rightarrow> u32 \<Rightarrow> u8 list \<Rightarrow> (int + nat \<times> u32 \<times> u32 \<times> u32 \<times> u8 list) option" where
  "length_bits first_char num_to_read bitmask to_ignore_mask utf32 cur =
     (if num_to_read < 5 \<and> first_char AND bitmask \<noteq> 0
      then case cur of
             [] \<Rightarrow> None
           | b # cur \<Rightarrow>
               if char_bits b AND 0xC0 \<noteq> 0x80 then Some (Inl (- 1))
               else length_bits first_char (num_to_read + 1) (drop_bit 1 bitmask) (to_ignore_mask OR bitmask)
                      (push_bit 6 utf32 + (char_bits b AND 0x3F)) cur
      else Some (Inr (num_to_read, bitmask, to_ignore_mask, utf32, cur)))"
  by pat_completeness auto
termination by (relation "measure (\<lambda>(f, n, m, t, u, cur). length cur)") auto

declare length_bits.simps [simp del]

lemma length_bits_cur:
  "length_bits f n m t u cur = Some (Inr (n', m', t', u', cur')) \<Longrightarrow> length cur' \<le> length cur"
proof (induction f n m t u cur rule: length_bits.induct)
  case (1 f n m t u cur)
  show ?case
    using "1.prems" "1.IH" unfolding length_bits.simps [of f n m t u cur]
    by (cases cur) (auto split: if_splits intro: le_SucI)
qed

function utf8_length_loop :: "u8 list \<Rightarrow> nat \<Rightarrow> int option" where
  "utf8_length_loop cur ret =
     (case cur of
        [] \<Rightarrow> None
      | first_char # cur \<Rightarrow>
          if first_char = 0 then Some (int ret)
          else if char_bits first_char AND 0x80 = 0 then utf8_length_loop cur (ret + 1)
          else if char_bits first_char AND 0x40 = 0 then Some (- 1)
          else case length_bits (char_bits first_char) 1 0x40 0x80 0 cur of
                 None \<Rightarrow> None
               | Some (Inl r) \<Rightarrow> Some r
               | Some (Inr (num_to_read, bitmask, to_ignore_mask, utf32, cur)) \<Rightarrow>
                   if num_to_read = 5 then Some (- 1)
                   else let to_ignore_mask = to_ignore_mask OR bitmask;
                            utf32 = utf32 OR push_bit (6 * (num_to_read - 1)) (NOT to_ignore_mask AND char_bits first_char)
                        in if utf32 > kUnicodeMaxCodepoint then Some (- 1)
                           else utf8_length_loop cur (ret + num_to_read))"
  by pat_completeness auto
termination
  by (relation "measure (\<lambda>(cur, ret). length cur)") (auto dest!: length_bits_cur)

declare utf8_length_loop.simps [simp del]

definition utf8_length :: "u8 list \<Rightarrow> int option" where
  "utf8_length src = utf8_length_loop src 0"

text \<open>A failed test of the low surrogate has moved \<open>src\<close> on already.\<close>

fun utf16_to_utf8_length_loop :: "u16 list \<Rightarrow> nat \<Rightarrow> nat option" where
  "utf16_to_utf8_length_loop src 0 = Some 0"
| "utf16_to_utf8_length_loop [] (Suc n) = None"
| "utf16_to_utf8_length_loop (u # src) (Suc n) =
     (if u AND 0xFC00 = 0xD800 \<and> n > 0
      then case src of
             [] \<Rightarrow> None
           | v # src \<Rightarrow>
               if v AND 0xFC00 = 0xDC00 then map_option ((+) 4) (utf16_to_utf8_length_loop src (n - 1))
               else map_option ((+) (utf32_codepoint_utf8_length (ucast v))) (utf16_to_utf8_length_loop src (n - 1))
      else map_option ((+) (utf32_codepoint_utf8_length (ucast u))) (utf16_to_utf8_length_loop src n))"

definition utf16_to_utf8_length :: "u16 list \<Rightarrow> nat \<Rightarrow> int option" where
  "utf16_to_utf8_length src src_len =
     (if src_len = 0 then Some (- 1) else map_option int (utf16_to_utf8_length_loop src src_len))"

definition utf8_codepoint_len :: "u8 \<Rightarrow> nat" where
  "utf8_codepoint_len ch =
     unat (drop_bit (unat (drop_bit 3 (ucast ch :: u32) AND 0x1e)) 0xe5000000 AND 3 :: u32) + 1"

definition utf8_shift_and_mask :: "u32 \<Rightarrow> u8 \<Rightarrow> u32" where
  "utf8_shift_and_mask codePoint byte = push_bit 6 codePoint OR (0x3F AND ucast byte)"

function skip_bits :: "u32 \<Rightarrow> u32 \<Rightarrow> nat \<Rightarrow> nat" where
  "skip_bits first_char bitmask num_to_skip =
     (if first_char AND bitmask \<noteq> 0 then skip_bits first_char (drop_bit 1 bitmask) (num_to_skip + 1) else num_to_skip)"
  by pat_completeness auto
termination
proof (relation "measure (\<lambda>(f, m, n). unat m)")
  fix f m :: u32
  assume "f AND m \<noteq> 0"
  then have "unat m \<noteq> 0" by (auto simp: unat_eq_zero)
  moreover have "unat (drop_bit 1 m) = unat m div 2" by (simp only: unat_drop_bit_eq) (simp add: drop_bit_eq_div)
  ultimately show "\<And>n. ((f, drop_bit 1 m, n + 1), f, m, n) \<in> measure (\<lambda>(f, m, n). unat m)"
    by simp
qed simp

declare skip_bits.simps [simp del]

function utf8_to_utf32_length_loop :: "u8 list \<Rightarrow> nat \<Rightarrow> nat \<Rightarrow> nat option" where
  "utf8_to_utf32_length_loop cur n ret =
     (if n = 0 then Some ret
      else case cur of
             [] \<Rightarrow> None
           | first_char # _ \<Rightarrow>
               if char_bits first_char AND 0x80 = 0 then utf8_to_utf32_length_loop (drop 1 cur) (n - 1) (ret + 1)
               else let num_to_skip = skip_bits (char_bits first_char) 0x40 1
                    in utf8_to_utf32_length_loop (drop num_to_skip cur) (n - num_to_skip) (ret + 1))"
  by pat_completeness auto

lemma skip_bits_ge: "k \<le> skip_bits f m k"
proof (induction f m k rule: skip_bits.induct)
  case (1 f m k)
  then show ?case unfolding skip_bits.simps [of f m k] by auto
qed

termination utf8_to_utf32_length_loop
proof (relation "measure (\<lambda>(cur, n, ret). n)")
  show "((drop k cur, n - k, ret + 1), cur, n, ret) \<in> measure (\<lambda>(cur, n, ret). n)"
    if "n \<noteq> 0" "k = skip_bits (char_bits c) 0x40 1" for cur :: "u8 list" and n ret k c
    using that skip_bits_ge [of 1 "char_bits c" "0x40"] by simp
qed auto

declare utf8_to_utf32_length_loop.simps [simp del]

definition utf8_to_utf32_length :: "u8 list \<Rightarrow> nat \<Rightarrow> nat option" where
  "utf8_to_utf32_length src src_len = utf8_to_utf32_length_loop src src_len 0"

lemma at_loop_num: "at_loop f n m t u cur = Some (n', t', u') \<Longrightarrow> n \<le> n'"
proof (induction f n m t u cur rule: at_loop.induct)
  case (1 f n m t u cur)
  show ?case
    using "1.prems" "1.IH" unfolding at_loop.simps [of f n m t u cur]
    by (cases cur) (auto split: if_splits)
qed

lemma utf32_at_num: "utf32_at_internal cur = Some (c, k) \<Longrightarrow> 0 < k"
  by (auto simp: utf32_at_internal_def split: list.splits if_splits option.splits dest!: at_loop_num)

function utf8_to_utf32_loop :: "u8 list \<Rightarrow> nat \<Rightarrow> u32 list option" where
  "utf8_to_utf32_loop cur n =
     (if n = 0 then Some []
      else case utf32_at_internal cur of
             None \<Rightarrow> None
           | Some (c, num_read) \<Rightarrow> map_option (Cons c) (utf8_to_utf32_loop (drop num_read cur) (n - num_read)))"
  by pat_completeness auto
termination
  by (relation "measure (\<lambda>(cur, n). n)") (auto dest!: utf32_at_num)

declare utf8_to_utf32_loop.simps [simp del]

definition utf8_to_utf32 :: "u8 list \<Rightarrow> nat \<Rightarrow> u32 list option" where
  "utf8_to_utf32 src src_len =
     (if src_len = 0 then Some [] else map_option (\<lambda>cur. cur @ [0]) (utf8_to_utf32_loop src src_len))"

definition utf8_to_utf32_codepoint :: "u8 list \<Rightarrow> nat \<Rightarrow> u32 option" where
  "utf8_to_utf32_codepoint src len =
     (if len = 1 then case src of a # _ \<Rightarrow> Some (ucast a) | _ \<Rightarrow> None
      else if len = 2
      then case src of
             a # b # _ \<Rightarrow> Some (utf8_shift_and_mask (ucast a AND 0x1f) b)
           | _ \<Rightarrow> None
      else if len = 3
      then case src of
             a # b # c # _ \<Rightarrow> Some (utf8_shift_and_mask (utf8_shift_and_mask (ucast a AND 0x0f) b) c)
           | _ \<Rightarrow> None
      else if len = 4
      then case src of
             a # b # c # d # _ \<Rightarrow>
               Some (utf8_shift_and_mask (utf8_shift_and_mask (utf8_shift_and_mask (ucast a AND 0x07) b) c) d)
           | _ \<Rightarrow> None
      else Some 0xffff)"

lemma utf8_codepoint_len_pos: "0 < utf8_codepoint_len ch"
  by (simp add: utf8_codepoint_len_def)

text \<open>A character that ends past the end gives \<open>- 1\<close>.\<close>

function utf8_to_utf16_length_loop :: "u8 list \<Rightarrow> nat \<Rightarrow> nat \<Rightarrow> int option" where
  "utf8_to_utf16_length_loop u8cur n u16measuredLen =
     (if n = 0 then Some (int u16measuredLen)
      else case u8cur of
             [] \<Rightarrow> None
           | b # _ \<Rightarrow>
               let u8charLen = utf8_codepoint_len b in
               case utf8_to_utf32_codepoint u8cur u8charLen of
                 None \<Rightarrow> None
               | Some codepoint \<Rightarrow>
                   if u8charLen > n then Some (- 1)
                   else utf8_to_utf16_length_loop (drop u8charLen u8cur) (n - u8charLen)
                          (u16measuredLen + 1 + (if codepoint > 0xFFFF then 1 else 0)))"
  by pat_completeness auto
termination
  by (relation "measure (\<lambda>(cur, n, m). n)") (auto simp: utf8_codepoint_len_pos)

declare utf8_to_utf16_length_loop.simps [simp del]

definition utf8_to_utf16_length :: "u8 list \<Rightarrow> nat \<Rightarrow> int option" where
  "utf8_to_utf16_length u8str u8len = utf8_to_utf16_length_loop u8str u8len 0"

definition utf16_units :: "u32 \<Rightarrow> u16 list" where
  "utf16_units codepoint =
     (if codepoint \<le> 0xFFFF then [ucast codepoint]
      else let codepoint = codepoint - 0x10000
           in [ucast (drop_bit 10 codepoint + 0xD800), ucast ((codepoint AND 0x3FF) + 0xDC00)])"

function utf8_to_utf16_no_null_terminator :: "u8 list \<Rightarrow> nat \<Rightarrow> u16 list option" where
  "utf8_to_utf16_no_null_terminator u8cur n =
     (if n = 0 then Some []
      else case u8cur of
             [] \<Rightarrow> None
           | b # _ \<Rightarrow>
               let u8len = utf8_codepoint_len b in
               case utf8_to_utf32_codepoint u8cur u8len of
                 None \<Rightarrow> None
               | Some codepoint \<Rightarrow>
                   map_option (append (utf16_units codepoint))
                     (utf8_to_utf16_no_null_terminator (drop u8len u8cur) (n - u8len)))"
  by pat_completeness auto
termination
  by (relation "measure (\<lambda>(cur, n). n)") (auto simp: utf8_codepoint_len_pos)

declare utf8_to_utf16_no_null_terminator.simps [simp del]

definition utf8_to_utf16 :: "u8 list \<Rightarrow> nat \<Rightarrow> u16 list option" where
  "utf8_to_utf16 u8str u8len = map_option (\<lambda>end'. end' @ [0]) (utf8_to_utf16_no_null_terminator u8str u8len)"

end
