(* ===== verification/UnicodeSpec.thy ===== *)
theory UnicodeSpec
  imports Unicode
begin

text \<open>
  What the conversions of text promise: well-formed text comes back unchanged from UTF-8, through
  UTF-16 and through UTF-32, and what is written is as long as the functions that measure say.
\<close>

section \<open>Bits\<close>

text \<open>Two words of 32 bits are equal when all their bits are; \<open>less_32\<close> lists them.\<close>

lemma less_32: "(\<forall>n < 32. P n) \<longleftrightarrow> (\<forall>n \<in> set [0, 1, 2, 3, 4, 5, 6, 7, 8, 9, 10, 11, 12, 13, 14, 15, 16, 17, 18, 19, 20,
    21, 22, 23, 24, 25, 26, 27, 28, 29, 30, 31 :: nat]. P n)"
proof -
  have "[0..<32] = [0, 1, 2, 3, 4, 5, 6, 7, 8, 9, 10, 11, 12, 13, 14, 15, 16, 17, 18, 19, 20,
    21, 22, 23, 24, 25, 26, 27, 28, 29, 30, 31 :: nat]"
    by (simp add: upt_rec)
  then show ?thesis by (metis atLeastLessThan_iff atLeastLessThan_upt le0)
qed

lemma word32_bits:
  fixes a b :: u32
  assumes "\<forall>n < 32. bit a n = bit b n"
  shows "a = b"
  using assms by (intro bit_word_eqI) simp

lemma bit_small:
  fixes c :: "'w::len word"
  assumes "c < 2 ^ k" "bit c n"
  shows "n < k"
proof (rule ccontr)
  assume "\<not> n < k"
  have len: "n < LENGTH('w)" using assms(2) by (rule bit_imp_le_length)
  have "c = take_bit k c"
    using assms(1) \<open>\<not> n < k\<close> len by (metis less_mask_eq mask_eq_exp_minus_1 take_bit_eq_mask)
  then show False using assms(2) \<open>\<not> n < k\<close> by (metis bit_take_bit_iff)
qed

lemma bit_tests [simp]:
  "(w :: u32) AND 0x80 = 0 \<longleftrightarrow> \<not> bit w 7" "w AND 0x40 = 0 \<longleftrightarrow> \<not> bit w 6" "w AND 0x20 = 0 \<longleftrightarrow> \<not> bit w 5"
  "w AND 0x10 = 0 \<longleftrightarrow> \<not> bit w 4" "w AND 8 = 0 \<longleftrightarrow> \<not> bit w 3"
  using and_exp_eq_0_iff_not_bit [of w 7] and_exp_eq_0_iff_not_bit [of w 6] and_exp_eq_0_iff_not_bit [of w 5]
    and_exp_eq_0_iff_not_bit [of w 4] and_exp_eq_0_iff_not_bit [of w 3]
  by simp_all

section \<open>The bytes of a character\<close>

text \<open>The Unicode scalar values, and their bytes as the standard gives them.\<close>

definition scalar :: "u32 \<Rightarrow> bool" where
  "scalar c \<longleftrightarrow> c < 0xD800 \<or> 0xE000 \<le> c \<and> c \<le> 0x10FFFF"

definition utf8_bytes :: "nat \<Rightarrow> nat list" where
  "utf8_bytes c =
     (if c < 0x80 then [c]
      else if c < 0x800 then [0xC0 + c div 64, 0x80 + c mod 64]
      else if c < 0x10000 then [0xE0 + c div 4096, 0x80 + c div 64 mod 64, 0x80 + c mod 64]
      else [0xF0 + c div 262144, 0x80 + c div 4096 mod 64, 0x80 + c div 64 mod 64, 0x80 + c mod 64])"

definition encode :: "u32 \<Rightarrow> u8 list" where
  "encode c = utf32_codepoint_to_utf8 c (utf32_codepoint_utf8_length c)"

definition tail_byte :: "u32 \<Rightarrow> u8" where
  "tail_byte c = ucast ((c OR 0x80) AND 0xBF)"

lemma encode_cases:
  "c < 0x80 \<Longrightarrow> encode c = [ucast c]"
  "\<not> c < 0x80 \<Longrightarrow> c < 0x800 \<Longrightarrow> encode c = [ucast (drop_bit 6 c OR 0xC0), tail_byte c]"
  "\<not> c < 0x800 \<Longrightarrow> c < 0x10000 \<Longrightarrow> scalar c \<Longrightarrow>
     encode c = [ucast (drop_bit 12 c OR 0xE0), tail_byte (drop_bit 6 c), tail_byte c]"
  "\<not> c < 0x10000 \<Longrightarrow> scalar c \<Longrightarrow>
     encode c = [ucast (drop_bit 18 c OR 0xF0), tail_byte (drop_bit 12 c), tail_byte (drop_bit 6 c), tail_byte c]"
proof -
  note defs = encode_def utf32_codepoint_to_utf8_def utf32_codepoint_utf8_length_def utf8_tail_def tail_byte_def
    kFirstByteMark_def Let_def
  show "c < 0x80 \<Longrightarrow> encode c = [ucast c]" by (simp add: defs)
  show "\<not> c < 0x80 \<Longrightarrow> c < 0x800 \<Longrightarrow> encode c = [ucast (drop_bit 6 c OR 0xC0), tail_byte c]"
    by (simp add: defs)
  show "\<not> c < 0x800 \<Longrightarrow> c < 0x10000 \<Longrightarrow> scalar c \<Longrightarrow>
      encode c = [ucast (drop_bit 12 c OR 0xE0), tail_byte (drop_bit 6 c), tail_byte c]"
    by (auto simp: defs scalar_def word_less_nat_alt word_le_nat_alt)
  show "\<not> c < 0x10000 \<Longrightarrow> scalar c \<Longrightarrow>
      encode c = [ucast (drop_bit 18 c OR 0xF0), tail_byte (drop_bit 12 c), tail_byte (drop_bit 6 c), tail_byte c]"
    by (auto simp: defs scalar_def word_less_nat_alt word_le_nat_alt)
qed

lemma scalar_cases [consumes 1, case_names one two three four]:
  assumes "scalar c"
    "c < 0x80 \<Longrightarrow> encode c = [ucast c] \<Longrightarrow> P"
    "\<not> c < 0x80 \<Longrightarrow> c < 0x800 \<Longrightarrow> encode c = [ucast (drop_bit 6 c OR 0xC0), tail_byte c] \<Longrightarrow> P"
    "\<not> c < 0x800 \<Longrightarrow> c < 0x10000 \<Longrightarrow>
       encode c = [ucast (drop_bit 12 c OR 0xE0), tail_byte (drop_bit 6 c), tail_byte c] \<Longrightarrow> P"
    "\<not> c < 0x10000 \<Longrightarrow> c < 2 ^ 21 \<Longrightarrow>
       encode c = [ucast (drop_bit 18 c OR 0xF0), tail_byte (drop_bit 12 c), tail_byte (drop_bit 6 c), tail_byte c] \<Longrightarrow> P"
  shows P
proof -
  have "c < 2 ^ 21" using assms(1) by (auto simp: scalar_def word_less_nat_alt word_le_nat_alt)
  then show P using assms encode_cases [of c] by meson
qed

lemma or_mark:
  fixes x m :: u32
  assumes "x < 2 ^ k" "take_bit k m = 0"
  shows "x OR m = x + m"
proof -
  have "x AND m = 0"
  proof (rule bit_word_eqI)
    fix n assume "n < LENGTH(32)"
    have "\<not> bit m n" if "bit x n"
      using bit_small [OF assms(1) that] assms(2) by (metis bit_0_eq bit_take_bit_iff bot_apply bot_bool_def)
    then show "bit (x AND m) n = bit 0 n" by (auto simp: bit_simps)
  qed
  then show ?thesis using word_plus_and_or [of x m] by simp
qed

lemma unat_drop_bit: "unat (drop_bit k (w :: 'w::len word)) = unat w div 2 ^ k"
  by (simp only: unat_drop_bit_eq) (rule drop_bit_eq_div)

lemma ucast8_of_nat: "(ucast (of_nat n :: u32) :: u8) = of_nat n"
  by (rule bit_word_eqI) (simp add: bit_simps)

lemma tail_byte_nat: "tail_byte c = of_nat (0x80 + unat c mod 64)"
proof -
  have "(c OR 0x80) AND 0xBF = take_bit 6 c OR 0x80"
    by (rule word32_bits) (unfold less_32, auto simp: bit_simps)
  also have "\<dots> = take_bit 6 c + 0x80"
  proof (rule or_mark)
    have "unat (take_bit 6 c) = unat c mod 64"
      by (simp only: unsigned_take_bit_eq) (simp add: take_bit_eq_mod)
    then show "take_bit 6 c < 2 ^ 6" by (simp add: word_less_nat_alt)
    show "take_bit 6 (0x80 :: u32) = 0" by simp
  qed
  also have "\<dots> = of_nat (unat (take_bit 6 c) + 0x80)" by simp
  also have "unat (take_bit 6 c) = unat c mod 64"
    by (simp only: unsigned_take_bit_eq) (simp add: take_bit_eq_mod)
  finally show ?thesis by (simp only: tail_byte_def ucast8_of_nat add.commute)
qed

lemma lead_byte:
  fixes c m :: u32
  assumes "c < 2 ^ (k + j)" "k + j < 32" "take_bit j m = 0" "unat m = mn" "2 ^ k = d"
  shows "(ucast (drop_bit k c OR m) :: u8) = of_nat (mn + unat c div d)"
proof -
  have p: "unat (2 ^ n :: u32) = 2 ^ n" if "n < 32" for n
  proof -
    have "unat (of_nat (2 ^ n) :: u32) = 2 ^ n"
      using that by (simp only: unsigned_of_nat) (simp add: take_bit_nat_eq_self_iff)
    then show ?thesis by simp
  qed
  have "unat c < 2 ^ (k + j)" using assms(1) p [OF assms(2)] by (simp add: word_less_nat_alt)
  then have "unat c div 2 ^ k < 2 ^ j" by (simp add: less_mult_imp_div_less power_add mult.commute)
  then have "drop_bit k c < 2 ^ j" using assms(2) p [of j] by (simp add: word_less_nat_alt unat_drop_bit)
  then have "drop_bit k c OR m = drop_bit k c + m" using assms(3) by (rule or_mark)
  also have "\<dots> = of_nat (unat (drop_bit k c) + unat m)" by simp
  finally show ?thesis by (simp only: ucast8_of_nat unat_drop_bit add.commute assms(4,5))
qed

lemma encode_standard:
  assumes "scalar c"
  shows "encode c = map of_nat (utf8_bytes (unat c))"
  using assms
proof (cases rule: scalar_cases)
  case one
  then have "utf8_bytes (unat c) = [unat c]" by (simp add: utf8_bytes_def word_less_nat_alt)
  moreover have "(ucast c :: u8) = of_nat (unat c)"
    using ucast8_of_nat [of "unat c"] unfolding of_nat_unat ucast_id .
  ultimately show ?thesis using one(2) by (simp only: list.map)
next
  case two
  then have "utf8_bytes (unat c) = [0xC0 + unat c div 64, 0x80 + unat c mod 64]"
    by (simp add: utf8_bytes_def word_less_nat_alt)
  moreover have "ucast (drop_bit 6 c OR 0xC0) = (of_nat (0xC0 + unat c div 64) :: u8)"
    by (rule lead_byte [of c 6 5]) (use two in simp_all)
  ultimately show ?thesis using two by (simp only: tail_byte_nat list.map)
next
  case three
  then have "utf8_bytes (unat c) = [0xE0 + unat c div 4096, 0x80 + unat c div 64 mod 64, 0x80 + unat c mod 64]"
    by (simp add: utf8_bytes_def word_less_nat_alt)
  moreover have "ucast (drop_bit 12 c OR 0xE0) = (of_nat (0xE0 + unat c div 4096) :: u8)"
    by (rule lead_byte [of c 12 4]) (use three in simp_all)
  moreover have "unat (drop_bit 6 c) = unat c div 64" by (simp add: unat_drop_bit)
  ultimately show ?thesis using three by (simp only: tail_byte_nat list.map)
next
  case four
  then have "utf8_bytes (unat c) =
      [0xF0 + unat c div 262144, 0x80 + unat c div 4096 mod 64, 0x80 + unat c div 64 mod 64, 0x80 + unat c mod 64]"
    by (simp add: utf8_bytes_def word_less_nat_alt)
  moreover have "ucast (drop_bit 18 c OR 0xF0) = (of_nat (0xF0 + unat c div 262144) :: u8)"
    by (rule lead_byte [of c 18 3]) (use four in simp_all)
  moreover have "unat (drop_bit 6 c) = unat c div 64" "unat (drop_bit 12 c) = unat c div 4096"
    by (simp_all add: unat_drop_bit)
  ultimately show ?thesis using four by (simp only: tail_byte_nat list.map)
qed

section \<open>Reading them back\<close>

lemma utf8_codepoint_len_bits:
  "utf8_codepoint_len b =
     (if \<not> bit b 7 \<or> \<not> bit b 6 then 1 else if \<not> bit b 5 then 2 else if \<not> bit b 4 then 3 else 4)"
proof -
  have "drop_bit 3 (ucast b :: u32) AND 0x1e =
      (if bit b 7 then 16 else 0) OR (if bit b 6 then 8 else 0) OR (if bit b 5 then 4 else 0) OR (if bit b 4 then 2 else 0)"
    by (rule word32_bits) (unfold less_32, auto simp: bit_simps)
  then show ?thesis unfolding utf8_codepoint_len_def by simp
qed

lemma tail_bits [simp]: "bit (tail_byte c) 7" "\<not> bit (tail_byte c) 6"
  by (simp_all add: tail_byte_def bit_simps)

lemma codepoint_encode:
  assumes "scalar c"
  shows "utf8_codepoint_len (hd (encode c)) = length (encode c)"
    "utf8_to_utf32_codepoint (encode c @ rest) (length (encode c)) = Some c"
proof -
  show "utf8_codepoint_len (hd (encode c)) = length (encode c)"
    using assms
  proof (cases rule: scalar_cases)
    case one
    then have "c < 2 ^ 7" by simp
    then have "\<not> bit c 7" using bit_small [of c 7 7] by blast
    then show ?thesis using one by (simp add: utf8_codepoint_len_bits bit_simps)
  next
    case two
    then have "c < 2 ^ 11" by simp
    then have "\<not> bit c 11" using bit_small [of c 11 11] by blast
    then show ?thesis using two by (simp add: utf8_codepoint_len_bits bit_simps)
  next
    case three
    then have "c < 2 ^ 16" by simp
    then have "\<not> bit c 16" using bit_small [of c 16 16] by blast
    then show ?thesis using three by (simp add: utf8_codepoint_len_bits bit_simps)
  next
    case four
    then show ?thesis by (simp add: utf8_codepoint_len_bits bit_simps)
  qed
  note defs = utf8_to_utf32_codepoint_def utf8_shift_and_mask_def tail_byte_def
  show "utf8_to_utf32_codepoint (encode c @ rest) (length (encode c)) = Some c"
    using assms
  proof (cases rule: scalar_cases)
    case one
    then have "c < 2 ^ 7" by simp
    note small = bit_small [OF this]
    have "ucast (ucast c :: u8) = c"
      by (intro word32_bits) (unfold less_32, auto simp: bit_simps dest!: small)
    then show ?thesis using one by (simp add: defs)
  next
    case two
    then have "c < 2 ^ 11" by simp
    note small = bit_small [OF this]
    show ?thesis using two(3)
      by (simp add: defs) (rule word32_bits, unfold less_32, auto simp: bit_simps dest!: small)
  next
    case three
    then have "c < 2 ^ 16" by simp
    note small = bit_small [OF this]
    show ?thesis using three(3)
      by (simp add: defs) (rule word32_bits, unfold less_32, auto simp: bit_simps dest!: small)
  next
    case four
    note small = bit_small [OF four(2)]
    show ?thesis using four(3)
      by (simp add: defs) (rule word32_bits, unfold less_32, auto simp: bit_simps dest!: small)
  qed
qed

section \<open>UTF-16\<close>

text \<open>Surrogates, and the text that units stand for, as the standard gives it.\<close>

definition high_surrogate :: "u16 \<Rightarrow> bool" where
  "high_surrogate u \<longleftrightarrow> 0xD800 \<le> u \<and> u < 0xDC00"

definition low_surrogate :: "u16 \<Rightarrow> bool" where
  "low_surrogate u \<longleftrightarrow> 0xDC00 \<le> u \<and> u < 0xE000"

definition surrogate_pair :: "u16 \<Rightarrow> u16 \<Rightarrow> u32" where
  "surrogate_pair u v = of_nat (0x10000 + (unat u - 0xD800) * 0x400 + (unat v - 0xDC00))"

fun utf16_text :: "u16 list \<Rightarrow> u32 list option" where
  "utf16_text [] = Some []"
| "utf16_text (u # us) =
     (if low_surrogate u then None
      else if high_surrogate u
      then case us of
             [] \<Rightarrow> None
           | v # us \<Rightarrow> if low_surrogate v then map_option (Cons (surrogate_pair u v)) (utf16_text us) else None
      else map_option (Cons (ucast u)) (utf16_text us))"

lemma unat_div_1024: "w AND 0xFC00 = (x :: u16) \<longleftrightarrow> push_bit 10 (drop_bit 10 w) = x"
proof -
  have m: "(0xFC00 :: u16) = NOT (mask 10)" by (simp add: mask_eq_exp_minus_1)
  show ?thesis unfolding m and_not_mask ..
qed

lemma surrogate_tests [simp]:
  "(w :: u16) AND 0xFC00 = 0xD800 \<longleftrightarrow> high_surrogate w" "w AND 0xFC00 = 0xDC00 \<longleftrightarrow> low_surrogate w"
proof -
  have d: "unat (drop_bit 10 w) = unat w div 1024" by (simp add: unat_drop_bit)
  have "unat w < 65536" using unsigned_less [of w] by simp
  then have "unat w div 1024 * 1024 < 65536" by simp
  then have p: "unat (push_bit 10 (drop_bit 10 w)) = unat w div 1024 * 1024"
    using d by (simp add: push_bit_eq_mult unat_word_ariths mult.commute)
  show "w AND 0xFC00 = 0xD800 \<longleftrightarrow> high_surrogate w"
    unfolding unat_div_1024 unfolding word_unat_eq_iff p high_surrogate_def word_le_nat_alt word_less_nat_alt by auto
  show "w AND 0xFC00 = 0xDC00 \<longleftrightarrow> low_surrogate w"
    unfolding unat_div_1024 unfolding word_unat_eq_iff p low_surrogate_def word_le_nat_alt word_less_nat_alt by auto
qed

lemma ucast16_of_nat: "(ucast (of_nat n :: u32) :: u16) = of_nat n"
  by (rule bit_word_eqI) (simp add: bit_simps)

lemma ucast16_ucast: "(ucast (ucast u :: u32) :: u16) = u"
  by (rule bit_word_eqI) (simp add: bit_simps)

lemma unat32: "n < 2 ^ 32 \<Longrightarrow> unat (of_nat n :: u32) = n"
  by (simp only: unsigned_of_nat) (simp add: take_bit_nat_eq_self_iff)

lemma surrogate_pair_code:
  assumes "high_surrogate u" "low_surrogate v"
  shows "(push_bit 10 (ucast u - 0xD800) OR (ucast v - 0xDC00)) + 0x10000 = surrogate_pair u v"
    "0x10000 \<le> surrogate_pair u v" "scalar (surrogate_pair u v)" "utf16_units (surrogate_pair u v) = [u, v]"
proof -
  obtain a b where ab: "unat u = 0xD800 + a" "unat v = 0xDC00 + b" "a < 0x400" "b < 0x400"
  proof -
    have "unat u = 0xD800 + (unat u - 0xD800)" "unat v = 0xDC00 + (unat v - 0xDC00)"
      "unat u - 0xD800 < 0x400" "unat v - 0xDC00 < 0x400"
      using assms by (auto simp: high_surrogate_def low_surrogate_def word_le_nat_alt word_less_nat_alt)
    then show ?thesis by (rule that)
  qed
  have c: "surrogate_pair u v = of_nat (0x10000 + a * 0x400 + b)" by (simp add: surrogate_pair_def ab)
  have small: "0x10000 + a * 0x400 + b < 0x110000" using ab(3,4) by linarith
  then have uc: "unat (surrogate_pair u v) = 0x10000 + a * 0x400 + b" unfolding c by (intro unat32) simp
  have "(ucast u :: u32) = of_nat (0xD800 + a)" "(ucast v :: u32) = of_nat (0xDC00 + b)"
    using ab(1,2) by (metis of_nat_unat)+
  then have d: "ucast u - 0xD800 = (of_nat a :: u32)" "ucast v - 0xDC00 = (of_nat b :: u32)" by simp_all
  have "(of_nat b :: u32) OR push_bit 10 (of_nat a) = of_nat b + push_bit 10 (of_nat a)"
    using ab(4) by (intro or_mark [of _ 10]) (simp_all add: word_less_nat_alt unat32 take_bit_push_bit)
  then show "(push_bit 10 (ucast u - 0xD800) OR (ucast v - 0xDC00)) + 0x10000 = surrogate_pair u v"
    unfolding d by (simp add: or.commute push_bit_eq_mult c)
  show "0x10000 \<le> surrogate_pair u v" by (simp add: word_le_nat_alt uc)
  show "scalar (surrogate_pair u v)" using small by (simp add: scalar_def word_le_nat_alt word_less_nat_alt uc)
  have low: "surrogate_pair u v - 0x10000 = of_nat (a * 0x400 + b)" by (simp add: c)
  have ul: "unat (of_nat (a * 0x400 + b) :: u32) = a * 0x400 + b" using small by (intro unat32) simp
  have "unat (drop_bit 10 (of_nat (a * 0x400 + b) :: u32)) = a"
    unfolding unat_drop_bit ul using ab(4) by simp
  then have hi: "drop_bit 10 (of_nat (a * 0x400 + b) :: u32) = of_nat a" by (metis of_nat_unat ucast_id)
  have "(of_nat (a * 0x400 + b) AND 0x3FF :: u32) = take_bit 10 (of_nat (a * 0x400 + b))"
    by (simp add: take_bit_eq_mask mask_eq_exp_minus_1)
  also have "unat \<dots> = b"
    by (simp only: unsigned_take_bit_eq ul) (use ab(4) in \<open>simp add: take_bit_eq_mod\<close>)
  finally have lo: "(of_nat (a * 0x400 + b) AND 0x3FF :: u32) = of_nat b" by (metis of_nat_unat ucast_id)
  have "(of_nat a + 0xD800 :: u32) = of_nat (unat u)" "(of_nat b + 0xDC00 :: u32) = of_nat (unat v)"
    by (simp_all add: ab(1,2))
  then have "ucast (of_nat a + 0xD800 :: u32) = u" "ucast (of_nat b + 0xDC00 :: u32) = v"
    by (simp_all only: ucast16_ucast of_nat_unat)
  moreover have "\<not> surrogate_pair u v \<le> 0xFFFF" by (simp add: word_le_nat_alt uc)
  ultimately show "utf16_units (surrogate_pair u v) = [u, v]"
    by (simp add: utf16_units_def Let_def low hi lo del: of_nat_add of_nat_mult)
qed

lemma plain_unit:
  assumes "\<not> low_surrogate u" "\<not> high_surrogate u"
  shows "scalar (ucast u)" "utf16_units (ucast u) = [u]"
proof -
  have "unat u < 65536" using unsigned_less [of u] by simp
  then have u: "unat (ucast u :: u32) = unat u" by (simp add: unsigned_ucast_eq take_bit_nat_eq_self_iff)
  from \<open>unat u < 65536\<close> show "utf16_units (ucast u) = [u]" using u by (simp add: utf16_units_def word_le_nat_alt ucast16_ucast)
  show "scalar (ucast u)" using assms \<open>unat u < 65536\<close>
    by (auto simp: scalar_def low_surrogate_def high_surrogate_def word_le_nat_alt word_less_nat_alt u)
qed

lemma encode_length: "length (encode c) = utf32_codepoint_utf8_length c"
  by (simp add: encode_def utf32_codepoint_to_utf8_def utf32_codepoint_utf8_length_def utf8_tail_def Let_def)

lemma length_of_pair:
  assumes "0x10000 \<le> c" "scalar c"
  shows "utf32_codepoint_utf8_length c = 4"
  using assms by (auto simp: utf32_codepoint_utf8_length_def scalar_def word_le_nat_alt word_less_nat_alt)

lemma utf16_text_units: "utf16_text us = Some cs \<Longrightarrow> concat (map utf16_units cs) = us"
proof (induction us arbitrary: cs rule: utf16_text.induct)
  case 1
  then show ?case by simp
next
  case (2 u us)
  then show ?case
    using surrogate_pair_code(4) [of u] plain_unit [of u] by (auto split: if_splits list.splits)
qed

lemma utf16_text_ok:
  "utf16_text us = Some cs \<Longrightarrow>
     list_all scalar cs \<and>
     utf16_to_utf8_loop (us @ rest) (length us) = Some (concat (map encode cs)) \<and>
     utf16_to_utf8_length_loop (us @ rest) (length us) = Some (length (concat (map encode cs)))"
proof (induction us arbitrary: cs rule: utf16_text.induct)
  case 1
  then show ?case by simp
next
  case (2 u us)
  have nl: "\<not> low_surrogate u" using "2.prems" by (auto split: if_splits)
  show ?case
  proof (cases "high_surrogate u")
    case True
    then obtain v vs ds where us: "us = v # vs" "low_surrogate v" "utf16_text vs = Some ds"
      "cs = surrogate_pair u v # ds"
      using "2.prems" nl by (auto split: list.splits if_splits)
    note pair = surrogate_pair_code [OF True us(2)]
    from "2.IH"(1) [OF nl True us(1,2,3)] pair length_of_pair [OF pair(2,3)] True us show ?thesis
      by (simp add: encode_def [symmetric] encode_length Let_def)
  next
    case False
    then obtain ds where ds: "utf16_text us = Some ds" "cs = ucast u # ds" using "2.prems" nl by auto
    from "2.IH"(2) [OF nl False ds(1)] plain_unit [OF nl False] False ds show ?thesis
      by (simp add: encode_def [symmetric] encode_length Let_def)
  qed
qed

lemma encode_nonempty: "scalar c \<Longrightarrow> encode c \<noteq> []"
  by (erule scalar_cases) simp_all

lemma utf16_back:
  "list_all scalar cs \<Longrightarrow>
     utf8_to_utf16_no_null_terminator (concat (map encode cs) @ rest) (length (concat (map encode cs))) =
       Some (concat (map utf16_units cs)) \<and>
     utf8_to_utf16_length_loop (concat (map encode cs) @ rest) (length (concat (map encode cs))) m =
       Some (int (m + length (concat (map utf16_units cs))))"
proof (induction cs arbitrary: m)
  case Nil
  then show ?case by (simp add: utf8_to_utf16_no_null_terminator.simps utf8_to_utf16_length_loop.simps)
next
  case (Cons c cs)
  let ?bs = "concat (map encode cs)"
  have c: "scalar c" and cs: "list_all scalar cs" using Cons.prems by simp_all
  obtain b t where bt: "encode c = b # t" using encode_nonempty [OF c] by (cases "encode c") auto
  have k: "utf8_codepoint_len b = length (encode c)" using codepoint_encode(1) [OF c] bt by simp
  have cp: "utf8_to_utf32_codepoint (encode c @ ?bs @ rest) (length (encode c)) = Some c"
    by (rule codepoint_encode(2) [OF c])
  have n: "length (encode c) + length ?bs \<noteq> 0" using bt by simp
  have units: "length (utf16_units c) = 1 + (if c > 0xFFFF then 1 else 0)"
    by (simp add: utf16_units_def Let_def not_less)
  have head: "(case encode c @ ?bs @ rest of [] \<Rightarrow> x | b # bs \<Rightarrow> f b bs) = f b (t @ ?bs @ rest)" for x f
    by (simp add: bt)
  have "utf8_to_utf16_no_null_terminator (encode c @ ?bs @ rest) (length (encode c) + length ?bs) =
      Some (utf16_units c @ concat (map utf16_units cs))"
    unfolding utf8_to_utf16_no_null_terminator.simps [of "encode c @ ?bs @ rest"] if_not_P [OF n] head Let_def k cp
    using Cons.IH [OF cs] by simp
  moreover have "utf8_to_utf16_length_loop (encode c @ ?bs @ rest) (length (encode c) + length ?bs) m =
      Some (int (m + length (utf16_units c) + length (concat (map utf16_units cs))))"
    unfolding utf8_to_utf16_length_loop.simps [of "encode c @ ?bs @ rest"] if_not_P [OF n] head Let_def k cp units
    using Cons.IH [OF cs] by simp
  ultimately show ?case by simp
qed

lemma encode_all_standard:
  "list_all scalar cs \<Longrightarrow> concat (map encode cs) = map of_nat (concat (map (\<lambda>c. utf8_bytes (unat c)) cs))"
  by (induction cs) (simp_all add: encode_standard)

text \<open>C38: Well-formed UTF-16 comes through UTF-8 unchanged: utf16_to_utf8 writes the bytes that the
  standard gives the text and a zero, exactly as many bytes as utf16_to_utf8_length has said;
  utf8_to_utf16 makes of these bytes the units again and a zero, as many as utf8_to_utf16_length
  says; and neither reads past the text.
\<close>

theorem utf16_utf8_roundtrip:
  assumes "utf16_text us = Some cs" "us \<noteq> []"
  defines "bs \<equiv> map of_nat (concat (map (\<lambda>c. utf8_bytes (unat c)) cs))"
  shows "utf16_to_utf8 us (length us) = Some (bs @ [0]) \<and>
    utf16_to_utf8_length us (length us) = Some (int (length bs)) \<and>
    utf8_to_utf16 bs (length bs) = Some (us @ [0]) \<and>
    utf8_to_utf16_length bs (length bs) = Some (int (length us))"
proof -
  have ok: "list_all scalar cs" "utf16_to_utf8_loop us (length us) = Some (concat (map encode cs))"
    "utf16_to_utf8_length_loop us (length us) = Some (length (concat (map encode cs)))"
    using utf16_text_ok [OF assms(1), of "[]"] by simp_all
  have bs: "bs = concat (map encode cs)" using encode_all_standard [OF ok(1)] by (simp add: bs_def)
  have again: "utf8_to_utf16_no_null_terminator bs (length bs) = Some us"
    "utf8_to_utf16_length_loop bs (length bs) 0 = Some (int (length us))"
    using utf16_back [OF ok(1), of "[]" 0] utf16_text_units [OF assms(1)] by (simp_all add: bs)
  show ?thesis
    using ok(2,3) again assms(2)
    by (simp add: utf16_to_utf8_def utf16_to_utf8_length_def utf8_to_utf16_def utf8_to_utf16_length_def bs)
qed

lemma utf16_utf8_roundtrip_witness:
  "utf16_to_utf8 [0x41, 0xE9, 0x20AC, 0xD834, 0xDD1E] 5 =
     Some [0x41, 0xC3, 0xA9, 0xE2, 0x82, 0xAC, 0xF0, 0x9D, 0x84, 0x9E, 0] \<and>
   utf8_to_utf16 [0x41, 0xC3, 0xA9, 0xE2, 0x82, 0xAC, 0xF0, 0x9D, 0x84, 0x9E] 10 =
     Some [0x41, 0xE9, 0x20AC, 0xD834, 0xDD1E, 0]"
proof -
  have t: "utf16_text [0x41, 0xE9, 0x20AC, 0xD834, 0xDD1E] = Some [0x41, 0xE9, 0x20AC, 0x1D11E]"
    by (simp add: low_surrogate_def high_surrogate_def surrogate_pair_def)
  note trip = utf16_utf8_roundtrip [OF t]
  have n: "length [0x41, 0xE9, 0x20AC, 0xD834, 0xDD1E :: u16] = 5" by simp
  have b: "map of_nat (concat (map (\<lambda>c. utf8_bytes (unat c)) [0x41, 0xE9, 0x20AC, 0x1D11E :: u32])) =
      [0x41, 0xC3, 0xA9, 0xE2, 0x82, 0xAC, 0xF0, 0x9D, 0x84, 0x9E :: u8]"
    by (simp add: utf8_bytes_def)
  have m: "length [0x41, 0xC3, 0xA9, 0xE2, 0x82, 0xAC, 0xF0, 0x9D, 0x84, 0x9E :: u8] = 10" by simp
  show ?thesis using trip unfolding n b m by simp
qed

section \<open>UTF-32\<close>

lemma push_add: "push_bit 6 w + (x AND 0x3F) = push_bit 6 w OR (x AND 0x3F :: u32)"
proof -
  have "push_bit 6 w AND (x AND 0x3F) = 0"
    by (rule word32_bits) (unfold less_32, auto simp: bit_simps)
  then show ?thesis using word_plus_and_or [of "push_bit 6 w" "x AND 0x3F"] by simp
qed

lemmas at_loop_or = at_loop.simps [unfolded push_add]

lemma masks [simp]:
  "drop_bit (Suc 0) (0x40 :: u32) = 0x20" "drop_bit (Suc 0) (0x20 :: u32) = 0x10" "drop_bit (Suc 0) (0x10 :: u32) = 8"
  by simp_all

lemma utf32_at_encode:
  assumes "scalar c"
  shows "utf32_at_internal (encode c @ rest) = Some (c, length (encode c))"
  using assms
proof (cases rule: scalar_cases)
  case one
  then have "c < 2 ^ 7" by simp
  note small = bit_small [OF this]
  have "char_bits (ucast c) = c"
    by (rule word32_bits) (unfold less_32, auto simp: bit_simps char_bits_def dest!: small)
  moreover have "\<not> bit c 7" using small [of 7] by blast
  ultimately show ?thesis using one by (simp add: utf32_at_internal_def)
next
  case two
  then have "c < 2 ^ 11" by simp
  note small = bit_small [OF this]
  let ?f = "char_bits (ucast (drop_bit 6 c OR 0xC0))"
  have f: "bit ?f 7" "bit ?f 6" "\<not> bit ?f 5"
    using small [of 11] by (auto simp: char_bits_def bit_simps)
  have "(push_bit 6 ?f OR (char_bits (tail_byte c) AND 0x3F)) AND NOT (push_bit 6 0xFFFFFFE0) = c"
    by (rule word32_bits)
      (unfold less_32, auto simp: char_bits_def tail_byte_def bit_simps dest!: small)
  then show ?thesis using two(3) f
    by (simp add: utf32_at_internal_def at_loop_or)
next
  case three
  then have "c < 2 ^ 16" by simp
  note small = bit_small [OF this]
  let ?f = "char_bits (ucast (drop_bit 12 c OR 0xE0))"
  have f: "bit ?f 7" "bit ?f 6" "bit ?f 5" "\<not> bit ?f 4"
    using small [of 16] by (auto simp: char_bits_def bit_simps)
  have "(push_bit 6 (push_bit 6 ?f OR (char_bits (tail_byte (drop_bit 6 c)) AND 0x3F)) OR (char_bits (tail_byte c) AND 0x3F))
      AND NOT (push_bit 12 0xFFFFFFF0) = c"
    by (rule word32_bits)
      (unfold less_32, auto simp: char_bits_def tail_byte_def bit_simps dest!: small)
  then show ?thesis using three(3) f
    by (simp add: utf32_at_internal_def at_loop_or)
next
  case four
  then have "c < 2 ^ 21" by simp
  note small = bit_small [OF this]
  let ?f = "char_bits (ucast (drop_bit 18 c OR 0xF0))"
  have f: "bit ?f 7" "bit ?f 6" "bit ?f 5" "bit ?f 4" "\<not> bit ?f 3"
    using small [of 21] by (auto simp: char_bits_def bit_simps)
  have "(push_bit 6 (push_bit 6 (push_bit 6 ?f OR (char_bits (tail_byte (drop_bit 12 c)) AND 0x3F)) OR (char_bits (tail_byte (drop_bit 6 c)) AND 0x3F)) OR (char_bits (tail_byte c) AND 0x3F))
      AND NOT (push_bit 18 0xFFFFFFF8) = c"
    by (rule word32_bits)
      (unfold less_32, auto simp: char_bits_def tail_byte_def bit_simps dest!: small)
  then show ?thesis using four(3) f
    by (simp add: utf32_at_internal_def at_loop_or)
qed

lemma skip_bits_encode:
  assumes "scalar c"
  shows "(char_bits (hd (encode c)) AND 0x80 = 0 \<longleftrightarrow> length (encode c) = 1) \<and>
    (length (encode c) \<noteq> 1 \<longrightarrow> skip_bits (char_bits (hd (encode c))) 0x40 1 = length (encode c))"
  using assms
proof (cases rule: scalar_cases)
  case one
  then have "c < 2 ^ 7" by simp
  note small = bit_small [OF this]
  have "\<not> bit c 7" using small [of 7] by blast
  then show ?thesis using one by (simp add: char_bits_def bit_simps)
next
  case two
  then have "c < 2 ^ 11" by simp
  note small = bit_small [OF this]
  have "\<not> bit c 11" using small [of 11] by blast
  then show ?thesis using two by (simp add: skip_bits.simps char_bits_def bit_simps)
next
  case three
  then have "c < 2 ^ 16" by simp
  note small = bit_small [OF this]
  have "\<not> bit c 16" using small [of 16] by blast
  then show ?thesis using three by (simp add: skip_bits.simps char_bits_def bit_simps)
next
  case four
  then have "c < 2 ^ 21" by simp
  note small = bit_small [OF this]
  have "\<not> bit c 21" using small [of 21] by blast
  then show ?thesis using four by (simp add: skip_bits.simps char_bits_def bit_simps)
qed

lemma utf32_back:
  "list_all scalar cs \<Longrightarrow>
     utf8_to_utf32_loop (concat (map encode cs)) (length (concat (map encode cs))) = Some cs \<and>
     utf8_to_utf32_length_loop (concat (map encode cs)) (length (concat (map encode cs))) m = Some (m + length cs)"
proof (induction cs arbitrary: m)
  case Nil
  then show ?case by (simp add: utf8_to_utf32_loop.simps utf8_to_utf32_length_loop.simps)
next
  case (Cons c cs)
  let ?bs = "concat (map encode cs)"
  have c: "scalar c" and cs: "list_all scalar cs" using Cons.prems by simp_all
  obtain b t where bt: "encode c = b # t" using encode_nonempty [OF c] by (cases "encode c") auto
  have n: "length (encode c) + length ?bs \<noteq> 0" using bt by simp
  have "utf8_to_utf32_loop (encode c @ ?bs) (length (encode c) + length ?bs) = Some (c # cs)"
    unfolding utf8_to_utf32_loop.simps [of "encode c @ ?bs"] if_not_P [OF n] utf32_at_encode [OF c]
    using Cons.IH [OF cs] by simp
  moreover have "utf8_to_utf32_length_loop (encode c @ ?bs) (length (encode c) + length ?bs) m = Some (m + Suc (length cs))"
  proof -
    have head: "(case encode c @ ?bs of [] \<Rightarrow> x | b # bs \<Rightarrow> f b bs) = f b (t @ ?bs)" for x f
      by (simp add: bt)
    have b: "hd (encode c) = b" by (simp add: bt)
    have skip: "char_bits b AND 0x80 = 0 \<longleftrightarrow> length (encode c) = 1"
      "length (encode c) \<noteq> 1 \<Longrightarrow> skip_bits (char_bits b) 0x40 1 = length (encode c)"
      using skip_bits_encode [OF c] unfolding b by blast+
    have "drop (length (encode c)) (encode c @ ?bs) = ?bs" "length (encode c) + length ?bs - length (encode c) = length ?bs"
      by simp_all
    then show ?thesis
      unfolding utf8_to_utf32_length_loop.simps [of "encode c @ ?bs"] if_not_P [OF n] head Let_def skip(1)
      using skip(2) Cons.IH [OF cs, of "m + 1"] by (cases "length (encode c) = 1") simp_all
  qed
  ultimately show ?case by simp
qed

lemma utf32_measured:
  "foldl (\<lambda>ret c. ret + utf32_codepoint_utf8_length c) k cs = k + length (concat (map encode cs))"
  by (induction cs arbitrary: k) (simp_all add: encode_length)

lemma utf32_written: "utf32_to_utf8_loop cs = concat (map encode cs)"
  by (induction cs) (simp_all add: encode_def)

text \<open>Text of Unicode characters comes through UTF-8 unchanged: utf32_to_utf8 writes the bytes of the
  standard and a zero, and utf8_to_utf32 makes of these the characters again and a zero; both are as
  long as the functions that measure say, and nothing past the text is read.
\<close>

theorem utf32_utf8_roundtrip:
  assumes "list_all scalar cs" "cs \<noteq> []"
  defines "bs \<equiv> map of_nat (concat (map (\<lambda>c. utf8_bytes (unat c)) cs))"
  shows "utf32_to_utf8 cs = bs @ [0] \<and> utf32_to_utf8_length cs = int (length bs) \<and>
    utf8_to_utf32 bs (length bs) = Some (cs @ [0]) \<and> utf8_to_utf32_length bs (length bs) = Some (length cs)"
proof -
  have bs: "bs = concat (map encode cs)" using encode_all_standard [OF assms(1)] by (simp add: bs_def)
  have "length bs \<noteq> 0"
    using assms(1,2) encode_nonempty by (cases cs) (auto simp: bs)
  moreover have again: "utf8_to_utf32_loop bs (length bs) = Some cs"
    "utf8_to_utf32_length_loop bs (length bs) 0 = Some (length cs)"
    using utf32_back [OF assms(1), of 0] unfolding bs [symmetric] by simp_all
  ultimately show ?thesis
    using assms(2) utf32_measured [of 0 cs] utf32_written [of cs]
    by (simp add: utf32_to_utf8_def utf32_to_utf8_length_def utf8_to_utf32_def utf8_to_utf32_length_def bs [symmetric])
qed

lemma utf32_utf8_roundtrip_witness:
  "utf32_to_utf8 [0x20AC] = [0xE2, 0x82, 0xAC, 0] \<and> utf8_to_utf32 [0xE2, 0x82, 0xAC] 3 = Some [0x20AC, 0]"
proof -
  have c: "list_all scalar [0x20AC]" by (simp add: scalar_def)
  have b: "map of_nat (concat (map (\<lambda>c. utf8_bytes (unat c)) [0x20AC :: u32])) = [0xE2, 0x82, 0xAC :: u8]"
    by (simp add: utf8_bytes_def)
  have n: "length [0xE2, 0x82, 0xAC :: u8] = 3" by simp
  show ?thesis using utf32_utf8_roundtrip [OF c] unfolding b n by simp
qed

section \<open>Text that is not well formed\<close>

lemma utf8_to_utf16_measured:
  "utf8_to_utf16_length_loop s n m = Some r \<Longrightarrow> 0 \<le> r \<Longrightarrow>
     \<exists>us. utf8_to_utf16_no_null_terminator s n = Some us \<and> r = int (m + length us)"
proof (induction s n m arbitrary: r rule: utf8_to_utf16_length_loop.induct)
  case (1 s n m)
  show ?case
  proof (cases "n = 0")
    case True
    then show ?thesis using "1.prems"
      by (simp add: utf8_to_utf16_length_loop.simps utf8_to_utf16_no_null_terminator.simps)
  next
    case False
    obtain b t c where s: "s = b # t" "utf8_to_utf32_codepoint s (utf8_codepoint_len b) = Some c"
      using False "1.prems"(1) unfolding utf8_to_utf16_length_loop.simps [of s n m]
      by (auto simp: Let_def split: list.splits option.splits)
    have fits: "\<not> n < utf8_codepoint_len b"
      and rest: "utf8_to_utf16_length_loop (drop (utf8_codepoint_len b) s) (n - utf8_codepoint_len b)
                   (m + 1 + (if c > 0xFFFF then 1 else 0)) = Some r"
      using False "1.prems" s unfolding utf8_to_utf16_length_loop.simps [of s n m]
      by (auto simp: Let_def split: if_splits)
    obtain us where us: "utf8_to_utf16_no_null_terminator (drop (utf8_codepoint_len b) s) (n - utf8_codepoint_len b) = Some us"
      "r = int (m + 1 + (if c > 0xFFFF then 1 else 0) + length us)"
      using "1.IH" [OF False s(1) refl s(2) fits rest "1.prems"(2)] by blast
    have "utf8_to_utf16_no_null_terminator s n = Some (utf16_units c @ us)"
      unfolding utf8_to_utf16_no_null_terminator.simps [of s n] using False s us(1) by (simp add: Let_def)
    then show ?thesis using us(2) by (auto simp: utf16_units_def Let_def not_less)
  qed
qed

text \<open>C39: Whatever the bytes are, well formed or not: when utf8_to_utf16_length has measured them and has
  not answered -1, utf8_to_utf16 writes exactly as many units as it has said, and a zero.
\<close>

theorem utf8_to_utf16_fits:
  assumes "utf8_to_utf16_length s n = Some r" "r \<noteq> - 1"
  shows "\<exists>us. utf8_to_utf16 s n = Some (us @ [0]) \<and> r = int (length us)"
proof -
  have "0 \<le> r"
  proof -
    have "utf8_to_utf16_length_loop s n m = Some r \<Longrightarrow> r = - 1 \<or> 0 \<le> r" for m
    proof (induction s n m rule: utf8_to_utf16_length_loop.induct)
      case (1 s n m)
      then show ?case unfolding utf8_to_utf16_length_loop.simps [of s n m]
        by (auto simp: Let_def split: if_splits list.splits option.splits)
    qed
    then show ?thesis using assms by (auto simp: utf8_to_utf16_length_def)
  qed
  then show ?thesis using utf8_to_utf16_measured [of s n 0 r] assms(1)
    by (auto simp: utf8_to_utf16_length_def utf8_to_utf16_def)
qed

lemma utf8_to_utf16_fits_witness:
  "\<exists>us. utf8_to_utf16 [0x80, 0xC1, 0x41] 3 = Some (us @ [0]) \<and> 2 = int (length us)"
proof -
  have "utf8_to_utf16_length [0x80, 0xC1, 0x41] 3 = Some 2"
    by (simp add: utf8_to_utf16_length_def utf8_to_utf16_length_loop.simps utf8_codepoint_len_bits
        utf8_to_utf32_codepoint_def utf8_shift_and_mask_def)
  then show ?thesis by (rule utf8_to_utf16_fits) simp
qed

text \<open>A high surrogate without its low one is measured short: of n times the units D800 and 0041,
  utf16_to_utf8_length says n bytes, because the test for a low surrogate has moved it past the
  D800, while utf16_to_utf8 takes the two for a pair and writes 3 n bytes and the zero.  One at the
  end makes it read past the text.
\<close>

theorem unpaired_surrogate_overflows:
  "\<exists>bs. utf16_to_utf8 (concat (replicate (Suc n) [0xD800, 0x41])) (2 * Suc n) = Some bs \<and> length bs = 3 * Suc n + 1 \<and>
     utf16_to_utf8_length (concat (replicate (Suc n) [0xD800, 0x41])) (2 * Suc n) = Some (int (Suc n)) \<and>
     utf16_to_utf8 [0xD800] 1 = None"
proof -
  have s: "high_surrogate 0xD800" "\<not> low_surrogate 0x41" "\<not> high_surrogate 0x41"
    by (simp_all add: high_surrogate_def low_surrogate_def)
  have "\<exists>bs. utf16_to_utf8_loop (concat (replicate k [0xD800, 0x41])) (2 * k) = Some bs \<and> length bs = 3 * k \<and>
      utf16_to_utf8_length_loop (concat (replicate k [0xD800, 0x41])) (2 * k) = Some k" for k
  proof (induction k)
    case 0
    then show ?case by simp
  next
    case (Suc k)
    then show ?case using s
      by (auto simp: utf32_codepoint_utf8_length_def utf32_codepoint_to_utf8_def utf8_tail_def Let_def)
  qed
  from this [of "Suc n"] show ?thesis using s by (auto simp: utf16_to_utf8_def utf16_to_utf8_length_def)
qed

text \<open>
  \<open>utf8_length\<close>: the loop over the first byte's bits stops at the zero at the latest, and its
  masks are bits of a byte.
\<close>

lemma length_bits_result:
  assumes "0 \<in> set s" "n \<le> 5" "\<forall>i \<ge> 8. \<not> bit t i \<and> \<not> bit m i"
  shows "\<exists>r. length_bits f n m t u s = Some r \<and>
    (case r of Inl e \<Rightarrow> e = - 1
     | Inr (n', m', t', u', cur') \<Rightarrow> n' \<le> 5 \<and> (\<forall>i \<ge> 8. \<not> bit t' i \<and> \<not> bit m' i))"
  using assms
proof (induction f n m t u s rule: length_bits.induct)
  case (1 f n m t u s)
  show ?case
  proof (cases "n < 5 \<and> f AND m \<noteq> 0")
    case False
    then show ?thesis unfolding length_bits.simps [of f n m t u s] if_not_P [OF False] using "1.prems" by simp
  next
    case True
    obtain b cs where s: "s = b # cs" using "1.prems"(1) by (cases s) auto
    show ?thesis
    proof (cases "char_bits b AND 0xC0 \<noteq> 0x80")
      case nt: True
      show ?thesis
        unfolding s length_bits.simps [of f n m t u "b # cs"] if_P [OF True] list.case if_P [OF nt] by simp
    next
      case nt: False
      have "b \<noteq> 0" using nt by (auto simp: char_bits_def)
      then have "0 \<in> set cs" using "1.prems"(1) s by auto
      moreover have "\<forall>i \<ge> 8. \<not> bit (t OR m) i \<and> \<not> bit (drop_bit 1 m) i"
        using "1.prems"(3) by (auto simp: bit_simps)
      ultimately show ?thesis
        using "1.IH" [OF True s nt] True
        unfolding s length_bits.simps [of f n m t u "b # cs"] if_P [OF True] list.case if_not_P [OF nt] by simp
    qed
  qed
qed

lemma sign_bits:
  assumes "bit b 7" "8 \<le> i" "i < 32"
  shows "bit (char_bits b) i"
  using assms by (simp add: char_bits_def bit_simps min_def)

lemma utf8_length_refuses:
  assumes "bit b 7" "0 \<in> set s"
  shows "utf8_length_loop (b # s) k = Some (- 1)"
proof -
  have b0: "b \<noteq> 0" using assms(1) by auto
  have b7: "bit (char_bits b) 7" using assms(1) by (simp add: char_bits_def bit_simps)
  obtain r where r: "length_bits (char_bits b) 1 0x40 0x80 0 s = Some r"
    "case r of Inl e \<Rightarrow> e = - 1
     | Inr (n', m', t', u', cur') \<Rightarrow> n' \<le> 5 \<and> (\<forall>i \<ge> 8. \<not> bit t' i \<and> \<not> bit m' i)"
  proof -
    have "\<forall>i \<ge> 8. \<not> bit (0x80 :: u32) i \<and> \<not> bit (0x40 :: u32) i"
    proof (intro allI impI)
      fix i :: nat assume "8 \<le> i"
      then show "\<not> bit (0x80 :: u32) i \<and> \<not> bit (0x40 :: u32) i"
        using bit_small [of "0x80 :: u32" 8 i] bit_small [of "0x40 :: u32" 8 i] by auto
    qed
    then show ?thesis using length_bits_result [OF assms(2), of 1 "0x80" "0x40"] that by force
  qed
  have big: "\<not> u' OR push_bit (6 * (n' - 1)) (NOT (t' OR m') AND char_bits b) \<le> kUnicodeMaxCodepoint"
    if "n' \<le> 4" "\<forall>i \<ge> 8. \<not> bit t' i \<and> \<not> bit m' i" for n' m' t' u'
  proof
    let ?w = "u' OR push_bit (6 * (n' - 1)) (NOT (t' OR m') AND char_bits b)"
    assume "?w \<le> kUnicodeMaxCodepoint"
    then have "?w < 2 ^ 21" by (simp add: word_le_nat_alt word_less_nat_alt)
    moreover have "6 * (n' - 1) \<le> 18" using that(1) by simp
    then have "8 \<le> 31 - 6 * (n' - 1)" "31 - 6 * (n' - 1) < 32" "6 * (n' - 1) \<le> 31" by simp_all
    then have "bit ?w 31" using that(2) sign_bits [OF assms(1)] by (simp add: bit_simps)
    ultimately show False using bit_small [of ?w 21 31] by simp
  qed
  show ?thesis
    unfolding utf8_length_loop.simps [of "b # s"] using b0 b7 r big
    by (auto simp: Let_def not_le split: sum.splits)
qed

text \<open>C40: utf8_length, built where char is signed, as the port is: on any memory with a zero in it, it
  reads no further than the zero, and it answers the number of bytes before the zero when they are
  all ASCII, and -1 when there is any other byte, also for well-formed UTF-8.
\<close>

theorem utf8_length_ascii_only:
  assumes "0 \<notin> set cs"
  shows "utf8_length (cs @ 0 # rest) = Some (if \<forall>b \<in> set cs. b < 0x80 then int (length cs) else - 1)"
proof -
  have "utf8_length_loop (cs @ 0 # rest) k = Some (if \<forall>b \<in> set cs. b < 0x80 then int (k + length cs) else - 1)" for k
    using assms
  proof (induction cs arbitrary: k)
    case Nil
    then show ?case by (simp add: utf8_length_loop.simps)
  next
    case (Cons b cs)
    have ascii: "b < 0x80 \<longleftrightarrow> \<not> bit b 7"
    proof
      have "bit b 7 \<Longrightarrow> b < 2 ^ 7 \<Longrightarrow> False" using bit_small [of b 7 7] by blast
      then show "b < 0x80 \<Longrightarrow> \<not> bit b 7" by auto
      show "b < 0x80" if "\<not> bit b 7"
      proof -
        have "bit b i = bit (take_bit 7 b) i" if "i < 8" for i
          using that \<open>\<not> bit b 7\<close> by (cases "i = 7") (auto simp: bit_take_bit_iff)
        then have "b = take_bit 7 b" by (intro bit_word_eqI) simp
        then have "unat b = unat b mod 2 ^ 7"
          by (metis take_bit_eq_mod unsigned_take_bit_eq)
        moreover have "unat b mod 2 ^ 7 < 2 ^ 7" by simp
        ultimately show ?thesis by (simp add: word_less_nat_alt)
      qed
    qed
    show ?case
    proof (cases "bit b 7")
      case True
      then show ?thesis using utf8_length_refuses [OF True, of "cs @ 0 # rest" k] ascii by auto
    next
      case False
      then have "char_bits b AND 0x80 = 0" by (simp add: char_bits_def bit_simps)
      then have "utf8_length_loop (b # cs @ 0 # rest) k = utf8_length_loop (cs @ 0 # rest) (k + 1)"
        unfolding utf8_length_loop.simps [of "b # cs @ 0 # rest"] using Cons.prems by simp
      then show ?thesis using Cons.IH [of "k + 1"] Cons.prems ascii False by simp
    qed
  qed
  from this [of 0] show ?thesis by (simp add: utf8_length_def)
qed

lemma utf8_length_ascii_only_witness:
  "utf8_length [0x41, 0x42, 0] = Some 2 \<and> utf8_length [0xC3, 0xA9, 0] = Some (- 1)"
  using utf8_length_ascii_only [of "[0x41, 0x42]" "[]"] utf8_length_ascii_only [of "[0xC3, 0xA9]" "[]"] by simp

text \<open>strncpy16 keeps the low byte of a unit, with its sign, and stops where that is zero.\<close>

theorem strncpy16_cuts:
  "strncpy16 [0x20AC, 0x100, 0x41, 0] 3 = Some [0xFFAC, 0, 0]"
proof -
  have "(3 :: nat) = Suc (Suc (Suc 0))" by simp
  moreover have "(ucast (char_bits 8364) :: u16) = 0xFFAC" "(ucast (char_bits 256) :: u16) = 0"
    unfolding char_bits_def by code_simp+
  ultimately show ?thesis unfolding strncpy16_def by (simp only: strncpy16_loop.simps) simp
qed

section \<open>Comparing\<close>

lemma strzcmp16_h_n_order: "strzcmp16_h_n s1 s2 = strzcmp16 s1 (map ntohs s2)"
  by (induction s1 s2 rule: strzcmp16_h_n.induct) (simp_all add: Let_def)

lemma units_strlen_zero: "0 \<notin> set s \<Longrightarrow> units_strlen (s @ 0 # rest) = Some (length s)"
  by (induction s) auto

lemma strcpy16_copies: "0 \<notin> set s \<Longrightarrow> strcpy16 (s @ 0 # rest) = Some (s @ [0])"
  by (induction s) auto

lemma unit_pos: "u \<noteq> 0 \<Longrightarrow> 0 < uint (u :: u16)"
  by (simp add: uint_0_iff order_less_le)

text \<open>
  The comparison of two strings without a zero is their lexicographic order, and the same for
  strings of a given length and for strings that end with a zero.
\<close>

theorem strings_compared_in_order:
  assumes "0 \<notin> set s1" "0 \<notin> set s2"
  shows "strcmp16 (s1 @ 0 # r1) (s2 @ 0 # r2) = Some (strzcmp16 s1 s2) \<and>
    (strzcmp16 s1 s2 = 0 \<longleftrightarrow> s1 = s2) \<and>
    (strzcmp16 s1 s2 < 0 \<longleftrightarrow> (s1, s2) \<in> lexord {(a, b). a < b})"
  using assms
proof (induction s1 s2 rule: strzcmp16.induct)
  case 1
  then show ?case by simp
next
  case (2 b s2)
  then show ?case using unit_pos [of b] by auto
next
  case (3 a s1)
  then show ?case using unit_pos [of a] by auto
next
  case (4 a s1 b s2)
  have "uint a < uint b \<longleftrightarrow> a < b" by (simp add: word_less_def)
  moreover have "uint a - uint b = 0 \<longleftrightarrow> a = b" by (simp add: word_uint_eq_iff)
  ultimately show ?case using 4 by (auto simp: Let_def)
qed

end
