(* ===== verification/Spec2Isabelle.thy ===== *)
theory Spec2Isabelle
  imports DeviceSystem ReadLoop TxnObjects ServiceCalls StrParmsSpec DownmixInFactory StateQueueSpec LinearTransformSpec PipeSpec MonoPipeClock UnicodeSpec
begin

text \<open>
  A verification development for the Android audioflinger port: the audio service of Android
  brought to a plain Linux, with the parts of Android that it stands on.

  \<^bold>\<open>The program.\<close>  The services of the port talk over binder.  \<open>driver/binder/\<close> is the kernel
  module: processes open its device file, map a buffer area, and exchange transactions and
  references through ioctls.  \<open>servicemanager/\<close> is the process behind handle 0, where services
  are published and looked up; it has its own small client library, \<open>servicemanager/binder.c\<close>,
  which writes and reads the parcels.  \<open>libs/cutils\<close> holds the containers and parsers that the
  audio code configures itself with: a hash map, sets of "key=value" parameters on top of it,
  and configuration trees.  \<open>libs/libeffects/factory\<close> loads the effect libraries named in such
  a configuration file and hands out their effects; \<open>libs/libeffects/downmix\<close> is one of these
  libraries and mixes multichannel sound to stereo, with the sample arithmetic of
  \<open>libs/audio_utils\<close>.  The threads of audioflinger pass sound and state to each other without
  locks: through the pipes of \<open>libs/libnbaio\<close>, whose time is counted with the linear transforms
  of \<open>libs/utils\<close>, and through the state queue of \<open>libs/audioflinger\<close> that the fast mixer reads.
  The text in the messages of all of them is converted by \<open>libs/utils/Unicode.cpp\<close>.

  \<^bold>\<open>Conventions.\<close>  (\<open>Prelude\<close>)  A C struct is a record, an enum a datatype or its constants, an
  integer of the 32-bit build a word of its width.  Errors are the codes that the code returns.
  What stops the machine or crashes the process (\<open>BUG_ON\<close>, a NULL or freed pointer, reading
  past an array) is \<open>None\<close>; so a theorem that a result is \<open>Some\<close> says that this does not happen.
  Kernel objects are found by address in maps of \<open>binder_state\<close>: an address in no map is freed.
  Code outside the repository is a parameter: the rebalancing of red-black trees (\<open>rb\<close>, with
  \<open>rb_ok\<close> for its documented behaviour), the kernel's memory, file and
  scheduling functions (\<open>page_env\<close>, \<open>kenv\<close>), malloc, the effect libraries, the linker and the file system
  (\<open>effects_env\<close>).

  \<^bold>\<open>The driver\<close> (\<open>driver/binder/binder.c\<close>, \<open>binder.h\<close>)
  \<^item> \<open>RbTree\<close>: the descents that the driver writes over \<open>rb_node\<close>s.
  \<^item> \<open>BinderAlloc\<close>: binder_buffer_size to binder_free_buf, and binder_mmap, on the
    allocator's part of \<open>struct binder_proc\<close>.  \<open>AllocPages\<close>, \<open>AllocInvariant\<close>, \<open>AllocTake\<close>,
    \<open>AllocOps\<close> and \<open>AllocRelease\<close> hold the invariant \<open>area_valid\<close> of a mapped area (the buffers
    tile the area, two free ones are never neighbours, the trees hold exactly the free and the
    allocated ones, the pages present are those in use) and what each operation does to it;
    \<open>AllocSpec\<close> states the contract.
  \<^item> \<open>BinderState\<close>: the structs, the protocol's constants and the memory accesses.
  \<^item> \<open>BinderRefs\<close>: nodes and references.  \<open>RefsInvariant\<close> is their invariant, with a hole for
    the middle of an operation; \<open>RefsSpec\<close> states that counts add up in all reachable states
    and what each operation does, its errors included.  The counts are C ints: nothing in the
    code keeps a client from raising one 2^32 times, and the invariant holds up to the step that
    wraps a strong count around to 0, which \<open>inc_ref_exact\<close> shows to break it.
  \<^item> \<open>BinderFiles\<close>: descriptors passed to another process, with its theorem.
  \<^item> \<open>BinderTxn\<close>, \<open>BinderTransact\<close>: binder_transaction and what releases a transaction.
    \<open>TxnReply\<close> proves the way of a failed reply and of a nested call, \<open>TxnObjects\<close> that objects
    keep their identity on their way through processes; \<open>Frames\<close> holds what the operations on
    objects leave alone.
  \<^item> \<open>BinderThread\<close>: binder_thread_write, one definition per command.
  \<^item> \<open>BinderRead\<close>: binder_thread_read, cut where it gives up the lock to sleep, and the life of
    threads.  \<open>ReadSpec\<close> and \<open>ReadLoop\<close>: it writes only in its buffer, and its loop ends.
  \<^item> \<open>BinderDevice\<close>: the file operations and the deferred work.  \<open>DeviceSystem\<close> makes a
    transition system of them, one step for what runs under the lock in one piece, in any
    interleaving of tasks; \<open>LooperFrames\<close>, \<open>Loopers\<close> and \<open>ThreadPool\<close> carry the invariant of
    the thread counters through every operation.

  \<^bold>\<open>The service manager\<close> (\<open>servicemanager/\<close>)
  \<^item> \<open>BinderIo\<close>: \<open>struct binder_io\<close>, a cursor in memory, and its operations.  \<open>ParcelSpec\<close>: the
    format of a parcel, the round trip (and what a NULL reference does to it) and the bounds.
  \<^item> \<open>BinderClient\<close>: binder_parse, binder_call and the loops around the ioctls.
  \<^item> \<open>ServiceManager\<close>: \<open>service_manager.c\<close>, the list of services in memory and the handler.
    \<open>RegistrySpec\<close>: the list implements a map from names to handles, and its invariant holds
    whatever arrives; \<open>ServiceCalls\<close>: a request from the client's parcel to the answer, after
    any other requests and deaths between the publication and the look-up (\<open>other_event\<close>).

  \<^bold>\<open>libcutils\<close>
  \<^item> \<open>Hashmap\<close> (\<open>hashmap.c\<close>) and \<open>HashmapSpec\<close>: the table of chains, its invariant \<open>hm_ok\<close> and the
    map \<open>contents\<close> it stands for.
  \<^item> \<open>StrParms\<close> (\<open>str_parms.c\<close>) and \<open>StrParmsSpec\<close>: parsing equals a reference definition, and
    undoes printing but for an empty key, which it drops.
  \<^item> \<open>ConfigUtils\<close> (\<open>config_utils.c\<close>, \<open>load_file.c\<close>) and \<open>ConfigUtilsSpec\<close>: the scanner and the
    parser, the shape of every loaded tree, and the round trip with a printed form.

  \<^bold>\<open>Audio effects\<close>
  \<^item> \<open>EffectsFactory\<close> (\<open>EffectsFactory.c\<close>) and \<open>EffectsSpec\<close>: the lists of libraries, descriptors and
    handles, what holds of them in every state the interface can reach, and what a configuration
    file of any number of libraries and effects leaves in them.
  \<^item> \<open>EffectDownmix\<close> (\<open>EffectDownmix.c\<close>) and \<open>EffectDownmixSpec\<close>: the mixing loops on memory,
    the commands and the states of a module; the special loops equal the generic one.
  \<^item> \<open>DownmixInFactory\<close>: both together, from a configuration file to stereo samples.
  \<^item> \<open>AudioPrimitives\<close> (\<open>primitives.c\<close>, \<open>primitives.h\<close>) and \<open>AudioPrimitivesSpec\<close>: clamping and
    the conversions of samples.

  \<^bold>\<open>Threads without locks\<close>  A method is cut at its accesses to what both threads use; a program
  counter and a record of the locals say where a thread is, and the theorems hold for every
  interleaving of such steps.  The memory is taken to be sequentially consistent, which is what
  the barriers of the code are there for.
  \<^item> \<open>StateQueue\<close> (\<open>audioflinger/StateQueue.cpp\<close>, \<open>StateQueue.h\<close>) and \<open>StateQueueSpec\<close>: the
    mutator's calls and the observer's poll; the state that the observer holds is never written,
    and it sees the pushed states in their order.
  \<^item> \<open>Nbaio\<close> (\<open>NBAIO.cpp\<close>, \<open>roundup.cpp\<close>): formats, negotiation, buffers of frames.  \<open>RingBuffer\<close>
    is what the two pipes share: a counter of 32 bits as a place in a stream, and transfers in one
    or two memcpys.
  \<^item> \<open>Pipe\<close> (\<open>Pipe.cpp\<close>, \<open>PipeReader.cpp\<close>) and \<open>PipeSpec\<close>: the writer that never waits, and its
    readers, each a place in the stream.  \<open>pipe_step\<close> cuts a read and a write into their parts: a
    reader too far behind gets OVERRUN when it looks, and frames that the writer comes around to
    while it copies are later ones, which may pass unnoticed (\<open>overrun_escapes\<close>).
  \<^item> \<open>MonoPipe\<close> (\<open>MonoPipe.cpp\<close>, \<open>MonoPipeReader.cpp\<close>), \<open>MonoPipeSpec\<close> and \<open>MonoPipeClock\<close>: one
    writer and one reader; the frames pass in order, no memcpy meets another, and the front and
    its time are observed as one pair, as long as fewer than 2^31 updates happen between two loads
    of the sequence number.  \<open>mSamplesToLocalTime\<close>, which both threads may set to 0, is read and
    written in one step.

  \<^bold>\<open>libutils\<close>
  \<^item> \<open>LinearTransform\<close> (\<open>LinearTransform.cpp\<close>) and \<open>LinearTransformSpec\<close>: the transforms give the
    exact image rounded down or refuse it; the fraction is reduced to lowest terms.
  \<^item> \<open>Unicode\<close> (\<open>Unicode.cpp\<close>) and \<open>UnicodeSpec\<close>: the conversions between UTF-8, UTF-16 and UTF-32
    against the encodings of the standard, the lengths that they are measured with, and what is
    done with text that is not well formed.

  \<^bold>\<open>Interfaces.\<close>  Each locale is what one part relies on, interpreted on the model of the part
  that provides it.
  \<^item> \<open>buffer_pool\<close> (\<open>AllocSpec\<close>): allocation and release as a transaction uses them; the instance
    is the allocator under \<open>area_valid\<close>.
  \<^item> \<open>object_table\<close> (\<open>RefsSpec\<close>): a tree of the driver as a map from keys; the instance is any
    red-black tree that satisfies \<open>rb_ok\<close>.
  \<^item> \<open>served_invariant\<close> (\<open>RegistrySpec\<close>): what a handler keeps, a binder_loop keeps; the instance
    is the service manager.
  \<^item> \<open>hash_keys\<close> (\<open>HashmapSpec\<close>): hash and equality of a map's user; the instances are those of
    str_parms and hashmapIntHash with hashmapIntEquals.
  \<^item> \<open>expr_reader\<close> (\<open>ConfigUtilsSpec\<close>): a loop that reads expressions; the instances are parse_block
    and the loop of config_load.
  \<^item> \<open>effect_provider\<close> (\<open>DownmixInFactory\<close>): what the factory expects of a library; the instance is
    the downmix library.

  \<^bold>\<open>Loops.\<close>  Loops over lists, trees and counted loops are structural recursions.  Loops that
  advance through a text, a buffer or a range of addresses are functions with that distance as
  their measure.  The loops whose end depends on the state are \<open>partial_function (option)\<close>, where
  a loop that never ends is None like a crash, and no fuel is chosen.  That they end is proved:
  \<open>woken_thread_returns\<close> for the delivery loop of binder_thread_read, \<open>failed_reply_reaches_caller\<close>
  and \<open>nested_call_goes_to_waiting_thread\<close> for the walks over stacks of callers,
  \<open>passed_file_gets_lowest_descriptor\<close> for the search of a descriptor, \<open>hashmapCreate_returns\<close> for
  the size of a table, \<open>bio_get_string16_bounds\<close> and the theorems on requests for the strings in
  parcels.  For the loops of the deferred release of a process (\<open>release_threads\<close> to
  \<open>release_buffers\<close>) only what holds when they end is proved (\<open>thread_pool_invariant\<close>).  The
  ioctl loops of the client library run over the list of what the ioctls return: a run of the
  service manager is a finite prefix of its life, and the invariants hold after every one.

  \<^bold>\<open>Not modelled.\<close>
  \<^item> In the driver: what is printed for debugfs, the module's initialisation, and the statistics
    and log messages, which nothing reads back.  Locks do not appear but through the places where
    they are given up.
  \<^item> In libcutils: the float parameters and str_parms_dump, the freeing and the mutex of a hash
    map, and the wrappers of system calls (sockets, ashmem, properties, processes, threads).
  \<^item> In audio_utils: the resampler, which calls the speex library, the fixed-point FFT and the
    echo reference.  \<open>bctest.c\<close> is a test program.
  \<^item> In libnbaio: writeVia and readVia, and the sources and sinks that are files, streams or
    providers of buffers.  In libutils: all but the two files above.
  \<^item> The rest of the C++ parts (libbinder, libmedia, the threads, tracks and mixers of
    audioflinger, common_time, stagefright and the preprocessing effects), and the third-party code kept in the repository (the LVM effects, the
    codecs and OpenMAX).
\<close>

end
